(* ===== verification/Prelude.thy ===== *)
theory Prelude
  imports Main "HOL-Library.Word" "HOL-Library.Multiset"
begin

text \<open>
  Shared vocabulary of the development: the error type of kernel code and its
  sequencing combinator, the constants of \<^verbatim>\<open>param.h\<close>, and the generic facts on
  lists, options and sums that the component theories use.

  A kernel function that can stop the machine returns \<open>kerr + 'a\<close>. \<open>Inl\<close> carries
  the reason: a call of \<^verbatim>\<open>panic\<close> with its message, a dereference of a null pointer, an
  index outside its array, a lock that is held by another processor (the caller spins), or
  a loop over a linked structure that did not come to its end.
\<close>

section \<open>Errors and sequencing\<close>

datatype kerr = Panic string | NullDeref | OutOfBounds | Spinning | Diverges

definition bindE :: "kerr + 'a \<Rightarrow> ('a \<Rightarrow> kerr + 'b) \<Rightarrow> kerr + 'b" where
  "bindE m f = (case m of Inl e \<Rightarrow> Inl e | Inr x \<Rightarrow> f x)"

lemma bindE_simps [simp]:
  "bindE (Inl e) f = Inl e"
  "bindE (Inr x) f = f x"
  by (simp_all add: bindE_def)

lemma bindE_Inr_iff: "bindE m f = Inr y \<longleftrightarrow> (\<exists>x. m = Inr x \<and> f x = Inr y)"
  by (cases m) auto

lemma bindE_Inr_E [elim]:
  assumes "bindE m f = Inr y"
  obtains x where "m = Inr x" and "f x = Inr y"
  using assms by (auto simp: bindE_Inr_iff)

lemma bindE_assoc: "bindE (bindE m f) g = bindE m (\<lambda>x. bindE (f x) g)"
  by (cases m) auto

lemma bindE_cong [fundef_cong]: "m = m' \<Longrightarrow> (\<And>x. m' = Inr x \<Longrightarrow> f x = g x) \<Longrightarrow> bindE m f = bindE m' g"
  by (cases m') auto

text \<open>A pointer into an array of structures is \<open>None\<close> for NULL and \<open>Some i\<close> for the
  address of element \<open>i\<close>; reading through NULL stops the machine.\<close>

type_synonym ptr = "nat option"

definition deref :: "ptr \<Rightarrow> kerr + nat" where
  "deref p = (case p of None \<Rightarrow> Inl NullDeref | Some i \<Rightarrow> Inr i)"

lemma deref_simps [simp]: "deref None = Inl NullDeref" "deref (Some i) = Inr i"
  by (simp_all add: deref_def)

text \<open>A successful computation whose result satisfies a postcondition.\<close>

definition succeeds :: "kerr + 'a \<Rightarrow> ('a \<Rightarrow> bool) \<Rightarrow> bool" where
  "succeeds m P = (case m of Inl _ \<Rightarrow> False | Inr x \<Rightarrow> P x)"

lemma succeeds_simps [simp]:
  "succeeds (Inl e) P = False"
  "succeeds (Inr x) P = P x"
  by (simp_all add: succeeds_def)

lemma succeeds_iff: "succeeds m P \<longleftrightarrow> (\<exists>x. m = Inr x \<and> P x)"
  by (cases m) auto

lemma succeedsE [elim]:
  assumes "succeeds m P"
  obtains x where "m = Inr x" and "P x"
  using assms by (auto simp: succeeds_iff)

lemma succeeds_mono: "succeeds m P \<Longrightarrow> (\<And>x. P x \<Longrightarrow> Q x) \<Longrightarrow> succeeds m Q"
  by (cases m) auto

lemma succeeds_bindE: "succeeds m P \<Longrightarrow> (\<And>x. P x \<Longrightarrow> succeeds (f x) Q) \<Longrightarrow> succeeds (bindE m f) Q"
  by (cases m) auto

text \<open>A \<^verbatim>\<open>for\<close> loop whose body can fail.\<close>

fun foldE :: "('x \<Rightarrow> 's \<Rightarrow> kerr + 's) \<Rightarrow> 'x list \<Rightarrow> 's \<Rightarrow> kerr + 's" where
  "foldE f [] s = Inr s"
| "foldE f (x # xs) s = bindE (f x s) (foldE f xs)"

lemma foldE_append: "foldE f (xs @ ys) s = bindE (foldE f xs s) (foldE f ys)"
proof (induction xs arbitrary: s)
  case (Cons x xs)
  show ?case by (cases "f x s") (simp_all add: Cons.IH)
qed simp

text \<open>The rule for a counting loop: an invariant that the body carries from \<open>k\<close> to \<open>k + 1\<close>.\<close>

lemma foldE_upt:
  assumes "I 0 s" and "\<And>k s. k < n \<Longrightarrow> I k s \<Longrightarrow> succeeds (f k s) (I (Suc k))"
  shows "succeeds (foldE f [0..<n] s) (I n)"
  using assms(2)
proof (induction n)
  case 0
  then show ?case using assms(1) by simp
next
  case (Suc n)
  then have "succeeds (foldE f [0..<n] s) (I n)" by simp
  then obtain t where "foldE f [0..<n] s = Inr t" "I n t" by blast
  with Suc.prems [of n t] show ?case by (auto simp: foldE_append elim!: succeedsE)
qed

section \<open>Machine types and kernel constants\<close>

type_synonym u8 = "8 word"
type_synonym u32 = "32 word"

definition NPROC :: nat where "NPROC = 64"
definition NOFILE :: nat where "NOFILE = 16"

definition KERNBASE :: u32 where "KERNBASE = 0x80000000"
definition NQUEUE :: nat where "NQUEUE = 3"
definition PGSIZE :: u32 where "PGSIZE = 4096"
definition KSTACKSIZE :: u32 where "KSTACKSIZE = 4096"

text \<open>A sleep channel is the address of a kernel object. Distinct objects have distinct
  addresses, so a channel is the object itself: a process slot, the tick counter, or one of
  the other objects (buffers, pipes, the log), by number.\<close>

datatype chan = NullChan | ProcChan nat | TicksChan | ObjChan nat

definition proc_chan :: "ptr \<Rightarrow> chan" where
  "proc_chan p = (case p of None \<Rightarrow> NullChan | Some i \<Rightarrow> ProcChan i)"

lemma proc_chan_simps [simp]: "proc_chan None = NullChan" "proc_chan (Some i) = ProcChan i"
  by (simp_all add: proc_chan_def)

section \<open>Lists\<close>

lemma distinct_subset_length:
  assumes "distinct xs" and "set xs \<subseteq> {..<n}"
  shows "length xs \<le> n"
proof -
  have "card (set xs) \<le> card {..<n}"
    using assms(2) by (intro card_mono) auto
  with assms(1) show ?thesis
    by (simp add: distinct_card)
qed

lemma image_remove: "(\<And>j. j \<in> A \<Longrightarrow> f j = f i \<Longrightarrow> j = i) \<Longrightarrow> f ` (A - {i}) = f ` A - {f i}"
  by (rule set_eqI) (auto simp: image_iff)

lemma remove1_split: "p \<notin> set xs \<Longrightarrow> remove1 p (xs @ p # ys) = xs @ ys"
  by (simp add: remove1_append)

lemma takeWhile_neq_split [simp]:
  "b \<notin> set xs \<Longrightarrow> takeWhile (\<lambda>x. x \<noteq> b) (xs @ b # ys) = xs"
  "b \<notin> set xs \<Longrightarrow> dropWhile (\<lambda>x. x \<noteq> b) (xs @ b # ys) = b # ys"
  by (auto simp: takeWhile_append dropWhile_append)

lemma takeWhile_full: "length (takeWhile P xs) = length xs \<Longrightarrow> x \<in> set xs \<Longrightarrow> P x"
  by (induction xs) (auto split: if_splits)

lemma find_SomeD: "find P xs = Some b \<Longrightarrow> b \<in> set xs \<and> P b"
  by (induction xs) (auto split: if_splits)

lemma find_in: "find P xs = None \<or> find P xs \<in> Some ` set xs"
  by (cases "find P xs") (auto dest: find_SomeD)

lemma find_append: "find P (xs @ ys) = (case find P xs of None \<Rightarrow> find P ys | Some x \<Rightarrow> Some x)"
  by (induction xs) auto

lemma find_unique:
  assumes "x \<in> set xs" and "P x" and "\<And>y. y \<in> set xs \<Longrightarrow> P y \<Longrightarrow> y = x"
  shows "find P xs = Some x"
proof (cases "find P xs")
  case None
  with assms(1,2) show ?thesis by (auto simp: find_None_iff)
next
  case (Some y)
  then show ?thesis using find_SomeD [OF Some] assms(3) by blast
qed

lemma find_rev_upt_unique:
  assumes "i < n" and "P i" and "\<And>j. j < n \<Longrightarrow> P j \<Longrightarrow> j = i"
  shows "find P (rev [0..<n]) = Some i"
proof (rule find_unique)
  show "i \<in> set (rev [0..<n])" using assms(1) by simp
  show "P i" by (rule assms(2))
  fix j
  assume "j \<in> set (rev [0..<n])" and "P j"
  then show "j = i" by (intro assms(3)) simp_all
qed

lemma find_rev_upt_last:
  "find P (rev [0..<n]) = Some q \<Longrightarrow> q < n \<and> P q \<and> (\<forall>j. q < j \<and> j < n \<longrightarrow> \<not> P j)"
  by (induction n) (auto simp: less_Suc_eq split: if_splits)

lemma find_upt_first:
  "find P [i..<n] = Some q \<Longrightarrow> i \<le> q \<and> q < n \<and> P q \<and> (\<forall>j. i \<le> j \<and> j < q \<longrightarrow> \<not> P j)"
proof (induction n)
  case (Suc n)
  show ?case
  proof (cases "find P [i..<n]")
    case None
    then have "\<forall>j. i \<le> j \<and> j < n \<longrightarrow> \<not> P j" by (auto simp: find_None_iff)
    with Suc.prems None show ?thesis by (auto simp: find_append split: if_splits)
  next
    case (Some r)
    with Suc show ?thesis by (auto simp: find_append split: if_splits)
  qed
qed simp

section \<open>Ends of lists and chains of pointers\<close>

definition first_or :: "'a list \<Rightarrow> 'a option \<Rightarrow> 'a option" where
  "first_or xs d = (case xs of [] \<Rightarrow> d | x # _ \<Rightarrow> Some x)"

definition last_or :: "'a option \<Rightarrow> 'a list \<Rightarrow> 'a option" where
  "last_or d xs = (if xs = [] then d else Some (last xs))"

lemma first_or_simps [simp]:
  "first_or [] d = d" "first_or (x # xs) d = Some x"
  by (simp_all add: first_or_def)

lemma first_or_append [simp]: "first_or (xs @ ys) d = first_or xs (first_or ys d)"
  by (cases xs) auto

lemma last_or_simps [simp]:
  "last_or d [] = d" "last_or d (x # xs) = last_or (Some x) xs"
  by (simp_all add: last_or_def)

lemma last_or_append [simp]: "last_or d (xs @ ys) = last_or (last_or d xs) ys"
  by (induction xs arbitrary: d) auto

lemma first_or_eq [simp]: "p \<notin> set xs \<Longrightarrow> first_or xs d = Some p \<longleftrightarrow> xs = [] \<and> d = Some p"
  by (cases xs) auto

lemma last_or_eq [simp]: "p \<notin> set xs \<Longrightarrow> last_or d xs = Some p \<longleftrightarrow> xs = [] \<and> d = Some p"
  by (auto simp: last_or_def)

text \<open>\<open>chain nx xs e\<close>: following \<open>nx\<close> from the first element of \<open>xs\<close> visits exactly \<open>xs\<close> and
  comes to \<open>e\<close>.\<close>

fun chain :: "('a \<Rightarrow> 'a option) \<Rightarrow> 'a list \<Rightarrow> 'a option \<Rightarrow> bool" where
  "chain nx [] e = True"
| "chain nx (x # xs) e \<longleftrightarrow> nx x = first_or xs e \<and> chain nx xs e"

lemma chain_append [simp]: "chain nx (xs @ ys) e \<longleftrightarrow> chain nx xs (first_or ys e) \<and> chain nx ys e"
  by (induction xs) auto

lemma chain_cong: "(\<And>x. x \<in> set xs \<Longrightarrow> nx x = nx' x) \<Longrightarrow> chain nx xs e = chain nx' xs e"
  by (induction xs) auto

lemma chain_upd_other [simp]: "x \<notin> set xs \<Longrightarrow> chain (nx(x := v)) xs e = chain nx xs e"
  by (rule chain_cong) auto

section \<open>Sequences of operations\<close>

text \<open>A run of operations with their results, and the contract of a functional refinement: where one operation of the code does what
  the specification does on the abstract state, so does every sequence of operations.\<close>

fun run_ops :: "('o \<Rightarrow> 's \<Rightarrow> 'r \<times> 's) \<Rightarrow> 'o list \<Rightarrow> 's \<Rightarrow> 'r list \<times> 's" where
  "run_ops f [] s = ([], s)"
| "run_ops f (x # xs) s = (let (r, t) = f x s; (rs, u) = run_ops f xs t in (r # rs, u))"

locale functional_refinement =
  fixes step :: "'o \<Rightarrow> 's \<Rightarrow> 'r \<times> 's"
    and spec :: "'o \<Rightarrow> 'a \<Rightarrow> 'r \<times> 'a"
    and abs_of :: "'s \<Rightarrow> 'a"
    and inv :: "'s \<Rightarrow> bool"
  assumes sim: "inv s \<Longrightarrow> step x s = (r, t) \<Longrightarrow> inv t \<and> spec x (abs_of s) = (r, abs_of t)"
begin

lemma runs_refine: "inv s \<Longrightarrow> run_ops step xs s = (rs, t) \<Longrightarrow> inv t \<and> run_ops spec xs (abs_of s) = (rs, abs_of t)"
proof (induction xs arbitrary: s rs)
  case (Cons x xs)
  obtain r u where u: "step x s = (r, u)" by force
  obtain qs v where v: "run_ops step xs u = (qs, v)" by force
  have e: "rs = r # qs" "t = v" using Cons.prems(2) u v by simp_all
  note 1 = sim [OF Cons.prems(1) u]
  with Cons.IH [of u qs] v show ?case by (simp add: e)
qed simp

end

end
