(* ===== verification/ProcQueue.thy ===== *)
theory ProcQueue
  imports Prelude
begin

text \<open>
  The process queues of the MLFQ kernel (\<^verbatim>\<open>src/Project1/proc.c\<close>, lines 22--124 and
  447--472, over the structures of \<^verbatim>\<open>proc.h\<close> and \<^verbatim>\<open>scheduler.h\<close>): doubly linked
  lists threaded through the \<^verbatim>\<open>prev\<close> and \<^verbatim>\<open>next\<close> fields of the process table,
  with a head, a tail and a count. The process table is a function from slot numbers to
  \<open>proc\<close> records, so that the five queues share one heap, as they do in the code.

  The theory shows that the pointer code refines operations on lists: \<open>rep h q xs\<close> says
  that queue \<open>q\<close> over the table \<open>h\<close> holds exactly the slots \<open>xs\<close>, in order, with
  both link directions and the count consistent.
\<close>

section \<open>The process structure\<close>

datatype procstate = UNUSED | EMBRYO | SLEEPING | RUNNABLE | RUNNING | ZOMBIE

text \<open>The registers of \<^verbatim>\<open>struct trapframe\<close> that the kernel code reads or writes, and
  \<^verbatim>\<open>struct context\<close>.\<close>

record trapframe =
  tf_eax :: u32
  tf_esp :: u32
  tf_eip :: u32
  tf_cs :: u32
  tf_ds :: u32
  tf_es :: u32
  tf_ss :: u32
  tf_eflags :: u32
  tf_trapno :: u32

record kcontext =
  ctx_edi :: u32
  ctx_esi :: u32
  ctx_ebx :: u32
  ctx_ebp :: u32
  ctx_eip :: u32

text \<open>\<^verbatim>\<open>struct proc\<close>. The fields \<^verbatim>\<open>prev\<close> and \<^verbatim>\<open>next\<close> are \<open>prev_p\<close> and
  \<open>next_p\<close> here. Kernel addresses (\<^verbatim>\<open>pgdir\<close>, \<^verbatim>\<open>kstack\<close>) are 32-bit words
  with 0 for NULL. The trap frame and the context are structures inside the kernel stack page:
  \<open>tf_ptr\<close> and \<open>ctx_ptr\<close> are their addresses, \<open>tf\<close> and \<open>ctx\<close> their
  contents, and \<open>ret_word\<close> is the word above the context, to which \<^verbatim>\<open>forkret\<close> returns.\<close>

record proc =
  sz :: u32
  pgdir :: u32
  kstack :: u32
  state :: procstate
  pid :: int
  parent :: ptr
  tf_ptr :: u32
  tf :: trapframe
  ctx_ptr :: u32
  ctx :: kcontext
  ret_word :: u32
  chan :: chan
  killed :: bool
  ofile :: "ptr list"
  cwd :: ptr
  name :: string
  priority :: int
  queuelevel :: int
  ticks :: int
  prev_p :: ptr
  next_p :: ptr

type_synonym heap = "nat \<Rightarrow> proc"

record queue =
  head :: ptr
  tail :: ptr
  count :: int

abbreviation set_prev :: "heap \<Rightarrow> nat \<Rightarrow> ptr \<Rightarrow> heap" where
  "set_prev h i v \<equiv> h(i := (h i)\<lparr>prev_p := v\<rparr>)"

abbreviation set_next :: "heap \<Rightarrow> nat \<Rightarrow> ptr \<Rightarrow> heap" where
  "set_next h i v \<equiv> h(i := (h i)\<lparr>next_p := v\<rparr>)"

section \<open>The operations\<close>

definition setproc_default :: "proc \<Rightarrow> proc" where
  "setproc_default p = p\<lparr>priority := 3, queuelevel := 0, ticks := 0, prev_p := None, next_p := None\<rparr>"

definition initqueue :: queue where
  "initqueue = \<lparr>head = None, tail = None, count = 0\<rparr>"

definition queue_is_empty :: "queue \<Rightarrow> bool" where
  "queue_is_empty q \<longleftrightarrow> head q = None"

text \<open>\<^verbatim>\<open>insert(q, new, base)\<close>: in front of \<open>base\<close>, at the end when \<open>base\<close> is null.\<close>

definition insert_q :: "heap \<Rightarrow> queue \<Rightarrow> nat \<Rightarrow> ptr \<Rightarrow> kerr + heap \<times> queue" where
  "insert_q h q new base =
    (if queue_is_empty q then
       let h1 = set_prev h new None; h2 = set_next h1 new None
       in Inr (h2, q\<lparr>head := Some new, tail := Some new, count := count q + 1\<rparr>)
     else
       case base of
         None \<Rightarrow>
           bindE (deref (tail q)) (\<lambda>t.
             let h1 = set_next h t (Some new);
                 h2 = set_prev h1 new (tail q);
                 h3 = set_next h2 new None
             in Inr (h3, q\<lparr>tail := Some new, count := count q + 1\<rparr>))
       | Some b \<Rightarrow>
           (case prev_p (h b) of
              None \<Rightarrow>
                let h1 = set_next h new (head q);
                    h2 = set_prev h1 b (Some new);
                    h3 = set_prev h2 new None
                in Inr (h3, q\<lparr>head := Some new, count := count q + 1\<rparr>)
            | Some a \<Rightarrow>
                let h1 = set_next h new (Some b);
                    h2 = set_next h1 a (Some new);
                    h3 = set_prev h2 new (prev_p (h2 b));
                    h4 = set_prev h3 b (Some new)
                in Inr (h4, q\<lparr>count := count q + 1\<rparr>)))"

definition delete_q :: "heap \<Rightarrow> queue \<Rightarrow> nat \<Rightarrow> heap \<times> queue" where
  "delete_q h q p =
    (if \<not> queue_is_empty q then
       let q1 = (if head q = Some p then q\<lparr>head := next_p (h p)\<rparr> else q);
           h1 = (case next_p (h p) of None \<Rightarrow> h | Some n \<Rightarrow> set_prev h n (prev_p (h p)));
           h2 = (case prev_p (h1 p) of None \<Rightarrow> h1 | Some m \<Rightarrow> set_next h1 m (next_p (h1 p)));
           q2 = (if tail q1 = Some p then q1\<lparr>tail := prev_p (h2 p)\<rparr> else q1);
           h3 = set_prev h2 p None;
           h4 = set_next h3 p None
       in (h4, q2\<lparr>count := count q2 - 1\<rparr>)
     else (h, q))"

definition dequeue :: "heap \<Rightarrow> queue \<Rightarrow> ptr \<times> heap \<times> queue" where
  "dequeue h q =
    (case head q of
       None \<Rightarrow> (None, h, q)
     | Some p \<Rightarrow>
         let (h1, q1) =
           (case next_p (h p) of
              None \<Rightarrow> (h, q\<lparr>head := None, tail := None\<rparr>)
            | Some n \<Rightarrow> (set_prev h n None, q\<lparr>head := next_p (h p)\<rparr>));
             q2 = q1\<lparr>count := count q1 - 1\<rparr>;
             h2 = set_next h1 p None;
             h3 = set_prev h2 p None
         in (Some p, h3, q2))"

text \<open>\<^verbatim>\<open>merge_queue(q1, q2)\<close> appends \<open>q2\<close> to \<open>q1\<close> and empties \<open>q2\<close>; it returns
  \<open>q1\<close> itself, which no caller uses.\<close>

definition merge_queue :: "heap \<Rightarrow> queue \<Rightarrow> queue \<Rightarrow> kerr + heap \<times> queue \<times> queue" where
  "merge_queue h q1 q2 =
    (case head q1 of
       Some _ \<Rightarrow>
         (case head q2 of
            Some hd2 \<Rightarrow>
              bindE (deref (tail q1)) (\<lambda>t1.
                let h1 = set_next h t1 (head q2);
                    h2 = set_prev h1 hd2 (tail q1)
                in Inr (h2, q1\<lparr>tail := tail q2, count := count q1 + count q2\<rparr>,
                        q2\<lparr>head := None, tail := None, count := 0\<rparr>))
          | None \<Rightarrow> Inr (h, q1, q2))
     | None \<Rightarrow>
         (case head q2 of
            Some _ \<Rightarrow>
              Inr (h, q1\<lparr>head := head q2, tail := tail q2, count := count q1 + count q2\<rparr>,
                   q2\<lparr>head := None, tail := None, count := 0\<rparr>)
          | None \<Rightarrow> Inr (h, q1, q2)))"

section \<open>Abstraction to lists\<close>

text \<open>\<open>dseg h a xs b\<close>: the slots \<open>xs\<close> are linked both ways, the first one's \<^verbatim>\<open>prev\<close> is
  \<open>a\<close> and the last one's \<^verbatim>\<open>next\<close> is \<open>b\<close>.\<close>

fun dseg :: "heap \<Rightarrow> ptr \<Rightarrow> nat list \<Rightarrow> ptr \<Rightarrow> bool" where
  "dseg h a [] b = True"
| "dseg h a (x # xs) b \<longleftrightarrow>
     prev_p (h x) = a \<and> next_p (h x) = first_or xs b \<and> dseg h (Some x) xs b"

definition rep :: "heap \<Rightarrow> queue \<Rightarrow> nat list \<Rightarrow> bool" where
  "rep h q xs \<longleftrightarrow>
     head q = first_or xs None \<and> tail q = last_or None xs \<and> count q = int (length xs) \<and>
     distinct xs \<and> dseg h None xs None"

lemma dseg_append [simp]:
  "dseg h a (xs @ ys) b \<longleftrightarrow> dseg h a xs (first_or ys b) \<and> dseg h (last_or a xs) ys b"
  by (induction xs arbitrary: a) auto

lemma dseg_cong:
  assumes "\<And>x. x \<in> set xs \<Longrightarrow> prev_p (h' x) = prev_p (h x) \<and> next_p (h' x) = next_p (h x)"
  shows "dseg h' a xs b = dseg h a xs b"
  using assms by (induction xs arbitrary: a) auto

lemma dseg_upd [simp]: "i \<notin> set xs \<Longrightarrow> dseg (h(i := v)) a xs b = dseg h a xs b"
  by (rule dseg_cong) auto

lemma rep_cong:
  assumes "\<And>x. x \<in> set xs \<Longrightarrow> prev_p (h' x) = prev_p (h x) \<and> next_p (h' x) = next_p (h x)"
  shows "rep h' q xs = rep h q xs"
  using dseg_cong [OF assms] by (simp add: rep_def)

lemma rep_upd [simp]: "i \<notin> set xs \<Longrightarrow> rep (h(i := v)) q xs = rep h q xs"
  by (rule rep_cong) auto

lemma rep_distinct: "rep h q xs \<Longrightarrow> distinct xs"
  by (simp add: rep_def)

lemma rep_Nil [simp]: "rep h q [] \<longleftrightarrow> q = initqueue"
  by (cases q) (auto simp: rep_def initqueue_def)

lemma rep_empty: "rep h q xs \<Longrightarrow> queue_is_empty q \<longleftrightarrow> xs = []"
  by (cases xs) (auto simp: rep_def queue_is_empty_def)

lemma rep_head: "rep h q xs \<Longrightarrow> head q = first_or xs None"
  by (simp add: rep_def)

lemma rep_next: "rep h q (xs @ x # ys) \<Longrightarrow> next_p (h x) = first_or ys None"
  by (simp add: rep_def)

section \<open>What an operation may change\<close>

text \<open>\<open>relinked h h' S\<close>: only the links of slots in \<open>S\<close> differ between the two tables.\<close>

definition data_of :: "proc \<Rightarrow> proc" where
  "data_of p = p\<lparr>prev_p := None, next_p := None\<rparr>"

definition relinked :: "heap \<Rightarrow> heap \<Rightarrow> nat set \<Rightarrow> bool" where
  "relinked h h' S \<longleftrightarrow> (\<forall>i. data_of (h' i) = data_of (h i)) \<and> (\<forall>i. i \<notin> S \<longrightarrow> h' i = h i)"

lemma data_of_links [simp]:
  "data_of (p\<lparr>prev_p := x\<rparr>) = data_of p" "data_of (p\<lparr>next_p := x\<rparr>) = data_of p"
  by (simp_all add: data_of_def)

lemma data_of_eqE:
  assumes "data_of p = data_of p'"
  obtains x y where "p = p'\<lparr>prev_p := x, next_p := y\<rparr>"
proof
  have "p = (data_of p)\<lparr>prev_p := prev_p p, next_p := next_p p\<rparr>"
    by (simp add: data_of_def)
  also have "\<dots> = (data_of p')\<lparr>prev_p := prev_p p, next_p := next_p p\<rparr>"
    by (simp only: assms)
  also have "\<dots> = p'\<lparr>prev_p := prev_p p, next_p := next_p p\<rparr>"
    by (simp add: data_of_def)
  finally show "p = p'\<lparr>prev_p := prev_p p, next_p := next_p p\<rparr>" .
qed

lemma data_of_eqD:
  assumes "data_of p = data_of p'"
  shows "state p = state p'" "queuelevel p = queuelevel p'" "priority p = priority p'"
    "ticks p = ticks p'" "pid p = pid p'" "chan p = chan p'" "parent p = parent p'"
    "killed p = killed p'" "kstack p = kstack p'" "pgdir p = pgdir p'" "sz p = sz p'"
    "ofile p = ofile p'" "cwd p = cwd p'" "name p = name p'" "tf p = tf p'" "ctx p = ctx p'"
  by (rule data_of_eqE [OF assms]; simp)+

lemma relinked_data: "relinked h h' S \<Longrightarrow> data_of (h' i) = data_of (h i)"
  by (simp add: relinked_def)

lemma relinked_fields:
  assumes "relinked h h' S"
  shows "state (h' i) = state (h i)" "queuelevel (h' i) = queuelevel (h i)"
    "priority (h' i) = priority (h i)" "ticks (h' i) = ticks (h i)" "pid (h' i) = pid (h i)"
    "chan (h' i) = chan (h i)" "parent (h' i) = parent (h i)" "killed (h' i) = killed (h i)"
  by (rule data_of_eqD [OF relinked_data [OF assms]])+

lemma relinked_refl [simp]: "relinked h h S"
  by (simp add: relinked_def)

lemma relinked_trans:
  "relinked h h' S \<Longrightarrow> relinked h' h'' T \<Longrightarrow> S \<union> T \<subseteq> U \<Longrightarrow> relinked h h'' U"
  unfolding relinked_def by (metis UnCI subset_iff)

lemma relinked_mono: "relinked h h' S \<Longrightarrow> S \<subseteq> T \<Longrightarrow> relinked h h' T"
  by (auto simp: relinked_def)

lemma relinked_upd [simp]:
  "i \<in> S \<Longrightarrow> data_of v = data_of (h i) \<Longrightarrow> relinked h h' S \<Longrightarrow> relinked h (h'(i := v)) S"
  by (auto simp: relinked_def)

lemma rep_relinked:
  assumes "rep h q xs" and "relinked h h' S" and "set xs \<inter> S = {}"
  shows "rep h' q xs"
proof -
  have "h' x = h x" if "x \<in> set xs" for x
    using that assms(2,3) by (auto simp: relinked_def)
  with assms(1) show ?thesis
    by (simp add: rep_cong [of xs h' h])
qed

section \<open>Refinement of the list operations\<close>

definition insert_before :: "'a list \<Rightarrow> 'a \<Rightarrow> 'a option \<Rightarrow> 'a list" where
  "insert_before xs new base =
    (case base of None \<Rightarrow> xs @ [new]
     | Some b \<Rightarrow> takeWhile (\<lambda>x. x \<noteq> b) xs @ new # dropWhile (\<lambda>x. x \<noteq> b) xs)"

lemma insert_before_simps [simp]:
  "insert_before xs new None = xs @ [new]"
  "b \<notin> set xs \<Longrightarrow> insert_before (xs @ b # ys) new (Some b) = xs @ new # b # ys"
  "insert_before (b # ys) new (Some b) = new # b # ys"
  by (simp_all add: insert_before_def)

lemma set_insert_before [simp]: "set (insert_before xs new base) = insert new (set xs)"
proof (cases base)
  case (Some b)
  have "set (takeWhile (\<lambda>x. x \<noteq> b) xs) \<union> set (dropWhile (\<lambda>x. x \<noteq> b) xs) = set xs"
    by (metis set_append takeWhile_dropWhile_id)
  with Some show ?thesis by (auto simp: insert_before_def)
qed simp

lemma distinct_mid: "x \<notin> set as \<Longrightarrow> x \<notin> set bs \<Longrightarrow> distinct (as @ x # bs) = distinct (as @ bs)"
  by auto

lemma distinct_insert_before [simp]:
  assumes "new \<notin> set xs"
  shows "distinct (insert_before xs new base) = distinct xs"
proof (cases base)
  case None
  with assms show ?thesis by simp
next
  case (Some b)
  let ?as = "takeWhile (\<lambda>x. x \<noteq> b) xs" and ?bs = "dropWhile (\<lambda>x. x \<noteq> b) xs"
  from assms have "new \<notin> set ?as" "new \<notin> set ?bs"
    by (auto dest: set_takeWhileD set_dropWhileD)
  then have "distinct (?as @ new # ?bs) = distinct (?as @ ?bs)"
    by (rule distinct_mid)
  with Some show ?thesis by (simp add: insert_before_def)
qed

lemma insert_q_at_end:
  assumes "rep h q xs" and "new \<notin> set xs"
  shows "succeeds (insert_q h q new None)
    (\<lambda>(h', q'). rep h' q' (xs @ [new]) \<and> relinked h h' (insert new (set xs)))"
proof (cases xs rule: rev_cases)
  case Nil
  with assms show ?thesis
    by (auto simp: insert_q_def queue_is_empty_def initqueue_def rep_def)
next
  case (snoc ys t)
  with assms show ?thesis
    by (cases ys) (auto simp: insert_q_def queue_is_empty_def rep_def Let_def)
qed

lemma insert_q_before:
  assumes "rep h q (as @ b # bs)" and "new \<notin> set (as @ b # bs)"
  shows "succeeds (insert_q h q new (Some b))
    (\<lambda>(h', q'). rep h' q' (as @ new # b # bs) \<and> relinked h h' (insert new (set (as @ b # bs))))"
proof (cases as rule: rev_cases)
  case Nil
  with assms show ?thesis
    by (auto simp: insert_q_def queue_is_empty_def rep_def Let_def)
next
  case (snoc cs a)
  with assms show ?thesis
    by (cases cs) (auto simp: insert_q_def queue_is_empty_def rep_def Let_def)
qed

theorem insert_q_refines:
  assumes "rep h q xs" and "new \<notin> set xs" and "base = None \<or> base \<in> Some ` set xs"
  shows "succeeds (insert_q h q new base)
    (\<lambda>(h', q'). rep h' q' (insert_before xs new base) \<and> relinked h h' (insert new (set xs)))"
  using assms(3)
proof
  assume "base = None"
  then show ?thesis using insert_q_at_end [OF assms(1,2)] by simp
next
  assume "base \<in> Some ` set xs"
  then obtain b as bs where b: "base = Some b" and xs: "xs = as @ b # bs"
    by (auto dest: split_list)
  from assms(1) xs have "b \<notin> set as" by (auto simp: rep_def)
  with insert_q_before [of h q as b bs new] assms(1,2) b xs show ?thesis by simp
qed

theorem delete_q_refines:
  assumes "rep h q xs" and "p \<in> set xs"
  shows "case delete_q h q p of (h', q') \<Rightarrow> rep h' q' (remove1 p xs) \<and> relinked h h' (set xs)"
proof -
  from assms(2) obtain as bs where xs: "xs = as @ p # bs" by (auto dest: split_list)
  with assms(1) have dist: "distinct (as @ p # bs)" by (simp add: rep_def)
  show ?thesis
  proof (cases as rule: rev_cases)
    case Nil
    with assms xs show ?thesis
      by (cases bs) (auto simp: delete_q_def queue_is_empty_def rep_def Let_def)
  next
    case (snoc cs a)
    with assms xs dist show ?thesis
      by (cases bs; cases cs; auto simp: delete_q_def queue_is_empty_def rep_def Let_def remove1_append)
  qed
qed

theorem dequeue_refines:
  assumes "rep h q xs"
  shows "case dequeue h q of (p, h', q') \<Rightarrow>
    p = first_or xs None \<and> rep h' q' (tl xs) \<and> relinked h h' (set xs)"
proof (cases xs)
  case Nil
  with assms show ?thesis by (simp add: dequeue_def initqueue_def)
next
  case (Cons x ys)
  with assms show ?thesis
    by (cases ys) (auto simp: dequeue_def rep_def Let_def initqueue_def)
qed

theorem merge_queue_refines:
  assumes "rep h q1 xs" and "rep h q2 ys" and "set xs \<inter> set ys = {}"
  shows "succeeds (merge_queue h q1 q2)
    (\<lambda>(h', q1', q2'). rep h' q1' (xs @ ys) \<and> rep h' q2' [] \<and> relinked h h' (set xs \<union> set ys))"
proof (cases xs rule: rev_cases)
  case Nil
  with assms show ?thesis
    by (cases ys) (auto simp: merge_queue_def rep_def initqueue_def)
next
  case (snoc as a)
  show ?thesis
  proof (cases ys)
    case Nil
    with snoc assms show ?thesis by (cases as) (auto simp: merge_queue_def rep_def initqueue_def)
  next
    case (Cons b bs)
    with snoc assms show ?thesis
      by (cases as) (auto simp: merge_queue_def rep_def Let_def initqueue_def)
  qed
qed

section \<open>The interface of a process queue\<close>

text \<open>
  What the scheduler relies on: a representation relation \<open>R\<close> between a queue over a
  shared heap and the list of its members, a frame relation \<open>changed\<close>, and the four
  mutators with their effect on the list. The laws speak of one queue; \<open>family\<close> lifts them
  to any number of queues over one heap, which is how the scheduler uses them.
\<close>

definition family :: "('h \<Rightarrow> 'q \<Rightarrow> nat list \<Rightarrow> bool) \<Rightarrow> 'h \<Rightarrow> ('k \<Rightarrow> 'q) \<Rightarrow> ('k \<Rightarrow> nat list) \<Rightarrow> bool" where
  "family R h Q A \<longleftrightarrow>
     (\<forall>k. R h (Q k) (A k)) \<and> (\<forall>k l. k \<noteq> l \<longrightarrow> set (A k) \<inter> set (A l) = {})"

lemma familyD:
  assumes "family R h Q A"
  shows "R h (Q k) (A k)" and "k \<noteq> l \<Longrightarrow> set (A k) \<inter> set (A l) = {}"
  using assms by (auto simp: family_def)

lemma family_unique: "family R h Q A \<Longrightarrow> p \<in> set (A k) \<Longrightarrow> p \<in> set (A l) \<Longrightarrow> k = l"
  by (auto simp: family_def)

locale proc_queue =
  fixes R :: "'h \<Rightarrow> 'q \<Rightarrow> nat list \<Rightarrow> bool"
    and changed :: "'h \<Rightarrow> 'h \<Rightarrow> nat set \<Rightarrow> bool"
    and is_empty :: "'q \<Rightarrow> bool"
    and ins :: "'h \<Rightarrow> 'q \<Rightarrow> nat \<Rightarrow> ptr \<Rightarrow> kerr + 'h \<times> 'q"
    and del :: "'h \<Rightarrow> 'q \<Rightarrow> nat \<Rightarrow> 'h \<times> 'q"
    and deq :: "'h \<Rightarrow> 'q \<Rightarrow> ptr \<times> 'h \<times> 'q"
    and mrg :: "'h \<Rightarrow> 'q \<Rightarrow> 'q \<Rightarrow> kerr + 'h \<times> 'q \<times> 'q"
  assumes R_frame: "R h q xs \<Longrightarrow> changed h h' S \<Longrightarrow> set xs \<inter> S = {} \<Longrightarrow> R h' q xs"
    and R_distinct: "R h q xs \<Longrightarrow> distinct xs"
    and R_is_empty: "R h q xs \<Longrightarrow> is_empty q = (xs = [])"
    and R_ins: "R h q xs \<Longrightarrow> p \<notin> set xs \<Longrightarrow> base = None \<or> base \<in> Some ` set xs \<Longrightarrow>
      succeeds (ins h q p base)
        (\<lambda>(h', q'). R h' q' (insert_before xs p base) \<and> changed h h' (insert p (set xs)))"
    and R_del: "R h q xs \<Longrightarrow> p \<in> set xs \<Longrightarrow>
      (case del h q p of (h', q') \<Rightarrow> R h' q' (remove1 p xs) \<and> changed h h' (set xs))"
    and R_deq: "R h q xs \<Longrightarrow>
      (case deq h q of (r, h', q') \<Rightarrow>
         r = first_or xs None \<and> R h' q' (tl xs) \<and> changed h h' (set xs))"
    and R_mrg: "R h q1 xs \<Longrightarrow> R h q2 ys \<Longrightarrow> set xs \<inter> set ys = {} \<Longrightarrow>
      succeeds (mrg h q1 q2)
        (\<lambda>(h', q1', q2'). R h' q1' (xs @ ys) \<and> R h' q2' [] \<and> changed h h' (set xs \<union> set ys))"
begin

lemma family_frame:
  assumes fam: "family R h Q A" and ch: "changed h h' S"
    and sub: "S \<subseteq> insert p (set (A k))" and new: "p \<in> set (A k) \<or> (\<forall>l. p \<notin> set (A l))" and "l \<noteq> k"
  shows "R h' (Q l) (A l)"
proof (rule R_frame [OF familyD(1) [OF fam] ch])
  have "p \<notin> set (A l)"
    using new family_unique [OF fam, of p k l] \<open>l \<noteq> k\<close> by auto
  moreover have "set (A l) \<inter> set (A k) = {}"
    using familyD(2) [OF fam \<open>l \<noteq> k\<close>] .
  ultimately show "set (A l) \<inter> S = {}" using sub by auto
qed

lemma family_ins:
  assumes fam: "family R h Q A" and new: "\<And>l. p \<notin> set (A l)"
    and base: "base = None \<or> base \<in> Some ` set (A k)"
  shows "succeeds (ins h (Q k) p base)
    (\<lambda>(h', q'). family R h' (Q(k := q')) (A(k := insert_before (A k) p base)) \<and>
       changed h h' (insert p (set (A k))))"
proof (rule succeeds_mono [OF R_ins [OF familyD(1) [OF fam] new base]], clarify)
  fix h' q'
  assume r: "R h' q' (insert_before (A k) p base)" and ch: "changed h h' (insert p (set (A k)))"
  have "R h' (Q l) (A l)" if "l \<noteq> k" for l
    by (rule family_frame [OF fam ch subset_refl _ that]) (simp add: new)
  with r fam new show "family R h' (Q(k := q')) (A(k := insert_before (A k) p base))"
    by (auto simp: family_def)
qed

lemma family_del:
  assumes fam: "family R h Q A" and p: "p \<in> set (A k)"
  shows "case del h (Q k) p of (h', q') \<Rightarrow>
    family R h' (Q(k := q')) (A(k := remove1 p (A k))) \<and> changed h h' (set (A k))"
proof -
  obtain h' q' where del: "del h (Q k) p = (h', q')" by (cases "del h (Q k) p")
  with R_del [OF familyD(1) [OF fam] p]
  have r: "R h' q' (remove1 p (A k))" and ch: "changed h h' (set (A k))" by auto
  have "R h' (Q l) (A l)" if "l \<noteq> k" for l
    by (rule family_frame [OF fam ch _ _ that, of p]) (use p in auto)
  moreover have "set (remove1 p (A k)) \<subseteq> set (A k)" by (rule set_remove1_subset)
  ultimately have "family R h' (Q(k := q')) (A(k := remove1 p (A k)))"
    using r fam by (auto simp: family_def) blast+
  with del ch show ?thesis by simp
qed

lemma family_deq:
  assumes fam: "family R h Q A"
  shows "case deq h (Q k) of (r, h', q') \<Rightarrow>
    r = first_or (A k) None \<and> family R h' (Q(k := q')) (A(k := tl (A k))) \<and> changed h h' (set (A k))"
proof -
  obtain r h' q' where deq: "deq h (Q k) = (r, h', q')" by (cases "deq h (Q k)")
  with R_deq [OF familyD(1) [OF fam], of k]
  have r: "R h' q' (tl (A k))" and ch: "changed h h' (set (A k))" and "r = first_or (A k) None" by auto
  have "R h' (Q l) (A l)" if "l \<noteq> k" for l
    using R_frame [OF familyD(1) [OF fam] ch] familyD(2) [OF fam that] by blast
  moreover have "set (tl (A k)) \<subseteq> set (A k)" by (cases "A k") auto
  ultimately have "family R h' (Q(k := q')) (A(k := tl (A k)))"
    using r fam by (auto simp: family_def) blast+
  with deq ch \<open>r = _\<close> show ?thesis by simp
qed

lemma family_mrg:
  assumes fam: "family R h Q A" and ne: "k \<noteq> l"
  shows "succeeds (mrg h (Q k) (Q l))
    (\<lambda>(h', q1, q2). family R h' (Q(k := q1, l := q2)) (A(k := A k @ A l, l := [])) \<and>
       changed h h' (set (A k) \<union> set (A l)))"
proof (rule succeeds_mono [OF R_mrg [OF familyD(1) [OF fam] familyD(1) [OF fam] familyD(2) [OF fam ne]]], clarify)
  fix h' q1 q2
  assume r: "R h' q1 (A k @ A l)" "R h' q2 []" and ch: "changed h h' (set (A k) \<union> set (A l))"
  have "R h' (Q m) (A m)" if "m \<noteq> k" "m \<noteq> l" for m
    using R_frame [OF familyD(1) [OF fam] ch, of m] familyD(2) [OF fam that(1)] familyD(2) [OF fam that(2)]
    by blast
  with r fam ne show "family R h' (Q(k := q1, l := q2)) (A(k := A k @ A l, l := []))"
    by (auto simp: family_def) blast+
qed

text \<open>Two calls in a row: a queue that receives a slot and is emptied returns it after what
  it held before; a slot that is deleted and inserted at the end moves to the end.\<close>

lemma del_then_ins_end:
  assumes "R h q xs" and "p \<in> set xs" and "del h q p = (h1, q1)"
  shows "succeeds (ins h1 q1 p None) (\<lambda>(h', q'). R h' q' (remove1 p xs @ [p]))"
proof -
  have "R h1 q1 (remove1 p xs)" using R_del [OF assms(1,2)] assms(3) by simp
  moreover have "p \<notin> set (remove1 p xs)" using R_distinct [OF assms(1)] by simp
  ultimately show ?thesis
    using R_ins [of h1 q1 "remove1 p xs" p None] by (auto elim!: succeeds_mono)
qed

end

interpretation dq: proc_queue rep relinked queue_is_empty insert_q delete_q dequeue merge_queue
proof unfold_locales
  show "rep h' q xs" if "rep h q xs" "relinked h h' S" "set xs \<inter> S = {}" for h q xs h' S
    using that by (rule rep_relinked)
  show "distinct xs" if "rep h q xs" for h q xs
    using that by (rule rep_distinct)
  show "queue_is_empty q = (xs = [])" if "rep h q xs" for h q xs
    using that by (rule rep_empty)
qed (rule insert_q_refines delete_q_refines dequeue_refines merge_queue_refines; assumption)+

section \<open>Loops over a queue\<close>

text \<open>
  \<^verbatim>\<open>for (tmp = q.head; tmp != 0; tmp = tmp->next)\<close>. The links come from memory, so the loop
  has fuel; \<open>NPROC + 1\<close> is enough for every queue that represents a list of slots, since
  those are distinct and below \<open>NPROC\<close>.
\<close>

definition loop_fuel :: nat where
  "loop_fuel = Suc NPROC"

fun walk_find :: "nat \<Rightarrow> heap \<Rightarrow> (proc \<Rightarrow> bool) \<Rightarrow> ptr \<Rightarrow> kerr + ptr" where
  "walk_find 0 h P p = Inl Diverges"
| "walk_find (Suc n) h P None = Inr None"
| "walk_find (Suc n) h P (Some t) =
     (if P (h t) then Inr (Some t) else walk_find n h P (next_p (h t)))"

fun walk_upd :: "nat \<Rightarrow> heap \<Rightarrow> (proc \<Rightarrow> proc) \<Rightarrow> ptr \<Rightarrow> kerr + heap" where
  "walk_upd 0 h f p = Inl Diverges"
| "walk_upd (Suc n) h f None = Inr h"
| "walk_upd (Suc n) h f (Some t) =
     (let h1 = h(t := f (h t)) in walk_upd n h1 f (next_p (h1 t)))"

lemma walk_find_dseg:
  "dseg h a xs None \<Longrightarrow> length xs < n \<Longrightarrow>
   walk_find n h P (first_or xs None) = Inr (find (\<lambda>x. P (h x)) xs)"
proof (induction xs arbitrary: a n)
  case Nil
  then show ?case by (cases n) auto
next
  case (Cons x xs)
  then show ?case by (cases n) auto
qed

lemma walk_find_rep:
  "rep h q xs \<Longrightarrow> length xs < n \<Longrightarrow> walk_find n h P (head q) = Inr (find (\<lambda>x. P (h x)) xs)"
  unfolding rep_def by (auto intro: walk_find_dseg)

lemma walk_upd_dseg:
  assumes "\<And>p. next_p (f p) = next_p p"
  shows "dseg h a xs None \<Longrightarrow> distinct xs \<Longrightarrow> length xs < n \<Longrightarrow>
    walk_upd n h f (first_or xs None) = Inr (\<lambda>i. if i \<in> set xs then f (h i) else h i)"
proof (induction xs arbitrary: a n h)
  case Nil
  then show ?case by (cases n) auto
next
  case (Cons x xs)
  then obtain m where n: "n = Suc m" by (cases n) auto
  let ?h = "h(x := f (h x))"
  have seg: "dseg ?h (Some x) xs None" using Cons.prems by simp
  have IH: "walk_upd m ?h f (first_or xs None) = Inr (\<lambda>i. if i \<in> set xs then f (?h i) else ?h i)"
    by (rule Cons.IH [OF seg]) (use Cons.prems n in simp_all)
  have eq: "(\<lambda>i. if i \<in> set xs then f (?h i) else ?h i) = (\<lambda>i. if i \<in> set (x # xs) then f (h i) else h i)"
    using Cons.prems by auto
  have "walk_upd n h f (first_or (x # xs) None) = walk_upd m ?h f (first_or xs None)"
    using Cons.prems n assms by (simp add: Let_def)
  then show ?case by (simp only: IH eq)
qed

lemma walk_upd_rep:
  assumes "rep h q xs" and "length xs < n" and "\<And>p. next_p (f p) = next_p p"
  shows "walk_upd n h f (head q) = Inr (\<lambda>i. if i \<in> set xs then f (h i) else h i)"
  using assms walk_upd_dseg [OF assms(3), of h None xs n] by (simp add: rep_def)

lemma slots_fuel: "distinct xs \<Longrightarrow> set xs \<subseteq> {..<NPROC} \<Longrightarrow> length xs < loop_fuel"
  using distinct_subset_length [of xs NPROC] by (simp add: loop_fuel_def)

end
