(* ===== verification/Mlfq.thy ===== *)
theory Mlfq
  imports ProcQueue
begin

text \<open>
  The multi-level feedback queue of the MLFQ kernel (\<^verbatim>\<open>src/Project1/proc.c\<close>): the state of
  \<^verbatim>\<open>ptable\<close> and \<^verbatim>\<open>mlfq\<close> and every piece of code that runs while
  \<^verbatim>\<open>ptable.lock\<close> is held. The handlers that take and release that lock and call into the
  rest of the kernel are in \<open>MlfqKernel\<close>.

  The five queues (\<^verbatim>\<open>l_queue[0..2]\<close>, \<^verbatim>\<open>sleep_queue\<close>, \<^verbatim>\<open>unused_queue\<close>) are one
  function from queue names to queues. The theory proves an invariant that ties the queues to
  the \<^verbatim>\<open>state\<close> and \<^verbatim>\<open>queuelevel\<close> fields of the process table, that no operation
  dereferences a null pointer, leaves an array or loops, and what each operation does to the
  queues as lists.
\<close>

section \<open>State\<close>

datatype qid = L0 | L1 | L2 | SLEEPQ | UNUSEDQ

record mlfq_st =
  procs :: heap
  queues :: "qid \<Rightarrow> queue"
  global_ticks :: int
  lockproc :: ptr
  unlockproc :: ptr
  initproc :: ptr
  nextpid :: int

text \<open>\<^verbatim>\<open>mlfq.l_queue[lvl]\<close>\<close>

definition l_queue :: "int \<Rightarrow> kerr + qid" where
  "l_queue lvl =
    (if lvl = 0 then Inr L0 else if lvl = 1 then Inr L1 else if lvl = 2 then Inr L2
     else Inl OutOfBounds)"

definition upd_proc :: "nat \<Rightarrow> (proc \<Rightarrow> proc) \<Rightarrow> mlfq_st \<Rightarrow> mlfq_st" where
  "upd_proc i f s = s\<lparr>procs := (procs s)(i := f (procs s i))\<rparr>"

definition q_insert :: "qid \<Rightarrow> nat \<Rightarrow> ptr \<Rightarrow> mlfq_st \<Rightarrow> kerr + mlfq_st" where
  "q_insert k p base s =
    bindE (insert_q (procs s) (queues s k) p base)
      (\<lambda>(h, q). Inr (s\<lparr>procs := h, queues := (queues s)(k := q)\<rparr>))"

definition q_delete :: "qid \<Rightarrow> nat \<Rightarrow> mlfq_st \<Rightarrow> mlfq_st" where
  "q_delete k p s =
    (case delete_q (procs s) (queues s k) p of
       (h, q) \<Rightarrow> s\<lparr>procs := h, queues := (queues s)(k := q)\<rparr>)"

definition q_dequeue :: "qid \<Rightarrow> mlfq_st \<Rightarrow> ptr \<times> mlfq_st" where
  "q_dequeue k s =
    (case dequeue (procs s) (queues s k) of
       (r, h, q) \<Rightarrow> (r, s\<lparr>procs := h, queues := (queues s)(k := q)\<rparr>))"

definition q_merge :: "qid \<Rightarrow> qid \<Rightarrow> mlfq_st \<Rightarrow> kerr + mlfq_st" where
  "q_merge k l s =
    bindE (merge_queue (procs s) (queues s k) (queues s l))
      (\<lambda>(h, q1, q2). Inr (s\<lparr>procs := h, queues := (queues s)(k := q1, l := q2)\<rparr>))"

section \<open>Initialisation\<close>

fun insert_all :: "nat list \<Rightarrow> mlfq_st \<Rightarrow> kerr + mlfq_st" where
  "insert_all [] s = Inr s"
| "insert_all (p # ps) s = bindE (q_insert UNUSEDQ p None s) (insert_all ps)"

definition pinit :: "mlfq_st \<Rightarrow> kerr + mlfq_st" where
  "pinit s = insert_all [0..<NPROC] (s\<lparr>lockproc := None, unlockproc := None, queues := (\<lambda>_. initqueue)\<rparr>)"

text \<open>Static storage is zero at boot; \<^verbatim>\<open>UNUSED\<close> is the first constant of its enumeration.\<close>

definition zero_proc :: proc where
  "zero_proc = \<lparr>sz = 0, pgdir = 0, kstack = 0, state = UNUSED, pid = 0, parent = None, tf_ptr = 0,
     tf = \<lparr>tf_eax = 0, tf_esp = 0, tf_eip = 0, tf_cs = 0, tf_ds = 0, tf_es = 0, tf_ss = 0,
           tf_eflags = 0, tf_trapno = 0\<rparr>, ctx_ptr = 0,
     ctx = \<lparr>ctx_edi = 0, ctx_esi = 0, ctx_ebx = 0, ctx_ebp = 0, ctx_eip = 0\<rparr>, ret_word = 0,
     chan = NullChan, killed = False, ofile = replicate NOFILE None, cwd = None, name = [],
     priority = 0, queuelevel = 0, ticks = 0, prev_p = None, next_p = None\<rparr>"

definition boot_mlfq :: mlfq_st where
  "boot_mlfq = \<lparr>procs = (\<lambda>_. zero_proc), queues = (\<lambda>_. \<lparr>head = None, tail = None, count = 0\<rparr>),
     global_ticks = 0, lockproc = None, unlockproc = None, initproc = None, nextpid = 1\<rparr>"

section \<open>Operations under the lock\<close>

text \<open>\<^verbatim>\<open>allocproc\<close> up to the release of the lock: take a slot from the unused queue.\<close>

definition alloc_slot :: "mlfq_st \<Rightarrow> ptr \<times> mlfq_st" where
  "alloc_slot s =
    (case q_dequeue UNUSEDQ s of
       (None, s1) \<Rightarrow> (None, s1)
     | (Some p, s1) \<Rightarrow>
         let s2 = upd_proc p (\<lambda>pr. pr\<lparr>state := EMBRYO, pid := nextpid s1\<rparr>) s1;
             s3 = s2\<lparr>nextpid := nextpid s1 + 1\<rparr>
         in (Some p, upd_proc p setproc_default s3))"

text \<open>Give a slot back: \<^verbatim>\<open>p->state = UNUSED; insert(&mlfq.unused_queue, p, 0)\<close>.\<close>

definition free_slot :: "nat \<Rightarrow> mlfq_st \<Rightarrow> kerr + mlfq_st" where
  "free_slot p s = q_insert UNUSEDQ p None (upd_proc p (\<lambda>pr. pr\<lparr>state := UNUSED\<rparr>) s)"

text \<open>\<^verbatim>\<open>p->state = RUNNABLE; insert(&mlfq.l_queue[0], p, 0)\<close>, the end of \<^verbatim>\<open>fork\<close>
  and \<^verbatim>\<open>userinit\<close>.\<close>

definition make_runnable :: "nat \<Rightarrow> mlfq_st \<Rightarrow> kerr + mlfq_st" where
  "make_runnable p s = q_insert L0 p None (upd_proc p (\<lambda>pr. pr\<lparr>state := RUNNABLE\<rparr>) s)"

definition releasemlfq :: "mlfq_st \<Rightarrow> mlfq_st" where
  "releasemlfq s = (if lockproc s \<noteq> None then s\<lparr>lockproc := None\<rparr> else s)"

definition mlfqunlock :: "nat \<Rightarrow> mlfq_st \<Rightarrow> mlfq_st" where
  "mlfqunlock p s =
    (if lockproc s \<noteq> None then
       upd_proc p (\<lambda>pr. pr\<lparr>queuelevel := 0, priority := 3, ticks := 0\<rparr>)
         (s\<lparr>lockproc := None, unlockproc := Some p\<rparr>)
     else s)"

definition mlfqlock :: "nat \<Rightarrow> mlfq_st \<Rightarrow> mlfq_st" where
  "mlfqlock p s = (if lockproc s = None then s\<lparr>lockproc := Some p, global_ticks := 0\<rparr> else s)"

definition higherpriority_proc :: "nat \<Rightarrow> mlfq_st \<Rightarrow> kerr + ptr" where
  "higherpriority_proc p s =
    walk_find loop_fuel (procs s) (\<lambda>t. priority t > priority (procs s p)) (head (queues s L2))"

definition boost_proc :: "proc \<Rightarrow> proc" where
  "boost_proc pr = pr\<lparr>queuelevel := 0, priority := 3, ticks := 0\<rparr>"

definition boost_queue :: "qid \<Rightarrow> mlfq_st \<Rightarrow> kerr + mlfq_st" where
  "boost_queue k s =
    bindE (walk_upd loop_fuel (procs s) boost_proc (head (queues s k))) (\<lambda>h. Inr (s\<lparr>procs := h\<rparr>))"

definition priority_boosting :: "mlfq_st \<Rightarrow> kerr + mlfq_st" where
  "priority_boosting s =
    bindE (q_merge L1 L2 s) (\<lambda>s1.
    bindE (q_merge L0 L1 s1) (\<lambda>s2.
    bindE (boost_queue SLEEPQ s2) (boost_queue L0)))"

text \<open>The choice of \<^verbatim>\<open>scheduler\<close>: the first non-empty level.\<close>

definition pick :: "mlfq_st \<Rightarrow> ptr \<times> mlfq_st" where
  "pick s =
    (if \<not> queue_is_empty (queues s L0) then q_dequeue L0 s
     else if \<not> queue_is_empty (queues s L1) then q_dequeue L1 s
     else if \<not> queue_is_empty (queues s L2) then q_dequeue L2 s
     else (None, s))"

text \<open>What \<^verbatim>\<open>scheduler\<close> does with the queues before \<^verbatim>\<open>swtch\<close> and after it returns.\<close>

definition sched_pick :: "mlfq_st \<Rightarrow> ptr \<times> mlfq_st" where
  "sched_pick s =
    (case pick s of
       (None, s1) \<Rightarrow> (None, s1)
     | (Some p, s1) \<Rightarrow> (Some p, upd_proc p (\<lambda>pr. pr\<lparr>state := RUNNING\<rparr>) s1))"

definition sched_return :: "mlfq_st \<Rightarrow> kerr + mlfq_st" where
  "sched_return s =
    (if global_ticks s = 100 then
       bindE (priority_boosting (s\<lparr>global_ticks := 0\<rparr>)) (\<lambda>s1. Inr (releasemlfq s1))
     else Inr s)"

text \<open>The insertion that \<^verbatim>\<open>yield\<close>, \<^verbatim>\<open>wakeup1\<close> and \<^verbatim>\<open>kill\<close> share: by priority
  into level 2, at the end of the other levels.\<close>

definition enqueue_level :: "nat \<Rightarrow> mlfq_st \<Rightarrow> kerr + mlfq_st" where
  "enqueue_level p s =
    (if queuelevel (procs s p) = 2 then
       bindE (higherpriority_proc p s) (\<lambda>base. q_insert L2 p base s)
     else
       bindE (l_queue (queuelevel (procs s p))) (\<lambda>k. q_insert k p None s))"

definition quantum_check :: "proc \<Rightarrow> proc" where
  "quantum_check pr =
    (if ticks pr = queuelevel pr * 2 + 4 then
       let pr1 = pr\<lparr>ticks := 0\<rparr>;
           pr2 = (if queuelevel pr1 = 2
                  then pr1\<lparr>priority := (if priority pr1 = 0 then 0 else priority pr1 - 1)\<rparr> else pr1)
       in pr2\<lparr>queuelevel := (if queuelevel pr2 = 0 then 1 else 2)\<rparr>
     else pr)"

text \<open>\<^verbatim>\<open>yield\<close> between taking the lock and \<^verbatim>\<open>sched\<close>.\<close>

definition yield_enq :: "nat \<Rightarrow> mlfq_st \<Rightarrow> kerr + mlfq_st" where
  "yield_enq p s =
    (let s1 = upd_proc p (\<lambda>pr. pr\<lparr>ticks := ticks pr + 1\<rparr>) s;
         s2 = s1\<lparr>global_ticks := global_ticks s1 + 1\<rparr>;
         s3 = upd_proc p (\<lambda>pr. pr\<lparr>state := RUNNABLE\<rparr>) s2
     in if lockproc s3 = Some p \<or> unlockproc s3 = Some p then
          let s4 = (if unlockproc s3 = Some p then s3\<lparr>unlockproc := None\<rparr> else s3)
          in q_insert L0 p (head (queues s4 L0)) s4
        else enqueue_level p (upd_proc p quantum_check s3))"

text \<open>\<^verbatim>\<open>sleep\<close> between taking the lock and \<^verbatim>\<open>sched\<close>, and after it.\<close>

definition sleep_enq :: "nat \<Rightarrow> chan \<Rightarrow> mlfq_st \<Rightarrow> kerr + mlfq_st" where
  "sleep_enq p c s =
    q_insert SLEEPQ p None
      (upd_proc p (\<lambda>pr. pr\<lparr>chan := c, state := SLEEPING\<rparr>) (releasemlfq s))"

definition sleep_resume :: "nat \<Rightarrow> mlfq_st \<Rightarrow> mlfq_st" where
  "sleep_resume p s = upd_proc p (\<lambda>pr. pr\<lparr>chan := NullChan\<rparr>) s"

fun wakeup1_loop :: "nat \<Rightarrow> chan \<Rightarrow> ptr \<Rightarrow> mlfq_st \<Rightarrow> kerr + mlfq_st" where
  "wakeup1_loop 0 c r s = Inl Diverges"
| "wakeup1_loop (Suc n) c None s = Inr s"
| "wakeup1_loop (Suc n) c (Some p) s =
     (let nxt = next_p (procs s p)
      in if chan (procs s p) = c then
           bindE (enqueue_level p (upd_proc p (\<lambda>pr. pr\<lparr>state := RUNNABLE\<rparr>) (q_delete SLEEPQ p s)))
             (wakeup1_loop n c nxt)
         else wakeup1_loop n c nxt s)"

definition wakeup1 :: "chan \<Rightarrow> mlfq_st \<Rightarrow> kerr + mlfq_st" where
  "wakeup1 c s = wakeup1_loop loop_fuel c (head (queues s SLEEPQ)) s"

text \<open>\<^verbatim>\<open>kill\<close>: the first slot with the pid; the result is what the call returns.\<close>

definition kill :: "int \<Rightarrow> mlfq_st \<Rightarrow> kerr + int \<times> mlfq_st" where
  "kill n s =
    (case find (\<lambda>p. pid (procs s p) = n) [0..<NPROC] of
       None \<Rightarrow> Inr (-1, s)
     | Some p \<Rightarrow>
         let s1 = upd_proc p (\<lambda>pr. pr\<lparr>killed := True\<rparr>) s
         in if state (procs s1 p) = SLEEPING then
              bindE (enqueue_level p (q_delete SLEEPQ p (upd_proc p (\<lambda>pr. pr\<lparr>state := RUNNABLE\<rparr>) s1)))
                (\<lambda>s2. Inr (0, s2))
            else Inr (0, s1))"

text \<open>\<^verbatim>\<open>setPrioity_arrangeQueue\<close>: the last slot with the pid (the loop has no break).\<close>

definition setPrioity_arrangeQueue :: "int \<Rightarrow> int \<Rightarrow> mlfq_st \<Rightarrow> kerr + mlfq_st" where
  "setPrioity_arrangeQueue n prio s =
    (case find (\<lambda>p. pid (procs s p) = n) (rev [0..<NPROC]) of
       None \<Rightarrow> Inr s
     | Some p \<Rightarrow>
         if state (procs s p) \<noteq> UNUSED then
           let s1 = upd_proc p (\<lambda>pr. pr\<lparr>priority := prio\<rparr>) s
           in if queuelevel (procs s1 p) = 2 \<and> state (procs s1 p) = RUNNABLE then
                bindE (higherpriority_proc p s1) (\<lambda>base. q_insert L2 p base (q_delete L2 p s1))
              else Inr s1
         else Inr s)"

text \<open>\<^verbatim>\<open>exit\<close> from taking the lock to \<^verbatim>\<open>sched\<close>.\<close>

fun reparent :: "nat list \<Rightarrow> nat \<Rightarrow> mlfq_st \<Rightarrow> kerr + mlfq_st" where
  "reparent [] p s = Inr s"
| "reparent (i # is) p s =
     (if parent (procs s i) = Some p then
        let s1 = upd_proc i (\<lambda>pr. pr\<lparr>parent := initproc s\<rparr>) s
        in if state (procs s1 i) = ZOMBIE
           then bindE (wakeup1 (proc_chan (initproc s1)) s1) (reparent is p)
           else reparent is p s1
      else reparent is p s)"

definition exit_locked :: "nat \<Rightarrow> mlfq_st \<Rightarrow> kerr + mlfq_st" where
  "exit_locked p s =
    bindE (wakeup1 (proc_chan (parent (procs s p))) s) (\<lambda>s1.
    bindE (reparent [0..<NPROC] p s1) (\<lambda>s2.
    Inr (releasemlfq (upd_proc p (\<lambda>pr. pr\<lparr>state := ZOMBIE\<rparr>) s2))))"

section \<open>The invariant\<close>

text \<open>Which processes may sit in which queue. A holder of the scheduler lock that yields is
  put at the head of level 0 whatever its \<^verbatim>\<open>queuelevel\<close>, so membership in \<open>L0\<close>
  says nothing about the level.\<close>

definition fits :: "qid \<Rightarrow> proc \<Rightarrow> bool" where
  "fits k pr \<longleftrightarrow>
    (case k of
       UNUSEDQ \<Rightarrow> state pr = UNUSED
     | SLEEPQ \<Rightarrow> state pr = SLEEPING
     | L0 \<Rightarrow> state pr = RUNNABLE
     | L1 \<Rightarrow> state pr = RUNNABLE \<and> queuelevel pr = 1
     | L2 \<Rightarrow> state pr = RUNNABLE \<and> queuelevel pr = 2)"

lemma fits_simps [simp]:
  "fits UNUSEDQ pr \<longleftrightarrow> state pr = UNUSED"
  "fits SLEEPQ pr \<longleftrightarrow> state pr = SLEEPING"
  "fits L0 pr \<longleftrightarrow> state pr = RUNNABLE"
  "fits L1 pr \<longleftrightarrow> state pr = RUNNABLE \<and> queuelevel pr = 1"
  "fits L2 pr \<longleftrightarrow> state pr = RUNNABLE \<and> queuelevel pr = 2"
  by (simp_all add: fits_def)

definition queued_state :: "procstate \<Rightarrow> bool" where
  "queued_state st \<longleftrightarrow> st = UNUSED \<or> st = SLEEPING \<or> st = RUNNABLE"

lemma queued_state_simps [simp]:
  "queued_state UNUSED" "queued_state SLEEPING" "queued_state RUNNABLE"
  "\<not> queued_state EMBRYO" "\<not> queued_state RUNNING" "\<not> queued_state ZOMBIE"
  by (simp_all add: queued_state_def)

lemma fits_queued: "fits k pr \<Longrightarrow> queued_state (state pr)"
  by (cases k) auto

abbreviation valid_level :: "int \<Rightarrow> bool" where
  "valid_level l \<equiv> l = 0 \<or> l = 1 \<or> l = 2"

abbreviation prios :: "mlfq_st \<Rightarrow> nat list \<Rightarrow> int list" where
  "prios s xs \<equiv> map (\<lambda>p. priority (procs s p)) xs"

text \<open>\<open>placed_ex s A X\<close>: the queues of \<open>s\<close> hold the lists \<open>A\<close>, every slot is in the queue
  its state asks for, and level 2 is sorted by priority. The slots of \<open>X\<close> are in transit: in
  no queue, whatever their state.\<close>

definition placed_ex :: "mlfq_st \<Rightarrow> (qid \<Rightarrow> nat list) \<Rightarrow> nat set \<Rightarrow> bool" where
  "placed_ex s A X \<longleftrightarrow>
     family rep (procs s) (queues s) A \<and>
     (\<forall>k. set (A k) \<subseteq> {..<NPROC}) \<and>
     (\<forall>k. \<forall>p \<in> set (A k). fits k (procs s p) \<and> p \<notin> X) \<and>
     (\<forall>p < NPROC. p \<notin> X \<longrightarrow> queued_state (state (procs s p)) \<longrightarrow> (\<exists>k. p \<in> set (A k))) \<and>
     (\<forall>p < NPROC. valid_level (queuelevel (procs s p))) \<and>
     sorted (prios s (A L2))"

abbreviation placed :: "mlfq_st \<Rightarrow> (qid \<Rightarrow> nat list) \<Rightarrow> bool" where
  "placed s A \<equiv> placed_ex s A {}"

text \<open>Two states with the same process data (links aside) and the same scheduler variables.\<close>

definition same_data :: "mlfq_st \<Rightarrow> mlfq_st \<Rightarrow> bool" where
  "same_data s t \<longleftrightarrow>
     (\<forall>i. data_of (procs t i) = data_of (procs s i)) \<and>
     global_ticks t = global_ticks s \<and> lockproc t = lockproc s \<and> unlockproc t = unlockproc s \<and>
     initproc t = initproc s \<and> nextpid t = nextpid s"

lemma same_data_refl [simp]: "same_data s s"
  by (simp add: same_data_def)

lemma same_data_trans: "same_data s t \<Longrightarrow> same_data t u \<Longrightarrow> same_data s u"
  by (simp add: same_data_def)

lemma same_data_fields:
  assumes "same_data s t"
  shows "state (procs t i) = state (procs s i)" "queuelevel (procs t i) = queuelevel (procs s i)"
    "priority (procs t i) = priority (procs s i)" "ticks (procs t i) = ticks (procs s i)"
    "pid (procs t i) = pid (procs s i)" "chan (procs t i) = chan (procs s i)"
    "parent (procs t i) = parent (procs s i)" "killed (procs t i) = killed (procs s i)"
    "global_ticks t = global_ticks s" "lockproc t = lockproc s" "unlockproc t = unlockproc s"
    "initproc t = initproc s" "nextpid t = nextpid s"
  using assms data_of_eqD [of "procs t i" "procs s i"] by (simp_all add: same_data_def)

lemma same_data_upd:
  assumes "same_data s t"
    and "\<And>pr x y. data_of (f (pr\<lparr>prev_p := x, next_p := y\<rparr>)) = data_of (f pr)"
  shows "same_data (s\<lparr>procs := (procs s)(p := f (procs s p))\<rparr>) (t\<lparr>procs := (procs t)(p := f (procs t p))\<rparr>)"
proof -
  have "data_of (procs t p) = data_of (procs s p)"
    using assms(1) by (simp add: same_data_def)
  then obtain x y where "procs t p = (procs s p)\<lparr>prev_p := x, next_p := y\<rparr>"
    by (rule data_of_eqE)
  with assms show ?thesis by (simp add: same_data_def)
qed

lemmas same_data_upd_proc = same_data_upd [folded upd_proc_def]

lemma same_data_fits: "same_data s t \<Longrightarrow> fits k (procs t i) = fits k (procs s i)"
  by (cases k) (simp_all add: same_data_fields)

lemma same_data_prios: "same_data s t \<Longrightarrow> prios t xs = prios s xs"
  by (simp add: same_data_fields)

lemma placed_exI:
  assumes "family rep (procs s) (queues s) A"
    and "\<And>p k. p \<in> set (A k) \<Longrightarrow> p < NPROC \<and> fits k (procs s p) \<and> p \<notin> X"
    and "\<And>p. p < NPROC \<Longrightarrow> p \<notin> X \<Longrightarrow> queued_state (state (procs s p)) \<Longrightarrow> \<exists>k. p \<in> set (A k)"
    and "\<And>p. p < NPROC \<Longrightarrow> valid_level (queuelevel (procs s p))"
    and "sorted (prios s (A L2))"
  shows "placed_ex s A X"
  using assms unfolding placed_ex_def by blast

lemma placed_cover:
  "placed_ex s A X \<Longrightarrow> p < NPROC \<Longrightarrow> p \<notin> X \<Longrightarrow> queued_state (state (procs s p)) \<Longrightarrow> \<exists>k. p \<in> set (A k)"
  by (simp add: placed_ex_def)

lemma placed_family: "placed_ex s A X \<Longrightarrow> family rep (procs s) (queues s) A"
  by (simp add: placed_ex_def)

lemma placed_rep: "placed_ex s A X \<Longrightarrow> rep (procs s) (queues s k) (A k)"
  using familyD(1) [OF placed_family] .

lemma placed_slots: "placed_ex s A X \<Longrightarrow> p \<in> set (A k) \<Longrightarrow> p < NPROC"
  by (auto simp: placed_ex_def)

lemma placed_fits: "placed_ex s A X \<Longrightarrow> p \<in> set (A k) \<Longrightarrow> fits k (procs s p)"
  by (auto simp: placed_ex_def)

lemma placed_level: "placed_ex s A X \<Longrightarrow> p < NPROC \<Longrightarrow> valid_level (queuelevel (procs s p))"
  by (auto simp: placed_ex_def)

lemma placed_transit: "placed_ex s A X \<Longrightarrow> p \<in> X \<Longrightarrow> p \<notin> set (A k)"
  by (auto simp: placed_ex_def)

lemma placed_sorted: "placed_ex s A X \<Longrightarrow> sorted (prios s (A L2))"
  by (simp add: placed_ex_def)

lemma placed_distinct: "placed_ex s A X \<Longrightarrow> distinct (A k)"
  by (rule rep_distinct [OF placed_rep])

lemma placed_fuel: "placed_ex s A X \<Longrightarrow> length (A k) < loop_fuel"
  by (rule slots_fuel [OF placed_distinct]) (auto dest: placed_slots)

lemma placed_unique: "placed_ex s A X \<Longrightarrow> p \<in> set (A k) \<Longrightarrow> p \<in> set (A l) \<Longrightarrow> k = l"
  using family_unique [OF placed_family] .

lemma placed_not_queued:
  "placed_ex s A X \<Longrightarrow> \<not> queued_state (state (procs s p)) \<Longrightarrow> p \<notin> set (A k)"
  using placed_fits fits_queued by blast

lemma placed_head: "placed_ex s A X \<Longrightarrow> head (queues s k) = first_or (A k) None"
  by (rule rep_head [OF placed_rep])

lemma placed_in_queue:
  assumes "placed_ex s A X" and "p < NPROC" and "p \<notin> X"
  shows "state (procs s p) = UNUSED \<longleftrightarrow> p \<in> set (A UNUSEDQ)"
    and "state (procs s p) = SLEEPING \<longleftrightarrow> p \<in> set (A SLEEPQ)"
    and "state (procs s p) = RUNNABLE \<longleftrightarrow> p \<in> set (A L0) \<union> set (A L1) \<union> set (A L2)"
proof -
  have q: "\<exists>k. p \<in> set (A k)" if "queued_state (state (procs s p))"
    using assms that by (auto simp: placed_ex_def)
  have f: "p \<in> set (A k) \<Longrightarrow> fits k (procs s p)" for k
    using placed_fits [OF assms(1)] .
  show "state (procs s p) = UNUSED \<longleftrightarrow> p \<in> set (A UNUSEDQ)"
  proof
    assume u: "state (procs s p) = UNUSED"
    with q obtain k where "p \<in> set (A k)" by auto
    with f [OF this] u show "p \<in> set (A UNUSEDQ)" by (cases k) auto
  qed (use f in force)
  show "state (procs s p) = SLEEPING \<longleftrightarrow> p \<in> set (A SLEEPQ)"
  proof
    assume u: "state (procs s p) = SLEEPING"
    with q obtain k where "p \<in> set (A k)" by auto
    with f [OF this] u show "p \<in> set (A SLEEPQ)" by (cases k) auto
  qed (use f in force)
  show "state (procs s p) = RUNNABLE \<longleftrightarrow> p \<in> set (A L0) \<union> set (A L1) \<union> set (A L2)"
  proof
    assume u: "state (procs s p) = RUNNABLE"
    with q obtain k where "p \<in> set (A k)" by auto
    with f [OF this] u show "p \<in> set (A L0) \<union> set (A L1) \<union> set (A L2)" by (cases k) auto
  qed (use f in force)
qed

subsection \<open>The primitives keep it\<close>

lemma upd_proc_sel [simp]:
  "procs (upd_proc i f s) = (procs s)(i := f (procs s i))"
  "queues (upd_proc i f s) = queues s" "global_ticks (upd_proc i f s) = global_ticks s"
  "lockproc (upd_proc i f s) = lockproc s" "unlockproc (upd_proc i f s) = unlockproc s"
  "initproc (upd_proc i f s) = initproc s" "nextpid (upd_proc i f s) = nextpid s"
  by (simp_all add: upd_proc_def)

lemma family_upd:
  assumes "prev_p v = prev_p (h i)" and "next_p v = next_p (h i)"
  shows "family rep (h(i := v)) Q A = family rep h Q A"
proof -
  have "rep (h(i := v)) (Q k) (A k) = rep h (Q k) (A k)" for k
    by (rule rep_cong) (use assms in auto)
  then show ?thesis by (simp add: family_def)
qed

text \<open>A slot in transit can be rewritten, links included.\<close>

lemma placed_upd_transit:
  assumes pl: "placed_ex s A X" and "p \<in> X" and lev: "valid_level (queuelevel (f (procs s p)))"
  shows "placed_ex (upd_proc p f s) A X"
proof (rule placed_exI)
  have out: "p \<notin> set (A k)" for k
    using pl \<open>p \<in> X\<close> by (rule placed_transit)
  then show "family rep (procs (upd_proc p f s)) (queues (upd_proc p f s)) A"
    using placed_family [OF pl] by (simp add: family_def)
  show "i < NPROC \<and> fits k (procs (upd_proc p f s) i) \<and> i \<notin> X" if "i \<in> set (A k)" for i k
    using that out [of k] placed_slots [OF pl] placed_fits [OF pl] placed_transit [OF pl] by auto
  show "\<exists>k. i \<in> set (A k)"
    if "i < NPROC" "i \<notin> X" "queued_state (state (procs (upd_proc p f s) i))" for i
    using that \<open>p \<in> X\<close> placed_cover [OF pl, of i] by (auto split: if_splits)
  show "valid_level (queuelevel (procs (upd_proc p f s) i))" if "i < NPROC" for i
    using lev placed_level [OF pl that] by simp
  have "prios (upd_proc p f s) (A L2) = prios s (A L2)"
    using out [of L2] by (intro map_cong) auto
  then show "sorted (prios (upd_proc p f s) (A L2))"
    using placed_sorted [OF pl] by argo
qed

text \<open>Elsewhere a change of the fields the queues do not depend on is harmless.\<close>

lemma placed_upd_inert:
  assumes pl: "placed_ex s A X"
    and inert: "prev_p (f (procs s p)) = prev_p (procs s p)" "next_p (f (procs s p)) = next_p (procs s p)"
      "state (f (procs s p)) = state (procs s p)" "queuelevel (f (procs s p)) = queuelevel (procs s p)"
      "priority (f (procs s p)) = priority (procs s p)"
  shows "placed_ex (upd_proc p f s) A X"
proof (rule placed_exI)
  show "family rep (procs (upd_proc p f s)) (queues (upd_proc p f s)) A"
    using placed_family [OF pl] by (simp add: family_upd inert)
  have "fits k (procs (upd_proc p f s) i) = fits k (procs s i)" for k i
    using inert by (cases k) auto
  then show "i < NPROC \<and> fits k (procs (upd_proc p f s) i) \<and> i \<notin> X" if "i \<in> set (A k)" for i k
    using that placed_slots [OF pl] placed_fits [OF pl] placed_transit [OF pl] by blast
  show "\<exists>k. i \<in> set (A k)"
    if "i < NPROC" "i \<notin> X" "queued_state (state (procs (upd_proc p f s) i))" for i
    using that inert(3) placed_cover [OF pl, of i] by (auto split: if_splits)
  show "valid_level (queuelevel (procs (upd_proc p f s) i))" if "i < NPROC" for i
    using inert(4) placed_level [OF pl that] by auto
  have "prios (upd_proc p f s) (A L2) = prios s (A L2)"
    using inert(5) by (intro map_cong) auto
  then show "sorted (prios (upd_proc p f s) (A L2))"
    using placed_sorted [OF pl] by argo
qed

text \<open>A slot outside the queues can enter transit.\<close>

lemma placed_to_transit:
  "placed_ex s A X \<Longrightarrow> (\<And>k. p \<notin> set (A k)) \<Longrightarrow> placed_ex s A (insert p X)"
  by (auto simp: placed_ex_def)

lemma placed_from_transit:
  "placed_ex s A X \<Longrightarrow> \<not> queued_state (state (procs s p)) \<Longrightarrow> placed_ex s A (X - {p})"
  unfolding placed_ex_def by auto

lemma placed_globals [simp]:
  "placed_ex (s\<lparr>global_ticks := n\<rparr>) A X = placed_ex s A X"
  "placed_ex (s\<lparr>lockproc := l\<rparr>) A X = placed_ex s A X"
  "placed_ex (s\<lparr>unlockproc := l\<rparr>) A X = placed_ex s A X"
  "placed_ex (s\<lparr>initproc := l\<rparr>) A X = placed_ex s A X"
  "placed_ex (s\<lparr>nextpid := n\<rparr>) A X = placed_ex s A X"
  by (simp_all add: placed_ex_def)

lemma placed_same_data:
  assumes pl: "placed_ex s A X" and sd: "same_data s t"
    and fam: "family rep (procs t) (queues t) B"
    and new: "\<And>k p. p \<in> set (B k) \<Longrightarrow> p \<notin> set (A k) \<Longrightarrow> fits k (procs s p) \<and> p < NPROC"
    and transit: "\<And>k p. p \<in> set (B k) \<Longrightarrow> p \<notin> X'"
    and cover: "\<And>p k. p < NPROC \<Longrightarrow> p \<notin> X' \<Longrightarrow> p \<in> set (A k) \<or> p \<in> X \<Longrightarrow> \<exists>k. p \<in> set (B k)"
    and sorted: "sorted (prios s (B L2))"
  shows "placed_ex t B X'"
proof (rule placed_exI)
  show "family rep (procs t) (queues t) B" by (rule fam)
  show "p < NPROC \<and> fits k (procs t p) \<and> p \<notin> X'" if "p \<in> set (B k)" for p k
    using that new [OF that] transit [OF that] placed_fits [OF pl, of p k] placed_slots [OF pl, of p k]
    by (auto simp: same_data_fits [OF sd])
  show "\<exists>k. p \<in> set (B k)" if "p < NPROC" "p \<notin> X'" "queued_state (state (procs t p))" for p
  proof (cases "p \<in> X")
    case True
    with that cover show ?thesis by blast
  next
    case False
    with that have "\<exists>k. p \<in> set (A k)"
      by (intro placed_cover [OF pl]) (simp_all add: same_data_fields [OF sd])
    with that cover show ?thesis by blast
  qed
  show "valid_level (queuelevel (procs t p))" if "p < NPROC" for p
    using placed_level [OF pl that] by (simp add: same_data_fields [OF sd])
  show "sorted (prios t (B L2))"
    using sorted by (simp add: same_data_prios [OF sd])
qed

lemma relinked_same_data:
  "relinked (procs s) h S \<Longrightarrow> same_data s (s\<lparr>procs := h, queues := Q\<rparr>)"
  by (simp add: same_data_def relinked_def)

lemma q_insert_placed:
  assumes pl: "placed_ex s A X" and "p \<in> X" "p < NPROC" and fit: "fits k (procs s p)"
    and base: "base = None \<or> base \<in> Some ` set (A k)"
    and srt: "k = L2 \<Longrightarrow> sorted (prios s (insert_before (A L2) p base))"
  shows "succeeds (q_insert k p base s)
    (\<lambda>t. placed_ex t (A(k := insert_before (A k) p base)) (X - {p}) \<and> same_data s t)"
proof -
  have out: "p \<notin> set (A l)" for l
    using pl \<open>p \<in> X\<close> by (rule placed_transit)
  obtain h q where ins: "insert_q (procs s) (queues s k) p base = Inr (h, q)"
    and fam: "family rep h ((queues s)(k := q)) (A(k := insert_before (A k) p base))"
    and rel: "relinked (procs s) h (insert p (set (A k)))"
    using dq.family_ins [OF placed_family [OF pl] out base] by (auto elim!: succeedsE)
  let ?t = "s\<lparr>procs := h, queues := (queues s)(k := q)\<rparr>" and ?B = "A(k := insert_before (A k) p base)"
  have sd: "same_data s ?t" using rel by (rule relinked_same_data)
  have "placed_ex ?t ?B (X - {p})"
  proof (rule placed_same_data [OF pl sd])
    show "family rep (procs ?t) (queues ?t) ?B" using fam by simp
    show "fits l (procs s i) \<and> i < NPROC" if "i \<in> set (?B l)" "i \<notin> set (A l)" for l i
      using that fit \<open>p < NPROC\<close> by (auto split: if_splits)
    show "i \<notin> X - {p}" if "i \<in> set (?B l)" for l i
      using that placed_transit [OF pl] by (auto split: if_splits)
    show "\<exists>l. i \<in> set (?B l)" if "i \<notin> X - {p}" "i \<in> set (A l) \<or> i \<in> X" for i l
    proof (cases "i = p")
      case True
      then have "i \<in> set (?B k)" by simp
      then show ?thesis by blast
    next
      case False
      with that have "i \<in> set (?B l)" by auto
      then show ?thesis by blast
    qed
    show "sorted (prios s (?B L2))"
      using srt placed_sorted [OF pl] by auto
  qed
  with sd ins show ?thesis by (simp add: q_insert_def)
qed

lemma q_delete_placed:
  assumes pl: "placed_ex s A X" and p: "p \<in> set (A k)"
  shows "placed_ex (q_delete k p s) (A(k := remove1 p (A k))) (insert p X) \<and> same_data s (q_delete k p s)"
proof -
  obtain h q where del: "delete_q (procs s) (queues s k) p = (h, q)" by fastforce
  with dq.family_del [where k = k, OF placed_family [OF pl] p]
  have fam: "family rep h ((queues s)(k := q)) (A(k := remove1 p (A k)))"
    and rel: "relinked (procs s) h (set (A k))" by auto
  let ?t = "s\<lparr>procs := h, queues := (queues s)(k := q)\<rparr>" and ?B = "A(k := remove1 p (A k))"
  have sd: "same_data s ?t" using rel by (rule relinked_same_data)
  have rm: "set (remove1 p (A k)) = set (A k) - {p}"
    using placed_distinct [OF pl] by (rule set_remove1_eq)
  have "placed_ex ?t ?B (insert p X)"
  proof (rule placed_same_data [OF pl sd])
    show "family rep (procs ?t) (queues ?t) ?B" using fam by simp
    show "fits l (procs s i) \<and> i < NPROC" if "i \<in> set (?B l)" "i \<notin> set (A l)" for l i
      using that rm by (auto split: if_splits)
    show "i \<notin> insert p X" if "i \<in> set (?B l)" for l i
      using that rm placed_transit [OF pl, of i l] placed_unique [OF pl p, of l] by (auto split: if_splits)
    show "\<exists>l. i \<in> set (?B l)" if "i \<notin> insert p X" "i \<in> set (A l) \<or> i \<in> X" for i l
    proof -
      from that have "i \<in> set (?B l)" using rm by auto
      then show ?thesis by blast
    qed
    show "sorted (prios s (?B L2))"
      using placed_sorted [OF pl] by (auto intro: sorted_map_remove1)
  qed
  with sd del show ?thesis by (simp add: q_delete_def)
qed

lemma q_dequeue_placed:
  assumes pl: "placed_ex s A X"
  shows "case q_dequeue k s of (r, t) \<Rightarrow>
    r = first_or (A k) None \<and> same_data s t \<and> placed_ex t (A(k := tl (A k))) (X \<union> set_option r)"
proof -
  obtain r h q where deq: "dequeue (procs s) (queues s k) = (r, h, q)" by (metis prod_cases3)
  with dq.family_deq [OF placed_family [OF pl], of k]
  have fam: "family rep h ((queues s)(k := q)) (A(k := tl (A k)))" and r: "r = first_or (A k) None"
    and rel: "relinked (procs s) h (set (A k))" by auto
  let ?t = "s\<lparr>procs := h, queues := (queues s)(k := q)\<rparr>" and ?B = "A(k := tl (A k))"
  have sd: "same_data s ?t" using rel by (rule relinked_same_data)
  have sub: "set (A k) = set_option r \<union> set (tl (A k))" "set_option r \<inter> set (tl (A k)) = {}"
    using placed_distinct [OF pl, of k] r by (cases "A k"; auto)+
  have "placed_ex ?t ?B (X \<union> set_option r)"
  proof (rule placed_same_data [OF pl sd])
    show "family rep (procs ?t) (queues ?t) ?B" using fam by simp
    show "fits l (procs s i) \<and> i < NPROC" if "i \<in> set (?B l)" "i \<notin> set (A l)" for l i
      using that sub by (auto split: if_splits)
    show "i \<notin> X \<union> set_option r" if "i \<in> set (?B l)" for l i
      using that sub placed_transit [OF pl, of i l] placed_unique [OF pl, of i k l]
      by (auto split: if_splits)
    show "\<exists>l. i \<in> set (?B l)" if "i \<notin> X \<union> set_option r" "i \<in> set (A l) \<or> i \<in> X" for i l
    proof -
      from that have "i \<in> set (?B l)" using sub by auto
      then show ?thesis by blast
    qed
    show "sorted (prios s (?B L2))"
      using placed_sorted [OF pl] by (auto simp: map_tl intro: sorted_tl)
  qed
  with sd deq r show ?thesis by (simp add: q_dequeue_def)
qed

subsection \<open>Insertion by priority\<close>

definition insert_prio :: "('a \<Rightarrow> int) \<Rightarrow> 'a \<Rightarrow> 'a list \<Rightarrow> 'a list" where
  "insert_prio f p xs = insert_before xs p (find (\<lambda>x. f x > f p) xs)"

lemma insert_prio_simps [simp]:
  "insert_prio f p [] = [p]"
  "insert_prio f p (x # xs) = (if f x > f p then p # x # xs else x # insert_prio f p xs)"
proof -
  show "insert_prio f p [] = [p]" by (simp add: insert_prio_def)
  have "insert_before (x # xs) p (find (\<lambda>x. f x > f p) xs) = x # insert_before xs p (find (\<lambda>x. f x > f p) xs)"
    if "\<not> f x > f p"
    using that by (auto simp: insert_before_def dest: find_SomeD split: option.splits)
  then show "insert_prio f p (x # xs) = (if f x > f p then p # x # xs else x # insert_prio f p xs)"
    by (simp add: insert_prio_def)
qed

lemma set_insert_prio [simp]: "set (insert_prio f p xs) = insert p (set xs)"
  by (simp add: insert_prio_def)

lemma sorted_insert_prio: "sorted (map f xs) \<Longrightarrow> sorted (map f (insert_prio f p xs))"
  by (induction xs) auto

text \<open>Processes of equal priority keep their order of arrival.\<close>

lemma insert_prio_stable:
  "sorted (map f xs) \<Longrightarrow>
   filter (\<lambda>x. f x = v) (insert_prio f p xs) = filter (\<lambda>x. f x = v) xs @ (if f p = v then [p] else [])"
proof (induction xs)
  case (Cons x xs)
  show ?case
  proof (cases "f x > f p")
    case True
    with Cons.prems have "\<forall>y \<in> set (x # xs). f y > f p" by auto
    then have "filter (\<lambda>x. f x = v) (x # xs) = []" if "f p = v"
      using that by (auto simp: filter_empty_conv)
    with True show ?thesis by auto
  next
    case False
    with Cons show ?thesis by auto
  qed
qed simp

lemma higherpriority_proc_placed:
  assumes "placed_ex s A X"
  shows "higherpriority_proc p s = Inr (find (\<lambda>x. priority (procs s x) > priority (procs s p)) (A L2))"
  unfolding higherpriority_proc_def
  using placed_rep [OF assms] placed_fuel [OF assms] by (rule walk_find_rep)

text \<open>The list a queue holds after \<open>enqueue_level p\<close>.\<close>

definition level_of :: "int \<Rightarrow> qid" where
  "level_of l = (if l = 0 then L0 else if l = 1 then L1 else L2)"

definition enqueued :: "heap \<Rightarrow> nat \<Rightarrow> (qid \<Rightarrow> nat list) \<Rightarrow> qid \<Rightarrow> nat list" where
  "enqueued h p A =
    (if queuelevel (h p) = 2 then A(L2 := insert_prio (\<lambda>x. priority (h x)) p (A L2))
     else A(level_of (queuelevel (h p)) := A (level_of (queuelevel (h p))) @ [p]))"

lemma enqueue_level_placed:
  assumes pl: "placed_ex s A X" and "p \<in> X" "p < NPROC" and run: "state (procs s p) = RUNNABLE"
  shows "succeeds (enqueue_level p s)
    (\<lambda>t. placed_ex t (enqueued (procs s) p A) (X - {p}) \<and> same_data s t)"
proof (cases "queuelevel (procs s p) = 2")
  case True
  let ?f = "\<lambda>x. priority (procs s x)"
  let ?b = "find (\<lambda>x. ?f x > ?f p) (A L2)"
  have "?b = None \<or> ?b \<in> Some ` set (A L2)"
    by (rule find_in)
  moreover have "sorted (prios s (insert_before (A L2) p ?b))"
    using sorted_insert_prio [OF placed_sorted [OF pl], of p] by (simp add: insert_prio_def)
  ultimately have "succeeds (q_insert L2 p ?b s)
      (\<lambda>t. placed_ex t (A(L2 := insert_before (A L2) p ?b)) (X - {p}) \<and> same_data s t)"
    using True run by (intro q_insert_placed [OF pl assms(2,3)]) auto
  with True show ?thesis
    by (simp add: enqueue_level_def higherpriority_proc_placed [OF pl] enqueued_def insert_prio_def)
next
  case False
  with placed_level [OF pl \<open>p < NPROC\<close>] have lev: "queuelevel (procs s p) = 0 \<or> queuelevel (procs s p) = 1"
    by auto
  let ?k = "level_of (queuelevel (procs s p))"
  have "succeeds (q_insert ?k p None s)
      (\<lambda>t. placed_ex t (A(?k := insert_before (A ?k) p None)) (X - {p}) \<and> same_data s t)"
    using lev run by (intro q_insert_placed [OF pl assms(2,3)]) (auto simp: level_of_def)
  moreover have "l_queue (queuelevel (procs s p)) = Inr ?k"
    using lev by (auto simp: l_queue_def level_of_def)
  ultimately show ?thesis
    using False by (simp add: enqueue_level_def enqueued_def)
qed

subsection \<open>Initialisation, allocation and release of slots\<close>

lemma insert_all_placed:
  assumes "placed_ex s A X" and "distinct ps" and "set ps \<subseteq> X" and "set ps \<subseteq> {..<NPROC}"
    and "\<forall>p \<in> set ps. state (procs s p) = UNUSED"
  shows "succeeds (insert_all ps s)
    (\<lambda>t. placed_ex t (A(UNUSEDQ := A UNUSEDQ @ ps)) (X - set ps) \<and> same_data s t)"
  using assms
proof (induction ps arbitrary: s A X)
  case Nil
  then show ?case by simp
next
  case (Cons p ps)
  have "succeeds (q_insert UNUSEDQ p None s)
      (\<lambda>t. placed_ex t (A(UNUSEDQ := insert_before (A UNUSEDQ) p None)) (X - {p}) \<and> same_data s t)"
    using Cons.prems by (intro q_insert_placed) auto
  then obtain t where t: "q_insert UNUSEDQ p None s = Inr t"
    and pl: "placed_ex t (A(UNUSEDQ := A UNUSEDQ @ [p])) (X - {p})" and sd: "same_data s t"
    by (auto elim: succeedsE)
  have "set ps \<subseteq> X - {p}" "\<forall>q \<in> set ps. state (procs t q) = UNUSED"
    using Cons.prems by (auto simp: same_data_fields [OF sd])
  with Cons.IH [OF pl] Cons.prems
  have "succeeds (insert_all ps t)
      (\<lambda>u. placed_ex u (A(UNUSEDQ := A UNUSEDQ @ p # ps)) (X - {p} - set ps) \<and> same_data t u)"
    by (simp add: fun_upd_def cong: if_cong)
  then have "succeeds (insert_all ps t)
      (\<lambda>u. placed_ex u (A(UNUSEDQ := A UNUSEDQ @ p # ps)) (X - set (p # ps)) \<and> same_data s u)"
    by (rule succeeds_mono) (auto simp: Diff_insert2 [symmetric] intro: same_data_trans [OF sd])
  then show ?case by (simp add: t fun_upd_def)
qed

lemma pinit_placed:
  assumes "\<forall>p < NPROC. state (procs s p) = UNUSED \<and> valid_level (queuelevel (procs s p))"
  shows "succeeds (pinit s)
    (\<lambda>t. placed t ((\<lambda>_. [])(UNUSEDQ := [0..<NPROC])) \<and> lockproc t = None \<and> unlockproc t = None \<and>
       global_ticks t = global_ticks s)"
proof -
  let ?s = "s\<lparr>lockproc := None, unlockproc := None, queues := (\<lambda>_. initqueue)\<rparr>"
  have "placed_ex ?s (\<lambda>_. []) {..<NPROC}"
    using assms by (simp add: placed_ex_def family_def)
  from insert_all_placed [OF this, of "[0..<NPROC]"] assms
  have "succeeds (insert_all [0..<NPROC] ?s)
    (\<lambda>t. placed t ((\<lambda>_. [])(UNUSEDQ := [0..<NPROC])) \<and> same_data ?s t)"
    by (simp add: atLeast_upt)
  then show ?thesis
    unfolding pinit_def by (rule succeeds_mono) (auto simp: same_data_fields)
qed

definition fresh_proc :: "int \<Rightarrow> proc \<Rightarrow> proc" where
  "fresh_proc n pr = setproc_default (pr\<lparr>state := EMBRYO, pid := n\<rparr>)"

lemma alloc_slot_placed:
  assumes pl: "placed_ex s A X"
  shows "case alloc_slot s of
      (None, t) \<Rightarrow> A UNUSEDQ = [] \<and> placed_ex t A X \<and> same_data s t
    | (Some p, t) \<Rightarrow>
        (\<exists>ps. A UNUSEDQ = p # ps \<and> placed_ex t (A(UNUSEDQ := ps)) X) \<and>
        same_data (upd_proc p (fresh_proc (nextpid s)) (s\<lparr>nextpid := nextpid s + 1\<rparr>)) t"
proof -
  obtain r t where deq: "q_dequeue UNUSEDQ s = (r, t)" by fastforce
  have r: "r = first_or (A UNUSEDQ) None" and sd: "same_data s t"
    and pt: "placed_ex t (A(UNUSEDQ := tl (A UNUSEDQ))) (X \<union> set_option r)"
    using q_dequeue_placed [OF pl, of UNUSEDQ] deq by auto
  show ?thesis
  proof (cases "A UNUSEDQ")
    case Nil
    then have "A(UNUSEDQ := tl (A UNUSEDQ)) = A" by auto
    with pt r sd Nil deq show ?thesis by (simp add: alloc_slot_def)
  next
    case (Cons p ps)
    let ?u = "upd_proc p (fresh_proc (nextpid t)) (t\<lparr>nextpid := nextpid t + 1\<rparr>)"
    have p: "p \<in> X \<union> set_option r" using r Cons by simp
    have notX: "p \<notin> X" using placed_transit [OF pl, of p UNUSEDQ] Cons by auto
    have "placed_ex ?u (A(UNUSEDQ := tl (A UNUSEDQ))) (X \<union> set_option r)"
      by (rule placed_upd_transit [OF _ p]) (simp_all add: pt fresh_proc_def setproc_default_def)
    then have "placed_ex ?u (A(UNUSEDQ := tl (A UNUSEDQ))) (X \<union> set_option r - {p})"
      by (rule placed_from_transit) (simp add: fresh_proc_def setproc_default_def)
    then have "placed_ex ?u (A(UNUSEDQ := ps)) X"
      using r Cons notX by simp
    moreover have "same_data (upd_proc p (fresh_proc (nextpid s)) (s\<lparr>nextpid := nextpid s + 1\<rparr>)) ?u"
      unfolding same_data_fields(13) [OF sd]
      by (rule same_data_upd_proc) (use sd in \<open>simp_all add: same_data_def fresh_proc_def setproc_default_def\<close>)
    moreover have "alloc_slot s = (Some p, ?u)"
      using r Cons deq by (simp add: alloc_slot_def upd_proc_def fresh_proc_def Let_def)
    ultimately show ?thesis using Cons by simp
  qed
qed

text \<open>A slot that is in no queue takes a queued state and enters its queue.\<close>

lemma enter_queue:
  assumes pl: "placed s A" and p: "p < NPROC" "\<not> queued_state (state (procs s p))"
    and lev: "valid_level (queuelevel (f (procs s p)))" and fit: "fits k (f (procs s p))"
    and k: "k \<noteq> L2" and base: "base = None \<or> base \<in> Some ` set (A k)"
  shows "succeeds (q_insert k p base (upd_proc p f s))
    (\<lambda>t. placed t (A(k := insert_before (A k) p base)) \<and> same_data (upd_proc p f s) t)"
proof -
  have "placed_ex s A {p}"
    using placed_to_transit [OF pl placed_not_queued [OF pl p(2)]] by simp
  then have "placed_ex (upd_proc p f s) A {p}"
    by (rule placed_upd_transit) (use lev in simp_all)
  then have "succeeds (q_insert k p base (upd_proc p f s))
    (\<lambda>t. placed_ex t (A(k := insert_before (A k) p base)) ({p} - {p}) \<and> same_data (upd_proc p f s) t)"
    by (rule q_insert_placed) (use p fit k base in simp_all)
  then show ?thesis by simp
qed

lemma free_slot_placed:
  assumes pl: "placed s A" and p: "p < NPROC" "\<not> queued_state (state (procs s p))"
  shows "succeeds (free_slot p s)
    (\<lambda>t. placed t (A(UNUSEDQ := A UNUSEDQ @ [p])) \<and> same_data (upd_proc p (\<lambda>pr. pr\<lparr>state := UNUSED\<rparr>) s) t)"
  unfolding free_slot_def
  using enter_queue [OF pl p, of "\<lambda>pr. pr\<lparr>state := UNUSED\<rparr>" UNUSEDQ None] placed_level [OF pl p(1)] by simp

lemma make_runnable_placed:
  assumes pl: "placed s A" and p: "p < NPROC" "\<not> queued_state (state (procs s p))"
  shows "succeeds (make_runnable p s)
    (\<lambda>t. placed t (A(L0 := A L0 @ [p])) \<and> same_data (upd_proc p (\<lambda>pr. pr\<lparr>state := RUNNABLE\<rparr>) s) t)"
  unfolding make_runnable_def
  using enter_queue [OF pl p, of "\<lambda>pr. pr\<lparr>state := RUNNABLE\<rparr>" L0 None] placed_level [OF pl p(1)] by simp

lemma releasemlfq_sel [simp]:
  "procs (releasemlfq s) = procs s" "queues (releasemlfq s) = queues s"
  "global_ticks (releasemlfq s) = global_ticks s" "lockproc (releasemlfq s) = None"
  "unlockproc (releasemlfq s) = unlockproc s" "initproc (releasemlfq s) = initproc s"
  "nextpid (releasemlfq s) = nextpid s"
  by (auto simp: releasemlfq_def)

lemma placed_releasemlfq [simp]: "placed_ex (releasemlfq s) A X = placed_ex s A X"
  by (simp add: placed_ex_def)

lemma sleep_enq_placed:
  assumes pl: "placed s A" and p: "p < NPROC" "\<not> queued_state (state (procs s p))"
  shows "succeeds (sleep_enq p c s)
    (\<lambda>t. placed t (A(SLEEPQ := A SLEEPQ @ [p])) \<and>
       same_data (upd_proc p (\<lambda>pr. pr\<lparr>chan := c, state := SLEEPING\<rparr>) (releasemlfq s)) t)"
  unfolding sleep_enq_def
  using enter_queue [of "releasemlfq s" A p "\<lambda>pr. pr\<lparr>chan := c, state := SLEEPING\<rparr>" SLEEPQ None]
    pl p placed_level [OF pl p(1)] by simp

end
