(* ===== verification/MlfqOps.thy ===== *)
theory MlfqOps
  imports Mlfq
begin

text \<open>
  What the operations of \<open>Mlfq\<close> do: each one, from a state whose queues hold the lists
  \<open>A\<close>, succeeds, keeps the invariant, and leaves the lists and the process data its lemma
  names. The claims of this theory are the behaviour of the scheduler: who is chosen, where
  a process goes when it yields, sleeps or is woken, what boosting does, and what the
  scheduler lock guarantees.
\<close>

section \<open>Choosing a process\<close>

text \<open>The runnable processes in the order the scheduler will take them.\<close>

definition run_order :: "(qid \<Rightarrow> nat list) \<Rightarrow> nat list" where
  "run_order A = A L0 @ A L1 @ A L2"

definition drop_first :: "(qid \<Rightarrow> nat list) \<Rightarrow> qid \<Rightarrow> nat list" where
  "drop_first A =
    (if A L0 \<noteq> [] then A(L0 := tl (A L0))
     else if A L1 \<noteq> [] then A(L1 := tl (A L1))
     else A(L2 := tl (A L2)))"

lemma run_order_drop_first: "run_order (drop_first A) = tl (run_order A)"
  by (simp add: run_order_def drop_first_def)

lemma drop_first_Nil: "run_order A = [] \<Longrightarrow> drop_first A = A"
  by (auto simp: run_order_def drop_first_def fun_eq_iff)

lemma pick_placed:
  assumes pl: "placed_ex s A X"
  shows "case pick s of (r, t) \<Rightarrow>
    r = first_or (run_order A) None \<and> same_data s t \<and> placed_ex t (drop_first A) (X \<union> set_option r)"
proof -
  have empty: "queue_is_empty (queues s k) \<longleftrightarrow> A k = []" for k
    using rep_empty [OF placed_rep [OF pl]] .
  note deq = q_dequeue_placed [OF pl]
  show ?thesis
  proof (cases "run_order A = []")
    case True
    then show ?thesis
      using pl drop_first_Nil [OF True] by (simp add: pick_def empty run_order_def)
  next
    case False
    then obtain k where k: "pick s = q_dequeue k s" "first_or (run_order A) None = first_or (A k) None"
      "drop_first A = A(k := tl (A k))"
      by (cases "A L0"; cases "A L1"; cases "A L2") (auto simp: pick_def empty run_order_def drop_first_def)
    then show ?thesis using deq [of k] by simp
  qed
qed

lemma sched_pick_placed:
  assumes pl: "placed s A"
  shows "case sched_pick s of
      (None, t) \<Rightarrow> run_order A = [] \<and> same_data s t \<and> placed t A
    | (Some p, t) \<Rightarrow> run_order A = p # run_order (drop_first A) \<and> placed t (drop_first A) \<and>
        same_data (upd_proc p (\<lambda>pr. pr\<lparr>state := RUNNING\<rparr>) s) t"
proof -
  obtain r t where pk: "pick s = (r, t)" by fastforce
  with pick_placed [OF pl] have r: "r = first_or (run_order A) None" and sd: "same_data s t"
    and pt: "placed_ex t (drop_first A) (set_option r)" by auto
  show ?thesis
  proof (cases r)
    case None
    with r have "run_order A = []" by (cases "run_order A") auto
    with None pk pt sd show ?thesis by (simp add: sched_pick_def drop_first_Nil)
  next
    case (Some p)
    with r have ro: "run_order A = p # run_order (drop_first A)"
      by (cases "run_order A") (auto simp: run_order_drop_first)
    then have "p \<in> set (A L0) \<union> set (A L1) \<union> set (A L2)"
      by (metis list.set_intros(1) run_order_def set_append sup_assoc)
    then have "p < NPROC" using placed_slots [OF pl] by auto
    let ?t = "upd_proc p (\<lambda>pr. pr\<lparr>state := RUNNING\<rparr>) t"
    have "placed_ex ?t (drop_first A) {p}"
      using pt Some placed_level [OF pt \<open>p < NPROC\<close>] by (intro placed_upd_transit) auto
    then have "placed_ex ?t (drop_first A) ({p} - {p})"
      by (rule placed_from_transit) simp
    moreover have "same_data (upd_proc p (\<lambda>pr. pr\<lparr>state := RUNNING\<rparr>) s) ?t"
      by (rule same_data_upd_proc [OF sd]) (simp add: data_of_def)
    ultimately show ?thesis using Some pk ro by (simp add: sched_pick_def)
  qed
qed

section \<open>Yielding\<close>

definition tick :: "proc \<Rightarrow> proc" where
  "tick pr = pr\<lparr>ticks := ticks pr + 1, state := RUNNABLE\<rparr>"

lemma quantum_check_links [simp]:
  "prev_p (quantum_check pr) = prev_p pr" "next_p (quantum_check pr) = next_p pr"
  "state (quantum_check pr) = state pr" "pid (quantum_check pr) = pid pr"
  by (simp_all add: quantum_check_def Let_def)

lemma quantum_check_level [simp]:
  "valid_level (queuelevel pr) \<Longrightarrow> valid_level (queuelevel (quantum_check pr))"
  by (auto simp: quantum_check_def Let_def)

lemma quantum_check_respects [simp]:
  "data_of (quantum_check (pr\<lparr>prev_p := x, next_p := y\<rparr>)) = data_of (quantum_check pr)"
  by (simp add: quantum_check_def data_of_def Let_def)

text \<open>The queues after \<^verbatim>\<open>yield\<close>: the holder of the scheduler lock (or the process that
  has just given it up) goes to the head of level 0, every other process to its level.\<close>

definition yielded :: "nat \<Rightarrow> mlfq_st \<Rightarrow> mlfq_st" where
  "yielded p s =
    (let u = s\<lparr>global_ticks := global_ticks s + 1\<rparr>
     in if lockproc s = Some p \<or> unlockproc s = Some p then
          if unlockproc s = Some p then (upd_proc p tick u)\<lparr>unlockproc := None\<rparr> else upd_proc p tick u
        else upd_proc p (\<lambda>pr. quantum_check (tick pr)) u)"

definition yielded_queues :: "nat \<Rightarrow> mlfq_st \<Rightarrow> (qid \<Rightarrow> nat list) \<Rightarrow> qid \<Rightarrow> nat list" where
  "yielded_queues p s A =
    (if lockproc s = Some p \<or> unlockproc s = Some p then A(L0 := p # A L0)
     else enqueued (procs (yielded p s)) p A)"

lemma yield_enq_placed:
  assumes pl: "placed s A" and p: "p < NPROC" "\<not> queued_state (state (procs s p))"
  shows "succeeds (yield_enq p s) (\<lambda>t. placed t (yielded_queues p s A) \<and> same_data (yielded p s) t)"
proof -
  have tr: "placed_ex s A {p}"
    using placed_to_transit [OF pl placed_not_queued [OF pl p(2)]] by simp
  note lev = placed_level [OF pl p(1)]
  show ?thesis
  proof (cases "lockproc s = Some p \<or> unlockproc s = Some p")
    case True
    let ?u = "yielded p s"
    have u: "placed_ex ?u A {p}"
      using True tr lev by (auto simp: yielded_def tick_def Let_def intro!: placed_upd_transit)
    have "succeeds (q_insert L0 p (head (queues ?u L0)) ?u)
      (\<lambda>t. placed_ex t (A(L0 := insert_before (A L0) p (head (queues ?u L0)))) ({p} - {p}) \<and> same_data ?u t)"
    proof (rule q_insert_placed [OF u])
      show "head (queues ?u L0) = None \<or> head (queues ?u L0) \<in> Some ` set (A L0)"
        unfolding placed_head [OF u] by (cases "A L0") auto
      show "fits L0 (procs ?u p)" using True by (simp add: yielded_def tick_def Let_def)
    qed (use p in auto)
    moreover have "insert_before (A L0) p (head (queues ?u L0)) = p # A L0"
      unfolding placed_head [OF u] by (cases "A L0") auto
    moreover have "yield_enq p s = q_insert L0 p (head (queues ?u L0)) ?u"
      using True by (auto simp: yield_enq_def yielded_def tick_def upd_proc_def Let_def)
    ultimately show ?thesis
      using True by (simp add: yielded_queues_def)
  next
    case False
    let ?u = "yielded p s"
    have "valid_level (queuelevel (quantum_check (tick (procs s p))))"
      by (rule quantum_check_level) (use lev in \<open>simp add: tick_def\<close>)
    with False tr have u: "placed_ex ?u A {p}"
      by (auto simp: yielded_def Let_def intro!: placed_upd_transit)
    have "succeeds (enqueue_level p ?u)
      (\<lambda>t. placed_ex t (enqueued (procs ?u) p A) ({p} - {p}) \<and> same_data ?u t)"
      by (rule enqueue_level_placed [OF u]) (use p False in \<open>simp_all add: yielded_def tick_def Let_def\<close>)
    moreover have "yield_enq p s = enqueue_level p ?u"
      using False by (simp add: yield_enq_def yielded_def tick_def upd_proc_def Let_def)
    ultimately show ?thesis
      using False by (simp add: yielded_queues_def)
  qed
qed

section \<open>Waking up\<close>

fun woken :: "heap \<Rightarrow> nat list \<Rightarrow> (qid \<Rightarrow> nat list) \<Rightarrow> qid \<Rightarrow> nat list" where
  "woken h [] A = A"
| "woken h (p # ps) A = woken h ps (enqueued h p (A(SLEEPQ := remove1 p (A SLEEPQ))))"

definition wake_procs :: "nat set \<Rightarrow> mlfq_st \<Rightarrow> mlfq_st" where
  "wake_procs W s = s\<lparr>procs := (\<lambda>i. if i \<in> W then (procs s i)\<lparr>state := RUNNABLE\<rparr> else procs s i)\<rparr>"

definition sleepers :: "mlfq_st \<Rightarrow> chan \<Rightarrow> nat list \<Rightarrow> nat list" where
  "sleepers s c xs = filter (\<lambda>p. chan (procs s p) = c) xs"

lemma enqueued_cong:
  assumes "\<And>i. queuelevel (h' i) = queuelevel (h i)" and "\<And>i. priority (h' i) = priority (h i)"
  shows "enqueued h' p A = enqueued h p A"
  by (simp add: enqueued_def assms)

lemma woken_cong:
  assumes "\<And>i. queuelevel (h' i) = queuelevel (h i)" and "\<And>i. priority (h' i) = priority (h i)"
  shows "woken h' ps A = woken h ps A"
  by (induction ps arbitrary: A) (simp_all add: enqueued_cong [OF assms])

lemma enqueued_other [simp]: "enqueued h p A SLEEPQ = A SLEEPQ" "enqueued h p A UNUSEDQ = A UNUSEDQ"
  by (simp_all add: enqueued_def level_of_def)

lemma wake_one:
  assumes pl: "placed_ex s A X" and p: "p \<in> set (A SLEEPQ)"
  shows "succeeds (enqueue_level p (upd_proc p (\<lambda>pr. pr\<lparr>state := RUNNABLE\<rparr>) (q_delete SLEEPQ p s)))
    (\<lambda>t. placed_ex t (enqueued (procs s) p (A(SLEEPQ := remove1 p (A SLEEPQ)))) X \<and>
       same_data (upd_proc p (\<lambda>pr. pr\<lparr>state := RUNNABLE\<rparr>) s) t)"
proof -
  let ?A = "A(SLEEPQ := remove1 p (A SLEEPQ))" and ?f = "\<lambda>pr. pr\<lparr>state := RUNNABLE\<rparr>"
  have dl: "placed_ex (q_delete SLEEPQ p s) ?A (insert p X)" "same_data s (q_delete SLEEPQ p s)"
    using q_delete_placed [OF pl p] by auto
  have "p < NPROC" using placed_slots [OF pl p] .
  let ?u = "upd_proc p ?f (q_delete SLEEPQ p s)"
  have u: "placed_ex ?u ?A (insert p X)"
    using dl(1) placed_level [OF dl(1) \<open>p < NPROC\<close>] by (intro placed_upd_transit) auto
  have sd: "same_data (upd_proc p ?f s) ?u"
    by (rule same_data_upd_proc [OF dl(2)]) (simp add: data_of_def)
  have "p \<notin> X" using placed_transit [OF pl] p by blast
  have "succeeds (enqueue_level p ?u)
      (\<lambda>t. placed_ex t (enqueued (procs ?u) p ?A) (insert p X - {p}) \<and> same_data ?u t)"
    by (rule enqueue_level_placed [OF u]) (use \<open>p < NPROC\<close> in auto)
  moreover have "enqueued (procs ?u) p ?A = enqueued (procs s) p ?A"
    by (rule enqueued_cong) (auto simp: same_data_fields [OF dl(2)])
  ultimately show ?thesis
    using \<open>p \<notin> X\<close> same_data_trans [OF sd] by (auto elim!: succeeds_mono)
qed

lemma wake_procs_cons:
  "wake_procs (insert p W) s = wake_procs W (upd_proc p (\<lambda>pr. pr\<lparr>state := RUNNABLE\<rparr>) s)"
  by (rule mlfq_st.equality) (auto simp: wake_procs_def)

lemma wake_procs_empty [simp]: "wake_procs {} s = s"
  by (simp add: wake_procs_def)

lemma same_data_wake: "same_data s t \<Longrightarrow> same_data (wake_procs W s) (wake_procs W t)"
proof -
  assume sd: "same_data s t"
  have "data_of ((procs t i)\<lparr>state := RUNNABLE\<rparr>) = data_of ((procs s i)\<lparr>state := RUNNABLE\<rparr>)" for i
  proof -
    from sd have "data_of (procs t i) = data_of (procs s i)" by (simp add: same_data_def)
    then obtain x y where "procs t i = (procs s i)\<lparr>prev_p := x, next_p := y\<rparr>" by (rule data_of_eqE)
    then show ?thesis by (simp add: data_of_def)
  qed
  with sd show ?thesis by (simp add: same_data_def wake_procs_def)
qed

lemma wake_procs_fields [simp]:
  "queuelevel (procs (wake_procs W s) i) = queuelevel (procs s i)"
  "priority (procs (wake_procs W s) i) = priority (procs s i)"
  "chan (procs (wake_procs W s) i) = chan (procs s i)"
  "parent (procs (wake_procs W s) i) = parent (procs s i)"
  "pid (procs (wake_procs W s) i) = pid (procs s i)"
  "state (procs (wake_procs W s) i) = (if i \<in> W then RUNNABLE else state (procs s i))"
  "initproc (wake_procs W s) = initproc s" "lockproc (wake_procs W s) = lockproc s"
  "unlockproc (wake_procs W s) = unlockproc s" "global_ticks (wake_procs W s) = global_ticks s"
  "nextpid (wake_procs W s) = nextpid s" "ticks (procs (wake_procs W s) i) = ticks (procs s i)"
  "killed (procs (wake_procs W s) i) = killed (procs s i)"
  by (simp_all add: wake_procs_def)

lemma wakeup1_loop_placed:
  assumes "placed_ex s A X" and "A SLEEPQ = ks @ ys" and "length ys < n"
  shows "succeeds (wakeup1_loop n c (first_or ys None) s)
    (\<lambda>t. placed_ex t (woken (procs s) (sleepers s c ys) A) X \<and>
       same_data (wake_procs (set (sleepers s c ys)) s) t)"
  using assms
proof (induction ys arbitrary: s A ks n)
  case Nil
  then show ?case by (cases n) (auto simp: sleepers_def)
next
  case (Cons p ys)
  from Cons.prems obtain m where n: "n = Suc m" and m: "length ys < m" by (cases n) auto
  have nxt: "next_p (procs s p) = first_or ys None"
    using placed_rep [OF Cons.prems(1), of SLEEPQ] Cons.prems(2) rep_next by metis
  show ?case
  proof (cases "chan (procs s p) = c")
    case False
    with Cons.IH [OF Cons.prems(1), of "ks @ [p]" m] Cons.prems m n nxt show ?thesis
      by (simp add: sleepers_def)
  next
    case True
    define B where "B = enqueued (procs s) p (A(SLEEPQ := remove1 p (A SLEEPQ)))"
    let ?s = "upd_proc p (\<lambda>pr. pr\<lparr>state := RUNNABLE\<rparr>) s"
    have "p \<in> set (A SLEEPQ)" using Cons.prems by simp
    from wake_one [OF Cons.prems(1) this] obtain u
      where u: "enqueue_level p (upd_proc p (\<lambda>pr. pr\<lparr>state := RUNNABLE\<rparr>) (q_delete SLEEPQ p s)) = Inr u"
        and pu: "placed_ex u B X" and su: "same_data ?s u" by (auto simp: B_def elim!: succeedsE)
    have "p \<notin> set ks" using placed_distinct [OF Cons.prems(1), of SLEEPQ] Cons.prems(2) by auto
    then have B: "B SLEEPQ = ks @ ys" using Cons.prems(2) by (simp add: B_def remove1_append)
    have fld: "queuelevel (procs u i) = queuelevel (procs s i)" "priority (procs u i) = priority (procs s i)"
      "chan (procs u i) = chan (procs s i)" for i
      by (auto simp: same_data_fields [OF su])
    have sl: "sleepers u c ys = sleepers s c ys" "sleepers s c (p # ys) = p # sleepers s c ys"
      using True by (simp_all add: sleepers_def fld)
    have "woken (procs u) (sleepers s c ys) B = woken (procs s) (sleepers s c (p # ys)) A"
      unfolding woken_cong [OF fld(1,2)] sl by (simp add: B_def)
    moreover have "same_data (wake_procs (set (sleepers s c (p # ys))) s) t"
      if "same_data (wake_procs (set (sleepers s c ys)) u) t" for t
      using same_data_trans [OF same_data_wake [OF su] that] by (simp add: sl wake_procs_cons)
    ultimately have "succeeds (wakeup1_loop m c (first_or ys None) u)
      (\<lambda>t. placed_ex t (woken (procs s) (sleepers s c (p # ys)) A) X \<and>
         same_data (wake_procs (set (sleepers s c (p # ys))) s) t)"
      using Cons.IH [OF pu B m] sl by (auto elim!: succeeds_mono)
    with True n nxt u show ?thesis by simp
  qed
qed

lemma wakeup1_placed:
  assumes pl: "placed_ex s A X"
  shows "succeeds (wakeup1 c s)
    (\<lambda>t. placed_ex t (woken (procs s) (sleepers s c (A SLEEPQ)) A) X \<and>
       same_data (wake_procs (set (sleepers s c (A SLEEPQ))) s) t)"
  unfolding wakeup1_def placed_head [OF pl]
  using wakeup1_loop_placed [OF pl, of "[]" "A SLEEPQ"] placed_fuel [OF pl] by simp

text \<open>The lists after a wakeup, queue by queue.\<close>

lemma woken_L0: "woken h W A L0 = A L0 @ filter (\<lambda>p. queuelevel (h p) = 0) W"
  by (induction W arbitrary: A) (auto simp: enqueued_def level_of_def)

lemma woken_L1: "woken h W A L1 = A L1 @ filter (\<lambda>p. queuelevel (h p) = 1) W"
  by (induction W arbitrary: A) (auto simp: enqueued_def level_of_def)

lemma woken_L2:
  assumes "\<forall>p \<in> set W. valid_level (queuelevel (h p))"
  shows "woken h W A L2 =
    fold (insert_prio (\<lambda>p. priority (h p))) (filter (\<lambda>p. queuelevel (h p) = 2) W) (A L2)"
  using assms by (induction W arbitrary: A) (auto simp: enqueued_def level_of_def)

lemma woken_UNUSEDQ: "woken h W A UNUSEDQ = A UNUSEDQ"
  by (induction W arbitrary: A) auto

lemma woken_SLEEPQ: "woken h W A SLEEPQ = fold remove1 W (A SLEEPQ)"
  by (induction W arbitrary: A) auto

lemmas woken_lists = woken_L0 woken_L1 woken_UNUSEDQ woken_SLEEPQ

lemma fold_remove1_filter:
  assumes "distinct xs"
  shows "fold remove1 (filter P xs) xs = filter (\<lambda>x. \<not> P x) xs"
proof -
  have "fold remove1 ys xs = filter (\<lambda>x. x \<notin> set ys) xs" if "distinct xs" for ys xs :: "'a list"
    using that by (induction ys arbitrary: xs) (auto simp: distinct_remove1_removeAll removeAll_filter_not_eq intro!: filter_cong)
  with assms show ?thesis by (auto intro!: filter_cong)
qed

section \<open>Rewriting a process that sits in a queue\<close>

lemma delete_q_upd:
  assumes f: "\<And>pr x. f (pr\<lparr>prev_p := x\<rparr>) = (f pr)\<lparr>prev_p := x\<rparr>"
    "\<And>pr x. f (pr\<lparr>next_p := x\<rparr>) = (f pr)\<lparr>next_p := x\<rparr>"
    "\<And>pr. prev_p (f pr) = prev_p pr" "\<And>pr. next_p (f pr) = next_p pr"
  shows "delete_q (h(p := f (h p))) q p = (case delete_q h q p of (h', q') \<Rightarrow> (h'(p := f (h' p)), q'))"
  by (auto simp: delete_q_def Let_def f fun_eq_iff split: option.splits)

lemma q_delete_upd:
  assumes f: "\<And>pr x. f (pr\<lparr>prev_p := x\<rparr>) = (f pr)\<lparr>prev_p := x\<rparr>"
    "\<And>pr x. f (pr\<lparr>next_p := x\<rparr>) = (f pr)\<lparr>next_p := x\<rparr>"
    "\<And>pr. prev_p (f pr) = prev_p pr" "\<And>pr. next_p (f pr) = next_p pr"
  shows "q_delete k p (upd_proc p f s) = upd_proc p f (q_delete k p s)"
  by (simp add: q_delete_def delete_q_upd [OF f] upd_proc_def split: prod.splits)

section \<open>Killing a process\<close>

definition kill_mark :: "proc \<Rightarrow> proc" where
  "kill_mark pr = (if state pr = SLEEPING then pr\<lparr>killed := True, state := RUNNABLE\<rparr> else pr\<lparr>killed := True\<rparr>)"

lemma kill_placed:
  assumes pl: "placed s A"
  shows "succeeds (kill n s)
    (\<lambda>(r, t). case find (\<lambda>p. pid (procs s p) = n) [0..<NPROC] of
       None \<Rightarrow> r = -1 \<and> t = s
     | Some p \<Rightarrow> r = 0 \<and> same_data (upd_proc p kill_mark s) t \<and>
         placed t (if state (procs s p) = SLEEPING
                   then enqueued (procs s) p (A(SLEEPQ := remove1 p (A SLEEPQ))) else A))"
proof (cases "find (\<lambda>p. pid (procs s p) = n) [0..<NPROC]")
  case None
  then show ?thesis by (simp add: kill_def)
next
  case (Some p)
  then have p: "p < NPROC" by (auto dest: find_SomeD)
  let ?k = "\<lambda>pr::proc. pr\<lparr>killed := True\<rparr>" and ?r = "\<lambda>pr::proc. pr\<lparr>state := RUNNABLE\<rparr>"
  have pk: "placed (upd_proc p ?k s) A"
    by (rule placed_upd_inert [OF pl]) simp_all
  show ?thesis
  proof (cases "state (procs s p) = SLEEPING")
    case False
    then have "upd_proc p kill_mark s = upd_proc p ?k s"
      by (simp add: upd_proc_def kill_mark_def)
    with False Some pk show ?thesis by (simp add: kill_def Let_def)
  next
    case True
    then have slp: "p \<in> set (A SLEEPQ)"
      using placed_in_queue(2) [OF pl p] by simp
    have "q_delete SLEEPQ p (upd_proc p ?r (upd_proc p ?k s)) = upd_proc p ?r (q_delete SLEEPQ p (upd_proc p ?k s))"
      by (rule q_delete_upd) simp_all
    moreover have "enqueued (procs (upd_proc p ?k s)) p B = enqueued (procs s) p B" for B
      by (rule enqueued_cong) auto
    moreover have "upd_proc p ?r (upd_proc p ?k s) = upd_proc p kill_mark s"
      using True by (simp add: upd_proc_def kill_mark_def)
    ultimately show ?thesis
      using wake_one [OF pk slp] True Some by (auto simp: kill_def Let_def elim!: succeedsE)
  qed
qed

section \<open>Changing a priority\<close>

text \<open>\<^verbatim>\<open>setPrioity_arrangeQueue\<close> takes a runnable process of level 2 out of \<^verbatim>\<open>l_queue[2]\<close>
  without looking where it is. That is right unless the process sits in level 0, where
  \<^verbatim>\<open>yield\<close> puts the holder of the scheduler lock.\<close>

definition misplaced :: "mlfq_st \<Rightarrow> (qid \<Rightarrow> nat list) \<Rightarrow> nat \<Rightarrow> bool" where
  "misplaced s A p \<longleftrightarrow> queuelevel (procs s p) = 2 \<and> p \<in> set (A L0)"

lemma setPrioity_placed:
  assumes pl: "placed s A"
    and fnd: "find (\<lambda>p. pid (procs s p) = n) (rev [0..<NPROC]) = Some p"
    and st: "state (procs s p) \<noteq> UNUSED" and ok: "\<not> misplaced s A p"
  shows "succeeds (setPrioity_arrangeQueue n v s)
    (\<lambda>t. same_data (upd_proc p (\<lambda>pr. pr\<lparr>priority := v\<rparr>) s) t \<and>
       placed t (if p \<in> set (A L2)
          then A(L2 := insert_prio (\<lambda>x. priority (procs (upd_proc p (\<lambda>pr. pr\<lparr>priority := v\<rparr>) s) x)) p (remove1 p (A L2)))
          else A))"
proof -
  have p: "p < NPROC" using fnd by (auto dest: find_SomeD)
  let ?f = "\<lambda>pr::proc. pr\<lparr>priority := v\<rparr>"
  let ?s = "upd_proc p ?f s" and ?P = "\<lambda>x. priority (procs (upd_proc p ?f s) x)"
  have l2: "p \<in> set (A L2) \<longleftrightarrow> queuelevel (procs s p) = 2 \<and> state (procs s p) = RUNNABLE"
    using placed_in_queue(3) [OF pl p] placed_fits [OF pl, of p] ok
    by (fastforce simp: misplaced_def)
  show ?thesis
  proof (cases "p \<in> set (A L2)")
    case False
    have "placed ?s A"
    proof (rule placed_exI)
      show "family rep (procs ?s) (queues ?s) A"
        using placed_family [OF pl] by (simp add: family_upd)
      have "fits k (procs ?s i) = fits k (procs s i)" for k i by (cases k) auto
      then show "i < NPROC \<and> fits k (procs ?s i) \<and> i \<notin> {}" if "i \<in> set (A k)" for i k
        using that placed_slots [OF pl] placed_fits [OF pl] by blast
      show "\<exists>k. i \<in> set (A k)" if "i < NPROC" "queued_state (state (procs ?s i))" for i
        using that placed_cover [OF pl, of i] by (auto split: if_splits)
      show "valid_level (queuelevel (procs ?s i))" if "i < NPROC" for i
        using placed_level [OF pl that] by auto
      have "prios ?s (A L2) = prios s (A L2)" using False by (intro map_cong) auto
      then show "sorted (prios ?s (A L2))" using placed_sorted [OF pl] by argo
    qed
    with False l2 fnd st show ?thesis
      by (auto simp: setPrioity_arrangeQueue_def Let_def)
  next
    case True
    let ?B = "A(L2 := remove1 p (A L2))" and ?t = "q_delete L2 p s"
    have dl: "placed_ex ?t ?B {p}" "same_data s ?t" using q_delete_placed [OF pl True] by auto
    have comm: "q_delete L2 p ?s = upd_proc p ?f ?t" by (rule q_delete_upd) simp_all
    have pt: "placed_ex (upd_proc p ?f ?t) ?B {p}"
      using placed_level [OF dl(1) p] by (intro placed_upd_transit [OF dl(1)]) auto
    have sd: "same_data ?s (upd_proc p ?f ?t)"
      by (rule same_data_upd_proc [OF dl(2)]) (simp add: data_of_def)
    define b where "b = find (\<lambda>x. ?P x > ?P p) (A L2)"
    have eq: "b = find (\<lambda>x. ?P x > ?P p) (remove1 p (A L2))"
      unfolding b_def using True
      by (auto dest!: split_list_first simp: remove1_append find_append split: option.splits)
    have ip: "insert_before (remove1 p (A L2)) p b = insert_prio ?P p (remove1 p (A L2))"
      unfolding insert_prio_def eq ..
    have "rep (procs ?s) (queues ?s L2) (A L2)"
      using placed_family [OF pl] family_upd [of "?f (procs s p)" "procs s" p "queues s" A]
      by (auto simp: family_def)
    then have hp: "higherpriority_proc p ?s = Inr b"
      unfolding higherpriority_proc_def b_def using placed_fuel [OF pl] by (rule walk_find_rep)
    have "succeeds (q_insert L2 p b (upd_proc p ?f ?t))
      (\<lambda>u. placed_ex u (?B(L2 := insert_before (?B L2) p b)) ({p} - {p}) \<and> same_data (upd_proc p ?f ?t) u)"
    proof (rule q_insert_placed [OF pt _ p])
      show "fits L2 (procs (upd_proc p ?f ?t) p)"
        using l2 True by (simp add: same_data_fields [OF dl(2)])
      show "b = None \<or> b \<in> Some ` set (?B L2)"
        unfolding eq fun_upd_same by (rule find_in)
      have "sorted (map ?P (remove1 p (A L2)))"
        using placed_sorted [OF pt] unfolding same_data_prios [OF sd] by simp
      then show "sorted (prios (upd_proc p ?f ?t) (insert_before (?B L2) p b))"
        unfolding same_data_prios [OF sd] fun_upd_same ip by (rule sorted_insert_prio)
    qed simp
    then have "succeeds (q_insert L2 p b (upd_proc p ?f ?t))
      (\<lambda>u. placed u (A(L2 := insert_prio ?P p (remove1 p (A L2)))) \<and> same_data ?s u)"
      unfolding fun_upd_same fun_upd_upd ip Diff_cancel
      by (rule succeeds_mono) (blast intro: same_data_trans [OF sd])
    with True l2 fnd st hp comm show ?thesis
      by (auto simp: setPrioity_arrangeQueue_def Let_def elim!: succeeds_mono)
  qed
qed

section \<open>Priority boosting\<close>

definition boosted_queues :: "(qid \<Rightarrow> nat list) \<Rightarrow> qid \<Rightarrow> nat list" where
  "boosted_queues A = A(L0 := run_order A, L1 := [], L2 := [])"

definition boost_procs :: "nat set \<Rightarrow> mlfq_st \<Rightarrow> mlfq_st" where
  "boost_procs B s = s\<lparr>procs := (\<lambda>i. if i \<in> B then boost_proc (procs s i) else procs s i)\<rparr>"

lemma boost_procs_sel [simp]:
  "queues (boost_procs B s) = queues s" "global_ticks (boost_procs B s) = global_ticks s"
  "lockproc (boost_procs B s) = lockproc s" "unlockproc (boost_procs B s) = unlockproc s"
  "initproc (boost_procs B s) = initproc s" "nextpid (boost_procs B s) = nextpid s"
  "procs (boost_procs B s) i = (if i \<in> B then boost_proc (procs s i) else procs s i)"
  by (simp_all add: boost_procs_def)

lemma boost_proc_sel [simp]:
  "prev_p (boost_proc pr) = prev_p pr" "next_p (boost_proc pr) = next_p pr"
  "state (boost_proc pr) = state pr" "queuelevel (boost_proc pr) = 0"
  "priority (boost_proc pr) = 3" "ticks (boost_proc pr) = 0" "pid (boost_proc pr) = pid pr"
  "boost_proc (boost_proc pr) = boost_proc pr"
  by (simp_all add: boost_proc_def)

lemma boost_procs_twice: "boost_procs B (boost_procs C s) = boost_procs (B \<union> C) s"
  by (rule mlfq_st.equality) (auto simp: fun_eq_iff boost_procs_def)

lemma same_data_boost: "same_data s t \<Longrightarrow> same_data (boost_procs B s) (boost_procs B t)"
proof -
  assume sd: "same_data s t"
  have "data_of (boost_proc (procs t i)) = data_of (boost_proc (procs s i))" for i
  proof -
    from sd have "data_of (procs t i) = data_of (procs s i)" by (simp add: same_data_def)
    then obtain x y where "procs t i = (procs s i)\<lparr>prev_p := x, next_p := y\<rparr>" by (rule data_of_eqE)
    then show ?thesis by (simp add: data_of_def boost_proc_def)
  qed
  with sd show ?thesis by (simp add: same_data_def)
qed

lemma family_boost: "family rep (procs (boost_procs B s)) Q A = family rep (procs s) Q A"
proof -
  have "rep (procs (boost_procs B s)) (Q k) (A k) = rep (procs s) (Q k) (A k)" for k
    by (rule rep_cong) auto
  then show ?thesis by (simp add: family_def)
qed

lemma boost_queue_family:
  assumes "family rep (procs s) (queues s) A" and "length (A k) < loop_fuel"
  shows "boost_queue k s = Inr (boost_procs (set (A k)) s)"
  using walk_upd_rep [OF familyD(1) [OF assms(1)] assms(2), of boost_proc]
  by (simp add: boost_queue_def boost_procs_def)

lemma q_merge_family:
  assumes "family rep (procs s) (queues s) A" and "k \<noteq> l"
  shows "succeeds (q_merge k l s)
    (\<lambda>t. family rep (procs t) (queues t) (A(k := A k @ A l, l := [])) \<and> same_data s t)"
proof -
  obtain h q1 q2 where "merge_queue (procs s) (queues s k) (queues s l) = Inr (h, q1, q2)"
    and "family rep h ((queues s)(k := q1, l := q2)) (A(k := A k @ A l, l := []))"
    and "relinked (procs s) h (set (A k) \<union> set (A l))"
    using dq.family_mrg [OF assms] by (auto elim!: succeedsE)
  then show ?thesis by (simp add: q_merge_def relinked_same_data)
qed

lemma run_order_fuel:
  assumes pl: "placed_ex s A X"
  shows "length (run_order A) < loop_fuel"
proof (rule slots_fuel)
  have "set (A k) \<inter> set (A l) = {}" if "k \<noteq> l" for k l
    using placed_unique [OF pl] that by blast
  from this [of L0 L1] this [of L0 L2] this [of L1 L2]
  show "distinct (run_order A)"
    using placed_distinct [OF pl] by (auto simp: run_order_def)
  show "set (run_order A) \<subseteq> {..<NPROC}"
    using placed_slots [OF pl] by (auto simp: run_order_def)
qed

lemma priority_boosting_placed:
  assumes pl: "placed s A"
  shows "succeeds (priority_boosting s)
    (\<lambda>t. placed t (boosted_queues A) \<and> same_data (boost_procs (set (A SLEEPQ) \<union> set (run_order A)) s) t)"
proof -
  obtain s1 where s1: "q_merge L1 L2 s = Inr s1" "same_data s s1"
    and f1: "family rep (procs s1) (queues s1) (A(L1 := A L1 @ A L2, L2 := []))"
    using q_merge_family [OF placed_family [OF pl], of L1 L2] by (auto elim!: succeedsE)
  obtain s2 where s2: "q_merge L0 L1 s1 = Inr s2" "same_data s1 s2"
    and f2: "family rep (procs s2) (queues s2) (boosted_queues A)"
    using q_merge_family [OF f1, of L0 L1]
    by (auto simp: boosted_queues_def run_order_def fun_upd_twist elim!: succeedsE)
  let ?S = "set (A SLEEPQ)" and ?R = "set (run_order A)"
  let ?t = "boost_procs (?S \<union> ?R) s2"
  have b1: "boost_queue SLEEPQ s2 = Inr (boost_procs ?S s2)"
    using boost_queue_family [OF f2, of SLEEPQ] placed_fuel [OF pl, of SLEEPQ]
    by (simp add: boosted_queues_def)
  have f3: "family rep (procs (boost_procs ?S s2)) (queues (boost_procs ?S s2)) (boosted_queues A)"
    using f2 by (simp only: family_boost boost_procs_sel)
  have b2: "boost_queue L0 (boost_procs ?S s2) = Inr (boost_procs ?R (boost_procs ?S s2))"
    using boost_queue_family [OF f3, of L0] run_order_fuel [OF pl]
    by (simp add: boosted_queues_def)
  have run: "priority_boosting s = Inr ?t"
    using s1(1) s2(1) b1 b2 by (simp add: priority_boosting_def boost_procs_twice Un_commute)
  have sd: "same_data s s2" using s1(2) s2(2) by (rule same_data_trans)
  have "placed ?t (boosted_queues A)"
  proof (rule placed_exI)
    show "family rep (procs ?t) (queues ?t) (boosted_queues A)"
      using f2 by (simp only: family_boost boost_procs_sel)
    show "p < NPROC \<and> fits k (procs ?t p) \<and> p \<notin> {}" if "p \<in> set (boosted_queues A k)" for p k
      using that placed_slots [OF pl] placed_fits [OF pl]
      by (cases k) (force simp: boosted_queues_def run_order_def same_data_fields [OF sd])+
    show "\<exists>k. p \<in> set (boosted_queues A k)" if "p < NPROC" "queued_state (state (procs ?t p))" for p
    proof -
      from that have "\<exists>k. p \<in> set (A k)"
        by (intro placed_cover [OF pl]) (auto simp: same_data_fields [OF sd] split: if_splits)
      then obtain k where "p \<in> set (A k)" ..
      then have "p \<in> set (boosted_queues A (case k of L1 \<Rightarrow> L0 | L2 \<Rightarrow> L0 | k \<Rightarrow> k))"
        by (cases k) (auto simp: boosted_queues_def run_order_def)
      then show ?thesis by blast
    qed
    show "valid_level (queuelevel (procs ?t p))" if "p < NPROC" for p
      using placed_level [OF pl that] by (simp add: same_data_fields [OF sd])
    show "sorted (prios ?t (boosted_queues A L2))" by (simp add: boosted_queues_def)
  qed
  with run same_data_boost [OF sd] show ?thesis by simp
qed

text \<open>The state after the scheduler regained the processor: every hundredth tick boosts.\<close>

definition after_return :: "mlfq_st \<Rightarrow> (qid \<Rightarrow> nat list) \<Rightarrow> mlfq_st" where
  "after_return s A =
    (if global_ticks s = 100
     then releasemlfq (boost_procs (set (A SLEEPQ) \<union> set (run_order A)) (s\<lparr>global_ticks := 0\<rparr>))
     else s)"

definition return_queues :: "mlfq_st \<Rightarrow> (qid \<Rightarrow> nat list) \<Rightarrow> qid \<Rightarrow> nat list" where
  "return_queues s A = (if global_ticks s = 100 then boosted_queues A else A)"

lemma same_data_releasemlfq: "same_data s t \<Longrightarrow> same_data (releasemlfq s) (releasemlfq t)"
  by (simp add: same_data_def)

lemma sched_return_placed:
  assumes pl: "placed s A"
  shows "succeeds (sched_return s)
    (\<lambda>t. placed t (return_queues s A) \<and> same_data (after_return s A) t)"
proof (cases "global_ticks s = 100")
  case True
  have "placed (s\<lparr>global_ticks := 0\<rparr>) A" using pl by simp
  from priority_boosting_placed [OF this] show ?thesis
    using True same_data_releasemlfq
    by (auto simp: sched_return_def return_queues_def after_return_def elim!: succeedsE)
next
  case False
  with pl show ?thesis by (simp add: sched_return_def return_queues_def after_return_def)
qed

section \<open>Exiting\<close>

text \<open>Waking processes changes nothing but \<^verbatim>\<open>state\<close>, and that only from sleeping to runnable.\<close>

definition only_wakes :: "mlfq_st \<Rightarrow> mlfq_st \<Rightarrow> bool" where
  "only_wakes s t \<longleftrightarrow>
     (\<forall>i. pid (procs t i) = pid (procs s i) \<and> queuelevel (procs t i) = queuelevel (procs s i) \<and>
          priority (procs t i) = priority (procs s i) \<and> ticks (procs t i) = ticks (procs s i) \<and>
          chan (procs t i) = chan (procs s i) \<and> killed (procs t i) = killed (procs s i) \<and>
          (state (procs t i) = state (procs s i) \<or>
           state (procs s i) = SLEEPING \<and> state (procs t i) = RUNNABLE)) \<and>
     global_ticks t = global_ticks s \<and> lockproc t = lockproc s \<and> unlockproc t = unlockproc s \<and>
     initproc t = initproc s \<and> nextpid t = nextpid s"

lemma only_wakes_refl [simp]: "only_wakes s s"
  by (simp add: only_wakes_def)

lemma only_wakes_trans:
  assumes "only_wakes s t" and "only_wakes t u"
  shows "only_wakes s u"
  using assms unfolding only_wakes_def by (metis procstate.distinct(17))

lemma only_wakes_parent [simp]: "only_wakes s (upd_proc i (\<lambda>pr. pr\<lparr>parent := q\<rparr>) t) = only_wakes s t"
  by (auto simp: only_wakes_def)

lemma only_wakes_sleeping:
  "only_wakes s t \<Longrightarrow> state (procs t i) = SLEEPING \<Longrightarrow> state (procs s i) = SLEEPING"
  "only_wakes s t \<Longrightarrow> chan (procs t i) = chan (procs s i)"
  unfolding only_wakes_def by metis+

lemma only_wakes_awake: "only_wakes s t \<Longrightarrow> state (procs s i) \<noteq> SLEEPING \<Longrightarrow> state (procs t i) = state (procs s i)"
  by (auto simp: only_wakes_def)

lemma wake_procs_only_wakes:
  assumes "\<forall>p \<in> W. state (procs s p) = SLEEPING" and "same_data (wake_procs W s) t"
  shows "only_wakes s t" and "parent (procs t i) = parent (procs s i)"
  using assms(1) by (auto simp: only_wakes_def same_data_fields [OF assms(2)])

lemma wakeup1_wakes:
  assumes pl: "placed s A"
  shows "succeeds (wakeup1 c s)
    (\<lambda>t. (\<exists>B. placed t B) \<and> only_wakes s t \<and> (\<forall>i. parent (procs t i) = parent (procs s i)) \<and>
       (\<forall>i < NPROC. state (procs s i) = SLEEPING \<longrightarrow>
          state (procs t i) = (if chan (procs s i) = c then RUNNABLE else SLEEPING)))"
proof (rule succeeds_mono [OF wakeup1_placed [OF pl]])
  fix t
  let ?W = "set (sleepers s c (A SLEEPQ))"
  assume t: "placed t (woken (procs s) (sleepers s c (A SLEEPQ)) A) \<and> same_data (wake_procs ?W s) t"
  then have sd: "same_data (wake_procs ?W s) t" ..
  have W: "i \<in> ?W \<longleftrightarrow> i < NPROC \<and> state (procs s i) = SLEEPING \<and> chan (procs s i) = c" for i
    using placed_in_queue(2) [OF pl, of i] placed_slots [OF pl, of i SLEEPQ]
    by (auto simp: sleepers_def)
  have "\<forall>p \<in> ?W. state (procs s p) = SLEEPING" using W by blast
  note wk = wake_procs_only_wakes [OF this sd]
  have "state (procs t i) = (if chan (procs s i) = c then RUNNABLE else SLEEPING)"
    if "i < NPROC" "state (procs s i) = SLEEPING" for i
    using that W [of i] by (simp add: same_data_fields [OF sd])
  with t wk show "(\<exists>B. placed t B) \<and> only_wakes s t \<and> (\<forall>i. parent (procs t i) = parent (procs s i)) \<and>
       (\<forall>i < NPROC. state (procs s i) = SLEEPING \<longrightarrow>
          state (procs t i) = (if chan (procs s i) = c then RUNNABLE else SLEEPING))"
    by blast
qed

lemma placed_parent: "placed s A \<Longrightarrow> placed (upd_proc i (\<lambda>pr. pr\<lparr>parent := q\<rparr>) s) A"
  by (rule placed_upd_inert) simp_all

lemma reparent_placed:
  assumes "placed s A" and "initproc s \<noteq> Some p"
  shows "succeeds (reparent is p s)
    (\<lambda>t. (\<exists>B. placed t B) \<and> only_wakes s t \<and>
       (\<forall>i. parent (procs t i) =
          (if i \<in> set is \<and> parent (procs s i) = Some p then initproc s else parent (procs s i))) \<and>
       (\<forall>i \<in> set is. parent (procs s i) = Some p \<longrightarrow> state (procs s i) = ZOMBIE \<longrightarrow>
          (\<forall>j < NPROC. \<not> (state (procs t j) = SLEEPING \<and> chan (procs t j) = proc_chan (initproc s)))))"
  using assms
proof (induction "is" arbitrary: s A)
  case Nil
  then show ?case by auto
next
  case (Cons k ks)
  show ?case
  proof (cases "parent (procs s k) = Some p")
    case False
    have "succeeds (reparent ks p s)
      (\<lambda>t. (\<exists>B. placed t B) \<and> only_wakes s t \<and>
        (\<forall>i. parent (procs t i) =
          (if i \<in> set ks \<and> parent (procs s i) = Some p then initproc s else parent (procs s i))) \<and>
        (\<forall>i \<in> set ks. parent (procs s i) = Some p \<longrightarrow> state (procs s i) = ZOMBIE \<longrightarrow>
          (\<forall>j < NPROC. \<not> (state (procs t j) = SLEEPING \<and> chan (procs t j) = proc_chan (initproc s)))))"
      by (rule Cons.IH [OF Cons.prems])
    then show ?thesis using False by (auto elim!: succeeds_mono)
  next
    case True
    let ?s = "upd_proc k (\<lambda>pr. pr\<lparr>parent := initproc s\<rparr>) s"
    have ps: "placed ?s A" using Cons.prems(1) by (rule placed_parent)
    let ?wake = "state (procs s k) = ZOMBIE"
    let ?next = "if ?wake then wakeup1 (proc_chan (initproc s)) ?s else Inr ?s"
    have step: "reparent (k # ks) p s = bindE ?next (reparent ks p)"
      using True by simp
    obtain u where u: "?next = Inr u" "only_wakes s u" "\<exists>B. placed u B"
      and par: "\<forall>i. parent (procs u i) = parent (procs ?s i)"
      and woke: "?wake \<Longrightarrow> \<forall>j < NPROC. \<not> (state (procs u j) = SLEEPING \<and> chan (procs u j) = proc_chan (initproc s))"
    proof (cases ?wake)
      case False
      with ps show ?thesis by (intro that [of ?s]) auto
    next
      case z: True
      obtain u where w: "wakeup1 (proc_chan (initproc s)) ?s = Inr u" "\<exists>B. placed u B" "only_wakes ?s u"
        "\<forall>i. parent (procs u i) = parent (procs ?s i)"
        "\<forall>i < NPROC. state (procs ?s i) = SLEEPING \<longrightarrow>
           state (procs u i) = (if chan (procs ?s i) = proc_chan (initproc s) then RUNNABLE else SLEEPING)"
        using wakeup1_wakes [OF ps, of "proc_chan (initproc s)"] by (rule succeedsE) blast
      have ow: "only_wakes s u"
        by (rule only_wakes_trans [OF _ w(3)]) simp
      have ch: "chan (procs u j) = chan (procs ?s j)" for j
        using w(3) by (simp add: only_wakes_def)
      have "\<not> (state (procs u j) = SLEEPING \<and> chan (procs u j) = proc_chan (initproc s))" if "j < NPROC" for j
        using w(5) that ch [of j] only_wakes_awake [OF w(3), of j] by (auto split: if_splits)
      with that [of u] w(1,2,4) z ow show ?thesis by simp
    qed
    obtain B where pu: "placed u B" using u(3) ..
    have ini: "initproc u = initproc s" using u(2) by (simp add: only_wakes_def)
    then have ne: "initproc u \<noteq> Some p" using Cons.prems(2) by simp
    show ?thesis
      unfolding step u(1) bindE_simps
    proof (rule succeeds_mono [OF Cons.IH [OF pu ne]], intro conjI)
      fix t
      assume t: "(\<exists>B. placed t B) \<and> only_wakes u t \<and>
         (\<forall>i. parent (procs t i) =
            (if i \<in> set ks \<and> parent (procs u i) = Some p then initproc u else parent (procs u i))) \<and>
         (\<forall>i \<in> set ks. parent (procs u i) = Some p \<longrightarrow> state (procs u i) = ZOMBIE \<longrightarrow>
            (\<forall>j < NPROC. \<not> (state (procs t j) = SLEEPING \<and> chan (procs t j) = proc_chan (initproc u))))"
      then have ow: "only_wakes u t" by blast
      show "\<exists>B. placed t B" using t by blast
      show "only_wakes s t" using only_wakes_trans [OF u(2) ow] .
      show "\<forall>i. parent (procs t i) =
          (if i \<in> set (k # ks) \<and> parent (procs s i) = Some p then initproc s else parent (procs s i))"
        using t par ini True Cons.prems(2) by auto
      show "\<forall>i \<in> set (k # ks). parent (procs s i) = Some p \<longrightarrow> state (procs s i) = ZOMBIE \<longrightarrow>
          (\<forall>j < NPROC. \<not> (state (procs t j) = SLEEPING \<and> chan (procs t j) = proc_chan (initproc s)))"
      proof (intro ballI impI allI)
        fix i j
        assume i: "i \<in> set (k # ks)" "parent (procs s i) = Some p" "state (procs s i) = ZOMBIE" and j: "j < NPROC"
        show "\<not> (state (procs t j) = SLEEPING \<and> chan (procs t j) = proc_chan (initproc s))"
        proof (cases "i = k")
          case True
          with i have "\<not> (state (procs u j) = SLEEPING \<and> chan (procs u j) = proc_chan (initproc s))"
            using woke j by blast
          with only_wakes_sleeping [OF ow, of j] show ?thesis by auto
        next
          case False
          with i par have "parent (procs u i) = Some p" by simp
          moreover have "state (procs u i) = ZOMBIE" using only_wakes_awake [OF u(2)] i by simp
          ultimately show ?thesis using t i False j ini by auto
        qed
      qed
    qed
  qed
qed

lemma exit_locked_placed:
  assumes pl: "placed s A" and run: "state (procs s p) = RUNNING" and p: "p < NPROC"
    and ini: "initproc s \<noteq> Some p"
  shows "succeeds (exit_locked p s)
    (\<lambda>t. (\<exists>B. placed t B) \<and> state (procs t p) = ZOMBIE \<and> lockproc t = None \<and>
       global_ticks t = global_ticks s \<and>
       (\<forall>i. i \<noteq> p \<longrightarrow> state (procs t i) = state (procs s i) \<or>
          state (procs s i) = SLEEPING \<and> state (procs t i) = RUNNABLE) \<and>
       (\<forall>i < NPROC. parent (procs t i) = (if parent (procs s i) = Some p then initproc s else parent (procs s i))) \<and>
       (\<forall>i < NPROC. \<not> (state (procs t i) = SLEEPING \<and> chan (procs t i) = proc_chan (parent (procs s p)))))"
proof -
  let ?c = "proc_chan (parent (procs s p))"
  obtain u where u: "wakeup1 ?c s = Inr u" "\<exists>B. placed u B" "only_wakes s u"
    "\<forall>i. parent (procs u i) = parent (procs s i)"
    "\<forall>i < NPROC. state (procs s i) = SLEEPING \<longrightarrow>
       state (procs u i) = (if chan (procs s i) = ?c then RUNNABLE else SLEEPING)"
    using wakeup1_wakes [OF pl, of ?c] by (rule succeedsE) blast
  then obtain B where pu: "placed u B" by blast
  have iu: "initproc u = initproc s" using u(3) by (simp add: only_wakes_def)
  with ini obtain t where t: "reparent [0..<NPROC] p u = Inr t" "\<exists>B. placed t B" "only_wakes u t"
    "\<forall>i. parent (procs t i) =
       (if i \<in> set [0..<NPROC] \<and> parent (procs u i) = Some p then initproc u else parent (procs u i))"
    using reparent_placed [OF pu, of p "[0..<NPROC]"] by (auto elim!: succeedsE)
  have ow: "only_wakes s t" using u(3) t(3) by (rule only_wakes_trans)
  then have st: "state (procs t p) = RUNNING" using run only_wakes_awake by fastforce
  obtain C where pt: "placed t C" using t(2) ..
  let ?e = "releasemlfq (upd_proc p (\<lambda>pr. pr\<lparr>state := ZOMBIE\<rparr>) t)"
  have run_e: "exit_locked p s = Inr ?e" by (simp add: exit_locked_def u(1) t(1))
  have "placed_ex t C {p}"
    using placed_to_transit [OF pt placed_not_queued [OF pt]] st by simp
  then have "placed_ex (upd_proc p (\<lambda>pr. pr\<lparr>state := ZOMBIE\<rparr>) t) C {p}"
    using placed_level [OF pt p] by (intro placed_upd_transit) simp_all
  then have "placed_ex (upd_proc p (\<lambda>pr. pr\<lparr>state := ZOMBIE\<rparr>) t) C ({p} - {p})"
    by (rule placed_from_transit) simp
  then have "placed ?e C" by simp
  moreover have "\<not> (state (procs ?e i) = SLEEPING \<and> chan (procs ?e i) = ?c)" if "i < NPROC" for i
  proof
    assume i: "state (procs ?e i) = SLEEPING \<and> chan (procs ?e i) = ?c"
    then have "i \<noteq> p" and ti: "state (procs t i) = SLEEPING" "chan (procs t i) = ?c"
      by (auto split: if_splits)
    then have "state (procs u i) = SLEEPING" "chan (procs s i) = ?c" "state (procs s i) = SLEEPING"
      using only_wakes_sleeping [OF t(3)] only_wakes_sleeping [OF ow] by simp_all
    with u(5) that show False by auto
  qed
  moreover have "parent (procs ?e i) = (if parent (procs s i) = Some p then initproc s else parent (procs s i))"
    if "i < NPROC" for i
    using t(4) u(4) iu that by auto
  moreover have "state (procs ?e i) = state (procs s i) \<or> state (procs s i) = SLEEPING \<and> state (procs ?e i) = RUNNABLE"
    if "i \<noteq> p" for i
    using ow that by (auto simp: only_wakes_def)
  moreover have "global_ticks ?e = global_ticks s" using ow by (simp add: only_wakes_def)
  ultimately show ?thesis unfolding run_e by auto
qed

end
