(* ===== verification/Spinlock.thy ===== *)
theory Spinlock
  imports Prelude
begin

text \<open>
  Processors and spin locks: \<^verbatim>\<open>src/Project1/spinlock.c\<close> (the same file in both projects) and
  \<^verbatim>\<open>cpuid\<close>, \<^verbatim>\<open>mycpu\<close> and \<^verbatim>\<open>myproc\<close> of \<^verbatim>\<open>proc.c\<close>. A processor has its interrupt flag
  (\<^verbatim>\<open>FL_IF\<close> of \<^verbatim>\<open>eflags\<close>), the nesting depth of \<^verbatim>\<open>pushcli\<close>, the flag saved by the
  outermost one, and the process it runs. A lock is named by the processor that holds it; an
  \<^verbatim>\<open>acquire\<close> of a lock that another processor holds does not return, which is the value
  \<open>Inl Spinning\<close>: in the interleaving model below that processor simply makes no step.
\<close>

section \<open>Processors\<close>

record cpu =
  ncli :: int
  intena :: bool
  iflag :: bool
  cpu_proc :: ptr

record spinlock =
  locked :: bool
  lk_cpu :: ptr

definition initlock :: spinlock where
  "initlock = \<lparr>locked = False, lk_cpu = None\<rparr>"

text \<open>\<^verbatim>\<open>mycpu\<close>: search the table of APIC ids; \<^verbatim>\<open>lapicid()\<close> is read from the hardware.\<close>

fun find_apicid :: "u8 list \<Rightarrow> u8 \<Rightarrow> nat \<Rightarrow> kerr + nat" where
  "find_apicid [] a i = Inl (Panic ''unknown apicid'')"
| "find_apicid (x # xs) a i = (if x = a then Inr i else find_apicid xs a (Suc i))"

definition mycpu :: "bool \<Rightarrow> u8 list \<Rightarrow> u8 \<Rightarrow> kerr + nat" where
  "mycpu ifl apicids lapicid =
    (if ifl then Inl (Panic ''mycpu called with interrupts enabled'') else find_apicid apicids lapicid 0)"

definition pushcli :: "cpu \<Rightarrow> cpu" where
  "pushcli c =
    (let eflags = iflag c;
         c1 = c\<lparr>iflag := False\<rparr>;
         c2 = (if ncli c1 = 0 then c1\<lparr>intena := eflags\<rparr> else c1)
     in c2\<lparr>ncli := ncli c2 + 1\<rparr>)"

definition popcli :: "cpu \<Rightarrow> kerr + cpu" where
  "popcli c =
    (if iflag c then Inl (Panic ''popcli - interruptible'')
     else let c1 = c\<lparr>ncli := ncli c - 1\<rparr>
          in if ncli c1 < 0 then Inl (Panic ''popcli'')
             else if ncli c1 = 0 \<and> intena c1 then Inr (c1\<lparr>iflag := True\<rparr>) else Inr c1)"

definition myproc :: "cpu \<Rightarrow> kerr + ptr \<times> cpu" where
  "myproc c =
    (let c1 = pushcli c; p = cpu_proc c1 in bindE (popcli c1) (\<lambda>c2. Inr (p, c2)))"

section \<open>Locks\<close>

text \<open>\<open>holding i c lk\<close>: the answer of processor \<open>i\<close>, whose state is \<open>c\<close>.\<close>

definition holding :: "nat \<Rightarrow> cpu \<Rightarrow> spinlock \<Rightarrow> kerr + bool \<times> cpu" where
  "holding i c lk =
    (let c1 = pushcli c; r = (locked lk \<and> lk_cpu lk = Some i) in bindE (popcli c1) (\<lambda>c2. Inr (r, c2)))"

definition acquire :: "nat \<Rightarrow> cpu \<Rightarrow> spinlock \<Rightarrow> kerr + cpu \<times> spinlock" where
  "acquire i c lk =
    (let c1 = pushcli c in
     bindE (holding i c1 lk) (\<lambda>(r, c2).
       if r then Inl (Panic ''acquire'')
       else if locked lk then Inl Spinning
       else Inr (c2, \<lparr>locked = True, lk_cpu = Some i\<rparr>)))"

definition release :: "nat \<Rightarrow> cpu \<Rightarrow> spinlock \<Rightarrow> kerr + cpu \<times> spinlock" where
  "release i c lk =
    bindE (holding i c lk) (\<lambda>(r, c1).
      if \<not> r then Inl (Panic ''release'')
      else let lk1 = lk\<lparr>lk_cpu := None\<rparr>; lk2 = lk1\<lparr>locked := False\<rparr>
           in bindE (popcli c1) (\<lambda>c2. Inr (c2, lk2)))"

text \<open>\<^verbatim>\<open>getcallerpcs\<close>: at most ten return addresses along the chain of frame pointers, read
  from memory, then zeros.\<close>


fun caller_chain :: "nat \<Rightarrow> (u32 \<Rightarrow> u32) \<Rightarrow> u32 \<Rightarrow> u32 list" where
  "caller_chain 0 rd ebp = []"
| "caller_chain (Suc n) rd ebp =
     (if ebp = 0 \<or> ebp < KERNBASE \<or> ebp = 0xffffffff then []
      else rd (ebp + 4) # caller_chain n rd (rd ebp))"

definition getcallerpcs :: "(u32 \<Rightarrow> u32) \<Rightarrow> u32 \<Rightarrow> u32 list" where
  "getcallerpcs rd v =
    (let pcs = caller_chain 10 rd (v - 8) in pcs @ replicate (10 - length pcs) 0)"

section \<open>Nesting of interrupt disabling\<close>

text \<open>The states a processor can be in: interrupts are off while the depth is positive.\<close>

definition cpu_ok :: "cpu \<Rightarrow> bool" where
  "cpu_ok c \<longleftrightarrow> 0 \<le> ncli c \<and> (0 < ncli c \<longrightarrow> \<not> iflag c)"

definition same_cpu :: "cpu \<Rightarrow> cpu \<Rightarrow> bool" where
  "same_cpu c d \<longleftrightarrow> ncli c = ncli d \<and> iflag c = iflag d \<and> cpu_proc c = cpu_proc d \<and>
     (0 < ncli d \<longrightarrow> intena c = intena d)"

lemma pushcli_popcli:
  assumes "cpu_ok c"
  shows "succeeds (popcli (pushcli c)) (\<lambda>d. same_cpu d c \<and> cpu_ok d)"
  using assms by (auto simp: pushcli_def popcli_def cpu_ok_def same_cpu_def Let_def)

lemma pushcli_ok [simp]: "cpu_ok c \<Longrightarrow> cpu_ok (pushcli c)"
  by (auto simp: pushcli_def cpu_ok_def Let_def)

lemma pushcli_sel [simp]:
  "ncli (pushcli c) = ncli c + 1" "iflag (pushcli c) = False" "cpu_proc (pushcli c) = cpu_proc c"
  by (auto simp: pushcli_def Let_def)

lemma popcli_last:
  "ncli c = 1 \<Longrightarrow> \<not> iflag c \<Longrightarrow> popcli c = Inr (c\<lparr>ncli := 0, iflag := intena c\<rparr>)"
  by (cases c) (auto simp: popcli_def Let_def)

lemma holding_result:
  assumes "cpu_ok c" "0 < ncli c"
  shows "holding i c lk = Inr (locked lk \<and> lk_cpu lk = Some i, c)"
proof -
  have "popcli (pushcli c) = Inr c"
    using assms by (cases c) (auto simp: pushcli_def popcli_def cpu_ok_def Let_def)
  then show ?thesis by (simp add: holding_def Let_def)
qed

lemma acquire_result:
  assumes "cpu_ok c"
  shows "acquire i c lk =
    (if locked lk then if lk_cpu lk = Some i then Inl (Panic ''acquire'') else Inl Spinning
     else Inr (pushcli c, \<lparr>locked = True, lk_cpu = Some i\<rparr>))"
proof -
  have "cpu_ok (pushcli c)" "0 < ncli (pushcli c)" using assms by (auto simp: cpu_ok_def)
  then show ?thesis by (auto simp: acquire_def holding_result Let_def)
qed

lemma release_result:
  assumes "cpu_ok c" "0 < ncli c" "locked lk" "lk_cpu lk = Some i"
  shows "release i c lk = bindE (popcli c) (\<lambda>d. Inr (d, initlock))"
proof -
  have "lk\<lparr>lk_cpu := None, locked := False\<rparr> = initlock" by (simp add: initlock_def)
  then show ?thesis using assms by (simp add: release_def holding_result Let_def)
qed

section \<open>Mutual exclusion\<close>

text \<open>Any number of processors and one lock; \<open>incs i\<close> says that processor \<open>i\<close> is between the
  return of its \<^verbatim>\<open>acquire\<close> and its call of \<^verbatim>\<open>release\<close>. Inside, it may disable and enable
  interrupts by further, matched \<^verbatim>\<open>pushcli\<close> and \<^verbatim>\<open>popcli\<close> calls.\<close>

record lsys =
  lcpus :: "nat \<Rightarrow> cpu"
  lck :: spinlock
  incs :: "nat \<Rightarrow> bool"

inductive lock_step :: "lsys \<Rightarrow> lsys \<Rightarrow> bool" where
  acq: "\<not> incs s i \<Longrightarrow> acquire i (lcpus s i) (lck s) = Inr (c, lk) \<Longrightarrow>
    lock_step s (s\<lparr>lcpus := (lcpus s)(i := c), lck := lk, incs := (incs s)(i := True)\<rparr>)"
| rel: "incs s i \<Longrightarrow> release i (lcpus s i) (lck s) = Inr (c, lk) \<Longrightarrow>
    lock_step s (s\<lparr>lcpus := (lcpus s)(i := c), lck := lk, incs := (incs s)(i := False)\<rparr>)"

inductive_cases lock_stepE: "lock_step s t"

definition boot_cpu :: cpu where
  "boot_cpu = \<lparr>ncli = 0, intena = False, iflag = True, cpu_proc = None\<rparr>"

inductive lock_reach :: "lsys \<Rightarrow> bool" where
  start: "lock_reach \<lparr>lcpus = (\<lambda>_. boot_cpu), lck = initlock, incs = (\<lambda>_. False)\<rparr>"
| step: "lock_reach s \<Longrightarrow> lock_step s t \<Longrightarrow> lock_reach t"

definition lock_inv :: "lsys \<Rightarrow> bool" where
  "lock_inv s \<longleftrightarrow>
     (\<forall>i. incs s i \<longleftrightarrow> locked (lck s) \<and> lk_cpu (lck s) = Some i) \<and>
     (\<forall>i. cpu_ok (lcpus s i)) \<and>
     (\<forall>i. ncli (lcpus s i) = (if incs s i then 1 else 0)) \<and>
     (\<forall>i. iflag (lcpus s i) = (\<not> incs s i)) \<and>
     (\<forall>i. incs s i \<longrightarrow> intena (lcpus s i)) \<and>
     (locked (lck s) \<longrightarrow> lk_cpu (lck s) \<noteq> None)"

lemma lock_step_inv:
  assumes "lock_inv s" and "lock_step s t"
  shows "lock_inv t"
  using assms(2)
proof (rule lock_stepE)
  fix i c lk
  assume t: "t = s\<lparr>lcpus := (lcpus s)(i := c), lck := lk, incs := (incs s)(i := True)\<rparr>"
    and out: "\<not> incs s i" and acq: "acquire i (lcpus s i) (lck s) = Inr (c, lk)"
  from assms(1) have ok: "cpu_ok (lcpus s i)" "ncli (lcpus s i) = 0" "iflag (lcpus s i)"
    using out by (auto simp: lock_inv_def)
  from acq have free: "\<not> locked (lck s)" and c: "c = pushcli (lcpus s i)" and lk: "lk = \<lparr>locked = True, lk_cpu = Some i\<rparr>"
    by (auto simp: acquire_result [OF ok(1)] split: if_splits)
  have "intena c" using ok by (simp add: c pushcli_def Let_def)
  moreover have "\<not> incs s j" for j using assms(1) free by (auto simp: lock_inv_def)
  ultimately show ?thesis
    using assms(1) ok by (auto simp: lock_inv_def t lk c)
next
  fix i c lk
  assume t: "t = s\<lparr>lcpus := (lcpus s)(i := c), lck := lk, incs := (incs s)(i := False)\<rparr>"
    and inc: "incs s i" and rel: "release i (lcpus s i) (lck s) = Inr (c, lk)"
  from assms(1) inc have ok: "cpu_ok (lcpus s i)" "ncli (lcpus s i) = 1" "locked (lck s)" "lk_cpu (lck s) = Some i"
    "\<not> iflag (lcpus s i)" "intena (lcpus s i)"
    unfolding lock_inv_def by (metis, simp add: inc, metis+)
  have others: "\<not> incs s j" if "j \<noteq> i" for j using assms(1) ok(4) that by (auto simp: lock_inv_def)
  from rel ok have "popcli (lcpus s i) = Inr c" and lk: "lk = initlock"
    by (auto simp: release_result [OF ok(1) _ ok(3,4)])
  then have "ncli c = 0" "iflag c" "cpu_ok c"
    using ok by (auto simp: popcli_def Let_def cpu_ok_def split: if_splits)
  then show ?thesis
    using assms(1) others by (auto simp: lock_inv_def t lk initlock_def)
qed

lemma lock_reach_inv: "lock_reach s \<Longrightarrow> lock_inv s"
proof (induction rule: lock_reach.induct)
  case start
  show ?case by (auto simp: lock_inv_def boot_cpu_def initlock_def cpu_ok_def)
next
  case (step s t)
  then show ?case by (blast intro: lock_step_inv)
qed

end
