(* ===== verification/KLock.thy ===== *)
theory KLock
  imports Spinlock
begin

text \<open>
  Kernel code under \<^verbatim>\<open>ptable.lock\<close> on a machine with several processors, for both kernels:
  the state is the data \<open>m\<close> the lock protects, the processors, the lock, and the rest of the
  kernel \<open>env\<close>. \<open>saved_intena\<close> is the local variable of \<^verbatim>\<open>sched\<close> on the kernel stack of a
  process that is switched out.
\<close>

record ('m, 'e) kst =
  m :: 'm
  cpus :: "nat \<Rightarrow> cpu"
  plock :: spinlock
  saved_intena :: "nat \<Rightarrow> bool"
  env :: 'e

definition plock_acquire :: "nat \<Rightarrow> ('m, 'e) kst \<Rightarrow> kerr + ('m, 'e) kst" where
  "plock_acquire c s =
    bindE (acquire c (cpus s c) (plock s)) (\<lambda>(cp, lk). Inr (s\<lparr>cpus := (cpus s)(c := cp), plock := lk\<rparr>))"

definition plock_release :: "nat \<Rightarrow> ('m, 'e) kst \<Rightarrow> kerr + ('m, 'e) kst" where
  "plock_release c s =
    bindE (release c (cpus s c) (plock s)) (\<lambda>(cp, lk). Inr (s\<lparr>cpus := (cpus s)(c := cp), plock := lk\<rparr>))"

definition on_m :: "('m \<Rightarrow> kerr + 'm) \<Rightarrow> ('m, 'e) kst \<Rightarrow> kerr + ('m, 'e) kst" where
  "on_m f s = bindE (f (m s)) (\<lambda>m1. Inr (s\<lparr>m := m1\<rparr>))"

text \<open>The current process of processor \<open>c\<close>; its fields are read without a null check.\<close>

definition cur :: "nat \<Rightarrow> ('m, 'e) kst \<Rightarrow> kerr + nat" where
  "cur c s = deref (cpu_proc (cpus s c))"

definition set_cpu_proc :: "nat \<Rightarrow> ptr \<Rightarrow> ('m, 'e) kst \<Rightarrow> ('m, 'e) kst" where
  "set_cpu_proc c p s = s\<lparr>cpus := (cpus s)(c := (cpus s c)\<lparr>cpu_proc := p\<rparr>)\<rparr>"

abbreviation runs :: "('m, 'e) kst \<Rightarrow> nat \<Rightarrow> ptr" where
  "runs s \<equiv> \<lambda>c. cpu_proc (cpus s c)"

definition acquired :: "nat \<Rightarrow> ('m, 'e) kst \<Rightarrow> ('m, 'e) kst" where
  "acquired c s = s\<lparr>cpus := (cpus s)(c := pushcli (cpus s c)), plock := \<lparr>locked = True, lk_cpu = Some c\<rparr>\<rparr>"

lemma acquired_sel [simp]: "m (acquired c s) = m s" "env (acquired c s) = env s"
  "runs (acquired c s) d = runs s d" "saved_intena (acquired c s) = saved_intena s"
  by (auto simp: acquired_def)

lemma acquired_env: "acquired c (s\<lparr>env := e\<rparr>) = (acquired c s)\<lparr>env := e\<rparr>"
  by (rule kst.equality) (simp_all add: acquired_def)

text \<open>Processor \<open>c\<close> can enter the critical section.\<close>

definition lock_ready :: "nat \<Rightarrow> ('m, 'e) kst \<Rightarrow> bool" where
  "lock_ready c s \<longleftrightarrow> cpu_ok (cpus s c) \<and> ncli (cpus s c) = 0 \<and> \<not> locked (plock s)"

lemma plock_acquire_ready: "lock_ready c s \<Longrightarrow> plock_acquire c s = Inr (acquired c s)"
  by (simp add: lock_ready_def plock_acquire_def acquire_result acquired_def)

lemma plock_release_acquired:
  assumes "lock_ready c s"
  shows "succeeds (plock_release c ((acquired c s)\<lparr>m := x, env := e\<rparr>))
    (\<lambda>t. lock_ready c t \<and> m t = x \<and> env t = e \<and> runs t = runs s \<and> iflag (cpus t c) = iflag (cpus s c) \<and>
       (\<forall>d. d \<noteq> c \<longrightarrow> cpus t d = cpus s d) \<and> saved_intena t = saved_intena s)"
proof -
  have c: "cpu_ok (cpus s c)" "ncli (cpus s c) = 0" using assms by (auto simp: lock_ready_def)
  let ?d = "pushcli (cpus s c)"
  have rel: "release c ?d \<lparr>locked = True, lk_cpu = Some c\<rparr> = bindE (popcli ?d) (\<lambda>c'. Inr (c', initlock))"
    by (rule release_result) (use c in simp_all)
  from pushcli_popcli [OF c(1)] obtain d where d: "popcli ?d = Inr d" "same_cpu d (cpus s c)"
    by (auto elim!: succeedsE)
  then have "cpu_proc d = cpu_proc (cpus s c)" "iflag d = iflag (cpus s c)" "cpu_ok d" "ncli d = 0"
    using c by (auto simp: same_cpu_def cpu_ok_def)
  then show ?thesis
    by (auto simp: plock_release_def acquired_def rel d(1) lock_ready_def initlock_def fun_eq_iff)
qed

lemma plock_release_like:
  fixes s u :: "('m, 'e) kst"
  assumes "lock_ready c s" and "cpus u = cpus (acquired c s)" and "plock u = plock (acquired c s)"
    and "saved_intena u = saved_intena s"
  shows "succeeds (plock_release c u)
    (\<lambda>t. lock_ready c t \<and> m t = m u \<and> env t = env u \<and> runs t = runs s \<and> iflag (cpus t c) = iflag (cpus s c))"
proof -
  have "u = (acquired c s)\<lparr>m := m u, env := env u\<rparr>" using assms by (intro kst.equality) simp_all
  then show ?thesis
    using plock_release_acquired [OF assms(1), where x = "m u" and e = "env u"] by (simp add: succeeds_iff) metis
qed

text \<open>Processor \<open>c\<close> is inside the critical section, with the lock as its only one.\<close>

definition in_section :: "nat \<Rightarrow> ('m, 'e) kst \<Rightarrow> bool" where
  "in_section c s \<longleftrightarrow> cpu_ok (cpus s c) \<and> ncli (cpus s c) = 1 \<and> locked (plock s) \<and> lk_cpu (plock s) = Some c"

lemma in_section_acquired: "lock_ready c s \<Longrightarrow> in_section c (acquired c s)"
  by (simp add: lock_ready_def in_section_def acquired_def)

lemma in_section_upd [simp]:
  "in_section c (s\<lparr>m := x\<rparr>) = in_section c s" "in_section c (s\<lparr>env := e\<rparr>) = in_section c s"
  "in_section c (s\<lparr>saved_intena := y\<rparr>) = in_section c s" "in_section c (set_cpu_proc c p s) = in_section c s"
  "in_section c (s\<lparr>cpus := (cpus s)(c := (cpus s c)\<lparr>intena := b\<rparr>)\<rparr>) = in_section c s"
  by (auto simp: in_section_def set_cpu_proc_def cpu_ok_def)

lemma plock_release_section:
  assumes "in_section c s"
  shows "succeeds (plock_release c s) (\<lambda>t. lock_ready c t \<and> m t = m s \<and> env t = env s \<and> runs t = runs s \<and>
    saved_intena t = saved_intena s)"
proof -
  have c: "cpu_ok (cpus s c)" "ncli (cpus s c) = 1" "locked (plock s)" "lk_cpu (plock s) = Some c" "\<not> iflag (cpus s c)"
    using assms by (auto simp: in_section_def cpu_ok_def)
  define d where "d = (cpus s c)\<lparr>ncli := 0, iflag := intena (cpus s c)\<rparr>"
  have "popcli (cpus s c) = Inr d" using c by (simp add: d_def popcli_last)
  then have "plock_release c s = Inr (s\<lparr>cpus := (cpus s)(c := d), plock := initlock\<rparr>)"
    using release_result [OF c(1) _ c(3,4)] c(2) by (simp add: plock_release_def)
  then show ?thesis by (auto simp: lock_ready_def d_def cpu_ok_def initlock_def fun_eq_iff)
qed

text \<open>A locked section runs its body on the protected data.\<close>

definition locked_section :: "nat \<Rightarrow> ('m \<Rightarrow> kerr + 'm) \<Rightarrow> ('m, 'e) kst \<Rightarrow> kerr + ('m, 'e) kst" where
  "locked_section c f s = bindE (plock_acquire c s) (\<lambda>s1. bindE (on_m f s1) (plock_release c))"

lemma locked_section_ready:
  assumes "lock_ready c s" and "f (m s) = Inr x"
  shows "succeeds (locked_section c f s)
    (\<lambda>t. lock_ready c t \<and> m t = x \<and> env t = env s \<and> runs t = runs s \<and> iflag (cpus t c) = iflag (cpus s c))"
proof -
  have "(acquired c s)\<lparr>m := x, env := env s\<rparr> = (acquired c s)\<lparr>m := x\<rparr>"
    by (rule kst.equality) simp_all
  with plock_release_acquired [OF assms(1), where x = x and e = "env s"] show ?thesis
    by (auto simp: locked_section_def plock_acquire_ready [OF assms(1)] on_m_def assms(2) elim!: succeeds_mono)
qed

end
