(* ===== verification/KOps.thy ===== *)
theory KOps
  imports Prelude
begin

text \<open>
  What the process code calls in the rest of the kernel: the page allocator, the page-table
  code, the file and inode layers. The handlers take these as a record of functions on a
  state \<open>'e\<close> that only those components own, so that a theorem about a handler holds for
  every implementation of them. A pointer result of 0 is failure, as in the code. Closing a
  file or dropping an inode may wake sleepers (\<^verbatim>\<open>pipeclose\<close>, \<^verbatim>\<open>end_op\<close>); the channels it
  wakes are part of its result, and the handler passes them to \<^verbatim>\<open>wakeup\<close>.

  \<open>addr_trapret\<close> and \<open>addr_forkret\<close> are addresses the linker chooses.
\<close>

record 'e kops =
  op_kalloc :: "'e \<Rightarrow> u32 \<times> 'e"
  op_kfree :: "u32 \<Rightarrow> 'e \<Rightarrow> kerr + 'e"
  op_copyuvm :: "u32 \<Rightarrow> u32 \<Rightarrow> 'e \<Rightarrow> kerr + u32 \<times> 'e"
  op_freevm :: "u32 \<Rightarrow> 'e \<Rightarrow> kerr + 'e"
  op_setupkvm :: "'e \<Rightarrow> kerr + u32 \<times> 'e"
  op_inituvm :: "u32 \<Rightarrow> 'e \<Rightarrow> kerr + 'e"
  op_allocuvm :: "u32 \<Rightarrow> u32 \<Rightarrow> u32 \<Rightarrow> 'e \<Rightarrow> kerr + u32 \<times> 'e"
  op_deallocuvm :: "u32 \<Rightarrow> u32 \<Rightarrow> u32 \<Rightarrow> 'e \<Rightarrow> kerr + u32 \<times> 'e"
  op_clearpteu :: "u32 \<Rightarrow> u32 \<Rightarrow> 'e \<Rightarrow> kerr + 'e"
  op_filedup :: "nat \<Rightarrow> 'e \<Rightarrow> kerr + 'e"
  op_fileclose :: "nat \<Rightarrow> 'e \<Rightarrow> kerr + chan list \<times> 'e"
  op_idup :: "ptr \<Rightarrow> 'e \<Rightarrow> 'e"
  op_iput :: "ptr \<Rightarrow> 'e \<Rightarrow> kerr + chan list \<times> 'e"
  op_namei_root :: "'e \<Rightarrow> ptr \<times> 'e"
  op_store :: "u32 \<Rightarrow> u32 \<Rightarrow> u32 \<Rightarrow> 'e \<Rightarrow> kerr + 'e"
  addr_trapret :: u32
  addr_forkret :: u32

definition TRAPFRAME_SIZE :: u32 where "TRAPFRAME_SIZE = 76"
definition CONTEXT_SIZE :: u32 where "CONTEXT_SIZE = 20"

text \<open>\<^verbatim>\<open>safestrcpy\<close> into a buffer of \<open>n\<close> bytes, on strings without their terminating zero.\<close>

definition safestrcpy_str :: "nat \<Rightarrow> string \<Rightarrow> string" where
  "safestrcpy_str n t = take (n - 1) t"

definition PGROUNDUP :: "u32 \<Rightarrow> u32" where
  "PGROUNDUP a = and (a + PGSIZE - 1) (not (PGSIZE - 1))"

text \<open>The loop of \<^verbatim>\<open>fork\<close> that duplicates the open files; entries that are null in the parent
  keep what the child has there.\<close>

fun dup_files :: "'e kops \<Rightarrow> ptr list \<Rightarrow> ptr list \<Rightarrow> 'e \<Rightarrow> kerr + ptr list \<times> 'e" where
  "dup_files K (Some f # fs) (n # ns) e =
     bindE (op_filedup K f e) (\<lambda>e1. bindE (dup_files K fs ns e1) (\<lambda>(r, e2). Inr (Some f # r, e2)))"
| "dup_files K (None # fs) (n # ns) e = bindE (dup_files K fs ns e) (\<lambda>(r, e1). Inr (n # r, e1))"
| "dup_files K _ ns e = Inr (ns, e)"

end
