(* ===== verification/MlfqKernel.thy ===== *)
theory MlfqKernel
  imports MlfqOps KLock KOps
begin

text \<open>
  The process system calls of the MLFQ kernel (\<^verbatim>\<open>src/Project1/proc.c\<close> and
  \<^verbatim>\<open>sysproc.c\<close>) as they run on a machine with several processors: each takes
  \<^verbatim>\<open>ptable.lock\<close>, runs the code of \<open>Mlfq\<close> and releases it, and calls the rest of the
  kernel through a \<open>kops\<close> record.

  A processor that enters \<^verbatim>\<open>sched\<close> keeps the lock until \<^verbatim>\<open>scheduler\<close> releases it, so
  the code before \<^verbatim>\<open>sched\<close>, the switch and the rest of that \<^verbatim>\<open>scheduler\<close> iteration are
  one uninterrupted piece (\<open>enter_scheduler\<close>); likewise the next iteration of
  \<^verbatim>\<open>scheduler\<close>, from \<^verbatim>\<open>acquire\<close> to the \<^verbatim>\<open>release\<close> that the chosen process performs
  (\<open>dispatch\<close>).
\<close>

section \<open>State\<close>

type_synonym 'e mkst = "(mlfq_st, 'e) kst"

definition upd_p :: "nat \<Rightarrow> (proc \<Rightarrow> proc) \<Rightarrow> 'e mkst \<Rightarrow> 'e mkst" where
  "upd_p p f s = s\<lparr>m := upd_proc p f (m s)\<rparr>"

section \<open>The scheduler\<close>

text \<open>\<^verbatim>\<open>sched\<close> with its checks, the switch to \<^verbatim>\<open>scheduler\<close>, and the rest of the
  \<^verbatim>\<open>scheduler\<close> iteration: boosting, \<^verbatim>\<open>c->proc = 0\<close>, \<^verbatim>\<open>release\<close>.\<close>

definition sched :: "nat \<Rightarrow> nat \<Rightarrow> 'e mkst \<Rightarrow> kerr + 'e mkst" where
  "sched c p s =
    bindE (holding c (cpus s c) (plock s)) (\<lambda>(r, cp).
      let s1 = s\<lparr>cpus := (cpus s)(c := cp)\<rparr> in
      if \<not> r then Inl (Panic ''sched ptable.lock'')
      else if ncli (cpus s1 c) \<noteq> 1 then Inl (Panic ''sched locks'')
      else if state (procs (m s1) p) = RUNNING then Inl (Panic ''sched running'')
      else if iflag (cpus s1 c) then Inl (Panic ''sched interruptible'')
      else Inr (s1\<lparr>saved_intena := (saved_intena s1)(p := intena (cpus s1 c))\<rparr>))"

definition enter_scheduler :: "nat \<Rightarrow> nat \<Rightarrow> 'e mkst \<Rightarrow> kerr + 'e mkst" where
  "enter_scheduler c p s =
    bindE (sched c p s) (\<lambda>s1.
    bindE (on_m sched_return s1) (\<lambda>s2.
    plock_release c (set_cpu_proc c None s2)))"

text \<open>One iteration of \<^verbatim>\<open>scheduler\<close> up to the point where the chosen process has left
  \<^verbatim>\<open>sched\<close> (or \<^verbatim>\<open>forkret\<close>) and released the lock. A process that slept clears its
  channel on the way; for one that yielded or is new the channel is already null. The last
  component of the result is the process chosen.\<close>

definition dispatch :: "nat \<Rightarrow> 'e mkst \<Rightarrow> kerr + ptr \<times> 'e mkst" where
  "dispatch c s0 =
    (let s = s0\<lparr>cpus := (cpus s0)(c := (cpus s0 c)\<lparr>iflag := True\<rparr>)\<rparr> in
     bindE (plock_acquire c s) (\<lambda>s1.
       case sched_pick (m s1) of
         (None, m1) \<Rightarrow> bindE (plock_release c (s1\<lparr>m := m1\<rparr>)) (\<lambda>s2. Inr (None, s2))
       | (Some p, m1) \<Rightarrow>
           let s2 = set_cpu_proc c (Some p) (s1\<lparr>m := m1\<rparr>);
               s3 = s2\<lparr>cpus := (cpus s2)(c := (cpus s2 c)\<lparr>intena := saved_intena s2 p\<rparr>)\<rparr>;
               s4 = s3\<lparr>m := sleep_resume p (m s3)\<rparr>
           in bindE (plock_release c s4) (\<lambda>s5. Inr (Some p, s5))))"

definition yield :: "nat \<Rightarrow> 'e mkst \<Rightarrow> kerr + 'e mkst" where
  "yield c s =
    bindE (cur c s) (\<lambda>p.
    bindE (plock_acquire c s) (\<lambda>s1.
    bindE (on_m (yield_enq p) s1) (enter_scheduler c p)))"

text \<open>\<^verbatim>\<open>sleep(chan, lk)\<close> with a lock other than \<^verbatim>\<open>ptable.lock\<close>; releasing \<^verbatim>\<open>lk\<close> is an
  effect on the owner's state, \<open>rel_lk\<close>. The lock is taken again after the process has been
  dispatched.\<close>

definition sleep :: "nat \<Rightarrow> chan \<Rightarrow> ('e \<Rightarrow> 'e) \<Rightarrow> 'e mkst \<Rightarrow> kerr + 'e mkst" where
  "sleep c ch rel_lk s =
    (case cpu_proc (cpus s c) of
       None \<Rightarrow> Inl (Panic ''sleep'')
     | Some p \<Rightarrow>
         bindE (plock_acquire c s) (\<lambda>s1.
         bindE (on_m (sleep_enq p ch) (s1\<lparr>env := rel_lk (env s1)\<rparr>)) (enter_scheduler c p)))"

definition wakeup :: "nat \<Rightarrow> chan \<Rightarrow> 'e mkst \<Rightarrow> kerr + 'e mkst" where
  "wakeup c ch s =
    bindE (plock_acquire c s) (\<lambda>s1. bindE (on_m (wakeup1 ch) s1) (plock_release c))"

fun wakeup_all :: "nat \<Rightarrow> chan list \<Rightarrow> 'e mkst \<Rightarrow> kerr + 'e mkst" where
  "wakeup_all c [] s = Inr s"
| "wakeup_all c (ch # chs) s = bindE (wakeup c ch s) (wakeup_all c chs)"

definition kill_call :: "nat \<Rightarrow> int \<Rightarrow> 'e mkst \<Rightarrow> kerr + int \<times> 'e mkst" where
  "kill_call c n s =
    bindE (plock_acquire c s) (\<lambda>s1.
    bindE (kill n (m s1)) (\<lambda>(r, m1).
    bindE (plock_release c (s1\<lparr>m := m1\<rparr>)) (\<lambda>s2. Inr (r, s2))))"

definition set_priority_call :: "nat \<Rightarrow> int \<Rightarrow> int \<Rightarrow> 'e mkst \<Rightarrow> kerr + 'e mkst" where
  "set_priority_call c n v s =
    bindE (plock_acquire c s) (\<lambda>s1.
    bindE (on_m (setPrioity_arrangeQueue n v) s1) (plock_release c))"

section \<open>Creating processes\<close>

definition kstack_setup :: "u32 \<Rightarrow> u32 \<Rightarrow> proc \<Rightarrow> proc" where
  "kstack_setup trapret forkret pr =
    (let sp0 = kstack pr + KSTACKSIZE;
         sp1 = sp0 - TRAPFRAME_SIZE;
         sp2 = sp1 - 4;
         sp3 = sp2 - CONTEXT_SIZE
     in pr\<lparr>tf_ptr := sp1, ret_word := trapret, ctx_ptr := sp3,
           ctx := \<lparr>ctx_edi = 0, ctx_esi = 0, ctx_ebx = 0, ctx_ebp = 0, ctx_eip = forkret\<rparr>\<rparr>)"

text \<open>The locked part of \<^verbatim>\<open>allocproc\<close>, and the locked end of \<^verbatim>\<open>fork\<close> and \<^verbatim>\<open>userinit\<close>.\<close>

definition alloc_locked :: "nat \<Rightarrow> 'e mkst \<Rightarrow> kerr + ptr \<times> 'e mkst" where
  "alloc_locked c s =
    bindE (plock_acquire c s) (\<lambda>s1.
      case alloc_slot (m s1) of (r, m1) \<Rightarrow>
        bindE (plock_release c (s1\<lparr>m := m1\<rparr>)) (\<lambda>s2. Inr (r, s2)))"

definition publish :: "nat \<Rightarrow> nat \<Rightarrow> 'e mkst \<Rightarrow> kerr + 'e mkst" where
  "publish c p s =
    bindE (plock_acquire c s) (\<lambda>s1. bindE (on_m (make_runnable p) s1) (plock_release c))"

definition allocproc :: "'e kops \<Rightarrow> nat \<Rightarrow> 'e mkst \<Rightarrow> kerr + ptr \<times> 'e mkst" where
  "allocproc K c s =
    bindE (alloc_locked c s) (\<lambda>(r, s2).
      case r of
        None \<Rightarrow> Inr (None, s2)
      | Some p \<Rightarrow>
          let (ks, e) = op_kalloc K (env s2);
              s3 = upd_p p (\<lambda>pr. pr\<lparr>kstack := ks\<rparr>) (s2\<lparr>env := e\<rparr>)
          in if ks = 0 then bindE (on_m (free_slot p) s3) (\<lambda>s4. Inr (None, s4))
             else Inr (Some p, upd_p p (kstack_setup (addr_trapret K) (addr_forkret K)) s3))"

definition fork :: "'e kops \<Rightarrow> nat \<Rightarrow> 'e mkst \<Rightarrow> kerr + int \<times> 'e mkst" where
  "fork K c s =
    bindE (cur c s) (\<lambda>p.
    bindE (allocproc K c s) (\<lambda>(r, s1).
      case r of
        None \<Rightarrow> Inr (-1, s1)
      | Some np \<Rightarrow>
          let cp = procs (m s1) p in
          bindE (op_copyuvm K (pgdir cp) (sz cp) (env s1)) (\<lambda>(pg, e1).
            let s2 = upd_p np (\<lambda>pr. pr\<lparr>pgdir := pg\<rparr>) (s1\<lparr>env := e1\<rparr>) in
            if pg = 0 then
              bindE (op_kfree K (kstack (procs (m s2) np)) (env s2)) (\<lambda>e2.
                let s3 = upd_p np (\<lambda>pr. pr\<lparr>kstack := 0\<rparr>) (s2\<lparr>env := e2\<rparr>)
                in bindE (on_m (free_slot np) s3) (\<lambda>s4. Inr (-1, s4)))
            else
              let s3 = upd_p np (\<lambda>pr. pr\<lparr>sz := sz cp, parent := Some p, tf := (tf cp)\<lparr>tf_eax := 0\<rparr>\<rparr>) s2 in
              bindE (dup_files K (ofile cp) (ofile (procs (m s3) np)) (env s3)) (\<lambda>(fs, e3).
                let s4 = upd_p np (\<lambda>pr. pr\<lparr>ofile := fs, cwd := cwd cp, name := safestrcpy_str 16 (name cp)\<rparr>)
                           (s3\<lparr>env := op_idup K (cwd cp) e3\<rparr>);
                    n = pid (procs (m s4) np)
                in bindE (publish c np s4) (\<lambda>s5. Inr (n, s5))))))"

definition userinit :: "'e kops \<Rightarrow> nat \<Rightarrow> 'e mkst \<Rightarrow> kerr + 'e mkst" where
  "userinit K c s =
    bindE (allocproc K c s) (\<lambda>(r, s1).
    bindE (deref r) (\<lambda>p.
      let s2 = s1\<lparr>m := (m s1)\<lparr>initproc := Some p\<rparr>\<rparr> in
      bindE (op_setupkvm K (env s2)) (\<lambda>(pg, e1).
        if pg = 0 then Inl (Panic ''userinit: out of memory?'')
        else
          bindE (op_inituvm K pg e1) (\<lambda>e2.
            let (root, e3) = op_namei_root K e2;
                t = \<lparr>tf_eax = 0, tf_esp = PGSIZE, tf_eip = 0, tf_cs = 0x1b, tf_ds = 0x23, tf_es = 0x23,
                     tf_ss = 0x23, tf_eflags = 0x200, tf_trapno = 0\<rparr>;
                s3 = upd_p p (\<lambda>pr. pr\<lparr>pgdir := pg, sz := PGSIZE, tf := t,
                       name := safestrcpy_str 16 ''initcode'', cwd := root\<rparr>) (s2\<lparr>env := e3\<rparr>)
            in publish c p s3))))"

definition growproc :: "'e kops \<Rightarrow> nat \<Rightarrow> int \<Rightarrow> 'e mkst \<Rightarrow> kerr + int \<times> 'e mkst" where
  "growproc K c n s =
    bindE (cur c s) (\<lambda>p.
      let cp = procs (m s) p; old = sz cp; new = old + word_of_int n in
      if n > 0 then
        bindE (op_allocuvm K (pgdir cp) old new (env s)) (\<lambda>(r, e).
          let s1 = s\<lparr>env := e\<rparr> in
          if r = 0 then Inr (-1, s1) else Inr (0, upd_p p (\<lambda>pr. pr\<lparr>sz := r\<rparr>) s1))
      else if n < 0 then
        bindE (op_deallocuvm K (pgdir cp) old new (env s)) (\<lambda>(r, e).
          let s1 = s\<lparr>env := e\<rparr> in
          if r = 0 then Inr (-1, s1) else Inr (0, upd_p p (\<lambda>pr. pr\<lparr>sz := r\<rparr>) s1))
      else Inr (0, s))"

section \<open>Ending processes\<close>

text \<open>\<^verbatim>\<open>exit\<close> closes the files one by one (each close may wake sleepers), drops the working
  directory, and runs the locked part.\<close>

fun close_files :: "'e kops \<Rightarrow> nat \<Rightarrow> nat \<Rightarrow> nat list \<Rightarrow> 'e mkst \<Rightarrow> kerr + 'e mkst" where
  "close_files K c p [] s = Inr s"
| "close_files K c p (fd # fds) s =
     (case ofile (procs (m s) p) ! fd of
        None \<Rightarrow> close_files K c p fds s
      | Some f \<Rightarrow>
          bindE (op_fileclose K f (env s)) (\<lambda>(chs, e).
          bindE (wakeup_all c chs (s\<lparr>env := e\<rparr>)) (\<lambda>s1.
            close_files K c p fds (upd_p p (\<lambda>pr. pr\<lparr>ofile := (ofile pr)[fd := None]\<rparr>) s1))))"

definition exit_tail :: "nat \<Rightarrow> nat \<Rightarrow> 'e mkst \<Rightarrow> kerr + 'e mkst" where
  "exit_tail c p s =
    bindE (plock_acquire c s) (\<lambda>s1. bindE (on_m (exit_locked p) s1) (enter_scheduler c p))"

definition exit_call :: "'e kops \<Rightarrow> nat \<Rightarrow> 'e mkst \<Rightarrow> kerr + 'e mkst" where
  "exit_call K c s =
    bindE (cur c s) (\<lambda>p.
      if initproc (m s) = Some p then Inl (Panic ''init exiting'')
      else
        bindE (close_files K c p [0..<NOFILE] s) (\<lambda>s1.
        bindE (op_iput K (cwd (procs (m s1) p)) (env s1)) (\<lambda>(chs, e).
        bindE (wakeup_all c chs (s1\<lparr>env := e\<rparr>)) (\<lambda>s2.
          exit_tail c p (upd_p p (\<lambda>pr. pr\<lparr>cwd := None\<rparr>) s2)))))"

datatype wait_result = Reaped int | NoChild | WaitSleep

fun wait_scan :: "mlfq_st \<Rightarrow> nat \<Rightarrow> nat list \<Rightarrow> bool \<Rightarrow> bool \<times> ptr" where
  "wait_scan s p [] havekids = (havekids, None)"
| "wait_scan s p (i # is) havekids =
     (if parent (procs s i) \<noteq> Some p then wait_scan s p is havekids
      else if state (procs s i) = ZOMBIE then (True, Some i)
      else wait_scan s p is True)"

definition reap :: "'e kops \<Rightarrow> nat \<Rightarrow> 'e mkst \<Rightarrow> kerr + int \<times> 'e mkst" where
  "reap K i s =
    (let n = pid (procs (m s) i) in
     bindE (op_kfree K (kstack (procs (m s) i)) (env s)) (\<lambda>e1.
     bindE (op_freevm K (pgdir (procs (m s) i)) e1) (\<lambda>e2.
       let s1 = upd_p i (\<lambda>pr. setproc_default (pr\<lparr>kstack := 0, pid := 0, parent := None, name := [],
                    killed := False, state := UNUSED\<rparr>)) (s\<lparr>env := e2\<rparr>)
       in bindE (on_m (q_insert UNUSEDQ i None) s1) (\<lambda>s2. Inr (n, s2)))))"

text \<open>One pass of the loop of \<^verbatim>\<open>wait\<close>: it returns, or the process is asleep on itself and
  starts the next pass when it is dispatched again.\<close>

definition wait_pass :: "'e kops \<Rightarrow> nat \<Rightarrow> 'e mkst \<Rightarrow> kerr + wait_result \<times> 'e mkst" where
  "wait_pass K c s =
    bindE (cur c s) (\<lambda>p.
    bindE (plock_acquire c s) (\<lambda>s1.
      case wait_scan (m s1) p [0..<NPROC] False of
        (_, Some i) \<Rightarrow>
          bindE (reap K i s1) (\<lambda>(n, s2). bindE (plock_release c s2) (\<lambda>s3. Inr (Reaped n, s3)))
      | (havekids, None) \<Rightarrow>
          if \<not> havekids \<or> killed (procs (m s1) p)
          then bindE (plock_release c s1) (\<lambda>s2. Inr (NoChild, s2))
          else bindE (on_m (sleep_enq p (ProcChan p)) s1) (\<lambda>s2.
               bindE (enter_scheduler c p s2) (\<lambda>s3. Inr (WaitSleep, s3)))))"

section \<open>The scheduler lock\<close>

definition password :: int where "password = 2017029416"

definition schedulerLock :: "'e kops \<Rightarrow> nat \<Rightarrow> int \<Rightarrow> 'e mkst \<Rightarrow> kerr + 'e mkst" where
  "schedulerLock K c pw s =
    bindE (cur c s) (\<lambda>p.
      if pw \<noteq> password then exit_call K c s
      else bindE (plock_acquire c s) (\<lambda>s1. plock_release c (s1\<lparr>m := mlfqlock p (m s1)\<rparr>)))"

definition schedulerUnlock :: "'e kops \<Rightarrow> nat \<Rightarrow> int \<Rightarrow> 'e mkst \<Rightarrow> kerr + 'e mkst" where
  "schedulerUnlock K c pw s =
    bindE (cur c s) (\<lambda>p.
      if pw \<noteq> password then exit_call K c s
      else bindE (plock_acquire c s) (\<lambda>s1. plock_release c (s1\<lparr>m := mlfqunlock p (m s1)\<rparr>)))"

definition sys_getpid :: "nat \<Rightarrow> 'e mkst \<Rightarrow> kerr + int" where
  "sys_getpid c s = bindE (cur c s) (\<lambda>p. Inr (pid (procs (m s) p)))"

definition sys_getLevel :: "nat \<Rightarrow> 'e mkst \<Rightarrow> kerr + int" where
  "sys_getLevel c s = bindE (cur c s) (\<lambda>p. Inr (queuelevel (procs (m s) p)))"

definition sys_yield :: "nat \<Rightarrow> 'e mkst \<Rightarrow> kerr + 'e mkst" where
  "sys_yield c s = yield c s"

end
