(* ===== verification/MlfqInv.thy ===== *)
theory MlfqInv
  imports MlfqKernel
begin

text \<open>
  The invariant of the MLFQ kernel between handlers, over all interleavings of the handlers
  on any number of processors: the queues agree with the process states, every processor
  runs at most one process and no process runs on two, \<^verbatim>\<open>ptable.lock\<close> is free, interrupts
  are enabled again, and the global tick counter stays below 100. Every handler keeps it and
  reaches none of the panics of \<^verbatim>\<open>sched\<close>, \<^verbatim>\<open>acquire\<close>, \<^verbatim>\<open>release\<close> and \<^verbatim>\<open>popcli\<close>.
\<close>

section \<open>The invariant\<close>

text \<open>\<open>R c\<close> is the process processor \<open>c\<close> runs.\<close>

definition runs_ok :: "mlfq_st \<Rightarrow> (nat \<Rightarrow> ptr) \<Rightarrow> bool" where
  "runs_ok s R \<longleftrightarrow>
     (\<forall>c p. R c = Some p \<longrightarrow> p < NPROC \<and> state (procs s p) = RUNNING) \<and>
     (\<forall>c d p. R c = Some p \<longrightarrow> R d = Some p \<longrightarrow> c = d) \<and>
     (\<forall>p < NPROC. state (procs s p) = RUNNING \<longrightarrow> (\<exists>c. R c = Some p))"

definition kinv :: "'e mkst \<Rightarrow> bool" where
  "kinv s \<longleftrightarrow>
     (\<exists>A. placed (m s) A) \<and> 0 \<le> global_ticks (m s) \<and> global_ticks (m s) < 100 \<and>
     runs_ok (m s) (runs s) \<and> \<not> locked (plock s) \<and>
     (\<forall>c. cpu_ok (cpus s c) \<and> ncli (cpus s c) = 0)"

text \<open>The same inside a critical section of processor \<open>c\<close>; \<open>R\<close> is what the processors run.\<close>

definition in_cs :: "nat \<Rightarrow> (nat \<Rightarrow> ptr) \<Rightarrow> 'e mkst \<Rightarrow> bool" where
  "in_cs c R s \<longleftrightarrow>
     (\<exists>A. placed (m s) A) \<and> 0 \<le> global_ticks (m s) \<and> global_ticks (m s) \<le> 100 \<and>
     runs_ok (m s) R \<and> (\<forall>d. d \<noteq> c \<longrightarrow> R d = runs s d) \<and>
     locked (plock s) \<and> lk_cpu (plock s) = Some c \<and>
     (\<forall>d. cpu_ok (cpus s d) \<and> ncli (cpus s d) = (if d = c then 1 else 0))"

lemma runs_ok_cong:
  assumes "runs_ok s R" and "\<And>p. p < NPROC \<Longrightarrow> state (procs t p) = RUNNING \<longleftrightarrow> state (procs s p) = RUNNING"
  shows "runs_ok t R"
  using assms by (auto simp: runs_ok_def)

lemma runs_ok_stop:
  assumes "runs_ok s R" and "R c = Some p"
    and "\<And>i. i < NPROC \<Longrightarrow> state (procs t i) = RUNNING \<longleftrightarrow> state (procs s i) = RUNNING \<and> i \<noteq> p"
  shows "runs_ok t (R(c := None))"
  using assms unfolding runs_ok_def by (auto split: if_splits) (metis option.inject)+

lemma runs_ok_start:
  assumes "runs_ok s R" and "R c = None" and "p < NPROC" and "state (procs s p) \<noteq> RUNNING"
    and "\<And>i. i < NPROC \<Longrightarrow> state (procs t i) = RUNNING \<longleftrightarrow> state (procs s i) = RUNNING \<or> i = p"
  shows "runs_ok t (R(c := Some p))"
  unfolding runs_ok_def
proof (intro conjI allI impI)
  fix d q
  assume "(R(c := Some p)) d = Some q"
  then show "q < NPROC" "state (procs t q) = RUNNING"
    using assms by (auto simp: runs_ok_def split: if_splits)
next
  fix d e q
  assume "(R(c := Some p)) d = Some q" "(R(c := Some p)) e = Some q"
  moreover have "R x \<noteq> Some p" for x using assms(1,4) by (auto simp: runs_ok_def)
  ultimately show "d = e" using assms(1) by (auto simp: runs_ok_def split: if_splits)
next
  fix q
  assume q: "q < NPROC" "state (procs t q) = RUNNING"
  show "\<exists>d. (R(c := Some p)) d = Some q"
  proof (cases "q = p")
    case True
    then have "(R(c := Some p)) c = Some q" by simp
    then show ?thesis ..
  next
    case False
    with q assms(1,5) obtain d where d: "R d = Some q" by (auto simp: runs_ok_def)
    with assms(2) have "(R(c := Some p)) d = Some q" by auto
    then show ?thesis ..
  qed
qed

section \<open>Taking and releasing the lock\<close>

lemma plock_acquire_kinv:
  assumes "kinv s"
  shows "plock_acquire c s = Inr (acquired c s)" and "in_cs c (runs s) (acquired c s)"
proof -
  have c: "cpu_ok (cpus s c)" "\<not> locked (plock s)" using assms by (auto simp: kinv_def)
  then show "plock_acquire c s = Inr (acquired c s)"
    by (simp add: plock_acquire_def acquire_result acquired_def)
  show "in_cs c (runs s) (acquired c s)"
    using assms by (auto simp: kinv_def in_cs_def acquired_def)
qed

lemma plock_release_cs:
  assumes cs: "in_cs c R s" and gt: "global_ticks (m s) < 100" and R: "R c = runs s c"
  shows "succeeds (plock_release c s)
    (\<lambda>t. kinv t \<and> m t = m s \<and> env t = env s \<and> runs t = runs s)"
proof -
  have c: "cpu_ok (cpus s c)" "ncli (cpus s c) = 1" "locked (plock s)" "lk_cpu (plock s) = Some c"
    using cs by (auto simp: in_cs_def)
  then have "\<not> iflag (cpus s c)" by (simp add: cpu_ok_def)
  define d where "d = (cpus s c)\<lparr>ncli := 0, iflag := intena (cpus s c)\<rparr>"
  have d: "popcli (cpus s c) = Inr d" "cpu_ok d" "ncli d = 0" "cpu_proc d = cpu_proc (cpus s c)"
    using c(2) \<open>\<not> iflag (cpus s c)\<close> by (simp_all add: d_def popcli_last cpu_ok_def)
  let ?t = "s\<lparr>cpus := (cpus s)(c := d), plock := initlock\<rparr>"
  have "plock_release c s = Inr ?t"
    using release_result [OF c(1) _ c(3,4)] c(2) d(1) by (simp add: plock_release_def)
  moreover have "R = runs s" using cs R by (auto simp: in_cs_def fun_eq_iff)
  moreover have "runs ?t = runs s" using d(4) by (auto simp: fun_eq_iff)
  ultimately show ?thesis
    using cs gt d by (auto simp: in_cs_def kinv_def initlock_def)
qed

text \<open>A change of the process table inside a critical section.\<close>

lemma in_cs_m:
  assumes "in_cs c R s" and "\<exists>A. placed pm A" and "runs_ok pm R'"
    and "0 \<le> global_ticks pm" "global_ticks pm \<le> 100" and "\<And>d. d \<noteq> c \<Longrightarrow> R' d = R d"
  shows "in_cs c R' (s\<lparr>m := pm\<rparr>)"
  using assms by (auto simp: in_cs_def)

lemma in_cs_env [simp]: "in_cs c R (s\<lparr>env := e\<rparr>) = in_cs c R s"
  by (simp add: in_cs_def)

lemma kinv_env [simp]: "kinv (s\<lparr>env := e\<rparr>) = kinv s"
  by (simp add: kinv_def)

lemma in_cs_saved [simp]: "in_cs c R (s\<lparr>saved_intena := x\<rparr>) = in_cs c R s"
  by (simp add: in_cs_def)

section \<open>Entering the scheduler\<close>

lemma after_return_state [simp]: "state (procs (after_return s A) i) = state (procs s i)"
  by (auto simp: after_return_def)

lemma sched_return_ok:
  assumes "placed s A" and "0 \<le> global_ticks s" and "global_ticks s \<le> 100"
  shows "succeeds (sched_return s)
    (\<lambda>t. (\<exists>A. placed t A) \<and> 0 \<le> global_ticks t \<and> global_ticks t < 100 \<and>
       (\<forall>i. state (procs t i) = state (procs s i)))"
proof (rule succeeds_mono [OF sched_return_placed [OF assms(1)]], intro conjI allI)
  fix t
  assume t: "placed t (return_queues s A) \<and> same_data (after_return s A) t"
  then have sd: "same_data (after_return s A) t" ..
  show "\<exists>A. placed t A" using t by blast
  show "0 \<le> global_ticks t" "global_ticks t < 100"
    using assms by (auto simp: same_data_fields [OF sd] after_return_def)
  show "state (procs t i) = state (procs s i)" for i
    by (simp add: same_data_fields [OF sd])
qed

lemma sched_cs:
  assumes "in_cs c R s" and "state (procs (m s) p) \<noteq> RUNNING"
  shows "sched c p s = Inr (s\<lparr>saved_intena := (saved_intena s)(p := intena (cpus s c))\<rparr>)"
proof -
  have c: "cpu_ok (cpus s c)" "ncli (cpus s c) = 1" "locked (plock s)" "lk_cpu (plock s) = Some c"
    using assms by (auto simp: in_cs_def)
  then have "\<not> iflag (cpus s c)" by (simp add: cpu_ok_def)
  then show ?thesis
    using c assms(2) by (simp add: sched_def holding_result Let_def)
qed

lemma enter_scheduler_cs:
  assumes cs: "in_cs c R s" and R: "R c = None" and p: "state (procs (m s) p) \<noteq> RUNNING"
  shows "succeeds (enter_scheduler c p s)
    (\<lambda>t. kinv t \<and> (\<exists>m1. sched_return (m s) = Inr m1 \<and> m t = m1) \<and> env t = env s \<and>
       runs t = (runs s)(c := None))"
proof -
  let ?s = "s\<lparr>saved_intena := (saved_intena s)(p := intena (cpus s c))\<rparr>"
  obtain A where A: "placed (m s) A" using cs by (auto simp: in_cs_def)
  obtain t where t: "sched_return (m s) = Inr t" "\<exists>A. placed t A" "0 \<le> global_ticks t" "global_ticks t < 100"
    "\<forall>i. state (procs t i) = state (procs (m s) i)"
    using sched_return_ok [OF A] cs by (auto simp: in_cs_def elim!: succeedsE)
  let ?u = "set_cpu_proc c None (?s\<lparr>m := t\<rparr>)"
  have "runs_ok t R" using cs t(5) by (auto simp: in_cs_def intro: runs_ok_cong)
  then have "in_cs c R (?s\<lparr>m := t\<rparr>)"
    using in_cs_m [of c R ?s t R] cs t by simp
  then have u: "in_cs c R ?u"
    by (auto simp: in_cs_def set_cpu_proc_def cpu_ok_def)
  have "succeeds (plock_release c ?u) (\<lambda>v. kinv v \<and> m v = m ?u \<and> env v = env ?u \<and> runs v = runs ?u)"
    by (rule plock_release_cs [OF u]) (use t(4) R in \<open>simp_all add: set_cpu_proc_def\<close>)
  moreover have "runs ?u = (runs s)(c := None)" by (auto simp: set_cpu_proc_def fun_eq_iff)
  ultimately show ?thesis
    using t(1) sched_cs [OF cs p]
    by (auto simp: enter_scheduler_def on_m_def set_cpu_proc_def elim!: succeeds_mono)
qed

section \<open>The handlers keep the invariant\<close>

lemma kinv_runs: "kinv s \<Longrightarrow> runs s c = Some p \<Longrightarrow> p < NPROC \<and> state (procs (m s) p) = RUNNING"
  by (auto simp: kinv_def runs_ok_def)

lemma yielded_state [simp]:
  "state (procs (yielded p s) i) = (if i = p then RUNNABLE else state (procs s i))"
  by (auto simp: yielded_def tick_def Let_def)

lemma yielded_global_ticks [simp]: "global_ticks (yielded p s) = global_ticks s + 1"
  by (auto simp: yielded_def Let_def)

text \<open>From the locked part of a handler that gives up the processor to the end of the
  \<^verbatim>\<open>scheduler\<close> iteration.\<close>

lemma stop_running:
  assumes inv: "kinv s" and run: "runs s c = Some p"
    and body: "succeeds (body (m s)) (\<lambda>t. (\<exists>A. placed t A) \<and>
       global_ticks t \<in> {global_ticks (m s), global_ticks (m s) + 1} \<and>
       (\<forall>i < NPROC. state (procs t i) = RUNNING \<longleftrightarrow> state (procs (m s) i) = RUNNING \<and> i \<noteq> p))"
  shows "succeeds (bindE (on_m body ((acquired c s)\<lparr>env := e\<rparr>)) (enter_scheduler c p))
    (\<lambda>t. kinv t \<and> runs t = (runs s)(c := None) \<and> env t = e \<and>
       (\<exists>m1. body (m s) = Inr m1 \<and> sched_return m1 = Inr (m t)))"
proof -
  obtain m1 where m1: "body (m s) = Inr m1" "\<exists>A. placed m1 A"
    "global_ticks m1 \<in> {global_ticks (m s), global_ticks (m s) + 1}"
    and st: "\<forall>i < NPROC. state (procs m1 i) = RUNNING \<longleftrightarrow> state (procs (m s) i) = RUNNING \<and> i \<noteq> p"
    using body by (rule succeedsE) blast
  have gt: "0 \<le> global_ticks m1" "global_ticks m1 \<le> 100"
    using m1(3) inv by (auto simp: kinv_def)
  have ro: "runs_ok m1 ((runs s)(c := None))"
    using inv st run by (intro runs_ok_stop) (auto simp: kinv_def)
  let ?s = "(acquired c s)\<lparr>env := e\<rparr>"
  have "in_cs c (runs s) ?s" using plock_acquire_kinv(2) [OF inv] by simp
  then have cs: "in_cs c ((runs s)(c := None)) (?s\<lparr>m := m1\<rparr>)"
    using m1(2) ro gt by (rule in_cs_m) simp
  have "p < NPROC" using kinv_runs [OF inv run] by simp
  with st have np: "state (procs (m (?s\<lparr>m := m1\<rparr>)) p) \<noteq> RUNNING" by simp
  have "succeeds (enter_scheduler c p (?s\<lparr>m := m1\<rparr>))
    (\<lambda>t. kinv t \<and> (\<exists>m2. sched_return (m (?s\<lparr>m := m1\<rparr>)) = Inr m2 \<and> m t = m2) \<and> env t = env (?s\<lparr>m := m1\<rparr>) \<and>
       runs t = (runs (?s\<lparr>m := m1\<rparr>))(c := None))"
    by (rule enter_scheduler_cs [OF cs _ np]) simp
  then show ?thesis using m1(1) by (auto simp: on_m_def elim!: succeeds_mono)
qed

lemma yield_body:
  assumes inv: "kinv s" and run: "runs s c = Some p"
  shows "succeeds (yield_enq p (m s)) (\<lambda>t. (\<exists>A. placed t A) \<and>
       global_ticks t \<in> {global_ticks (m s), global_ticks (m s) + 1} \<and>
       (\<forall>i < NPROC. state (procs t i) = RUNNING \<longleftrightarrow> state (procs (m s) i) = RUNNING \<and> i \<noteq> p))"
proof -
  obtain A where A: "placed (m s) A" using inv by (auto simp: kinv_def)
  have p: "p < NPROC" "\<not> queued_state (state (procs (m s) p))" using kinv_runs [OF inv run] by auto
  show ?thesis
    by (rule succeeds_mono [OF yield_enq_placed [OF A p]]) (auto simp: same_data_fields split: if_splits)
qed

lemma yield_kinv:
  assumes inv: "kinv s" and run: "runs s c = Some p"
  shows "succeeds (yield c s)
    (\<lambda>t. kinv t \<and> runs t = (runs s)(c := None) \<and>
       (\<exists>m1. yield_enq p (m s) = Inr m1 \<and> sched_return m1 = Inr (m t)))"
proof -
  have "succeeds (bindE (on_m (yield_enq p) ((acquired c s)\<lparr>env := env s\<rparr>)) (enter_scheduler c p))
    (\<lambda>t. kinv t \<and> runs t = (runs s)(c := None) \<and> env t = env s \<and>
       (\<exists>m1. yield_enq p (m s) = Inr m1 \<and> sched_return m1 = Inr (m t)))"
    by (rule stop_running [where body = "yield_enq p", OF inv run yield_body [OF inv run]])
  moreover have "(acquired c s)\<lparr>env := env s\<rparr> = acquired c s" by (simp add: acquired_def)
  ultimately show ?thesis
    using run plock_acquire_kinv(1) [OF inv] by (auto simp: yield_def cur_def elim!: succeeds_mono)
qed

lemma sleep_kinv:
  assumes inv: "kinv s" and run: "runs s c = Some p"
  shows "succeeds (sleep c ch rel_lk s)
    (\<lambda>t. kinv t \<and> runs t = (runs s)(c := None) \<and>
       (\<exists>m1. sleep_enq p ch (m s) = Inr m1 \<and> sched_return m1 = Inr (m t)))"
proof -
  obtain A where A: "placed (m s) A" using inv by (auto simp: kinv_def)
  have p: "p < NPROC" "\<not> queued_state (state (procs (m s) p))" using kinv_runs [OF inv run] by auto
  have "succeeds (sleep_enq p ch (m s)) (\<lambda>t. (\<exists>A. placed t A) \<and>
       global_ticks t \<in> {global_ticks (m s), global_ticks (m s) + 1} \<and>
       (\<forall>i < NPROC. state (procs t i) = RUNNING \<longleftrightarrow> state (procs (m s) i) = RUNNING \<and> i \<noteq> p))"
    by (rule succeeds_mono [OF sleep_enq_placed [OF A p]]) (auto simp: same_data_fields split: if_splits)
  then have "succeeds (bindE (on_m (sleep_enq p ch) ((acquired c s)\<lparr>env := rel_lk (env s)\<rparr>)) (enter_scheduler c p))
    (\<lambda>t. kinv t \<and> runs t = (runs s)(c := None) \<and> env t = rel_lk (env s) \<and>
       (\<exists>m1. sleep_enq p ch (m s) = Inr m1 \<and> sched_return m1 = Inr (m t)))"
    by (rule stop_running [where body = "sleep_enq p ch", OF inv run])
  then show ?thesis
    using run plock_acquire_kinv(1) [OF inv] by (auto simp: sleep_def elim!: succeeds_mono)
qed

text \<open>A handler that changes the table under the lock and lets the process run on.\<close>

lemma keep_running:
  assumes inv: "kinv s"
    and body: "succeeds (body (m s)) (\<lambda>t. (\<exists>A. placed t A) \<and> 0 \<le> global_ticks t \<and> global_ticks t < 100 \<and>
       (\<forall>i < NPROC. state (procs t i) = RUNNING \<longleftrightarrow> state (procs (m s) i) = RUNNING))"
  shows "succeeds (bindE (on_m body (acquired c s)) (plock_release c))
    (\<lambda>t. kinv t \<and> runs t = runs s \<and> env t = env s \<and> body (m s) = Inr (m t))"
proof -
  obtain m1 where m1: "body (m s) = Inr m1" "\<exists>A. placed m1 A" "0 \<le> global_ticks m1" "global_ticks m1 < 100"
    and st: "\<forall>i < NPROC. state (procs m1 i) = RUNNING \<longleftrightarrow> state (procs (m s) i) = RUNNING"
    using body by (rule succeedsE) blast
  have "runs_ok m1 (runs s)" using inv st by (auto simp: kinv_def intro: runs_ok_cong)
  then have cs: "in_cs c (runs s) ((acquired c s)\<lparr>m := m1\<rparr>)"
    using plock_acquire_kinv(2) [OF inv] m1 by (intro in_cs_m) auto
  have "succeeds (plock_release c ((acquired c s)\<lparr>m := m1\<rparr>))
    (\<lambda>t. kinv t \<and> m t = m ((acquired c s)\<lparr>m := m1\<rparr>) \<and> env t = env ((acquired c s)\<lparr>m := m1\<rparr>) \<and>
       runs t = runs ((acquired c s)\<lparr>m := m1\<rparr>))"
    by (rule plock_release_cs [OF cs]) (use m1(4) in simp_all)
  then show ?thesis using m1(1) by (auto simp: on_m_def elim!: succeeds_mono)
qed

lemma wakeup_kinv:
  assumes inv: "kinv s"
  shows "succeeds (wakeup c ch s) (\<lambda>t. kinv t \<and> runs t = runs s \<and> env t = env s \<and> wakeup1 ch (m s) = Inr (m t))"
proof -
  obtain A where A: "placed (m s) A" using inv by (auto simp: kinv_def)
  have "succeeds (wakeup1 ch (m s)) (\<lambda>t. (\<exists>A. placed t A) \<and> 0 \<le> global_ticks t \<and> global_ticks t < 100 \<and>
       (\<forall>i < NPROC. state (procs t i) = RUNNING \<longleftrightarrow> state (procs (m s) i) = RUNNING))"
  proof (rule succeeds_mono [OF wakeup1_wakes [OF A]], elim conjE, intro conjI)
    fix t
    assume ow: "only_wakes (m s) t"
    show "0 \<le> global_ticks t" "global_ticks t < 100"
      using ow inv by (auto simp: only_wakes_def kinv_def)
    show "\<forall>i < NPROC. state (procs t i) = RUNNING \<longleftrightarrow> state (procs (m s) i) = RUNNING"
      using ow unfolding only_wakes_def by (metis procstate.distinct)
  qed
  from keep_running [where body = "wakeup1 ch", OF inv this, of c] show ?thesis
    by (simp add: wakeup_def plock_acquire_kinv(1) [OF inv])
qed

lemma wakeup_all_kinv:
  "kinv s \<Longrightarrow> succeeds (wakeup_all c chs s) (\<lambda>t. kinv t \<and> runs t = runs s \<and> env t = env s \<and> initproc (m t) = initproc (m s))"
proof (induction chs arbitrary: s)
  case (Cons ch chs)
  obtain u where u: "wakeup c ch s = Inr u" "kinv u" "runs u = runs s" "env u = env s" "wakeup1 ch (m s) = Inr (m u)"
    using wakeup_kinv [OF Cons.prems, of c ch] by (auto elim!: succeedsE)
  obtain A where A: "placed (m s) A" using Cons.prems by (auto simp: kinv_def)
  have "initproc (m u) = initproc (m s)"
    using wakeup1_wakes [OF A, of ch] u(5) by (auto simp: only_wakes_def)
  with Cons.IH [OF u(2)] u show ?case by (auto elim!: succeeds_mono)
qed simp

lemma kill_body:
  assumes inv: "kinv s"
  shows "succeeds (kill n (m s)) (\<lambda>(r, t). (\<exists>A. placed t A) \<and> 0 \<le> global_ticks t \<and> global_ticks t < 100 \<and>
       (\<forall>i < NPROC. state (procs t i) = RUNNING \<longleftrightarrow> state (procs (m s) i) = RUNNING))"
proof -
  obtain A where A: "placed (m s) A" using inv by (auto simp: kinv_def)
  have gt: "0 \<le> global_ticks (m s)" "global_ticks (m s) < 100" using inv by (auto simp: kinv_def)
  show ?thesis
  proof (rule succeeds_mono [OF kill_placed [OF A]], clarify)
    fix r t
    assume h: "case find (\<lambda>p. pid (procs (m s) p) = n) [0..<NPROC] of
       None \<Rightarrow> r = -1 \<and> t = m s
     | Some p \<Rightarrow> r = 0 \<and> same_data (upd_proc p kill_mark (m s)) t \<and>
         placed t (if state (procs (m s) p) = SLEEPING
                   then enqueued (procs (m s)) p (A(SLEEPQ := remove1 p (A SLEEPQ))) else A)"
    show "(\<exists>A. placed t A) \<and> 0 \<le> global_ticks t \<and> global_ticks t < 100 \<and>
       (\<forall>i < NPROC. state (procs t i) = RUNNING \<longleftrightarrow> state (procs (m s) i) = RUNNING)"
    proof (cases "find (\<lambda>p. pid (procs (m s) p) = n) [0..<NPROC]")
      case None
      with h A gt show ?thesis by auto
    next
      case (Some p)
      with h have sd: "same_data (upd_proc p kill_mark (m s)) t" and "\<exists>A. placed t A" by auto
      then show ?thesis
        using gt by (auto simp: same_data_fields [OF sd] kill_mark_def split: if_splits)
    qed
  qed
qed

lemma kill_kinv:
  assumes inv: "kinv s"
  shows "succeeds (kill_call c n s) (\<lambda>(r, t). kinv t \<and> runs t = runs s \<and> kill n (m s) = Inr (r, m t))"
proof -
  obtain r m1 where k: "kill n (m s) = Inr (r, m1)" "\<exists>A. placed m1 A" "0 \<le> global_ticks m1" "global_ticks m1 < 100"
    "\<forall>i < NPROC. state (procs m1 i) = RUNNING \<longleftrightarrow> state (procs (m s) i) = RUNNING"
    using kill_body [OF inv, of n] by (auto elim!: succeedsE)
  have "succeeds (bindE (on_m (\<lambda>_. Inr m1) (acquired c s)) (plock_release c))
    (\<lambda>t. kinv t \<and> runs t = runs s \<and> env t = env s \<and> (Inr m1 :: kerr + mlfq_st) = Inr (m t))"
    by (rule keep_running [where body = "\<lambda>_. Inr m1", OF inv]) (use k in simp)
  with k(1) show ?thesis
    by (auto simp: kill_call_def plock_acquire_kinv(1) [OF inv] on_m_def elim!: succeedsE)
qed

lemma set_priority_kinv:
  assumes inv: "kinv s" and A: "placed (m s) A"
    and ok: "\<And>p. find (\<lambda>p. pid (procs (m s) p) = n) (rev [0..<NPROC]) = Some p \<Longrightarrow> \<not> misplaced (m s) A p"
  shows "succeeds (set_priority_call c n v s)
    (\<lambda>t. kinv t \<and> runs t = runs s \<and> setPrioity_arrangeQueue n v (m s) = Inr (m t))"
proof -
  have gt: "0 \<le> global_ticks (m s)" "global_ticks (m s) < 100" using inv by (auto simp: kinv_def)
  have "succeeds (setPrioity_arrangeQueue n v (m s)) (\<lambda>t. (\<exists>A. placed t A) \<and> 0 \<le> global_ticks t \<and> global_ticks t < 100 \<and>
       (\<forall>i < NPROC. state (procs t i) = RUNNING \<longleftrightarrow> state (procs (m s) i) = RUNNING))"
  proof (cases "find (\<lambda>p. pid (procs (m s) p) = n) (rev [0..<NPROC])")
    case None
    with A gt show ?thesis by (auto simp: setPrioity_arrangeQueue_def)
  next
    case (Some p)
    show ?thesis
    proof (cases "state (procs (m s) p) = UNUSED")
      case True
      with Some A gt show ?thesis by (auto simp: setPrioity_arrangeQueue_def)
    next
      case False
      show ?thesis
        by (rule succeeds_mono [OF setPrioity_placed [OF A Some False ok [OF Some]]])
          (use gt in \<open>auto simp: same_data_fields split: if_splits\<close>)
    qed
  qed
  from keep_running [where body = "setPrioity_arrangeQueue n v", OF inv this, of c] show ?thesis
    by (auto simp: set_priority_call_def plock_acquire_kinv(1) [OF inv] elim!: succeeds_mono)
qed

lemma sleep_resume_placed: "placed s A \<Longrightarrow> placed (sleep_resume p s) A"
  unfolding sleep_resume_def by (rule placed_upd_inert) simp_all

lemma sleep_resume_sel [simp]:
  "state (procs (sleep_resume p s) i) = state (procs s i)" "global_ticks (sleep_resume p s) = global_ticks s"
  by (simp_all add: sleep_resume_def)

lemma dispatch_kinv:
  assumes inv: "kinv s" and idle: "runs s c = None"
  shows "succeeds (dispatch c s)
    (\<lambda>(r, t). kinv t \<and> runs t = (runs s)(c := r) \<and> fst (sched_pick (m s)) = r)"
proof -
  let ?s = "s\<lparr>cpus := (cpus s)(c := (cpus s c)\<lparr>iflag := True\<rparr>)\<rparr>"
  have inv': "kinv ?s" and runs': "runs ?s = runs s"
    using inv by (auto simp: kinv_def cpu_ok_def runs_ok_def)
  note acq = plock_acquire_kinv [OF inv', of c]
  obtain A where A: "placed (m s) A" using inv by (auto simp: kinv_def)
  have gt: "0 \<le> global_ticks (m s)" "global_ticks (m s) < 100" "runs_ok (m s) (runs s)"
    using inv by (auto simp: kinv_def)
  obtain r m1 where pick: "sched_pick (m s) = (r, m1)" by fastforce
  show ?thesis
  proof (cases r)
    case None
    with sched_pick_placed [OF A] pick have m1: "same_data (m s) m1" "placed m1 A" by auto
    have "runs_ok m1 (runs s)" using gt(3) by (rule runs_ok_cong) (simp add: same_data_fields [OF m1(1)])
    then have cs: "in_cs c (runs ?s) ((acquired c ?s)\<lparr>m := m1\<rparr>)"
      using gt m1 runs' by (intro in_cs_m [OF acq(2)]) (auto simp: same_data_fields [OF m1(1)])
    have "succeeds (plock_release c ((acquired c ?s)\<lparr>m := m1\<rparr>))
      (\<lambda>t. kinv t \<and> m t = m ((acquired c ?s)\<lparr>m := m1\<rparr>) \<and> env t = env ((acquired c ?s)\<lparr>m := m1\<rparr>) \<and>
         runs t = runs ((acquired c ?s)\<lparr>m := m1\<rparr>))"
      by (rule plock_release_cs [OF cs]) (use gt in \<open>simp_all add: same_data_fields [OF m1(1)]\<close>)
    moreover have "(runs s)(c := None) = runs s" "runs ((acquired c ?s)\<lparr>m := m1\<rparr>) = runs s"
      using idle by (auto simp: fun_eq_iff)
    ultimately show ?thesis
      using None pick acq(1) by (auto simp: dispatch_def Let_def elim!: succeedsE)
  next
    case (Some p)
    with sched_pick_placed [OF A] pick
    have ro: "run_order A = p # run_order (drop_first A)" and pm: "placed m1 (drop_first A)"
      and sd: "same_data (upd_proc p (\<lambda>pr. pr\<lparr>state := RUNNING\<rparr>) (m s)) m1" by auto
    have "p \<in> set (A L0) \<union> set (A L1) \<union> set (A L2)"
      using arg_cong [OF ro, of set] by (auto simp: run_order_def)
    then have p: "p < NPROC" "state (procs (m s) p) = RUNNABLE"
      using placed_slots [OF A] placed_fits [OF A] by force+
    have ok: "runs_ok (sleep_resume p m1) ((runs s)(c := Some p))"
      by (rule runs_ok_start [OF gt(3) idle p(1)]) (use p(2) in \<open>auto simp: same_data_fields [OF sd]\<close>)
    define s4 where "s4 = (let s2 = set_cpu_proc c (Some p) ((acquired c ?s)\<lparr>m := m1\<rparr>);
               s3 = s2\<lparr>cpus := (cpus s2)(c := (cpus s2 c)\<lparr>intena := saved_intena s2 p\<rparr>)\<rparr>
           in s3\<lparr>m := sleep_resume p (m s3)\<rparr>)"
    have m4: "m s4 = sleep_resume p m1" and r4: "runs s4 = (runs s)(c := Some p)"
      by (auto simp: s4_def Let_def set_cpu_proc_def fun_eq_iff)
    have "in_cs c ((runs s)(c := Some p)) s4"
      using acq(2) sleep_resume_placed [OF pm] ok gt
      by (auto simp: in_cs_def s4_def Let_def set_cpu_proc_def cpu_ok_def same_data_fields [OF sd])
    then have "succeeds (plock_release c s4) (\<lambda>t. kinv t \<and> m t = m s4 \<and> env t = env s4 \<and> runs t = runs s4)"
      by (rule plock_release_cs) (use gt m4 r4 in \<open>simp_all add: same_data_fields [OF sd] fun_eq_iff\<close>)
    moreover have "dispatch c s = bindE (plock_release c s4) (\<lambda>s5. Inr (Some p, s5))"
      using Some pick acq(1) by (simp add: dispatch_def s4_def Let_def)
    ultimately show ?thesis using Some pick r4 by (auto elim!: succeedsE)
  qed
qed

lemma schedulerLock_kinv:
  assumes inv: "kinv s" and run: "runs s c = Some p"
  shows "succeeds (schedulerLock K c password s) (\<lambda>t. kinv t \<and> runs t = runs s \<and> m t = mlfqlock p (m s))"
    and "succeeds (schedulerUnlock K c password s) (\<lambda>t. kinv t \<and> runs t = runs s \<and> m t = mlfqunlock p (m s))"
proof -
  obtain A where A: "placed (m s) A" using inv by (auto simp: kinv_def)
  have gt: "0 \<le> global_ticks (m s)" "global_ticks (m s) < 100" using inv by (auto simp: kinv_def)
  have p: "p < NPROC" "state (procs (m s) p) = RUNNING" using kinv_runs [OF inv run] by auto
  have "succeeds (bindE (on_m (\<lambda>x. Inr (mlfqlock p x)) (acquired c s)) (plock_release c))
    (\<lambda>t. kinv t \<and> runs t = runs s \<and> env t = env s \<and> (Inr (mlfqlock p (m s)) :: kerr + mlfq_st) = Inr (m t))"
    by (rule keep_running [where body = "\<lambda>x. Inr (mlfqlock p x)", OF inv]) (use A gt in \<open>auto simp: mlfqlock_def\<close>)
  then show "succeeds (schedulerLock K c password s) (\<lambda>t. kinv t \<and> runs t = runs s \<and> m t = mlfqlock p (m s))"
    using run by (auto simp: schedulerLock_def cur_def plock_acquire_kinv(1) [OF inv] on_m_def elim!: succeeds_mono)
  have tr: "placed_ex (m s) A {p}"
    using placed_to_transit [OF A placed_not_queued [OF A]] p by simp
  have "placed (mlfqunlock p (m s)) A"
  proof (cases "lockproc (m s) = None")
    case True
    with A show ?thesis by (simp add: mlfqunlock_def)
  next
    case False
    have "placed_ex (mlfqunlock p (m s)) A {p}"
      using False tr by (auto simp: mlfqunlock_def intro!: placed_upd_transit)
    then have "placed_ex (mlfqunlock p (m s)) A ({p} - {p})"
      by (rule placed_from_transit) (use p False in \<open>simp add: mlfqunlock_def\<close>)
    then show ?thesis by simp
  qed
  then have "succeeds (bindE (on_m (\<lambda>x. Inr (mlfqunlock p x)) (acquired c s)) (plock_release c))
    (\<lambda>t. kinv t \<and> runs t = runs s \<and> env t = env s \<and> (Inr (mlfqunlock p (m s)) :: kerr + mlfq_st) = Inr (m t))"
    by (intro keep_running [where body = "\<lambda>x. Inr (mlfqunlock p x)", OF inv])
      (use gt in \<open>auto simp: mlfqunlock_def\<close>)
  then show "succeeds (schedulerUnlock K c password s) (\<lambda>t. kinv t \<and> runs t = runs s \<and> m t = mlfqunlock p (m s))"
    using run by (auto simp: schedulerUnlock_def cur_def plock_acquire_kinv(1) [OF inv] on_m_def elim!: succeeds_mono)
qed

lemma alloc_locked_kinv:
  assumes inv: "kinv s"
  shows "succeeds (alloc_locked c s)
    (\<lambda>(r, t). kinv t \<and> runs t = runs s \<and> env t = env s \<and> alloc_slot (m s) = (r, m t))"
proof -
  obtain A where A: "placed (m s) A" using inv by (auto simp: kinv_def)
  have gt: "0 \<le> global_ticks (m s)" "global_ticks (m s) < 100" using inv by (auto simp: kinv_def)
  obtain r m1 where al: "alloc_slot (m s) = (r, m1)" by fastforce
  have ok: "(\<exists>A. placed m1 A) \<and> 0 \<le> global_ticks m1 \<and> global_ticks m1 < 100 \<and>
       (\<forall>i < NPROC. state (procs m1 i) = RUNNING \<longleftrightarrow> state (procs (m s) i) = RUNNING)"
  proof (cases r)
    case None
    with alloc_slot_placed [OF A] al have "placed m1 A" and sd: "same_data (m s) m1" by auto
    with gt show ?thesis by (auto simp: same_data_fields [OF sd])
  next
    case (Some p)
    with alloc_slot_placed [OF A] al obtain ps where q: "A UNUSEDQ = p # ps" and "placed m1 (A(UNUSEDQ := ps))"
      and sd: "same_data (upd_proc p (fresh_proc (nextpid (m s))) ((m s)\<lparr>nextpid := nextpid (m s) + 1\<rparr>)) m1"
      by auto
    moreover have "state (procs (m s) p) = UNUSED" using placed_fits [OF A, of p UNUSEDQ] q by simp
    ultimately show ?thesis
      using gt by (auto simp: same_data_fields [OF sd] fresh_proc_def setproc_default_def split: if_splits)
  qed
  have "succeeds (bindE (on_m (\<lambda>_. Inr m1) (acquired c s)) (plock_release c))
    (\<lambda>t. kinv t \<and> runs t = runs s \<and> env t = env s \<and> (Inr m1 :: kerr + mlfq_st) = Inr (m t))"
    by (rule keep_running [where body = "\<lambda>_. Inr m1", OF inv]) (use ok in simp)
  with al show ?thesis
    by (auto simp: alloc_locked_def plock_acquire_kinv(1) [OF inv] on_m_def elim!: succeedsE)
qed

lemma embryo_body:
  assumes inv: "kinv s" and p: "p < NPROC" "state (procs (m s) p) = EMBRYO"
    and f: "f = make_runnable \<or> f = free_slot"
  shows "succeeds (f p (m s)) (\<lambda>t. (\<exists>A. placed t A) \<and> 0 \<le> global_ticks t \<and> global_ticks t < 100 \<and>
       (\<forall>i < NPROC. state (procs t i) = RUNNING \<longleftrightarrow> state (procs (m s) i) = RUNNING))"
proof -
  obtain A where A: "placed (m s) A" using inv by (auto simp: kinv_def)
  have gt: "0 \<le> global_ticks (m s)" "global_ticks (m s) < 100" using inv by (auto simp: kinv_def)
  have nq: "\<not> queued_state (state (procs (m s) p))" using p by simp
  from f show ?thesis
  proof
    assume "f = make_runnable"
    with succeeds_mono [OF make_runnable_placed [OF A p(1) nq]] gt p show ?thesis
      by (auto simp: same_data_fields split: if_splits elim!: succeeds_mono
          intro!: succeeds_mono [OF make_runnable_placed [OF A p(1) nq]])
  next
    assume "f = free_slot"
    with gt p show ?thesis
      by (auto simp: same_data_fields split: if_splits
          intro!: succeeds_mono [OF free_slot_placed [OF A p(1) nq]])
  qed
qed

lemma publish_kinv:
  assumes inv: "kinv s" and p: "p < NPROC" "state (procs (m s) p) = EMBRYO"
  shows "succeeds (publish c p s) (\<lambda>t. kinv t \<and> runs t = runs s \<and> env t = env s \<and> make_runnable p (m s) = Inr (m t))"
  using keep_running [where body = "make_runnable p", OF inv embryo_body [OF inv p disjI1 [OF refl]], of c]
  by (simp add: publish_def plock_acquire_kinv(1) [OF inv])

lemma discard_kinv:
  assumes inv: "kinv s" and p: "p < NPROC" "state (procs (m s) p) = EMBRYO"
  shows "succeeds (on_m (free_slot p) s) (\<lambda>t. kinv t \<and> runs t = runs s)"
proof -
  obtain m1 where m1: "free_slot p (m s) = Inr m1" "\<exists>A. placed m1 A" "0 \<le> global_ticks m1" "global_ticks m1 < 100"
    and st: "\<forall>i < NPROC. state (procs m1 i) = RUNNING \<longleftrightarrow> state (procs (m s) i) = RUNNING"
    using embryo_body [OF inv p disjI2 [OF refl]] by (rule succeedsE) blast
  have "runs_ok m1 (runs s)" using inv st by (auto simp: kinv_def intro: runs_ok_cong)
  with inv m1 show ?thesis by (auto simp: on_m_def kinv_def)
qed

definition inert :: "(proc \<Rightarrow> proc) \<Rightarrow> proc \<Rightarrow> bool" where
  "inert f pr \<longleftrightarrow> prev_p (f pr) = prev_p pr \<and> next_p (f pr) = next_p pr \<and> state (f pr) = state pr \<and>
     queuelevel (f pr) = queuelevel pr \<and> priority (f pr) = priority pr"

lemma private_kinv:
  assumes inv: "kinv s" and f: "inert f (procs (m s) p)"
  shows "kinv (upd_p p f s)"
proof -
  obtain A where A: "placed (m s) A" using inv by (auto simp: kinv_def)
  have "placed (upd_proc p f (m s)) A"
    using f by (intro placed_upd_inert [OF A]) (auto simp: inert_def)
  moreover have "runs_ok (upd_proc p f (m s)) (runs s)"
    by (rule runs_ok_cong [of "m s"]) (use inv f in \<open>auto simp: kinv_def inert_def\<close>)
  ultimately show ?thesis using inv by (auto simp: kinv_def upd_p_def)
qed

lemma exit_tail_kinv:
  assumes inv: "kinv s" and run: "runs s c = Some p" and ini: "initproc (m s) \<noteq> Some p"
  shows "succeeds (exit_tail c p s)
    (\<lambda>t. kinv t \<and> runs t = (runs s)(c := None) \<and>
       (\<exists>m1. exit_locked p (m s) = Inr m1 \<and> sched_return m1 = Inr (m t)))"
proof -
  obtain A where A: "placed (m s) A" using inv by (auto simp: kinv_def)
  have p: "p < NPROC" "state (procs (m s) p) = RUNNING" using kinv_runs [OF inv run] by auto
  have "succeeds (exit_locked p (m s)) (\<lambda>t. (\<exists>A. placed t A) \<and>
       global_ticks t \<in> {global_ticks (m s), global_ticks (m s) + 1} \<and>
       (\<forall>i < NPROC. state (procs t i) = RUNNING \<longleftrightarrow> state (procs (m s) i) = RUNNING \<and> i \<noteq> p))"
  proof (rule succeeds_mono [OF exit_locked_placed [OF A p(2,1) ini]], elim conjE, intro conjI)
    fix t
    assume gt: "global_ticks t = global_ticks (m s)" and z: "state (procs t p) = ZOMBIE"
      and st: "\<forall>i. i \<noteq> p \<longrightarrow> state (procs t i) = state (procs (m s) i) \<or>
          state (procs (m s) i) = SLEEPING \<and> state (procs t i) = RUNNABLE"
    show "global_ticks t \<in> {global_ticks (m s), global_ticks (m s) + 1}" using gt by simp
    have "state (procs t i) = RUNNING \<longleftrightarrow> state (procs (m s) i) = RUNNING \<and> i \<noteq> p" for i
    proof (cases "i = p")
      case False
      with st have "state (procs t i) = state (procs (m s) i) \<or>
          state (procs (m s) i) = SLEEPING \<and> state (procs t i) = RUNNABLE" by blast
      with False show ?thesis by auto
    qed (use z in simp)
    then show "\<forall>i < NPROC. state (procs t i) = RUNNING \<longleftrightarrow> state (procs (m s) i) = RUNNING \<and> i \<noteq> p"
      by blast
  qed
  from stop_running [where body = "exit_locked p" and e = "env s", OF inv run this]
  have "succeeds (bindE (on_m (exit_locked p) (acquired c s)) (enter_scheduler c p))
    (\<lambda>t. kinv t \<and> runs t = (runs s)(c := None) \<and> env t = env s \<and>
       (\<exists>m1. exit_locked p (m s) = Inr m1 \<and> sched_return m1 = Inr (m t)))"
    by (simp add: acquired_def)
  then show ?thesis
    by (auto simp: exit_tail_def plock_acquire_kinv(1) [OF inv] elim!: succeeds_mono)
qed

text \<open>\<^verbatim>\<open>wait\<close>: the scan, and giving a zombie's slot back.\<close>

lemma wait_scan_some:
  "wait_scan s p is hk = (h, Some i) \<Longrightarrow>
     i \<in> set is \<and> parent (procs s i) = Some p \<and> state (procs s i) = ZOMBIE"
  by (induction "is" arbitrary: hk) (auto split: if_splits)

lemma wait_scan_none:
  "wait_scan s p is hk = (h, None) \<Longrightarrow>
     (\<forall>i \<in> set is. parent (procs s i) = Some p \<longrightarrow> state (procs s i) \<noteq> ZOMBIE) \<and>
     (h \<longleftrightarrow> hk \<or> (\<exists>i \<in> set is. parent (procs s i) = Some p))"
  by (induction "is" arbitrary: hk) (auto split: if_splits)

definition reaped :: "proc \<Rightarrow> proc" where
  "reaped pr = setproc_default (pr\<lparr>kstack := 0, pid := 0, parent := None, name := [],
                    killed := False, state := UNUSED\<rparr>)"

lemma reap_m:
  assumes "op_kfree K (kstack (procs (m s) i)) (env s) = Inr e1"
    and "op_freevm K (pgdir (procs (m s) i)) e1 = Inr e2"
  shows "reap K i s = bindE (on_m (\<lambda>x. q_insert UNUSEDQ i None (upd_proc i reaped x)) (s\<lparr>env := e2\<rparr>))
    (\<lambda>s2. Inr (pid (procs (m s) i), s2))"
  using assms by (simp add: reap_def Let_def on_m_def upd_p_def reaped_def [abs_def])

lemma reap_body:
  assumes inv: "kinv s" and i: "i < NPROC" "state (procs (m s) i) = ZOMBIE"
  shows "succeeds (q_insert UNUSEDQ i None (upd_proc i reaped (m s)))
    (\<lambda>t. (\<exists>A. placed t A) \<and> 0 \<le> global_ticks t \<and> global_ticks t < 100 \<and>
       (\<forall>j < NPROC. state (procs t j) = RUNNING \<longleftrightarrow> state (procs (m s) j) = RUNNING))"
proof -
  obtain A where A: "placed (m s) A" using inv by (auto simp: kinv_def)
  have gt: "0 \<le> global_ticks (m s)" "global_ticks (m s) < 100" using inv by (auto simp: kinv_def)
  have "succeeds (q_insert UNUSEDQ i None (upd_proc i reaped (m s)))
    (\<lambda>t. placed t (A(UNUSEDQ := insert_before (A UNUSEDQ) i None)) \<and> same_data (upd_proc i reaped (m s)) t)"
    by (rule enter_queue [OF A i(1)]) (use i in \<open>simp_all add: reaped_def setproc_default_def\<close>)
  then show ?thesis
    by (rule succeeds_mono) (use gt i in \<open>auto simp: same_data_fields reaped_def setproc_default_def split: if_splits\<close>)
qed

lemma wait_pass_kinv:
  assumes inv: "kinv s" and run: "runs s c = Some p" and w: "wait_pass K c s = Inr (r, t)"
  shows "kinv t \<and> runs t = (if r = WaitSleep then (runs s)(c := None) else runs s)"
proof -
  note acq = plock_acquire_kinv [OF inv, of c]
  obtain hk z where sc: "wait_scan (m s) p [0..<NPROC] False = (hk, z)" by fastforce
  show ?thesis
  proof (cases z)
    case (Some i)
    have i: "i < NPROC" "state (procs (m s) i) = ZOMBIE"
      using wait_scan_some [of "m s" p "[0..<NPROC]" False hk i] sc Some by auto
    have "\<exists>n s2. reap K i (acquired c s) = Inr (n, s2) \<and> plock_release c s2 = Inr t \<and> r = Reaped n"
      using w run acq(1) sc Some by (auto simp: wait_pass_def cur_def bindE_Inr_iff)
    then obtain n s2 where rp: "reap K i (acquired c s) = Inr (n, s2)"
      and rl: "plock_release c s2 = Inr t" and r: "r = Reaped n" by blast
    obtain e1 e2 where e: "op_kfree K (kstack (procs (m s) i)) (env s) = Inr e1"
      "op_freevm K (pgdir (procs (m s) i)) e1 = Inr e2"
      using rp by (auto simp: reap_def Let_def bindE_Inr_iff)
    let ?body = "\<lambda>x. q_insert UNUSEDQ i None (upd_proc i reaped x)"
    have "bindE (on_m ?body (acquired c (s\<lparr>env := e2\<rparr>))) (\<lambda>u. Inr (pid (procs (m s) i), u)) = Inr (n, s2)"
      using reap_m [of K "acquired c s" i e1 e2] e rp by (simp add: acquired_env)
    with rl have "bindE (on_m ?body (acquired c (s\<lparr>env := e2\<rparr>))) (plock_release c) = Inr t"
      by (auto simp: bindE_Inr_iff)
    moreover have "succeeds (bindE (on_m ?body (acquired c (s\<lparr>env := e2\<rparr>))) (plock_release c))
      (\<lambda>t. kinv t \<and> runs t = runs (s\<lparr>env := e2\<rparr>) \<and> env t = env (s\<lparr>env := e2\<rparr>) \<and> ?body (m (s\<lparr>env := e2\<rparr>)) = Inr (m t))"
      by (rule keep_running [where body = ?body]) (use inv reap_body [OF inv i] in simp_all)
    ultimately show ?thesis using r by simp
  next
    case None
    show ?thesis
    proof (cases "\<not> hk \<or> killed (procs (m s) p)")
      case True
      then have "plock_release c (acquired c s) = Inr t" "r = NoChild"
        using w run acq(1) sc None by (auto simp: wait_pass_def cur_def bindE_Inr_iff)
      moreover have "succeeds (plock_release c (acquired c s)) (\<lambda>t. kinv t \<and> m t = m (acquired c s) \<and>
          env t = env (acquired c s) \<and> runs t = runs (acquired c s))"
        by (rule plock_release_cs [OF acq(2)]) (use inv in \<open>simp_all add: kinv_def\<close>)
      ultimately show ?thesis by simp
    next
      case False
      then have "bindE (on_m (sleep_enq p (ProcChan p)) (acquired c s)) (enter_scheduler c p) = Inr t"
        "r = WaitSleep"
        using w run acq(1) sc None by (auto simp: wait_pass_def cur_def bindE_Inr_iff)
      moreover have "bindE (on_m (sleep_enq p (ProcChan p)) (acquired c s)) (enter_scheduler c p)
          = sleep c (ProcChan p) (\<lambda>e. e) s"
        using run acq(1) by (simp add: sleep_def)
      ultimately show ?thesis using sleep_kinv [OF inv run, of "ProcChan p" "\<lambda>e. e"] by auto
    qed
  qed
qed

section \<open>Interleavings of the handlers\<close>

text \<open>
  The steps of the machine between which \<^verbatim>\<open>ptable.lock\<close> is free: an idle processor
  dispatches, or a processor runs one locked section of a system call or of the timer
  interrupt. Code outside the lock that writes a process slot (\<^verbatim>\<open>fork\<close> filling in the
  embryo, \<^verbatim>\<open>growproc\<close>, \<^verbatim>\<open>exit\<close> closing files) or the rest of the kernel is its own
  step. \<^verbatim>\<open>setPriority\<close> is restricted to calls whose target is in the queue of its level,
  which \<open>setPrioity_placed\<close> shows to be what the code needs.
\<close>

inductive kstep :: "'e kops \<Rightarrow> 'e mkst \<Rightarrow> 'e mkst \<Rightarrow> bool" for K :: "'e kops" where
  dispatch: "runs s c = None \<Longrightarrow> dispatch c s = Inr (r, t) \<Longrightarrow> kstep K s t"
| yield: "runs s c = Some p \<Longrightarrow> yield c s = Inr t \<Longrightarrow> kstep K s t"
| sleep: "runs s c = Some p \<Longrightarrow> sleep c ch rel s = Inr t \<Longrightarrow> kstep K s t"
| wakeup: "wakeup c ch s = Inr t \<Longrightarrow> kstep K s t"
| kill: "kill_call c n s = Inr (r, t) \<Longrightarrow> kstep K s t"
| set_priority: "placed (m s) A \<Longrightarrow>
    (\<And>p. find (\<lambda>p. pid (procs (m s) p) = n) (rev [0..<NPROC]) = Some p \<Longrightarrow> \<not> misplaced (m s) A p) \<Longrightarrow>
    set_priority_call c n v s = Inr t \<Longrightarrow> kstep K s t"
| alloc: "alloc_locked c s = Inr (r, t) \<Longrightarrow> kstep K s t"
| own_slot: "inert f (procs (m s) p) \<Longrightarrow> kstep K s (upd_p p f s)"
| publish: "p < NPROC \<Longrightarrow> state (procs (m s) p) = EMBRYO \<Longrightarrow> publish c p s = Inr t \<Longrightarrow> kstep K s t"
| discard: "p < NPROC \<Longrightarrow> state (procs (m s) p) = EMBRYO \<Longrightarrow> on_m (free_slot p) s = Inr t \<Longrightarrow> kstep K s t"
| exit: "runs s c = Some p \<Longrightarrow> initproc (m s) \<noteq> Some p \<Longrightarrow> exit_tail c p s = Inr t \<Longrightarrow> kstep K s t"
| wait: "runs s c = Some p \<Longrightarrow> wait_pass K c s = Inr (r, t) \<Longrightarrow> kstep K s t"
| lock: "runs s c = Some p \<Longrightarrow> schedulerLock K c password s = Inr t \<Longrightarrow> kstep K s t"
| unlock: "runs s c = Some p \<Longrightarrow> schedulerUnlock K c password s = Inr t \<Longrightarrow> kstep K s t"
| environment: "kstep K s (s\<lparr>env := e\<rparr>)"

lemma kstep_kinv: "kstep K s t \<Longrightarrow> kinv s \<Longrightarrow> kinv t"
proof (induction rule: kstep.induct)
  case (dispatch s c r t)
  with dispatch_kinv [of s c] show ?case by simp
next
  case (yield s c p t)
  with yield_kinv [of s c p] show ?case by simp
next
  case (sleep s c p ch rel t)
  with sleep_kinv [of s c p ch rel] show ?case by simp
next
  case (wakeup c ch s t)
  with wakeup_kinv [of s c ch] show ?case by simp
next
  case (kill c n s r t)
  with kill_kinv [of s c n] show ?case by simp
next
  case (set_priority s A n c v t)
  with set_priority_kinv [of s A n c v] show ?case by simp
next
  case (alloc c s r t)
  with alloc_locked_kinv [of s c] show ?case by simp
next
  case (own_slot f s p)
  then show ?case by (simp add: private_kinv)
next
  case (publish p s c t)
  with publish_kinv [of s p c] show ?case by simp
next
  case (discard p s t)
  with discard_kinv [of s p] show ?case by simp
next
  case (exit s c p t)
  with exit_tail_kinv [of s c p] show ?case by simp
next
  case (wait s c p r t)
  with wait_pass_kinv [of s c p K r t] show ?case by simp
next
  case (lock s c p t)
  with schedulerLock_kinv(1) [of s c p K] show ?case by simp
next
  case (unlock s c p t)
  with schedulerLock_kinv(2) [of s c p K] show ?case by simp
qed simp

inductive kreach :: "'e kops \<Rightarrow> 'e mkst \<Rightarrow> 'e mkst \<Rightarrow> bool" for K :: "'e kops" and s0 :: "'e mkst" where
  start: "kreach K s0 s0"
| step: "kreach K s0 s \<Longrightarrow> kstep K s t \<Longrightarrow> kreach K s0 t"

lemma kreach_kinv: "kreach K s0 s \<Longrightarrow> kinv s0 \<Longrightarrow> kinv s"
  by (induction rule: kreach.induct) (auto intro: kstep_kinv)

text \<open>The machine after \<^verbatim>\<open>pinit\<close>: no processor has a process, interrupts as \<open>fl\<close> says.\<close>

definition booted :: "mlfq_st \<Rightarrow> (nat \<Rightarrow> bool) \<Rightarrow> 'e \<Rightarrow> 'e mkst" where
  "booted pm fl e = \<lparr>m = pm, cpus = (\<lambda>c. \<lparr>ncli = 0, intena = False, iflag = fl c, cpu_proc = None\<rparr>),
     plock = initlock, saved_intena = (\<lambda>_. False), env = e\<rparr>"

lemma booted_kinv:
  assumes "pinit boot_mlfq = Inr pm"
  shows "kinv (booted pm fl e)"
proof -
  have p: "placed pm ((\<lambda>_. [])(UNUSEDQ := [0..<NPROC])) \<and> lockproc pm = None \<and> unlockproc pm = None \<and>
      global_ticks pm = 0"
    using pinit_placed [of boot_mlfq] assms by (simp add: boot_mlfq_def zero_proc_def)
  then have A: "placed pm ((\<lambda>_. [])(UNUSEDQ := [0..<NPROC]))" by blast
  have "state (procs pm i) = UNUSED" if "i < NPROC" for i
    using placed_fits [OF A, of i UNUSEDQ] that by simp
  moreover have "global_ticks pm = 0"
    using p by blast
  ultimately show ?thesis
    using A by (auto simp: kinv_def booted_def runs_ok_def initlock_def cpu_ok_def)
qed

end
