(* ===== verification/MlfqProps.thy ===== *)
theory MlfqProps
  imports MlfqInv
begin

text \<open>
  The properties of the MLFQ kernel, with a concrete machine state on which each of them is
  applied: \<open>demo\<close> has a running process (slot 0), one runnable process on level 0 (slot 1), a
  sleeper of level 1 (slot 2) and two runnable processes on level 2 (slots 3 and 4, priorities
  1 and 2); slot 5 is free and the remaining slots are zombies.
\<close>

section \<open>A concrete state\<close>

definition demo_proc :: "nat \<Rightarrow> proc" where
  "demo_proc i =
    (if i = 0 then zero_proc\<lparr>state := RUNNING, pid := 1, priority := 3, ticks := 3\<rparr>
     else if i = 1 then zero_proc\<lparr>state := RUNNABLE, pid := 2, priority := 3\<rparr>
     else if i = 2 then zero_proc\<lparr>state := SLEEPING, pid := 3, chan := TicksChan, priority := 3, queuelevel := 1\<rparr>
     else if i = 3 then zero_proc\<lparr>state := RUNNABLE, pid := 4, priority := 1, queuelevel := 2, next_p := Some 4\<rparr>
     else if i = 4 then zero_proc\<lparr>state := RUNNABLE, pid := 5, priority := 2, queuelevel := 2, prev_p := Some 3\<rparr>
     else if i = 5 then zero_proc
     else zero_proc\<lparr>state := ZOMBIE, pid := 100 + int i, parent := Some 1\<rparr>)"

definition demo_queues :: "qid \<Rightarrow> nat list" where
  "demo_queues k = (case k of L0 \<Rightarrow> [1] | L1 \<Rightarrow> [] | L2 \<Rightarrow> [3, 4] | SLEEPQ \<Rightarrow> [2] | UNUSEDQ \<Rightarrow> [5])"

definition demo :: mlfq_st where
  "demo = \<lparr>procs = demo_proc,
     queues = (\<lambda>k. \<lparr>head = first_or (demo_queues k) None, tail = last_or None (demo_queues k),
                      count = int (length (demo_queues k))\<rparr>),
     global_ticks = 40, lockproc = None, unlockproc = None, initproc = Some 1, nextpid = 6\<rparr>"

lemma demo_procs [simp]: "procs demo = demo_proc"
  by (simp add: demo_def)

lemma demo_fields [simp]:
  "state (demo_proc i) = (if i = 0 then RUNNING else if i = 1 \<or> i = 3 \<or> i = 4 then RUNNABLE
     else if i = 2 then SLEEPING else if i = 5 then UNUSED else ZOMBIE)"
  "queuelevel (demo_proc i) = (if i = 2 then 1 else if i = 3 \<or> i = 4 then 2 else 0)"
  "priority (demo_proc i) = (if i < 3 then 3 else if i = 3 then 1 else if i = 4 then 2 else 0)"
  "pid (demo_proc i) = (if i < 5 then int i + 1 else if i = 5 then 0 else 100 + int i)"
  "prev_p (demo_proc i) = (if i = 4 then Some 3 else None)"
  "next_p (demo_proc i) = (if i = 3 then Some 4 else None)"
  "ticks (demo_proc i) = (if i = 0 then 3 else 0)"
  "chan (demo_proc i) = (if i = 2 then TicksChan else NullChan)"
  "parent (demo_proc i) = (if i \<le> 5 then None else Some 1)"
  by (auto simp: demo_proc_def zero_proc_def)

lemma demo_vars [simp]:
  "global_ticks demo = 40" "lockproc demo = None" "unlockproc demo = None" "initproc demo = Some 1"
  by (simp_all add: demo_def)

lemma demo_lists [simp]:
  "demo_queues L0 = [1]" "demo_queues L1 = []" "demo_queues L2 = [3, 4]" "demo_queues SLEEPQ = [2]"
  "demo_queues UNUSEDQ = [5]"
  by (simp_all add: demo_queues_def)

lemma all_qid: "(\<forall>k. P k) \<longleftrightarrow> P L0 \<and> P L1 \<and> P L2 \<and> P SLEEPQ \<and> P UNUSEDQ"
  by (metis qid.exhaust)

lemma demo_placed: "placed demo demo_queues"
proof -
  have "family rep (procs demo) (queues demo) demo_queues"
    by (simp add: family_def all_qid) (simp add: rep_def demo_def initqueue_def)
  moreover have "\<forall>p < NPROC. queued_state (state (demo_proc p)) \<longrightarrow> (\<exists>k. p \<in> set (demo_queues k))"
  proof (intro allI impI)
    fix p assume "queued_state (state (demo_proc p))"
    then have "p \<in> set (demo_queues L0) \<or> p \<in> set (demo_queues L2) \<or> p \<in> set (demo_queues SLEEPQ) \<or>
        p \<in> set (demo_queues UNUSEDQ)"
      by (auto split: if_splits)
    then show "\<exists>k. p \<in> set (demo_queues k)" by blast
  qed
  ultimately show ?thesis by (auto simp: placed_ex_def all_qid NPROC_def)
qed

text \<open>The same with the counters and the lock set for a particular case.\<close>

lemma demo_placed_with [simp]:
  "placed (demo\<lparr>lockproc := x\<rparr>) demo_queues" "placed (demo\<lparr>global_ticks := n\<rparr>) demo_queues"
  using demo_placed by simp_all

section \<open>The queues\<close>

text \<open>C12. The pointer code of \<^verbatim>\<open>insert\<close> refines insertion into a list: on a queue that holds
  \<open>xs\<close> it puts the new process in front of \<open>base\<close> (at the end for a null \<open>base\<close>), keeps
  both link directions and the count right, and changes no other process.\<close>

theorem insert_refines:
  assumes "rep h q xs" and "new \<notin> set xs" and "base = None \<or> base \<in> Some ` set xs"
  shows "succeeds (insert_q h q new base)
    (\<lambda>(h', q'). rep h' q' (insert_before xs new base) \<and> (\<forall>i. data_of (h' i) = data_of (h i)) \<and>
       (\<forall>i. i \<notin> insert new (set xs) \<longrightarrow> h' i = h i))"
  using insert_q_refines [OF assms] by (auto simp: relinked_def elim!: succeeds_mono)

theorem insert_refines_witness:
  "rep demo_proc (queues demo L2) [3, 4] \<and>
   succeeds (insert_q demo_proc (queues demo L2) 0 (Some 4))
    (\<lambda>(h', q'). rep h' q' [3, 0, 4] \<and> h' 1 = demo_proc 1)"
proof -
  have r: "rep demo_proc (queues demo L2) [3, 4]"
    using familyD(1) [OF placed_family [OF demo_placed], of L2] by simp
  then show ?thesis
    using insert_refines [OF r, of 0 "Some 4"] by (auto simp: insert_before_def elim!: succeeds_mono)
qed

text \<open>\<^verbatim>\<open>delete\<close> removes a member of a queue from the list it holds, \<^verbatim>\<open>dequeue\<close>
  takes the first element, and \<^verbatim>\<open>merge_queue\<close> appends the second queue to the first and
  empties it; none of them loses an element or breaks a link.\<close>

lemma delete_dequeue_merge_refine:
  assumes "rep h q xs" and "rep h q2 ys" and "set xs \<inter> set ys = {}"
  shows "(case dequeue h q of (r, h', q') \<Rightarrow> r = first_or xs None \<and> rep h' q' (tl xs) \<and> rep h' q2 ys) \<and>
    (p \<in> set xs \<longrightarrow> (case delete_q h q p of (h', q') \<Rightarrow> rep h' q' (remove1 p xs) \<and> rep h' q2 ys)) \<and>
    succeeds (merge_queue h q q2) (\<lambda>(h', q1', q2'). rep h' q1' (xs @ ys) \<and> rep h' q2' [])"
proof (intro conjI impI)
  have other: "rep h' q2 ys" if "relinked h h' (set xs)" for h'
  proof -
    have "prev_p (h' x) = prev_p (h x) \<and> next_p (h' x) = next_p (h x)" if "x \<in> set ys" for x
      using \<open>relinked h h' (set xs)\<close> assms(3) that by (auto simp: relinked_def)
    then show ?thesis using rep_cong [of ys h' h q2] assms(2) by blast
  qed
  show "case dequeue h q of (r, h', q') \<Rightarrow> r = first_or xs None \<and> rep h' q' (tl xs) \<and> rep h' q2 ys"
    using dequeue_refines [OF assms(1)] other by auto
  show "case delete_q h q p of (h', q') \<Rightarrow> rep h' q' (remove1 p xs) \<and> rep h' q2 ys" if "p \<in> set xs"
    using delete_q_refines [OF assms(1) that] other by auto
  show "succeeds (merge_queue h q q2) (\<lambda>(h', q1', q2'). rep h' q1' (xs @ ys) \<and> rep h' q2' [])"
    using merge_queue_refines [OF assms] by (auto elim!: succeeds_mono)
qed

section \<open>Choosing the next process\<close>

text \<open>C8. \<^verbatim>\<open>scheduler\<close> takes the first process of the lowest non-empty level; a level-2
  process runs only when levels 0 and 1 are empty, and then none has a smaller priority value.
  It finds nothing exactly when no process is runnable.\<close>

theorem scheduler_choice:
  assumes "placed s A"
  shows "case sched_pick s of
      (None, t) \<Rightarrow> \<forall>p < NPROC. state (procs s p) \<noteq> RUNNABLE
    | (Some p, t) \<Rightarrow> p < NPROC \<and> state (procs s p) = RUNNABLE \<and> state (procs t p) = RUNNING \<and>
        run_order A = p # run_order (drop_first A) \<and> placed t (drop_first A) \<and>
        (p \<in> set (A L2) \<longrightarrow> A L0 = [] \<and> A L1 = [] \<and>
           (\<forall>q \<in> set (A L2). priority (procs s p) \<le> priority (procs s q)))"
proof -
  have mem: "p \<in> set (run_order A) \<longleftrightarrow> state (procs s p) = RUNNABLE" if "p < NPROC" for p
    using placed_in_queue [OF assms that] placed_fits [OF assms, of p] by (auto simp: run_order_def)
  obtain r t where pk: "sched_pick s = (r, t)" by fastforce
  show ?thesis
  proof (cases r)
    case None
    with sched_pick_placed [OF assms] pk have "run_order A = []" by simp
    with mem None pk show ?thesis by auto
  next
    case (Some p)
    with sched_pick_placed [OF assms] pk
    have ro: "run_order A = p # run_order (drop_first A)" and pt: "placed t (drop_first A)"
      and sd: "same_data (upd_proc p (\<lambda>pr. pr\<lparr>state := RUNNING\<rparr>) s) t" by auto
    have "p \<in> set (run_order A)" by (simp add: ro)
    then have p: "p < NPROC" using placed_slots [OF assms] by (auto simp: run_order_def)
    have "A L0 = [] \<and> A L1 = [] \<and> (\<forall>q \<in> set (A L2). priority (procs s p) \<le> priority (procs s q))"
      if "p \<in> set (A L2)"
    proof -
      have e: "A L0 = []" "A L1 = []"
        using ro that placed_unique [OF assms that, of L0] placed_unique [OF assms that, of L1]
        by (auto simp: run_order_def Cons_eq_append_conv append_eq_Cons_conv)
      then have "A L2 = p # run_order (drop_first A)" using ro by (simp add: run_order_def)
      with placed_sorted [OF assms] e show ?thesis by auto
    qed
    with Some pk ro pt p mem [OF p] show ?thesis by (auto simp: same_data_fields [OF sd])
  qed
qed

theorem scheduler_choice_witness:
  "fst (sched_pick demo) = Some 1 \<and> placed (snd (sched_pick demo)) (drop_first demo_queues)"
proof -
  have "\<not> (\<forall>p < NPROC. state (procs demo p) \<noteq> RUNNABLE)"
    by (auto simp: NPROC_def intro!: exI [of _ 1])
  then show ?thesis
    using scheduler_choice [OF demo_placed] by (auto simp: run_order_def split: option.splits prod.splits)
qed

section \<open>Giving up the processor\<close>



text \<open>While the scheduler lock is held and fewer than 100 ticks have passed since it was
  taken, the holder that gives up the processor is the process the next dispatch takes, and it
  still holds the lock.\<close>

lemma lock_holder_is_next:
  assumes pl: "placed s A" and p: "p < NPROC" "state (procs s p) = RUNNING"
    and lk: "lockproc s = Some p" and gt: "global_ticks s < 99"
  shows "succeeds (bindE (yield_enq p s) sched_return)
    (\<lambda>t. fst (sched_pick t) = Some p \<and> lockproc t = Some p \<and> placed t (A(L0 := p # A L0)))"
proof -
  have nq: "\<not> queued_state (state (procs s p))" using p by simp
  obtain t where t: "yield_enq p s = Inr t" "placed t (A(L0 := p # A L0))" and sd: "same_data (yielded p s) t"
    using yield_enq_placed [OF pl p(1) nq] lk by (auto simp: yielded_queues_def)
  have "global_ticks t \<noteq> 100" using gt by (simp add: same_data_fields [OF sd])
  then have r: "sched_return t = Inr t" by (simp add: sched_return_def)
  have "lockproc t = Some p" using lk by (simp add: same_data_fields [OF sd] yielded_def Let_def)
  moreover have "fst (sched_pick t) = Some p"
    using sched_pick_placed [OF t(2)] by (auto simp: run_order_def split: prod.splits option.splits)
  ultimately show ?thesis using t r by simp
qed



section \<open>Sleeping, waking and killing\<close>

text \<open>\<^verbatim>\<open>wakeup\<close> makes every process that sleeps on the channel runnable and no other: the
  woken ones leave the sleep queue and go, in the order in which they went to sleep, to the ends
  of levels 0 and 1 and by priority into level 2.\<close>

lemma wakeup_wakes_all_sleepers:
  assumes pl: "placed s A"
  shows "succeeds (wakeup1 c s) (\<lambda>t.
    (\<forall>p < NPROC. state (procs t p) =
       (if state (procs s p) = SLEEPING \<and> chan (procs s p) = c then RUNNABLE else state (procs s p))) \<and>
    (\<exists>B. placed t B \<and>
       (let W = filter (\<lambda>p. chan (procs s p) = c) (A SLEEPQ) in
          B SLEEPQ = filter (\<lambda>p. chan (procs s p) \<noteq> c) (A SLEEPQ) \<and> B UNUSEDQ = A UNUSEDQ \<and>
          B L0 = A L0 @ filter (\<lambda>p. queuelevel (procs s p) = 0) W \<and>
          B L1 = A L1 @ filter (\<lambda>p. queuelevel (procs s p) = 1) W \<and>
          B L2 = fold (insert_prio (\<lambda>p. priority (procs s p))) (filter (\<lambda>p. queuelevel (procs s p) = 2) W) (A L2))))"
proof -
  let ?W = "sleepers s c (A SLEEPQ)" and ?B = "woken (procs s) (sleepers s c (A SLEEPQ)) A"
  have lev: "\<forall>p \<in> set ?W. valid_level (queuelevel (procs s p))"
    using placed_level [OF pl] placed_slots [OF pl] by (auto simp: sleepers_def)
  have mem: "p \<in> set ?W \<longleftrightarrow> state (procs s p) = SLEEPING \<and> chan (procs s p) = c" if "p < NPROC" for p
    using placed_in_queue(2) [OF pl that] by (auto simp: sleepers_def)
  have sl: "?B SLEEPQ = filter (\<lambda>p. chan (procs s p) \<noteq> c) (A SLEEPQ)"
    using fold_remove1_filter [OF placed_distinct [OF pl]] by (simp add: woken_SLEEPQ sleepers_def)
  show ?thesis
  proof (rule succeeds_mono [OF wakeup1_placed [OF pl]], elim conjE, intro conjI)
    fix t
    assume pt: "placed t ?B" and sd: "same_data (wake_procs (set ?W) s) t"
    show "\<forall>p < NPROC. state (procs t p) =
       (if state (procs s p) = SLEEPING \<and> chan (procs s p) = c then RUNNABLE else state (procs s p))"
      using mem by (simp add: same_data_fields [OF sd])
    show "\<exists>B. placed t B \<and>
       (let W = filter (\<lambda>p. chan (procs s p) = c) (A SLEEPQ) in
          B SLEEPQ = filter (\<lambda>p. chan (procs s p) \<noteq> c) (A SLEEPQ) \<and> B UNUSEDQ = A UNUSEDQ \<and>
          B L0 = A L0 @ filter (\<lambda>p. queuelevel (procs s p) = 0) W \<and>
          B L1 = A L1 @ filter (\<lambda>p. queuelevel (procs s p) = 1) W \<and>
          B L2 = fold (insert_prio (\<lambda>p. priority (procs s p))) (filter (\<lambda>p. queuelevel (procs s p) = 2) W) (A L2))"
      by (rule exI [of _ ?B], intro conjI, rule pt)
        (simp add: Let_def sl woken_L0 woken_L1 woken_UNUSEDQ woken_L2 [OF lev], simp add: sleepers_def)
  qed
qed



text \<open>\<^verbatim>\<open>kill\<close> returns 0 exactly when some slot has the pid; then the first such process is
  marked, leaves the sleep queue if it slept and becomes runnable, and no other process
  changes state. Otherwise it returns -1 and changes nothing.\<close>

lemma kill_marks_first:
  assumes pl: "placed s A"
  shows "succeeds (kill n s) (\<lambda>(r, t).
    if \<exists>p < NPROC. pid (procs s p) = n then
      r = 0 \<and> (\<exists>B. placed t B) \<and>
      (\<exists>p < NPROC. pid (procs s p) = n \<and> (\<forall>i < p. pid (procs s i) \<noteq> n) \<and> killed (procs t p) \<and>
         state (procs t p) = (if state (procs s p) = SLEEPING then RUNNABLE else state (procs s p)) \<and>
         (\<forall>i. i \<noteq> p \<longrightarrow> state (procs t i) = state (procs s i) \<and> killed (procs t i) = killed (procs s i)))
    else r = -1 \<and> t = s)"
proof (rule succeeds_mono [OF kill_placed [OF pl, of n]], clarify)
  fix r t
  assume h: "case find (\<lambda>p. pid (procs s p) = n) [0..<NPROC] of
       None \<Rightarrow> r = -1 \<and> t = s
     | Some p \<Rightarrow> r = 0 \<and> same_data (upd_proc p kill_mark s) t \<and>
         placed t (if state (procs s p) = SLEEPING
                   then enqueued (procs s) p (A(SLEEPQ := remove1 p (A SLEEPQ))) else A)"
  show "if \<exists>p < NPROC. pid (procs s p) = n then
      r = 0 \<and> (\<exists>B. placed t B) \<and>
      (\<exists>p < NPROC. pid (procs s p) = n \<and> (\<forall>i < p. pid (procs s i) \<noteq> n) \<and> killed (procs t p) \<and>
         state (procs t p) = (if state (procs s p) = SLEEPING then RUNNABLE else state (procs s p)) \<and>
         (\<forall>i. i \<noteq> p \<longrightarrow> state (procs t i) = state (procs s i) \<and> killed (procs t i) = killed (procs s i)))
    else r = -1 \<and> t = s"
  proof (cases "find (\<lambda>p. pid (procs s p) = n) [0..<NPROC]")
    case None
    with h show ?thesis by (auto simp: find_None_iff)
  next
    case (Some p)
    then obtain "p < NPROC" "pid (procs s p) = n" "\<forall>i < p. pid (procs s i) \<noteq> n"
      by (auto simp: find_Some_iff)
    moreover have sd: "same_data (upd_proc p kill_mark s) t" "r = 0" "\<exists>B. placed t B" using h Some by auto
    ultimately show ?thesis
      by (auto simp: same_data_fields [OF sd(1)] kill_mark_def intro!: exI [of _ p])
  qed
qed

section \<open>Changing a priority\<close>

text \<open>\<^verbatim>\<open>setPriority\<close> on a process that is in the queue of its level: the priority is set,
  a level-2 process moves to its new place in the sorted level-2 queue, behind the processes of
  equal priority, and nothing else changes.\<close>

lemma setPriority_moves_process:
  assumes pl: "placed s A" and uniq: "p < NPROC" "pid (procs s p) = n" "\<forall>i < NPROC. pid (procs s i) = n \<longrightarrow> i = p"
    and st: "state (procs s p) \<noteq> UNUSED" and lev: "queuelevel (procs s p) = 2 \<longrightarrow> p \<notin> set (A L0)"
  shows "succeeds (setPrioity_arrangeQueue n v s) (\<lambda>t.
    priority (procs t p) = v \<and> (\<forall>i. i \<noteq> p \<longrightarrow> priority (procs t i) = priority (procs s i)) \<and>
    (\<forall>i. state (procs t i) = state (procs s i) \<and> queuelevel (procs t i) = queuelevel (procs s i)) \<and>
    placed t (if p \<in> set (A L2) then A(L2 := insert_prio (\<lambda>x. priority (procs t x)) p (remove1 p (A L2))) else A))"
proof -
  have "find (\<lambda>i. pid (procs s i) = n) (rev [0..<NPROC]) = Some p"
    by (rule find_rev_upt_unique) (use uniq in blast)+
  moreover have "\<not> misplaced s A p" using lev by (simp add: misplaced_def)
  ultimately show ?thesis
  proof (rule succeeds_mono [OF setPrioity_placed [OF pl _ st]], elim conjE)
    fix t
    let ?u = "upd_proc p (\<lambda>pr. pr\<lparr>priority := v\<rparr>) s"
    assume sd: "same_data ?u t" and pt: "placed t (if p \<in> set (A L2)
        then A(L2 := insert_prio (\<lambda>x. priority (procs ?u x)) p (remove1 p (A L2))) else A)"
    have pr: "(\<lambda>x. priority (procs t x)) = (\<lambda>x. priority (procs ?u x))"
      by (simp only: same_data_fields [OF sd])
    show "priority (procs t p) = v \<and> (\<forall>i. i \<noteq> p \<longrightarrow> priority (procs t i) = priority (procs s i)) \<and>
      (\<forall>i. state (procs t i) = state (procs s i) \<and> queuelevel (procs t i) = queuelevel (procs s i)) \<and>
      placed t (if p \<in> set (A L2) then A(L2 := insert_prio (\<lambda>x. priority (procs t x)) p (remove1 p (A L2))) else A)"
      unfolding pr using pt by (simp add: same_data_fields [OF sd])
  qed
qed

text \<open>A machine with two processors: the process of slot 0 is on level 2 and holds the scheduler
  lock, the process of slot 1 runs on the other processor.\<close>

definition two_cpu_demo :: mlfq_st where
  "two_cpu_demo = \<lparr>procs = (\<lambda>i. if i = 0 then zero_proc\<lparr>state := RUNNING, pid := 1, priority := 3, queuelevel := 2\<rparr>
       else if i = 1 then zero_proc\<lparr>state := RUNNING, pid := 2, priority := 3\<rparr> else zero_proc\<lparr>state := ZOMBIE\<rparr>),
     queues = (\<lambda>_. initqueue), global_ticks = 40, lockproc = Some 0, unlockproc = None, initproc = None, nextpid = 3\<rparr>"


section \<open>Ending a process\<close>

text \<open>\<^verbatim>\<open>exit\<close> of a running process other than \<^verbatim>\<open>init\<close> never fails under the lock: it
  leaves a zombie, releases the scheduler lock, hands every child to \<^verbatim>\<open>init\<close>, wakes its parent (no
  process is left sleeping on the parent's channel) and changes the state of others only by waking.\<close>

lemma exit_hands_over:
  assumes "placed s A" and "state (procs s p) = RUNNING" and "p < NPROC" and "initproc s \<noteq> Some p"
  shows "succeeds (exit_locked p s)
    (\<lambda>t. (\<exists>B. placed t B) \<and> state (procs t p) = ZOMBIE \<and> lockproc t = None \<and>
       (\<forall>i. i \<noteq> p \<longrightarrow> state (procs t i) = state (procs s i) \<or>
          state (procs s i) = SLEEPING \<and> state (procs t i) = RUNNABLE) \<and>
       (\<forall>i < NPROC. parent (procs t i) = (if parent (procs s i) = Some p then initproc s else parent (procs s i))) \<and>
       (\<forall>i < NPROC. \<not> (state (procs t i) = SLEEPING \<and> chan (procs t i) = proc_chan (parent (procs s p)))))"
  using exit_locked_placed [OF assms] by (auto elim!: succeeds_mono)

section \<open>All interleavings\<close>


lemma pinit_boot: obtains pm where "pinit boot_mlfq = Inr pm" and "placed pm ((\<lambda>_. [])(UNUSEDQ := [0..<NPROC]))"
  using pinit_placed [of boot_mlfq] by (auto simp: boot_mlfq_def zero_proc_def elim!: succeedsE)




section \<open>Creating a process\<close>

lemma inert_kstack_setup [simp]: "inert (kstack_setup a b) pr"
  by (simp add: inert_def kstack_setup_def Let_def)

lemma upd_p_sel [simp]:
  "m (upd_p p f s) = upd_proc p f (m s)" "env (upd_p p f s) = env s" "runs (upd_p p f s) = runs s"
  by (simp_all add: upd_p_def)

lemma alloc_slot_fresh:
  assumes "placed s A" and "alloc_slot s = (Some np, s1)"
  shows "np < NPROC" and "state (procs s np) = UNUSED" and "state (procs s1 np) = EMBRYO"
    and "pid (procs s1 np) = nextpid s" and "queuelevel (procs s1 np) = 0" and "priority (procs s1 np) = 3"
    and "ticks (procs s1 np) = 0" and "ofile (procs s1 np) = ofile (procs s np)"
    and "\<And>i. i \<noteq> np \<Longrightarrow> data_of (procs s1 i) = data_of (procs s i)"
proof -
  from alloc_slot_placed [OF assms(1)] assms(2) obtain ps where q: "A UNUSEDQ = np # ps"
    and sd: "same_data (upd_proc np (fresh_proc (nextpid s)) (s\<lparr>nextpid := nextpid s + 1\<rparr>)) s1" by auto
  show "np < NPROC" "state (procs s np) = UNUSED"
    using placed_slots [OF assms(1), of np UNUSEDQ] placed_fits [OF assms(1), of np UNUSEDQ] q by auto
  show "state (procs s1 np) = EMBRYO" "pid (procs s1 np) = nextpid s" "queuelevel (procs s1 np) = 0"
    "priority (procs s1 np) = 3" "ticks (procs s1 np) = 0"
    by (simp_all add: same_data_fields [OF sd] fresh_proc_def setproc_default_def)
  have "data_of (procs s1 i) = data_of (procs (upd_proc np (fresh_proc (nextpid s)) (s\<lparr>nextpid := nextpid s + 1\<rparr>)) i)" for i
    using sd by (simp add: same_data_def)
  note d = this
  show "data_of (procs s1 i) = data_of (procs s i)" if "i \<noteq> np" for i using d [of i] that by simp
  show "ofile (procs s1 np) = ofile (procs s np)"
    using arg_cong [OF d [of np], of ofile] by (simp add: data_of_def fresh_proc_def setproc_default_def)
qed

lemma data_of_fields:
  assumes "data_of x = data_of y"
  shows "sz x = sz y" "pgdir x = pgdir y" "tf x = tf y" "ofile x = ofile y" "cwd x = cwd y" "name x = name y"
    "state x = state y" "pid x = pid y" "parent x = parent y" "kstack x = kstack y" "tf_ptr x = tf_ptr y"
    "ctx_ptr x = ctx_ptr y" "ctx x = ctx y" "ret_word x = ret_word y" "priority x = priority y"
    "queuelevel x = queuelevel y" "ticks x = ticks y"
proof -
  obtain a b where "x = y\<lparr>prev_p := a, next_p := b\<rparr>" using data_of_eqE [OF assms] .
  then show "sz x = sz y" "pgdir x = pgdir y" "tf x = tf y" "ofile x = ofile y" "cwd x = cwd y" "name x = name y"
    "state x = state y" "pid x = pid y" "parent x = parent y" "kstack x = kstack y" "tf_ptr x = tf_ptr y"
    "ctx_ptr x = ctx_ptr y" "ctx x = ctx y" "ret_word x = ret_word y" "priority x = priority y"
    "queuelevel x = queuelevel y" "ticks x = ticks y"
    by simp_all
qed

lemma allocproc_ok:
  assumes inv: "kinv s" and al: "alloc_slot (m s) = (Some np, m1)" and ka: "op_kalloc K (env s) = (ks, e1)" and "ks \<noteq> 0"
  shows "succeeds (allocproc K c s) (\<lambda>(r, t). r = Some np \<and> kinv t \<and> runs t = runs s \<and> env t = e1 \<and>
    m t = upd_proc np (kstack_setup (addr_trapret K) (addr_forkret K)) (upd_proc np (\<lambda>pr. pr\<lparr>kstack := ks\<rparr>) m1))"
proof -
  obtain t where t: "alloc_locked c s = Inr (Some np, t)" "kinv t" "runs t = runs s" "env t = env s" "m t = m1"
    using alloc_locked_kinv [OF inv, of c] al by auto
  have "kinv (upd_p np (\<lambda>pr. pr\<lparr>kstack := ks\<rparr>) (t\<lparr>env := e1\<rparr>))"
    using t(2) by (intro private_kinv) (simp_all add: inert_def)
  then have "kinv (upd_p np (kstack_setup (addr_trapret K) (addr_forkret K)) (upd_p np (\<lambda>pr. pr\<lparr>kstack := ks\<rparr>) (t\<lparr>env := e1\<rparr>)))"
    by (rule private_kinv) simp
  then show ?thesis using t assms(3,4) by (simp add: allocproc_def upd_p_def)
qed

lemma publish_data:
  assumes "kinv s" and "p < NPROC" and "state (procs (m s) p) = EMBRYO"
  shows "succeeds (publish c p s) (\<lambda>t. kinv t \<and> runs t = runs s \<and> env t = env s \<and>
    (\<forall>i. data_of (procs (m t) i) = data_of (procs (upd_proc p (\<lambda>pr. pr\<lparr>state := RUNNABLE\<rparr>) (m s)) i)) \<and>
    (\<forall>A. placed (m s) A \<longrightarrow> placed (m t) (A(L0 := A L0 @ [p]))))"
proof (rule succeeds_mono [OF publish_kinv [OF assms]], elim conjE, intro conjI allI impI)
  fix t
  assume t: "kinv t" "runs t = runs s" "env t = env s" and mr: "make_runnable p (m s) = Inr (m t)"
  have pm: "placed (m t) (A(L0 := A L0 @ [p])) \<and> same_data (upd_proc p (\<lambda>pr. pr\<lparr>state := RUNNABLE\<rparr>) (m s)) (m t)"
    if "placed (m s) A" for A
    using make_runnable_placed [OF that assms(2)] assms(3) mr by simp
  obtain A where "placed (m s) A" using assms(1) by (auto simp: kinv_def)
  from pm [OF this]
  show "data_of (procs (m t) i) = data_of (procs (upd_proc p (\<lambda>pr. pr\<lparr>state := RUNNABLE\<rparr>) (m s)) i)" for i
    by (simp add: same_data_def)
  show "placed (m t) (A(L0 := A L0 @ [p]))" if "placed (m s) A" for A using pm [OF that] by simp
qed auto

text \<open>When memory and a slot are available, \<^verbatim>\<open>fork\<close> returns the pid of a new process that is
  runnable at the end of level 0 with priority 3 and no ticks, has the parent's size, files and
  working directory, the page directory \<^verbatim>\<open>copyuvm\<close> built, the parent's trap frame with
  \<^verbatim>\<open>eax\<close> 0, and a kernel stack on which \<^verbatim>\<open>forkret\<close> returns to \<^verbatim>\<open>trapret\<close> over the trap frame.\<close>

lemma fork_child:
  assumes inv: "kinv s" and run: "runs s c = Some p" and al: "alloc_slot (m s) = (Some np, m1)"
    and ka: "op_kalloc K (env s) = (ks, e1)" and ks: "ks \<noteq> 0"
    and cu: "op_copyuvm K (pgdir (procs (m s) p)) (sz (procs (m s) p)) e1 = Inr (pg, e2)" and pg: "pg \<noteq> 0"
    and df: "dup_files K (ofile (procs (m s) p)) (ofile (procs (m s) np)) e2 = Inr (fs, e3)"
  shows "succeeds (fork K c s) (\<lambda>(n, t). n = nextpid (m s) \<and> kinv t \<and> runs t = runs s \<and>
     env t = op_idup K (cwd (procs (m s) p)) e3 \<and>
     (let ch = procs (m t) np; pa = procs (m s) p in
        state ch = RUNNABLE \<and> pid ch = nextpid (m s) \<and> parent ch = Some p \<and> queuelevel ch = 0 \<and> priority ch = 3 \<and>
        ticks ch = 0 \<and> sz ch = sz pa \<and> pgdir ch = pg \<and> tf ch = (tf pa)\<lparr>tf_eax := 0\<rparr> \<and> ofile ch = fs \<and> cwd ch = cwd pa \<and>
        kstack ch = ks \<and> tf_ptr ch = ks + 4020 \<and> ret_word ch = addr_trapret K \<and> ctx_ptr ch = ks + 3996 \<and>
        ctx_eip (ctx ch) = addr_forkret K) \<and>
     (\<exists>A. placed (m t) A \<and> last_or None (A L0) = Some np))"
proof -
  obtain A where A: "placed (m s) A" using inv by (auto simp: kinv_def)
  note fr = alloc_slot_fresh [OF A al]
  have p: "state (procs (m s) p) = RUNNING" using kinv_runs [OF inv run] by simp
  then have ne: "p \<noteq> np" using fr(2) by auto
  note pd = data_of_fields [OF fr(9) [OF ne]]
  obtain s1 where s1: "allocproc K c s = Inr (Some np, s1)" "kinv s1" "runs s1 = runs s" "env s1 = e1"
    and m1: "m s1 = upd_proc np (kstack_setup (addr_trapret K) (addr_forkret K)) (upd_proc np (\<lambda>pr. pr\<lparr>kstack := ks\<rparr>) m1)"
    using allocproc_ok [OF inv al ka ks, of c] by auto
  have cp: "sz (procs (m s1) p) = sz (procs (m s) p)" "pgdir (procs (m s1) p) = pgdir (procs (m s) p)"
    "tf (procs (m s1) p) = tf (procs (m s) p)" "ofile (procs (m s1) p) = ofile (procs (m s) p)"
    "cwd (procs (m s1) p) = cwd (procs (m s) p)" "name (procs (m s1) p) = name (procs (m s) p)"
    "ofile (procs (m s1) np) = ofile (procs (m s) np)"
    using pd ne fr(8) by (simp_all add: m1 kstack_setup_def Let_def)
  define s4 where "s4 = upd_p np (\<lambda>pr. pr\<lparr>ofile := fs, cwd := cwd (procs (m s) p), name := safestrcpy_str 16 (name (procs (m s) p))\<rparr>)
     ((upd_p np (\<lambda>pr. pr\<lparr>sz := sz (procs (m s) p), parent := Some p, tf := (tf (procs (m s) p))\<lparr>tf_eax := 0\<rparr>\<rparr>)
       (upd_p np (\<lambda>pr. pr\<lparr>pgdir := pg\<rparr>) (s1\<lparr>env := e2\<rparr>)))\<lparr>env := op_idup K (cwd (procs (m s) p)) e3\<rparr>)"
  have k4: "kinv s4"
    unfolding s4_def using s1(2) by (intro private_kinv kinv_env [THEN iffD2]) (simp_all add: inert_def)
  have st4: "state (procs (m s4) np) = EMBRYO" "pid (procs (m s4) np) = nextpid (m s)" "runs s4 = runs s"
    using fr s1(3) by (simp_all add: s4_def m1 kstack_setup_def Let_def fun_eq_iff)
  obtain t where t: "publish c np s4 = Inr t" "kinv t" "runs t = runs s4" "env t = env s4"
    "\<forall>i. data_of (procs (m t) i) = data_of (procs (upd_proc np (\<lambda>pr. pr\<lparr>state := RUNNABLE\<rparr>) (m s4)) i)"
    "\<forall>A. placed (m s4) A \<longrightarrow> placed (m t) (A(L0 := A L0 @ [np]))"
    using publish_data [OF k4 fr(1) st4(1), of c] by (rule succeedsE) blast
  obtain B where "placed (m s4) B" using k4 by (auto simp: kinv_def)
  with t(6) have q: "placed (m t) (B(L0 := B L0 @ [np]))" by blast
  have "fork K c s = Inr (nextpid (m s), t)"
    using run s1(1,4) cu pg df cp st4(2) t(1) by (simp add: fork_def cur_def s4_def Let_def)
  moreover note ch = data_of_fields [OF t(5) [rule_format, of np]]
  have "env t = op_idup K (cwd (procs (m s) p)) e3" using t(4) by (simp add: s4_def)
  moreover have "\<exists>A. placed (m t) A \<and> last_or None (A L0) = Some np"
    using q by (intro exI [of _ "B(L0 := B L0 @ [np])"]) (simp add: last_or_def)
  ultimately show ?thesis
    using t(2,3) st4(3) ch fr
    by (simp add: s4_def m1 kstack_setup_def Let_def KSTACKSIZE_def TRAPFRAME_SIZE_def CONTEXT_SIZE_def)
qed

text \<open>The state \<open>demo\<close> on a machine whose processor 0 runs slot 0.\<close>

definition demo_kst :: "'e \<Rightarrow> 'e mkst" where
  "demo_kst e = \<lparr>m = demo, cpus = (\<lambda>c. \<lparr>ncli = 0, intena = False, iflag = True, cpu_proc = (if c = 0 then Some 0 else None)\<rparr>),
     plock = initlock, saved_intena = (\<lambda>_. False), env = e\<rparr>"

lemma demo_kst_kinv: "kinv (demo_kst e)"
  using demo_placed by (auto simp: kinv_def demo_kst_def runs_ok_def initlock_def cpu_ok_def NPROC_def)

lemma discard_states:
  assumes inv: "kinv s" and p: "p < NPROC" "state (procs (m s) p) = EMBRYO"
  shows "succeeds (on_m (free_slot p) s) (\<lambda>t. kinv t \<and> runs t = runs s \<and> env t = env s \<and> nextpid (m t) = nextpid (m s) \<and>
     (\<forall>i. state (procs (m t) i) = (if i = p then UNUSED else state (procs (m s) i))))"
proof -
  obtain A where A: "placed (m s) A" using inv by (auto simp: kinv_def)
  obtain t where t: "on_m (free_slot p) s = Inr t" "kinv t" "runs t = runs s"
    using discard_kinv [OF inv p] by auto
  then have "free_slot p (m s) = Inr (m t)" and en: "env t = env s" by (auto simp: on_m_def)
  then have "same_data (upd_proc p (\<lambda>pr. pr\<lparr>state := UNUSED\<rparr>) (m s)) (m t)"
    using free_slot_placed [OF A p(1)] p(2) by auto
  with t en show ?thesis by (simp add: same_data_fields)
qed

text \<open>When there is no free slot, no page for the kernel stack, or no memory for the address
  space, \<^verbatim>\<open>fork\<close> returns -1 and leaves every process in the state it had: the slot it took, if any,
  is free again. The rest of the kernel is as the calls that were made left it.\<close>

lemma fork_failure:
  assumes inv: "kinv s" and run: "runs s c = Some p"
    and fail: "fst (alloc_slot (m s)) = None \<or> fst (op_kalloc K (env s)) = 0 \<or>
      (\<exists>e2 e3. op_copyuvm K (pgdir (procs (m s) p)) (sz (procs (m s) p)) (snd (op_kalloc K (env s))) = Inr (0, e2) \<and>
         op_kfree K (fst (op_kalloc K (env s))) e2 = Inr e3)"
  shows "succeeds (fork K c s) (\<lambda>(n, t). n = -1 \<and> kinv t \<and> runs t = runs s \<and>
    (\<forall>i. state (procs (m t) i) = state (procs (m s) i)) \<and>
    (if fst (alloc_slot (m s)) = None then env t = env s
     else if fst (op_kalloc K (env s)) = 0 then env t = snd (op_kalloc K (env s))
     else \<exists>e2. op_copyuvm K (pgdir (procs (m s) p)) (sz (procs (m s) p)) (snd (op_kalloc K (env s))) = Inr (0, e2) \<and>
       op_kfree K (fst (op_kalloc K (env s))) e2 = Inr (env t)))"
proof -
  obtain A where A: "placed (m s) A" using inv by (auto simp: kinv_def)
  obtain r m1 where al: "alloc_slot (m s) = (r, m1)" by fastforce
  obtain ks e1 where ka: "op_kalloc K (env s) = (ks, e1)" by fastforce
  obtain s1 where s1: "alloc_locked c s = Inr (r, s1)" "kinv s1" "runs s1 = runs s" "env s1 = env s" "m s1 = m1"
    using alloc_locked_kinv [OF inv, of c] al by auto
  show ?thesis
  proof (cases r)
    case None
    with alloc_slot_placed [OF A] al have sd: "same_data (m s) m1" by auto
    from None s1 run show ?thesis
      by (simp add: fork_def allocproc_def cur_def al same_data_fields [OF sd])
  next
    case (Some np)
    note fr = alloc_slot_fresh [OF A al [unfolded Some]]
    have p: "state (procs (m s) p) = RUNNING" using kinv_runs [OF inv run] by simp
    then have ne: "p \<noteq> np" using fr(2) by auto
    have st: "state (procs m1 i) = (if i = np then EMBRYO else state (procs (m s) i))" for i
      using data_of_fields(7) [OF fr(9)] fr(3) by simp
    show ?thesis
    proof (cases "ks = 0")
      case True
      let ?u = "upd_p np (\<lambda>pr. pr\<lparr>kstack := 0\<rparr>) (s1\<lparr>env := e1\<rparr>)"
      have ku: "kinv ?u" using s1(2) by (intro private_kinv) (simp_all add: inert_def)
      have "state (procs (m ?u) np) = EMBRYO" using fr(3) s1(5) by simp
      from discard_states [OF ku fr(1) this] obtain t where t: "on_m (free_slot np) ?u = Inr t" "kinv t" "runs t = runs ?u" "env t = env ?u"
        "\<forall>i. state (procs (m t) i) = (if i = np then UNUSED else state (procs (m ?u) i))"
        by (rule succeedsE) blast
      with Some s1 run ka True st fr(2) show ?thesis
        by (simp add: fork_def allocproc_def cur_def al)
    next
      case False
      then obtain e2 e3 where e2: "op_copyuvm K (pgdir (procs (m s) p)) (sz (procs (m s) p)) e1 = Inr (0, e2)"
        and e3: "op_kfree K ks e2 = Inr e3"
        using fail al ka Some by auto
      obtain s2 where s2: "allocproc K c s = Inr (Some np, s2)" "kinv s2" "runs s2 = runs s" "env s2 = e1"
        and m2: "m s2 = upd_proc np (kstack_setup (addr_trapret K) (addr_forkret K)) (upd_proc np (\<lambda>pr. pr\<lparr>kstack := ks\<rparr>) m1)"
        using allocproc_ok [OF inv al [unfolded Some] ka False, of c] by auto
      let ?u = "upd_p np (\<lambda>pr. pr\<lparr>kstack := 0\<rparr>) ((upd_p np (\<lambda>pr. pr\<lparr>pgdir := 0\<rparr>) (s2\<lparr>env := e2\<rparr>))\<lparr>env := e3\<rparr>)"
      have ku: "kinv ?u" using s2(2) by (intro private_kinv kinv_env [THEN iffD2]) (simp_all add: inert_def)
      have "state (procs (m ?u) np) = EMBRYO" using fr(3) by (simp add: m2 kstack_setup_def Let_def)
      from discard_states [OF ku fr(1) this]
      obtain t where t: "on_m (free_slot np) ?u = Inr t" "kinv t" "runs t = runs ?u" "env t = env ?u"
        "\<forall>i. state (procs (m t) i) = (if i = np then UNUSED else state (procs (m ?u) i))"
        by (rule succeedsE) blast
      have cp: "sz (procs (m s2) p) = sz (procs (m s) p)" "pgdir (procs (m s2) p) = pgdir (procs (m s) p)"
        "kstack (procs (m s2) np) = ks"
        using data_of_fields [OF fr(9) [OF ne]] ne by (simp_all add: m2 kstack_setup_def Let_def)
      have "fork K c s = Inr (-1, t)"
        using run s2(1,4) e2 e3 cp t(1) by (simp add: fork_def cur_def Let_def)
      with t s2(3) st fr(2) Some ka False e2 e3 show ?thesis by (simp add: m2 kstack_setup_def Let_def al)
    qed
  qed
qed

section \<open>Locks\<close>



end
