(* ===== verification/Threads.thy ===== *)
theory Threads
  imports ProcQueue KLock KOps
begin

text \<open>
  The process code of the kernel with light-weight processes (\<^verbatim>\<open>src/Project2/proc.c\<close>): threads
  are process slots that share a \<^verbatim>\<open>struct th_share\<close> (size, parent, files, memory limit, the
  list of the family's threads).

  The code follows \<^verbatim>\<open>p->shared_info\<close> of every slot, also of slots that were never used, where it is
  null. The kernel runs on the page table of the current process, which maps user memory at address
  0, so such an access reads and writes the start of user memory as if it were a
  \<^verbatim>\<open>struct th_share\<close>. \<open>shares s None\<close> is that view of user memory; \<open>shares s (Some i)\<close> is entry
  \<open>i\<close> of \<^verbatim>\<open>ptable.th_share\<close>. A null process pointer stops the model with \<open>NullDeref\<close>.

  Comparisons that mix \<^verbatim>\<open>int\<close> and \<^verbatim>\<open>uint\<close> are unsigned in C; sizes and limits are words.
\<close>

section \<open>State\<close>

datatype thshare_state = EMPTY | USING

record th_share =
  sh_sz :: u32
  sh_parent :: ptr
  sh_ofile :: "ptr list"
  memory_limit :: u32
  stacksize :: u32
  th_family_hd :: ptr
  th_last :: ptr
  sh_state :: thshare_state

record tproc =
  t_kstack :: u32
  t_state :: procstate
  t_tf_ptr :: u32
  t_tf :: trapframe
  t_ctx_ptr :: u32
  t_ctx :: kcontext
  t_ret_word :: u32
  t_chan :: chan
  t_killed :: bool
  t_pgdir :: u32
  t_pid :: int
  t_name :: string
  t_cwd :: ptr
  shared_info :: ptr
  t_tid :: int
  th_next :: ptr
  th_main :: ptr
  t_retval :: u32

record tst =
  tprocs :: "nat \<Rightarrow> tproc"
  shares :: "ptr \<Rightarrow> th_share"
  t_initproc :: ptr
  t_nextpid :: int
  t_nexttid :: int

type_synonym 'e tkst = "(tst, 'e) kst"

definition upd_t :: "nat \<Rightarrow> (tproc \<Rightarrow> tproc) \<Rightarrow> tst \<Rightarrow> tst" where
  "upd_t p f s = s\<lparr>tprocs := (tprocs s)(p := f (tprocs s p))\<rparr>"

definition upd_share :: "ptr \<Rightarrow> (th_share \<Rightarrow> th_share) \<Rightarrow> tst \<Rightarrow> tst" where
  "upd_share k f s = s\<lparr>shares := (shares s)(k := f (shares s k))\<rparr>"

abbreviation share_of :: "tst \<Rightarrow> nat \<Rightarrow> th_share" where
  "share_of s p \<equiv> shares s (shared_info (tprocs s p))"

section \<open>Shared structures and slots\<close>

definition setmemorylimit :: "int \<Rightarrow> u32 \<Rightarrow> tst \<Rightarrow> int \<times> tst" where
  "setmemorylimit n limit s =
    (case find (\<lambda>p. t_pid (tprocs s p) = n) [0..<NPROC] of
       None \<Rightarrow> (-1, s)
     | Some p \<Rightarrow>
         if sh_sz (share_of s p) > limit then (-1, s)
         else (0, upd_share (shared_info (tprocs s p)) (\<lambda>h. h\<lparr>memory_limit := limit\<rparr>) s))"

definition initialize_share :: "th_share \<Rightarrow> th_share" where
  "initialize_share h = h\<lparr>sh_sz := 0, sh_parent := None, memory_limit := 0, th_family_hd := None, th_last := None,
     stacksize := 1\<rparr>"

definition alloc_th_share :: "tst \<Rightarrow> ptr \<times> tst" where
  "alloc_th_share s =
    (case find (\<lambda>i. sh_state (shares s (Some i)) = EMPTY) [0..<NPROC] of
       None \<Rightarrow> (None, s)
     | Some i \<Rightarrow> (Some i, upd_share (Some i) initialize_share s))"

definition dealloc_th_share :: "ptr \<Rightarrow> tst \<Rightarrow> tst" where
  "dealloc_th_share k s = upd_share k (\<lambda>h. h\<lparr>sh_sz := 0, sh_parent := None, memory_limit := 0, th_family_hd := None,
     th_last := None, stacksize := 0, sh_state := EMPTY\<rparr>) s"

definition initialize_proc :: "nat \<Rightarrow> tst \<Rightarrow> tst" where
  "initialize_proc p s =
    (upd_t p (\<lambda>t. t\<lparr>t_state := EMBRYO, t_pid := t_nextpid s, t_tid := t_nexttid s, th_next := None, th_main := Some p\<rparr>) s)
      \<lparr>t_nextpid := t_nextpid s + 1, t_nexttid := t_nexttid s + 1\<rparr>"

text \<open>The search of \<^verbatim>\<open>allocproc\<close> for an unused slot, under the lock.\<close>

definition alloc_slot_th :: "tst \<Rightarrow> ptr \<times> tst" where
  "alloc_slot_th s =
    (case find (\<lambda>p. t_state (tprocs s p) = UNUSED) [0..<NPROC] of
       None \<Rightarrow> (None, s)
     | Some p \<Rightarrow> (Some p, initialize_proc p s))"

section \<open>Sleeping, waking, killing\<close>

definition wakeup1_th :: "chan \<Rightarrow> tst \<Rightarrow> tst" where
  "wakeup1_th c s = s\<lparr>tprocs := (\<lambda>p. if p < NPROC \<and> t_state (tprocs s p) = SLEEPING \<and> t_chan (tprocs s p) = c
     then (tprocs s p)\<lparr>t_state := RUNNABLE\<rparr> else tprocs s p)\<rparr>"

text \<open>\<^verbatim>\<open>for (p = share->th_family_hd; p != 0; p = p->th_next)\<close> with a body that rewrites \<open>p\<close>. The
  links come from memory, so the loop has fuel.\<close>

fun fam_upd :: "nat \<Rightarrow> (nat \<Rightarrow> tproc \<Rightarrow> tproc) \<Rightarrow> ptr \<Rightarrow> tst \<Rightarrow> kerr + tst" where
  "fam_upd n f None s = Inr s"
| "fam_upd 0 f (Some p) s = Inl Diverges"
| "fam_upd (Suc n) f (Some p) s = (let s1 = upd_t p (f p) s in fam_upd n f (th_next (tprocs s1 p)) s1)"

definition fam_fuel :: nat where "fam_fuel = Suc NPROC"

definition kill_th :: "int \<Rightarrow> tst \<Rightarrow> kerr + int \<times> tst" where
  "kill_th n s =
    (case find (\<lambda>p. t_pid (tprocs s p) = n) [0..<NPROC] of
       None \<Rightarrow> Inr (-1, s)
     | Some p \<Rightarrow>
         let s1 = upd_t p (\<lambda>t. t\<lparr>t_killed := True\<rparr>) s in
         bindE (fam_upd fam_fuel (\<lambda>_ t. let t1 = t\<lparr>t_killed := True\<rparr> in
                   if t_state t1 = SLEEPING then t1\<lparr>t_state := RUNNABLE\<rparr> else t1)
                 (th_family_hd (share_of s1 p)) s1)
           (\<lambda>s2. Inr (0, s2)))"

section \<open>Thread families\<close>

text \<open>The loop of \<^verbatim>\<open>delete_thread\<close> that looks for the predecessor of the target.\<close>

fun find_prev :: "nat \<Rightarrow> tst \<Rightarrow> nat \<Rightarrow> ptr \<Rightarrow> ptr \<Rightarrow> kerr + ptr" where
  "find_prev n s target tmp None = Inr tmp"
| "find_prev 0 s target tmp (Some p) = Inl Diverges"
| "find_prev (Suc n) s target tmp (Some p) =
     (if p = target then Inr tmp else find_prev n s target (Some p) (th_next (tprocs s p)))"

definition delete_thread :: "nat \<Rightarrow> tst \<Rightarrow> kerr + tst" where
  "delete_thread target s =
    (let k = shared_info (tprocs s target); hd = th_family_hd (shares s k) in
     if hd = Some target then Inr (upd_share k (\<lambda>h. h\<lparr>th_family_hd := th_next (tprocs s target)\<rparr>) s)
     else
       bindE (find_prev fam_fuel s target hd hd) (\<lambda>tmp.
       bindE (deref tmp) (\<lambda>t.
         let s1 = upd_t t (\<lambda>x. x\<lparr>th_next := th_next (tprocs s target)\<rparr>) s in
         if th_next (tprocs s1 t) = None
         then Inr (upd_share (shared_info (tprocs s1 t)) (\<lambda>h. h\<lparr>th_last := Some t\<rparr>) s1)
         else Inr s1)))"

text \<open>The part of \<^verbatim>\<open>thread_create\<close> that appends the new thread to its family.\<close>

definition link_thread :: "nat \<Rightarrow> tst \<Rightarrow> kerr + tst" where
  "link_thread n s =
    (let k = shared_info (tprocs s n) in
     if th_family_hd (shares s k) = None then
       Inr (upd_share k (\<lambda>h. h\<lparr>th_family_hd := Some n, th_last := Some n\<rparr>) s)
     else
       bindE (deref (th_last (shares s k))) (\<lambda>l.
         Inr (upd_share k (\<lambda>h. h\<lparr>th_last := Some n\<rparr>) (upd_t l (\<lambda>t. t\<lparr>th_next := Some n\<rparr>) s))))"

definition kill_threads :: "nat \<Rightarrow> tst \<Rightarrow> kerr + tst" where
  "kill_threads p s =
    (let k = shared_info (tprocs s p) in
     bindE (fam_upd fam_fuel (\<lambda>i t. if i \<noteq> p then t\<lparr>t_state := ZOMBIE\<rparr> else t) (th_family_hd (shares s k)) s) (\<lambda>s1.
       let s2 = upd_share k (\<lambda>h. h\<lparr>th_last := Some p, th_family_hd := Some p\<rparr>) s1;
           s3 = upd_t p (\<lambda>t. t\<lparr>th_main := Some p, th_next := None\<rparr>) s2
       in Inr (upd_share k (\<lambda>h. h\<lparr>memory_limit := 0\<rparr>) s3)))"

section \<open>Switching\<close>

definition upd_tp :: "nat \<Rightarrow> (tproc \<Rightarrow> tproc) \<Rightarrow> 'e tkst \<Rightarrow> 'e tkst" where
  "upd_tp p f s = s\<lparr>m := upd_t p f (m s)\<rparr>"

definition upd_sh :: "ptr \<Rightarrow> (th_share \<Rightarrow> th_share) \<Rightarrow> 'e tkst \<Rightarrow> 'e tkst" where
  "upd_sh k f s = s\<lparr>m := upd_share k f (m s)\<rparr>"

text \<open>The scan of \<^verbatim>\<open>scheduler\<close> from slot \<open>i\<close> on, with the lock held: the next runnable slot runs and
  releases the lock; at the end of the table \<^verbatim>\<open>scheduler\<close> releases it. A process that comes back
  from \<^verbatim>\<open>sched\<close> clears its channel if it slept.\<close>

definition scan_from :: "nat \<Rightarrow> nat \<Rightarrow> 'e tkst \<Rightarrow> kerr + ptr \<times> 'e tkst" where
  "scan_from c i s =
    (case find (\<lambda>p. t_state (tprocs (m s) p) = RUNNABLE) [i..<NPROC] of
       None \<Rightarrow> bindE (plock_release c s) (\<lambda>s1. Inr (None, s1))
     | Some p \<Rightarrow>
         let s1 = upd_tp p (\<lambda>t. t\<lparr>t_state := RUNNING\<rparr>) (set_cpu_proc c (Some p) s);
             s2 = s1\<lparr>cpus := (cpus s1)(c := (cpus s1 c)\<lparr>intena := saved_intena s1 p\<rparr>)\<rparr>;
             s3 = upd_tp p (\<lambda>t. t\<lparr>t_chan := NullChan\<rparr>) s2
         in bindE (plock_release c s3) (\<lambda>s4. Inr (Some p, s4)))"

text \<open>The start of a round of \<^verbatim>\<open>scheduler\<close>.\<close>

definition dispatch_th :: "nat \<Rightarrow> 'e tkst \<Rightarrow> kerr + ptr \<times> 'e tkst" where
  "dispatch_th c s =
    bindE (plock_acquire c (s\<lparr>cpus := (cpus s)(c := (cpus s c)\<lparr>iflag := True\<rparr>)\<rparr>)) (scan_from c 0)"

definition sched_th :: "nat \<Rightarrow> nat \<Rightarrow> 'e tkst \<Rightarrow> kerr + 'e tkst" where
  "sched_th c p s =
    bindE (holding c (cpus s c) (plock s)) (\<lambda>(r, cp).
      let s1 = s\<lparr>cpus := (cpus s)(c := cp)\<rparr> in
      if \<not> r then Inl (Panic ''sched ptable.lock'')
      else if ncli (cpus s1 c) \<noteq> 1 then Inl (Panic ''sched locks'')
      else if t_state (tprocs (m s1) p) = RUNNING then Inl (Panic ''sched running'')
      else if iflag (cpus s1 c) then Inl (Panic ''sched interruptible'')
      else Inr (s1\<lparr>saved_intena := (saved_intena s1)(p := intena (cpus s1 c))\<rparr>))"

text \<open>\<^verbatim>\<open>sched\<close> returns into the loop of \<^verbatim>\<open>scheduler\<close>, which goes on behind the slot it ran.\<close>

definition resched :: "nat \<Rightarrow> nat \<Rightarrow> 'e tkst \<Rightarrow> kerr + ptr \<times> 'e tkst" where
  "resched c p s = bindE (sched_th c p s) (\<lambda>s1. scan_from c (Suc p) (set_cpu_proc c None s1))"

definition yield_th :: "nat \<Rightarrow> 'e tkst \<Rightarrow> kerr + ptr \<times> 'e tkst" where
  "yield_th c s =
    bindE (plock_acquire c s) (\<lambda>s1.
    bindE (cur c s1) (\<lambda>p. resched c p (upd_tp p (\<lambda>t. t\<lparr>t_state := RUNNABLE\<rparr>) s1)))"

definition sleep_th :: "nat \<Rightarrow> chan \<Rightarrow> ('e \<Rightarrow> 'e) \<Rightarrow> 'e tkst \<Rightarrow> kerr + ptr \<times> 'e tkst" where
  "sleep_th c ch rel_lk s =
    (case cpu_proc (cpus s c) of
       None \<Rightarrow> Inl (Panic ''sleep'')
     | Some p \<Rightarrow>
         bindE (plock_acquire c s) (\<lambda>s1.
           resched c p (upd_tp p (\<lambda>t. t\<lparr>t_chan := ch, t_state := SLEEPING\<rparr>) (s1\<lparr>env := rel_lk (env s1)\<rparr>))))"

definition wakeup_th :: "nat \<Rightarrow> chan \<Rightarrow> 'e tkst \<Rightarrow> kerr + 'e tkst" where
  "wakeup_th c ch = locked_section c (\<lambda>x. Inr (wakeup1_th ch x))"

fun wakeup_all_th :: "nat \<Rightarrow> chan list \<Rightarrow> 'e tkst \<Rightarrow> kerr + 'e tkst" where
  "wakeup_all_th c [] s = Inr s"
| "wakeup_all_th c (ch # chs) s = bindE (wakeup_th c ch s) (wakeup_all_th c chs)"

definition kill_call_th :: "nat \<Rightarrow> int \<Rightarrow> 'e tkst \<Rightarrow> kerr + int \<times> 'e tkst" where
  "kill_call_th c n s =
    bindE (plock_acquire c s) (\<lambda>s1.
    bindE (kill_th n (m s1)) (\<lambda>(r, m1).
    bindE (plock_release c (s1\<lparr>m := m1\<rparr>)) (\<lambda>s2. Inr (r, s2))))"

section \<open>Creating processes and threads\<close>

definition kstack_setup_th :: "u32 \<Rightarrow> u32 \<Rightarrow> tproc \<Rightarrow> tproc" where
  "kstack_setup_th trapret forkret t =
    (let sp0 = t_kstack t + KSTACKSIZE;
         sp1 = sp0 - TRAPFRAME_SIZE;
         sp2 = sp1 - 4;
         sp3 = sp2 - CONTEXT_SIZE
     in t\<lparr>t_tf_ptr := sp1, t_ret_word := trapret, t_ctx_ptr := sp3,
           t_ctx := \<lparr>ctx_edi = 0, ctx_esi = 0, ctx_ebx = 0, ctx_ebp = 0, ctx_eip = forkret\<rparr>\<rparr>)"

definition allocproc_th :: "'e kops \<Rightarrow> nat \<Rightarrow> 'e tkst \<Rightarrow> kerr + ptr \<times> 'e tkst" where
  "allocproc_th K c s =
    bindE (plock_acquire c s) (\<lambda>s1.
      case alloc_slot_th (m s1) of (r, m1) \<Rightarrow>
        bindE (plock_release c (s1\<lparr>m := m1\<rparr>)) (\<lambda>s2.
          case r of
            None \<Rightarrow> Inr (None, s2)
          | Some p \<Rightarrow>
              let (ks, e) = op_kalloc K (env s2);
                  s3 = upd_tp p (\<lambda>t. t\<lparr>t_kstack := ks\<rparr>) (s2\<lparr>env := e\<rparr>)
              in if ks = 0 then Inr (None, upd_tp p (\<lambda>t. t\<lparr>t_state := UNUSED\<rparr>) s3)
                 else Inr (Some p, upd_tp p (kstack_setup_th (addr_trapret K) (addr_forkret K)) s3)))"

text \<open>A new process gets a share entry of its own; the table of entries is searched without the lock.\<close>

definition new_share :: "nat \<Rightarrow> string \<Rightarrow> 'e tkst \<Rightarrow> kerr + 'e tkst" where
  "new_share p msg s =
    (case alloc_th_share (m s) of
       (None, m1) \<Rightarrow> Inl (Panic msg)
     | (Some k, m1) \<Rightarrow>
         let s1 = upd_tp p (\<lambda>t. t\<lparr>shared_info := Some k\<rparr>) (s\<lparr>m := m1\<rparr>)
         in Inr (upd_sh (Some k) (\<lambda>h. h\<lparr>sh_state := USING, th_family_hd := Some p, th_last := Some p\<rparr>) s1))"

definition userinit_th :: "'e kops \<Rightarrow> nat \<Rightarrow> 'e tkst \<Rightarrow> kerr + 'e tkst" where
  "userinit_th K c s =
    bindE (allocproc_th K c s) (\<lambda>(r, s1).
    bindE (deref r) (\<lambda>p.
    bindE (new_share p ''No more thread share table entry. It's not possible'' s1) (\<lambda>s2.
      let s3 = s2\<lparr>m := (m s2)\<lparr>t_initproc := Some p\<rparr>\<rparr> in
      bindE (op_setupkvm K (env s3)) (\<lambda>(pg, e1).
        if pg = 0 then Inl (Panic ''userinit: out of memory?'')
        else
          bindE (op_inituvm K pg e1) (\<lambda>e2.
            let (root, e3) = op_namei_root K e2;
                t = \<lparr>tf_eax = 0, tf_esp = PGSIZE, tf_eip = 0, tf_cs = 0x1b, tf_ds = 0x23, tf_es = 0x23,
                     tf_ss = 0x23, tf_eflags = 0x200, tf_trapno = 0\<rparr>;
                s4 = upd_sh (shared_info (tprocs (m s3) p)) (\<lambda>h. h\<lparr>sh_sz := PGSIZE\<rparr>)
                       (upd_tp p (\<lambda>pr. pr\<lparr>t_pgdir := pg, t_tf := t, t_name := safestrcpy_str 16 ''initcode'',
                          t_cwd := root\<rparr>) (s3\<lparr>env := e3\<rparr>))
            in locked_section c (\<lambda>x. Inr (upd_t p (\<lambda>pr. pr\<lparr>t_state := RUNNABLE\<rparr>) x)) s4)))))"

definition growproc_th :: "'e kops \<Rightarrow> nat \<Rightarrow> int \<Rightarrow> 'e tkst \<Rightarrow> kerr + int \<times> 'e tkst" where
  "growproc_th K c n s =
    bindE (cur c s) (\<lambda>p.
      let k = shared_info (tprocs (m s) p);
          limit = memory_limit (shares (m s) k);
          old = sh_sz (shares (m s) k);
          new = old + word_of_int n
      in if limit \<noteq> 0 \<and> new > limit then Inr (-1, s)
      else if n > 0 then
        bindE (op_allocuvm K (t_pgdir (tprocs (m s) p)) old new (env s)) (\<lambda>(r, e).
          let s1 = s\<lparr>env := e\<rparr> in
          if r = 0 then Inr (-1, s1) else Inr (0, upd_sh k (\<lambda>h. h\<lparr>sh_sz := r\<rparr>) s1))
      else if n < 0 then
        bindE (op_deallocuvm K (t_pgdir (tprocs (m s) p)) old new (env s)) (\<lambda>(r, e).
          let s1 = s\<lparr>env := e\<rparr> in
          if r = 0 then Inr (-1, s1) else Inr (0, upd_sh k (\<lambda>h. h\<lparr>sh_sz := r\<rparr>) s1))
      else Inr (0, s))"

definition fork_th :: "'e kops \<Rightarrow> nat \<Rightarrow> 'e tkst \<Rightarrow> kerr + int \<times> 'e tkst" where
  "fork_th K c s =
    bindE (cur c s) (\<lambda>p.
    bindE (allocproc_th K c s) (\<lambda>(r, s1).
      case r of
        None \<Rightarrow> Inr (-1, s1)
      | Some np \<Rightarrow>
          let cp = tprocs (m s1) p in
          bindE (op_copyuvm K (t_pgdir cp) (sh_sz (share_of (m s1) p)) (env s1)) (\<lambda>(pg, e1).
            let s2 = upd_tp np (\<lambda>t. t\<lparr>t_pgdir := pg\<rparr>) (s1\<lparr>env := e1\<rparr>) in
            if pg = 0 then
              bindE (op_kfree K (t_kstack (tprocs (m s2) np)) (env s2)) (\<lambda>e2.
                Inr (-1, upd_tp np (\<lambda>t. t\<lparr>t_kstack := 0, t_state := UNUSED\<rparr>) (s2\<lparr>env := e2\<rparr>)))
            else
              bindE (new_share np ''No more thread share table entry. It's not possible'' s2) (\<lambda>s3.
                let k = shared_info (tprocs (m s3) np);
                    s4 = upd_sh k (\<lambda>h. h\<lparr>sh_sz := sh_sz (share_of (m s3) p), sh_parent := Some p\<rparr>) s3;
                    s5 = upd_tp np (\<lambda>t. t\<lparr>t_tf := (t_tf cp)\<lparr>tf_eax := 0\<rparr>\<rparr>) s4
                in bindE (dup_files K (sh_ofile (share_of (m s5) p)) (sh_ofile (shares (m s5) k)) (env s5)) (\<lambda>(fs, e3).
                  let s6 = upd_sh k (\<lambda>h. h\<lparr>sh_ofile := fs\<rparr>) (s5\<lparr>env := op_idup K (t_cwd cp) e3\<rparr>);
                      s7 = upd_tp np (\<lambda>t. t\<lparr>t_cwd := t_cwd cp, t_name := safestrcpy_str 16 (t_name cp)\<rparr>) s6;
                      n = t_pid (tprocs (m s7) np)
                  in bindE (locked_section c (\<lambda>x. Inr (upd_t np (\<lambda>t. t\<lparr>t_state := RUNNABLE\<rparr>) x)) s7)
                       (\<lambda>s8. Inr (n, s8)))))))"

text \<open>What the new thread \<open>n\<close> shares with its creator \<open>p\<close>.\<close>

definition share_with :: "'e kops \<Rightarrow> nat \<Rightarrow> nat \<Rightarrow> 'e tkst \<Rightarrow> 'e tkst" where
  "share_with K p n s =
    (let cp = tprocs (m s) p
     in upd_tp n (\<lambda>t. t\<lparr>t_pgdir := t_pgdir cp, t_pid := t_pid cp, t_name := safestrcpy_str 16 (t_name cp),
                   t_cwd := t_cwd cp, shared_info := shared_info cp, th_next := None, th_main := Some p\<rparr>)
          (s\<lparr>env := op_idup K (t_cwd cp) (env s)\<rparr>))"

text \<open>\<^verbatim>\<open>thread_create\<close>. \<open>thread\<close> is the user address of the caller's \<^verbatim>\<open>thread_t\<close>; stores to user memory go
  through the page directory the threads share.\<close>

definition thread_create :: "'e kops \<Rightarrow> nat \<Rightarrow> u32 \<Rightarrow> u32 \<Rightarrow> u32 \<Rightarrow> 'e tkst \<Rightarrow> kerr + int \<times> 'e tkst" where
  "thread_create K c thread start arg s =
    bindE (cur c s) (\<lambda>p.
      let mlimit = memory_limit (share_of (m s) p) in
      if mlimit \<noteq> 0 \<and> mlimit < sh_sz (share_of (m s) p) + 2 * PGSIZE then Inr (-1, s)
      else
        bindE (allocproc_th K c s) (\<lambda>(r, s1).
          case r of
            None \<Rightarrow> Inr (-1, s1)
          | Some n \<Rightarrow>
              bindE (plock_acquire c s1) (\<lambda>s2.
                let cp = tprocs (m s2) p;
                    s3 = share_with K p n s2;
                    pg = t_pgdir (tprocs (m s3) n);
                    k = shared_info (tprocs (m s3) n);
                    base = PGROUNDUP (sh_sz (shares (m s3) k))
                in bindE (op_allocuvm K pg base (base + 2 * PGSIZE) (env s3)) (\<lambda>(sz, e1).
                  let s4 = s3\<lparr>env := e1\<rparr> in
                  if sz = 0 then
                    bindE (op_kfree K (t_kstack (tprocs (m s4) n)) (env s4)) (\<lambda>e2.
                    bindE (plock_release c (upd_tp n (\<lambda>t. t\<lparr>t_kstack := 0, t_state := UNUSED\<rparr>) (s4\<lparr>env := e2\<rparr>)))
                      (\<lambda>s5. Inr (-1, s5)))
                  else
                    bindE (op_clearpteu K pg (sz - 2 * PGSIZE) (env s4)) (\<lambda>e2.
                    bindE (on_m (link_thread n) (s4\<lparr>env := e2\<rparr>)) (\<lambda>s5.
                    bindE (op_store K pg (sz - 4) arg (env s5)) (\<lambda>e3.
                    bindE (op_store K pg (sz - 8) 0xffffffff e3) (\<lambda>e4.
                      let s6 = upd_sh k (\<lambda>h. h\<lparr>sh_sz := sz\<rparr>) (s5\<lparr>env := e4\<rparr>);
                          s7 = upd_tp n (\<lambda>t. t\<lparr>t_tf := (t_tf cp)\<lparr>tf_eip := start, tf_esp := sz - 8\<rparr>\<rparr>) s6
                      in bindE (op_store K pg thread (word_of_int (t_tid (tprocs (m s7) n))) (env s7)) (\<lambda>e5.
                         bindE (plock_release c (upd_tp n (\<lambda>t. t\<lparr>t_state := RUNNABLE\<rparr>) (s7\<lparr>env := e5\<rparr>)))
                           (\<lambda>s8. Inr (0, s8)))))))))))"

section \<open>Ending processes and threads\<close>

fun close_files_th :: "'e kops \<Rightarrow> nat \<Rightarrow> ptr \<Rightarrow> nat list \<Rightarrow> 'e tkst \<Rightarrow> kerr + 'e tkst" where
  "close_files_th K c k [] s = Inr s"
| "close_files_th K c k (fd # fds) s =
     (case sh_ofile (shares (m s) k) ! fd of
        None \<Rightarrow> close_files_th K c k fds s
      | Some f \<Rightarrow>
          bindE (op_fileclose K f (env s)) (\<lambda>(chs, e).
          bindE (wakeup_all_th c chs (s\<lparr>env := e\<rparr>)) (\<lambda>s1.
            close_files_th K c k fds (upd_sh k (\<lambda>h. h\<lparr>sh_ofile := (sh_ofile h)[fd := None]\<rparr>) s1))))"

fun reparent_th :: "nat list \<Rightarrow> nat \<Rightarrow> tst \<Rightarrow> tst" where
  "reparent_th [] p s = s"
| "reparent_th (i # is) p s =
     (if sh_parent (share_of s i) = Some p then
        let s1 = upd_share (shared_info (tprocs s i)) (\<lambda>h. h\<lparr>sh_parent := t_initproc s\<rparr>) s;
            s2 = (if t_state (tprocs s1 i) = ZOMBIE then wakeup1_th (proc_chan (t_initproc s1)) s1 else s1)
        in reparent_th is p s2
      else reparent_th is p s)"

definition exit_locked_th :: "nat \<Rightarrow> tst \<Rightarrow> kerr + tst" where
  "exit_locked_th p s =
    (let s1 = wakeup1_th (proc_chan (sh_parent (share_of s p))) s;
         s2 = reparent_th [0..<NPROC] p s1
     in fam_upd fam_fuel (\<lambda>_ t. t\<lparr>t_state := ZOMBIE\<rparr>) (th_family_hd (share_of s2 p)) s2)"

definition exit_th :: "'e kops \<Rightarrow> nat \<Rightarrow> 'e tkst \<Rightarrow> kerr + ptr \<times> 'e tkst" where
  "exit_th K c s =
    bindE (cur c s) (\<lambda>p.
      if t_initproc (m s) = Some p then Inl (Panic ''init exiting'')
      else
        bindE (close_files_th K c (shared_info (tprocs (m s) p)) [0..<NOFILE] s) (\<lambda>s1.
        bindE (op_iput K (t_cwd (tprocs (m s1) p)) (env s1)) (\<lambda>(chs, e).
        bindE (wakeup_all_th c chs (s1\<lparr>env := e\<rparr>)) (\<lambda>s2.
        bindE (plock_acquire c (upd_tp p (\<lambda>t. t\<lparr>t_cwd := None\<rparr>) s2)) (\<lambda>s3.
        bindE (on_m (exit_locked_th p) s3) (resched c p))))))"

text \<open>The thread does not return from \<^verbatim>\<open>thread_exit\<close> unless it is a main thread (\<open>Inr None\<close>).\<close>

definition thread_exit :: "'e kops \<Rightarrow> nat \<Rightarrow> u32 \<Rightarrow> 'e tkst \<Rightarrow> kerr + (ptr \<times> 'e tkst) option" where
  "thread_exit K c ret s =
    bindE (cur c s) (\<lambda>p.
      if th_main (tprocs (m s) p) = Some p then Inr None
      else
        bindE (op_iput K (t_cwd (tprocs (m s) p)) (env s)) (\<lambda>(chs, e).
        bindE (wakeup_all_th c chs (s\<lparr>env := e\<rparr>)) (\<lambda>s1.
        bindE (plock_acquire c (upd_tp p (\<lambda>t. t\<lparr>t_cwd := None\<rparr>) s1)) (\<lambda>s2.
          let s3 = upd_tp p (\<lambda>t. t\<lparr>t_retval := ret\<rparr>) s2;
              s4 = s3\<lparr>m := wakeup1_th (proc_chan (th_main (tprocs (m s3) p))) (m s3)\<rparr>
          in bindE (resched c p (upd_tp p (\<lambda>t. t\<lparr>t_state := ZOMBIE\<rparr>) s4)) (\<lambda>r. Inr (Some r))))))"

text \<open>The fields \<^verbatim>\<open>wait\<close> and \<^verbatim>\<open>thread_join\<close> clear in a slot they reap.\<close>

definition clear_slot :: "tproc \<Rightarrow> tproc" where
  "clear_slot t = t\<lparr>t_kstack := 0, t_pid := 0, t_name := [], t_killed := False, t_state := UNUSED, t_tid := 0,
     th_next := None, t_retval := 0, th_main := None\<rparr>"

datatype join_result = Joined | JoinKilled | JoinSleep

fun join_scan :: "tst \<Rightarrow> int \<Rightarrow> nat list \<Rightarrow> ptr" where
  "join_scan s tid [] = None"
| "join_scan s tid (i # is) =
     (if t_tid (tprocs s i) = tid \<and> t_state (tprocs s i) = ZOMBIE then Some i else join_scan s tid is)"

text \<open>One pass of the loop of \<^verbatim>\<open>thread_join\<close>; \<open>ret\<close> is the user address the result is stored at.\<close>

definition thread_join :: "'e kops \<Rightarrow> nat \<Rightarrow> int \<Rightarrow> u32 \<Rightarrow> 'e tkst \<Rightarrow> kerr + join_result \<times> 'e tkst" where
  "thread_join K c tid ret s =
    bindE (cur c s) (\<lambda>p.
    bindE (plock_acquire c s) (\<lambda>s1.
      case join_scan (m s1) tid [0..<NPROC] of
        Some i \<Rightarrow>
          bindE (op_store K (t_pgdir (tprocs (m s1) p)) ret (t_retval (tprocs (m s1) i)) (env s1)) (\<lambda>e1.
          bindE (op_kfree K (t_kstack (tprocs (m s1) i)) e1) (\<lambda>e2.
          bindE (on_m (delete_thread i) (upd_tp i clear_slot (s1\<lparr>env := e2\<rparr>))) (\<lambda>s2.
          bindE (plock_release c s2) (\<lambda>s3. Inr (Joined, s3)))))
      | None \<Rightarrow>
          if t_killed (tprocs (m s1) p)
          then bindE (plock_release c s1) (\<lambda>s2. Inr (JoinKilled, s2))
          else
            let s2 = upd_tp p (\<lambda>t. t\<lparr>t_chan := proc_chan (th_main t), t_state := SLEEPING\<rparr>) s1
            in bindE (resched c p s2) (\<lambda>(_, s3). Inr (JoinSleep, s3))))"

datatype wait_result_th = WReaped int | WNoChild | WSleep

text \<open>The branch of \<^verbatim>\<open>wait\<close> for a main thread: close the caller's files without the lock, free the page
  directory.\<close>

definition free_main :: "'e kops \<Rightarrow> nat \<Rightarrow> nat \<Rightarrow> nat \<Rightarrow> 'e tkst \<Rightarrow> kerr + 'e tkst" where
  "free_main K c p i s =
    bindE (plock_release c s) (\<lambda>s1.
    bindE (close_files_th K c (shared_info (tprocs (m s1) p)) [0..<NOFILE] s1) (\<lambda>s2.
    bindE (plock_acquire c s2) (\<lambda>s3.
    bindE (op_freevm K (t_pgdir (tprocs (m s3) i)) (env s3)) (\<lambda>e. Inr (s3\<lparr>env := e\<rparr>)))))"

text \<open>The scan of \<^verbatim>\<open>wait\<close>: it reaps every zombie it meets and remembers the last one's pid and share entry.\<close>

fun wait_scan_th :: "'e kops \<Rightarrow> nat \<Rightarrow> nat \<Rightarrow> nat list \<Rightarrow> bool \<Rightarrow> (int \<times> ptr) option \<Rightarrow> 'e tkst \<Rightarrow>
    kerr + bool \<times> (int \<times> ptr) option \<times> 'e tkst" where
  "wait_scan_th K c p [] havekids lst s = Inr (havekids, lst, s)"
| "wait_scan_th K c p (i # is) havekids lst s =
     (if sh_parent (share_of (m s) i) \<noteq> Some p then wait_scan_th K c p is havekids lst s
      else if t_state (tprocs (m s) i) = ZOMBIE then
        bindE (op_kfree K (t_kstack (tprocs (m s) i)) (env s)) (\<lambda>e.
          let found = (t_pid (tprocs (m s) i), shared_info (tprocs (m s) i));
              s1 = upd_tp i clear_slot (s\<lparr>env := e\<rparr>)
          in bindE (if th_main (tprocs (m s1) i) = Some i then free_main K c p i s1 else Inr s1)
               (wait_scan_th K c p is True (Some found)))
      else wait_scan_th K c p is True lst s)"

definition wait_th :: "'e kops \<Rightarrow> nat \<Rightarrow> 'e tkst \<Rightarrow> kerr + wait_result_th \<times> 'e tkst" where
  "wait_th K c s =
    bindE (cur c s) (\<lambda>p.
    bindE (plock_acquire c s) (\<lambda>s1.
    bindE (wait_scan_th K c p [0..<NPROC] False None s1) (\<lambda>(havekids, last, s2).
      case last of
        Some (n, k) \<Rightarrow>
          bindE (plock_release c (s2\<lparr>m := dealloc_th_share k (m s2)\<rparr>)) (\<lambda>s3. Inr (WReaped n, s3))
      | None \<Rightarrow>
          if \<not> havekids \<or> t_killed (tprocs (m s2) p)
          then bindE (plock_release c s2) (\<lambda>s3. Inr (WNoChild, s3))
          else bindE (resched c p (upd_tp p (\<lambda>t. t\<lparr>t_chan := ProcChan p, t_state := SLEEPING\<rparr>) s2))
                 (\<lambda>(_, s3). Inr (WSleep, s3)))))"

end
