(* ===== verification/ThreadFam.thy ===== *)
theory ThreadFam
  imports Threads
begin

text \<open>
  The thread families of \<open>Threads\<close> as lists: \<open>family_of s k xs\<close> says that the share entry \<open>k\<close>
  has the threads \<open>xs\<close>, in order of creation, linked from \<^verbatim>\<open>th_family_hd\<close> to
  \<^verbatim>\<open>th_last\<close>. Loops over a family visit every thread once and end; \<^verbatim>\<open>thread_create\<close>
  appends; \<^verbatim>\<open>delete_thread\<close> removes the target.
\<close>

lemma upd_t_sel [simp]:
  "tprocs (upd_t p f s) i = (if i = p then f (tprocs s p) else tprocs s i)"
  "shares (upd_t p f s) = shares s" "t_initproc (upd_t p f s) = t_initproc s"
  "t_nextpid (upd_t p f s) = t_nextpid s" "t_nexttid (upd_t p f s) = t_nexttid s"
  by (simp_all add: upd_t_def)

lemma upd_share_sel [simp]:
  "shares (upd_share k f s) j = (if j = k then f (shares s k) else shares s j)"
  "tprocs (upd_share k f s) = tprocs s" "t_initproc (upd_share k f s) = t_initproc s"
  "t_nextpid (upd_share k f s) = t_nextpid s" "t_nexttid (upd_share k f s) = t_nexttid s"
  by (simp_all add: upd_share_def)

lemma upd_tp_sel [simp]:
  "m (upd_tp p f s) = upd_t p f (m s)" "env (upd_tp p f s) = env s" "cpus (upd_tp p f s) = cpus s"
  "plock (upd_tp p f s) = plock s" "saved_intena (upd_tp p f s) = saved_intena s"
  "m (upd_sh k g s) = upd_share k g (m s)" "env (upd_sh k g s) = env s" "cpus (upd_sh k g s) = cpus s"
  "plock (upd_sh k g s) = plock s" "saved_intena (upd_sh k g s) = saved_intena s"
  by (simp_all add: upd_tp_def upd_sh_def)

abbreviation links :: "tst \<Rightarrow> nat \<Rightarrow> ptr" where
  "links s \<equiv> \<lambda>p. th_next (tprocs s p)"

definition family_of :: "tst \<Rightarrow> ptr \<Rightarrow> nat list \<Rightarrow> bool" where
  "family_of s k xs \<longleftrightarrow>
     th_family_hd (shares s k) = first_or xs None \<and> th_last (shares s k) = last_or None xs \<and>
     chain (links s) xs None \<and> distinct xs \<and> set xs \<subseteq> {..<NPROC} \<and>
     (\<forall>p \<in> set xs. shared_info (tprocs s p) = k)"

lemma family_fuel: "family_of s k xs \<Longrightarrow> length xs < fam_fuel"
  using distinct_subset_length [of xs NPROC] by (auto simp: family_of_def fam_fuel_def)

lemma fam_upd_chain:
  assumes "chain (links s) xs None" and "distinct xs" and "length xs < n"
    and f: "\<And>i t. th_next (f i t) = th_next t"
  shows "fam_upd n f (first_or xs None) s =
    Inr (s\<lparr>tprocs := (\<lambda>i. if i \<in> set xs then f i (tprocs s i) else tprocs s i)\<rparr>)"
  using assms(1-3)
proof (induction xs arbitrary: n s)
  case (Cons x xs)
  from Cons.prems(3) obtain k where n: "n = Suc k" "length xs < k" by (cases n) auto
  let ?u = "upd_t x (f x) s"
  have "chain (links ?u) xs None = chain (links s) xs None"
    by (rule chain_cong) (simp add: f)
  with Cons.prems n have "fam_upd k f (first_or xs None) ?u =
      Inr (?u\<lparr>tprocs := (\<lambda>i. if i \<in> set xs then f i (tprocs ?u i) else tprocs ?u i)\<rparr>)"
    by (intro Cons.IH) simp_all
  moreover have "?u\<lparr>tprocs := (\<lambda>i. if i \<in> set xs then f i (tprocs ?u i) else tprocs ?u i)\<rparr> =
      s\<lparr>tprocs := (\<lambda>i. if i \<in> set (x # xs) then f i (tprocs s i) else tprocs s i)\<rparr>"
    using Cons.prems(2) by (intro tst.equality) (auto simp: fun_eq_iff)
  ultimately show ?case using Cons.prems(1) by (simp add: n f Let_def)
qed simp

lemma fam_upd_family:
  assumes "family_of s k xs" and "\<And>i t. th_next (f i t) = th_next t"
  shows "fam_upd fam_fuel f (th_family_hd (shares s k)) s =
    Inr (s\<lparr>tprocs := (\<lambda>i. if i \<in> set xs then f i (tprocs s i) else tprocs s i)\<rparr>)"
  using fam_upd_chain [of s xs fam_fuel f] assms family_fuel [OF assms(1)] by (simp add: family_of_def)

lemma link_thread_family:
  assumes fam: "family_of s k xs" and n: "n \<notin> set xs" "n < NPROC" "shared_info (tprocs s n) = k"
    "th_next (tprocs s n) = None"
  shows "succeeds (link_thread n s) (\<lambda>t. family_of t k (xs @ [n]) \<and>
    (\<forall>i. tprocs t i = (tprocs s i)\<lparr>th_next := th_next (tprocs t i)\<rparr>) \<and>
    (\<forall>j. shares t j = (shares s j)\<lparr>th_family_hd := th_family_hd (shares t j), th_last := th_last (shares t j)\<rparr>) \<and>
    (\<forall>j. j \<noteq> k \<longrightarrow> shares t j = shares s j) \<and> t_initproc t = t_initproc s)"
proof (cases xs rule: rev_cases)
  case Nil
  with assms show ?thesis by (auto simp: link_thread_def family_of_def Let_def)
next
  case (snoc ys z)
  let ?t = "upd_share k (\<lambda>h. h\<lparr>th_last := Some n\<rparr>) (upd_t z (\<lambda>t. t\<lparr>th_next := Some n\<rparr>) s)"
  have h: "th_family_hd (shares s k) \<noteq> None" "th_last (shares s k) = Some z"
    using fam snoc by (auto simp: family_of_def) (cases ys; auto)
  have d: "distinct ys" "z \<notin> set ys" "z \<noteq> n" "n \<notin> set ys" using fam n snoc by (auto simp: family_of_def)
  have "chain (links ?t) ys (Some z) = chain (links s) ys (Some z)"
    using d by (intro chain_cong) auto
  moreover have "chain (links s) ys (Some z)" using fam snoc by (simp add: family_of_def)
  ultimately have "family_of ?t k (xs @ [n])"
    using fam n snoc d by (auto simp: family_of_def)
  moreover have "link_thread n s = Inr ?t" using h n(3) by (auto simp: link_thread_def Let_def)
  ultimately show ?thesis by simp
qed

lemma find_prev_chain:
  assumes "chain (links s) xs (Some b)" and "b \<notin> set xs" and "length xs < n" and "xs \<noteq> []"
  shows "find_prev n s b tmp (first_or xs (Some b)) = Inr (last_or tmp xs)"
  using assms
proof (induction xs arbitrary: n tmp)
  case (Cons x xs)
  from Cons.prems(3) obtain k where n: "n = Suc k" "length xs < k" by (cases n) auto
  show ?case
  proof (cases xs)
    case Nil
    with Cons.prems n show ?thesis by (cases k) auto
  next
    case (Cons y ys)
    with Cons.IH [of k "Some x"] Cons.prems n show ?thesis by auto
  qed
qed simp

lemma delete_thread_family:
  assumes fam: "family_of s k xs" and b: "b \<in> set xs" and "length xs > 1"
  shows "succeeds (delete_thread b s) (\<lambda>t. family_of t k (remove1 b xs))"
proof -
  obtain as bs where xs: "xs = as @ b # bs" using b by (auto dest: split_list)
  have d: "distinct xs" using fam by (simp add: family_of_def)
  show ?thesis
  proof (cases as rule: rev_cases)
    case Nil
    then have "bs \<noteq> []" using xs assms(3) by auto
    with Nil fam xs show ?thesis
      by (cases bs) (auto simp: delete_thread_def family_of_def Let_def)
  next
    case (snoc cs z)
    have sh: "shared_info (tprocs s b) = k" "shared_info (tprocs s z) = k"
      using fam xs snoc by (auto simp: family_of_def)
    have nx: "th_next (tprocs s b) = first_or bs None" and hd: "th_family_hd (shares s k) = first_or as (Some b)"
      and ch: "chain (links s) as (Some b)" "chain (links s) bs None"
      using fam xs snoc by (auto simp: family_of_def)
    have "find_prev fam_fuel s b (first_or as (Some b)) (first_or as (Some b)) = Inr (last_or (first_or as (Some b)) as)"
      using ch(1) d xs snoc family_fuel [OF fam] by (intro find_prev_chain) auto
    then have fp: "find_prev fam_fuel s b (first_or as (Some b)) (first_or as (Some b)) = Inr (Some z)"
      using snoc by simp
    have nh: "first_or as (Some b) \<noteq> Some b" using d xs snoc by (cases cs) auto
    let ?u = "upd_t z (\<lambda>x. x\<lparr>th_next := first_or bs None\<rparr>) s"
    let ?t = "if bs = [] then upd_share k (\<lambda>h. h\<lparr>th_last := Some z\<rparr>) ?u else ?u"
    have del: "delete_thread b s = Inr ?t"
      using sh nx hd fp nh by (cases bs) (auto simp: delete_thread_def Let_def)
    have lk: "chain (links ?t) ys e = chain (links s) ys e" if "z \<notin> set ys" for ys e
      using that by (intro chain_cong) auto
    have dz: "z \<notin> set cs" "z \<notin> set bs" "z \<noteq> b" "b \<notin> set as" using d xs snoc by auto
    have "chain (links ?t) (cs @ z # bs) None"
      using ch snoc dz lk by auto
    moreover have "last_or (Some b) bs = last_or (Some z) bs" if "bs \<noteq> []"
      using that by (simp add: last_or_def)
    ultimately have "family_of ?t k (as @ bs)"
      using fam xs snoc by (auto simp: family_of_def)
    then show ?thesis using del xs dz by (simp add: remove1_split)
  qed
qed

text \<open>\<^verbatim>\<open>thread_join\<close> clears the slot, \<^verbatim>\<open>th_next\<close> included, before it calls \<^verbatim>\<open>delete_thread\<close>; what
  is left of the family is the part in front of the joined thread.\<close>

lemma clear_then_delete:
  assumes fam: "family_of s k (as @ b # bs)" and "as \<noteq> []"
  shows "succeeds (delete_thread b (upd_t b clear_slot s)) (\<lambda>t. family_of t k as)"
proof -
  have d: "distinct (as @ b # bs)" using fam by (simp add: family_of_def)
  obtain cs z where as: "as = cs @ [z]" using assms(2) by (cases as rule: rev_cases) auto
  let ?c = "upd_t b clear_slot s"
  have cl: "th_next (clear_slot t) = None" "shared_info (clear_slot t) = shared_info t" for t
    by (simp_all add: clear_slot_def)
  have sh: "shared_info (tprocs s b) = k" "shared_info (tprocs s z) = k"
    using fam as by (auto simp: family_of_def)
  have ch: "chain (links ?c) as (Some b)"
    using fam d by (subst chain_cong [of _ _ "links s"]) (auto simp: family_of_def)
  have hd: "th_family_hd (shares s k) = first_or as (Some b)" using fam by (simp add: family_of_def)
  have "find_prev fam_fuel ?c b (first_or as (Some b)) (first_or as (Some b)) = Inr (last_or (first_or as (Some b)) as)"
    using ch d as family_fuel [OF fam] by (intro find_prev_chain) auto
  then have fp: "find_prev fam_fuel ?c b (first_or as (Some b)) (first_or as (Some b)) = Inr (Some z)"
    using as by simp
  have nh: "first_or as (Some b) \<noteq> Some b" using d as by (cases cs) auto
  have zb: "z \<noteq> b" using d as by auto
  let ?t = "upd_share k (\<lambda>h. h\<lparr>th_last := Some z\<rparr>) (upd_t z (\<lambda>x. x\<lparr>th_next := None\<rparr>) ?c)"
  have "delete_thread b ?c = Inr ?t"
    using sh hd fp nh zb by (simp add: delete_thread_def Let_def cl)
  moreover have "family_of ?t k as"
  proof -
    have "chain (links ?t) cs (Some z) = chain (links s) cs (Some z)"
      using d as by (intro chain_cong) auto
    then show ?thesis using fam as d zb by (auto simp: family_of_def)
  qed
  ultimately show ?thesis by simp
qed

section \<open>Switching never panics\<close>

lemma in_section_upd_tp [simp]:
  "in_section c (upd_tp p f s) = in_section c s" "in_section c (upd_sh k g s) = in_section c s"
  by (simp_all add: upd_tp_def upd_sh_def)

definition run_slot :: "tproc \<Rightarrow> tproc" where
  "run_slot t = t\<lparr>t_state := RUNNING, t_chan := NullChan\<rparr>"

text \<open>The scan takes the first runnable slot at or behind \<open>i\<close>.\<close>

lemma scan_from_section:
  assumes "in_section c s"
  shows "succeeds (scan_from c i s) (\<lambda>(r, t). lock_ready c t \<and> env t = env s \<and>
    r = find (\<lambda>p. t_state (tprocs (m s) p) = RUNNABLE) [i..<NPROC] \<and>
    (case r of None \<Rightarrow> m t = m s \<and> runs t = runs s
     | Some p \<Rightarrow> m t = upd_t p run_slot (m s) \<and> runs t = (runs s)(c := Some p)))"
proof (cases "find (\<lambda>p. t_state (tprocs (m s) p) = RUNNABLE) [i..<NPROC]")
  case None
  with plock_release_section [OF assms] show ?thesis by (auto simp: scan_from_def elim!: succeedsE)
next
  case (Some p)
  let ?s1 = "upd_tp p (\<lambda>t. t\<lparr>t_state := RUNNING\<rparr>) (set_cpu_proc c (Some p) s)"
  let ?s2 = "?s1\<lparr>cpus := (cpus ?s1)(c := (cpus ?s1 c)\<lparr>intena := saved_intena ?s1 p\<rparr>)\<rparr>"
  let ?s3 = "upd_tp p (\<lambda>t. t\<lparr>t_chan := NullChan\<rparr>) ?s2"
  have sec: "in_section c ?s3" using assms by (simp del: upd_tp_sel)
  obtain t where t: "plock_release c ?s3 = Inr t" "lock_ready c t" "m t = m ?s3" "env t = env ?s3" "runs t = runs ?s3"
    using plock_release_section [OF sec] by (rule succeedsE) blast
  have "m ?s3 = upd_t p run_slot (m s)"
    by (simp add: upd_t_def run_slot_def set_cpu_proc_def)
  moreover have "runs ?s3 = (runs s)(c := Some p)"
    by (auto simp: set_cpu_proc_def fun_eq_iff)
  moreover have "env ?s3 = env s" by (simp add: set_cpu_proc_def)
  ultimately show ?thesis using Some t by (simp add: scan_from_def Let_def)
qed

lemma resched_section:
  assumes "in_section c s" and "t_state (tprocs (m s) p) \<noteq> RUNNING"
  shows "succeeds (resched c p s) (\<lambda>(r, t). lock_ready c t \<and> env t = env s \<and>
    r = find (\<lambda>q. t_state (tprocs (m s) q) = RUNNABLE) [Suc p..<NPROC] \<and>
    (case r of None \<Rightarrow> m t = m s \<and> runs t = (runs s)(c := None)
     | Some q \<Rightarrow> m t = upd_t q run_slot (m s) \<and> runs t = (runs s)(c := Some q)))"
proof -
  let ?s1 = "s\<lparr>saved_intena := (saved_intena s)(p := intena (cpus s c))\<rparr>"
  have c: "cpu_ok (cpus s c)" "ncli (cpus s c) = 1" "locked (plock s)" "lk_cpu (plock s) = Some c" "\<not> iflag (cpus s c)"
    using assms(1) by (auto simp: in_section_def cpu_ok_def)
  have "sched_th c p s = Inr ?s1"
    using c assms(2) by (simp add: sched_th_def holding_result Let_def)
  moreover have sec: "in_section c (set_cpu_proc c None ?s1)" using assms(1) by simp
  moreover have "runs (set_cpu_proc c None ?s1) = (runs s)(c := None)" "m (set_cpu_proc c None ?s1) = m s"
    "env (set_cpu_proc c None ?s1) = env s"
    by (auto simp: set_cpu_proc_def fun_eq_iff)
  ultimately show ?thesis
    using scan_from_section [OF sec, of "Suc p"]
    by (auto simp: resched_def elim!: succeeds_mono split: option.splits)
qed

end
