(* ===== verification/ThreadProps.thy ===== *)
theory ThreadProps
  imports ThreadFam
begin

text \<open>
  The properties of the kernel with light-weight processes: what the operations on thread families do, the
  memory limit, the scheduler's round, and the cases in which \<^verbatim>\<open>wait\<close> and \<^verbatim>\<open>thread_join\<close> do not do
  what they mean to, each on a concrete state.
\<close>

section \<open>Operations that leave the families alone\<close>

definition same_fam :: "tst \<Rightarrow> tst \<Rightarrow> bool" where
  "same_fam s t \<longleftrightarrow>
     (\<forall>i. th_next (tprocs t i) = th_next (tprocs s i) \<and> shared_info (tprocs t i) = shared_info (tprocs s i)) \<and>
     (\<forall>k. th_family_hd (shares t k) = th_family_hd (shares s k) \<and> th_last (shares t k) = th_last (shares s k))"

lemma same_fam_refl [simp]: "same_fam s s"
  by (simp add: same_fam_def)

lemma same_fam_trans: "same_fam s t \<Longrightarrow> same_fam t u \<Longrightarrow> same_fam s u"
  by (simp add: same_fam_def)

lemma family_same: "same_fam s t \<Longrightarrow> family_of t k xs = family_of s k xs"
  by (simp add: same_fam_def family_of_def)

lemma wakeup1_th_sel [simp]:
  "shares (wakeup1_th c s) = shares s" "t_initproc (wakeup1_th c s) = t_initproc s"
  "shared_info (tprocs (wakeup1_th c s) i) = shared_info (tprocs s i)"
  "th_next (tprocs (wakeup1_th c s) i) = th_next (tprocs s i)"
  "t_pid (tprocs (wakeup1_th c s) i) = t_pid (tprocs s i)"
  "t_chan (tprocs (wakeup1_th c s) i) = t_chan (tprocs s i)"
  "t_state (tprocs (wakeup1_th c s) i) = (if i < NPROC \<and> t_state (tprocs s i) = SLEEPING \<and> t_chan (tprocs s i) = c
     then RUNNABLE else t_state (tprocs s i))"
  by (auto simp: wakeup1_th_def)

lemma wakeup1_th_same [simp]: "same_fam s (wakeup1_th c s)"
  by (simp add: same_fam_def)

definition th_wakes :: "tst \<Rightarrow> tst \<Rightarrow> bool" where
  "th_wakes s t \<longleftrightarrow> (\<forall>i. t_chan (tprocs t i) = t_chan (tprocs s i) \<and>
     (t_state (tprocs t i) = t_state (tprocs s i) \<or> t_state (tprocs s i) = SLEEPING \<and> t_state (tprocs t i) = RUNNABLE))"

lemma th_wakes_refl [simp]: "th_wakes s s"
  by (simp add: th_wakes_def)

lemma th_wakes_trans: "th_wakes s t \<Longrightarrow> th_wakes t u \<Longrightarrow> th_wakes s u"
  unfolding th_wakes_def by (metis procstate.distinct(17))

lemma wakeup1_th_wakes [simp]: "th_wakes s (wakeup1_th c s)"
  by (auto simp: th_wakes_def)

lemma th_wakes_share [simp]: "th_wakes s (upd_share k f t) = th_wakes s t"
  by (simp add: th_wakes_def)

lemma reparent_th_effect:
  assumes "t_initproc s \<noteq> Some p"
  shows "same_fam s (reparent_th is p s) \<and> th_wakes s (reparent_th is p s) \<and>
    t_initproc (reparent_th is p s) = t_initproc s \<and>
    (\<forall>k. sh_parent (shares (reparent_th is p s) k) =
       (if sh_parent (shares s k) = Some p \<and> k \<in> (\<lambda>i. shared_info (tprocs s i)) ` set is
        then t_initproc s else sh_parent (shares s k)))"
  using assms
proof (induction "is" arbitrary: s)
  case (Cons i js)
  show ?case
  proof (cases "sh_parent (share_of s i) = Some p")
    case False
    with Cons.IH [OF Cons.prems] show ?thesis by auto
  next
    case True
    define u where "u = upd_share (shared_info (tprocs s i)) (\<lambda>h. h\<lparr>sh_parent := t_initproc s\<rparr>) s"
    define v where "v = (if t_state (tprocs u i) = ZOMBIE then wakeup1_th (proc_chan (t_initproc u)) u else u)"
    have su: "same_fam s u" by (simp add: same_fam_def u_def)
    have sv: "same_fam s v" using same_fam_trans [OF su wakeup1_th_same] su by (simp add: v_def)
    have wu: "th_wakes s u" by (simp add: u_def)
    have wv: "th_wakes s v" using th_wakes_trans [OF wu wakeup1_th_wakes] wu by (simp add: v_def)
    have v: "t_initproc v = t_initproc s" "shares v = shares u" "\<And>j. shared_info (tprocs v j) = shared_info (tprocs s j)"
      by (simp_all add: v_def u_def)
    have r: "reparent_th (i # js) p s = reparent_th js p v"
      using True by (simp add: u_def v_def Let_def)
    note ih = Cons.IH [of v]
    from ih Cons.prems v sv wv True show ?thesis
      unfolding r by (auto simp: u_def intro: same_fam_trans th_wakes_trans)
  qed
qed simp

section \<open>Killing and exiting take the whole family\<close>

lemma kill_family:
  assumes fam: "family_of s k xs" and p: "find (\<lambda>p. t_pid (tprocs s p) = n) [0..<NPROC] = Some p" "p \<in> set xs"
  shows "succeeds (kill_th n s) (\<lambda>(r, t). r = 0 \<and> family_of t k xs \<and>
    (\<forall>i. t_killed (tprocs t i) = (i \<in> set xs \<or> t_killed (tprocs s i)) \<and>
         t_state (tprocs t i) = (if i \<in> set xs \<and> t_state (tprocs s i) = SLEEPING then RUNNABLE else t_state (tprocs s i))))"
proof -
  let ?u = "upd_t p (\<lambda>t. t\<lparr>t_killed := True\<rparr>) s"
  let ?f = "\<lambda>(i::nat) t. let t1 = t\<lparr>t_killed := True\<rparr> in if t_state t1 = SLEEPING then t1\<lparr>t_state := RUNNABLE\<rparr> else t1"
  have su: "same_fam s ?u" by (simp add: same_fam_def)
  have fu: "family_of ?u k xs" using family_same [OF su] fam by simp
  have k: "shared_info (tprocs ?u p) = k" using fam p(2) by (auto simp: family_of_def)
  have "kill_th n s = Inr (0, ?u\<lparr>tprocs := (\<lambda>i. if i \<in> set xs then ?f i (tprocs ?u i) else tprocs ?u i)\<rparr>)"
    using fam_upd_family [OF fu, of ?f] p k by (simp add: kill_th_def Let_def)
  moreover have "family_of (?u\<lparr>tprocs := (\<lambda>i. if i \<in> set xs then ?f i (tprocs ?u i) else tprocs ?u i)\<rparr>) k xs"
    using fu by (subst family_same [of ?u]) (auto simp: same_fam_def Let_def)
  ultimately show ?thesis using p(2) by (auto simp: Let_def)
qed

text \<open>The locked part of \<^verbatim>\<open>exit\<close> turns every thread of the family into a zombie, whichever thread
  called it; nobody stays asleep on the parent, children of the caller belong to \<^verbatim>\<open>init\<close>, and threads outside
  the family change state only by waking.\<close>

lemma exit_takes_family:
  assumes fam: "family_of s k xs" and p: "p \<in> set xs" and ini: "t_initproc s \<noteq> Some p"
  shows "succeeds (exit_locked_th p s) (\<lambda>t. family_of t k xs \<and>
    (\<forall>i \<in> set xs. t_state (tprocs t i) = ZOMBIE) \<and>
    (\<forall>i. i \<notin> set xs \<longrightarrow> t_state (tprocs t i) = t_state (tprocs s i) \<or>
        t_state (tprocs s i) = SLEEPING \<and> t_state (tprocs t i) = RUNNABLE) \<and>
    (\<forall>i < NPROC. \<not> (t_state (tprocs t i) = SLEEPING \<and> t_chan (tprocs t i) = proc_chan (sh_parent (shares s k)))) \<and>
    (\<forall>i < NPROC. sh_parent (share_of t i) \<noteq> Some p))"
proof -
  let ?w = "wakeup1_th (proc_chan (sh_parent (share_of s p))) s"
  let ?r = "reparent_th [0..<NPROC] p ?w"
  have k: "shared_info (tprocs s p) = k" using fam p by (auto simp: family_of_def)
  have rp: "same_fam ?w ?r" "th_wakes ?w ?r" "t_initproc ?r = t_initproc s"
    "\<And>j. sh_parent (shares ?r j) = (if sh_parent (shares s j) = Some p \<and> j \<in> (\<lambda>i. shared_info (tprocs s i)) ` {0..<NPROC}
        then t_initproc s else sh_parent (shares s j))"
    using reparent_th_effect [of ?w p "[0..<NPROC]"] ini by auto
  have sr: "same_fam s ?r" using same_fam_trans [OF wakeup1_th_same rp(1)] .
  have fr: "family_of ?r k xs" using family_same [OF sr] fam by simp
  have kr: "shared_info (tprocs ?r i) = shared_info (tprocs s i)" for i using sr by (simp add: same_fam_def)
  let ?f = "\<lambda>(i::nat) t. t\<lparr>t_state := ZOMBIE\<rparr>"
  define t where "t = ?r\<lparr>tprocs := (\<lambda>i. if i \<in> set xs then ?f i (tprocs ?r i) else tprocs ?r i)\<rparr>"
  have ex: "exit_locked_th p s = Inr t"
    using fam_upd_family [OF fr, of ?f] kr k by (simp add: exit_locked_th_def Let_def t_def)
  have ft: "family_of t k xs"
    using fr by (subst family_same [of ?r]) (auto simp: same_fam_def t_def)
  have wk: "th_wakes s ?r" using th_wakes_trans [OF wakeup1_th_wakes rp(2)] .
  have sl: "\<not> (t_state (tprocs ?r i) = SLEEPING \<and> t_chan (tprocs ?r i) = proc_chan (sh_parent (shares s k)))" if "i < NPROC" for i
  proof
    assume a: "t_state (tprocs ?r i) = SLEEPING \<and> t_chan (tprocs ?r i) = proc_chan (sh_parent (shares s k))"
    then have "t_state (tprocs ?w i) = SLEEPING" "t_chan (tprocs ?w i) = proc_chan (sh_parent (shares s k))"
      using rp(2) unfolding th_wakes_def by (metis procstate.distinct(17))+
    then show False using that k by (auto split: if_splits)
  qed
  have "sh_parent (share_of t i) \<noteq> Some p" if "i < NPROC" for i
    using rp(4) [of "shared_info (tprocs s i)"] that kr ini by (auto simp: t_def)
  with ex ft wk sl show ?thesis by (auto simp: t_def th_wakes_def)
qed

text \<open>\<^verbatim>\<open>exec\<close> first calls \<^verbatim>\<open>kill_threads\<close>: every other thread of the family is a zombie, the caller
  is the only member and main thread of its family, and the memory limit is lifted.\<close>

lemma kill_threads_keeps_caller:
  assumes fam: "family_of s k xs" and p: "p \<in> set xs"
  shows "succeeds (kill_threads p s) (\<lambda>t. family_of t k [p] \<and> th_main (tprocs t p) = Some p \<and>
    memory_limit (shares t k) = 0 \<and> t_state (tprocs t p) = t_state (tprocs s p) \<and>
    (\<forall>i \<in> set xs. i \<noteq> p \<longrightarrow> t_state (tprocs t i) = ZOMBIE) \<and>
    (\<forall>i. i \<notin> set xs \<longrightarrow> tprocs t i = tprocs s i) \<and> (\<forall>j. j \<noteq> k \<longrightarrow> shares t j = shares s j))"
proof -
  let ?f = "\<lambda>i t. if i \<noteq> p then t\<lparr>t_state := ZOMBIE\<rparr> else t"
  have k: "shared_info (tprocs s p) = k" "p < NPROC" using fam p by (auto simp: family_of_def)
  have "fam_upd fam_fuel ?f (th_family_hd (shares s k)) s =
    Inr (s\<lparr>tprocs := (\<lambda>i. if i \<in> set xs then ?f i (tprocs s i) else tprocs s i)\<rparr>)"
    using fam by (rule fam_upd_family) simp
  then show ?thesis using k p by (auto simp: kill_threads_def Let_def family_of_def)
qed

section \<open>The scheduler's round\<close>

text \<open>After a thread in slot \<open>p\<close> gives up the processor, the scheduler runs the next runnable slot behind
  \<open>p\<close>, none of the slots in between being runnable; at the end of the table it releases the lock and starts
  again at slot 0. Nothing panics, and only the chosen thread changes.\<close>

lemma yield_round_robin:
  assumes "lock_ready c s" and run: "runs s c = Some p"
  shows "succeeds (yield_th c s) (\<lambda>(r, t). lock_ready c t \<and>
    (case r of
       None \<Rightarrow> runs t = (runs s)(c := None) \<and> (\<forall>q. p < q \<and> q < NPROC \<longrightarrow> t_state (tprocs (m s) q) \<noteq> RUNNABLE)
     | Some q \<Rightarrow> p < q \<and> q < NPROC \<and> runs t = (runs s)(c := Some q) \<and> t_state (tprocs (m t) q) = RUNNING \<and>
         t_state (tprocs (m s) q) = RUNNABLE \<and> (\<forall>i. p < i \<and> i < q \<longrightarrow> t_state (tprocs (m s) i) \<noteq> RUNNABLE) \<and>
         (\<forall>i. i \<noteq> p \<and> i \<noteq> q \<longrightarrow> tprocs (m t) i = tprocs (m s) i)) \<and>
    t_state (tprocs (m t) p) = RUNNABLE)"
proof -
  let ?u = "upd_tp p (\<lambda>t. t\<lparr>t_state := RUNNABLE\<rparr>) (acquired c s)"
  have sec: "in_section c ?u" using in_section_acquired [OF assms(1)] by simp
  have ru: "runs ?u = runs s" by (simp add: fun_eq_iff)
  have eq: "yield_th c s = resched c p ?u"
    using plock_acquire_ready [OF assms(1)] acquired_sel(3) [of c s c] run by (simp add: yield_th_def cur_def)
  have nr: "t_state (tprocs (m ?u) p) \<noteq> RUNNING" by simp
  obtain r t where rt: "resched c p ?u = Inr (r, t)" "lock_ready c t"
    and r: "r = find (\<lambda>q. t_state (tprocs (m ?u) q) = RUNNABLE) [Suc p..<NPROC]"
    and eff: "case r of None \<Rightarrow> m t = m ?u \<and> runs t = (runs ?u)(c := None)
       | Some q \<Rightarrow> m t = upd_t q run_slot (m ?u) \<and> runs t = (runs ?u)(c := Some q)"
    using resched_section [OF sec nr] by (auto elim!: succeedsE)
  show ?thesis
  proof (cases r)
    case None
    then have "\<forall>q. p < q \<and> q < NPROC \<longrightarrow> t_state (tprocs (m s) q) \<noteq> RUNNABLE"
      using r by (auto simp: find_None_iff split: if_splits)
    with rt eff None ru eq show ?thesis by simp
  next
    case (Some q)
    then have "Suc p \<le> q \<and> q < NPROC \<and> t_state (tprocs (m s) q) = RUNNABLE \<and>
        (\<forall>i. p < i \<and> i < q \<longrightarrow> t_state (tprocs (m s) i) \<noteq> RUNNABLE)"
      using find_upt_first [OF trans [OF r [symmetric] Some]] by (auto split: if_splits)
    with rt eff Some ru eq show ?thesis by (simp add: run_slot_def)
  qed
qed

section \<open>Waiting for children\<close>

lemma clear_slot_sel [simp]:
  "shared_info (clear_slot t) = shared_info t" "t_state (clear_slot t) = UNUSED" "th_main (clear_slot t) = None"
  "t_pid (clear_slot t) = 0" "t_killed (clear_slot t) = False" "th_next (clear_slot t) = None"
  "t_pgdir (clear_slot t) = t_pgdir t"
  by (simp_all add: clear_slot_def)

text \<open>The zombie children a scan over slots \<open>is\<close> finds, and what it does with them.\<close>

abbreviation zombie_of :: "tst \<Rightarrow> nat \<Rightarrow> nat \<Rightarrow> bool" where
  "zombie_of s p i \<equiv> sh_parent (share_of s i) = Some p \<and> t_state (tprocs s i) = ZOMBIE"

definition clear_zombies :: "nat \<Rightarrow> nat set \<Rightarrow> tst \<Rightarrow> tst" where
  "clear_zombies p S s = s\<lparr>tprocs := (\<lambda>i. if i \<in> S \<and> zombie_of s p i then clear_slot (tprocs s i) else tprocs s i)\<rparr>"

lemma clear_zombies_sel [simp]:
  "shares (clear_zombies p S s) = shares s"
  "tprocs (clear_zombies p S s) i = (if i \<in> S \<and> zombie_of s p i then clear_slot (tprocs s i) else tprocs s i)"
  by (simp_all add: clear_zombies_def)

lemma clear_zombies_empty [simp]: "clear_zombies p {} s = s"
  by (simp add: clear_zombies_def)

lemma clear_zombies_cons:
  assumes "i \<notin> S"
  shows "clear_zombies p (insert i S) s =
    (if zombie_of s p i then clear_zombies p S (upd_t i clear_slot s) else clear_zombies p S s)"
  using assms by (auto simp: clear_zombies_def fun_eq_iff intro!: tst.equality)

lemma wait_scan_result:
  assumes kf: "\<And>a e. \<exists>e'. op_kfree K a e = Inr e'" and "distinct is"
  shows "\<exists>e'. wait_scan_th K c p is hk lst s =
    Inr (hk \<or> (\<exists>i \<in> set is. sh_parent (share_of (m s) i) = Some p),
         (case find (zombie_of (m s) p) (rev is) of None \<Rightarrow> lst
          | Some i \<Rightarrow> Some (t_pid (tprocs (m s) i), shared_info (tprocs (m s) i))),
         s\<lparr>m := clear_zombies p (set is) (m s), env := e'\<rparr>)"
  using assms(2)
proof (induction "is" arbitrary: hk lst s)
  case Nil
  have "s\<lparr>env := env s\<rparr> = s" by simp
  then show ?case by (auto intro!: exI [of _ "env s"])
next
  case (Cons i js)
  from Cons.prems have i: "i \<notin> set js" "distinct js" by auto
  show ?case
  proof (cases "zombie_of (m s) p i")
    case False
    then show ?thesis
      using Cons.IH [OF i(2), of "hk \<or> sh_parent (share_of (m s) i) = Some p" lst s]
      by (auto simp: clear_zombies_cons [OF i(1)] find_append split: option.splits)
  next
    case True
    obtain e where e: "op_kfree K (t_kstack (tprocs (m s) i)) (env s) = Inr e" using kf by blast
    let ?u = "upd_tp i clear_slot (s\<lparr>env := e\<rparr>)"
    let ?f = "(t_pid (tprocs (m s) i), shared_info (tprocs (m s) i))"
    obtain e' where e': "wait_scan_th K c p js True (Some ?f) ?u =
      Inr (True, (case find (zombie_of (m ?u) p) (rev js) of None \<Rightarrow> Some ?f
          | Some j \<Rightarrow> Some (t_pid (tprocs (m ?u) j), shared_info (tprocs (m ?u) j))),
         ?u\<lparr>m := clear_zombies p (set js) (m ?u), env := e'\<rparr>)"
      using Cons.IH [OF i(2), of True "Some ?f" ?u] by auto
    have z: "zombie_of (m ?u) p j = zombie_of (m s) p j" if "j \<in> set js" for j using that i(1) by auto
    have "find (zombie_of (m ?u) p) (rev js) = find (zombie_of (m s) p) (rev js)"
      by (rule find_cong) (use z in auto)
    moreover have "t_pid (tprocs (m ?u) j) = t_pid (tprocs (m s) j) \<and> shared_info (tprocs (m ?u) j) = shared_info (tprocs (m s) j)"
      if "find (zombie_of (m s) p) (rev js) = Some j" for j
      using find_SomeD [OF that] i(1) by auto
    moreover have "?u\<lparr>m := clear_zombies p (set js) (m ?u), env := e'\<rparr> =
        s\<lparr>m := clear_zombies p (set (i # js)) (m s), env := e'\<rparr>"
      using True by (simp add: clear_zombies_cons [OF i(1)] upd_tp_def)
    ultimately show ?thesis
      using True e e' by (auto simp: find_append Let_def split: option.splits)
  qed
qed

lemma wait_scan_section:
  assumes kf: "\<And>a e. \<exists>e'. op_kfree K a e = Inr e'" and rd: "lock_ready c s" and run: "runs s c = Some p"
  obtains e' where "wait_th K c s =
    (let s2 = (acquired c s)\<lparr>m := clear_zombies p {0..<NPROC} (m s), env := e'\<rparr> in
     case find (zombie_of (m s) p) (rev [0..<NPROC]) of
       Some i \<Rightarrow> bindE (plock_release c (s2\<lparr>m := dealloc_th_share (shared_info (tprocs (m s) i)) (m s2)\<rparr>))
                  (\<lambda>s3. Inr (WReaped (t_pid (tprocs (m s) i)), s3))
     | None \<Rightarrow>
         if \<not> (\<exists>i < NPROC. sh_parent (share_of (m s) i) = Some p) \<or> t_killed (tprocs (m s2) p)
         then bindE (plock_release c s2) (\<lambda>s3. Inr (WNoChild, s3))
         else bindE (resched c p (upd_tp p (\<lambda>t. t\<lparr>t_chan := ProcChan p, t_state := SLEEPING\<rparr>) s2))
                (\<lambda>(_, s3). Inr (WSleep, s3)))"
proof -
  have bex: "(\<exists>i \<in> {0..<NPROC}. sh_parent (share_of (m s) i) = Some p) = (\<exists>i < NPROC. sh_parent (share_of (m s) i) = Some p)"
    by auto
  obtain e' where sc: "wait_scan_th K c p [0..<NPROC] False None (acquired c s) =
    Inr (\<exists>i < NPROC. sh_parent (share_of (m s) i) = Some p,
         (case find (zombie_of (m s) p) (rev [0..<NPROC]) of None \<Rightarrow> None
          | Some i \<Rightarrow> Some (t_pid (tprocs (m s) i), shared_info (tprocs (m s) i))),
         (acquired c s)\<lparr>m := clear_zombies p {0..<NPROC} (m s), env := e'\<rparr>)"
    using wait_scan_result [OF kf, of "[0..<NPROC]" c p False None "acquired c s"]
    unfolding acquired_sel(1) set_upt bex by (simp only: distinct_upt simp_thms) blast
  have "wait_th K c s = (let s2 = (acquired c s)\<lparr>m := clear_zombies p {0..<NPROC} (m s), env := e'\<rparr> in
     case find (zombie_of (m s) p) (rev [0..<NPROC]) of
       Some i \<Rightarrow> bindE (plock_release c (s2\<lparr>m := dealloc_th_share (shared_info (tprocs (m s) i)) (m s2)\<rparr>))
                  (\<lambda>s3. Inr (WReaped (t_pid (tprocs (m s) i)), s3))
     | None \<Rightarrow>
         if \<not> (\<exists>i < NPROC. sh_parent (share_of (m s) i) = Some p) \<or> t_killed (tprocs (m s2) p)
         then bindE (plock_release c s2) (\<lambda>s3. Inr (WNoChild, s3))
         else bindE (resched c p (upd_tp p (\<lambda>t. t\<lparr>t_chan := ProcChan p, t_state := SLEEPING\<rparr>) s2))
                (\<lambda>(_, s3). Inr (WSleep, s3)))"
    using run sc by (cases "find (zombie_of (m s) p) (rev [0..<NPROC])")
      (simp_all add: wait_th_def cur_def plock_acquire_ready [OF rd] Let_def)
  then show ?thesis by (rule that)
qed

lemma wait_th_found:
  assumes kf: "\<And>a e. \<exists>e'. op_kfree K a e = Inr e'" and rd: "lock_ready c s" and run: "runs s c = Some p"
    and z: "find (zombie_of (m s) p) (rev [0..<NPROC]) = Some i"
  shows "succeeds (wait_th K c s) (\<lambda>(r, t). r = WReaped (t_pid (tprocs (m s) i)) \<and> lock_ready c t \<and> runs t = runs s \<and>
    m t = dealloc_th_share (shared_info (tprocs (m s) i)) (clear_zombies p {0..<NPROC} (m s)))"
proof -
  obtain e' where w: "wait_th K c s = (let s2 = (acquired c s)\<lparr>m := clear_zombies p {0..<NPROC} (m s), env := e'\<rparr> in
     bindE (plock_release c (s2\<lparr>m := dealloc_th_share (shared_info (tprocs (m s) i)) (m s2)\<rparr>))
                  (\<lambda>s3. Inr (WReaped (t_pid (tprocs (m s) i)), s3)))"
    by (rule wait_scan_section [OF kf rd run]) (simp add: z)
  let ?u = "(acquired c s)\<lparr>env := e', m := dealloc_th_share (shared_info (tprocs (m s) i)) (clear_zombies p {0..<NPROC} (m s))\<rparr>"
  have eq: "wait_th K c s = bindE (plock_release c ?u) (\<lambda>s3. Inr (WReaped (t_pid (tprocs (m s) i)), s3))"
    using w by simp
  have "succeeds (plock_release c ?u) (\<lambda>t. lock_ready c t \<and> m t = m ?u \<and> env t = env ?u \<and> runs t = runs s \<and> iflag (cpus t c) = iflag (cpus s c))"
    by (rule plock_release_like [OF rd]) simp_all
  then show ?thesis unfolding eq by (auto elim!: succeedsE)
qed

lemma dealloc_th_share_sel [simp]:
  "tprocs (dealloc_th_share k s) = tprocs s"
  "sh_state (shares (dealloc_th_share k s) j) = (if j = k then EMPTY else sh_state (shares s j))"
  "sh_parent (shares (dealloc_th_share k s) j) = (if j = k then None else sh_parent (shares s j))"
  by (simp_all add: dealloc_th_share_def)

text \<open>\<^verbatim>\<open>wait\<close> with exactly one zombie among the caller's children returns its pid, frees its slot and its share
  entry, and leaves every other slot and entry as it was.\<close>

lemma wait_reaps_child:
  assumes kf: "\<And>a e. \<exists>e'. op_kfree K a e = Inr e'" and rd: "lock_ready c s" and run: "runs s c = Some p"
    and z: "i < NPROC" "zombie_of (m s) p i" "\<And>j. j < NPROC \<Longrightarrow> zombie_of (m s) p j \<Longrightarrow> j = i"
  shows "succeeds (wait_th K c s) (\<lambda>(r, t). r = WReaped (t_pid (tprocs (m s) i)) \<and> lock_ready c t \<and> runs t = runs s \<and>
    tprocs (m t) = (tprocs (m s))(i := clear_slot (tprocs (m s) i)) \<and>
    (\<forall>k. sh_state (shares (m t) k) = (if k = shared_info (tprocs (m s) i) then EMPTY else sh_state (shares (m s) k))))"
proof -
  have "find (zombie_of (m s) p) (rev [0..<NPROC]) = Some i"
    using z by (rule find_rev_upt_unique)
  from wait_th_found [OF kf rd run this] show ?thesis
  proof (rule succeeds_mono, clarify)
    fix t
    assume "lock_ready c t" "runs t = runs s"
      and mt: "m t = dealloc_th_share (shared_info (tprocs (m s) i)) (clear_zombies p {0..<NPROC} (m s))"
    moreover have "tprocs (m t) = (tprocs (m s))(i := clear_slot (tprocs (m s) i))"
    proof
      fix j
      have "j = i" if "j < NPROC" "zombie_of (m s) p j" using that by (rule z(3))
      then show "tprocs (m t) j = ((tprocs (m s))(i := clear_slot (tprocs (m s) i))) j"
        using z(1,2) by (cases "j = i") (auto simp: mt)
    qed
    ultimately show "WReaped (t_pid (tprocs (m s) i)) = WReaped (t_pid (tprocs (m s) i)) \<and> lock_ready c t \<and> runs t = runs s \<and>
      tprocs (m t) = (tprocs (m s))(i := clear_slot (tprocs (m s) i)) \<and>
      (\<forall>k. sh_state (shares (m t) k) = (if k = shared_info (tprocs (m s) i) then EMPTY else sh_state (shares (m s) k)))"
      by simp
  qed
qed


text \<open>\<^verbatim>\<open>wait\<close> takes a zombie thread for an exited child process: when a thread of a child has ended but the child
  still runs, the parent's \<^verbatim>\<open>wait\<close> returns the child's pid and marks the share entry of the running child as empty, so
  that the next \<^verbatim>\<open>fork\<close> may give it away.\<close>

lemma wait_frees_live_share:
  assumes kf: "\<And>a e. \<exists>e'. op_kfree K a e = Inr e'" and rd: "lock_ready c s" and run: "runs s c = Some p"
    and z: "j < NPROC" "zombie_of (m s) p j" "\<And>q. q < NPROC \<Longrightarrow> zombie_of (m s) p q \<Longrightarrow> q = j"
    and live: "shared_info (tprocs (m s) i) = shared_info (tprocs (m s) j)" "t_state (tprocs (m s) i) \<noteq> ZOMBIE"
  shows "succeeds (wait_th K c s) (\<lambda>(r, t). r = WReaped (t_pid (tprocs (m s) j)) \<and>
    tprocs (m t) i = tprocs (m s) i \<and> sh_state (share_of (m t) i) = EMPTY \<and> sh_sz (share_of (m t) i) = 0)"
proof -
  have "find (zombie_of (m s) p) (rev [0..<NPROC]) = Some j"
    using z by (rule find_rev_upt_unique)
  from wait_th_found [OF kf rd run this] show ?thesis
    by (rule succeeds_mono) (use live in \<open>auto simp: dealloc_th_share_def\<close>)
qed

text \<open>\<^verbatim>\<open>wait\<close> never frees a page directory: it sets \<^verbatim>\<open>th_main\<close> to null before it tests whether the slot
  is a main thread, so the branch with \<^verbatim>\<open>freevm\<close> is never taken and \<^verbatim>\<open>wait\<close> behaves the same whatever
  \<^verbatim>\<open>freevm\<close> does.\<close>

lemma wait_never_frees_memory: "wait_th (K\<lparr>op_freevm := f\<rparr>) c s = wait_th K c s"
proof -
  have "wait_scan_th (K\<lparr>op_freevm := f\<rparr>) c p is hk lst s = wait_scan_th K c p is hk lst s" for p "is" hk lst s
    by (induction "is" arbitrary: hk lst s) (auto simp: Let_def intro!: arg_cong2 [of _ _ _ _ bindE])
  then show ?thesis by (simp add: wait_th_def)
qed

section \<open>Joining threads\<close>

text \<open>\<^verbatim>\<open>delete_thread\<close> itself is right: on an intact family of at least two threads it removes the target from
  the list and keeps the rest in order.\<close>

lemma delete_thread_removes:
  assumes "family_of s k xs" and "b \<in> set xs" and "length xs > 1"
  shows "succeeds (delete_thread b s) (\<lambda>t. family_of t k (remove1 b xs))"
  by (rule delete_thread_family [OF assms])

text \<open>C39. \<^verbatim>\<open>thread_join\<close> clears \<^verbatim>\<open>th_next\<close> of the thread it joins before it calls \<^verbatim>\<open>delete_thread\<close>, so
  the family keeps only the threads created before the joined one: the later threads \<open>bs\<close> go on running but are in
  no family list any more, and \<^verbatim>\<open>kill\<close> of the process does not mark them.\<close>

theorem thread_join_cuts_family:
  assumes rd: "lock_ready c s" and run: "runs s c = Some p"
    and fam: "family_of (m s) k (as @ b # bs)" and as: "as \<noteq> []"
    and z: "join_scan (m s) tid [0..<NPROC] = Some b"
    and st: "op_store K (t_pgdir (tprocs (m s) p)) ret (t_retval (tprocs (m s) b)) (env s) = Inr e1"
    and kf: "op_kfree K (t_kstack (tprocs (m s) b)) e1 = Inr e2"
  shows "succeeds (thread_join K c tid ret s) (\<lambda>(r, t). r = Joined \<and> lock_ready c t \<and> runs t = runs s \<and> env t = e2 \<and>
    t_state (tprocs (m t) b) = UNUSED \<and> family_of (m t) k as \<and>
    (\<forall>i \<in> set bs. t_state (tprocs (m t) i) = t_state (tprocs (m s) i) \<and> t_killed (tprocs (m t) i) = t_killed (tprocs (m s) i)) \<and>
    (\<forall>n q. find (\<lambda>q. t_pid (tprocs (m t) q) = n) [0..<NPROC] = Some q \<and> q \<in> set as \<longrightarrow>
       succeeds (kill_th n (m t)) (\<lambda>(r', u). \<forall>i \<in> set bs. t_killed (tprocs u i) = t_killed (tprocs (m s) i))))"
proof -
  obtain x where x: "delete_thread b (upd_t b clear_slot (m s)) = Inr x" "family_of x k as"
    using clear_then_delete [OF fam as] by (auto elim!: succeedsE)
  let ?u = "((acquired c s)\<lparr>env := e2, m := x\<rparr>)"
  obtain t where t: "plock_release c ?u = Inr t" "lock_ready c t" "m t = x" "env t = e2" "runs t = runs s"
    using plock_release_like [OF rd, of ?u] by (auto elim!: succeedsE)
  have j: "thread_join K c tid ret s = Inr (Joined, t)"
    using run z st kf x(1) t(1) by (simp add: thread_join_def cur_def plock_acquire_ready [OF rd] on_m_def upd_tp_def)
  have d: "distinct (as @ b # bs)" using fam by (simp add: family_of_def)
  have unch: "t_state (tprocs x i) = (if i = b then UNUSED else t_state (tprocs (m s) i)) \<and>
      t_killed (tprocs x i) = (if i = b then False else t_killed (tprocs (m s) i))" for i
    using x(1) by (auto simp: delete_thread_def Let_def bindE_Inr_iff split: if_splits)
  have "succeeds (kill_th n x) (\<lambda>(r', u). \<forall>i \<in> set bs. t_killed (tprocs u i) = t_killed (tprocs (m s) i))"
    if "find (\<lambda>q. t_pid (tprocs x q) = n) [0..<NPROC] = Some q" "q \<in> set as" for n q
  proof (rule succeeds_mono [OF kill_family [OF x(2) that]], clarify)
    fix u i
    assume "\<forall>i. t_killed (tprocs u i) = (i \<in> set as \<or> t_killed (tprocs x i)) \<and>
      t_state (tprocs u i) = (if i \<in> set as \<and> t_state (tprocs x i) = SLEEPING then RUNNABLE else t_state (tprocs x i))"
      and "i \<in> set bs"
    moreover have "i \<notin> set as" "i \<noteq> b" using d \<open>i \<in> set bs\<close> by auto
    ultimately show "t_killed (tprocs u i) = t_killed (tprocs (m s) i)" using unch [of i] by simp
  qed
  then show ?thesis using j t x(2) unch d by auto
qed

section \<open>Creating threads and the memory limit\<close>

text \<open>\<^verbatim>\<open>sbrk\<close> respects the memory limit: with a limit set, a successful \<^verbatim>\<open>growproc\<close> leaves a size of at most the
  limit, and a request beyond it fails without touching the address space. (\<^verbatim>\<open>allocuvm\<close> and \<^verbatim>\<open>deallocuvm\<close> return
  the new size or 0.)\<close>

lemma growproc_within_limit:
  assumes run: "runs s c = Some p" and k: "k = shared_info (tprocs (m s) p)"
    and lim: "memory_limit (shares (m s) k) \<noteq> 0"
    and av: "\<And>pg old new e r e'. op_allocuvm K pg old new e = Inr (r, e') \<Longrightarrow> r = 0 \<or> r = new"
    and dv: "\<And>pg old new e r e'. op_deallocuvm K pg old new e = Inr (r, e') \<Longrightarrow> new < old \<Longrightarrow> r = new"
    and neg: "n < 0 \<Longrightarrow> sh_sz (shares (m s) k) + word_of_int n < sh_sz (shares (m s) k)"
    and ok: "growproc_th K c n s = Inr (r, t)"
  shows "(r = 0 \<and> n \<noteq> 0 \<longrightarrow> sh_sz (shares (m t) k) \<le> memory_limit (shares (m s) k)) \<and>
    (sh_sz (shares (m s) k) + word_of_int n > memory_limit (shares (m s) k) \<longrightarrow> r = -1 \<and> t = s)"
  using assms
  by (auto simp: growproc_th_def cur_def Let_def bindE_Inr_iff not_less split: if_splits prod.splits dest!: av dv)

definition embryo_th :: "nat \<Rightarrow> tst \<Rightarrow> tproc \<Rightarrow> tproc" where
  "embryo_th p s t = t\<lparr>t_state := EMBRYO, t_pid := t_nextpid s, t_tid := t_nexttid s, th_next := None, th_main := Some p\<rparr>"

lemma allocproc_th_ok:
  assumes rd: "lock_ready c s" and f: "find (\<lambda>p. t_state (tprocs (m s) p) = UNUSED) [0..<NPROC] = Some n"
    and ka: "op_kalloc K (env s) = (ks, e)" and "ks \<noteq> 0"
  shows "succeeds (allocproc_th K c s) (\<lambda>(r, t). r = Some n \<and> lock_ready c t \<and> runs t = runs s \<and> env t = e \<and>
    shares (m t) = shares (m s) \<and> (\<forall>i. i \<noteq> n \<longrightarrow> tprocs (m t) i = tprocs (m s) i) \<and>
    tprocs (m t) n = kstack_setup_th (addr_trapret K) (addr_forkret K)
      ((embryo_th n (m s) (tprocs (m s) n))\<lparr>t_kstack := ks\<rparr>))"
proof -
  let ?m = "initialize_proc n (m s)"
  obtain t where t: "plock_release c ((acquired c s)\<lparr>m := ?m\<rparr>) = Inr t" "lock_ready c t" "m t = ?m" "env t = env s" "runs t = runs s"
    using plock_release_like [OF rd, of "(acquired c s)\<lparr>m := ?m\<rparr>"] by (auto elim!: succeedsE)
  have rd': "lock_ready c (t\<lparr>m := x, env := y\<rparr>)" for x y using t(2) by (simp add: lock_ready_def)
  let ?t = "upd_tp n (kstack_setup_th (addr_trapret K) (addr_forkret K)) (upd_tp n (\<lambda>x. x\<lparr>t_kstack := ks\<rparr>) (t\<lparr>env := e\<rparr>))"
  have "allocproc_th K c s = Inr (Some n, ?t)"
    using t ka \<open>ks \<noteq> 0\<close> by (simp add: allocproc_th_def plock_acquire_ready [OF rd] alloc_slot_th_def f)
  moreover have "lock_ready c ?t" using t(2) by (simp add: lock_ready_def)
  moreover have "runs ?t = runs s" using t(5) by (simp add: fun_eq_iff)
  ultimately show ?thesis
    using t by (simp add: initialize_proc_def embryo_th_def)
qed

lemma create_family:
  assumes rd: "lock_ready c s" and run: "runs s c = Some p" and ps: "t_state (tprocs (m s) p) = RUNNING"
    and k: "k = shared_info (tprocs (m s) p)" and fam: "family_of (m s) k xs" "\<forall>q \<in> set xs. t_state (tprocs (m s) q) \<noteq> UNUSED"
    and lim: "memory_limit (shares (m s) k) = 0 \<or> sh_sz (shares (m s) k) + 2 * PGSIZE \<le> memory_limit (shares (m s) k)"
    and sl: "find (\<lambda>p. t_state (tprocs (m s) p) = UNUSED) [0..<NPROC] = Some n"
    and ka: "op_kalloc K (env s) = (ks, e1)" "ks \<noteq> 0"
    and pg: "pg = t_pgdir (tprocs (m s) p)" and base: "base = PGROUNDUP (sh_sz (shares (m s) k))"
    and av: "op_allocuvm K pg base (base + 2 * PGSIZE) (op_idup K (t_cwd (tprocs (m s) p)) e1) = Inr (z, e2)" "z \<noteq> 0"
    and cl: "op_clearpteu K pg (z - 2 * PGSIZE) e2 = Inr e3"
    and s1: "op_store K pg (z - 4) arg e3 = Inr e4" and s2: "op_store K pg (z - 8) 0xffffffff e4 = Inr e5"
    and s3: "op_store K pg thread (word_of_int (t_nexttid (m s))) e5 = Inr e6"
  shows "succeeds (thread_create K c thread start arg s) (\<lambda>(r, t). r = 0 \<and> lock_ready c t \<and> runs t = runs s \<and> env t = e6 \<and>
    family_of (m t) k (xs @ [n]) \<and> sh_sz (shares (m t) k) = z \<and> memory_limit (shares (m t) k) = memory_limit (shares (m s) k) \<and>
    (let th = tprocs (m t) n; cp = tprocs (m s) p in
       t_state th = RUNNABLE \<and> t_pid th = t_pid cp \<and> t_tid th = t_nexttid (m s) \<and> t_pgdir th = pg \<and> shared_info th = k \<and>
       th_main th = Some p \<and> t_tf th = (t_tf cp)\<lparr>tf_eip := start, tf_esp := z - 8\<rparr> \<and> t_kstack th = ks))"
proof -
  have n: "n < NPROC" "t_state (tprocs (m s) n) = UNUSED" using find_upt_first [OF sl] by auto
  have np: "n \<noteq> p" "n \<notin> set xs" using n ps fam(2) by auto
  obtain u where u: "allocproc_th K c s = Inr (Some n, u)" "lock_ready c u" "runs u = runs s" "env u = e1"
    "shares (m u) = shares (m s)" "\<forall>i. i \<noteq> n \<longrightarrow> tprocs (m u) i = tprocs (m s) i"
    and un: "tprocs (m u) n = kstack_setup_th (addr_trapret K) (addr_forkret K) ((embryo_th n (m s) (tprocs (m s) n))\<lparr>t_kstack := ks\<rparr>)"
    using allocproc_th_ok [OF rd sl ka] by (rule succeedsE) blast
  have up: "tprocs (m u) p = tprocs (m s) p" using u(6) np by simp
  define cp where "cp = tprocs (m s) p"
  define v where "v = share_with K p n (acquired c u)"
  have v_eq: "v = upd_tp n (\<lambda>t. t\<lparr>t_pgdir := t_pgdir cp, t_pid := t_pid cp, t_name := safestrcpy_str 16 (t_name cp),
     t_cwd := t_cwd cp, shared_info := shared_info cp, th_next := None, th_main := Some p\<rparr>)
     ((acquired c u)\<lparr>env := op_idup K (t_cwd cp) (env u)\<rparr>)"
    by (simp add: v_def share_with_def cp_def up Let_def)
  have nf: "t_tid (tprocs (m u) n) = t_nexttid (m s)" "t_kstack (tprocs (m u) n) = ks"
    by (simp_all add: un kstack_setup_th_def embryo_th_def Let_def)
  have vf: "family_of (m v) k xs"
  proof -
    have "chain (links (m v)) xs None = chain (links (m s)) xs None"
      using np u(6) by (intro chain_cong) (auto simp: v_eq)
    then show ?thesis using fam(1) np u(5,6) by (auto simp: family_of_def v_eq)
  qed
  have vn: "shared_info (tprocs (m v) n) = k" "th_next (tprocs (m v) n) = None" using k by (simp_all add: v_eq cp_def)
  obtain w where w: "link_thread n (m v) = Inr w" "family_of w k (xs @ [n])"
    and wp: "\<forall>i. tprocs w i = (tprocs (m v) i)\<lparr>th_next := th_next (tprocs w i)\<rparr>"
    and ws: "\<forall>j. shares w j = (shares (m v) j)\<lparr>th_family_hd := th_family_hd (shares w j), th_last := th_last (shares w j)\<rparr>"
    using link_thread_family [OF vf np(2) n(1) vn] by (rule succeedsE) blast
  define x where "x = upd_t n (\<lambda>t. t\<lparr>t_state := RUNNABLE\<rparr>)
     (upd_t n (\<lambda>t. t\<lparr>t_tf := (t_tf cp)\<lparr>tf_eip := start, tf_esp := z - 8\<rparr>\<rparr>) (upd_share k (\<lambda>h. h\<lparr>sh_sz := z\<rparr>) w))"
  let ?y = "v\<lparr>env := e6, m := x\<rparr>"
  obtain t where t: "plock_release c ?y = Inr t" "lock_ready c t" "m t = x" "env t = e6" "runs t = runs u"
    using plock_release_like [OF u(2), of ?y] by (auto simp: v_eq elim!: succeedsE)
  obtain y where wn: "tprocs w n = (tprocs (m v) n)\<lparr>th_next := y\<rparr>" using wp by blast
  then have tid: "t_tid (tprocs w n) = t_nexttid (m s)" using nf by (simp add: v_eq)
  have "thread_create K c thread start arg s = Inr (0, t)"
  proof -
    have lim': "\<not> (memory_limit (share_of (m s) p) \<noteq> 0 \<and> memory_limit (share_of (m s) p) < sh_sz (share_of (m s) p) + 2 * PGSIZE)"
      using lim k by auto
    have y: "upd_tp n (\<lambda>t. t\<lparr>t_state := RUNNABLE\<rparr>)
       ((upd_tp n (\<lambda>t. t\<lparr>t_tf := (t_tf cp)\<lparr>tf_eip := start, tf_esp := z - 8\<rparr>\<rparr>)
          (upd_sh k (\<lambda>h. h\<lparr>sh_sz := z\<rparr>) (v\<lparr>m := w, env := e5\<rparr>)))\<lparr>env := e6\<rparr>) = ?y"
      by (rule kst.equality) (simp_all add: x_def)
    have e: "env v = op_idup K (t_cwd cp) e1" "shares (m v) = shares (m s)" "t_pgdir (tprocs (m v) n) = pg"
      using u(4,5) pg by (simp_all add: v_eq cp_def)
    have av': "op_allocuvm K pg (PGROUNDUP (sh_sz (shares (m s) k))) (PGROUNDUP (sh_sz (shares (m s) k)) + 2 * PGSIZE)
        (op_idup K (t_cwd cp) e1) = Inr (z, e2)"
      using av(1) by (simp add: base cp_def)
    show ?thesis
      using run lim' u(1) w(1) tid t(1) vn(1) y e av' av(2) cl s1 s2 s3
      by (simp add: thread_create_def cur_def plock_acquire_ready [OF u(2)] up cp_def [symmetric] v_def [symmetric]
          on_m_def Let_def)
  qed
  moreover have "family_of x k (xs @ [n])"
    using w(2) by (subst family_same [of w]) (auto simp: same_fam_def x_def)
  moreover have "memory_limit (shares x k) = memory_limit (shares (m s) k)"
    using arg_cong [OF ws [rule_format, of k], of memory_limit] u(5) by (simp add: x_def v_eq)
  ultimately show ?thesis
    using t u(3) wn nf k pg tid by (simp add: x_def v_eq cp_def Let_def)
qed

text \<open>C34. A successful \<^verbatim>\<open>thread_create\<close>: the new thread is the last of the family, runnable, with the caller's page
  directory, pid and share entry, a program counter at the start routine and a stack pointer 8 bytes below the new end
  of memory, where it finds the fake return address and its argument.\<close>

theorem thread_create_joins_family:
  assumes rd: "lock_ready c s" and run: "runs s c = Some p" and ps: "t_state (tprocs (m s) p) = RUNNING"
    and k: "k = shared_info (tprocs (m s) p)" and fam: "family_of (m s) k xs" "\<forall>q \<in> set xs. t_state (tprocs (m s) q) \<noteq> UNUSED"
    and lim: "memory_limit (shares (m s) k) = 0 \<or> sh_sz (shares (m s) k) + 2 * PGSIZE \<le> memory_limit (shares (m s) k)"
    and sl: "find (\<lambda>p. t_state (tprocs (m s) p) = UNUSED) [0..<NPROC] = Some n"
    and ka: "op_kalloc K (env s) = (ks, e1)" "ks \<noteq> 0"
    and pg: "pg = t_pgdir (tprocs (m s) p)" and base: "base = PGROUNDUP (sh_sz (shares (m s) k))"
    and av: "op_allocuvm K pg base (base + 2 * PGSIZE) (op_idup K (t_cwd (tprocs (m s) p)) e1) = Inr (z, e2)" "z \<noteq> 0"
    and cl: "op_clearpteu K pg (z - 2 * PGSIZE) e2 = Inr e3"
    and s1: "op_store K pg (z - 4) arg e3 = Inr e4" and s2: "op_store K pg (z - 8) 0xffffffff e4 = Inr e5"
    and s3: "op_store K pg thread (word_of_int (t_nexttid (m s))) e5 = Inr e6"
  shows "succeeds (thread_create K c thread start arg s) (\<lambda>(r, t). r = 0 \<and> lock_ready c t \<and> runs t = runs s \<and> env t = e6 \<and>
    family_of (m t) k (xs @ [n]) \<and> sh_sz (shares (m t) k) = z \<and> memory_limit (shares (m t) k) = memory_limit (shares (m s) k) \<and>
    (let th = tprocs (m t) n; cp = tprocs (m s) p in
       t_state th = RUNNABLE \<and> t_pid th = t_pid cp \<and> t_tid th = t_nexttid (m s) \<and> t_pgdir th = pg \<and> shared_info th = k \<and>
       th_main th = Some p \<and> t_tf th = (t_tf cp)\<lparr>tf_eip := start, tf_esp := z - 8\<rparr> \<and> t_kstack th = ks))"
  by (rule create_family [OF assms])

section \<open>Concrete states\<close>

text \<open>Process 1 (slot 0, running) has the child process 2 with three threads: the main thread (slot 1, runnable), an ended
  thread (slot 2) and a sleeping thread (slot 3). \<open>tdemo2\<close> has two exited children instead (slots 1 and 2).\<close>

definition zero_share :: th_share where
  "zero_share = \<lparr>sh_sz = 0, sh_parent = None, sh_ofile = replicate NOFILE None, memory_limit = 0, stacksize = 0,
     th_family_hd = None, th_last = None, sh_state = EMPTY\<rparr>"

definition zero_tproc :: tproc where
  "zero_tproc = \<lparr>t_kstack = 0, t_state = UNUSED, t_tf_ptr = 0,
     t_tf = \<lparr>tf_eax = 0, tf_esp = 0, tf_eip = 0, tf_cs = 0, tf_ds = 0, tf_es = 0, tf_ss = 0, tf_eflags = 0, tf_trapno = 0\<rparr>,
     t_ctx_ptr = 0, t_ctx = \<lparr>ctx_edi = 0, ctx_esi = 0, ctx_ebx = 0, ctx_ebp = 0, ctx_eip = 0\<rparr>, t_ret_word = 0,
     t_chan = NullChan, t_killed = False, t_pgdir = 0, t_pid = 0, t_name = [], t_cwd = None, shared_info = None,
     t_tid = 0, th_next = None, th_main = None, t_retval = 0\<rparr>"

definition tdemo :: tst where
  "tdemo = \<lparr>tprocs = (\<lambda>i.
       if i = 0 then zero_tproc\<lparr>t_state := RUNNING, t_pid := 1, t_tid := 1, shared_info := Some 0, th_main := Some 0\<rparr>
       else if i = 1 then zero_tproc\<lparr>t_state := RUNNABLE, t_pid := 2, t_tid := 2, shared_info := Some 1, th_main := Some 1, th_next := Some 2\<rparr>
       else if i = 2 then zero_tproc\<lparr>t_state := ZOMBIE, t_pid := 2, t_tid := 3, shared_info := Some 1, th_main := Some 1, th_next := Some 3\<rparr>
       else if i = 3 then zero_tproc\<lparr>t_state := SLEEPING, t_pid := 2, t_tid := 4, shared_info := Some 1, th_main := Some 1, t_chan := ObjChan 5\<rparr>
       else zero_tproc),
     shares = (\<lambda>k.
       if k = Some 0 then zero_share\<lparr>sh_state := USING, sh_sz := 5000, th_family_hd := Some 0, th_last := Some 0\<rparr>
       else if k = Some 1 then zero_share\<lparr>sh_state := USING, sh_sz := 4096, sh_parent := Some 0, th_family_hd := Some 1, th_last := Some 3\<rparr>
       else zero_share),
     t_initproc = None, t_nextpid = 3, t_nexttid = 5\<rparr>"

definition tdemo2 :: tst where
  "tdemo2 = \<lparr>tprocs = (\<lambda>i.
       if i = 0 then zero_tproc\<lparr>t_state := RUNNING, t_pid := 1, t_tid := 1, shared_info := Some 0, th_main := Some 0\<rparr>
       else if i = 1 then zero_tproc\<lparr>t_state := ZOMBIE, t_pid := 2, t_tid := 2, shared_info := Some 1, th_main := Some 1\<rparr>
       else if i = 2 then zero_tproc\<lparr>t_state := ZOMBIE, t_pid := 3, t_tid := 3, shared_info := Some 2, th_main := Some 2\<rparr>
       else zero_tproc),
     shares = (\<lambda>k.
       if k = Some 0 then zero_share\<lparr>sh_state := USING, th_family_hd := Some 0, th_last := Some 0\<rparr>
       else if k = Some 1 then zero_share\<lparr>sh_state := USING, sh_parent := Some 0, th_family_hd := Some 1, th_last := Some 1\<rparr>
       else if k = Some 2 then zero_share\<lparr>sh_state := USING, sh_parent := Some 0, th_family_hd := Some 2, th_last := Some 2\<rparr>
       else zero_share),
     t_initproc = None, t_nextpid = 4, t_nexttid = 4\<rparr>"

definition on_cpu0 :: "tst \<Rightarrow> unit tkst" where
  "on_cpu0 s = \<lparr>m = s, cpus = (\<lambda>c. \<lparr>ncli = 0, intena = False, iflag = True, cpu_proc = (if c = 0 then Some 0 else None)\<rparr>),
     plock = initlock, saved_intena = (\<lambda>_. False), env = ()\<rparr>"

definition ok_kops :: "'e kops" where
  "ok_kops = \<lparr>op_kalloc = (\<lambda>e. (0x1000, e)), op_kfree = (\<lambda>_. Inr), op_copyuvm = (\<lambda>_ _ e. Inr (0x2000, e)),
     op_freevm = (\<lambda>_. Inr), op_setupkvm = (\<lambda>e. Inr (0x2000, e)), op_inituvm = (\<lambda>_. Inr),
     op_allocuvm = (\<lambda>_ _ n e. Inr (n, e)), op_deallocuvm = (\<lambda>_ _ n e. Inr (n, e)), op_clearpteu = (\<lambda>_ _. Inr),
     op_filedup = (\<lambda>_. Inr), op_fileclose = (\<lambda>_ e. Inr ([], e)), op_idup = (\<lambda>_ e. e), op_iput = (\<lambda>_ e. Inr ([], e)),
     op_namei_root = (\<lambda>e. (None, e)), op_store = (\<lambda>_ _ _. Inr), addr_trapret = 0x100, addr_forkret = 0x200\<rparr>"

lemma on_cpu0_ready [simp]: "lock_ready 0 (on_cpu0 s)" "runs (on_cpu0 s) 0 = Some 0" "m (on_cpu0 s) = s"
  by (simp_all add: on_cpu0_def lock_ready_def cpu_ok_def initlock_def)

lemma tdemo_family: "family_of tdemo (Some 1) [1, 2, 3]"
  by (simp add: family_of_def tdemo_def zero_share_def zero_tproc_def NPROC_def)

lemma tdemo_family0: "family_of tdemo (Some 0) [0]"
  by (simp add: family_of_def tdemo_def zero_share_def zero_tproc_def NPROC_def)

lemma tdemo_slots [simp]:
  "t_state (tprocs tdemo i) = (if i = 0 then RUNNING else if i = 1 then RUNNABLE else if i = 2 then ZOMBIE
     else if i = 3 then SLEEPING else UNUSED)"
  "t_pid (tprocs tdemo i) = (if i = 0 then 1 else if i < 4 then 2 else 0)"
  "shared_info (tprocs tdemo i) = (if i = 0 then Some 0 else if i < 4 then Some 1 else None)"
  "sh_parent (shares tdemo k) = (if k = Some 1 then Some 0 else None)"
  "t_initproc tdemo = None" "t_killed (tprocs tdemo i) = False"
  by (auto simp: tdemo_def zero_tproc_def zero_share_def)

lemma NPROC_upt: "[0..<NPROC] = 0 # 1 # 2 # 3 # 4 # [5..<NPROC]"
  by (simp add: NPROC_def upt_conv_Cons)

lemma tdemo2_slots [simp]:
  "t_state (tprocs tdemo2 i) = (if i = 0 then RUNNING else if i = 1 \<or> i = 2 then ZOMBIE else UNUSED)"
  "t_pid (tprocs tdemo2 i) = (if i = 0 then 1 else if i = 1 then 2 else if i = 2 then 3 else 0)"
  "shared_info (tprocs tdemo2 i) = (if i < 3 then Some i else None)"
  "sh_parent (shares tdemo2 k) = (if k = Some 1 \<or> k = Some 2 then Some 0 else None)"
  "t_killed (tprocs tdemo2 i) = False"
  by (auto simp: tdemo2_def zero_tproc_def zero_share_def)


theorem thread_join_cuts_family_witness:
  "succeeds (thread_join ok_kops 0 3 0x4000 (on_cpu0 tdemo)) (\<lambda>(r, t). r = Joined \<and> family_of (m t) (Some 1) [1] \<and>
     t_state (tprocs (m t) 3) = SLEEPING)"
proof -
  have z: "join_scan (m (on_cpu0 tdemo)) 3 [0..<NPROC] = Some 2"
    by (simp add: NPROC_upt) (simp add: tdemo_def zero_tproc_def)
  have fam: "family_of (m (on_cpu0 tdemo)) (Some 1) ([1] @ 2 # [3])" using tdemo_family by simp
  have op: "op_store ok_kops a v w e = Inr e" "op_kfree ok_kops v e = Inr e" for a v w e by (simp_all add: ok_kops_def)
  show ?thesis
    by (rule succeeds_mono [OF thread_join_cuts_family [OF on_cpu0_ready(1,2) fam _ z op]]) auto
qed

theorem thread_create_joins_family_witness:
  "succeeds (thread_create ok_kops 0 0x3000 0x100 7 (on_cpu0 tdemo)) (\<lambda>(r, t). r = 0 \<and> family_of (m t) (Some 0) [0, 4] \<and>
     t_state (tprocs (m t) 4) = RUNNABLE \<and> sh_sz (shares (m t) (Some 0)) = 16384)"
proof -
  have sl: "find (\<lambda>p. t_state (tprocs (m (on_cpu0 tdemo)) p) = UNUSED) [0..<NPROC] = Some 4" by (simp add: NPROC_upt)
  have sh: "memory_limit (shares tdemo (Some 0)) = 0" "sh_sz (shares tdemo (Some 0)) = 5000"
    by (simp_all add: tdemo_def zero_share_def)
  have base: "PGROUNDUP 5000 = (8192 :: u32)" by (simp add: PGROUNDUP_def PGSIZE_def)
  have op: "op_store ok_kops a v w e = Inr e" "op_clearpteu ok_kops a v e = Inr e" "op_kalloc ok_kops e = (0x1000, e)"
    "op_allocuvm ok_kops a v w e = Inr (w, e)" for a v w e
    by (simp_all add: ok_kops_def)
  show ?thesis
    by (rule succeeds_mono [OF thread_create_joins_family [OF on_cpu0_ready(1,2) _ refl _ _ _ sl op(3) _ refl refl op(4) _ op(2) op(1) op(1) op(1)]])
      (use tdemo_family0 sh base in \<open>auto simp: PGSIZE_def Let_def\<close>)
qed

text \<open>\<^verbatim>\<open>thread_create\<close> checks the limit against the unrounded size but rounds the size up before it adds the two
  stack pages, so it can pass the limit: process 1 has 5000 bytes and a limit of 14000, and ends up with 16384.\<close>

lemma thread_create_exceeds_limit:
  "succeeds (thread_create ok_kops 0 0x3000 0x100 7 (on_cpu0 (snd (setmemorylimit 1 14000 tdemo))))
    (\<lambda>(r, t). r = 0 \<and> memory_limit (shares (m t) (Some 0)) = 14000 \<and> sh_sz (shares (m t) (Some 0)) = 16384)"
proof -
  let ?d = "snd (setmemorylimit 1 14000 tdemo)"
  have "find (\<lambda>p. t_pid (tprocs tdemo p) = 1) [0..<NPROC] = Some 0" by (simp add: NPROC_upt)
  then have d: "?d = upd_share (Some 0) (\<lambda>h. h\<lparr>memory_limit := 14000\<rparr>) tdemo"
    by (simp add: setmemorylimit_def) (simp add: tdemo_def zero_share_def)
  have sl: "find (\<lambda>p. t_state (tprocs (m (on_cpu0 ?d)) p) = UNUSED) [0..<NPROC] = Some 4" by (simp add: NPROC_upt d)
  have sh: "memory_limit (shares ?d (Some 0)) = 14000" "sh_sz (shares ?d (Some 0)) = 5000"
    by (simp_all add: d) (simp add: tdemo_def zero_share_def)
  have fam: "family_of ?d (Some 0) [0]" using tdemo_family0 by (simp add: d family_of_def)
  have base: "PGROUNDUP 5000 = (8192 :: u32)" by (simp add: PGROUNDUP_def PGSIZE_def)
  have op: "op_store ok_kops a v w e = Inr e" "op_clearpteu ok_kops a v e = Inr e" "op_kalloc ok_kops e = (0x1000, e)"
    "op_allocuvm ok_kops a v w e = Inr (w, e)" for a v w e
    by (simp_all add: ok_kops_def)
  show ?thesis
    by (rule succeeds_mono [OF create_family [OF on_cpu0_ready(1,2) _ refl _ _ _ sl op(3) _ refl refl op(4) _ op(2) op(1) op(1) op(1)]])
      (use fam sh base in \<open>auto simp: PGSIZE_def Let_def d\<close>)
qed

end
