(* ===== verification/Bio.thy ===== *)
theory Bio
  imports Prelude
begin

text \<open>
  Sleep locks (\<^verbatim>\<open>sleeplock.c\<close>), the disk driver as far as its caller can see
  (\<^verbatim>\<open>iderw\<close> and \<^verbatim>\<open>idestart\<close> of \<^verbatim>\<open>ide.c\<close>) and the buffer cache
  (\<^verbatim>\<open>bio.c\<close>).

  A request to the disk is one step: the request queue and the interrupt that ends the request
  are inside it, and the disk reports no errors. \<open>hist\<close> records the contents of the disk after
  every write; these are the states a crash can leave behind. A sleep lock held by somebody else
  makes the caller sleep, which is the result \<open>Inl Spinning\<close>.

  The cache is a ring of \<^verbatim>\<open>NBUF\<close> buffers through a head, most recently used first.
\<close>

section \<open>Sleep locks\<close>

record sleeplock =
  sl_locked :: bool
  sl_pid :: int

definition initsleeplock :: sleeplock where
  "initsleeplock = \<lparr>sl_locked = False, sl_pid = 0\<rparr>"

definition acquiresleep :: "int \<Rightarrow> sleeplock \<Rightarrow> kerr + sleeplock" where
  "acquiresleep me lk = (if sl_locked lk then Inl Spinning else Inr (lk\<lparr>sl_locked := True, sl_pid := me\<rparr>))"

definition releasesleep :: "sleeplock \<Rightarrow> sleeplock" where
  "releasesleep lk = lk\<lparr>sl_locked := False, sl_pid := 0\<rparr>"

definition holdingsleep :: "int \<Rightarrow> sleeplock \<Rightarrow> bool" where
  "holdingsleep me lk \<longleftrightarrow> sl_locked lk \<and> sl_pid lk = me"

section \<open>State\<close>

definition MAXOPBLOCKS :: nat where "MAXOPBLOCKS = 10"
definition LOGSIZE :: nat where "LOGSIZE = MAXOPBLOCKS * 3"
definition NBUF :: nat where "NBUF = MAXOPBLOCKS * 3"
definition BSIZE :: nat where "BSIZE = 512"
definition FSSIZE :: nat where "FSSIZE = 1000"

type_synonym block = "u8 list"
type_synonym disk = "nat \<Rightarrow> nat \<Rightarrow> block"

datatype bptr = BHead | Buf nat

record buf =
  b_valid :: bool
  b_dirty :: bool
  b_dev :: nat
  b_blockno :: nat
  b_lock :: sleeplock
  b_refcnt :: nat
  b_data :: block

record bst =
  bufs :: "nat \<Rightarrow> buf"
  bnext :: "bptr \<Rightarrow> bptr"
  bprev :: "bptr \<Rightarrow> bptr"
  disk :: disk
  hist :: "disk list"
  havedisk1 :: bool

definition upd_b :: "nat \<Rightarrow> (buf \<Rightarrow> buf) \<Rightarrow> bst \<Rightarrow> bst" where
  "upd_b i f s = s\<lparr>bufs := (bufs s)(i := f (bufs s i))\<rparr>"

definition disk_put :: "nat \<Rightarrow> nat \<Rightarrow> block \<Rightarrow> disk \<Rightarrow> disk" where
  "disk_put dv b v d = d(dv := (d dv)(b := v))"

section \<open>The driver\<close>

definition iderw :: "int \<Rightarrow> nat \<Rightarrow> bst \<Rightarrow> kerr + bst" where
  "iderw me i s =
    (let b = bufs s i in
     if \<not> holdingsleep me (b_lock b) then Inl (Panic ''iderw: buf not locked'')
     else if b_valid b \<and> \<not> b_dirty b then Inl (Panic ''iderw: nothing to do'')
     else if b_dev b \<noteq> 0 \<and> \<not> havedisk1 s then Inl (Panic ''iderw: ide disk 1 not present'')
     else if b_blockno b \<ge> FSSIZE then Inl (Panic ''incorrect blockno'')
     else if b_dirty b then
       let d = disk_put (b_dev b) (b_blockno b) (b_data b) (disk s)
       in Inr (upd_b i (\<lambda>x. x\<lparr>b_valid := True, b_dirty := False\<rparr>) (s\<lparr>disk := d, hist := hist s @ [d]\<rparr>))
     else
       Inr (upd_b i (\<lambda>x. x\<lparr>b_data := disk s (b_dev b) (b_blockno b), b_valid := True, b_dirty := False\<rparr>) s))"

section \<open>The cache\<close>

text \<open>One turn of the loop of \<^verbatim>\<open>binit\<close>: put buffer \<open>i\<close> behind the head.\<close>

definition push_front :: "nat \<Rightarrow> bst \<Rightarrow> bst" where
  "push_front i s =
    (let s1 = s\<lparr>bnext := (bnext s)(Buf i := bnext s BHead)\<rparr>;
         s2 = s1\<lparr>bprev := (bprev s1)(Buf i := BHead)\<rparr>;
         s3 = s2\<lparr>bprev := (bprev s2)(bnext s2 BHead := Buf i)\<rparr>
     in s3\<lparr>bnext := (bnext s3)(BHead := Buf i)\<rparr>)"

definition binit :: "bst \<Rightarrow> bst" where
  "binit s =
    (let s1 = s\<lparr>bprev := (bprev s)(BHead := BHead), bnext := (bnext s)(BHead := BHead)\<rparr>
     in fold (\<lambda>i t. push_front i (upd_b i (\<lambda>b. b\<lparr>b_lock := initsleeplock\<rparr>) t)) [0..<NBUF] s1)"

fun bget_fwd :: "nat \<Rightarrow> bst \<Rightarrow> nat \<Rightarrow> nat \<Rightarrow> bptr \<Rightarrow> kerr + ptr" where
  "bget_fwd n s dv blk BHead = Inr None"
| "bget_fwd 0 s dv blk (Buf i) = Inl Diverges"
| "bget_fwd (Suc n) s dv blk (Buf i) =
     (if b_dev (bufs s i) = dv \<and> b_blockno (bufs s i) = blk then Inr (Some i)
      else bget_fwd n s dv blk (bnext s (Buf i)))"

fun bget_bwd :: "nat \<Rightarrow> bst \<Rightarrow> bptr \<Rightarrow> kerr + ptr" where
  "bget_bwd n s BHead = Inr None"
| "bget_bwd 0 s (Buf i) = Inl Diverges"
| "bget_bwd (Suc n) s (Buf i) =
     (if b_refcnt (bufs s i) = 0 \<and> \<not> b_dirty (bufs s i) then Inr (Some i)
      else bget_bwd n s (bprev s (Buf i)))"

definition lock_buf :: "int \<Rightarrow> nat \<Rightarrow> bst \<Rightarrow> kerr + nat \<times> bst" where
  "lock_buf me i s =
    bindE (acquiresleep me (b_lock (bufs s i))) (\<lambda>lk. Inr (i, upd_b i (\<lambda>b. b\<lparr>b_lock := lk\<rparr>) s))"

definition bget :: "int \<Rightarrow> nat \<Rightarrow> nat \<Rightarrow> bst \<Rightarrow> kerr + nat \<times> bst" where
  "bget me dv blk s =
    bindE (bget_fwd (Suc NBUF) s dv blk (bnext s BHead)) (\<lambda>r.
      case r of
        Some i \<Rightarrow> lock_buf me i (upd_b i (\<lambda>b. b\<lparr>b_refcnt := b_refcnt b + 1\<rparr>) s)
      | None \<Rightarrow>
          bindE (bget_bwd (Suc NBUF) s (bprev s BHead)) (\<lambda>r'.
            case r' of
              Some i \<Rightarrow> lock_buf me i (upd_b i (\<lambda>b. b\<lparr>b_dev := dv, b_blockno := blk, b_valid := False, b_dirty := False,
                          b_refcnt := 1\<rparr>) s)
            | None \<Rightarrow> Inl (Panic ''bget: no buffers'')))"

definition bread :: "int \<Rightarrow> nat \<Rightarrow> nat \<Rightarrow> bst \<Rightarrow> kerr + nat \<times> bst" where
  "bread me dv blk s =
    bindE (bget me dv blk s) (\<lambda>(i, s1).
      if \<not> b_valid (bufs s1 i) then bindE (iderw me i s1) (\<lambda>s2. Inr (i, s2)) else Inr (i, s1))"

definition bwrite :: "int \<Rightarrow> nat \<Rightarrow> bst \<Rightarrow> kerr + bst" where
  "bwrite me i s =
    (if \<not> holdingsleep me (b_lock (bufs s i)) then Inl (Panic ''bwrite'')
     else iderw me i (upd_b i (\<lambda>b. b\<lparr>b_dirty := True\<rparr>) s))"

definition unlink_buf :: "nat \<Rightarrow> bst \<Rightarrow> bst" where
  "unlink_buf i s =
    (let s1 = s\<lparr>bprev := (bprev s)(bnext s (Buf i) := bprev s (Buf i))\<rparr>
     in s1\<lparr>bnext := (bnext s1)(bprev s1 (Buf i) := bnext s1 (Buf i))\<rparr>)"

definition brelse :: "int \<Rightarrow> nat \<Rightarrow> bst \<Rightarrow> kerr + bst" where
  "brelse me i s =
    (if \<not> holdingsleep me (b_lock (bufs s i)) then Inl (Panic ''brelse'')
     else
       let s1 = upd_b i (\<lambda>b. b\<lparr>b_lock := releasesleep (b_lock b)\<rparr>) s;
           s2 = upd_b i (\<lambda>b. b\<lparr>b_refcnt := b_refcnt b - 1\<rparr>) s1
       in if b_refcnt (bufs s2 i) = 0 then Inr (push_front i (unlink_buf i s2)) else Inr s2)"

text \<open>The caller's change of a buffer it holds.\<close>

definition set_data :: "nat \<Rightarrow> block \<Rightarrow> bst \<Rightarrow> bst" where
  "set_data i v s = upd_b i (\<lambda>b. b\<lparr>b_data := v\<rparr>) s"

section \<open>The ring\<close>

fun linked :: "bst \<Rightarrow> bptr \<Rightarrow> nat list \<Rightarrow> bptr \<Rightarrow> bool" where
  "linked s a [] e \<longleftrightarrow> bnext s a = e \<and> bprev s e = a"
| "linked s a (x # xs) e \<longleftrightarrow> bnext s a = Buf x \<and> bprev s (Buf x) = a \<and> linked s (Buf x) xs e"

definition ring :: "bst \<Rightarrow> nat list \<Rightarrow> bool" where
  "ring s xs \<longleftrightarrow> distinct xs \<and> linked s BHead xs BHead"

lemma linked_append: "linked s a (xs @ y # ys) e \<longleftrightarrow> linked s a xs (Buf y) \<and> linked s (Buf y) ys e"
  by (induction xs arbitrary: a) auto

lemma linked_cong:
  assumes "\<And>p. p = a \<or> p \<in> Buf ` set xs \<Longrightarrow> bnext t p = bnext s p"
    and "\<And>p. p = e \<or> p \<in> Buf ` set xs \<Longrightarrow> bprev t p = bprev s p"
  shows "linked t a xs e = linked s a xs e"
  using assms by (induction xs arbitrary: a) auto

lemma upd_b_sel [simp]:
  "bufs (upd_b i f s) j = (if j = i then f (bufs s i) else bufs s j)"
  "bnext (upd_b i f s) = bnext s" "bprev (upd_b i f s) = bprev s" "disk (upd_b i f s) = disk s"
  "hist (upd_b i f s) = hist s" "havedisk1 (upd_b i f s) = havedisk1 s"
  by (simp_all add: upd_b_def)

lemma linked_upd_b [simp]: "linked (upd_b i f s) a xs e = linked s a xs e"
  by (rule linked_cong) simp_all

lemma ring_upd_b [simp]: "ring (upd_b i f s) xs = ring s xs"
  by (simp add: ring_def)

lemma push_front_sel [simp]:
  "bufs (push_front i s) = bufs s" "disk (push_front i s) = disk s" "hist (push_front i s) = hist s"
  "havedisk1 (push_front i s) = havedisk1 s"
  by (simp_all add: push_front_def Let_def)

lemma unlink_buf_sel [simp]:
  "bufs (unlink_buf i s) = bufs s" "disk (unlink_buf i s) = disk s" "hist (unlink_buf i s) = hist s"
  "havedisk1 (unlink_buf i s) = havedisk1 s"
  by (simp_all add: unlink_buf_def Let_def)

lemma push_front_ring:
  assumes "ring s xs" and "i \<notin> set xs"
  shows "ring (push_front i s) (i # xs)"
proof (cases xs)
  case Nil
  with assms show ?thesis by (simp add: ring_def push_front_def Let_def)
next
  case (Cons y ys)
  have "linked (push_front i s) (Buf y) ys BHead = linked s (Buf y) ys BHead"
    using assms Cons by (intro linked_cong) (auto simp: ring_def push_front_def Let_def)
  with assms Cons show ?thesis by (auto simp: ring_def push_front_def Let_def)
qed

lemma unlink_buf_ring:
  assumes r: "ring s (as @ i # cs)"
  shows "ring (unlink_buf i s) (as @ cs)"
proof -
  let ?t = "unlink_buf i s"
  have d: "distinct (as @ i # cs)" and l: "linked s BHead as (Buf i)" "linked s (Buf i) cs BHead"
    using r by (auto simp: ring_def linked_append)
  have keep: "linked ?t a xs e = linked s a xs e"
    if "a \<noteq> bprev s (Buf i)" "bprev s (Buf i) \<notin> Buf ` set xs" "e \<noteq> bnext s (Buf i)" "bnext s (Buf i) \<notin> Buf ` set xs" for a xs e
    using that by (intro linked_cong) (auto simp: unlink_buf_def Let_def)
  have tail: "linked ?t (bprev s (Buf i)) cs BHead"
  proof (cases cs)
    case Nil
    with l show ?thesis by (simp add: unlink_buf_def Let_def)
  next
    case (Cons c ds)
    have "bprev s (Buf i) \<noteq> Buf x" if "x \<in> set cs" for x
      using l(1) that d by (cases as rule: rev_cases) (auto simp: linked_append)
    then have "linked ?t (Buf c) ds BHead = linked s (Buf c) ds BHead"
      using l Cons d by (intro linked_cong) (auto simp: unlink_buf_def Let_def)
    with l Cons show ?thesis by (simp add: unlink_buf_def Let_def)
  qed
  show ?thesis
  proof (cases as rule: rev_cases)
    case Nil
    with tail l(1) d show ?thesis by (simp add: ring_def)
  next
    case (snoc bs z)
    have z: "bprev s (Buf i) = Buf z" using l(1) snoc by (simp add: linked_append)
    have "bnext s (Buf i) \<noteq> Buf x" if "x \<in> set as" for x
      using l(2) that d by (cases cs) auto
    then have "linked ?t BHead bs (Buf z) = linked s BHead bs (Buf z)"
      using z snoc d by (intro linked_cong) (auto simp: unlink_buf_def Let_def)
    moreover have "linked s BHead bs (Buf z)" using l(1) snoc by (simp add: linked_append)
    ultimately show ?thesis using tail z snoc d by (simp add: ring_def linked_append)
  qed
qed

lemma bget_fwd_ring:
  assumes "linked s a xs BHead" and "length xs < n"
  shows "bget_fwd n s dv blk (bnext s a) = Inr (find (\<lambda>i. b_dev (bufs s i) = dv \<and> b_blockno (bufs s i) = blk) xs)"
  using assms
proof (induction xs arbitrary: a n)
  case (Cons x xs)
  then show ?case by (cases n) auto
qed simp

lemma linked_snoc: "linked s a (xs @ [y]) e \<longleftrightarrow> linked s a xs (Buf y) \<and> bnext s (Buf y) = e \<and> bprev s e = Buf y"
  by (simp add: linked_append)

lemma bget_bwd_ring:
  assumes "linked s BHead xs e" and "length xs < n"
  shows "bget_bwd n s (bprev s e) = Inr (find (\<lambda>i. b_refcnt (bufs s i) = 0 \<and> \<not> b_dirty (bufs s i)) (rev xs))"
  using assms
proof (induction xs arbitrary: e n rule: rev_induct)
  case (snoc x xs)
  then show ?case by (cases n) (auto simp: linked_snoc)
qed simp

section \<open>The invariant of the cache\<close>

text \<open>\<open>view s dv b\<close> is the current content of block \<open>b\<close>: the cached copy if there is one, else the disk.\<close>

definition cached :: "bst \<Rightarrow> nat \<Rightarrow> nat \<Rightarrow> nat option" where
  "cached s dv blk = find (\<lambda>i. b_valid (bufs s i) \<and> b_dev (bufs s i) = dv \<and> b_blockno (bufs s i) = blk) [0..<NBUF]"

definition view :: "bst \<Rightarrow> nat \<Rightarrow> nat \<Rightarrow> block" where
  "view s dv blk = (case cached s dv blk of None \<Rightarrow> disk s dv blk | Some i \<Rightarrow> b_data (bufs s i))"

text \<open>The ring holds every buffer once, a block of a real device is in at most one buffer, a buffer is locked
  only while it is referenced, and an unlocked valid buffer that is not dirty agrees with the disk.\<close>

definition binv :: "bst \<Rightarrow> bool" where
  "binv s \<longleftrightarrow>
     (\<exists>xs. ring s xs \<and> set xs = {..<NBUF}) \<and>
     (\<forall>i < NBUF. \<forall>j < NBUF. b_dev (bufs s i) \<noteq> 0 \<longrightarrow> b_dev (bufs s j) = b_dev (bufs s i) \<longrightarrow>
        b_blockno (bufs s j) = b_blockno (bufs s i) \<longrightarrow> i = j) \<and>
     (\<forall>i < NBUF. sl_locked (b_lock (bufs s i)) \<longrightarrow> b_refcnt (bufs s i) > 0) \<and>
     (\<forall>i < NBUF. b_dirty (bufs s i) \<longrightarrow> b_valid (bufs s i)) \<and>
     (\<forall>i < NBUF. b_valid (bufs s i) \<and> \<not> b_dirty (bufs s i) \<and> \<not> sl_locked (b_lock (bufs s i)) \<longrightarrow>
        b_data (bufs s i) = disk s (b_dev (bufs s i)) (b_blockno (bufs s i)))"

lemma binvD:
  assumes "binv s"
  shows "\<exists>xs. ring s xs \<and> set xs = {..<NBUF}"
    and "i < NBUF \<Longrightarrow> j < NBUF \<Longrightarrow> b_dev (bufs s i) \<noteq> 0 \<Longrightarrow> b_dev (bufs s j) = b_dev (bufs s i) \<Longrightarrow>
        b_blockno (bufs s j) = b_blockno (bufs s i) \<Longrightarrow> i = j"
    and "i < NBUF \<Longrightarrow> sl_locked (b_lock (bufs s i)) \<Longrightarrow> b_refcnt (bufs s i) > 0"
    and "i < NBUF \<Longrightarrow> b_dirty (bufs s i) \<Longrightarrow> b_valid (bufs s i)"
    and "i < NBUF \<Longrightarrow> b_valid (bufs s i) \<Longrightarrow> \<not> b_dirty (bufs s i) \<Longrightarrow> \<not> sl_locked (b_lock (bufs s i)) \<Longrightarrow>
        b_data (bufs s i) = disk s (b_dev (bufs s i)) (b_blockno (bufs s i))"
proof -
  from assms have 1: "\<exists>xs. ring s xs \<and> set xs = {..<NBUF}"
    and 2: "\<forall>i < NBUF. \<forall>j < NBUF. b_dev (bufs s i) \<noteq> 0 \<longrightarrow> b_dev (bufs s j) = b_dev (bufs s i) \<longrightarrow>
        b_blockno (bufs s j) = b_blockno (bufs s i) \<longrightarrow> i = j"
    and 3: "\<forall>i < NBUF. sl_locked (b_lock (bufs s i)) \<longrightarrow> b_refcnt (bufs s i) > 0"
    and 4: "\<forall>i < NBUF. b_dirty (bufs s i) \<longrightarrow> b_valid (bufs s i)"
    and 5: "\<forall>i < NBUF. b_valid (bufs s i) \<and> \<not> b_dirty (bufs s i) \<and> \<not> sl_locked (b_lock (bufs s i)) \<longrightarrow>
        b_data (bufs s i) = disk s (b_dev (bufs s i)) (b_blockno (bufs s i))"
    by (unfold binv_def) (elim conjE, assumption)+
  show "\<exists>xs. ring s xs \<and> set xs = {..<NBUF}" by (rule 1)
  show "i = j" if "i < NBUF" "j < NBUF" "b_dev (bufs s i) \<noteq> 0" "b_dev (bufs s j) = b_dev (bufs s i)"
    "b_blockno (bufs s j) = b_blockno (bufs s i)"
    using 2 that by blast
  show "b_refcnt (bufs s i) > 0" if "i < NBUF" "sl_locked (b_lock (bufs s i))" using 3 that by blast
  show "b_valid (bufs s i)" if "i < NBUF" "b_dirty (bufs s i)" using 4 that by blast
  show "b_data (bufs s i) = disk s (b_dev (bufs s i)) (b_blockno (bufs s i))"
    if "i < NBUF" "b_valid (bufs s i)" "\<not> b_dirty (bufs s i)" "\<not> sl_locked (b_lock (bufs s i))"
    using 5 that by blast
qed

lemma cached_some:
  assumes "binv s" and "i < NBUF" and "b_valid (bufs s i)" and "b_dev (bufs s i) \<noteq> 0"
  shows "cached s (b_dev (bufs s i)) (b_blockno (bufs s i)) = Some i"
  unfolding cached_def
proof (rule find_unique)
  fix j
  assume j: "j \<in> set [0..<NBUF]"
    "b_valid (bufs s j) \<and> b_dev (bufs s j) = b_dev (bufs s i) \<and> b_blockno (bufs s j) = b_blockno (bufs s i)"
  then have "j < NBUF" by simp
  then have "i = j" by (rule binvD(2) [OF assms(1,2)]) (use assms(4) j in simp_all)
  then show "j = i" ..
qed (use assms(2,3) in simp_all)

lemma view_buf:
  "binv s \<Longrightarrow> i < NBUF \<Longrightarrow> b_valid (bufs s i) \<Longrightarrow> b_dev (bufs s i) \<noteq> 0 \<Longrightarrow>
   view s (b_dev (bufs s i)) (b_blockno (bufs s i)) = b_data (bufs s i)"
  by (simp add: view_def cached_some)

lemma view_disk:
  assumes "\<And>i. i < NBUF \<Longrightarrow> b_valid (bufs s i) \<Longrightarrow> b_dev (bufs s i) = dv \<Longrightarrow> b_blockno (bufs s i) = blk \<Longrightarrow> False"
  shows "view s dv blk = disk s dv blk"
proof -
  have "cached s dv blk = None" using assms by (auto simp: cached_def find_None_iff)
  then show ?thesis by (simp add: view_def)
qed

text \<open>The view depends on the valid buffers and the disk.\<close>

lemma view_cong:
  assumes "binv s" and "binv t" and dv: "dv \<noteq> 0"
    and "\<And>i. i < NBUF \<Longrightarrow> b_valid (bufs s i) \<Longrightarrow> b_dev (bufs s i) = dv \<Longrightarrow> b_blockno (bufs s i) = blk \<Longrightarrow>
       view t dv blk = b_data (bufs s i)"
    and "(\<And>i. i < NBUF \<Longrightarrow> b_valid (bufs s i) \<Longrightarrow> b_dev (bufs s i) = dv \<Longrightarrow> b_blockno (bufs s i) = blk \<Longrightarrow> False) \<Longrightarrow>
       view t dv blk = disk s dv blk"
  shows "view t dv blk = view s dv blk"
proof (cases "\<exists>i < NBUF. b_valid (bufs s i) \<and> b_dev (bufs s i) = dv \<and> b_blockno (bufs s i) = blk")
  case True
  then obtain i where i: "i < NBUF" "b_valid (bufs s i)" "b_dev (bufs s i) = dv" "b_blockno (bufs s i) = blk" by blast
  then show ?thesis using view_buf [OF assms(1), of i] assms(4) [OF i] dv by simp
next
  case False
  then have n: "\<And>i. i < NBUF \<Longrightarrow> b_valid (bufs s i) \<Longrightarrow> b_dev (bufs s i) = dv \<Longrightarrow> b_blockno (bufs s i) = blk \<Longrightarrow> False"
    by blast
  then show ?thesis using view_disk [of s dv blk, OF n] assms(5) [OF n] by simp
qed

abbreviation holds :: "bst \<Rightarrow> nat \<Rightarrow> nat \<Rightarrow> nat \<Rightarrow> bool" where
  "holds s dv blk i \<equiv> b_dev (bufs s i) = dv \<and> b_blockno (bufs s i) = blk"

lemma binv_upd_b:
  assumes inv: "binv s" and i: "i < NBUF"
    and u: "\<And>j. j < NBUF \<Longrightarrow> j \<noteq> i \<Longrightarrow> b_dev (f (bufs s i)) \<noteq> 0 \<Longrightarrow>
       \<not> holds s (b_dev (f (bufs s i))) (b_blockno (f (bufs s i))) j"
    and l: "sl_locked (b_lock (f (bufs s i))) \<Longrightarrow> b_refcnt (f (bufs s i)) > 0"
    and d: "b_dirty (f (bufs s i)) \<Longrightarrow> b_valid (f (bufs s i))"
    and c: "b_valid (f (bufs s i)) \<Longrightarrow> \<not> b_dirty (f (bufs s i)) \<Longrightarrow> \<not> sl_locked (b_lock (f (bufs s i))) \<Longrightarrow>
       b_data (f (bufs s i)) = disk s (b_dev (f (bufs s i))) (b_blockno (f (bufs s i)))"
  shows "binv (upd_b i f s)"
  unfolding binv_def
proof (intro conjI allI impI)
  show "\<exists>xs. ring (upd_b i f s) xs \<and> set xs = {..<NBUF}" using binvD(1) [OF inv] by simp
next
  fix j k
  assume a: "j < NBUF" "k < NBUF" "b_dev (bufs (upd_b i f s) j) \<noteq> 0"
    "b_dev (bufs (upd_b i f s) k) = b_dev (bufs (upd_b i f s) j)"
    "b_blockno (bufs (upd_b i f s) k) = b_blockno (bufs (upd_b i f s) j)"
  show "j = k"
  proof (cases "j = i")
    case True
    with a u [of k] show ?thesis by (cases "k = i") simp_all
  next
    case j: False
    show ?thesis
    proof (cases "k = i")
      case True
      have e: "b_dev (bufs s j) \<noteq> 0" "b_dev (bufs s j) = b_dev (f (bufs s i))" "b_blockno (bufs s j) = b_blockno (f (bufs s i))"
        using a(3-5) j True by simp_all
      then have "b_dev (f (bufs s i)) \<noteq> 0" by metis
      with u [OF a(1) j] e(2,3) show ?thesis by blast
    next
      case False
      then have "b_dev (bufs s j) \<noteq> 0" "b_dev (bufs s k) = b_dev (bufs s j)" "b_blockno (bufs s k) = b_blockno (bufs s j)"
        using a(3-5) j by simp_all
      then show ?thesis by (rule binvD(2) [OF inv a(1,2)])
    qed
  qed
next
  fix j
  assume "j < NBUF" "sl_locked (b_lock (bufs (upd_b i f s) j))"
  then show "0 < b_refcnt (bufs (upd_b i f s) j)" using l binvD(3) [OF inv, of j] by (cases "j = i") simp_all
next
  fix j
  assume "j < NBUF" "b_dirty (bufs (upd_b i f s) j)"
  then show "b_valid (bufs (upd_b i f s) j)" using d binvD(4) [OF inv, of j] by (cases "j = i") simp_all
next
  fix j
  assume "j < NBUF" "b_valid (bufs (upd_b i f s) j) \<and> \<not> b_dirty (bufs (upd_b i f s) j) \<and>
    \<not> sl_locked (b_lock (bufs (upd_b i f s) j))"
  then show "b_data (bufs (upd_b i f s) j) = disk (upd_b i f s) (b_dev (bufs (upd_b i f s) j)) (b_blockno (bufs (upd_b i f s) j))"
    using c binvD(5) [OF inv, of j] by (cases "j = i") simp_all
qed

lemma bget_ok:
  assumes inv: "binv s" and dv: "dv \<noteq> 0"
    and unl: "\<And>i. i < NBUF \<Longrightarrow> holds s dv blk i \<Longrightarrow> \<not> sl_locked (b_lock (bufs s i))"
    and free: "(\<exists>i < NBUF. holds s dv blk i) \<or> (\<exists>i < NBUF. b_refcnt (bufs s i) = 0 \<and> \<not> b_dirty (bufs s i))"
  obtains i f where "bget me dv blk s = Inr (i, upd_b i f s)" and "i < NBUF" and "binv (upd_b i f s)"
    and "if holds s dv blk i
        then f (bufs s i) = (bufs s i)\<lparr>b_refcnt := b_refcnt (bufs s i) + 1, b_lock := \<lparr>sl_locked = True, sl_pid = me\<rparr>\<rparr>
        else b_refcnt (bufs s i) = 0 \<and> \<not> b_dirty (bufs s i) \<and> (\<forall>j < NBUF. \<not> holds s dv blk j) \<and>
          f (bufs s i) = (bufs s i)\<lparr>b_dev := dv, b_blockno := blk, b_valid := False, b_dirty := False, b_refcnt := 1,
             b_lock := \<lparr>sl_locked = True, sl_pid = me\<rparr>\<rparr>"
proof -
  obtain xs where r: "ring s xs" and xs: "set xs = {..<NBUF}" using binvD(1) [OF inv] by blast
  have len: "length xs < Suc NBUF" using distinct_subset_length [of xs NBUF] r xs by (simp add: ring_def)
  have lk: "linked s BHead xs BHead" using r by (simp add: ring_def)
  have lock: "lock_buf me i (upd_b i f s) = Inr (i, upd_b i (\<lambda>b. (f b)\<lparr>b_lock := \<lparr>sl_locked = True, sl_pid = me\<rparr>\<rparr>) s)"
    if "\<not> sl_locked (b_lock (f (bufs s i)))" for i f
    using that by (cases "b_lock (f (bufs s i))") (auto simp: lock_buf_def acquiresleep_def upd_b_def fun_eq_iff)
  show thesis
  proof (cases "find (holds s dv blk) xs")
    case (Some i)
    then have i: "i < NBUF" "holds s dv blk i" using find_SomeD [OF Some] xs by auto
    let ?f = "\<lambda>b. (b\<lparr>b_refcnt := b_refcnt b + 1\<rparr>)\<lparr>b_lock := \<lparr>sl_locked = True, sl_pid = me\<rparr>\<rparr>"
    have "bget me dv blk s = Inr (i, upd_b i ?f s)"
      using bget_fwd_ring [OF lk len] Some unl [OF i] lock [of "\<lambda>b. b\<lparr>b_refcnt := b_refcnt b + 1\<rparr>" i]
      by (simp add: bget_def)
    moreover have "binv (upd_b i ?f s)"
    proof (rule binv_upd_b [OF inv i(1)])
      fix j assume j: "j < NBUF" "j \<noteq> i" "b_dev (?f (bufs s i)) \<noteq> 0"
      show "\<not> holds s (b_dev (?f (bufs s i))) (b_blockno (?f (bufs s i))) j"
        using binvD(2) [OF inv i(1) j(1)] j by auto
    qed (use binvD(4) [OF inv i(1)] in simp_all)
    ultimately show thesis using i by (intro that [of i ?f]) simp_all
  next
    case None
    then have nh: "\<forall>j < NBUF. \<not> holds s dv blk j" using xs by (auto simp: find_None_iff)
    obtain i where f: "find (\<lambda>i. b_refcnt (bufs s i) = 0 \<and> \<not> b_dirty (bufs s i)) (rev xs) = Some i"
      using free nh xs by (cases "find (\<lambda>i. b_refcnt (bufs s i) = 0 \<and> \<not> b_dirty (bufs s i)) (rev xs)") (auto simp: find_None_iff)
    then have i: "i < NBUF" "b_refcnt (bufs s i) = 0" "\<not> b_dirty (bufs s i)" using find_SomeD [OF f] xs by auto
    have ul: "\<not> sl_locked (b_lock (bufs s i))" using binvD(3) [OF inv i(1)] i(2) by auto
    let ?g = "\<lambda>b. b\<lparr>b_dev := dv, b_blockno := blk, b_valid := False, b_dirty := False, b_refcnt := 1\<rparr>"
    let ?f = "\<lambda>b. (?g b)\<lparr>b_lock := \<lparr>sl_locked = True, sl_pid = me\<rparr>\<rparr>"
    have "bget me dv blk s = Inr (i, upd_b i ?f s)"
      using bget_fwd_ring [OF lk len, of dv blk] None bget_bwd_ring [OF lk len] f ul lock [of ?g i] by (simp add: bget_def)
    moreover have "binv (upd_b i ?f s)"
      by (rule binv_upd_b [OF inv i(1)]) (use nh in simp_all)
    ultimately show thesis using i nh by (intro that [of i ?f]) auto
  qed
qed

section \<open>Buffers in use\<close>

text \<open>\<open>hst me s H\<close>: the invariant holds, process \<open>me\<close> holds exactly the buffers \<open>H\<close>, and nobody else uses a
  buffer. \<open>dirtyb\<close> collects the blocks whose buffer is pinned by the dirty flag.\<close>

definition hst :: "int \<Rightarrow> bst \<Rightarrow> nat set \<Rightarrow> bool" where
  "hst me s H \<longleftrightarrow> binv s \<and> H \<subseteq> {..<NBUF} \<and> havedisk1 s \<and>
     (\<forall>i < NBUF. if i \<in> H
        then b_valid (bufs s i) \<and> b_dev (bufs s i) \<noteq> 0 \<and> b_blockno (bufs s i) < FSSIZE \<and> b_refcnt (bufs s i) = 1 \<and>
             b_lock (bufs s i) = \<lparr>sl_locked = True, sl_pid = me\<rparr>
        else b_refcnt (bufs s i) = 0)"

definition dirtyb :: "bst \<Rightarrow> (nat \<times> nat) set" where
  "dirtyb s = (\<lambda>i. (b_dev (bufs s i), b_blockno (bufs s i))) ` {i. i < NBUF \<and> b_dirty (bufs s i)}"

lemma hstD:
  assumes "hst me s H"
  shows "binv s" and "havedisk1 s" and "i \<in> H \<Longrightarrow> i < NBUF"
    and "i \<in> H \<Longrightarrow> b_valid (bufs s i)" and "i \<in> H \<Longrightarrow> b_dev (bufs s i) \<noteq> 0"
    and "i \<in> H \<Longrightarrow> b_blockno (bufs s i) < FSSIZE" and "i \<in> H \<Longrightarrow> b_refcnt (bufs s i) = 1"
    and "i \<in> H \<Longrightarrow> b_lock (bufs s i) = \<lparr>sl_locked = True, sl_pid = me\<rparr>"
    and "i < NBUF \<Longrightarrow> i \<notin> H \<Longrightarrow> b_refcnt (bufs s i) = 0"
proof -
  have a: "if i \<in> H
        then b_valid (bufs s i) \<and> b_dev (bufs s i) \<noteq> 0 \<and> b_blockno (bufs s i) < FSSIZE \<and> b_refcnt (bufs s i) = 1 \<and>
             b_lock (bufs s i) = \<lparr>sl_locked = True, sl_pid = me\<rparr>
        else b_refcnt (bufs s i) = 0" if "i < NBUF" for i
    using assms that unfolding hst_def by (elim conjE) blast
  have h: "i < NBUF" if "i \<in> H" for i using assms that unfolding hst_def by blast
  show "binv s" "havedisk1 s" using assms unfolding hst_def by - (elim conjE, assumption)+
  show "i \<in> H \<Longrightarrow> i < NBUF" by (rule h)
  show "i \<in> H \<Longrightarrow> b_valid (bufs s i)" "i \<in> H \<Longrightarrow> b_dev (bufs s i) \<noteq> 0"
    "i \<in> H \<Longrightarrow> b_blockno (bufs s i) < FSSIZE" "i \<in> H \<Longrightarrow> b_refcnt (bufs s i) = 1"
    "i \<in> H \<Longrightarrow> b_lock (bufs s i) = \<lparr>sl_locked = True, sl_pid = me\<rparr>"
    "i < NBUF \<Longrightarrow> i \<notin> H \<Longrightarrow> b_refcnt (bufs s i) = 0"
    using a [of i] h [of i] by simp_all
qed

lemma hst_unlocked: "hst me s H \<Longrightarrow> i < NBUF \<Longrightarrow> i \<notin> H \<Longrightarrow> \<not> sl_locked (b_lock (bufs s i))"
  using binvD(3) [OF hstD(1), of me s H i] hstD(9) [of me s H i] by auto

lemma hst_uniq:
  assumes "hst me s H" and "i < NBUF" and "j < NBUF" and "holds s dv blk i" and "holds s dv blk j" and "dv \<noteq> 0"
  shows "i = j"
  using binvD(2) [OF hstD(1) [OF assms(1)] assms(2,3)] assms(4-6) by metis

lemma hst_view: "hst me s H \<Longrightarrow> i \<in> H \<Longrightarrow> view s (b_dev (bufs s i)) (b_blockno (bufs s i)) = b_data (bufs s i)"
  by (rule view_buf) (simp_all add: hstD)

lemma free_exists:
  assumes h: "hst me s H" and d: "\<forall>(a, b) \<in> dirtyb s. a \<noteq> 0" and c: "card H + card (dirtyb s) < NBUF"
  shows "\<exists>i < NBUF. i \<notin> H \<and> b_refcnt (bufs s i) = 0 \<and> \<not> b_dirty (bufs s i)"
proof (rule ccontr)
  let ?D = "{i. i < NBUF \<and> b_dirty (bufs s i)}"
  assume n: "\<not> ?thesis"
  have "i \<in> H \<union> ?D" if i: "i < NBUF" for i
    using hstD(9) [OF h i] n i by blast
  then have "{..<NBUF} \<subseteq> H \<union> ?D" by blast
  moreover have fin: "finite H" using finite_subset [of H "{..<NBUF}"] hstD(3) [OF h] by blast
  ultimately have "NBUF \<le> card (H \<union> ?D)" by (metis card_lessThan card_mono finite_Collect_conjI finite_Collect_less_nat finite_UnI)
  also have "\<dots> \<le> card H + card ?D" by (rule card_Un_le)
  also have "card ?D = card (dirtyb s)"
    unfolding dirtyb_def
  proof (rule card_image [symmetric], rule inj_onI)
    fix i j
    assume i: "i \<in> ?D" and j: "j \<in> ?D" and e: "(b_dev (bufs s i), b_blockno (bufs s i)) = (b_dev (bufs s j), b_blockno (bufs s j))"
    have "b_dev (bufs s i) \<noteq> 0" using d i by (auto simp: dirtyb_def)
    then show "i = j" using hst_uniq [OF h, of i j "b_dev (bufs s i)" "b_blockno (bufs s i)"] i j e by simp
  qed
  finally show False using c by simp
qed

text \<open>A change of one buffer that its holder makes.\<close>

lemma hst_upd_b:
  assumes h: "hst me s H" and i: "i \<in> H"
    and f: "b_valid (f (bufs s i))" "b_dev (f (bufs s i)) = b_dev (bufs s i)" "b_blockno (f (bufs s i)) = b_blockno (bufs s i)"
      "b_refcnt (f (bufs s i)) = b_refcnt (bufs s i)" "b_lock (f (bufs s i)) = b_lock (bufs s i)"
  shows "hst me (upd_b i f s) H"
proof -
  note g = hstD [OF h]
  have iN: "i < NBUF" by (rule g(3) [OF i])
  have "binv (upd_b i f s)"
  proof (rule binv_upd_b [OF g(1) iN])
    fix j
    assume "j < NBUF" "j \<noteq> i" "b_dev (f (bufs s i)) \<noteq> 0"
    then show "\<not> holds s (b_dev (f (bufs s i))) (b_blockno (f (bufs s i))) j"
      using hst_uniq [OF h _ iN] f(2,3) by metis
  qed (use f g(7,8) [OF i] in simp_all)
  moreover have "H \<subseteq> {..<NBUF}" using g(3) by blast
  ultimately show ?thesis
    unfolding hst_def using f g(4-8) [OF i] by (simp add: g(2)) (use g(4-9) in auto)
qed

lemma view_upd_b:
  assumes h: "hst me s H" and i: "i \<in> H" and h': "hst me (upd_b i f s) H"
    and f: "b_dev (f (bufs s i)) = b_dev (bufs s i)" "b_blockno (f (bufs s i)) = b_blockno (bufs s i)" and dv: "dv \<noteq> 0"
  shows "view (upd_b i f s) dv blk =
    (if holds s dv blk i then b_data (f (bufs s i)) else view s dv blk)"
proof (cases "holds s dv blk i")
  case True
  then show ?thesis using hst_view [OF h' i] f by simp
next
  case False
  have "view (upd_b i f s) dv blk = view s dv blk"
  proof (rule view_cong [OF hstD(1) [OF h] hstD(1) [OF h'] dv])
    fix j
    assume j: "j < NBUF" "b_valid (bufs s j)" "b_dev (bufs s j) = dv" "b_blockno (bufs s j) = blk"
    with False have n: "j \<noteq> i" by blast
    then show "view (upd_b i f s) dv blk = b_data (bufs s j)"
      using view_buf [OF hstD(1) [OF h'], of j] j dv by simp
  next
    assume n: "\<And>i. i < NBUF \<Longrightarrow> b_valid (bufs s i) \<Longrightarrow> b_dev (bufs s i) = dv \<Longrightarrow> b_blockno (bufs s i) = blk \<Longrightarrow> False"
    have "view (upd_b i f s) dv blk = disk (upd_b i f s) dv blk"
    proof (rule view_disk)
      fix j
      assume "j < NBUF" "b_valid (bufs (upd_b i f s) j)" "b_dev (bufs (upd_b i f s) j) = dv" "b_blockno (bufs (upd_b i f s) j) = blk"
      then show False using n [of j] False f by (cases "j = i") simp_all
    qed
    then show "view (upd_b i f s) dv blk = disk s dv blk" by simp
  qed
  then show ?thesis using False by auto
qed

lemma dirtyb_upd_b:
  assumes "i < NBUF" and "b_dev (f (bufs s i)) = b_dev (bufs s i)" and "b_blockno (f (bufs s i)) = b_blockno (bufs s i)"
  shows "b_dirty (f (bufs s i)) = b_dirty (bufs s i) \<Longrightarrow> dirtyb (upd_b i f s) = dirtyb s"
    and "b_dirty (f (bufs s i)) \<Longrightarrow> dirtyb (upd_b i f s) = insert (b_dev (bufs s i), b_blockno (bufs s i)) (dirtyb s)"
proof -
  have e: "(b_dev (bufs (upd_b i f s) j), b_blockno (bufs (upd_b i f s) j)) = (b_dev (bufs s j), b_blockno (bufs s j))" for j
    using assms by simp
  show "dirtyb (upd_b i f s) = dirtyb s" if d: "b_dirty (f (bufs s i)) = b_dirty (bufs s i)"
  proof -
    have "{j. j < NBUF \<and> b_dirty (bufs (upd_b i f s) j)} = {j. j < NBUF \<and> b_dirty (bufs s j)}" using d by auto
    then show ?thesis unfolding dirtyb_def e by simp
  qed
  show "dirtyb (upd_b i f s) = insert (b_dev (bufs s i), b_blockno (bufs s i)) (dirtyb s)" if d: "b_dirty (f (bufs s i))"
  proof -
    have "{j. j < NBUF \<and> b_dirty (bufs (upd_b i f s) j)} = insert i {j. j < NBUF \<and> b_dirty (bufs s j)}" using d assms(1) by auto
    then show ?thesis unfolding dirtyb_def e by simp
  qed
qed

text \<open>What \<^const>\<open>bread\<close> leaves in the buffer it returns.\<close>

definition read_buf :: "int \<Rightarrow> nat \<Rightarrow> nat \<Rightarrow> nat \<Rightarrow> bst \<Rightarrow> buf" where
  "read_buf me dv blk i s = \<lparr>b_valid = True, b_dirty = b_dirty (bufs s i), b_dev = dv, b_blockno = blk,
     b_lock = \<lparr>sl_locked = True, sl_pid = me\<rparr>, b_refcnt = 1, b_data = view s dv blk\<rparr>"

lemma read_buf_sel [simp]:
  "b_valid (read_buf me dv blk i s)" "b_dirty (read_buf me dv blk i s) = b_dirty (bufs s i)"
  "b_dev (read_buf me dv blk i s) = dv" "b_blockno (read_buf me dv blk i s) = blk"
  "b_lock (read_buf me dv blk i s) = \<lparr>sl_locked = True, sl_pid = me\<rparr>" "b_refcnt (read_buf me dv blk i s) = 1"
  "b_data (read_buf me dv blk i s) = view s dv blk"
  by (simp_all add: read_buf_def)

lemma bread_exec:
  assumes h: "hst me s H" and dv: "dv \<noteq> 0" and blk: "blk < FSSIZE" and nh: "\<forall>i \<in> H. \<not> holds s dv blk i"
    and free: "(\<exists>i < NBUF. holds s dv blk i) \<or> (\<exists>i < NBUF. i \<notin> H \<and> b_refcnt (bufs s i) = 0 \<and> \<not> b_dirty (bufs s i))"
  obtains i where "i < NBUF" and "i \<notin> H" and "bread me dv blk s = Inr (i, upd_b i (\<lambda>_. read_buf me dv blk i s) s)"
    and "holds s dv blk i \<or> (\<forall>j < NBUF. \<not> holds s dv blk j) \<and> \<not> b_dirty (bufs s i)"
    and "b_dirty (bufs s i) \<or> view s dv blk = disk s dv blk"
proof -
  note inv = hstD(1) [OF h]
  have unl: "\<not> sl_locked (b_lock (bufs s i))" if "i < NBUF" "holds s dv blk i" for i
    using hst_unlocked [OF h that(1)] nh that(2) by blast
  have fr: "(\<exists>i < NBUF. holds s dv blk i) \<or> (\<exists>i < NBUF. b_refcnt (bufs s i) = 0 \<and> \<not> b_dirty (bufs s i))" using free by blast
  obtain i f where b: "bget me dv blk s = Inr (i, upd_b i f s)" and i: "i < NBUF"
    and c: "if holds s dv blk i
        then f (bufs s i) = (bufs s i)\<lparr>b_refcnt := b_refcnt (bufs s i) + 1, b_lock := \<lparr>sl_locked = True, sl_pid = me\<rparr>\<rparr>
        else b_refcnt (bufs s i) = 0 \<and> \<not> b_dirty (bufs s i) \<and> (\<forall>j < NBUF. \<not> holds s dv blk j) \<and>
          f (bufs s i) = (bufs s i)\<lparr>b_dev := dv, b_blockno := blk, b_valid := False, b_dirty := False, b_refcnt := 1,
             b_lock := \<lparr>sl_locked = True, sl_pid = me\<rparr>\<rparr>"
    by (rule bget_ok [OF inv dv unl fr]) blast
  have iH: "i \<notin> H" using c hstD(7) [OF h, of i] nh by (auto split: if_splits)
  have ref: "b_refcnt (bufs s i) = 0" by (rule hstD(9) [OF h i iH])
  have upd: "upd_b i g (upd_b i f s) = upd_b i (\<lambda>_. g (f (bufs s i))) s" "upd_b i f s = upd_b i (\<lambda>_. f (bufs s i)) s" for g f
    by (simp_all add: upd_b_def)
  have disk: "view s dv blk = disk s dv blk" if "\<not> b_valid (bufs s i) \<or> \<not> holds s dv blk i"
  proof (rule view_disk)
    fix j assume j: "j < NBUF" "b_valid (bufs s j)" "b_dev (bufs s j) = dv" "b_blockno (bufs s j) = blk"
    then have "holds s dv blk i" using c by (auto split: if_splits)
    then have "i = j" using hst_uniq [OF h i j(1) _ _ dv] j by blast
    then show False using that j \<open>holds s dv blk i\<close> by blast
  qed
  show thesis
  proof (cases "holds s dv blk i")
    case hd: True
    then have fi: "f (bufs s i) = (bufs s i)\<lparr>b_refcnt := 1, b_lock := \<lparr>sl_locked = True, sl_pid = me\<rparr>\<rparr>" using c ref by simp
    show thesis
    proof (cases "b_valid (bufs s i)")
      case True
      have "f (bufs s i) = read_buf me dv blk i s"
        using fi hd view_buf [OF inv i True] dv True by (cases "bufs s i") (simp add: read_buf_def)
      then have "bread me dv blk s = Inr (i, upd_b i (\<lambda>_. read_buf me dv blk i s) s)"
        using b True fi upd(2) [of f] by (simp add: bread_def)
      moreover have "b_dirty (bufs s i) \<or> view s dv blk = disk s dv blk"
        using binvD(5) [OF inv i True] unl [OF i hd] hd view_buf [OF inv i True] dv by auto
      ultimately show thesis using that i iH hd by blast
    next
      case False
      then have nd: "\<not> b_dirty (bufs s i)" using binvD(4) [OF inv i] by blast
      have "bread me dv blk s = Inr (i, upd_b i (\<lambda>_. read_buf me dv blk i s) s)"
        using b False nd fi hd blk dv hstD(2) [OF h] disk
        by (cases "bufs s i") (simp add: bread_def iderw_def Let_def holdingsleep_def upd(1) read_buf_def)
      then show thesis using that i iH hd disk False by blast
    qed
  next
    case False
    then have c': "\<not> b_dirty (bufs s i)" "\<forall>j < NBUF. \<not> holds s dv blk j"
      "f (bufs s i) = (bufs s i)\<lparr>b_dev := dv, b_blockno := blk, b_valid := False, b_dirty := False, b_refcnt := 1,
             b_lock := \<lparr>sl_locked = True, sl_pid = me\<rparr>\<rparr>"
      using c by (simp_all split: if_splits)
    have "bread me dv blk s = Inr (i, upd_b i (\<lambda>_. read_buf me dv blk i s) s)"
      using b c' blk dv hstD(2) [OF h] disk False
      by (cases "bufs s i") (simp add: bread_def iderw_def Let_def holdingsleep_def upd(1) read_buf_def)
    then show thesis using that i iH c' disk False by blast
  qed
qed

text \<open>\<open>bread\<close> gives a locked buffer with the current content of the block, and the current content of no block changes.\<close>

definition same_view :: "bst \<Rightarrow> bst \<Rightarrow> bool" where
  "same_view s t \<longleftrightarrow> (\<forall>dv b. dv \<noteq> 0 \<longrightarrow> view t dv b = view s dv b)"

lemma bread_held:
  assumes h: "hst me s H" and dv: "dv \<noteq> 0" and blk: "blk < FSSIZE" and nh: "\<forall>i \<in> H. \<not> holds s dv blk i"
    and free: "(dv, blk) \<in> dirtyb s \<or> (\<exists>i < NBUF. i \<notin> H \<and> b_refcnt (bufs s i) = 0 \<and> \<not> b_dirty (bufs s i))"
  obtains i t where "bread me dv blk s = Inr (i, t)" and "i < NBUF" and "i \<notin> H" and "hst me t (insert i H)" and "holds t dv blk i"
    and "b_data (bufs t i) = view s dv blk" and "b_dirty (bufs t i) \<or> b_data (bufs t i) = disk t dv blk"
    and "\<forall>j. j \<noteq> i \<longrightarrow> bufs t j = bufs s j" and "disk t = disk s" and "hist t = hist s" and "dirtyb t = dirtyb s" and "same_view s t"
proof -
  have fr: "(\<exists>i < NBUF. holds s dv blk i) \<or> (\<exists>i < NBUF. i \<notin> H \<and> b_refcnt (bufs s i) = 0 \<and> \<not> b_dirty (bufs s i))"
    using free by (auto simp: dirtyb_def)
  obtain i where i: "i < NBUF" and iH: "i \<notin> H" and e: "bread me dv blk s = Inr (i, upd_b i (\<lambda>_. read_buf me dv blk i s) s)"
    and c: "holds s dv blk i \<or> (\<forall>j < NBUF. \<not> holds s dv blk j) \<and> \<not> b_dirty (bufs s i)"
    and d: "b_dirty (bufs s i) \<or> view s dv blk = disk s dv blk"
    by (rule bread_exec [OF h dv blk nh fr])
  define t where "t = upd_b i (\<lambda>_. read_buf me dv blk i s) s"
  note g = hstD [OF h]
  have uniq: "\<not> holds s dv blk j" if "j < NBUF" "j \<noteq> i" for j
    using c hst_uniq [OF h i that(1) _ _ dv] that by blast
  have inv: "binv t"
    unfolding t_def by (rule binv_upd_b [OF g(1) i]) (use uniq in simp_all)
  have hst: "hst me t (insert i H)"
    unfolding hst_def using inv g(2) i g(3) dv blk
    by (auto simp: t_def g(4,6-9) dest: g(5))
  have view: "view t dv' b = view s dv' b" if v: "dv' \<noteq> 0" for dv' b
  proof (rule view_cong [OF g(1) inv v])
    fix j
    assume j: "j < NBUF" "b_valid (bufs s j)" "b_dev (bufs s j) = dv'" "b_blockno (bufs s j) = b"
    show "view t dv' b = b_data (bufs s j)"
    proof (cases "j = i")
      case False
      then show ?thesis using view_buf [OF inv, of j] j v by (simp add: t_def)
    next
      case True
      show ?thesis
      proof (cases "holds s dv blk i")
        case True
        then show ?thesis using view_buf [OF inv, of i] view_buf [OF g(1), of i] i j v \<open>j = i\<close> by (simp add: t_def)
      next
        case False
        then have n: "\<forall>j < NBUF. \<not> holds s dv blk j" "\<not> b_dirty (bufs s i)" using c by auto
        have "view t dv' b = disk t dv' b"
        proof (rule view_disk)
          fix k
          assume k: "k < NBUF" "b_valid (bufs t k)" "b_dev (bufs t k) = dv'" "b_blockno (bufs t k) = b"
          then have "k \<noteq> i" using n j \<open>j = i\<close> by (auto simp: t_def)
          then show False using hst_uniq [OF h k(1) j(1) _ _ v] k j \<open>j = i\<close> by (simp add: t_def)
        qed
        then show ?thesis using binvD(5) [OF g(1) j(1,2)] n hst_unlocked [OF h i iH] j \<open>j = i\<close> by (simp add: t_def)
      qed
    qed
  next
    assume n: "\<And>j. j < NBUF \<Longrightarrow> b_valid (bufs s j) \<Longrightarrow> b_dev (bufs s j) = dv' \<Longrightarrow> b_blockno (bufs s j) = b \<Longrightarrow> False"
    show "view t dv' b = disk s dv' b"
    proof (cases "dv' = dv \<and> b = blk")
      case True
      then show ?thesis using view_buf [OF inv, of i] i dv view_disk [of s dv' b, OF n] by (simp add: t_def)
    next
      case False
      have "view t dv' b = disk t dv' b"
      proof (rule view_disk)
        fix k
        assume "k < NBUF" "b_valid (bufs t k)" "b_dev (bufs t k) = dv'" "b_blockno (bufs t k) = b"
        then show False using n [of k] False by (cases "k = i") (simp_all add: t_def)
      qed
      then show ?thesis by (simp add: t_def)
    qed
  qed
  have dirty: "dirtyb t = dirtyb s"
    unfolding dirtyb_def
  proof (rule image_cong)
    show "{i. i < NBUF \<and> b_dirty (bufs t i)} = {i. i < NBUF \<and> b_dirty (bufs s i)}" by (auto simp: t_def)
  qed (use c in \<open>auto simp: t_def\<close>)
  show thesis
    by (rule that [of i t]) (use e i iH hst view dirty d in \<open>simp_all add: t_def same_view_def\<close>)
qed

text \<open>A holder changes the data, pins the buffer, writes it to disk or gives it back.\<close>

lemma set_data_held:
  assumes h: "hst me s H" and i: "i \<in> H"
  shows "hst me (set_data i v s) H" and "dirtyb (set_data i v s) = dirtyb s"
    and "dv \<noteq> 0 \<Longrightarrow> view (set_data i v s) dv blk = (if holds s dv blk i then v else view s dv blk)"
proof -
  show h': "hst me (set_data i v s) H"
    unfolding set_data_def by (rule hst_upd_b [OF h i]) (simp_all add: hstD(4) [OF h i])
  show "dirtyb (set_data i v s) = dirtyb s"
    unfolding set_data_def by (rule dirtyb_upd_b(1)) (simp_all add: hstD(3) [OF h i])
  show "view (set_data i v s) dv blk = (if holds s dv blk i then v else view s dv blk)" if "dv \<noteq> 0"
    using view_upd_b [OF h i h' [unfolded set_data_def] _ _ that, of blk] by (simp add: set_data_def)
qed

lemma set_data_sel [simp]:
  "bufs (set_data i v s) j = (if j = i then (bufs s i)\<lparr>b_data := v\<rparr> else bufs s j)" "disk (set_data i v s) = disk s" "hist (set_data i v s) = hist s"
  by (simp_all add: set_data_def)

definition pin :: "nat \<Rightarrow> bst \<Rightarrow> bst" where
  "pin i s = upd_b i (\<lambda>b. b\<lparr>b_dirty := True\<rparr>) s"

lemma pin_sel [simp]:
  "bufs (pin i s) j = (if j = i then (bufs s i)\<lparr>b_dirty := True\<rparr> else bufs s j)" "disk (pin i s) = disk s" "hist (pin i s) = hist s"
  by (simp_all add: pin_def)

lemma pin_held:
  assumes h: "hst me s H" and i: "i \<in> H"
  shows "hst me (pin i s) H" and "dirtyb (pin i s) = insert (b_dev (bufs s i), b_blockno (bufs s i)) (dirtyb s)" and "same_view s (pin i s)"
proof -
  show h': "hst me (pin i s) H"
    unfolding pin_def by (rule hst_upd_b [OF h i]) (simp_all add: hstD(4) [OF h i])
  show "dirtyb (pin i s) = insert (b_dev (bufs s i), b_blockno (bufs s i)) (dirtyb s)"
    unfolding pin_def by (rule dirtyb_upd_b(2)) (simp_all add: hstD(3) [OF h i])
  show "same_view s (pin i s)"
    using view_upd_b [OF h i h' [unfolded pin_def]] hst_view [OF h i] by (auto simp: pin_def same_view_def)
qed

lemma hst_disk:
  assumes h: "hst me s H" and i: "i \<in> H" and d: "\<And>a b. \<not> holds s a b i \<Longrightarrow> d a b = disk s a b"
  shows "hst me (s\<lparr>disk := d, hist := hs\<rparr>) H"
proof -
  note g = hstD [OF h]
  let ?t = "s\<lparr>disk := d, hist := hs\<rparr>"
  have "binv ?t"
    unfolding binv_def
  proof (intro conjI allI impI)
    obtain xs where "ring s xs" "set xs = {..<NBUF}" using binvD(1) [OF g(1)] by blast
    moreover have "linked ?t a ys e = linked s a ys e" for a ys e by (rule linked_cong) simp_all
    ultimately show "\<exists>xs. ring ?t xs \<and> set xs = {..<NBUF}" by (auto simp: ring_def)
  next
    fix j k
    assume a: "j < NBUF" "k < NBUF" "b_dev (bufs ?t j) \<noteq> 0" "b_dev (bufs ?t k) = b_dev (bufs ?t j)" "b_blockno (bufs ?t k) = b_blockno (bufs ?t j)"
    show "j = k" by (rule binvD(2) [OF g(1) a(1,2)]) (use a(3-5) in simp_all)
  next
    fix j
    assume "j < NBUF" "sl_locked (b_lock (bufs ?t j))"
    then show "0 < b_refcnt (bufs ?t j)" using binvD(3) [OF g(1), of j] by simp
  next
    fix j
    assume "j < NBUF" "b_dirty (bufs ?t j)"
    then show "b_valid (bufs ?t j)" using binvD(4) [OF g(1), of j] by simp
  next
    fix j
    assume j: "j < NBUF" "b_valid (bufs ?t j) \<and> \<not> b_dirty (bufs ?t j) \<and> \<not> sl_locked (b_lock (bufs ?t j))"
    then have "j \<noteq> i" using g(8) [OF i] by auto
    then have "\<not> holds s (b_dev (bufs s j)) (b_blockno (bufs s j)) i"
      using hst_uniq [OF h g(3) [OF i] j(1), of "b_dev (bufs s i)" "b_blockno (bufs s i)"] g(5) [OF i] by auto
    from d [OF this] show "b_data (bufs ?t j) = disk ?t (b_dev (bufs ?t j)) (b_blockno (bufs ?t j))"
      using binvD(5) [OF g(1) j(1)] j(2) by simp
  qed
  then show ?thesis using h unfolding hst_def by simp
qed

lemma view_disk_irrelevant:
  assumes h: "hst me s H" and i: "i \<in> H" and h': "hst me (s\<lparr>disk := d, hist := hs\<rparr>) H"
    and d: "\<And>a b. \<not> holds s a b i \<Longrightarrow> d a b = disk s a b"
  shows "same_view s (s\<lparr>disk := d, hist := hs\<rparr>)"
  unfolding same_view_def
proof (intro allI impI)
  fix dv b :: nat
  assume dv: "dv \<noteq> 0"
  let ?t = "s\<lparr>disk := d, hist := hs\<rparr>"
  show "view ?t dv b = view s dv b"
  proof (cases "holds s dv b i")
    case True
    then show ?thesis using hst_view [OF h i] hst_view [OF h' i] by auto
  next
    case False
    then show ?thesis using d [OF False] by (simp add: view_def cached_def split: option.split)
  qed
qed

lemma bwrite_held:
  assumes h: "hst me s H" and i: "i \<in> H" and b: "holds s dv blk i"
  obtains t where "bwrite me i s = Inr t" and "hst me t H" and "same_view s t"
    and "disk t = disk_put dv blk (b_data (bufs s i)) (disk s)" and "hist t = hist s @ [disk t]"
    and "dirtyb t = dirtyb s - {(dv, blk)}"
    and "\<And>j. j \<noteq> i \<Longrightarrow> bufs t j = bufs s j" and "bufs t i = (bufs s i)\<lparr>b_dirty := False\<rparr>"
proof -
  note g = hstD [OF h]
  define d where "d = disk_put dv blk (b_data (bufs s i)) (disk s)"
  define u where "u = s\<lparr>disk := d, hist := hist s @ [d]\<rparr>"
  define t where "t = upd_b i (\<lambda>x. x\<lparr>b_dirty := False\<rparr>) u"
  have ex: "bwrite me i s = Inr t"
    using g(2) g(4-8) [OF i] b
    by (cases "bufs s i") (simp add: bwrite_def iderw_def holdingsleep_def Let_def t_def u_def d_def upd_b_def)
  have d: "d a c = disk s a c" if "\<not> holds s a c i" for a c using that b by (auto simp: d_def disk_put_def)
  have hu: "hst me u H" unfolding u_def by (rule hst_disk [OF h i d])
  have vu: "same_view s u" unfolding u_def by (rule view_disk_irrelevant [OF h i hst_disk [OF h i d] d])
  have ht: "hst me t H" unfolding t_def by (rule hst_upd_b [OF hu i]) (simp_all add: hstD(4) [OF hu i])
  have "same_view u t"
    using view_upd_b [OF hu i ht [unfolded t_def]] hst_view [OF hu i] by (auto simp: t_def same_view_def)
  with vu have "same_view s t" by (simp add: same_view_def)
  moreover have "dirtyb t = dirtyb s - {(dv, blk)}"
  proof -
    let ?b = "\<lambda>j. (b_dev (bufs s j), b_blockno (bufs s j))"
    have "dirtyb t = ?b ` ({j. j < NBUF \<and> b_dirty (bufs s j)} - {i})"
      unfolding dirtyb_def by (rule image_cong) (auto simp: t_def u_def)
    moreover have "?b ` ({j. j < NBUF \<and> b_dirty (bufs s j)} - {i}) = dirtyb s - {?b i}"
      unfolding dirtyb_def
    proof (rule image_remove)
      fix j
      assume "j \<in> {j. j < NBUF \<and> b_dirty (bufs s j)}" "?b j = ?b i"
      then show "j = i" using hst_uniq [OF h _ g(3) [OF i], of j "b_dev (bufs s i)" "b_blockno (bufs s i)"] g(5) [OF i] by blast
    qed
    ultimately show ?thesis using b by simp
  qed
  ultimately show thesis
    using ex ht by (intro that [of t]) (simp_all add: t_def u_def d_def)
qed

lemma brelse_held:
  assumes h: "hst me s H" and i: "i \<in> H" and b: "holds s dv blk i" and c: "b_dirty (bufs s i) \<or> b_data (bufs s i) = disk s dv blk"
  obtains t where "brelse me i s = Inr t" and "hst me t (H - {i})" and "same_view s t"
    and "disk t = disk s" and "hist t = hist s" and "dirtyb t = dirtyb s" and "\<And>j. j \<noteq> i \<Longrightarrow> bufs t j = bufs s j"
proof -
  note g = hstD [OF h]
  have iN: "i < NBUF" by (rule g(3) [OF i])
  let ?f = "\<lambda>b. b\<lparr>b_lock := \<lparr>sl_locked = False, sl_pid = 0\<rparr>, b_refcnt := 0\<rparr>"
  define u where "u = upd_b i ?f s"
  define t where "t = push_front i (unlink_buf i u)"
  have ex: "brelse me i s = Inr t"
    using g(7,8) [OF i]
    by (cases "bufs s i") (simp add: brelse_def holdingsleep_def Let_def releasesleep_def t_def u_def upd_b_def)
  have inv: "binv u"
    unfolding u_def
  proof (rule binv_upd_b [OF g(1) iN])
    fix j
    assume "j < NBUF" "j \<noteq> i" "b_dev (?f (bufs s i)) \<noteq> 0"
    then show "\<not> holds s (b_dev (?f (bufs s i))) (b_blockno (?f (bufs s i))) j"
      using hst_uniq [OF h _ iN, of j "b_dev (bufs s i)" "b_blockno (bufs s i)"] by auto
  qed (use c b g(4) [OF i] in auto)
  have bufs: "bufs t = bufs u" "disk t = disk u" "hist t = hist u" "havedisk1 t = havedisk1 u" by (simp_all add: t_def)
  have "\<exists>xs. ring t xs \<and> set xs = {..<NBUF}"
  proof -
    obtain xs where r: "ring u xs" "set xs = {..<NBUF}" using binvD(1) [OF inv] by blast
    then obtain as cs where xs: "xs = as @ i # cs" using iN by (metis lessThan_iff split_list)
    have "i \<notin> set (as @ cs)" using r(1) xs by (simp add: ring_def)
    then have "ring t (i # as @ cs)" unfolding t_def using push_front_ring unlink_buf_ring r(1) xs by blast
    moreover have "set (i # as @ cs) = {..<NBUF}" using r(2) xs by auto
    ultimately show ?thesis by blast
  qed
  then have "binv t" using inv unfolding binv_def bufs by (elim conjE) (intro conjI)
  moreover have "if j \<in> H - {i}
        then b_valid (bufs t j) \<and> b_dev (bufs t j) \<noteq> 0 \<and> b_blockno (bufs t j) < FSSIZE \<and> b_refcnt (bufs t j) = 1 \<and>
             b_lock (bufs t j) = \<lparr>sl_locked = True, sl_pid = me\<rparr>
        else b_refcnt (bufs t j) = 0" if "j < NBUF" for j
  proof (cases "j = i")
    case False
    then show ?thesis using g(4-9) [of j] that by (simp add: bufs u_def)
  qed (simp add: bufs u_def)
  moreover have "H - {i} \<subseteq> {..<NBUF}" "havedisk1 t" using g(2,3) by (auto simp: bufs u_def)
  ultimately have "hst me t (H - {i})" unfolding hst_def by blast
  moreover have "view t x y = view s x y" for x y
  proof -
    have "b_valid (bufs t j) = b_valid (bufs s j)" "b_dev (bufs t j) = b_dev (bufs s j)"
      "b_blockno (bufs t j) = b_blockno (bufs s j)" "b_data (bufs t j) = b_data (bufs s j)" for j
      by (simp_all add: bufs u_def)
    moreover have "disk t = disk s" by (simp add: bufs u_def)
    ultimately show ?thesis by (simp add: view_def cached_def split: option.split)
  qed
  moreover have "dirtyb t = dirtyb s" unfolding dirtyb_def by (rule image_cong) (auto simp: bufs u_def)
  ultimately show thesis using ex by (intro that [of t]) (simp_all add: same_view_def bufs u_def)
qed

text \<open>The cache after boot: \<open>binit\<close> on zeroed memory.\<close>

definition zero_buf :: buf where
  "zero_buf = \<lparr>b_valid = False, b_dirty = False, b_dev = 0, b_blockno = 0, b_lock = initsleeplock, b_refcnt = 0, b_data = []\<rparr>"

lemma binit_fold:
  assumes "\<forall>i. bufs s i = zero_buf" and "ring s xs" and "distinct ys" and "set xs \<inter> set ys = {}"
  shows "ring (fold (\<lambda>i t. push_front i (upd_b i (\<lambda>b. b\<lparr>b_lock := initsleeplock\<rparr>) t)) ys s) (rev ys @ xs) \<and>
    (let t = fold (\<lambda>i t. push_front i (upd_b i (\<lambda>b. b\<lparr>b_lock := initsleeplock\<rparr>) t)) ys s
     in (\<forall>i. bufs t i = zero_buf) \<and> disk t = disk s \<and> hist t = hist s \<and> havedisk1 t = havedisk1 s)"
  using assms
proof (induction ys arbitrary: s xs)
  case (Cons y ys)
  let ?t = "push_front y (upd_b y (\<lambda>b. b\<lparr>b_lock := initsleeplock\<rparr>) s)"
  have "ring ?t (y # xs)" using Cons.prems by (intro push_front_ring) simp_all
  moreover have "\<forall>i. bufs ?t i = zero_buf" using Cons.prems(1) by (simp add: zero_buf_def)
  ultimately show ?case using Cons.IH [of ?t "y # xs"] Cons.prems by (simp add: Let_def)
qed (simp add: Let_def)

lemma binit_ok:
  assumes "\<forall>i. bufs s i = zero_buf" and "havedisk1 s"
  shows "hst me (binit s) {}" and "ring (binit s) (rev [0..<NBUF])" and "disk (binit s) = disk s" and "hist (binit s) = hist s"
    and "dirtyb (binit s) = {}" and "\<And>i. bufs (binit s) i = zero_buf" and "havedisk1 (binit s)"
proof -
  let ?s = "s\<lparr>bprev := (bprev s)(BHead := BHead), bnext := (bnext s)(BHead := BHead)\<rparr>"
  have "ring ?s []" by (simp add: ring_def)
  from binit_fold [OF _ this, of "[0..<NBUF]"] assms(1)
  have r: "ring (binit s) (rev [0..<NBUF])" and b: "\<And>i. bufs (binit s) i = zero_buf" and d: "disk (binit s) = disk s"
    and hs: "hist (binit s) = hist s" and "havedisk1 (binit s) = havedisk1 s"
    by (simp_all add: binit_def Let_def)
  show "ring (binit s) (rev [0..<NBUF])" by (rule r)
  show "\<And>i. bufs (binit s) i = zero_buf" by (rule b)
  show "havedisk1 (binit s)" using \<open>havedisk1 (binit s) = havedisk1 s\<close> assms(2) by simp
  show "disk (binit s) = disk s" "hist (binit s) = hist s" by (rule d, rule hs)
  show "dirtyb (binit s) = {}" by (simp add: dirtyb_def b zero_buf_def)
  have "set (rev [0..<NBUF]) = {..<NBUF}" by auto
  with r have "binv (binit s)"
    unfolding binv_def by (intro conjI exI [of _ "rev [0..<NBUF]"]) (simp_all add: b zero_buf_def initsleeplock_def)
  then show "hst me (binit s) {}"
    using \<open>havedisk1 (binit s) = havedisk1 s\<close> assms(2) by (simp add: hst_def b zero_buf_def)
qed

end
