(* ===== verification/Bytes.thy ===== *)
theory Bytes
  imports Prelude
begin

text \<open>
  Integers in memory: the little-endian layout of \<^verbatim>\<open>ushort\<close>, \<^verbatim>\<open>int\<close> and \<^verbatim>\<open>uint\<close>
  fields in a block of bytes, as the casts of the file system and of the log read and write them
  (\<open>struct logheader\<close>, \<open>struct superblock\<close>, \<open>struct dinode\<close>, \<open>struct dirent\<close>, the entries of an indirect block).
\<close>

unbundle bit_operations_syntax

lemma sint_of_nat: "n < 2 ^ 31 \<Longrightarrow> sint (of_nat n :: u32) = int n"
  by (simp add: signed_of_nat signed_take_bit_int_eq_self)

lemma unat_of_nat32: "n < 2 ^ 32 \<Longrightarrow> unat (of_nat n :: u32) = n"
  by (simp add: unat_of_nat take_bit_nat_eq_self)

definition byte_of :: "nat \<Rightarrow> u32 \<Rightarrow> u8" where
  "byte_of k v = ucast (drop_bit (8 * k) v)"

definition get32 :: "u8 list \<Rightarrow> nat \<Rightarrow> u32" where
  "get32 d p = ucast (d ! p) OR push_bit 8 (ucast (d ! (p + 1))) OR push_bit 16 (ucast (d ! (p + 2))) OR
     push_bit 24 (ucast (d ! (p + 3)))"

definition put32 :: "nat \<Rightarrow> u32 \<Rightarrow> u8 list \<Rightarrow> u8 list" where
  "put32 p v d = d[p := byte_of 0 v, p + 1 := byte_of 1 v, p + 2 := byte_of 2 v, p + 3 := byte_of 3 v]"

definition get16 :: "u8 list \<Rightarrow> nat \<Rightarrow> 16 word" where
  "get16 d p = ucast (d ! p) OR push_bit 8 (ucast (d ! (p + 1)))"

definition put16 :: "nat \<Rightarrow> 16 word \<Rightarrow> u8 list \<Rightarrow> u8 list" where
  "put16 p v d = d[p := ucast v, p + 1 := ucast (drop_bit 8 v)]"

lemma length_put32 [simp]: "length (put32 p v d) = length d"
  by (simp add: put32_def)

lemma length_put16 [simp]: "length (put16 p v d) = length d"
  by (simp add: put16_def)

lemma join32: "(ucast (byte_of 0 v) :: u32) OR push_bit 8 (ucast (byte_of 1 v)) OR push_bit 16 (ucast (byte_of 2 v)) OR
     push_bit 24 (ucast (byte_of 3 v)) = v"
proof (rule bit_word_eqI)
  fix n
  assume n: "n < LENGTH(32)"
  then consider "n < 8" | "8 \<le> n" "n < 16" | "16 \<le> n" "n < 24" | "24 \<le> n" "n < 32" by fastforce
  then show "bit ((ucast (byte_of 0 v) :: u32) OR push_bit 8 (ucast (byte_of 1 v)) OR push_bit 16 (ucast (byte_of 2 v)) OR
     push_bit 24 (ucast (byte_of 3 v))) n = bit v n"
    by cases (auto simp: byte_of_def bit_simps)
qed

lemma get32_put32 [simp]: "p + 3 < length d \<Longrightarrow> get32 (put32 p v d) p = v"
  using join32 [of v] by (simp add: get32_def put32_def nth_list_update)

lemma get32_put32_other [simp]: "q + 4 \<le> p \<or> p + 4 \<le> q \<Longrightarrow> get32 (put32 p v d) q = get32 d q"
  by (auto simp: get32_def put32_def nth_list_update)

lemma nth_put32_other: "j < p \<or> p + 4 \<le> j \<Longrightarrow> put32 p v d ! j = d ! j"
  by (auto simp: put32_def nth_list_update)

lemma get16_put16 [simp]: "p + 1 < length d \<Longrightarrow> get16 (put16 p v d) p = v"
proof -
  assume l: "p + 1 < length d"
  have "(ucast (ucast v :: u8) :: 16 word) OR push_bit 8 (ucast (ucast (drop_bit 8 v) :: u8)) = v"
  proof (rule bit_word_eqI)
    fix n
    assume "n < LENGTH(16)"
    then consider "n < 8" | "8 \<le> n" "n < 16" by fastforce
    then show "bit ((ucast (ucast v :: u8) :: 16 word) OR push_bit 8 (ucast (ucast (drop_bit 8 v) :: u8))) n = bit v n"
      by cases (auto simp: bit_simps)
  qed
  with l show ?thesis by (simp add: get16_def put16_def nth_list_update)
qed

lemma get16_put16_other [simp]: "q + 2 \<le> p \<or> p + 2 \<le> q \<Longrightarrow> get16 (put16 p v d) q = get16 d q"
  by (auto simp: get16_def put16_def nth_list_update)

lemma get16_put32_other [simp]: "q + 2 \<le> p \<or> p + 4 \<le> q \<Longrightarrow> get16 (put32 p v d) q = get16 d q"
  by (auto simp: get16_def put32_def nth_list_update)

lemma get32_put16_other [simp]: "q + 4 \<le> p \<or> p + 2 \<le> q \<Longrightarrow> get32 (put16 p v d) q = get32 d q"
  by (auto simp: get32_def put16_def nth_list_update)

end
