(* ===== verification/Log.thy ===== *)
theory Log
  imports Bio Bytes
begin

text \<open>
  The redo log (\<^verbatim>\<open>log.c\<close>) over the buffer cache, with the super block it reads at boot.
  The header of the log on disk and the header in memory have the layout of \<open>struct logheader\<close>.

  \<open>recovered\<close> says what the file system on a disk is after a reboot. The theorems show that a crash
  at any write of a commit, or of a recovery, leaves either all updates of the transaction or none.
\<close>

section \<open>State\<close>

record superblock =
  sb_size :: u32
  sb_nblocks :: u32
  sb_ninodes :: u32
  sb_nlog :: u32
  sb_logstart :: u32
  sb_inodestart :: u32
  sb_bmapstart :: u32

record log =
  l_start :: u32
  l_size :: int
  outstanding :: int
  committing :: bool
  l_dev :: nat
  lh_n :: int
  lh_block :: "u32 list"

record lst =
  lb :: bst
  lg :: log

definition on_b :: "(bst \<Rightarrow> kerr + bst) \<Rightarrow> lst \<Rightarrow> kerr + lst" where
  "on_b f s = bindE (f (lb s)) (\<lambda>b. Inr (s\<lparr>lb := b\<rparr>))"

text \<open>Block \<open>k\<close> of the log area; block 0 is the header.\<close>

definition lblk :: "log \<Rightarrow> nat \<Rightarrow> nat" where
  "lblk l k = unat (l_start l + of_nat k)"

definition home :: "log \<Rightarrow> nat \<Rightarrow> nat" where
  "home l k = unat (lh_block l ! k)"

section \<open>Operations\<close>

definition decode_sb :: "block \<Rightarrow> superblock" where
  "decode_sb d = \<lparr>sb_size = get32 d 0, sb_nblocks = get32 d 4, sb_ninodes = get32 d 8, sb_nlog = get32 d 12,
     sb_logstart = get32 d 16, sb_inodestart = get32 d 20, sb_bmapstart = get32 d 24\<rparr>"

definition readsb :: "int \<Rightarrow> nat \<Rightarrow> bst \<Rightarrow> kerr + superblock \<times> bst" where
  "readsb me dv b =
    bindE (bread me dv 1 b) (\<lambda>(i, b1).
      let sb = decode_sb (b_data (bufs b1 i))
      in bindE (brelse me i b1) (\<lambda>b2. Inr (sb, b2)))"

definition install_one :: "int \<Rightarrow> log \<Rightarrow> nat \<Rightarrow> bst \<Rightarrow> kerr + bst" where
  "install_one me l tail b =
    bindE (bread me (l_dev l) (lblk l (tail + 1)) b) (\<lambda>(li, b1).
    if tail \<ge> LOGSIZE then Inl OutOfBounds else
    bindE (bread me (l_dev l) (home l tail) b1) (\<lambda>(di, b2).
    bindE (bwrite me di (set_data di (b_data (bufs b2 li)) b2)) (\<lambda>b3.
    bindE (brelse me li b3) (\<lambda>b4.
    brelse me di b4))))"

definition install_trans :: "int \<Rightarrow> lst \<Rightarrow> kerr + lst" where
  "install_trans me s = on_b (foldE (install_one me (lg s)) [0..<nat (lh_n (lg s))]) s"

definition read_head :: "int \<Rightarrow> lst \<Rightarrow> kerr + lst" where
  "read_head me s =
    bindE (bread me (l_dev (lg s)) (lblk (lg s) 0) (lb s)) (\<lambda>(i, b1).
      let d = b_data (bufs b1 i);
          n = sint (get32 d 0)
      in if n > int LOGSIZE then Inl OutOfBounds
         else bindE (brelse me i b1) (\<lambda>b2.
           Inr (s\<lparr>lb := b2, lg := (lg s)\<lparr>lh_n := n,
                  lh_block := map (\<lambda>k. get32 d (4 + 4 * k)) [0..<nat n] @ drop (nat n) (lh_block (lg s))\<rparr>\<rparr>)))"

text \<open>The header block that \<open>write_head\<close> makes of the old contents of the block.\<close>

definition head_data :: "int \<Rightarrow> u32 list \<Rightarrow> block \<Rightarrow> block" where
  "head_data n bl d = fold (\<lambda>k d. put32 (4 + 4 * k) (bl ! k) d) [0..<nat n] (put32 0 (word_of_int n) d)"

definition write_head :: "int \<Rightarrow> lst \<Rightarrow> kerr + lst" where
  "write_head me s = on_b (\<lambda>b.
    bindE (bread me (l_dev (lg s)) (lblk (lg s) 0) b) (\<lambda>(i, b1).
    if lh_n (lg s) > int LOGSIZE then Inl OutOfBounds else
    bindE (bwrite me i (set_data i (head_data (lh_n (lg s)) (lh_block (lg s)) (b_data (bufs b1 i))) b1)) (\<lambda>b2.
    brelse me i b2))) s"

definition clear_n :: "lst \<Rightarrow> lst" where
  "clear_n s = s\<lparr>lg := (lg s)\<lparr>lh_n := 0\<rparr>\<rparr>"

definition recover_from_log :: "int \<Rightarrow> lst \<Rightarrow> kerr + lst" where
  "recover_from_log me s =
    bindE (read_head me s) (\<lambda>s1.
    bindE (install_trans me s1) (\<lambda>s2.
    write_head me (clear_n s2)))"

definition LOGHEADER_SIZE :: nat where "LOGHEADER_SIZE = 4 + 4 * LOGSIZE"

definition initlog :: "int \<Rightarrow> nat \<Rightarrow> lst \<Rightarrow> kerr + lst" where
  "initlog me dv s =
    (if LOGHEADER_SIZE \<ge> BSIZE then Inl (Panic ''initlog: too big logheader'')
     else bindE (readsb me dv (lb s)) (\<lambda>(sb, b).
       recover_from_log me (s\<lparr>lb := b, lg := (lg s)\<lparr>l_start := sb_logstart sb, l_size := sint (sb_nlog sb), l_dev := dv\<rparr>\<rparr>)))"

text \<open>\<open>begin_op\<close> sleeps while a commit is under way or the log might run out.\<close>

definition begin_op :: "lst \<Rightarrow> kerr + lst" where
  "begin_op s =
    (if committing (lg s) then Inl Spinning
     else if lh_n (lg s) + (outstanding (lg s) + 1) * int MAXOPBLOCKS > int LOGSIZE then Inl Spinning
     else Inr (s\<lparr>lg := (lg s)\<lparr>outstanding := outstanding (lg s) + 1\<rparr>\<rparr>))"

definition write_one :: "int \<Rightarrow> log \<Rightarrow> nat \<Rightarrow> bst \<Rightarrow> kerr + bst" where
  "write_one me l tail b =
    bindE (bread me (l_dev l) (lblk l (tail + 1)) b) (\<lambda>(ti, b1).
    if tail \<ge> LOGSIZE then Inl OutOfBounds else
    bindE (bread me (l_dev l) (home l tail) b1) (\<lambda>(fi, b2).
    bindE (bwrite me ti (set_data ti (b_data (bufs b2 fi)) b2)) (\<lambda>b3.
    bindE (brelse me fi b3) (\<lambda>b4.
    brelse me ti b4))))"

definition write_log :: "int \<Rightarrow> lst \<Rightarrow> kerr + lst" where
  "write_log me s = on_b (foldE (write_one me (lg s)) [0..<nat (lh_n (lg s))]) s"

definition commit :: "int \<Rightarrow> lst \<Rightarrow> kerr + lst" where
  "commit me s =
    (if lh_n (lg s) > 0 then
       bindE (write_log me s) (\<lambda>s1.
       bindE (write_head me s1) (\<lambda>s2.
       bindE (install_trans me s2) (\<lambda>s3.
       write_head me (clear_n s3))))
     else Inr s)"

definition end_op :: "int \<Rightarrow> lst \<Rightarrow> kerr + lst" where
  "end_op me s =
    (let s1 = s\<lparr>lg := (lg s)\<lparr>outstanding := outstanding (lg s) - 1\<rparr>\<rparr>
     in if committing (lg s1) then Inl (Panic ''log.committing'')
        else if outstanding (lg s1) = 0 then
          bindE (commit me (s1\<lparr>lg := (lg s1)\<lparr>committing := True\<rparr>\<rparr>)) (\<lambda>s2.
            Inr (s2\<lparr>lg := (lg s2)\<lparr>committing := False\<rparr>\<rparr>))
        else Inr s1)"

definition log_write :: "nat \<Rightarrow> lst \<Rightarrow> kerr + lst" where
  "log_write i s =
    (let l = lg s; bno = b_blockno (bufs (lb s) i) in
     if lh_n l \<ge> int LOGSIZE \<or> lh_n l \<ge> l_size l - 1 then Inl (Panic ''too big a transaction'')
     else if outstanding l < 1 then Inl (Panic ''log_write outside of trans'')
     else
       let k = length (takeWhile (\<lambda>w. unat w \<noteq> bno) (take (nat (lh_n l)) (lh_block l)));
           l1 = l\<lparr>lh_block := (lh_block l)[k := of_nat bno]\<rparr>;
           l2 = (if int k = lh_n l then l1\<lparr>lh_n := lh_n l + 1\<rparr> else l1)
       in Inr (s\<lparr>lg := l2, lb := upd_b i (\<lambda>b. b\<lparr>b_dirty := True\<rparr>) (lb s)\<rparr>))"

section \<open>Two buffers at a time\<close>

lemma two_breads:
  assumes h: "hst me s {}" and dv: "dv \<noteq> 0" and x: "x < FSSIZE" and y: "y < FSSIZE" and xy: "x \<noteq> y"
    and dev: "\<forall>(a, b) \<in> dirtyb s. a \<noteq> 0" and room: "Suc (card (dirtyb s)) < NBUF \<or> card (dirtyb s) < NBUF \<and> (dv, y) \<in> dirtyb s"
  obtains i j u t where "bread me dv x s = Inr (i, u)" and "bread me dv y u = Inr (j, t)" and "i \<noteq> j" and "hst me t {i, j}"
    and "holds t dv x i" and "holds t dv y j" and "b_data (bufs t i) = view s dv x" and "b_data (bufs t j) = view s dv y"
    and "b_dirty (bufs t i) \<or> b_data (bufs t i) = disk t dv x" and "b_dirty (bufs t j) \<or> b_data (bufs t j) = disk t dv y"
    and "disk t = disk s" and "hist t = hist s" and "dirtyb t = dirtyb s" and "same_view s t"
proof -
  have "\<exists>i < NBUF. i \<notin> {} \<and> b_refcnt (bufs s i) = 0 \<and> \<not> b_dirty (bufs s i)"
    using free_exists [OF h dev] room by auto
  then obtain i u where 1: "bread me dv x s = Inr (i, u)" "hst me u (insert i {})" "holds u dv x i" "b_data (bufs u i) = view s dv x"
    "b_dirty (bufs u i) \<or> b_data (bufs u i) = disk u dv x" "disk u = disk s" "hist u = hist s" "dirtyb u = dirtyb s" "same_view s u"
    using bread_held [OF h dv x, of thesis] by blast
  have "(dv, y) \<in> dirtyb u \<or> (\<exists>i' < NBUF. i' \<notin> {i} \<and> b_refcnt (bufs u i') = 0 \<and> \<not> b_dirty (bufs u i'))"
    using free_exists [OF 1(2)] dev room by (auto simp: 1(8))
  moreover have "\<forall>k \<in> {i}. \<not> holds u dv y k" using 1(3) xy by auto
  ultimately obtain j t where 2: "bread me dv y u = Inr (j, t)" "j \<notin> {i}" "hst me t (insert j {i})" "holds t dv y j"
    "b_data (bufs t j) = view u dv y" "b_dirty (bufs t j) \<or> b_data (bufs t j) = disk t dv y" "\<forall>k. k \<noteq> j \<longrightarrow> bufs t k = bufs u k"
    "disk t = disk u" "hist t = hist u" "dirtyb t = dirtyb u" "same_view u t"
    using bread_held [OF 1(2) dv y, of thesis] by blast
  have e: "bufs t i = bufs u i" using 2(2,7) by auto
  have v: "view u dv y = view s dv y" using 1(9) dv by (simp add: same_view_def)
  have "same_view s t" using 1(9) 2(11) by (simp add: same_view_def)
  moreover have "insert j {i} = {i, j}" by auto
  ultimately show thesis
    using that [of i u j t] 1 2 e v by auto
qed

lemma write_release:
  assumes h: "hst me t {w, r}" and wr: "w \<noteq> r" and hw: "holds t dv x w" and hr: "holds t dv y r" and xy: "x \<noteq> y" and dv: "dv \<noteq> 0"
    and c: "b_dirty (bufs t r) \<or> b_data (bufs t r) = disk t dv y"
  obtains u1 u2 u where "bwrite me w (set_data w v t) = Inr u1" and "brelse me r u1 = Inr u2" and "brelse me w u2 = Inr u"
    and "hst me u {}" and "disk u = disk_put dv x v (disk t)" and "hist u = hist t @ [disk u]" and "dirtyb u = dirtyb t - {(dv, x)}"
    and "\<forall>d b. d \<noteq> 0 \<longrightarrow> view u d b = (if d = dv \<and> b = x then v else view t d b)"
proof -
  let ?t = "set_data w v t"
  have w: "w \<in> {w, r}" by simp
  note sd = set_data_held [OF h w, where v = v]
  have "holds ?t dv x w" using hw by simp
  then obtain u1 where 1: "bwrite me w ?t = Inr u1" "hst me u1 {w, r}" "same_view ?t u1" "disk u1 = disk_put dv x v (disk t)"
    "hist u1 = hist t @ [disk u1]" "dirtyb u1 = dirtyb t - {(dv, x)}" "\<And>j. j \<noteq> w \<Longrightarrow> bufs u1 j = bufs ?t j"
    "bufs u1 w = (bufs ?t w)\<lparr>b_dirty := False\<rparr>"
    using bwrite_held [OF sd(1) w, of dv x thesis] sd(2) by auto
  have ur: "bufs u1 r = bufs t r" using 1(7) [of r] wr by simp
  have "b_dirty (bufs u1 r) \<or> b_data (bufs u1 r) = disk u1 dv y" using c xy by (simp add: ur 1(4) disk_put_def)
  then obtain u2 where 2: "brelse me r u1 = Inr u2" "hst me u2 ({w, r} - {r})" "same_view u1 u2" "disk u2 = disk u1" "hist u2 = hist u1"
    "dirtyb u2 = dirtyb u1" "\<And>j. j \<noteq> r \<Longrightarrow> bufs u2 j = bufs u1 j"
    using brelse_held [OF 1(2), of r dv y thesis] hr ur by auto
  have uw: "bufs u2 w = (bufs ?t w)\<lparr>b_dirty := False\<rparr>" using 2(7) [of w] wr 1(8) by simp
  have "holds u2 dv x w" "b_data (bufs u2 w) = disk u2 dv x" using hw by (simp_all add: uw 2(4) 1(4) disk_put_def)
  moreover have "w \<in> {w, r} - {r}" using wr by simp
  ultimately obtain u where 3: "brelse me w u2 = Inr u" "hst me u ({w, r} - {r} - {w})" "same_view u2 u" "disk u = disk u2" "hist u = hist u2"
    "dirtyb u = dirtyb u2"
    using brelse_held [OF 2(2), of w dv x thesis] by blast
  have "view u d b = (if d = dv \<and> b = x then v else view t d b)" if "d \<noteq> 0" for d b
    using 1(3) 2(3) 3(3) sd(3) [OF that, where blk = b] hw that by (auto simp: same_view_def)
  moreover have "{w, r} - {r} - {w} = {}" by auto
  then have "hst me u {}" using 3(2) by (rule subst)
  ultimately show thesis using that [of u1 u2 u] 1 2 3 by auto
qed

section \<open>One block of the log\<close>

text \<open>A well-formed log: a real device, fewer logged blocks than the log has blocks, and no logged block
  inside the log itself.\<close>

definition log_area :: "log \<Rightarrow> nat set" where
  "log_area l = {unat (l_start l)..<unat (l_start l) + nat (l_size l)}"

definition lwf :: "log \<Rightarrow> bool" where
  "lwf l \<longleftrightarrow> l_dev l \<noteq> 0 \<and> 0 \<le> lh_n l \<and> lh_n l < l_size l \<and> l_size l \<le> int LOGSIZE \<and> length (lh_block l) = LOGSIZE \<and>
     unat (l_start l) + nat (l_size l) \<le> FSSIZE \<and> (\<forall>k < nat (lh_n l). home l k < FSSIZE \<and> home l k \<notin> log_area l)"

lemma lwfD:
  assumes "lwf l"
  shows "l_dev l \<noteq> 0" and "0 \<le> lh_n l" and "lh_n l < l_size l" and "l_size l \<le> int LOGSIZE" and "length (lh_block l) = LOGSIZE"
    and "k < nat (lh_n l) \<Longrightarrow> home l k < FSSIZE" and "k < nat (lh_n l) \<Longrightarrow> home l k \<notin> log_area l"
    and "k \<le> nat (lh_n l) \<Longrightarrow> lblk l k = unat (l_start l) + k" and "k \<le> nat (lh_n l) \<Longrightarrow> lblk l k \<in> log_area l"
    and "k \<le> nat (lh_n l) \<Longrightarrow> lblk l k < FSSIZE" and "nat (lh_n l) < LOGSIZE"
proof -
  show 1: "l_dev l \<noteq> 0" "0 \<le> lh_n l" "lh_n l < l_size l" "l_size l \<le> int LOGSIZE" "length (lh_block l) = LOGSIZE"
    "k < nat (lh_n l) \<Longrightarrow> home l k < FSSIZE" "k < nat (lh_n l) \<Longrightarrow> home l k \<notin> log_area l"
    using assms by (auto simp: lwf_def)
  have f: "unat (l_start l) + nat (l_size l) \<le> FSSIZE" using assms by (simp add: lwf_def)
  show lb: "lblk l k = unat (l_start l) + k" if "k \<le> nat (lh_n l)" for k
  proof -
    have "unat (l_start l) + k < 1000" using f that 1(2,3) unfolding FSSIZE_def by linarith
    then show ?thesis by (simp add: lblk_def unat_word_ariths unat_of_nat take_bit_eq_mod)
  qed
  show "lblk l k \<in> log_area l" "lblk l k < FSSIZE" if "k \<le> nat (lh_n l)"
    using lb [OF that] that 1(2,3) f by (auto simp: log_area_def)
  show "nat (lh_n l) < LOGSIZE" using 1(2-4) by linarith
qed

text \<open>Copying block \<open>x\<close> over block \<open>y\<close> on disk.\<close>

definition copied :: "int \<Rightarrow> nat \<Rightarrow> nat \<Rightarrow> nat \<Rightarrow> bst \<Rightarrow> bst \<Rightarrow> bool" where
  "copied me dv x y b t \<longleftrightarrow> hst me t {} \<and> disk t = disk_put dv y (view b dv x) (disk b) \<and> hist t = hist b @ [disk t] \<and>
     dirtyb t = dirtyb b - {(dv, y)} \<and> (\<forall>d c. d \<noteq> 0 \<longrightarrow> view t d c = (if d = dv \<and> c = y then view b dv x else view b d c))"

definition roomy :: "nat \<Rightarrow> nat \<Rightarrow> bst \<Rightarrow> bool" where
  "roomy dv y b \<longleftrightarrow> (\<forall>(a, b) \<in> dirtyb b. a \<noteq> 0) \<and> (Suc (card (dirtyb b)) < NBUF \<or> card (dirtyb b) < NBUF \<and> (dv, y) \<in> dirtyb b)"

lemma install_one_ok:
  assumes l: "lwf l" and k: "k < nat (lh_n l)" and h: "hst me b {}" and r: "roomy (l_dev l) (home l k) b"
  shows "succeeds (install_one me l k b) (copied me (l_dev l) (lblk l (Suc k)) (home l k) b)"
proof -
  note g = lwfD [OF l]
  have ne: "lblk l (Suc k) \<noteq> home l k" using g(7) [OF k] g(9) [of "Suc k"] k by auto
  obtain i j u t where 1: "bread me (l_dev l) (lblk l (Suc k)) b = Inr (i, u)" "bread me (l_dev l) (home l k) u = Inr (j, t)" "i \<noteq> j"
    "hst me t {i, j}" "holds t (l_dev l) (lblk l (Suc k)) i" "holds t (l_dev l) (home l k) j" "b_data (bufs t i) = view b (l_dev l) (lblk l (Suc k))"
    "b_dirty (bufs t i) \<or> b_data (bufs t i) = disk t (l_dev l) (lblk l (Suc k))" "disk t = disk b" "hist t = hist b" "dirtyb t = dirtyb b" "same_view b t"
    by (rule two_breads [OF h g(1) g(10) [of "Suc k"] g(6) [OF k] ne]) (use r k in \<open>auto simp: roomy_def\<close>)
  have "hst me t {j, i}" using 1(4) by (simp add: insert_commute)
  then obtain u1 u2 v where 2: "bwrite me j (set_data j (b_data (bufs t i)) t) = Inr u1" "brelse me i u1 = Inr u2" "brelse me j u2 = Inr v"
    "hst me v {}" "disk v = disk_put (l_dev l) (home l k) (b_data (bufs t i)) (disk t)" "hist v = hist t @ [disk v]"
    "dirtyb v = dirtyb t - {(l_dev l, home l k)}"
    "\<forall>d b. d \<noteq> 0 \<longrightarrow> view v d b = (if d = l_dev l \<and> b = home l k then b_data (bufs t i) else view t d b)"
    by (rule write_release [OF _ 1(3) [symmetric] 1(6,5) ne [symmetric] g(1) 1(8), where v = "b_data (bufs t i)"])
  have "install_one me l k b = Inr v"
    using 1(1,2) 2(1-3) k g(11) by (simp add: install_one_def)
  moreover have "copied me (l_dev l) (lblk l (Suc k)) (home l k) b v"
    using 2(4-8) 1(7-12) by (simp add: copied_def same_view_def)
  ultimately show ?thesis by simp
qed

lemma write_one_ok:
  assumes l: "lwf l" and k: "k < nat (lh_n l)" and h: "hst me b {}" and r: "roomy (l_dev l) (home l k) b"
  shows "succeeds (write_one me l k b) (copied me (l_dev l) (home l k) (lblk l (Suc k)) b)"
proof -
  note g = lwfD [OF l]
  have ne: "lblk l (Suc k) \<noteq> home l k" using g(7) [OF k] g(9) [of "Suc k"] k by auto
  obtain i j u t where 1: "bread me (l_dev l) (lblk l (Suc k)) b = Inr (i, u)" "bread me (l_dev l) (home l k) u = Inr (j, t)" "i \<noteq> j"
    "hst me t {i, j}" "holds t (l_dev l) (lblk l (Suc k)) i" "holds t (l_dev l) (home l k) j" "b_data (bufs t j) = view b (l_dev l) (home l k)"
    "b_dirty (bufs t j) \<or> b_data (bufs t j) = disk t (l_dev l) (home l k)" "disk t = disk b" "hist t = hist b" "dirtyb t = dirtyb b" "same_view b t"
    by (rule two_breads [OF h g(1) g(10) [of "Suc k"] g(6) [OF k] ne]) (use r k in \<open>auto simp: roomy_def\<close>)
  obtain u1 u2 v where 2: "bwrite me i (set_data i (b_data (bufs t j)) t) = Inr u1" "brelse me j u1 = Inr u2" "brelse me i u2 = Inr v"
    "hst me v {}" "disk v = disk_put (l_dev l) (lblk l (Suc k)) (b_data (bufs t j)) (disk t)" "hist v = hist t @ [disk v]"
    "dirtyb v = dirtyb t - {(l_dev l, lblk l (Suc k))}"
    "\<forall>d b. d \<noteq> 0 \<longrightarrow> view v d b = (if d = l_dev l \<and> b = lblk l (Suc k) then b_data (bufs t j) else view t d b)"
    by (rule write_release [OF 1(4,3,5,6) ne g(1) 1(8), where v = "b_data (bufs t j)"])
  have "write_one me l k b = Inr v"
    using 1(1,2) 2(1-3) k g(11) by (simp add: write_one_def)
  moreover have "copied me (l_dev l) (home l k) (lblk l (Suc k)) b v"
    using 2(4-8) 1(7-12) by (simp add: copied_def same_view_def)
  ultimately show ?thesis by simp
qed

section \<open>The header on disk and recovery\<close>

definition hdr_n :: "block \<Rightarrow> nat" where
  "hdr_n h = nat (sint (get32 h 0))"

definition hdr_blk :: "block \<Rightarrow> nat \<Rightarrow> nat" where
  "hdr_blk h k = unat (get32 h (4 + 4 * k))"

text \<open>The contents of a device after recovery: the logged blocks are copied home.\<close>

definition recovered :: "nat \<Rightarrow> (nat \<Rightarrow> block) \<Rightarrow> nat \<Rightarrow> block" where
  "recovered st d = fold (\<lambda>k r. r(hdr_blk (d st) k := d (st + 1 + k))) [0..<hdr_n (d st)] d"

lemma fold_upd_miss: "(\<And>k. k < n \<Longrightarrow> h k \<noteq> c) \<Longrightarrow> fold (\<lambda>k r. r(h k := g k)) [0..<n] d c = d c"
  by (induction n) auto

lemma fold_upd_hit: "k < n \<Longrightarrow> inj_on h {..<n} \<Longrightarrow> fold (\<lambda>k r. r(h k := g k)) [0..<n] d (h k) = g k"
proof (induction n)
  case (Suc n)
  show ?case
  proof (cases "k = n")
    case False
    then have "k < n" "h k \<noteq> h n" using Suc.prems by (auto simp: inj_on_def)
    then show ?thesis using Suc.IH Suc.prems by (simp add: lessThan_Suc)
  qed simp
qed simp

lemma length_head_data [simp]: "length (head_data n bl d) = length d"
proof -
  have "length (fold (\<lambda>k d. put32 (4 + 4 * k) (bl ! k) d) ks d) = length d" for ks d
    by (induction ks arbitrary: d) simp_all
  then show ?thesis by (simp add: head_data_def)
qed

lemma head_data_get:
  assumes "length d = BSIZE" and "n \<le> LOGSIZE"
  shows "get32 (head_data (int n) bl d) 0 = word_of_int (int n)"
    and "k < n \<Longrightarrow> get32 (head_data (int n) bl d) (4 + 4 * k) = bl ! k"
proof -
  let ?f = "\<lambda>n. fold (\<lambda>k d. put32 (4 + 4 * k) (bl ! k) d) [0..<n]"
  have len: "length (?f n e) = length e" for n e
    by (induction n) simp_all
  have "get32 (?f n e) 0 = get32 e 0" for n e
    by (induction n) simp_all
  then show "get32 (head_data (int n) bl d) 0 = word_of_int (int n)"
    using assms(1) by (simp add: head_data_def BSIZE_def)
  have "get32 (?f n e) (4 + 4 * k) = bl ! k" if "length e = BSIZE" "n \<le> LOGSIZE" "k < n" for e
    using that(2,3)
  proof (induction n)
    case (Suc n)
    show ?case
    proof (cases "k = n")
      case True
      have "4 + 4 * n + 3 < length (?f n e)"
        using Suc.prems that(1) unfolding len by (simp add: BSIZE_def LOGSIZE_def MAXOPBLOCKS_def)
      then show ?thesis using True by simp
    next
      case False
      then show ?thesis using Suc by simp
    qed
  qed simp
  then show "get32 (head_data (int n) bl d) (4 + 4 * k) = bl ! k" if "k < n"
    using assms that by (simp add: head_data_def)
qed

lemma hdr_head_data:
  assumes "length d = BSIZE" and "0 \<le> n" and "n \<le> int LOGSIZE"
  shows "hdr_n (head_data n bl d) = nat n" and "k < nat n \<Longrightarrow> hdr_blk (head_data n bl d) k = unat (bl ! k)"
proof -
  obtain m where m: "n = int m" "m \<le> LOGSIZE" using assms(2,3) by (metis nat_int nat_le_iff nonneg_int_cases)
  have "sint (word_of_int (int m) :: u32) = int m"
    using m(2) by (simp add: LOGSIZE_def MAXOPBLOCKS_def sint_of_nat)
  then show "hdr_n (head_data n bl d) = nat n"
    using head_data_get(1) [OF assms(1) m(2)] m(1) by (simp add: hdr_n_def)
  show "hdr_blk (head_data n bl d) k = unat (bl ! k)" if "k < nat n"
    using head_data_get(2) [OF assms(1) m(2)] m(1) that by (simp add: hdr_blk_def)
qed

lemma view_clean:
  assumes h: "hst me b {}" and d: "(dv, c) \<notin> dirtyb b"
  shows "dv \<noteq> 0 \<Longrightarrow> view b dv c = disk b dv c"
proof (cases "\<exists>i < NBUF. b_valid (bufs b i) \<and> holds b dv c i")
  case True
  then obtain i where i: "i < NBUF" "b_valid (bufs b i)" "holds b dv c i" by blast
  have nd: "\<not> b_dirty (bufs b i)" using d i by (auto simp: dirtyb_def)
  have ul: "\<not> sl_locked (b_lock (bufs b i))" by (rule hst_unlocked [OF h i(1)]) simp
  assume "dv \<noteq> 0"
  then show ?thesis
    using binvD(5) [OF hstD(1) [OF h] i(1,2) nd ul] view_buf [OF hstD(1) [OF h] i(1,2)] i(3) by auto
next
  case False
  then show ?thesis by (intro view_disk) blast
qed

section \<open>The loops of the log\<close>

abbreviation lstart :: "log \<Rightarrow> nat" where
  "lstart l \<equiv> unat (l_start l)"

definition homes :: "log \<Rightarrow> nat set" where
  "homes l = home l ` {..<nat (lh_n l)}"

text \<open>\<open>logged l V d\<close>: the log on the device \<open>d\<close> holds the transaction \<open>l\<close> with contents \<open>V\<close>.\<close>

definition logged :: "log \<Rightarrow> (nat \<Rightarrow> block) \<Rightarrow> (nat \<Rightarrow> block) \<Rightarrow> bool" where
  "logged l V d \<longleftrightarrow> sint (get32 (d (lstart l)) 0) = lh_n l \<and> length (d (lstart l)) = BSIZE \<and>
     (\<forall>k < nat (lh_n l). hdr_blk (d (lstart l)) k = home l k \<and> d (lstart l + 1 + k) = V (home l k))"

definition rest_is :: "log \<Rightarrow> (nat \<Rightarrow> block) \<Rightarrow> (nat \<Rightarrow> block) \<Rightarrow> bool" where
  "rest_is l V d \<longleftrightarrow> (\<forall>c. c \<notin> log_area l \<longrightarrow> c \<notin> homes l \<longrightarrow> d c = V c)"

lemma recovered_empty: "hdr_n (d st) = 0 \<Longrightarrow> recovered st d = d"
  by (simp add: recovered_def)

lemma recovered_logged:
  assumes l: "lwf l" and inj: "inj_on (home l) {..<nat (lh_n l)}" and lg: "logged l V d" and r: "rest_is l V d" and c: "c \<notin> log_area l"
  shows "recovered (lstart l) d c = V c"
proof -
  let ?n = "nat (lh_n l)"
  have e: "recovered (lstart l) d = fold (\<lambda>k r. r(home l k := V (home l k))) [0..<?n] d"
    using lg unfolding recovered_def logged_def hdr_n_def by (intro fold_cong) (auto simp: fun_eq_iff)
  show ?thesis
  proof (cases "c \<in> homes l")
    case True
    then obtain k where k: "k < ?n" "c = home l k" by (auto simp: homes_def)
    then show ?thesis unfolding e using fold_upd_hit [OF k(1) inj, of "\<lambda>k. V (home l k)" d] by simp
  next
    case False
    then have "fold (\<lambda>k r. r(home l k := V (home l k))) [0..<?n] d c = d c"
      by (intro fold_upd_miss) (auto simp: homes_def)
    then show ?thesis unfolding e using r False c by (simp add: rest_is_def)
  qed
qed

lemma logged_put_home:
  assumes l: "lwf l" and k: "k < nat (lh_n l)"
  shows "logged l V (d(home l k := v)) = logged l V d" and "rest_is l V (d(home l k := v)) = rest_is l V d"
proof -
  have ne: "home l k \<noteq> lstart l + j" if "j \<le> nat (lh_n l)" for j
    using lwfD(7) [OF l k] lwfD(8) [OF l that] lwfD(9) [OF l that] by auto
  define e where "e = d(home l k := v)"
  have "e (lstart l) = d (lstart l)" using ne [of 0] by (simp add: e_def)
  moreover have "e (lstart l + 1 + j) = d (lstart l + 1 + j)" if "j < nat (lh_n l)" for j
    using ne [of "Suc j"] that by (simp add: e_def)
  ultimately have "logged l V e = logged l V d" by (auto simp: logged_def)
  then show "logged l V (d(home l k := v)) = logged l V d" by (simp add: e_def)
  show "rest_is l V (d(home l k := v)) = rest_is l V d"
    using k by (auto simp: rest_is_def homes_def)
qed

lemma disk_put_dev [simp]: "disk_put dv y v d dv = (d dv)(y := v)"
  by (simp add: disk_put_def)

lemma install_trans_ok:
  assumes l: "lwf l" and inj: "inj_on (home l) {..<nat (lh_n l)}" and h: "hst me b {}"
    and dirty: "dirtyb b = Pair (l_dev l) ` homes l \<or> dirtyb b = {}"
    and lg: "logged l V (disk b (l_dev l))" and r: "rest_is l V (disk b (l_dev l))"
  shows "succeeds (foldE (install_one me l) [0..<nat (lh_n l)] b) (\<lambda>t. hst me t {} \<and> dirtyb t = {} \<and>
     logged l V (disk t (l_dev l)) \<and> (\<forall>c. c \<notin> log_area l \<longrightarrow> disk t (l_dev l) c = V c) \<and>
     (\<exists>hs. hist t = hist b @ hs \<and> (\<forall>d \<in> set hs. logged l V (d (l_dev l)) \<and> rest_is l V (d (l_dev l)))))"
proof -
  let ?n = "nat (lh_n l)" and ?dv = "l_dev l"
  note g = lwfD [OF l]
  define I where "I k t \<longleftrightarrow> hst me t {} \<and> dirtyb t = dirtyb b - Pair ?dv ` home l ` {..<k} \<and> logged l V (disk t ?dv) \<and>
      rest_is l V (disk t ?dv) \<and> (\<forall>j < k. disk t ?dv (home l j) = V (home l j)) \<and>
      (\<exists>hs. hist t = hist b @ hs \<and> (\<forall>d \<in> set hs. logged l V (d ?dv) \<and> rest_is l V (d ?dv)))" for k t
  have "succeeds (foldE (install_one me l) [0..<?n] b) (I ?n)"
  proof (rule foldE_upt)
    show "I 0 b" using h lg r by (simp add: I_def)
  next
    fix k t
    assume k: "k < ?n" and I: "I k t"
    then have t: "hst me t {}" "dirtyb t = dirtyb b - Pair ?dv ` home l ` {..<k}" "logged l V (disk t ?dv)"
      "rest_is l V (disk t ?dv)" "\<forall>j < k. disk t ?dv (home l j) = V (home l j)" by (simp_all add: I_def)
    obtain hs where hs: "hist t = hist b @ hs" "\<forall>d \<in> set hs. logged l V (d ?dv) \<and> rest_is l V (d ?dv)"
      using I by (auto simp: I_def)
    have sub: "dirtyb t \<subseteq> Pair ?dv ` homes l" using t(2) dirty by auto
    have "card (dirtyb t) \<le> card (Pair ?dv ` homes l)" by (rule card_mono [OF _ sub]) (simp add: homes_def)
    also have "\<dots> \<le> ?n" using card_image_le [of "home l ` {..<?n}" "Pair ?dv"] card_image_le [of "{..<?n}" "home l"] by (simp add: homes_def)
    finally have card: "card (dirtyb t) < NBUF" using g(11) by (simp add: NBUF_def LOGSIZE_def)
    have "roomy ?dv (home l k) t"
    proof (cases "dirtyb b = {}")
      case True
      then show ?thesis using t(2) by (simp add: roomy_def NBUF_def MAXOPBLOCKS_def)
    next
      case False
      have "home l k \<noteq> home l j" if "j < k" for j
        using inj_onD [OF inj, of k j] k that by auto
      then have "(?dv, home l k) \<in> dirtyb t"
        using False dirty t(2) k by (auto simp: homes_def)
      moreover have "\<forall>(a, b) \<in> dirtyb t. a \<noteq> 0" using sub g(1) by auto
      ultimately show ?thesis using card by (simp add: roomy_def)
    qed
    from install_one_ok [OF l k t(1) this] obtain u where u: "install_one me l k t = Inr u"
      "copied me ?dv (lblk l (Suc k)) (home l k) t u" by blast
    have area: "lblk l (Suc k) \<in> log_area l" "lblk l (Suc k) = lstart l + 1 + k" using g(8,9) [of "Suc k"] k by auto
    then have "(?dv, lblk l (Suc k)) \<notin> dirtyb t" using sub g(7) by (auto simp: homes_def)
    then have v: "view t ?dv (lblk l (Suc k)) = V (home l k)"
      using view_clean [OF t(1) _ g(1)] t(3) k by (simp add: logged_def area(2))
    have d: "disk u ?dv = (disk t ?dv)(home l k := V (home l k))" using u(2) by (simp add: copied_def v)
    have "I (Suc k) u"
      unfolding I_def
    proof (intro conjI)
      show "hst me u {}" using u(2) by (simp add: copied_def)
      show "dirtyb u = dirtyb b - Pair ?dv ` home l ` {..<Suc k}" using u(2) t(2) by (auto simp: copied_def lessThan_Suc)
      show lr: "logged l V (disk u ?dv)" "rest_is l V (disk u ?dv)" unfolding d using t(3,4) logged_put_home [OF l k] by blast+
      show "\<forall>j < Suc k. disk u ?dv (home l j) = V (home l j)" unfolding d using t(5) by (auto simp: less_Suc_eq)
      have "hist u = hist b @ (hs @ [disk u])" using u(2) hs(1) by (simp add: copied_def)
      then show "\<exists>hs. hist u = hist b @ hs \<and> (\<forall>d \<in> set hs. logged l V (d ?dv) \<and> rest_is l V (d ?dv))"
        using hs(2) lr by (intro exI [of _ "hs @ [disk u]"]) auto
    qed
    then show "succeeds (install_one me l k t) (I (Suc k))" using u(1) by simp
  qed
  then show ?thesis
  proof (rule succeeds_mono)
    fix t
    assume I: "I ?n t"
    have "disk t ?dv c = V c" if "c \<notin> log_area l" for c
      using I that by (cases "c \<in> homes l") (auto simp: I_def homes_def rest_is_def)
    moreover have "dirtyb t = {}" using I dirty by (auto simp: I_def homes_def)
    ultimately show "hst me t {} \<and> dirtyb t = {} \<and> logged l V (disk t ?dv) \<and> (\<forall>c. c \<notin> log_area l \<longrightarrow> disk t ?dv c = V c) \<and>
      (\<exists>hs. hist t = hist b @ hs \<and> (\<forall>d \<in> set hs. logged l V (d ?dv) \<and> rest_is l V (d ?dv)))"
      using I by (simp add: I_def)
  qed
qed

lemma write_log_ok:
  assumes l: "lwf l" and inj: "inj_on (home l) {..<nat (lh_n l)}" and h: "hst me b {}"
    and dirty: "dirtyb b = Pair (l_dev l) ` homes l"
  shows "succeeds (foldE (write_one me l) [0..<nat (lh_n l)] b) (\<lambda>t. hst me t {} \<and> dirtyb t = dirtyb b \<and>
     disk t (l_dev l) (lstart l) = disk b (l_dev l) (lstart l) \<and>
     (\<forall>k < nat (lh_n l). disk t (l_dev l) (lstart l + 1 + k) = view b (l_dev l) (home l k)) \<and>
     (\<forall>c. c \<notin> log_area l \<longrightarrow> disk t (l_dev l) c = disk b (l_dev l) c) \<and>
     (\<forall>c. c \<notin> log_area l \<longrightarrow> view t (l_dev l) c = view b (l_dev l) c) \<and>
     (\<exists>hs. hist t = hist b @ hs \<and> (\<forall>d \<in> set hs. d (l_dev l) (lstart l) = disk b (l_dev l) (lstart l) \<and>
        (\<forall>c. c \<notin> log_area l \<longrightarrow> d (l_dev l) c = disk b (l_dev l) c))))"
proof -
  let ?n = "nat (lh_n l)" and ?dv = "l_dev l"
  note g = lwfD [OF l]
  define old where "old d \<longleftrightarrow> d (lstart l) = disk b ?dv (lstart l) \<and> (\<forall>c. c \<notin> log_area l \<longrightarrow> d c = disk b ?dv c)" for d
  define I where "I k t \<longleftrightarrow> hst me t {} \<and> dirtyb t = dirtyb b \<and> old (disk t ?dv) \<and>
     (\<forall>j < k. disk t ?dv (lstart l + 1 + j) = view b ?dv (home l j)) \<and>
     (\<forall>c. c \<notin> log_area l \<longrightarrow> view t ?dv c = view b ?dv c) \<and>
     (\<exists>hs. hist t = hist b @ hs \<and> (\<forall>d \<in> set hs. old (d ?dv)))" for k t
  have "succeeds (foldE (write_one me l) [0..<?n] b) (I ?n)"
  proof (rule foldE_upt)
    show "I 0 b" using h by (simp add: I_def old_def)
  next
    fix k t
    assume k: "k < ?n" and I: "I k t"
    then have t: "hst me t {}" "dirtyb t = dirtyb b" "old (disk t ?dv)" "\<forall>j < k. disk t ?dv (lstart l + 1 + j) = view b ?dv (home l j)"
      "\<forall>c. c \<notin> log_area l \<longrightarrow> view t ?dv c = view b ?dv c" by (simp_all add: I_def)
    obtain hs where hs: "hist t = hist b @ hs" "\<forall>d \<in> set hs. old (d ?dv)" using I by (auto simp: I_def)
    have "card (dirtyb t) \<le> ?n"
      using card_image_le [of "home l ` {..<?n}" "Pair ?dv"] card_image_le [of "{..<?n}" "home l"] by (simp add: t(2) dirty homes_def)
    then have "roomy ?dv (home l k) t"
      using g(1,11) k t(2) dirty by (auto simp: roomy_def NBUF_def LOGSIZE_def homes_def)
    from write_one_ok [OF l k t(1) this] obtain u where u: "write_one me l k t = Inr u"
      "copied me ?dv (home l k) (lblk l (Suc k)) t u" by blast
    have area: "lblk l (Suc k) \<in> log_area l" "lblk l (Suc k) = lstart l + 1 + k" using g(8,9) [of "Suc k"] k by auto
    have v: "view t ?dv (home l k) = view b ?dv (home l k)" using t(5) g(7) [OF k] by blast
    have d: "disk u ?dv = (disk t ?dv)(lstart l + 1 + k := view b ?dv (home l k))" using u(2) by (simp add: copied_def v area(2))
    have "I (Suc k) u"
      unfolding I_def
    proof (intro conjI)
      show "hst me u {}" using u(2) by (simp add: copied_def)
      have "(?dv, lblk l (Suc k)) \<notin> dirtyb b" using dirty area(1) g(7) by (auto simp: homes_def)
      then show "dirtyb u = dirtyb b" using u(2) t(2) by (simp add: copied_def)
      show o: "old (disk u ?dv)" using t(3) area by (auto simp: old_def d)
      show "\<forall>j < Suc k. disk u ?dv (lstart l + 1 + j) = view b ?dv (home l j)" unfolding d using t(4) by (auto simp: less_Suc_eq)
      show "\<forall>c. c \<notin> log_area l \<longrightarrow> view u ?dv c = view b ?dv c" using u(2) t(5) g(1) area(1) by (auto simp: copied_def)
      have "hist u = hist b @ (hs @ [disk u])" using u(2) hs(1) by (simp add: copied_def)
      then show "\<exists>hs. hist u = hist b @ hs \<and> (\<forall>d \<in> set hs. old (d ?dv))"
        using hs(2) o by (intro exI [of _ "hs @ [disk u]"]) auto
    qed
    then show "succeeds (write_one me l k t) (I (Suc k))" using u(1) by simp
  qed
  then show ?thesis by (rule succeeds_mono) (simp add: I_def old_def)
qed

lemma write_head_ok:
  assumes l: "lwf (lg s)" and h: "hst me (lb s) {}" and dirty: "\<forall>(a, b) \<in> dirtyb (lb s). a \<noteq> 0" and card: "card (dirtyb (lb s)) < NBUF"
    and st: "(l_dev (lg s), lstart (lg s)) \<notin> dirtyb (lb s)"
  shows "succeeds (write_head me s) (\<lambda>t. lg t = lg s \<and> hst me (lb t) {} \<and> dirtyb (lb t) = dirtyb (lb s) \<and>
     disk (lb t) = disk_put (l_dev (lg s)) (lstart (lg s))
       (head_data (lh_n (lg s)) (lh_block (lg s)) (disk (lb s) (l_dev (lg s)) (lstart (lg s)))) (disk (lb s)) \<and>
     hist (lb t) = hist (lb s) @ [disk (lb t)] \<and>
     (\<forall>c. c \<noteq> lstart (lg s) \<longrightarrow> view (lb t) (l_dev (lg s)) c = view (lb s) (l_dev (lg s)) c))"
proof -
  let ?l = "lg s" and ?b = "lb s"
  let ?dv = "l_dev ?l" and ?st = "lstart ?l"
  note g = lwfD [OF l]
  have st0: "lblk ?l 0 = ?st" "?st < FSSIZE" using g(8,10) [of 0] by auto
  have "\<exists>i < NBUF. i \<notin> {} \<and> b_refcnt (bufs ?b i) = 0 \<and> \<not> b_dirty (bufs ?b i)"
    using free_exists [OF h dirty] card by simp
  then obtain i u where 1: "bread me ?dv ?st ?b = Inr (i, u)" "hst me u (insert i {})" "holds u ?dv ?st i"
    "b_data (bufs u i) = view ?b ?dv ?st" "disk u = disk ?b" "hist u = hist ?b" "dirtyb u = dirtyb ?b" "same_view ?b u"
    using bread_held [OF h g(1) st0(2), of thesis] by blast
  let ?v = "head_data (lh_n ?l) (lh_block ?l) (b_data (bufs u i))"
  have i: "i \<in> {i}" by simp
  note sd = set_data_held [OF 1(2) i, where v = ?v]
  have "holds (set_data i ?v u) ?dv ?st i" using 1(3) by simp
  then obtain w where 2: "bwrite me i (set_data i ?v u) = Inr w" "hst me w {i}" "same_view (set_data i ?v u) w"
    "disk w = disk_put ?dv ?st ?v (disk u)" "hist w = hist u @ [disk w]" "dirtyb w = dirtyb u - {(?dv, ?st)}"
    "bufs w i = (bufs (set_data i ?v u) i)\<lparr>b_dirty := False\<rparr>"
    using bwrite_held [OF sd(1) i, of ?dv ?st thesis] sd(2) by auto
  have "holds w ?dv ?st i" "b_data (bufs w i) = disk w ?dv ?st" using 1(3) by (simp_all add: 2(7) 2(4))
  then obtain t where 3: "brelse me i w = Inr t" "hst me t ({i} - {i})" "same_view w t" "disk t = disk w" "hist t = hist w" "dirtyb t = dirtyb w"
    using brelse_held [OF 2(2) i, of ?dv ?st thesis] by blast
  have "\<not> lh_n ?l > int LOGSIZE" using g(3,4) by linarith
  then have "write_head me s = Inr (s\<lparr>lb := t\<rparr>)"
    using 1(1) 2(1) 3(1) by (simp add: write_head_def on_b_def st0)
  moreover have "view t ?dv c = view ?b ?dv c" if "c \<noteq> ?st" for c
    using sd(3) [OF g(1), where blk = c] that 1(3,8) 2(3) 3(3) g(1) by (auto simp: same_view_def)
  moreover have "view ?b ?dv ?st = disk ?b ?dv ?st" by (rule view_clean [OF h st g(1)])
  ultimately show ?thesis using 1 2 3 st by simp
qed

section \<open>Commit\<close>

text \<open>\<open>hdr_ok l d\<close>: the header on device \<open>d\<close> is one that recovery can use. \<open>txs me H s\<close>: inside a transaction
  process \<open>me\<close> holds the buffers \<open>H\<close>, the dirty buffers are exactly the logged blocks, and the log on disk is empty.\<close>

definition hdr_ok :: "log \<Rightarrow> (nat \<Rightarrow> block) \<Rightarrow> bool" where
  "hdr_ok l d \<longleftrightarrow> length (d (lstart l)) = BSIZE \<and> 0 \<le> sint (get32 (d (lstart l)) 0) \<and> sint (get32 (d (lstart l)) 0) < l_size l \<and>
     inj_on (hdr_blk (d (lstart l))) {..<hdr_n (d (lstart l))} \<and>
     (\<forall>k < hdr_n (d (lstart l)). hdr_blk (d (lstart l)) k < FSSIZE \<and> hdr_blk (d (lstart l)) k \<notin> log_area l)"

definition txs :: "int \<Rightarrow> nat set \<Rightarrow> lst \<Rightarrow> bool" where
  "txs me H s \<longleftrightarrow> lwf (lg s) \<and> inj_on (home (lg s)) {..<nat (lh_n (lg s))} \<and> hst me (lb s) H \<and>
     dirtyb (lb s) = Pair (l_dev (lg s)) ` homes (lg s) \<and>
     get32 (disk (lb s) (l_dev (lg s)) (lstart (lg s))) 0 = 0 \<and> length (disk (lb s) (l_dev (lg s)) (lstart (lg s))) = BSIZE"

abbreviation tx_ready :: "int \<Rightarrow> lst \<Rightarrow> bool" where
  "tx_ready me s \<equiv> txs me {} s"

lemma on_b_succeeds:
  "succeeds (f (lb s)) P \<Longrightarrow> succeeds (on_b f s) (\<lambda>t. lg t = lg s \<and> P (lb t))"
  by (auto simp: on_b_def elim!: succeedsE)

lemma hdr_ok_empty:
  assumes "lwf l" and "length (d (lstart l)) = BSIZE" and "get32 (d (lstart l)) 0 = 0"
  shows "hdr_ok l d" and "recovered (lstart l) d = d"
  using assms lwfD(2,3) [OF assms(1)] by (simp_all add: hdr_ok_def hdr_n_def recovered_empty)

lemma hdr_ok_logged:
  assumes l: "lwf l" and inj: "inj_on (home l) {..<nat (lh_n l)}" and lg: "logged l V d"
  shows "hdr_ok l d"
proof -
  have e: "hdr_n (d (lstart l)) = nat (lh_n l)" "\<forall>k < nat (lh_n l). hdr_blk (d (lstart l)) k = home l k"
    using lg by (simp_all add: logged_def hdr_n_def)
  have "inj_on (hdr_blk (d (lstart l))) {..<nat (lh_n l)}"
    using inj e(2) by (simp add: inj_on_def)
  then show ?thesis using lwfD(2,3,6,7) [OF l] e lg by (simp add: hdr_ok_def logged_def)
qed

lemma clear_n_sel [simp]:
  "lb (clear_n s) = lb s" "lh_n (lg (clear_n s)) = 0" "l_dev (lg (clear_n s)) = l_dev (lg s)" "l_start (lg (clear_n s)) = l_start (lg s)"
  "lh_block (lg (clear_n s)) = lh_block (lg s)" "log_area (lg (clear_n s)) = log_area (lg s)" "homes (lg (clear_n s)) = {}"
  "lwf (lg s) \<Longrightarrow> lwf (lg (clear_n s))"
  by (simp_all add: clear_n_def log_area_def homes_def lwf_def)

lemma head_data_0: "head_data 0 bl d = put32 0 0 d"
  by (simp add: head_data_def)

text \<open>The last step of commit and of recovery: an empty header.\<close>

lemma clear_head_ok:
  assumes l: "lwf (lg s)" and h: "hst me (lb s) {}" and dirty: "dirtyb (lb s) = {}"
    and len: "length (disk (lb s) (l_dev (lg s)) (lstart (lg s))) = BSIZE"
  shows "succeeds (write_head me (clear_n s)) (\<lambda>t. tx_ready me t \<and> lg t = (lg s)\<lparr>lh_n := 0\<rparr> \<and>
     hist (lb t) = hist (lb s) @ [disk (lb t)] \<and> dirtyb (lb t) = {} \<and>
     (\<forall>c. c \<noteq> lstart (lg s) \<longrightarrow> disk (lb t) (l_dev (lg s)) c = disk (lb s) (l_dev (lg s)) c))"
proof -
  have "succeeds (write_head me (clear_n s)) (\<lambda>t. lg t = lg (clear_n s) \<and> hst me (lb t) {} \<and> dirtyb (lb t) = dirtyb (lb s) \<and>
     disk (lb t) = disk_put (l_dev (lg s)) (lstart (lg s)) (put32 0 0 (disk (lb s) (l_dev (lg s)) (lstart (lg s)))) (disk (lb s)) \<and>
     hist (lb t) = hist (lb s) @ [disk (lb t)] \<and>
     (\<forall>c. c \<noteq> lstart (lg s) \<longrightarrow> view (lb t) (l_dev (lg s)) c = view (lb s) (l_dev (lg s)) c))"
    using write_head_ok [of "clear_n s" me] l h dirty by (simp add: head_data_0 NBUF_def MAXOPBLOCKS_def)
  then show ?thesis
  proof (rule succeeds_mono)
    fix t :: lst
    assume t: "lg t = lg (clear_n s) \<and> hst me (lb t) {} \<and> dirtyb (lb t) = dirtyb (lb s) \<and>
     disk (lb t) = disk_put (l_dev (lg s)) (lstart (lg s)) (put32 0 0 (disk (lb s) (l_dev (lg s)) (lstart (lg s)))) (disk (lb s)) \<and>
     hist (lb t) = hist (lb s) @ [disk (lb t)] \<and>
     (\<forall>c. c \<noteq> lstart (lg s) \<longrightarrow> view (lb t) (l_dev (lg s)) c = view (lb s) (l_dev (lg s)) c)"
    then have "tx_ready me t" using l len dirty by (simp add: txs_def BSIZE_def)
    then show "tx_ready me t \<and> lg t = (lg s)\<lparr>lh_n := 0\<rparr> \<and> hist (lb t) = hist (lb s) @ [disk (lb t)] \<and> dirtyb (lb t) = {} \<and>
     (\<forall>c. c \<noteq> lstart (lg s) \<longrightarrow> disk (lb t) (l_dev (lg s)) c = disk (lb s) (l_dev (lg s)) c)"
      using t dirty by (simp add: clear_n_def)
  qed
qed

text \<open>\<open>crash_state l D d\<close>: a device from which recovery rebuilds the contents \<open>D\<close>.\<close>

definition crash_state :: "log \<Rightarrow> (nat \<Rightarrow> block) \<Rightarrow> (nat \<Rightarrow> block) \<Rightarrow> bool" where
  "crash_state l D d \<longleftrightarrow> hdr_ok l d \<and> (\<forall>c. c \<notin> log_area l \<longrightarrow> recovered (lstart l) d c = D c)"

lemma crash_state_logged:
  "lwf l \<Longrightarrow> inj_on (home l) {..<nat (lh_n l)} \<Longrightarrow> logged l V d \<Longrightarrow> rest_is l V d \<Longrightarrow> crash_state l V d"
  by (simp add: crash_state_def hdr_ok_logged recovered_logged)

lemma crash_state_empty:
  "lwf l \<Longrightarrow> length (d (lstart l)) = BSIZE \<Longrightarrow> get32 (d (lstart l)) 0 = 0 \<Longrightarrow> (\<And>c. c \<notin> log_area l \<Longrightarrow> d c = D c) \<Longrightarrow> crash_state l D d"
  by (simp add: crash_state_def hdr_ok_empty)

lemma commit_ok:
  assumes r: "tx_ready me s"
  shows "succeeds (commit me s) (\<lambda>t. tx_ready me t \<and> lg t = (lg s)\<lparr>lh_n := 0\<rparr> \<and>
     (\<forall>c. c \<notin> log_area (lg s) \<longrightarrow> disk (lb t) (l_dev (lg s)) c = view (lb s) (l_dev (lg s)) c) \<and>
     (\<exists>hs. hist (lb t) = hist (lb s) @ hs \<and> (\<forall>d \<in> set hs.
        (\<forall>c. c \<notin> log_area (lg s) \<longrightarrow> c \<notin> homes (lg s) \<longrightarrow> d (l_dev (lg s)) c = disk (lb s) (l_dev (lg s)) c) \<and>
        (crash_state (lg s) (disk (lb s) (l_dev (lg s))) (d (l_dev (lg s))) \<or>
         crash_state (lg s) (view (lb s) (l_dev (lg s))) (d (l_dev (lg s)))))))"
proof -
  let ?l = "lg s" and ?b = "lb s"
  let ?dv = "l_dev ?l" and ?st = "lstart ?l" and ?n = "nat (lh_n ?l)"
  let ?V = "view ?b ?dv" and ?D = "disk ?b ?dv"
  have l: "lwf ?l" and inj: "inj_on (home ?l) {..<?n}" and h: "hst me ?b {}" and dirty: "dirtyb ?b = Pair ?dv ` homes ?l"
    and hd: "get32 (?D ?st) 0 = 0" "length (?D ?st) = BSIZE"
    using r by (simp_all add: txs_def)
  note g = lwfD [OF l]
  have DV: "?D c = ?V c" if "c \<notin> homes ?l" for c
  proof -
    have "(?dv, c) \<notin> dirtyb ?b" using dirty that by auto
    then show ?thesis using view_clean [OF h _ g(1)] by simp
  qed
  have st: "?st \<in> log_area ?l" using g(8,9) [of 0] by simp
  show ?thesis
  proof (cases "0 < lh_n ?l")
    case False
    then have n0: "lh_n ?l = 0" using g(2) by simp
    then have "homes ?l = {}" by (simp add: homes_def)
    then show ?thesis using False r DV n0 by (auto simp: commit_def)
  next
    case True
    obtain s1 where s1: "write_log me s = Inr s1" "lg s1 = ?l" "hst me (lb s1) {}" "dirtyb (lb s1) = dirtyb ?b"
      "disk (lb s1) ?dv ?st = ?D ?st" "\<forall>k < ?n. disk (lb s1) ?dv (?st + 1 + k) = ?V (home ?l k)"
      "\<forall>c. c \<notin> log_area ?l \<longrightarrow> disk (lb s1) ?dv c = ?D c" "\<forall>c. c \<notin> log_area ?l \<longrightarrow> view (lb s1) ?dv c = ?V c"
      "\<exists>hs. hist (lb s1) = hist ?b @ hs \<and> (\<forall>d \<in> set hs. d ?dv ?st = ?D ?st \<and> (\<forall>c. c \<notin> log_area ?l \<longrightarrow> d ?dv c = ?D c))"
      using on_b_succeeds [where f = "foldE (write_one me ?l) [0..<?n]" and s = s, OF write_log_ok [OF l inj h dirty]] unfolding write_log_def by (rule succeedsE) (elim conjE, blast)
    obtain hs1 where hs1: "hist (lb s1) = hist ?b @ hs1" "\<forall>d \<in> set hs1. d ?dv ?st = ?D ?st \<and> (\<forall>c. c \<notin> log_area ?l \<longrightarrow> d ?dv c = ?D c)"
      using s1(9) by blast
    have o1: "\<forall>d \<in> set hs1. crash_state ?l ?D (d ?dv)" using hs1(2) hd by (auto intro: crash_state_empty [OF l])
    have nst: "(?dv, ?st) \<notin> dirtyb (lb s1)" using s1(4) dirty st g(7) by (auto simp: homes_def)
    have "card (dirtyb (lb s1)) \<le> ?n"
      using card_image_le [of "home ?l ` {..<?n}" "Pair ?dv"] card_image_le [of "{..<?n}" "home ?l"] by (simp add: s1(4) dirty homes_def)
    then have "card (dirtyb (lb s1)) < NBUF" using g(11) by (simp add: NBUF_def LOGSIZE_def)
    moreover have "\<forall>(a, b) \<in> dirtyb (lb s1). a \<noteq> 0" using s1(4) dirty g(1) by auto
    ultimately obtain s2 where s2: "write_head me s1 = Inr s2" "lg s2 = ?l" "hst me (lb s2) {}" "dirtyb (lb s2) = dirtyb ?b"
      "disk (lb s2) = disk_put ?dv ?st (head_data (lh_n ?l) (lh_block ?l) (?D ?st)) (disk (lb s1))"
      "hist (lb s2) = hist (lb s1) @ [disk (lb s2)]"
      using write_head_ok [of s1 me] l s1(2-5) nst by auto
    have n30: "lh_n ?l \<le> int LOGSIZE" using g(3,4) by linarith
    have hv: "sint (get32 (disk (lb s2) ?dv ?st) 0) = lh_n ?l" 
      using hdr_head_data(1) [OF hd(2) g(2) n30, of "lh_block ?l"] True by (simp add: s2(5) hdr_n_def)
    have lgd: "logged ?l ?V (disk (lb s2) ?dv)"
      unfolding logged_def
    proof (intro conjI allI impI)
      show "sint (get32 (disk (lb s2) ?dv ?st) 0) = lh_n ?l" by (rule hv)
      show "length (disk (lb s2) ?dv ?st) = BSIZE" by (simp add: s2(5) hd)
      fix k
      assume k: "k < ?n"
      show "hdr_blk (disk (lb s2) ?dv ?st) k = home ?l k"
        using hdr_head_data(2) [OF hd(2) g(2) n30 k] by (simp add: s2(5) home_def)
      show "disk (lb s2) ?dv (?st + 1 + k) = ?V (home ?l k)" using s1(6) k by (simp add: s2(5))
    qed
    have rst: "rest_is ?l ?V (disk (lb s2) ?dv)" using s1(7) st DV by (auto simp: rest_is_def s2(5))
    obtain s3 where s3: "install_trans me s2 = Inr s3" "lg s3 = ?l" "hst me (lb s3) {}" "dirtyb (lb s3) = {}" "logged ?l ?V (disk (lb s3) ?dv)"
      "\<forall>c. c \<notin> log_area ?l \<longrightarrow> disk (lb s3) ?dv c = ?V c"
      "\<exists>hs. hist (lb s3) = hist (lb s2) @ hs \<and> (\<forall>d \<in> set hs. logged ?l ?V (d ?dv) \<and> rest_is ?l ?V (d ?dv))"
      using on_b_succeeds [where f = "foldE (install_one me ?l) [0..<?n]" and s = s2, OF install_trans_ok [OF l inj s2(3) _ lgd rst]] s2(2,4) dirty unfolding install_trans_def
      by (auto elim!: succeedsE)
    obtain hs3 where hs3: "hist (lb s3) = hist (lb s2) @ hs3" "\<forall>d \<in> set hs3. logged ?l ?V (d ?dv) \<and> rest_is ?l ?V (d ?dv)"
      using s3(7) by blast
    have "length (disk (lb s3) (l_dev (lg s3)) (lstart (lg s3))) = BSIZE" using s3(2,5) by (simp add: logged_def)
    then obtain t where t: "write_head me (clear_n s3) = Inr t" "tx_ready me t" "lg t = ?l\<lparr>lh_n := 0\<rparr>" "hist (lb t) = hist (lb s3) @ [disk (lb t)]"
      "\<forall>c. c \<noteq> ?st \<longrightarrow> disk (lb t) ?dv c = disk (lb s3) ?dv c"
      using clear_head_ok [of s3 me] l s3(2-4) by (auto elim!: succeedsE)
    have fin: "\<forall>c. c \<notin> log_area ?l \<longrightarrow> disk (lb t) ?dv c = ?V c" using t(5) s3(6) st by metis
    have "crash_state ?l ?V (disk (lb t) ?dv)" using t(2,3) fin by (intro crash_state_empty [OF l]) (auto simp: txs_def)
    moreover have "crash_state ?l ?V (disk (lb s2) ?dv)" "\<forall>d \<in> set hs3. crash_state ?l ?V (d ?dv)"
      using crash_state_logged [OF l inj] lgd rst hs3(2) by auto
    moreover have "\<forall>d \<in> set (hs1 @ [disk (lb s2)] @ hs3 @ [disk (lb t)]). \<forall>c. c \<notin> log_area ?l \<longrightarrow> c \<notin> homes ?l \<longrightarrow> d ?dv c = ?D c"
      using hs1(2) rst hs3(2) fin DV by (auto simp: rest_is_def)
    moreover have "hist (lb t) = hist ?b @ (hs1 @ [disk (lb s2)] @ hs3 @ [disk (lb t)])" using t(4) hs3(1) s2(6) hs1(1) by simp
    moreover have "commit me s = Inr t" using True s1(1) s2(1) s3(1) t(1) by (simp add: commit_def)
    ultimately show ?thesis using t(2,3) fin o1
      by (simp only: succeeds_simps) (intro conjI exI [of _ "hs1 @ [disk (lb s2)] @ hs3 @ [disk (lb t)]"]; auto)
  qed
qed

section \<open>Recovery\<close>

definition log_geom :: "log \<Rightarrow> bool" where
  "log_geom l \<longleftrightarrow> l_dev l \<noteq> 0 \<and> 0 < l_size l \<and> l_size l \<le> int LOGSIZE \<and> lstart l + nat (l_size l) \<le> FSSIZE \<and>
     length (lh_block l) = LOGSIZE"

text \<open>Reading one block and giving it back.\<close>

lemma read_release:
  assumes h: "hst me b {}" and dv: "dv \<noteq> 0" and c: "c < FSSIZE" and dirty: "\<forall>(a, b) \<in> dirtyb b. a \<noteq> 0" and card: "card (dirtyb b) < NBUF"
  obtains i u t where "bread me dv c b = Inr (i, u)" and "b_data (bufs u i) = view b dv c" and "brelse me i u = Inr t"
    and "hst me t {}" and "disk t = disk b" and "hist t = hist b" and "dirtyb t = dirtyb b" and "same_view b t"
proof -
  have "\<exists>i < NBUF. i \<notin> {} \<and> b_refcnt (bufs b i) = 0 \<and> \<not> b_dirty (bufs b i)"
    using free_exists [OF h dirty] card by simp
  then obtain i u where 1: "bread me dv c b = Inr (i, u)" "hst me u (insert i {})" "holds u dv c i"
    "b_data (bufs u i) = view b dv c" "b_dirty (bufs u i) \<or> b_data (bufs u i) = disk u dv c" "disk u = disk b" "hist u = hist b"
    "dirtyb u = dirtyb b" "same_view b u"
    using bread_held [OF h dv c, of thesis] by blast
  then obtain t where 2: "brelse me i u = Inr t" "hst me t ({i} - {i})" "same_view u t" "disk t = disk u" "hist t = hist u" "dirtyb t = dirtyb u"
    using brelse_held [OF 1(2), of i dv c thesis] by blast
  then show thesis using 1 that [of i u t] by (simp add: same_view_def)
qed

lemma read_head_ok:
  assumes l: "log_geom (lg s)" and h: "hst me (lb s) {}" and dirty: "dirtyb (lb s) = {}" and ok: "hdr_ok (lg s) (disk (lb s) (l_dev (lg s)))"
  shows "succeeds (read_head me s) (\<lambda>t. lwf (lg t) \<and> inj_on (home (lg t)) {..<nat (lh_n (lg t))} \<and> hst me (lb t) {} \<and> dirtyb (lb t) = {} \<and>
     disk (lb t) = disk (lb s) \<and> hist (lb t) = hist (lb s) \<and> lstart (lg t) = lstart (lg s) \<and> l_size (lg t) = l_size (lg s) \<and>
     l_dev (lg t) = l_dev (lg s) \<and>
     logged (lg t) (recovered (lstart (lg s)) (disk (lb s) (l_dev (lg s)))) (disk (lb s) (l_dev (lg s))) \<and>
     rest_is (lg t) (recovered (lstart (lg s)) (disk (lb s) (l_dev (lg s)))) (disk (lb s) (l_dev (lg s))))"
proof -
  let ?l = "lg s" and ?b = "lb s"
  let ?dv = "l_dev ?l" and ?st = "lstart ?l" and ?D = "disk ?b (l_dev ?l)"
  define n where "n = sint (get32 (?D ?st) 0)"
  have dv: "?dv \<noteq> 0" and st: "?st < FSSIZE" and st0: "lblk ?l 0 = ?st" using l by (auto simp: log_geom_def lblk_def)
  have "card (dirtyb ?b) < NBUF" "\<forall>(a, b) \<in> dirtyb ?b. a \<noteq> 0" by (simp_all add: dirty NBUF_def MAXOPBLOCKS_def)
  then obtain i u t where 1: "bread me ?dv ?st ?b = Inr (i, u)" "b_data (bufs u i) = view ?b ?dv ?st" "brelse me i u = Inr t"
    "hst me t {}" "disk t = disk ?b" "hist t = hist ?b" "dirtyb t = dirtyb ?b"
    using read_release [OF h dv st, of thesis] by blast
  have v: "view ?b ?dv ?st = ?D ?st" using view_clean [OF h _ dv] dirty by simp
  let ?bl = "map (\<lambda>k. get32 (?D ?st) (4 + 4 * k)) [0..<nat n] @ drop (nat n) (lh_block ?l)"
  define l' where "l' = ?l\<lparr>lh_n := n, lh_block := ?bl\<rparr>"
  have n: "0 \<le> n" "n < l_size ?l" "n \<le> int LOGSIZE" "nat n \<le> LOGSIZE" using ok l by (auto simp: hdr_ok_def n_def log_geom_def)
  have ex: "read_head me s = Inr (s\<lparr>lb := t, lg := l'\<rparr>)"
    using 1(1-3) n(3) by (simp add: read_head_def st0 v Let_def l'_def n_def)
  have hn: "hdr_n (?D ?st) = nat n" by (simp add: hdr_n_def n_def)
  have home: "home l' k = hdr_blk (?D ?st) k" if "k < nat n" for k
    using that by (simp add: home_def l'_def hdr_blk_def nth_append)
  have area: "log_area l' = log_area ?l" by (simp add: log_area_def l'_def)
  have sel: "lh_n l' = n" "lstart l' = ?st" "l_dev l' = ?dv" "l_size l' = l_size ?l" by (simp_all add: l'_def)
  have inj: "inj_on (home l') {..<nat n}" using ok home by (simp add: hdr_ok_def hn inj_on_def)
  have "length (lh_block l') = LOGSIZE" using l n(4) by (simp add: l'_def log_geom_def)
  then have lwf: "lwf l'"
    using l n ok home by (simp add: lwf_def sel area log_geom_def hdr_ok_def hn)
  have r: "recovered ?st ?D = fold (\<lambda>k r. r(home l' k := ?D (?st + 1 + k))) [0..<nat n] ?D"
    unfolding recovered_def hn by (intro fold_cong) (auto simp: home)
  have "logged l' (recovered ?st ?D) ?D"
    unfolding logged_def sel
  proof (intro conjI allI impI)
    show "sint (get32 (?D ?st) 0) = n" by (simp add: n_def)
    show "length (?D ?st) = BSIZE" using ok by (simp add: hdr_ok_def)
    fix k assume k: "k < nat n"
    show "hdr_blk (?D ?st) k = home l' k" by (rule home [OF k, symmetric])
    show "?D (?st + 1 + k) = recovered ?st ?D (home l' k)" unfolding r using fold_upd_hit [OF k inj, of "\<lambda>k. ?D (?st + 1 + k)" ?D] by simp
  qed
  moreover have "rest_is l' (recovered ?st ?D) ?D"
    unfolding rest_is_def homes_def sel
  proof (intro allI impI)
    fix c
    assume "c \<notin> home l' ` {..<nat n}"
    then show "?D c = recovered ?st ?D c" unfolding r by (intro fold_upd_miss [symmetric]) auto
  qed
  ultimately show ?thesis using ex lwf inj 1(4-7) dirty by (simp add: sel)
qed

lemma recover_ok:
  assumes l: "log_geom (lg s)" and h: "hst me (lb s) {}" and dirty: "dirtyb (lb s) = {}" and ok: "hdr_ok (lg s) (disk (lb s) (l_dev (lg s)))"
  shows "succeeds (recover_from_log me s) (\<lambda>t. tx_ready me t \<and> lh_n (lg t) = 0 \<and> lstart (lg t) = lstart (lg s) \<and>
     l_size (lg t) = l_size (lg s) \<and> l_dev (lg t) = l_dev (lg s) \<and>
     (\<forall>c. c \<notin> log_area (lg s) \<longrightarrow> disk (lb t) (l_dev (lg s)) c = recovered (lstart (lg s)) (disk (lb s) (l_dev (lg s))) c) \<and>
     (\<exists>hs. hist (lb t) = hist (lb s) @ hs \<and>
        (\<forall>d \<in> set hs. crash_state (lg s) (recovered (lstart (lg s)) (disk (lb s) (l_dev (lg s)))) (d (l_dev (lg s))))))"
proof -
  let ?dv = "l_dev (lg s)" and ?st = "lstart (lg s)"
  let ?V = "recovered ?st (disk (lb s) ?dv)"
  obtain s1 where s1: "read_head me s = Inr s1" "lwf (lg s1)" "inj_on (home (lg s1)) {..<nat (lh_n (lg s1))}" "hst me (lb s1) {}"
    "dirtyb (lb s1) = {}" "disk (lb s1) = disk (lb s)" "hist (lb s1) = hist (lb s)" "lstart (lg s1) = ?st" "l_size (lg s1) = l_size (lg s)"
    "l_dev (lg s1) = ?dv" "logged (lg s1) ?V (disk (lb s) ?dv)" "rest_is (lg s1) ?V (disk (lb s) ?dv)"
    using read_head_ok [OF l h dirty ok] by (rule succeedsE) (elim conjE, blast)
  let ?l = "lg s1"
  have area: "log_area ?l = log_area (lg s)" by (simp add: log_area_def s1)
  have cs: "crash_state ?l W d = crash_state (lg s) W d" for W d by (simp add: crash_state_def hdr_ok_def s1 area)
  obtain s2 where s2: "install_trans me s1 = Inr s2" "lg s2 = ?l" "hst me (lb s2) {}" "dirtyb (lb s2) = {}" "logged ?l ?V (disk (lb s2) ?dv)"
    "\<forall>c. c \<notin> log_area ?l \<longrightarrow> disk (lb s2) ?dv c = ?V c"
    "\<exists>hs. hist (lb s2) = hist (lb s1) @ hs \<and> (\<forall>d \<in> set hs. logged ?l ?V (d ?dv) \<and> rest_is ?l ?V (d ?dv))"
    using on_b_succeeds [where f = "foldE (install_one me ?l) [0..<nat (lh_n ?l)]" and s = s1, OF install_trans_ok [OF s1(2-4), of ?V]] s1(5,6,10-12) unfolding install_trans_def
    by (auto elim!: succeedsE)
  then obtain hs where hs: "hist (lb s2) = hist (lb s1) @ hs" "\<forall>d \<in> set hs. logged ?l ?V (d ?dv) \<and> rest_is ?l ?V (d ?dv)" by blast
  have "length (disk (lb s2) (l_dev (lg s2)) (lstart (lg s2))) = BSIZE" using s2(2,5) s1(8,10) by (simp add: logged_def)
  then obtain t where t: "write_head me (clear_n s2) = Inr t" "tx_ready me t" "lg t = ?l\<lparr>lh_n := 0\<rparr>" "hist (lb t) = hist (lb s2) @ [disk (lb t)]"
    "\<forall>c. c \<noteq> ?st \<longrightarrow> disk (lb t) ?dv c = disk (lb s2) ?dv c"
    using clear_head_ok [of s2 me] s1(2,8,10) s2(2-4) by (auto elim!: succeedsE)
  have st: "?st \<in> log_area ?l" using lwfD(8,9) [OF s1(2), of 0] s1(8) by simp
  have fin: "\<forall>c. c \<notin> log_area ?l \<longrightarrow> disk (lb t) ?dv c = ?V c" using t(5) s2(6) st by metis
  have "crash_state ?l ?V (disk (lb t) ?dv)" using t(2,3) fin s1(8,10) by (intro crash_state_empty [OF s1(2)]) (auto simp: txs_def)
  moreover have "\<forall>d \<in> set hs. crash_state ?l ?V (d ?dv)" using crash_state_logged [OF s1(2,3)] hs(2) by auto
  moreover have "hist (lb t) = hist (lb s) @ (hs @ [disk (lb t)])" using t(4) hs(1) s1(7) by simp
  moreover have "recover_from_log me s = Inr t" using s1(1) s2(1) t(1) by (simp add: recover_from_log_def)
  ultimately show ?thesis using t(2,3) fin s1(8-10)
    by (simp add: area cs)
qed

section \<open>Inside a transaction\<close>

text \<open>The block interface that the file system uses between \<open>begin_op\<close> and \<open>end_op\<close>: reading a block gives its
  current content, a logged update changes that content, and nothing else changes.\<close>

abbreviation lview :: "lst \<Rightarrow> nat \<Rightarrow> block" where
  "lview s \<equiv> view (lb s) (l_dev (lg s))"

lemma txsD:
  assumes "txs me H s"
  shows "lwf (lg s)" and "inj_on (home (lg s)) {..<nat (lh_n (lg s))}" and "hst me (lb s) H"
    and "dirtyb (lb s) = Pair (l_dev (lg s)) ` homes (lg s)"
    and "card (dirtyb (lb s)) \<le> nat (lh_n (lg s))" and "\<forall>(a, b) \<in> dirtyb (lb s). a \<noteq> 0"
proof -
  show a: "lwf (lg s)" "inj_on (home (lg s)) {..<nat (lh_n (lg s))}" "hst me (lb s) H" "dirtyb (lb s) = Pair (l_dev (lg s)) ` homes (lg s)"
    using assms by (simp_all add: txs_def)
  show "card (dirtyb (lb s)) \<le> nat (lh_n (lg s))"
    using card_image_le [of "home (lg s) ` {..<nat (lh_n (lg s))}" "Pair (l_dev (lg s))"] card_image_le [of "{..<nat (lh_n (lg s))}" "home (lg s)"]
    by (simp add: a(4) homes_def)
  show "\<forall>(a, b) \<in> dirtyb (lb s). a \<noteq> 0" using lwfD(1) [OF a(1)] by (auto simp: a(4))
qed

lemma tx_bread:
  assumes x: "txs me H s" and c: "c < FSSIZE" and nh: "\<forall>i \<in> H. b_blockno (bufs (lb s) i) \<noteq> c"
    and room: "card H + nat (lh_n (lg s)) < NBUF"
  obtains i b where "bread me (l_dev (lg s)) c (lb s) = Inr (i, b)" and "i \<notin> H" and "txs me (insert i H) (s\<lparr>lb := b\<rparr>)"
    and "b_blockno (bufs b i) = c" and "b_dev (bufs b i) = l_dev (lg s)" and "b_data (bufs b i) = lview s c"
    and "b_dirty (bufs b i) \<or> b_data (bufs b i) = disk b (l_dev (lg s)) c"
    and "\<forall>j. j \<noteq> i \<longrightarrow> bufs b j = bufs (lb s) j" and "disk b = disk (lb s)" and "hist b = hist (lb s)" and "same_view (lb s) b"
proof -
  note d = txsD [OF x]
  have "\<exists>i < NBUF. i \<notin> H \<and> b_refcnt (bufs (lb s) i) = 0 \<and> \<not> b_dirty (bufs (lb s) i)"
    using free_exists [OF d(3,6)] d(5) room by simp
  moreover have "\<forall>i \<in> H. \<not> holds (lb s) (l_dev (lg s)) c i" using nh by blast
  ultimately obtain i b where 1: "bread me (l_dev (lg s)) c (lb s) = Inr (i, b)" "i \<notin> H" "hst me b (insert i H)"
    "holds b (l_dev (lg s)) c i" "b_data (bufs b i) = lview s c" "b_dirty (bufs b i) \<or> b_data (bufs b i) = disk b (l_dev (lg s)) c"
    "\<forall>j. j \<noteq> i \<longrightarrow> bufs b j = bufs (lb s) j" "disk b = disk (lb s)" "hist b = hist (lb s)" "dirtyb b = dirtyb (lb s)" "same_view (lb s) b"
    using bread_held [OF d(3) lwfD(1) [OF d(1)] c, of thesis] by blast
  moreover have "txs me (insert i H) (s\<lparr>lb := b\<rparr>)" using x 1(3,8,10) by (simp add: txs_def)
  ultimately show thesis using that by blast
qed

text \<open>What \<open>log_write\<close> does to the header in memory.\<close>

definition note_block :: "nat \<Rightarrow> log \<Rightarrow> log" where
  "note_block bno l =
    (let k = length (takeWhile (\<lambda>w. unat w \<noteq> bno) (take (nat (lh_n l)) (lh_block l)));
         l1 = l\<lparr>lh_block := (lh_block l)[k := of_nat bno]\<rparr>
     in if int k = lh_n l then l1\<lparr>lh_n := lh_n l + 1\<rparr> else l1)"

lemma note_block_ok:
  assumes l: "lwf l" and inj: "inj_on (home l) {..<nat (lh_n l)}" and room: "lh_n l < l_size l - 1" and b: "bno < FSSIZE" "bno \<notin> log_area l"
  defines "t \<equiv> note_block bno l"
  shows "lwf t" and "inj_on (home t) {..<nat (lh_n t)}" and "homes t = insert bno (homes l)" and "lh_n l \<le> lh_n t" and "lh_n t \<le> lh_n l + 1"
    and "l_dev t = l_dev l" and "l_start t = l_start l" and "l_size t = l_size l" and "outstanding t = outstanding l" and "committing t = committing l"
proof -
  let ?n = "nat (lh_n l)" and ?bl = "lh_block l"
  let ?xs = "take ?n ?bl"
  let ?k = "length (takeWhile (\<lambda>w. unat w \<noteq> bno) ?xs)"
  note g = lwfD [OF l]
  have len: "length ?xs = ?n" using g(5,11) by simp
  have n: "int ?n = lh_n l" using g(2) by simp
  show "l_dev t = l_dev l" "l_start t = l_start l" "l_size t = l_size l" "outstanding t = outstanding l" "committing t = committing l"
    "lh_n l \<le> lh_n t" "lh_n t \<le> lh_n l + 1"
    by (simp_all add: t_def note_block_def Let_def)
  have area: "log_area t = log_area l" by (simp add: log_area_def t_def note_block_def Let_def)
  have "lwf t \<and> inj_on (home t) {..<nat (lh_n t)} \<and> homes t = insert bno (homes l)"
  proof (cases "?k < ?n")
    case True
    have "unat (?xs ! ?k) = bno" using nth_length_takeWhile [of "\<lambda>w. unat w \<noteq> bno" ?xs] True len by simp
    then have e: "unat (?bl ! ?k) = bno" using True by simp
    have "of_nat (unat (?bl ! ?k)) = ?bl ! ?k" by simp
    then have "of_nat bno = ?bl ! ?k" unfolding e .
    then have "?bl[?k := of_nat bno] = ?bl" by simp
    then have "t = l" using True n by (simp add: t_def note_block_def Let_def)
    moreover have "bno \<in> homes l" using True e by (auto simp: homes_def home_def intro!: image_eqI [of _ _ ?k])
    ultimately show ?thesis using l inj by auto
  next
    case False
    then have k: "?k = ?n" using length_takeWhile_le [of "\<lambda>w. unat w \<noteq> bno" ?xs] len by simp
    then have "\<forall>w \<in> set ?xs. unat w \<noteq> bno" using takeWhile_full [of "\<lambda>w. unat w \<noteq> bno" ?xs] len by auto
    then have new: "home l j \<noteq> bno" if "j < ?n" for j
      using that len by (metis home_def nth_mem nth_take)
    have t: "t = l\<lparr>lh_block := ?bl[?n := of_nat bno], lh_n := lh_n l + 1\<rparr>" using k n by (simp add: t_def note_block_def Let_def)
    have nt: "nat (lh_n t) = Suc ?n" using g(2) t by simp
    have home: "home t j = home l j" if "j < ?n" for j using that by (simp add: t home_def)
    have "unat (of_nat bno :: u32) = bno" by (rule unat_of_nat32) (use b(1) in \<open>simp add: FSSIZE_def\<close>)
    then have last: "home t ?n = bno" using g(5,11) by (simp add: t home_def)
    have "lwf t"
      using l room b home last unfolding lwf_def area nt by (auto simp: t less_Suc_eq)
    moreover have "inj_on (home t) {..<nat (lh_n t)}"
    proof -
      have "bno \<notin> home l ` {..<?n}" using new by auto
      then have "inj_on (home t) (insert ?n {..<?n})"
        using inj home last by (simp add: inj_on_def image_iff) metis
      then show ?thesis by (simp add: nt lessThan_Suc)
    qed
    moreover have "homes t = insert bno (homes l)"
      unfolding homes_def nt lessThan_Suc using home last by auto
    ultimately show ?thesis by blast
  qed
  then show "lwf t" "inj_on (home t) {..<nat (lh_n t)}" "homes t = insert bno (homes l)" by blast+
qed

lemma log_write_eq:
  "lh_n (lg s) < int LOGSIZE \<Longrightarrow> lh_n (lg s) < l_size (lg s) - 1 \<Longrightarrow> outstanding (lg s) \<ge> 1 \<Longrightarrow>
   log_write i s = Inr (s\<lparr>lg := note_block (b_blockno (bufs (lb s) i)) (lg s), lb := pin i (lb s)\<rparr>)"
  by (simp add: log_write_def note_block_def Let_def pin_def)

lemma tx_log_write:
  assumes x: "txs me H s" and i: "i \<in> H" and dv: "b_dev (bufs (lb s) i) = l_dev (lg s)" and c: "b_blockno (bufs (lb s) i) \<notin> log_area (lg s)"
    and room: "lh_n (lg s) < l_size (lg s) - 1" and out: "outstanding (lg s) \<ge> 1"
  defines "t \<equiv> s\<lparr>lg := note_block (b_blockno (bufs (lb s) i)) (lg s), lb := pin i (lb s)\<rparr>"
  shows "log_write i s = Inr t" and "txs me H t" and "same_view (lb s) (lb t)"
proof -
  note d = txsD [OF x] and l = lwfD [OF txsD(1) [OF x]]
  note p = pin_held [OF d(3) i] and n = note_block_ok [OF d(1,2) room hstD(6) [OF d(3) i] c]
  show "log_write i s = Inr t" unfolding t_def by (rule log_write_eq) (use l(3,4) room out in linarith)+
  show "same_view (lb s) (lb t)" using p(3) by (simp add: t_def)
  have "dirtyb (pin i (lb s)) = Pair (l_dev (lg s)) ` homes (note_block (b_blockno (bufs (lb s) i)) (lg s))"
    using p(2) dv d(4) n(3) by auto
  then show "txs me H t" using x p(1) n by (simp add: txs_def t_def)
qed

lemma tx_set_data:
  assumes x: "txs me H s" and i: "i \<in> H" and dv: "b_dev (bufs (lb s) i) = l_dev (lg s)"
  shows "txs me H (s\<lparr>lb := set_data i v (lb s)\<rparr>)"
    and "view (set_data i v (lb s)) (l_dev (lg s)) = (lview s)(b_blockno (bufs (lb s) i) := v)"
  using set_data_held [OF txsD(3) [OF x] i, where v = v] x dv lwfD(1) [OF txsD(1) [OF x]]
  by (auto simp: txs_def fun_eq_iff)

lemma tx_brelse:
  assumes x: "txs me H s" and i: "i \<in> H"
    and c: "b_dirty (bufs (lb s) i) \<or> b_data (bufs (lb s) i) = disk (lb s) (b_dev (bufs (lb s) i)) (b_blockno (bufs (lb s) i))"
  obtains b where "brelse me i (lb s) = Inr b" and "txs me (H - {i}) (s\<lparr>lb := b\<rparr>)" and "same_view (lb s) b" and "disk b = disk (lb s)"
    and "hist b = hist (lb s)" and "\<forall>j. j \<noteq> i \<longrightarrow> bufs b j = bufs (lb s) j"
proof -
  obtain b where b: "brelse me i (lb s) = Inr b" "hst me b (H - {i})" "same_view (lb s) b" "disk b = disk (lb s)" "hist b = hist (lb s)"
    "dirtyb b = dirtyb (lb s)" "\<And>j. j \<noteq> i \<Longrightarrow> bufs b j = bufs (lb s) j"
    by (rule brelse_held [OF txsD(3) [OF x] i conjI [OF refl refl] c]) blast
  moreover have "txs me (H - {i}) (s\<lparr>lb := b\<rparr>)" using x b(2,4,6) by (simp add: txs_def)
  ultimately show thesis using that by blast
qed

end
