(* ===== verification/LogProps.thy ===== *)
theory LogProps
  imports Log
begin

text \<open>
  Properties of the log: a crash at any disk write of a commit, followed by a reboot with
  \<open>initlog\<close>, leaves the state before or after the transaction; the space that \<open>begin_op\<close> reserves is
  one block short of what \<open>log_write\<close> accepts.
\<close>

section \<open>Boot\<close>

text \<open>A machine that starts with the disk contents \<open>d\<close>: zeroed memory and \<open>binit\<close>.\<close>

definition rebooted :: "disk \<Rightarrow> lst \<Rightarrow> bool" where
  "rebooted d s \<longleftrightarrow> (\<exists>b. lb s = binit b \<and> (\<forall>i. bufs b i = zero_buf) \<and> havedisk1 b \<and> disk b = d) \<and>
     length (lh_block (lg s)) = LOGSIZE"

lemma initlog_ok:
  assumes h: "hst me (lb s) {}" and dirty: "dirtyb (lb s) = {}" and len: "length (lh_block (lg s)) = LOGSIZE"
    and st: "sb_logstart (decode_sb (disk (lb s) (l_dev l) 1)) = l_start l" and sz: "sint (sb_nlog (decode_sb (disk (lb s) (l_dev l) 1))) = l_size l"
    and g: "log_geom l" and ok: "hdr_ok l (disk (lb s) (l_dev l))"
  shows "succeeds (initlog me (l_dev l) s) (\<lambda>t. tx_ready me t \<and> lh_n (lg t) = 0 \<and> lstart (lg t) = lstart l \<and> l_size (lg t) = l_size l \<and> l_dev (lg t) = l_dev l \<and>
     (\<forall>c. c \<notin> log_area l \<longrightarrow> disk (lb t) (l_dev l) c = recovered (lstart l) (disk (lb s) (l_dev l)) c))"
proof -
  let ?dv = "l_dev l" and ?b = "lb s"
  have dv: "?dv \<noteq> 0" using g by (simp add: log_geom_def)
  have one: "1 < FSSIZE" by (simp add: FSSIZE_def)
  have "card (dirtyb ?b) < NBUF" "\<forall>(a, b) \<in> dirtyb ?b. a \<noteq> 0" by (simp_all add: dirty NBUF_def MAXOPBLOCKS_def)
  then obtain i u t where 1: "bread me ?dv 1 ?b = Inr (i, u)" "b_data (bufs u i) = view ?b ?dv 1" "brelse me i u = Inr t"
    "hst me t {}" "disk t = disk ?b" "hist t = hist ?b" "dirtyb t = dirtyb ?b"
    using read_release [OF h dv one, of thesis] by blast
  have v: "view ?b ?dv 1 = disk ?b ?dv 1" using view_clean [OF h _ dv] dirty by simp
  let ?l = "(lg s)\<lparr>l_start := l_start l, l_size := l_size l, l_dev := ?dv\<rparr>"
  let ?s = "s\<lparr>lb := t, lg := ?l\<rparr>"
  have e: "initlog me ?dv s = recover_from_log me ?s"
    using 1(1-3) st sz v by (simp add: initlog_def readsb_def LOGHEADER_SIZE_def LOGSIZE_def BSIZE_def MAXOPBLOCKS_def Let_def)
  have area: "log_area ?l = log_area l" by (simp add: log_area_def)
  have "log_geom (lg ?s)" using g len by (simp add: log_geom_def)
  moreover have "hdr_ok (lg ?s) (disk (lb ?s) (l_dev (lg ?s)))" using ok by (simp add: hdr_ok_def area 1(5))
  ultimately have "succeeds (recover_from_log me ?s) (\<lambda>t. tx_ready me t \<and> lh_n (lg t) = 0 \<and> lstart (lg t) = lstart l \<and> l_size (lg t) = l_size l \<and> l_dev (lg t) = ?dv \<and>
     (\<forall>c. c \<notin> log_area l \<longrightarrow> disk (lb t) ?dv c = recovered (lstart l) (disk ?b ?dv) c))"
    using recover_ok [of ?s me] 1(4,5,7) dirty by (simp add: area) (erule succeeds_mono, simp)
  then show ?thesis by (simp only: e)
qed

lemma initlog_counts: "initlog me dv s = Inr t \<Longrightarrow> outstanding (lg t) = outstanding (lg s) \<and> committing (lg t) = committing (lg s)"
  by (auto simp: initlog_def recover_from_log_def read_head_def install_trans_def write_head_def on_b_def clear_n_def bindE_def Let_def
      split: sum.splits if_splits prod.splits)

section \<open>Atomic commit\<close>

text \<open>C2. A commit of the log is atomic under crashes. From a state in which no buffer is in use, the dirty
  buffers are the logged blocks and the log on disk is empty, \<open>commit\<close> ends without panic, every block outside
  the log then has on disk the content it had in the cache, and for every disk state between two writes a
  reboot with \<open>binit\<close> and \<open>initlog\<close> ends without panic with either the old contents of all blocks or the
  new contents of all blocks.\<close>

theorem log_commit_crash_atomic:
  assumes ready: "tx_ready me s" and sb: "1 \<notin> log_area (lg s)" "1 \<notin> homes (lg s)"
    "sb_logstart (decode_sb (disk (lb s) (l_dev (lg s)) 1)) = l_start (lg s)"
    "sint (sb_nlog (decode_sb (disk (lb s) (l_dev (lg s)) 1))) = l_size (lg s)"
  shows "succeeds (commit me s) (\<lambda>t.
     (\<forall>c. c \<notin> log_area (lg s) \<longrightarrow> disk (lb t) (l_dev (lg s)) c = view (lb s) (l_dev (lg s)) c) \<and>
     (\<exists>hs. hist (lb t) = hist (lb s) @ hs \<and>
       (\<forall>d \<in> set hs. \<forall>me' r. rebooted d r \<longrightarrow> succeeds (initlog me' (l_dev (lg s)) r) (\<lambda>u.
          (\<forall>c. c \<notin> log_area (lg s) \<longrightarrow> disk (lb u) (l_dev (lg s)) c = disk (lb s) (l_dev (lg s)) c) \<or>
          (\<forall>c. c \<notin> log_area (lg s) \<longrightarrow> disk (lb u) (l_dev (lg s)) c = view (lb s) (l_dev (lg s)) c)))))"
proof (rule succeeds_mono [OF commit_ok [OF ready]], elim conjE exE, intro conjI, assumption)
  fix t hs
  assume hist: "hist (lb t) = hist (lb s) @ hs"
    and hs: "\<forall>d \<in> set hs. (\<forall>c. c \<notin> log_area (lg s) \<longrightarrow> c \<notin> homes (lg s) \<longrightarrow> d (l_dev (lg s)) c = disk (lb s) (l_dev (lg s)) c) \<and>
        (crash_state (lg s) (disk (lb s) (l_dev (lg s))) (d (l_dev (lg s))) \<or>
         crash_state (lg s) (view (lb s) (l_dev (lg s))) (d (l_dev (lg s))))"
  have g: "log_geom (lg s)" using ready by (auto simp: txs_def lwf_def log_geom_def)
  have "succeeds (initlog me' (l_dev (lg s)) r) (\<lambda>u.
          (\<forall>c. c \<notin> log_area (lg s) \<longrightarrow> disk (lb u) (l_dev (lg s)) c = disk (lb s) (l_dev (lg s)) c) \<or>
          (\<forall>c. c \<notin> log_area (lg s) \<longrightarrow> disk (lb u) (l_dev (lg s)) c = view (lb s) (l_dev (lg s)) c))"
    if d: "d \<in> set hs" and r: "rebooted d r" for d me' r
  proof -
    obtain b where b: "lb r = binit b" "\<forall>i. bufs b i = zero_buf" "havedisk1 b" "disk b = d" "length (lh_block (lg r)) = LOGSIZE"
      using r by (auto simp: rebooted_def)
    note i = binit_ok [OF b(2,3), folded b(1)]
    have one: "d (l_dev (lg s)) 1 = disk (lb s) (l_dev (lg s)) 1" using hs d sb(1,2) by blast
    have cs: "crash_state (lg s) (disk (lb s) (l_dev (lg s))) (d (l_dev (lg s))) \<or>
         crash_state (lg s) (view (lb s) (l_dev (lg s))) (d (l_dev (lg s)))" using hs d by blast
    then have "hdr_ok (lg s) (disk (lb r) (l_dev (lg s)))" by (auto simp: crash_state_def i(3) b(4))
    from initlog_ok [OF i(1) i(5) b(5) _ _ g this] have
      "succeeds (initlog me' (l_dev (lg s)) r) (\<lambda>t. tx_ready me' t \<and> lh_n (lg t) = 0 \<and> lstart (lg t) = lstart (lg s) \<and> l_size (lg t) = l_size (lg s) \<and>
         l_dev (lg t) = l_dev (lg s) \<and> (\<forall>c. c \<notin> log_area (lg s) \<longrightarrow> disk (lb t) (l_dev (lg s)) c = recovered (lstart (lg s)) (d (l_dev (lg s))) c))"
      using sb(3,4) one by (simp add: i(3) b(4))
    then show ?thesis
      by (rule succeeds_mono) (use cs in \<open>auto simp: crash_state_def\<close>)
  qed
  with hist show "\<exists>hs. hist (lb t) = hist (lb s) @ hs \<and>
       (\<forall>d \<in> set hs. \<forall>me' r. rebooted d r \<longrightarrow> succeeds (initlog me' (l_dev (lg s)) r) (\<lambda>u.
          (\<forall>c. c \<notin> log_area (lg s) \<longrightarrow> disk (lb u) (l_dev (lg s)) c = disk (lb s) (l_dev (lg s)) c) \<or>
          (\<forall>c. c \<notin> log_area (lg s) \<longrightarrow> disk (lb u) (l_dev (lg s)) c = view (lb s) (l_dev (lg s)) c)))"
    by blast
qed

text \<open>A disk with a super block, and one block of a transaction in the cache.\<close>

definition demo_disk :: disk where
  "demo_disk dv b = (if b = 1 then put32 16 2 (put32 12 30 (replicate BSIZE 0)) else replicate BSIZE 0)"

definition demo_boot :: bst where
  "demo_boot = binit \<lparr>bufs = \<lambda>_. zero_buf, bnext = \<lambda>_. BHead, bprev = \<lambda>_. BHead, disk = demo_disk, hist = [], havedisk1 = True\<rparr>"

definition demo_log :: log where
  "demo_log = \<lparr>l_start = 2, l_size = 30, outstanding = 1, committing = False, l_dev = 1, lh_n = 0, lh_block = replicate LOGSIZE 0\<rparr>"

definition demo_tx :: lst where
  "demo_tx = \<lparr>lb = upd_b 0 (\<lambda>_. zero_buf\<lparr>b_valid := True, b_dirty := True, b_dev := 1, b_blockno := 100, b_data := replicate BSIZE 7\<rparr>) demo_boot,
     lg = demo_log\<lparr>lh_n := 1, lh_block := (replicate LOGSIZE 0)[0 := 100]\<rparr>\<rparr>"

lemma demo_boot_ok:
  "hst me demo_boot {}" "disk demo_boot = demo_disk" "dirtyb demo_boot = {}" "bufs demo_boot i = zero_buf" "havedisk1 demo_boot" "hist demo_boot = []"
  unfolding demo_boot_def by (simp_all add: binit_ok)

lemma demo_tx_ready: "tx_ready me demo_tx"
proof -
  let ?f = "\<lambda>_. zero_buf\<lparr>b_valid := True, b_dirty := True, b_dev := 1, b_blockno := 100, b_data := replicate BSIZE 7\<rparr>"
  have N: "0 < NBUF" by (simp add: NBUF_def MAXOPBLOCKS_def)
  have "binv (upd_b 0 ?f demo_boot)"
    by (rule binv_upd_b [OF hstD(1) [OF demo_boot_ok(1) [of me]] N]) (simp_all add: demo_boot_ok(4) zero_buf_def initsleeplock_def)
  then have h: "hst me (upd_b 0 ?f demo_boot) {}"
    by (simp add: hst_def demo_boot_ok(4,5) zero_buf_def)
  have "{i. i < NBUF \<and> b_dirty (bufs (upd_b 0 ?f demo_boot) i)} = {0}" using N by (auto simp: demo_boot_ok(4) zero_buf_def)
  then have "dirtyb (upd_b 0 ?f demo_boot) = {(1, 100)}" unfolding dirtyb_def by simp
  then show ?thesis
    using h by (simp add: txs_def demo_tx_def demo_log_def lwf_def home_def homes_def log_area_def demo_boot_ok(2) demo_disk_def
        LOGSIZE_def MAXOPBLOCKS_def FSSIZE_def BSIZE_def get32_def lessThan_Suc)
qed

theorem log_commit_crash_atomic_witness:
  "succeeds (commit 1 demo_tx) (\<lambda>t.
     (\<forall>c. c \<notin> log_area (lg demo_tx) \<longrightarrow> disk (lb t) (l_dev (lg demo_tx)) c = view (lb demo_tx) (l_dev (lg demo_tx)) c) \<and>
     (\<exists>hs. hist (lb t) = hist (lb demo_tx) @ hs \<and>
       (\<forall>d \<in> set hs. \<forall>me' r. rebooted d r \<longrightarrow> succeeds (initlog me' (l_dev (lg demo_tx)) r) (\<lambda>u.
          (\<forall>c. c \<notin> log_area (lg demo_tx) \<longrightarrow> disk (lb u) (l_dev (lg demo_tx)) c = disk (lb demo_tx) (l_dev (lg demo_tx)) c) \<or>
          (\<forall>c. c \<notin> log_area (lg demo_tx) \<longrightarrow> disk (lb u) (l_dev (lg demo_tx)) c = view (lb demo_tx) (l_dev (lg demo_tx)) c)))))"
proof (rule log_commit_crash_atomic)
  show "tx_ready 1 demo_tx" by (rule demo_tx_ready)
  show "1 \<notin> log_area (lg demo_tx)" "1 \<notin> homes (lg demo_tx)"
    by (simp_all add: demo_tx_def demo_log_def log_area_def homes_def home_def lessThan_Suc LOGSIZE_def MAXOPBLOCKS_def)
  show "sb_logstart (decode_sb (disk (lb demo_tx) (l_dev (lg demo_tx)) 1)) = l_start (lg demo_tx)"
    by (simp add: demo_tx_def demo_log_def demo_boot_ok(2) demo_disk_def decode_sb_def BSIZE_def)
  show "sint (sb_nlog (decode_sb (disk (lb demo_tx) (l_dev (lg demo_tx)) 1))) = l_size (lg demo_tx)"
    by (simp add: demo_tx_def demo_log_def demo_boot_ok(2) demo_disk_def decode_sb_def BSIZE_def)
qed

section \<open>Reservation\<close>

definition three_ops :: "lst \<Rightarrow> kerr + lst" where
  "three_ops s = bindE (begin_op s) (\<lambda>s1. bindE (begin_op s1) begin_op)"

lemma log_write_many:
  assumes "\<forall>i < n. \<forall>j < n. b_blockno (bufs (lb s) i) = b_blockno (bufs (lb s) j) \<longrightarrow> i = j" and "\<forall>i < n. b_blockno (bufs (lb s) i) < FSSIZE"
    and "lh_n (lg s) = 0" and "length (lh_block (lg s)) = LOGSIZE" and "outstanding (lg s) \<ge> 1" and "l_size (lg s) = int LOGSIZE" and "n < LOGSIZE"
  shows "succeeds (foldE log_write [0..<n] s) (\<lambda>t. lh_n (lg t) = int n \<and> l_size (lg t) = l_size (lg s) \<and> outstanding (lg t) = outstanding (lg s) \<and>
     length (lh_block (lg t)) = LOGSIZE)"
proof -
  define I where "I k t \<longleftrightarrow> lh_n (lg t) = int k \<and> l_size (lg t) = l_size (lg s) \<and> outstanding (lg t) = outstanding (lg s) \<and>
     length (lh_block (lg t)) = LOGSIZE \<and> (\<forall>j < k. unat (lh_block (lg t) ! j) = b_blockno (bufs (lb s) j)) \<and>
     (\<forall>j. b_blockno (bufs (lb t) j) = b_blockno (bufs (lb s) j))" for k and t :: lst
  have "succeeds (foldE log_write [0..<n] s) (I n)"
  proof (rule foldE_upt)
    show "I 0 s" using assms by (simp add: I_def)
  next
    fix k t
    assume k: "k < n" and I: "I k t"
    let ?b = "b_blockno (bufs (lb s) k)" and ?xs = "take k (lh_block (lg t))"
    have len: "length ?xs = k" using I k assms(7) by (simp add: I_def)
    have "\<forall>w \<in> set ?xs. unat w \<noteq> ?b"
    proof
      fix w assume "w \<in> set ?xs"
      then obtain j where j: "j < k" "w = lh_block (lg t) ! j" using len by (auto simp: in_set_conv_nth)
      then have "unat w = b_blockno (bufs (lb s) j)" using I by (simp add: I_def)
      moreover have "b_blockno (bufs (lb s) j) \<noteq> ?b" using assms(1) [rule_format, of j k] j(1) k by auto
      ultimately show "unat w \<noteq> ?b" by simp
    qed
    then have "takeWhile (\<lambda>w. unat w \<noteq> ?b) ?xs = ?xs" by (simp add: takeWhile_eq_all_conv)
    then have tw: "length (takeWhile (\<lambda>w. unat w \<noteq> ?b) ?xs) = k" using len by (simp only:)
    have "unat (of_nat ?b :: u32) = ?b" using unat_of_nat32 [of ?b] assms(2) [rule_format, OF k] by (simp add: FSSIZE_def)
    moreover have nk: "nat (lh_n (lg t)) = k" using I by (simp add: I_def)
    ultimately show "succeeds (log_write k t) (I (Suc k))"
      using I k assms(5-7) tw len
      by (auto simp: log_write_eq note_block_def Let_def I_def less_Suc_eq)
  qed
  then show ?thesis by (rule succeeds_mono) (simp add: I_def)
qed

text \<open>C40. The space that \<open>begin_op\<close> reserves does not fit the log. Three operations may be active at once on an
  empty log of \<open>LOGSIZE\<close> blocks, each with room for \<open>MAXOPBLOCKS\<close> updates, but when they log 30 distinct blocks
  the last \<open>log_write\<close> panics: one block of the log is the header, and \<open>begin_op\<close> does not count it.\<close>

theorem log_reservation_overrun:
  assumes "lh_n (lg s) = 0" and "outstanding (lg s) = 0" and "\<not> committing (lg s)" and "l_size (lg s) = int LOGSIZE" and "length (lh_block (lg s)) = LOGSIZE"
    and "\<forall>i < LOGSIZE. \<forall>j < LOGSIZE. b_blockno (bufs (lb s) i) = b_blockno (bufs (lb s) j) \<longrightarrow> i = j"
    and "\<forall>i < LOGSIZE. b_blockno (bufs (lb s) i) < FSSIZE"
  shows "succeeds (three_ops s) (\<lambda>t. outstanding (lg t) = 3 \<and> succeeds (foldE log_write [0..<LOGSIZE - 1] t) (\<lambda>_. True) \<and>
     foldE log_write [0..<3 * MAXOPBLOCKS] t = Inl (Panic ''too big a transaction''))"
proof -
  let ?t = "s\<lparr>lg := (lg s)\<lparr>outstanding := 3\<rparr>\<rparr>"
  have t: "three_ops s = Inr ?t" using assms(1-3) by (simp add: three_ops_def begin_op_def MAXOPBLOCKS_def LOGSIZE_def)
  have m: "succeeds (foldE log_write [0..<29] ?t) (\<lambda>u. lh_n (lg u) = 29 \<and> l_size (lg u) = l_size (lg ?t) \<and> outstanding (lg u) = outstanding (lg ?t) \<and>
     length (lh_block (lg u)) = LOGSIZE)"
    using log_write_many [of 29 ?t] assms by (simp add: LOGSIZE_def MAXOPBLOCKS_def)
  then obtain u where u: "foldE log_write [0..<29] ?t = Inr u" "lh_n (lg u) = 29" "l_size (lg u) = 30" using assms(4)
    by (auto simp: LOGSIZE_def MAXOPBLOCKS_def elim!: succeedsE)
  have "[0..<30 :: nat] = [0..<29] @ [29]" by (simp add: upt_rec)
  then have "foldE log_write [0..<30] ?t = Inl (Panic ''too big a transaction'')"
    using u by (simp add: foldE_append log_write_def)
  then show ?thesis using t m by (auto simp: LOGSIZE_def MAXOPBLOCKS_def intro: succeeds_mono)
qed

definition demo_full :: lst where
  "demo_full = \<lparr>lb = demo_boot\<lparr>bufs := \<lambda>i. zero_buf\<lparr>b_blockno := 100 + i\<rparr>\<rparr>, lg = demo_log\<lparr>outstanding := 0\<rparr>\<rparr>"

theorem log_reservation_overrun_witness:
  "succeeds (three_ops demo_full) (\<lambda>t. outstanding (lg t) = 3 \<and> succeeds (foldE log_write [0..<LOGSIZE - 1] t) (\<lambda>_. True) \<and>
     foldE log_write [0..<3 * MAXOPBLOCKS] t = Inl (Panic ''too big a transaction''))"
  by (rule log_reservation_overrun) (simp_all add: demo_full_def demo_log_def LOGSIZE_def MAXOPBLOCKS_def FSSIZE_def)

end
