(* ===== verification/Str.thy ===== *)
theory Str
  imports Bytes
begin

text \<open>
  \<^verbatim>\<open>string.c\<close>. Memory is a function from addresses to bytes; a pointer that is only read
  is the array it points to, indexed from zero. \<^verbatim>\<open>memmove\<close> and \<^verbatim>\<open>memset\<close> are the loops
  of the code, byte by byte or word by word, and are shown to be the simultaneous copy and the
  uniform fill whatever the overlap or the alignment.
\<close>

type_synonym mem = "nat \<Rightarrow> u8"

text \<open>The array at address \<open>p\<close>, and the array that holds a string and its terminating zeros.\<close>

definition arr_at :: "mem \<Rightarrow> nat \<Rightarrow> nat \<Rightarrow> u8" where
  "arr_at m p = (\<lambda>i. m (p + i))"

definition cstr :: "u8 list \<Rightarrow> nat \<Rightarrow> u8" where
  "cstr xs = (\<lambda>i. if i < length xs then xs ! i else 0)"

section \<open>Definitions\<close>

text \<open>The string instructions of \<^verbatim>\<open>x86.h\<close>.\<close>

fun stosb :: "nat \<Rightarrow> u8 \<Rightarrow> nat \<Rightarrow> mem \<Rightarrow> mem" where
  "stosb d c 0 m = m"
| "stosb d c (Suc n) m = stosb (d + 1) c n (m(d := c))"

fun stosl :: "nat \<Rightarrow> u32 \<Rightarrow> nat \<Rightarrow> mem \<Rightarrow> mem" where
  "stosl d w 0 m = m"
| "stosl d w (Suc n) m =
     stosl (d + 4) w n (m(d := byte_of 0 w, d + 1 := byte_of 1 w, d + 2 := byte_of 2 w, d + 3 := byte_of 3 w))"

definition memset :: "nat \<Rightarrow> u32 \<Rightarrow> nat \<Rightarrow> mem \<Rightarrow> mem" where
  "memset dst c n m =
    (if dst mod 4 = 0 \<and> n mod 4 = 0 then
       let b = c AND 0xFF
       in stosl dst (push_bit 24 b OR push_bit 16 b OR push_bit 8 b OR b) (n div 4) m
     else stosb dst (ucast c) n m)"

fun memcmp :: "(nat \<Rightarrow> u8) \<Rightarrow> (nat \<Rightarrow> u8) \<Rightarrow> nat \<Rightarrow> int" where
  "memcmp s1 s2 0 = 0"
| "memcmp s1 s2 (Suc n) =
     (if s1 0 \<noteq> s2 0 then uint (s1 0) - uint (s2 0) else memcmp (\<lambda>i. s1 (Suc i)) (\<lambda>i. s2 (Suc i)) n)"

fun copy_up :: "nat \<Rightarrow> nat \<Rightarrow> nat \<Rightarrow> mem \<Rightarrow> mem" where
  "copy_up d s 0 m = m"
| "copy_up d s (Suc n) m = copy_up (d + 1) (s + 1) n (m(d := m s))"

fun copy_down :: "nat \<Rightarrow> nat \<Rightarrow> nat \<Rightarrow> mem \<Rightarrow> mem" where
  "copy_down d s 0 m = m"
| "copy_down d s (Suc n) m = copy_down (d - 1) (s - 1) n (m(d - 1 := m (s - 1)))"

definition memmove :: "nat \<Rightarrow> nat \<Rightarrow> nat \<Rightarrow> mem \<Rightarrow> mem" where
  "memmove dst src n m =
    (if src < dst \<and> src + n > dst then copy_down (dst + n) (src + n) n m else copy_up dst src n m)"

fun strncmp :: "(nat \<Rightarrow> u8) \<Rightarrow> (nat \<Rightarrow> u8) \<Rightarrow> nat \<Rightarrow> int" where
  "strncmp p q 0 = 0"
| "strncmp p q (Suc n) =
     (if p 0 \<noteq> 0 \<and> p 0 = q 0 then strncmp (\<lambda>i. p (Suc i)) (\<lambda>i. q (Suc i)) n else uint (p 0) - uint (q 0))"

text \<open>The \<open>n\<close> bytes that \<^verbatim>\<open>strncpy\<close> and \<^verbatim>\<open>safestrcpy\<close> leave in the target, which does not
  overlap the source; \<open>old\<close> is what the target held.\<close>

fun strncpy :: "(nat \<Rightarrow> u8) \<Rightarrow> nat \<Rightarrow> u8 list" where
  "strncpy t 0 = []"
| "strncpy t (Suc n) = (if t 0 \<noteq> 0 then t 0 # strncpy (\<lambda>i. t (Suc i)) n else 0 # replicate n 0)"

fun safestrcpy :: "(nat \<Rightarrow> u8) \<Rightarrow> nat \<Rightarrow> u8 list \<Rightarrow> u8 list" where
  "safestrcpy t 0 old = old"
| "safestrcpy t (Suc 0) old = 0 # tl old"
| "safestrcpy t (Suc (Suc n)) old =
     (if t 0 \<noteq> 0 then t 0 # safestrcpy (\<lambda>i. t (Suc i)) (Suc n) (tl old) else 0 # 0 # tl (tl old))"

partial_function (option) strlen_from :: "(nat \<Rightarrow> u8) \<Rightarrow> nat \<Rightarrow> nat option" where
  "strlen_from s n = (if s n \<noteq> 0 then strlen_from s (n + 1) else Some n)"

definition strlen :: "(nat \<Rightarrow> u8) \<Rightarrow> nat option" where
  "strlen s = strlen_from s 0"

section \<open>Filling\<close>

lemma stosb_eq: "stosb d c n m a = (if d \<le> a \<and> a < d + n then c else m a)"
proof (induction n arbitrary: d m)
  case (Suc n)
  show ?case unfolding stosb.simps Suc.IH by auto
qed auto

lemma stosl_eq:
  assumes "\<And>k. k < 4 \<Longrightarrow> byte_of k w = c"
  shows "stosl d w n m a = (if d \<le> a \<and> a < d + 4 * n then c else m a)"
proof (induction n arbitrary: d m)
  case (Suc n)
  have b: "byte_of 0 w = c" "byte_of (Suc 0) w = c" "byte_of 2 w = c" "byte_of 3 w = c"
    using assms [of 0] assms [of 1] assms [of 2] assms [of 3] by simp_all
  consider "a < d" | "a = d" | "a = d + 1" | "a = d + 2" | "a = d + 3" | "d + 4 \<le> a" by linarith
  then show ?case unfolding stosl.simps Suc.IH by cases (simp_all add: b)
qed auto

lemma fill_bytes:
  fixes c :: u32
  defines "b \<equiv> c AND 0xFF"
  assumes "k < 4"
  shows "byte_of k (push_bit 24 b OR push_bit 16 b OR push_bit 8 b OR b) = ucast c"
proof -
  have b: "b = take_bit 8 c" by (simp add: b_def take_bit_eq_mask mask_eq_exp_minus_1)
  consider "k = 0" | "k = 1" | "k = 2" | "k = 3" using assms(2) by linarith
  then show ?thesis
  proof cases
    case 1
    show ?thesis unfolding b 1 by (rule bit_word_eqI) (auto simp: byte_of_def bit_simps)
  next
    case 2
    show ?thesis unfolding b 2 by (rule bit_word_eqI) (auto simp: byte_of_def bit_simps)
  next
    case 3
    show ?thesis unfolding b 3 by (rule bit_word_eqI) (auto simp: byte_of_def bit_simps)
  next
    case 4
    show ?thesis unfolding b 4 by (rule bit_word_eqI) (auto simp: byte_of_def bit_simps)
  qed
qed

section \<open>Copying\<close>

lemma copy_up_eq:
  "d \<le> s \<or> s + n \<le> d \<Longrightarrow> copy_up d s n m a = (if d \<le> a \<and> a < d + n then m (s + (a - d)) else m a)"
proof (induction n arbitrary: d s m)
  case (Suc n)
  have "copy_up d s (Suc n) m a = (if d + 1 \<le> a \<and> a < d + 1 + n then (m(d := m s)) (s + 1 + (a - (d + 1))) else (m(d := m s)) a)"
    unfolding copy_up.simps by (rule Suc.IH) (use Suc.prems in auto)
  also have "\<dots> = (if d \<le> a \<and> a < d + Suc n then m (s + (a - d)) else m a)"
    using Suc.prems by (auto simp: Suc_diff_Suc)
  finally show ?case .
qed auto

lemma copy_down_eq:
  "s < d \<Longrightarrow> n \<le> s \<Longrightarrow> copy_down d s n m a = (if d - n \<le> a \<and> a < d then m (a - (d - s)) else m a)"
proof (induction n arbitrary: d s m)
  case (Suc n)
  have "copy_down d s (Suc n) m a = (if d - 1 - n \<le> a \<and> a < d - 1 then (m(d - 1 := m (s - 1))) (a - (d - 1 - (s - 1))) else (m(d - 1 := m (s - 1))) a)"
    unfolding copy_down.simps by (rule Suc.IH) (use Suc.prems in auto)
  also have "\<dots> = (if d - Suc n \<le> a \<and> a < d then m (a - (d - s)) else m a)"
    using Suc.prems by auto
  finally show ?case .
qed auto

text \<open>The reference: all bytes are read before any is written.\<close>

lemma memmove_eq: "memmove dst src n m a = (if dst \<le> a \<and> a < dst + n then m (src + (a - dst)) else m a)"
proof (cases "src < dst \<and> src + n > dst")
  case True
  then show ?thesis by (auto simp: memmove_def copy_down_eq add.commute)
next
  case False
  then show ?thesis by (auto simp: memmove_def copy_up_eq)
qed

lemma memset_eq: "memset dst c n m a = (if dst \<le> a \<and> a < dst + n then ucast c else m a)"
proof (cases "dst mod 4 = 0 \<and> n mod 4 = 0")
  case True
  then have "4 * (n div 4) = n" by auto
  moreover have "memset dst c n m = stosl dst (push_bit 24 (c AND 0xFF) OR push_bit 16 (c AND 0xFF) OR push_bit 8 (c AND 0xFF) OR c AND 0xFF) (n div 4) m"
    unfolding memset_def Let_def by (rule if_P [OF True])
  ultimately show ?thesis using stosl_eq [OF fill_bytes [of _ c], where d = dst and n = "n div 4" and m = m and a = a] by presburger
next
  case False
  then have "memset dst c n m = stosb dst (ucast c) n m" unfolding memset_def by (rule if_not_P)
  then show ?thesis by (simp add: stosb_eq)
qed

section \<open>Strings\<close>

lemma strncmp_eq: "strncmp p q n = 0 \<longleftrightarrow> (\<forall>i < n. (\<forall>j < i. p j \<noteq> 0) \<longrightarrow> p i = q i)"
proof (induction n arbitrary: p q)
  case (Suc n)
  have "strncmp p q (Suc n) = 0 \<longleftrightarrow> p 0 = q 0 \<and> (p 0 \<noteq> 0 \<longrightarrow> strncmp (\<lambda>i. p (Suc i)) (\<lambda>i. q (Suc i)) n = 0)"
    by (auto simp: word_uint_eq_iff)
  also have "\<dots> \<longleftrightarrow> (\<forall>i < Suc n. (\<forall>j < i. p j \<noteq> 0) \<longrightarrow> p i = q i)"
    unfolding Suc.IH All_less_Suc2 by auto
  finally show ?case .
qed simp

lemma length_strncpy [simp]: "length (strncpy t n) = n"
  by (induction t n rule: strncpy.induct) auto

lemma nth_strncpy: "i < n \<Longrightarrow> strncpy t n ! i = (if \<exists>j \<le> i. t j = 0 then 0 else t i)"
proof (induction n arbitrary: t i)
  case (Suc n)
  show ?case
  proof (cases i)
    case (Suc k)
    have "(\<exists>j \<le> Suc k. t j = 0) \<longleftrightarrow> t 0 = 0 \<or> (\<exists>j \<le> k. t (Suc j) = 0)"
      by (metis Suc_le_mono le0 not0_implies_Suc)
    then show ?thesis using Suc Suc.IH [of k "\<lambda>i. t (Suc i)"] Suc.prems by auto
  qed simp
qed simp

lemma cstr_nz: "0 \<notin> set s \<Longrightarrow> cstr s j \<noteq> 0 \<longleftrightarrow> j < length s"
  by (auto simp: cstr_def) (metis nth_mem)

text \<open>Names of at most \<open>n\<close> bytes without zeros: comparing is equality, and a copied name compares equal.\<close>

lemma strncmp_names:
  assumes "0 \<notin> set s" and "0 \<notin> set t" and "length s \<le> n" and "length t \<le> n"
  shows "strncmp (cstr s) (cstr t) n = 0 \<longleftrightarrow> s = t"
proof
  assume "strncmp (cstr s) (cstr t) n = 0"
  then have e: "\<And>i. i < n \<Longrightarrow> (\<forall>j < i. cstr s j \<noteq> 0) \<Longrightarrow> cstr s i = cstr t i" by (simp add: strncmp_eq)
  have nz: "cstr s i \<noteq> 0 \<longleftrightarrow> i < length s" "cstr t i \<noteq> 0 \<longleftrightarrow> i < length t" for i
    by (simp_all add: cstr_nz assms(1,2))
  have pre: "cstr s i = cstr t i" if "i \<le> length s" "i < n" for i using e [OF that(2)] that(1) nz(1) by auto
  have "length s = length t"
  proof (rule linorder_cases)
    assume l: "length s < length t"
    then have "cstr s (length s) = cstr t (length s)" using pre assms(4) by simp
    then show ?thesis using nz [of "length s"] l by simp
  next
    assume l: "length t < length s"
    then have "cstr s (length t) = cstr t (length t)" using pre assms(3) by simp
    then show ?thesis using nz [of "length t"] l by simp
  qed simp
  then show "s = t"
  proof (rule nth_equalityI)
    fix i assume "i < length s"
    then show "s ! i = t ! i" using pre [of i] assms(3) \<open>length s = length t\<close> by (simp add: cstr_def)
  qed
qed (simp add: strncmp_eq)

lemma strncpy_name:
  assumes "0 \<notin> set s" and "length s \<le> n"
  shows "strncpy (cstr s) n = s @ replicate (n - length s) 0"
proof (rule nth_equalityI)
  fix i
  assume i: "i < length (strncpy (cstr s) n)"
  have nz: "cstr s j \<noteq> 0 \<longleftrightarrow> j < length s" for j
    by (simp add: cstr_nz assms(1))
  have "(\<exists>j \<le> i. cstr s j = 0) \<longleftrightarrow> \<not> i < length s" using nz by (metis dual_order.refl order_le_less_trans)
  then show "strncpy (cstr s) n ! i = (s @ replicate (n - length s) 0) ! i"
    using i assms(2) by (auto simp: nth_strncpy nth_append cstr_def)
qed (use assms in simp)

lemma strlen_cstr:
  assumes "0 \<notin> set s"
  shows "strlen (cstr s) = Some (length s)"
proof -
  have nz: "cstr s j \<noteq> 0 \<longleftrightarrow> j < length s" for j
    by (simp add: cstr_nz assms)
  have "strlen_from (cstr s) n = Some (length s)" if "n \<le> length s" for n
    using that
  proof (induction "length s - n" arbitrary: n)
    case 0
    then show ?case using nz [of n] by (simp add: strlen_from.simps)
  next
    case (Suc k)
    then show ?case using nz [of n] by (simp add: strlen_from.simps [of _ n])
  qed
  then show ?thesis by (simp add: strlen_def)
qed

section \<open>Property\<close>

text \<open>\<open>memmove\<close> copies as if through a second buffer, also when source and target overlap in either direction, and \<open>memset\<close> fills exactly the target
  with the low byte of its argument, also on the path that stores four bytes at a time; both leave every other byte of memory
  as it is.\<close>

lemma memmove_memset_reference:
  "memmove dst src n m = (\<lambda>a. if dst \<le> a \<and> a < dst + n then m (src + (a - dst)) else m a) \<and>
   memset dst c n m = (\<lambda>a. if dst \<le> a \<and> a < dst + n then ucast c else m a)"
  by (simp add: fun_eq_iff memmove_eq memset_eq)

end
