(* ===== verification/Fs.thy ===== *)
theory Fs
  imports Log Str
begin

text \<open>
  The file system (\<^verbatim>\<open>fs.c\<close>): the block allocator, the inode cache, the contents of inodes,
  directories and path names. It works on the state of the log and the buffer cache; every block is read with
  \<open>bread\<close> and every change goes through \<open>log_write\<close>, as in the code.

  \<open>me\<close> is the identifier of the running process, for the sleep locks. The device switch is the parameter \<open>D\<close>.
  Inode numbers and byte offsets are natural numbers; block addresses, sizes and the fields on disk keep their width.
\<close>

section \<open>State\<close>

definition NINODE :: nat where "NINODE = 50"
definition NDEV :: int where "NDEV = 10"
definition ROOTDEV :: nat where "ROOTDEV = 1"
definition ROOTINO :: nat where "ROOTINO = 1"
definition NDIRECT :: nat where "NDIRECT = 12"
definition NINDIRECT :: nat where "NINDIRECT = BSIZE div 4"
definition MAXFILE :: nat where "MAXFILE = NDIRECT + NINDIRECT"
definition BPB :: nat where "BPB = BSIZE * 8"
definition DINODE_SIZE :: nat where "DINODE_SIZE = 64"
definition IPB :: nat where "IPB = BSIZE div DINODE_SIZE"
definition DIRSIZ :: nat where "DIRSIZ = 14"
definition DIRENT_SIZE :: nat where "DIRENT_SIZE = 16"
definition T_DIR :: "16 word" where "T_DIR = 1"
definition T_FILE :: "16 word" where "T_FILE = 2"
definition T_DEV :: "16 word" where "T_DEV = 3"

text \<open>The fields that an inode has on disk.\<close>

record dinode =
  di_type :: "16 word"
  di_major :: "16 word"
  di_minor :: "16 word"
  di_nlink :: "16 word"
  di_size :: u32
  di_addrs :: "u32 list"

record inode =
  i_dev :: nat
  i_inum :: nat
  i_ref :: int
  i_lock :: sleeplock
  i_valid :: bool
  i_d :: dinode

record fst =
  fl :: lst
  fsb :: superblock
  icache :: "nat \<Rightarrow> inode"

record dirent =
  de_inum :: "16 word"
  de_name :: "u8 list"

record stat =
  st_type :: "16 word"
  st_dev :: nat
  st_ino :: nat
  st_nlink :: "16 word"
  st_size :: u32

record devsw =
  dv_read :: "int \<Rightarrow> (nat \<Rightarrow> u32 \<Rightarrow> fst \<Rightarrow> kerr + (int \<times> u8 list) \<times> fst) option"
  dv_write :: "int \<Rightarrow> (nat \<Rightarrow> u8 list \<Rightarrow> u32 \<Rightarrow> fst \<Rightarrow> kerr + int \<times> fst) option"

definition upd_i :: "nat \<Rightarrow> (inode \<Rightarrow> inode) \<Rightarrow> fst \<Rightarrow> fst" where
  "upd_i ip f s = s\<lparr>icache := (icache s)(ip := f (icache s ip))\<rparr>"

definition upd_d :: "nat \<Rightarrow> (dinode \<Rightarrow> dinode) \<Rightarrow> fst \<Rightarrow> fst" where
  "upd_d ip f = upd_i ip (\<lambda>x. x\<lparr>i_d := f (i_d x)\<rparr>)"

definition IBLOCK :: "nat \<Rightarrow> superblock \<Rightarrow> nat" where
  "IBLOCK i sb = i div IPB + unat (sb_inodestart sb)"

definition BBLOCK :: "nat \<Rightarrow> superblock \<Rightarrow> nat" where
  "BBLOCK b sb = b div BPB + unat (sb_bmapstart sb)"

section \<open>Blocks\<close>

text \<open>The two idioms of the code: read a block and give it back; read, change, log and give back.\<close>

definition rd_block :: "int \<Rightarrow> nat \<Rightarrow> nat \<Rightarrow> lst \<Rightarrow> kerr + block \<times> lst" where
  "rd_block me dv c s =
    bindE (bread me dv c (lb s)) (\<lambda>(i, b1).
      let d = b_data (bufs b1 i)
      in bindE (brelse me i b1) (\<lambda>b2. Inr (d, s\<lparr>lb := b2\<rparr>)))"

text \<open>\<^verbatim>\<open>log_write(bp); brelse(bp)\<close> on a buffer whose data the caller has changed.\<close>

definition wr_held :: "int \<Rightarrow> nat \<Rightarrow> block \<Rightarrow> lst \<Rightarrow> kerr + lst" where
  "wr_held me i v s =
    bindE (log_write i (s\<lparr>lb := set_data i v (lb s)\<rparr>)) (\<lambda>s1.
    bindE (brelse me i (lb s1)) (\<lambda>b.
    Inr (s1\<lparr>lb := b\<rparr>)))"

definition wr_block :: "int \<Rightarrow> nat \<Rightarrow> nat \<Rightarrow> (block \<Rightarrow> block) \<Rightarrow> lst \<Rightarrow> kerr + lst" where
  "wr_block me dv c f s =
    bindE (bread me dv c (lb s)) (\<lambda>(i, b1).
      wr_held me i (f (b_data (bufs b1 i))) (s\<lparr>lb := b1\<rparr>))"

definition bzero :: "int \<Rightarrow> nat \<Rightarrow> nat \<Rightarrow> lst \<Rightarrow> kerr + lst" where
  "bzero me dv bno s = wr_block me dv bno (\<lambda>_. replicate BSIZE 0) s"

text \<open>The bitmap: block \<open>bi\<close> of a bitmap block is in use.\<close>

definition bit_used :: "block \<Rightarrow> nat \<Rightarrow> bool" where
  "bit_used d bi \<longleftrightarrow> d ! (bi div 8) AND push_bit (bi mod 8) 1 \<noteq> 0"

definition set_used :: "nat \<Rightarrow> block \<Rightarrow> block" where
  "set_used bi d = d[bi div 8 := d ! (bi div 8) OR push_bit (bi mod 8) 1]"

definition clear_used :: "nat \<Rightarrow> block \<Rightarrow> block" where
  "clear_used bi d = d[bi div 8 := d ! (bi div 8) AND NOT (push_bit (bi mod 8) 1)]"

fun balloc_from :: "int \<Rightarrow> nat \<Rightarrow> superblock \<Rightarrow> nat list \<Rightarrow> lst \<Rightarrow> kerr + nat \<times> lst" where
  "balloc_from me dv sb [] s = Inl (Panic ''balloc: out of blocks'')"
| "balloc_from me dv sb (b # bs) s =
    bindE (bread me dv (BBLOCK b sb) (lb s)) (\<lambda>(i, b1).
      let d = b_data (bufs b1 i) in
      case find (\<lambda>bi. b + bi < unat (sb_size sb) \<and> \<not> bit_used d bi) [0..<BPB] of
        Some bi \<Rightarrow>
          bindE (wr_held me i (set_used bi d) (s\<lparr>lb := b1\<rparr>)) (\<lambda>s1.
          bindE (bzero me dv (b + bi) s1) (\<lambda>s2.
          Inr (b + bi, s2)))
      | None \<Rightarrow>
          bindE (brelse me i b1) (\<lambda>b2. balloc_from me dv sb bs (s\<lparr>lb := b2\<rparr>)))"

definition balloc :: "int \<Rightarrow> nat \<Rightarrow> superblock \<Rightarrow> lst \<Rightarrow> kerr + nat \<times> lst" where
  "balloc me dv sb s =
    balloc_from me dv sb (map (\<lambda>k. k * BPB) [0..<(unat (sb_size sb) + BPB - 1) div BPB]) s"

definition bfree :: "int \<Rightarrow> nat \<Rightarrow> superblock \<Rightarrow> nat \<Rightarrow> lst \<Rightarrow> kerr + lst" where
  "bfree me dv sb b s =
    bindE (bread me dv (BBLOCK b sb) (lb s)) (\<lambda>(i, b1).
      let d = b_data (bufs b1 i); bi = b mod BPB in
      if \<not> bit_used d bi then Inl (Panic ''freeing free block'')
      else wr_held me i (clear_used bi d) (s\<lparr>lb := b1\<rparr>))"

section \<open>Inodes\<close>

definition on_l :: "(lst \<Rightarrow> kerr + lst) \<Rightarrow> fst \<Rightarrow> kerr + fst" where
  "on_l f s = bindE (f (fl s)) (\<lambda>l. Inr (s\<lparr>fl := l\<rparr>))"

definition get_dinode :: "block \<Rightarrow> nat \<Rightarrow> dinode" where
  "get_dinode d p = \<lparr>di_type = get16 d p, di_major = get16 d (p + 2), di_minor = get16 d (p + 4), di_nlink = get16 d (p + 6),
     di_size = get32 d (p + 8), di_addrs = map (\<lambda>k. get32 d (p + 12 + 4 * k)) [0..<NDIRECT + 1]\<rparr>"

definition put_dinode :: "nat \<Rightarrow> dinode \<Rightarrow> block \<Rightarrow> block" where
  "put_dinode p x d =
    fold (\<lambda>k. put32 (p + 12 + 4 * k) (di_addrs x ! k)) [0..<NDIRECT + 1]
      (put32 (p + 8) (di_size x) (put16 (p + 6) (di_nlink x) (put16 (p + 4) (di_minor x)
        (put16 (p + 2) (di_major x) (put16 p (di_type x) d)))))"

definition dpos :: "nat \<Rightarrow> nat" where
  "dpos inum = (inum mod IPB) * DINODE_SIZE"

definition iinit :: "int \<Rightarrow> nat \<Rightarrow> fst \<Rightarrow> kerr + fst" where
  "iinit me dv s =
    (let s1 = s\<lparr>icache := (\<lambda>i. if i < NINODE then (icache s i)\<lparr>i_lock := initsleeplock\<rparr> else icache s i)\<rparr>
     in bindE (readsb me dv (lb (fl s1))) (\<lambda>(sb, b). Inr (s1\<lparr>fsb := sb, fl := (fl s1)\<lparr>lb := b\<rparr>\<rparr>)))"

definition iget :: "nat \<Rightarrow> nat \<Rightarrow> fst \<Rightarrow> kerr + nat \<times> fst" where
  "iget dv inum s =
    (case find (\<lambda>i. i_ref (icache s i) > 0 \<and> i_dev (icache s i) = dv \<and> i_inum (icache s i) = inum) [0..<NINODE] of
       Some i \<Rightarrow> Inr (i, upd_i i (\<lambda>x. x\<lparr>i_ref := i_ref x + 1\<rparr>) s)
     | None \<Rightarrow>
         case find (\<lambda>i. i_ref (icache s i) = 0) [0..<NINODE] of
           None \<Rightarrow> Inl (Panic ''iget: no inodes'')
         | Some i \<Rightarrow> Inr (i, upd_i i (\<lambda>x. x\<lparr>i_dev := dv, i_inum := inum, i_ref := 1, i_valid := False\<rparr>) s))"

definition zero_dinode :: dinode where
  "zero_dinode = \<lparr>di_type = 0, di_major = 0, di_minor = 0, di_nlink = 0, di_size = 0, di_addrs = replicate (NDIRECT + 1) 0\<rparr>"

fun ialloc_from :: "int \<Rightarrow> nat \<Rightarrow> 16 word \<Rightarrow> nat list \<Rightarrow> fst \<Rightarrow> kerr + nat \<times> fst" where
  "ialloc_from me dv ty [] s = Inl (Panic ''ialloc: no inodes'')"
| "ialloc_from me dv ty (inum # inums) s =
    bindE (bread me dv (IBLOCK inum (fsb s)) (lb (fl s))) (\<lambda>(i, b1).
      let d = b_data (bufs b1 i) in
      if get16 d (dpos inum) = 0 then
        bindE (wr_held me i (put_dinode (dpos inum) (zero_dinode\<lparr>di_type := ty\<rparr>) d) ((fl s)\<lparr>lb := b1\<rparr>)) (\<lambda>l.
          iget dv inum (s\<lparr>fl := l\<rparr>))
      else bindE (brelse me i b1) (\<lambda>b2. ialloc_from me dv ty inums (s\<lparr>fl := (fl s)\<lparr>lb := b2\<rparr>\<rparr>)))"

definition ialloc :: "int \<Rightarrow> nat \<Rightarrow> 16 word \<Rightarrow> fst \<Rightarrow> kerr + nat \<times> fst" where
  "ialloc me dv ty s = ialloc_from me dv ty [1..<unat (sb_ninodes (fsb s))] s"

definition iupdate :: "int \<Rightarrow> nat \<Rightarrow> fst \<Rightarrow> kerr + fst" where
  "iupdate me ip s =
    (let x = icache s ip in
     on_l (wr_block me (i_dev x) (IBLOCK (i_inum x) (fsb s)) (put_dinode (dpos (i_inum x)) (i_d x))) s)"

definition idup :: "nat \<Rightarrow> fst \<Rightarrow> fst" where
  "idup ip s = upd_i ip (\<lambda>x. x\<lparr>i_ref := i_ref x + 1\<rparr>) s"

definition ilock :: "int \<Rightarrow> ptr \<Rightarrow> fst \<Rightarrow> kerr + fst" where
  "ilock me p s =
    (case p of None \<Rightarrow> Inl (Panic ''ilock'')
     | Some ip \<Rightarrow>
       if i_ref (icache s ip) < 1 then Inl (Panic ''ilock'')
       else bindE (acquiresleep me (i_lock (icache s ip))) (\<lambda>lk.
         let s1 = upd_i ip (\<lambda>x. x\<lparr>i_lock := lk\<rparr>) s; x = icache s1 ip in
         if \<not> i_valid x then
           bindE (rd_block me (i_dev x) (IBLOCK (i_inum x) (fsb s1)) (fl s1)) (\<lambda>(d, l).
             let s2 = upd_i ip (\<lambda>x. x\<lparr>i_d := get_dinode d (dpos (i_inum x)), i_valid := True\<rparr>) (s1\<lparr>fl := l\<rparr>)
             in if di_type (i_d (icache s2 ip)) = 0 then Inl (Panic ''ilock: no type'') else Inr s2)
         else Inr s1))"

definition iunlock :: "int \<Rightarrow> ptr \<Rightarrow> fst \<Rightarrow> kerr + fst" where
  "iunlock me p s =
    (case p of None \<Rightarrow> Inl (Panic ''iunlock'')
     | Some ip \<Rightarrow>
       if \<not> holdingsleep me (i_lock (icache s ip)) \<or> i_ref (icache s ip) < 1 then Inl (Panic ''iunlock'')
       else Inr (upd_i ip (\<lambda>x. x\<lparr>i_lock := releasesleep (i_lock x)\<rparr>) s))"

section \<open>Contents of an inode\<close>

definition set_addr :: "nat \<Rightarrow> nat \<Rightarrow> u32 \<Rightarrow> fst \<Rightarrow> fst" where
  "set_addr ip k v = upd_d ip (\<lambda>d. d\<lparr>di_addrs := (di_addrs d)[k := v]\<rparr>)"

definition balloc_fs :: "int \<Rightarrow> nat \<Rightarrow> fst \<Rightarrow> kerr + u32 \<times> fst" where
  "balloc_fs me dv s = bindE (balloc me dv (fsb s) (fl s)) (\<lambda>(a, l). Inr (of_nat a, s\<lparr>fl := l\<rparr>))"

text \<open>The slot \<open>k\<close> of \<open>addrs\<close>, filled on demand.\<close>

definition slot_addr :: "int \<Rightarrow> nat \<Rightarrow> nat \<Rightarrow> fst \<Rightarrow> kerr + u32 \<times> fst" where
  "slot_addr me ip k s =
    (let addr = di_addrs (i_d (icache s ip)) ! k in
     if addr = 0 then
       bindE (balloc_fs me (i_dev (icache s ip)) s) (\<lambda>(a, s1). Inr (a, set_addr ip k a s1))
     else Inr (addr, s))"

definition bmap :: "int \<Rightarrow> nat \<Rightarrow> nat \<Rightarrow> fst \<Rightarrow> kerr + u32 \<times> fst" where
  "bmap me ip bn s =
    (if bn < NDIRECT then slot_addr me ip bn s
     else
       let bn = bn - NDIRECT in
       if bn < NINDIRECT then
         bindE (slot_addr me ip NDIRECT s) (\<lambda>(ind, s1).
         bindE (bread me (i_dev (icache s1 ip)) (unat ind) (lb (fl s1))) (\<lambda>(i, b1).
           let s2 = s1\<lparr>fl := (fl s1)\<lparr>lb := b1\<rparr>\<rparr>; addr = get32 (b_data (bufs b1 i)) (4 * bn) in
           if addr = 0 then
             bindE (balloc_fs me (i_dev (icache s2 ip)) s2) (\<lambda>(a, s3).
             bindE (wr_held me i (put32 (4 * bn) a (b_data (bufs (lb (fl s3)) i))) (fl s3)) (\<lambda>l.
             Inr (a, s3\<lparr>fl := l\<rparr>)))
           else bindE (brelse me i (lb (fl s2))) (\<lambda>b2. Inr (addr, s2\<lparr>fl := (fl s2)\<lparr>lb := b2\<rparr>\<rparr>))))
       else Inl (Panic ''bmap: out of range''))"

definition itrunc_direct :: "int \<Rightarrow> nat \<Rightarrow> nat \<Rightarrow> fst \<Rightarrow> kerr + fst" where
  "itrunc_direct me ip k s =
    (let x = icache s ip; a = di_addrs (i_d x) ! k in
     if a \<noteq> 0 then bindE (on_l (bfree me (i_dev x) (fsb s) (unat a)) s) (\<lambda>s1. Inr (set_addr ip k 0 s1))
     else Inr s)"

definition itrunc_indirect :: "int \<Rightarrow> nat \<Rightarrow> nat \<Rightarrow> nat \<Rightarrow> fst \<Rightarrow> kerr + fst" where
  "itrunc_indirect me ip i j s =
    (let a = get32 (b_data (bufs (lb (fl s)) i)) (4 * j) in
     if a \<noteq> 0 then on_l (bfree me (i_dev (icache s ip)) (fsb s) (unat a)) s else Inr s)"

definition itrunc :: "int \<Rightarrow> nat \<Rightarrow> fst \<Rightarrow> kerr + fst" where
  "itrunc me ip s =
    bindE (foldE (itrunc_direct me ip) [0..<NDIRECT] s) (\<lambda>s1.
    bindE (let x = icache s1 ip; ind = di_addrs (i_d x) ! NDIRECT in
       if ind \<noteq> 0 then
         bindE (bread me (i_dev x) (unat ind) (lb (fl s1))) (\<lambda>(i, b1).
         bindE (foldE (itrunc_indirect me ip i) [0..<NINDIRECT] (s1\<lparr>fl := (fl s1)\<lparr>lb := b1\<rparr>\<rparr>)) (\<lambda>s2.
         bindE (brelse me i (lb (fl s2))) (\<lambda>b2.
         bindE (on_l (bfree me (i_dev x) (fsb s2) (unat ind)) (s2\<lparr>fl := (fl s2)\<lparr>lb := b2\<rparr>\<rparr>)) (\<lambda>s3.
         Inr (set_addr ip NDIRECT 0 s3)))))
       else Inr s1) (\<lambda>s4.
    iupdate me ip (upd_d ip (\<lambda>d. d\<lparr>di_size := 0\<rparr>) s4)))"

definition iput :: "int \<Rightarrow> nat \<Rightarrow> fst \<Rightarrow> kerr + fst" where
  "iput me ip s =
    bindE (acquiresleep me (i_lock (icache s ip))) (\<lambda>lk.
      let s1 = upd_i ip (\<lambda>x. x\<lparr>i_lock := lk\<rparr>) s; x = icache s1 ip in
      bindE (if i_valid x \<and> di_nlink (i_d x) = 0 \<and> i_ref x = 1 then
               bindE (itrunc me ip s1) (\<lambda>s2.
               bindE (iupdate me ip (upd_d ip (\<lambda>d. d\<lparr>di_type := 0\<rparr>) s2)) (\<lambda>s3.
               Inr (upd_i ip (\<lambda>x. x\<lparr>i_valid := False\<rparr>) s3)))
             else Inr s1) (\<lambda>s4.
      Inr (upd_i ip (\<lambda>x. x\<lparr>i_lock := releasesleep (i_lock x), i_ref := i_ref x - 1\<rparr>) s4)))"

definition iunlockput :: "int \<Rightarrow> nat \<Rightarrow> fst \<Rightarrow> kerr + fst" where
  "iunlockput me ip s = bindE (iunlock me (Some ip) s) (iput me ip)"

definition stati :: "nat \<Rightarrow> fst \<Rightarrow> stat" where
  "stati ip s =
    (let x = icache s ip in
     \<lparr>st_type = di_type (i_d x), st_dev = i_dev x, st_ino = i_inum x, st_nlink = di_nlink (i_d x), st_size = di_size (i_d x)\<rparr>)"

function readi_loop :: "int \<Rightarrow> nat \<Rightarrow> nat \<Rightarrow> nat \<Rightarrow> u8 list \<Rightarrow> fst \<Rightarrow> kerr + u8 list \<times> fst" where
  "readi_loop me ip off n acc s =
    (if n = 0 then Inr (acc, s)
     else
       bindE (bmap me ip (off div BSIZE) s) (\<lambda>(a, s1).
       bindE (bread me (i_dev (icache s1 ip)) (unat a) (lb (fl s1))) (\<lambda>(i, b1).
         let m = min n (BSIZE - off mod BSIZE);
             chunk = take m (drop (off mod BSIZE) (b_data (bufs b1 i)))
         in bindE (brelse me i b1) (\<lambda>b2.
              readi_loop me ip (off + m) (n - m) (acc @ chunk) (s1\<lparr>fl := (fl s1)\<lparr>lb := b2\<rparr>\<rparr>)))))"
  by pat_completeness auto
termination
  by (relation "measure (\<lambda>(me, ip, off, n, acc, s). n)") (auto simp: BSIZE_def)

definition readi :: "devsw \<Rightarrow> int \<Rightarrow> nat \<Rightarrow> u32 \<Rightarrow> u32 \<Rightarrow> fst \<Rightarrow> kerr + (int \<times> u8 list) \<times> fst" where
  "readi D me ip off n s =
    (let d = i_d (icache s ip) in
     if di_type d = T_DEV then
       if sint (di_major d) < 0 \<or> sint (di_major d) \<ge> NDEV then Inr ((-1, []), s)
       else case dv_read D (sint (di_major d)) of
              None \<Rightarrow> Inr ((-1, []), s)
            | Some f \<Rightarrow> f ip n s
     else if off > di_size d \<or> off + n < off then Inr ((-1, []), s)
     else
       let n = (if off + n > di_size d then di_size d - off else n)
       in bindE (readi_loop me ip (unat off) (unat n) [] s) (\<lambda>(xs, s1). Inr ((sint n, xs), s1)))"

function writei_loop :: "int \<Rightarrow> nat \<Rightarrow> nat \<Rightarrow> nat \<Rightarrow> u8 list \<Rightarrow> fst \<Rightarrow> kerr + fst" where
  "writei_loop me ip off n src s =
    (if n = 0 then Inr s
     else
       bindE (bmap me ip (off div BSIZE) s) (\<lambda>(a, s1).
       bindE (bread me (i_dev (icache s1 ip)) (unat a) (lb (fl s1))) (\<lambda>(i, b1).
         let m = min n (BSIZE - off mod BSIZE); p = off mod BSIZE; d = b_data (bufs b1 i);
             d' = take p d @ take m src @ drop (p + m) d
         in bindE (wr_held me i d' ((fl s1)\<lparr>lb := b1\<rparr>)) (\<lambda>l.
              writei_loop me ip (off + m) (n - m) (drop m src) (s1\<lparr>fl := l\<rparr>)))))"
  by pat_completeness auto
termination
  by (relation "measure (\<lambda>(me, ip, off, n, src, s). n)") (auto simp: BSIZE_def)

definition writei :: "devsw \<Rightarrow> int \<Rightarrow> nat \<Rightarrow> u8 list \<Rightarrow> u32 \<Rightarrow> u32 \<Rightarrow> fst \<Rightarrow> kerr + int \<times> fst" where
  "writei D me ip src off n s =
    (let d = i_d (icache s ip) in
     if di_type d = T_DEV then
       if sint (di_major d) < 0 \<or> sint (di_major d) \<ge> NDEV then Inr (-1, s)
       else case dv_write D (sint (di_major d)) of
              None \<Rightarrow> Inr (-1, s)
            | Some f \<Rightarrow> f ip src n s
     else if off > di_size d \<or> off + n < off then Inr (-1, s)
     else if off + n > of_nat (MAXFILE * BSIZE) then Inr (-1, s)
     else
       bindE (writei_loop me ip (unat off) (unat n) src s) (\<lambda>s1.
         if n > 0 \<and> off + n > di_size (i_d (icache s1 ip)) then
           bindE (iupdate me ip (upd_d ip (\<lambda>d. d\<lparr>di_size := off + n\<rparr>) s1)) (\<lambda>s2. Inr (sint n, s2))
         else Inr (sint n, s1)))"

declare readi_loop.simps [simp del] writei_loop.simps [simp del]

section \<open>Directories\<close>

definition namecmp :: "u8 list \<Rightarrow> u8 list \<Rightarrow> int" where
  "namecmp s t = strncmp (cstr s) (cstr t) DIRSIZ"

definition get_dirent :: "u8 list \<Rightarrow> dirent" where
  "get_dirent xs = \<lparr>de_inum = get16 xs 0, de_name = take DIRSIZ (drop 2 xs)\<rparr>"

definition dirent_bytes :: "dirent \<Rightarrow> u8 list" where
  "dirent_bytes e = put16 0 (de_inum e) (replicate 2 0) @ de_name e"

text \<open>The offsets of the entries of a directory of \<open>sz\<close> bytes.\<close>

definition dir_offs :: "u32 \<Rightarrow> nat list" where
  "dir_offs sz = map (\<lambda>k. k * DIRENT_SIZE) [0..<(unat sz + DIRENT_SIZE - 1) div DIRENT_SIZE]"

fun dirlookup_from :: "devsw \<Rightarrow> int \<Rightarrow> nat \<Rightarrow> u8 list \<Rightarrow> nat list \<Rightarrow> fst \<Rightarrow> kerr + (nat \<times> nat) option \<times> fst" where
  "dirlookup_from D me dp name [] s = Inr (None, s)"
| "dirlookup_from D me dp name (off # offs) s =
    bindE (readi D me dp (of_nat off) (of_nat DIRENT_SIZE) s) (\<lambda>((r, xs), s1).
      if r \<noteq> int DIRENT_SIZE then Inl (Panic ''dirlookup read'')
      else let de = get_dirent xs in
        if de_inum de = 0 then dirlookup_from D me dp name offs s1
        else if namecmp name (de_name de) = 0 then
          bindE (iget (i_dev (icache s1 dp)) (unat (de_inum de)) s1) (\<lambda>(ip, s2). Inr (Some (ip, off), s2))
        else dirlookup_from D me dp name offs s1)"

text \<open>The result is the inode and the offset of the entry, or \<open>None\<close>.\<close>

definition dirlookup :: "devsw \<Rightarrow> int \<Rightarrow> nat \<Rightarrow> u8 list \<Rightarrow> fst \<Rightarrow> kerr + (nat \<times> nat) option \<times> fst" where
  "dirlookup D me dp name s =
    (if di_type (i_d (icache s dp)) \<noteq> T_DIR then Inl (Panic ''dirlookup not DIR'')
     else dirlookup_from D me dp name (dir_offs (di_size (i_d (icache s dp)))) s)"

fun dirlink_from :: "devsw \<Rightarrow> int \<Rightarrow> nat \<Rightarrow> nat list \<Rightarrow> nat \<Rightarrow> fst \<Rightarrow> kerr + nat \<times> fst" where
  "dirlink_from D me dp [] end_off s = Inr (end_off, s)"
| "dirlink_from D me dp (off # offs) end_off s =
    bindE (readi D me dp (of_nat off) (of_nat DIRENT_SIZE) s) (\<lambda>((r, xs), s1).
      if r \<noteq> int DIRENT_SIZE then Inl (Panic ''dirlink read'')
      else if de_inum (get_dirent xs) = 0 then Inr (off, s1)
      else dirlink_from D me dp offs end_off s1)"

definition dirlink :: "devsw \<Rightarrow> int \<Rightarrow> nat \<Rightarrow> u8 list \<Rightarrow> nat \<Rightarrow> fst \<Rightarrow> kerr + int \<times> fst" where
  "dirlink D me dp name inum s =
    bindE (dirlookup D me dp name s) (\<lambda>(r, s1).
      case r of
        Some (ip, _) \<Rightarrow> bindE (iput me ip s1) (\<lambda>s2. Inr (-1, s2))
      | None \<Rightarrow>
          let offs = dir_offs (di_size (i_d (icache s1 dp))) in
          bindE (dirlink_from D me dp offs (length offs * DIRENT_SIZE) s1) (\<lambda>(off, s2).
            let de = \<lparr>de_inum = of_nat inum, de_name = strncpy (cstr name) DIRSIZ\<rparr> in
            bindE (writei D me dp (dirent_bytes de) (of_nat off) (of_nat DIRENT_SIZE) s2) (\<lambda>(r, s3).
              if r \<noteq> int DIRENT_SIZE then Inl (Panic ''dirlink'') else Inr (0, s3))))"

section \<open>Paths\<close>

text \<open>A path is the list of its bytes before the terminating zero; 47 is the slash.\<close>

definition skipelem :: "u8 list \<Rightarrow> (u8 list \<times> u8 list) option" where
  "skipelem path =
    (let p = dropWhile (\<lambda>c. c = 47) path in
     if p = [] then None
     else
       let elem = takeWhile (\<lambda>c. c \<noteq> 47) p;
           name = (if length elem \<ge> DIRSIZ then take DIRSIZ elem else elem)
       in Some (name, dropWhile (\<lambda>c. c = 47) (dropWhile (\<lambda>c. c \<noteq> 47) p)))"

lemma skipelem_shorter: "skipelem path = Some (name, rest) \<Longrightarrow> length rest < length path"
proof -
  assume a: "skipelem path = Some (name, rest)"
  let ?p = "dropWhile (\<lambda>c. c = 47) path"
  have p: "?p \<noteq> []" and r: "rest = dropWhile (\<lambda>c. c = 47) (dropWhile (\<lambda>c. c \<noteq> 47) ?p)"
    using a by (auto simp: skipelem_def Let_def split: if_splits)
  obtain x xs where x: "?p = x # xs" using p by (cases ?p) auto
  then have "x \<noteq> 47" using hd_dropWhile [of "\<lambda>c. c = 47" path] by auto
  then have "length rest \<le> length xs" unfolding r x by (simp add: order_trans [OF length_dropWhile_le length_dropWhile_le])
  also have "\<dots> < length path" using length_dropWhile_le [of "\<lambda>c. c = 47" path] x by simp
  finally show ?thesis .
qed

text \<open>The loop of \<^verbatim>\<open>namex\<close>; the result carries the last name copied out.\<close>

function namex_loop :: "devsw \<Rightarrow> int \<Rightarrow> bool \<Rightarrow> nat \<Rightarrow> u8 list \<Rightarrow> u8 list \<Rightarrow> fst \<Rightarrow> kerr + (ptr \<times> u8 list) \<times> fst" where
  "namex_loop D me parent ip path name s =
    (case skipelem path of
       None \<Rightarrow>
         if parent then bindE (iput me ip s) (\<lambda>s1. Inr ((None, name), s1))
         else Inr ((Some ip, name), s)
     | Some (elem, rest) \<Rightarrow>
         bindE (ilock me (Some ip) s) (\<lambda>s1.
           if di_type (i_d (icache s1 ip)) \<noteq> T_DIR then
             bindE (iunlockput me ip s1) (\<lambda>s2. Inr ((None, elem), s2))
           else if parent \<and> rest = [] then
             bindE (iunlock me (Some ip) s1) (\<lambda>s2. Inr ((Some ip, elem), s2))
           else
             bindE (dirlookup D me ip elem s1) (\<lambda>(r, s2).
               case r of
                 None \<Rightarrow> bindE (iunlockput me ip s2) (\<lambda>s3. Inr ((None, elem), s3))
               | Some (nxt, _) \<Rightarrow>
                   bindE (iunlockput me ip s2) (\<lambda>s3. namex_loop D me parent nxt rest elem s3))))"
  by pat_completeness auto
termination
  by (relation "measure (\<lambda>(D, me, parent, ip, path, name, s). length path)") (auto dest: skipelem_shorter)

declare namex_loop.simps [simp del]

definition namex :: "devsw \<Rightarrow> int \<Rightarrow> nat \<Rightarrow> u8 list \<Rightarrow> bool \<Rightarrow> fst \<Rightarrow> kerr + (ptr \<times> u8 list) \<times> fst" where
  "namex D me cwd path parent s =
    bindE (if path \<noteq> [] \<and> hd path = 47 then iget ROOTDEV ROOTINO s else Inr (cwd, idup cwd s)) (\<lambda>(ip, s1).
      namex_loop D me parent ip path [] s1)"

definition namei :: "devsw \<Rightarrow> int \<Rightarrow> nat \<Rightarrow> u8 list \<Rightarrow> fst \<Rightarrow> kerr + ptr \<times> fst" where
  "namei D me cwd path s = bindE (namex D me cwd path False s) (\<lambda>((p, _), s1). Inr (p, s1))"

definition nameiparent :: "devsw \<Rightarrow> int \<Rightarrow> nat \<Rightarrow> u8 list \<Rightarrow> fst \<Rightarrow> kerr + (ptr \<times> u8 list) \<times> fst" where
  "nameiparent D me cwd path s = namex D me cwd path True s"

end
