(* ===== verification/FsOps.thy ===== *)
theory FsOps
  imports Fs
begin

text \<open>
  What the operations of the file system do to the contents of the blocks. \<open>lview s\<close> is the block
  store that the log and the cache together implement; \<open>room k s\<close> says that the running transaction can still log
  \<open>k\<close> blocks. A locale states the contract of a block store; its client lemmas are proved once and used
  for the bitmap and for the inode blocks.
\<close>

section \<open>The block store\<close>

definition room :: "nat \<Rightarrow> lst \<Rightarrow> bool" where
  "room k s \<longleftrightarrow> outstanding (lg s) \<ge> 1 \<and> lh_n (lg s) + int k < l_size (lg s)"

definition same_log :: "lst \<Rightarrow> lst \<Rightarrow> bool" where
  "same_log s t \<longleftrightarrow> l_dev (lg t) = l_dev (lg s) \<and> l_start (lg t) = l_start (lg s) \<and> l_size (lg t) = l_size (lg s) \<and>
     outstanding (lg t) = outstanding (lg s) \<and> committing (lg t) = committing (lg s) \<and> disk (lb t) = disk (lb s) \<and> hist (lb t) = hist (lb s)"

lemma same_log_refl [simp]: "same_log s s"
  by (simp add: same_log_def)

lemma same_log_trans: "same_log s t \<Longrightarrow> same_log t u \<Longrightarrow> same_log s u"
  by (simp add: same_log_def)

lemma same_log_area: "same_log s t \<Longrightarrow> log_area (lg t) = log_area (lg s)"
  by (simp add: same_log_def log_area_def)

text \<open>\<open>lstep me H k V s t\<close>: the transaction goes on in \<open>t\<close>, still holding \<open>H\<close>, with room for \<open>k\<close> blocks and
  contents \<open>V\<close>.\<close>

definition lstep :: "int \<Rightarrow> nat set \<Rightarrow> nat \<Rightarrow> (nat \<Rightarrow> block) \<Rightarrow> lst \<Rightarrow> lst \<Rightarrow> bool" where
  "lstep me H k V s t \<longleftrightarrow> txs me H t \<and> room k t \<and> lview t = V \<and> same_log s t \<and> (\<forall>j \<in> H. bufs (lb t) j = bufs (lb s) j)"

lemma room_mono: "room k s \<Longrightarrow> j \<le> k \<Longrightarrow> room j s"
  by (simp add: room_def)

lemma lview_same: "txs me H s \<Longrightarrow> same_view (lb s) b \<Longrightarrow> view b (l_dev (lg s)) = lview s"
  using lwfD(1) [OF txsD(1)] by (auto simp: same_view_def fun_eq_iff)

lemma room_bufs:
  assumes "txs me H s" and "room k s" and "card H \<le> k"
  shows "card H + nat (lh_n (lg s)) < NBUF"
proof -
  have "lh_n (lg s) + int k < int LOGSIZE" "0 \<le> lh_n (lg s)"
    using assms(2) lwfD(2,4) [OF txsD(1) [OF assms(1)]] by (simp_all add: room_def)
  then show ?thesis using assms(3) by (simp add: NBUF_def LOGSIZE_def)
qed

lemma tx_finite: "txs me H s \<Longrightarrow> finite H"
  using finite_subset [of H "{..<NBUF}"] hstD(3) [OF txsD(3)] by blast

lemma wr_held_ok:
  assumes x: "txs me H s" and i: "i \<in> H" and dv: "b_dev (bufs (lb s) i) = l_dev (lg s)" and c: "b_blockno (bufs (lb s) i) = c" "c \<notin> log_area (lg s)"
    and r: "room (Suc k) s"
  shows "succeeds (wr_held me i v s) (lstep me (H - {i}) k ((lview s)(c := v)) s)"
proof -
  let ?s1 = "s\<lparr>lb := set_data i v (lb s)\<rparr>"
  note sd = tx_set_data [OF x i dv, of v]
  have b1: "b_dev (bufs (lb ?s1) i) = l_dev (lg ?s1)" "b_blockno (bufs (lb ?s1) i) = c" using dv c by simp_all
  define l where "l = note_block c (lg s)"
  define t where "t = ?s1\<lparr>lg := l, lb := pin i (lb ?s1)\<rparr>"
  have rm: "lh_n (lg ?s1) < l_size (lg ?s1) - 1" "outstanding (lg ?s1) \<ge> 1" using r by (simp_all add: room_def)
  have lw: "log_write i ?s1 = Inr t" "txs me H t" "same_view (lb ?s1) (lb t)"
    using tx_log_write [OF sd(1) i b1(1) _ rm] b1(2) c by (simp_all add: t_def l_def)
  have "b_dirty (bufs (lb t) i)" by (simp add: t_def)
  then obtain b where b: "brelse me i (lb t) = Inr b" "txs me (H - {i}) (t\<lparr>lb := b\<rparr>)" "same_view (lb t) b" "disk b = disk (lb t)"
    "hist b = hist (lb t)" "\<forall>j. j \<noteq> i \<longrightarrow> bufs b j = bufs (lb t) j"
    using tx_brelse [OF lw(2) i, of thesis] by blast
  have cF: "c < FSSIZE" using hstD(6) [OF txsD(3) [OF x] i] c(1) by simp
  note nb = note_block_ok [OF txsD(1,2) [OF x] _ cF c(2), folded l_def]
  have nb: "lh_n l \<le> lh_n (lg s) + 1" "l_dev l = l_dev (lg s)" "l_start l = l_start (lg s)" "l_size l = l_size (lg s)"
    "outstanding l = outstanding (lg s)" "committing l = committing (lg s)"
    using nb(5-10) rm(1) by simp_all
  have "view b (l_dev (lg s)) = (lview s)(c := v)"
    using sd(2) c(1) lw(3) b(3) lwfD(1) [OF txsD(1) [OF x]] by (auto simp: same_view_def fun_eq_iff)
  moreover have "wr_held me i v s = Inr (t\<lparr>lb := b\<rparr>)" using lw(1) b(1) by (simp add: wr_held_def)
  ultimately show ?thesis
    using b nb r by (auto simp: lstep_def room_def same_log_def t_def)
qed

lemma wr_block_ok:
  assumes x: "txs me H s" and c: "c < FSSIZE" "c \<notin> log_area (lg s)" and nh: "\<forall>i \<in> H. b_blockno (bufs (lb s) i) \<noteq> c"
    and r: "room (Suc k) s" and h: "card H \<le> Suc k"
  shows "succeeds (wr_block me (l_dev (lg s)) c f s) (lstep me H k ((lview s)(c := f (lview s c))) s)"
proof -
  obtain i b where b: "bread me (l_dev (lg s)) c (lb s) = Inr (i, b)" "i \<notin> H" "txs me (insert i H) (s\<lparr>lb := b\<rparr>)"
    "b_blockno (bufs b i) = c" "b_dev (bufs b i) = l_dev (lg s)" "b_data (bufs b i) = lview s c" "\<forall>j. j \<noteq> i \<longrightarrow> bufs b j = bufs (lb s) j"
    "disk b = disk (lb s)" "hist b = hist (lb s)" "same_view (lb s) b"
    using tx_bread [OF x c(1) nh room_bufs [OF x r h], of thesis] by blast
  let ?s = "s\<lparr>lb := b\<rparr>"
  have v: "lview ?s = lview s" using lview_same [OF x b(10)] by simp
  have "succeeds (wr_held me i (f (lview s c)) ?s) (lstep me (insert i H - {i}) k ((lview ?s)(c := f (lview s c))) ?s)"
    by (rule wr_held_ok [OF b(3)]) (use b c r in \<open>simp_all add: room_def log_area_def\<close>)
  moreover have "insert i H - {i} = H" using b(2) by auto
  ultimately have "succeeds (wr_held me i (f (lview s c)) ?s) (lstep me H k ((lview s)(c := f (lview s c))) ?s)"
    using v by simp
  moreover have "wr_block me (l_dev (lg s)) c f s = wr_held me i (f (lview s c)) ?s" using b(1,6) by (simp add: wr_block_def)
  ultimately show ?thesis
    using b(2,7-9) by (auto simp: lstep_def same_log_def elim!: succeedsE)
qed

lemma rd_block_ok:
  assumes x: "txs me H s" and c: "c < FSSIZE" and nh: "\<forall>i \<in> H. b_blockno (bufs (lb s) i) \<noteq> c" and r: "room k s" and h: "card H \<le> k"
  shows "succeeds (rd_block me (l_dev (lg s)) c s) (\<lambda>(d, t). d = lview s c \<and> lstep me H k (lview s) s t)"
proof -
  obtain i b where b: "bread me (l_dev (lg s)) c (lb s) = Inr (i, b)" "i \<notin> H" "txs me (insert i H) (s\<lparr>lb := b\<rparr>)"
    "b_blockno (bufs b i) = c" "b_dev (bufs b i) = l_dev (lg s)" "b_data (bufs b i) = lview s c"
    "b_dirty (bufs b i) \<or> b_data (bufs b i) = disk b (l_dev (lg s)) c" "\<forall>j. j \<noteq> i \<longrightarrow> bufs b j = bufs (lb s) j"
    "disk b = disk (lb s)" "hist b = hist (lb s)" "same_view (lb s) b"
    using tx_bread [OF x c nh room_bufs [OF x r h], of thesis] by blast
  then obtain b2 where b2: "brelse me i b = Inr b2" "txs me (insert i H - {i}) (s\<lparr>lb := b2\<rparr>)" "same_view b b2" "disk b2 = disk b"
    "hist b2 = hist b" "\<forall>j. j \<noteq> i \<longrightarrow> bufs b2 j = bufs b j"
    using tx_brelse [OF b(3), of i thesis] by auto
  have "insert i H - {i} = H" using b(2) by auto
  moreover have "view b2 (l_dev (lg s)) = lview s" using lview_same [OF x, of b2] b(11) b2(3) by (simp add: same_view_def)
  moreover have "rd_block me (l_dev (lg s)) c s = Inr (lview s c, s\<lparr>lb := b2\<rparr>)" using b(1,6) b2(1) by (simp add: rd_block_def)
  ultimately show ?thesis using b b2 r by (auto simp: lstep_def same_log_def room_def)
qed

lemma lstep_trans: "lstep me H j U s t \<Longrightarrow> lstep me H k V t u \<Longrightarrow> lstep me H k V s u"
  unfolding lstep_def by (metis same_log_trans)

lemma lstepD:
  assumes "lstep me H k V s t"
  shows "txs me H t" and "room k t" and "lview t = V" and "same_log s t" and "\<forall>j \<in> H. bufs (lb t) j = bufs (lb s) j"
    and "l_dev (lg t) = l_dev (lg s)" and "log_area (lg t) = log_area (lg s)"
proof -
  show 1: "txs me H t" "room k t" "lview t = V" "same_log s t" "\<forall>j \<in> H. bufs (lb t) j = bufs (lb s) j"
    using assms unfolding lstep_def by blast+
  show "l_dev (lg t) = l_dev (lg s)" "log_area (lg t) = log_area (lg s)" using 1(4) same_log_area [OF 1(4)] by (simp_all add: same_log_def)
qed

text \<open>A block that is read and held: the state goes on with one buffer more.\<close>

lemma hold_block:
  assumes x: "txs me H s" and c: "c < FSSIZE" and nh: "\<forall>i \<in> H. b_blockno (bufs (lb s) i) \<noteq> c" and r: "room k s" and h: "card H \<le> k"
  obtains i b where "bread me (l_dev (lg s)) c (lb s) = Inr (i, b)" and "i \<notin> H" and "txs me (insert i H) (s\<lparr>lb := b\<rparr>)"
    and "b_blockno (bufs b i) = c" and "b_dev (bufs b i) = l_dev (lg s)" and "b_data (bufs b i) = lview s c"
    and "b_dirty (bufs b i) \<or> b_data (bufs b i) = disk b (l_dev (lg s)) c"
    and "\<forall>j. j \<noteq> i \<longrightarrow> bufs b j = bufs (lb s) j" and "view b (l_dev (lg s)) = lview s" and "same_log s (s\<lparr>lb := b\<rparr>)" and "room k (s\<lparr>lb := b\<rparr>)"
proof (rule tx_bread [OF x c nh room_bufs [OF x r h]])
  fix i b
  assume b: "bread me (l_dev (lg s)) c (lb s) = Inr (i, b)" "i \<notin> H" "txs me (insert i H) (s\<lparr>lb := b\<rparr>)"
    "b_blockno (bufs b i) = c" "b_dev (bufs b i) = l_dev (lg s)" "b_data (bufs b i) = lview s c"
    "b_dirty (bufs b i) \<or> b_data (bufs b i) = disk b (l_dev (lg s)) c" "\<forall>j. j \<noteq> i \<longrightarrow> bufs b j = bufs (lb s) j"
    "disk b = disk (lb s)" "hist b = hist (lb s)" "same_view (lb s) b"
  show thesis
    by (rule that [OF b(1-8)]) (use b(9,10) r lview_same [OF x b(11)] in \<open>simp_all add: same_log_def room_def\<close>)
qed

text \<open>Giving back a buffer that was only read.\<close>

lemma release_block:
  assumes x: "txs me (insert i H) s" and i: "i \<notin> H" and r: "room k s"
    and c: "b_dirty (bufs (lb s) i) \<or> b_data (bufs (lb s) i) = disk (lb s) (b_dev (bufs (lb s) i)) (b_blockno (bufs (lb s) i))"
  obtains b where "brelse me i (lb s) = Inr b" and "lstep me H k (lview s) s (s\<lparr>lb := b\<rparr>)"
proof (rule tx_brelse [OF x insertI1 c])
  fix b
  assume b: "brelse me i (lb s) = Inr b" "txs me (insert i H - {i}) (s\<lparr>lb := b\<rparr>)" "same_view (lb s) b" "disk b = disk (lb s)"
    "hist b = hist (lb s)" "\<forall>j. j \<noteq> i \<longrightarrow> bufs b j = bufs (lb s) j"
  have "insert i H - {i} = H" using i by auto
  then show thesis
    by (intro that [OF b(1)]) (use b r i lview_same [OF x b(3)] in \<open>auto simp: lstep_def same_log_def room_def\<close>)
qed

section \<open>The block store as an interface\<close>

text \<open>What the file system relies on: within a transaction with \<open>k\<close> blocks left, a read returns the content of the block
  and an update changes that block only and takes at most one block of the reservation.\<close>

locale block_store =
  fixes rd :: "nat \<Rightarrow> 's \<Rightarrow> kerr + block \<times> 's"
    and wr :: "nat \<Rightarrow> (block \<Rightarrow> block) \<Rightarrow> 's \<Rightarrow> kerr + 's"
    and live :: "nat \<Rightarrow> 's \<Rightarrow> bool"
    and blk :: "'s \<Rightarrow> nat \<Rightarrow> block"
    and D :: "nat set"
  assumes rd_law: "live k s \<Longrightarrow> c \<in> D \<Longrightarrow> succeeds (rd c s) (\<lambda>(d, t). d = blk s c \<and> live k t \<and> blk t = blk s)"
    and wr_law: "live (Suc k) s \<Longrightarrow> c \<in> D \<Longrightarrow> succeeds (wr c f s) (\<lambda>t. live k t \<and> blk t = (blk s)(c := f (blk s c)))"
begin

text \<open>Several updates, then a read: the store behaves as an array of blocks.\<close>

lemma updates_ok:
  "live (length us + k) s \<Longrightarrow> Product_Type.fst ` set us \<subseteq> D \<Longrightarrow>
   succeeds (foldE (\<lambda>(c, f). wr c f) us s) (\<lambda>t. live k t \<and> blk t = fold (\<lambda>(c, f) V. V(c := f (V c))) us (blk s))"
proof (induction us arbitrary: s)
  case (Cons u us)
  obtain c f where u: "u = (c, f)" by force
  from Cons.prems u obtain t where "wr c f s = Inr t" "live (length us + k) t" "blk t = (blk s)(c := f (blk s c))"
    using wr_law [of "length us + k" s c f] by (auto elim!: succeedsE)
  with Cons.IH [of t] Cons.prems u show ?case by (auto elim!: succeedsE)
qed simp

lemma updates_then_read:
  assumes "live (length us + k) s" and "Product_Type.fst ` set us \<subseteq> D" and "c \<in> D"
  shows "succeeds (bindE (foldE (\<lambda>(c, f). wr c f) us s) (rd c))
    (\<lambda>(d, t). d = fold (\<lambda>(c, f) V. V(c := f (V c))) us (blk s) c \<and> blk t = fold (\<lambda>(c, f) V. V(c := f (V c))) us (blk s) \<and> live k t)"
proof (rule succeeds_bindE [OF updates_ok [OF assms(1,2)]])
  fix t
  assume t: "live k t \<and> blk t = fold (\<lambda>(c, f) V. V(c := f (V c))) us (blk s)"
  show "succeeds (rd c t) (\<lambda>(d, t). d = fold (\<lambda>(c, f) V. V(c := f (V c))) us (blk s) c \<and>
      blk t = fold (\<lambda>(c, f) V. V(c := f (V c))) us (blk s) \<and> live k t)"
    using rd_law [of k t c] assms(3) t by (auto elim!: succeedsE)
qed

end

text \<open>The transaction of a process that holds no buffer, on the device and outside the blocks of the log.\<close>

definition tx_live :: "int \<Rightarrow> nat \<Rightarrow> nat set \<Rightarrow> nat \<Rightarrow> lst \<Rightarrow> bool" where
  "tx_live me dv A k s \<longleftrightarrow> txs me {} s \<and> room k s \<and> l_dev (lg s) = dv \<and> log_area (lg s) = A"

interpretation ls: block_store "rd_block me dv" "wr_block me dv" "tx_live me dv A" lview "{c. c < FSSIZE \<and> c \<notin> A}" for me dv A
proof unfold_locales
  show "succeeds (rd_block me dv c s) (\<lambda>(d, t). d = lview s c \<and> tx_live me dv A k t \<and> lview t = lview s)"
    if "tx_live me dv A k s" "c \<in> {c. c < FSSIZE \<and> c \<notin> A}" for k s c
  proof -
    have "succeeds (rd_block me dv c s) (\<lambda>(d, t). d = lview s c \<and> lstep me {} k (lview s) s t)"
      using that rd_block_ok [of me "{}" s c k] by (simp add: tx_live_def)
    then show ?thesis by (rule succeeds_mono) (use that in \<open>auto simp: tx_live_def dest: lstepD\<close>)
  qed
  show "succeeds (wr_block me dv c f s) (\<lambda>t. tx_live me dv A k t \<and> lview t = (lview s)(c := f (lview s c)))"
    if "tx_live me dv A (Suc k) s" "c \<in> {c. c < FSSIZE \<and> c \<notin> A}" for k s c f
  proof -
    have "succeeds (wr_block me dv c f s) (lstep me {} k ((lview s)(c := f (lview s c))) s)"
      using that wr_block_ok [of me "{}" s c k f] by (simp add: tx_live_def)
    then show ?thesis by (rule succeeds_mono) (use that in \<open>auto simp: tx_live_def dest: lstepD\<close>)
  qed
qed

section \<open>A machine that has booted\<close>

text \<open>The state after \<open>binit\<close> on a disk \<open>d\<close>, with an empty log of 30 blocks at block 2 of device 1 and one transaction begun.\<close>

definition boot_tx :: "disk \<Rightarrow> lst" where
  "boot_tx d = \<lparr>lb = binit \<lparr>bufs = \<lambda>_. zero_buf, bnext = \<lambda>_. BHead, bprev = \<lambda>_. BHead, disk = d, hist = [], havedisk1 = True\<rparr>,
     lg = \<lparr>l_start = 2, l_size = 30, outstanding = 1, committing = False, l_dev = 1, lh_n = 0, lh_block = replicate LOGSIZE 0\<rparr>\<rparr>"

lemma boot_tx_simps [simp]:
  "l_dev (lg (boot_tx d)) = 1" "log_area (lg (boot_tx d)) = {2..<32}" "disk (lb (boot_tx d)) = d" "bufs (lb (boot_tx d)) i = zero_buf"
  by (auto simp: boot_tx_def log_area_def binit_ok)

lemma boot_tx_ready:
  assumes "d 1 2 = replicate BSIZE 0"
  shows "tx_ready me (boot_tx d)" and "lview (boot_tx d) = d 1" and "k < 30 \<Longrightarrow> room k (boot_tx d)"
proof -
  show r: "tx_ready me (boot_tx d)"
    using assms by (simp add: txs_def boot_tx_def binit_ok lwf_def home_def homes_def log_area_def
        LOGSIZE_def MAXOPBLOCKS_def FSSIZE_def BSIZE_def get32_def)
  show "room k (boot_tx d)" if "k < 30" using that by (simp add: room_def boot_tx_def)
  have "dirtyb (lb (boot_tx d)) = {}" by (simp add: boot_tx_def binit_ok)
  then show "lview (boot_tx d) = d 1" using view_clean [OF txsD(3) [OF r]] by (simp add: fun_eq_iff)
qed

section \<open>Property\<close>

text \<open>C6. Inside a transaction the log and the buffer cache together are an array of blocks: any sequence of updates of blocks outside the log, at most as many as the
  transaction has room for, ends without panic, and a read after it returns the content that the same updates give on the
  array, whatever buffers are recycled in between.\<close>

theorem block_store_is_array:
  assumes "tx_ready me s" and "room (length us) s" and "\<forall>(c, f) \<in> set us. c < FSSIZE \<and> c \<notin> log_area (lg s)" and "b < FSSIZE" and "b \<notin> log_area (lg s)"
  shows "succeeds (bindE (foldE (\<lambda>(c, f). wr_block me (l_dev (lg s)) c f) us s) (rd_block me (l_dev (lg s)) b))
    (\<lambda>(d, t). d = fold (\<lambda>(c, f) V. V(c := f (V c))) us (lview s) b \<and> lview t = fold (\<lambda>(c, f) V. V(c := f (V c))) us (lview s) \<and> tx_ready me t)"
proof -
  have "tx_live me (l_dev (lg s)) (log_area (lg s)) (length us + 0) s" using assms(1,2) by (simp add: tx_live_def)
  moreover have "Product_Type.fst ` set us \<subseteq> {c. c < FSSIZE \<and> c \<notin> log_area (lg s)}" using assms(3) by auto
  ultimately show ?thesis
    using ls.updates_then_read [of me "l_dev (lg s)" "log_area (lg s)" us 0 s b] assms(4,5) by (auto simp: tx_live_def elim!: succeeds_mono)
qed

theorem block_store_is_array_witness:
  "succeeds (bindE (foldE (\<lambda>(c, f). wr_block 1 1 c f) [(50, map (\<lambda>_. 7)), (51, \<lambda>_. replicate BSIZE 8), (50, map (\<lambda>x. x + 1))] (boot_tx (\<lambda>_ _. replicate BSIZE 0)))
     (rd_block 1 1 50))
    (\<lambda>(d, t). d = replicate BSIZE 8 \<and> tx_ready 1 t)"
proof -
  let ?us = "[(50 :: nat, map (\<lambda>_. 7 :: u8)), (51, \<lambda>_. replicate BSIZE 8), (50, map (\<lambda>x. x + 1))]"
  note r = boot_tx_ready [where d = "\<lambda>_ _. replicate BSIZE 0", OF refl]
  show ?thesis
    using block_store_is_array [OF r(1) [of 1] r(3) [of "length ?us"], of 50] r(2)
    by (simp add: FSSIZE_def) (erule succeeds_mono, auto)
qed

end
