(* ===== verification/FsAlloc.thy ===== *)
theory FsAlloc
  imports FsOps
begin

text \<open>
  The block allocator of the file system: \<open>balloc\<close> and \<open>bfree\<close> against the set of used blocks that the bitmap stands for.
\<close>

section \<open>Bits of a bitmap block\<close>

unbundle bit_operations_syntax

lemma bit_used_iff: "bit_used d i \<longleftrightarrow> bit (d ! (i div 8)) (i mod 8)"
proof -
  have "i mod 8 < LENGTH(8)" by simp
  then show ?thesis by (simp add: bit_used_def bit_iff_and_push_bit_not_eq_0)
qed

lemma bit_used_set: "i div 8 < length d \<Longrightarrow> bit_used (set_used i d) j \<longleftrightarrow> j = i \<or> bit_used d j"
proof (cases "j div 8 = i div 8")
  case True
  assume "i div 8 < length d"
  moreover have "j mod 8 = i mod 8 \<longleftrightarrow> j = i" using True by (metis div_mult_mod_eq)
  ultimately show ?thesis using True by (auto simp: bit_used_iff set_used_def bit_simps)
next
  case False
  then show ?thesis by (auto simp: bit_used_iff set_used_def)
qed

lemma bit_used_clear: "i div 8 < length d \<Longrightarrow> bit_used (clear_used i d) j \<longleftrightarrow> j \<noteq> i \<and> bit_used d j"
proof (cases "j div 8 = i div 8")
  case True
  assume "i div 8 < length d"
  moreover have "j mod 8 = i mod 8 \<longleftrightarrow> j = i" using True by (metis div_mult_mod_eq)
  moreover have "j mod 8 < 8" by simp
  ultimately show ?thesis using True by (auto simp: bit_used_iff clear_used_def bit_simps)
next
  case False
  then show ?thesis by (auto simp: bit_used_iff clear_used_def)
qed

lemma clear_set_used:
  assumes "i div 8 < length d" and "\<not> bit_used d i"
  shows "clear_used i (set_used i d) = d"
proof -
  have "(d ! (i div 8) OR push_bit (i mod 8) 1) AND NOT (push_bit (i mod 8) 1) = d ! (i div 8)"
  proof (rule bit_word_eqI)
    fix n
    assume "n < LENGTH(8)"
    then show "bit ((d ! (i div 8) OR push_bit (i mod 8) 1) AND NOT (push_bit (i mod 8) 1)) n = bit (d ! (i div 8)) n"
      using assms(2) by (auto simp: bit_used_iff bit_simps)
  qed
  with assms(1) show ?thesis by (simp add: clear_used_def set_used_def)
qed

section \<open>The used blocks\<close>

definition blk_used :: "(nat \<Rightarrow> block) \<Rightarrow> superblock \<Rightarrow> nat \<Rightarrow> bool" where
  "blk_used V sb b \<longleftrightarrow> bit_used (V (BBLOCK b sb)) (b mod BPB)"

lemma BPB_pos [simp]: "0 < BPB"
  by (simp add: BPB_def BSIZE_def)

lemma BBLOCK_chunk: "i < BPB \<Longrightarrow> BBLOCK (k * BPB + i) sb = BBLOCK (k * BPB) sb"
  by (simp add: BBLOCK_def)

text \<open>A file system in order for the allocator: the bitmap and the log lie on the disk, apart from each other, and the bitmap
  marks itself and the log as used.\<close>

definition bitmap_ok :: "superblock \<Rightarrow> log \<Rightarrow> (nat \<Rightarrow> block) \<Rightarrow> bool" where
  "bitmap_ok sb l V \<longleftrightarrow> unat (sb_size sb) \<le> FSSIZE \<and> (\<forall>c \<in> log_area l. c < unat (sb_size sb) \<longrightarrow> blk_used V sb c) \<and>
     (\<forall>b < unat (sb_size sb). BBLOCK b sb < FSSIZE \<and> BBLOCK b sb \<notin> log_area l \<and> length (V (BBLOCK b sb)) = BSIZE \<and>
        (BBLOCK b sb < unat (sb_size sb) \<longrightarrow> blk_used V sb (BBLOCK b sb)))"

lemma bitmap_okD:
  assumes "bitmap_ok sb l V" and "b < unat (sb_size sb)"
  shows "b < FSSIZE" and "BBLOCK b sb < FSSIZE" and "BBLOCK b sb \<notin> log_area l" and "length (V (BBLOCK b sb)) = BSIZE"
    and "\<not> blk_used V sb b \<Longrightarrow> b \<notin> log_area l" and "\<not> blk_used V sb b \<Longrightarrow> c < unat (sb_size sb) \<Longrightarrow> BBLOCK c sb \<noteq> b"
    and "b mod BPB div 8 < BSIZE"
proof -
  have "b mod BPB < BPB" by simp
  then show "b mod BPB div 8 < BSIZE" by (simp add: BPB_def less_mult_imp_div_less)
qed (use assms in \<open>auto simp: bitmap_ok_def\<close>)

lemma blk_used_set:
  assumes "bitmap_ok sb l V" and "b < unat (sb_size sb)"
  shows "blk_used (V(BBLOCK b sb := set_used (b mod BPB) (V (BBLOCK b sb)))) sb c \<longleftrightarrow> c = b \<or> blk_used V sb c"
proof -
  have "BBLOCK c sb = BBLOCK b sb \<Longrightarrow> c mod BPB = b mod BPB \<longleftrightarrow> c = b" by (metis BBLOCK_def add_right_cancel div_mult_mod_eq)
  with bitmap_okD(4,7) [OF assms] show ?thesis by (auto simp: blk_used_def bit_used_set)
qed

lemma blk_used_clear:
  assumes "bitmap_ok sb l V" and "b < unat (sb_size sb)"
  shows "blk_used (V(BBLOCK b sb := clear_used (b mod BPB) (V (BBLOCK b sb)))) sb c \<longleftrightarrow> c \<noteq> b \<and> blk_used V sb c"
proof -
  have "BBLOCK c sb = BBLOCK b sb \<Longrightarrow> c mod BPB = b mod BPB \<longleftrightarrow> c = b" by (metis BBLOCK_def add_right_cancel div_mult_mod_eq)
  with bitmap_okD(4,7) [OF assms] show ?thesis by (auto simp: blk_used_def bit_used_clear)
qed

text \<open>The buffers that the caller holds are none of the bitmap and none of a free block.\<close>

definition apart :: "superblock \<Rightarrow> (nat \<Rightarrow> block) \<Rightarrow> nat set \<Rightarrow> lst \<Rightarrow> bool" where
  "apart sb V H s \<longleftrightarrow> (\<forall>i \<in> H. blk_used V sb (b_blockno (bufs (lb s) i)) \<and> (\<forall>b < unat (sb_size sb). b_blockno (bufs (lb s) i) \<noteq> BBLOCK b sb))"

section \<open>Allocation\<close>

definition balloc_view :: "superblock \<Rightarrow> nat \<Rightarrow> (nat \<Rightarrow> block) \<Rightarrow> nat \<Rightarrow> block" where
  "balloc_view sb a V = V(BBLOCK a sb := set_used (a mod BPB) (V (BBLOCK a sb)), a := replicate BSIZE 0)"

text \<open>The result for the caller: the first free block, marked and zeroed.\<close>

definition balloc_post :: "int \<Rightarrow> nat set \<Rightarrow> nat \<Rightarrow> superblock \<Rightarrow> lst \<Rightarrow> nat \<times> lst \<Rightarrow> bool" where
  "balloc_post me H k sb s = (\<lambda>(a, t). a < unat (sb_size sb) \<and> \<not> blk_used (lview s) sb a \<and> (\<forall>b < a. blk_used (lview s) sb b) \<and>
     lstep me H k (balloc_view sb a (lview s)) s t)"

lemma balloc_chunk_hit:
  assumes x: "txs me H s" and r: "room (Suc (Suc k)) s" and h: "card H \<le> k" and ok: "bitmap_ok sb (lg s) (lview s)" and ap: "apart sb (lview s) H s"
    and lo: "\<forall>b < j * BPB. blk_used (lview s) sb b"
    and f: "find (\<lambda>bi. j * BPB + bi < unat (sb_size sb) \<and> \<not> bit_used (lview s (BBLOCK (j * BPB) sb)) bi) [0..<BPB] = Some bi"
  shows "succeeds (balloc_from me (l_dev (lg s)) sb (j * BPB # bs) s) (balloc_post me H k sb s)"
proof -
  let ?a = "j * BPB + bi" and ?c = "BBLOCK (j * BPB) sb"
  have bi: "bi < BPB" "?a < unat (sb_size sb)" "\<not> bit_used (lview s ?c) bi" and bi0: "\<forall>i < bi. ?a < unat (sb_size sb) \<longrightarrow> bit_used (lview s ?c) i"
    using find_upt_first [OF f] by auto
  have am: "?a mod BPB = bi" "BBLOCK ?a sb = ?c" using bi(1) BBLOCK_chunk by simp_all
  note g = bitmap_okD [OF ok bi(2), unfolded am]
  have free: "\<not> blk_used (lview s) sb ?a" using bi(3) am by (simp add: blk_used_def)
  have first: "blk_used (lview s) sb b" if "b < ?a" for b
  proof (cases "b < j * BPB")
    case False
    define i where "i = b - j * BPB"
    have "b = j * BPB + i" "i < bi" using that False by (auto simp: i_def)
    then show ?thesis using bi0 bi(1,2) BBLOCK_chunk [of i j sb] by (simp add: blk_used_def)
  qed (use lo in blast)
  have nh: "\<forall>i \<in> H. b_blockno (bufs (lb s) i) \<noteq> ?c" using ap bi(2) am(2) unfolding apart_def by metis
  have nh2: "\<forall>i \<in> H. b_blockno (bufs (lb s) i) \<noteq> ?a" using ap free unfolding apart_def by metis
  obtain i b where b: "bread me (l_dev (lg s)) ?c (lb s) = Inr (i, b)" "i \<notin> H" "txs me (insert i H) (s\<lparr>lb := b\<rparr>)"
    "b_blockno (bufs b i) = ?c" "b_dev (bufs b i) = l_dev (lg s)" "b_data (bufs b i) = lview s ?c"
    "\<forall>j. j \<noteq> i \<longrightarrow> bufs b j = bufs (lb s) j" "view b (l_dev (lg s)) = lview s" "same_log s (s\<lparr>lb := b\<rparr>)" "room (Suc (Suc k)) (s\<lparr>lb := b\<rparr>)"
    by (rule hold_block [OF x g(2) nh r]) (use h in auto)
  let ?s1 = "s\<lparr>lb := b\<rparr>" and ?d = "set_used bi (lview s ?c)"
  have ih: "insert i H - {i} = H" using b(2) by auto
  obtain s2 where s2: "wr_held me i ?d ?s1 = Inr s2" "lstep me H (Suc k) ((lview s)(?c := ?d)) ?s1 s2"
    using wr_held_ok [OF b(3) insertI1, of ?c "Suc k" ?d] b(4,5,8,10) g(3) ih by (auto simp: log_area_def elim!: succeedsE)
  note L = lstepD [OF s2(2)]
  have hb: "bufs (lb s2) j = bufs (lb s) j" if "j \<in> H" for j
    using bspec [OF L(5) that] b(2,7) that by (cases "j = i") simp_all
  have "succeeds (wr_block me (l_dev (lg s2)) ?a (\<lambda>_. replicate BSIZE 0) s2) (lstep me H k ((lview s2)(?a := replicate BSIZE 0)) s2)"
  proof (rule wr_block_ok [OF L(1) g(1)])
    show "?a \<notin> log_area (lg s2)" using g(5) free L(7) by (simp add: log_area_def)
    show "\<forall>i \<in> H. b_blockno (bufs (lb s2) i) \<noteq> ?a" using hb nh2 by auto
    show "room (Suc k) s2" by (rule L(2))
    show "card H \<le> Suc k" using h by simp
  qed
  then obtain s3 where s3: "bzero me (l_dev (lg s)) ?a s2 = Inr s3" "lstep me H k ((lview s2)(?a := replicate BSIZE 0)) s2 s3"
    using L(6) by (auto simp: bzero_def elim!: succeedsE)
  have "lstep me H k (balloc_view sb ?a (lview s)) s s3"
  proof -
    have "balloc_view sb ?a (lview s) = (lview s2)(?a := replicate BSIZE 0)" using L(3) am by (simp add: balloc_view_def)
    moreover note M = lstepD [OF s3(2)]
    moreover have "same_log s s3" using b(9) L(4) M(4) same_log_trans by blast
    moreover have "\<forall>j \<in> H. bufs (lb s3) j = bufs (lb s) j" using M(5) hb by simp
    ultimately show ?thesis unfolding lstep_def by simp
  qed
  moreover have "balloc_from me (l_dev (lg s)) sb (j * BPB # bs) s = Inr (?a, s3)"
    using b(1,6) f s2(1) s3(1) by simp
  ultimately show ?thesis using bi(2) free first by (simp add: balloc_post_def)
qed

lemma balloc_chunk_miss:
  assumes x: "txs me H s" and r: "room k s" and h: "card H \<le> k" and ok: "bitmap_ok sb (lg s) (lview s)" and ap: "apart sb (lview s) H s"
    and j: "j * BPB < unat (sb_size sb)"
    and f: "find (\<lambda>bi. j * BPB + bi < unat (sb_size sb) \<and> \<not> bit_used (lview s (BBLOCK (j * BPB) sb)) bi) [0..<BPB] = None"
  obtains t where "lstep me H k (lview s) s t"
    and "balloc_from me (l_dev (lg s)) sb (j * BPB # bs) s = balloc_from me (l_dev (lg t)) sb bs t"
    and "\<And>b. b < Suc j * BPB \<Longrightarrow> b < unat (sb_size sb) \<Longrightarrow> \<forall>b < j * BPB. blk_used (lview s) sb b \<Longrightarrow> blk_used (lview s) sb b"
proof -
  let ?c = "BBLOCK (j * BPB) sb"
  note g = bitmap_okD [OF ok j]
  have nh: "\<forall>i \<in> H. b_blockno (bufs (lb s) i) \<noteq> ?c" using ap j unfolding apart_def by metis
  obtain i b where b: "bread me (l_dev (lg s)) ?c (lb s) = Inr (i, b)" "i \<notin> H" "txs me (insert i H) (s\<lparr>lb := b\<rparr>)"
    "b_blockno (bufs b i) = ?c" "b_dev (bufs b i) = l_dev (lg s)" "b_data (bufs b i) = lview s ?c"
    "b_dirty (bufs b i) \<or> b_data (bufs b i) = disk b (l_dev (lg s)) ?c"
    "\<forall>j. j \<noteq> i \<longrightarrow> bufs b j = bufs (lb s) j" "view b (l_dev (lg s)) = lview s" "same_log s (s\<lparr>lb := b\<rparr>)" "room k (s\<lparr>lb := b\<rparr>)"
    by (rule hold_block [OF x g(2) nh r h]) blast
  obtain b2 where b2: "brelse me i b = Inr b2" "lstep me H k (lview s) (s\<lparr>lb := b\<rparr>) (s\<lparr>lb := b2\<rparr>)"
    by (rule release_block [OF b(3,2,11)]) (use b(4,5,7,9) in auto)
  note L = lstepD [OF b2(2)]
  have st: "lstep me H k (lview s) s (s\<lparr>lb := b2\<rparr>)"
    using L(1-3) same_log_trans [OF b(10) L(4)] L(5) b(2,8) unfolding lstep_def by auto
  have "blk_used (lview s) sb c" if "c < Suc j * BPB" "c < unat (sb_size sb)" "\<forall>b < j * BPB. blk_used (lview s) sb b" for c
  proof (cases "c < j * BPB")
    case False
    define i where "i = c - j * BPB"
    have i: "c = j * BPB + i" using False by (simp add: i_def)
    then have "i < BPB" using that(1) by simp
    then show ?thesis using f i that(2) BBLOCK_chunk [of i j sb] by (auto simp: blk_used_def find_None_iff)
  qed (use that in blast)
  moreover have "balloc_from me (l_dev (lg s)) sb (j * BPB # bs) s = balloc_from me (l_dev (lg s)) sb bs (s\<lparr>lb := b2\<rparr>)"
    using b(1,6) f b2(1) by simp
  ultimately show thesis using that [OF st] by simp
qed

lemma apart_step: "apart sb V H s \<Longrightarrow> lstep me H k V s t \<Longrightarrow> apart sb V H t"
  using lstepD(5) [of me H k V s t] by (simp add: apart_def)

lemma balloc_post_step:
  assumes "lstep me H j (lview s) s t" and "succeeds m (balloc_post me H k sb t)"
  shows "succeeds m (balloc_post me H k sb s)"
  using assms(2)
proof (rule succeeds_mono)
  fix x
  assume "balloc_post me H k sb t x"
  then show "balloc_post me H k sb s x"
    using lstepD(3) [OF assms(1)] lstep_trans [OF assms(1)] by (auto simp: balloc_post_def)
qed

lemma bitmap_ok_step: "bitmap_ok sb (lg s) V \<Longrightarrow> lstep me H k W s t \<Longrightarrow> bitmap_ok sb (lg t) V"
  using lstepD(7) [of me H k W s t] by (simp add: bitmap_ok_def)

lemma balloc_from_ok:
  assumes "txs me H s" and "room (Suc (Suc k)) s" and "card H \<le> k" and "bitmap_ok sb (lg s) (lview s)" and "apart sb (lview s) H s"
    and "\<forall>b < j * BPB. blk_used (lview s) sb b" and "a < unat (sb_size sb)" and "\<not> blk_used (lview s) sb a" and "a < (j + m) * BPB"
    and "(j + m - 1) * BPB < unat (sb_size sb)"
  shows "succeeds (balloc_from me (l_dev (lg s)) sb (map (\<lambda>k. k * BPB) [j..<j + m]) s) (balloc_post me H k sb s)"
  using assms
proof (induction m arbitrary: j s)
  case 0
  then show ?case by auto
next
  case (Suc m)
  let ?P = "\<lambda>bi. j * BPB + bi < unat (sb_size sb) \<and> \<not> bit_used (lview s (BBLOCK (j * BPB) sb)) bi"
  have ups: "map (\<lambda>k. k * BPB) [j..<j + Suc m] = j * BPB # map (\<lambda>k. k * BPB) [Suc j..<Suc j + m]" by (simp add: upt_conv_Cons)
  have "j * BPB \<le> (j + Suc m - 1) * BPB" by simp
  then have jb: "j * BPB < unat (sb_size sb)" using Suc.prems(10) by linarith
  show ?case
  proof (cases "find ?P [0..<BPB]")
    case (Some bi)
    show ?thesis unfolding ups by (rule balloc_chunk_hit [OF Suc.prems(1-6) Some])
  next
    case None
    obtain t where t: "lstep me H (Suc (Suc k)) (lview s) s t"
      "balloc_from me (l_dev (lg s)) sb (j * BPB # map (\<lambda>k. k * BPB) [Suc j..<Suc j + m]) s =
       balloc_from me (l_dev (lg t)) sb (map (\<lambda>k. k * BPB) [Suc j..<Suc j + m]) t"
      "\<And>b. b < Suc j * BPB \<Longrightarrow> b < unat (sb_size sb) \<Longrightarrow> \<forall>b < j * BPB. blk_used (lview s) sb b \<Longrightarrow> blk_used (lview s) sb b"
      by (rule balloc_chunk_miss [OF Suc.prems(1,2) _ Suc.prems(4,5) jb None]) (use Suc.prems(3) in auto)
    note L = lstepD [OF t(1)]
    have lo: "Suc j * BPB \<le> a" using t(3) Suc.prems(6-8) by (metis not_less)
    have "succeeds (balloc_from me (l_dev (lg t)) sb (map (\<lambda>k. k * BPB) [Suc j..<Suc j + m]) t) (balloc_post me H k sb t)"
    proof (rule Suc.IH [OF L(1,2) Suc.prems(3)])
      show "bitmap_ok sb (lg t) (lview t)" using bitmap_ok_step [OF Suc.prems(4) t(1)] L(3) by simp
      show "apart sb (lview t) H t" using apart_step [OF Suc.prems(5) t(1)] L(3) by simp
      show "\<forall>b < Suc j * BPB. blk_used (lview t) sb b" using t(3) Suc.prems(6) lo Suc.prems(7) unfolding L(3) by (meson less_le_trans less_trans)
      show "a < unat (sb_size sb)" "\<not> blk_used (lview t) sb a" "a < (Suc j + m) * BPB" "(Suc j + m - 1) * BPB < unat (sb_size sb)"
        using Suc.prems(7-10) L(3) by simp_all
    qed
    then show ?thesis unfolding ups t(2) by (rule balloc_post_step [OF t(1)])
  qed
qed

lemma balloc_ok:
  assumes "txs me H s" and "room (Suc (Suc k)) s" and "card H \<le> k" and "bitmap_ok sb (lg s) (lview s)" and "apart sb (lview s) H s"
    and a: "a < unat (sb_size sb)" "\<not> blk_used (lview s) sb a"
  shows "succeeds (balloc me (l_dev (lg s)) sb s) (balloc_post me H k sb s)"
proof -
  let ?n = "unat (sb_size sb)"
  let ?m = "(?n + BPB - 1) div BPB"
  have "?n \<le> ?m * BPB \<and> (?m - 1) * BPB < ?n"
  proof -
    have "?n - 1 + BPB = ?n + BPB - 1" using a(1) by simp
    then have "?m = (?n - 1) div BPB + 1" by (metis BPB_pos div_add_self2 less_irrefl)
    moreover obtain q r where "?n - 1 = q * BPB + r" "r < BPB" "(?n - 1) div BPB = q"
      by (metis BPB_pos div_mult_mod_eq mod_less_divisor)
    ultimately show ?thesis using a(1) by auto
  qed
  with balloc_from_ok [OF assms(1-5), where j = 0 and a = a and m = ?m] a show ?thesis by (simp add: balloc_def)
qed

lemma bfree_ok:
  assumes x: "txs me H s" and r: "room (Suc k) s" and h: "card H \<le> k" and ok: "bitmap_ok sb (lg s) (lview s)" and ap: "apart sb (lview s) H s"
    and b: "b < unat (sb_size sb)" and u: "blk_used (lview s) sb b"
  shows "succeeds (bfree me (l_dev (lg s)) sb b s) (lstep me H k ((lview s)(BBLOCK b sb := clear_used (b mod BPB) (lview s (BBLOCK b sb)))) s)"
proof -
  let ?c = "BBLOCK b sb"
  note g = bitmap_okD [OF ok b]
  have nh: "\<forall>i \<in> H. b_blockno (bufs (lb s) i) \<noteq> ?c" using ap b unfolding apart_def by metis
  have "succeeds (wr_block me (l_dev (lg s)) ?c (clear_used (b mod BPB)) s)
     (lstep me H k ((lview s)(?c := clear_used (b mod BPB) (lview s ?c))) s)"
    by (rule wr_block_ok [OF x g(2,3) nh r]) (use h in simp)
  moreover have "bfree me (l_dev (lg s)) sb b s = wr_block me (l_dev (lg s)) ?c (clear_used (b mod BPB)) s"
  proof -
    obtain i v where "bread me (l_dev (lg s)) ?c (lb s) = Inr (i, v)" "b_data (bufs v i) = lview s ?c"
      by (rule hold_block [OF x g(2) nh r]) (use h in auto)
    with u show ?thesis by (simp add: bfree_def wr_block_def blk_used_def)
  qed
  ultimately show ?thesis by simp
qed

lemma bitmap_ok_alloc:
  assumes ok: "bitmap_ok sb l V" and a: "a < unat (sb_size sb)" "\<not> blk_used V sb a"
  shows "b < unat (sb_size sb) \<Longrightarrow> blk_used (balloc_view sb a V) sb b \<longleftrightarrow> b = a \<or> blk_used V sb b" and "bitmap_ok sb l (balloc_view sb a V)"
proof -
  have at: "balloc_view sb a V (BBLOCK c sb) = (V(BBLOCK a sb := set_used (a mod BPB) (V (BBLOCK a sb)))) (BBLOCK c sb)"
    if "c < unat (sb_size sb)" for c
    using bitmap_okD(6) [OF ok a(1) a(2) that] by (simp add: balloc_view_def)
  show us: "blk_used (balloc_view sb a V) sb b \<longleftrightarrow> b = a \<or> blk_used V sb b" if "b < unat (sb_size sb)" for b
    using blk_used_set [OF ok a(1), of b] at [OF that] by (simp add: blk_used_def)
  have len: "length (balloc_view sb a V (BBLOCK c sb)) = BSIZE" if "c < unat (sb_size sb)" for c
    using at [OF that] bitmap_okD(4) [OF ok that] bitmap_okD(4) [OF ok a(1)] by (simp add: set_used_def)
  show "bitmap_ok sb l (balloc_view sb a V)"
    using ok us len unfolding bitmap_ok_def by metis
qed

section \<open>Properties\<close>

text \<open>C28. In a transaction with room for two blocks, \<open>balloc\<close> on a bitmap that is in order and not full ends without panic
  with the first free block; that block is then marked and reads as zeros, every other block of the file system
  keeps its mark, and no other block outside the bitmap changes.\<close>

theorem balloc_first_free:
  assumes "tx_ready me s" and "room 2 s" and ok: "bitmap_ok sb (lg s) (lview s)" and "c < unat (sb_size sb)" and "\<not> blk_used (lview s) sb c"
  shows "succeeds (balloc me (l_dev (lg s)) sb s) (\<lambda>(a, t). a < unat (sb_size sb) \<and> \<not> blk_used (lview s) sb a \<and>
    (\<forall>b < a. blk_used (lview s) sb b) \<and> (\<forall>b < unat (sb_size sb). blk_used (lview t) sb b \<longleftrightarrow> b = a \<or> blk_used (lview s) sb b) \<and>
    lview t a = replicate BSIZE 0 \<and> (\<forall>b. b \<noteq> a \<longrightarrow> b \<noteq> BBLOCK a sb \<longrightarrow> lview t b = lview s b) \<and>
    bitmap_ok sb (lg t) (lview t) \<and> tx_ready me t)"
proof -
  have "succeeds (balloc me (l_dev (lg s)) sb s) (balloc_post me {} 0 sb s)"
    by (rule balloc_ok) (use assms in \<open>simp_all add: apart_def numeral_2_eq_2\<close>)
  then show ?thesis
  proof (rule succeeds_mono, clarify)
    fix a t
    assume "balloc_post me {} 0 sb s (a, t)"
    then have a: "a < unat (sb_size sb)" "\<not> blk_used (lview s) sb a" "\<forall>b < a. blk_used (lview s) sb b"
      and st: "lstep me {} 0 (balloc_view sb a (lview s)) s t" by (simp_all add: balloc_post_def)
    note L = lstepD [OF st] and B = bitmap_ok_alloc [OF ok a(1,2)]
    have "lview t a = replicate BSIZE 0 \<and> (\<forall>b. b \<noteq> a \<longrightarrow> b \<noteq> BBLOCK a sb \<longrightarrow> lview t b = lview s b)"
      unfolding L(3) by (simp add: balloc_view_def)
    moreover have "bitmap_ok sb (lg t) (lview t)" unfolding L(3) by (rule bitmap_ok_step [OF B(2) st])
    moreover have "\<forall>b < unat (sb_size sb). blk_used (lview t) sb b \<longleftrightarrow> b = a \<or> blk_used (lview s) sb b" using B(1) unfolding L(3) by blast
    ultimately show "a < unat (sb_size sb) \<and> \<not> blk_used (lview s) sb a \<and>
      (\<forall>b < a. blk_used (lview s) sb b) \<and> (\<forall>b < unat (sb_size sb). blk_used (lview t) sb b \<longleftrightarrow> b = a \<or> blk_used (lview s) sb b) \<and>
      lview t a = replicate BSIZE 0 \<and> (\<forall>b. b \<noteq> a \<longrightarrow> b \<noteq> BBLOCK a sb \<longrightarrow> lview t b = lview s b) \<and>
      bitmap_ok sb (lg t) (lview t) \<and> tx_ready me t" using a L(1) by blast
  qed
qed

text \<open>A file system of 64 blocks: log at 2, bitmap at 33, blocks 0 to 39 in use.\<close>

definition demo_sb :: superblock where
  "demo_sb = \<lparr>sb_size = 64, sb_nblocks = 30, sb_ninodes = 8, sb_nlog = 30, sb_logstart = 2, sb_inodestart = 32, sb_bmapstart = 33\<rparr>"

definition demo_fs :: disk where
  "demo_fs dv b = (if b = 33 then replicate 5 255 @ replicate 507 0 else replicate BSIZE 0)"

lemma demo_fs_used: "b < 64 \<Longrightarrow> blk_used (demo_fs 1) demo_sb b \<longleftrightarrow> b < 40"
proof -
  assume b: "b < 64"
  then have e: "b mod BPB = b" "BBLOCK b demo_sb = 33" by (simp_all add: BPB_def BSIZE_def BBLOCK_def demo_sb_def)
  have "b div 8 < 5 \<longleftrightarrow> b < 40" by auto
  then have "demo_fs 1 33 ! (b div 8) = (if b < 40 then 255 else 0)" using b by (auto simp: demo_fs_def nth_append)
  moreover have "bit (255 :: u8) (b mod 8)"
  proof -
    have "(255 :: u8) = mask 8" by (simp add: mask_eq_exp_minus_1)
    moreover have "bit (mask 8 :: u8) (b mod 8)" by (simp add: bit_mask_iff)
    ultimately show ?thesis by simp
  qed
  ultimately show ?thesis by (simp add: blk_used_def e bit_used_iff)
qed

lemma demo_fs_ok: "bitmap_ok demo_sb (lg (boot_tx demo_fs)) (demo_fs 1)"
proof -
  have "BBLOCK b demo_sb = 33" if "b < 64" for b using that by (simp add: BPB_def BSIZE_def BBLOCK_def demo_sb_def)
  then show ?thesis
    using demo_fs_used by (auto simp: bitmap_ok_def) (simp_all add: demo_sb_def FSSIZE_def demo_fs_def BSIZE_def)
qed

theorem balloc_first_free_witness:
  "succeeds (balloc 1 1 demo_sb (boot_tx demo_fs)) (\<lambda>(a, t). a < 64 \<and> \<not> blk_used (demo_fs 1) demo_sb a \<and>
    (\<forall>b < a. blk_used (demo_fs 1) demo_sb b) \<and> (\<forall>b < 64. blk_used (lview t) demo_sb b \<longleftrightarrow> b = a \<or> blk_used (demo_fs 1) demo_sb b) \<and>
    lview t a = replicate BSIZE 0 \<and> (\<forall>b. b \<noteq> a \<longrightarrow> b \<noteq> BBLOCK a demo_sb \<longrightarrow> lview t b = demo_fs 1 b) \<and>
    bitmap_ok demo_sb (lg t) (lview t) \<and> tx_ready 1 t)"
proof -
  have d: "demo_fs 1 2 = replicate BSIZE 0" by (simp add: demo_fs_def)
  note r = boot_tx_ready [where d = demo_fs, OF d]
  show ?thesis
    using balloc_first_free [OF r(1) [of 1] r(3), of demo_sb 40] demo_fs_ok demo_fs_used [of 40] r(2) by (simp add: demo_sb_def)
qed

text \<open>\<open>bfree\<close> takes back what \<open>balloc\<close> did: allocating a block and freeing it in the same transaction ends without
  panic, and leaves every block as it was, but for the zeros in the block that was allocated.\<close>

lemma balloc_bfree_roundtrip:
  assumes "tx_ready me s" and "room 3 s" and ok: "bitmap_ok sb (lg s) (lview s)" and "c < unat (sb_size sb)" and "\<not> blk_used (lview s) sb c"
  shows "succeeds (bindE (balloc me (l_dev (lg s)) sb s) (\<lambda>(a, t). bindE (bfree me (l_dev (lg s)) sb a t) (\<lambda>u. Inr (a, u))))
    (\<lambda>(a, u). \<not> blk_used (lview s) sb a \<and> lview u = (lview s)(a := replicate BSIZE 0))"
proof (rule succeeds_bindE)
  show "succeeds (balloc me (l_dev (lg s)) sb s) (balloc_post me {} (Suc 0) sb s)"
    by (rule balloc_ok) (use assms in \<open>simp_all add: apart_def numeral_3_eq_3\<close>)
  fix p
  assume p: "balloc_post me {} (Suc 0) sb s p"
  obtain a t where at: "p = (a, t)" by force
  have a: "a < unat (sb_size sb)" "\<not> blk_used (lview s) sb a" and st: "lstep me {} (Suc 0) (balloc_view sb a (lview s)) s t"
    using p by (simp_all add: balloc_post_def at)
  note L = lstepD [OF st] and B = bitmap_ok_alloc [OF ok a(1,2)]
  let ?c = "BBLOCK a sb"
  have ca: "?c \<noteq> a" by (rule bitmap_okD(6) [OF ok a a(1)])
  have "clear_used (a mod BPB) (set_used (a mod BPB) (lview s ?c)) = lview s ?c"
    by (rule clear_set_used) (use bitmap_okD(4,7) [OF ok a(1)] a(2) in \<open>simp_all add: blk_used_def\<close>)
  then have v: "(lview t)(?c := clear_used (a mod BPB) (lview t ?c)) = (lview s)(a := replicate BSIZE 0)"
    using ca unfolding L(3) by (auto simp: balloc_view_def)
  have "succeeds (bfree me (l_dev (lg t)) sb a t) (lstep me {} 0 ((lview t)(?c := clear_used (a mod BPB) (lview t ?c))) t)"
    by (rule bfree_ok [OF L(1,2)]) (use bitmap_ok_step [OF B(2) st] B(1) [OF a(1)] a in \<open>simp_all add: L(3) apart_def\<close>)
  then show "succeeds (case p of (a, t) \<Rightarrow> bindE (bfree me (l_dev (lg s)) sb a t) (\<lambda>u. Inr (a, u)))
    (\<lambda>(a, u). \<not> blk_used (lview s) sb a \<and> lview u = (lview s)(a := replicate BSIZE 0))"
    using a(2) unfolding v by (auto simp: at L(6) elim!: succeedsE dest: lstepD(3))
qed

end
