(* ===== verification/FsInode.thy ===== *)
theory FsInode
  imports FsOps
begin

text \<open>
  Inodes on disk and the contents of files: the layout of \<open>struct dinode\<close>, \<open>iupdate\<close> and \<open>ilock\<close> against the table of inodes,
  and \<open>readi\<close> and \<open>writei\<close> against the bytes of a file whose blocks are allocated.
\<close>

section \<open>The layout of an inode\<close>

lemma fold_put32:
  fixes q n :: nat and f :: "nat \<Rightarrow> u32"
  defines "g \<equiv> \<lambda>n d. fold (\<lambda>k. put32 (q + 4 * k) (f k)) [0..<n] d"
  shows "length (g n d) = length d" and "j < q \<or> q + 4 * n \<le> j \<Longrightarrow> g n d ! j = d ! j"
    and "k < n \<Longrightarrow> q + 4 * n \<le> length d \<Longrightarrow> get32 (g n d) (q + 4 * k) = f k"
proof -
  have len: "length (g n d) = length d" for n by (induction n) (simp_all add: g_def)
  then show "length (g n d) = length d" .
  show "j < q \<or> q + 4 * n \<le> j \<Longrightarrow> g n d ! j = d ! j" by (induction n) (auto simp: g_def nth_put32_other)
  show "k < n \<Longrightarrow> q + 4 * n \<le> length d \<Longrightarrow> get32 (g n d) (q + 4 * k) = f k"
  proof (induction n)
    case (Suc n)
    have g: "g (Suc n) d = put32 (q + 4 * n) (f n) (g n d)" by (simp add: g_def)
    show ?case
    proof (cases "k = n")
      case True
      then show ?thesis using Suc.prems len [of n] by (simp add: g)
    next
      case False
      then show ?thesis using Suc by (simp add: g)
    qed
  qed simp
qed

lemma get16_cong: "d ! p = e ! p \<Longrightarrow> d ! (p + 1) = e ! (p + 1) \<Longrightarrow> get16 d p = get16 e p"
  by (simp add: get16_def)

lemma get32_cong: "(\<And>j. p \<le> j \<Longrightarrow> j < p + 4 \<Longrightarrow> d ! j = e ! j) \<Longrightarrow> get32 d p = get32 e p"
  by (simp add: get32_def)

lemma nth_put16_other: "j < p \<or> p + 2 \<le> j \<Longrightarrow> put16 p v d ! j = d ! j"
  by (auto simp: put16_def nth_list_update)

lemma length_put_dinode [simp]: "length (put_dinode p x d) = length d"
  using fold_put32(1) [where q = "p + 12" and f = "\<lambda>k. di_addrs x ! k"] by (simp add: put_dinode_def)

lemma nth_put_dinode_other: "j < p \<or> p + DINODE_SIZE \<le> j \<Longrightarrow> put_dinode p x d ! j = d ! j"
  using fold_put32(2) [where q = "p + 12" and n = "NDIRECT + 1" and f = "\<lambda>k. di_addrs x ! k" and j = j]
  by (auto simp: put_dinode_def DINODE_SIZE_def NDIRECT_def nth_put16_other nth_put32_other)

lemma get_put_dinode:
  assumes p: "p + DINODE_SIZE \<le> length d" and a: "length (di_addrs x) = NDIRECT + 1"
  shows "get_dinode (put_dinode p x d) p = x"
proof -
  let ?e = "put32 (p + 8) (di_size x) (put16 (p + 6) (di_nlink x) (put16 (p + 4) (di_minor x) (put16 (p + 2) (di_major x) (put16 p (di_type x) d))))"
  let ?g = "fold (\<lambda>k. put32 (p + 12 + 4 * k) (di_addrs x ! k)) [0..<NDIRECT + 1] ?e"
  have g: "put_dinode p x d = ?g" by (simp add: put_dinode_def)
  note f = fold_put32 [where q = "p + 12" and f = "\<lambda>k. di_addrs x ! k" and d = ?e and n = "NDIRECT + 1"]
  have lo: "?g ! j = ?e ! j" if "j < p + 12" for j using f(2) that by blast
  have "get16 ?g q = get16 ?e q" if "q + 1 < p + 12" for q using that by (intro get16_cong lo) simp_all
  moreover have "get32 ?g (p + 8) = get32 ?e (p + 8)" by (intro get32_cong lo) simp
  moreover have "get32 ?g (p + 12 + 4 * k) = di_addrs x ! k" if "k < NDIRECT + 1" for k
    using f(3) [OF that] p by (simp add: DINODE_SIZE_def NDIRECT_def)
  then have "map (\<lambda>k. get32 ?g (p + 12 + 4 * k)) [0..<NDIRECT + 1] = di_addrs x"
    using a by (intro nth_equalityI) (simp_all del: upt_Suc)
  ultimately show ?thesis
    unfolding g get_dinode_def using p by (simp add: DINODE_SIZE_def del: upt_Suc)
qed

lemma get_put_dinode_other:
  assumes "q + DINODE_SIZE \<le> p \<or> p + DINODE_SIZE \<le> q"
  shows "get_dinode (put_dinode p x d) q = get_dinode d q"
proof -
  have o: "put_dinode p x d ! j = d ! j" if "q \<le> j" "j < q + DINODE_SIZE" for j
    by (rule nth_put_dinode_other) (use that assms in auto)
  have "get32 (put_dinode p x d) (q + 12 + 4 * k) = get32 d (q + 12 + 4 * k)" if "k < NDIRECT + 1" for k
    by (intro get32_cong o) (use that in \<open>simp_all add: DINODE_SIZE_def NDIRECT_def\<close>)
  moreover have "get16 (put_dinode p x d) j = get16 d j" if "q \<le> j" "j + 1 < q + DINODE_SIZE" for j
    by (intro get16_cong o) (use that in simp_all)
  moreover have "get32 (put_dinode p x d) (q + 8) = get32 d (q + 8)" by (intro get32_cong o) (simp_all add: DINODE_SIZE_def)
  ultimately show ?thesis by (simp add: get_dinode_def DINODE_SIZE_def del: upt_Suc)
qed

section \<open>The table of inodes\<close>

definition dino :: "(nat \<Rightarrow> block) \<Rightarrow> superblock \<Rightarrow> nat \<Rightarrow> dinode" where
  "dino V sb j = get_dinode (V (IBLOCK j sb)) (dpos j)"

lemma dpos_bound: "dpos j + DINODE_SIZE \<le> BSIZE"
proof -
  have "j mod IPB < IPB" by (simp add: IPB_def BSIZE_def DINODE_SIZE_def)
  then have "j mod IPB + 1 \<le> 8" by (simp add: IPB_def BSIZE_def DINODE_SIZE_def)
  then show ?thesis by (simp add: dpos_def BSIZE_def DINODE_SIZE_def)
qed

lemma dino_put:
  assumes "length (V (IBLOCK i sb)) = BSIZE" and "length (di_addrs x) = NDIRECT + 1"
  shows "dino (V(IBLOCK i sb := put_dinode (dpos i) x (V (IBLOCK i sb)))) sb j = (if j = i then x else dino V sb j)"
proof -
  have "dpos j + DINODE_SIZE \<le> dpos i \<or> dpos i + DINODE_SIZE \<le> dpos j" if "j \<noteq> i" "IBLOCK j sb = IBLOCK i sb"
  proof -
    have "j div IPB = i div IPB" using that(2) by (simp add: IBLOCK_def)
    then have "j mod IPB \<noteq> i mod IPB" using that(1) by (metis div_mult_mod_eq)
    then show ?thesis by (simp add: dpos_def DINODE_SIZE_def) linarith
  qed
  with assms dpos_bound [of i] show ?thesis by (simp add: dino_def get_put_dinode get_put_dinode_other)
qed

text \<open>\<open>fstep me k V s t\<close>: the transaction goes on with contents \<open>V\<close> and room for \<open>k\<close> blocks, no buffer is held.\<close>

definition fstep :: "int \<Rightarrow> nat \<Rightarrow> (nat \<Rightarrow> block) \<Rightarrow> fst \<Rightarrow> fst \<Rightarrow> bool" where
  "fstep me k V s t \<longleftrightarrow> lstep me {} k V (fl s) (fl t) \<and> fsb t = fsb s"

lemma fstep_trans: "fstep me j U s t \<Longrightarrow> fstep me k V t u \<Longrightarrow> fstep me k V s u"
  using lstep_trans by (auto simp: fstep_def)

lemma iupdate_ok:
  assumes x: "tx_ready me (fl s)" and r: "room (Suc k) (fl s)" and dv: "i_dev (icache s ip) = l_dev (lg (fl s))"
    and c: "IBLOCK (i_inum (icache s ip)) (fsb s) < FSSIZE" "IBLOCK (i_inum (icache s ip)) (fsb s) \<notin> log_area (lg (fl s))"
  defines "c \<equiv> IBLOCK (i_inum (icache s ip)) (fsb s)"
  shows "succeeds (iupdate me ip s) (\<lambda>t. icache t = icache s \<and>
    fstep me k ((lview (fl s))(c := put_dinode (dpos (i_inum (icache s ip))) (i_d (icache s ip)) (lview (fl s) c))) s t)"
  using wr_block_ok [OF x c _ r, of "put_dinode (dpos (i_inum (icache s ip))) (i_d (icache s ip))"] unfolding c_def
  by (auto simp: iupdate_def on_l_def dv fstep_def Let_def elim!: succeedsE)

lemma ilock_ok:
  assumes x: "tx_ready me (fl s)" and r: "room k (fl s)" and rf: "i_ref (icache s ip) \<ge> 1" and lk: "acquiresleep me (i_lock (icache s ip)) = Inr l"
    and inv: "\<not> i_valid (icache s ip)" and dv: "i_dev (icache s ip) = l_dev (lg (fl s))" and c: "IBLOCK (i_inum (icache s ip)) (fsb s) < FSSIZE"
    and ty: "di_type (dino (lview (fl s)) (fsb s) (i_inum (icache s ip))) \<noteq> 0"
  shows "succeeds (ilock me (Some ip) s) (\<lambda>t. fstep me k (lview (fl s)) s t \<and>
    icache t = (icache s)(ip := (icache s ip)\<lparr>i_lock := l, i_d := dino (lview (fl s)) (fsb s) (i_inum (icache s ip)), i_valid := True\<rparr>))"
proof -
  obtain t where t: "rd_block me (l_dev (lg (fl s))) (IBLOCK (i_inum (icache s ip)) (fsb s)) (fl s) =
      Inr (lview (fl s) (IBLOCK (i_inum (icache s ip)) (fsb s)), t)" "lstep me {} k (lview (fl s)) (fl s) t"
    using rd_block_ok [OF x c _ r] by (auto elim!: succeedsE)
  then show ?thesis using rf lk inv dv ty
    by (simp add: ilock_def upd_i_def Let_def fstep_def dino_def)
qed

section \<open>The blocks of a file\<close>

definition baddr :: "(nat \<Rightarrow> block) \<Rightarrow> dinode \<Rightarrow> nat \<Rightarrow> u32" where
  "baddr V d bn = (if bn < NDIRECT then di_addrs d ! bn else get32 (V (unat (di_addrs d ! NDIRECT))) (4 * (bn - NDIRECT)))"

definition fblk :: "(nat \<Rightarrow> block) \<Rightarrow> dinode \<Rightarrow> nat \<Rightarrow> nat" where
  "fblk V d bn = unat (baddr V d bn)"

definition fbyte :: "(nat \<Rightarrow> block) \<Rightarrow> dinode \<Rightarrow> nat \<Rightarrow> u8" where
  "fbyte V d i = V (fblk V d (i div BSIZE)) ! (i mod BSIZE)"

text \<open>The first \<open>m\<close> blocks of the file are allocated; they are apart from each other, from the indirect block, from the block of
  the inode \<open>ib\<close> and from the log.\<close>

definition file_ok :: "log \<Rightarrow> nat \<Rightarrow> (nat \<Rightarrow> block) \<Rightarrow> dinode \<Rightarrow> nat \<Rightarrow> bool" where
  "file_ok l ib V d m \<longleftrightarrow> m \<le> MAXFILE \<and> length (di_addrs d) = NDIRECT + 1 \<and>
     ib < FSSIZE \<and> ib \<notin> log_area l \<and> length (V ib) = BSIZE \<and>
     (NDIRECT < m \<longrightarrow> di_addrs d ! NDIRECT \<noteq> 0 \<and> unat (di_addrs d ! NDIRECT) < FSSIZE \<and> unat (di_addrs d ! NDIRECT) \<noteq> ib) \<and>
     (\<forall>bn < m. baddr V d bn \<noteq> 0 \<and> fblk V d bn < FSSIZE \<and> fblk V d bn \<notin> log_area l \<and> fblk V d bn \<noteq> ib \<and>
        (NDIRECT < m \<longrightarrow> fblk V d bn \<noteq> unat (di_addrs d ! NDIRECT)) \<and> length (V (fblk V d bn)) = BSIZE) \<and>
     (\<forall>a < m. \<forall>b < m. fblk V d a = fblk V d b \<longrightarrow> a = b)"

lemma file_okD:
  assumes "file_ok l ib V d m"
  shows "m \<le> MAXFILE" and "length (di_addrs d) = NDIRECT + 1" and "ib < FSSIZE" and "ib \<notin> log_area l" and "length (V ib) = BSIZE"
    and "NDIRECT < m \<Longrightarrow> di_addrs d ! NDIRECT \<noteq> 0" and "NDIRECT < m \<Longrightarrow> unat (di_addrs d ! NDIRECT) < FSSIZE"
    and "NDIRECT < m \<Longrightarrow> unat (di_addrs d ! NDIRECT) \<noteq> ib"
    and "bn < m \<Longrightarrow> baddr V d bn \<noteq> 0" and "bn < m \<Longrightarrow> fblk V d bn < FSSIZE" and "bn < m \<Longrightarrow> fblk V d bn \<notin> log_area l"
    and "bn < m \<Longrightarrow> fblk V d bn \<noteq> ib" and "bn < m \<Longrightarrow> NDIRECT < m \<Longrightarrow> fblk V d bn \<noteq> unat (di_addrs d ! NDIRECT)"
    and "bn < m \<Longrightarrow> length (V (fblk V d bn)) = BSIZE" and "a < m \<Longrightarrow> bn < m \<Longrightarrow> fblk V d a = fblk V d bn \<Longrightarrow> a = bn"
  using assms unfolding file_ok_def by blast+

lemma file_ok_cong: "log_area l' = log_area l \<Longrightarrow> file_ok l' ib V d m = file_ok l ib V d m"
  by (simp add: file_ok_def)

text \<open>The addresses do not change when only data blocks and the block of the inode change.\<close>

lemma baddr_upd:
  assumes f: "file_ok l ib V d m" and b: "bn < m" and "c = ib \<or> (\<exists>a < m. c = fblk V d a)"
  shows "baddr (V(c := v)) d bn = baddr V d bn" and "fblk (V(c := v)) d bn = fblk V d bn"
proof -
  have "c \<noteq> unat (di_addrs d ! NDIRECT)" if "NDIRECT < m"
    using file_okD(8,13) [OF f] that assms(3) by metis
  then show "baddr (V(c := v)) d bn = baddr V d bn" using b by (auto simp: baddr_def)
  then show "fblk (V(c := v)) d bn = fblk V d bn" by (simp add: fblk_def)
qed

lemma file_ok_upd:
  assumes f: "file_ok l ib V d m" and c: "c = ib \<or> (\<exists>a < m. c = fblk V d a)" and v: "length v = BSIZE"
  shows "file_ok l ib (V(c := v)) d m"
proof -
  note g = file_okD [OF f] and u = baddr_upd [OF f _ c]
  show ?thesis
    unfolding file_ok_def using g u v by (simp add: u)
qed

lemma bmap_mapped:
  assumes x: "tx_ready me (fl s)" and r: "room k (fl s)" and dv: "i_dev (icache s ip) = l_dev (lg (fl s))"
    and f: "file_ok (lg (fl s)) ib (lview (fl s)) (i_d (icache s ip)) m" and b: "bn < m"
  shows "succeeds (bmap me ip bn s) (\<lambda>(a, t). a = baddr (lview (fl s)) (i_d (icache s ip)) bn \<and>
    icache t = icache s \<and> fstep me k (lview (fl s)) s t)"
proof -
  let ?d = "i_d (icache s ip)" and ?V = "lview (fl s)"
  note g = file_okD [OF f]
  have refl: "lstep me {} k ?V (fl s) (fl s)" using x r by (simp add: lstep_def)
  show ?thesis
  proof (cases "bn < NDIRECT")
    case True
    then have "bmap me ip bn s = Inr (baddr ?V ?d bn, s)" using g(9) [OF b] by (simp add: bmap_def slot_addr_def baddr_def Let_def)
    then show ?thesis using refl by (simp add: fstep_def)
  next
    case False
    let ?ind = "di_addrs ?d ! NDIRECT"
    have nd: "NDIRECT < m" and ni: "bn - NDIRECT < NINDIRECT" using False b g(1) by (auto simp: MAXFILE_def)
    obtain i v where v: "bread me (l_dev (lg (fl s))) (unat ?ind) (lb (fl s)) = Inr (i, v)" "i \<notin> {}" "txs me (insert i {}) ((fl s)\<lparr>lb := v\<rparr>)"
      "b_blockno (bufs v i) = unat ?ind" "b_dev (bufs v i) = l_dev (lg (fl s))" "b_data (bufs v i) = ?V (unat ?ind)"
      "b_dirty (bufs v i) \<or> b_data (bufs v i) = disk v (l_dev (lg (fl s))) (unat ?ind)"
      "view v (l_dev (lg (fl s))) = ?V" "same_log (fl s) ((fl s)\<lparr>lb := v\<rparr>)" "room k ((fl s)\<lparr>lb := v\<rparr>)"
      by (rule hold_block [OF x g(7) [OF nd] _ r]) auto
    obtain w where w: "brelse me i v = Inr w" "lstep me {} k ?V ((fl s)\<lparr>lb := v\<rparr>) ((fl s)\<lparr>lb := w\<rparr>)"
      by (rule release_block [OF v(3,2,10)]) (use v(4,5,7,8) in auto)
    have "lstep me {} k ?V (fl s) ((fl s)\<lparr>lb := w\<rparr>)"
      using lstepD(1-3) [OF w(2)] same_log_trans [OF v(9) lstepD(4) [OF w(2)]] unfolding lstep_def by blast
    moreover have "bmap me ip bn s = Inr (baddr ?V ?d bn, s\<lparr>fl := (fl s)\<lparr>lb := w\<rparr>\<rparr>)"
      using False ni g(6) [OF nd] g(9) [OF b] v(1,6) w(1) dv by (simp add: bmap_def slot_addr_def baddr_def Let_def)
    ultimately show ?thesis by (simp add: fstep_def)
  qed
qed

section \<open>Reading\<close>

lemma fbyte_chunk:
  assumes "length (V (fblk V d (off div BSIZE))) = BSIZE" and "m \<le> BSIZE - off mod BSIZE"
  shows "take m (drop (off mod BSIZE) (V (fblk V d (off div BSIZE)))) = map (fbyte V d) [off..<off + m]"
proof (rule nth_equalityI)
  have ol: "off mod BSIZE < BSIZE" by (simp add: BSIZE_def)
  show "length (take m (drop (off mod BSIZE) (V (fblk V d (off div BSIZE))))) = length (map (fbyte V d) [off..<off + m])"
    using assms by simp
  fix i
  assume "i < length (take m (drop (off mod BSIZE) (V (fblk V d (off div BSIZE)))))"
  then have i: "i < m" "off mod BSIZE + i < BSIZE" using assms by auto
  have "off + i = off div BSIZE * BSIZE + (off mod BSIZE + i)" by simp
  then have "(off + i) div BSIZE = off div BSIZE" "(off + i) mod BSIZE = off mod BSIZE + i" using i(2)
    by (metis div_mult_self3 add.commute div_less add.right_neutral gr_implies_not0, metis mod_mult_self3 mod_less)
  with i assms show "take m (drop (off mod BSIZE) (V (fblk V d (off div BSIZE)))) ! i = map (fbyte V d) [off..<off + m] ! i"
    by (simp add: fbyte_def)
qed

lemma readi_loop_ok:
  assumes "tx_ready me (fl s)" and "room k (fl s)" and "i_dev (icache s ip) = l_dev (lg (fl s))"
    and "file_ok (lg (fl s)) ib (lview (fl s)) (i_d (icache s ip)) m" and "off + n \<le> m * BSIZE"
  shows "succeeds (readi_loop me ip off n acc s) (\<lambda>(xs, t). xs = acc @ map (fbyte (lview (fl s)) (i_d (icache s ip))) [off..<off + n] \<and>
    icache t = icache s \<and> fstep me k (lview (fl s)) s t)"
  using assms
proof (induction n arbitrary: off acc s rule: less_induct)
  case (less n)
  let ?V = "lview (fl s)" and ?d = "i_d (icache s ip)" and ?bn = "off div BSIZE" and ?m = "min n (BSIZE - off mod BSIZE)"
  note g = file_okD [OF less.prems(4)]
  show ?case
  proof (cases "n = 0")
    case True
    then show ?thesis using less.prems by (simp add: readi_loop.simps fstep_def lstep_def)
  next
    case False
    have m0: "0 < ?m" using False by (simp add: BSIZE_def)
    have bn: "?bn < m" using less.prems(5) False by (intro less_mult_imp_div_less) linarith
    obtain s1 where s1: "bmap me ip ?bn s = Inr (baddr ?V ?d ?bn, s1)" "icache s1 = icache s" "fstep me k ?V s s1"
      using bmap_mapped [OF less.prems(1-4) bn] by (auto elim!: succeedsE)
    have L: "lstep me {} k ?V (fl s) (fl s1)" using s1(3) by (simp add: fstep_def)
    note L1 = lstepD [OF L]
    obtain t where t: "rd_block me (l_dev (lg (fl s1))) (fblk ?V ?d ?bn) (fl s1) = Inr (?V (fblk ?V ?d ?bn), t)" "lstep me {} k ?V (fl s1) t"
      using rd_block_ok [OF L1(1) g(10) [OF bn] _ L1(2)] L1(3) by (auto elim!: succeedsE)
    let ?t = "s1\<lparr>fl := t\<rparr>"
    note L2 = lstepD [OF lstep_trans [OF L t(2)]]
    let ?acc = "acc @ map (fbyte ?V ?d) [off..<off + ?m]"
    have st: "fstep me k ?V s ?t" using lstep_trans [OF L t(2)] s1(3) by (simp add: fstep_def)
    have "succeeds (readi_loop me ip (off + ?m) (n - ?m) ?acc ?t) (\<lambda>(xs, u).
       xs = ?acc @ map (fbyte (lview (fl ?t)) (i_d (icache ?t ip))) [off + ?m..<off + ?m + (n - ?m)] \<and>
       icache u = icache ?t \<and> fstep me k (lview (fl ?t)) ?t u)"
      by (rule less.IH) (use m0 L2 less.prems False in \<open>simp_all add: s1(2) file_ok_def\<close>)
    then have "succeeds (readi_loop me ip (off + ?m) (n - ?m) ?acc ?t) (\<lambda>(xs, u).
       xs = ?acc @ map (fbyte ?V ?d) [off + ?m..<off + ?m + (n - ?m)] \<and> icache u = icache s \<and> fstep me k ?V s u)"
      by (rule succeeds_mono) (use fstep_trans [OF st] L2(3) s1(2) in auto)
    moreover have "readi_loop me ip off n acc s = readi_loop me ip (off + ?m) (n - ?m) (acc @ map (fbyte ?V ?d) [off..<off + ?m]) ?t"
    proof -
      obtain i b1 b2 where "bread me (l_dev (lg (fl s1))) (fblk ?V ?d ?bn) (lb (fl s1)) = Inr (i, b1)" "brelse me i b1 = Inr b2"
        "b_data (bufs b1 i) = ?V (fblk ?V ?d ?bn)" "t = (fl s1)\<lparr>lb := b2\<rparr>"
        using t(1) by (auto simp: rd_block_def bindE_def Let_def split: sum.splits)
      with False s1 less.prems(3) L1(6) fbyte_chunk [of ?V ?d off ?m] g(14) [OF bn] show ?thesis
        by (subst readi_loop.simps) (simp add: fblk_def Let_def)
    qed
    moreover have "map (fbyte ?V ?d) [off..<off + ?m] @ map (fbyte ?V ?d) [off + ?m..<off + ?m + (n - ?m)] = map (fbyte ?V ?d) [off..<off + n]"
      using upt_add_eq_append [of off "off + ?m" "n - ?m"] by (simp flip: map_append)
    ultimately show ?thesis by simp
  qed
qed

section \<open>Writing\<close>

definition overlay :: "nat \<Rightarrow> u8 list \<Rightarrow> block \<Rightarrow> block" where
  "overlay p xs d = take p d @ xs @ drop (p + length xs) d"

lemma overlay_simps:
  assumes "p + length xs \<le> length d"
  shows "length (overlay p xs d) = length d" and "i < length d \<Longrightarrow> overlay p xs d ! i = (if p \<le> i \<and> i < p + length xs then xs ! (i - p) else d ! i)"
  using assms by (auto simp: overlay_def nth_append)

lemma fbyte_overlay:
  assumes f: "file_ok l ib V d M" and o: "off div BSIZE < M" and m: "m \<le> BSIZE - off mod BSIZE" and l: "length xs = m" and i: "i < M * BSIZE"
  defines "c \<equiv> fblk V d (off div BSIZE)"
  shows "fbyte (V(c := overlay (off mod BSIZE) xs (V c))) d i = (if off \<le> i \<and> i < off + m then xs ! (i - off) else fbyte V d i)"
proof -
  let ?W = "V(c := overlay (off mod BSIZE) xs (V c))"
  note g = file_okD [OF f]
  have B: "0 < BSIZE" by (simp add: BSIZE_def)
  have len: "length (V c) = BSIZE" using g(14) [OF o] by (simp add: c_def)
  have bi: "i div BSIZE < M" using i by (simp add: less_mult_imp_div_less)
  have w: "fblk ?W d (i div BSIZE) = fblk V d (i div BSIZE)" by (rule baddr_upd(2) [OF f bi]) (use o c_def in blast)
  have fit: "off mod BSIZE + length xs \<le> length (V c)" using m l len B mod_less_divisor [of BSIZE off] by linarith
  have oe: "off = off div BSIZE * BSIZE + off mod BSIZE" and ie: "i = i div BSIZE * BSIZE + i mod BSIZE" and im: "i mod BSIZE < BSIZE"
    using B by simp_all
  show ?thesis
  proof (cases "i div BSIZE = off div BSIZE")
    case True
    define q a b where "q = off div BSIZE" and "a = off mod BSIZE" and "b = i mod BSIZE"
    have "off = q * BSIZE + a" "i = q * BSIZE + b" using oe ie True by (simp_all add: q_def a_def b_def)
    then have "off \<le> i \<and> i < off + m \<longleftrightarrow> a \<le> b \<and> b < a + m" "i - off = b - a" by simp_all
    note e = this [unfolded a_def b_def]
    have "fbyte ?W d i = overlay (off mod BSIZE) xs (V c) ! (i mod BSIZE)" using True w by (simp add: fbyte_def c_def)
    also have "\<dots> = (if off \<le> i \<and> i < off + m then xs ! (i - off) else V c ! (i mod BSIZE))"
      using overlay_simps(2) [OF fit] len im l e by simp
    finally show ?thesis using True by (simp add: fbyte_def c_def)
  next
    case False
    then have "fblk V d (i div BSIZE) \<noteq> c" using g(15) [OF bi o] by (auto simp: c_def)
    moreover have "\<not> (off \<le> i \<and> i < off + m)"
    proof
      assume a: "off \<le> i \<and> i < off + m"
      then have "off div BSIZE \<le> i div BSIZE" by (simp add: div_le_mono)
      moreover have "i < Suc (off div BSIZE) * BSIZE" using a m oe mod_less_divisor [OF B, of off] unfolding mult_Suc by linarith
      then have "i div BSIZE < Suc (off div BSIZE)" by (rule less_mult_imp_div_less)
      ultimately show False using False by simp
    qed
    ultimately show ?thesis using w by (auto simp: fbyte_def)
  qed
qed

text \<open>The number of blocks that a write of \<open>n\<close> bytes at \<open>off\<close> touches.\<close>

definition span :: "nat \<Rightarrow> nat \<Rightarrow> nat" where
  "span off n = (if n = 0 then 0 else (off mod BSIZE + n + (BSIZE - 1)) div BSIZE)"

lemma span_step:
  fixes n off :: nat
  assumes "0 < n"
  defines "m \<equiv> min n (BSIZE - off mod BSIZE)"
  shows "Suc (span (off + m) (n - m)) \<le> span off n"
proof (cases "n \<le> BSIZE - off mod BSIZE")
  case True
  have "BSIZE \<le> off mod BSIZE + n + (BSIZE - 1)" using assms(1) by simp
  then have "1 \<le> span off n" using assms(1) by (simp add: span_def div_greater_zero_iff Suc_le_eq BSIZE_def)
  then show ?thesis using True by (simp add: m_def span_def)
next
  case False
  have B: "off mod BSIZE < BSIZE" by (simp add: BSIZE_def)
  have "off + (BSIZE - off mod BSIZE) = off div BSIZE * BSIZE + BSIZE"
    using B div_mult_mod_eq [of off BSIZE] by linarith
  then have "(off + m) mod BSIZE = 0" using False by (simp add: m_def)
  moreover have e: "off mod BSIZE + n + (BSIZE - 1) = (n - m + (BSIZE - 1)) + BSIZE" using False B by (simp add: m_def)
  have "(off mod BSIZE + n + (BSIZE - 1)) div BSIZE = Suc ((n - m + (BSIZE - 1)) div BSIZE)" unfolding e by (simp add: BSIZE_def)
  ultimately show ?thesis using assms(1) by (simp add: span_def)
qed

lemma writei_loop_ok:
  assumes "tx_ready me (fl s)" and "room (span off n + k) (fl s)" and "i_dev (icache s ip) = l_dev (lg (fl s))"
    and "file_ok (lg (fl s)) ib (lview (fl s)) (i_d (icache s ip)) M" and "off + n \<le> M * BSIZE" and "n \<le> length src"
  shows "succeeds (writei_loop me ip off n src s) (\<lambda>t. icache t = icache s \<and>
    (\<exists>W. fstep me k W s t \<and> file_ok (lg (fl s)) ib W (i_d (icache s ip)) M \<and> W ib = lview (fl s) ib \<and>
      (\<forall>i < M * BSIZE. fbyte W (i_d (icache s ip)) i = (if off \<le> i \<and> i < off + n then src ! (i - off) else fbyte (lview (fl s)) (i_d (icache s ip)) i))))"
  using assms
proof (induction n arbitrary: off src s rule: less_induct)
  case (less n)
  let ?V = "lview (fl s)" and ?d = "i_d (icache s ip)" and ?bn = "off div BSIZE" and ?m = "min n (BSIZE - off mod BSIZE)"
  let ?p = "off mod BSIZE" and ?l = "lg (fl s)"
  note g = file_okD [OF less.prems(4)]
  show ?case
  proof (cases "n = 0")
    case True
    then have "lstep me {} k ?V (fl s) (fl s)" using less.prems room_mono [of _ "fl s" k] by (simp add: lstep_def)
    then show ?thesis using True less.prems(4) by (auto simp: writei_loop.simps fstep_def intro!: exI [of _ ?V])
  next
    case False
    have m0: "0 < ?m" using False by (simp add: BSIZE_def)
    have ml: "length (take ?m src) = ?m" using less.prems(6) by simp
    have pm: "?p + ?m \<le> BSIZE"
    proof -
      have "?p < BSIZE" by (simp add: BSIZE_def)
      then show ?thesis by linarith
    qed
    have bn: "?bn < M" using less.prems(5) False by (intro less_mult_imp_div_less) linarith
    let ?c = "fblk ?V ?d ?bn"
    define j where "j = span (off + ?m) (n - ?m) + k"
    have rj: "room (Suc j) (fl s)" using span_step [of n off] False room_mono [OF less.prems(2), of "Suc j"] by (simp add: j_def)
    obtain s1 where s1: "bmap me ip ?bn s = Inr (baddr ?V ?d ?bn, s1)" "icache s1 = icache s" "fstep me (Suc j) ?V s s1"
      using bmap_mapped [OF less.prems(1) rj less.prems(3,4) bn] by (auto elim!: succeedsE)
    have L: "lstep me {} (Suc j) ?V (fl s) (fl s1)" using s1(3) by (simp add: fstep_def)
    note L1 = lstepD [OF L]
    let ?v = "overlay ?p (take ?m src) (?V ?c)"
    have fit: "?p + length (take ?m src) \<le> length (?V ?c)" using g(14) [OF bn] ml pm by simp
    have wb: "wr_block me (l_dev (lg (fl s1))) ?c (overlay ?p (take ?m src)) (fl s1) = 
       bindE (bread me (i_dev (icache s1 ip)) (unat (baddr ?V ?d ?bn)) (lb (fl s1))) (\<lambda>(i, b1).
         wr_held me i (overlay ?p (take ?m src) (b_data (bufs b1 i))) ((fl s1)\<lparr>lb := b1\<rparr>))"
      using L1(6) s1(2) less.prems(3) by (simp add: wr_block_def fblk_def)
    obtain t where t: "wr_block me (l_dev (lg (fl s1))) ?c (overlay ?p (take ?m src)) (fl s1) = Inr t" "lstep me {} j (?V(?c := ?v)) (fl s1) t"
      using wr_block_ok [OF L1(1) g(10) [OF bn] _ _ L1(2), of "overlay ?p (take ?m src)"] g(11) [OF bn] L1(3,7) by (auto elim!: succeedsE)
    let ?t = "s1\<lparr>fl := t\<rparr>" and ?W = "?V(?c := ?v)"
    note L2 = lstepD [OF lstep_trans [OF L t(2)]]
    have st: "fstep me j ?W s ?t" using lstep_trans [OF L t(2)] s1(3) by (simp add: fstep_def)
    have fW: "file_ok ?l ib ?W ?d M" by (rule file_ok_upd [OF less.prems(4)]) (use bn fit g(14) [OF bn] overlay_simps(1) [OF fit] in auto)
    have step: "writei_loop me ip off n src s = writei_loop me ip (off + ?m) (n - ?m) (drop ?m src) ?t"
    proof -
      have sp: "overlay ?p (take ?m src) D = take ?p D @ take ?m src @ drop (?p + ?m) D" for D by (simp only: overlay_def ml)
      obtain i b1 where "bread me (i_dev (icache s1 ip)) (unat (baddr ?V ?d ?bn)) (lb (fl s1)) = Inr (i, b1)"
        "wr_held me i (overlay ?p (take ?m src) (b_data (bufs b1 i))) ((fl s1)\<lparr>lb := b1\<rparr>) = Inr t"
        using t(1) unfolding wb by (auto simp: bindE_def split: sum.splits)
      note w = this [unfolded sp]
      show ?thesis using False s1(1) w by (subst writei_loop.simps) (simp add: Let_def)
    qed
    let ?Q = "\<lambda>s off n src t. icache t = icache s \<and>
      (\<exists>W. fstep me k W s t \<and> file_ok (lg (fl s)) ib W (i_d (icache s ip)) M \<and> W ib = lview (fl s) ib \<and>
        (\<forall>i < M * BSIZE. fbyte W (i_d (icache s ip)) i = (if off \<le> i \<and> i < off + n then src ! (i - off) else fbyte (lview (fl s)) (i_d (icache s ip)) i)))"
    have "succeeds (writei_loop me ip (off + ?m) (n - ?m) (drop ?m src) ?t) (?Q ?t (off + ?m) (n - ?m) (drop ?m src))"
    proof (rule less.IH)
      show "n - ?m < n" using m0 False by simp
      show "tx_ready me (fl ?t)" "room (span (off + ?m) (n - ?m) + k) (fl ?t)" using L2(1,2) by (simp_all add: j_def)
      show "i_dev (icache ?t ip) = l_dev (lg (fl ?t))" using less.prems(3) L2(6) s1(2) by simp
      show "file_ok (lg (fl ?t)) ib (lview (fl ?t)) (i_d (icache ?t ip)) M" using file_ok_cong [OF L2(7)] fW L2(3) s1(2) by simp
      show "off + ?m + (n - ?m) \<le> M * BSIZE" "n - ?m \<le> length (drop ?m src)" using less.prems(5,6) by simp_all
    qed
    then show ?thesis
      unfolding step
    proof (rule succeeds_mono)
      fix u
      assume u: "?Q ?t (off + ?m) (n - ?m) (drop ?m src) u"
      then obtain X where X: "fstep me k X ?t u" "file_ok ?l ib X ?d M" "X ib = ?W ib"
        "\<And>i. i < M * BSIZE \<Longrightarrow> fbyte X ?d i = (if off + ?m \<le> i \<and> i < off + ?m + (n - ?m) then drop ?m src ! (i - (off + ?m)) else fbyte ?W ?d i)"
        using L2(3) file_ok_cong [OF L2(7)] s1(2) by auto
      have "fbyte X ?d i = (if off \<le> i \<and> i < off + n then src ! (i - off) else fbyte ?V ?d i)" if i: "i < M * BSIZE" for i
      proof -
        have "take ?m src ! (i - off) = src ! (i - off)" if "\<not> off + ?m \<le> i" "off \<le> i" using that by (intro nth_take) linarith
        then show ?thesis
          using X(4) [OF i] fbyte_overlay [OF less.prems(4) bn _ ml i] less.prems(6) by (auto simp: nth_drop)
      qed
      moreover have "X ib = ?V ib" using X(3) g(12) [OF bn] by auto
      ultimately show "?Q s off n src u"
        using X(1,2) fstep_trans [OF st X(1)] u s1(2) by auto
    qed
  qed
qed

section \<open>Whole calls\<close>

lemma unat_add_nowrap:
  fixes a b :: u32
  shows "a \<le> a + b \<Longrightarrow> unat (a + b) = unat a + unat b"
  by (metis no_olen_add_nat unat_plus_simple)

lemma sint_small:
  fixes w :: u32
  assumes "unat w < 2 ^ 31"
  shows "sint w = int (unat w)"
  using sint_of_nat [OF assms] by simp

lemma readi_part:
  assumes x: "tx_ready me (fl s)" and r: "room k (fl s)" and dv: "i_dev (icache s ip) = l_dev (lg (fl s))"
    and f: "file_ok (lg (fl s)) ib (lview (fl s)) (i_d (icache s ip)) M" and ty: "di_type (i_d (icache s ip)) \<noteq> T_DEV"
    and b: "unat off + min (unat n) (unat (di_size (i_d (icache s ip))) - unat off) \<le> M * BSIZE" and off: "off \<le> di_size (i_d (icache s ip))" "off \<le> off + n"
  defines "len \<equiv> min (unat n) (unat (di_size (i_d (icache s ip))) - unat off)"
  shows "succeeds (readi D me ip off n s) (\<lambda>((v, xs), t). v = int len \<and>
    xs = map (fbyte (lview (fl s)) (i_d (icache s ip))) [unat off..<unat off + len] \<and> icache t = icache s \<and> fstep me k (lview (fl s)) s t)"
proof -
  let ?d = "i_d (icache s ip)"
  define n' where "n' = (if off + n > di_size ?d then di_size ?d - off else n)"
  have so: "unat (di_size ?d - off) = unat (di_size ?d) - unat off" using off(1) by (simp add: unat_sub)
  have un: "unat n' = len"
    using unat_add_nowrap [OF off(2)] so off(1) by (auto simp: n'_def len_def word_less_nat_alt word_le_nat_alt)
  have M: "M * BSIZE \<le> 71680" using mult_le_mono1 [OF file_okD(1) [OF f], of BSIZE] by (simp add: MAXFILE_def NINDIRECT_def NDIRECT_def BSIZE_def)
  have b: "unat off + len \<le> M * BSIZE" using b by (simp add: len_def)
  then have "sint n' = int len" using M un sint_small [of n'] by simp
  moreover have "\<not> off > di_size ?d" "\<not> off + n < off" using off by auto
  moreover have "succeeds (readi_loop me ip (unat off) len [] s) (\<lambda>(xs, t). xs = [] @ map (fbyte (lview (fl s)) ?d) [unat off..<unat off + len] \<and>
      icache t = icache s \<and> fstep me k (lview (fl s)) s t)"
    by (rule readi_loop_ok [OF x r dv f b])
  ultimately show ?thesis using ty un unfolding readi_def
    by (auto simp: Let_def n'_def [symmetric] elim!: succeedsE)
qed

lemma readi_ok:
  assumes x: "tx_ready me (fl s)" and r: "room k (fl s)" and dv: "i_dev (icache s ip) = l_dev (lg (fl s))"
    and f: "file_ok (lg (fl s)) ib (lview (fl s)) (i_d (icache s ip)) M" and ty: "di_type (i_d (icache s ip)) \<noteq> T_DEV"
    and sz: "unat (di_size (i_d (icache s ip))) \<le> M * BSIZE" and off: "off \<le> di_size (i_d (icache s ip))" "off \<le> off + n"
  shows "succeeds (readi D me ip off n s) (\<lambda>((v, xs), t). v = int (min (unat n) (unat (di_size (i_d (icache s ip))) - unat off)) \<and>
    xs = map (fbyte (lview (fl s)) (i_d (icache s ip))) [unat off..<unat off + min (unat n) (unat (di_size (i_d (icache s ip))) - unat off)] \<and>
    icache t = icache s \<and> fstep me k (lview (fl s)) s t)"
  by (rule readi_part [OF x r dv f ty _ off]) (use sz off(1) in \<open>auto simp: word_le_nat_alt\<close>)

text \<open>The inode in memory after a write that ends at \<open>e\<close>.\<close>

definition grown :: "u32 \<Rightarrow> inode \<Rightarrow> inode" where
  "grown e x = x\<lparr>i_d := (i_d x)\<lparr>di_size := (if e > di_size (i_d x) then e else di_size (i_d x))\<rparr>\<rparr>"

lemma fbyte_size [simp]: "fbyte V (d\<lparr>di_size := z\<rparr>) i = fbyte V d i"
  by (simp add: fbyte_def fblk_def baddr_def)

lemma file_ok_size [simp]: "file_ok l ib V (d\<lparr>di_size := z\<rparr>) m = file_ok l ib V d m"
  by (simp add: file_ok_def fblk_def baddr_def)

lemma writei_ok:
  assumes x: "tx_ready me (fl s)" and r: "room (span (unat off) (unat n) + Suc k) (fl s)" and dv: "i_dev (icache s ip) = l_dev (lg (fl s))"
    and f: "file_ok (lg (fl s)) (IBLOCK (i_inum (icache s ip)) (fsb s)) (lview (fl s)) (i_d (icache s ip)) M"
    and ty: "di_type (i_d (icache s ip)) \<noteq> T_DEV" and off: "off \<le> di_size (i_d (icache s ip))" "off \<le> off + n"
    and b: "unat off + unat n \<le> M * BSIZE" and src: "unat n \<le> length src"
  shows "succeeds (writei D me ip src off n s) (\<lambda>(v, t). v = int (unat n) \<and> icache t = (icache s)(ip := grown (off + n) (icache s ip)) \<and>
    (\<exists>W. fstep me k W s t \<and> file_ok (lg (fl s)) (IBLOCK (i_inum (icache s ip)) (fsb s)) W (i_d (icache s ip)) M \<and>
      (\<forall>i < M * BSIZE. fbyte W (i_d (icache s ip)) i =
         (if unat off \<le> i \<and> i < unat off + unat n then src ! (i - unat off) else fbyte (lview (fl s)) (i_d (icache s ip)) i))))"
proof -
  let ?d = "i_d (icache s ip)" and ?ib = "IBLOCK (i_inum (icache s ip)) (fsb s)" and ?l = "lg (fl s)"
  let ?P = "\<lambda>W. \<forall>i < M * BSIZE. fbyte W ?d i = (if unat off \<le> i \<and> i < unat off + unat n then src ! (i - unat off) else fbyte (lview (fl s)) ?d i)"
  have M: "M * BSIZE \<le> 71680" using mult_le_mono1 [OF file_okD(1) [OF f], of BSIZE] by (simp add: MAXFILE_def NINDIRECT_def NDIRECT_def BSIZE_def)
  have sn: "sint n = int (unat n)" using M b by (intro sint_small) simp
  have nb: "\<not> off + n > of_nat (MAXFILE * BSIZE)"
    using unat_add_nowrap [OF off(2)] b M by (simp add: word_less_nat_alt MAXFILE_def NINDIRECT_def NDIRECT_def BSIZE_def)
  obtain t W where t: "writei_loop me ip (unat off) (unat n) src s = Inr t" "icache t = icache s" "fstep me (Suc k) W s t"
      "file_ok ?l ?ib W ?d M" "W ?ib = lview (fl s) ?ib" "?P W"
    using writei_loop_ok [OF x r dv f b src] by (auto elim!: succeedsE)
  have L: "lstep me {} (Suc k) W (fl s) (fl t)" "fsb t = fsb s" using t(3) by (simp_all add: fstep_def)
  note L1 = lstepD [OF L(1)]
  show ?thesis
  proof (cases "n > 0 \<and> off + n > di_size ?d")
    case False
    then have "\<not> off + n > di_size ?d" using off(1) by (cases "n = 0") (auto simp: word_neq_0_conv)
    then have "grown (off + n) (icache s ip) = icache s ip" by (simp add: grown_def)
    moreover have "fstep me k W s t" using t(3) L1(2) room_mono [of "Suc k" "fl t" k] by (simp add: fstep_def lstep_def)
    moreover have "writei D me ip src off n s = Inr (sint n, t)"
      using False ty off nb t(1,2) unfolding writei_def by (auto simp: Let_def not_less)
    ultimately show ?thesis using t(2,4,6) sn by auto
  next
    case True
    let ?t = "upd_d ip (\<lambda>d. d\<lparr>di_size := off + n\<rparr>) t"
    have it: "icache ?t ip = grown (off + n) (icache s ip)" "icache ?t = (icache s)(ip := grown (off + n) (icache s ip))" "fl ?t = fl t" "fsb ?t = fsb s"
      using True t(2) L(2) by (auto simp: upd_d_def upd_i_def grown_def)
    have in1: "i_inum (icache ?t ip) = i_inum (icache s ip)" "i_dev (icache ?t ip) = i_dev (icache s ip)" by (simp_all add: it(1) grown_def)
    have "succeeds (iupdate me ip ?t) (\<lambda>u. icache u = icache ?t \<and>
      fstep me k ((lview (fl ?t))(?ib := put_dinode (dpos (i_inum (icache ?t ip))) (i_d (icache ?t ip)) (lview (fl ?t) ?ib))) ?t u)"
      using iupdate_ok [of me ?t k ip] L1(1,2,6,7) dv file_okD(3,4) [OF f] by (simp add: it(3,4) in1)
    then obtain u V' v where u: "iupdate me ip ?t = Inr u" "icache u = icache ?t" "fstep me k V' ?t u" "V' = W(?ib := v)" "length v = BSIZE"
      using L1(3) file_okD(5) [OF t(4)] by (auto simp: it(3) elim!: succeedsE)
    have "?P V'"
    proof (intro allI impI)
      fix i
      assume i: "i < M * BSIZE"
      then have bi: "i div BSIZE < M" by (simp add: less_mult_imp_div_less)
      have "fblk V' ?d (i div BSIZE) = fblk W ?d (i div BSIZE)" unfolding u(4) by (rule baddr_upd(2) [OF t(4) bi]) simp
      then have "fbyte V' ?d i = fbyte W ?d i" using file_okD(12) [OF t(4) bi] by (simp add: fbyte_def u(4))
      with t(6) i show "fbyte V' ?d i = (if unat off \<le> i \<and> i < unat off + unat n then src ! (i - unat off) else fbyte (lview (fl s)) ?d i)" by simp
    qed
    moreover have "file_ok ?l ?ib V' ?d M" unfolding u(4) by (rule file_ok_upd [OF t(4)]) (simp_all add: u(5))
    moreover have "fstep me k V' s u" using u(3) fstep_trans [OF t(3), of k V' u] by (simp add: fstep_def it(3,4) L(2))
    moreover have "writei D me ip src off n s = Inr (sint n, u)"
      using True ty off nb t(1,2) u(1) unfolding writei_def by (auto simp: Let_def not_less)
    ultimately show ?thesis using sn u(2) it(2) by auto
  qed
qed

end
