(* ===== verification/FsProps.thy ===== *)
theory FsProps
  imports FsInode
begin

text \<open>
  Properties of inodes, files, names and paths: what \<open>iupdate\<close> stores \<open>ilock\<close> loads, what \<open>writei\<close> stores \<open>readi\<close> returns, and
  \<open>skipelem\<close> splits a path as a reference definition does.
\<close>

section \<open>A disk with one file\<close>

definition demo_dinode :: dinode where
  "demo_dinode = \<lparr>di_type = 2, di_major = 0, di_minor = 0, di_nlink = 1, di_size = 600, di_addrs = [40, 41, 0, 0, 0, 0, 0, 0, 0, 0, 0, 0, 0]\<rparr>"

definition demo_files :: fst where
  "demo_files = \<lparr>fl = boot_tx (\<lambda>_ b. if b = 40 then replicate BSIZE 65 else if b = 41 then replicate BSIZE 66 else replicate BSIZE 0),
     fsb = \<lparr>sb_size = 64, sb_nblocks = 30, sb_ninodes = 8, sb_nlog = 30, sb_logstart = 2, sb_inodestart = 32, sb_bmapstart = 33\<rparr>,
     icache = \<lambda>i. \<lparr>i_dev = 1, i_inum = 3, i_ref = 1, i_lock = initsleeplock, i_valid = (i = 0), i_d = demo_dinode\<rparr>\<rparr>"

definition no_devices :: devsw where
  "no_devices = \<lparr>dv_read = \<lambda>_. None, dv_write = \<lambda>_. None\<rparr>"

lemma demo_files_simps [simp]:
  "l_dev (lg (fl demo_files)) = 1" "log_area (lg (fl demo_files)) = {2..<32}" "i_dev (icache demo_files i) = 1" "i_inum (icache demo_files i) = 3"
  "i_d (icache demo_files i) = demo_dinode" "IBLOCK 3 (fsb demo_files) = 32" "i_ref (icache demo_files i) = 1"
  "i_lock (icache demo_files i) = initsleeplock" "i_valid (icache demo_files i) = (i = 0)"
  by (simp_all add: demo_files_def IBLOCK_def IPB_def BSIZE_def DINODE_SIZE_def)

lemma demo_files_tx:
  "tx_ready me (fl demo_files)" "k < 30 \<Longrightarrow> room k (fl demo_files)"
  "lview (fl demo_files) b = (if b = 40 then replicate BSIZE 65 else if b = 41 then replicate BSIZE 66 else replicate BSIZE 0)"
  using boot_tx_ready [of "\<lambda>_ b. if b = 40 then replicate BSIZE 65 else if b = 41 then replicate BSIZE 66 else replicate BSIZE 0"]
  by (simp_all add: demo_files_def)

lemma demo_files_ok: "file_ok (lg (fl demo_files)) 32 (lview (fl demo_files)) demo_dinode 2"
proof -
  have "fblk V demo_dinode b = 40 + b \<and> baddr V demo_dinode b \<noteq> 0" if "b < 2" for V b
  proof -
    have "b = 0 \<or> b = 1" using that by linarith
    then show ?thesis by (auto simp: fblk_def baddr_def demo_dinode_def NDIRECT_def)
  qed
  moreover have "length (view (lb (fl demo_files)) (Suc 0) b) = BSIZE" for b using demo_files_tx(3) [of b] by simp
  moreover have "length (di_addrs demo_dinode) = 13" by (simp add: demo_dinode_def)
  ultimately show ?thesis
    by (simp add: file_ok_def FSSIZE_def MAXFILE_def NDIRECT_def)
qed

section \<open>Inodes\<close>

text \<open>What \<open>iupdate\<close> writes \<open>ilock\<close> reads back: after \<open>iupdate\<close> of an inode, locking an entry of the cache that stands
  for the same inode and is not yet loaded gives exactly the fields that were written, and every other inode of
  the table on disk is as before.\<close>

lemma iupdate_ilock_roundtrip:
  assumes x: "tx_ready me (fl s)" and r: "room 1 (fl s)" and dv: "i_dev (icache s ip) = l_dev (lg (fl s))"
    and c: "IBLOCK (i_inum (icache s ip)) (fsb s) < FSSIZE" "IBLOCK (i_inum (icache s ip)) (fsb s) \<notin> log_area (lg (fl s))"
    and len: "length (lview (fl s) (IBLOCK (i_inum (icache s ip)) (fsb s))) = BSIZE" "length (di_addrs (i_d (icache s ip))) = NDIRECT + 1"
    and ty: "di_type (i_d (icache s ip)) \<noteq> 0"
    and jp: "i_inum (icache s jp) = i_inum (icache s ip)" "i_dev (icache s jp) = i_dev (icache s ip)" "\<not> i_valid (icache s jp)"
      "i_ref (icache s jp) \<ge> 1" "i_lock (icache s jp) = initsleeplock"
  shows "succeeds (bindE (iupdate me ip s) (ilock me (Some jp))) (\<lambda>t. i_d (icache t jp) = i_d (icache s ip) \<and> i_valid (icache t jp) \<and>
    (\<forall>j. j \<noteq> i_inum (icache s ip) \<longrightarrow> dino (lview (fl t)) (fsb s) j = dino (lview (fl s)) (fsb s) j))"
proof -
  let ?n = "i_inum (icache s ip)" and ?V = "lview (fl s)"
  let ?c = "IBLOCK ?n (fsb s)"
  let ?W = "?V(?c := put_dinode (dpos ?n) (i_d (icache s ip)) (?V ?c))"
  obtain t where t: "iupdate me ip s = Inr t" "icache t = icache s" "fstep me 0 ?W s t"
    using iupdate_ok [OF x _ dv c, of 0] r by (auto elim!: succeedsE)
  have L: "lstep me {} 0 ?W (fl s) (fl t)" "fsb t = fsb s" using t(3) by (simp_all add: fstep_def)
  note L1 = lstepD [OF L(1)]
  have d: "dino ?W (fsb s) j = (if j = ?n then i_d (icache s ip) else dino ?V (fsb s) j)" for j by (rule dino_put [where V = ?V and i = ?n and sb = "fsb s" and x = "i_d (icache s ip)", OF len])
  obtain lk where lk: "acquiresleep me initsleeplock = Inr lk" by (simp add: acquiresleep_def initsleeplock_def)
  have "succeeds (ilock me (Some jp) t) (\<lambda>u. fstep me 0 (lview (fl t)) t u \<and>
    icache u = (icache t)(jp := (icache t jp)\<lparr>i_lock := lk, i_d := dino (lview (fl t)) (fsb t) (i_inum (icache t jp)), i_valid := True\<rparr>))"
    by (rule ilock_ok [OF L1(1,2)]) (use jp lk dv c ty L(2) t(2) L1(3,6) d in simp_all)
  then show ?thesis
    using t(1,2) jp(1) L(2) L1(3) d by (auto simp: fstep_def elim!: succeedsE dest!: lstepD(3))
qed

section \<open>Files\<close>

text \<open>\<open>readi\<close> on an ordinary file whose blocks are allocated, direct or through the indirect block, ends without panic and
  returns exactly the bytes of the file from the offset, cut at the end of the file, and changes no block
  and no inode.\<close>

lemma readi_contents:
  assumes "tx_ready me (fl s)" and "room 0 (fl s)" and "i_dev (icache s ip) = l_dev (lg (fl s))"
    and "file_ok (lg (fl s)) ib (lview (fl s)) (i_d (icache s ip)) M" and "di_type (i_d (icache s ip)) \<noteq> T_DEV"
    and "unat (di_size (i_d (icache s ip))) \<le> M * BSIZE" and "off \<le> di_size (i_d (icache s ip))" and "off \<le> off + n"
  shows "succeeds (readi D me ip off n s) (\<lambda>((v, xs), t).
    v = int (min (unat n) (unat (di_size (i_d (icache s ip))) - unat off)) \<and>
    xs = map (fbyte (lview (fl s)) (i_d (icache s ip))) [unat off..<unat off + min (unat n) (unat (di_size (i_d (icache s ip))) - unat off)] \<and>
    icache t = icache s \<and> lview (fl t) = lview (fl s) \<and> tx_ready me (fl t))"
  by (rule succeeds_mono [OF readi_ok [OF assms]]) (auto simp: fstep_def dest: lstepD(1,3))



section \<open>Directory entries\<close>

text \<open>The entry that \<open>dirlink\<close> stores for a name is read back as \<open>dirlookup\<close> reads it: it has 16 bytes and the inode number given, and a name
  compares equal to it exactly when it is that name, for names of up to 14 bytes without zeros, also when the
  name fills the field and no terminating zero is stored.\<close>

lemma dirent_roundtrip:
  assumes "0 \<notin> set name" and "length name \<le> DIRSIZ" and "0 \<notin> set t" and "length t \<le> DIRSIZ"
  shows "length (dirent_bytes \<lparr>de_inum = w, de_name = strncpy (cstr name) DIRSIZ\<rparr>) = DIRENT_SIZE \<and>
    de_inum (get_dirent (dirent_bytes \<lparr>de_inum = w, de_name = strncpy (cstr name) DIRSIZ\<rparr>)) = w \<and>
    (namecmp t (de_name (get_dirent (dirent_bytes \<lparr>de_inum = w, de_name = strncpy (cstr name) DIRSIZ\<rparr>))) = 0 \<longleftrightarrow> t = name)"
proof -
  let ?e = "\<lparr>de_inum = w, de_name = strncpy (cstr name) DIRSIZ\<rparr>"
  have i: "de_inum (get_dirent (dirent_bytes ?e)) = w"
  proof -
    have "get16 (put16 0 w (replicate 2 0) @ ys) 0 = get16 (put16 0 w (replicate 2 0)) 0" for ys
      by (rule get16_cong) (simp_all add: nth_append)
    then show ?thesis by (simp add: get_dirent_def dirent_bytes_def)
  qed
  have n: "de_name (get_dirent (dirent_bytes ?e)) = name @ replicate (DIRSIZ - length name) 0"
    using strncpy_name [OF assms(1,2)] assms(2) by (simp add: get_dirent_def dirent_bytes_def)
  have "cstr (name @ replicate (DIRSIZ - length name) 0) = cstr name" by (auto simp: cstr_def nth_append fun_eq_iff)
  then have "namecmp t (name @ replicate (DIRSIZ - length name) 0) = 0 \<longleftrightarrow> t = name"
    using strncmp_names [OF assms(3,1,4,2)] by (simp add: namecmp_def)
  then show ?thesis using i n by (simp add: dirent_bytes_def DIRENT_SIZE_def DIRSIZ_def)
qed

section \<open>Paths\<close>

text \<open>The names that the loop of \<open>namex\<close> visits, and the reference: the parts of the path between slashes.\<close>

function path_elems :: "u8 list \<Rightarrow> u8 list list" where
  "path_elems path = (case skipelem path of None \<Rightarrow> [] | Some (name, rest) \<Rightarrow> name # path_elems rest)"
  by pat_completeness auto
termination
  by (relation "measure length") (auto dest: skipelem_shorter)

declare path_elems.simps [simp del]

fun segments :: "u8 list \<Rightarrow> u8 list list" where
  "segments [] = [[]]"
| "segments (c # cs) = (if c = 47 then [] # segments cs else (c # hd (segments cs)) # tl (segments cs))"

lemma segments_slashes: "filter (\<lambda>s. s \<noteq> []) (segments (dropWhile (\<lambda>c. c = 47) p)) = filter (\<lambda>s. s \<noteq> []) (segments p)"
  by (induction p) auto

lemma segments_ne [simp]: "segments p \<noteq> []"
  by (induction p) auto

lemma segments_head:
  "hd (segments p) = takeWhile (\<lambda>c. c \<noteq> 47) p"
  "filter (\<lambda>s. s \<noteq> []) (tl (segments p)) = filter (\<lambda>s. s \<noteq> []) (segments (dropWhile (\<lambda>c. c = 47) (dropWhile (\<lambda>c. c \<noteq> 47) p)))"
  by (induction p) (auto simp: segments_slashes)

text \<open>Taking a path apart with \<open>skipelem\<close> until nothing is left, as \<open>namex\<close> does, gives the nonempty parts of the path between
  slashes, in order, each cut to 14 bytes; leading, trailing and repeated slashes do not matter.\<close>

lemma skipelem_splits_path: "path_elems path = map (take DIRSIZ) (filter (\<lambda>s. s \<noteq> []) (segments path))"
proof (induction path rule: path_elems.induct)
  case (1 path)
  let ?p = "dropWhile (\<lambda>c. c = 47) path"
  show ?case
  proof (cases "?p = []")
    case True
    then have "segments ?p = [[]]" by (simp only: segments.simps)
    then have "filter (\<lambda>s. s \<noteq> []) (segments path) = []" using segments_slashes [of path] by simp
    then show ?thesis using True by (simp add: path_elems.simps skipelem_def)
  next
    case False
    let ?e = "takeWhile (\<lambda>c. c \<noteq> 47) ?p" and ?r = "dropWhile (\<lambda>c. c = 47) (dropWhile (\<lambda>c. c \<noteq> 47) ?p)"
    have sk: "skipelem path = Some (take DIRSIZ ?e, ?r)" using False by (simp add: skipelem_def Let_def)
    have "?e \<noteq> []" using False hd_dropWhile [of "\<lambda>c. c = 47" path] by (cases ?p) auto
    have "filter (\<lambda>s. s \<noteq> []) (segments path) = filter (\<lambda>s. s \<noteq> []) (hd (segments ?p) # tl (segments ?p))"
      using segments_slashes [of path] by simp
    also have "\<dots> = ?e # filter (\<lambda>s. s \<noteq> []) (segments ?r)"
      unfolding filter.simps(2) segments_head using \<open>?e \<noteq> []\<close> by (simp only: not_False_eq_True if_True)
    finally have "filter (\<lambda>s. s \<noteq> []) (segments path) = ?e # filter (\<lambda>s. s \<noteq> []) (segments ?r)" .
    moreover have "path_elems ?r = map (take DIRSIZ) (filter (\<lambda>s. s \<noteq> []) (segments ?r))" using 1 [OF sk refl] .
    ultimately show ?thesis using sk by (subst path_elems.simps) simp
  qed
qed

end
