(* ===== verification/Kalloc.thy ===== *)
theory Kalloc
  imports Bytes KOps
begin

text \<open>
  The physical page allocator (\<^verbatim>\<open>kalloc.c\<close>). Physical memory is a function from page frames
  to their bytes. The free list is threaded through the free pages themselves: the first word of a
  free page is the kernel address of the next one, as in \<open>struct run\<close>. The lock of the allocator is
  not part of the state: each operation is one step.

  \<open>free_list s xs\<close> relates the memory to the abstract list of free pages; \<open>kalloc\<close> and \<open>kfree\<close> are
  its pop and push.
\<close>

section \<open>State\<close>

definition PHYSTOP :: u32 where "PHYSTOP = 0xE000000"
definition EXTMEM :: u32 where "EXTMEM = 0x100000"
definition DEVSPACE :: u32 where "DEVSPACE = 0xFE000000"

definition V2P :: "u32 \<Rightarrow> u32" where "V2P a = a - KERNBASE"
definition P2V :: "u32 \<Rightarrow> u32" where "P2V a = a + KERNBASE"

type_synonym page = "u8 list"

definition PGBYTES :: nat where "PGBYTES = 4096"

text \<open>\<open>kend\<close> and \<open>kdata\<close> are the symbols \<^verbatim>\<open>end\<close> and \<^verbatim>\<open>data\<close> of the linker script.\<close>

record kmem =
  freelist :: u32
  pmem :: "nat \<Rightarrow> page"
  kend :: u32
  kdata :: u32

text \<open>The frame of a kernel address.\<close>

definition frame :: "u32 \<Rightarrow> nat" where
  "frame v = unat (V2P v) div PGBYTES"

definition page_at :: "u32 \<Rightarrow> kmem \<Rightarrow> page" where
  "page_at v s = pmem s (frame v)"

definition set_page :: "u32 \<Rightarrow> page \<Rightarrow> kmem \<Rightarrow> kmem" where
  "set_page v p s = s\<lparr>pmem := (pmem s)(frame v := p)\<rparr>"

section \<open>Operations\<close>

definition kfree :: "u32 \<Rightarrow> kmem \<Rightarrow> kerr + kmem" where
  "kfree v s =
    (if v mod PGSIZE \<noteq> 0 \<or> v < kend s \<or> V2P v \<ge> PHYSTOP then Inl (Panic ''kfree'')
     else
       let s1 = set_page v (replicate PGBYTES 1) s;
           s2 = set_page v (put32 0 (freelist s1) (page_at v s1)) s1
       in Inr (s2\<lparr>freelist := v\<rparr>))"

definition kalloc :: "kmem \<Rightarrow> u32 \<times> kmem" where
  "kalloc s =
    (let r = freelist s
     in if r \<noteq> 0 then (r, s\<lparr>freelist := get32 (page_at r s) 0\<rparr>) else (r, s))"

lemma kaddr:
  assumes "V2P v < PHYSTOP"
  shows "unat v = unat (V2P v) + 0x80000000" and "unat (V2P v) < 0xE000000"
proof -
  show "unat (V2P v) < 0xE000000" using assms by (simp add: PHYSTOP_def word_less_nat_alt)
  show "unat v = unat (V2P v) + 0x80000000"
    using assms unsigned_less [of v, where 'a = nat] by (simp add: V2P_def PHYSTOP_def KERNBASE_def word_less_nat_alt unat_sub_if' split: if_splits)
qed

text \<open>The loop of \<^verbatim>\<open>freerange\<close> cannot run for ever: a page that \<open>kfree\<close> takes lies below
  \<open>PHYSTOP\<close>, so the next address does not wrap.\<close>

lemma kfree_next:
  assumes "kfree p s = Inr t"
  shows "unat (p + PGSIZE) = unat p + PGBYTES" and "p \<ge> kend s" and "V2P p < PHYSTOP" and "p mod PGSIZE = 0" and "kend t = kend s"
proof -
  have a: "V2P p < PHYSTOP" "p \<ge> kend s" "p mod PGSIZE = 0" "kend t = kend s"
    using assms by (auto simp: kfree_def set_page_def Let_def split: if_splits)
  then show "V2P p < PHYSTOP" "p \<ge> kend s" "p mod PGSIZE = 0" "kend t = kend s" by blast+
  have "unat p < 0x90000000" using kaddr [OF a(1)] by simp
  then show "unat (p + PGSIZE) = unat p + PGBYTES"
    by (simp add: PGSIZE_def PGBYTES_def unat_word_ariths)
qed

function freerange_loop :: "u32 \<Rightarrow> u32 \<Rightarrow> kmem \<Rightarrow> kerr + kmem" where
  "freerange_loop p vend s =
    (if p + PGSIZE \<le> vend then bindE (kfree p s) (\<lambda>s1. freerange_loop (p + PGSIZE) vend s1)
     else Inr s)"
  by pat_completeness auto
termination
proof (relation "measure (\<lambda>(p, vend, s). unat vend - unat p)")
  fix p vend s x
  assume "p + PGSIZE \<le> vend" and "kfree p s = Inr x"
  then show "((p + PGSIZE, vend, x), (p, vend, s)) \<in> measure (\<lambda>(p, vend, s). unat vend - unat p)"
    using kfree_next(1) [of p s x] by (simp add: word_le_nat_alt PGBYTES_def)
qed simp

declare freerange_loop.simps [simp del]

definition freerange :: "u32 \<Rightarrow> u32 \<Rightarrow> kmem \<Rightarrow> kerr + kmem" where
  "freerange vstart vend s = freerange_loop (PGROUNDUP vstart) vend s"

definition kinit1 :: "u32 \<Rightarrow> u32 \<Rightarrow> kmem \<Rightarrow> kerr + kmem" where
  "kinit1 vstart vend s = freerange vstart vend s"

definition kinit2 :: "u32 \<Rightarrow> u32 \<Rightarrow> kmem \<Rightarrow> kerr + kmem" where
  "kinit2 vstart vend s = freerange vstart vend s"

section \<open>The free list\<close>

definition good_page :: "u32 \<Rightarrow> kmem \<Rightarrow> bool" where
  "good_page v s \<longleftrightarrow> v mod PGSIZE = 0 \<and> v \<ge> kend s \<and> V2P v < PHYSTOP \<and> v \<noteq> 0"

fun threaded :: "kmem \<Rightarrow> u32 \<Rightarrow> u32 list \<Rightarrow> bool" where
  "threaded s r [] \<longleftrightarrow> r = 0"
| "threaded s r (x # xs) \<longleftrightarrow> r = x \<and> x \<noteq> 0 \<and> threaded s (get32 (page_at x s) 0) xs"

definition free_list :: "kmem \<Rightarrow> u32 list \<Rightarrow> bool" where
  "free_list s xs \<longleftrightarrow> threaded s (freelist s) xs \<and> distinct xs \<and> (\<forall>v \<in> set xs. good_page v s)"

lemma frame_inj:
  assumes "good_page v s" and "good_page w t" and "frame v = frame w"
  shows "v = w"
proof -
  have "unat v = 4096 * frame v + 0x80000000" if g: "good_page v s" for v s
  proof -
    have "unat v mod 4096 = 0"
      using g by (simp add: good_page_def PGSIZE_def flip: unat_eq_zero) (simp add: unat_mod_distrib)
    moreover have k: "unat v = unat (V2P v) + 4096 * 524288" using kaddr(1) [of v] g by (simp add: good_page_def)
    then have "unat v mod 4096 = unat (V2P v) mod 4096" by (simp only: mod_mult_self2)
    ultimately have "unat (V2P v) = 4096 * frame v" by (simp add: frame_def PGBYTES_def mod_eq_0_iff_dvd)
    with k show ?thesis by simp
  qed
  from this [OF assms(1)] this [OF assms(2)] assms(3) show ?thesis by (simp add: word_unat_eq_iff)
qed

lemma set_page_sel [simp]:
  "freelist (set_page v p s) = freelist s" "kend (set_page v p s) = kend s" "kdata (set_page v p s) = kdata s"
  by (simp_all add: set_page_def)

lemma page_at_set_page: "page_at w (set_page v p s) = (if frame w = frame v then p else page_at w s)"
  by (simp add: page_at_def set_page_def)

lemma threaded_cong:
  "(\<And>v. v \<in> set xs \<Longrightarrow> page_at v t = page_at v s) \<Longrightarrow> threaded t r xs = threaded s r xs"
  by (induction xs arbitrary: r) auto

lemma free_list_cong:
  assumes "free_list s xs" and "freelist t = freelist s" and "kend t = kend s" and "\<And>v. v \<in> set xs \<Longrightarrow> page_at v t = page_at v s"
  shows "free_list t xs"
  using assms threaded_cong [of xs t s "freelist s"] by (auto simp: free_list_def good_page_def)

text \<open>A page that is not free can be written without harm to the free list.\<close>

lemma free_list_set_page:
  assumes "free_list s xs" and "good_page v s" and "v \<notin> set xs"
  shows "free_list (set_page v p s) xs"
proof (rule free_list_cong [OF assms(1)])
  fix w
  assume w: "w \<in> set xs"
  then have "good_page w s" using assms(1) by (simp add: free_list_def)
  then have "frame w \<noteq> frame v" using frame_inj [OF _ assms(2)] w assms(3) by blast
  then show "page_at w (set_page v p s) = page_at w s" by (simp add: page_at_set_page)
qed simp_all

lemma kfree_push:
  assumes f: "free_list s xs" and v: "good_page v s" and n: "v \<notin> set xs"
  shows "succeeds (kfree v s) (\<lambda>t. free_list t (v # xs) \<and> kend t = kend s \<and> kdata t = kdata s \<and>
     (\<forall>w. frame w \<noteq> frame v \<longrightarrow> page_at w t = page_at w s))"
proof -
  let ?p = "put32 0 (freelist s) (replicate PGBYTES 1)"
  have e: "kfree v s = Inr ((set_page v ?p (set_page v (replicate PGBYTES 1) s))\<lparr>freelist := v\<rparr>)"
    using v by (simp add: kfree_def good_page_def Let_def page_at_set_page not_le not_less)
  let ?t = "(set_page v ?p (set_page v (replicate PGBYTES 1) s))\<lparr>freelist := v\<rparr>"
  have pg: "page_at w ?t = (if frame w = frame v then ?p else page_at w s)" for w
    by (simp add: page_at_def set_page_def)
  have "page_at w ?t = page_at w s" if w: "w \<in> set xs" for w
  proof -
    have "good_page w s" using f w by (simp add: free_list_def)
    then show ?thesis unfolding pg using frame_inj [OF _ v] n w by auto
  qed
  then have "threaded ?t (freelist s) xs"
    using f threaded_cong [of xs ?t s] by (simp add: free_list_def)
  moreover have "get32 (page_at v ?t) 0 = freelist s" unfolding pg by (simp add: PGBYTES_def)
  ultimately have "free_list ?t (v # xs)"
    using f v n by (simp add: free_list_def good_page_def)
  then show ?thesis unfolding e using pg by simp
qed

lemma kalloc_pop:
  "free_list s (v # xs) \<Longrightarrow> kalloc s = (v, s\<lparr>freelist := get32 (page_at v s) 0\<rparr>) \<and> free_list (s\<lparr>freelist := get32 (page_at v s) 0\<rparr>) xs"
  using threaded_cong [of xs "s\<lparr>freelist := get32 (page_at v s) 0\<rparr>" s]
  by (auto simp: free_list_def kalloc_def Let_def good_page_def page_at_def)

lemma kalloc_empty: "free_list s [] \<Longrightarrow> kalloc s = (0, s)"
  by (simp add: free_list_def kalloc_def)

end
