(* ===== verification/Vm.thy ===== *)
theory Vm
  imports Kalloc
begin

text \<open>
  Page tables (\<^verbatim>\<open>vm.c\<close>) in the physical memory of the page allocator. A page directory is named by
  the kernel address of its page; its entries and those of the page tables are the 32-bit words of the
  pages they live in. A pointer to an entry is the kernel address of the table and the index in it.

  Segment registers, the task state and the load of \<^verbatim>\<open>cr3\<close> (\<open>seginit\<close>, \<open>switchkvm\<close>, \<open>switchuvm\<close>,
  \<open>kvmalloc\<close>) are not modelled.
\<close>

section \<open>Addresses and entries\<close>

definition NPDENTRIES :: nat where "NPDENTRIES = 1024"
definition PTE_P :: u32 where "PTE_P = 1"
definition PTE_W :: u32 where "PTE_W = 2"
definition PTE_U :: u32 where "PTE_U = 4"

definition PDX :: "u32 \<Rightarrow> nat" where "PDX va = unat (drop_bit 22 va AND 0x3FF)"
definition PTX :: "u32 \<Rightarrow> nat" where "PTX va = unat (drop_bit 12 va AND 0x3FF)"
definition PGADDR :: "u32 \<Rightarrow> u32 \<Rightarrow> u32 \<Rightarrow> u32" where "PGADDR d t p = push_bit 22 d OR push_bit 12 t OR p"
definition PGROUNDDOWN :: "u32 \<Rightarrow> u32" where "PGROUNDDOWN a = a AND NOT (PGSIZE - 1)"
definition PTE_ADDR :: "u32 \<Rightarrow> u32" where "PTE_ADDR pte = pte AND NOT 0xFFF"
definition PTE_FLAGS :: "u32 \<Rightarrow> u32" where "PTE_FLAGS pte = pte AND 0xFFF"

definition present :: "u32 \<Rightarrow> bool" where "present e \<longleftrightarrow> e AND PTE_P \<noteq> 0"

type_synonym pte_ptr = "u32 \<times> nat"

definition entry :: "pte_ptr \<Rightarrow> kmem \<Rightarrow> u32" where
  "entry p s = get32 (page_at (Product_Type.fst p) s) (4 * snd p)"

definition set_entry :: "pte_ptr \<Rightarrow> u32 \<Rightarrow> kmem \<Rightarrow> kmem" where
  "set_entry p v s = set_page (Product_Type.fst p) (put32 (4 * snd p) v (page_at (Product_Type.fst p) s)) s"

definition zero_page :: "u32 \<Rightarrow> kmem \<Rightarrow> kmem" where
  "zero_page v s = set_page v (replicate PGBYTES 0) s"

lemma PGROUNDDOWN_eq: "PGROUNDDOWN a = push_bit 12 (drop_bit 12 a)"
proof -
  have "(PGSIZE - 1 :: u32) = mask 12" by (simp add: PGSIZE_def mask_eq_exp_minus_1)
  then show ?thesis by (simp add: PGROUNDDOWN_def) (rule bit_word_eqI, auto simp: bit_simps)
qed

lemma PGROUNDDOWN_split: "a = PGROUNDDOWN a + take_bit 12 a"
  by (simp add: PGROUNDDOWN_eq bits_ident)

lemma page_off: "unat (a - PGROUNDDOWN a) < PGBYTES"
proof -
  have "a - PGROUNDDOWN a = take_bit 12 a" using PGROUNDDOWN_split [of a] by (metis add_diff_cancel_left')
  then show ?thesis using take_bit_nat_less_exp [of 12 "unat a"] by (simp add: PGBYTES_def unsigned_take_bit_eq)
qed

section \<open>Operations\<close>

definition walkpgdir :: "u32 \<Rightarrow> u32 \<Rightarrow> bool \<Rightarrow> kmem \<Rightarrow> pte_ptr option \<times> kmem" where
  "walkpgdir pgdir va alloc s =
    (let pde = (pgdir, PDX va) in
     if present (entry pde s) then (Some (P2V (PTE_ADDR (entry pde s)), PTX va), s)
     else if \<not> alloc then (None, s)
     else
       let (pgtab, s1) = kalloc s in
       if pgtab = 0 then (None, s1)
       else
         let s2 = zero_page pgtab s1;
             s3 = set_entry pde (V2P pgtab OR PTE_P OR PTE_W OR PTE_U) s2
         in (Some (pgtab, PTX va), s3))"

text \<open>The loop of \<^verbatim>\<open>mappages\<close>, with the number of pages that follow the current one.\<close>

fun mappages_loop :: "nat \<Rightarrow> u32 \<Rightarrow> u32 \<Rightarrow> u32 \<Rightarrow> u32 \<Rightarrow> kmem \<Rightarrow> kerr + int \<times> kmem" where
  "mappages_loop n pgdir a pa perm s =
    (case walkpgdir pgdir a True s of
       (None, s1) \<Rightarrow> Inr (-1, s1)
     | (Some pte, s1) \<Rightarrow>
         if present (entry pte s1) then Inl (Panic ''remap'')
         else
           let s2 = set_entry pte (pa OR perm OR PTE_P) s1 in
           case n of
             0 \<Rightarrow> Inr (0, s2)
           | Suc n' \<Rightarrow> mappages_loop n' pgdir (a + PGSIZE) (pa + PGSIZE) perm s2)"

declare mappages_loop.simps [simp del]

definition mappages :: "u32 \<Rightarrow> u32 \<Rightarrow> u32 \<Rightarrow> u32 \<Rightarrow> u32 \<Rightarrow> kmem \<Rightarrow> kerr + int \<times> kmem" where
  "mappages pgdir va sz pa perm s =
    (let a = PGROUNDDOWN va; last = PGROUNDDOWN (va + sz - 1)
     in mappages_loop (unat (drop_bit 12 (last - a))) pgdir a pa perm s)"

text \<open>The loop of \<^verbatim>\<open>deallocuvm\<close>. An address that wraps past the end of the address space, which
  needs \<^verbatim>\<open>oldsz\<close> in the last page, is the error \<open>Diverges\<close>.\<close>

definition dealloc_step :: "u32 \<Rightarrow> u32 \<Rightarrow> kmem \<Rightarrow> kerr + u32 \<times> kmem" where
  "dealloc_step pgdir a s =
    (case walkpgdir pgdir a False s of
       (None, s1) \<Rightarrow> Inr (PGADDR (of_nat (PDX a) + 1) 0 0 - PGSIZE, s1)
     | (Some pte, s1) \<Rightarrow>
         if present (entry pte s1) then
           let pa = PTE_ADDR (entry pte s1) in
           if pa = 0 then Inl (Panic ''kfree'')
           else bindE (kfree (P2V pa) s1) (\<lambda>s2. Inr (a, set_entry pte 0 s2))
         else Inr (a, s1))"

function dealloc_loop :: "u32 \<Rightarrow> u32 \<Rightarrow> u32 \<Rightarrow> kmem \<Rightarrow> kerr + kmem" where
  "dealloc_loop pgdir a oldsz s =
    (if a < oldsz then
       bindE (dealloc_step pgdir a s) (\<lambda>(a', s1).
         if a' + PGSIZE \<le> a then Inl Diverges else dealloc_loop pgdir (a' + PGSIZE) oldsz s1)
     else Inr s)"
  by pat_completeness auto
termination
  by (relation "measure (\<lambda>(pgdir, a, oldsz, s). unat oldsz - unat a)") (auto simp: word_less_nat_alt word_le_nat_alt)

declare dealloc_loop.simps [simp del]

definition deallocuvm :: "u32 \<Rightarrow> u32 \<Rightarrow> u32 \<Rightarrow> kmem \<Rightarrow> kerr + u32 \<times> kmem" where
  "deallocuvm pgdir oldsz newsz s =
    (if newsz \<ge> oldsz then Inr (oldsz, s)
     else bindE (dealloc_loop pgdir (PGROUNDUP newsz) oldsz s) (\<lambda>s1. Inr (newsz, s1)))"

definition freevm_entry :: "u32 \<Rightarrow> nat \<Rightarrow> kmem \<Rightarrow> kerr + kmem" where
  "freevm_entry pgdir i s =
    (let e = entry (pgdir, i) s in if present e then kfree (P2V (PTE_ADDR e)) s else Inr s)"

definition freevm :: "u32 \<Rightarrow> kmem \<Rightarrow> kerr + kmem" where
  "freevm pgdir s =
    (if pgdir = 0 then Inl (Panic ''freevm: no pgdir'')
     else
       bindE (deallocuvm pgdir KERNBASE 0 s) (\<lambda>(_, s1).
       bindE (foldE (freevm_entry pgdir) [0..<NPDENTRIES] s1) (\<lambda>s2.
       kfree pgdir s2)))"

text \<open>The table \<^verbatim>\<open>kmap\<close>: virtual address, physical range, permissions.\<close>

definition kmap :: "kmem \<Rightarrow> (u32 \<times> u32 \<times> u32 \<times> u32) list" where
  "kmap s = [(KERNBASE, 0, EXTMEM, PTE_W), (KERNBASE + EXTMEM, V2P (KERNBASE + EXTMEM), V2P (kdata s), 0),
             (kdata s, V2P (kdata s), PHYSTOP, PTE_W), (DEVSPACE, DEVSPACE, 0, PTE_W)]"

fun kmap_loop :: "u32 \<Rightarrow> (u32 \<times> u32 \<times> u32 \<times> u32) list \<Rightarrow> kmem \<Rightarrow> kerr + u32 \<times> kmem" where
  "kmap_loop pgdir [] s = Inr (pgdir, s)"
| "kmap_loop pgdir ((virt, ps, pe, perm) # ks) s =
    bindE (mappages pgdir virt (pe - ps) ps perm s) (\<lambda>(r, s1).
      if r < 0 then bindE (freevm pgdir s1) (\<lambda>s2. Inr (0, s2)) else kmap_loop pgdir ks s1)"

definition setupkvm :: "kmem \<Rightarrow> kerr + u32 \<times> kmem" where
  "setupkvm s =
    (let (pgdir, s1) = kalloc s in
     if pgdir = 0 then Inr (0, s1)
     else
       let s2 = zero_page pgdir s1 in
       if P2V PHYSTOP > DEVSPACE then Inl (Panic ''PHYSTOP too high'')
       else kmap_loop pgdir (kmap s2) s2)"

text \<open>\<^verbatim>\<open>inituvm\<close> uses the page without a test of the pointer.\<close>

definition inituvm :: "u32 \<Rightarrow> u8 list \<Rightarrow> kmem \<Rightarrow> kerr + kmem" where
  "inituvm pgdir init s =
    (if length init \<ge> PGBYTES then Inl (Panic ''inituvm: more than a page'')
     else
       let (mem, s1) = kalloc s in
       if mem = 0 then Inl NullDeref
       else
         bindE (mappages pgdir 0 PGSIZE (V2P mem) (PTE_W OR PTE_U) (zero_page mem s1)) (\<lambda>(_, s2).
         Inr (set_page mem (init @ drop (length init) (page_at mem s2)) s2)))"

text \<open>The page addresses \<open>a\<close>, \<open>a + PGSIZE\<close>, ... below \<open>e\<close>.\<close>

definition pages_upto :: "u32 \<Rightarrow> u32 \<Rightarrow> u32 list" where
  "pages_upto a e = map (\<lambda>k. a + of_nat k * PGSIZE) [0..<(unat e - unat a + PGBYTES - 1) div PGBYTES]"

fun allocuvm_loop :: "u32 \<Rightarrow> u32 \<Rightarrow> u32 \<Rightarrow> u32 list \<Rightarrow> kmem \<Rightarrow> kerr + u32 \<times> kmem" where
  "allocuvm_loop pgdir oldsz newsz [] s = Inr (newsz, s)"
| "allocuvm_loop pgdir oldsz newsz (a # as) s =
    (let (mem, s1) = kalloc s in
     if mem = 0 then bindE (deallocuvm pgdir newsz oldsz s1) (\<lambda>(_, s2). Inr (0, s2))
     else
       bindE (mappages pgdir a PGSIZE (V2P mem) (PTE_W OR PTE_U) (zero_page mem s1)) (\<lambda>(r, s2).
         if r < 0 then
           bindE (deallocuvm pgdir newsz oldsz s2) (\<lambda>(_, s3).
           bindE (kfree mem s3) (\<lambda>s4. Inr (0, s4)))
         else allocuvm_loop pgdir oldsz newsz as s2))"

definition allocuvm :: "u32 \<Rightarrow> u32 \<Rightarrow> u32 \<Rightarrow> kmem \<Rightarrow> kerr + u32 \<times> kmem" where
  "allocuvm pgdir oldsz newsz s =
    (if newsz \<ge> KERNBASE then Inr (0, s)
     else if newsz < oldsz then Inr (oldsz, s)
     else allocuvm_loop pgdir oldsz newsz (pages_upto (PGROUNDUP oldsz) newsz) s)"

definition clearpteu :: "u32 \<Rightarrow> u32 \<Rightarrow> kmem \<Rightarrow> kerr + kmem" where
  "clearpteu pgdir uva s =
    (case walkpgdir pgdir uva False s of
       (None, _) \<Rightarrow> Inl (Panic ''clearpteu'')
     | (Some pte, s1) \<Rightarrow> Inr (set_entry pte (entry pte s1 AND NOT PTE_U) s1))"

fun copyuvm_loop :: "u32 \<Rightarrow> u32 \<Rightarrow> u32 list \<Rightarrow> kmem \<Rightarrow> kerr + u32 \<times> kmem" where
  "copyuvm_loop pgdir d [] s = Inr (d, s)"
| "copyuvm_loop pgdir d (i # is) s =
    (case walkpgdir pgdir i False s of
       (None, _) \<Rightarrow> Inl (Panic ''copyuvm: pte should exist'')
     | (Some pte, s1) \<Rightarrow>
         if \<not> present (entry pte s1) then Inl (Panic ''copyuvm: page not present'')
         else
           let pa = PTE_ADDR (entry pte s1); flags = PTE_FLAGS (entry pte s1); (mem, s2) = kalloc s1 in
           if mem = 0 then bindE (freevm d s2) (\<lambda>s3. Inr (0, s3))
           else
             bindE (mappages d i PGSIZE (V2P mem) flags (set_page mem (page_at (P2V pa) s2) s2)) (\<lambda>(r, s3).
               if r < 0 then bindE (kfree mem s3) (\<lambda>s4. bindE (freevm d s4) (\<lambda>s5. Inr (0, s5)))
               else copyuvm_loop pgdir d is s3))"

definition copyuvm :: "u32 \<Rightarrow> u32 \<Rightarrow> kmem \<Rightarrow> kerr + u32 \<times> kmem" where
  "copyuvm pgdir sz s =
    bindE (setupkvm s) (\<lambda>(d, s1).
      if d = 0 then Inr (0, s1) else copyuvm_loop pgdir d (pages_upto 0 sz) s1)"

text \<open>\<^verbatim>\<open>uva2ka\<close> reads through the result of \<^verbatim>\<open>walkpgdir\<close> without a test.\<close>

definition uva2ka :: "u32 \<Rightarrow> u32 \<Rightarrow> kmem \<Rightarrow> kerr + u32" where
  "uva2ka pgdir uva s =
    (case walkpgdir pgdir uva False s of
       (None, _) \<Rightarrow> Inl NullDeref
     | (Some pte, s1) \<Rightarrow>
         if \<not> present (entry pte s1) then Inr 0
         else if entry pte s1 AND PTE_U = 0 then Inr 0
         else Inr (P2V (PTE_ADDR (entry pte s1))))"

function copyout :: "u32 \<Rightarrow> u32 \<Rightarrow> u8 list \<Rightarrow> kmem \<Rightarrow> kerr + int \<times> kmem" where
  "copyout pgdir va buf s =
    (if buf = [] then Inr (0, s)
     else
       let va0 = PGROUNDDOWN va in
       bindE (uva2ka pgdir va0 s) (\<lambda>pa0.
         if pa0 = 0 then Inr (-1, s)
         else
           let p = unat (va - va0); n = min (PGBYTES - p) (length buf); pg = page_at pa0 s;
               s1 = set_page pa0 (take p pg @ take n buf @ drop (p + n) pg) s
           in copyout pgdir (va0 + PGSIZE) (drop n buf) s1))"
  by pat_completeness auto
termination
  by (relation "measure (\<lambda>(pgdir, va, buf, s). length buf)") (use page_off in \<open>auto simp: not_le\<close>)

declare copyout.simps [simp del]

end
