(* ===== verification/VmInv.thy ===== *)
theory VmInv
  imports Vm
begin

text \<open>
  The invariant of one address space (\<open>vm_ok\<close>): the page directory and its page tables are distinct pages
  outside the free list. \<open>mapped\<close> is the translation that the hardware sees. The lemmas say what
  \<open>walkpgdir\<close> and \<open>mappages\<close> do to the translation and which pages they leave alone.
\<close>

section \<open>Entries\<close>

definition aligned :: "u32 \<Rightarrow> bool" where
  "aligned x \<longleftrightarrow> take_bit 12 x = 0"

lemma aligned_bit: "aligned x \<Longrightarrow> bit x n \<Longrightarrow> 12 \<le> n"
  unfolding aligned_def by (metis bit_0_eq bit_take_bit_iff bot_apply bot_bool_def not_le)

lemma aligned_mod: "aligned x \<longleftrightarrow> x mod PGSIZE = 0"
  by (simp add: aligned_def PGSIZE_def take_bit_eq_mod)

lemma mask12: "(0xFFF :: u32) = mask 12"
  by (simp add: mask_eq_exp_minus_1)

lemma low_bit: "take_bit 12 f = f \<Longrightarrow> bit f n \<Longrightarrow> n < 12"
  by (metis bit_take_bit_iff)

lemma PTE_ADDR_OR:
  assumes "aligned x" and "take_bit 12 f = f"
  shows "PTE_ADDR (x OR f) = x"
  unfolding PTE_ADDR_def mask12
proof (rule bit_word_eqI)
  fix n
  assume "n < LENGTH(32)"
  then show "bit ((x OR f) AND NOT (mask 12)) n = bit x n"
    using aligned_bit [OF assms(1), of n] low_bit [OF assms(2), of n] by (auto simp: bit_simps)
qed

lemma present_iff: "present e \<longleftrightarrow> bit e 0"
  by (simp add: present_def PTE_P_def and_one_eq mod_2_eq_odd bit_0)

lemma present_OR [simp]: "present (x OR y) \<longleftrightarrow> present x \<or> present y"
  by (simp add: present_iff bit_or_iff)

lemma present_PTE_P [simp]: "present PTE_P" and not_present_0 [simp]: "\<not> present 0"
  by (simp_all add: present_iff PTE_P_def)

lemma PDX_less: "PDX va < 1024" and PTX_less: "PTX va < 1024"
proof -
  have "unat (x AND 0x3FF) < 1024" for x :: u32
  proof -
    have "x AND 0x3FF = take_bit 10 x" by (simp add: take_bit_eq_mask mask_eq_exp_minus_1)
    then show ?thesis using take_bit_nat_less_exp [of 10 "unat x"] by (simp add: unsigned_take_bit_eq)
  qed
  then show "PDX va < 1024" "PTX va < 1024" by (simp_all add: PDX_def PTX_def)
qed

text \<open>The two indices determine the page of an address.\<close>

lemma page_index_inj:
  assumes "PDX a = PDX b" and "PTX a = PTX b"
  shows "PGROUNDDOWN a = PGROUNDDOWN b"
proof -
  have d: "drop_bit 22 a AND 0x3FF = drop_bit 22 b AND 0x3FF" and t: "drop_bit 12 a AND 0x3FF = drop_bit 12 b AND 0x3FF"
    using assms by (simp_all add: PDX_def PTX_def word_unat_eq_iff)
  have m: "(0x3FF :: u32) = mask 10" by (simp add: mask_eq_exp_minus_1)
  show ?thesis
    unfolding PGROUNDDOWN_eq
  proof (rule bit_word_eqI)
    fix n
    assume n: "n < LENGTH(32)"
    have "bit a n = bit b n" if "12 \<le> n"
    proof (cases "n < 22")
      case True
      have "bit (drop_bit 12 a AND mask 10) (n - 12) = bit (drop_bit 12 b AND mask 10) (n - 12)" using t unfolding m by simp
      then show ?thesis using True that n by (auto simp: bit_simps)
    next
      case False
      have "bit (drop_bit 22 a AND mask 10) (n - 22) = bit (drop_bit 22 b AND mask 10) (n - 22)" using d unfolding m by simp
      then show ?thesis using False that n by (auto simp: bit_simps)
    qed
    then show "bit (push_bit 12 (drop_bit 12 a)) n = bit (push_bit 12 (drop_bit 12 b)) n" by (auto simp: bit_simps)
  qed
qed

lemma entry_set_entry:
  assumes "length (page_at v s) = PGBYTES" and "j < 1024"
  shows "entry (w, i) (set_entry (v, j) x s) = (if frame w = frame v \<and> i = j then x else entry (w, i) s)"
proof -
  have "4 * j + 3 < length (page_at v s)" using assms by (simp add: PGBYTES_def)
  moreover have "frame w = frame v \<Longrightarrow> page_at w s = page_at v s" by (simp add: page_at_def)
  ultimately show ?thesis by (cases "i < j \<or> j < i") (auto simp: entry_def set_entry_def page_at_set_page)
qed

lemma page_at_freelist [simp]: "page_at v (s\<lparr>freelist := x\<rparr>) = page_at v s"
  by (simp add: page_at_def)

section \<open>Address spaces\<close>

definition table_of :: "u32 \<Rightarrow> nat \<Rightarrow> kmem \<Rightarrow> u32" where
  "table_of pgdir i s = P2V (PTE_ADDR (entry (pgdir, i) s))"

definition has_table :: "u32 \<Rightarrow> nat \<Rightarrow> kmem \<Rightarrow> bool" where
  "has_table pgdir i s \<longleftrightarrow> i < 1024 \<and> present (entry (pgdir, i) s)"

text \<open>The pages that the structure of the address space occupies.\<close>

definition table_pages :: "u32 \<Rightarrow> kmem \<Rightarrow> u32 set" where
  "table_pages pgdir s = insert pgdir {table_of pgdir i s |i. has_table pgdir i s}"

definition vm_ok :: "u32 \<Rightarrow> kmem \<Rightarrow> u32 list \<Rightarrow> bool" where
  "vm_ok pgdir s xs \<longleftrightarrow> free_list s xs \<and> (\<forall>v. length (page_at v s) = PGBYTES) \<and>
     (\<forall>v \<in> table_pages pgdir s. good_page v s \<and> v \<notin> set xs) \<and>
     (\<forall>i. has_table pgdir i s \<longrightarrow> table_of pgdir i s \<noteq> pgdir) \<and>
     (\<forall>i j. has_table pgdir i s \<longrightarrow> has_table pgdir j s \<longrightarrow> table_of pgdir i s = table_of pgdir j s \<longrightarrow> i = j)"

definition mapped :: "u32 \<Rightarrow> u32 \<Rightarrow> kmem \<Rightarrow> u32 option" where
  "mapped pgdir va s =
    (if has_table pgdir (PDX va) s \<and> present (entry (table_of pgdir (PDX va) s, PTX va) s)
     then Some (entry (table_of pgdir (PDX va) s, PTX va) s) else None)"

lemma vm_okD:
  assumes "vm_ok pgdir s xs"
  shows "free_list s xs" and "length (page_at v s) = PGBYTES" and "good_page pgdir s" and "pgdir \<notin> set xs"
    and "has_table pgdir i s \<Longrightarrow> good_page (table_of pgdir i s) s" and "has_table pgdir i s \<Longrightarrow> table_of pgdir i s \<notin> set xs"
    and "has_table pgdir i s \<Longrightarrow> table_of pgdir i s \<noteq> pgdir"
    and "has_table pgdir i s \<Longrightarrow> has_table pgdir j s \<Longrightarrow> table_of pgdir i s = table_of pgdir j s \<Longrightarrow> i = j"
  using assms by (auto simp: vm_ok_def table_pages_def)

lemma good_page_cong: "kend t = kend s \<Longrightarrow> good_page v t = good_page v s"
  by (simp add: good_page_def)

lemma good_page_aligned: "good_page v s \<Longrightarrow> aligned v"
  by (simp add: good_page_def aligned_mod)

lemma aligned_unat: "aligned v \<longleftrightarrow> 4096 dvd unat v"
proof -
  have "v mod PGSIZE = 0 \<longleftrightarrow> unat (v mod PGSIZE) = 0" by (simp only: unat_eq_zero)
  then show ?thesis by (simp add: aligned_mod unat_mod_distrib PGSIZE_def dvd_eq_mod_eq_0)
qed

lemma aligned_V2P: "aligned v \<Longrightarrow> aligned (V2P v)"
  by (auto simp: aligned_unat V2P_def KERNBASE_def unat_sub_if' intro: dvd_diff_nat dvd_add)

lemma P2V_V2P [simp]: "P2V (V2P v) = v"
  by (simp add: P2V_def V2P_def)

lemma set_entry_frame: "frame w \<noteq> frame (Product_Type.fst p) \<Longrightarrow> page_at w (set_entry p x s) = page_at w s"
  by (simp add: set_entry_def page_at_set_page)

lemma length_page_set_entry: "\<forall>v. length (page_at v s) = PGBYTES \<Longrightarrow> length (page_at v (set_entry p x s)) = PGBYTES"
  by (cases p) (simp add: set_entry_def page_at_set_page)

lemma set_entry_sel [simp]: "freelist (set_entry p x s) = freelist s" "kend (set_entry p x s) = kend s" "kdata (set_entry p x s) = kdata s"
  by (simp_all add: set_entry_def)

text \<open>A change of an entry in a page table that is in use.\<close>

lemma set_pte_ok:
  fixes x :: u32
  assumes v: "vm_ok pgdir s xs" and i: "has_table pgdir i s" and k: "k < 1024"
  defines "t \<equiv> set_entry (table_of pgdir i s, k) x s"
  shows "vm_ok pgdir t xs" and "table_pages pgdir t = table_pages pgdir s"
    and "mapped pgdir va t = (if PDX va = i \<and> PTX va = k then if present x then Some x else None else mapped pgdir va s)"
proof -
  note d = vm_okD [OF v]
  have len: "\<And>w. length (page_at w s) = PGBYTES" by (rule d(2))
  have e: "entry (w, j) t = (if frame w = frame (table_of pgdir i s) \<and> j = k then x else entry (w, j) s)" for w j
    unfolding t_def by (rule entry_set_entry [OF len k])
  have nf: "frame pgdir \<noteq> frame (table_of pgdir i s)"
    using frame_inj [OF d(3) d(5) [OF i]] d(7) [OF i] by auto
  then have pd: "entry (pgdir, j) t = entry (pgdir, j) s" for j by (simp add: e)
  have ht: "has_table pgdir j t = has_table pgdir j s" "table_of pgdir j t = table_of pgdir j s" for j
    by (simp_all add: has_table_def table_of_def pd)
  show tp: "table_pages pgdir t = table_pages pgdir s" by (simp add: table_pages_def ht)
  have good: "good_page w t = good_page w s" for w by (rule good_page_cong) (simp add: t_def)
  have "free_list t xs"
    unfolding t_def set_entry_def fst_conv snd_conv by (rule free_list_set_page [OF d(1) d(5) [OF i] d(6) [OF i]])
  then show "vm_ok pgdir t xs"
    using v length_page_set_entry [of s] len unfolding vm_ok_def tp by (simp add: ht good) (simp add: t_def)
  have fr: "frame (table_of pgdir j s) = frame (table_of pgdir i s) \<longleftrightarrow> j = i" if "has_table pgdir j s" for j
    using frame_inj [OF d(5) [OF that] d(5) [OF i]] d(8) [OF that i] by auto
  show "mapped pgdir va t = (if PDX va = i \<and> PTX va = k then if present x then Some x else None else mapped pgdir va s)"
    using fr [of "PDX va"] i by (auto simp: mapped_def ht e)
qed

lemma unat_PGROUNDDOWN: "unat (PGROUNDDOWN a) = 4096 * (unat a div 4096)"
proof -
  have "4096 * (unat a div 4096) \<le> unat a" by simp
  then have "4096 * (unat a div 4096) < 2 ^ 32" using unsigned_less [of a, where 'a = nat] by simp
  moreover have "unat (PGROUNDDOWN a) = take_bit 32 (4096 * (unat a div 4096))"
    by (simp only: PGROUNDDOWN_eq unsigned_push_bit_eq unsigned_drop_bit_eq) (simp add: push_bit_eq_mult drop_bit_eq_div mult.commute take_bit_nat_eq_self unsigned_less [of a, where 'a = nat, simplified])
  ultimately show ?thesis by (simp add: take_bit_nat_eq_self)
qed

lemma PGROUNDDOWN_aligned [simp]: "aligned a \<Longrightarrow> PGROUNDDOWN a = a"
  by (simp add: aligned_unat word_unat_eq_iff unat_PGROUNDDOWN)

lemma PGROUNDDOWN_last:
  assumes "aligned a"
  shows "PGROUNDDOWN (a + PGSIZE - 1) = a"
proof -
  obtain q where q: "unat a = 4096 * q" using assms by (auto simp: aligned_unat dvd_def)
  have "unat a < 2 ^ 32" using unsigned_less [of a, where 'a = nat] by simp
  then have "4096 * q + 4095 < 2 ^ 32" unfolding q by simp
  then have "unat (a + 4095) = 4096 * q + 4095" using q by (simp add: unat_word_ariths)
  moreover have "a + PGSIZE - 1 = a + 4095" by (simp add: PGSIZE_def)
  ultimately show ?thesis using q by (simp add: word_unat_eq_iff unat_PGROUNDDOWN)
qed

lemma mappages_one: "aligned a \<Longrightarrow> mappages pgdir a PGSIZE pa perm s = mappages_loop 0 pgdir a pa perm s"
  by (simp add: mappages_def PGROUNDDOWN_last)

text \<open>\<open>walkpgdir\<close> makes a page table out of the first free page.\<close>

definition new_table :: "u32 \<Rightarrow> nat \<Rightarrow> u32 \<Rightarrow> kmem \<Rightarrow> kmem" where
  "new_table pgdir i v s =
    set_entry (pgdir, i) (V2P v OR PTE_P OR PTE_W OR PTE_U) (zero_page v (s\<lparr>freelist := get32 (page_at v s) 0\<rparr>))"

lemma get32_zero: "p + 3 < n \<Longrightarrow> get32 (replicate n 0) p = 0"
  by (simp add: get32_def)

lemma new_table_ok:
  assumes v: "vm_ok pgdir s (v # xs)" and n: "\<not> has_table pgdir i s" and i: "i < 1024"
  defines "t \<equiv> new_table pgdir i v s"
  shows "vm_ok pgdir t xs" and "has_table pgdir i t" and "table_of pgdir i t = v" and "mapped pgdir va t = mapped pgdir va s"
    and "frame w \<noteq> frame v \<Longrightarrow> frame w \<noteq> frame pgdir \<Longrightarrow> page_at w t = page_at w s"
    and "table_pages pgdir t = insert v (table_pages pgdir s)" and "kend t = kend s"
    and "has_table pgdir j t \<longleftrightarrow> j = i \<or> has_table pgdir j s"
proof -
  note d = vm_okD [OF v]
  let ?e = "V2P v OR (PTE_P OR PTE_W OR PTE_U)"
  let ?s1 = "s\<lparr>freelist := get32 (page_at v s) 0\<rparr>"
  let ?s2 = "zero_page v ?s1"
  have gv: "good_page v s" using d(1) by (simp add: free_list_def)
  have nx: "v \<noteq> pgdir" "v \<notin> set xs" using d(1,4) by (auto simp: free_list_def)
  have fv: "frame pgdir \<noteq> frame v" using frame_inj [OF d(3) gv] nx(1) by auto
  have p1: "page_at w ?s1 = page_at w s" for w by (simp add: page_at_def)
  have p2: "page_at w ?s2 = (if frame w = frame v then replicate PGBYTES 0 else page_at w s)" for w
    by (simp add: zero_page_def page_at_set_page p1)
  have len2: "\<And>w. length (page_at w ?s2) = PGBYTES" using d(2) by (simp add: p2)
  have t: "t = set_entry (pgdir, i) ?e ?s2" by (simp add: t_def new_table_def)
  have e: "entry (w, j) t = (if frame w = frame pgdir \<and> j = i then ?e else entry (w, j) ?s2)" for w j
    unfolding t by (rule entry_set_entry [OF len2 i])
  have e2: "entry (w, j) ?s2 = (if frame w = frame v then 0 else entry (w, j) s)" if "j < 1024" for w j
    using that by (simp add: entry_def p2 get32_zero PGBYTES_def)
  have pd: "entry (pgdir, j) t = (if j = i then ?e else entry (pgdir, j) s)" if "j < 1024" for j
    using fv that by (simp add: e e2)
  show "frame w \<noteq> frame v \<Longrightarrow> frame w \<noteq> frame pgdir \<Longrightarrow> page_at w t = page_at w s"
    by (simp add: t set_entry_frame p2)
  have "PTE_ADDR ?e = V2P v"
    by (rule PTE_ADDR_OR [OF aligned_V2P [OF good_page_aligned [OF gv]]]) (simp add: PTE_P_def PTE_W_def PTE_U_def)
  then have ti: "table_of pgdir i t = v" using i pd by (simp add: table_of_def)
  have hi: "has_table pgdir i t" using i pd by (simp add: has_table_def)
  have hj: "has_table pgdir j t = has_table pgdir j s" "has_table pgdir j s \<Longrightarrow> table_of pgdir j t = table_of pgdir j s" if "j \<noteq> i" for j
    using that pd by (auto simp: has_table_def table_of_def)
  show "has_table pgdir i t" "table_of pgdir i t = v" by (rule hi, rule ti)
  show "has_table pgdir j t \<longleftrightarrow> j = i \<or> has_table pgdir j s" using hi hj(1) by (cases "j = i") auto
  show tp: "table_pages pgdir t = insert v (table_pages pgdir s)"
    unfolding table_pages_def using hi ti hj n by (auto; metis)
  show ke: "kend t = kend s" by (simp add: t zero_page_def)
  have good: "good_page w t = good_page w s" for w by (rule good_page_cong [OF ke])
  have f1: "free_list ?s1 xs" and g1: "\<And>w. good_page w ?s1 = good_page w s" using kalloc_pop [OF d(1)] by (auto simp: good_page_def)
  have f2: "free_list ?s2 xs" unfolding zero_page_def by (rule free_list_set_page [OF f1]) (simp_all add: g1 gv nx)
  have "free_list t xs"
    unfolding t set_entry_def fst_conv snd_conv using d(3,4)
    by (intro free_list_set_page [OF f2]) (simp_all add: good_page_def zero_page_def)
  moreover have "\<forall>w. length (page_at w t) = PGBYTES" using length_page_set_entry [of ?s2] len2 by (simp add: t)
  moreover have "\<forall>w \<in> table_pages pgdir t. good_page w t \<and> w \<notin> set xs"
    unfolding tp good using v gv nx(2) by (simp add: vm_ok_def)
  moreover have "table_of pgdir j t \<noteq> pgdir" if "has_table pgdir j t" for j
    using that hj [of j] d(7) [of j] ti nx(1) by (cases "j = i") auto
  moreover have "j = k" if jk: "has_table pgdir j t" "has_table pgdir k t" "table_of pgdir j t = table_of pgdir k t" for j k
  proof -
    have "table_of pgdir m s \<noteq> v" if "has_table pgdir m s" for m using d(6) [OF that] by auto
    then show ?thesis using jk hj [of j] hj [of k] d(8) [of j k] ti by (cases "j = i"; cases "k = i") auto
  qed
  ultimately show "vm_ok pgdir t xs" unfolding vm_ok_def by blast
  show "mapped pgdir va t = mapped pgdir va s"
  proof (cases "PDX va = i")
    case True
    have "entry (v, PTX va) t = 0" using fv PTX_less by (simp add: e e2)
    then show ?thesis using True n hi ti by (simp add: mapped_def)
  next
    case False
    have "frame (table_of pgdir (PDX va) s) \<noteq> frame v" "frame (table_of pgdir (PDX va) s) \<noteq> frame pgdir" if h: "has_table pgdir (PDX va) s"
      using frame_inj [OF d(5) [OF h] gv] d(6) [OF h] frame_inj [OF d(5) [OF h] d(3)] d(7) [OF h] by auto
    then show ?thesis using False hj PTX_less by (auto simp: mapped_def e e2)
  qed
qed

lemma walk_has:
  "has_table pgdir (PDX va) s \<Longrightarrow> walkpgdir pgdir va al s = (Some (table_of pgdir (PDX va) s, PTX va), s)"
  by (simp add: walkpgdir_def has_table_def table_of_def)

lemma walk_none:
  assumes "\<not> has_table pgdir (PDX va) s"
  shows "walkpgdir pgdir va False s = (None, s)"
    and "free_list s [] \<Longrightarrow> walkpgdir pgdir va True s = (None, s)"
    and "free_list s (v # xs) \<Longrightarrow> walkpgdir pgdir va True s = (Some (v, PTX va), new_table pgdir (PDX va) v s)"
proof -
  have n: "\<not> present (entry (pgdir, PDX va) s)" using assms PDX_less by (simp add: has_table_def)
  show "walkpgdir pgdir va False s = (None, s)" using n by (simp add: walkpgdir_def)
  show "free_list s [] \<Longrightarrow> walkpgdir pgdir va True s = (None, s)" using n by (simp add: walkpgdir_def kalloc_empty)
  assume f: "free_list s (v # xs)"
  then have "v \<noteq> 0" by (simp add: free_list_def good_page_def)
  then show "walkpgdir pgdir va True s = (Some (v, PTX va), new_table pgdir (PDX va) v s)"
    using n kalloc_pop [OF f] by (simp add: walkpgdir_def new_table_def)
qed

text \<open>What one page of \<open>mappages\<close> does: the free list loses at most its first page, to a page table.\<close>

definition map_post :: "u32 \<Rightarrow> u32 \<Rightarrow> u32 \<Rightarrow> kmem \<Rightarrow> u32 list \<Rightarrow> kmem \<Rightarrow> u32 list \<Rightarrow> bool" where
  "map_post pgdir a x s xs t xs' \<longleftrightarrow> vm_ok pgdir t xs' \<and> kend t = kend s \<and>
     (xs' = xs \<and> table_pages pgdir t = table_pages pgdir s \<or>
      (\<exists>v. xs = v # xs' \<and> table_pages pgdir t = insert v (table_pages pgdir s))) \<and>
     (\<forall>va. mapped pgdir va t = (if PGROUNDDOWN va = a then Some x else mapped pgdir va s)) \<and>
     (\<forall>w. good_page w s \<longrightarrow> w \<notin> table_pages pgdir t \<longrightarrow> page_at w t = page_at w s)"

lemma page_index_eq:
  assumes "aligned a"
  shows "PDX va = PDX a \<and> PTX va = PTX a \<longleftrightarrow> PGROUNDDOWN va = a"
proof
  assume "PDX va = PDX a \<and> PTX va = PTX a"
  then show "PGROUNDDOWN va = a" using page_index_inj [of va a] assms by simp
next
  assume r: "PGROUNDDOWN va = a"
  have "drop_bit 12 va = drop_bit 12 a" unfolding r [symmetric] PGROUNDDOWN_eq by (rule bit_word_eqI) (auto simp: bit_simps dest: bit_imp_le_length)
  moreover have "drop_bit 22 w = drop_bit 10 (drop_bit 12 w)" for w :: u32 by simp
  then have "drop_bit 22 va = drop_bit 22 a" using calculation by metis
  ultimately show "PDX va = PDX a \<and> PTX va = PTX a" by (simp add: PDX_def PTX_def)
qed

lemma set_pte_post:
  assumes v: "vm_ok pgdir s xs" and i: "has_table pgdir (PDX a) s" and a: "aligned a" and x: "present x"
  shows "map_post pgdir a x s xs (set_entry (table_of pgdir (PDX a) s, PTX a) x s) xs"
proof -
  let ?t = "set_entry (table_of pgdir (PDX a) s, PTX a) x s"
  note p = set_pte_ok [OF v i PTX_less [of a], where x = x]
  have "page_at w ?t = page_at w s" if "good_page w s" "w \<notin> table_pages pgdir s" for w
  proof -
    have "w \<noteq> table_of pgdir (PDX a) s" using that(2) i by (auto simp: table_pages_def)
    then have "frame w \<noteq> frame (table_of pgdir (PDX a) s)" using frame_inj [OF that(1) vm_okD(5) [OF v i]] by blast
    then show ?thesis by (simp add: set_entry_frame)
  qed
  then show ?thesis
    unfolding map_post_def using p(1,2) p(3) x by (simp add: page_index_eq [OF a])
qed

lemma map_one_ok:
  assumes v: "vm_ok pgdir s xs" and a: "aligned a" and n: "mapped pgdir a s = None"
  shows "(\<exists>t xs'. mappages pgdir a PGSIZE pa perm s = Inr (0, t) \<and> map_post pgdir a (pa OR perm OR PTE_P) s xs t xs') \<or>
    xs = [] \<and> \<not> has_table pgdir (PDX a) s \<and> mappages pgdir a PGSIZE pa perm s = Inr (-1, s)"
proof -
  let ?x = "pa OR perm OR PTE_P"
  have x: "present ?x" by simp
  note d = vm_okD [OF v]
  show ?thesis
  proof (cases "has_table pgdir (PDX a) s")
    case True
    then have np: "\<not> present (entry (table_of pgdir (PDX a) s, PTX a) s)" using n by (simp add: mapped_def split: if_splits)
    then have "mappages pgdir a PGSIZE pa perm s = Inr (0, set_entry (table_of pgdir (PDX a) s, PTX a) ?x s)"
      by (simp add: mappages_one [OF a] mappages_loop.simps walk_has [OF True])
    then show ?thesis using set_pte_post [OF v True a x] by blast
  next
    case False
    show ?thesis
    proof (cases xs)
      case Nil
      then have "mappages pgdir a PGSIZE pa perm s = Inr (-1, s)"
        using walk_none(2) [OF False] d(1) by (simp add: mappages_one [OF a] mappages_loop.simps)
      then show ?thesis using Nil False by blast
    next
      case (Cons w xs')
      let ?u = "new_table pgdir (PDX a) w s"
      note u = new_table_ok [OF v [unfolded Cons] False PDX_less]
      have "\<not> present (entry (w, PTX a) ?u)" using n u(2,3) u(4) [of a] by (simp add: mapped_def split: if_splits)
      then have m: "mappages pgdir a PGSIZE pa perm s = Inr (0, set_entry (w, PTX a) ?x ?u)"
        using walk_none(3) [OF False d(1) [unfolded Cons]] by (simp add: mappages_one [OF a] mappages_loop.simps)
      have p: "map_post pgdir a ?x ?u xs' (set_entry (w, PTX a) ?x ?u) xs'"
        using set_pte_post [OF u(1,2) a x] u(3) by simp
      have "page_at y ?u = page_at y s" if "good_page y s" "y \<notin> table_pages pgdir ?u" for y
      proof (rule u(5))
        have "good_page w s" using d(1) Cons by (simp add: free_list_def)
        then show "frame y \<noteq> frame w" using frame_inj [OF that(1)] that(2) u(6) by blast
        show "frame y \<noteq> frame pgdir" using frame_inj [OF that(1) d(3)] that(2) u(6) by (auto simp: table_pages_def)
      qed
      then have "map_post pgdir a ?x s xs (set_entry (w, PTX a) ?x ?u) xs'"
        using p u(4,6,7) Cons good_page_cong [OF u(7)] unfolding map_post_def by auto
      then show ?thesis using m by blast
    qed
  qed
qed

section \<open>Growing a process\<close>

text \<open>A page that is neither free nor part of the page tables can be overwritten.\<close>

lemma vm_ok_set_page:
  assumes v: "vm_ok pgdir s xs" and m: "good_page m s" "m \<notin> set xs" "m \<notin> table_pages pgdir s" and len: "length p = PGBYTES"
  defines "t \<equiv> set_page m p s"
  shows "vm_ok pgdir t xs" and "table_pages pgdir t = table_pages pgdir s" and "mapped pgdir va t = mapped pgdir va s"
proof -
  note d = vm_okD [OF v]
  have pt: "entry (w, j) t = entry (w, j) s" if "w \<in> table_pages pgdir s" "good_page w s" for w j
    using frame_inj [OF that(2) m(1)] that(1) m(3) by (auto simp: t_def entry_def page_at_set_page)
  have pd: "entry (pgdir, j) t = entry (pgdir, j) s" for j by (rule pt) (simp_all add: table_pages_def d(3))
  have ht: "has_table pgdir j t = has_table pgdir j s" "table_of pgdir j t = table_of pgdir j s" for j
    by (simp_all add: has_table_def table_of_def pd)
  show tp: "table_pages pgdir t = table_pages pgdir s" by (simp add: table_pages_def ht)
  have good: "good_page w t = good_page w s" for w by (rule good_page_cong) (simp add: t_def)
  have "free_list t xs" unfolding t_def by (rule free_list_set_page [OF d(1) m(1,2)])
  moreover have "\<forall>w. length (page_at w t) = PGBYTES" using d(2) len by (simp add: t_def page_at_set_page)
  ultimately show "vm_ok pgdir t xs" using v unfolding vm_ok_def tp by (simp add: ht good)
  have "entry (table_of pgdir j s, k) t = entry (table_of pgdir j s, k) s" if "has_table pgdir j s" for j k
    using pt [OF _ d(5) [OF that]] that by (auto simp: table_pages_def)
  then show "mapped pgdir va t = mapped pgdir va s" by (auto simp: mapped_def ht)
qed

lemma take_page_ok:
  assumes v: "vm_ok pgdir s (m # xs)" and len: "length p = PGBYTES"
  defines "t \<equiv> set_page m p (s\<lparr>freelist := get32 (page_at m s) 0\<rparr>)"
  shows "vm_ok pgdir t xs" and "table_pages pgdir t = table_pages pgdir s" and "mapped pgdir va t = mapped pgdir va s"
    and "good_page m s" and "m \<noteq> 0" and "m \<notin> set xs" and "m \<notin> table_pages pgdir s" and "kend t = kend s"
    and "kalloc s = (m, s\<lparr>freelist := get32 (page_at m s) 0\<rparr>)"
proof -
  note d = vm_okD [OF v]
  let ?u = "s\<lparr>freelist := get32 (page_at m s) 0\<rparr>"
  show k: "kalloc s = (m, ?u)" using kalloc_pop [OF d(1)] by blast
  show g: "good_page m s" and m0: "m \<noteq> 0" and nx: "m \<notin> set xs" using d(1) by (auto simp: free_list_def good_page_def)
  show nt: "m \<notin> table_pages pgdir s" using v by (auto simp: vm_ok_def)
  have e: "page_at w ?u = page_at w s" "entry q ?u = entry q s" "has_table pgdir j ?u = has_table pgdir j s"
    "table_of pgdir j ?u = table_of pgdir j s" "good_page w ?u = good_page w s" for w q j
    by (simp_all add: page_at_def entry_def has_table_def table_of_def good_page_def)
  have tp: "table_pages pgdir ?u = table_pages pgdir s" by (simp add: table_pages_def e)
  have "free_list ?u xs" using kalloc_pop [OF d(1)] by blast
  then have u: "vm_ok pgdir ?u xs" using v unfolding vm_ok_def tp e by auto
  have mu: "mapped pgdir va ?u = mapped pgdir va s" by (simp add: mapped_def e)
  note r = vm_ok_set_page [OF u _ nx _ len]
  show "vm_ok pgdir t xs" "table_pages pgdir t = table_pages pgdir s" "mapped pgdir va t = mapped pgdir va s" "kend t = kend s"
    using r g nt mu by (simp_all add: e tp t_def nx)
qed

definition alloc_post :: "u32 \<Rightarrow> u32 list \<Rightarrow> kmem \<Rightarrow> u32 list \<Rightarrow> kmem \<Rightarrow> bool" where
  "alloc_post pgdir as s xs t \<longleftrightarrow> (\<exists>ms xs'. vm_ok pgdir t xs' \<and> kend t = kend s \<and> length ms = length as \<and> distinct ms \<and>
     set ms \<subseteq> set xs \<and> set ms \<inter> set xs' = {} \<and> set ms \<inter> table_pages pgdir t = {} \<and> set xs' \<subseteq> set xs \<and>
     table_pages pgdir t \<subseteq> table_pages pgdir s \<union> set xs \<and>
     (\<forall>k < length as. mapped pgdir (as ! k) t = Some (V2P (ms ! k) OR (PTE_W OR PTE_U) OR PTE_P) \<and>
        page_at (ms ! k) t = replicate PGBYTES 0) \<and>
     (\<forall>va. PGROUNDDOWN va \<notin> set as \<longrightarrow> mapped pgdir va t = mapped pgdir va s) \<and>
     (\<forall>w. good_page w s \<longrightarrow> w \<notin> set xs \<longrightarrow> w \<notin> table_pages pgdir s \<longrightarrow> page_at w t = page_at w s))"

lemma alloc_loop_ok:
  assumes "vm_ok pgdir s xs" and "\<forall>a \<in> set as. aligned a \<and> mapped pgdir a s = None" and "distinct as" and "2 * length as \<le> length xs"
  shows "succeeds (allocuvm_loop pgdir oldsz newsz as s) (\<lambda>(r, t). r = newsz \<and> alloc_post pgdir as s xs t)"
  using assms
proof (induction as arbitrary: s xs)
  case Nil
  have "alloc_post pgdir [] s xs s"
    unfolding alloc_post_def using Nil.prems(1) by - (rule exI [of _ "[]"], rule exI [of _ xs], auto)
  then show ?case by simp
next
  case (Cons a as)
  then obtain m xs1 where xs: "xs = m # xs1" "xs1 \<noteq> []" by (cases xs; cases "tl xs") auto
  let ?s2 = "zero_page m (s\<lparr>freelist := get32 (page_at m s) 0\<rparr>)"
  have s2: "?s2 = set_page m (replicate PGBYTES 0) (s\<lparr>freelist := get32 (page_at m s) 0\<rparr>)" by (simp add: zero_page_def)
  note p = take_page_ok [OF Cons.prems(1) [unfolded xs(1)] length_replicate [of PGBYTES "0 :: u8"], folded s2]
  have al: "aligned a" "mapped pgdir a ?s2 = None" using Cons.prems(2) p(3) by auto
  obtain t xs2 where t: "mappages pgdir a PGSIZE (V2P m) (PTE_W OR PTE_U) ?s2 = Inr (0, t)"
    "map_post pgdir a (V2P m OR (PTE_W OR PTE_U) OR PTE_P) ?s2 xs1 t xs2"
    using map_one_ok [OF p(1) al, of "V2P m" "PTE_W OR PTE_U"] xs(2) by blast
  have tp: "table_pages pgdir t \<subseteq> table_pages pgdir s \<union> set xs1" "set xs2 \<subseteq> set xs1" "length xs1 \<le> Suc (length xs2)"
    using t(2) p(2) unfolding map_post_def by auto
  have v: "vm_ok pgdir t xs2" and ke: "kend t = kend s" and mp: "\<And>va. mapped pgdir va t = (if PGROUNDDOWN va = a
     then Some (V2P m OR (PTE_W OR PTE_U) OR PTE_P) else mapped pgdir va s)"
    and fr: "\<And>w. good_page w s \<Longrightarrow> w \<notin> table_pages pgdir t \<Longrightarrow> page_at w t = page_at w ?s2"
    using t(2) p(3,8) good_page_cong [OF p(8)] unfolding map_post_def by auto
  have m: "m \<notin> set xs2" "m \<notin> table_pages pgdir t" using p(6,7) tp by auto
  have gt: "good_page w t = good_page w s" for w by (rule good_page_cong [OF ke])
  have "\<forall>b \<in> set as. aligned b \<and> mapped pgdir b t = None" using Cons.prems(2,3) by (auto simp: mp)
  then have "succeeds (allocuvm_loop pgdir oldsz newsz as t) (\<lambda>(r, u). r = newsz \<and> alloc_post pgdir as t xs2 u)"
    using Cons.prems(3,4) tp(3) xs(1) by (intro Cons.IH [OF v]) simp_all
  then obtain u where u: "allocuvm_loop pgdir oldsz newsz as t = Inr (newsz, u)" "alloc_post pgdir as t xs2 u" by auto
  obtain ms xs3 where w: "vm_ok pgdir u xs3" "kend u = kend t" "length ms = length as" "distinct ms" "set ms \<subseteq> set xs2" "set ms \<inter> set xs3 = {}"
    "set ms \<inter> table_pages pgdir u = {}" "set xs3 \<subseteq> set xs2" "table_pages pgdir u \<subseteq> table_pages pgdir t \<union> set xs2"
    "\<forall>k < length as. mapped pgdir (as ! k) u = Some (V2P (ms ! k) OR (PTE_W OR PTE_U) OR PTE_P) \<and> page_at (ms ! k) u = replicate PGBYTES 0"
    "\<forall>va. PGROUNDDOWN va \<notin> set as \<longrightarrow> mapped pgdir va u = mapped pgdir va t"
    "\<forall>w. good_page w t \<longrightarrow> w \<notin> set xs2 \<longrightarrow> w \<notin> table_pages pgdir t \<longrightarrow> page_at w u = page_at w t"
    using u(2) unfolding alloc_post_def by blast
  have zero: "page_at m u = replicate PGBYTES 0"
    using w(12) m p(4) fr [OF p(4) m(2)] by (simp add: gt zero_page_def page_at_set_page)
  have "mapped pgdir a u = Some (V2P m OR (PTE_W OR PTE_U) OR PTE_P)" using w(11) mp al(1) Cons.prems(3) by simp
  then have all: "\<forall>k < length (a # as). mapped pgdir ((a # as) ! k) u = Some (V2P ((m # ms) ! k) OR (PTE_W OR PTE_U) OR PTE_P) \<and>
      page_at ((m # ms) ! k) u = replicate PGBYTES 0"
    using w(10) zero by (auto simp: less_Suc_eq_0_disj)
  have other: "page_at y u = page_at y s" if y: "good_page y s" "y \<notin> set xs" "y \<notin> table_pages pgdir s" for y
  proof -
    have "y \<notin> table_pages pgdir t" "y \<notin> set xs2" "y \<noteq> m" using y tp xs(1) by auto
    moreover from this have "frame y \<noteq> frame m" using frame_inj [OF y(1) p(4)] by blast
    ultimately show ?thesis using w(12) y(1) fr [OF y(1)] by (simp add: gt zero_page_def page_at_set_page)
  qed
  have "alloc_post pgdir (a # as) s xs u"
    unfolding alloc_post_def
  proof (rule exI [of _ "m # ms"], rule exI [of _ xs3], intro conjI)
    show "set (m # ms) \<inter> table_pages pgdir u = {}" using w(7,9) m by auto
    show "table_pages pgdir u \<subseteq> table_pages pgdir s \<union> set xs" using w(9) tp xs(1) by auto
    show "\<forall>va. PGROUNDDOWN va \<notin> set (a # as) \<longrightarrow> mapped pgdir va u = mapped pgdir va s" using w(11) mp by auto
  qed (use w(1-6,8) ke tp m xs(1) all other in auto)
  moreover have "allocuvm_loop pgdir oldsz newsz (a # as) s = Inr (newsz, u)"
    using t(1) u(1) p(5,9) by (simp add: Let_def)
  ultimately show ?case by simp
qed

end
