(* ===== verification/VmProps.thy ===== *)
theory VmProps
  imports VmInv
begin

text \<open>
  Properties of memory: the page allocator never hands out a page twice and loses none, whatever its clients write into their pages;
  \<open>allocuvm\<close> maps fresh zeroed pages; the loop of \<open>deallocuvm\<close> ends.
\<close>

section \<open>The page allocator and its clients\<close>

text \<open>A state of the allocator with the pages that are handed out. The clients may overwrite the pages they have.\<close>

inductive page_step :: "kmem \<times> u32 set \<Rightarrow> kmem \<times> u32 set \<Rightarrow> bool" where
  Alloc: "kalloc s = (v, t) \<Longrightarrow> v \<noteq> 0 \<Longrightarrow> page_step (s, A) (t, insert v A)"
| Free: "v \<in> A \<Longrightarrow> kfree v s = Inr t \<Longrightarrow> page_step (s, A) (t, A - {v})"
| Use: "v \<in> A \<Longrightarrow> page_step (s, A) (set_page v p s, A)"

definition pages_inv :: "u32 set \<Rightarrow> kmem \<times> u32 set \<Rightarrow> bool" where
  "pages_inv P = (\<lambda>(s, A). \<exists>xs. free_list s xs \<and> set xs \<inter> A = {} \<and> set xs \<union> A = P \<and> (\<forall>v \<in> P. good_page v s))"

lemma pages_inv_step:
  assumes "page_step x y" and "pages_inv P x"
  shows "pages_inv P y"
  using assms
proof cases
  case (Alloc s v t A)
  then obtain xs where xs: "free_list s xs" "set xs \<inter> A = {}" "set xs \<union> A = P" "\<forall>v \<in> P. good_page v s"
    using assms(2) by (auto simp: pages_inv_def)
  obtain w ys where w: "xs = w # ys" using xs(1) Alloc(3,4) kalloc_empty [of s] by (cases xs) auto
  have "w \<notin> set ys" using xs(1) by (simp add: w free_list_def)
  moreover have "kalloc s = (w, s\<lparr>freelist := get32 (page_at w s) 0\<rparr>)" "free_list (s\<lparr>freelist := get32 (page_at w s) 0\<rparr>) ys"
    using kalloc_pop xs(1) w by auto
  ultimately show ?thesis using Alloc xs w by (auto simp: pages_inv_def good_page_def intro!: exI [of _ ys])
next
  case (Free v A s t)
  then obtain xs where xs: "free_list s xs" "set xs \<inter> A = {}" "set xs \<union> A = P" "\<forall>v \<in> P. good_page v s"
    using assms(2) by (auto simp: pages_inv_def)
  have v: "good_page v s" "v \<notin> set xs" using xs Free(3) by auto
  have "free_list t (v # xs)" "kend t = kend s" using kfree_push [OF xs(1) v] Free(4) by auto
  then show ?thesis using Free xs v by (auto simp: pages_inv_def good_page_def intro!: exI [of _ "v # xs"])
next
  case (Use v A s p)
  then obtain xs where xs: "free_list s xs" "set xs \<inter> A = {}" "set xs \<union> A = P" "\<forall>v \<in> P. good_page v s"
    using assms(2) by (auto simp: pages_inv_def)
  have v: "good_page v s" "v \<notin> set xs" using xs Use(3) by auto
  show ?thesis using Use xs free_list_set_page [OF xs(1) v] by (auto simp: pages_inv_def good_page_def)
qed

lemma pages_inv_reach: "page_step\<^sup>*\<^sup>* x y \<Longrightarrow> pages_inv P x \<Longrightarrow> pages_inv P y"
  by (induction rule: rtranclp_induct) (auto intro: pages_inv_step)

text \<open>C9. The page allocator is exact. Start with a free list of the pages \<open>xs\<close> and let clients allocate, free what they hold, and overwrite the
  pages they hold in any order. Then \<open>kalloc\<close> returns a page that nobody holds, or 0 and then every page of \<open>xs\<close> is
  held; and \<open>kfree\<close> takes back every held page without panic.\<close>

theorem kalloc_no_double_allocation:
  assumes "free_list s xs" and "page_step\<^sup>*\<^sup>* (s, {}) (t, A)"
  shows "A \<subseteq> set xs \<and> (Product_Type.fst (kalloc t) \<in> set xs - A \<or> Product_Type.fst (kalloc t) = 0 \<and> A = set xs) \<and>
    (\<forall>v \<in> A. succeeds (kfree v t) (\<lambda>u. freelist u = v))"
proof -
  have "pages_inv (set xs) (s, {})" using assms(1) by (auto simp: pages_inv_def free_list_def)
  then have "pages_inv (set xs) (t, A)" by (rule pages_inv_reach [OF assms(2)])
  then obtain ys where ys: "free_list t ys" "set ys \<inter> A = {}" "set ys \<union> A = set xs" "\<forall>v \<in> set xs. good_page v t"
    by (auto simp: pages_inv_def)
  have "succeeds (kfree v t) (\<lambda>u. freelist u = v)" if "v \<in> A" for v
    using that ys by (auto intro!: succeeds_mono [OF kfree_push [OF ys(1), of v]] simp: free_list_def)
  moreover have "Product_Type.fst (kalloc t) \<in> set xs - A \<or> Product_Type.fst (kalloc t) = 0 \<and> A = set xs"
  proof (cases ys)
    case Nil
    then show ?thesis using ys kalloc_empty [of t] by simp
  next
    case (Cons v vs)
    then show ?thesis using ys kalloc_pop [of t v vs] by auto
  qed
  ultimately show ?thesis using ys(3) by blast
qed

text \<open>A memory with a page directory and two free pages.\<close>

definition demo_mem :: kmem where
  "demo_mem = \<lparr>freelist = 0x80002000,
     pmem = (\<lambda>f. if f = 2 then put32 0 0x80003000 (replicate PGBYTES 0) else replicate PGBYTES 0), kend = 0x80000000, kdata = 0x80000000\<rparr>"

lemma demo_mem_free: "free_list demo_mem [0x80002000, 0x80003000]"
  by (simp add: free_list_def good_page_def demo_mem_def page_at_def frame_def V2P_def KERNBASE_def PHYSTOP_def PGSIZE_def PGBYTES_def get32_zero)

theorem kalloc_no_double_allocation_witness:
  "Product_Type.fst (kalloc (Product_Type.snd (kalloc demo_mem))) \<in> {0x80002000, 0x80003000} - {0x80002000}"
proof -
  define t where "t = Product_Type.snd (kalloc demo_mem)"
  have "kalloc demo_mem = (0x80002000, t)" using kalloc_pop [OF demo_mem_free] by (simp add: t_def)
  then have "page_step (demo_mem, {}) (t, {0x80002000})" using page_step.Alloc [of demo_mem "0x80002000" t "{}"] by simp
  then have "page_step\<^sup>*\<^sup>* (demo_mem, {}) (t, {0x80002000})" by blast
  from kalloc_no_double_allocation [OF demo_mem_free this] show ?thesis by (auto simp: t_def)
qed

section \<open>Growing\<close>

lemma PGROUNDUP_eq: "PGROUNDUP a = PGROUNDDOWN (a + PGSIZE - 1)"
  by (simp add: PGROUNDUP_def PGROUNDDOWN_def)

lemma PGROUNDUP_aligned: "aligned (PGROUNDUP a)"
  by (simp add: aligned_unat PGROUNDUP_eq unat_PGROUNDDOWN)

lemma unat_PGROUNDUP:
  assumes "unat a \<le> 0x80000000"
  shows "unat (PGROUNDUP a) = 4096 * ((unat a + 4095) div 4096)"
  using assms by (simp add: PGROUNDUP_eq unat_PGROUNDDOWN unat_word_ariths PGSIZE_def)

lemma pages_upto_ok:
  assumes a: "aligned a" and e: "unat e \<le> 0x80000000"
  shows "k < length (pages_upto a e) \<Longrightarrow> unat (pages_upto a e ! k) = unat a + 4096 * k" and "distinct (pages_upto a e)"
    and "x \<in> set (pages_upto a e) \<longleftrightarrow> aligned x \<and> a \<le> x \<and> x < e"
proof -
  let ?n = "(unat e - unat a + PGBYTES - 1) div PGBYTES"
  have len: "length (pages_upto a e) = ?n" by (simp add: pages_upto_def)
  have lt: "unat a + 4096 * k < unat e" if "k < ?n" for k
    using that by (simp add: PGBYTES_def less_eq_div_iff_mult_less_eq Suc_le_eq [symmetric])
  show u: "unat (pages_upto a e ! k) = unat a + 4096 * k" if "k < length (pages_upto a e)" for k
  proof -
    have "unat a + 4096 * k < 2 ^ 32" using lt [of k] that len e by simp
    moreover have "pages_upto a e ! k = of_nat (unat a + 4096 * k)" using that len by (simp add: pages_upto_def PGSIZE_def mult.commute)
    ultimately show ?thesis by (simp only: unat_of_nat32)
  qed
  show "distinct (pages_upto a e)" unfolding distinct_conv_nth
  proof (intro allI impI)
    fix i j
    assume "i < length (pages_upto a e)" "j < length (pages_upto a e)" "i \<noteq> j"
    then show "pages_upto a e ! i \<noteq> pages_upto a e ! j" using u [of i] u [of j] by auto
  qed
  show "x \<in> set (pages_upto a e) \<longleftrightarrow> aligned x \<and> a \<le> x \<and> x < e"
  proof
    assume "x \<in> set (pages_upto a e)"
    then obtain k where k: "k < length (pages_upto a e)" "x = pages_upto a e ! k" by (auto simp: in_set_conv_nth)
    then have "unat x = unat a + 4096 * k" using u by simp
    then show "aligned x \<and> a \<le> x \<and> x < e" using a lt [of k] k len by (auto simp: aligned_unat word_le_nat_alt word_less_nat_alt intro: dvd_add)
  next
    assume x: "aligned x \<and> a \<le> x \<and> x < e"
    obtain p q where p: "unat x = 4096 * p" and q: "unat a = 4096 * q" using x a by (auto simp: aligned_unat dvd_def)
    let ?k = "p - q"
    have qp: "q \<le> p" "4096 * p < unat e" using x p q by (auto simp: word_le_nat_alt word_less_nat_alt)
    then have "?k < ?n" using q by (simp add: PGBYTES_def less_eq_div_iff_mult_less_eq Suc_le_eq [symmetric])
    then have "unat (pages_upto a e ! ?k) = unat x" using u [of ?k] len p q qp by simp
    then show "x \<in> set (pages_upto a e)" using \<open>?k < ?n\<close> len by (metis nth_mem word_unat_eq_iff)
  qed
qed

lemma mapped_page: "mapped pgdir (PGROUNDDOWN va) s = mapped pgdir va s"
proof -
  have "aligned (PGROUNDDOWN va)" by (simp add: aligned_unat unat_PGROUNDDOWN)
  then have "PDX va = PDX (PGROUNDDOWN va) \<and> PTX va = PTX (PGROUNDDOWN va)" using page_index_eq [of "PGROUNDDOWN va" va] by simp
  then show ?thesis by (simp add: mapped_def)
qed

lemma page_low:
  assumes "aligned a"
  shows "a \<le> PGROUNDDOWN va \<longleftrightarrow> a \<le> va"
proof -
  obtain q where "unat a = 4096 * q" using assms by (auto simp: aligned_unat dvd_def)
  then show ?thesis by (simp add: word_le_nat_alt unat_PGROUNDDOWN less_eq_div_iff_mult_less_eq mult.commute)
qed

text \<open>C7. \<open>allocuvm\<close> grows an address space whose tables are in order. With two free pages per page asked for, it returns the new size; every address from the
  old size, rounded up to a page, to the new size is then mapped, to pages that were free, are pairwise distinct and hold
  zeros, user-writable; all other translations and the contents of every other page in use are as before, and the tables
  stay in order.\<close>

theorem allocuvm_maps_fresh_pages:
  assumes v: "vm_ok pgdir s xs" and sz: "oldsz \<le> newsz" "newsz < KERNBASE"
    and un: "\<forall>va. PGROUNDUP oldsz \<le> va \<longrightarrow> va < newsz \<longrightarrow> mapped pgdir va s = None"
    and free: "2 * length (pages_upto (PGROUNDUP oldsz) newsz) \<le> length xs"
  shows "succeeds (allocuvm pgdir oldsz newsz s) (\<lambda>(r, t). r = newsz \<and>
    alloc_post pgdir (pages_upto (PGROUNDUP oldsz) newsz) s xs t \<and>
    (\<forall>va. PGROUNDUP oldsz \<le> va \<longrightarrow> va < newsz \<longrightarrow> (\<exists>m \<in> set xs. mapped pgdir va t = Some (V2P m OR (PTE_W OR PTE_U) OR PTE_P))) \<and>
    (\<forall>va. va < PGROUNDUP oldsz \<longrightarrow> mapped pgdir va t = mapped pgdir va s))"
proof -
  let ?a = "PGROUNDUP oldsz"
  let ?as = "pages_upto ?a newsz"
  have e: "unat newsz \<le> 0x80000000" using sz(2) by (simp add: KERNBASE_def word_less_nat_alt)
  note p = pages_upto_ok [OF PGROUNDUP_aligned e]
  have "succeeds (allocuvm_loop pgdir oldsz newsz ?as s) (\<lambda>(r, t). r = newsz \<and> alloc_post pgdir ?as s xs t)"
    by (rule alloc_loop_ok [OF v _ p(2) free]) (use p(3) un in blast)
  moreover have "allocuvm pgdir oldsz newsz s = allocuvm_loop pgdir oldsz newsz ?as s" using sz by (simp add: allocuvm_def not_less [symmetric])
  ultimately have "succeeds (allocuvm pgdir oldsz newsz s) (\<lambda>(r, t). r = newsz \<and> alloc_post pgdir ?as s xs t)" by simp
  then show ?thesis
  proof (rule succeeds_mono)
    fix y
    assume y: "case y of (r, t) \<Rightarrow> r = newsz \<and> alloc_post pgdir ?as s xs t"
    then obtain t where t: "y = (newsz, t)" and ap: "alloc_post pgdir ?as s xs t" by auto
    obtain ms where m: "length ms = length ?as" "set ms \<subseteq> set xs"
      "\<forall>k < length ?as. mapped pgdir (?as ! k) t = Some (V2P (ms ! k) OR (PTE_W OR PTE_U) OR PTE_P)"
      "\<forall>va. PGROUNDDOWN va \<notin> set ?as \<longrightarrow> mapped pgdir va t = mapped pgdir va s"
      using ap unfolding alloc_post_def by blast
    note low = page_low [OF PGROUNDUP_aligned, of oldsz]
    have "\<exists>m \<in> set xs. mapped pgdir va t = Some (V2P m OR (PTE_W OR PTE_U) OR PTE_P)" if va: "?a \<le> va" "va < newsz" for va
    proof -
      have "PGROUNDDOWN va \<le> va" by (simp add: word_le_nat_alt unat_PGROUNDDOWN)
      then have "PGROUNDDOWN va \<in> set ?as" using va low [of va] p(3) by (auto simp: aligned_unat unat_PGROUNDDOWN)
      then obtain k where k: "k < length ?as" "?as ! k = PGROUNDDOWN va" by (auto simp: in_set_conv_nth)
      then have "mapped pgdir va t = Some (V2P (ms ! k) OR (PTE_W OR PTE_U) OR PTE_P)" using m(3) mapped_page [of pgdir va t] by metis
      then show ?thesis using m(1,2) k(1) by (metis nth_mem subsetD)
    qed
    moreover have "mapped pgdir va t = mapped pgdir va s" if "va < ?a" for va
      using m(4) p(3) [of "PGROUNDDOWN va"] low [of va] that by auto
    ultimately show "case y of (r, t) \<Rightarrow> r = newsz \<and> alloc_post pgdir ?as s xs t \<and>
      (\<forall>va. ?a \<le> va \<longrightarrow> va < newsz \<longrightarrow> (\<exists>m \<in> set xs. mapped pgdir va t = Some (V2P m OR (PTE_W OR PTE_U) OR PTE_P))) \<and>
      (\<forall>va. va < ?a \<longrightarrow> mapped pgdir va t = mapped pgdir va s)"
      using ap t by simp
  qed
qed

lemma demo_mem_entry: "entry (0x80001000, i) demo_mem = 0" if "i < 1024"
  using that by (simp add: entry_def demo_mem_def page_at_def frame_def V2P_def KERNBASE_def PGBYTES_def get32_zero)

lemma demo_mem_ok: "vm_ok 0x80001000 demo_mem [0x80002000, 0x80003000]" and demo_mem_unmapped: "mapped 0x80001000 va demo_mem = None"
proof -
  have n: "\<not> has_table 0x80001000 i demo_mem" for i using demo_mem_entry by (auto simp: has_table_def)
  then show "mapped 0x80001000 va demo_mem = None" by (simp add: mapped_def)
  have "table_pages 0x80001000 demo_mem = {0x80001000}" using n by (simp add: table_pages_def)
  moreover have "good_page 0x80001000 demo_mem"
    by (simp add: good_page_def demo_mem_def V2P_def KERNBASE_def PHYSTOP_def PGSIZE_def)
  moreover have "length (page_at v demo_mem) = PGBYTES" for v by (simp add: page_at_def demo_mem_def)
  ultimately show "vm_ok 0x80001000 demo_mem [0x80002000, 0x80003000]" using n demo_mem_free by (simp add: vm_ok_def)
qed

theorem allocuvm_maps_fresh_pages_witness:
  "succeeds (allocuvm 0x80001000 0 4096 demo_mem) (\<lambda>(r, t). r = 4096 \<and>
    alloc_post 0x80001000 (pages_upto (PGROUNDUP 0) 4096) demo_mem [0x80002000, 0x80003000] t \<and>
    (\<forall>va. PGROUNDUP 0 \<le> va \<longrightarrow> va < 4096 \<longrightarrow> (\<exists>m \<in> set [0x80002000, 0x80003000]. mapped 0x80001000 va t = Some (V2P m OR (PTE_W OR PTE_U) OR PTE_P))) \<and>
    (\<forall>va. va < PGROUNDUP 0 \<longrightarrow> mapped 0x80001000 va t = mapped 0x80001000 va demo_mem))"
proof (rule allocuvm_maps_fresh_pages [OF demo_mem_ok])
  have "PGROUNDUP 0 = 0" by (simp add: PGROUNDUP_def PGSIZE_def)
  then show "2 * length (pages_upto (PGROUNDUP 0) 4096) \<le> length [0x80002000, 0x80003000 :: u32]" by (simp add: pages_upto_def PGBYTES_def)
qed (simp_all add: KERNBASE_def demo_mem_unmapped)

section \<open>Shrinking\<close>

lemma PDX_div: "PDX a = unat a div 0x400000"
proof -
  have "drop_bit 22 a AND 0x3FF = take_bit 10 (drop_bit 22 a)" by (simp add: take_bit_eq_mask mask_eq_exp_minus_1)
  moreover have "unat (drop_bit 22 a) = unat a div 0x400000"
    using unat_div_distrib [of a "0x400000"] by (simp add: drop_bit_eq_div)
  moreover have "unat a div 0x400000 < 1024" using unsigned_less [of a, where 'a = nat] by (simp add: less_mult_imp_div_less)
  ultimately show ?thesis by (simp add: PDX_def unsigned_take_bit_eq take_bit_nat_eq_self)
qed

lemma next_table_addr:
  assumes "a < KERNBASE"
  shows "unat (PGADDR (of_nat (PDX a) + 1) 0 0) = 0x400000 * Suc (PDX a)"
proof -
  have "PDX a < 512" using assms by (simp add: PDX_div KERNBASE_def word_less_nat_alt less_mult_imp_div_less)
  then have "0x400000 * Suc (PDX a) < 2 ^ 32" by simp
  moreover have "PGADDR (of_nat (PDX a) + 1) 0 0 = (of_nat (0x400000 * Suc (PDX a)) :: u32)"
    by (simp add: PGADDR_def push_bit_eq_mult mult.commute add.commute)
  ultimately show ?thesis by (simp only: unat_of_nat32)
qed

lemma next_table:
  fixes a :: u32
  assumes "a < KERNBASE"
  shows "PGADDR (of_nat (PDX a) + 1) 0 0 - PGSIZE + PGSIZE > a"
  using next_table_addr [OF assms] dividend_less_times_div [of "0x400000" "unat a"] by (simp add: word_less_nat_alt PDX_div)

text \<open>\<open>deallocuvm\<close> always ends: for sizes up to \<open>KERNBASE\<close>, on any memory, in order or not, the address that its loop steps through grows in
  every round, also when the loop skips the rest of a missing page table, so it never wraps around and starts over.\<close>

lemma deallocuvm_terminates:
  assumes "oldsz \<le> KERNBASE"
  shows "deallocuvm pgdir oldsz newsz s \<noteq> Inl Diverges"
proof -
  have step: "a' + PGSIZE > a" if "a < oldsz" "dealloc_step pgdir a s = Inr (a', t)" for a a' and s t :: kmem
  proof -
    have "a < KERNBASE" using that(1) assms by simp
    moreover have "a < a + PGSIZE" if "a < KERNBASE" using that by (simp add: PGSIZE_def KERNBASE_def word_less_nat_alt unat_word_ariths)
    ultimately show ?thesis using that(2) next_table [of a]
      by (auto simp: dealloc_step_def bindE_def Let_def split: option.splits prod.splits if_splits sum.splits)
  qed
  have fail: "dealloc_step pgdir a s \<noteq> Inl Diverges" for a and s :: kmem
    by (auto simp: dealloc_step_def bindE_def Let_def kfree_def split: option.splits prod.splits if_splits sum.splits)
  have "dealloc_loop pgdir a oldsz s \<noteq> Inl Diverges" for a s
  proof (induction "unat oldsz - unat a" arbitrary: a s rule: less_induct)
    case less
    show ?case
    proof (cases "a < oldsz")
      case False
      then show ?thesis by (simp add: dealloc_loop.simps)
    next
      case True
      show ?thesis
      proof (cases "dealloc_step pgdir a s")
        case (Inl e)
        then show ?thesis using True fail [of a s] by (simp add: dealloc_loop.simps)
      next
        case (Inr r)
        obtain a' t where r: "r = (a', t)" by force
        have g: "a' + PGSIZE > a" using step [OF True] Inr r by simp
        then have "dealloc_loop pgdir (a' + PGSIZE) oldsz t \<noteq> Inl Diverges"
          using True by (intro less.hyps) (simp add: word_less_nat_alt)
        then show ?thesis using True Inr r g by (simp add: dealloc_loop.simps [of pgdir a])
      qed
    qed
  qed
  then show ?thesis by (auto simp: deallocuvm_def bindE_def split: sum.splits)
qed

end
