(* ===== verification/Pipe.thy ===== *)
theory Pipe
  imports Bytes
begin

text \<open>
  Pipes (\<^verbatim>\<open>pipe.c\<close>): a ring of 512 bytes with two 32-bit counters that are never reset. The
  counters wrap at \<open>2 ^ 32\<close>; the index into the ring is the counter modulo 512.

  A call that has to wait returns \<open>Sleeping\<close> with the bytes it has still to write; the channels it wakes are listed
  in order. \<open>contents\<close> is the abstract queue of a pipe: \<open>pipewrite\<close> appends to it and \<open>piperead\<close> takes from its front.
\<close>

section \<open>State and operations\<close>

definition PIPESIZE :: nat where "PIPESIZE = 512"

lemma PIPESIZE_pos [simp]: "0 < PIPESIZE"
  by (simp add: PIPESIZE_def)

record pipe =
  p_data :: "u8 list"
  nread :: u32
  nwrite :: u32
  readopen :: bool
  writeopen :: bool

datatype pipe_chan = NreadChan | NwriteChan

datatype 'a io = Done 'a | Sleeping "u8 list"

definition new_pipe :: "u8 list \<Rightarrow> pipe" where
  "new_pipe d = \<lparr>p_data = d, nread = 0, nwrite = 0, readopen = True, writeopen = True\<rparr>"

text \<open>The boolean result says that both ends are closed and the page goes back to \<^verbatim>\<open>kfree\<close>.\<close>

definition pipeclose :: "bool \<Rightarrow> pipe \<Rightarrow> bool \<times> pipe_chan \<times> pipe" where
  "pipeclose writable p =
    (let (c, p1) = (if writable then (NreadChan, p\<lparr>writeopen := False\<rparr>) else (NwriteChan, p\<lparr>readopen := False\<rparr>))
     in (\<not> readopen p1 \<and> \<not> writeopen p1, c, p1))"

definition put_byte :: "u8 \<Rightarrow> pipe \<Rightarrow> pipe" where
  "put_byte c p = p\<lparr>p_data := (p_data p)[unat (nwrite p) mod PIPESIZE := c], nwrite := nwrite p + 1\<rparr>"

fun pipewrite_from :: "bool \<Rightarrow> u8 list \<Rightarrow> pipe \<Rightarrow> bool io \<times> pipe_chan list \<times> pipe" where
  "pipewrite_from killed [] p = (Done True, [NreadChan], p)"
| "pipewrite_from killed (c # cs) p =
    (if nwrite p = nread p + of_nat PIPESIZE then
       if \<not> readopen p \<or> killed then (Done False, [], p)
       else (Sleeping (c # cs), [NreadChan], p)
     else pipewrite_from killed cs (put_byte c p))"

definition pipewrite :: "bool \<Rightarrow> u8 list \<Rightarrow> pipe \<Rightarrow> int io \<times> pipe_chan list \<times> pipe" where
  "pipewrite killed addr p =
    (case pipewrite_from killed addr p of
       (Done ok, cs, p1) \<Rightarrow> (Done (if ok then int (length addr) else -1), cs, p1)
     | (Sleeping r, cs, p1) \<Rightarrow> (Sleeping r, cs, p1))"

definition get_byte :: "pipe \<Rightarrow> u8 \<times> pipe" where
  "get_byte p = (p_data p ! (unat (nread p) mod PIPESIZE), p\<lparr>nread := nread p + 1\<rparr>)"

fun piperead_loop :: "nat \<Rightarrow> pipe \<Rightarrow> u8 list \<times> pipe" where
  "piperead_loop 0 p = ([], p)"
| "piperead_loop (Suc n) p =
    (if nread p = nwrite p then ([], p)
     else let (c, p1) = get_byte p; (cs, p2) = piperead_loop n p1 in (c # cs, p2))"

definition piperead :: "bool \<Rightarrow> nat \<Rightarrow> pipe \<Rightarrow> (int \<times> u8 list) io \<times> pipe_chan list \<times> pipe" where
  "piperead killed n p =
    (if nread p = nwrite p \<and> writeopen p then
       if killed then (Done (-1, []), [], p) else (Sleeping [], [], p)
     else let (cs, p1) = piperead_loop n p in (Done (int (length cs), cs), [NwriteChan], p1))"

section \<open>The queue\<close>

definition fill :: "pipe \<Rightarrow> nat" where
  "fill p = unat (nwrite p - nread p)"

definition contents :: "pipe \<Rightarrow> u8 list" where
  "contents p = map (\<lambda>k. p_data p ! ((unat (nread p) + k) mod PIPESIZE)) [0..<fill p]"

definition pipe_ok :: "pipe \<Rightarrow> bool" where
  "pipe_ok p \<longleftrightarrow> length (p_data p) = PIPESIZE \<and> fill p \<le> PIPESIZE"

lemma length_contents [simp]: "length (contents p) = fill p"
  by (simp add: contents_def)

text \<open>512 divides \<open>2 ^ 32\<close>, so the index does not see the wrap-around of a counter.\<close>

lemma unat_add_mod: "unat ((a :: u32) + of_nat k) mod PIPESIZE = (unat a + k) mod PIPESIZE"
proof -
  have "unat (a + of_nat k) = (unat a + k) mod 2 ^ 32"
    by (simp add: unat_word_ariths unat_of_nat take_bit_eq_mod mod_add_right_eq)
  moreover have "PIPESIZE dvd 2 ^ 32" by (simp add: PIPESIZE_def)
  ultimately show ?thesis by (simp add: mod_mod_cancel)
qed

lemma nwrite_index: "unat (nwrite p) mod PIPESIZE = (unat (nread p) + fill p) mod PIPESIZE"
  using unat_add_mod [of "nread p" "fill p"] by (simp add: fill_def)

lemma full_iff: "nwrite p = nread p + of_nat PIPESIZE \<longleftrightarrow> fill p = PIPESIZE"
proof -
  have "nwrite p = nread p + of_nat PIPESIZE \<longleftrightarrow> nwrite p - nread p = of_nat PIPESIZE" by (auto simp: algebra_simps)
  also have "\<dots> \<longleftrightarrow> fill p = PIPESIZE" by (simp add: fill_def PIPESIZE_def word_unat_eq_iff)
  finally show ?thesis .
qed

lemma empty_iff: "nread p = nwrite p \<longleftrightarrow> contents p = []"
proof -
  have "fill p = 0 \<longleftrightarrow> nwrite p - nread p = 0" by (simp add: fill_def unat_eq_zero)
  then show ?thesis by (auto simp: contents_def)
qed

lemma put_byte_ok:
  assumes p: "pipe_ok p" and n: "fill p < PIPESIZE"
  shows "pipe_ok (put_byte c p)" and "contents (put_byte c p) = contents p @ [c]"
proof -
  have e: "nwrite (put_byte c p) - nread (put_byte c p) = (nwrite p - nread p) + 1" by (simp add: put_byte_def)
  have "unat (nwrite p - nread p) < 512" using n by (simp add: fill_def PIPESIZE_def)
  then have f: "fill (put_byte c p) = Suc (fill p)" unfolding fill_def e by (simp add: unat_word_ariths)
  then show "pipe_ok (put_byte c p)" using p n by (simp add: pipe_ok_def put_byte_def)
  have r: "nread (put_byte c p) = nread p" by (simp add: put_byte_def)
  have old: "p_data (put_byte c p) ! ((unat (nread p) + k) mod PIPESIZE) = p_data p ! ((unat (nread p) + k) mod PIPESIZE)" if "k < fill p" for k
  proof -
    have "(unat (nread p) + k) mod PIPESIZE \<noteq> (unat (nread p) + fill p) mod PIPESIZE"
    proof
      assume "(unat (nread p) + k) mod PIPESIZE = (unat (nread p) + fill p) mod PIPESIZE"
      then have "k mod PIPESIZE = fill p mod PIPESIZE" by (simp add: mod_eq_dvd_iff_nat nat_mod_eq_iff)
      then show False using that n by simp
    qed
    then show ?thesis by (simp add: put_byte_def nwrite_index)
  qed
  have new: "p_data (put_byte c p) ! ((unat (nread p) + fill p) mod PIPESIZE) = c"
    using p by (simp add: put_byte_def nwrite_index pipe_ok_def)
  show "contents (put_byte c p) = contents p @ [c]"
    using old new by (simp add: contents_def f r)
qed

lemma get_byte_ok:
  assumes p: "pipe_ok p" and n: "contents p \<noteq> []"
  obtains p1 where "get_byte p = (hd (contents p), p1)" and "pipe_ok p1" and "contents p1 = tl (contents p)" and "readopen p1 = readopen p"
    and "writeopen p1 = writeopen p"
proof -
  let ?q = "p\<lparr>nread := nread p + 1\<rparr>"
  have pos: "fill p > 0" using n by (simp add: contents_def)
  have e: "nwrite ?q - nread ?q = (nwrite p - nread p) - 1" by simp
  have f: "Suc (fill ?q) = fill p" using pos unfolding fill_def e by (simp add: unat_minus_one unat_gt_0)
  have "pipe_ok ?q" using p f by (simp add: pipe_ok_def)
  moreover have c: "contents p = p_data p ! (unat (nread p) mod PIPESIZE) # contents ?q"
  proof -
    have "contents p = map (\<lambda>k. p_data p ! ((unat (nread p) + k) mod PIPESIZE)) (0 # map Suc [0..<fill ?q])"
      unfolding contents_def f [symmetric] upt_conv_Cons [OF zero_less_Suc] map_Suc_upt by simp
    also have "\<dots> = p_data p ! (unat (nread p) mod PIPESIZE) # contents ?q"
    proof -
      have "unat (nread p + 1) mod PIPESIZE = (unat (nread p) + 1) mod PIPESIZE" using unat_add_mod [of "nread p" 1] by simp
      then have "(unat (nread p + 1) + k) mod PIPESIZE = (unat (nread p) + Suc k) mod PIPESIZE" for k
        by (metis add.assoc mod_add_left_eq plus_1_eq_Suc)
      moreover have "nread ?q = nread p + 1" "p_data ?q = p_data p" by simp_all
      ultimately have "contents ?q = map (\<lambda>k. p_data p ! ((unat (nread p) + Suc k) mod PIPESIZE)) [0..<fill ?q]"
        unfolding contents_def by presburger
      then show ?thesis by simp
    qed
    finally show ?thesis .
  qed
  then have "hd (contents p) = p_data p ! (unat (nread p) mod PIPESIZE)" "contents ?q = tl (contents p)" by (metis list.sel)+
  ultimately show thesis by (intro that [of ?q]) (simp_all only: get_byte_def, simp_all)
qed

lemma pipewrite_from_ok:
  assumes "pipe_ok p"
  shows "\<exists>n. contents (snd (snd (pipewrite_from killed cs p))) = contents p @ take n cs \<and>
     pipe_ok (snd (snd (pipewrite_from killed cs p))) \<and>
     (case fst (pipewrite_from killed cs p) of
        Done True \<Rightarrow> n = length cs
      | Done False \<Rightarrow> n < length cs \<and> fill p + n = PIPESIZE \<and> (\<not> readopen p \<or> killed)
      | Sleeping r \<Rightarrow> n < length cs \<and> r = drop n cs \<and> fill p + n = PIPESIZE \<and> readopen p \<and> \<not> killed)"
  using assms
proof (induction killed cs p rule: pipewrite_from.induct)
  case (1 killed p)
  then show ?case by simp
next
  case (2 killed c cs p)
  show ?case
  proof (cases "nwrite p = nread p + of_nat PIPESIZE")
    case True
    then show ?thesis using 2(2) full_iff [of p] by (intro exI [of _ 0]) auto
  next
    case False
    then have n: "fill p < PIPESIZE" using 2(2) full_iff [of p] by (simp add: pipe_ok_def)
    note q = put_byte_ok [OF 2(2) n, of c]
    have sel: "readopen (put_byte c p) = readopen p" "fill (put_byte c p) = Suc (fill p)"
      using q(2) length_contents [of "put_byte c p"] by (simp_all add: put_byte_def)
    obtain m where m: "contents (snd (snd (pipewrite_from killed cs (put_byte c p)))) = contents (put_byte c p) @ take m cs"
      "pipe_ok (snd (snd (pipewrite_from killed cs (put_byte c p))))"
      "case fst (pipewrite_from killed cs (put_byte c p)) of
        Done True \<Rightarrow> m = length cs
      | Done False \<Rightarrow> m < length cs \<and> fill (put_byte c p) + m = PIPESIZE \<and> (\<not> readopen (put_byte c p) \<or> killed)
      | Sleeping r \<Rightarrow> m < length cs \<and> r = drop m cs \<and> fill (put_byte c p) + m = PIPESIZE \<and> readopen (put_byte c p) \<and> \<not> killed"
      using 2(1) [OF False q(1)] by blast
    show ?thesis
      using m False q(2) sel by (intro exI [of _ "Suc m"]) (auto split: io.splits bool.splits)
  qed
qed

lemma piperead_loop_ok:
  assumes "pipe_ok p"
  shows "fst (piperead_loop n p) = take n (contents p) \<and> contents (snd (piperead_loop n p)) = drop n (contents p) \<and>
     pipe_ok (snd (piperead_loop n p))"
  using assms
proof (induction n p rule: piperead_loop.induct)
  case (2 n p)
  show ?case
  proof (cases "contents p = []")
    case True
    then show ?thesis using 2(2) empty_iff [of p] by simp
  next
    case False
    then obtain p1 where p1: "get_byte p = (hd (contents p), p1)" "pipe_ok p1" "contents p1 = tl (contents p)"
      using get_byte_ok [OF 2(2)] by blast
    have ih: "fst (piperead_loop n p1) = take n (contents p1) \<and> contents (snd (piperead_loop n p1)) = drop n (contents p1) \<and>
       pipe_ok (snd (piperead_loop n p1))"
      using 2(1) [OF _ p1(1) [symmetric] _ p1(2)] False empty_iff [of p] by simp
    have "contents p = hd (contents p) # contents p1" using False p1(3) by simp
    then show ?thesis using ih p1(1) False empty_iff [of p]
      by (simp add: case_prod_beta take_Cons' drop_Suc p1(3) [symmetric] take_Suc)
  qed
qed simp

end
