(* ===== verification/PipeProps.thy ===== *)
theory PipeProps
  imports Pipe
begin

text \<open>
  Pipes as bounded queues: any sequence of writes and reads on a pipe with both ends open gives the results of a list of at most
  512 bytes, whatever the counters are, also when they wrap.
\<close>

datatype pipe_op = PWrite "u8 list" | PRead nat

datatype pipe_res = WroteP "int io" | ReadP "(int \<times> u8 list) io"

definition pipe_step :: "pipe_op \<Rightarrow> pipe \<Rightarrow> pipe_res \<times> pipe" where
  "pipe_step x p =
    (case x of
       PWrite cs \<Rightarrow> (case pipewrite False cs p of (r, _, p1) \<Rightarrow> (WroteP r, p1))
     | PRead n \<Rightarrow> (case piperead False n p of (r, _, p1) \<Rightarrow> (ReadP r, p1)))"

text \<open>The specification: a writer that does not fit fills the queue and waits with the rest; a reader waits on an empty queue.\<close>

definition queue_step :: "pipe_op \<Rightarrow> u8 list \<Rightarrow> pipe_res \<times> u8 list" where
  "queue_step x q =
    (case x of
       PWrite cs \<Rightarrow>
         let k = PIPESIZE - length q
         in (WroteP (if length cs \<le> k then Done (int (length cs)) else Sleeping (drop k cs)), q @ take k cs)
     | PRead n \<Rightarrow>
         if q = [] then (ReadP (Sleeping []), [])
         else (ReadP (Done (int (length (take n q)), take n q)), drop n q))"

definition pipe_open :: "pipe \<Rightarrow> bool" where
  "pipe_open p \<longleftrightarrow> pipe_ok p \<and> readopen p \<and> writeopen p"

lemma pipewrite_from_keeps:
  "readopen (snd (snd (pipewrite_from killed cs p))) = readopen p \<and> writeopen (snd (snd (pipewrite_from killed cs p))) = writeopen p"
  by (induction killed cs p rule: pipewrite_from.induct) (auto simp: put_byte_def)

lemma piperead_loop_keeps:
  "readopen (snd (piperead_loop n p)) = readopen p \<and> writeopen (snd (piperead_loop n p)) = writeopen p"
  by (induction n p rule: piperead_loop.induct) (auto simp: get_byte_def case_prod_beta Let_def)

lemma pipe_write_sim:
  assumes p: "pipe_open p" and w: "pipe_step (PWrite cs) p = (r, q)"
  shows "pipe_open q \<and> queue_step (PWrite cs) (contents p) = (r, contents q)"
proof -
  obtain io wk p1 where f: "pipewrite_from False cs p = (io, wk, p1)" by (metis prod_cases3)
  have q: "q = p1" "r = WroteP (case io of Done ok \<Rightarrow> Done (if ok then int (length cs) else -1) | Sleeping x \<Rightarrow> Sleeping x)"
    using w f by (auto simp: pipe_step_def pipewrite_def split: io.splits)
  have ok: "pipe_ok p" "readopen p" "writeopen p" using p by (simp_all add: pipe_open_def)
  obtain n where n: "contents p1 = contents p @ take n cs" "pipe_ok p1"
    "case io of Done True \<Rightarrow> n = length cs
      | Done False \<Rightarrow> n < length cs \<and> fill p + n = PIPESIZE \<and> (\<not> readopen p \<or> False)
      | Sleeping r \<Rightarrow> n < length cs \<and> r = drop n cs \<and> fill p + n = PIPESIZE \<and> readopen p \<and> \<not> False"
    using pipewrite_from_ok [OF ok(1), of False cs] f by auto
  have po: "pipe_open p1" using n(2) ok pipewrite_from_keeps [of False cs p] f by (simp add: pipe_open_def)
  have len: "length (contents p) = fill p" "fill p1 = fill p + min (length cs) n" using arg_cong [OF n(1), of length] by simp_all
  have le: "fill p1 \<le> PIPESIZE" using n(2) by (simp add: pipe_ok_def)
  show ?thesis
  proof (cases io)
    case (Done b)
    then have b: "b" "n = length cs" using n(3) ok(2) by (auto split: bool.splits)
    then show ?thesis using po q n(1) len le Done by (simp add: queue_step_def Let_def)
  next
    case (Sleeping x)
    then have "n < length cs" "x = drop n cs" "PIPESIZE - fill p = n" using n(3) by auto
    then show ?thesis using po q n(1) len(1) Sleeping by (simp add: queue_step_def Let_def)
  qed
qed

lemma pipe_read_sim:
  assumes p: "pipe_open p" and w: "pipe_step (PRead n) p = (r, q)"
  shows "pipe_open q \<and> queue_step (PRead n) (contents p) = (r, contents q)"
proof -
  have ok: "pipe_ok p" "readopen p" "writeopen p" using p by (simp_all add: pipe_open_def)
  note l = piperead_loop_ok [OF ok(1), of n] and k = piperead_loop_keeps [of n p]
  show ?thesis
  proof (cases "contents p = []")
    case True
    then show ?thesis using w p empty_iff [of p] ok(3) by (auto simp: pipe_step_def piperead_def queue_step_def)
  next
    case False
    then show ?thesis using w empty_iff [of p] l k ok
      by (auto simp: pipe_step_def piperead_def queue_step_def pipe_open_def case_prod_beta)
  qed
qed

interpretation pr: functional_refinement pipe_step queue_step contents pipe_open
proof unfold_locales
  fix s x r t
  assume "pipe_open s" and "pipe_step x s = (r, t)"
  then show "pipe_open t \<and> queue_step x (contents s) = (r, contents t)"
    using pipe_write_sim pipe_read_sim by (cases x) blast+
qed

text \<open>C11. A pipe with both ends open is a queue of at most 512 bytes: every sequence of \<open>pipewrite\<close> and \<open>piperead\<close> calls, each run up to the point where it
  sleeps, gives the results that the queue gives, the bytes come out in the order they went in, and the ring holds exactly
  the queue; the counters may start anywhere and wrap at \<open>2 ^ 32\<close>.\<close>

theorem pipe_is_bounded_queue:
  assumes "pipe_open p" and "run_ops pipe_step xs p = (rs, q)"
  shows "pipe_open q \<and> run_ops queue_step xs (contents p) = (rs, contents q)"
  by (rule pr.runs_refine [OF assms])

text \<open>An empty pipe whose counters are about to wrap.\<close>

definition demo_pipe :: pipe where
  "demo_pipe = \<lparr>p_data = replicate PIPESIZE 0, nread = 0xFFFFFFFE, nwrite = 0xFFFFFFFE, readopen = True, writeopen = True\<rparr>"

theorem pipe_is_bounded_queue_witness:
  "Product_Type.fst (run_ops pipe_step [PWrite [1, 2, 3], PRead 2, PRead 5, PRead 1] demo_pipe) =
     [WroteP (Done 3), ReadP (Done (2, [1, 2])), ReadP (Done (1, [3])), ReadP (Sleeping [])] \<and>
   contents (Product_Type.snd (run_ops pipe_step [PWrite [1, 2, 3], PRead 2, PRead 5, PRead 1] demo_pipe)) = []"
proof -
  have "pipe_open demo_pipe" "contents demo_pipe = []"
    by (simp_all add: demo_pipe_def pipe_open_def pipe_ok_def fill_def contents_def PIPESIZE_def)
  moreover have "run_ops queue_step [PWrite [1, 2, 3], PRead 2, PRead 5, PRead 1] [] =
     ([WroteP (Done 3), ReadP (Done (2, [1, 2])), ReadP (Done (1, [3])), ReadP (Sleeping [])], [])"
    by (simp add: queue_step_def PIPESIZE_def)
  ultimately show ?thesis
    using pipe_is_bounded_queue [of demo_pipe "[PWrite [1, 2, 3], PRead 2, PRead 5, PRead 1]", OF _ surjective_pairing] by simp
qed

end
