(* ===== verification/File.thy ===== *)
theory File
  imports Fs Pipe Kalloc
begin

text \<open>
  Open files (\<^verbatim>\<open>file.c\<close>) and the creation and closing of pipes (\<^verbatim>\<open>pipe.c\<close>), on the file
  system, the page allocator and the pipes. A pipe lives in a page of its own and is named by the
  address of that page. \<open>killed\<close> is the flag of the calling process. Wake-ups change the states of
  processes only and are left out here.
\<close>

section \<open>State\<close>

definition NFILE :: nat where "NFILE = 100"

datatype fd_type = FD_NONE | FD_PIPE | FD_INODE

record file_t =
  f_type :: fd_type
  f_ref :: int
  f_readable :: bool
  f_writable :: bool
  f_pipe :: u32
  f_ip :: nat
  f_off :: u32

record xst =
  xfs :: fst
  ftable :: "nat \<Rightarrow> file_t"
  pipes :: "u32 \<Rightarrow> pipe"
  km :: kmem

definition upd_f :: "nat \<Rightarrow> (file_t \<Rightarrow> file_t) \<Rightarrow> xst \<Rightarrow> xst" where
  "upd_f f g s = s\<lparr>ftable := (ftable s)(f := g (ftable s f))\<rparr>"

definition set_pipe :: "u32 \<Rightarrow> pipe \<Rightarrow> xst \<Rightarrow> xst" where
  "set_pipe a p s = s\<lparr>pipes := (pipes s)(a := p)\<rparr>"

definition on_fs :: "(fst \<Rightarrow> kerr + fst) \<Rightarrow> xst \<Rightarrow> kerr + xst" where
  "on_fs g s = bindE (g (xfs s)) (\<lambda>t. Inr (s\<lparr>xfs := t\<rparr>))"

section \<open>Operations\<close>

definition filealloc :: "xst \<Rightarrow> ptr \<times> xst" where
  "filealloc s =
    (case find (\<lambda>f. f_ref (ftable s f) = 0) [0..<NFILE] of
       None \<Rightarrow> (None, s)
     | Some f \<Rightarrow> (Some f, upd_f f (\<lambda>x. x\<lparr>f_ref := 1\<rparr>) s))"

definition filedup :: "nat \<Rightarrow> xst \<Rightarrow> kerr + xst" where
  "filedup f s =
    (if f_ref (ftable s f) < 1 then Inl (Panic ''filedup'') else Inr (upd_f f (\<lambda>x. x\<lparr>f_ref := f_ref x + 1\<rparr>) s))"

definition pipeclose_x :: "u32 \<Rightarrow> bool \<Rightarrow> xst \<Rightarrow> kerr + xst" where
  "pipeclose_x a writable s =
    (let (both, _, p) = pipeclose writable (pipes s a); s1 = set_pipe a p s in
     if both then bindE (kfree a (km s1)) (\<lambda>k. Inr (s1\<lparr>km := k\<rparr>)) else Inr s1)"

definition fileclose :: "int \<Rightarrow> nat \<Rightarrow> xst \<Rightarrow> kerr + xst" where
  "fileclose me f s =
    (let ff = ftable s f in
     if f_ref ff < 1 then Inl (Panic ''fileclose'')
     else if f_ref ff - 1 > 0 then Inr (upd_f f (\<lambda>x. x\<lparr>f_ref := f_ref x - 1\<rparr>) s)
     else
       let s1 = upd_f f (\<lambda>x. x\<lparr>f_ref := 0, f_type := FD_NONE\<rparr>) s in
       case f_type ff of
         FD_PIPE \<Rightarrow> pipeclose_x (f_pipe ff) (f_writable ff) s1
       | FD_INODE \<Rightarrow>
           bindE (on_fs (on_l begin_op) s1) (\<lambda>s2.
           bindE (on_fs (iput me (f_ip ff)) s2) (\<lambda>s3.
           on_fs (on_l (end_op me)) s3))
       | FD_NONE \<Rightarrow> Inr s1)"

definition pipe_file :: "bool \<Rightarrow> u32 \<Rightarrow> file_t \<Rightarrow> file_t" where
  "pipe_file w a x = x\<lparr>f_type := FD_PIPE, f_readable := \<not> w, f_writable := w, f_pipe := a\<rparr>"

text \<open>The label \<^verbatim>\<open>bad\<close>: close what was opened.\<close>

definition pipealloc_bad :: "int \<Rightarrow> ptr \<Rightarrow> ptr \<Rightarrow> xst \<Rightarrow> kerr + (nat \<times> nat) option \<times> xst" where
  "pipealloc_bad me f0 f1 s =
    bindE (case f0 of None \<Rightarrow> Inr s | Some f \<Rightarrow> fileclose me f s) (\<lambda>s1.
    bindE (case f1 of None \<Rightarrow> Inr s1 | Some f \<Rightarrow> fileclose me f s1) (\<lambda>s2.
    Inr (None, s2)))"

definition pipealloc :: "int \<Rightarrow> xst \<Rightarrow> kerr + (nat \<times> nat) option \<times> xst" where
  "pipealloc me s =
    (case filealloc s of
       (None, s1) \<Rightarrow> pipealloc_bad me None None s1
     | (Some f0, s1) \<Rightarrow>
         case filealloc s1 of
           (None, s2) \<Rightarrow> pipealloc_bad me (Some f0) None s2
         | (Some f1, s2) \<Rightarrow>
             let (a, k) = kalloc (km s2); s3 = s2\<lparr>km := k\<rparr> in
             if a = 0 then pipealloc_bad me (Some f0) (Some f1) s3
             else
               let s4 = set_pipe a (new_pipe (take PIPESIZE (page_at a k))) s3
               in Inr (Some (f0, f1), upd_f f1 (pipe_file True a) (upd_f f0 (pipe_file False a) s4)))"

definition filestat :: "int \<Rightarrow> nat \<Rightarrow> xst \<Rightarrow> kerr + stat option \<times> xst" where
  "filestat me f s =
    (let x = ftable s f in
     if f_type x = FD_INODE then
       bindE (on_fs (ilock me (Some (f_ip x))) s) (\<lambda>s1.
         let st = stati (f_ip x) (xfs s1)
         in bindE (on_fs (iunlock me (Some (f_ip x))) s1) (\<lambda>s2. Inr (Some st, s2)))
     else Inr (None, s))"

definition fileread :: "devsw \<Rightarrow> int \<Rightarrow> bool \<Rightarrow> nat \<Rightarrow> nat \<Rightarrow> xst \<Rightarrow> kerr + (int \<times> u8 list) io \<times> xst" where
  "fileread D me killed f n s =
    (let x = ftable s f in
     if \<not> f_readable x then Inr (Done (-1, []), s)
     else case f_type x of
       FD_PIPE \<Rightarrow> let (r, _, p) = piperead killed n (pipes s (f_pipe x)) in Inr (r, set_pipe (f_pipe x) p s)
     | FD_INODE \<Rightarrow>
         bindE (on_fs (ilock me (Some (f_ip x))) s) (\<lambda>s1.
         bindE (readi D me (f_ip x) (f_off x) (of_nat n) (xfs s1)) (\<lambda>((r, xs), t).
           let s2 = s1\<lparr>xfs := t\<rparr>; s3 = (if r > 0 then upd_f f (\<lambda>x. x\<lparr>f_off := f_off x + of_int r\<rparr>) s2 else s2)
           in bindE (on_fs (iunlock me (Some (f_ip x))) s3) (\<lambda>s4. Inr (Done (r, xs), s4))))
     | FD_NONE \<Rightarrow> Inl (Panic ''fileread''))"

definition MAXWRITE :: nat where "MAXWRITE = ((MAXOPBLOCKS - 1 - 1 - 2) div 2) * 512"

text \<open>One transaction of \<^verbatim>\<open>filewrite\<close>.\<close>

definition filewrite_one :: "devsw \<Rightarrow> int \<Rightarrow> nat \<Rightarrow> u8 list \<Rightarrow> xst \<Rightarrow> kerr + int \<times> xst" where
  "filewrite_one D me f chunk s =
    (let ip = f_ip (ftable s f) in
     bindE (on_fs (on_l begin_op) s) (\<lambda>s1.
     bindE (on_fs (ilock me (Some ip)) s1) (\<lambda>s2.
     bindE (writei D me ip chunk (f_off (ftable s2 f)) (of_nat (length chunk)) (xfs s2)) (\<lambda>(r, t).
       let s3 = s2\<lparr>xfs := t\<rparr>; s4 = (if r > 0 then upd_f f (\<lambda>x. x\<lparr>f_off := f_off x + of_int r\<rparr>) s3 else s3) in
       bindE (on_fs (iunlock me (Some ip)) s4) (\<lambda>s5.
       bindE (on_fs (on_l (end_op me)) s5) (\<lambda>s6.
       Inr (r, s6)))))))"

text \<open>The loop; the boolean result says that everything was written.\<close>

function filewrite_loop :: "devsw \<Rightarrow> int \<Rightarrow> nat \<Rightarrow> u8 list \<Rightarrow> xst \<Rightarrow> kerr + bool \<times> xst" where
  "filewrite_loop D me f addr s =
    (if addr = [] then Inr (True, s)
     else
       let chunk = take MAXWRITE addr in
       bindE (filewrite_one D me f chunk s) (\<lambda>(r, s1).
         if r < 0 then Inr (False, s1)
         else if r \<noteq> int (length chunk) then Inl (Panic ''short filewrite'')
         else filewrite_loop D me f (drop MAXWRITE addr) s1))"
  by pat_completeness auto
termination
  by (relation "measure (\<lambda>(D, me, f, addr, s). length addr)") (auto simp: MAXWRITE_def MAXOPBLOCKS_def)

declare filewrite_loop.simps [simp del]

definition filewrite :: "devsw \<Rightarrow> int \<Rightarrow> bool \<Rightarrow> nat \<Rightarrow> u8 list \<Rightarrow> xst \<Rightarrow> kerr + int io \<times> xst" where
  "filewrite D me killed f addr s =
    (let x = ftable s f in
     if \<not> f_writable x then Inr (Done (-1), s)
     else case f_type x of
       FD_PIPE \<Rightarrow> let (r, _, p) = pipewrite killed addr (pipes s (f_pipe x)) in Inr (r, set_pipe (f_pipe x) p s)
     | FD_INODE \<Rightarrow> bindE (filewrite_loop D me f addr s) (\<lambda>(ok, s1). Inr (Done (if ok then int (length addr) else -1), s1))
     | FD_NONE \<Rightarrow> Inl (Panic ''filewrite''))"

end
