(* ===== verification/Sysfile.thy ===== *)
theory Sysfile
  imports File
begin

text \<open>
  System calls on files (\<^verbatim>\<open>sysfile.c\<close>) and the fetching of their arguments from user memory (\<^verbatim>\<open>syscall.c\<close>).

  \<open>ust\<close> is what a call sees of the running process and of the kernel: the bytes of its address space, its size and stack pointer, its
  open files and its working directory. \<open>me\<close> is its identifier, \<open>killed\<close> its flag. A call whose read or write has to wait returns \<open>Sleeping\<close>.
\<close>

section \<open>State\<close>

definition MAXARG :: nat where "MAXARG = 32"
definition O_RDONLY :: u32 where "O_RDONLY = 0"
definition O_WRONLY :: u32 where "O_WRONLY = 1"
definition O_RDWR :: u32 where "O_RDWR = 2"
definition O_CREATE :: u32 where "O_CREATE = 0x200"
definition STAT_SIZE :: int where "STAT_SIZE = 20"

record ust =
  ux :: xst
  umem :: "u32 \<Rightarrow> u8"
  usz :: u32
  uesp :: u32
  ofile :: "nat \<Rightarrow> ptr"
  ucwd :: nat

definition load :: "u32 \<Rightarrow> nat \<Rightarrow> ust \<Rightarrow> u8 list" where
  "load p n s = map (\<lambda>k. umem s (p + of_nat k)) [0..<n]"

lemma nth_load: "k < n \<Longrightarrow> load p n s ! k = umem s (p + of_nat k)"
  by (simp add: load_def)

definition store :: "u32 \<Rightarrow> u8 list \<Rightarrow> ust \<Rightarrow> ust" where
  "store p xs s = s\<lparr>umem := (\<lambda>a. if unat (a - p) < length xs then xs ! unat (a - p) else umem s a)\<rparr>"

definition bytes32 :: "u32 \<Rightarrow> u8 list" where
  "bytes32 w = put32 0 w (replicate 4 0)"

definition bytes16 :: "16 word \<Rightarrow> u8 list" where
  "bytes16 w = put16 0 w (replicate 2 0)"

text \<open>Operations of the file system on the state of a call.\<close>

definition xr :: "(fst \<Rightarrow> kerr + 'a \<times> fst) \<Rightarrow> ust \<Rightarrow> kerr + 'a \<times> ust" where
  "xr g s = bindE (g (xfs (ux s))) (\<lambda>(r, t). Inr (r, s\<lparr>ux := (ux s)\<lparr>xfs := t\<rparr>\<rparr>))"

definition xu :: "(fst \<Rightarrow> kerr + fst) \<Rightarrow> ust \<Rightarrow> kerr + ust" where
  "xu g s = bindE (g (xfs (ux s))) (\<lambda>t. Inr (s\<lparr>ux := (ux s)\<lparr>xfs := t\<rparr>\<rparr>))"

definition xi :: "nat \<Rightarrow> ust \<Rightarrow> inode" where
  "xi ip s = icache (xfs (ux s)) ip"

definition upd_x :: "nat \<Rightarrow> (dinode \<Rightarrow> dinode) \<Rightarrow> ust \<Rightarrow> ust" where
  "upd_x ip f s = s\<lparr>ux := (ux s)\<lparr>xfs := upd_d ip f (xfs (ux s))\<rparr>\<rparr>"

definition begin_x :: "ust \<Rightarrow> kerr + ust" where
  "begin_x = xu (on_l begin_op)"

text \<open>\<^verbatim>\<open>end_op(); return r;\<close>\<close>

definition finish :: "int \<Rightarrow> int \<Rightarrow> ust \<Rightarrow> kerr + int \<times> ust" where
  "finish me r s = bindE (xu (on_l (end_op me)) s) (\<lambda>t. Inr (r, t))"

section \<open>Arguments\<close>

definition fetchint :: "u32 \<Rightarrow> ust \<Rightarrow> u32 option" where
  "fetchint addr s =
    (if addr \<ge> usz s \<or> addr + 4 > usz s then None else Some (get32 (load addr 4 s) 0))"

definition fetchstr :: "u32 \<Rightarrow> ust \<Rightarrow> u8 list option" where
  "fetchstr addr s =
    (if addr \<ge> usz s then None
     else case find (\<lambda>a. umem s (of_nat a) = 0) [unat addr..<unat (usz s)] of
       None \<Rightarrow> None
     | Some e \<Rightarrow> Some (load addr (e - unat addr) s))"

definition argint :: "nat \<Rightarrow> ust \<Rightarrow> u32 option" where
  "argint n s = fetchint (uesp s + 4 + 4 * of_nat n) s"

definition argptr :: "nat \<Rightarrow> int \<Rightarrow> ust \<Rightarrow> u32 option" where
  "argptr n nb s =
    (case argint n s of
       None \<Rightarrow> None
     | Some i \<Rightarrow> if nb < 0 \<or> i \<ge> usz s \<or> i + of_int nb > usz s then None else Some i)"

definition argstr :: "nat \<Rightarrow> ust \<Rightarrow> u8 list option" where
  "argstr n s = (case argint n s of None \<Rightarrow> None | Some addr \<Rightarrow> fetchstr addr s)"

definition argfd :: "nat \<Rightarrow> ust \<Rightarrow> (nat \<times> nat) option" where
  "argfd n s =
    (case argint n s of
       None \<Rightarrow> None
     | Some w \<Rightarrow>
         let fd = sint w in
         if fd < 0 \<or> fd \<ge> int NOFILE then None
         else case ofile s (nat fd) of None \<Rightarrow> None | Some f \<Rightarrow> Some (nat fd, f))"

definition fdalloc :: "nat \<Rightarrow> ust \<Rightarrow> int \<times> ust" where
  "fdalloc f s =
    (case find (\<lambda>fd. ofile s fd = None) [0..<NOFILE] of
       Some fd \<Rightarrow> (int fd, s\<lparr>ofile := (ofile s)(fd := Some f)\<rparr>)
     | None \<Rightarrow> (-1, s))"

section \<open>Calls on open files\<close>

definition sys_dup :: "ust \<Rightarrow> kerr + int \<times> ust" where
  "sys_dup s =
    (case argfd 0 s of
       None \<Rightarrow> Inr (-1, s)
     | Some (_, f) \<Rightarrow>
         let (fd, s1) = fdalloc f s in
         if fd < 0 then Inr (-1, s1)
         else bindE (filedup f (ux s1)) (\<lambda>x. Inr (fd, s1\<lparr>ux := x\<rparr>)))"

definition rw_args :: "ust \<Rightarrow> (nat \<times> u32 \<times> nat) option" where
  "rw_args s =
    (case (argfd 0 s, argint 2 s) of
       (Some (_, f), Some n) \<Rightarrow>
         (case argptr 1 (sint n) s of None \<Rightarrow> None | Some p \<Rightarrow> Some (f, p, nat (sint n)))
     | _ \<Rightarrow> None)"

definition sys_read :: "devsw \<Rightarrow> int \<Rightarrow> bool \<Rightarrow> ust \<Rightarrow> kerr + int io \<times> ust" where
  "sys_read D me killed s =
    (case rw_args s of
       None \<Rightarrow> Inr (Done (-1), s)
     | Some (f, p, n) \<Rightarrow>
         bindE (fileread D me killed f n (ux s)) (\<lambda>(r, x).
           case r of
             Done (k, xs) \<Rightarrow> Inr (Done k, store p xs (s\<lparr>ux := x\<rparr>))
           | Sleeping rest \<Rightarrow> Inr (Sleeping rest, s\<lparr>ux := x\<rparr>)))"

definition sys_write :: "devsw \<Rightarrow> int \<Rightarrow> bool \<Rightarrow> ust \<Rightarrow> kerr + int io \<times> ust" where
  "sys_write D me killed s =
    (case rw_args s of
       None \<Rightarrow> Inr (Done (-1), s)
     | Some (f, p, n) \<Rightarrow>
         bindE (filewrite D me killed f (load p n s) (ux s)) (\<lambda>(r, x). Inr (r, s\<lparr>ux := x\<rparr>)))"

definition sys_close :: "int \<Rightarrow> ust \<Rightarrow> kerr + int \<times> ust" where
  "sys_close me s =
    (case argfd 0 s of
       None \<Rightarrow> Inr (-1, s)
     | Some (fd, f) \<Rightarrow>
         let s1 = s\<lparr>ofile := (ofile s)(fd := None)\<rparr>
         in bindE (fileclose me f (ux s1)) (\<lambda>x. Inr (0, s1\<lparr>ux := x\<rparr>)))"

text \<open>The fields of \<open>struct stat\<close> at their offsets; the padding keeps its bytes.\<close>

definition store_stat :: "u32 \<Rightarrow> stat \<Rightarrow> ust \<Rightarrow> ust" where
  "store_stat p st s =
    store (p + 16) (bytes32 (st_size st)) (store (p + 12) (bytes16 (st_nlink st)) (store (p + 8) (bytes32 (of_nat (st_ino st)))
      (store (p + 4) (bytes32 (of_nat (st_dev st))) (store p (bytes16 (st_type st)) s))))"

definition sys_fstat :: "int \<Rightarrow> ust \<Rightarrow> kerr + int \<times> ust" where
  "sys_fstat me s =
    (case (argfd 0 s, argptr 1 STAT_SIZE s) of
       (Some (_, f), Some p) \<Rightarrow>
         bindE (filestat me f (ux s)) (\<lambda>(r, x).
           case r of
             Some st \<Rightarrow> Inr (0, store_stat p st (s\<lparr>ux := x\<rparr>))
           | None \<Rightarrow> Inr (-1, s\<lparr>ux := x\<rparr>))
     | _ \<Rightarrow> Inr (-1, s))"

definition sys_pipe :: "int \<Rightarrow> ust \<Rightarrow> kerr + int \<times> ust" where
  "sys_pipe me s =
    (case argptr 0 8 s of
       None \<Rightarrow> Inr (-1, s)
     | Some p \<Rightarrow>
         bindE (pipealloc me (ux s)) (\<lambda>(r, x).
           let s1 = s\<lparr>ux := x\<rparr> in
           case r of
             None \<Rightarrow> Inr (-1, s1)
           | Some (rfl, wfl) \<Rightarrow>
               let (fd0, s2) = fdalloc rfl s1; (fd1, s3) = (if fd0 < 0 then (-1, s2) else fdalloc wfl s2) in
               if fd0 < 0 \<or> fd1 < 0 then
                 let s4 = (if fd0 \<ge> 0 then s3\<lparr>ofile := (ofile s3)(nat fd0 := None)\<rparr> else s3) in
                 bindE (fileclose me rfl (ux s4)) (\<lambda>y.
                 bindE (fileclose me wfl y) (\<lambda>z.
                 Inr (-1, s4\<lparr>ux := z\<rparr>)))
               else Inr (0, store (p + 4) (bytes32 (of_int fd1)) (store p (bytes32 (of_int fd0)) s3))))"

section \<open>Calls on the tree of directories\<close>

definition link_bad :: "int \<Rightarrow> nat \<Rightarrow> ust \<Rightarrow> kerr + int \<times> ust" where
  "link_bad me ip s =
    bindE (xu (ilock me (Some ip)) s) (\<lambda>s1.
    bindE (xu (iupdate me ip) (upd_x ip (\<lambda>d. d\<lparr>di_nlink := di_nlink d - 1\<rparr>) s1)) (\<lambda>s2.
    bindE (xu (iunlockput me ip) s2) (finish me (-1))))"

definition sys_link :: "devsw \<Rightarrow> int \<Rightarrow> ust \<Rightarrow> kerr + int \<times> ust" where
  "sys_link D me s =
    (case (argstr 0 s, argstr 1 s) of
       (Some old, Some new) \<Rightarrow>
         bindE (begin_x s) (\<lambda>s1.
         bindE (xr (namei D me (ucwd s1) old) s1) (\<lambda>(p, s2).
           case p of
             None \<Rightarrow> finish me (-1) s2
           | Some ip \<Rightarrow>
               bindE (xu (ilock me (Some ip)) s2) (\<lambda>s3.
                 if di_type (i_d (xi ip s3)) = T_DIR then bindE (xu (iunlockput me ip) s3) (finish me (-1))
                 else
                   bindE (xu (iupdate me ip) (upd_x ip (\<lambda>d. d\<lparr>di_nlink := di_nlink d + 1\<rparr>) s3)) (\<lambda>s4.
                   bindE (xu (iunlock me (Some ip)) s4) (\<lambda>s5.
                   bindE (xr (nameiparent D me (ucwd s5) new) s5) (\<lambda>((q, name), s6).
                     case q of
                       None \<Rightarrow> link_bad me ip s6
                     | Some dp \<Rightarrow>
                         bindE (xu (ilock me (Some dp)) s6) (\<lambda>s7.
                         bindE (if i_dev (xi dp s7) \<noteq> i_dev (xi ip s7) then Inr (-1, s7)
                                else xr (dirlink D me dp name (i_inum (xi ip s7))) s7) (\<lambda>(r, s8).
                           if r < 0 then bindE (xu (iunlockput me dp) s8) (link_bad me ip)
                           else
                             bindE (xu (iunlockput me dp) s8) (\<lambda>s9.
                             bindE (xu (iput me ip) s9) (finish me 0))))))))))
     | _ \<Rightarrow> Inr (-1, s))"

fun isdirempty_from :: "devsw \<Rightarrow> int \<Rightarrow> nat \<Rightarrow> nat list \<Rightarrow> ust \<Rightarrow> kerr + bool \<times> ust" where
  "isdirempty_from D me dp [] s = Inr (True, s)"
| "isdirempty_from D me dp (off # offs) s =
    bindE (xr (readi D me dp (of_nat off) (of_nat DIRENT_SIZE)) s) (\<lambda>((r, xs), s1).
      if r \<noteq> int DIRENT_SIZE then Inl (Panic ''isdirempty: readi'')
      else if de_inum (get_dirent xs) \<noteq> 0 then Inr (False, s1)
      else isdirempty_from D me dp offs s1)"

definition isdirempty :: "devsw \<Rightarrow> int \<Rightarrow> nat \<Rightarrow> ust \<Rightarrow> kerr + bool \<times> ust" where
  "isdirempty D me dp s = isdirempty_from D me dp (drop 2 (dir_offs (di_size (i_d (xi dp s))))) s"

definition unlink_bad :: "int \<Rightarrow> nat \<Rightarrow> ust \<Rightarrow> kerr + int \<times> ust" where
  "unlink_bad me dp s = bindE (xu (iunlockput me dp) s) (finish me (-1))"

definition sys_unlink :: "devsw \<Rightarrow> int \<Rightarrow> ust \<Rightarrow> kerr + int \<times> ust" where
  "sys_unlink D me s =
    (case argstr 0 s of
       None \<Rightarrow> Inr (-1, s)
     | Some path \<Rightarrow>
         bindE (begin_x s) (\<lambda>s1.
         bindE (xr (nameiparent D me (ucwd s1) path) s1) (\<lambda>((q, name), s2).
           case q of
             None \<Rightarrow> finish me (-1) s2
           | Some dp \<Rightarrow>
               bindE (xu (ilock me (Some dp)) s2) (\<lambda>s3.
                 if namecmp name [46] = 0 \<or> namecmp name [46, 46] = 0 then unlink_bad me dp s3
                 else
                   bindE (xr (dirlookup D me dp name) s3) (\<lambda>(r, s4).
                     case r of
                       None \<Rightarrow> unlink_bad me dp s4
                     | Some (ip, off) \<Rightarrow>
                         bindE (xu (ilock me (Some ip)) s4) (\<lambda>s5.
                           if sint (di_nlink (i_d (xi ip s5))) < 1 then Inl (Panic ''unlink: nlink < 1'')
                           else
                             bindE (if di_type (i_d (xi ip s5)) = T_DIR then isdirempty D me ip s5 else Inr (True, s5)) (\<lambda>(e, s6).
                               if \<not> e then bindE (xu (iunlockput me ip) s6) (unlink_bad me dp)
                               else
                                 bindE (xr (writei D me dp (replicate DIRENT_SIZE 0) (of_nat off) (of_nat DIRENT_SIZE)) s6) (\<lambda>(n, s7).
                                   if n \<noteq> int DIRENT_SIZE then Inl (Panic ''unlink: writei'')
                                   else
                                     bindE (if di_type (i_d (xi ip s7)) = T_DIR
                                            then xu (iupdate me dp) (upd_x dp (\<lambda>d. d\<lparr>di_nlink := di_nlink d - 1\<rparr>) s7)
                                            else Inr s7) (\<lambda>s8.
                                     bindE (xu (iunlockput me dp) s8) (\<lambda>s9.
                                     bindE (xu (iupdate me ip) (upd_x ip (\<lambda>d. d\<lparr>di_nlink := di_nlink d - 1\<rparr>) s9)) (\<lambda>s10.
                                     bindE (xu (iunlockput me ip) s10) (finish me 0))))))))))))"

definition create :: "devsw \<Rightarrow> int \<Rightarrow> u8 list \<Rightarrow> 16 word \<Rightarrow> 16 word \<Rightarrow> 16 word \<Rightarrow> ust \<Rightarrow> kerr + ptr \<times> ust" where
  "create D me path ty major minor s =
    bindE (xr (nameiparent D me (ucwd s) path) s) (\<lambda>((q, name), s1).
      case q of
        None \<Rightarrow> Inr (None, s1)
      | Some dp \<Rightarrow>
          bindE (xu (ilock me (Some dp)) s1) (\<lambda>s2.
          bindE (xr (dirlookup D me dp name) s2) (\<lambda>(r, s3).
            case r of
              Some (ip, _) \<Rightarrow>
                bindE (xu (iunlockput me dp) s3) (\<lambda>s4.
                bindE (xu (ilock me (Some ip)) s4) (\<lambda>s5.
                  if ty = T_FILE \<and> di_type (i_d (xi ip s5)) = T_FILE then Inr (Some ip, s5)
                  else bindE (xu (iunlockput me ip) s5) (\<lambda>s6. Inr (None, s6))))
            | None \<Rightarrow>
                bindE (xr (ialloc me (i_dev (xi dp s3)) ty) s3) (\<lambda>(ip, s4).
                bindE (xu (ilock me (Some ip)) s4) (\<lambda>s5.
                bindE (xu (iupdate me ip) (upd_x ip (\<lambda>d. d\<lparr>di_major := major, di_minor := minor, di_nlink := 1\<rparr>) s5)) (\<lambda>s6.
                bindE (if ty = T_DIR then
                         bindE (xu (iupdate me dp) (upd_x dp (\<lambda>d. d\<lparr>di_nlink := di_nlink d + 1\<rparr>) s6)) (\<lambda>s7.
                         bindE (xr (dirlink D me ip [46] (i_inum (xi ip s7))) s7) (\<lambda>(r1, s8).
                           if r1 < 0 then Inl (Panic ''create dots'')
                           else
                             bindE (xr (dirlink D me ip [46, 46] (i_inum (xi dp s8))) s8) (\<lambda>(r2, s9).
                               if r2 < 0 then Inl (Panic ''create dots'') else Inr s9)))
                       else Inr s6) (\<lambda>s10.
                bindE (xr (dirlink D me dp name (i_inum (xi ip s10))) s10) (\<lambda>(r3, s11).
                  if r3 < 0 then Inl (Panic ''create: dirlink'')
                  else bindE (xu (iunlockput me dp) s11) (\<lambda>s12. Inr (Some ip, s12))))))))))"

text \<open>The second half of \<^verbatim>\<open>sys_open\<close>, with the inode locked.\<close>

definition open_inode :: "int \<Rightarrow> u32 \<Rightarrow> nat \<Rightarrow> ust \<Rightarrow> kerr + int \<times> ust" where
  "open_inode me omode ip s =
    (let (fo, x) = filealloc (ux s); s1 = s\<lparr>ux := x\<rparr> in
     case fo of
       None \<Rightarrow> bindE (xu (iunlockput me ip) s1) (finish me (-1))
     | Some f \<Rightarrow>
         let (fd, s2) = fdalloc f s1 in
         if fd < 0 then
           bindE (fileclose me f (ux s2)) (\<lambda>y.
           bindE (xu (iunlockput me ip) (s2\<lparr>ux := y\<rparr>)) (finish me (-1)))
         else
           bindE (xu (iunlock me (Some ip)) s2) (\<lambda>s3.
           bindE (xu (on_l (end_op me)) s3) (\<lambda>s4.
           Inr (fd, s4\<lparr>ux := upd_f f (\<lambda>ff. ff\<lparr>f_type := FD_INODE, f_ip := ip, f_off := 0,
             f_readable := (omode AND O_WRONLY = 0), f_writable := (omode AND O_WRONLY \<noteq> 0 \<or> omode AND O_RDWR \<noteq> 0)\<rparr>) (ux s4)\<rparr>))))"

definition sys_open :: "devsw \<Rightarrow> int \<Rightarrow> ust \<Rightarrow> kerr + int \<times> ust" where
  "sys_open D me s =
    (case (argstr 0 s, argint 1 s) of
       (Some path, Some omode) \<Rightarrow>
         bindE (begin_x s) (\<lambda>s1.
           if omode AND O_CREATE \<noteq> 0 then
             bindE (create D me path T_FILE 0 0 s1) (\<lambda>(p, s2).
               case p of None \<Rightarrow> finish me (-1) s2 | Some ip \<Rightarrow> open_inode me omode ip s2)
           else
             bindE (xr (namei D me (ucwd s1) path) s1) (\<lambda>(p, s2).
               case p of
                 None \<Rightarrow> finish me (-1) s2
               | Some ip \<Rightarrow>
                   bindE (xu (ilock me (Some ip)) s2) (\<lambda>s3.
                     if di_type (i_d (xi ip s3)) = T_DIR \<and> omode \<noteq> O_RDONLY then bindE (xu (iunlockput me ip) s3) (finish me (-1))
                     else open_inode me omode ip s3)))
     | _ \<Rightarrow> Inr (-1, s))"

text \<open>\<^verbatim>\<open>sys_mkdir\<close> and \<^verbatim>\<open>sys_mknod\<close> fetch their arguments inside the transaction.\<close>

definition make_node :: "devsw \<Rightarrow> int \<Rightarrow> (u8 list \<times> 16 word \<times> 16 word) option \<Rightarrow> 16 word \<Rightarrow> ust \<Rightarrow> kerr + int \<times> ust" where
  "make_node D me args ty s =
    (case args of
       None \<Rightarrow> finish me (-1) s
     | Some (path, major, minor) \<Rightarrow>
         bindE (create D me path ty major minor s) (\<lambda>(p, s1).
           case p of
             None \<Rightarrow> finish me (-1) s1
           | Some ip \<Rightarrow> bindE (xu (iunlockput me ip) s1) (finish me 0)))"

definition sys_mkdir :: "devsw \<Rightarrow> int \<Rightarrow> ust \<Rightarrow> kerr + int \<times> ust" where
  "sys_mkdir D me s =
    bindE (begin_x s) (\<lambda>s1. make_node D me (case argstr 0 s1 of None \<Rightarrow> None | Some path \<Rightarrow> Some (path, 0, 0)) T_DIR s1)"

definition sys_mknod :: "devsw \<Rightarrow> int \<Rightarrow> ust \<Rightarrow> kerr + int \<times> ust" where
  "sys_mknod D me s =
    bindE (begin_x s) (\<lambda>s1.
      make_node D me
        (case (argstr 0 s1, argint 1 s1, argint 2 s1) of
           (Some path, Some major, Some minor) \<Rightarrow> Some (path, ucast major, ucast minor)
         | _ \<Rightarrow> None) T_DEV s1)"

definition sys_chdir :: "devsw \<Rightarrow> int \<Rightarrow> ust \<Rightarrow> kerr + int \<times> ust" where
  "sys_chdir D me s =
    bindE (begin_x s) (\<lambda>s1.
      case argstr 0 s1 of
        None \<Rightarrow> finish me (-1) s1
      | Some path \<Rightarrow>
          bindE (xr (namei D me (ucwd s1) path) s1) (\<lambda>(p, s2).
            case p of
              None \<Rightarrow> finish me (-1) s2
            | Some ip \<Rightarrow>
                bindE (xu (ilock me (Some ip)) s2) (\<lambda>s3.
                  if di_type (i_d (xi ip s3)) \<noteq> T_DIR then bindE (xu (iunlockput me ip) s3) (finish me (-1))
                  else
                    bindE (xu (iunlock me (Some ip)) s3) (\<lambda>s4.
                    bindE (xu (iput me (ucwd s4)) s4) (\<lambda>s5.
                    bindE (xu (on_l (end_op me)) s5) (\<lambda>s6. Inr (0, s6\<lparr>ucwd := ip\<rparr>)))))))"

text \<open>The argument vector of \<^verbatim>\<open>sys_exec\<close>.\<close>

fun fetch_argv :: "u32 \<Rightarrow> nat list \<Rightarrow> ust \<Rightarrow> u8 list list option" where
  "fetch_argv uargv [] s = None"
| "fetch_argv uargv (i # is) s =
    (case fetchint (uargv + 4 * of_nat i) s of
       None \<Rightarrow> None
     | Some uarg \<Rightarrow>
         if uarg = 0 then Some []
         else case fetchstr uarg s of
           None \<Rightarrow> None
         | Some a \<Rightarrow> (case fetch_argv uargv is s of None \<Rightarrow> None | Some as \<Rightarrow> Some (a # as)))"

definition exec_args :: "ust \<Rightarrow> (u8 list \<times> u8 list list) option" where
  "exec_args s =
    (case (argstr 0 s, argint 1 s) of
       (Some path, Some uargv) \<Rightarrow>
         (case fetch_argv uargv [0..<MAXARG] s of None \<Rightarrow> None | Some argv \<Rightarrow> Some (path, argv))
     | _ \<Rightarrow> None)"

section \<open>Checked arguments lie in the address space\<close>

lemma add_below:
  fixes a b z :: u32
  assumes "a < z" and "z \<le> KERNBASE" and "unat b < 2 ^ 31" and "a + b \<le> z"
  shows "unat a + unat b \<le> unat z"
proof -
  have "unat a < 2 ^ 31" using assms(1,2) by (simp add: KERNBASE_def word_less_nat_alt word_le_nat_alt)
  then have "unat (a + b) = unat a + unat b" using assms(3) by (simp add: unat_word_ariths)
  then show ?thesis using assms(4) by (simp add: word_le_nat_alt)
qed

lemma find_upt_None: "find P [i..<n] = None \<Longrightarrow> i \<le> j \<Longrightarrow> j < n \<Longrightarrow> \<not> P j"
  by (auto simp: find_None_iff)

end
