(* ===== verification/SysProps.thy ===== *)
theory SysProps
  imports Sysfile FsProps
begin

text \<open>
  Properties of the system calls on files: the argument checks stay inside the process, and over any sequence of calls the reference
  count of every open file is the number of descriptors that name it.
\<close>

section \<open>References\<close>

text \<open>The descriptors of the process that name file \<open>f\<close>, and the invariant: the count of a file is what others hold (\<open>oth\<close>) and these.\<close>

definition held :: "ust \<Rightarrow> nat \<Rightarrow> nat" where
  "held s f = card {fd. fd < NOFILE \<and> ofile s fd = Some f}"

definition refs_ok :: "(nat \<Rightarrow> int) \<Rightarrow> ust \<Rightarrow> bool" where
  "refs_ok oth s \<longleftrightarrow> (\<forall>f. f_ref (ftable (ux s) f) = oth f + int (held s f))"

definition same_files :: "ust \<Rightarrow> ust \<Rightarrow> bool" where
  "same_files s t \<longleftrightarrow> (\<forall>f. f_ref (ftable (ux t) f) = f_ref (ftable (ux s) f)) \<and> ofile t = ofile s"

lemma same_files_refl [simp]: "same_files s s"
  by (simp add: same_files_def)

lemma same_files_trans: "same_files s t \<Longrightarrow> same_files t u \<Longrightarrow> same_files s u"
  by (simp add: same_files_def)

lemma refs_ok_same: "same_files s t \<Longrightarrow> refs_ok oth s \<Longrightarrow> refs_ok oth t"
  by (simp add: same_files_def refs_ok_def held_def)

lemma same_files_upd [simp]:
  "same_files s (s1\<lparr>umem := m\<rparr>) = same_files s s1" "same_files s (s1\<lparr>ucwd := c\<rparr>) = same_files s s1"
  "same_files s (upd_x ip g s1) = same_files s s1" "same_files s (store p xs s1) = same_files s s1"
  by (simp_all add: same_files_def upd_x_def store_def)

text \<open>A computation keeps the files when its result, seen through \<open>p\<close>, has the files of \<open>s\<close>.\<close>

definition keeps :: "('a \<Rightarrow> ust) \<Rightarrow> ust \<Rightarrow> kerr + 'a \<Rightarrow> bool" where
  "keeps p s m \<longleftrightarrow> (\<forall>x. m = Inr x \<longrightarrow> same_files s (p x))"

lemma keeps_simps [simp]: "keeps p s (Inr x) = same_files s (p x)" "keeps p s (Inl e)"
  by (simp_all add: keeps_def)

lemma keeps_bind:
  assumes "keeps q s m" and "\<And>x. same_files s (q x) \<Longrightarrow> keeps p s (f x)"
  shows "keeps p s (bindE m f)"
  using assms by (auto simp: keeps_def bindE_def split: sum.splits)

lemma keeps_xu: "same_files s s1 \<Longrightarrow> keeps (\<lambda>x. x) s (xu g s1)"
  by (auto simp: keeps_def xu_def bindE_def same_files_def split: sum.splits)

lemma keeps_xr: "same_files s s1 \<Longrightarrow> keeps snd s (xr g s1)"
  by (auto simp: keeps_def xr_def bindE_def same_files_def split: sum.splits)

lemmas keeps_bind_u = keeps_bind [where q = "\<lambda>x. x"] and keeps_bind_r = keeps_bind [where q = snd]

lemma keeps_finish: "same_files s s1 \<Longrightarrow> keeps snd s (finish me r s1)"
  unfolding finish_def by (rule keeps_bind_u, rule keeps_xu) auto

lemma keeps_begin: "same_files s s1 \<Longrightarrow> keeps (\<lambda>x. x) s (begin_x s1)"
  unfolding begin_x_def by (rule keeps_xu)

lemma keeps_if: "keeps p s a \<Longrightarrow> keeps p s b \<Longrightarrow> keeps p s (if c then a else b)"
  by simp

lemma keeps_option: "(x = None \<Longrightarrow> keeps p s a) \<Longrightarrow> (\<And>y. x = Some y \<Longrightarrow> keeps p s (b y)) \<Longrightarrow> keeps p s (case x of None \<Rightarrow> a | Some y \<Rightarrow> b y)"
  by (cases x) auto

lemma keeps_prod: "same_files s (snd x) \<Longrightarrow> (\<And>a t. same_files s t \<Longrightarrow> keeps p s (f a t)) \<Longrightarrow> keeps p s (case x of (a, t) \<Rightarrow> f a t)"
  by (cases x) auto

lemma keeps_pair: "(\<And>a b. keeps p s (f a b)) \<Longrightarrow> keeps p s (case x :: nat \<times> nat of (a, b) \<Rightarrow> f a b)"
  by (cases x) auto

lemma keeps_pair_app: "(\<And>a b. keeps p s (f a b t)) \<Longrightarrow> keeps p s ((case x of (a, b) \<Rightarrow> f a b) t)"
  by (cases x) auto

lemmas keeps_rules = keeps_bind_u keeps_bind_r keeps_xu keeps_xr keeps_finish keeps_begin keeps_if keeps_option keeps_prod keeps_pair keeps_pair_app

lemma keeps_link_bad: "same_files s s1 \<Longrightarrow> keeps snd s (link_bad me ip s1)"
  unfolding link_bad_def by (intro keeps_rules) auto

lemma keeps_unlink_bad: "same_files s s1 \<Longrightarrow> keeps snd s (unlink_bad me dp s1)"
  unfolding unlink_bad_def by (intro keeps_rules) auto

lemma keeps_isdirempty_from: "same_files s s1 \<Longrightarrow> keeps snd s (isdirempty_from D me dp offs s1)"
proof (induction offs arbitrary: s1)
  case (Cons off offs)
  show ?case unfolding isdirempty_from.simps by (intro keeps_rules Cons.IH) (auto simp: Cons.prems)
qed simp

lemma keeps_isdirempty: "same_files s s1 \<Longrightarrow> keeps snd s (isdirempty D me dp s1)"
  unfolding isdirempty_def by (rule keeps_isdirempty_from)

lemma keeps_create: "same_files s s1 \<Longrightarrow> keeps snd s (create D me path ty major minor s1)"
  unfolding create_def by (intro keeps_rules) auto

lemmas keeps_calls = keeps_rules keeps_link_bad keeps_unlink_bad keeps_isdirempty keeps_create

lemma keeps_make_node: "same_files s s1 \<Longrightarrow> keeps snd s (make_node D me args ty s1)"
  unfolding make_node_def by (cases args) (auto intro!: keeps_calls)

lemma keeps_tree_calls:
  "keeps snd s (sys_link D me s)" "keeps snd s (sys_unlink D me s)" "keeps snd s (sys_mkdir D me s)"
  "keeps snd s (sys_mknod D me s)" "keeps snd s (sys_chdir D me s)"
proof -
  show "keeps snd s (sys_link D me s)"
    unfolding sys_link_def by (cases "argstr 0 s"; cases "argstr 1 s"; simp) (intro keeps_calls; simp)
  show "keeps snd s (sys_unlink D me s)"
    unfolding sys_unlink_def by (cases "argstr 0 s"; simp) (intro keeps_calls; simp)
  show "keeps snd s (sys_mkdir D me s)"
    unfolding sys_mkdir_def by (intro keeps_calls keeps_make_node; simp)
  show "keeps snd s (sys_mknod D me s)"
    unfolding sys_mknod_def by (intro keeps_calls keeps_make_node; simp)
  show "keeps snd s (sys_chdir D me s)"
    unfolding sys_chdir_def by (intro keeps_calls; simp)
qed

section \<open>Calls on descriptors\<close>

text \<open>Operations on the table of files change the count of one file.\<close>

definition more :: "(nat \<Rightarrow> int) \<Rightarrow> nat \<Rightarrow> int \<Rightarrow> nat \<Rightarrow> int" where
  "more oth f k = oth(f := oth f + k)"

lemma more_cancel [simp]: "more (more oth f k) f (- k) = oth" "more (more oth f (- k)) f k = oth"
  by (simp_all add: more_def)

lemma more_swap: "more (more oth f k) g l = more (more oth g l) f k"
  by (simp add: more_def fun_eq_iff)

lemma refs_ok_count:
  assumes "refs_ok oth s" and "ofile t = ofile s" and "\<And>g. f_ref (ftable (ux t) g) = f_ref (ftable (ux s) g) + (if g = f then k else 0)"
  shows "refs_ok (more oth f k) t"
  using assms by (simp add: refs_ok_def held_def more_def)

lemma filealloc_refs:
  assumes "refs_ok oth s" and "filealloc (ux s) = (Some f, x)"
  shows "refs_ok (more oth f 1) (s\<lparr>ux := x\<rparr>)"
proof (rule refs_ok_count [OF assms(1)])
  have "f_ref (ftable (ux s) f) = 0" using assms(2) by (auto simp: filealloc_def find_Some_iff split: option.splits)
  then show "f_ref (ftable (ux (s\<lparr>ux := x\<rparr>)) g) = f_ref (ftable (ux s) g) + (if g = f then 1 else 0)" for g
    using assms(2) by (auto simp: filealloc_def upd_f_def split: option.splits)
qed simp

lemma filedup_refs: "refs_ok oth s \<Longrightarrow> filedup f (ux s) = Inr x \<Longrightarrow> refs_ok (more oth f 1) (s\<lparr>ux := x\<rparr>)"
  by (rule refs_ok_count) (auto simp: filedup_def upd_f_def split: if_splits)

lemma on_fs_ftable: "on_fs g x = Inr y \<Longrightarrow> ftable y = ftable x"
  by (auto simp: on_fs_def)

lemma fileclose_count:
  assumes "fileclose me f x = Inr y"
  shows "f_ref (ftable y g) = f_ref (ftable x g) + (if g = f then - 1 else 0)"
  using assms unfolding fileclose_def
  by (auto simp: upd_f_def pipeclose_x_def set_pipe_def Let_def bindE_Inr_iff dest!: on_fs_ftable split: if_splits fd_type.splits prod.splits)

lemma fileclose_refs: "refs_ok oth s \<Longrightarrow> fileclose me f (ux s) = Inr x \<Longrightarrow> refs_ok (more oth f (- 1)) (s\<lparr>ux := x\<rparr>)"
  by (rule refs_ok_count) (simp_all add: fileclose_count)

lemma held_set:
  assumes "fd < NOFILE" and "ofile s fd = None"
  shows "held (s\<lparr>ofile := (ofile s)(fd := Some f)\<rparr>) g = held s g + (if g = f then 1 else 0)"
proof (cases "g = f")
  case True
  have "{k. k < NOFILE \<and> ((ofile s)(fd := Some f)) k = Some f} = insert fd {k. k < NOFILE \<and> ofile s k = Some f}" using assms by auto
  then show ?thesis using True assms(2) by (simp add: held_def)
next
  case False
  then have "{k. k < NOFILE \<and> ((ofile s)(fd := Some f)) k = Some g} = {k. k < NOFILE \<and> ofile s k = Some g}" using assms by auto
  then show ?thesis using False by (simp add: held_def)
qed

lemma fd_set_refs:
  assumes "refs_ok oth s" and "fd < NOFILE" and "ofile s fd = None"
  shows "refs_ok (more oth f (- 1)) (s\<lparr>ofile := (ofile s)(fd := Some f)\<rparr>)"
  using assms(1) unfolding refs_ok_def by (simp add: held_set [OF assms(2,3)] more_def)

lemma fd_clear_refs:
  assumes "refs_ok oth s" and "fd < NOFILE" and "ofile s fd = Some f"
  shows "refs_ok (more oth f 1) (s\<lparr>ofile := (ofile s)(fd := None)\<rparr>)"
proof -
  let ?t = "s\<lparr>ofile := (ofile s)(fd := None)\<rparr>"
  have "?t\<lparr>ofile := (ofile ?t)(fd := Some f)\<rparr> = s" using assms(3) by (simp add: fun_upd_idem)
  then have "held s g = held ?t g + (if g = f then 1 else 0)" for g using held_set [OF assms(2), of ?t f g] by simp
  then show ?thesis using assms(1) unfolding refs_ok_def by (simp add: more_def)
qed

lemma fdalloc_cases:
  assumes "fdalloc f s = (fd, t)"
  obtains "fd = -1" "t = s" | n where "fd = int n" "n < NOFILE" "ofile s n = None" "t = s\<lparr>ofile := (ofile s)(n := Some f)\<rparr>"
proof (cases "find (\<lambda>k. ofile s k = None) [0..<NOFILE]")
  case None
  then show ?thesis using assms that(1) by (simp add: fdalloc_def)
next
  case (Some k)
  then have "k < NOFILE" "ofile s k = None" by (auto simp: find_Some_iff)
  then show ?thesis using assms Some that(2) [of k] by (simp add: fdalloc_def)
qed

lemma argfd_some: "argfd n s = Some (fd, f) \<Longrightarrow> fd < NOFILE \<and> ofile s fd = Some f"
  by (auto simp: argfd_def Let_def NOFILE_def split: option.splits if_splits)

lemma sys_dup_refs:
  assumes "refs_ok oth s" and "sys_dup s = Inr (r, t)"
  shows "refs_ok oth t"
proof (cases "argfd 0 s")
  case None
  then show ?thesis using assms by (simp add: sys_dup_def)
next
  case (Some a)
  obtain n f where a: "a = (n, f)" by (cases a)
  obtain fd s1 where fd: "fdalloc f s = (fd, s1)" by (cases "fdalloc f s")
  from fd show ?thesis
  proof (cases rule: fdalloc_cases)
    case 1
    then show ?thesis using assms Some a fd by (simp add: sys_dup_def)
  next
    case (2 m)
    have "refs_ok (more oth f (- 1)) s1" unfolding 2(4) by (rule fd_set_refs [OF assms(1) 2(2,3)])
    moreover obtain x where "filedup f (ux s1) = Inr x" "t = s1\<lparr>ux := x\<rparr>" using assms(2) Some a fd 2(1) by (auto simp: sys_dup_def)
    ultimately show ?thesis using filedup_refs [of "more oth f (- 1)" s1 f x] by simp
  qed
qed

lemma sys_close_refs:
  assumes "refs_ok oth s" and "sys_close me s = Inr (r, t)"
  shows "refs_ok oth t"
proof (cases "argfd 0 s")
  case None
  then show ?thesis using assms by (simp add: sys_close_def)
next
  case (Some a)
  obtain n f where a: "a = (n, f)" by (cases a)
  let ?s1 = "s\<lparr>ofile := (ofile s)(n := None)\<rparr>"
  obtain x where x: "fileclose me f (ux ?s1) = Inr x" "t = ?s1\<lparr>ux := x\<rparr>" using assms(2) Some a by (auto simp: sys_close_def Let_def)
  have "refs_ok (more oth f 1) ?s1" using fd_clear_refs [OF assms(1)] argfd_some [of 0 s n f] Some a by simp
  from fileclose_refs [OF this x(1)] show ?thesis by (simp add: x(2))
qed

lemma fileclose2_refs:
  assumes "refs_ok (more (more oth f 1) g 1) s" and "fileclose me f (ux s) = Inr x" and "fileclose me g x = Inr y"
  shows "refs_ok oth (s\<lparr>ux := y\<rparr>)"
proof -
  have "refs_ok (more (more (more oth f 1) g 1) f (- 1)) (s\<lparr>ux := x\<rparr>)" by (rule fileclose_refs [OF assms(1,2)])
  then have "refs_ok (more oth g 1) (s\<lparr>ux := x\<rparr>)" by (simp add: more_swap [of "more oth f 1" g 1 f] )
  from fileclose_refs [OF this, of me g y] show ?thesis using assms(3) by simp
qed

lemma pipealloc_refs:
  assumes "refs_ok oth s" and "pipealloc me (ux s) = Inr (r, x)"
  shows "refs_ok (case r of None \<Rightarrow> oth | Some (f, g) \<Rightarrow> more (more oth f 1) g 1) (s\<lparr>ux := x\<rparr>)"
proof -
  obtain fo x1 where a1: "filealloc (ux s) = (fo, x1)" by (cases "filealloc (ux s)")
  show ?thesis
  proof (cases fo)
    case None
    then have "x1 = ux s" using a1 by (auto simp: filealloc_def split: option.splits)
    then show ?thesis using assms a1 None by (auto simp: pipealloc_def pipealloc_bad_def)
  next
    case (Some f)
    note r1 = filealloc_refs [OF assms(1) a1 [unfolded Some]]
    obtain go x2 where a2: "filealloc x1 = (go, x2)" by (cases "filealloc x1")
    show ?thesis
    proof (cases go)
      case None
      then have "x2 = x1" using a2 by (auto simp: filealloc_def split: option.splits)
      then have "r = None" "fileclose me f x1 = Inr x" using assms(2) a1 a2 None Some by (auto simp: pipealloc_def pipealloc_bad_def)
      then show ?thesis using fileclose_refs [OF r1, of me f x] by simp
    next
      case (Some g)
      have r2: "refs_ok (more (more oth f 1) g 1) (s\<lparr>ux := x2\<rparr>)" using filealloc_refs [OF r1, of g x2] a2 Some by simp
      obtain a k where k: "kalloc (km x2) = (a, k)" by (cases "kalloc (km x2)")
      have r3: "refs_ok (more (more oth f 1) g 1) (s\<lparr>ux := x2\<lparr>km := k\<rparr>\<rparr>)" using r2 by (simp add: refs_ok_def held_def)
      show ?thesis
      proof (cases "a = 0")
        case True
        then obtain y where "r = None" "fileclose me f (x2\<lparr>km := k\<rparr>) = Inr y" "fileclose me g y = Inr x"
          using assms(2) a1 a2 \<open>fo = Some f\<close> Some k by (auto simp: pipealloc_def pipealloc_bad_def)
        then show ?thesis using fileclose2_refs [OF r3, of me y x] by simp
      next
        case False
        then have "r = Some (f, g)" "\<forall>h. f_ref (ftable x h) = f_ref (ftable x2 h)"
          using assms(2) a1 a2 \<open>fo = Some f\<close> Some k by (auto simp: pipealloc_def Let_def upd_f_def set_pipe_def pipe_file_def)
        then show ?thesis using r2 by (simp add: refs_ok_def held_def)
      qed
    qed
  qed
qed

lemma fdalloc_refs:
  assumes "refs_ok oth s" and "fdalloc f s = (int n, t)"
  shows "refs_ok (more oth f (- 1)) t \<and> n < NOFILE \<and> ofile t n = Some f"
  using assms(2)
proof (cases rule: fdalloc_cases)
  case (2 m)
  then show ?thesis using fd_set_refs [OF assms(1) 2(2,3), of f] by simp
qed simp

lemma sys_pipe_refs:
  assumes "refs_ok oth s" and "sys_pipe me s = Inr (r, t)"
  shows "refs_ok oth t"
proof (cases "argptr 0 8 s")
  case None
  then show ?thesis using assms by (simp add: sys_pipe_def)
next
  case (Some p)
  obtain q x where q: "pipealloc me (ux s) = Inr (q, x)" using assms(2) Some by (auto simp: sys_pipe_def)
  note pr = pipealloc_refs [OF assms(1) q]
  show ?thesis
  proof (cases q)
    case None
    then show ?thesis using pr assms(2) Some q by (simp add: sys_pipe_def)
  next
    case (Some fg)
    obtain f g where fg: "fg = (f, g)" by (cases fg)
    let ?s1 = "s\<lparr>ux := x\<rparr>"
    have r1: "refs_ok (more (more oth f 1) g 1) ?s1" using pr Some fg by simp
    obtain fd0 s2 where d0: "fdalloc f ?s1 = (fd0, s2)" by (cases "fdalloc f ?s1")
    from d0 show ?thesis
    proof (cases rule: fdalloc_cases)
      case 1
      then obtain y z where "fileclose me f (ux ?s1) = Inr y" "fileclose me g y = Inr z" "t = ?s1\<lparr>ux := z\<rparr>"
        using assms(2) \<open>argptr 0 8 s = Some p\<close> q Some fg d0 by (auto simp: sys_pipe_def Let_def bindE_Inr_iff)
      then show ?thesis using fileclose2_refs [OF r1] by simp
    next
      case (2 n)
      have r2: "refs_ok (more oth g 1) s2" "n < NOFILE" "ofile s2 n = Some f"
        using fdalloc_refs [OF r1, of f n s2] d0 2(1) by (simp_all add: more_swap [of "more oth f 1" g 1 f])
      obtain fd1 s3 where d1: "fdalloc g s2 = (fd1, s3)" by (cases "fdalloc g s2")
      from d1 show ?thesis
      proof (cases rule: fdalloc_cases)
        case 1
        let ?s4 = "s2\<lparr>ofile := (ofile s2)(n := None)\<rparr>"
        have "refs_ok (more (more oth f 1) g 1) ?s4" using fd_clear_refs [OF r2] by (simp add: more_swap [of oth f 1 g])
        moreover obtain y z where "fileclose me f (ux ?s4) = Inr y" "fileclose me g y = Inr z" "t = ?s4\<lparr>ux := z\<rparr>"
          using 1 2(1) assms(2) \<open>argptr 0 8 s = Some p\<close> q Some fg d0 d1 by (auto simp: sys_pipe_def Let_def bindE_Inr_iff)
        ultimately show ?thesis using fileclose2_refs [of oth f g ?s4 me y z] by simp
      next
        case (2 m)
        have "refs_ok oth s3" using fdalloc_refs [OF r2(1), of g m s3] d1 2(1) by simp
        moreover have "same_files s3 t"
          using 2(1) \<open>fd0 = int n\<close> assms(2) \<open>argptr 0 8 s = Some p\<close> q Some fg d0 d1 by (auto simp: sys_pipe_def Let_def)
        ultimately show ?thesis by (rule refs_ok_same [rotated])
      qed
    qed
  qed
qed

lemma xu_same: "xu g s = Inr t \<Longrightarrow> same_files s t"
  using keeps_xu [of s s g] by (simp add: keeps_def)

lemma finish_same: "finish me r s = Inr (q, t) \<Longrightarrow> same_files s t"
  using keeps_finish [of s s me r] by (auto simp: keeps_def)

lemma open_inode_refs:
  assumes "refs_ok oth s" and "open_inode me omode ip s = Inr (r, t)"
  shows "refs_ok oth t"
proof -
  obtain fo x where a: "filealloc (ux s) = (fo, x)" by (cases "filealloc (ux s)")
  let ?s1 = "s\<lparr>ux := x\<rparr>"
  show ?thesis
  proof (cases fo)
    case None
    then have "x = ux s" using a by (auto simp: filealloc_def split: option.splits)
    then have "refs_ok oth ?s1" using assms(1) by (simp add: refs_ok_def held_def)
    moreover obtain s2 where "xu (iunlockput me ip) ?s1 = Inr s2" "finish me (-1) s2 = Inr (r, t)"
      using assms(2) a None by (auto simp: open_inode_def Let_def)
    ultimately show ?thesis using xu_same finish_same refs_ok_same by metis
  next
    case (Some f)
    note r1 = filealloc_refs [OF assms(1) a [unfolded Some]]
    obtain fd s2 where d: "fdalloc f ?s1 = (fd, s2)" by (cases "fdalloc f ?s1")
    from d show ?thesis
    proof (cases rule: fdalloc_cases)
      case 1
      then obtain y s3 where y: "fileclose me f (ux s2) = Inr y" "xu (iunlockput me ip) (s2\<lparr>ux := y\<rparr>) = Inr s3" "finish me (-1) s3 = Inr (r, t)"
        using assms(2) a Some d by (auto simp: open_inode_def Let_def bindE_Inr_iff)
      have "refs_ok oth (s2\<lparr>ux := y\<rparr>)" using fileclose_refs [of "more oth f 1" s2 me f y] r1 1(2) y(1) by simp
      then show ?thesis using y xu_same finish_same refs_ok_same by metis
    next
      case (2 n)
      have r2: "refs_ok oth s2" using fdalloc_refs [OF r1, of f n s2] d 2(1) by simp
      obtain s3 s4 where s: "xu (iunlock me (Some ip)) s2 = Inr s3" "xu (on_l (end_op me)) s3 = Inr s4" "same_files s4 t"
        using assms(2) a Some d 2(1) by (auto simp: open_inode_def Let_def same_files_def upd_f_def bindE_Inr_iff)
      then show ?thesis using r2 xu_same refs_ok_same by metis
    qed
  qed
qed

lemma sys_open_refs:
  assumes "refs_ok oth s" and "sys_open D me s = Inr (r, t)"
  shows "refs_ok oth t"
proof (cases "\<exists>path omode. argstr 0 s = Some path \<and> argint 1 s = Some omode")
  case False
  then show ?thesis using assms by (auto simp: sys_open_def split: option.splits)
next
  case True
  then obtain path omode where a: "argstr 0 s = Some path" "argint 1 s = Some omode" by blast
  obtain s1 where s1: "begin_x s = Inr s1" using assms(2) a by (auto simp: sys_open_def)
  have k1: "same_files s s1" using keeps_begin [of s s] s1 by (simp add: keeps_def)
  have op: "refs_ok oth t" if "same_files s u" "open_inode me omode ip u = Inr (r, t)" for ip u
    using open_inode_refs refs_ok_same [OF that(1) assms(1)] that(2) by blast
  have fin: "refs_ok oth t" if "same_files s u" "finish me (-1) u = Inr (r, t)" for u
    using refs_ok_same [OF that(1) assms(1)] refs_ok_same [OF finish_same [OF that(2)]] by blast
  show ?thesis
  proof (cases "omode AND O_CREATE \<noteq> 0")
    case True
    then obtain p s2 where p: "create D me path T_FILE 0 0 s1 = Inr (p, s2)"
      "(case p of None \<Rightarrow> finish me (-1) s2 | Some ip \<Rightarrow> open_inode me omode ip s2) = Inr (r, t)"
      using assms(2) a s1 by (auto simp: sys_open_def)
    have "same_files s s2" using keeps_create [OF k1, of D me path T_FILE 0 0] p(1) by (simp add: keeps_def)
    then show ?thesis using p(2) op fin by (cases p) auto
  next
    case False
    then obtain p s2 where p: "xr (namei D me (ucwd s1) path) s1 = Inr (p, s2)" using assms(2) a s1 by (auto simp: sys_open_def)
    have k2: "same_files s s2" using keeps_xr [OF k1, of "namei D me (ucwd s1) path"] p by (simp add: keeps_def)
    show ?thesis
    proof (cases p)
      case None
      then show ?thesis using assms(2) a s1 p False fin [OF k2] by (simp add: sys_open_def)
    next
      case (Some ip)
      then obtain s3 where s3: "xu (ilock me (Some ip)) s2 = Inr s3" and
        m: "(if di_type (i_d (xi ip s3)) = T_DIR \<and> omode \<noteq> O_RDONLY then bindE (xu (iunlockput me ip) s3) (finish me (-1)) else open_inode me omode ip s3) = Inr (r, t)"
        using assms(2) a s1 p False by (auto simp: sys_open_def)
      note k3 = same_files_trans [OF k2 xu_same [OF s3]]
      show ?thesis
      proof (cases "di_type (i_d (xi ip s3)) = T_DIR \<and> omode \<noteq> O_RDONLY")
        case True
        then obtain s4 where "xu (iunlockput me ip) s3 = Inr s4" "finish me (-1) s4 = Inr (r, t)" using m by auto
        then show ?thesis using fin same_files_trans [OF k3 xu_same] by blast
      next
        case False
        then show ?thesis using m op [OF k3, of ip] by (auto split: if_splits)
      qed
    qed
  qed
qed

section \<open>Reads and writes\<close>

lemma fileread_count: "fileread D me killed f n x = Inr (r, y) \<Longrightarrow> f_ref (ftable y g) = f_ref (ftable x g)"
  unfolding fileread_def
  by (auto simp: upd_f_def set_pipe_def Let_def bindE_Inr_iff dest!: on_fs_ftable split: if_splits fd_type.splits prod.splits)

lemma filewrite_one_count: "filewrite_one D me f chunk x = Inr (r, y) \<Longrightarrow> f_ref (ftable y g) = f_ref (ftable x g)"
  unfolding filewrite_one_def
  by (auto simp: upd_f_def Let_def bindE_Inr_iff dest!: on_fs_ftable split: if_splits prod.splits)

lemma filewrite_loop_count: "filewrite_loop D me f addr x = Inr (r, y) \<Longrightarrow> f_ref (ftable y g) = f_ref (ftable x g)"
proof (induction D me f addr x arbitrary: r y rule: filewrite_loop.induct)
  case (1 D me f addr x)
  show ?case
  proof (cases "addr = []")
    case True
    then show ?thesis using 1(2) by (subst (asm) filewrite_loop.simps) simp
  next
    case False
    obtain k x1 where w: "filewrite_one D me f (take MAXWRITE addr) x = Inr (k, x1)"
      using 1(2) False by (subst (asm) filewrite_loop.simps) (auto simp: Let_def bindE_Inr_iff)
    have "y = x1 \<or> \<not> k < 0 \<and> k = int (length (take MAXWRITE addr)) \<and> filewrite_loop D me f (drop MAXWRITE addr) x1 = Inr (r, y)"
      using 1(2) False w by (subst (asm) filewrite_loop.simps) (auto simp: Let_def split: if_splits)
    then show ?thesis using filewrite_one_count [OF w] 1(1) [OF False refl w refl] by auto
  qed
qed

lemma filewrite_count: "filewrite D me killed f addr x = Inr (r, y) \<Longrightarrow> f_ref (ftable y g) = f_ref (ftable x g)"
  unfolding filewrite_def
  by (auto simp: set_pipe_def Let_def bindE_Inr_iff filewrite_loop_count split: if_splits fd_type.splits prod.splits)

lemma filestat_count: "filestat me f x = Inr (r, y) \<Longrightarrow> ftable y = ftable x"
  unfolding filestat_def by (auto simp: Let_def bindE_Inr_iff dest!: on_fs_ftable split: if_splits)

lemma store_stat_same [simp]: "same_files s (store_stat p st s1) = same_files s s1"
  by (simp add: store_stat_def)

lemma sys_read_same: "sys_read D me killed s = Inr (r, t) \<Longrightarrow> same_files s t"
  unfolding sys_read_def
  by (auto simp: same_files_def store_def fileread_count elim!: bindE_Inr_E split: option.splits io.splits)

lemma sys_write_same: "sys_write D me killed s = Inr (r, t) \<Longrightarrow> same_files s t"
  unfolding sys_write_def by (auto simp: bindE_Inr_iff same_files_def filewrite_count split: option.splits)

lemma sys_fstat_same: "sys_fstat me s = Inr (r, t) \<Longrightarrow> same_files s t"
  unfolding sys_fstat_def
  by (auto simp: bindE_Inr_iff same_files_def store_stat_def store_def filestat_count split: option.splits prod.splits)

section \<open>Sequences of calls\<close>

text \<open>One call of the process, with any registers and any contents of its memory: between two calls the program runs.\<close>

inductive call :: "devsw \<Rightarrow> int \<Rightarrow> ust \<Rightarrow> ust \<Rightarrow> bool" for D me where
  call_user: "call D me s (s\<lparr>umem := m, usz := z, uesp := p\<rparr>)"
| call_dup: "sys_dup s = Inr (r, t) \<Longrightarrow> call D me s t"
| call_read: "sys_read D me killed s = Inr (k, t) \<Longrightarrow> call D me s t"
| call_write: "sys_write D me killed s = Inr (k, t) \<Longrightarrow> call D me s t"
| call_close: "sys_close me s = Inr (r, t) \<Longrightarrow> call D me s t"
| call_fstat: "sys_fstat me s = Inr (r, t) \<Longrightarrow> call D me s t"
| call_pipe: "sys_pipe me s = Inr (r, t) \<Longrightarrow> call D me s t"
| call_opn: "sys_open D me s = Inr (r, t) \<Longrightarrow> call D me s t"
| call_link: "sys_link D me s = Inr (r, t) \<Longrightarrow> call D me s t"
| call_unlink: "sys_unlink D me s = Inr (r, t) \<Longrightarrow> call D me s t"
| call_mkdir: "sys_mkdir D me s = Inr (r, t) \<Longrightarrow> call D me s t"
| call_mknod: "sys_mknod D me s = Inr (r, t) \<Longrightarrow> call D me s t"
| call_chdir: "sys_chdir D me s = Inr (r, t) \<Longrightarrow> call D me s t"

lemma keepsD: "keeps snd s m \<Longrightarrow> m = Inr (r, t) \<Longrightarrow> same_files s t"
  by (auto simp: keeps_def)

lemma call_refs: "call D me s t \<Longrightarrow> refs_ok oth s \<Longrightarrow> refs_ok oth t"
proof (induction rule: call.induct)
  case (call_user s m z p)
  then show ?case by (simp add: refs_ok_def held_def)
qed (blast intro: sys_dup_refs sys_close_refs sys_pipe_refs sys_open_refs refs_ok_same sys_read_same sys_write_same sys_fstat_same
    keepsD [OF keeps_tree_calls(1)] keepsD [OF keeps_tree_calls(2)] keepsD [OF keeps_tree_calls(3)]
    keepsD [OF keeps_tree_calls(4)] keepsD [OF keeps_tree_calls(5)])+

text \<open>C19. The reference count of every open file is exact over any sequence of system calls of a process, whatever the program does to its registers and its memory
  in between and whether the calls succeed or fail: it stays the number of descriptors of the process that name the file and the references
  that others hold. So a file that a descriptor names is never free, and \<^verbatim>\<open>dup\<close> never panics.\<close>

theorem descriptor_counts_exact:
  assumes "refs_ok oth s" and "\<forall>f. 0 \<le> oth f" and "(call D me)\<^sup>*\<^sup>* s t"
  shows "refs_ok oth t \<and> (\<forall>fd < NOFILE. \<forall>f. ofile t fd = Some f \<longrightarrow> 1 \<le> f_ref (ftable (ux t) f)) \<and> (\<exists>r u. sys_dup t = Inr (r, u))"
proof -
  have r: "refs_ok oth t" using assms(3,1) by (induction rule: rtranclp_induct) (auto dest: call_refs)
  have pos: "1 \<le> f_ref (ftable (ux t) f)" if "fd < NOFILE" "ofile t fd = Some f" for fd f
  proof -
    have "fd \<in> {k. k < NOFILE \<and> ofile t k = Some f}" using that by simp
    then have "0 < held t f" unfolding held_def by (intro card_gt_0_iff [THEN iffD2]) auto
    then show ?thesis using r [unfolded refs_ok_def, rule_format, of f] assms(2) [rule_format, of f] by simp
  qed
  have "\<exists>r u. sys_dup t = Inr (r, u)"
  proof (cases "argfd 0 t")
    case (Some a)
    obtain n f where a: "a = (n, f)" by (cases a)
    obtain fd s1 where d: "fdalloc f t = (fd, s1)" by (cases "fdalloc f t")
    then have "ux s1 = ux t" by (cases rule: fdalloc_cases) simp_all
    moreover have "1 \<le> f_ref (ftable (ux t) f)" using pos argfd_some [of 0 t n f] Some a by blast
    ultimately show ?thesis using Some a d by (auto simp: sys_dup_def filedup_def)
  qed (simp add: sys_dup_def)
  then show ?thesis using r pos by blast
qed

section \<open>Arguments\<close>

text \<open>C35. The argument checks are tight for a process of at most \<open>KERNBASE\<close> bytes. A pointer that \<open>argptr\<close> accepts for \<open>nb\<close> bytes has all of them
  inside the process, and \<open>argptr\<close> accepts every such pointer; a string that \<open>argstr\<close> returns ends before the end of the process
  with the zero that stops it and is the shortest such string; it fails only when there is no zero before the end.\<close>

theorem args_in_address_space:
  assumes "usz s \<le> KERNBASE" and "argint n s = Some p" and "nb < 2 ^ 31"
  shows "(argptr n nb s = Some p \<longleftrightarrow> 0 \<le> nb \<and> p < usz s \<and> unat p + nat nb \<le> unat (usz s)) \<and>
    (\<forall>xs. argstr n s = Some xs \<longrightarrow> xs = load p (length xs) s \<and> 0 \<notin> set xs \<and> umem s (p + of_nat (length xs)) = 0 \<and> unat p + length xs < unat (usz s)) \<and>
    (argstr n s = None \<longrightarrow> (\<forall>k. unat p + k < unat (usz s) \<longrightarrow> umem s (p + of_nat k) \<noteq> 0))"
proof (intro conjI allI impI)
  have nn: "unat (of_int nb :: u32) = nat nb" if "0 \<le> nb" using unat_of_nat32 [of "nat nb"] that assms(3) by simp
  have pl: "unat p < 2 ^ 31" if "p < usz s" using that assms(1) by (simp add: KERNBASE_def word_less_nat_alt word_le_nat_alt)
  show "argptr n nb s = Some p \<longleftrightarrow> 0 \<le> nb \<and> p < usz s \<and> unat p + nat nb \<le> unat (usz s)"
  proof (cases "0 \<le> nb \<and> p < usz s")
    case True
    then have "unat (p + of_int nb) = unat p + nat nb" using nn pl assms(3) by (simp add: unat_word_ariths)
    then have "usz s < p + of_int nb \<longleftrightarrow> \<not> unat p + nat nb \<le> unat (usz s)" by (simp add: word_less_nat_alt not_le)
    then show ?thesis using True by (simp add: argptr_def assms(2) not_less not_le [symmetric])
  next
    case False
    then show ?thesis by (auto simp: argptr_def assms(2) not_less)
  qed
  have off: "(of_nat (unat p + k) :: u32) = p + of_nat k" for k by simp
  show "umem s (p + of_nat k) \<noteq> 0" if "argstr n s = None" and k: "unat p + k < unat (usz s)" for k
  proof -
    have "p < usz s" using k by (simp add: word_less_nat_alt)
    then have "find (\<lambda>a. umem s (of_nat a) = 0) [unat p..<unat (usz s)] = None"
      using that(1) by (auto simp: argstr_def assms(2) fetchstr_def split: if_splits option.splits)
    from find_upt_None [OF this _ k] show ?thesis by simp
  qed
  fix xs
  assume "argstr n s = Some xs"
  then obtain e where e: "p < usz s" "find (\<lambda>a. umem s (of_nat a) = 0) [unat p..<unat (usz s)] = Some e" "xs = load p (e - unat p) s"
    by (auto simp: argstr_def assms(2) fetchstr_def not_le split: if_splits option.splits)
  note f = find_upt_first [OF e(2)]
  have len: "length xs = e - unat p" by (simp add: e(3) load_def)
  show "xs = load p (length xs) s" unfolding len by (rule e(3))
  show "unat p + length xs < unat (usz s)" using f len by simp
  have "(of_nat e :: u32) = p + of_nat (length xs)" using f len off [of "e - unat p"] by simp
  then show "umem s (p + of_nat (length xs)) = 0" using f by simp
  show "0 \<notin> set xs"
  proof
    assume "0 \<in> set xs"
    then obtain k where k: "k < e - unat p" "umem s (p + of_nat k) = 0" by (auto simp: e(3) load_def)
    then show False using f off [of k] by (metis le_add1 less_diff_conv add.commute)
  qed
qed

text \<open>A process of one page whose stack holds a pointer to the string \<^verbatim>\<open>a\<close> at address 100, and whose descriptors 0 and 1 name file 0.\<close>

definition demo_user :: ust where
  "demo_user = \<lparr>ux = \<lparr>xfs = demo_files,
       ftable = \<lambda>f. \<lparr>f_type = FD_NONE, f_ref = (if f = 0 then 2 else 0), f_readable = True, f_writable = True, f_pipe = 0, f_ip = 0, f_off = 0\<rparr>,
       pipes = \<lambda>_. new_pipe (replicate PIPESIZE 0), km = \<lparr>freelist = 0, pmem = \<lambda>_. replicate PGBYTES 0, kend = 0x80400000, kdata = 0x80100000\<rparr>\<rparr>,
     umem = (\<lambda>a. if a = 4004 then 100 else if a = 100 then 97 else 0), usz = 4096, uesp = 4000,
     ofile = (\<lambda>fd. if fd < 2 then Some 0 else None), ucwd = 0\<rparr>"

theorem args_in_address_space_witness:
  "argptr 0 50 demo_user = Some 100 \<and> argptr 0 5000 demo_user = None \<and> (\<exists>xs. argstr 0 demo_user = Some xs \<and> 0 \<notin> set xs)"
proof -
  have "get32 (load 4004 4 demo_user) 0 = 100" by (simp add: get32_def nth_load demo_user_def)
  then have a: "argint 0 demo_user = Some 100"
    by (simp add: argint_def fetchint_def) (simp add: demo_user_def)
  have z: "usz demo_user \<le> KERNBASE" by (simp add: demo_user_def KERNBASE_def)
  have "argptr 0 5000 demo_user \<noteq> Some 100" using args_in_address_space [OF z a, of 5000] by (simp add: demo_user_def)
  then have "argptr 0 5000 demo_user = None" by (auto simp: argptr_def a split: if_splits)
  moreover have "argstr 0 demo_user \<noteq> None"
  proof
    assume "argstr 0 demo_user = None"
    then have "\<forall>k. unat (100 :: u32) + k < unat (usz demo_user) \<longrightarrow> umem demo_user (100 + of_nat k) \<noteq> 0"
      using args_in_address_space [OF z a, of 50] by simp
    from this [rule_format, of 1] show False by (simp add: demo_user_def)
  qed
  moreover have "argptr 0 50 demo_user = Some 100" using args_in_address_space [OF z a, of 50] by (simp add: demo_user_def)
  ultimately show ?thesis using args_in_address_space [OF z a, of 50] by auto
qed

text \<open>The same process calls \<^verbatim>\<open>dup(0)\<close>.\<close>

definition demo_call :: ust where
  "demo_call = demo_user\<lparr>umem := \<lambda>_. 0\<rparr>"

lemma demo_dup:
  "sys_dup demo_call = Inr (2, demo_call\<lparr>ofile := (ofile demo_call)(2 := Some 0), ux := upd_f 0 (\<lambda>x. x\<lparr>f_ref := f_ref x + 1\<rparr>) (ux demo_call)\<rparr>)"
proof -
  have u: "usz demo_call = 4096" "uesp demo_call = 4000" "umem demo_call = (\<lambda>_. 0)" "ofile demo_call = (\<lambda>fd. if fd < 2 then Some 0 else None)"
    "f_ref (ftable (ux demo_call) 0) = 2" by (simp_all add: demo_call_def demo_user_def)
  have "get32 (load 4004 4 demo_call) 0 = 0" by (simp add: get32_def nth_load u)
  then have a: "argfd 0 demo_call = Some (0, 0)" by (simp add: argfd_def argint_def fetchint_def u NOFILE_def)
  have "find (\<lambda>fd. ofile demo_call fd = None) [0..<16] = Some 2" by (simp add: u upt_rec)
  then have "fdalloc 0 demo_call = (2, demo_call\<lparr>ofile := (ofile demo_call)(2 := Some 0)\<rparr>)" by (simp add: fdalloc_def NOFILE_def)
  then show ?thesis using a by (simp add: sys_dup_def filedup_def u)
qed

theorem descriptor_counts_exact_witness:
  "f_ref (ftable (ux demo_call) 0) = 2 \<and>
   succeeds (sys_dup demo_call) (\<lambda>(r, t). r = 2 \<and> f_ref (ftable (ux t) 0) = 3 \<and> refs_ok (\<lambda>_. 0) t \<and> (\<exists>q u. sys_dup t = Inr (q, u)))"
proof -
  have "{fd. fd < NOFILE \<and> ofile demo_call fd = Some f} = (if f = 0 then {0, 1} else {})" for f
    by (auto simp: demo_call_def demo_user_def NOFILE_def)
  then have r: "refs_ok (\<lambda>_. 0) demo_call" by (simp add: refs_ok_def held_def demo_call_def demo_user_def)
  let ?t = "demo_call\<lparr>ofile := (ofile demo_call)(2 := Some 0), ux := upd_f 0 (\<lambda>x. x\<lparr>f_ref := f_ref x + 1\<rparr>) (ux demo_call)\<rparr>"
  have "(call no_devices 1)\<^sup>*\<^sup>* demo_call ?t" using call_dup [OF demo_dup] by blast
  then have "refs_ok (\<lambda>_. 0) ?t \<and> (\<exists>q u. sys_dup ?t = Inr (q, u))" using descriptor_counts_exact [OF r] by simp
  moreover have "f_ref (ftable (ux demo_call) 0) = 2" by (simp add: demo_call_def demo_user_def)
  ultimately show ?thesis by (simp add: demo_dup succeeds_def upd_f_def)
qed

end
