(* ===== verification/Exec.thy ===== *)
theory Exec
  imports Sysfile Vm
begin

text \<open>
  Loading a program (\<^verbatim>\<open>exec.c\<close> of Project1, \<^verbatim>\<open>loaduvm\<close> of \<^verbatim>\<open>vm.c\<close>) on the file system, the page allocator and the page tables. The fields
  of the process that \<open>exec\<close> changes are the record \<open>eproc\<close>. The \<^verbatim>\<open>exec\<close> of Project2 has the same body after it has ended the other threads.
\<close>

definition ELF_MAGIC :: u32 where "ELF_MAGIC = 0x464C457F"
definition ELF_PROG_LOAD :: u32 where "ELF_PROG_LOAD = 1"
definition ELFHDR_SIZE :: nat where "ELFHDR_SIZE = 52"
definition PROGHDR_SIZE :: nat where "PROGHDR_SIZE = 32"

record elfhdr =
  eh_magic :: u32
  eh_entry :: u32
  eh_phoff :: u32
  eh_phnum :: "16 word"

record proghdr =
  ph_type :: u32
  ph_off :: u32
  ph_vaddr :: u32
  ph_filesz :: u32
  ph_memsz :: u32

definition get_elfhdr :: "u8 list \<Rightarrow> elfhdr" where
  "get_elfhdr xs = \<lparr>eh_magic = get32 xs 0, eh_entry = get32 xs 24, eh_phoff = get32 xs 28, eh_phnum = get16 xs 44\<rparr>"

definition get_proghdr :: "u8 list \<Rightarrow> proghdr" where
  "get_proghdr xs = \<lparr>ph_type = get32 xs 0, ph_off = get32 xs 4, ph_vaddr = get32 xs 8, ph_filesz = get32 xs 16, ph_memsz = get32 xs 20\<rparr>"

record eproc =
  e_pgdir :: u32
  e_sz :: u32
  e_eip :: u32
  e_esp :: u32
  e_name :: "u8 list"

text \<open>\<^verbatim>\<open>readi\<close> into the page at kernel address \<open>v\<close>.\<close>

definition read_page :: "devsw \<Rightarrow> int \<Rightarrow> nat \<Rightarrow> u32 \<Rightarrow> u32 \<Rightarrow> u32 \<Rightarrow> xst \<Rightarrow> kerr + int \<times> xst" where
  "read_page D me ip v off n s =
    bindE (readi D me ip off n (xfs s)) (\<lambda>((r, xs), t).
      Inr (r, s\<lparr>xfs := t, km := set_page v (xs @ drop (length xs) (page_at v (km s))) (km s)\<rparr>))"

fun loaduvm_loop :: "devsw \<Rightarrow> int \<Rightarrow> u32 \<Rightarrow> u32 \<Rightarrow> nat \<Rightarrow> u32 \<Rightarrow> u32 \<Rightarrow> u32 list \<Rightarrow> xst \<Rightarrow> kerr + int \<times> xst" where
  "loaduvm_loop D me pgdir addr ip off sz [] s = Inr (0, s)"
| "loaduvm_loop D me pgdir addr ip off sz (i # is) s =
    (case walkpgdir pgdir (addr + i) False (km s) of
       (None, _) \<Rightarrow> Inl (Panic ''loaduvm: address should exist'')
     | (Some pte, k) \<Rightarrow>
         let pa = PTE_ADDR (entry pte k); n = (if sz - i < PGSIZE then sz - i else PGSIZE) in
         bindE (read_page D me ip (P2V pa) (off + i) n s) (\<lambda>(r, s1).
           if r \<noteq> sint n then Inr (-1, s1) else loaduvm_loop D me pgdir addr ip off sz is s1))"

definition loaduvm :: "devsw \<Rightarrow> int \<Rightarrow> u32 \<Rightarrow> u32 \<Rightarrow> nat \<Rightarrow> u32 \<Rightarrow> u32 \<Rightarrow> xst \<Rightarrow> kerr + int \<times> xst" where
  "loaduvm D me pgdir addr ip off sz s =
    (if addr mod PGSIZE \<noteq> 0 then Inl (Panic ''loaduvm: addr must be page aligned'')
     else loaduvm_loop D me pgdir addr ip off sz (pages_upto 0 sz) s)"

text \<open>The loop over the program headers; \<open>None\<close> is the jump to \<^verbatim>\<open>bad\<close>.\<close>

fun load_segments :: "devsw \<Rightarrow> int \<Rightarrow> nat \<Rightarrow> u32 \<Rightarrow> u32 \<Rightarrow> nat list \<Rightarrow> u32 \<Rightarrow> xst \<Rightarrow> kerr + u32 option \<times> xst" where
  "load_segments D me ip pgdir phoff [] sz s = Inr (Some sz, s)"
| "load_segments D me ip pgdir phoff (i # is) sz s =
    bindE (readi D me ip (phoff + of_nat (i * PROGHDR_SIZE)) (of_nat PROGHDR_SIZE) (xfs s)) (\<lambda>((r, xs), t).
      let s1 = s\<lparr>xfs := t\<rparr>; ph = get_proghdr xs in
      if r \<noteq> int PROGHDR_SIZE then Inr (None, s1)
      else if ph_type ph \<noteq> ELF_PROG_LOAD then load_segments D me ip pgdir phoff is sz s1
      else if ph_memsz ph < ph_filesz ph then Inr (None, s1)
      else if ph_vaddr ph + ph_memsz ph < ph_vaddr ph then Inr (None, s1)
      else
        bindE (allocuvm pgdir sz (ph_vaddr ph + ph_memsz ph) (km s1)) (\<lambda>(sz1, k).
          let s2 = s1\<lparr>km := k\<rparr> in
          if sz1 = 0 then Inr (None, s2)
          else if ph_vaddr ph mod PGSIZE \<noteq> 0 then Inr (None, s2)
          else
            bindE (loaduvm D me pgdir (ph_vaddr ph) ip (ph_off ph) (ph_filesz ph) s2) (\<lambda>(r2, s3).
              if r2 < 0 then Inr (None, s3) else load_segments D me ip pgdir phoff is sz1 s3)))"

text \<open>The argument strings; the result is the stack pointer and the addresses of the strings.\<close>

fun push_args :: "u32 \<Rightarrow> nat \<Rightarrow> u8 list list \<Rightarrow> u32 \<Rightarrow> u32 list \<Rightarrow> kmem \<Rightarrow> kerr + (u32 \<times> u32 list) option \<times> kmem" where
  "push_args pgdir argc [] sp us k = Inr (Some (sp, us), k)"
| "push_args pgdir argc (a # as) sp us k =
    (if argc \<ge> MAXARG then Inr (None, k)
     else
       let sp1 = (sp - of_nat (length a + 1)) AND NOT 3 in
       bindE (copyout pgdir sp1 (a @ [0]) k) (\<lambda>(r, k1).
         if r < 0 then Inr (None, k1) else push_args pgdir (Suc argc) as sp1 (us @ [sp1]) k1))"

definition ustack :: "u32 \<Rightarrow> u32 list \<Rightarrow> u32 list" where
  "ustack sp us = [0xFFFFFFFF, of_nat (length us), sp - of_nat (length us + 1) * 4] @ us @ [0]"

text \<open>The strings and then the frame of \<^verbatim>\<open>main\<close>; the result is the new stack pointer.\<close>

definition copy_args :: "u32 \<Rightarrow> u8 list list \<Rightarrow> u32 \<Rightarrow> kmem \<Rightarrow> kerr + u32 option \<times> kmem" where
  "copy_args pgdir argv sz k =
    bindE (push_args pgdir 0 argv sz [] k) (\<lambda>(r, k1).
      case r of
        None \<Rightarrow> Inr (None, k1)
      | Some (sp, us) \<Rightarrow>
          let sp1 = sp - of_nat (3 + length us + 1) * 4 in
          bindE (copyout pgdir sp1 (concat (map bytes32 (ustack sp us))) k1) (\<lambda>(r2, k2).
          Inr (if r2 < 0 then None else Some sp1, k2)))"

text \<open>The last element of the path.\<close>

definition base_name :: "u8 list \<Rightarrow> u8 list" where
  "base_name path = rev (takeWhile (\<lambda>c. c \<noteq> 47) (rev path))"

text \<open>The label \<^verbatim>\<open>bad\<close>; \<open>ip\<close> is \<open>None\<close> once the inode has been given back.\<close>

definition exec_bad :: "int \<Rightarrow> u32 \<Rightarrow> ptr \<Rightarrow> eproc \<Rightarrow> xst \<Rightarrow> kerr + int \<times> eproc \<times> xst" where
  "exec_bad me pgdir ip p s =
    bindE (if pgdir \<noteq> 0 then bindE (freevm pgdir (km s)) (\<lambda>k. Inr (s\<lparr>km := k\<rparr>)) else Inr s) (\<lambda>s1.
    bindE (case ip of
             None \<Rightarrow> Inr s1
           | Some i \<Rightarrow> bindE (on_fs (iunlockput me i) s1) (on_fs (on_l (end_op me)))) (\<lambda>s2.
    Inr (-1, p, s2)))"

text \<open>From the allocation of the stack to the end; \<open>pages\<close> is the guard page and the pages of the stack.\<close>

definition exec_stack :: "int \<Rightarrow> u8 list \<Rightarrow> u8 list list \<Rightarrow> u32 \<Rightarrow> u32 \<Rightarrow> u32 \<Rightarrow> u32 \<Rightarrow> eproc \<Rightarrow> xst \<Rightarrow> kerr + int \<times> eproc \<times> xst" where
  "exec_stack me path argv pages pgdir entry_pc sz0 p s =
    (let sz1 = PGROUNDUP sz0 in
     bindE (allocuvm pgdir sz1 (sz1 + pages * PGSIZE) (km s)) (\<lambda>(sz, k1).
       let s1 = s\<lparr>km := k1\<rparr> in
       if sz = 0 then exec_bad me pgdir None p s1
       else
         bindE (clearpteu pgdir (sz - pages * PGSIZE) k1) (\<lambda>k2.
         bindE (copy_args pgdir argv sz k2) (\<lambda>(r, k4).
           case r of
             None \<Rightarrow> exec_bad me pgdir None p (s1\<lparr>km := k4\<rparr>)
           | Some sp1 \<Rightarrow>
               bindE (freevm (e_pgdir p) k4) (\<lambda>k5.
               Inr (0, p\<lparr>e_pgdir := pgdir, e_sz := sz, e_eip := entry_pc, e_esp := sp1,
                          e_name := safestrcpy (cstr (base_name path)) 16 (e_name p)\<rparr>, s1\<lparr>km := k5\<rparr>))))))"

text \<open>From the lock of the inode on.\<close>

definition exec_inode :: "devsw \<Rightarrow> int \<Rightarrow> u8 list \<Rightarrow> u8 list list \<Rightarrow> u32 \<Rightarrow> nat \<Rightarrow> eproc \<Rightarrow> xst \<Rightarrow> kerr + int \<times> eproc \<times> xst" where
  "exec_inode D me path argv pages ip p s =
    bindE (on_fs (ilock me (Some ip)) s) (\<lambda>s3.
    bindE (readi D me ip 0 (of_nat ELFHDR_SIZE) (xfs s3)) (\<lambda>((r, xs), t).
      let s4 = s3\<lparr>xfs := t\<rparr>; elf = get_elfhdr xs in
      if r \<noteq> int ELFHDR_SIZE then exec_bad me 0 (Some ip) p s4
      else if eh_magic elf \<noteq> ELF_MAGIC then exec_bad me 0 (Some ip) p s4
      else
        bindE (setupkvm (km s4)) (\<lambda>(pgdir, k).
          let s5 = s4\<lparr>km := k\<rparr> in
          if pgdir = 0 then exec_bad me 0 (Some ip) p s5
          else
            bindE (load_segments D me ip pgdir (eh_phoff elf) [0..<unat (eh_phnum elf)] 0 s5) (\<lambda>(r, s6).
              case r of
                None \<Rightarrow> exec_bad me pgdir (Some ip) p s6
              | Some sz \<Rightarrow>
                  bindE (on_fs (iunlockput me ip) s6) (\<lambda>s7.
                  bindE (on_fs (on_l (end_op me)) s7) (\<lambda>s8.
                  exec_stack me path argv pages pgdir (eh_entry elf) sz p s8))))))"

definition exec :: "devsw \<Rightarrow> int \<Rightarrow> nat \<Rightarrow> u8 list \<Rightarrow> u8 list list \<Rightarrow> eproc \<Rightarrow> xst \<Rightarrow> kerr + int \<times> eproc \<times> xst" where
  "exec D me cwd path argv p s =
    bindE (on_fs (on_l begin_op) s) (\<lambda>s1.
    bindE (namei D me cwd path (xfs s1)) (\<lambda>(q, t).
      let s2 = s1\<lparr>xfs := t\<rparr> in
      case q of
        None \<Rightarrow> bindE (on_fs (on_l (end_op me)) s2) (\<lambda>s3. Inr (-1, p, s3))
      | Some ip \<Rightarrow> exec_inode D me path argv 2 ip p s2))"

text \<open>The system call, with the arguments in user memory.\<close>

definition sys_exec :: "devsw \<Rightarrow> int \<Rightarrow> eproc \<Rightarrow> ust \<Rightarrow> kerr + int \<times> eproc \<times> xst" where
  "sys_exec D me p s =
    (case exec_args s of
       None \<Rightarrow> Inr (-1, p, ux s)
     | Some (path, argv) \<Rightarrow> exec D me (ucwd s) path argv p (ux s))"

section \<open>Failure leaves the process alone\<close>

lemma exec_bad_result: "exec_bad me pgdir ip p s = Inr (r, q, t) \<Longrightarrow> r = -1 \<and> q = p"
  by (auto simp: exec_bad_def bindE_def split: sum.splits)

lemma exec_stack_result: "exec_stack me path argv pages pgdir e sz p s = Inr (r, q, t) \<Longrightarrow> r = -1 \<and> q = p \<or> r = 0 \<and> e_pgdir q = pgdir \<and> e_eip q = e"
  by (auto simp: exec_stack_def bindE_def Let_def dest: exec_bad_result split: sum.splits option.splits if_splits prod.splits)

end
