(* ===== verification/ExecLwp.thy ===== *)
theory ExecLwp
  imports Exec Threads
begin

text \<open>
  Loading a program in the LWP kernel (\<^verbatim>\<open>exec\<close> and \<^verbatim>\<open>exec2\<close> of Project2): the other threads of the family are ended first, with
  interrupts off; then the image is built as in \<open>Exec\<close> and committed to the process and to the memory record of its family.
\<close>

section \<open>State\<close>

text \<open>\<open>lw_if\<close> says whether interrupts are on when the call returns.\<close>

record lwpst =
  lw_t :: tst
  lw_x :: xst
  lw_if :: bool

definition name_bytes :: "string \<Rightarrow> u8 list" where
  "name_bytes nm = take 16 (map of_char nm @ replicate 16 0)"

definition name_string :: "u8 list \<Rightarrow> string" where
  "name_string xs = map (\<lambda>b. char_of (unat b)) (takeWhile (\<lambda>b. b \<noteq> 0) xs)"

text \<open>What \<open>exec\<close> sees and changes of process \<open>p\<close>.\<close>

definition eproc_of :: "nat \<Rightarrow> tst \<Rightarrow> eproc" where
  "eproc_of p t =
    \<lparr>e_pgdir = t_pgdir (tprocs t p), e_sz = sh_sz (share_of t p), e_eip = tf_eip (t_tf (tprocs t p)), e_esp = tf_esp (t_tf (tprocs t p)),
     e_name = name_bytes (t_name (tprocs t p))\<rparr>"

definition commit_image :: "nat \<Rightarrow> nat \<Rightarrow> eproc \<Rightarrow> tst \<Rightarrow> tst" where
  "commit_image p stack q t =
    upd_share (shared_info (tprocs t p)) (\<lambda>h. h\<lparr>sh_sz := e_sz q, stacksize := of_nat stack\<rparr>)
     (upd_t p (\<lambda>x. x\<lparr>t_pgdir := e_pgdir q, t_tf := (t_tf x)\<lparr>tf_eip := e_eip q, tf_esp := e_esp q\<rparr>, t_name := name_string (e_name q)\<rparr>) t)"

section \<open>Operations\<close>

definition exec2 :: "devsw \<Rightarrow> int \<Rightarrow> nat \<Rightarrow> nat \<Rightarrow> u8 list \<Rightarrow> u8 list list \<Rightarrow> nat \<Rightarrow> lwpst \<Rightarrow> kerr + int \<times> lwpst" where
  "exec2 D me p wd path argv stack s =
    bindE (kill_threads p (lw_t s)) (\<lambda>t.
    bindE (on_fs (on_l begin_op) (lw_x s)) (\<lambda>x1.
    bindE (namei D me wd path (xfs x1)) (\<lambda>(q, f).
      let x2 = x1\<lparr>xfs := f\<rparr> in
      case q of
        None \<Rightarrow> bindE (on_fs (on_l (end_op me)) x2) (\<lambda>x3. Inr (-1, \<lparr>lw_t = t, lw_x = x3, lw_if = False\<rparr>))
      | Some ip \<Rightarrow>
          bindE (exec_inode D me path argv (1 + of_nat stack) ip (eproc_of p t) x2) (\<lambda>(r, e, x3).
          Inr (r, \<lparr>lw_t = (if r = 0 then commit_image p stack e t else t), lw_x = x3, lw_if = True\<rparr>)))))"

definition exec_lwp :: "devsw \<Rightarrow> int \<Rightarrow> nat \<Rightarrow> nat \<Rightarrow> u8 list \<Rightarrow> u8 list list \<Rightarrow> lwpst \<Rightarrow> kerr + int \<times> lwpst" where
  "exec_lwp D me p wd path argv s = exec2 D me p wd path argv 1 s"

definition sys_exec2 :: "devsw \<Rightarrow> int \<Rightarrow> nat \<Rightarrow> tst \<Rightarrow> ust \<Rightarrow> kerr + int \<times> lwpst" where
  "sys_exec2 D me p t s =
    (let same = \<lparr>lw_t = t, lw_x = ux s, lw_if = True\<rparr> in
     case (argstr 0 s, argint 1 s, argint 2 s) of
       (Some path, Some uargv, Some w) \<Rightarrow>
         if sint w < 0 \<or> sint w > 100 then Inr (-1, same)
         else if sint (memory_limit (share_of t p)) > 0 \<and> sint (memory_limit (share_of t p)) < sint w * 4096 then Inr (-1, same)
         else
           (case fetch_argv uargv [0..<MAXARG] s of
              None \<Rightarrow> Inr (-1, same)
            | Some argv \<Rightarrow> exec2 D me p (ucwd s) path argv (nat (sint w)) same)
     | _ \<Rightarrow> Inr (-1, same))"

lemma exec_inode_result:
  "exec_inode D me path argv pages ip p s = Inr (r, q, t) \<Longrightarrow> r = -1 \<and> q = p \<or> r = 0"
  unfolding exec_inode_def
  by (auto simp: Let_def elim!: bindE_Inr_E dest!: exec_bad_result exec_stack_result split: if_splits option.splits)

text \<open>A call that fails leaves the image of the process as \<open>kill_threads\<close> left it, and returns with interrupts off exactly when the path does
  not exist.\<close>

lemma exec2_failure:
  assumes "exec2 D me p wd path argv stack s = Inr (r, s')" and "r \<noteq> 0"
  shows "r = -1 \<and> kill_threads p (lw_t s) = Inr (lw_t s')"
  using assms unfolding exec2_def
  by (auto simp: Let_def elim!: bindE_Inr_E dest!: exec_inode_result split: option.splits if_splits)

end
