(* ===== verification/VmCopy.thy ===== *)
theory VmCopy
  imports VmProps Exec
begin

text \<open>
  Copying into an address space: \<open>copyout\<close> writes exactly the bytes of the user's range as the user sees them through the page tables, and
  \<open>exec\<close> lays the arguments of the new program out on the stack by it.
\<close>

section \<open>The user's view\<close>

definition user_pte :: "u32 \<Rightarrow> u32 \<Rightarrow> kmem \<Rightarrow> u32 option" where
  "user_pte pgdir va s = (case mapped pgdir va s of Some e \<Rightarrow> if e AND PTE_U \<noteq> 0 then Some e else None | None \<Rightarrow> None)"

definition upage :: "u32 \<Rightarrow> u32" where
  "upage e = P2V (PTE_ADDR e)"

definition page_offset :: "u32 \<Rightarrow> nat" where
  "page_offset a = unat a mod 4096"

text \<open>The byte that the process reads at an address.\<close>

definition ubyte :: "u32 \<Rightarrow> u32 \<Rightarrow> kmem \<Rightarrow> u8 option" where
  "ubyte pgdir a s = (case user_pte pgdir a s of None \<Rightarrow> None | Some e \<Rightarrow> Some (page_at (upage e) s ! page_offset a))"

text \<open>The tables are in order, and the pages of the user are in use, are not page tables and are mapped once.\<close>

definition uspace_ok :: "u32 \<Rightarrow> kmem \<Rightarrow> u32 list \<Rightarrow> bool" where
  "uspace_ok pgdir s xs \<longleftrightarrow> vm_ok pgdir s xs \<and>
     (\<forall>va e. user_pte pgdir va s = Some e \<longrightarrow> good_page (upage e) s \<and> upage e \<notin> set xs \<and> upage e \<notin> table_pages pgdir s) \<and>
     (\<forall>va vb e f. user_pte pgdir va s = Some e \<longrightarrow> user_pte pgdir vb s = Some f \<longrightarrow> upage e = upage f \<longrightarrow> PGROUNDDOWN va = PGROUNDDOWN vb)"

lemma uspace_okD:
  assumes "uspace_ok pgdir s xs"
  shows "vm_ok pgdir s xs" and "user_pte pgdir va s = Some e \<Longrightarrow> good_page (upage e) s \<and> upage e \<notin> set xs \<and> upage e \<notin> table_pages pgdir s"
    and "user_pte pgdir va s = Some e \<Longrightarrow> user_pte pgdir vb s = Some f \<Longrightarrow> upage e = upage f \<Longrightarrow> PGROUNDDOWN va = PGROUNDDOWN vb"
  using assms unfolding uspace_ok_def by blast+

lemma user_pte_page: "user_pte pgdir (PGROUNDDOWN va) s = user_pte pgdir va s"
  by (simp add: user_pte_def mapped_page)

lemma user_pte_same_page: "PGROUNDDOWN va = PGROUNDDOWN vb \<Longrightarrow> user_pte pgdir va s = user_pte pgdir vb s"
  using user_pte_page [of pgdir va s] user_pte_page [of pgdir vb s] by simp

lemma page_eq_iff: "PGROUNDDOWN va = PGROUNDDOWN vb \<longleftrightarrow> unat va div 4096 = unat vb div 4096"
  by (simp add: word_unat_eq_iff unat_PGROUNDDOWN)

lemma offset_page: "unat (va - PGROUNDDOWN va) = page_offset va"
  using unat_sub [of "PGROUNDDOWN va" va] by (simp add: word_le_nat_alt unat_PGROUNDDOWN page_offset_def minus_mult_div_eq_mod)

lemma page_offset_less: "page_offset a < PGBYTES"
  by (simp add: page_offset_def PGBYTES_def)

lemma addr_split: "unat a = 4096 * (unat a div 4096) + page_offset a"
  by (simp add: page_offset_def)

lemma same_page:
  assumes "page_offset va + n \<le> PGBYTES" and "unat va \<le> unat a" and "unat a < unat va + n"
  shows "unat a div 4096 = unat va div 4096"
  by (rule div_nat_eqI) (use assms addr_split [of va] in \<open>simp_all add: PGBYTES_def\<close>)

lemma uva2ka_user:
  assumes "user_pte pgdir va s = Some e"
  shows "uva2ka pgdir (PGROUNDDOWN va) s = Inr (upage e)"
proof -
  have "user_pte pgdir (PGROUNDDOWN va) s = Some e" using assms by (simp add: user_pte_page)
  then show ?thesis
    by (auto simp: user_pte_def uva2ka_def mapped_def walk_has upage_def split: option.splits if_splits)
qed

section \<open>Writing into one page\<close>

definition patch :: "nat \<Rightarrow> u8 list \<Rightarrow> u8 list \<Rightarrow> u8 list" where
  "patch p xs pg = take p pg @ xs @ drop (p + length xs) pg"

lemma patch_props:
  assumes "p + length xs \<le> length pg"
  shows "length (patch p xs pg) = length pg" and "i < length pg \<Longrightarrow> patch p xs pg ! i = (if p \<le> i \<and> i < p + length xs then xs ! (i - p) else pg ! i)"
  using assms by (auto simp: patch_def nth_append min_def)

lemma patch_user:
  assumes u: "uspace_ok pgdir s xs" and e: "user_pte pgdir va s = Some e" and fit: "page_offset va + length bs \<le> PGBYTES"
  defines "t \<equiv> set_page (upage e) (patch (page_offset va) bs (page_at (upage e) s)) s"
  shows "uspace_ok pgdir t xs" and "mapped pgdir a t = mapped pgdir a s" and "kend t = kend s"
    and "ubyte pgdir a t = (if unat va \<le> unat a \<and> unat a < unat va + length bs then Some (bs ! (unat a - unat va)) else ubyte pgdir a s)"
proof -
  have v: "vm_ok pgdir s xs" and g: "good_page (upage e) s" "upage e \<notin> set xs" "upage e \<notin> table_pages pgdir s"
    using uspace_okD(1,2) [OF u] e by blast+
  have len: "length (page_at w s) = PGBYTES" for w using vm_okD(2) [OF v] .
  note pp = patch_props [of "page_offset va" bs "page_at (upage e) s", unfolded len, OF fit]
  note r = vm_ok_set_page [OF v g pp(1), folded t_def]
  show "mapped pgdir a t = mapped pgdir a s" by (rule r(3))
  have up: "user_pte pgdir b t = user_pte pgdir b s" for b by (simp add: user_pte_def r(3))
  have pg: "page_at w t = (if frame w = frame (upage e) then patch (page_offset va) bs (page_at (upage e) s) else page_at w s)" for w
    by (simp add: t_def page_at_set_page)
  show k: "kend t = kend s" by (simp add: t_def)
  show "uspace_ok pgdir t xs" unfolding uspace_ok_def up r(2) good_page_cong [OF k] using r(1) u [unfolded uspace_ok_def] by blast
  show "ubyte pgdir a t = (if unat va \<le> unat a \<and> unat a < unat va + length bs then Some (bs ! (unat a - unat va)) else ubyte pgdir a s)"
  proof (cases "user_pte pgdir a s")
    case None
    have "\<not> (unat va \<le> unat a \<and> unat a < unat va + length bs)"
    proof
      assume "unat va \<le> unat a \<and> unat a < unat va + length bs"
      then have "unat a div 4096 = unat va div 4096" using same_page [OF fit] by blast
      then show False using user_pte_same_page [of a va pgdir s] None e by (simp add: page_eq_iff)
    qed
    then show ?thesis using None by (simp add: ubyte_def up)
  next
    case (Some f)
    have ga: "good_page (upage f) s" using uspace_okD(2) [OF u Some] by blast
    show ?thesis
    proof (cases "unat a div 4096 = unat va div 4096")
      case True
      then have "f = e" using user_pte_same_page [of a va pgdir s] Some e by (simp add: page_eq_iff)
      then have b: "ubyte pgdir a t = Some (if page_offset va \<le> page_offset a \<and> page_offset a < page_offset va + length bs
          then bs ! (page_offset a - page_offset va) else page_at (upage e) s ! page_offset a)"
        using Some by (simp add: ubyte_def up pg pp(2) [OF page_offset_less])
      have q: "unat a = 4096 * (unat va div 4096) + page_offset a" "unat va = 4096 * (unat va div 4096) + page_offset va"
        using addr_split [of a] addr_split [of va] True by simp_all
      have "page_offset va \<le> page_offset a \<longleftrightarrow> unat va \<le> unat a" using q by linarith
      moreover have "page_offset a < page_offset va + length bs \<longleftrightarrow> unat a < unat va + length bs" using q by linarith
      moreover have "page_offset a - page_offset va = unat a - unat va" using q by linarith
      ultimately show ?thesis using b Some \<open>f = e\<close> by (simp add: ubyte_def)
    next
      case False
      then have "upage f \<noteq> upage e" using uspace_okD(3) [OF u Some e] by (auto simp: page_eq_iff)
      then have "frame (upage f) \<noteq> frame (upage e)" using frame_inj [OF ga g(1)] by blast
      moreover have "\<not> (unat va \<le> unat a \<and> unat a < unat va + length bs)"
        using False same_page [OF fit] by blast
      ultimately show ?thesis using Some by (auto simp: ubyte_def up pg)
    qed
  qed
qed

section \<open>Copying\<close>

definition user_range :: "u32 \<Rightarrow> u32 \<Rightarrow> nat \<Rightarrow> kmem \<Rightarrow> bool" where
  "user_range pgdir va n s \<longleftrightarrow> unat va + n < 2 ^ 32 \<and> (\<forall>a. unat va \<le> unat a \<longrightarrow> unat a < unat va + n \<longrightarrow> user_pte pgdir a s \<noteq> None)"

definition ucopied :: "u32 \<Rightarrow> u32 \<Rightarrow> u8 list \<Rightarrow> kmem \<Rightarrow> u32 list \<Rightarrow> kmem \<Rightarrow> bool" where
  "ucopied pgdir va bs s xs t \<longleftrightarrow> uspace_ok pgdir t xs \<and> kend t = kend s \<and> (\<forall>a. mapped pgdir a t = mapped pgdir a s) \<and>
     (\<forall>a. ubyte pgdir a t = (if unat va \<le> unat a \<and> unat a < unat va + length bs then Some (bs ! (unat a - unat va)) else ubyte pgdir a s))"

lemma user_range_mapped: "(\<And>a. mapped pgdir a t = mapped pgdir a s) \<Longrightarrow> user_range pgdir va n t = user_range pgdir va n s"
  by (simp add: user_range_def user_pte_def)

lemma user_page_nonzero: "uspace_ok pgdir s xs \<Longrightarrow> user_pte pgdir va s = Some e \<Longrightarrow> upage e \<noteq> 0"
  using uspace_okD(2) [of pgdir s xs va e] by (simp add: good_page_def)

lemma next_page:
  assumes "page_offset va + n = PGBYTES" and "unat va + n < 2 ^ 32"
  shows "unat (PGROUNDDOWN va + PGSIZE) = unat va + n"
proof -
  have "unat (PGROUNDDOWN va) + 4096 = unat va + n" using assms(1) addr_split [of va] by (simp add: unat_PGROUNDDOWN PGBYTES_def)
  then show ?thesis using assms(2) by (simp add: unat_word_ariths PGSIZE_def)
qed

lemma copyout_ok:
  "uspace_ok pgdir s xs \<Longrightarrow> user_range pgdir va (length buf) s \<Longrightarrow> succeeds (copyout pgdir va buf s) (\<lambda>(r, t). r = 0 \<and> ucopied pgdir va buf s xs t)"
proof (induction "length buf" arbitrary: va buf s rule: less_induct)
  case less
  show ?case
  proof (cases "buf = []")
    case True
    then show ?thesis using less(2) by (subst copyout.simps) (auto simp: succeeds_def ucopied_def)
  next
    case False
    define n where "n = min (PGBYTES - page_offset va) (length buf)"
    have n: "length (take n buf) = n" "page_offset va + n \<le> PGBYTES" "0 < n" "n \<le> length buf"
      using page_offset_less [of va] False by (simp_all add: n_def)
    obtain e where e: "user_pte pgdir va s = Some e" using less(3) False unfolding user_range_def by fastforce
    define t where "t = set_page (upage e) (patch (page_offset va) (take n buf) (page_at (upage e) s)) s"
    have pu: "uspace_ok pgdir t xs" "mapped pgdir a t = mapped pgdir a s" "kend t = kend s"
      "ubyte pgdir a t = (if unat va \<le> unat a \<and> unat a < unat va + n then Some (take n buf ! (unat a - unat va)) else ubyte pgdir a s)" for a
      using patch_user(1,3) [OF less(2) e, where bs = "take n buf"] patch_user(2,4) [OF less(2) e, where bs = "take n buf" and a = a] n
      by (simp_all add: t_def)
    have k: "uva2ka pgdir (PGROUNDDOWN va) s = Inr (upage e)" "upage e \<noteq> 0" using uva2ka_user [OF e] user_page_nonzero [OF less(2) e] by auto
    have step: "copyout pgdir va buf s = copyout pgdir (PGROUNDDOWN va + PGSIZE) (drop n buf) t"
      using False k by (subst copyout.simps) (simp add: Let_def offset_page n_def [symmetric] t_def patch_def min.absorb2 [OF n(4)])
    show ?thesis
    proof (cases "n = length buf")
      case True
      then have "copyout pgdir (PGROUNDDOWN va + PGSIZE) (drop n buf) t = Inr (0, t)" by (subst copyout.simps) simp
      then show ?thesis using pu True unfolding step by (simp add: succeeds_def ucopied_def)
    next
      case False
      then have full: "page_offset va + n = PGBYTES" using page_offset_less [of va] by (auto simp: n_def min_def split: if_splits)
      let ?v = "PGROUNDDOWN va + PGSIZE"
      have v: "unat ?v = unat va + n" using next_page [OF full] less(3) n(4) by (simp add: user_range_def)
      have "user_range pgdir va (length buf) t" using less(3) user_range_mapped [OF pu(2)] by simp
      then have "user_range pgdir ?v (length (drop n buf)) t" using n(4) v by (simp add: user_range_def)
      then have "succeeds (copyout pgdir ?v (drop n buf) t) (\<lambda>(r, u). r = 0 \<and> ucopied pgdir ?v (drop n buf) t xs u)"
        using less(1) [OF _ pu(1)] n by simp
      then show ?thesis unfolding step
        by (rule succeeds_mono) (use n(4) in \<open>auto simp: ucopied_def pu v nth_append\<close>)
    qed
  qed
qed

section \<open>The arguments of a program\<close>

lemma align4:
  fixes sp :: u32
  assumes "n \<le> unat sp"
  shows "unat ((sp - of_nat n) AND NOT 3) = 4 * ((unat sp - n) div 4)"
proof -
  have m: "(3 :: u32) = mask 2" by (simp add: mask_eq_exp_minus_1)
  have lt: "unat sp < 2 ^ 32" using unsigned_less [of sp, where 'a = nat] by simp
  then have "unat (of_nat n :: u32) = n" using assms by (intro unat_of_nat32) simp
  then have u: "unat (sp - of_nat n) = unat sp - n" using assms by (simp add: unat_sub word_le_nat_alt)
  let ?x = "sp - of_nat n"
  have "?x AND NOT 3 = push_bit 2 (drop_bit 2 ?x)" unfolding m by (rule bit_word_eqI) (auto simp: bit_simps not_less dest: le_add_diff_inverse)
  then have "unat (?x AND NOT 3) = unat (push_bit 2 (drop_bit 2 ?x))" by (rule arg_cong)
  also have "\<dots> = take_bit 32 (4 * (unat ?x div 4))"
    by (simp only: unsigned_push_bit_eq unsigned_drop_bit_eq) (simp add: push_bit_eq_mult drop_bit_eq_div mult.commute
      take_bit_nat_eq_self unsigned_less [of ?x, where 'a = nat, simplified])
  also have "\<dots> = 4 * (unat ?x div 4)" using lt u by (intro take_bit_nat_eq_self) linarith
  finally show ?thesis by (simp add: u)
qed

definition string_at :: "u32 \<Rightarrow> u32 \<Rightarrow> u8 list \<Rightarrow> kmem \<Rightarrow> bool" where
  "string_at pgdir v a s \<longleftrightarrow> unat v + length a < 2 ^ 32 \<and> (\<forall>j \<le> length a. ubyte pgdir (v + of_nat j) s = Some ((a @ [0]) ! j))"

definition user_word :: "u32 \<Rightarrow> u32 \<Rightarrow> u32 \<Rightarrow> kmem \<Rightarrow> bool" where
  "user_word pgdir a w s \<longleftrightarrow> (\<forall>j < 4. ubyte pgdir (a + of_nat j) s = Some (bytes32 w ! j))"

lemma unat_add_small: "unat (v :: u32) + j < 2 ^ 32 \<Longrightarrow> unat (v + of_nat j) = unat v + j"
  using unat_of_nat32 [of j] by (simp add: unat_word_ariths)

lemma ucopied_string:
  assumes "ucopied pgdir v (a @ [0]) s xs t" and "unat v + length a < 2 ^ 32"
  shows "string_at pgdir v a t"
  using assms unat_add_small [of v] by (simp add: string_at_def ucopied_def)

lemma string_at_frame:
  assumes "string_at pgdir v a s" and "\<And>b. unat v \<le> unat b \<Longrightarrow> ubyte pgdir b t = ubyte pgdir b s"
  shows "string_at pgdir v a t"
  using assms unat_add_small [of v] by (simp add: string_at_def)

lemma user_range_sub:
  assumes "user_range pgdir low n s" and "unat low \<le> unat v" and "unat v + k \<le> unat low + n"
  shows "user_range pgdir v k s"
  using assms by (auto simp: user_range_def)

text \<open>The strings go below \<open>sp\<close> one after the other; what the stack held above \<open>sp\<close> stays.\<close>

definition pushed :: "u32 \<Rightarrow> u32 \<Rightarrow> u8 list list \<Rightarrow> kmem \<Rightarrow> u32 list \<Rightarrow> u32 \<Rightarrow> u32 list \<Rightarrow> kmem \<Rightarrow> bool" where
  "pushed pgdir sp as s xs sp' vs t \<longleftrightarrow> uspace_ok pgdir t xs \<and> kend t = kend s \<and> (\<forall>a. mapped pgdir a t = mapped pgdir a s) \<and>
     length vs = length as \<and> unat sp' \<le> unat sp \<and> unat sp \<le> unat sp' + (\<Sum>a\<leftarrow>as. length a + 4) \<and> list_all2 (\<lambda>v a. string_at pgdir v a t) vs as \<and>
     (\<forall>b. unat b < unat sp' \<or> unat sp \<le> unat b \<longrightarrow> ubyte pgdir b t = ubyte pgdir b s) \<and> (\<forall>v \<in> set vs. unat sp' \<le> unat v \<and> unat v < unat sp)"

lemma push_args_ok:
  "uspace_ok pgdir s xs \<Longrightarrow> user_range pgdir low (unat sp - unat low) s \<Longrightarrow> argc + length as \<le> MAXARG \<Longrightarrow>
   unat low + (\<Sum>a\<leftarrow>as. length a + 4) \<le> unat sp \<Longrightarrow>
   succeeds (push_args pgdir argc as sp us s) (\<lambda>(r, t). \<exists>sp' vs. r = Some (sp', us @ vs) \<and> pushed pgdir sp as s xs sp' vs t)"
proof (induction as arbitrary: argc sp us s)
  case Nil
  then show ?case by (simp add: succeeds_def pushed_def)
next
  case (Cons a as)
  define v where "v = (sp - of_nat (length a + 1)) AND NOT 3"
  let ?n = "length a + 1"
  have fit: "unat low + ?n + 3 + (\<Sum>b\<leftarrow>as. length b + 4) \<le> unat sp" using Cons.prems(4) by simp
  have uv: "unat v = 4 * ((unat sp - ?n) div 4)" unfolding v_def by (rule align4) (use fit in simp)
  have bv: "unat v + ?n \<le> unat sp" "unat sp \<le> unat v + length a + 4" "unat low + (\<Sum>b\<leftarrow>as. length b + 4) \<le> unat v"
    using fit unfolding uv by linarith+
  have lt: "unat sp < 2 ^ 32" using unsigned_less [of sp, where 'a = nat] by simp
  have "user_range pgdir v (length (a @ [0])) s"
    by (rule user_range_sub [OF Cons.prems(2)]) (use bv fit in simp_all)
  from copyout_ok [OF Cons.prems(1) this] show ?case
  proof (rule succeedsE)
    fix y
    assume y: "copyout pgdir v (a @ [0]) s = Inr y" "case y of (r, t) \<Rightarrow> r = 0 \<and> ucopied pgdir v (a @ [0]) s xs t"
    obtain t where t: "y = (0, t)" "ucopied pgdir v (a @ [0]) s xs t" using y(2) by (cases y) auto
    have ct: "uspace_ok pgdir t xs" "mapped pgdir b t = mapped pgdir b s" "kend t = kend s" for b using t(2) by (auto simp: ucopied_def)
    have "user_range pgdir low (unat v - unat low) t"
      using user_range_mapped [OF ct(2)] user_range_sub [OF Cons.prems(2), of low "unat v - unat low"] bv by simp
    from Cons.IH [OF ct(1) this, of "Suc argc" "us @ [v]"] Cons.prems(3) bv(3)
    have "succeeds (push_args pgdir (Suc argc) as v (us @ [v]) t) (\<lambda>(r, u). \<exists>sp' vs. r = Some (sp', (us @ [v]) @ vs) \<and> pushed pgdir v as t xs sp' vs u)"
      by simp
    moreover have "push_args pgdir argc (a # as) sp us s = push_args pgdir (Suc argc) as v (us @ [v]) t"
      unfolding push_args.simps v_def [symmetric] using Cons.prems(3) y(1) t(1) by simp
    moreover have "pushed pgdir sp (a # as) s xs sp' (v # vs) u" if p: "pushed pgdir v as t xs sp' vs u" for sp' vs u
    proof -
      have fr: "ubyte pgdir b u = ubyte pgdir b t" if "unat b < unat sp' \<or> unat v \<le> unat b" for b using p that unfolding pushed_def by blast
      have "string_at pgdir v a t" using ucopied_string [OF t(2)] bv lt by simp
      then have "string_at pgdir v a u" using string_at_frame fr by blast
      moreover have "ubyte pgdir b u = ubyte pgdir b s" if "unat b < unat sp' \<or> unat sp \<le> unat b" for b
        using that fr [of b] t(2) bv p by (auto simp: ucopied_def pushed_def)
      ultimately show ?thesis using p ct(2,3) bv by (auto simp: pushed_def)
    qed
    ultimately show ?thesis by (auto elim!: succeeds_mono)
  qed
qed

lemma length_bytes32 [simp]: "length (bytes32 w) = 4"
  by (simp add: bytes32_def)

lemma nth_concat_bytes32:
  "i < length ws \<Longrightarrow> j < 4 \<Longrightarrow> concat (map bytes32 ws) ! (4 * i + j) = bytes32 (ws ! i) ! j"
proof (induction ws arbitrary: i)
  case (Cons w ws)
  show ?case
  proof (cases i)
    case (Suc k)
    then have "4 * i + j = 4 + (4 * k + j)" by simp
    then show ?thesis using Cons Suc by (simp only: list.map concat.simps nth_append_length_plus [of "bytes32 w", unfolded length_bytes32]) simp
  qed (use Cons.prems in \<open>simp add: nth_append\<close>)
qed simp

lemma length_concat_bytes32 [simp]: "length (concat (map bytes32 ws)) = 4 * length ws"
  by (induction ws) simp_all

lemma copied_word:
  assumes "ucopied pgdir v (concat (map bytes32 ws)) s xs t" and "unat v + 4 * length ws < 2 ^ 32" and "i < length ws"
  shows "user_word pgdir (v + of_nat (4 * i)) (ws ! i) t"
  unfolding user_word_def
proof (intro allI impI)
  fix j :: nat
  assume j: "j < 4"
  let ?a = "v + of_nat (4 * i) + of_nat j"
  have eq: "?a = v + of_nat (4 * i + j)" by simp
  have "unat ?a = unat v + (4 * i + j)" unfolding eq by (rule unat_add_small) (use assms(2,3) j in simp)
  then show "ubyte pgdir ?a t = Some (bytes32 (ws ! i) ! j)"
    using assms(1,3) j nth_concat_bytes32 [OF assms(3) j] by (simp add: ucopied_def)
qed

text \<open>C22. The stack that \<^verbatim>\<open>exec\<close> builds is what \<^verbatim>\<open>main(argc, argv)\<close> expects. In an address space whose tables are in order and whose bytes between \<open>low\<close> and the end \<open>sz\<close> are
  mapped for the user, with room for the strings and the frame, the copy succeeds: as the program reads memory through its page tables, the
  stack pointer points to a return address \<^verbatim>\<open>0xffffffff\<close>, the number of arguments and a pointer to the vector behind them; the vector holds, in
  order, pointers to zero-terminated copies of the arguments, inside the stack, and ends with a null pointer; no byte outside the stack changes.\<close>

theorem exec_arguments_on_stack:
  assumes u: "uspace_ok pgdir k xs" and range: "user_range pgdir low (unat sz - unat low) k" and n: "length argv \<le> MAXARG"
    and fit: "unat low + (\<Sum>a\<leftarrow>argv. length a + 4) + 4 * (length argv + 4) \<le> unat sz"
  shows "succeeds (copy_args pgdir argv sz k) (\<lambda>(r, t). \<exists>sp us. r = Some sp \<and> length us = length argv \<and> low \<le> sp \<and> uspace_ok pgdir t xs \<and>
    user_word pgdir sp 0xffffffff t \<and> user_word pgdir (sp + 4) (of_nat (length argv)) t \<and> user_word pgdir (sp + 8) (sp + 12) t \<and>
    (\<forall>i < length argv. user_word pgdir (sp + 12 + of_nat (4 * i)) (us ! i) t \<and> string_at pgdir (us ! i) (argv ! i) t \<and> sp < us ! i \<and> us ! i < sz) \<and>
    user_word pgdir (sp + 12 + of_nat (4 * length argv)) 0 t \<and>
    (\<forall>b. b < low \<or> sz \<le> b \<longrightarrow> ubyte pgdir b t = ubyte pgdir b k))"
proof -
  have "succeeds (push_args pgdir 0 argv sz [] k) (\<lambda>(r, t). \<exists>sp' vs. r = Some (sp', [] @ vs) \<and> pushed pgdir sz argv k xs sp' vs t)"
    by (rule push_args_ok [OF u range]) (use n fit in simp_all)
  then obtain sp us k1 where p: "push_args pgdir 0 argv sz [] k = Inr (Some (sp, us), k1)" "pushed pgdir sz argv k xs sp us k1"
    by (auto simp: succeeds_iff)
  note P = p(2) [unfolded pushed_def]
  define v where "v = sp - of_nat (3 + length us + 1) * 4"
  let ?ws = "ustack sp us"
  let ?n = "length argv"
  have len: "length us = ?n" "length ?ws = ?n + 4" using P by (simp_all add: ustack_def)
  have sp: "unat low + 4 * (?n + 4) \<le> unat sp" "unat sp \<le> unat sz" using P fit by linarith+
  have lt: "unat sp < 2 ^ 32" using unsigned_less [of sp, where 'a = nat] by simp
  have "v = sp - of_nat (4 * (?n + 4))" by (simp add: v_def len algebra_simps)
  moreover have "unat (of_nat (4 * (?n + 4)) :: u32) = 4 * (?n + 4)" using sp lt by (intro unat_of_nat32) simp
  ultimately have v: "unat v + 4 * (?n + 4) = unat sp" "v + of_nat (4 * (?n + 4)) = sp" using sp by (simp_all add: unat_sub word_le_nat_alt)
  have "user_range pgdir v (length (concat (map bytes32 ?ws))) k1"
    using user_range_mapped [of pgdir k1 k] P user_range_sub [OF range, of v "4 * (?n + 4)"] v(1) sp by (simp add: len)
  from copyout_ok [of pgdir k1 xs, OF _ this] P obtain t where t: "copyout pgdir v (concat (map bytes32 ?ws)) k1 = Inr (0, t)" "ucopied pgdir v (concat (map bytes32 ?ws)) k1 xs t"
    by (auto simp: succeeds_iff)
  have w: "user_word pgdir (v + of_nat (4 * i)) (?ws ! i) t" if "i < ?n + 4" for i
    using copied_word [OF t(2)] v(1) lt that by (simp add: len)
  have same: "ubyte pgdir b t = ubyte pgdir b k1" if "unat b < unat v \<or> unat sp \<le> unat b" for b
    using that t(2) v(1) by (auto simp: ucopied_def len)
  have str: "string_at pgdir (us ! i) (argv ! i) t" "unat sp \<le> unat (us ! i)" "unat (us ! i) < unat sz" if "i < ?n" for i
  proof -
    show b: "unat sp \<le> unat (us ! i)" "unat (us ! i) < unat sz" using P that len by auto
    have "string_at pgdir (us ! i) (argv ! i) k1" using P that by (simp add: list_all2_conv_all_nth)
    then show "string_at pgdir (us ! i) (argv ! i) t" by (rule string_at_frame) (use same b in auto)
  qed
  have ptr: "sp - of_nat (length us + 1) * 4 = v + 12" using v(2) len by (simp add: algebra_simps)
  have "?ws ! 2 = v + 12" unfolding ptr [symmetric] by (simp add: ustack_def)
  then have "user_word pgdir (v + 8) (v + 12) t" using w [of 2] by simp
  moreover have "user_word pgdir v 0xffffffff t" "user_word pgdir (v + 4) (of_nat ?n) t" using w [of 0] w [of 1] by (simp_all add: ustack_def len)
  moreover have "user_word pgdir (v + 12 + of_nat (4 * i)) (us ! i) t" if "i < ?n" for i
    using w [of "3 + i"] that by (simp add: ustack_def nth_append len algebra_simps)
  moreover have "user_word pgdir (v + 12 + of_nat (4 * ?n)) 0 t"
    using w [of "3 + ?n"] by (simp add: ustack_def nth_append len algebra_simps)
  moreover have "copy_args pgdir argv sz k = Inr (Some v, t)" using p(1) t(1) by (simp add: copy_args_def v_def)
  moreover have "uspace_ok pgdir t xs" using t(2) by (simp add: ucopied_def)
  moreover have "ubyte pgdir b t = ubyte pgdir b k" if "b < low \<or> sz \<le> b" for b
    using that same [of b] P v(1) sp by (auto simp: word_less_nat_alt word_le_nat_alt)
  moreover have "low \<le> v" "v < us ! i" "us ! i < sz" if "i < ?n" for i
    using str(2,3) [OF that] v(1) sp by (simp_all add: word_le_nat_alt word_less_nat_alt)
  moreover have "low \<le> v" using v(1) sp by (simp add: word_le_nat_alt)
  ultimately show ?thesis using str(1) len(1) by auto
qed

text \<open>A machine with one user page at address 0: the page directory, its page table and the page.\<close>

definition demo_space :: kmem where
  "demo_space = \<lparr>freelist = 0,
     pmem = (\<lambda>f. if f = 1 then put32 0 0x2007 (replicate PGBYTES 0) else if f = 2 then put32 0 0x3007 (replicate PGBYTES 0) else replicate PGBYTES 0),
     kend = 0x80001000, kdata = 0x80100000\<rparr>"

lemma demo_space_entry:
  "i < 1024 \<Longrightarrow> entry (0x80001000, i) demo_space = (if i = 0 then 0x2007 else 0)"
  "i < 1024 \<Longrightarrow> entry (0x80002000, i) demo_space = (if i = 0 then 0x3007 else 0)"
  by (auto simp: entry_def demo_space_def page_at_def frame_def V2P_def KERNBASE_def PGBYTES_def get32_zero)

lemma demo_space_ok: "uspace_ok 0x80001000 demo_space []"
  and demo_space_range: "user_range 0x80001000 0 4096 demo_space"
proof -
  have ht: "has_table 0x80001000 i demo_space \<longleftrightarrow> i = 0" for i
    using demo_space_entry(1) [of i] by (auto simp: has_table_def present_iff bit_0 split: if_splits)
  have tb: "table_of 0x80001000 0 demo_space = 0x80002000" by (simp add: table_of_def demo_space_entry PTE_ADDR_def P2V_def KERNBASE_def)
  have mp: "mapped 0x80001000 va demo_space = (if PDX va = 0 \<and> PTX va = 0 then Some 0x3007 else None)" for va
    using demo_space_entry(2) [OF PTX_less, of va] by (cases "PTX va = 0"; cases "PDX va = 0") (auto simp: mapped_def ht tb present_iff bit_0)
  have up: "user_pte 0x80001000 va demo_space = (if PDX va = 0 \<and> PTX va = 0 then Some 0x3007 else None)" for va
    by (simp add: user_pte_def mp PTE_U_def)
  have pg: "upage 0x3007 = 0x80003000" by (simp add: upage_def PTE_ADDR_def P2V_def KERNBASE_def)
  have tp: "table_pages 0x80001000 demo_space = {0x80001000, 0x80002000}" by (auto simp: table_pages_def ht tb)
  have good: "good_page 0x80001000 demo_space" "good_page 0x80002000 demo_space" "good_page 0x80003000 demo_space"
    by (simp_all add: good_page_def demo_space_def V2P_def KERNBASE_def PHYSTOP_def PGSIZE_def)
  have "free_list demo_space []" by (simp add: free_list_def demo_space_def)
  moreover have "length (page_at v demo_space) = PGBYTES" for v by (simp add: page_at_def demo_space_def)
  ultimately have "vm_ok 0x80001000 demo_space []" by (simp add: vm_ok_def tp good ht tb)
  then show "uspace_ok 0x80001000 demo_space []"
    unfolding uspace_ok_def
  proof (intro conjI allI impI)
    fix va vb e f
    assume "user_pte 0x80001000 va demo_space = Some e" "user_pte 0x80001000 vb demo_space = Some f"
    then have "PDX va = PDX vb" "PTX va = PTX vb" by (simp_all add: up split: if_splits)
    then show "PGROUNDDOWN va = PGROUNDDOWN vb" by (rule page_index_inj)
  next
    fix va e
    assume "user_pte 0x80001000 va demo_space = Some e"
    then have "e = 0x3007" by (simp add: up split: if_splits)
    then show "good_page (upage e) demo_space" "upage e \<notin> set []" "upage e \<notin> table_pages 0x80001000 demo_space" by (simp_all add: pg tp good)
  qed
  have "PDX a = 0 \<and> PTX a = 0" if "unat a < 4096" for a :: u32
  proof -
    have "PGROUNDDOWN a = 0" using that by (simp add: word_unat_eq_iff unat_PGROUNDDOWN)
    then show ?thesis using page_index_eq [of 0 a] by (simp add: aligned_def PDX_def PTX_def)
  qed
  then show "user_range 0x80001000 0 4096 demo_space" by (simp add: user_range_def up)
qed

theorem exec_arguments_on_stack_witness:
  "succeeds (copy_args 0x80001000 [[108, 115]] 4096 demo_space) (\<lambda>(r, t). \<exists>sp v. r = Some sp \<and>
     user_word 0x80001000 (sp + 4) 1 t \<and> user_word 0x80001000 (sp + 12) v t \<and> string_at 0x80001000 v [108, 115] t)"
proof -
  have "user_range 0x80001000 0 (unat (4096 :: u32) - unat (0 :: u32)) demo_space" using demo_space_range by simp
  then show ?thesis
    by (rule succeeds_mono [OF exec_arguments_on_stack [OF demo_space_ok, of 0 4096 "[[108, 115]]"]]) (auto simp: MAXARG_def)
qed

end
