(* ===== verification/Umalloc.thy ===== *)
theory Umalloc
  imports Bytes
begin

text \<open>
  The memory allocator of user programs (\<^verbatim>\<open>umalloc.c\<close>). A header is named by its address; the memory of the headers is a pair of functions from
  addresses to the fields \<^verbatim>\<open>s.ptr\<close> and \<^verbatim>\<open>s.size\<close>. A header has 8 bytes and sizes count headers, so the block at \<open>p\<close> takes \<open>8 * size p\<close> bytes.
  \<open>hbase\<close> is the address of the static header, \<open>brk\<close> the end of the process. \<open>sbrk b n\<close> is the answer of the kernel: the new end, or \<open>None\<close>.

  The searches along the ring of free blocks are \<open>partial_function\<close>s: \<open>None\<close> would be a search that never ends.
\<close>

section \<open>State and operations\<close>

record heap =
  hptr :: "u32 \<Rightarrow> u32"
  hsize :: "u32 \<Rightarrow> u32"
  freep :: u32
  hbase :: u32
  brk :: u32

definition HEADER :: u32 where "HEADER = 8"

definition set_ptr :: "u32 \<Rightarrow> u32 \<Rightarrow> heap \<Rightarrow> heap" where
  "set_ptr p q h = h\<lparr>hptr := (hptr h)(p := q)\<rparr>"

definition set_size :: "u32 \<Rightarrow> u32 \<Rightarrow> heap \<Rightarrow> heap" where
  "set_size p n h = h\<lparr>hsize := (hsize h)(p := n)\<rparr>"

text \<open>\<^verbatim>\<open>p + p->s.size\<close>\<close>

definition after :: "u32 \<Rightarrow> heap \<Rightarrow> u32" where
  "after p h = p + HEADER * hsize h p"

partial_function (option) free_search :: "u32 \<Rightarrow> u32 \<Rightarrow> heap \<Rightarrow> u32 option" where
  "free_search bp p h =
    (if bp > p \<and> bp < hptr h p then Some p
     else if p \<ge> hptr h p \<and> (bp > p \<or> bp < hptr h p) then Some p
     else free_search bp (hptr h p) h)"

definition join_up :: "u32 \<Rightarrow> u32 \<Rightarrow> heap \<Rightarrow> heap" where
  "join_up bp p h =
    (let q = hptr h p in
     if after bp h = q then set_ptr bp (hptr h q) (set_size bp (hsize h bp + hsize h q) h)
     else set_ptr bp q h)"

definition join_down :: "u32 \<Rightarrow> u32 \<Rightarrow> heap \<Rightarrow> heap" where
  "join_down bp p h =
    (if after p h = bp then set_ptr p (hptr h bp) (set_size p (hsize h p + hsize h bp) h)
     else set_ptr p bp h)"

definition free :: "u32 \<Rightarrow> heap \<Rightarrow> kerr + heap" where
  "free ap h =
    (let bp = ap - HEADER in
     case free_search bp (freep h) h of
       None \<Rightarrow> Inl Diverges
     | Some p \<Rightarrow> Inr ((join_down bp p (join_up bp p h))\<lparr>freep := p\<rparr>))"

definition morecore :: "(u32 \<Rightarrow> u32 \<Rightarrow> u32 option) \<Rightarrow> u32 \<Rightarrow> heap \<Rightarrow> kerr + u32 \<times> heap" where
  "morecore sbrk nu h =
    (let nu1 = (if nu < 4096 then 4096 else nu) in
     case sbrk (brk h) (nu1 * HEADER) of
       None \<Rightarrow> Inr (0, h)
     | Some b \<Rightarrow>
         let hp = brk h in
         bindE (free (hp + HEADER) (set_size hp nu1 (h\<lparr>brk := b\<rparr>))) (\<lambda>h1. Inr (freep h1, h1)))"

text \<open>The block that \<open>malloc\<close> found, behind \<open>prevp\<close>: all of it, or its tail.\<close>

definition take_block :: "u32 \<Rightarrow> u32 \<Rightarrow> u32 \<Rightarrow> heap \<Rightarrow> u32 \<times> heap" where
  "take_block nunits prevp p h =
    (if hsize h p = nunits then (p + HEADER, (set_ptr prevp (hptr h p) h)\<lparr>freep := prevp\<rparr>)
     else
       let h1 = set_size p (hsize h p - nunits) h; q = after p h1
       in (q + HEADER, (set_size q nunits h1)\<lparr>freep := prevp\<rparr>))"

partial_function (option) malloc_loop :: "(u32 \<Rightarrow> u32 \<Rightarrow> u32 option) \<Rightarrow> u32 \<Rightarrow> u32 \<Rightarrow> u32 \<Rightarrow> heap \<Rightarrow> (kerr + u32 \<times> heap) option" where
  "malloc_loop sbrk nunits prevp p h =
    (if hsize h p \<ge> nunits then Some (Inr (take_block nunits prevp p h))
     else if p = freep h then
       (case morecore sbrk nunits h of
          Inl e \<Rightarrow> Some (Inl e)
        | Inr (q, h1) \<Rightarrow> if q = 0 then Some (Inr (0, h1)) else malloc_loop sbrk nunits q (hptr h1 q) h1)
     else malloc_loop sbrk nunits p (hptr h p) h)"

definition nunits_of :: "u32 \<Rightarrow> u32" where
  "nunits_of nbytes = (nbytes + HEADER - 1) div HEADER + 1"

definition start :: "heap \<Rightarrow> heap" where
  "start h = (if freep h = 0 then (set_size (hbase h) 0 (set_ptr (hbase h) (hbase h) h))\<lparr>freep := hbase h\<rparr> else h)"

definition malloc :: "(u32 \<Rightarrow> u32 \<Rightarrow> u32 option) \<Rightarrow> u32 \<Rightarrow> heap \<Rightarrow> kerr + u32 \<times> heap" where
  "malloc sbrk nbytes h =
    (let h1 = start h in
     case malloc_loop sbrk (nunits_of nbytes) (freep h1) (hptr h1 (freep h1)) h1 of
       None \<Rightarrow> Inl Diverges
     | Some r \<Rightarrow> r)"

section \<open>The ring of free blocks\<close>

lemma set_simps [simp]:
  "hptr (set_ptr p q h) = (hptr h)(p := q)" "hsize (set_ptr p q h) = hsize h" "freep (set_ptr p q h) = freep h" "brk (set_ptr p q h) = brk h"
  "hbase (set_ptr p q h) = hbase h"
  "hptr (set_size p n h) = hptr h" "hsize (set_size p n h) = (hsize h)(p := n)" "freep (set_size p n h) = freep h" "brk (set_size p n h) = brk h"
  "hbase (set_size p n h) = hbase h"
  by (simp_all add: set_ptr_def set_size_def)

text \<open>The pointers lead from \<open>p\<close> through \<open>xs\<close> to \<open>q\<close>.\<close>

fun ring :: "heap \<Rightarrow> u32 \<Rightarrow> u32 list \<Rightarrow> u32 \<Rightarrow> bool" where
  "ring h p [] q \<longleftrightarrow> hptr h p = q"
| "ring h p (x # xs) q \<longleftrightarrow> hptr h p = x \<and> ring h x xs q"

lemma ring_append [simp]: "ring h p (xs @ y # ys) q \<longleftrightarrow> ring h p xs y \<and> ring h y ys q"
  by (induction xs arbitrary: p) auto

lemma ring_next: "ring h p (us @ vs) q \<Longrightarrow> hptr h (last (p # us)) = hd (vs @ [q])"
  by (induction us arbitrary: p) (cases vs, auto)

lemma ring_cong: "\<forall>x \<in> set (p # xs). hptr h' x = hptr h x \<Longrightarrow> ring h' p xs q = ring h p xs q"
  by (induction xs arbitrary: p) auto

lemma ring_redirect: "ring h p xs q \<Longrightarrow> distinct (p # xs) \<Longrightarrow> (\<forall>x \<in> set (butlast (p # xs)). hptr h' x = hptr h x) \<Longrightarrow>
   hptr h' (last (p # xs)) = r \<Longrightarrow> ring h' p xs r"
  by (induction xs arbitrary: p) auto

lemma butlast_not_last: "distinct (b # xs) \<Longrightarrow> y \<in> set (butlast (b # xs)) \<Longrightarrow> y \<noteq> last (b # xs)"
  by (metis append_butlast_last_id distinct_append disjoint_insert(1) list.distinct(1) list.simps(15))

text \<open>\<open>bend\<close> is the end of a block. The free blocks are linked from the static header in the order of their addresses and back to it; two of them never touch.\<close>

definition bend :: "heap \<Rightarrow> u32 \<Rightarrow> nat" where
  "bend h p = unat p + 8 * unat (hsize h p)"

text \<open>A block lies behind the static header and before the end of the process.\<close>

definition block_ok :: "heap \<Rightarrow> u32 \<Rightarrow> bool" where
  "block_ok h b \<longleftrightarrow> unat (hbase h) + 8 \<le> unat b \<and> 0 < unat (hsize h b) \<and> bend h b \<le> unat (brk h)"

definition apart :: "heap \<Rightarrow> u32 \<Rightarrow> u32 \<Rightarrow> bool" where
  "apart h a b \<longleftrightarrow> bend h a \<le> unat b \<or> bend h b \<le> unat a"

definition heap_ok :: "heap \<Rightarrow> u32 list \<Rightarrow> u32 set \<Rightarrow> bool" where
  "heap_ok h ps A \<longleftrightarrow> hbase h \<noteq> 0 \<and> freep h \<in> set (hbase h # ps) \<and> hsize h (hbase h) = 0 \<and> ring h (hbase h) ps (hbase h) \<and>
     sorted_wrt (\<lambda>a b. bend h a < unat b) ps \<and>
     (\<forall>b \<in> set ps \<union> A. block_ok h b) \<and> (\<forall>a \<in> A. \<forall>b \<in> set ps \<union> A. a \<noteq> b \<longrightarrow> apart h a b) \<and> A \<inter> set ps = {} \<and> unat (brk h) < 2 ^ 31 \<and>
     unat (hbase h) + 8 \<le> unat (brk h)"

lemma heap_okD:
  assumes "heap_ok h ps A"
  shows "hbase h \<noteq> 0" and "freep h \<in> set (hbase h # ps)" and "hsize h (hbase h) = 0" and "ring h (hbase h) ps (hbase h)"
    and "sorted_wrt (\<lambda>a b. bend h a < unat b) ps" and "b \<in> set ps \<or> b \<in> A \<Longrightarrow> block_ok h b"
    and "a \<in> A \<Longrightarrow> b \<in> set ps \<or> b \<in> A \<Longrightarrow> a \<noteq> b \<Longrightarrow> apart h a b" and "A \<inter> set ps = {}" and "unat (brk h) < 2 ^ 31"
    and "unat (hbase h) + 8 \<le> unat (brk h)"
  using assms unfolding heap_ok_def by blast+

lemma heap_distinct:
  assumes "heap_ok h ps A"
  shows "distinct (hbase h # ps)" and "sorted_wrt (\<lambda>a b. unat a < unat b) (hbase h # ps)"
proof -
  have lt: "unat (hbase h) < unat b" if "b \<in> set ps" for b using heap_okD(6) [OF assms, of b] that by (simp add: block_ok_def)
  have "sorted_wrt (\<lambda>a b. unat a < unat b) ps" by (rule sorted_wrt_mono_rel [OF _ heap_okD(5) [OF assms]]) (auto simp: bend_def)
  then show s: "sorted_wrt (\<lambda>a b. unat a < unat b) (hbase h # ps)" using lt by simp
  have "distinct xs" if "sorted_wrt (\<lambda>a b. unat a < unat b) xs" for xs :: "u32 list" using that by (induction xs) auto
  then show "distinct (hbase h # ps)" using s by blast
qed

lemma after_eq: "bend h p < 2 ^ 32 \<Longrightarrow> unat (after p h) = bend h p"
proof -
  assume b: "bend h p < 2 ^ 32"
  then have "unat (HEADER * hsize h p) = 8 * unat (hsize h p)" by (simp add: HEADER_def bend_def unat_word_ariths)
  then show ?thesis using b by (simp add: after_def bend_def unat_word_ariths)
qed

section \<open>The search for the place of a block\<close>

lemma free_search_low:
  assumes "ring h b (us @ vs @ ys) b" and "\<forall>x \<in> set (b # us @ vs). unat x < unat bp" and "\<forall>y \<in> set ys. unat bp < unat y"
    and "sorted_wrt (\<lambda>a c. unat a < unat c) (b # us @ vs @ ys)"
  shows "free_search bp (last (b # us)) h = Some (last (b # us @ vs))"
  using assms
proof (induction vs arbitrary: us)
  case Nil
  let ?p = "last (b # us)"
  have p: "?p \<in> set (b # us)" by (rule last_in_set) simp
  then have lt: "unat ?p < unat bp" "unat b \<le> unat ?p" using Nil.prems(2,4) by (auto intro: less_imp_le split: if_splits)
  have n: "hptr h ?p = hd (ys @ [b])" using ring_next [of h b us ys b] Nil.prems(1) by simp
  show ?case
  proof (cases ys)
    case Nil
    then show ?thesis using n lt by (subst free_search.simps) (simp add: word_less_nat_alt word_le_nat_alt)
  next
    case (Cons y ys')
    then have "unat bp < unat y" using Nil.prems(3) by simp
    then show ?thesis using n lt Cons by (subst free_search.simps) (simp add: word_less_nat_alt)
  qed
next
  case (Cons v vs)
  let ?p = "last (b # us)"
  have p: "?p \<in> set (b # us)" by (rule last_in_set) simp
  have n: "hptr h ?p = v" using ring_next [of h b us "(v # vs) @ ys" b] Cons.prems(1) by simp
  have lt: "unat ?p < unat v" "unat v < unat bp" using p Cons.prems(2,4) by (auto simp: sorted_wrt_append)
  have "free_search bp (last (b # us @ [v])) h = Some (last (b # (us @ [v]) @ vs))" using Cons.IH [of "us @ [v]"] Cons.prems by simp
  then show ?case using n lt by (subst free_search.simps) (simp add: word_less_nat_alt word_le_nat_alt)
qed

lemma free_search_high:
  assumes "ring h b (xs @ us @ vs) b" and "\<forall>x \<in> set (b # xs). unat x < unat bp" and "\<forall>y \<in> set (us @ vs). unat bp < unat y"
    and "sorted_wrt (\<lambda>a c. unat a < unat c) (b # xs @ us @ vs)" and "us \<noteq> []"
  shows "free_search bp (last us) h = Some (last (b # xs))"
  using assms
proof (induction vs arbitrary: us)
  case Nil
  let ?p = "last us"
  have lt: "unat bp < unat ?p" "unat b < unat bp" using Nil.prems(2,3,5) by auto
  have n: "hptr h ?p = b" using ring_next [of h b "xs @ us" "[]" b] Nil.prems(1,5) by simp
  have "free_search bp (last (b # [])) h = Some (last (b # [] @ xs))"
    by (rule free_search_low [where ys = us]) (use Nil.prems in auto)
  then show ?case using n lt by (subst free_search.simps) (simp add: word_less_nat_alt word_le_nat_alt)
next
  case (Cons v vs)
  let ?p = "last us"
  have n: "hptr h ?p = v" using ring_next [of h b "xs @ us" "v # vs" b] Cons.prems(1,5) by simp
  have "?p \<in> set us" using Cons.prems(5) by simp
  then have lt: "unat ?p < unat v" "unat bp < unat ?p" using Cons.prems(3,4) by (auto simp: sorted_wrt_append)
  have "free_search bp (last (us @ [v])) h = Some (last (b # xs))" using Cons.IH [of "us @ [v]"] Cons.prems by simp
  then show ?case using n lt by (subst free_search.simps) (simp add: word_less_nat_alt word_le_nat_alt)
qed

lemma free_search_finds:
  assumes c: "ring h b (xs @ ys) b" and lo: "\<forall>x \<in> set (b # xs). unat x < unat bp" and hi: "\<forall>y \<in> set ys. unat bp < unat y"
    and s: "sorted_wrt (\<lambda>a c. unat a < unat c) (b # xs @ ys)" and f: "f \<in> set (b # xs @ ys)"
  shows "free_search bp f h = Some (last (b # xs))"
proof (cases "f \<in> set (b # xs)")
  case True
  then obtain us vs where uv: "b # xs = us @ f # vs" by (meson split_list)
  then have "\<exists>us'. xs = us' @ vs \<and> f = last (b # us')" by (cases us) auto
  then obtain us' where u: "xs = us' @ vs" "f = last (b # us')" by blast
  show ?thesis unfolding u by (rule free_search_low [where ys = ys]) (use c lo hi s u in auto)
next
  case False
  then have "f \<in> set ys" using f by auto
  then obtain us vs where uv: "ys = us @ f # vs" by (meson split_list)
  have "free_search bp (last (us @ [f])) h = Some (last (b # xs))"
    by (rule free_search_high [where vs = vs]) (use c lo hi s uv in auto)
  then show ?thesis by simp
qed

section \<open>Freeing\<close>

lemma ring_relink:
  assumes "ring h b (xs @ ys) b" and "distinct (b # xs)" and "\<forall>x \<in> set (butlast (b # xs)). hptr h' x = hptr h x"
    and "hptr h' (last (b # xs)) = hd (zs @ [b])" and "zs \<noteq> [] \<Longrightarrow> ring h' (hd zs) (tl zs) b"
  shows "ring h' b (xs @ zs) b"
proof -
  have "\<exists>q. ring h b xs q" using assms(1) by (cases ys) auto
  then obtain q where "ring h b xs q" ..
  then have "ring h' b xs (hd (zs @ [b]))" using ring_redirect assms(2-4) by blast
  then show ?thesis using assms(5) by (cases zs) auto
qed

lemma ring_suffix: "ring h b (xs @ ys) c \<Longrightarrow> ys \<noteq> [] \<Longrightarrow> ring h (hd ys) (tl ys) c"
  by (cases ys) auto

text \<open>Joining with the block above: it disappears from the ring when it touches.\<close>

lemma join_up_ok:
  assumes ok: "heap_ok h (xs @ ys) A" and b: "b \<in> A" and hi: "\<forall>y \<in> set ys. unat b < unat y" and p: "p = last (hbase h # xs)"
  obtains ds zs n where "ys = ds @ zs" and "join_up b p h = set_ptr b (hd (zs @ [hbase h])) (set_size b n h)"
    and "unat b + 8 * unat n \<le> unat (brk h)" and "unat (hsize h b) \<le> unat n" and "\<forall>z \<in> set zs. unat b + 8 * unat n < unat z"
    and "\<forall>a \<in> A \<union> set xs. a \<noteq> b \<longrightarrow> bend h a \<le> unat b \<or> unat b + 8 * unat n \<le> unat a"
proof -
  note d = heap_okD [OF ok]
  have q: "hptr h p = hd (ys @ [hbase h])" using ring_next [OF d(4)] p by simp
  have bb: "block_ok h b" using d(6) b by blast
  then have ub: "unat (after b h) = bend h b" using d(9) by (intro after_eq) (simp add: block_ok_def)
  have ap: "bend h b \<le> unat y" if "y \<in> set ys" for y
    using d(7) [OF b, of y] d(8) hi that b by (fastforce simp: apart_def bend_def)
  have ax: "bend h a \<le> unat b \<or> bend h b \<le> unat a" if "a \<in> A \<union> set xs" "a \<noteq> b" for a
    using d(7) [OF b, of a] that by (auto simp: apart_def)
  show ?thesis
  proof (cases "after b h = hptr h p")
    case True
    have "ys \<noteq> []"
    proof
      assume "ys = []"
      then have "bend h b = unat (hbase h)" using True q ub by simp
      then show False using bb by (simp add: block_ok_def bend_def)
    qed
    then obtain y zs where ys: "ys = y # zs" by (cases ys) auto
    then have y: "hptr h p = y" "bend h b = unat y" using q True ub by simp_all
    define n where "n = hsize h b + hsize h y"
    have oky: "block_ok h y" "y \<in> set ys" using d(6) ys by auto
    then have "8 * (unat (hsize h b) + unat (hsize h y)) < 2 ^ 31" using y(2) d(9) by (simp add: block_ok_def bend_def)
    then have n: "unat n = unat (hsize h b) + unat (hsize h y)" by (simp add: n_def unat_word_ariths)
    have e: "unat b + 8 * unat n = bend h y" using y(2) n by (simp add: bend_def)
    have nx: "hptr h y = hd (zs @ [hbase h])" using ring_next [of h "hbase h" "xs @ [y]" zs "hbase h"] d(4) ys by simp
    show ?thesis
    proof (rule that [of "[y]" zs n])
      show "join_up b p h = set_ptr b (hd (zs @ [hbase h])) (set_size b n h)" using True y nx by (simp add: join_up_def n_def Let_def)
      show "unat b + 8 * unat n \<le> unat (brk h)" using oky e by (simp add: block_ok_def)
      show "\<forall>z \<in> set zs. unat b + 8 * unat n < unat z" using d(5) ys e by (simp add: sorted_wrt_append)
      show "\<forall>a \<in> A \<union> set xs. a \<noteq> b \<longrightarrow> bend h a \<le> unat b \<or> unat b + 8 * unat n \<le> unat a"
      proof (intro ballI impI)
        fix a
        assume a: "a \<in> A \<union> set xs" "a \<noteq> b"
        have ok_a: "0 < unat (hsize h a)" using d(6) a by (auto simp: block_ok_def)
        have ay: "bend h a \<le> unat y \<or> bend h y \<le> unat a"
        proof (cases "a \<in> A")
          case True
          then have "a \<noteq> y" using d(8) ys by auto
          then show ?thesis using d(7) [OF True, of y] ys by (auto simp: apart_def)
        next
          case False
          then show ?thesis using a d(5) ys by (auto simp: sorted_wrt_append)
        qed
        then show "bend h a \<le> unat b \<or> unat b + 8 * unat n \<le> unat a" using ax [OF a] e y(2) ok_a by (auto simp: bend_def)
      qed
    qed (use ys n in auto)
  next
    case False
    show ?thesis
    proof (rule that [of "[]" ys "hsize h b"])
      show "join_up b p h = set_ptr b (hd (ys @ [hbase h])) (set_size b (hsize h b) h)"
        using False q by (simp add: join_up_def Let_def set_size_def)
      show "unat b + 8 * unat (hsize h b) \<le> unat (brk h)" using bb by (simp add: block_ok_def bend_def)
      show "\<forall>z \<in> set ys. unat b + 8 * unat (hsize h b) < unat z"
      proof
        fix z
        assume z: "z \<in> set ys"
        obtain y zs where ys: "ys = y # zs" using z by (cases ys) auto
        have "unat y \<noteq> bend h b" using False q ys ub by (auto simp: word_unat_eq_iff)
        moreover have "bend h b \<le> unat y" using ap ys by simp
        moreover have "unat y \<le> unat z" using heap_distinct(2) [OF ok] ys z by (auto simp: sorted_wrt_append)
        ultimately show "unat b + 8 * unat (hsize h b) < unat z" by (simp add: bend_def)
      qed
      show "\<forall>a \<in> A \<union> set xs. a \<noteq> b \<longrightarrow> bend h a \<le> unat b \<or> unat b + 8 * unat (hsize h b) \<le> unat a" using ax by (simp add: bend_def)
    qed auto
  qed
qed

definition freed :: "heap \<Rightarrow> u32 set \<Rightarrow> u32 \<Rightarrow> heap \<Rightarrow> bool" where
  "freed h A b h' \<longleftrightarrow> (\<exists>ps. heap_ok h' ps (A - {b}) \<and> (\<exists>c \<in> set ps. unat (hsize h b) \<le> unat (hsize h' c))) \<and>
     (\<forall>a \<in> A - {b}. hsize h' a = hsize h a) \<and> brk h' = brk h \<and> hbase h' = hbase h"

text \<open>The place of the block that is freed, and what joining upwards leaves: the blocks \<open>xs\<close> below, the blocks \<open>zs\<close> above, and \<open>n\<close> units at \<open>b\<close>.\<close>

definition placed_at :: "heap \<Rightarrow> u32 set \<Rightarrow> u32 \<Rightarrow> u32 list \<Rightarrow> u32 list \<Rightarrow> u32 \<Rightarrow> bool" where
  "placed_at h A b xs zs n \<longleftrightarrow> (\<exists>ds. heap_ok h (xs @ ds @ zs) A) \<and> b \<in> A \<and> (\<forall>x \<in> set (hbase h # xs). unat x < unat b) \<and>
     unat b + 8 * unat n \<le> unat (brk h) \<and> unat (hsize h b) \<le> unat n \<and> (\<forall>z \<in> set zs. unat b + 8 * unat n < unat z) \<and>
     (\<forall>a \<in> A \<union> set xs. a \<noteq> b \<longrightarrow> bend h a \<le> unat b \<or> unat b + 8 * unat n \<le> unat a)"

lemma placed_atD:
  assumes "placed_at h A b xs zs n"
  obtains ds where "heap_ok h (xs @ ds @ zs) A" and "distinct (hbase h # xs @ ds @ zs)" and "b \<notin> set (hbase h # xs @ ds @ zs)" and "block_ok h b"
    and "\<forall>x \<in> set xs. bend h x \<le> unat b" and "\<forall>x \<in> set xs. \<forall>z \<in> set zs. bend h x < unat z" and "sorted_wrt (\<lambda>a b. bend h a < unat b) xs"
    and "sorted_wrt (\<lambda>a b. bend h a < unat b) zs"
proof -
  note p = assms [unfolded placed_at_def]
  then obtain ds where ok: "heap_ok h (xs @ ds @ zs) A" by blast
  note d = heap_okD [OF ok]
  have bb: "block_ok h b" using d(6) p by blast
  moreover have nb: "b \<notin> set (hbase h # xs @ ds @ zs)" using d(8) p bb by (auto simp: block_ok_def)
  moreover have "\<forall>x \<in> set xs. bend h x \<le> unat b"
  proof
    fix x
    assume x: "x \<in> set xs"
    then have "x \<noteq> b" "unat x < unat b" using nb p by auto
    then show "bend h x \<le> unat b" using p x by (meson UnI2 le_add1 le_trans not_le)
  qed
  ultimately show ?thesis using that [OF ok heap_distinct(1) [OF ok]] d(5) by (simp add: sorted_wrt_append)
qed

lemma join_chain:
  assumes p: "placed_at h A b xs zs n" and same: "\<And>x. x \<noteq> b \<Longrightarrow> x \<noteq> last (hbase h # xs) \<Longrightarrow> hptr h' x = hptr h x"
  shows "hptr h' (last (hbase h # xs)) = hd (zs @ [hbase h]) \<Longrightarrow> ring h' (hbase h) (xs @ zs) (hbase h)"
    and "hptr h' (last (hbase h # xs)) = b \<Longrightarrow> hptr h' b = hd (zs @ [hbase h]) \<Longrightarrow> ring h' (hbase h) (xs @ b # zs) (hbase h)"
proof -
  let ?B = "hbase h"
  obtain ds where ok: "heap_ok h (xs @ ds @ zs) A" and dis: "distinct (?B # xs @ ds @ zs)" and nb: "b \<notin> set (?B # xs @ ds @ zs)"
    using p by (rule placed_atD)
  note d = heap_okD [OF ok]
  have lst: "last (?B # xs) \<in> set (?B # xs)" by (rule last_in_set) simp
  then have lz: "last (?B # xs) \<notin> set zs" using dis by auto
  have pre: "\<forall>x \<in> set (butlast (?B # xs)). hptr h' x = hptr h x"
  proof
    fix x
    assume x: "x \<in> set (butlast (?B # xs))"
    have "x \<noteq> last (?B # xs)" by (rule butlast_not_last [OF _ x]) (use dis in auto)
    moreover have "x \<noteq> b" using in_set_butlastD [OF x] nb by auto
    ultimately show "hptr h' x = hptr h x" by (rule same [rotated])
  qed
  have suf: "ring h' (hd zs) (tl zs) ?B" if "zs \<noteq> []"
  proof -
    have "ring h (hd zs) (tl zs) ?B" using ring_suffix [of h ?B "xs @ ds" zs ?B] d(4) that by simp
    moreover have "\<forall>x \<in> set zs. hptr h' x = hptr h x"
    proof
      fix x
      assume "x \<in> set zs"
      then show "hptr h' x = hptr h x" using lz nb by (intro same) (auto simp del: last.simps)
    qed
    then have "\<forall>x \<in> set (hd zs # tl zs). hptr h' x = hptr h x" using that by simp
    ultimately show ?thesis using ring_cong by blast
  qed
  show "ring h' ?B (xs @ zs) ?B" if "hptr h' (last (?B # xs)) = hd (zs @ [?B])"
    by (rule ring_relink [OF d(4) _ pre that suf]) (use dis in auto)
  show "ring h' ?B (xs @ b # zs) ?B" if "hptr h' (last (?B # xs)) = b" "hptr h' b = hd (zs @ [?B])"
  proof (rule ring_relink [OF d(4) _ pre])
    show "ring h' (hd (b # zs)) (tl (b # zs)) ?B" using that(2) suf by (cases zs) auto
  qed (use dis that(1) in auto)
qed

text \<open>The block stays apart from the block below.\<close>

lemma freed_apart:
  assumes p: "placed_at h A b xs zs n" and ne: "bend h (last (hbase h # xs)) \<noteq> unat b"
    and h': "hptr h' = (hptr h)(b := hd (zs @ [hbase h]), last (hbase h # xs) := b)" "hsize h' = (hsize h)(b := n)"
      "freep h' = last (hbase h # xs)" "brk h' = brk h" "hbase h' = hbase h"
  shows "freed h A b h'"
proof -
  note P = p [unfolded placed_at_def]
  obtain ds where o: "heap_ok h (xs @ ds @ zs) A" "distinct (hbase h # xs @ ds @ zs)" "b \<notin> set (hbase h # xs @ ds @ zs)" "block_ok h b"
    "\<forall>x \<in> set xs. bend h x \<le> unat b" "\<forall>x \<in> set xs. \<forall>z \<in> set zs. bend h x < unat z" "sorted_wrt (\<lambda>a b. bend h a < unat b) xs"
    "sorted_wrt (\<lambda>a b. bend h a < unat b) zs" using p by (rule placed_atD)
  note d = heap_okD [OF o(1)]
  have lst: "last (hbase h # xs) \<in> set (hbase h # xs)" by (rule last_in_set) simp
  then have lb: "last (hbase h # xs) \<noteq> b" using o(3) by auto
  have be: "bend h' a = (if a = b then unat b + 8 * unat n else bend h a)" for a by (simp add: bend_def h'(2))
  have xlt: "bend h x < unat b" if "x \<in> set xs" for x
  proof (cases "x = last xs")
    case True
    then show ?thesis using o(5) ne that by (cases xs) (auto simp: le_less)
  next
    case False
    have e: "xs = butlast xs @ [last xs]" using that by (metis append_butlast_last_id empty_iff empty_set)
    then have "x \<in> set (butlast xs)" using that False by (metis UnE empty_iff empty_set set_ConsD set_append)
    moreover have "\<forall>y \<in> set (butlast xs). bend h y < unat (last xs)" using o(7) by (subst (asm) e) (simp add: sorted_wrt_append)
    moreover have "unat (last xs) < unat b" using P that by (cases xs) auto
    ultimately show ?thesis by fastforce
  qed
  have bo: "block_ok h' a" if "a \<in> set (xs @ b # zs) \<union> (A - {b})" for a
    using that d(6) [of a] o(4) P by (auto simp: block_ok_def be h')
  have "heap_ok h' (xs @ b # zs) (A - {b})"
    unfolding heap_ok_def
  proof (intro conjI)
    show "ring h' (hbase h') (xs @ b # zs) (hbase h')" unfolding h'(5)
      by (rule join_chain(2) [OF p]) (simp_all add: h'(1) lb lb [symmetric] del: last.simps)
    show "sorted_wrt (\<lambda>a c. bend h' a < unat c) (xs @ b # zs)"
      using o xlt P by (auto simp: sorted_wrt_append be elim!: sorted_wrt_mono_rel [rotated])
    show "\<forall>a \<in> A - {b}. \<forall>c \<in> set (xs @ b # zs) \<union> (A - {b}). a \<noteq> c \<longrightarrow> apart h' a c"
    proof (intro ballI impI)
      fix a c
      assume a: "a \<in> A - {b}" and c: "c \<in> set (xs @ b # zs) \<union> (A - {b})" and "a \<noteq> c"
      show "apart h' a c"
      proof (cases "c = b")
        case True
        then show ?thesis using P a by (auto simp: apart_def be)
      next
        case False
        then show ?thesis using d(7) [of a c] a c \<open>a \<noteq> c\<close> by (auto simp: apart_def be)
      qed
    qed
    show "\<forall>a \<in> set (xs @ b # zs) \<union> (A - {b}). block_ok h' a" using bo by blast
  qed (use d o lst in \<open>auto simp: h'\<close>)
  then show ?thesis using P unfolding freed_def h' by (intro conjI exI [of _ "xs @ b # zs"]) auto
qed

text \<open>The block joins the block below.\<close>

lemma freed_joined:
  assumes p: "placed_at h A b (us @ [q]) zs n" and e: "bend h q = unat b"
    and h': "hptr h' = (hptr h)(b := hd (zs @ [hbase h]), q := hd (zs @ [hbase h]))" "hsize h' = (hsize h)(b := n, q := hsize h q + n)"
      "freep h' = q" "brk h' = brk h" "hbase h' = hbase h"
  shows "freed h A b h'"
proof -
  note P = p [unfolded placed_at_def]
  obtain ds where o: "heap_ok h ((us @ [q]) @ ds @ zs) A" "distinct (hbase h # (us @ [q]) @ ds @ zs)" "b \<notin> set (hbase h # (us @ [q]) @ ds @ zs)" "block_ok h b"
    "\<forall>x \<in> set (us @ [q]). bend h x \<le> unat b" "\<forall>x \<in> set (us @ [q]). \<forall>z \<in> set zs. bend h x < unat z" "sorted_wrt (\<lambda>a b. bend h a < unat b) (us @ [q])"
    "sorted_wrt (\<lambda>a b. bend h a < unat b) zs" using p by (rule placed_atD)
  note d = heap_okD [OF o(1)]
  have "8 * (unat (hsize h q) + unat n) < 2 ^ 31" using P e d(9) by (simp add: bend_def)
  then have un: "unat (hsize h q + n) = unat (hsize h q) + unat n" by (simp add: unat_word_ariths)
  have be: "bend h' a = (if a = q then unat b + 8 * unat n else bend h a)" if "a \<noteq> b" for a using e un that by (simp add: bend_def h'(2))
  have qb: "q \<noteq> b" "b \<notin> set us" "b \<notin> set zs" using o(3) by auto
  have qd: "q \<notin> set us" "q \<notin> set zs" "q \<noteq> hbase h" "hbase h \<notin> set us" using o(2) by auto
  have bo: "block_ok h' a" if "a \<in> set ((us @ [q]) @ zs) \<union> (A - {b})" for a
  proof (cases "a = q")
    case True
    have "block_ok h q" using d(6) by simp
    then show ?thesis using P True qb un be [of q] by (simp add: block_ok_def h')
  next
    case False
    then have "a \<noteq> b" "block_ok h a" using that qb d(6) by auto
    then show ?thesis using False be [of a] by (simp add: block_ok_def h')
  qed
  have "heap_ok h' ((us @ [q]) @ zs) (A - {b})"
    unfolding heap_ok_def
  proof (intro conjI)
    show "ring h' (hbase h') ((us @ [q]) @ zs) (hbase h')" unfolding h'(5)
      by (rule join_chain(1) [OF p]) (simp_all add: h'(1))
    have other: "bend h' x = bend h x" if "x \<in> set us \<union> set zs" for x
    proof -
      have "x \<noteq> b" "x \<noteq> q" using that qb qd by auto
      then show ?thesis using be by simp
    qed
    have bq: "bend h' q = unat b + 8 * unat n" using be [of q] qb by simp
    have "sorted_wrt (\<lambda>a c. bend h' a < unat c) us" "sorted_wrt (\<lambda>a c. bend h' a < unat c) zs"
      using o(7,8) other by (auto simp: sorted_wrt_append elim!: sorted_wrt_mono_rel [rotated])
    then show "sorted_wrt (\<lambda>a c. bend h' a < unat c) ((us @ [q]) @ zs)"
      using o(6,7) P by (auto simp: sorted_wrt_append other bq)
    show "\<forall>a \<in> A - {b}. \<forall>c \<in> set ((us @ [q]) @ zs) \<union> (A - {b}). a \<noteq> c \<longrightarrow> apart h' a c"
    proof (intro ballI impI)
      fix a c
      assume a: "a \<in> A - {b}" and c: "c \<in> set ((us @ [q]) @ zs) \<union> (A - {b})" and "a \<noteq> c"
      have aq: "a \<noteq> q" "c \<noteq> b" and pos: "0 < unat (hsize h a)" using d(6,8) a c qb by (auto simp: block_ok_def)
      have ac: "apart h a c" using d(7) [of a c] a c \<open>a \<noteq> c\<close> by auto
      show "apart h' a c"
      proof (cases "c = q")
        case True
        have "bend h a \<le> unat b \<or> unat b + 8 * unat n \<le> unat a" using P a by auto
        then show ?thesis using True ac a aq e be [of a] be [of q] qb pos by (auto simp: apart_def bend_def)
      next
        case False
        then show ?thesis using ac aq a be [of a] be [of c] by (auto simp: apart_def)
      qed
    qed
    show "\<forall>a \<in> set ((us @ [q]) @ zs) \<union> (A - {b}). block_ok h' a" using bo by blast
  qed (use d o qb qd in \<open>auto simp: h'\<close>)
  then show ?thesis using P d(8) un qb unfolding freed_def h' by (intro conjI exI [of _ "(us @ [q]) @ zs"]) auto
qed

lemma free_place:
  assumes ok: "heap_ok h ps A" and b: "b \<in> A"
  obtains xs zs n where "placed_at h A b xs zs n" and "free_search b (freep h) h = Some (last (hbase h # xs))"
    and "join_up b (last (hbase h # xs)) h = set_ptr b (hd (zs @ [hbase h])) (set_size b n h)"
proof -
  note d = heap_okD [OF ok]
  define xs where "xs = takeWhile (\<lambda>x. unat x < unat b) ps"
  define ys where "ys = dropWhile (\<lambda>x. unat x < unat b) ps"
  have ps: "ps = xs @ ys" by (simp add: xs_def ys_def)
  have bb: "block_ok h b" "b \<notin> set ps" using d(6,8) b by auto
  have s: "sorted_wrt (\<lambda>a b. unat a < unat b) (hbase h # xs @ ys)" using heap_distinct(2) [OF ok] ps by simp
  have lo: "\<forall>x \<in> set (hbase h # xs). unat x < unat b"
    using bb(1) set_takeWhileD [of _ "\<lambda>x. unat x < unat b" ps] by (auto simp: xs_def block_ok_def)
  have hi: "\<forall>y \<in> set ys. unat b < unat y"
  proof
    fix y
    assume y: "y \<in> set ys"
    obtain z zs where z: "ys = z # zs" using y by (cases ys) auto
    have "\<not> unat z < unat b" using z unfolding ys_def dropWhile_eq_Cons_conv by blast
    moreover have "unat z \<le> unat y" using s z y by (auto simp: sorted_wrt_append)
    moreover have "unat y \<noteq> unat b" using bb(2) y ps by (auto simp: word_unat_eq_iff [symmetric])
    ultimately show "unat b < unat y" by simp
  qed
  have srch: "free_search b (freep h) h = Some (last (hbase h # xs))"
    by (rule free_search_finds [OF d(4) [unfolded ps] lo hi s]) (use d(2) ps in simp)
  show ?thesis
  proof (rule join_up_ok [OF ok [unfolded ps] b hi refl])
    fix ds zs n
    assume "ys = ds @ zs" "join_up b (last (hbase h # xs)) h = set_ptr b (hd (zs @ [hbase h])) (set_size b n h)"
      "unat b + 8 * unat n \<le> unat (brk h)" "unat (hsize h b) \<le> unat n" "\<forall>z \<in> set zs. unat b + 8 * unat n < unat z"
      "\<forall>a \<in> A \<union> set xs. a \<noteq> b \<longrightarrow> bend h a \<le> unat b \<or> unat b + 8 * unat n \<le> unat a"
    then show ?thesis using that [of xs zs n] srch ok ps b lo by (auto simp: placed_at_def simp del: last.simps)
  qed
qed

lemma free_ok:
  assumes ok: "heap_ok h ps A" and b: "b \<in> A"
  shows "succeeds (free (b + HEADER) h) (freed h A b)"
proof -
  obtain xs zs n where p: "placed_at h A b xs zs n" "free_search b (freep h) h = Some (last (hbase h # xs))"
    "join_up b (last (hbase h # xs)) h = set_ptr b (hd (zs @ [hbase h])) (set_size b n h)" using free_place [OF ok b] by blast
  let ?p = "last (hbase h # xs)" and ?h1 = "set_ptr b (hd (zs @ [hbase h])) (set_size b n h)"
  obtain ds where o: "heap_ok h (xs @ ds @ zs) A" "b \<notin> set (hbase h # xs @ ds @ zs)" using p(1) by (rule placed_atD)
  note d = heap_okD [OF o(1)]
  have pm: "?p \<in> set (hbase h # xs)" by (rule last_in_set) simp
  then have pb: "?p \<noteq> b" using o(2) by auto
  have "bend h ?p < 2 ^ 32"
  proof (cases "xs = []")
    case True
    then show ?thesis using d(3) unsigned_less [of "hbase h", where 'a = nat] by (simp add: bend_def)
  next
    case False
    then have "block_ok h ?p" using d(6) by simp
    then show ?thesis using d(9) by (simp add: block_ok_def)
  qed
  then have af: "unat (after ?p ?h1) = bend h ?p" using after_eq [of h ?p] pb by (simp add: after_def)
  have f: "free (b + HEADER) h = Inr ((join_down b ?p ?h1)\<lparr>freep := ?p\<rparr>)" using p by (simp add: free_def Let_def del: last.simps)
  have "freed h A b ((join_down b ?p ?h1)\<lparr>freep := ?p\<rparr>)"
  proof (cases "after ?p ?h1 = b")
    case True
    then have e: "bend h ?p = unat b" using af by simp
    have "xs \<noteq> []" using e d(3) o(2) by (auto simp: bend_def word_unat_eq_iff)
    then obtain us q where us: "xs = us @ [q]" by (metis append_butlast_last_id)
    have "freed h A b ((join_down b q ?h1)\<lparr>freep := q\<rparr>)"
      by (rule freed_joined [OF p(1) [unfolded us]]) (use True e pb us in \<open>auto simp: join_down_def\<close>)
    then show ?thesis using us by simp
  next
    case False
    then have "bend h ?p \<noteq> unat b" using af by (auto simp: word_unat_eq_iff)
    then show ?thesis by (rule freed_apart [OF p(1)]) (use False in \<open>auto simp: join_down_def simp del: last.simps\<close>)
  qed
  then show ?thesis using f by simp
qed

section \<open>More memory\<close>

text \<open>What the allocator relies on of the kernel: a grant of \<open>n\<close> bytes moves the end of the process by \<open>n\<close> and keeps it in the lower half of the addresses.\<close>

locale heap_source =
  fixes sbrk :: "u32 \<Rightarrow> u32 \<Rightarrow> u32 option"
  assumes grant: "sbrk b n = Some b' \<Longrightarrow> unat b < 2 ^ 31 \<Longrightarrow> unat n < 2 ^ 31 \<Longrightarrow> unat b' = unat b + unat n \<and> unat b' < 2 ^ 31"

lemma new_block_ok:
  assumes ok: "heap_ok h ps A" and b: "unat b = unat (brk h) + 8 * unat n" "unat b < 2 ^ 31" and n: "0 < unat n"
  defines "h1 \<equiv> set_size (brk h) n (h\<lparr>brk := b\<rparr>)"
  shows "heap_ok h1 ps (insert (brk h) A)" and "brk h \<notin> A" and "\<forall>a \<in> A. hsize h1 a = hsize h a"
proof -
  note d = heap_okD [OF ok]
  have lt: "unat c < unat (brk h)" "bend h c \<le> unat (brk h)" if "c \<in> set ps \<or> c \<in> A" for c
    using d(6) [OF that] by (auto simp: block_ok_def bend_def)
  have new: "brk h \<notin> set ps" "brk h \<notin> A" "brk h \<noteq> hbase h" using lt d(10) by fastforce+
  show "brk h \<notin> A" by (rule new(2))
  have sel: "hptr h1 = hptr h" "hsize h1 = (hsize h)(brk h := n)" "freep h1 = freep h" "brk h1 = b" "hbase h1 = hbase h" by (simp_all add: h1_def)
  show "\<forall>a \<in> A. hsize h1 a = hsize h a" using new by (auto simp: sel)
  have be: "bend h1 c = bend h c" if "c \<in> set ps \<or> c \<in> A" for c using that new by (auto simp: bend_def sel)
  have bn: "bend h1 (brk h) = unat b" by (simp add: bend_def sel b(1))
  have bo: "block_ok h1 c" if "c \<in> set ps \<union> insert (brk h) A" for c
  proof (cases "c = brk h")
    case True
    then show ?thesis using d(10) n bn by (simp add: block_ok_def sel)
  next
    case False
    then have c: "c \<in> set ps \<or> c \<in> A" using that by auto
    then show ?thesis using d(6) [OF c] be [OF c] False b(1) by (auto simp: block_ok_def sel)
  qed
  show "heap_ok h1 ps (insert (brk h) A)"
    unfolding heap_ok_def
  proof (intro conjI)
    show "ring h1 (hbase h1) ps (hbase h1)" using d(4) ring_cong [of "hbase h" ps h1 h] by (simp add: sel)
    show "sorted_wrt (\<lambda>a c. bend h1 a < unat c) ps" by (rule sorted_wrt_mono_rel [OF _ d(5)]) (simp add: be)
    show "\<forall>c \<in> set ps \<union> insert (brk h) A. block_ok h1 c" using bo by blast
    show "\<forall>a \<in> insert (brk h) A. \<forall>c \<in> set ps \<union> insert (brk h) A. a \<noteq> c \<longrightarrow> apart h1 a c"
    proof (intro ballI impI)
      fix a c
      assume a: "a \<in> insert (brk h) A" and c: "c \<in> set ps \<union> insert (brk h) A" and ne: "a \<noteq> c"
      show "apart h1 a c"
      proof (cases "a = brk h \<or> c = brk h")
        case True
        then show ?thesis using lt(2) [of a] lt(2) [of c] a c ne be by (auto simp: apart_def)
      next
        case False
        then show ?thesis using d(7) [of a c] a c ne be by (auto simp: apart_def)
      qed
    qed
  qed (use d new b in \<open>auto simp: sel\<close>)
qed

definition grown :: "heap \<Rightarrow> u32 set \<Rightarrow> u32 \<Rightarrow> heap \<Rightarrow> bool" where
  "grown h A nu h' \<longleftrightarrow> (\<exists>ps. heap_ok h' ps A \<and> (\<exists>c \<in> set ps. unat nu \<le> unat (hsize h' c))) \<and> (\<forall>a \<in> A. hsize h' a = hsize h a)"

context heap_source
begin

lemma morecore_ok:
  assumes ok: "heap_ok h ps A" and nu: "unat nu < 2 ^ 28"
  shows "succeeds (morecore sbrk nu h) (\<lambda>(q, h'). q = 0 \<and> h' = h \<or> q = freep h' \<and> grown h A nu h')"
proof (cases "sbrk (brk h) ((if nu < 4096 then 4096 else nu) * HEADER)")
  case None
  then show ?thesis by (simp add: morecore_def)
next
  case (Some b)
  note d = heap_okD [OF ok]
  define n where "n = (if nu < 4096 then 4096 else nu)"
  have n: "unat n < 2 ^ 28" "0 < unat n" "unat nu \<le> unat n" using nu by (auto simp: n_def word_less_nat_alt)
  then have "unat (n * HEADER) = 8 * unat n" by (simp add: HEADER_def unat_word_ariths)
  then have b: "unat b = unat (brk h) + 8 * unat n" "unat b < 2 ^ 31" using grant [OF Some [folded n_def] d(9)] n(1) by simp_all
  let ?h1 = "set_size (brk h) n (h\<lparr>brk := b\<rparr>)"
  note nb = new_block_ok [OF ok b n(2)]
  have "succeeds (free (brk h + HEADER) ?h1) (freed ?h1 (insert (brk h) A) (brk h))" using free_ok [OF nb(1)] by simp
  then obtain h2 where h2: "free (brk h + HEADER) ?h1 = Inr h2" "freed ?h1 (insert (brk h) A) (brk h) h2" by (auto simp: succeeds_iff)
  have "insert (brk h) A - {brk h} = A" using nb(2) by auto
  then have "grown h A nu h2" using h2(2) nb(3) n(3) unfolding freed_def grown_def by (auto intro: le_trans)
  moreover have "morecore sbrk nu h = Inr (freep h2, h2)" using Some h2(1) by (simp add: morecore_def n_def [symmetric] Let_def)
  ultimately show ?thesis by simp
qed

end

section \<open>Taking a block\<close>

definition taken :: "heap \<Rightarrow> u32 set \<Rightarrow> u32 \<Rightarrow> u32 \<times> heap \<Rightarrow> bool" where
  "taken h A n r \<longleftrightarrow> (\<exists>b ps. fst r = b + HEADER \<and> b \<notin> A \<and> heap_ok (snd r) ps (insert b A) \<and> hsize (snd r) b = n \<and> (\<forall>a \<in> A. hsize (snd r) a = hsize h a))"

text \<open>The block behind \<open>pp\<close> in the ring.\<close>

lemma ring_pred:
  assumes ok: "heap_ok h ps A" and pp: "pp \<in> set (hbase h # ps)" and x: "hptr h pp = x" "x \<noteq> hbase h"
  obtains xs ys where "ps = xs @ x # ys" and "pp = last (hbase h # xs)"
proof -
  obtain us vs where uv: "hbase h # ps = us @ pp # vs" using pp by (meson split_list)
  then have "\<exists>xs. ps = xs @ vs \<and> pp = last (hbase h # xs)" by (cases us) (auto intro: exI [of _ "tl us @ [pp]"])
  then obtain xs where xs: "ps = xs @ vs" "pp = last (hbase h # xs)" by blast
  have "hptr h pp = hd (vs @ [hbase h])" using ring_next [of h "hbase h" xs vs "hbase h"] heap_okD(4) [OF ok] xs by simp
  then obtain ys where "vs = x # ys" using x by (cases vs) auto
  then show ?thesis using that xs by blast
qed

lemma take_all:
  assumes ok: "heap_ok h (xs @ x # ys) A"
  shows "taken h A (hsize h x) (x + HEADER, (set_ptr (last (hbase h # xs)) (hptr h x) h)\<lparr>freep := last (hbase h # xs)\<rparr>)"
proof -
  note d = heap_okD [OF ok]
  let ?p = "last (hbase h # xs)"
  let ?h = "(set_ptr ?p (hptr h x) h)\<lparr>freep := ?p\<rparr>"
  have sel: "hptr ?h = (hptr h)(?p := hptr h x)" "hsize ?h = hsize h" "freep ?h = ?p" "brk ?h = brk h" "hbase ?h = hbase h" by simp_all
  have be: "bend ?h = bend h" "block_ok ?h = block_ok h" "apart ?h = apart h" by (simp_all add: fun_eq_iff bend_def block_ok_def apart_def)
  have dis: "distinct (hbase h # xs @ x # ys)" by (rule heap_distinct(1) [OF ok])
  have xA: "x \<notin> A" using d(8) by auto
  have lst: "?p \<in> set (hbase h # xs)" by (rule last_in_set) simp
  then have lo: "?p \<notin> set ys" "?p \<noteq> x" using dis by auto
  have nx: "hptr h x = hd (ys @ [hbase h])" using ring_next [of h "hbase h" "xs @ [x]" ys "hbase h"] d(4) by simp
  have "ring ?h (hbase h) (xs @ ys) (hbase h)"
  proof (rule ring_relink [OF d(4)])
    show "\<forall>y \<in> set (butlast (hbase h # xs)). hptr ?h y = hptr h y"
    proof
      fix y
      assume y: "y \<in> set (butlast (hbase h # xs))"
      have "y \<noteq> ?p" by (rule butlast_not_last [OF _ y]) (use dis in auto)
      then show "hptr ?h y = hptr h y" by (simp del: last.simps)
    qed
    show "ring ?h (hd ys) (tl ys) (hbase h)" if "ys \<noteq> []"
    proof -
      have "ring h (hd ys) (tl ys) (hbase h)" using ring_suffix [of h "hbase h" "xs @ [x]" ys "hbase h"] d(4) that by simp
      moreover have "\<forall>z \<in> set (hd ys # tl ys). hptr ?h z = hptr h z" using that lo by (auto simp del: last.simps)
      ultimately show ?thesis using ring_cong by blast
    qed
  qed (use dis nx in \<open>auto simp del: last.simps\<close>)
  then have "heap_ok ?h (xs @ ys) (insert x A)"
    unfolding heap_ok_def be sel
  proof (intro conjI)
    show "\<forall>a \<in> insert x A. \<forall>c \<in> set (xs @ ys) \<union> insert x A. a \<noteq> c \<longrightarrow> apart h a c"
    proof (intro ballI impI)
      fix a c
      assume a: "a \<in> insert x A" "c \<in> set (xs @ ys) \<union> insert x A" "a \<noteq> c"
      show "apart h a c"
      proof (cases "a = x \<and> c \<in> set (xs @ ys)")
        case True
        then show ?thesis using d(5) by (auto simp: apart_def sorted_wrt_append)
      next
        case False
        then show ?thesis using a d(7) [of a c] d(7) [of c a] by (auto simp: apart_def)
      qed
    qed
  qed (use d dis lst xA in \<open>auto simp: sorted_wrt_append simp del: last.simps\<close>)
  then show ?thesis unfolding taken_def using xA by (intro exI [of _ x] exI [of _ "xs @ ys"]) simp
qed

lemma apart_free:
  assumes "heap_ok h ps A" and "x \<in> set ps" and "c \<in> set ps \<or> c \<in> A" and "c \<noteq> x"
  shows "apart h c x"
proof (cases "c \<in> A")
  case True
  then show ?thesis using heap_okD(7) [OF assms(1) True, of x] assms(2,4) by blast
next
  case False
  then have "c \<in> set ps" using assms(3) by blast
  have "x = c \<or> bend h x < unat c \<or> bend h c < unat x"
    using heap_okD(5) [OF assms(1)] assms(2) \<open>c \<in> set ps\<close> by (induction ps) auto
  then show ?thesis using assms(4) by (auto simp: apart_def)
qed

lemma take_tail:
  assumes ok: "heap_ok h ps A" and pp: "pp \<in> set (hbase h # ps)" and x: "x \<in> set ps" and n: "0 < unat n" "unat n < unat (hsize h x)"
  defines "h1 \<equiv> set_size x (hsize h x - n) h"
  defines "q \<equiv> after x h1"
  shows "taken h A n (q + HEADER, (set_size q n h1)\<lparr>freep := pp\<rparr>)"
proof -
  note d = heap_okD [OF ok]
  let ?h = "(set_size q n h1)\<lparr>freep := pp\<rparr>"
  have un: "unat (hsize h x - n) = unat (hsize h x) - unat n" using n by (simp add: unat_sub word_le_nat_alt)
  have bx: "block_ok h x" using d(6) x by blast
  have "unat x + 8 * (unat (hsize h x) - unat n) \<le> bend h x" by (simp add: bend_def)
  then have "unat x + 8 * (unat (hsize h x) - unat n) < 2 ^ 32" using bx d(9) by (simp add: block_ok_def)
  then have "bend h1 x < 2 ^ 32" by (simp add: h1_def bend_def un)
  then have uq: "unat q = unat x + 8 * (unat (hsize h x) - unat n)" using after_eq [of h1 x] by (simp add: q_def bend_def h1_def un)
  have in_x: "unat x < unat q" "unat q + 8 * unat n = bend h x" using uq n by (auto simp: bend_def)
  have pos: "0 < unat (hsize h c)" if "c \<in> set ps \<or> c \<in> A" for c using d(6) [OF that] by (simp add: block_ok_def)
  have nq: "c \<noteq> q" if "c \<in> set ps \<or> c \<in> A" for c
    using apart_free [OF ok x that] pos [OF that] in_x n by (cases "c = x") (auto simp: apart_def bend_def)
  have qb: "q \<noteq> hbase h" "x \<noteq> hbase h" using bx in_x by (auto simp: block_ok_def)
  have qx: "q \<noteq> x" using in_x by auto
  have sel: "hptr ?h = hptr h" "hsize ?h = (hsize h)(x := hsize h x - n, q := n)" "freep ?h = pp" "brk ?h = brk h" "hbase ?h = hbase h"
    by (simp_all add: h1_def)
  have be: "bend ?h c = (if c = x then unat q else if c = q then bend h x else bend h c)" for c
    using uq in_x qx un by (auto simp: bend_def sel)
  have le: "bend ?h c \<le> bend h c" if "c \<in> set ps \<or> c \<in> A" for c using be [of c] nq [OF that] in_x by auto
  have bo: "block_ok ?h c" if "c \<in> set ps \<union> insert q A" for c
  proof (cases "c = q")
    case True
    then show ?thesis using bx in_x n qx be [of q] by (auto simp: block_ok_def sel)
  next
    case False
    then have c: "c \<in> set ps \<or> c \<in> A" using that by auto
    then show ?thesis using d(6) [OF c] le [OF c] False n un by (auto simp: block_ok_def sel)
  qed
  have "heap_ok ?h ps (insert q A)"
    unfolding heap_ok_def
  proof (intro conjI)
    show "ring ?h (hbase ?h) ps (hbase ?h)" using d(4) ring_cong [of "hbase h" ps ?h h] by (simp add: sel)
    show "sorted_wrt (\<lambda>a c. bend ?h a < unat c) ps"
      by (rule sorted_wrt_mono_rel [OF _ d(5)]) (use le in \<open>auto intro: le_less_trans\<close>)
    show "\<forall>c \<in> set ps \<union> insert q A. block_ok ?h c" using bo by blast
    show "\<forall>a \<in> insert q A. \<forall>c \<in> set ps \<union> insert q A. a \<noteq> c \<longrightarrow> apart ?h a c"
    proof -
      have qc: "apart ?h q c \<and> apart ?h c q" if "c \<in> set ps \<or> c \<in> A" for c
        using apart_free [OF ok x that] nq [OF that] be [of c] be [of q] in_x qx n by (cases "c = x") (auto simp: apart_def)
      have "apart ?h a c" if "a \<in> A" "c \<in> set ps \<or> c \<in> A" "a \<noteq> c" for a c
        using d(7) [OF that] le [of a] le [of c] that by (auto simp: apart_def)
      then show ?thesis using qc by auto
    qed
    show "insert q A \<inter> set ps = {}" using d(8) nq by auto
  qed (use d pp qb in \<open>auto simp: sel\<close>)
  moreover have "\<forall>a \<in> A. hsize ?h a = hsize h a" using nq d(8) x by (auto simp: sel)
  ultimately show ?thesis unfolding taken_def using nq [of q] by (intro exI [of _ q] exI [of _ ps]) (auto simp: sel)
qed

lemma take_block_ok:
  assumes ok: "heap_ok h ps A" and pp: "pp \<in> set (hbase h # ps)" "hptr h pp = x" and n: "0 < unat n" "n \<le> hsize h x"
  shows "taken h A n (take_block n pp x h)"
proof -
  have "x \<noteq> hbase h" using n heap_okD(3) [OF ok] by (auto simp: word_le_nat_alt)
  then obtain xs ys where xs: "ps = xs @ x # ys" "pp = last (hbase h # xs)" using ring_pred [OF ok pp] by blast
  show ?thesis
  proof (cases "hsize h x = n")
    case True
    then show ?thesis using take_all [OF ok [unfolded xs(1)]] xs(2) by (simp add: take_block_def del: last.simps)
  next
    case False
    then have "unat n < unat (hsize h x)" using n(2) by (simp add: word_le_nat_alt le_less word_unat_eq_iff [symmetric])
    then show ?thesis using take_tail [OF ok pp(1) _ n(1), of x] False xs(1) by (simp add: take_block_def Let_def)
  qed
qed

section \<open>The search for a block\<close>

lemma ring_rotate:
  assumes "ring h b ps b" and "f \<in> set (b # ps)" and "distinct (b # ps)"
  obtains rest where "ring h f rest f" and "set (f # rest) = set (b # ps)" and "f \<notin> set rest"
proof -
  obtain us vs where uv: "b # ps = us @ f # vs" using assms(2) by (meson split_list)
  show ?thesis
  proof (cases us)
    case Nil
    then show ?thesis using uv assms that [of ps] by auto
  next
    case (Cons c us')
    then have ps: "ps = us' @ f # vs" "c = b" using uv by auto
    then have "ring h f (vs @ b # us') f" using assms(1) by simp
    then show ?thesis using that [of "vs @ b # us'"] ps assms(3) by auto
  qed
qed

text \<open>A walk once around the ring, from \<open>freep\<close>: it takes a block that is large enough, or asks for more memory when there is none.\<close>

lemma malloc_walk:
  assumes "ring h prevp rest f" and "f = freep h" and "f \<notin> set rest"
  shows "(\<exists>pp x. pp \<in> set (prevp # rest) \<and> hptr h pp = x \<and> n \<le> hsize h x \<and>
      malloc_loop sbrk n prevp (hptr h prevp) h = Some (Inr (take_block n pp x h))) \<or>
    (\<forall>x \<in> set (rest @ [f]). hsize h x < n) \<and> malloc_loop sbrk n prevp (hptr h prevp) h =
      (case morecore sbrk n h of Inl e \<Rightarrow> Some (Inl e) | Inr (q, h1) \<Rightarrow> if q = 0 then Some (Inr (0, h1)) else malloc_loop sbrk n q (hptr h1 q) h1)"
  using assms
proof (induction rest arbitrary: prevp)
  case Nil
  have p: "hptr h prevp = f" using Nil.prems by simp
  show ?case
  proof (cases "n \<le> hsize h f")
    case True
    then show ?thesis using p by (intro disjI1 exI [of _ prevp] exI [of _ f]) (subst malloc_loop.simps, simp)
  next
    case False
    then show ?thesis using p Nil.prems(2) by (intro disjI2, subst malloc_loop.simps) auto
  qed
next
  case (Cons x rest)
  have p: "hptr h prevp = x" "x \<noteq> freep h" using Cons.prems by auto
  show ?case
  proof (cases "n \<le> hsize h x")
    case True
    then show ?thesis using p by (intro disjI1 exI [of _ prevp] exI [of _ x]) (subst malloc_loop.simps, simp)
  next
    case False
    then have "malloc_loop sbrk n prevp (hptr h prevp) h = malloc_loop sbrk n x (hptr h x) h" using p by (subst malloc_loop.simps) simp
    then show ?thesis using Cons.IH [of x] Cons.prems False by (simp add: not_le) blast
  qed
qed

lemma malloc_found:
  assumes ok: "heap_ok h ps A" and n: "0 < unat n" and c: "c \<in> set ps" "unat n \<le> unat (hsize h c)"
  shows "\<exists>r. malloc_loop sbrk n (freep h) (hptr h (freep h)) h = Some (Inr r) \<and> taken h A n r"
proof -
  note d = heap_okD [OF ok]
  obtain rest where r: "ring h (freep h) rest (freep h)" "set (freep h # rest) = set (hbase h # ps)" "freep h \<notin> set rest"
    using ring_rotate [OF d(4,2) heap_distinct(1) [OF ok]] by blast
  have "c \<in> set (rest @ [freep h])" using r(2) c(1) by auto
  then have "\<not> (\<forall>x \<in> set (rest @ [freep h]). hsize h x < n)" using c(2) by (meson word_less_nat_alt not_less)
  then obtain pp x where "pp \<in> set (freep h # rest)" "hptr h pp = x" "n \<le> hsize h x"
    "malloc_loop sbrk n (freep h) (hptr h (freep h)) h = Some (Inr (take_block n pp x h))"
    using malloc_walk [OF r(1) refl r(3), of n sbrk] by blast
  then show ?thesis using take_block_ok [OF ok _ _ n] r(2) by metis
qed

context heap_source
begin

lemma malloc_loop_ok:
  assumes ok: "heap_ok h ps A" and n: "0 < unat n" "unat n < 2 ^ 28"
  shows "\<exists>r. malloc_loop sbrk n (freep h) (hptr h (freep h)) h = Some (Inr r) \<and> (taken h A n r \<or> r = (0, h))"
proof -
  note d = heap_okD [OF ok]
  obtain rest where r: "ring h (freep h) rest (freep h)" "set (freep h # rest) = set (hbase h # ps)" "freep h \<notin> set rest"
    using ring_rotate [OF d(4,2) heap_distinct(1) [OF ok]] by blast
  from malloc_walk [OF r(1) refl r(3), of n sbrk] show ?thesis
  proof (elim disjE exE conjE)
    fix pp x
    assume "pp \<in> set (freep h # rest)" "hptr h pp = x" "n \<le> hsize h x"
      "malloc_loop sbrk n (freep h) (hptr h (freep h)) h = Some (Inr (take_block n pp x h))"
    then show ?thesis using take_block_ok [OF ok _ _ n(1)] r(2) by metis
  next
    assume l: "malloc_loop sbrk n (freep h) (hptr h (freep h)) h =
      (case morecore sbrk n h of Inl e \<Rightarrow> Some (Inl e) | Inr (q, h1) \<Rightarrow> if q = 0 then Some (Inr (0, h1)) else malloc_loop sbrk n q (hptr h1 q) h1)"
    obtain q h1 where m: "morecore sbrk n h = Inr (q, h1)" "q = 0 \<and> h1 = h \<or> q = freep h1 \<and> grown h A n h1"
      using morecore_ok [OF ok n(2)] by (auto simp: succeeds_iff)
    show ?thesis
    proof (cases "q = 0")
      case True
      have "\<not> (grown h A n h1 \<and> freep h1 = 0)"
      proof
        assume g: "grown h A n h1 \<and> freep h1 = 0"
        then obtain qs where q: "heap_ok h1 qs A" by (auto simp: grown_def)
        have "unat (freep h1) \<noteq> 0" using heap_okD(1,2) [OF q] heap_okD(6) [OF q, of "freep h1"] by (auto simp: block_ok_def unat_eq_0)
        then show False using g by simp
      qed
      then have "h1 = h" using m(2) True by auto
      then show ?thesis using l m True by simp
    next
      case False
      then obtain qs c where q: "heap_ok h1 qs A" "c \<in> set qs" "unat n \<le> unat (hsize h1 c)" and "q = freep h1" and same: "\<forall>a \<in> A. hsize h1 a = hsize h a"
        using m(2) by (auto simp: grown_def)
      then obtain z where "malloc_loop sbrk n q (hptr h1 q) h1 = Some (Inr z)" "taken h1 A n z" using malloc_found [OF q(1) n(1) q(2,3)] by blast
      moreover have "taken h A n z" using \<open>taken h1 A n z\<close> same by (auto simp: taken_def)
      ultimately show ?thesis using l m False by auto
    qed
  qed
qed

end

section \<open>Programs\<close>

lemma nunits_of_eq:
  assumes "unat n < 2 ^ 31 - 16"
  shows "unat (nunits_of n) = (unat n + 7) div 8 + 1"
proof -
  have "unat (n + HEADER - 1) = unat n + 7" using assms by (simp add: HEADER_def unat_word_ariths)
  then have "unat ((n + HEADER - 1) div HEADER) = (unat n + 7) div 8" by (simp add: unat_div HEADER_def)
  moreover have "(unat n + 7) div 8 + 1 < 2 ^ 32" using assms by simp
  ultimately show ?thesis by (simp add: nunits_of_def unat_word_ariths)
qed

text \<open>The state before the first call, or a ring in order.\<close>

definition fresh :: "heap \<Rightarrow> bool" where
  "fresh h \<longleftrightarrow> freep h = 0 \<and> hbase h \<noteq> 0 \<and> unat (hbase h) + 8 \<le> unat (brk h) \<and> unat (brk h) < 2 ^ 31"

definition heap_inv :: "heap \<Rightarrow> u32 set \<Rightarrow> bool" where
  "heap_inv h A \<longleftrightarrow> fresh h \<and> A = {} \<or> (\<exists>ps. heap_ok h ps A)"

lemma start_ok:
  assumes "heap_inv h A"
  obtains ps where "heap_ok (start h) ps A" and "\<forall>a \<in> A. hsize (start h) a = hsize h a"
proof (cases "fresh h \<and> A = {}")
  case True
  then have "heap_ok (start h) [] A" by (simp add: heap_ok_def start_def fresh_def)
  then show ?thesis using that True by blast
next
  case False
  then obtain ps where ps: "heap_ok h ps A" using assms by (auto simp: heap_inv_def)
  have "freep h \<noteq> 0" using heap_okD(1,2) [OF ps] heap_okD(6) [OF ps, of "freep h"] by (auto simp: block_ok_def)
  then show ?thesis using that ps by (simp add: start_def)
qed

definition malloc_post :: "heap \<Rightarrow> u32 set \<Rightarrow> u32 \<Rightarrow> u32 \<times> heap \<Rightarrow> bool" where
  "malloc_post h A n = (\<lambda>(a, h'). (\<forall>b \<in> A. hsize h' b = hsize h b) \<and>
     (a = 0 \<and> heap_inv h' A \<or> a - HEADER \<notin> A \<and> heap_inv h' (insert (a - HEADER) A) \<and> a \<noteq> 0 \<and> unat a + unat n \<le> bend h' (a - HEADER) \<and>
      unat a = unat (a - HEADER) + 8))"

context heap_source
begin

lemma malloc_ok:
  assumes inv: "heap_inv h A" and n: "unat n < 2 ^ 31 - 16"
  shows "succeeds (malloc sbrk n h) (malloc_post h A n)"
proof -
  obtain ps where ps: "heap_ok (start h) ps A" "\<forall>a \<in> A. hsize (start h) a = hsize h a" using start_ok [OF inv] by blast
  have u: "unat (nunits_of n) = (unat n + 7) div 8 + 1" by (rule nunits_of_eq [OF n])
  then have nn: "0 < unat (nunits_of n)" "unat (nunits_of n) < 2 ^ 28" using n by simp_all
  obtain a h' where r: "malloc_loop sbrk (nunits_of n) (freep (start h)) (hptr (start h) (freep (start h))) (start h) = Some (Inr (a, h'))"
    "taken (start h) A (nunits_of n) (a, h') \<or> (a, h') = (0, start h)" using malloc_loop_ok [OF ps(1) nn] by (metis surj_pair)
  have "malloc_post h A n (a, h')"
  proof (cases "(a, h') = (0, start h)")
    case True
    then show ?thesis using ps by (auto simp: malloc_post_def heap_inv_def)
  next
    case False
    then obtain b qs where t: "a = b + HEADER" "b \<notin> A" "heap_ok h' qs (insert b A)" "hsize h' b = nunits_of n" "\<forall>c \<in> A. hsize h' c = hsize (start h) c"
      using r(2) by (auto simp: taken_def)
    have bo: "block_ok h' b" and lt: "unat (brk h') < 2 ^ 31" using heap_okD(6,9) [OF t(3)] by auto
    then have "unat b + 8 < 2 ^ 32" by (simp add: block_ok_def bend_def)
    then have ua: "unat a = unat b + 8" using t(1) by (simp add: HEADER_def unat_word_ariths)
    have "unat n \<le> 8 * ((unat n + 7) div 8)" by linarith
    then have "unat a + unat n \<le> bend h' b" using ua t(4) u by (simp add: bend_def)
    moreover have "a \<noteq> 0" using ua by auto
    ultimately show ?thesis using t ps(2) ua by (auto simp: malloc_post_def heap_inv_def)
  qed
  then show ?thesis using r(1) by (simp add: malloc_def)
qed

end

lemma free_inv:
  assumes "heap_inv h A" and "b \<in> A"
  shows "succeeds (free (b + HEADER) h) (\<lambda>h'. heap_inv h' (A - {b}) \<and> (\<forall>a \<in> A - {b}. hsize h' a = hsize h a))"
proof -
  obtain ps where "heap_ok h ps A" using assms by (auto simp: heap_inv_def)
  from free_ok [OF this assms(2)] show ?thesis by (rule succeeds_mono) (auto simp: freed_def heap_inv_def)
qed

text \<open>A program calls \<^verbatim>\<open>malloc\<close> with any size below 2 GB and frees blocks it owns; \<open>A\<close> are the headers of the blocks that it owns.\<close>

inductive heap_call :: "(u32 \<Rightarrow> u32 \<Rightarrow> u32 option) \<Rightarrow> heap \<times> u32 set \<Rightarrow> heap \<times> u32 set \<Rightarrow> bool" for sbrk where
  call_malloc: "unat n < 2 ^ 31 - 16 \<Longrightarrow> malloc sbrk n h = Inr (a, h') \<Longrightarrow> heap_call sbrk (h, A) (h', if a = 0 then A else insert (a - HEADER) A)"
| call_free: "b \<in> A \<Longrightarrow> free (b + HEADER) h = Inr h' \<Longrightarrow> heap_call sbrk (h, A) (h', A - {b})"

lemma reach_inv:
  assumes "heap_source sbrk" and "(heap_call sbrk)\<^sup>*\<^sup>* x y" and "heap_inv (fst x) (snd x)"
  shows "heap_inv (fst y) (snd y)"
  using assms(2,3)
proof (induction rule: rtranclp_induct)
  case (step y z)
  obtain h A h' A' where yz: "y = (h, A)" "z = (h', A')" by (cases y; cases z)
  have inv: "heap_inv h A" using step yz by simp
  from step.hyps(2) [unfolded yz] have "heap_inv h' A'"
  proof cases
    case (call_malloc n a)
    have "malloc_post h A n (a, h')" using heap_source.malloc_ok [OF assms(1) inv call_malloc(2)] call_malloc(3) by simp
    then show ?thesis using call_malloc(1) by (auto simp: malloc_post_def)
  next
    case (call_free b)
    then show ?thesis using free_inv [OF inv, of b] by simp
  qed
  then show ?case by (simp add: yz)
qed simp

text \<open>C21. The allocator of user programs is safe and always returns. After any sequence of \<^verbatim>\<open>malloc\<close>s and \<^verbatim>\<open>free\<close>s of owned blocks, from the state before the first call and
  for every kernel that honours \<^verbatim>\<open>sbrk\<close>: the blocks that the program owns are pairwise disjoint; \<^verbatim>\<open>free\<close> of any of them returns and leaves the headers of the
  others alone; \<^verbatim>\<open>malloc(n)\<close> returns null or an address with \<open>n\<close> bytes that lie below the end of the process and in no other owned block, and leaves
  the headers of these alone. The searches through the circular free list, splitting and the joining of neighbours never loop for ever.\<close>

theorem malloc_free_safe:
  assumes src: "heap_source sbrk" and f: "fresh h" and reach: "(heap_call sbrk)\<^sup>*\<^sup>* (h, {}) (t, A)" and n: "unat n < 2 ^ 31 - 16"
  shows "(\<forall>a \<in> A. \<forall>b \<in> A. a \<noteq> b \<longrightarrow> {unat a..<bend t a} \<inter> {unat b..<bend t b} = {}) \<and>
    (\<forall>b \<in> A. succeeds (free (b + HEADER) t) (\<lambda>u. \<forall>a \<in> A - {b}. hsize u a = hsize t a)) \<and>
    succeeds (malloc sbrk n t) (\<lambda>(a, u). (\<forall>b \<in> A. hsize u b = hsize t b) \<and>
      (a = 0 \<or> a - HEADER \<notin> A \<and> unat a + unat n \<le> unat (brk u) \<and> (\<forall>b \<in> A. {unat a..<unat a + unat n} \<inter> {unat b..<bend u b} = {})))"
proof (intro conjI)
  have inv: "heap_inv t A" using reach_inv [OF src reach] f by (simp add: heap_inv_def)
  have ap: "apart u a b" if "heap_inv u B" "a \<in> B" "b \<in> B" "a \<noteq> b" for u B a b
    using that heap_okD(7) [of u _ B a b] by (auto simp: heap_inv_def)
  have dj: "{unat a..<bend u a} \<inter> {unat b..<bend u b} = {}" if "apart u a b" for u a b using that by (auto simp: apart_def)
  show "\<forall>a \<in> A. \<forall>b \<in> A. a \<noteq> b \<longrightarrow> {unat a..<bend t a} \<inter> {unat b..<bend t b} = {}" using ap [OF inv] dj by blast
  show "\<forall>b \<in> A. succeeds (free (b + HEADER) t) (\<lambda>u. \<forall>a \<in> A - {b}. hsize u a = hsize t a)"
    by (intro ballI, rule succeeds_mono [OF free_inv [OF inv]]) auto
  from heap_source.malloc_ok [OF src inv n]
  show "succeeds (malloc sbrk n t) (\<lambda>(a, u). (\<forall>b \<in> A. hsize u b = hsize t b) \<and>
      (a = 0 \<or> a - HEADER \<notin> A \<and> unat a + unat n \<le> unat (brk u) \<and> (\<forall>b \<in> A. {unat a..<unat a + unat n} \<inter> {unat b..<bend u b} = {})))"
  proof (rule succeeds_mono)
    fix y
    assume m: "malloc_post t A n y"
    obtain a u where y: "y = (a, u)" by (cases y)
    have "unat a + unat n \<le> unat (brk u) \<and> (\<forall>b \<in> A. {unat a..<unat a + unat n} \<inter> {unat b..<bend u b} = {})" if "a \<noteq> 0"
    proof -
      let ?b = "a - HEADER"
      have p: "?b \<notin> A" "heap_inv u (insert ?b A)" "unat a + unat n \<le> bend u ?b" "unat a = unat ?b + 8" using m y that by (auto simp: malloc_post_def)
      obtain ps where ps: "heap_ok u ps (insert ?b A)" using p(2) by (auto simp: heap_inv_def)
      have "block_ok u ?b" using heap_okD(6) [OF ps, of ?b] by simp
      moreover have "apart u ?b b" if "b \<in> A" for b using heap_okD(7) [OF ps, of ?b b] that p(1) by auto
      ultimately show ?thesis using p(3,4) by (fastforce simp: block_ok_def apart_def)
    qed
    then show "case y of (a, u) \<Rightarrow> (\<forall>b \<in> A. hsize u b = hsize t b) \<and>
      (a = 0 \<or> a - HEADER \<notin> A \<and> unat a + unat n \<le> unat (brk u) \<and> (\<forall>b \<in> A. {unat a..<unat a + unat n} \<inter> {unat b..<bend u b} = {}))"
      using m y by (auto simp: malloc_post_def)
  qed
qed

section \<open>The kernel's answer\<close>

text \<open>\<^verbatim>\<open>sys_sbrk\<close> and \<^verbatim>\<open>growproc\<close> as the program sees them: \<open>pages b n\<close> says that there are pages for the request.\<close>

definition grow_break :: "(u32 \<Rightarrow> u32 \<Rightarrow> bool) \<Rightarrow> u32 \<Rightarrow> u32 \<Rightarrow> u32 option" where
  "grow_break pages b n =
    (if sint n > 0 then
       if b + n \<ge> KERNBASE then None
       else if b + n < b then Some b
       else if pages b n then Some (b + n) else None
     else if sint n < 0 then
       let b' = (if b + n \<ge> b then b else b + n) in if b' = 0 then None else Some b'
     else Some b)"

interpretation kernel: heap_source "grow_break pages" for pages
proof
  fix b n b' :: u32
  assume g: "grow_break pages b n = Some b'" and b: "unat b < 2 ^ 31" and n: "unat n < 2 ^ 31"
  have u: "unat (b + n) = unat b + unat n" using b n by (simp add: unat_word_ariths)
  have s: "sint n = int (unat n)" using n sint_of_nat [of "unat n"] by simp
  have z: "n = 0" if "\<not> 0 < sint n" using that s unat_eq_zero [of n] by linarith
  show "unat b' = unat b + unat n \<and> unat b' < 2 ^ 31"
    using g u b s z unfolding grow_break_def by (auto simp: word_less_nat_alt word_le_nat_alt KERNBASE_def not_le unsigned_eq_0_iff split: if_splits)
qed

text \<open>The first call of a program whose static header lies at 4096, and the two requests that follow the arithmetic of the sizes out of range.\<close>

definition heap0 :: heap where
  "heap0 = \<lparr>hptr = (\<lambda>_. 0), hsize = (\<lambda>_. 0), freep = 0, hbase = 4096, brk = 8192\<rparr>"

lemma heap0_fresh: "fresh heap0"
  by (simp add: fresh_def heap0_def)

lemma first_malloc: "map_sum id (\<lambda>(a, h). (a, freep h, hptr h 4096, hsize h 8192, hsize h 40936, brk h)) (malloc (grow_break (\<lambda>_ _. True)) 10 heap0) =
  Inr (40944, 4096, 8192, 4093, 3, 40960)"
  apply (simp add: malloc_def heap0_def start_def nunits_of_def HEADER_def)
  apply (subst malloc_loop.simps, simp add: morecore_def grow_break_def free_def HEADER_def)
  apply (subst free_search.simps, simp add: join_up_def join_down_def after_def HEADER_def KERNBASE_def)
  apply (subst malloc_loop.simps, simp add: HEADER_def take_block_def after_def)
  done


theorem malloc_free_safe_witness:
  "\<exists>t. malloc (grow_break (\<lambda>_ _. True)) 10 heap0 = Inr (40944, t) \<and> succeeds (free 40944 t) (\<lambda>_. True) \<and>
     succeeds (malloc (grow_break (\<lambda>_ _. True)) 20 t) (\<lambda>(b, u). b = 0 \<or> b \<noteq> 40944 \<and> unat b + 20 \<le> unat (brk u))"
proof -
  let ?k = "grow_break (\<lambda>_ _. True)"
  obtain t where m: "malloc ?k 10 heap0 = Inr (40944, t)"
    using first_malloc by (cases "malloc ?k 10 heap0") auto
  have "heap_call ?k (heap0, {}) (t, if (40944 :: u32) = 0 then {} else insert (40944 - HEADER) {})" by (rule call_malloc [OF _ m]) simp
  then have r: "(heap_call ?k)\<^sup>*\<^sup>* (heap0, {}) (t, {40936})" by (simp add: HEADER_def)
  note k = malloc_free_safe [OF kernel.heap_source_axioms heap0_fresh r, of 20, simplified]
  have "succeeds (free 40944 t) (\<lambda>_. True)" using k by (simp add: HEADER_def)
  moreover have "succeeds (malloc ?k 20 t) (\<lambda>(b, u). b = 0 \<or> b \<noteq> 40944 \<and> unat b + 20 \<le> unat (brk u))"
    using k by (auto elim!: succeeds_mono simp: HEADER_def)
  ultimately show ?thesis using m by blast
qed

text \<open>The sizes wrap. A request of almost 4 GB asks for a single header, and one of 2 GB reaches \<^verbatim>\<open>sbrk\<close> as a negative number of bytes, which the kernel
  answers with the old end: the caller gets an address and no memory behind it.\<close>

lemma nunits_of_wraps: "nunits_of 0xFFFFFFFC = 1"
  by (simp add: nunits_of_def HEADER_def)

lemma huge_malloc: "map_sum id (\<lambda>(a, h). (a, brk h)) (malloc (grow_break (\<lambda>_ _. True)) 0x80000000 heap0) = Inr (8200, 8192)"
  apply (simp add: malloc_def heap0_def start_def nunits_of_def HEADER_def)
  apply (subst malloc_loop.simps, simp add: morecore_def grow_break_def free_def HEADER_def)
  apply (subst free_search.simps, simp add: join_up_def join_down_def after_def HEADER_def KERNBASE_def)
  apply (subst malloc_loop.simps, simp add: HEADER_def take_block_def after_def)
  done

end
