(* ===== verification/Grep.thy ===== *)
theory Grep
  imports Prelude
begin

text \<open>
  The pattern matcher of \<^verbatim>\<open>grep.c\<close>, on strings as lists of bytes without the terminating zero, and its meaning: a pattern denotes a
  set of strings, and the matcher decides membership.
\<close>

section \<open>The matcher\<close>

text \<open>The bytes of \<^verbatim>\<open>'*'\<close>, \<^verbatim>\<open>'$'\<close>, \<^verbatim>\<open>'.'\<close>, \<^verbatim>\<open>'^'\<close> and newline.\<close>

definition cSTAR :: u8 where "cSTAR = 42"
definition cEND :: u8 where "cEND = 36"
definition cDOT :: u8 where "cDOT = 46"
definition cBEGIN :: u8 where "cBEGIN = 94"
definition cNL :: u8 where "cNL = 10"

function matchhere :: "u8 list \<Rightarrow> u8 list \<Rightarrow> bool" and matchstar :: "u8 \<Rightarrow> u8 list \<Rightarrow> u8 list \<Rightarrow> bool" where
  "matchhere [] tx = True"
| "matchhere (c # re) tx =
    (if re \<noteq> [] \<and> hd re = cSTAR then matchstar c (tl re) tx
     else if c = cEND \<and> re = [] then tx = []
     else case tx of [] \<Rightarrow> False | t # ts \<Rightarrow> (c = cDOT \<or> c = t) \<and> matchhere re ts)"
| "matchstar c re tx =
    (matchhere re tx \<or> (case tx of [] \<Rightarrow> False | t # ts \<Rightarrow> (t = c \<or> c = cDOT) \<and> matchstar c re ts))"
  by pat_completeness auto
termination
  by (relation "measure (\<lambda>x. case x of Inl (re, tx) \<Rightarrow> 2 * length re + length tx
        | Inr (c, re, tx) \<Rightarrow> 2 * length re + length tx + 1)") (auto simp: neq_Nil_conv)

declare matchstar.simps [simp del]

fun match_from :: "u8 list \<Rightarrow> u8 list \<Rightarrow> bool" where
  "match_from re tx = (matchhere re tx \<or> (case tx of [] \<Rightarrow> False | t # ts \<Rightarrow> match_from re ts))"

declare match_from.simps [simp del]

definition match :: "u8 list \<Rightarrow> u8 list \<Rightarrow> bool" where
  "match re tx = (if re \<noteq> [] \<and> hd re = cBEGIN then matchhere (tl re) tx else match_from re tx)"

section \<open>The buffer loop\<close>

text \<open>One turn of the loop of \<^verbatim>\<open>grep\<close> on the bytes in the buffer: the lines that end in it are written when they match, the rest stays. When no line
  ends in the buffer, the rest is dropped.\<close>

function split_lines :: "u8 list \<Rightarrow> u8 list list \<times> u8 list" where
  "split_lines xs =
    (case dropWhile (\<lambda>c. c \<noteq> cNL) xs of
       [] \<Rightarrow> ([], xs)
     | _ # ys \<Rightarrow> (case split_lines ys of (ls, r) \<Rightarrow> (takeWhile (\<lambda>c. c \<noteq> cNL) xs # ls, r)))"
  by pat_completeness auto
termination
  by (relation "measure length") (auto, metis length_Cons length_dropWhile_le Suc_le_lessD)

declare split_lines.simps [simp del]

definition grep_chunk :: "u8 list \<Rightarrow> u8 list \<Rightarrow> u8 list \<times> u8 list" where
  "grep_chunk pat buf =
    (case split_lines buf of
       (ls, r) \<Rightarrow> (concat (map (\<lambda>l. l @ [cNL]) (filter (match pat) ls)), if ls = [] then [] else r))"

text \<open>The reads of the loop return the chunks in order; each is at most what the buffer has room for.\<close>

fun grep :: "u8 list \<Rightarrow> u8 list \<Rightarrow> u8 list list \<Rightarrow> u8 list" where
  "grep pat rest [] = []"
| "grep pat rest (c # cs) =
    (if c = [] then [] else case grep_chunk pat (rest @ c) of (out, r) \<Rightarrow> out @ grep pat r cs)"

section \<open>The meaning of patterns\<close>

datatype atom = One u8 | Star u8

fun parse_re :: "u8 list \<Rightarrow> atom list \<times> bool" where
  "parse_re [] = ([], False)"
| "parse_re [c] = (if c = cEND then ([], True) else ([One c], False))"
| "parse_re (c # d # re) =
    (if d = cSTAR then (case parse_re re of (as, e) \<Rightarrow> (Star c # as, e))
     else (case parse_re (d # re) of (as, e) \<Rightarrow> (One c # as, e)))"

fun atom_lang :: "atom \<Rightarrow> u8 list set" where
  "atom_lang (One c) = {[t] |t. c = cDOT \<or> c = t}"
| "atom_lang (Star c) = {ts. \<forall>t \<in> set ts. t = c \<or> c = cDOT}"

fun atoms_lang :: "atom list \<Rightarrow> u8 list set" where
  "atoms_lang [] = {[]}"
| "atoms_lang (a # as) = {u @ v |u v. u \<in> atom_lang a \<and> v \<in> atoms_lang as}"

text \<open>A pattern matches at the start of a text.\<close>

definition accepts :: "atom list \<times> bool \<Rightarrow> u8 list \<Rightarrow> bool" where
  "accepts P tx \<longleftrightarrow> (\<exists>u v. tx = u @ v \<and> u \<in> atoms_lang (fst P) \<and> (snd P \<longrightarrow> v = []))"

lemma accepts_Nil [simp]: "accepts ([], e) tx \<longleftrightarrow> \<not> e \<or> tx = []"
  by (auto simp: accepts_def)

lemma accepts_Cons: "accepts (a # as, e) tx \<longleftrightarrow> (\<exists>u w. tx = u @ w \<and> u \<in> atom_lang a \<and> accepts (as, e) w)"
proof
  assume "accepts (a # as, e) tx"
  then obtain x w where x: "tx = x @ w" "x \<in> atoms_lang (a # as)" "e \<longrightarrow> w = []" unfolding accepts_def by auto
  then obtain u v where "x = u @ v" "u \<in> atom_lang a" "v \<in> atoms_lang as" by auto
  with x have "tx = (u @ v) @ w" "u \<in> atom_lang a" "v \<in> atoms_lang as" "e \<longrightarrow> w = []" by simp_all
  moreover from this have "accepts (as, e) (v @ w)" unfolding accepts_def by - (rule exI [of _ v], rule exI [of _ w], simp)
  ultimately show "\<exists>u w. tx = u @ w \<and> u \<in> atom_lang a \<and> accepts (as, e) w" by - (rule exI [of _ u], rule exI [of _ "v @ w"], simp)
next
  assume "\<exists>u w. tx = u @ w \<and> u \<in> atom_lang a \<and> accepts (as, e) w"
  then obtain u x where u0: "tx = u @ x" "u \<in> atom_lang a" "accepts (as, e) x" by blast
  then obtain v w where "x = v @ w" "v \<in> atoms_lang as" "e \<longrightarrow> w = []" unfolding accepts_def by auto
  with u0 have u: "tx = u @ v @ w" "u \<in> atom_lang a" "v \<in> atoms_lang as" "e \<longrightarrow> w = []" by simp_all
  then have "u @ v \<in> atoms_lang (a # as)" by auto
  then show "accepts (a # as, e) tx" unfolding accepts_def using u by - (rule exI [of _ "u @ v"], rule exI [of _ w], simp)
qed

lemma accepts_One:
  "accepts (One c # as, e) tx \<longleftrightarrow> (case tx of [] \<Rightarrow> False | t # ts \<Rightarrow> (c = cDOT \<or> c = t) \<and> accepts (as, e) ts)"
proof (cases tx)
  case (Cons t ts)
  have "accepts (One c # as, e) (t # ts)" if "c = cDOT \<or> c = t" "accepts (as, e) ts"
    unfolding accepts_Cons using that by - (rule exI [of _ "[t]"], rule exI [of _ ts], simp)
  with Cons show ?thesis by (auto simp: accepts_Cons)
qed (simp add: accepts_Cons)

lemma accepts_Star:
  "accepts (Star c # as, e) tx \<longleftrightarrow>
    accepts (as, e) tx \<or> (case tx of [] \<Rightarrow> False | t # ts \<Rightarrow> (t = c \<or> c = cDOT) \<and> accepts (Star c # as, e) ts)" (is "?l = ?r")
proof
  assume ?l
  then obtain u w where w: "tx = u @ w" "\<forall>t \<in> set u. t = c \<or> c = cDOT" "accepts (as, e) w" unfolding accepts_Cons atom_lang.simps by blast
  show ?r
  proof (cases u)
    case Nil
    then show ?thesis using w by simp
  next
    case (Cons t ts)
    then have "accepts (Star c # as, e) (ts @ w)" unfolding accepts_Cons atom_lang.simps using w by - (rule exI [of _ ts], rule exI [of _ w], auto)
    then show ?thesis using Cons w by auto
  qed
next
  assume r: ?r
  show ?l
  proof (cases "accepts (as, e) tx")
    case True
    then show ?thesis unfolding accepts_Cons atom_lang.simps by - (rule exI [of _ "[]"], rule exI [of _ tx], simp)
  next
    case False
    then obtain t ts where t: "tx = t # ts" "t = c \<or> c = cDOT" "accepts (Star c # as, e) ts" using r by (cases tx) auto
    then obtain u w where w: "ts = u @ w" "\<forall>t \<in> set u. t = c \<or> c = cDOT" "accepts (as, e) w" unfolding accepts_Cons atom_lang.simps by blast
    then show ?thesis unfolding accepts_Cons atom_lang.simps using t by - (rule exI [of _ "t # u"], rule exI [of _ w], auto)
  qed
qed

lemma parse_re_star: "re \<noteq> [] \<Longrightarrow> hd re = cSTAR \<Longrightarrow> parse_re (c # re) = (case parse_re (tl re) of (as, e) \<Rightarrow> (Star c # as, e))"
  by (cases re) auto

lemma parse_re_one:
  "\<not> (re \<noteq> [] \<and> hd re = cSTAR) \<Longrightarrow> \<not> (c = cEND \<and> re = []) \<Longrightarrow> parse_re (c # re) = (case parse_re re of (as, e) \<Rightarrow> (One c # as, e))"
  by (cases re) auto

lemma matchhere_accepts:
  "matchhere re tx \<longleftrightarrow> accepts (parse_re re) tx"
  "matchstar c re tx \<longleftrightarrow> accepts (Star c # fst (parse_re re), snd (parse_re re)) tx"
proof (induction re tx and c re tx rule: matchhere_matchstar.induct)
  case (2 c re tx)
  consider "re \<noteq> [] \<and> hd re = cSTAR" | "\<not> (re \<noteq> [] \<and> hd re = cSTAR)" "c = cEND \<and> re = []"
    | "\<not> (re \<noteq> [] \<and> hd re = cSTAR)" "\<not> (c = cEND \<and> re = [])" by blast
  then show ?case
  proof cases
    case 1
    then show ?thesis using 2(1) parse_re_star [of re c] by (simp add: case_prod_beta)
  next
    case 2
    then show ?thesis by simp
  next
    case 3
    then show ?thesis using 2(2) parse_re_one [of re c] by (auto simp: case_prod_beta accepts_One split: list.splits)
  qed
next
  case (3 c re tx)
  show ?case
    by (subst matchstar.simps, subst accepts_Star) (use 3 in \<open>auto split: list.splits\<close>)
qed simp

lemma match_from_accepts: "match_from re tx \<longleftrightarrow> (\<exists>u v. tx = u @ v \<and> accepts (parse_re re) v)"
proof (induction tx)
  case Nil
  show ?case by (simp add: match_from.simps matchhere_accepts)
next
  case (Cons t ts)
  show ?case
    unfolding match_from.simps [of re "t # ts"] list.case matchhere_accepts Cons.IH
    by (metis append_Cons append_Nil list.exhaust list.inject)
qed

text \<open>C27. The matcher of \<open>grep\<close> decides its patterns: \<open>match\<close> returns true exactly when the text contains a string of the language of the pattern, at the
  start when the pattern begins with \<^verbatim>\<open>^\<close> and up to the end when it ends with \<^verbatim>\<open>$\<close>; in particular the backtracking over \<^verbatim>\<open>*\<close>
  ends and misses no match.\<close>

theorem match_decides_language:
  "match re tx \<longleftrightarrow>
    (if re \<noteq> [] \<and> hd re = cBEGIN then accepts (parse_re (tl re)) tx
     else (\<exists>u v. tx = u @ v \<and> accepts (parse_re re) v))"
  by (simp add: match_def matchhere_accepts match_from_accepts)

text \<open>A read that returns part of a line loses it: the pattern \<^verbatim>\<open>a\<close> finds the line \<^verbatim>\<open>ab\<close> when it comes in one read and misses it when it comes
  in two.\<close>

lemma grep_loses_partial_line:
  "grep [97] [] [[97, 98, cNL]] = [97, 98, cNL]" "grep [97] [] [[97], [98, cNL]] = []"
  by (simp_all add: grep_chunk_def split_lines.simps cNL_def match_def match_from.simps cBEGIN_def cEND_def cDOT_def cSTAR_def)

end
