(* ===== verification/ShellProps.thy ===== *)
theory ShellProps
  imports Shell
begin

text \<open>
  The parser of the shell ends on every line, and reads back every command from its printed form.
\<close>

section \<open>The parser ends\<close>

lemma parseredirs_ends: "parseredirs s \<noteq> Inl Diverges"
proof (induction s rule: parseredirs.induct)
  case (1 s)
  obtain tok w s1 where t1: "gettoken s = (tok, w, s1)" by (metis prod_cases3)
  obtain t2 q s2 where t2: "gettoken s1 = (t2, q, s2)" by (metis prod_cases3)
  have "parseredirs s2 \<noteq> Inl Diverges" if "peek [60, 62] s" "t2 = 97"
    using 1 [OF that(1) t1 [symmetric] refl t2 [symmetric] refl] that(2) by simp
  then show ?case using t1 t2 by (subst parseredirs.simps) (auto simp: bindE_def split: sum.splits)
qed

lemma parseargs_result: "parseargs argc s \<noteq> Inl Diverges \<and> (\<forall>x r. parseargs argc s = Inr (x, r) \<longrightarrow> length r \<le> length s)"
proof (induction argc s rule: parseargs.induct)
  case (1 argc s)
  obtain tok q s1 where t: "gettoken s = (tok, q, s1)" by (metis prod_cases3)
  have "length s1 \<le> length s" by (rule gettoken_le [OF t])
  consider "peek [124, 41, 38, 59] s \<or> tok = 0 \<or> tok \<noteq> 97 \<or> argc + 1 \<ge> MAXARGS" | e where "parseredirs s1 = Inl e"
    | rs s2 where "\<not> peek [124, 41, 38, 59] s" "tok \<noteq> 0" "tok = 97" "\<not> argc + 1 \<ge> MAXARGS" "parseredirs s1 = Inr (rs, s2)"
    by (metis old.sum.exhaust surj_pair)
  then show ?case
  proof cases
    case 1
    then show ?thesis using t length_skipws [of s] \<open>length s1 \<le> length s\<close> by (subst (1 2) parseargs.simps) auto
  next
    case 2
    then show ?thesis using t parseredirs_ends [of s1] length_skipws [of s] \<open>length s1 \<le> length s\<close> by (subst (1 2) parseargs.simps) auto
  next
    case (3 rs s2)
    note ih = 1 [OF 3(1) t [symmetric] refl 3(2) _ 3(4) 3(5) refl]
    have "length s2 \<le> length s" using parseredirs_le [OF 3(5)] \<open>length s1 \<le> length s\<close> by simp
    then show ?thesis using t 3 ih
      by (subst (1 2) parseargs.simps) (auto simp: bindE_def split: sum.splits)
  qed
qed

lemma backs_le: "backs c s = (d, r) \<Longrightarrow> length r \<le> length s"
proof (induction c s rule: backs.induct)
  case (1 c s)
  obtain tok w s1 where t: "gettoken s = (tok, w, s1)" by (metis prod_cases3)
  show ?case
  proof (cases "peek [38] s")
    case True
    then have "backs (BACK c) s1 = (d, r)" using 1(2) t by (subst (asm) backs.simps) simp
    then show ?thesis using 1(1) [OF True t [symmetric] refl] gettoken_le [OF t] by simp
  next
    case False
    then show ?thesis using 1(2) length_skipws [of s] by (subst (asm) backs.simps) auto
  qed
qed

text \<open>A result within the depth: no divergence, and the rest is no longer than the input.\<close>

definition fine :: "kerr + cmd \<times> u8 list \<Rightarrow> u8 list \<Rightarrow> bool" where
  "fine m s \<longleftrightarrow> m \<noteq> Inl Diverges \<and> (\<forall>c r. m = Inr (c, r) \<longrightarrow> length r \<le> length s)"

lemma fineI: "m \<noteq> Inl Diverges \<Longrightarrow> (\<And>c r. m = Inr (c, r) \<Longrightarrow> length r \<le> length s) \<Longrightarrow> fine m s"
  by (simp add: fine_def)

lemma fine_bind:
  assumes "fine m s" and "\<And>c r. m = Inr (c, r) \<Longrightarrow> length r \<le> length s \<Longrightarrow> fine (f (c, r)) s"
  shows "fine (bindE m f) s"
  using assms by (cases m) (auto simp: fine_def)

lemma fine_mono: "fine m s \<Longrightarrow> length s \<le> length t \<Longrightarrow> fine m t"
  by (fastforce simp: fine_def)

lemma fine_Inr [simp]: "fine (Inr (c, r)) s \<longleftrightarrow> length r \<le> length s" and fine_Panic [simp]: "fine (Inl (Panic e)) s"
  by (simp_all add: fine_def)

lemma redirs_fine: "length s \<le> length t \<Longrightarrow> fine (bindE (parseredirs s) (\<lambda>(rs, r). Inr (f rs, r))) t"
proof (cases "parseredirs s")
  case (Inl e)
  then show ?thesis using parseredirs_ends [of s] by (simp add: fine_def)
next
  case (Inr x)
  obtain rs r where x: "x = (rs, r)" by force
  assume "length s \<le> length t"
  then show ?thesis using parseredirs_le [of s rs r] Inr x by simp
qed

lemma exec_fine:
  "fine (bindE (parseredirs (skipws s)) (\<lambda>(rs, s1). bindE (parseargs 0 s1) (\<lambda>((as, rs2), s2). Inr (wrap (EXEC as) (rs @ rs2), s2)))) s"
proof (cases "parseredirs (skipws s)")
  case (Inl e)
  then show ?thesis using parseredirs_ends [of "skipws s"] by (simp add: fine_def)
next
  case (Inr x)
  obtain rs s1 where x: "x = (rs, s1)" by force
  have "length s1 \<le> length s" using parseredirs_le [of "skipws s" rs s1] Inr x length_skipws [of s] by simp
  then show ?thesis using Inr x parseargs_result [of 0 s1] by (cases "parseargs 0 s1") (auto simp: fine_def)
qed

lemma parse_fine:
  "4 * length s + 4 \<le> n \<Longrightarrow> fine (parseline n s) s"
  "4 * length s + 3 \<le> n \<Longrightarrow> fine (parsepipe n s) s"
  "4 * length s + 2 \<le> n \<Longrightarrow> fine (parseexec n s) s"
  "4 * length s + 1 \<le> n \<Longrightarrow> fine (parseblock n s) s"
proof (induction n arbitrary: s)
  case (Suc n)
  have gt: "\<exists>t w r. gettoken u = (t, w, r) \<and> length r < length u" if "peek toks u" for toks u
    using gettoken_shorter peek_ne [OF that] by (metis prod_cases3)
  {
    case 1
    show ?case
      unfolding parseline.simps
    proof (rule fine_bind)
      show "fine (parsepipe n s) s" using Suc.IH(2) [of s] 1 by simp
      fix c and s1 :: "u8 list"
      assume l: "length s1 \<le> length s"
      obtain c1 s2 where b: "backs c s1 = (c1, s2)" by force
      have l2: "length s2 \<le> length s" using backs_le [OF b] l by simp
      show "fine (case (c, s1) of (c, s1) \<Rightarrow> case backs c s1 of (c1, s2) \<Rightarrow> if peek [59] s2 then
            case gettoken s2 of (_, _, s3) \<Rightarrow> bindE (parseline n s3) (\<lambda>(d, s4). Inr (LIST c1 d, s4)) else Inr (c1, skipws s2)) s"
      proof (cases "peek [59] s2")
        case True
        then obtain t w s3 where g: "gettoken s2 = (t, w, s3)" "length s3 < length s2" using gt by blast
        have "fine (parseline n s3) s" using Suc.IH(1) [of s3] 1 g l2 by (intro fine_mono [of _ s3 s]) simp_all
        then have "fine (bindE (parseline n s3) (\<lambda>(d, s4). Inr (LIST c1 d, s4))) s" by (rule fine_bind) simp
        then show ?thesis using True b g by simp
      next
        case False
        then show ?thesis using b l2 length_skipws [of s2] by simp
      qed
    qed
  next
    case 2
    show ?case
      unfolding parsepipe.simps
    proof (rule fine_bind)
      show "fine (parseexec n s) s" using Suc.IH(3) [of s] 2 by simp
      fix c and s1 :: "u8 list"
      assume l: "length s1 \<le> length s"
      show "fine (case (c, s1) of (c, s1) \<Rightarrow> if peek [124] s1 then
            case gettoken s1 of (_, _, s2) \<Rightarrow> bindE (parsepipe n s2) (\<lambda>(d, s3). Inr (PIPE c d, s3)) else Inr (c, skipws s1)) s"
      proof (cases "peek [124] s1")
        case True
        then obtain t w s2 where g: "gettoken s1 = (t, w, s2)" "length s2 < length s1" using gt by blast
        have "fine (parsepipe n s2) s" using Suc.IH(2) [of s2] 2 g l by (intro fine_mono [of _ s2 s]) simp_all
        then have "fine (bindE (parsepipe n s2) (\<lambda>(d, s3). Inr (PIPE c d, s3))) s" by (rule fine_bind) simp
        then show ?thesis using True g by simp
      next
        case False
        then show ?thesis using l length_skipws [of s1] by simp
      qed
    qed
  next
    case 3
    have "fine (parseblock n (skipws s)) s" using Suc.IH(4) [of "skipws s"] 3 length_skipws [of s] by (intro fine_mono [of _ "skipws s" s]) simp_all
    then show ?case using exec_fine [of s] by simp
  next
    case 4
    show ?case
    proof (cases "peek [40] s")
      case True
      then obtain t w s1 where g: "gettoken s = (t, w, s1)" "length s1 < length s" using gt by blast
      have "fine (parseline n s1) s" using Suc.IH(1) [of s1] 4 g by (intro fine_mono [of _ s1 s]) simp_all
      then have "fine (bindE (parseline n s1) (\<lambda>(c, s2). if \<not> peek [41] s2 then Inl (Panic ''syntax - missing )'')
           else case gettoken s2 of (_, _, s3) \<Rightarrow> bindE (parseredirs s3) (\<lambda>(rs, s4). Inr (wrap c rs, s4)))) s"
      proof (rule fine_bind)
        fix c and s2 :: "u8 list"
        assume l: "length s2 \<le> length s"
        obtain t w s3 where g: "gettoken s2 = (t, w, s3)" by (metis prod_cases3)
        then have "length s3 \<le> length s" using gettoken_le l by fastforce
        then show "fine (case (c, s2) of (c, s2) \<Rightarrow> if \<not> peek [41] s2 then Inl (Panic ''syntax - missing )'')
           else case gettoken s2 of (_, _, s3) \<Rightarrow> bindE (parseredirs s3) (\<lambda>(rs, s4). Inr (wrap c rs, s4))) s"
          using redirs_fine [of s3 s "wrap c"] g by simp
      qed
      then show ?thesis using True g by simp
    qed simp
  }
qed simp_all

section \<open>More depth changes nothing\<close>

definition agrees :: "kerr + cmd \<times> u8 list \<Rightarrow> kerr + cmd \<times> u8 list \<Rightarrow> bool" where
  "agrees a b \<longleftrightarrow> a = Inl Diverges \<or> a = b"

lemma agrees_bind: "agrees a b \<Longrightarrow> (\<And>x. agrees (f x) (g x)) \<Longrightarrow> agrees (bindE a f) (bindE b g)"
  by (cases a; cases b) (auto simp: agrees_def)

lemma agrees_refl [simp]: "agrees a a"
  by (simp add: agrees_def)

lemma parse_agrees:
  "agrees (parseline n s) (parseline (Suc n) s)" "agrees (parsepipe n s) (parsepipe (Suc n) s)"
  "agrees (parseexec n s) (parseexec (Suc n) s)" "agrees (parseblock n s) (parseblock (Suc n) s)"
proof (induction n arbitrary: s)
  case 0
  show "agrees (parseline 0 s) (parseline (Suc 0) s)" "agrees (parsepipe 0 s) (parsepipe (Suc 0) s)"
    "agrees (parseexec 0 s) (parseexec (Suc 0) s)" "agrees (parseblock 0 s) (parseblock (Suc 0) s)" for s
    by (simp_all add: agrees_def)
next
  case (Suc n)
  have L: "agrees (bindE (parseline n u) f) (bindE (parseline (Suc n) u) f)" for u f by (rule agrees_bind [OF Suc.IH(1)]) simp
  have P: "agrees (bindE (parsepipe n u) f) (bindE (parsepipe (Suc n) u) f)" for u f by (rule agrees_bind [OF Suc.IH(2)]) simp
  show "agrees (parseline (Suc n) s) (parseline (Suc (Suc n)) s)" for s
    unfolding parseline.simps(2) [of n s] parseline.simps(2) [of "Suc n" s]
    by (rule agrees_bind [OF Suc.IH(2)]) (auto simp del: parseline.simps intro: L split: prod.splits)
  show "agrees (parsepipe (Suc n) s) (parsepipe (Suc (Suc n)) s)" for s
    unfolding parsepipe.simps(2) [of n s] parsepipe.simps(2) [of "Suc n" s]
    by (rule agrees_bind [OF Suc.IH(3)]) (auto simp del: parsepipe.simps intro: P split: prod.splits)
  show "agrees (parseexec (Suc n) s) (parseexec (Suc (Suc n)) s)" for s
    unfolding parseexec.simps(2) [of n s] parseexec.simps(2) [of "Suc n" s] using Suc.IH(4) by simp
  show "agrees (parseblock (Suc n) s) (parseblock (Suc (Suc n)) s)" for s
    unfolding parseblock.simps(2) [of n s] parseblock.simps(2) [of "Suc n" s]
    by (auto simp del: parseline.simps intro: L split: prod.splits)
qed

lemma parseline_more:
  assumes "4 * length s + 4 \<le> n" and "n \<le> m"
  shows "parseline m s = parseline n s"
  using assms(2)
proof (induction m rule: dec_induct)
  case (step m)
  have "parseline m s \<noteq> Inl Diverges" using parse_fine(1) [of s n] assms(1) step.IH by (simp add: fine_def)
  then show ?case using parse_agrees(1) [of m s] step.IH by (simp add: agrees_def)
qed simp

section \<open>Printing\<close>

definition word_ok :: "u8 list \<Rightarrow> bool" where
  "word_ok w \<longleftrightarrow> w \<noteq> [] \<and> (\<forall>c \<in> set w. isword c \<and> c \<noteq> 0)"

definition redir_ok :: "redir \<Rightarrow> bool" where
  "redir_ok = (\<lambda>(f, mode, fd). word_ok f \<and> (mode = 0 \<and> fd = 0 \<or> mode = 0x201 \<and> fd = 1))"

fun cmd_ok :: "cmd \<Rightarrow> bool" where
  "cmd_ok (EXEC as) \<longleftrightarrow> length as < MAXARGS \<and> (\<forall>w \<in> set as. word_ok w)"
| "cmd_ok (REDIR c f mode fd) \<longleftrightarrow> cmd_ok c \<and> redir_ok (f, mode, fd)"
| "cmd_ok (PIPE c d) \<longleftrightarrow> cmd_ok c \<and> cmd_ok d"
| "cmd_ok (LIST c d) \<longleftrightarrow> cmd_ok c \<and> cmd_ok d"
| "cmd_ok (BACK c) \<longleftrightarrow> cmd_ok c"

definition show_redir :: "redir \<Rightarrow> u8 list" where
  "show_redir = (\<lambda>(f, mode, fd). (if mode = 0 then 60 else 62) # f @ [32])"

definition show_words :: "u8 list list \<Rightarrow> u8 list" where
  "show_words as = concat (map (\<lambda>w. w @ [32]) as)"

text \<open>A command is put in parentheses where the grammar asks for a simple one.\<close>

fun show_line :: "cmd \<Rightarrow> u8 list" and show_back :: "cmd \<Rightarrow> u8 list" and show_pipe :: "cmd \<Rightarrow> u8 list" and show_atom :: "cmd \<Rightarrow> u8 list" where
  "show_line (EXEC as) = show_words as"
| "show_line (REDIR c f mode fd) = show_atom c @ show_redir (f, mode, fd)"
| "show_line (PIPE c d) = show_atom c @ 124 # show_pipe d"
| "show_line (LIST c d) = show_back c @ 59 # show_line d"
| "show_line (BACK c) = show_back c @ [38]"
| "show_back (EXEC as) = show_words as"
| "show_back (REDIR c f mode fd) = show_atom c @ show_redir (f, mode, fd)"
| "show_back (PIPE c d) = show_atom c @ 124 # show_pipe d"
| "show_back (LIST c d) = 40 # (show_back c @ 59 # show_line d) @ [41]"
| "show_back (BACK c) = show_back c @ [38]"
| "show_pipe (EXEC as) = show_words as"
| "show_pipe (REDIR c f mode fd) = show_atom c @ show_redir (f, mode, fd)"
| "show_pipe (PIPE c d) = show_atom c @ 124 # show_pipe d"
| "show_pipe (LIST c d) = 40 # (show_back c @ 59 # show_line d) @ [41]"
| "show_pipe (BACK c) = 40 # (show_back c @ [38]) @ [41]"
| "show_atom (EXEC as) = show_words as"
| "show_atom (REDIR c f mode fd) = show_atom c @ show_redir (f, mode, fd)"
| "show_atom (PIPE c d) = 40 # (show_atom c @ 124 # show_pipe d) @ [41]"
| "show_atom (LIST c d) = 40 # (show_back c @ 59 # show_line d) @ [41]"
| "show_atom (BACK c) = 40 # (show_back c @ [38]) @ [41]"

text \<open>Where a printed part may end: at the end of the line or in front of one of the symbols \<open>ts\<close>.\<close>

definition stops :: "u8 list \<Rightarrow> u8 list \<Rightarrow> bool" where
  "stops ts r \<longleftrightarrow> r = [] \<or> hd r \<in> set ts"

lemma sym_simps [simp]:
  "c \<in> set symbols \<Longrightarrow> skipws (c # r) = c # r" "c \<in> set symbols \<Longrightarrow> peek ts (c # r) = (c \<in> set ts)"
  "c \<in> {124, 40, 41, 59, 38, 60} \<Longrightarrow> gettoken (c # r) = (c, [c], skipws r)"
  by (auto simp: symbols_def whitespace_def peek_def gettoken_def)

lemma stops_skip: "stops ts r \<Longrightarrow> set ts \<subseteq> set symbols \<Longrightarrow> skipws r = r"
  by (cases r) (auto simp: stops_def symbols_def whitespace_def)

lemma stops_peek: "stops ts r \<Longrightarrow> set ts \<subseteq> set symbols \<Longrightarrow> set us \<inter> set ts = {} \<Longrightarrow> \<not> peek us r"
  using stops_skip [of ts r] by (cases r) (auto simp: stops_def peek_def)

lemma word_first: "word_ok w \<Longrightarrow> w = hd w # tl w \<and> isword (hd w)"
  by (cases w) (auto simp: word_ok_def)

lemma isword_props: "isword c \<Longrightarrow> c \<notin> set whitespace \<and> c \<notin> set symbols \<and> c \<notin> {124, 40, 41, 59, 38, 60} \<and> c \<noteq> 62"
  by (auto simp: isword_def symbols_def)

lemma word_simps:
  assumes "word_ok w"
  shows "skipws (w @ r) = w @ r" and "set ts \<subseteq> set symbols \<Longrightarrow> \<not> peek ts (w @ r)" and "gettoken (w @ 32 # r) = (97, w, skipws r)"
proof -
  obtain c u where w: "w = c # u" "isword c" using word_first [OF assms] by metis
  note p = isword_props [OF w(2)]
  show "skipws (w @ r) = w @ r" using p w(1) by simp
  show "set ts \<subseteq> set symbols \<Longrightarrow> \<not> peek ts (w @ r)" using p w(1) by (auto simp: peek_def)
  have all: "\<forall>c \<in> set w. isword c" using assms by (simp add: word_ok_def)
  have sp: "\<not> isword 32" "32 \<in> set whitespace" by (simp_all add: isword_def whitespace_def)
  have "takeWhile isword (w @ 32 # r) = w" "dropWhile isword (w @ 32 # r) = 32 # r" using all sp(1) by simp_all
  then show "gettoken (w @ 32 # r) = (97, w, skipws r)" using p w(1) sp(2) by (simp add: gettoken_def)
qed

lemma show_redir_first: "\<exists>c u. show_redir x = c # u \<and> c \<in> {60, 62}"
  by (cases x) (auto simp: show_redir_def)

text \<open>What follows a list of words or redirections starts with a word or a stop.\<close>

definition calm :: "u8 list \<Rightarrow> bool" where
  "calm r \<longleftrightarrow> skipws r = r \<and> \<not> peek [60, 62] r"

lemma parseredirs_show:
  "\<forall>x \<in> set rs. redir_ok x \<Longrightarrow> calm r \<Longrightarrow> parseredirs (concat (map show_redir rs) @ r) = Inr (rs, r) \<and>
   skipws (concat (map show_redir rs) @ r) = concat (map show_redir rs) @ r"
proof (induction rs)
  case Nil
  then show ?case by (subst parseredirs.simps) (simp add: calm_def)
next
  case (Cons x rs)
  obtain f mode fd where x: "x = (f, mode, fd)" by (metis prod_cases3)
  have f: "word_ok f" and md: "mode = 0 \<and> fd = 0 \<or> mode = 0x201 \<and> fd = 1" using Cons.prems(1) by (auto simp: x redir_ok_def)
  let ?c = "if mode = 0 then 60 else 62 :: u8" and ?r = "concat (map show_redir rs) @ r"
  have ih: "parseredirs ?r = Inr (rs, r)" "skipws ?r = ?r" using Cons by simp_all
  have c: "?c \<in> set symbols" by (simp add: symbols_def)
  have s: "concat (map show_redir (x # rs)) @ r = ?c # f @ 32 # ?r" by (simp add: show_redir_def x)
  obtain d u where d: "f = d # u" "d \<noteq> 62" using word_first [OF f] isword_props by metis
  have g: "gettoken (?c # f @ 32 # ?r) = (?c, [?c], f @ 32 # ?r)"
  proof (cases "mode = 0")
    case True
    then show ?thesis using word_simps(1) [OF f] by simp
  next
    case False
    have "(62 :: u8) \<notin> set whitespace" "(62 :: u8) \<notin> {124, 40, 41, 59, 38, 60}" by (simp_all add: whitespace_def)
    then have "gettoken (62 # f @ 32 # ?r) = (62, [62], skipws (f @ 32 # ?r))" using d by (simp add: gettoken_def)
    then show ?thesis using False word_simps(1) [OF f] by simp
  qed
  have "parseredirs (?c # f @ 32 # ?r) = Inr (redir_of ?c f # rs, r)"
    using c g word_simps(3) [OF f, of ?r] ih by (subst parseredirs.simps) simp
  then show ?case using md c unfolding s by (auto simp: redir_of_def x whitespace_def)
qed

lemma calm_stop: "stops [124, 41, 38, 59] r \<Longrightarrow> calm r"
  using stops_skip [of "[124, 41, 38, 59]" r] stops_peek [of "[124, 41, 38, 59]" r "[60, 62]"] by (simp add: calm_def symbols_def)

lemma calm_word: "word_ok w \<Longrightarrow> calm (w @ r)"
  using word_simps(1) [of w r] word_simps(2) [of w "[60, 62]" r] by (simp add: calm_def symbols_def)

lemma parseargs_show:
  "\<forall>w \<in> set as. word_ok w \<Longrightarrow> \<forall>x \<in> set rs. redir_ok x \<Longrightarrow> stops [124, 41, 38, 59] r \<Longrightarrow> as \<noteq> [] \<Longrightarrow> argc + length as < MAXARGS \<Longrightarrow>
   parseargs argc (show_words as @ concat (map show_redir rs) @ r) = Inr ((as, rs), r)"
proof (induction as arbitrary: argc)
  case (Cons w as)
  have w: "word_ok w" using Cons.prems(1) by simp
  let ?R = "concat (map show_redir rs) @ r"
  let ?s = "show_words as @ ?R"
  have s: "show_words (w # as) @ ?R = w @ 32 # ?s" by (simp add: show_words_def)
  have stop: "parseargs k r = Inr (([], []), r)" for k
  proof (cases "r = []")
    case True
    then show ?thesis by (subst parseargs.simps) (simp add: peek_def gettoken_def)
  next
    case False
    then have "peek [124, 41, 38, 59] r" using stops_skip [OF Cons.prems(3)] Cons.prems(3) by (cases r) (auto simp: peek_def stops_def symbols_def)
    then show ?thesis using stops_skip [OF Cons.prems(3)] by (subst parseargs.simps) (simp add: symbols_def)
  qed
  have np: "\<not> peek [124, 41, 38, 59] (w @ 32 # ?s)" using word_simps(2) [OF w] by (simp add: symbols_def)
  have lt: "\<not> MAXARGS \<le> argc + 1" using Cons.prems(5) by simp
  show ?case
  proof (cases as)
    case Nil
    then have "skipws ?s = ?R" "parseredirs ?R = Inr (rs, r)"
      using parseredirs_show [OF Cons.prems(2) calm_stop [OF Cons.prems(3)]] by (simp_all add: show_words_def)
    then show ?thesis unfolding s using np lt word_simps(3) [OF w, of ?s] stop Nil by (subst parseargs.simps) simp
  next
    case (Cons v vs)
    have v: "word_ok v" using Cons.prems(1) Cons by simp
    have sv: "?s = v @ 32 # show_words vs @ ?R" using Cons by (simp add: show_words_def)
    have "calm ?s" unfolding sv by (rule calm_word [OF v])
    then have "skipws ?s = ?s" "parseredirs ?s = Inr ([], ?s)" using parseredirs_show [of "[]" ?s] by (simp_all add: calm_def)
    moreover have "parseargs (argc + 1) ?s = Inr ((as, rs), r)" using Cons.IH [of "argc + 1"] Cons.prems Cons by simp
    ultimately show ?thesis unfolding s using np lt word_simps(3) [OF w, of ?s] by (subst parseargs.simps) simp
  qed
qed simp

section \<open>Reading back\<close>

lemma parse_skipws [simp]:
  "parseexec n (skipws s) = parseexec n s" "parsepipe n (skipws s) = parsepipe n s" "parseline n (skipws s) = parseline n s"
proof -
  have pk: "peek ts (skipws s) = peek ts s" for ts by (simp add: peek_def)
  show e: "parseexec n (skipws s) = parseexec n s" for n by (cases n) (simp_all add: pk)
  show p: "parsepipe n (skipws s) = parsepipe n s" for n by (cases n) (simp_all add: e)
  show "parseline n (skipws s) = parseline n s" by (cases n) (simp_all add: p)
qed

definition reads_atom :: "nat \<Rightarrow> cmd \<Rightarrow> bool" where
  "reads_atom n c \<longleftrightarrow> (\<forall>rs r. (\<forall>x \<in> set rs. redir_ok x) \<longrightarrow> stops [124, 41, 38, 59] r \<longrightarrow>
     parseexec n (show_atom c @ concat (map show_redir rs) @ r) = Inr (wrap c rs, r))"

definition reads_pipe :: "nat \<Rightarrow> cmd \<Rightarrow> bool" where
  "reads_pipe n c \<longleftrightarrow> (\<forall>r. stops [41, 38, 59] r \<longrightarrow> parsepipe n (show_pipe c @ r) = Inr (c, r))"

definition reads_back :: "nat \<Rightarrow> cmd \<Rightarrow> bool" where
  "reads_back n c \<longleftrightarrow> (\<forall>r. stops [41, 38, 59] r \<longrightarrow> (\<exists>b s. parsepipe n (show_back c @ r) = Inr (b, s) \<and> backs b s = backs c r))"

definition reads_line :: "nat \<Rightarrow> cmd \<Rightarrow> bool" where
  "reads_line n c \<longleftrightarrow> (\<forall>r. stops [41] r \<longrightarrow> parseline n (show_line c @ r) = Inr (c, r))"

definition reads :: "nat \<Rightarrow> cmd \<Rightarrow> bool" where
  "reads n c \<longleftrightarrow> reads_atom n c \<and> reads_pipe n c \<and> reads_back n c \<and> reads_line n c"

lemmas subset_symbols = symbols_def

lemma stops_more: "stops ts r \<Longrightarrow> set ts \<subseteq> set us \<Longrightarrow> stops us r"
  by (auto simp: stops_def)

lemma pipe_of_atom:
  assumes "reads_atom n c" and "show_pipe c = show_atom c"
  shows "reads_pipe (Suc n) c"
  unfolding reads_pipe_def
proof (intro allI impI)
  fix r
  assume r: "stops [41, 38, 59] r"
  have "parseexec n (show_atom c @ concat (map show_redir []) @ r) = Inr (wrap c [], r)"
    using assms(1) [unfolded reads_atom_def, rule_format, of "[]" r] stops_more [OF r, of "[124, 41, 38, 59]"] by simp
  moreover have "\<not> peek [124] r" "skipws r = r"
    using stops_peek [OF r, of "[124]"] stops_skip [OF r] by (simp_all add: symbols_def)
  ultimately show "parsepipe (Suc n) (show_pipe c @ r) = Inr (c, r)" using assms(2) by simp
qed

lemma back_of_pipe: "reads_pipe n c \<Longrightarrow> show_back c = show_pipe c \<Longrightarrow> reads_back n c"
  by (auto simp: reads_pipe_def reads_back_def)

lemma line_of_back:
  assumes "reads_back n c" and "show_line c = show_back c"
  shows "reads_line (Suc n) c"
  unfolding reads_line_def
proof (intro allI impI)
  fix r
  assume r: "stops [41] r"
  obtain b s where b: "parsepipe n (show_back c @ r) = Inr (b, s)" "backs b s = backs c r"
    using assms(1) stops_more [OF r, of "[41, 38, 59]"] unfolding reads_back_def by auto
  have e: "\<not> peek [38] r" "\<not> peek [59] r" "skipws r = r"
    using stops_peek [OF r, of "[38]"] stops_peek [OF r, of "[59]"] stops_skip [OF r] by (simp_all add: symbols_def)
  then have "backs c r = (c, r)" by (subst backs.simps) simp
  then show "parseline (Suc n) (show_line c @ r) = Inr (c, r)" using b e assms(2) by simp
qed

lemma atom_of_line:
  assumes "reads_line n c" and a: "show_atom c = 40 # show_line c @ [41]"
  shows "reads_atom (Suc (Suc n)) c"
  unfolding reads_atom_def
proof (intro allI impI)
  fix rs r
  assume rs: "\<forall>x \<in> set rs. redir_ok x" and r: "stops [124, 41, 38, 59] r"
  let ?R = "concat (map show_redir rs) @ r"
  have "parseline n (show_line c @ 41 # ?R) = Inr (c, 41 # ?R)" using assms(1) by (simp add: reads_line_def stops_def)
  moreover have "parseredirs ?R = Inr (rs, r)" "skipws ?R = ?R" using parseredirs_show [OF rs calm_stop [OF r]] by simp_all
  ultimately show "parseexec (Suc (Suc n)) (show_atom c @ ?R) = Inr (wrap c rs, r)"
    using a by (simp add: symbols_def peek_def whitespace_def gettoken_def)
qed

lemma exec_atom:
  assumes "cmd_ok (EXEC as)"
  shows "reads_atom (Suc n) (EXEC as)"
  unfolding reads_atom_def
proof (intro allI impI)
  fix rs r
  assume rs: "\<forall>x \<in> set rs. redir_ok x" and r: "stops [124, 41, 38, 59] r"
  let ?R = "concat (map show_redir rs) @ r"
  have ok: "\<forall>w \<in> set as. word_ok w" "length as < MAXARGS" using assms by auto
  note R = parseredirs_show [OF rs calm_stop [OF r]]
  show "parseexec (Suc n) (show_atom (EXEC as) @ ?R) = Inr (wrap (EXEC as) rs, r)"
  proof (cases as)
    case Nil
    have "\<not> peek [40] ?R"
    proof (cases rs)
      case Nil
      then show ?thesis using stops_peek [OF r, of "[40]"] by (simp add: symbols_def)
    next
      case (Cons x xs)
      obtain c u where "show_redir x = c # u" "c \<in> {60, 62}" using show_redir_first by blast
      then show ?thesis using Cons by (auto simp: peek_def whitespace_def)
    qed
    moreover have "parseargs 0 r = Inr (([], []), r)"
    proof (cases "r = []")
      case True
      then show ?thesis by (subst parseargs.simps) (simp add: peek_def gettoken_def)
    next
      case False
      then have "peek [124, 41, 38, 59] r" using stops_skip [OF r] r by (cases r) (auto simp: peek_def stops_def symbols_def)
      then show ?thesis using stops_skip [OF r] by (subst parseargs.simps) (simp add: symbols_def)
    qed
    ultimately show ?thesis using Nil R by (simp add: show_words_def)
  next
    case (Cons w ws)
    let ?s = "show_words as @ ?R"
    have w: "word_ok w" using ok(1) Cons by simp
    have s: "?s = w @ 32 # show_words ws @ ?R" using Cons by (simp add: show_words_def)
    have "calm ?s" "\<not> peek [40] ?s" unfolding s using calm_word [OF w] word_simps(2) [OF w, of "[40]"] by (simp_all add: symbols_def)
    then have "skipws ?s = ?s" "parseredirs ?s = Inr ([], ?s)" using parseredirs_show [of "[]" ?s] by (simp_all add: calm_def)
    moreover have "parseargs 0 ?s = Inr ((as, rs), r)" using parseargs_show [OF ok(1) rs r, of 0] ok(2) Cons by simp
    ultimately show ?thesis using \<open>\<not> peek [40] ?s\<close> by simp
  qed
qed

lemma redir_atom:
  assumes "reads_atom n c" and "redir_ok (f, mode, fd)"
  shows "reads_atom n (REDIR c f mode fd)"
  unfolding reads_atom_def
proof (intro allI impI)
  fix rs r
  assume "\<forall>x \<in> set rs. redir_ok x" "stops [124, 41, 38, 59] r"
  then show "parseexec n (show_atom (REDIR c f mode fd) @ concat (map show_redir rs) @ r) = Inr (wrap (REDIR c f mode fd) rs, r)"
    using assms(1) [unfolded reads_atom_def, rule_format, of "(f, mode, fd) # rs" r] assms(2) by auto
qed

lemma pipe_pipe:
  assumes "reads_atom n c" and "reads_pipe n d"
  shows "reads_pipe (Suc n) (PIPE c d)"
  unfolding reads_pipe_def
proof (intro allI impI)
  fix r
  assume r: "stops [41, 38, 59] r"
  have "parseexec n (show_atom c @ concat (map show_redir []) @ 124 # show_pipe d @ r) = Inr (wrap c [], 124 # show_pipe d @ r)"
    using assms(1) [unfolded reads_atom_def, rule_format, of "[]" "124 # show_pipe d @ r"] by (simp add: stops_def)
  then show "parsepipe (Suc n) (show_pipe (PIPE c d) @ r) = Inr (PIPE c d, r)"
    using assms(2) r by (simp add: reads_pipe_def symbols_def)
qed

lemma back_back:
  assumes "reads_back n c"
  shows "reads_back n (BACK c)"
  unfolding reads_back_def
proof (intro allI impI)
  fix r
  assume r: "stops [41, 38, 59] r"
  have sym: "(38 :: u8) \<in> set symbols" by (simp add: symbols_def)
  have "backs c (38 # r) = backs (BACK c) r" using stops_skip [OF r] sym by (subst backs.simps) (simp add: symbols_def)
  then show "\<exists>b s. parsepipe n (show_back (BACK c) @ r) = Inr (b, s) \<and> backs b s = backs (BACK c) r"
    using assms [unfolded reads_back_def, rule_format, of "38 # r"] by (simp add: stops_def)
qed

lemma list_line:
  assumes "reads_back n c" and "reads_line n d"
  shows "reads_line (Suc n) (LIST c d)"
  unfolding reads_line_def
proof (intro allI impI)
  fix r
  assume r: "stops [41] r"
  let ?s = "59 # show_line d @ r"
  obtain b s where b: "parsepipe n (show_back c @ ?s) = Inr (b, s)" "backs b s = backs c ?s"
    using assms(1) [unfolded reads_back_def, rule_format, of ?s] by (auto simp: stops_def)
  have "backs c ?s = (c, ?s)" by (subst backs.simps) (simp add: symbols_def whitespace_def)
  then show "parseline (Suc n) (show_line (LIST c d) @ r) = Inr (LIST c d, r)"
    using b assms(2) r by (simp add: reads_line_def symbols_def)
qed

lemma eventually_SucI:
  assumes "eventually P sequentially" and "\<And>n. P n \<Longrightarrow> Q (Suc n)"
  shows "eventually Q sequentially"
  using eventually_mono [OF assms(1), of "\<lambda>n. Q (Suc n)"] assms(2) eventually_sequentially_Suc [of Q] by blast

lemma eventually_reads_atom:
  assumes "eventually (\<lambda>n. reads_line n c) sequentially" and "show_atom c = 40 # show_line c @ [41]"
  shows "eventually (\<lambda>n. reads_atom n c) sequentially"
proof -
  have "eventually (\<lambda>n. reads_atom (Suc n) c) sequentially"
    by (rule eventually_SucI [OF assms(1)]) (rule atom_of_line [OF _ assms(2)])
  then show ?thesis using eventually_sequentially_Suc [of "\<lambda>n. reads_atom n c"] by simp
qed

lemma eventually_reads:
  "cmd_ok c \<Longrightarrow>
   eventually (\<lambda>n. reads_atom n c) sequentially \<and> eventually (\<lambda>n. reads_pipe n c) sequentially \<and>
   eventually (\<lambda>n. reads_back n c) sequentially \<and> eventually (\<lambda>n. reads_line n c) sequentially"
proof (induction c)
  case (EXEC as)
  have a: "eventually (\<lambda>n. reads_atom n (EXEC as)) sequentially" by (rule eventually_SucI [of "\<lambda>_. True"]) (simp, rule exec_atom [OF EXEC])
  have p: "eventually (\<lambda>n. reads_pipe n (EXEC as)) sequentially" by (rule eventually_SucI [OF a]) (rule pipe_of_atom, simp_all)
  have b: "eventually (\<lambda>n. reads_back n (EXEC as)) sequentially" by (rule eventually_mono [OF p]) (rule back_of_pipe, simp_all)
  have "eventually (\<lambda>n. reads_line n (EXEC as)) sequentially" by (rule eventually_SucI [OF b]) (rule line_of_back, simp_all)
  with a p b show ?case by blast
next
  case (REDIR c f mode fd)
  have a: "eventually (\<lambda>n. reads_atom n (REDIR c f mode fd)) sequentially"
    by (rule eventually_mono [of "\<lambda>n. reads_atom n c"]) (use REDIR in \<open>simp_all add: redir_atom\<close>)
  have p: "eventually (\<lambda>n. reads_pipe n (REDIR c f mode fd)) sequentially" by (rule eventually_SucI [OF a]) (rule pipe_of_atom, simp_all)
  have b: "eventually (\<lambda>n. reads_back n (REDIR c f mode fd)) sequentially" by (rule eventually_mono [OF p]) (rule back_of_pipe, simp_all)
  have "eventually (\<lambda>n. reads_line n (REDIR c f mode fd)) sequentially" by (rule eventually_SucI [OF b]) (rule line_of_back, simp_all)
  with a p b show ?case by blast
next
  case (PIPE c d)
  have "eventually (\<lambda>n. reads_atom n c \<and> reads_pipe n d) sequentially" using PIPE by (simp add: eventually_conj)
  then have p: "eventually (\<lambda>n. reads_pipe n (PIPE c d)) sequentially" by (rule eventually_SucI) (rule pipe_pipe, simp_all)
  have b: "eventually (\<lambda>n. reads_back n (PIPE c d)) sequentially" by (rule eventually_mono [OF p]) (rule back_of_pipe, simp_all)
  have l: "eventually (\<lambda>n. reads_line n (PIPE c d)) sequentially" by (rule eventually_SucI [OF b]) (rule line_of_back, simp_all)
  have "eventually (\<lambda>n. reads_atom n (PIPE c d)) sequentially" by (rule eventually_reads_atom [OF l]) simp
  with p b l show ?case by blast
next
  case (LIST c d)
  have "eventually (\<lambda>n. reads_back n c \<and> reads_line n d) sequentially" using LIST by (simp add: eventually_conj)
  then have l: "eventually (\<lambda>n. reads_line n (LIST c d)) sequentially" by (rule eventually_SucI) (rule list_line, simp_all)
  have a: "eventually (\<lambda>n. reads_atom n (LIST c d)) sequentially" by (rule eventually_reads_atom [OF l]) simp
  have p: "eventually (\<lambda>n. reads_pipe n (LIST c d)) sequentially" by (rule eventually_SucI [OF a]) (rule pipe_of_atom, simp_all)
  have "eventually (\<lambda>n. reads_back n (LIST c d)) sequentially" by (rule eventually_mono [OF p]) (rule back_of_pipe, simp_all)
  with a p l show ?case by blast
next
  case (BACK c)
  have b: "eventually (\<lambda>n. reads_back n (BACK c)) sequentially" 
    by (rule eventually_mono [of "\<lambda>n. reads_back n c"]) (use BACK in \<open>simp_all add: back_back\<close>)
  have l: "eventually (\<lambda>n. reads_line n (BACK c)) sequentially" by (rule eventually_SucI [OF b]) (rule line_of_back, simp_all)
  have a: "eventually (\<lambda>n. reads_atom n (BACK c)) sequentially" by (rule eventually_reads_atom [OF l]) simp
  have "eventually (\<lambda>n. reads_pipe n (BACK c)) sequentially" by (rule eventually_SucI [OF a]) (rule pipe_of_atom, simp_all)
  with a b l show ?case by blast
qed

text \<open>C20. The shell's parser reads every command back from its printed form: a command whose words are non-empty and free of separators and which has
  fewer than \<^verbatim>\<open>MAXARGS\<close> words in each simple command, printed with the operators of the shell and with parentheses where the grammar asks for a
  simple command, is parsed to the same tree; so the precedence of redirection, pipe, background and list is the one the printer uses, and the
  parser ends on it.\<close>

theorem parsecmd_show:
  assumes "cmd_ok c"
  shows "parsecmd (show_line c) = Inr c"
proof -
  obtain K where "\<forall>n \<ge> K. reads_line n c" using eventually_reads [OF assms] by (auto simp: eventually_sequentially)
  then have "parseline (max K (4 * length (show_line c) + 4)) (show_line c @ []) = Inr (c, [])" by (simp add: reads_line_def stops_def)
  then show ?thesis using parseline_more [of "show_line c" "4 * length (show_line c) + 4" "max K (4 * length (show_line c) + 4)"]
    by (simp add: parsecmd_def)
qed

theorem parsecmd_show_witness:
  "show_line (LIST (BACK (PIPE (EXEC [[108, 115]]) (REDIR (EXEC [[119, 99]]) [111] 0x201 1))) (EXEC [[120]])) =
     [108, 115, 32, 124, 119, 99, 32, 62, 111, 32, 38, 59, 120, 32] \<and>
   parsecmd [108, 115, 32, 124, 119, 99, 32, 62, 111, 32, 38, 59, 120, 32] =
     Inr (LIST (BACK (PIPE (EXEC [[108, 115]]) (REDIR (EXEC [[119, 99]]) [111] 0x201 1))) (EXEC [[120]]))"
proof -
  let ?c = "LIST (BACK (PIPE (EXEC [[108, 115]]) (REDIR (EXEC [[119, 99]]) [111] 0x201 1))) (EXEC [[120]])"
  have s: "show_line ?c = [108, 115, 32, 124, 119, 99, 32, 62, 111, 32, 38, 59, 120, 32]"
    by (simp add: show_words_def show_redir_def)
  have "cmd_ok ?c" by (simp add: word_ok_def redir_ok_def isword_def whitespace_def symbols_def MAXARGS_def)
  from parsecmd_show [OF this] s show ?thesis by simp
qed

text \<open>C36. The parser ends on every line: with the depth \<^verbatim>\<open>parsecmd\<close> starts from, four levels for each byte and four more, it returns a command or
  one of the syntax errors of the code.\<close>

theorem parsecmd_terminates: "parsecmd s \<noteq> Inl Diverges"
proof -
  have "parseline (4 * length s + 4) s \<noteq> Inl Diverges" using parse_fine(1) [of s "4 * length s + 4"] by (simp add: fine_def)
  then show ?thesis by (auto simp: parsecmd_def bindE_def split: sum.splits)
qed

end
