(* ===== verification/Print.thy ===== *)
theory Print
  imports Bytes
begin

text \<open>
  Printing numbers, as \<^verbatim>\<open>printint\<close> does it in \<^verbatim>\<open>console.c\<close> and in \<^verbatim>\<open>printf.c\<close>, and a reference for the
  format strings of \<^verbatim>\<open>cprintf\<close> and \<^verbatim>\<open>printf\<close>: \<open>render\<close> gives the bytes that a format and its arguments stand for.
\<close>

section \<open>Numbers\<close>

text \<open>The digits of \<open>x\<close>, least significant first, as the loop of \<^verbatim>\<open>printint\<close> stores them in \<^verbatim>\<open>buf\<close>.\<close>

function digit_loop :: "(nat \<Rightarrow> u8) \<Rightarrow> u32 \<Rightarrow> u32 \<Rightarrow> u8 list" where
  "digit_loop digits base x =
    (if base \<le> 1 then [] else digits (unat (x mod base)) # (if x div base \<noteq> 0 then digit_loop digits base (x div base) else []))"
  by auto
termination
proof (relation "measure (\<lambda>(d, b, x). unat x)", simp_all)
  fix base x :: u32
  assume "\<not> base \<le> 1" and "x div base \<noteq> 0"
  then have b: "1 < unat base" and x: "0 < unat x" by (simp_all add: word_le_nat_alt word_less_nat_alt unat_gt_0 not_le) (metis div_0 unat_gt_0)
  then show "unat (x div base) < unat x" by (simp add: unat_div)
qed

declare digit_loop.simps [simp del]

text \<open>The digits of the kernel and those of the user library.\<close>

definition low_digits :: "nat \<Rightarrow> u8" where
  "low_digits i = of_nat (if i < 10 then 48 + i else 97 + (i - 10))"

definition up_digits :: "nat \<Rightarrow> u8" where
  "up_digits i = of_nat (if i < 10 then 48 + i else 65 + (i - 10))"

definition printint_chars :: "(nat \<Rightarrow> u8) \<Rightarrow> u32 \<Rightarrow> u32 \<Rightarrow> bool \<Rightarrow> u8 list" where
  "printint_chars digits xx base sign =
    (let neg = sign \<and> sint xx < 0; x = (if neg then - xx else xx)
     in rev (digit_loop digits base x @ (if neg then [45] else [])))"

section \<open>The buffer is large enough\<close>

lemma digit_loop_length:
  assumes "1 < base" and "unat x < unat base ^ k" and "0 < k"
  shows "length (digit_loop digits base x) \<le> k"
  using assms(2,3)
proof (induction k arbitrary: x)
  case (Suc k)
  have nb: "\<not> base \<le> 1" using assms(1) by simp
  show ?case
  proof (cases "x div base = 0")
    case True
    then show ?thesis using nb by (subst digit_loop.simps) simp
  next
    case False
    have lt: "unat (x div base) < unat base ^ k" using Suc.prems(1) by (simp add: unat_div less_mult_imp_div_less mult.commute)
    have "0 < k"
    proof (rule ccontr)
      assume "\<not> 0 < k"
      then have "unat (x div base) = 0" using lt by simp
      then show False using False by (simp add: unat_eq_zero)
    qed
    from Suc.IH [OF lt this] show ?thesis using nb False by (subst digit_loop.simps) simp
  qed
qed simp

lemma printint_fits:
  assumes "base = 10 \<or> base = 16"
  shows "length (printint_chars digits xx base sign) \<le> 16"
proof -
  have "length (digit_loop digits base x) \<le> 10" for x
  proof (rule digit_loop_length)
    have "unat x < 2 ^ 32" using unsigned_less [of x, where 'a = nat] by simp
    then show "unat x < unat base ^ 10" using assms by (elim disjE) simp_all
  qed (use assms in auto)
  from this [of xx] this [of "- xx"] show ?thesis by (simp add: printint_chars_def Let_def)
qed

section \<open>Format strings\<close>

text \<open>\<open>with_c\<close>: the directive \<^verbatim>\<open>%c\<close> exists in the user library only. \<open>str a\<close> are the bytes of the string at address \<open>a\<close>. The result is \<open>None\<close> when
  the format asks for more arguments than there are.\<close>

definition null_text :: "u8 list" where "null_text = [40, 110, 117, 108, 108, 41]"

definition takes_arg :: "bool \<Rightarrow> u8 \<Rightarrow> bool" where
  "takes_arg with_c d \<longleftrightarrow> d \<in> {100, 120, 112, 115} \<or> with_c \<and> d = 99"

definition convert :: "(u32 \<Rightarrow> u8 list) \<Rightarrow> (nat \<Rightarrow> u8) \<Rightarrow> u8 \<Rightarrow> u32 \<Rightarrow> u8 list" where
  "convert str digits d a =
    (if d = 100 then printint_chars digits a 10 True
     else if d = 115 then if a = 0 then null_text else str a
     else if d = 99 then [ucast a]
     else printint_chars digits a 16 False)"

fun render :: "(u32 \<Rightarrow> u8 list) \<Rightarrow> (nat \<Rightarrow> u8) \<Rightarrow> bool \<Rightarrow> u8 list \<Rightarrow> u32 list \<Rightarrow> u8 list option" where
  "render str digits with_c [] args = Some []"
| "render str digits with_c [c] args = Some (if c \<noteq> 37 then [c] else [])"
| "render str digits with_c (c # d # fmt) args =
    (if c \<noteq> 37 then map_option ((#) c) (render str digits with_c (d # fmt) args)
     else if takes_arg with_c d then
       (case args of [] \<Rightarrow> None | a # as \<Rightarrow> map_option ((@) (convert str digits d a)) (render str digits with_c fmt as))
     else map_option ((@) (if d = 37 then [37] else [37, d])) (render str digits with_c fmt args))"

end
