(* ===== verification/Console.thy ===== *)
theory Console
  imports Print
begin

text \<open>
  The console driver (\<^verbatim>\<open>console.c\<close>, with \<^verbatim>\<open>uartputc\<close> of \<^verbatim>\<open>uart.c\<close>): formatted output, the text screen, the input ring that
  interrupts fill and \<^verbatim>\<open>consoleread\<close> empties. The text memory is the list \<open>crt\<close> of 25 rows of 80 cells and the cursor register is a 16-bit word;
  a store outside the rows is \<open>OutOfBounds\<close>. \<open>serial\<close> lists the bytes sent to the serial line; \<open>wakes\<close> counts the calls \<^verbatim>\<open>wakeup(&input.r)\<close>.
  Each operation is the code between \<^verbatim>\<open>acquire(&cons.lock)\<close> and \<^verbatim>\<open>release\<close>, so operations exclude each other. A reader that has to
  sleep is the value \<open>Asleep\<close>, from which it goes on when it is woken.
\<close>

unbundle bit_operations_syntax

type_synonym u16 = "16 word"

section \<open>State\<close>

record console =
  crt :: "u16 list"
  cursor :: u16
  serial :: "u8 list"
  uart :: bool
  panicked :: bool
  cbuf :: "u8 list"
  c_r :: u32
  c_w :: u32
  c_e :: u32
  wakes :: nat

definition BACKSPACE :: int where "BACKSPACE = 0x100"

definition INPUT_BUF :: nat where "INPUT_BUF = 128"

definition ctl :: "int \<Rightarrow> int" where "ctl x = x - 64"

section \<open>The screen\<close>

definition scroll :: "nat \<Rightarrow> u16 list \<Rightarrow> nat \<times> u16 list" where
  "scroll pos m =
    (let m1 = take (23 * 80) (drop 80 m) @ drop (23 * 80) m; p = pos - 80
     in (p, take p m1 @ replicate (24 * 80 - p) 0 @ drop (24 * 80) m1))"

definition cga_move :: "int \<Rightarrow> nat \<Rightarrow> u16 list \<Rightarrow> kerr + nat \<times> u16 list" where
  "cga_move c pos m =
    (if c = 10 then Inr (pos + (80 - pos mod 80), m)
     else if c = BACKSPACE then Inr (if pos > 0 then pos - 1 else pos, m)
     else if pos < length m then Inr (pos + 1, m[pos := (word_of_int c AND 0xff) OR 0x0700])
     else Inl OutOfBounds)"

definition cgaputc :: "int \<Rightarrow> console \<Rightarrow> kerr + console" where
  "cgaputc c s =
    bindE (cga_move c (unat (cursor s)) (crt s)) (\<lambda>(pos, m).
      if pos > 25 * 80 then Inl (Panic ''pos under/overflow'')
      else
        let (p, m1) = (if pos div 80 \<ge> 24 then scroll pos m else (pos, m))
        in if p < length m1 then Inr (s\<lparr>cursor := of_nat p, crt := m1[p := 0x0720]\<rparr>) else Inl OutOfBounds)"

definition uartputc :: "int \<Rightarrow> console \<Rightarrow> console" where
  "uartputc c s = (if \<not> uart s then s else s\<lparr>serial := serial s @ [word_of_int c]\<rparr>)"

definition consputc :: "int \<Rightarrow> console \<Rightarrow> kerr + console" where
  "consputc c s =
    (if panicked s then Inl Diverges
     else cgaputc c (if c = BACKSPACE then uartputc 8 (uartputc 32 (uartputc 8 s)) else uartputc c s))"

section \<open>Formatted output\<close>

definition consputs :: "u8 list \<Rightarrow> console \<Rightarrow> kerr + console" where
  "consputs = foldE (\<lambda>b. consputc (uint b))"

definition printint :: "u32 \<Rightarrow> u32 \<Rightarrow> bool \<Rightarrow> console \<Rightarrow> kerr + console" where
  "printint xx base sign = consputs (printint_chars low_digits xx base sign)"

text \<open>\<open>str a\<close> are the bytes of the string at address \<open>a\<close>; \<open>args\<close> the words behind \<^verbatim>\<open>fmt\<close> on the stack.\<close>

fun cprintf_loop :: "(u32 \<Rightarrow> u8 list) \<Rightarrow> u8 list \<Rightarrow> u32 list \<Rightarrow> console \<Rightarrow> kerr + console" where
  "cprintf_loop str [] args s = Inr s"
| "cprintf_loop str [c] args s = (if c \<noteq> 37 then consputc (uint c) s else Inr s)"
| "cprintf_loop str (c # d # fmt) args s =
    (if c \<noteq> 37 then bindE (consputc (uint c) s) (cprintf_loop str (d # fmt) args)
     else if d \<in> {100, 120, 112, 115} then
       (case args of
          [] \<Rightarrow> Inl OutOfBounds
        | a # as \<Rightarrow>
            bindE (if d = 100 then printint a 10 True s
                   else if d = 115 then consputs (if a = 0 then [40, 110, 117, 108, 108, 41] else str a) s
                   else printint a 16 False s)
              (cprintf_loop str fmt as))
     else if d = 37 then bindE (consputc 37 s) (cprintf_loop str fmt args)
     else bindE (consputc 37 s) (\<lambda>s1. bindE (consputc (uint d) s1) (cprintf_loop str fmt args)))"

definition cprintf :: "(u32 \<Rightarrow> u8 list) \<Rightarrow> u8 list option \<Rightarrow> u32 list \<Rightarrow> console \<Rightarrow> kerr + console" where
  "cprintf str fmt args s = (case fmt of None \<Rightarrow> Inl (Panic ''null fmt'') | Some f \<Rightarrow> cprintf_loop str f args s)"

section \<open>Input\<close>

definition slot :: "u32 \<Rightarrow> nat" where
  "slot i = unat (i mod of_nat INPUT_BUF)"

text \<open>Output leaves the input ring alone.\<close>

definition same_input :: "console \<Rightarrow> console \<Rightarrow> bool" where
  "same_input s t \<longleftrightarrow> cbuf t = cbuf s \<and> c_r t = c_r s \<and> c_w t = c_w s \<and> c_e t = c_e s \<and> wakes t = wakes s \<and> panicked t = panicked s"

lemma uartputc_same [simp]: "same_input s (uartputc c t) = same_input s t" "crt (uartputc c s) = crt s" "cursor (uartputc c s) = cursor s"
  by (simp_all add: uartputc_def same_input_def)

lemma cgaputc_same: "cgaputc c s = Inr t \<Longrightarrow> same_input s t"
  unfolding cgaputc_def by (cases "cga_move c (unat (cursor s)) (crt s)") (auto simp: same_input_def Let_def split: prod.splits if_splits)

lemma consputc_same: "consputc c s = Inr t \<Longrightarrow> same_input s t"
  unfolding consputc_def by (auto dest!: cgaputc_same split: if_splits simp: same_input_def uartputc_def)

function kill_line :: "console \<Rightarrow> kerr + console" where
  "kill_line s =
    (if c_e s \<noteq> c_w s \<and> cbuf s ! slot (c_e s - 1) \<noteq> 10
     then (case consputc BACKSPACE (s\<lparr>c_e := c_e s - 1\<rparr>) of Inl e \<Rightarrow> Inl e | Inr s1 \<Rightarrow> kill_line s1)
     else Inr s)"
  by auto
termination
proof (relation "measure (\<lambda>s. unat (c_e s - c_w s))", simp_all)
  fix s t
  assume e: "c_e s \<noteq> c_w s \<and> cbuf s ! slot (c_e s - 1) \<noteq> 10" and "consputc BACKSPACE (s\<lparr>c_e := c_e s - 1\<rparr>) = Inr t"
  then have "c_e t = c_e s - 1" "c_w t = c_w s" by (auto dest: consputc_same simp: same_input_def)
  moreover have "unat (c_e s - c_w s - 1) < unat (c_e s - c_w s)" using e by (simp add: unat_minus_one unat_gt_0)
  moreover have "c_e s - 1 - c_w s = c_e s - c_w s - 1" by (simp add: algebra_simps)
  ultimately show "unat (c_e t - c_w t) < unat (c_e s - c_w s)" by metis
qed

declare kill_line.simps [simp del]

definition intr_char :: "int \<Rightarrow> console \<Rightarrow> kerr + console" where
  "intr_char c s =
    (if c = ctl 80 then Inr s
     else if c = ctl 85 then kill_line s
     else if c = ctl 72 \<or> c = 0x7f then
       if c_e s \<noteq> c_w s then consputc BACKSPACE (s\<lparr>c_e := c_e s - 1\<rparr>) else Inr s
     else if c \<noteq> 0 \<and> c_e s - c_r s < of_nat INPUT_BUF then
       let c1 = (if c = 13 then 10 else c) in
       bindE (consputc c1 (s\<lparr>cbuf := (cbuf s)[slot (c_e s) := word_of_int c1], c_e := c_e s + 1\<rparr>)) (\<lambda>s1.
         Inr (if c1 = 10 \<or> c1 = ctl 68 \<or> c_e s1 = c_r s1 + of_nat INPUT_BUF
              then s1\<lparr>c_w := c_e s1, wakes := Suc (wakes s1)\<rparr> else s1))
     else Inr s)"

text \<open>The result also says whether \<^verbatim>\<open>procdump\<close> runs after the loop.\<close>

fun consoleintr :: "int list \<Rightarrow> bool \<Rightarrow> console \<Rightarrow> kerr + bool \<times> console" where
  "consoleintr [] dump s = Inr (dump, s)"
| "consoleintr (c # cs) dump s =
    (if c < 0 then Inr (dump, s)
     else bindE (intr_char c s) (consoleintr cs (dump \<or> c = ctl 80)))"

datatype reading = Returned int "u8 list" | Asleep int "u8 list"

function consoleread_loop :: "bool \<Rightarrow> int \<Rightarrow> int \<Rightarrow> u8 list \<Rightarrow> console \<Rightarrow> reading \<times> console" where
  "consoleread_loop killed target n dst s =
    (if n \<le> 0 then (Returned (target - n) dst, s)
     else if c_r s = c_w s then if killed then (Returned (- 1) dst, s) else (Asleep n dst, s)
     else
       let c = cbuf s ! slot (c_r s); s1 = s\<lparr>c_r := c_r s + 1\<rparr> in
       if c = 4 then (Returned (target - n) dst, if n < target then s1\<lparr>c_r := c_r s1 - 1\<rparr> else s1)
       else if c = 10 then (Returned (target - (n - 1)) (dst @ [c]), s1)
       else consoleread_loop killed target (n - 1) (dst @ [c]) s1)"
  by auto
termination by (relation "measure (\<lambda>(k, t, n, d, s). nat n)") auto

declare consoleread_loop.simps [simp del]

definition consoleread :: "bool \<Rightarrow> int \<Rightarrow> console \<Rightarrow> reading \<times> console" where
  "consoleread killed n s = consoleread_loop killed n n [] s"

definition consolewrite :: "u8 list \<Rightarrow> console \<Rightarrow> kerr + int \<times> console" where
  "consolewrite xs s = bindE (consputs xs s) (\<lambda>s1. Inr (int (length xs), s1))"

end
