(* ===== verification/ConsoleProps.thy ===== *)
theory ConsoleProps
  imports Console
begin

text \<open>
  What the console driver promises. The screen is a window of 24 rows on an endless sheet of paper: \<open>paper_put\<close> prints on the paper, \<open>displays\<close> relates the
  text memory and the cursor to it, and no output can run the cursor out of the screen. The input ring implements a line discipline:
  \<open>ld_key\<close> and \<open>ld_read\<close> work on two lists, the committed characters and the line being edited.
\<close>

unbundle bit_operations_syntax

section \<open>The screen as a window on a sheet of paper\<close>

text \<open>Cells of the paper, the number of rows that have scrolled out, and the position of the cursor on the paper.\<close>

record paper =
  cell :: "nat \<Rightarrow> u16"
  top :: nat
  at :: nat

definition paper_move :: "int \<Rightarrow> paper \<Rightarrow> paper" where
  "paper_move c p =
    (if c = 10 then p\<lparr>at := 80 * (at p div 80 + 1)\<rparr>
     else if c = BACKSPACE then if at p > 80 * top p then p\<lparr>at := at p - 1\<rparr> else p
     else p\<lparr>cell := (cell p)(at p := (word_of_int c AND 0xff) OR 0x0700), at := at p + 1\<rparr>)"

definition paper_put :: "int \<Rightarrow> paper \<Rightarrow> paper" where
  "paper_put c p =
    (let q = paper_move c p in
     q\<lparr>cell := (cell q)(at q := 0x0720), top := (if at q \<ge> 80 * (top q + 24) then top q + 1 else top q)\<rparr>)"

definition displays :: "console \<Rightarrow> paper \<Rightarrow> bool" where
  "displays s p \<longleftrightarrow> \<not> panicked s \<and> length (crt s) = 25 * 80 \<and> at p = 80 * top p + unat (cursor s) \<and> unat (cursor s) < 24 * 80 \<and>
     (\<forall>i < 24 * 80. crt s ! i = cell p (80 * top p + i)) \<and> (\<forall>i \<ge> 80 * (top p + 24). cell p i = 0)"

lemma scroll_cells:
  assumes "length m = 2000"
  shows "fst (scroll 1920 m) = 1840" and "length (snd (scroll 1920 m)) = 2000"
    and "i < 1920 \<Longrightarrow> snd (scroll 1920 m) ! i = (if i < 1840 then m ! (i + 80) else 0)"
  using assms by (auto simp: scroll_def nth_append min_def add.commute)

lemma cursor16: "k < 2000 \<Longrightarrow> unat (of_nat k :: u16) = k"
  by (simp add: unat_of_nat take_bit_nat_eq_self)

lemma cga_move_paper:
  assumes "displays s p"
  shows "\<exists>pos m. cga_move c (unat (cursor s)) (crt s) = Inr (pos, m) \<and> length m = 2000 \<and> pos \<le> 1920 \<and> at (paper_move c p) = 80 * top p + pos \<and>
    top (paper_move c p) = top p \<and> (\<forall>i < 1920. m ! i = cell (paper_move c p) (80 * top p + i)) \<and> (\<forall>i \<ge> 80 * (top p + 24). cell (paper_move c p) i = 0)"
proof -
  let ?k = "unat (cursor s)"
  have k: "?k < 1920" "length (crt s) = 2000" "at p = 80 * top p + ?k" "\<forall>i < 1920. crt s ! i = cell p (80 * top p + i)" "\<forall>i \<ge> 80 * (top p + 24). cell p i = 0"
    using assms by (simp_all add: displays_def)
  have nl: "?k + (80 - ?k mod 80) = 80 * (?k div 80 + 1)" by presburger
  have "?k div 80 < 24" using k(1) by simp
  then have le: "80 * (?k div 80 + 1) \<le> 1920" by simp
  consider "c = 10" | "c = BACKSPACE" | "c \<noteq> 10" "c \<noteq> BACKSPACE" by blast
  then show ?thesis
  proof cases
    case 1
    then show ?thesis using k nl le by (simp add: cga_move_def paper_move_def)
  next
    case 2
    then show ?thesis using k by (auto simp: cga_move_def paper_move_def BACKSPACE_def)
  next
    case 3
    then show ?thesis using k by (auto simp: cga_move_def paper_move_def nth_list_update)
  qed
qed

lemma cgaputc_displays:
  assumes "displays s p"
  shows "succeeds (cgaputc c s) (\<lambda>t. displays t (paper_put c p) \<and> serial t = serial s)"
proof -
  obtain pos m where m: "cga_move c (unat (cursor s)) (crt s) = Inr (pos, m)" "length m = 2000" "pos \<le> 1920" "at (paper_move c p) = 80 * top p + pos"
    "top (paper_move c p) = top p" "\<And>i. i < 1920 \<Longrightarrow> m ! i = cell (paper_move c p) (80 * top p + i)"
    "\<And>i. 80 * (top p + 24) \<le> i \<Longrightarrow> cell (paper_move c p) i = 0" using cga_move_paper [OF assms, of c] by blast
  have np: "\<not> panicked s" using assms by (simp add: displays_def)
  show ?thesis
  proof (cases "pos = 1920")
    case True
    obtain q m1 where sc: "scroll 1920 m = (q, m1)" by (cases "scroll 1920 m")
    note cells = scroll_cells [OF m(2), unfolded sc, simplified]
    have "m1 ! i = cell (paper_move c p) (80 + 80 * top p + i)" if "i < 1920" for i
      using that cells(3) m(6) [of "i + 80"] m(7) by (simp add: algebra_simps)
    moreover have "unat (of_nat q :: u16) = q" "q < 1920" "80 * top p + 1920 = 80 + 80 * top p + q" using cells(1) cursor16 [of q] by simp_all
    ultimately show ?thesis using True np m(1,2,4,5,7) sc cells(2)
      by (auto simp del: of_nat_numeral simp: cgaputc_def displays_def paper_put_def Let_def nth_list_update)
  next
    case False
    then have "pos < 1920" "\<not> 24 \<le> pos div 80" using m(3) by auto
    moreover have "unat (of_nat pos :: u16) = pos" using m(3) by (simp add: cursor16)
    ultimately show ?thesis using np m(1,2,4,5,6,7)
      by (auto simp: cgaputc_def displays_def paper_put_def Let_def nth_list_update)
  qed
qed


lemma displays_uartputc [simp]: "displays (uartputc c s) p = displays s p"
  by (simp add: displays_def uartputc_def)

lemma consputc_displays:
  assumes "displays s p"
  shows "succeeds (consputc c s) (\<lambda>t. displays t (paper_put c p) \<and> same_input s t)"
proof -
  let ?u = "if c = BACKSPACE then uartputc 8 (uartputc 32 (uartputc 8 s)) else uartputc c s"
  have "displays ?u p" using assms by simp
  then obtain t where "cgaputc c ?u = Inr t" "displays t (paper_put c p)" using cgaputc_displays by blast
  moreover have "consputc c s = cgaputc c ?u" using assms by (simp add: consputc_def displays_def)
  ultimately show ?thesis using consputc_same by (metis succeeds_simps(2))
qed

lemma same_input_trans: "same_input s t \<Longrightarrow> same_input t u \<Longrightarrow> same_input s u"
  by (simp add: same_input_def)

lemma consputs_displays:
  assumes "displays s p"
  shows "succeeds (consputs xs s) (\<lambda>t. displays t (fold (\<lambda>b. paper_put (uint b)) xs p) \<and> same_input s t)"
  using assms
proof (induction xs arbitrary: s p)
  case Nil
  then show ?case by (simp add: consputs_def same_input_def)
next
  case (Cons x xs)
  obtain t where t: "consputc (uint x) s = Inr t" "displays t (paper_put (uint x) p)" "same_input s t"
    using consputc_displays [OF Cons.prems] by blast
  from Cons.IH [OF t(2)] t(1,3) show ?case by (auto simp: consputs_def succeeds_iff intro: same_input_trans)
qed

section \<open>The ring as a line discipline\<close>

text \<open>The characters that a reader may take, and the line that can still be edited.\<close>

definition ring_part :: "console \<Rightarrow> u32 \<Rightarrow> nat \<Rightarrow> u8 list" where
  "ring_part s i len = map (\<lambda>k. cbuf s ! ((unat i + k) mod 128)) [0..<len]"

definition ready_len :: "console \<Rightarrow> nat" where "ready_len s = unat (c_w s - c_r s)"

definition edit_len :: "console \<Rightarrow> nat" where "edit_len s = unat (c_e s - c_w s)"

definition line_state :: "console \<Rightarrow> u8 list \<times> u8 list" where
  "line_state s = (ring_part s (c_r s) (ready_len s), ring_part s (c_w s) (edit_len s))"

definition ring_ok :: "console \<Rightarrow> bool" where
  "ring_ok s \<longleftrightarrow> length (cbuf s) = 128 \<and> ready_len s + edit_len s \<le> 128 \<and> 10 \<notin> set (snd (line_state s))"

definition console_ok :: "console \<Rightarrow> bool" where
  "console_ok s \<longleftrightarrow> ring_ok s \<and> (\<exists>p. displays s p)"

definition ld_key :: "int \<Rightarrow> u8 list \<times> u8 list \<Rightarrow> u8 list \<times> u8 list" where
  "ld_key c = (\<lambda>(rdy, ed).
     if c = ctl 80 then (rdy, ed)
     else if c = ctl 85 then (rdy, [])
     else if c = ctl 72 \<or> c = 0x7f then (rdy, butlast ed)
     else if c = 0 \<or> length rdy + length ed = 128 then (rdy, ed)
     else
       let ed1 = ed @ [word_of_int (if c = 13 then 10 else c)] in
       if c \<in> {10, 13, ctl 68} \<or> length rdy + length ed1 = 128 then (rdy @ ed1, []) else (rdy, ed1))"

fun ld_read :: "bool \<Rightarrow> int \<Rightarrow> int \<Rightarrow> u8 list \<Rightarrow> u8 list \<Rightarrow> reading \<times> u8 list" where
  "ld_read killed target n dst [] =
    (if n \<le> 0 then Returned (target - n) dst else if killed then Returned (- 1) dst else Asleep n dst, [])"
| "ld_read killed target n dst (c # cs) =
    (if n \<le> 0 then (Returned (target - n) dst, c # cs)
     else if c = 4 then (Returned (target - n) dst, if n < target then c # cs else cs)
     else if c = 10 then (Returned (target - (n - 1)) (dst @ [c]), cs)
     else ld_read killed target (n - 1) (dst @ [c]) cs)"

lemma slot_eq: "slot i = unat i mod 128"
  by (simp add: slot_def INPUT_BUF_def unat_mod)

lemma unat_add_mod128: "unat (i + j :: u32) mod 128 = (unat i + unat j) mod 128"
  by (simp add: unat_word_ariths mod_mod_cancel)

lemma slot_add: "slot (i + j) = (unat i + unat j) mod 128"
  by (simp add: slot_eq unat_add_mod128)

lemma ring_part_length [simp]: "length (ring_part s i n) = n"
  by (simp add: ring_part_def)

lemma ring_part_nth: "k < n \<Longrightarrow> ring_part s i n ! k = cbuf s ! ((unat i + k) mod 128)"
  by (simp add: ring_part_def)

lemma ring_part_append: "ring_part s i (m + n) = ring_part s i m @ ring_part s (i + of_nat m) n" if "m < 2 ^ 32"
proof -
  have "(unat (i + of_nat m) + k) mod 128 = (unat i + (m + k)) mod 128" for k
    using unat_add_mod128 [of i "of_nat m"] that by (simp add: unat_of_nat32) (metis (no_types, opaque_lifting) add.assoc mod_add_left_eq)
  note e = this
  show ?thesis
  proof (rule nth_equalityI)
    fix k
    assume "k < length (ring_part s i (m + n))"
    then show "ring_part s i (m + n) ! k = (ring_part s i m @ ring_part s (i + of_nat m) n) ! k"
      using e [of "k - m"] by (cases "k < m") (simp_all add: nth_append ring_part_nth)
  qed simp
qed

lemma ring_part_same: "cbuf t = cbuf s \<Longrightarrow> ring_part t i n = ring_part s i n"
  by (simp add: ring_part_def)

lemma line_state_same: "same_input s t \<Longrightarrow> line_state t = line_state s \<and> ready_len t = ready_len s \<and> edit_len t = edit_len s \<and> ring_ok t = ring_ok s"
  by (simp add: same_input_def line_state_def ring_part_def ready_len_def edit_len_def ring_ok_def)

text \<open>Deleting the last character of the line, adding one, and committing it.\<close>

lemma edit_len_pop: "c_e s \<noteq> c_w s \<Longrightarrow> edit_len s = Suc (edit_len (s\<lparr>c_e := c_e s - 1\<rparr>))"
proof -
  assume e: "c_e s \<noteq> c_w s"
  have "edit_len (s\<lparr>c_e := c_e s - 1\<rparr>) = unat (c_e s - 1 - c_w s)" by (simp add: edit_len_def)
  also have "\<dots> = unat (c_e s - c_w s - 1)" by (rule arg_cong [of _ _ unat]) simp
  finally have "edit_len (s\<lparr>c_e := c_e s - 1\<rparr>) = unat (c_e s - c_w s - 1)" .
  then show ?thesis using e by (simp add: edit_len_def unat_minus_one unat_gt_0)
qed

lemma line_state_pop:
  assumes "c_e s \<noteq> c_w s" and "ring_ok s"
  defines "t \<equiv> s\<lparr>c_e := c_e s - 1\<rparr>"
  shows "line_state t = (fst (line_state s), butlast (snd (line_state s)))" and "ring_ok t"
proof -
  have n: "edit_len s = edit_len t + 1" using edit_len_pop [OF assms(1)] by (simp add: t_def)
  have "edit_len t < 2 ^ 32" using assms(2) n by (simp add: ring_ok_def)
  from ring_part_append [OF this, of s "c_w s" 1]
  have "butlast (ring_part s (c_w s) (edit_len s)) = ring_part s (c_w s) (edit_len t)" using n by (simp add: ring_part_def)
  then show l: "line_state t = (fst (line_state s), butlast (snd (line_state s)))" by (simp add: line_state_def t_def ready_len_def ring_part_def)
  have "set (butlast (snd (line_state s))) \<subseteq> set (snd (line_state s))" by (auto dest: in_set_butlastD)
  moreover have "length (cbuf t) = length (cbuf s)" "ready_len t = ready_len s" by (simp_all add: t_def ready_len_def)
  ultimately show "ring_ok t" using assms(2) n l by (auto simp: ring_ok_def)
qed

lemma unat_plus32: "unat a + unat b < 2 ^ 32 \<Longrightarrow> unat (a + b :: u32) = unat a + unat b"
  by (simp add: unat_word_ariths)

lemma unat_diff_chain: "unat (b - a) + unat (c - b) < 2 ^ 32 \<Longrightarrow> unat (c - a :: u32) = unat (b - a) + unat (c - b)"
  using unat_plus32 [of "b - a" "c - b"] by simp

lemma ring_total: "ring_ok s \<Longrightarrow> unat (c_e s - c_r s) = ready_len s + edit_len s"
proof -
  assume "ring_ok s"
  then have "ready_len s + edit_len s < 2 ^ 32" by (simp add: ring_ok_def)
  then show ?thesis using unat_diff_chain [of "c_w s" "c_r s" "c_e s"] by (simp add: ready_len_def edit_len_def)
qed

lemma ring_part_push:
  assumes "unat (c_e s - i) < 128" and "n = unat (c_e s - i)" and "length (cbuf s) = 128"
  shows "ring_part (s\<lparr>cbuf := (cbuf s)[slot (c_e s) := x], c_e := e\<rparr>) i (Suc n) = ring_part s i n @ [x]"
proof -
  have sl: "slot (c_e s) = (unat i + n) mod 128" using slot_add [of i "c_e s - i"] assms(2) by simp
  have "(unat i + k) mod 128 \<noteq> (unat i + n) mod 128" if "k < n" for k
  proof
    assume "(unat i + k) mod 128 = (unat i + n) mod 128"
    then have "128 dvd n - k" using mod_eq_dvd_iff_nat [of "unat i + k" "unat i + n" 128] that by simp
    then show False using that assms(1,2) by (auto dest: dvd_imp_le)
  qed
  note ne = this
  show ?thesis
  proof (rule nth_equalityI)
    fix k
    assume "k < length (ring_part (s\<lparr>cbuf := (cbuf s)[slot (c_e s) := x], c_e := e\<rparr>) i (Suc n))"
    then show "ring_part (s\<lparr>cbuf := (cbuf s)[slot (c_e s) := x], c_e := e\<rparr>) i (Suc n) ! k = (ring_part s i n @ [x]) ! k"
      using ne [of k] sl assms(3) by (cases "k = n") (simp_all add: ring_part_nth nth_append)
  qed simp
qed

lemma line_state_push:
  fixes x :: u8
  assumes ok: "ring_ok s" and room: "ready_len s + edit_len s < 128"
  defines "t \<equiv> s\<lparr>cbuf := (cbuf s)[slot (c_e s) := x], c_e := c_e s + 1\<rparr>"
  shows "line_state t = (fst (line_state s), snd (line_state s) @ [x])" and "ready_len t = ready_len s" and "edit_len t = Suc (edit_len s)"
    and "length (cbuf t) = 128" and "c_e t = c_r t + 128 \<longleftrightarrow> ready_len t + edit_len t = 128"
proof -
  have len: "length (cbuf s) = 128" using ok by (simp add: ring_ok_def)
  show r: "ready_len t = ready_len s" and "length (cbuf t) = 128" using len by (simp_all add: t_def ready_len_def)
  have "unat (c_e s - c_w s) < 128" using room by (simp add: edit_len_def)
  then show e: "edit_len t = Suc (edit_len s)" using unat_diff_chain [of "c_e s" "c_w s" "c_e s + 1"] by (simp add: t_def edit_len_def)
  have "ring_part t (c_w s) (Suc (edit_len s)) = ring_part s (c_w s) (edit_len s) @ [x]"
    unfolding t_def using room len by (intro ring_part_push) (simp_all add: edit_len_def)
  moreover have "ring_part t (c_r s) (ready_len s) = ring_part s (c_r s) (ready_len s)"
  proof -
    have tot: "unat (c_e s - c_r s) = ready_len s + edit_len s" by (rule ring_total [OF ok])
    have "ring_part t (c_r s) (Suc (ready_len s + edit_len s)) = ring_part s (c_r s) (ready_len s + edit_len s) @ [x]"
      unfolding t_def using room len tot by (intro ring_part_push) simp_all
    then have "take (ready_len s) (ring_part t (c_r s) (Suc (ready_len s + edit_len s))) = take (ready_len s) (ring_part s (c_r s) (ready_len s + edit_len s))" by simp
    then show ?thesis by (simp add: ring_part_def take_map min_def)
  qed
  ultimately show "line_state t = (fst (line_state s), snd (line_state s) @ [x])" using r e by (simp add: line_state_def t_def)
  have "c_e s + 1 = c_r s + 128 \<longleftrightarrow> c_e s - c_r s = 127"
  proof
    assume "c_e s + 1 = c_r s + 128"
    then have "c_e s = c_r s + 128 - 1" by (metis add_diff_cancel_right')
    then show "c_e s - c_r s = 127" by simp
  next
    assume "c_e s - c_r s = 127"
    then have "c_e s = c_r s + 127" by (metis add.commute diff_add_cancel)
    then show "c_e s + 1 = c_r s + 128" by simp
  qed
  also have "\<dots> \<longleftrightarrow> unat (c_e s - c_r s) + 1 = 128" by (simp add: word_unat_eq_iff)
  finally have "c_e s + 1 = c_r s + 128 \<longleftrightarrow> unat (c_e s - c_r s) + 1 = 128" .
  then show "c_e t = c_r t + 128 \<longleftrightarrow> ready_len t + edit_len t = 128" using ring_total [OF ok] r e by (simp add: t_def)
qed

lemma line_state_commit:
  assumes "length (cbuf s) = 128" and "ready_len s + edit_len s \<le> 128"
  shows "line_state (s\<lparr>c_w := c_e s, wakes := k\<rparr>) = (fst (line_state s) @ snd (line_state s), [])" and "ring_ok (s\<lparr>c_w := c_e s, wakes := k\<rparr>)"
proof -
  let ?t = "s\<lparr>c_w := c_e s, wakes := k\<rparr>"
  have lt: "ready_len s < 2 ^ 32" "ready_len s + edit_len s < 2 ^ 32" using assms(2) by simp_all
  then have "unat (c_e s - c_r s) = ready_len s + edit_len s" using unat_diff_chain [of "c_w s" "c_r s" "c_e s"] by (simp add: ready_len_def edit_len_def)
  then have r: "ready_len ?t = ready_len s + edit_len s" and e: "edit_len ?t = 0" by (simp_all add: ready_len_def edit_len_def)
  have "c_r s + of_nat (ready_len s) = c_w s" by (simp add: ready_len_def)
  then show l: "line_state ?t = (fst (line_state s) @ snd (line_state s), [])"
    using ring_part_append [OF lt(1), of s "c_r s" "edit_len s"] r e by (simp add: line_state_def ring_part_def)
  show "ring_ok ?t" using l r e assms by (simp add: ring_ok_def)
qed

lemma kill_line_ok:
  assumes "ring_ok s" and "displays s p"
  shows "succeeds (kill_line s) (\<lambda>t. ring_ok t \<and> line_state t = (fst (line_state s), []) \<and> (\<exists>q. displays t q))"
  using assms
proof (induction s arbitrary: p rule: kill_line.induct)
  case (1 s)
  show ?case
  proof (cases "c_e s = c_w s")
    case True
    then have "snd (line_state s) = []" by (simp add: line_state_def edit_len_def ring_part_def)
    then show ?thesis using True 1(2,3) by (subst kill_line.simps) (auto simp: prod_eq_iff)
  next
    case False
    let ?s1 = "s\<lparr>c_e := c_e s - 1\<rparr>"
    have "cbuf s ! slot (c_e s - 1) \<in> set (snd (line_state s))"
    proof -
      have "slot (c_e s - 1) = (unat (c_w s) + unat (c_e s - 1 - c_w s)) mod 128" using slot_add [of "c_w s" "c_e s - 1 - c_w s"] by simp
      moreover have "unat (c_e s - 1 - c_w s) < edit_len s" using edit_len_pop [OF False] by (simp add: edit_len_def)
      ultimately show ?thesis by (auto simp: line_state_def ring_part_def)
    qed
    then have nl: "cbuf s ! slot (c_e s - 1) \<noteq> 10" using 1(2) by (auto simp: ring_ok_def)
    have d: "displays ?s1 p" using 1(3) by (simp add: displays_def)
    obtain t where t: "consputc BACKSPACE ?s1 = Inr t" "displays t (paper_put BACKSPACE p)" "same_input ?s1 t" using consputc_displays [OF d] by blast
    have "ring_ok t" "fst (line_state t) = fst (line_state s)" using line_state_pop [OF False 1(2)] line_state_same [OF t(3)] by simp_all
    then show ?thesis using 1(1) [OF conjI [OF False nl] t(1) _ t(2)] False nl t(1) by (subst kill_line.simps) simp
  qed
qed

lemma displays_ring [simp]:
  "displays (s\<lparr>c_e := i\<rparr>) p = displays s p" "displays (s\<lparr>cbuf := b\<rparr>) p = displays s p" "displays (s\<lparr>c_w := i\<rparr>) p = displays s p"
  "displays (s\<lparr>wakes := k\<rparr>) p = displays s p" "displays (s\<lparr>c_r := i\<rparr>) p = displays s p"
  by (simp_all add: displays_def)

lemma line_state_len: "length (fst (line_state s)) = ready_len s" "length (snd (line_state s)) = edit_len s"
  by (simp_all add: line_state_def)

lemma typed_char_ok:
  assumes ok: "ring_ok s" and d: "displays s p" and c: "0 \<le> c" "c < 256" and room: "ready_len s + edit_len s < 128"
  defines "x \<equiv> word_of_int c :: u8"
  shows "succeeds (bindE (consputc c (s\<lparr>cbuf := (cbuf s)[slot (c_e s) := x], c_e := c_e s + 1\<rparr>)) (\<lambda>s1.
      Inr (if c = 10 \<or> c = ctl 68 \<or> c_e s1 = c_r s1 + of_nat INPUT_BUF then s1\<lparr>c_w := c_e s1, wakes := Suc (wakes s1)\<rparr> else s1)))
    (\<lambda>t. console_ok t \<and> line_state t =
      (if c = 10 \<or> c = ctl 68 \<or> ready_len s + edit_len s = 127 then (fst (line_state s) @ snd (line_state s) @ [x], []) else (fst (line_state s), snd (line_state s) @ [x])))"
proof -
  let ?s1 = "s\<lparr>cbuf := (cbuf s)[slot (c_e s) := x], c_e := c_e s + 1\<rparr>"
  note push = line_state_push [OF ok room, of x]
  obtain t where t: "consputc c ?s1 = Inr t" "displays t (paper_put c p)" "same_input ?s1 t"
    using consputc_displays [of ?s1 p c] d by auto
  have ls: "line_state t = (fst (line_state s), snd (line_state s) @ [x])" "ready_len t = ready_len s" "edit_len t = Suc (edit_len s)"
    using line_state_same [OF t(3)] push by simp_all
  have len: "length (cbuf t) = 128" and full: "c_e t = c_r t + of_nat INPUT_BUF \<longleftrightarrow> ready_len s + edit_len s = 127"
    using t(3) push by (auto simp: same_input_def INPUT_BUF_def)
  have x10: "x = 10 \<longleftrightarrow> c = 10" using c by (simp add: x_def word_uint_eq_iff uint_word_of_int)
  show ?thesis
  proof (cases "c = 10 \<or> c = ctl 68 \<or> ready_len s + edit_len s = 127")
    case True
    have le: "ready_len t + edit_len t \<le> 128" using ls room by simp
    note com = line_state_commit [OF len le, of "Suc (wakes t)"]
    have "console_ok (t\<lparr>c_w := c_e t, wakes := Suc (wakes t)\<rparr>)" using com(2) t(2) by (auto simp: console_ok_def)
    then show ?thesis using True t(1) full com(1) ls(1) by auto
  next
    case False
    then have "ring_ok t" using ls len room ok x10 by (auto simp: ring_ok_def)
    then show ?thesis using False t(1,2) full ls(1) by (auto simp: console_ok_def)
  qed
qed

lemma intr_char_ok:
  assumes "console_ok s" and c: "0 \<le> c" "c < 256"
  shows "succeeds (intr_char c s) (\<lambda>t. console_ok t \<and> line_state t = ld_key c (line_state s))"
proof -
  obtain p where ok: "ring_ok s" and d: "displays s p" using assms(1) by (auto simp: console_ok_def)
  obtain rdy ed where l: "line_state s = (rdy, ed)" by (cases "line_state s")
  have len: "length rdy = ready_len s" "length ed = edit_len s" using line_state_len [of s] l by simp_all
  have full: "c_e s - c_r s < of_nat INPUT_BUF \<longleftrightarrow> ready_len s + edit_len s < 128"
    using ring_total [OF ok] by (simp add: word_less_nat_alt INPUT_BUF_def)
  consider "c = ctl 80" | "c = ctl 85" | "c = ctl 72 \<or> c = 0x7f" | "c \<noteq> ctl 80" "c \<noteq> ctl 85" "\<not> (c = ctl 72 \<or> c = 0x7f)" by blast
  then show ?thesis
  proof cases
    case 1
    then show ?thesis using assms(1) l by (simp add: intr_char_def ld_key_def)
  next
    case 2
    then show ?thesis using kill_line_ok [OF ok d] l by (auto simp: intr_char_def ld_key_def ctl_def console_ok_def elim!: succeeds_mono)
  next
    case 3
    have n: "c \<noteq> ctl 80" "c \<noteq> ctl 85" using 3 by (auto simp: ctl_def)
    show ?thesis
    proof (cases "c_e s = c_w s")
      case True
      then have "ed = []" using l by (auto simp: line_state_def edit_len_def ring_part_def)
      then show ?thesis using True 3 n assms(1) l by (simp add: intr_char_def ld_key_def)
    next
      case False
      note pop = line_state_pop [OF False ok]
      have "succeeds (consputc BACKSPACE (s\<lparr>c_e := c_e s - 1\<rparr>)) (\<lambda>t. displays t (paper_put BACKSPACE p) \<and> same_input (s\<lparr>c_e := c_e s - 1\<rparr>) t)"
        using consputc_displays [of "s\<lparr>c_e := c_e s - 1\<rparr>" p BACKSPACE] d by simp
      then have "succeeds (consputc BACKSPACE (s\<lparr>c_e := c_e s - 1\<rparr>)) (\<lambda>t. console_ok t \<and> line_state t = (rdy, butlast ed))"
        using pop l by (auto elim!: succeeds_mono dest!: line_state_same simp: console_ok_def)
      then show ?thesis using False 3 n l by (simp add: intr_char_def ld_key_def)
    qed
  next
    case 4
    show ?thesis
    proof (cases "c = 0 \<or> ready_len s + edit_len s = 128")
      case True
      then show ?thesis using 4 assms(1) l full len by (auto simp: intr_char_def ld_key_def)
    next
      case False
      define c1 where "c1 = (if c = 13 then 10 else c)"
      have room: "ready_len s + edit_len s < 128" using False ok by (simp add: ring_ok_def)
      have c1: "0 \<le> c1" "c1 < 256" "c1 = 10 \<or> c1 = ctl 68 \<longleftrightarrow> c \<in> {10, 13, ctl 68}" using c by (auto simp: c1_def ctl_def)
      from typed_char_ok [OF ok d c1(1,2) room] show ?thesis using 4 False full room l len c1(3)
        by (auto simp: intr_char_def ld_key_def Let_def simp flip: c1_def elim!: succeeds_mono)
    qed
  qed
qed

lemma consoleintr_ok:
  assumes "console_ok s" and "\<forall>c \<in> set keys. 0 \<le> c \<and> c < 256"
  shows "succeeds (consoleintr keys d s) (\<lambda>(e, t). console_ok t \<and> line_state t = fold ld_key keys (line_state s) \<and> e = (d \<or> ctl 80 \<in> set keys))"
  using assms
proof (induction keys arbitrary: s d)
  case (Cons c keys)
  obtain t where t: "intr_char c s = Inr t" "console_ok t" "line_state t = ld_key c (line_state s)" using intr_char_ok [OF Cons.prems(1), of c] Cons.prems(2) by auto
  have k: "\<forall>c \<in> set keys. 0 \<le> c \<and> c < 256" using Cons.prems(2) by simp
  from Cons.IH [OF t(2) k, of "d \<or> c = ctl 80"] t(1,3) Cons.prems(2) show ?case by (auto elim!: succeeds_mono)
qed simp

text \<open>Taking the first committed character.\<close>

lemma line_state_shift:
  assumes "c_r s \<noteq> c_w s" and "ring_ok s"
  defines "t \<equiv> s\<lparr>c_r := c_r s + 1\<rparr>"
  shows "line_state s = (cbuf s ! slot (c_r s) # fst (line_state t), snd (line_state t))" and "ring_ok t"
proof -
  have "0 < unat (c_w s - c_r s)" using assms(1) by (simp add: unat_gt_0)
  then have "unat (c_w s - c_r s - 1) = unat (c_w s - c_r s) - 1" by (simp add: unat_minus_one unat_gt_0)
  moreover have "c_w s - (c_r s + 1) = c_w s - c_r s - 1" by simp
  ultimately have "unat (c_w s - (c_r s + 1)) = unat (c_w s - c_r s) - 1" by metis
  then have n: "ready_len s = 1 + ready_len t" using \<open>0 < unat (c_w s - c_r s)\<close> by (simp add: ready_len_def t_def)
  have e: "edit_len t = edit_len s" by (simp add: edit_len_def t_def)
  show l: "line_state s = (cbuf s ! slot (c_r s) # fst (line_state t), snd (line_state t))"
    using ring_part_append [of 1 s "c_r s" "ready_len t"] n by (simp add: line_state_def e [unfolded t_def] ring_part_def t_def slot_eq)
  then show "ring_ok t" using assms(2) n e by (simp add: ring_ok_def t_def)
qed

lemma consoleread_ok:
  assumes "ring_ok s"
  shows "\<exists>r rest t. consoleread_loop killed target n dst s = (r, t) \<and> ld_read killed target n dst (fst (line_state s)) = (r, rest) \<and>
    line_state t = (rest, snd (line_state s)) \<and> ring_ok t \<and> (\<forall>p. displays s p \<longrightarrow> displays t p)"
  using assms
proof (induction killed target n dst s rule: consoleread_loop.induct)
  case (1 killed target n dst s)
  show ?case
  proof (cases "c_r s = c_w s")
    case True
    then have "fst (line_state s) = []" by (simp add: line_state_def ready_len_def ring_part_def)
    then show ?thesis using True 1(2) by (subst consoleread_loop.simps) (auto simp: prod_eq_iff)
  next
    case False
    let ?c = "cbuf s ! slot (c_r s)" and ?s1 = "s\<lparr>c_r := c_r s + 1\<rparr>"
    note sh = line_state_shift [OF False 1(2)]
    have same: "?s1\<lparr>c_r := c_r ?s1 - 1\<rparr> = s" by simp
    consider "n \<le> 0" | "0 < n" "?c = 4" | "0 < n" "?c = 10" | "0 < n" "?c \<noteq> 4" "?c \<noteq> 10" by linarith
    then show ?thesis
    proof cases
      case 1
      then show ?thesis using sh \<open>ring_ok s\<close> by (subst consoleread_loop.simps) auto
    next
      case 2
      then show ?thesis using False sh same \<open>ring_ok s\<close> by (subst consoleread_loop.simps) auto
    next
      case 3
      then show ?thesis using False sh by (subst consoleread_loop.simps) auto
    next
      case 4
      then have "consoleread_loop killed target n dst s = consoleread_loop killed target (n - 1) (dst @ [?c]) ?s1"
        using False by (subst consoleread_loop.simps) (simp add: Let_def)
      then show ?thesis using "1.IH" [OF _ False refl refl] 4 sh by auto
    qed
  qed
qed

text \<open>The calls on the console: an interrupt with the characters that the device delivers, a read that begins or goes on after a sleep, and a write.\<close>

datatype cop = Keys "u8 list" | ReadC bool int int "u8 list" | WriteC "u8 list"

datatype cres = Handled bool | Read_result reading | Wrote int | Failed kerr

definition console_step :: "cop \<Rightarrow> console \<Rightarrow> cres \<times> console" where
  "console_step x s =
    (case x of
       Keys cs \<Rightarrow> (case consoleintr (map uint cs) False s of Inl e \<Rightarrow> (Failed e, s) | Inr (d, t) \<Rightarrow> (Handled d, t))
     | ReadC killed target n dst \<Rightarrow> (let (r, t) = consoleread_loop killed target n dst s in (Read_result r, t))
     | WriteC xs \<Rightarrow> (case consolewrite xs s of Inl e \<Rightarrow> (Failed e, s) | Inr (n, t) \<Rightarrow> (Wrote n, t)))"

definition ld_step :: "cop \<Rightarrow> u8 list \<times> u8 list \<Rightarrow> cres \<times> u8 list \<times> u8 list" where
  "ld_step x l =
    (case x of
       Keys cs \<Rightarrow> (Handled (16 \<in> set cs), fold (\<lambda>c. ld_key (uint c)) cs l)
     | ReadC killed target n dst \<Rightarrow> (let (r, rest) = ld_read killed target n dst (fst l) in (Read_result r, rest, snd l))
     | WriteC xs \<Rightarrow> (Wrote (int (length xs)), l))"

lemma console_keys_sim:
  assumes "console_ok s" and "console_step (Keys cs) s = (r, t)"
  shows "console_ok t \<and> ld_step (Keys cs) (line_state s) = (r, line_state t)"
proof -
  have "\<forall>c \<in> set (map uint cs). 0 \<le> c \<and> c < 256" using unsigned_less [where 'a = int and 'b = 8] by auto
  from consoleintr_ok [OF assms(1) this, of False] obtain d u where u: "consoleintr (map uint cs) False s = Inr (d, u)" "console_ok u"
    "line_state u = fold ld_key (map uint cs) (line_state s)" "d = (ctl 80 \<in> set (map uint cs))" by (auto elim!: succeedsE)
  have "uint c = 16 \<longleftrightarrow> c = 16" for c :: u8 by (simp add: word_uint_eq_iff)
  then have "d = (16 \<in> set cs)" using u(4) by (force simp: ctl_def)
  then show ?thesis using assms(2) u(1-3) by (auto simp: console_step_def ld_step_def fold_map comp_def)
qed

interpretation cn: functional_refinement console_step ld_step line_state console_ok
proof unfold_locales
  fix s x r t
  assume ok: "console_ok s" and st: "console_step x s = (r, t)"
  show "console_ok t \<and> ld_step x (line_state s) = (r, line_state t)"
  proof (cases x)
    case (Keys cs)
    then show ?thesis using console_keys_sim ok st by simp
  next
    case (ReadC killed target n dst)
    obtain p where p: "ring_ok s" "displays s p" using ok by (auto simp: console_ok_def)
    obtain q rest u where u: "consoleread_loop killed target n dst s = (q, u)" "ld_read killed target n dst (fst (line_state s)) = (q, rest)"
      "line_state u = (rest, snd (line_state s))" "ring_ok u" "displays u p" using consoleread_ok [OF p(1), of killed target n dst] p(2) by blast
    then have "console_ok u" by (auto simp: console_ok_def)
    then show ?thesis using st ReadC u(1-3) by (simp add: console_step_def ld_step_def)
  next
    case (WriteC xs)
    obtain p where p: "ring_ok s" "displays s p" using ok by (auto simp: console_ok_def)
    from consputs_displays [OF p(2), of xs] obtain u where u: "consputs xs s = Inr u" "displays u (fold (\<lambda>b. paper_put (uint b)) xs p)" "same_input s u" by blast
    then show ?thesis using st WriteC p(1) line_state_same [OF u(3)] by (auto simp: console_step_def ld_step_def consolewrite_def console_ok_def)
  qed
qed

text \<open>C18. The console delivers what a line discipline delivers. From any state in order, every sequence of interrupts with any characters, reads that begin or go on after
  a sleep, and writes gives the results that \<open>ld_step\<close> gives on two lists, the committed text and the line under edit, with erase, kill, end
  of line, end of file and a full buffer: no call panics, and the ring holds exactly these lists. The 32-bit indices may wrap.\<close>

theorem console_line_discipline:
  assumes "console_ok s" and "run_ops console_step ops s = (rs, t)"
  shows "console_ok t \<and> run_ops ld_step ops (line_state s) = (rs, line_state t)"
  by (rule cn.runs_refine [OF assms])

definition console0 :: console where
  "console0 = \<lparr>crt = replicate 2000 0, cursor = 0, serial = [], uart = True, panicked = False, cbuf = replicate 128 0, c_r = - 2, c_w = - 2, c_e = - 2, wakes = 0\<rparr>"

lemma console0_ok: "console_ok console0" "line_state console0 = ([], [])"
proof -
  have "displays console0 \<lparr>cell = \<lambda>_. 0, top = 0, at = 0\<rparr>" by (simp add: displays_def console0_def)
  moreover show "line_state console0 = ([], [])" by (simp add: line_state_def console0_def ready_len_def edit_len_def ring_part_def)
  ultimately show "console_ok console0" by (auto simp: console_ok_def ring_ok_def) (auto simp: console0_def ready_len_def edit_len_def)
qed

theorem console_line_discipline_witness:
  "\<exists>t. run_ops console_step [Keys [104, 120, 8], ReadC False 10 10 [], Keys [105, 13], ReadC False 10 10 []] console0 =
     ([Handled False, Read_result (Asleep 10 []), Handled False, Read_result (Returned 3 [104, 105, 10])], t) \<and> line_state t = ([], [])"
proof -
  let ?ops = "[Keys [104, 120, 8], ReadC False 10 10 [], Keys [105, 13], ReadC False 10 10 []]"
  obtain rs t where r: "run_ops console_step ?ops console0 = (rs, t)" by force
  have "run_ops ld_step ?ops ([], []) = ([Handled False, Read_result (Asleep 10 []), Handled False, Read_result (Returned 3 [104, 105, 10])], ([], []))"
    by (simp add: ld_step_def ld_key_def ctl_def)
  then show ?thesis using console_line_discipline [OF console0_ok(1) r] r unfolding console0_ok(2) by auto
qed

text \<open>C24. Output lands where a terminal of 24 rows puts it. Whatever bytes are written, in whatever order, from a state in order: the write returns the number of bytes,
  \<^verbatim>\<open>panic("pos under/overflow")\<close> is never reached, no cell outside the screen is stored, and the 24 rows of the screen are rows \<open>top\<close> to \<open>top + 23\<close>
  of the paper on which \<open>paper_put\<close> prints the bytes one by one, with the cursor at its place there; the input ring is not touched.\<close>

theorem screen_is_window:
  assumes "displays s p"
  shows "succeeds (consolewrite xs s) (\<lambda>(n, t). n = int (length xs) \<and> same_input s t \<and>
    (\<exists>q. q = fold (\<lambda>b. paper_put (uint b)) xs p \<and> at q = 80 * top q + unat (cursor t) \<and> unat (cursor t) < 24 * 80 \<and>
      (\<forall>i < 24 * 80. crt t ! i = cell q (80 * top q + i)) \<and> displays t q))"
  using consputs_displays [OF assms, of xs] by (auto simp: consolewrite_def succeeds_iff displays_def)

lemma console0_displays: "displays console0 \<lparr>cell = \<lambda>_. 0, top = 0, at = 0\<rparr>"
  by (simp add: displays_def console0_def)

theorem screen_is_window_witness:
  "\<exists>t. consolewrite [104, 105, 10, 33] console0 = Inr (4, t) \<and> crt t ! 1 = 0x0769 \<and> crt t ! 80 = 0x0721 \<and> unat (cursor t) = 81"
proof -
  let ?q = "fold (\<lambda>b. paper_put (uint b)) [104 :: u8, 105, 10, 33] \<lparr>cell = \<lambda>_. 0, top = 0, at = 0\<rparr>"
  have q: "top ?q = 0" "at ?q = 81" "cell ?q 1 = 0x0769" "cell ?q 80 = 0x0721" by (simp_all add: paper_put_def paper_move_def BACKSPACE_def)
  show ?thesis using screen_is_window [OF console0_displays, of "[104, 105, 10, 33]"] q
    by (clarsimp simp: succeeds_iff)
qed


section \<open>Formatted output\<close>

lemma consputs_append: "consputs (xs @ ys) s = bindE (consputs xs s) (consputs ys)"
  by (simp add: consputs_def foldE_append)

lemma consputs_Cons: "consputs (x # xs) s = bindE (consputc (uint x) s) (consputs xs)"
  by (simp add: consputs_def)

lemma consputs_Nil [simp]: "consputs [] s = Inr s"
  by (simp add: consputs_def)

lemma consputs_one: "consputs [c] s = consputc (uint c) s"
  by (cases "consputc (uint c) s") (simp_all add: consputs_def)

text \<open>A format whose arguments suffice prints what it stands for.\<close>

lemma cprintf_renders:
  assumes "render str low_digits False fmt args = Some xs"
  shows "cprintf str (Some fmt) args s = consputs xs s"
proof -
  have "cprintf_loop str fmt args s = consputs xs s" using assms
  proof (induction str low_digits False fmt args arbitrary: s xs rule: render.induct)
    case (3 str c d fmt args)
    consider "c \<noteq> 37" | "c = 37" "takes_arg False d" | "c = 37" "\<not> takes_arg False d" by blast
    then show ?case
    proof cases
      case 1
      then obtain ys where ys: "render str low_digits False (d # fmt) args = Some ys" "xs = c # ys" using 3(4) by auto
      have "cprintf_loop str (d # fmt) args = consputs ys" using 3(1) [OF 1 ys(1)] by blast
      then show ?thesis using 1 ys(2) by (simp add: consputs_Cons)
    next
      case 2
      then obtain a as ys where ys: "args = a # as" "render str low_digits False fmt as = Some ys" "xs = convert str low_digits d a @ ys"
        using 3(4) by (auto split: list.splits)
      have "cprintf_loop str fmt as = consputs ys" using 3(2) [OF _ 2(2) ys(1,2)] 2(1) by blast
      then show ?thesis using 2 ys by (auto simp: consputs_append takes_arg_def convert_def printint_def null_text_def)
    next
      case d: 3
      then obtain ys where ys: "render str low_digits False fmt args = Some ys" "xs = (if d = 37 then [37] else [37, d]) @ ys" using 3(4) by auto
      have "cprintf_loop str fmt args = consputs ys" using 3(3) [OF _ d(2) ys(1)] d(1) by blast
      then show ?thesis using d ys(2) by (auto simp: consputs_Cons [abs_def] takes_arg_def)
    qed
  qed (auto simp: consputs_one)
  then show ?thesis by (simp add: cprintf_def)
qed

end
