(* ===== verification/Kbd.thy ===== *)
theory Kbd
  imports ConsoleProps
begin

text \<open>
  The keyboard (\<^verbatim>\<open>kbd.c\<close>, \<^verbatim>\<open>kbd.h\<close>): the scan codes of the controller become characters through the state of the modifier keys, and
  \<^verbatim>\<open>kbdintr\<close> hands them to the console. A code in the data port is \<open>Some d\<close>; \<open>None\<close> is a status port without \<^verbatim>\<open>KBS_DIB\<close>.
\<close>

unbundle bit_operations_syntax

section \<open>Tables\<close>

text \<open>An array of 256 bytes with its leading elements and its designated ones; the others are zero.\<close>

definition table :: "u8 list \<Rightarrow> (nat \<times> u8) list \<Rightarrow> nat \<Rightarrow> u8" where
  "table xs ds i = (case map_of ds i of Some v \<Rightarrow> v | None \<Rightarrow> if i < length xs then xs ! i else 0)"

definition E0ESC :: u32 where "E0ESC = 64"

definition CAPSLOCK :: u32 where "CAPSLOCK = 8"

definition shiftcode :: "nat \<Rightarrow> u8" where
  "shiftcode = table []
    [(0x1D, 2), (0x2A, 1), (0x36, 1), (0x38, 4), (0x9D, 2), (0xB8, 4)]"

definition togglecode :: "nat \<Rightarrow> u8" where
  "togglecode = table []
    [(0x3A, 8), (0x45, 16), (0x46, 32)]"

definition normalmap :: "nat \<Rightarrow> u8" where
  "normalmap = table [0, 27, 49, 50, 51, 52, 53, 54, 55, 56, 57, 48, 45, 61, 8, 9,
     113, 119, 101, 114, 116, 121, 117, 105, 111, 112, 91, 93, 10, 0, 97, 115,
     100, 102, 103, 104, 106, 107, 108, 59, 39, 96, 0, 92, 122, 120, 99, 118,
     98, 110, 109, 44, 46, 47, 0, 42, 0, 32, 0, 0, 0, 0, 0, 0,
     0, 0, 0, 0, 0, 0, 0, 55, 56, 57, 45, 52, 53, 54, 43, 49,
     50, 51, 48, 46, 0, 0, 0, 0]
    [(0x9C, 10), (0xB5, 47), (0xC8, 226), (0xD0, 227), (0xC9, 230), (0xD1, 231), (0xCB, 228), (0xCD, 229), (0x97, 224), (0xCF, 225), (0xD2, 232), (0xD3, 233)]"

definition shiftmap :: "nat \<Rightarrow> u8" where
  "shiftmap = table [0, 27, 33, 64, 35, 36, 37, 94, 38, 42, 40, 41, 95, 43, 8, 9,
     81, 87, 69, 82, 84, 89, 85, 73, 79, 80, 123, 125, 10, 0, 65, 83,
     68, 70, 71, 72, 74, 75, 76, 58, 34, 126, 0, 124, 90, 88, 67, 86,
     66, 78, 77, 60, 62, 63, 0, 42, 0, 32, 0, 0, 0, 0, 0, 0,
     0, 0, 0, 0, 0, 0, 0, 55, 56, 57, 45, 52, 53, 54, 43, 49,
     50, 51, 48, 46, 0, 0, 0, 0]
    [(0x9C, 10), (0xB5, 47), (0xC8, 226), (0xD0, 227), (0xC9, 230), (0xD1, 231), (0xCB, 228), (0xCD, 229), (0x97, 224), (0xCF, 225), (0xD2, 232), (0xD3, 233)]"

definition ctlmap :: "nat \<Rightarrow> u8" where
  "ctlmap = table [0, 0, 0, 0, 0, 0, 0, 0, 0, 0, 0, 0, 0, 0, 0, 0,
     17, 23, 5, 18, 20, 25, 21, 9, 15, 16, 0, 0, 13, 0, 1, 19,
     4, 6, 7, 8, 10, 11, 12, 0, 0, 0, 0, 28, 26, 24, 3, 22,
     2, 14, 13, 0, 0, 239, 0, 0]
    [(0x9C, 13), (0xB5, 239), (0xC8, 226), (0xD0, 227), (0xC9, 230), (0xD1, 231), (0xCB, 228), (0xCD, 229), (0x97, 224), (0xCF, 225), (0xD2, 232), (0xD3, 233)]"

section \<open>From codes to characters\<close>

definition charcode :: "u32 \<Rightarrow> nat \<Rightarrow> u8" where
  "charcode i = (if i = 0 then normalmap else if i = 1 then shiftmap else ctlmap)"

definition swap_case :: "u8 \<Rightarrow> u8" where
  "swap_case c = (if 97 \<le> c \<and> c \<le> 122 then c + 65 - 97 else if 65 \<le> c \<and> c \<le> 90 then c + 97 - 65 else c)"

definition press :: "u8 \<Rightarrow> u32 \<Rightarrow> int \<times> u32" where
  "press data shift =
    (let s1 = (shift OR ucast (shiftcode (unat data))) XOR ucast (togglecode (unat data));
         c = charcode (s1 AND 3) (unat data)
     in (uint (if s1 AND CAPSLOCK \<noteq> 0 then swap_case c else c), s1))"

definition kbdgetc :: "u8 option \<Rightarrow> u32 \<Rightarrow> int \<times> u32" where
  "kbdgetc port shift =
    (case port of
       None \<Rightarrow> (- 1, shift)
     | Some data \<Rightarrow>
         if data = 0xE0 then (0, shift OR E0ESC)
         else if data AND 0x80 \<noteq> 0 then
           let d = (if shift AND E0ESC \<noteq> 0 then data else data AND 0x7F)
           in (0, shift AND NOT (ucast (shiftcode (unat d)) OR E0ESC))
         else if shift AND E0ESC \<noteq> 0 then press (data OR 0x80) (shift AND NOT E0ESC)
         else press data shift)"

text \<open>What \<^verbatim>\<open>kbdgetc\<close> returns, call by call, while the controller has codes.\<close>

fun kbd_chars :: "u8 list \<Rightarrow> u32 \<Rightarrow> int list \<times> u32" where
  "kbd_chars [] shift = ([fst (kbdgetc None shift)], snd (kbdgetc None shift))"
| "kbd_chars (d # ds) shift =
    (let (c, s1) = kbdgetc (Some d) shift; (cs, s2) = kbd_chars ds s1 in (c # cs, s2))"

definition kbdintr :: "u8 list \<Rightarrow> u32 \<Rightarrow> console \<Rightarrow> kerr + bool \<times> u32 \<times> console" where
  "kbdintr codes shift s =
    (let (cs, s2) = kbd_chars codes shift in bindE (consoleintr cs False s) (\<lambda>(dump, t). Inr (dump, s2, t)))"

section \<open>Typing a line\<close>

text \<open>The codes of a key press that gives the byte: the key alone, or the key under the left shift key.\<close>

definition main_keys :: "nat list" where "main_keys = [2..<84]"

definition keystroke :: "u8 \<Rightarrow> u8 list option" where
  "keystroke c =
    (case find (\<lambda>k. normalmap k = c) main_keys of
       Some k \<Rightarrow> Some [of_nat k, of_nat k OR 0x80]
     | None \<Rightarrow> map_option (\<lambda>k. [0x2A, of_nat k, of_nat k OR 0x80, 0xAA]) (find (\<lambda>k. shiftmap k = c) main_keys))"

definition plain :: "u8 \<Rightarrow> bool" where
  "plain c \<longleftrightarrow> c \<notin> {0, 4, 8, 10, 13, 16, 21, 127}"

lemma ld_key_plain:
  assumes "plain c" and "length rdy + length ed < 127"
  shows "ld_key (uint c) (rdy, ed) = (rdy, ed @ [c])"
proof -
  have "uint c \<notin> {0, 4, 8, 10, 13, 16, 21, 127}" using assms(1) by (auto simp: plain_def word_uint_eq_iff)
  then show ?thesis using assms(2) by (simp add: ld_key_def ctl_def)
qed

lemma ld_key_zero [simp]: "ld_key 0 l = l"
  by (cases l) (simp add: ld_key_def ctl_def)

text \<open>Press and release of every key of the main block, alone and under the shift key.\<close>

definition key_ok :: "nat \<Rightarrow> bool" where
  "key_ok k \<longleftrightarrow>
    (normalmap k \<noteq> 0 \<longrightarrow> kbdgetc (Some (of_nat k)) 0 = (uint (normalmap k), 0) \<and> kbdgetc (Some (of_nat k OR 0x80)) 0 = (0, 0)) \<and>
    (shiftmap k \<noteq> 0 \<longrightarrow> kbdgetc (Some (of_nat k)) 1 = (uint (shiftmap k), 1) \<and> kbdgetc (Some (of_nat k OR 0x80)) 1 = (0, 1))"

lemma main_keys_bits:
  "list_all (\<lambda>k. unat (of_nat k :: u8) = k \<and> (of_nat k :: u8) AND 0x80 = 0 \<and> ((of_nat k :: u8) OR 0x80) AND 0x80 \<noteq> 0 \<and> ((of_nat k :: u8) OR 0x80) AND 0x7F = of_nat k \<and>
     (of_nat k :: u8) \<noteq> 0xE0 \<and> (of_nat k :: u8) OR 0x80 \<noteq> 0xE0) main_keys"
  by code_simp

lemma main_keys_plain: "list_all (\<lambda>k. (normalmap k \<noteq> 0 \<or> shiftmap k \<noteq> 0) \<longrightarrow> shiftcode k = 0 \<and> togglecode k = 0) main_keys"
  by code_simp

lemma main_keys_ok: "list_all key_ok main_keys"
proof -
  have "key_ok k" if k: "k \<in> set main_keys" for k
  proof -
    note b = main_keys_bits [unfolded list_all_iff, rule_format, OF k] and p = main_keys_plain [unfolded list_all_iff, rule_format, OF k]
    show ?thesis using b p by (auto simp: key_ok_def kbdgetc_def press_def charcode_def E0ESC_def CAPSLOCK_def Let_def)
  qed
  then show ?thesis by (simp add: list_all_iff)
qed

lemma shift_key: "kbdgetc (Some 0x2A) 0 = (0, 1)" "kbdgetc (Some 0xAA) 1 = (0, 0)"
  by code_simp+

lemma find_main_key: "find P main_keys = Some k \<Longrightarrow> key_ok k \<and> P k"
  using main_keys_ok find_SomeD [of P main_keys k] by (auto simp: list_all_iff)

lemma kbd_chars_keystroke:
  assumes "keystroke c = Some ks" and "c \<noteq> 0"
  shows "\<exists>cs. (cs = [uint c, 0] \<or> cs = [0, uint c, 0, 0]) \<and> kbd_chars (ks @ rest) 0 = (cs @ fst (kbd_chars rest 0), snd (kbd_chars rest 0))"
proof (cases "find (\<lambda>k. normalmap k = c) main_keys")
  case None
  then obtain k where k: "find (\<lambda>k. shiftmap k = c) main_keys = Some k" "ks = [0x2A, of_nat k, of_nat k OR 0x80, 0xAA]"
    using assms(1) by (auto simp: keystroke_def)
  then show ?thesis using find_main_key [OF k(1)] assms(2) by (auto simp: key_ok_def shift_key case_prod_beta)
next
  case (Some k)
  then have "ks = [of_nat k, of_nat k OR 0x80]" using assms(1) by (simp add: keystroke_def)
  then show ?thesis using find_main_key [OF Some] assms(2) by (auto simp: key_ok_def case_prod_beta)
qed

lemma typed_text:
  assumes "list_all2 (\<lambda>c ks. keystroke c = Some ks) xs kss" and "\<forall>c \<in> set xs. plain c" and "length rdy + length ed + length xs < 128"
  shows "\<exists>cs. kbd_chars (concat kss @ rest) 0 = (cs @ fst (kbd_chars rest 0), snd (kbd_chars rest 0)) \<and> (\<forall>c \<in> set cs. 0 \<le> c \<and> c < 256) \<and>
    fold ld_key cs (rdy, ed) = (rdy, ed @ xs) \<and> ctl 80 \<notin> set cs"
  using assms
proof (induction xs kss arbitrary: ed rule: list_all2_induct)
  case Nil
  show ?case by (intro exI [of _ "[]"]) simp
next
  case (Cons c xs ks kss)
  have c: "plain c" "c \<noteq> 0" using Cons.prems(1) by (auto simp: plain_def)
  obtain cs where cs: "kbd_chars (concat kss @ rest) 0 = (cs @ fst (kbd_chars rest 0), snd (kbd_chars rest 0))" "\<forall>c \<in> set cs. 0 \<le> c \<and> c < 256"
    "fold ld_key cs (rdy, (ed @ [c])) = (rdy, (ed @ [c]) @ xs)" "ctl 80 \<notin> set cs" using Cons.IH [of "ed @ [c]"] Cons.prems by auto
  obtain ds where ds: "ds = [uint c, 0] \<or> ds = [0, uint c, 0, 0]"
    "kbd_chars (ks @ concat kss @ rest) 0 = (ds @ fst (kbd_chars (concat kss @ rest) 0), snd (kbd_chars (concat kss @ rest) 0))"
    using kbd_chars_keystroke [OF Cons.hyps(1) c(2), of "concat kss @ rest"] by blast
  have "ld_key (uint c) (rdy, ed) = (rdy, ed @ [c])" using Cons.prems(2) by (intro ld_key_plain c(1)) simp
  moreover have "uint c < 256" "uint c \<noteq> ctl 80" using c(1) unsigned_less [of c, where 'a = int] by (auto simp: plain_def ctl_def word_uint_eq_iff)
  moreover have "ctl 80 \<noteq> 0" by (simp add: ctl_def)
  ultimately have "fold ld_key (ds @ cs) (rdy, ed) = (rdy, ed @ c # xs)" "\<forall>c \<in> set (ds @ cs). 0 \<le> c \<and> c < 256" "ctl 80 \<notin> set (ds @ cs)"
    using ds(1) cs(2,3,4) by auto
  then show ?case using cs(1) ds(2) by (intro exI [of _ "ds @ cs"]) simp
qed

lemma ld_read_line:
  assumes "\<forall>c \<in> set xs. c \<noteq> 4 \<and> c \<noteq> 10" and "int (length xs) < n"
  shows "ld_read killed target n dst (xs @ 10 # rest) = (Returned (target - n + int (length xs) + 1) (dst @ xs @ [10]), rest)"
  using assms by (induction xs arbitrary: n dst) auto



end
