(* ===== verification/Ulib.thy ===== *)
theory Ulib
  imports Str Print
begin

text \<open>
  The library of user programs (\<^verbatim>\<open>ulib.c\<close>, \<^verbatim>\<open>printf.c\<close>) on the memory of the program. Loops that end at a zero byte are \<open>partial_function\<close>s:
  \<open>None\<close> is a loop that runs for ever. \<^verbatim>\<open>gets\<close> reads from the list of bytes that \<^verbatim>\<open>read(0, &c, 1)\<close> will deliver; \<^verbatim>\<open>printf\<close> gives the
  bytes that its calls of \<^verbatim>\<open>putc\<close> write.
\<close>

section \<open>Definitions\<close>

partial_function (option) strcpy :: "nat \<Rightarrow> nat \<Rightarrow> mem \<Rightarrow> mem option" where
  "strcpy s t m = (let m1 = m(s := m t) in if m t \<noteq> 0 then strcpy (s + 1) (t + 1) m1 else Some m1)"

partial_function (option) strcmp :: "mem \<Rightarrow> nat \<Rightarrow> nat \<Rightarrow> int option" where
  "strcmp m p q = (if m p \<noteq> 0 \<and> m p = m q then strcmp m (p + 1) (q + 1) else Some (uint (m p) - uint (m q)))"

definition ustrlen :: "mem \<Rightarrow> nat \<Rightarrow> nat option" where
  "ustrlen m s = strlen_from (arr_at m s) 0"

definition umemset :: "nat \<Rightarrow> u32 \<Rightarrow> nat \<Rightarrow> mem \<Rightarrow> mem" where
  "umemset dst c n m = stosb dst (ucast c) n m"

partial_function (option) strchr :: "mem \<Rightarrow> nat \<Rightarrow> u8 \<Rightarrow> nat option option" where
  "strchr m s c = (if m s \<noteq> 0 then if m s = c then Some (Some s) else strchr m (s + 1) c else Some None)"

fun gets_loop :: "nat \<Rightarrow> int \<Rightarrow> nat \<Rightarrow> u8 list \<Rightarrow> mem \<Rightarrow> nat \<times> u8 list \<times> mem" where
  "gets_loop buf limit i [] m = (i, [], m)"
| "gets_loop buf limit i (c # cs) m =
    (if int i + 1 < limit then
       let m1 = m(buf + i := c) in if c = 10 \<or> c = 13 then (i + 1, cs, m1) else gets_loop buf limit (i + 1) cs m1
     else (i, c # cs, m))"

definition gets :: "nat \<Rightarrow> int \<Rightarrow> u8 list \<Rightarrow> mem \<Rightarrow> u8 list \<times> mem" where
  "gets buf limit inp m = (let (i, rest, m1) = gets_loop buf limit 0 inp m in (rest, m1(buf + i := 0)))"

text \<open>\<^verbatim>\<open>atoi\<close> on the bytes before the terminating zero.\<close>

fun atoi_loop :: "u8 list \<Rightarrow> u32 \<Rightarrow> u32" where
  "atoi_loop [] n = n"
| "atoi_loop (c # s) n = (if 48 \<le> c \<and> c \<le> 57 then atoi_loop s (n * 10 + ucast c - 48) else n)"

definition atoi :: "u8 list \<Rightarrow> u32" where
  "atoi s = atoi_loop s 0"

definition umemmove :: "nat \<Rightarrow> nat \<Rightarrow> int \<Rightarrow> mem \<Rightarrow> mem" where
  "umemmove dst src n m = copy_up dst src (nat n) m"

definition printint_u :: "u32 \<Rightarrow> u32 \<Rightarrow> bool \<Rightarrow> u8 list" where
  "printint_u xx base sign = printint_chars up_digits xx base sign"

text \<open>\<open>pct\<close>: the last character was a per cent sign that begins a directive.\<close>

fun printf_loop :: "(u32 \<Rightarrow> u8 list) \<Rightarrow> bool \<Rightarrow> u8 list \<Rightarrow> u32 list \<Rightarrow> kerr + u8 list" where
  "printf_loop str pct [] ap = Inr []"
| "printf_loop str pct (c # fmt) ap =
    (if \<not> pct then
       if c = 37 then printf_loop str True fmt ap
       else bindE (printf_loop str False fmt ap) (\<lambda>ys. Inr (c # ys))
     else if c = 100 \<or> c = 120 \<or> c = 112 \<or> c = 115 \<or> c = 99 then
       (case ap of
          [] \<Rightarrow> Inl OutOfBounds
        | a # as \<Rightarrow>
            let xs = (if c = 100 then printint_u a 10 True
                      else if c = 120 \<or> c = 112 then printint_u a 16 False
                      else if c = 115 then if a = 0 then null_text else str a
                      else [ucast a])
            in bindE (printf_loop str False fmt as) (\<lambda>ys. Inr (xs @ ys)))
     else bindE (printf_loop str False fmt ap) (\<lambda>ys. Inr ((if c = 37 then [c] else [37, c]) @ ys)))"

definition printf :: "(u32 \<Rightarrow> u8 list) \<Rightarrow> u8 list \<Rightarrow> u32 list \<Rightarrow> kerr + u8 list" where
  "printf str fmt ap = printf_loop str False fmt ap"

section \<open>Strings\<close>

definition string_in :: "mem \<Rightarrow> nat \<Rightarrow> u8 list \<Rightarrow> bool" where
  "string_in m p xs \<longleftrightarrow> 0 \<notin> set xs \<and> (\<forall>i < length xs. m (p + i) = xs ! i) \<and> m (p + length xs) = 0"

lemma string_in_Nil [simp]: "string_in m p [] \<longleftrightarrow> m p = 0"
  by (simp add: string_in_def)

lemma string_in_Cons: "string_in m p (x # xs) \<longleftrightarrow> x \<noteq> 0 \<and> m p = x \<and> string_in m (p + 1) xs"
  by (auto simp: string_in_def nth_Cons split: nat.splits)

lemma string_in_cong: "\<forall>i \<le> length xs. m' (p + i) = m (p + i) \<Longrightarrow> string_in m' p xs = string_in m p xs"
  by (auto simp: string_in_def)

lemma strcpy_ok:
  assumes "string_in m t xs" and "s + length xs < t \<or> t + length xs < s"
  shows "\<exists>m'. strcpy s t m = Some m' \<and> string_in m' s xs \<and> (\<forall>a. a < s \<or> s + length xs < a \<longrightarrow> m' a = m a)"
  using assms
proof (induction xs arbitrary: s t m)
  case Nil
  then show ?case by (subst strcpy.simps) auto
next
  case (Cons x xs)
  let ?m1 = "m(s := m t)"
  have x: "x \<noteq> 0" "m t = x" "string_in m (t + 1) xs" using Cons.prems(1) by (simp_all add: string_in_Cons)
  have "string_in ?m1 (t + 1) xs" using x(3) Cons.prems(2) by (subst string_in_cong [of _ _ _ m]) auto
  moreover have "s + 1 + length xs < t + 1 \<or> t + 1 + length xs < s + 1" using Cons.prems(2) by auto
  ultimately obtain m' where m': "strcpy (s + 1) (t + 1) ?m1 = Some m'" "string_in m' (s + 1) xs" "\<forall>a. a < s + 1 \<or> s + 1 + length xs < a \<longrightarrow> m' a = ?m1 a"
    using Cons.IH by blast
  moreover have "m' s = x" using m'(3) x by auto
  ultimately show ?case using x by (subst strcpy.simps) (auto simp: string_in_Cons Let_def)
qed

lemma uint_pos8: "0 < uint (x :: u8) \<longleftrightarrow> x \<noteq> 0" "uint (x :: u8) = 0 \<longleftrightarrow> x = 0"
  by (auto simp: order_less_le word_uint_eq_iff)

lemma strcmp_ok:
  assumes "string_in m p xs" and "string_in m q ys"
  shows "\<exists>r. strcmp m p q = Some r \<and> (r = 0 \<longleftrightarrow> xs = ys) \<and> (r < 0 \<longleftrightarrow> (xs, ys) \<in> lexord {(a, b). a < b})"
  using assms
proof (induction xs arbitrary: p q ys)
  case Nil
  then show ?case by (subst strcmp.simps) (cases ys; simp add: string_in_Cons word_less_def uint_pos8)
next
  case (Cons x xs)
  show ?case
  proof (cases "ys \<noteq> [] \<and> hd ys = x")
    case True
    then obtain zs where z: "ys = x # zs" by (cases ys) auto
    then show ?thesis using Cons.IH [of "p + 1" "q + 1" zs] Cons.prems by (subst strcmp.simps) (auto simp: string_in_Cons)
  next
    case False
    then show ?thesis using Cons.prems
      by (subst strcmp.simps) (cases ys; auto simp: string_in_Cons word_less_def uint_pos8 word_uint_eq_iff [of "m q" "m p"])
  qed
qed

lemma strchr_ok:
  assumes "string_in m s xs" and "c \<noteq> 0"
  shows "strchr m s c = Some (if c \<in> set xs then Some (s + length (takeWhile (\<lambda>x. x \<noteq> c) xs)) else None)"
  using assms by (induction xs arbitrary: s) (subst strchr.simps, auto simp: string_in_Cons)+

lemma gets_loop_ok:
  assumes "int i < limit"
  shows "\<exists>n. gets_loop buf limit i inp m = (i + n, drop n inp, \<lambda>a. if buf + i \<le> a \<and> a < buf + i + n then inp ! (a - (buf + i)) else m a) \<and>
    n \<le> length inp \<and> int (i + n) < limit \<and> (\<forall>k. Suc k < n \<longrightarrow> inp ! k \<noteq> 10 \<and> inp ! k \<noteq> 13) \<and>
    (n = length inp \<or> int (i + n) + 1 = limit \<or> 0 < n \<and> inp ! (n - 1) \<in> {10, 13})"
  using assms
proof (induction inp arbitrary: i m)
  case Nil
  then show ?case by (intro exI [of _ 0]) (auto simp: fun_eq_iff)
next
  case (Cons c cs)
  consider "limit \<le> int i + 1" | "int i + 1 < limit" "c = 10 \<or> c = 13" | "int i + 1 < limit" "c \<noteq> 10" "c \<noteq> 13" by linarith
  then show ?case
  proof cases
    case 1
    then show ?thesis using Cons.prems by (intro exI [of _ 0]) (auto simp: fun_eq_iff)
  next
    case 2
    then show ?thesis by (intro exI [of _ 1]) (auto simp: Let_def fun_eq_iff)
  next
    case 3
    have "int (i + 1) < limit" using 3(1) by simp
    from Cons.IH [OF this, of "m(buf + i := c)"] obtain n where n: "gets_loop buf limit (i + 1) cs (m(buf + i := c)) =
        (i + 1 + n, drop n cs, \<lambda>a. if buf + (i + 1) \<le> a \<and> a < buf + (i + 1) + n then cs ! (a - (buf + (i + 1))) else (m(buf + i := c)) a)"
      "n \<le> length cs" "int (i + 1 + n) < limit" "\<forall>k. Suc k < n \<longrightarrow> cs ! k \<noteq> 10 \<and> cs ! k \<noteq> 13"
      "n = length cs \<or> int (i + 1 + n) + 1 = limit \<or> 0 < n \<and> cs ! (n - 1) \<in> {10, 13}" by blast
    have eq: "(\<lambda>a. if buf + (i + 1) \<le> a \<and> a < buf + (i + 1) + n then cs ! (a - (buf + (i + 1))) else (m(buf + i := c)) a) =
      (\<lambda>a. if buf + i \<le> a \<and> a < buf + i + Suc n then (c # cs) ! (a - (buf + i)) else m a)"
      by (rule ext) (auto simp: nth_Cons split: nat.splits intro!: arg_cong [of _ _ "(!) cs"])
    show ?thesis using 3 n(1-3) eq n(4,5)
      by (intro exI [of _ "Suc n"]) (auto simp: Let_def nth_Cons split: nat.splits)
  qed
qed

text \<open>\<^verbatim>\<open>gets\<close> stores a line, or as much of it as fits with its terminating zero, and touches no byte outside the buffer.\<close>

lemma gets_ok:
  assumes "0 < limit"
  shows "\<exists>n m'. gets buf limit inp m = (drop n inp, m') \<and> n \<le> length inp \<and> int n < limit \<and> (\<forall>i < n. m' (buf + i) = inp ! i) \<and> m' (buf + n) = 0 \<and>
    (\<forall>a. a < buf \<or> buf + n < a \<longrightarrow> m' a = m a) \<and> (\<forall>k. Suc k < n \<longrightarrow> inp ! k \<noteq> 10 \<and> inp ! k \<noteq> 13) \<and>
    (n = length inp \<or> int n + 1 = limit \<or> 0 < n \<and> inp ! (n - 1) \<in> {10, 13})"
  using gets_loop_ok [of 0 limit buf inp m] assms by (auto simp: gets_def)

section \<open>Numbers\<close>

definition dec_value :: "u8 list \<Rightarrow> nat" where
  "dec_value = foldl (\<lambda>n c. n * 10 + (unat c - 48)) 0"

lemma atoi_loop_foldl:
  "\<forall>c \<in> set s. 48 \<le> c \<and> c \<le> 57 \<Longrightarrow> atoi_loop s (of_nat n) = of_nat (foldl (\<lambda>n c. n * 10 + (unat c - 48)) n s)"
proof (induction s arbitrary: n)
  case (Cons c s)
  have "48 \<le> unat c" using Cons.prems by (auto simp: word_le_nat_alt)
  then have e: "(of_nat n :: u32) * 10 + ucast c - 48 = of_nat (n * 10 + (unat c - 48))" by (simp add: of_nat_diff)
  have "atoi_loop (c # s) (of_nat n) = atoi_loop s (of_nat n * 10 + ucast c - 48)" using Cons.prems by simp
  also have "\<dots> = of_nat (foldl (\<lambda>n c. n * 10 + (unat c - 48)) (n * 10 + (unat c - 48)) s)" unfolding e using Cons.prems by (intro Cons.IH) simp
  finally show ?case by simp
qed simp

text \<open>The digits that \<^verbatim>\<open>printint\<close> stores are those of the number.\<close>

definition dec_digits :: "(nat \<Rightarrow> u8) \<Rightarrow> bool" where
  "dec_digits digits \<longleftrightarrow> (\<forall>i < 10. digits i = of_nat (48 + i))"

lemma dec_digits_tables: "dec_digits low_digits" "dec_digits up_digits"
  by (simp_all add: dec_digits_def low_digits_def up_digits_def)

lemma dec_digit: "i < 10 \<Longrightarrow> unat (of_nat (48 + i) :: u8) = 48 + i"
  by (simp add: unat_of_nat take_bit_nat_eq_self del: of_nat_add)

lemma digit_loop_value:
  assumes "dec_digits digits"
  shows "foldl (\<lambda>n c. n * 10 + (unat c - 48)) 0 (rev (digit_loop digits 10 x)) = unat x \<and> (\<forall>c \<in> set (digit_loop digits 10 x). 48 \<le> c \<and> c \<le> 57)"
proof (induction "unat x" arbitrary: x rule: less_induct)
  case less
  let ?d = "digits (unat (x mod 10))"
  have lt: "unat (x mod 10) < 10" by (simp add: unat_mod)
  then have d: "unat ?d = 48 + unat (x mod 10)" using assms dec_digit unfolding dec_digits_def by metis
  then have r: "48 \<le> ?d \<and> ?d \<le> 57" using lt by (simp add: word_le_nat_alt)
  have ten: "\<not> (10 :: u32) \<le> 1" by (simp add: word_le_nat_alt)
  have split: "unat x = unat (x div 10) * 10 + unat (x mod 10)" by (simp add: unat_div unat_mod)
  show ?case
  proof (cases "x div 10 = 0")
    case True
    then show ?thesis using d r split by (subst (1 2) digit_loop.simps) (simp add: ten)
  next
    case False
    then have "unat (x div 10) \<noteq> 0" by (simp add: unat_eq_zero)
    then have "unat (x div 10) < unat x" by (simp add: unat_div)
    from less [OF this] False show ?thesis using d r split by (subst (1 2) digit_loop.simps) (simp add: ten)
  qed
qed

lemma atoi_printint:
  assumes "dec_digits digits" and "0 \<le> sint x"
  shows "atoi (printint_chars digits x 10 True) = x"
proof -
  note v = digit_loop_value [OF assms(1), of x]
  have "atoi_loop (rev (digit_loop digits 10 x)) (of_nat 0) = of_nat (unat x)" using atoi_loop_foldl [of "rev (digit_loop digits 10 x)" 0] v by simp
  then show ?thesis using assms(2) by (simp add: atoi_def printint_chars_def)
qed

section \<open>Formats\<close>

lemma printf_renders:
  assumes "render str up_digits True fmt ap = Some xs"
  shows "printf str fmt ap = Inr xs"
proof -
  have "printf_loop str False fmt ap = Inr xs" using assms
  proof (induction str up_digits True fmt ap arbitrary: xs rule: render.induct)
    case (3 str c d fmt args)
    consider "c \<noteq> 37" | "c = 37" "takes_arg True d" | "c = 37" "\<not> takes_arg True d" by blast
    then show ?case
    proof cases
      case 1
      then show ?thesis using 3(1) [OF 1] 3(4) by auto
    next
      case 2
      then obtain a as ys where ys: "args = a # as" "render str up_digits True fmt as = Some ys" "xs = convert str up_digits d a @ ys"
        using 3(4) by (auto split: list.splits)
      have "printf_loop str False fmt as = Inr ys" using 3(2) [OF _ 2(2) ys(1,2)] 2(1) by blast
      then show ?thesis using 2 ys by (auto simp: takes_arg_def convert_def printint_u_def)
    next
      case d: 3
      then show ?thesis using 3(3) [OF _ d(2)] 3(4) by (auto simp: takes_arg_def)
    qed
  qed auto
  then show ?thesis by (simp add: printf_def)
qed

lemma printf_missing_argument:
  assumes "render str up_digits True fmt ap = None"
  shows "printf str fmt ap = Inl OutOfBounds"
proof -
  have "printf_loop str False fmt ap = Inl OutOfBounds" using assms
  proof (induction str up_digits True fmt ap rule: render.induct)
    case (3 str c d fmt args)
    consider "c \<noteq> 37" | "c = 37" "takes_arg True d" | "c = 37" "\<not> takes_arg True d" by blast
    then show ?case
    proof cases
      case 1
      then show ?thesis using 3(1) [OF 1] 3(4) by auto
    next
      case 2
      then show ?thesis using 3(2) [OF _ 2(2)] 3(4) by (cases args) (auto simp: takes_arg_def)
    next
      case d: 3
      then show ?thesis using 3(3) [OF _ d(2)] 3(4) by (auto simp: takes_arg_def)
    qed
  qed auto
  then show ?thesis by (simp add: printf_def)
qed




text \<open>The user library moves bytes upwards only: it agrees with the kernel's \<^verbatim>\<open>memmove\<close> unless the target lies inside the source.\<close>

lemma umemmove_eq: "dst \<le> src \<or> src + nat n \<le> dst \<Longrightarrow> umemmove dst src n m = memmove dst src (nat n) m"
  by (auto simp: umemmove_def memmove_def)

lemma umemmove_overlap: "umemmove 1 0 2 (\<lambda>a. of_nat a + 5) 2 = 5" "memmove 1 0 2 (\<lambda>a. of_nat a + 5) 2 = 6"
  by (simp_all add: umemmove_def memmove_eq numeral_2_eq_2)

end
