(* ===== verification/Pmanager.thy ===== *)
theory Pmanager
  imports Ulib
begin

text \<open>
  The process manager (\<^verbatim>\<open>pmanager.c\<close>): a line of input becomes four words, the words a command, and a child of the manager makes the system calls of the
  command. The array of words and the buffer \<^verbatim>\<open>tmp\<close> have their bounds; what the source would write outside them is \<open>OutOfBounds\<close>.
  Strings are lists of bytes without the terminating zero.
\<close>

section \<open>Definitions\<close>

datatype pmcmd = LIST | KILL u32 | EXECUTE "u8 list" u32 | LIMIT u32 u32 | BACK pmcmd

text \<open>The system calls of a command. \<^verbatim>\<open>exec2\<close> gets the bytes of the path as its vector of arguments.\<close>

datatype pmcall = Call_list | Call_kill u32 | Call_exec2 "u8 list" "u8 list" u32 | Call_setmemorylimit u32 u32 | Call_fork

definition put_word :: "nat \<Rightarrow> u8 list \<Rightarrow> u8 list list \<Rightarrow> kerr + u8 list list" where
  "put_word wordcnt tmp words = (if length tmp < 100 \<and> wordcnt < length words then Inr (words[wordcnt := tmp]) else Inl OutOfBounds)"

fun parse_words :: "u8 list \<Rightarrow> u8 list \<Rightarrow> nat \<Rightarrow> u8 list list \<Rightarrow> kerr + u8 list list" where
  "parse_words [] tmp wordcnt words = put_word wordcnt tmp words"
| "parse_words (c # cs) tmp wordcnt words =
    (if c = 32 then bindE (put_word wordcnt tmp words) (parse_words cs [] (wordcnt + 1))
     else if c \<noteq> 10 then if length tmp < 100 then parse_words cs (tmp @ [c]) wordcnt words else Inl OutOfBounds
     else parse_words cs tmp wordcnt words)"

definition parsecmd_pm :: "u8 list \<Rightarrow> kerr + u8 list list" where
  "parsecmd_pm input = parse_words input [] 0 (replicate 4 [])"

definition str_list :: "u8 list" where "str_list = [108, 105, 115, 116]"

definition str_kill :: "u8 list" where "str_kill = [107, 105, 108, 108]"

definition str_execute :: "u8 list" where "str_execute = [101, 120, 101, 99, 117, 116, 101]"

definition str_memlim :: "u8 list" where "str_memlim = [109, 101, 109, 108, 105, 109]"

definition str_exit :: "u8 list" where "str_exit = [101, 120, 105, 116]"

text \<open>\<open>None\<close>: the message \<^verbatim>\<open>cmd: command error\<close> and \<^verbatim>\<open>exit()\<close>.\<close>

definition makecmd :: "u8 list list \<Rightarrow> pmcmd option" where
  "makecmd words =
    (if words ! 0 = str_list then Some LIST
     else if words ! 0 = str_kill then Some (KILL (atoi (words ! 1)))
     else if words ! 0 = str_execute then Some (BACK (EXECUTE (words ! 1) (atoi (words ! 2))))
     else if words ! 0 = str_memlim then Some (LIMIT (atoi (words ! 1)) (atoi (words ! 2)))
     else None)"

fun runcmd :: "pmcmd \<Rightarrow> pmcall list" where
  "runcmd LIST = [Call_list]"
| "runcmd (KILL pid) = [Call_kill pid]"
| "runcmd (EXECUTE path stacksize) = [Call_exec2 path path stacksize]"
| "runcmd (LIMIT pid limit) = [Call_setmemorylimit pid limit]"
| "runcmd (BACK c) = Call_fork # runcmd c"

text \<open>The loop of \<^verbatim>\<open>main\<close> over the lines that \<^verbatim>\<open>gets\<close> delivers: the calls of each child, in order.\<close>

fun pm_main :: "u8 list list \<Rightarrow> kerr + pmcall list list" where
  "pm_main [] = Inr []"
| "pm_main (l # ls) =
    (if l = [] then Inr []
     else bindE (parsecmd_pm l) (\<lambda>words.
       if words ! 0 = str_exit then Inr []
       else case makecmd words of
           None \<Rightarrow> Inr []
         | Some c \<Rightarrow> bindE (pm_main ls) (\<lambda>r. Inr (runcmd c # r))))"

section \<open>Splitting a line\<close>

fun split_words :: "u8 list \<Rightarrow> u8 list list" where
  "split_words [] = [[]]"
| "split_words (c # cs) = (if c = 32 then [] # split_words cs else if c = 10 then split_words cs else (c # hd (split_words cs)) # tl (split_words cs))"

lemma split_words_nonempty [simp]: "split_words xs \<noteq> []"
  by (induction xs) auto

lemma length_split_words: "length (split_words xs) = count_list xs 32 + 1"
  by (induction xs) auto

definition put_all :: "nat \<Rightarrow> u8 list list \<Rightarrow> u8 list list \<Rightarrow> u8 list list" where
  "put_all k ws words = take k words @ ws @ drop (k + length ws) words"

lemma put_all_Cons: "k < length words \<Longrightarrow> put_all (Suc k) ws (words[k := w]) = put_all k (w # ws) words"
  by (simp add: put_all_def take_Suc_conv_app_nth)

lemma parse_words_eq:
  assumes "length tmp + length xs < 100" and "k \<le> length words"
  shows "parse_words xs tmp k words =
    (let ws = (tmp @ hd (split_words xs)) # tl (split_words xs)
     in if k + length ws \<le> length words then Inr (put_all k ws words) else Inl OutOfBounds)"
  using assms
proof (induction xs arbitrary: tmp k words)
  case Nil
  then show ?case by (auto simp: put_word_def put_all_def upd_conv_take_nth_drop)
next
  case (Cons c xs)
  show ?case
  proof (cases "c = 32")
    case True
    show ?thesis
    proof (cases "k < length words")
      case k: True
      then have "parse_words xs [] (Suc k) (words[k := tmp]) = (if Suc k + length (split_words xs) \<le> length words
          then Inr (put_all (Suc k) (split_words xs) (words[k := tmp])) else Inl OutOfBounds)"
        using Cons.IH [of "[]" "Suc k" "words[k := tmp]"] Cons.prems by (simp add: Let_def)
      then show ?thesis using True k Cons.prems by (simp add: put_word_def put_all_Cons Let_def)
    qed (use True Cons.prems in \<open>simp add: put_word_def\<close>)
  next
    case False
    then show ?thesis using Cons.IH [of "if c = 10 then tmp else tmp @ [c]" k words] Cons.prems by (auto simp: Let_def)
  qed
qed

lemma parsecmd_pm_eq:
  assumes "length xs < 100"
  shows "parsecmd_pm xs = (if count_list xs 32 \<le> 3 then Inr (split_words xs @ replicate (3 - count_list xs 32) []) else Inl OutOfBounds)"
  using parse_words_eq [of "[]" xs 0 "replicate 4 []"] assms
  by (auto simp: parsecmd_pm_def length_split_words put_all_def Let_def drop_replicate)

section \<open>Reading commands back\<close>

text \<open>The line that a user types for a command.\<close>

definition num :: "u32 \<Rightarrow> u8 list" where "num x = printint_u x 10 True"

fun show_pm :: "pmcmd \<Rightarrow> u8 list" where
  "show_pm LIST = str_list @ [10]"
| "show_pm (KILL pid) = str_kill @ 32 # num pid @ [10]"
| "show_pm (EXECUTE path stacksize) = str_execute @ 32 # path @ 32 # num stacksize @ [10]"
| "show_pm (LIMIT pid limit) = str_memlim @ 32 # num pid @ 32 # num limit @ [10]"
| "show_pm (BACK c) = show_pm c"

definition word_ok :: "u8 list \<Rightarrow> bool" where
  "word_ok w \<longleftrightarrow> 32 \<notin> set w \<and> 10 \<notin> set w"

fun typed_ok :: "pmcmd \<Rightarrow> bool" where
  "typed_ok LIST = True"
| "typed_ok (KILL pid) = (0 \<le> sint pid)"
| "typed_ok (BACK (EXECUTE path stacksize)) = (word_ok path \<and> length path \<le> 70 \<and> 0 \<le> sint stacksize)"
| "typed_ok (LIMIT pid limit) = (0 \<le> sint pid \<and> 0 \<le> sint limit)"
| "typed_ok _ = False"

lemma split_words_word: "word_ok w \<Longrightarrow> split_words (w @ 32 # xs) = w # split_words xs" "word_ok w \<Longrightarrow> split_words (w @ [10]) = [w]"
  by (induction w) (auto simp: word_ok_def)

lemma names_ok: "word_ok str_list" "word_ok str_kill" "word_ok str_execute" "word_ok str_memlim"
  by (simp_all add: word_ok_def str_list_def str_kill_def str_execute_def str_memlim_def)

lemma num_ok: "0 \<le> sint x \<Longrightarrow> word_ok (num x) \<and> length (num x) \<le> 16 \<and> atoi (num x) = x"
proof -
  assume x: "0 \<le> sint x"
  have "48 \<le> c \<and> c \<le> 57" if "c \<in> set (num x)" for c
    using that x digit_loop_value [OF dec_digits_tables(2), of x] by (auto simp: num_def printint_u_def printint_chars_def)
  then have "\<forall>c \<in> set (num x). c \<noteq> 32 \<and> c \<noteq> 10" by fastforce
  then show ?thesis using x atoi_printint [OF dec_digits_tables(2) x] printint_fits [of 10] by (auto simp: word_ok_def num_def printint_u_def)
qed

text \<open>C26. The process manager reads commands as they are typed. A line with at most three blanks is split into its words, and a line with more of them makes
  \<^verbatim>\<open>parsecmd\<close> write outside the array of four words; the line that spells a command, with its numbers in decimal and a path without
  blanks, is turned into that command again.\<close>

theorem pmanager_reads_commands:
  assumes len: "length line < 100" and c: "typed_ok c"
  shows "(if count_list line 32 \<le> 3 then parsecmd_pm line = Inr (split_words line @ replicate (3 - count_list line 32) []) else parsecmd_pm line = Inl OutOfBounds) \<and>
    succeeds (parsecmd_pm (show_pm c)) (\<lambda>words. makecmd words = Some c \<and> words ! 0 \<noteq> str_exit)"
proof
  show "if count_list line 32 \<le> 3 then parsecmd_pm line = Inr (split_words line @ replicate (3 - count_list line 32) []) else parsecmd_pm line = Inl OutOfBounds"
    using parsecmd_pm_eq [OF len] by simp
  have p: "parsecmd_pm (show_pm c) = Inr (split_words (show_pm c) @ replicate (4 - length (split_words (show_pm c))) [])"
    if "length (show_pm c) < 100" "length (split_words (show_pm c)) \<le> 4"
    using parsecmd_pm_eq [OF that(1)] that(2) by (simp add: length_split_words)
  note names = str_list_def str_kill_def str_execute_def str_memlim_def str_exit_def
  show "succeeds (parsecmd_pm (show_pm c)) (\<lambda>words. makecmd words = Some c \<and> words ! 0 \<noteq> str_exit)"
  proof (cases c rule: typed_ok.cases)
    case 1
    have "split_words (show_pm c) = [str_list]" using 1 split_words_word names_ok by simp
    moreover have "length (show_pm c) < 100" using 1 by (simp add: names)
    ultimately show ?thesis using p by (simp add: makecmd_def names 1)
  next
    case (2 pid)
    note n = num_ok [of pid]
    have "split_words (show_pm c) = [str_kill, num pid]" using 2 c n split_words_word names_ok by simp
    moreover have "length (show_pm c) < 100" using 2 c n by (simp add: names)
    ultimately show ?thesis using p c n by (simp add: makecmd_def 2) (simp add: names)
  next
    case (3 path stacksize)
    note n = num_ok [of stacksize]
    have "split_words (show_pm c) = [str_execute, path, num stacksize]" using 3 c n split_words_word names_ok by simp
    moreover have "length (show_pm c) < 100" using 3 c n by (simp add: names)
    ultimately show ?thesis using p c n by (simp add: makecmd_def 3) (simp add: names)
  next
    case (4 pid limit)
    note n = num_ok [of pid] num_ok [of limit]
    have "split_words (show_pm c) = [str_memlim, num pid, num limit]" using 4 c n split_words_word names_ok by simp
    moreover have "length (show_pm c) < 100" using 4 c n by (simp add: names)
    ultimately show ?thesis using p c n by (simp add: makecmd_def 4) (simp add: names)
  qed (use c in simp_all)
qed

theorem pmanager_reads_commands_witness:
  "parsecmd_pm [107, 32, 32, 32, 32] = Inl OutOfBounds \<and> succeeds (parsecmd_pm (show_pm (LIMIT 4 8192))) (\<lambda>words. makecmd words = Some (LIMIT 4 8192))"
proof -
  have "typed_ok (LIMIT 4 8192)" by simp
  from pmanager_reads_commands [of "[107, 32, 32, 32, 32]", OF _ this] show ?thesis by (auto elim!: succeeds_mono)
qed

text \<open>A line that is no command, an empty one for instance, ends the manager: it leaves the loop before it forks.\<close>

lemma unknown_command_ends_manager: "pm_main [[10], str_list @ [10]] = Inr []" "pm_main [str_list @ [10], [10]] = Inr [[Call_list]]"
  by code_simp+

end
