(* ===== verification/Trap.thy ===== *)
theory Trap
  imports MlfqProps
begin

text \<open>
  Traps and the dispatch of system calls in the MLFQ kernel (\<^verbatim>\<open>src/Project1/trap.c\<close>, \<^verbatim>\<open>syscall.c\<close>, \<^verbatim>\<open>sysproc.c\<close>). \<open>trap\<close> runs
  until the interrupted code goes on (\<open>Back\<close>) or the process has left the processor in \<^verbatim>\<open>yield\<close>, \<^verbatim>\<open>sleep\<close>, \<^verbatim>\<open>wait\<close> or \<^verbatim>\<open>exit\<close>
  (\<open>Away\<close>); a process that is dispatched again after \<^verbatim>\<open>yield\<close> runs \<open>trap_resume\<close>.

  The handlers of the devices and the calls of \<^verbatim>\<open>sysfile.c\<close> and \<^verbatim>\<open>exec.c\<close> are the record \<open>tops\<close>: they give the channels that they wake and the new
  state of the rest of the kernel. \<open>args n\<close> is what \<^verbatim>\<open>argint(n, ..)\<close> stores, \<open>None\<close> when it fails. The counter \<^verbatim>\<open>ticks\<close> is the field \<open>xticks\<close>
  of the state outside \<^verbatim>\<open>ptable.lock\<close>; the sections under \<^verbatim>\<open>tickslock\<close> are atomic.
\<close>

section \<open>Definitions\<close>

record 'e tenv =
  xticks :: u32
  others :: 'e

record 'e tops =
  op_ideintr :: "'e tenv \<Rightarrow> kerr + chan list \<times> 'e tenv"
  op_kbdintr :: "'e tenv \<Rightarrow> kerr + chan list \<times> 'e tenv"
  op_uartintr :: "'e tenv \<Rightarrow> kerr + chan list \<times> 'e tenv"
  op_file_call :: "int \<Rightarrow> proc \<Rightarrow> 'e tenv \<Rightarrow> kerr + int \<times> proc \<times> chan list \<times> 'e tenv"

type_synonym 'e tst = "'e tenv mkst"

datatype trap_end = Back | Away

definition T_SYSCALL :: u32 where "T_SYSCALL = 64"

definition T_MLFQLOCK :: u32 where "T_MLFQLOCK = 129"

definition T_MLFQUNLOCK :: u32 where "T_MLFQUNLOCK = 130"

definition T_IRQ0 :: u32 where "T_IRQ0 = 32"

subsection \<open>System calls of \<^verbatim>\<open>sysproc.c\<close>\<close>

text \<open>The result is \<open>Some v\<close> for a return value and \<open>None\<close> when the process left the processor.\<close>

definition sys_kill :: "(nat \<Rightarrow> int option) \<Rightarrow> nat \<Rightarrow> 'e tst \<Rightarrow> kerr + int option \<times> 'e tst" where
  "sys_kill args c s =
    (case args 0 of
       None \<Rightarrow> Inr (Some (- 1), s)
     | Some n \<Rightarrow> bindE (kill_call c n s) (\<lambda>(r, t). Inr (Some r, t)))"

definition sys_sbrk :: "'e tenv kops \<Rightarrow> (nat \<Rightarrow> int option) \<Rightarrow> nat \<Rightarrow> 'e tst \<Rightarrow> kerr + int option \<times> 'e tst" where
  "sys_sbrk K args c s =
    (case args 0 of
       None \<Rightarrow> Inr (Some (- 1), s)
     | Some n \<Rightarrow>
         bindE (cur c s) (\<lambda>p.
           let addr = sint (sz (procs (m s) p)) in
           bindE (growproc K c n s) (\<lambda>(r, t). Inr (Some (if r < 0 then - 1 else addr), t))))"

text \<open>One pass of the loop of \<^verbatim>\<open>sys_sleep\<close>; the comparison of \<^verbatim>\<open>uint\<close> and \<^verbatim>\<open>int\<close> is unsigned.\<close>

definition sleep_pass :: "nat \<Rightarrow> u32 \<Rightarrow> u32 \<Rightarrow> 'e tst \<Rightarrow> kerr + int option \<times> 'e tst" where
  "sleep_pass c n ticks0 s =
    (if xticks (env s) - ticks0 < n then
       bindE (cur c s) (\<lambda>p.
         if killed (procs (m s) p) then Inr (Some (- 1), s)
         else bindE (sleep c TicksChan (\<lambda>e. e) s) (\<lambda>t. Inr (None, t)))
     else Inr (Some 0, s))"

definition sys_sleep :: "(nat \<Rightarrow> int option) \<Rightarrow> nat \<Rightarrow> 'e tst \<Rightarrow> kerr + int option \<times> 'e tst" where
  "sys_sleep args c s =
    (case args 0 of
       None \<Rightarrow> Inr (Some (- 1), s)
     | Some n \<Rightarrow> sleep_pass c (word_of_int n) (xticks (env s)) s)"

definition sys_uptime :: "'e tst \<Rightarrow> kerr + int option \<times> 'e tst" where
  "sys_uptime s = Inr (Some (sint (xticks (env s))), s)"

definition sys_wait :: "'e tenv kops \<Rightarrow> nat \<Rightarrow> 'e tst \<Rightarrow> kerr + int option \<times> 'e tst" where
  "sys_wait K c s =
    bindE (wait_pass K c s) (\<lambda>(r, t). Inr (case r of Reaped n \<Rightarrow> Some n | NoChild \<Rightarrow> Some (- 1) | WaitSleep \<Rightarrow> None, t))"

definition sys_setPriority :: "(nat \<Rightarrow> int option) \<Rightarrow> nat \<Rightarrow> 'e tst \<Rightarrow> kerr + int option \<times> 'e tst" where
  "sys_setPriority args c s =
    (case args 0 of
       None \<Rightarrow> Inr (Some (- 1), s)
     | Some n \<Rightarrow>
         (case args 1 of
            None \<Rightarrow> Inr (Some (- 1), s)
          | Some v \<Rightarrow> bindE (set_priority_call c n v s) (\<lambda>t. Inr (Some 0, t))))"

definition sys_schedulerLock :: "'e tenv kops \<Rightarrow> (nat \<Rightarrow> int option) \<Rightarrow> nat \<Rightarrow> 'e tst \<Rightarrow> kerr + int option \<times> 'e tst" where
  "sys_schedulerLock K args c s =
    (case args 0 of
       None \<Rightarrow> Inr (Some (- 1), s)
     | Some pw \<Rightarrow> bindE (schedulerLock K c pw s) (\<lambda>t. Inr (if pw = password then Some 0 else None, t)))"

definition sys_schedulerUnlock :: "'e tenv kops \<Rightarrow> (nat \<Rightarrow> int option) \<Rightarrow> nat \<Rightarrow> 'e tst \<Rightarrow> kerr + int option \<times> 'e tst" where
  "sys_schedulerUnlock K args c s =
    (case args 0 of
       None \<Rightarrow> Inr (Some (- 1), s)
     | Some pw \<Rightarrow> bindE (schedulerUnlock K c pw s) (\<lambda>t. Inr (if pw = password then Some 0 else None, t)))"

definition file_call :: "'e tops \<Rightarrow> int \<Rightarrow> nat \<Rightarrow> 'e tst \<Rightarrow> kerr + int option \<times> 'e tst" where
  "file_call T num c s =
    bindE (cur c s) (\<lambda>p.
    bindE (op_file_call T num (procs (m s) p) (env s)) (\<lambda>(v, pr, chs, e).
    bindE (wakeup_all c chs (upd_p p (\<lambda>_. pr) (s\<lparr>env := e\<rparr>))) (\<lambda>t. Inr (Some v, t))))"

subsection \<open>\<^verbatim>\<open>syscall\<close>\<close>

definition syscalls :: "'e tenv kops \<Rightarrow> 'e tops \<Rightarrow> (nat \<Rightarrow> int option) \<Rightarrow> int \<Rightarrow> nat \<Rightarrow> 'e tst \<Rightarrow> kerr + int option \<times> 'e tst" where
  "syscalls K T args num c s =
    (if num = 1 then bindE (fork K c s) (\<lambda>(n, t). Inr (Some n, t))
     else if num = 2 then bindE (exit_call K c s) (\<lambda>t. Inr (None, t))
     else if num = 3 then sys_wait K c s
     else if num = 6 then sys_kill args c s
     else if num = 11 then bindE (sys_getpid c s) (\<lambda>n. Inr (Some n, s))
     else if num = 12 then sys_sbrk K args c s
     else if num = 13 then sys_sleep args c s
     else if num = 14 then sys_uptime s
     else if num = 23 then bindE (sys_yield c s) (\<lambda>t. Inr (None, t))
     else if num = 24 then bindE (sys_getLevel c s) (\<lambda>n. Inr (Some n, s))
     else if num = 25 then sys_setPriority args c s
     else if num = 26 then sys_schedulerLock K args c s
     else if num = 27 then sys_schedulerUnlock K args c s
     else file_call T num c s)"

definition set_eax :: "nat \<Rightarrow> int \<Rightarrow> 'e tst \<Rightarrow> 'e tst" where
  "set_eax p v = upd_p p (\<lambda>pr. pr\<lparr>tf := (tf pr)\<lparr>tf_eax := word_of_int v\<rparr>\<rparr>)"

definition syscall :: "'e tenv kops \<Rightarrow> 'e tops \<Rightarrow> (nat \<Rightarrow> int option) \<Rightarrow> nat \<Rightarrow> 'e tst \<Rightarrow> kerr + trap_end \<times> 'e tst" where
  "syscall K T args c s =
    bindE (cur c s) (\<lambda>p.
      let num = sint (tf_eax (tf (procs (m s) p))) in
      if 0 < num \<and> num < 28 then
        bindE (syscalls K T args num c s) (\<lambda>(r, t).
          case r of None \<Rightarrow> Inr (Away, t) | Some v \<Rightarrow> Inr (Back, set_eax p v t))
      else Inr (Back, set_eax p (- 1) s))"

subsection \<open>\<^verbatim>\<open>trap\<close>\<close>

definition user_mode :: "trapframe \<Rightarrow> bool" where
  "user_mode f \<longleftrightarrow> and (tf_cs f) 3 = 3"

text \<open>\<^verbatim>\<open>if(myproc() && myproc()->killed && (tf->cs&3) == DPL_USER) exit();\<close>\<close>

definition exit_if_killed :: "'e tenv kops \<Rightarrow> nat \<Rightarrow> bool \<Rightarrow> 'e tst \<Rightarrow> kerr + trap_end \<times> 'e tst" where
  "exit_if_killed K c user s =
    (case cpu_proc (cpus s c) of
       None \<Rightarrow> Inr (Back, s)
     | Some p \<Rightarrow> if killed (procs (m s) p) \<and> user then bindE (exit_call K c s) (\<lambda>t. Inr (Away, t)) else Inr (Back, s))"

definition device :: "nat \<Rightarrow> ('e tenv \<Rightarrow> kerr + chan list \<times> 'e tenv) \<Rightarrow> 'e tst \<Rightarrow> kerr + 'e tst" where
  "device c h s = bindE (h (env s)) (\<lambda>(chs, e). wakeup_all c chs (s\<lparr>env := e\<rparr>))"

definition timer_tick :: "nat \<Rightarrow> 'e tst \<Rightarrow> kerr + 'e tst" where
  "timer_tick c s =
    (if c = 0 then wakeup c TicksChan (s\<lparr>env := (env s)\<lparr>xticks := xticks (env s) + 1\<rparr>\<rparr>) else Inr s)"

text \<open>The body of the \<^verbatim>\<open>switch\<close>.\<close>

definition trap_switch :: "'e tenv kops \<Rightarrow> 'e tops \<Rightarrow> nat \<Rightarrow> trapframe \<Rightarrow> 'e tst \<Rightarrow> kerr + 'e tst" where
  "trap_switch K T c f s =
    (let n = tf_trapno f in
     if n = T_MLFQLOCK then schedulerLock K c password s
     else if n = T_MLFQUNLOCK then schedulerUnlock K c password s
     else if n = T_IRQ0 then timer_tick c s
     else if n = T_IRQ0 + 14 then device c (op_ideintr T) s
     else if n = T_IRQ0 + 15 then Inr s
     else if n = T_IRQ0 + 1 then device c (op_kbdintr T) s
     else if n = T_IRQ0 + 4 then device c (op_uartintr T) s
     else if n = T_IRQ0 + 7 \<or> n = T_IRQ0 + 31 then Inr s
     else
       case cpu_proc (cpus s c) of
         None \<Rightarrow> Inl (Panic ''trap'')
       | Some p \<Rightarrow>
           if and (tf_cs f) 3 = 0 then Inl (Panic ''trap'')
           else Inr (upd_p p (\<lambda>pr. pr\<lparr>killed := True\<rparr>) s))"

definition trap_resume :: "'e tenv kops \<Rightarrow> nat \<Rightarrow> trapframe \<Rightarrow> 'e tst \<Rightarrow> kerr + trap_end \<times> 'e tst" where
  "trap_resume K c f s = exit_if_killed K c (user_mode f) s"

definition trap :: "'e tenv kops \<Rightarrow> 'e tops \<Rightarrow> (nat \<Rightarrow> int option) \<Rightarrow> nat \<Rightarrow> trapframe \<Rightarrow> 'e tst \<Rightarrow> kerr + trap_end \<times> 'e tst" where
  "trap K T args c f s =
    (if tf_trapno f = T_SYSCALL then
       bindE (cur c s) (\<lambda>p.
         if killed (procs (m s) p) then bindE (exit_call K c s) (\<lambda>t. Inr (Away, t))
         else
           bindE (syscall K T args c (upd_p p (\<lambda>pr. pr\<lparr>tf := f\<rparr>) s)) (\<lambda>(r, t).
             if r = Away then Inr (Away, t) else exit_if_killed K c True t))
     else
       bindE (trap_switch K T c f s) (\<lambda>s1.
       bindE (exit_if_killed K c (user_mode f) s1) (\<lambda>(r, s2).
         if r = Away then Inr (Away, s2)
         else
           case cpu_proc (cpus s2 c) of
             None \<Rightarrow> Inr (Back, s2)
           | Some p \<Rightarrow>
               if state (procs (m s2) p) = RUNNING \<and> tf_trapno f = T_IRQ0
               then bindE (yield c s2) (\<lambda>t. Inr (Away, t))
               else trap_resume K c f s2)))"

section \<open>Traps as sequences of kernel steps\<close>

lemma kreach_trans: "kreach K s t \<Longrightarrow> kreach K t u \<Longrightarrow> kreach K s u"
  by (rotate_tac, induction rule: kreach.induct) (auto intro: kreach.step)

lemma kreach_one: "kstep K s t \<Longrightarrow> kreach K s t"
  by (rule kreach.step [OF kreach.start])

text \<open>A piece of kernel code that keeps or gives up processor \<open>c\<close>.\<close>

definition keeps :: "'e kops \<Rightarrow> 'e mkst \<Rightarrow> 'e mkst \<Rightarrow> bool" where
  "keeps K s t \<longleftrightarrow> kreach K s t \<and> runs t = runs s"

definition leaves :: "'e kops \<Rightarrow> nat \<Rightarrow> 'e mkst \<Rightarrow> 'e mkst \<Rightarrow> bool" where
  "leaves K c s t \<longleftrightarrow> kreach K s t \<and> runs t = (runs s)(c := None)"

lemma keeps_refl [simp]: "keeps K s s"
  by (simp add: keeps_def kreach.start)

lemma keeps_trans: "keeps K s t \<Longrightarrow> keeps K t u \<Longrightarrow> keeps K s u"
  unfolding keeps_def by (metis kreach_trans)

lemma keeps_leaves: "keeps K s t \<Longrightarrow> leaves K c t u \<Longrightarrow> leaves K c s u"
  unfolding keeps_def leaves_def by (metis kreach_trans)

lemma keeps_kinv: "keeps K s t \<Longrightarrow> kinv s \<Longrightarrow> kinv t"
  unfolding keeps_def by (blast intro: kreach_kinv)

lemma keeps_runs: "keeps K s t \<Longrightarrow> runs t c = runs s c"
  unfolding keeps_def by (auto dest: fun_cong)

lemma keeps_env [simp]: "keeps K s (s\<lparr>env := e\<rparr>)"
  unfolding keeps_def using kreach_one [OF kstep.environment] by auto

lemma keeps_own: "inert f (procs (m s) p) \<Longrightarrow> keeps K s (upd_p p f s)"
  unfolding keeps_def using kreach_one [OF kstep.own_slot] by (auto simp: upd_p_def upd_proc_def)

lemma wakeup_keeps:
  assumes "kinv s" and "wakeup c ch s = Inr t"
  shows "keeps K s t"
  using wakeup_kinv [OF assms(1), of c ch] assms(2) kreach_one [OF kstep.wakeup [OF assms(2)]] by (simp add: keeps_def)

lemma wakeup_all_keeps: "kinv s \<Longrightarrow> wakeup_all c chs s = Inr t \<Longrightarrow> keeps K s t"
proof (induction chs arbitrary: s)
  case (Cons ch chs)
  then obtain u where u: "wakeup c ch s = Inr u" "wakeup_all c chs u = Inr t" by (auto simp: bindE_Inr_iff)
  from wakeup_keeps [OF Cons.prems(1) u(1)] have k: "keeps K s u" .
  from Cons.IH [OF keeps_kinv [OF k Cons.prems(1)] u(2)] k show ?case by (blast intro: keeps_trans)
qed simp

text \<open>A change of the environment followed by wakeups and a change of a slot outside the queues.\<close>

lemma effect_keeps:
  assumes inv: "kinv s" and w: "wakeup_all c chs (s\<lparr>env := e\<rparr>) = Inr t" and f: "\<And>pr. inert f pr"
  shows "keeps K s (upd_p p f t)" and "initproc (m (upd_p p f t)) = initproc (m s)"
proof -
  have "kinv (s\<lparr>env := e\<rparr>)" using inv by simp
  from wakeup_all_keeps [OF this w] have "keeps K s t" by (rule keeps_trans [OF keeps_env])
  then show "keeps K s (upd_p p f t)" by (rule keeps_trans) (rule keeps_own [OF f])
  show "initproc (m (upd_p p f t)) = initproc (m s)" using wakeup_all_kinv [of "s\<lparr>env := e\<rparr>" c chs] inv w by (simp add: upd_proc_def)
qed

lemma close_files_keeps:
  "kinv s \<Longrightarrow> close_files K c p fds s = Inr t \<Longrightarrow> keeps K s t \<and> initproc (m t) = initproc (m s)"
proof (induction fds arbitrary: s)
  case (Cons fd fds)
  show ?case
  proof (cases "ofile (procs (m s) p) ! fd")
    case None
    then show ?thesis using Cons by simp
  next
    case (Some f)
    let ?f = "\<lambda>pr. pr\<lparr>ofile := (ofile pr)[fd := None]\<rparr>"
    obtain chs e s1 where s1: "wakeup_all c chs (s\<lparr>env := e\<rparr>) = Inr s1" "close_files K c p fds (upd_p p ?f s1) = Inr t"
      using Some Cons.prems(2) by (auto simp: bindE_Inr_iff)
    have inert: "inert ?f pr" for pr by (simp add: inert_def)
    note k = effect_keeps [OF Cons.prems(1) s1(1) inert]
    from Cons.IH [OF keeps_kinv [OF k(1) Cons.prems(1)] s1(2)] show ?thesis using keeps_trans [OF k(1)] k(2) by auto
  qed
qed simp

lemma exit_call_leaves:
  assumes inv: "kinv s" and run: "runs s c = Some p" and ex: "exit_call K c s = Inr t"
  shows "leaves K c s t"
proof -
  let ?f = "\<lambda>pr. pr\<lparr>cwd := None\<rparr>"
  from ex run obtain s1 chs e s2 where ini: "initproc (m s) \<noteq> Some p" and s1: "close_files K c p [0..<NOFILE] s = Inr s1"
    and s2: "wakeup_all c chs (s1\<lparr>env := e\<rparr>) = Inr s2" and t: "exit_tail c p (upd_p p ?f s2) = Inr t"
    by (auto simp: exit_call_def cur_def bindE_Inr_iff split: if_splits)
  note k1 = close_files_keeps [OF inv s1]
  have i1: "kinv s1" using k1 inv by (blast intro: keeps_kinv)
  have inert: "inert ?f pr" for pr by (simp add: inert_def)
  note k2 = effect_keeps [OF i1 s2 inert]
  let ?u = "upd_p p ?f s2"
  have k: "keeps K s ?u" using k1 k2(1) by (blast intro: keeps_trans)
  have u: "runs ?u c = Some p" "initproc (m ?u) \<noteq> Some p" "kinv ?u" using keeps_runs [OF k] run ini keeps_kinv [OF k inv] k1 k2(2) by simp_all
  have "leaves K c ?u t" using exit_tail_kinv [OF u(3,1,2)] t kreach_one [OF kstep.exit [OF u(1,2) t]] by (simp add: leaves_def)
  then show ?thesis using k by (rule keeps_leaves [rotated])
qed

lemma alloc_locked_keeps:
  assumes "kinv s" and "alloc_locked c s = Inr (r, t)"
  shows "keeps K s t" and "r = Some np \<Longrightarrow> np < NPROC \<and> state (procs (m t) np) = EMBRYO"
proof -
  obtain A where A: "placed (m s) A" using assms(1) by (auto simp: kinv_def)
  have t: "runs t = runs s" "alloc_slot (m s) = (r, m t)" using alloc_locked_kinv [OF assms(1), of c] assms(2) by auto
  then show "keeps K s t" using kreach_one [OF kstep.alloc [OF assms(2)]] by (simp add: keeps_def)
  show "r = Some np \<Longrightarrow> np < NPROC \<and> state (procs (m t) np) = EMBRYO" using alloc_slot_fresh(1,3) [OF A, of np "m t"] t(2) by simp
qed

lemma discard_keeps:
  assumes "kinv s" and "p < NPROC" and "state (procs (m s) p) = EMBRYO" and "on_m (free_slot p) s = Inr t"
  shows "keeps K s t"
  using discard_kinv [OF assms(1-3)] assms(4) kreach_one [OF kstep.discard [OF assms(2-4)]] by (simp add: keeps_def)

lemma publish_keeps:
  assumes "kinv s" and "p < NPROC" and "state (procs (m s) p) = EMBRYO" and "publish c p s = Inr t"
  shows "keeps K s t"
  using publish_kinv [OF assms(1-3), of c] assms(4) kreach_one [OF kstep.publish [OF assms(2-4)]] by (simp add: keeps_def)

text \<open>Filling in an embryo: its state stays.\<close>

lemma own_embryo:
  assumes "keeps K s t" and "state (procs (m t) p) = EMBRYO" and "\<And>pr. inert f pr"
  shows "keeps K s (upd_p p f (t\<lparr>env := e\<rparr>)) \<and> state (procs (m (upd_p p f (t\<lparr>env := e\<rparr>))) p) = EMBRYO"
proof
  have "keeps K t (upd_p p f (t\<lparr>env := e\<rparr>))" by (rule keeps_trans [OF keeps_env keeps_own [OF assms(3)]])
  then show "keeps K s (upd_p p f (t\<lparr>env := e\<rparr>))" by (rule keeps_trans [OF assms(1)])
  show "state (procs (m (upd_p p f (t\<lparr>env := e\<rparr>))) p) = EMBRYO" using assms(2,3) by (simp add: inert_def)
qed

lemma allocproc_keeps:
  assumes inv: "kinv s" and al: "allocproc K c s = Inr (r, t)"
  shows "keeps K s t \<and> (\<forall>np. r = Some np \<longrightarrow> np < NPROC \<and> state (procs (m t) np) = EMBRYO)"
proof -
  obtain r1 s2 where a: "alloc_locked c s = Inr (r1, s2)" using al by (auto simp: allocproc_def bindE_Inr_iff)
  note k = alloc_locked_keeps [OF inv a]
  show ?thesis
  proof (cases r1)
    case None
    then show ?thesis using al a k(1) by (simp add: allocproc_def)
  next
    case (Some p)
    obtain ks e where ka: "op_kalloc K (env s2) = (ks, e)" by fastforce
    let ?s3 = "upd_p p (\<lambda>pr. pr\<lparr>kstack := ks\<rparr>) (s2\<lparr>env := e\<rparr>)"
    have p: "p < NPROC" "state (procs (m s2) p) = EMBRYO" using k(2) Some by auto
    have s3: "keeps K s ?s3" "state (procs (m ?s3) p) = EMBRYO" using own_embryo [OF k(1) p(2), where f = "\<lambda>pr. pr\<lparr>kstack := ks\<rparr>" and e = e] by (simp_all add: inert_def)
    show ?thesis
    proof (cases "ks = 0")
      case True
      then have "on_m (free_slot p) ?s3 = Inr t" "r = None" using al a ka Some by (auto simp: allocproc_def bindE_Inr_iff)
      then show ?thesis using discard_keeps [OF keeps_kinv [OF s3(1) inv] p(1) s3(2)] s3(1) by (auto intro: keeps_trans)
    next
      case False
      then have t: "t = upd_p p (kstack_setup (addr_trapret K) (addr_forkret K)) ?s3" "r = Some p" using al a ka Some by (simp_all add: allocproc_def)
      have "keeps K s t" using s3(1) unfolding t by (rule keeps_trans) (simp add: keeps_own)
      moreover have "state (procs (m t) p) = EMBRYO" using s3(2) unfolding t by (simp add: kstack_setup_def Let_def)
      ultimately show ?thesis using p(1) t(2) by simp
    qed
  qed
qed

lemma fork_keeps:
  assumes inv: "kinv s" and run: "runs s c = Some p" and fk: "fork K c s = Inr (n, t)"
  shows "keeps K s t"
proof -
  obtain r s1 where al: "allocproc K c s = Inr (r, s1)" using fk run by (auto simp: fork_def cur_def bindE_Inr_iff)
  note a = allocproc_keeps [OF inv al]
  show ?thesis
  proof (cases r)
    case None
    then show ?thesis using fk run al a by (simp add: fork_def cur_def)
  next
    case (Some np)
    have np: "np < NPROC" "state (procs (m s1) np) = EMBRYO" and k1: "keeps K s s1" using a Some by auto
    let ?cp = "procs (m s1) p"
    obtain pg e1 where cu: "op_copyuvm K (pgdir ?cp) (sz ?cp) (env s1) = Inr (pg, e1)" using fk run al Some by (auto simp: fork_def cur_def bindE_Inr_iff Let_def)
    let ?s2 = "upd_p np (\<lambda>pr. pr\<lparr>pgdir := pg\<rparr>) (s1\<lparr>env := e1\<rparr>)"
    have s2: "keeps K s ?s2" "state (procs (m ?s2) np) = EMBRYO"
      using own_embryo [OF k1 np(2), where f = "\<lambda>pr. pr\<lparr>pgdir := pg\<rparr>" and e = e1] by (simp_all add: inert_def)
    show ?thesis
    proof (cases "pg = 0")
      case True
      then obtain e2 where t: "on_m (free_slot np) (upd_p np (\<lambda>pr. pr\<lparr>kstack := 0\<rparr>) (?s2\<lparr>env := e2\<rparr>)) = Inr t"
        using fk run al Some cu by (auto simp: fork_def cur_def bindE_Inr_iff Let_def)
      have s3: "keeps K s (upd_p np (\<lambda>pr. pr\<lparr>kstack := 0\<rparr>) (?s2\<lparr>env := e2\<rparr>))" "state (procs (m (upd_p np (\<lambda>pr. pr\<lparr>kstack := 0\<rparr>) (?s2\<lparr>env := e2\<rparr>))) np) = EMBRYO"
        using own_embryo [OF s2, where f = "\<lambda>pr. pr\<lparr>kstack := 0\<rparr>" and e = e2] by (simp_all add: inert_def)
      from discard_keeps [OF keeps_kinv [OF s3(1) inv] np(1) s3(2) t] show ?thesis by (rule keeps_trans [OF s3(1)])
    next
      case False
      let ?f = "\<lambda>pr. pr\<lparr>sz := sz ?cp, parent := Some p, tf := (tf ?cp)\<lparr>tf_eax := 0\<rparr>\<rparr>"
      have s3: "keeps K s (upd_p np ?f ?s2)" "state (procs (m (upd_p np ?f ?s2)) np) = EMBRYO"
        using s2(2) by (simp_all add: keeps_trans [OF s2(1) keeps_own] inert_def)
      obtain fs e3 where df: "dup_files K (ofile ?cp) (ofile (procs (m (upd_p np ?f ?s2)) np)) (env (upd_p np ?f ?s2)) = Inr (fs, e3)"
        using fk run al Some cu False by (auto simp: fork_def cur_def bindE_Inr_iff Let_def)
      let ?g = "\<lambda>pr. pr\<lparr>ofile := fs, cwd := cwd ?cp, name := safestrcpy_str 16 (name ?cp)\<rparr>"
      let ?s4 = "upd_p np ?g ((upd_p np ?f ?s2)\<lparr>env := op_idup K (cwd ?cp) e3\<rparr>)"
      have s4: "keeps K s ?s4" "state (procs (m ?s4) np) = EMBRYO"
        using own_embryo [OF s3, where f = ?g and e = "op_idup K (cwd ?cp) e3"] by (simp_all add: inert_def)
      have "publish c np ?s4 = Inr t" using fk run al Some cu False df by (auto simp: fork_def cur_def bindE_Inr_iff Let_def)
      from publish_keeps [OF keeps_kinv [OF s4(1) inv] np(1) s4(2) this] show ?thesis by (rule keeps_trans [OF s4(1)])
    qed
  qed
qed

lemma growproc_keeps:
  assumes "runs s c = Some p" and "growproc K c n s = Inr (r, t)"
  shows "keeps K s t"
proof -
  have "keeps K s (upd_p p (\<lambda>pr. pr\<lparr>sz := z\<rparr>) (s\<lparr>env := e\<rparr>))" for z e
    by (rule keeps_trans [OF keeps_env keeps_own]) (simp add: inert_def)
  then show ?thesis using assms by (auto simp: growproc_def cur_def bindE_Inr_iff Let_def split: if_splits prod.splits)
qed

text \<open>The end of a system call or a trap: the code goes on, or the process has left processor \<open>c\<close>.\<close>

definition ended :: "'e kops \<Rightarrow> nat \<Rightarrow> bool \<Rightarrow> 'e mkst \<Rightarrow> 'e mkst \<Rightarrow> bool" where
  "ended K c back s t \<longleftrightarrow> (if back then keeps K s t else leaves K c s t)"

lemma ended_simps [simp]: "ended K c True s t = keeps K s t" "ended K c False s t = leaves K c s t"
  by (simp_all add: ended_def)

lemma yield_leaves: "kinv s \<Longrightarrow> runs s c = Some p \<Longrightarrow> yield c s = Inr t \<Longrightarrow> leaves K c s t"
  using yield_kinv [of s c p] kreach_one [OF kstep.yield] by (auto simp: leaves_def)

lemma sleep_leaves: "kinv s \<Longrightarrow> runs s c = Some p \<Longrightarrow> sleep c ch rel s = Inr t \<Longrightarrow> leaves K c s t"
  using sleep_kinv [of s c p ch rel] kreach_one [OF kstep.sleep] by (auto simp: leaves_def)

lemma lock_ended:
  assumes "kinv s" and "runs s c = Some p"
  shows "schedulerLock K c pw s = Inr t \<Longrightarrow> ended K c (pw = password) s t"
    and "schedulerUnlock K c pw s = Inr t \<Longrightarrow> ended K c (pw = password) s t"
proof -
  have ex: "leaves K c s t" if "exit_call K c s = Inr t" using exit_call_leaves [OF assms that] .
  show "schedulerLock K c pw s = Inr t \<Longrightarrow> ended K c (pw = password) s t"
    using schedulerLock_kinv(1) [OF assms, of K] kreach_one [OF kstep.lock [OF assms(2)]] ex assms(2)
    by (cases "pw = password") (auto simp: keeps_def ended_def schedulerLock_def cur_def)
  show "schedulerUnlock K c pw s = Inr t \<Longrightarrow> ended K c (pw = password) s t"
    using schedulerLock_kinv(2) [OF assms, of K] kreach_one [OF kstep.unlock [OF assms(2)]] ex assms(2)
    by (cases "pw = password") (auto simp: keeps_def ended_def schedulerUnlock_def cur_def)
qed

text \<open>What the calls outside this component keep: the links, the state, the level and the priority of the caller's slot.\<close>

definition tops_ok :: "'e tops \<Rightarrow> bool" where
  "tops_ok T \<longleftrightarrow> (\<forall>n pr e v pr' chs e'. op_file_call T n pr e = Inr (v, pr', chs, e') \<longrightarrow> inert (\<lambda>_. pr') pr)"

lemma file_call_keeps:
  assumes inv: "kinv s" and T: "tops_ok T" and fc: "file_call T num c s = Inr (r, t)"
  shows "keeps K s t \<and> r \<noteq> None"
proof -
  obtain p v pr chs e where p: "runs s c = Some p" and op: "op_file_call T num (procs (m s) p) (env s) = Inr (v, pr, chs, e)"
    and w: "wakeup_all c chs (upd_p p (\<lambda>_. pr) (s\<lparr>env := e\<rparr>)) = Inr t" and r: "r = Some v"
    using fc by (auto simp: file_call_def cur_def deref_def bindE_Inr_iff split: option.splits)
  have "inert (\<lambda>_. pr) (procs (m s) p)" using T op unfolding tops_ok_def by blast
  then have k: "keeps K s (upd_p p (\<lambda>_. pr) (s\<lparr>env := e\<rparr>))" by (intro keeps_trans [OF keeps_env keeps_own]) simp
  from wakeup_all_keeps [OF keeps_kinv [OF k inv] w] show ?thesis using keeps_trans [OF k] r by simp
qed

lemma wait_ended:
  assumes "kinv s" and "runs s c = Some p" and "sys_wait K c s = Inr (r, t)"
  shows "ended K c (r \<noteq> None) s t"
proof -
  obtain w where w: "wait_pass K c s = Inr (w, t)" "r = (case w of Reaped n \<Rightarrow> Some n | NoChild \<Rightarrow> Some (- 1) | WaitSleep \<Rightarrow> None)"
    using assms(3) by (auto simp: sys_wait_def bindE_Inr_iff)
  from wait_pass_kinv [OF assms(1,2) w(1)] kreach_one [OF kstep.wait [OF assms(2) w(1)]] show ?thesis
    using w(2) by (cases w) (auto simp: keeps_def leaves_def)
qed

lemma kill_keeps: "kinv s \<Longrightarrow> kill_call c n s = Inr (r, t) \<Longrightarrow> keeps K s t"
  using kill_kinv [of s c n] kreach_one [OF kstep.kill [of c n s r t]] by (auto simp: keeps_def)

lemma sys_kill_keeps: "kinv s \<Longrightarrow> sys_kill args c s = Inr (r, t) \<Longrightarrow> keeps K s t \<and> r \<noteq> None"
  by (auto simp: sys_kill_def bindE_Inr_iff split: option.splits intro: kill_keeps)

lemma sys_sbrk_keeps: "runs s c = Some p \<Longrightarrow> sys_sbrk K args c s = Inr (r, t) \<Longrightarrow> keeps K s t \<and> r \<noteq> None"
  by (auto simp: sys_sbrk_def cur_def bindE_Inr_iff Let_def split: option.splits intro: growproc_keeps)

lemma sys_sleep_ended: "kinv s \<Longrightarrow> runs s c = Some p \<Longrightarrow> sys_sleep args c s = Inr (r, t) \<Longrightarrow> ended K c (r \<noteq> None) s t"
  by (auto simp: sys_sleep_def sleep_pass_def cur_def bindE_Inr_iff split: option.splits if_splits dest: sleep_leaves)

lemma sys_lock_ended:
  assumes "kinv s" and "runs s c = Some p"
  shows "sys_schedulerLock K args c s = Inr (r, t) \<Longrightarrow> ended K c (r \<noteq> None) s t"
    and "sys_schedulerUnlock K args c s = Inr (r, t) \<Longrightarrow> ended K c (r \<noteq> None) s t"
  by (auto simp: sys_schedulerLock_def sys_schedulerUnlock_def bindE_Inr_iff split: option.splits if_splits dest!: lock_ended [OF assms])

lemma syscalls_ended:
  assumes inv: "kinv s" and run: "runs s c = Some p" and T: "tops_ok T" and n: "num \<noteq> 25" and sy: "syscalls K T args num c s = Inr (r, t)"
  shows "ended K c (r \<noteq> None) s t"
proof -
  consider "num = 1" | "num = 2" | "num = 3" | "num = 6" | "num \<in> {11, 14, 24}" | "num = 12" | "num = 13" | "num = 23" | "num = 26" | "num = 27"
    | "syscalls K T args num c s = file_call T num c s" using n unfolding syscalls_def by (cases "num \<in> {1, 2, 3, 6, 11, 12, 13, 14, 23, 24, 26, 27}") auto
  then show ?thesis
  proof cases
    case 1
    then show ?thesis using sy fork_keeps [OF inv run] by (auto simp: syscalls_def bindE_Inr_iff)
  next
    case 2
    then show ?thesis using sy exit_call_leaves [OF inv run] by (auto simp: syscalls_def bindE_Inr_iff)
  next
    case 3
    then show ?thesis using sy wait_ended [OF inv run] by (simp add: syscalls_def)
  next
    case 4
    then show ?thesis using sy sys_kill_keeps [OF inv] by (simp add: syscalls_def)
  next
    case 5
    then show ?thesis using sy by (auto simp: syscalls_def sys_uptime_def bindE_Inr_iff)
  next
    case 6
    then show ?thesis using sy sys_sbrk_keeps [OF run] by (simp add: syscalls_def)
  next
    case 7
    then show ?thesis using sy sys_sleep_ended [OF inv run] by (simp add: syscalls_def)
  next
    case 8
    then show ?thesis using sy yield_leaves [OF inv run] by (auto simp: syscalls_def sys_yield_def bindE_Inr_iff)
  next
    case 9
    then show ?thesis using sy sys_lock_ended(1) [OF inv run] by (simp add: syscalls_def)
  next
    case 10
    then show ?thesis using sy sys_lock_ended(2) [OF inv run] by (simp add: syscalls_def)
  next
    case 11
    then have "file_call T num c s = Inr (r, t)" using sy by simp
    from file_call_keeps [OF inv T this, of K] show ?thesis by auto
  qed
qed

lemma set_eax_keeps: "keeps K s (set_eax p v s)"
  unfolding set_eax_def by (rule keeps_own) (simp add: inert_def)

lemma syscall_ended:
  assumes inv: "kinv s" and run: "runs s c = Some p" and T: "tops_ok T" and n: "tf_eax (tf (procs (m s) p)) \<noteq> 25" and sy: "syscall K T args c s = Inr (r, t)"
  shows "ended K c (r = Back) s t"
proof -
  let ?num = "sint (tf_eax (tf (procs (m s) p)))"
  have n': "?num \<noteq> 25"
  proof
    assume "?num = 25"
    then have "(word_of_int ?num :: u32) = word_of_int 25" by (rule arg_cong)
    then show False using n by simp
  qed
  show ?thesis
  proof (cases "0 < ?num \<and> ?num < 28")
    case True
    then obtain v u where u: "syscalls K T args ?num c s = Inr (v, u)" "(case v of None \<Rightarrow> Inr (Away, u) | Some v \<Rightarrow> Inr (Back, set_eax p v u)) = (Inr (r, t) :: kerr + _)"
      using sy run by (auto simp: syscall_def cur_def bindE_Inr_iff)
    from syscalls_ended [OF inv run T n' u(1)] u(2) show ?thesis by (cases v) (auto intro: keeps_trans set_eax_keeps)
  next
    case False
    then show ?thesis using sy run by (auto simp: syscall_def cur_def set_eax_keeps)
  qed
qed

lemma exit_if_killed_ended:
  assumes "kinv s" and "exit_if_killed K c user s = Inr (r, t)"
  shows "ended K c (r = Back) s t"
  using assms(2) exit_call_leaves [OF assms(1)] by (auto simp: exit_if_killed_def bindE_Inr_iff split: option.splits if_splits)

lemma device_keeps: "kinv s \<Longrightarrow> device c h s = Inr t \<Longrightarrow> keeps K s t"
  by (auto simp: device_def bindE_Inr_iff intro: keeps_trans [OF keeps_env wakeup_all_keeps])

lemma timer_tick_keeps: "kinv s \<Longrightarrow> timer_tick c s = Inr t \<Longrightarrow> keeps K s t"
  by (auto simp: timer_tick_def split: if_splits intro: keeps_trans [OF keeps_env wakeup_keeps])

lemma trap_switch_keeps:
  assumes inv: "kinv s" and tr: "trap_switch K T c f s = Inr t"
  shows "keeps K s t"
proof -
  have l: "schedulerLock K c password s = Inr t \<Longrightarrow> keeps K s t" "schedulerUnlock K c password s = Inr t \<Longrightarrow> keeps K s t"
    using lock_ended [OF inv, of c _ K password t] by (auto simp: schedulerLock_def schedulerUnlock_def cur_def deref_def bindE_Inr_iff split: option.splits)
  have "keeps K s (upd_p p (\<lambda>pr. pr\<lparr>killed := True\<rparr>) s)" for p by (rule keeps_own) (simp add: inert_def)
  then show ?thesis using tr unfolding trap_switch_def Let_def
    by (auto simp: l device_keeps [OF inv] timer_tick_keeps [OF inv] split: if_splits option.splits)
qed

lemma syscall_trap_ended:
  assumes inv: "kinv s" and T: "tops_ok T" and sc: "tf_trapno f = T_SYSCALL" and n: "tf_eax f \<noteq> 25" and tr: "trap K T args c f s = Inr (r, t)"
  shows "ended K c (r = Back) s t"
proof -
  obtain p where p: "runs s c = Some p" using sc tr by (auto simp: trap_def cur_def deref_def bindE_Inr_iff split: option.splits)
  show ?thesis
  proof (cases "killed (procs (m s) p)")
    case k: True
    then show ?thesis using sc tr p exit_call_leaves [OF inv p] by (auto simp: trap_def cur_def bindE_Inr_iff)
  next
    case nk: False
    let ?s1 = "upd_p p (\<lambda>pr. pr\<lparr>tf := f\<rparr>) s"
    have k1: "keeps K s ?s1" by (rule keeps_own) (simp add: inert_def)
    have s1: "kinv ?s1" "runs ?s1 c = Some p" "tf_eax (tf (procs (m ?s1) p)) \<noteq> 25" using keeps_kinv [OF k1 inv] p n sc by (simp_all add: upd_p_def)
    obtain q u where u: "syscall K T args c ?s1 = Inr (q, u)" "(if q = Away then Inr (Away, u) else exit_if_killed K c True u) = Inr (r, t)"
      using sc nk tr p by (auto simp: trap_def cur_def bindE_Inr_iff)
    note e = syscall_ended [OF s1(1,2) T s1(3) u(1)]
    show ?thesis
    proof (cases "q = Away")
      case True
      then show ?thesis using e u(2) keeps_leaves [OF k1] by simp
    next
      case False
      then have "keeps K s u" using e keeps_trans [OF k1] by (cases q) auto
      moreover from this have "ended K c (r = Back) u t" using exit_if_killed_ended [OF keeps_kinv [OF _ inv]] u(2) False by simp
      ultimately show ?thesis by (cases r) (auto intro: keeps_trans keeps_leaves)
    qed
  qed
qed

lemma interrupt_trap_ended:
  assumes inv: "kinv s" and sc: "tf_trapno f \<noteq> T_SYSCALL" and tr: "trap K T args c f s = Inr (r, t)"
  shows "ended K c (r = Back) s t"
proof -
  obtain s1 q s2 where s1: "trap_switch K T c f s = Inr s1" and s2: "exit_if_killed K c (user_mode f) s1 = Inr (q, s2)"
    and t: "(if q = Away then Inr (Away, s2) else case cpu_proc (cpus s2 c) of None \<Rightarrow> Inr (Back, s2)
         | Some p \<Rightarrow> if state (procs (m s2) p) = RUNNING \<and> tf_trapno f = T_IRQ0 then bindE (yield c s2) (\<lambda>t. Inr (Away, t)) else trap_resume K c f s2) = Inr (r, t)"
    using sc tr by (auto simp: trap_def bindE_Inr_iff)
  have k1: "keeps K s s1" by (rule trap_switch_keeps [OF inv s1])
  have e: "ended K c (q = Back) s1 s2" by (rule exit_if_killed_ended [OF keeps_kinv [OF k1 inv] s2])
  show ?thesis
  proof (cases "q = Away")
    case True
    then show ?thesis using e t keeps_leaves [OF k1] by simp
  next
    case False
    then have k2: "keeps K s s2" using e keeps_trans [OF k1] by (cases q) auto
    note i2 = keeps_kinv [OF k2 inv]
    have "ended K c (r = Back) s2 t"
      using t False yield_leaves [OF i2] exit_if_killed_ended [OF i2] by (auto simp: trap_resume_def bindE_Inr_iff split: option.splits if_splits)
    then show ?thesis using k2 by (cases r) (auto intro: keeps_trans keeps_leaves)
  qed
qed


section \<open>The clock\<close>

lemma yield_env: "yield c s = Inr t \<Longrightarrow> env t = env s"
  by (auto simp: yield_def enter_scheduler_def sched_def plock_acquire_def plock_release_def on_m_def set_cpu_proc_def bindE_Inr_iff Let_def
      split: if_splits prod.splits)

lemma timer_tick_ok:
  assumes inv: "kinv s"
  shows "succeeds (timer_tick c s) (\<lambda>t. kinv t \<and> runs t = runs s \<and> (\<forall>i. killed (procs (m t) i) = killed (procs (m s) i)) \<and>
    xticks (env t) = xticks (env s) + (if c = 0 then 1 else 0) \<and>
    (c = 0 \<longrightarrow> (\<forall>i < NPROC. state (procs (m s) i) = SLEEPING \<and> chan (procs (m s) i) = TicksChan \<longrightarrow> state (procs (m t) i) = RUNNABLE)))"
proof (cases "c = 0")
  case True
  let ?s = "s\<lparr>env := (env s)\<lparr>xticks := xticks (env s) + 1\<rparr>\<rparr>"
  obtain A where A: "placed (m s) A" using inv by (auto simp: kinv_def)
  have "kinv ?s" using inv by simp
  then obtain t where t: "wakeup c TicksChan ?s = Inr t" "kinv t" "runs t = runs ?s" "env t = env ?s" "wakeup1 TicksChan (m ?s) = Inr (m t)"
    using wakeup_kinv [of ?s c TicksChan] by auto
  have "only_wakes (m s) (m t)" "\<forall>i < NPROC. state (procs (m s) i) = SLEEPING \<longrightarrow> state (procs (m t) i) = (if chan (procs (m s) i) = TicksChan then RUNNABLE else SLEEPING)"
    using wakeup1_wakes [OF A, of TicksChan] t(5) by auto
  then show ?thesis using True t by (auto simp: timer_tick_def only_wakes_def)
qed (use inv in \<open>simp add: timer_tick_def\<close>)

lemma timer_trap:
  assumes inv: "kinv s" and run: "runs s c = Some p" and nk: "\<not> killed (procs (m s) p)" and f: "tf_trapno f = T_IRQ0"
  shows "succeeds (trap K T args c f s) (\<lambda>(r, t). r = Away \<and> kinv t \<and> runs t = (runs s)(c := None) \<and>
    xticks (env t) = xticks (env s) + (if c = 0 then 1 else 0))"
proof -
  obtain u where u: "timer_tick c s = Inr u" "kinv u" "runs u = runs s" "\<forall>i. killed (procs (m u) i) = killed (procs (m s) i)"
    "xticks (env u) = xticks (env s) + (if c = 0 then 1 else 0)" using timer_tick_ok [OF inv, of c] by (auto elim!: succeedsE)
  have r: "runs u c = Some p" using fun_cong [OF u(3), of c] run by simp
  obtain t where t: "yield c u = Inr t" "kinv t" "runs t = (runs u)(c := None)" using yield_kinv [OF u(2) r] by auto
  have "trap K T args c f s = Inr (Away, t)"
    using f u(1,4) r nk t(1) kinv_runs [OF u(2) r]
    by (simp add: trap_def trap_switch_def T_SYSCALL_def T_IRQ0_def T_MLFQLOCK_def T_MLFQUNLOCK_def exit_if_killed_def)
  then show ?thesis using t u(3,5) yield_env [OF t(1)] by simp
qed

text \<open>A process that called \<^verbatim>\<open>sleep(n)\<close> returns 0 exactly when the unsigned distance to its start has reached \<open>n\<close>; a negative \<open>n\<close> is a very large one.\<close>

lemma sleep_pass_returns:
  assumes "runs s c = Some p"
  shows "sleep_pass c n ticks0 s = Inr (Some 0, t) \<longleftrightarrow> n \<le> xticks (env s) - ticks0 \<and> t = s"
  using assms by (auto simp: sleep_pass_def cur_def bindE_Inr_iff)

lemma sleep_negative: "runs s c = Some p \<Longrightarrow> args 0 = Some (- 1) \<Longrightarrow> \<not> killed (procs (m s) p) \<Longrightarrow>
  sys_sleep args c s = bindE (sleep c TicksChan (\<lambda>e. e) s) (\<lambda>t. Inr (None, t))"
  by (simp add: sys_sleep_def sleep_pass_def cur_def word_gt_0)

section \<open>A machine\<close>

definition demo_tst :: "unit tst" where
  "demo_tst = \<lparr>m = demo, cpus = (\<lambda>c. \<lparr>ncli = 0, intena = False, iflag = True, cpu_proc = (if c = 0 then Some 0 else None)\<rparr>),
     plock = initlock, saved_intena = (\<lambda>_. False), env = \<lparr>xticks = 41, others = ()\<rparr>\<rparr>"

definition demo_tops :: "unit tops" where
  "demo_tops = \<lparr>op_ideintr = (\<lambda>e. Inr ([], e)), op_kbdintr = (\<lambda>e. Inr ([], e)), op_uartintr = (\<lambda>e. Inr ([], e)),
     op_file_call = (\<lambda>_ pr e. Inr (0, pr, [], e))\<rparr>"

definition timer_frame :: trapframe where
  "timer_frame = \<lparr>tf_eax = 0, tf_esp = 0, tf_eip = 0, tf_cs = 0x1b, tf_ds = 0x23, tf_es = 0x23, tf_ss = 0x23, tf_eflags = 0x200, tf_trapno = 32\<rparr>"

lemma demo_tst_kinv: "kinv demo_tst"
  using demo_placed by (auto simp: kinv_def demo_tst_def runs_ok_def initlock_def cpu_ok_def NPROC_def)


end
