(* ===== verification/Ide.thy ===== *)
theory Ide
  imports Bio
begin

text \<open>
  The disk driver (\<^verbatim>\<open>ide.c\<close>): requests wait in a list through \<^verbatim>\<open>qnext\<close>, \<^verbatim>\<open>idestart\<close> programs the registers of the controller for the first of them,
  and the interrupt handler finishes it and starts the next. The buffers and the blocks on the disk are those of \<open>Bio\<close>; the registers are bytes.
  \<open>disk_acts\<close> is the controller: it decodes its registers and writes the block, or has the block ready in its data port.

  The theorem of this theory justifies the single step \<open>iderw\<close> of \<open>Bio\<close>: with any interleaving of requests and interrupts, the requests are served one by one
  in the order in which they came, each as that step serves it.
\<close>

unbundle bit_operations_syntax

section \<open>Definitions\<close>

record ide_regs =
  r_count :: u8
  r_lba0 :: u8
  r_lba1 :: u8
  r_lba2 :: u8
  r_drive :: u8
  r_cmd :: u8

record idest =
  dr :: bst
  qnext :: "nat \<Rightarrow> ptr"
  idequeue :: ptr
  regs :: ide_regs
  port :: block

definition IDE_CMD_READ :: u8 where "IDE_CMD_READ = 0x20"

definition IDE_CMD_WRITE :: u8 where "IDE_CMD_WRITE = 0x30"

definition IDE_CMD_RDMUL :: u8 where "IDE_CMD_RDMUL = 0xc4"

definition IDE_CMD_WRMUL :: u8 where "IDE_CMD_WRMUL = 0xc5"

definition sector_per_block :: nat where "sector_per_block = BSIZE div 512"

definition idestart :: "ptr \<Rightarrow> idest \<Rightarrow> kerr + idest" where
  "idestart bp s =
    (case bp of
       None \<Rightarrow> Inl (Panic ''idestart'')
     | Some i \<Rightarrow>
         let b = bufs (dr s) i in
         if b_blockno b \<ge> FSSIZE then Inl (Panic ''incorrect blockno'')
         else if sector_per_block > 7 then Inl (Panic ''idestart'')
         else
           let sector = b_blockno b * sector_per_block;
               read_cmd = (if sector_per_block = 1 then IDE_CMD_READ else IDE_CMD_RDMUL);
               write_cmd = (if sector_per_block = 1 then IDE_CMD_WRITE else IDE_CMD_WRMUL);
               r = \<lparr>r_count = of_nat sector_per_block, r_lba0 = of_nat sector AND 0xff, r_lba1 = of_nat (sector div 2 ^ 8) AND 0xff,
                    r_lba2 = of_nat (sector div 2 ^ 16) AND 0xff,
                    r_drive = 0xe0 OR push_bit 4 (of_nat (b_dev b) AND 1) OR (of_nat (sector div 2 ^ 24) AND 0x0f),
                    r_cmd = (if b_dirty b then write_cmd else read_cmd)\<rparr>
           in Inr (if b_dirty b then s\<lparr>regs := r, port := b_data b\<rparr> else s\<lparr>regs := r\<rparr>))"

text \<open>The end of the list of requests: the loop over \<^verbatim>\<open>pp\<close> from the first request on.\<close>

partial_function (option) queue_end :: "idest \<Rightarrow> nat \<Rightarrow> nat option" where
  "queue_end s i = (case qnext s i of None \<Rightarrow> Some i | Some j \<Rightarrow> queue_end s j)"

definition append_request :: "nat \<Rightarrow> idest \<Rightarrow> kerr + idest" where
  "append_request i s =
    (let s1 = s\<lparr>qnext := (qnext s)(i := None)\<rparr> in
     case idequeue s1 of
       None \<Rightarrow> Inr (s1\<lparr>idequeue := Some i\<rparr>)
     | Some q \<Rightarrow>
         (case queue_end s1 q of
            None \<Rightarrow> Inl Diverges
          | Some l \<Rightarrow> Inr (s1\<lparr>qnext := (qnext s1)(l := Some i)\<rparr>)))"

text \<open>\<^verbatim>\<open>iderw\<close> up to the point where it sleeps until the request is served.\<close>

definition iderw_begin :: "int \<Rightarrow> nat \<Rightarrow> idest \<Rightarrow> kerr + idest" where
  "iderw_begin me i s =
    (let b = bufs (dr s) i in
     if \<not> holdingsleep me (b_lock b) then Inl (Panic ''iderw: buf not locked'')
     else if b_valid b \<and> \<not> b_dirty b then Inl (Panic ''iderw: nothing to do'')
     else if b_dev b \<noteq> 0 \<and> \<not> havedisk1 (dr s) then Inl (Panic ''iderw: ide disk 1 not present'')
     else bindE (append_request i s) (\<lambda>s1. if idequeue s1 = Some i then idestart (Some i) s1 else Inr s1))"

text \<open>\<open>failed\<close> is the error bit of the status port. The second component of the result are the buffers whose sleepers are woken.\<close>

definition ideintr :: "bool \<Rightarrow> idest \<Rightarrow> kerr + idest \<times> nat list" where
  "ideintr failed s =
    (case idequeue s of
       None \<Rightarrow> Inr (s, [])
     | Some i \<Rightarrow>
         let s1 = s\<lparr>idequeue := qnext s i\<rparr>;
             d = (if \<not> b_dirty (bufs (dr s1) i) \<and> \<not> failed then upd_b i (\<lambda>b. b\<lparr>b_data := port s1\<rparr>) (dr s1) else dr s1);
             s2 = s1\<lparr>dr := upd_b i (\<lambda>b. b\<lparr>b_valid := True, b_dirty := False\<rparr>) d\<rparr>
         in if idequeue s2 \<noteq> None then bindE (idestart (idequeue s2) s2) (\<lambda>s3. Inr (s3, [i])) else Inr (s2, [i]))"

section \<open>The controller\<close>

definition lba :: "ide_regs \<Rightarrow> nat" where
  "lba r = unat (r_lba0 r) + 2 ^ 8 * unat (r_lba1 r) + 2 ^ 16 * unat (r_lba2 r) + 2 ^ 24 * unat (r_drive r AND 0x0f)"

definition drive :: "ide_regs \<Rightarrow> nat" where
  "drive r = (if bit (r_drive r) 4 then 1 else 0)"

definition disk_acts :: "idest \<Rightarrow> idest" where
  "disk_acts s =
    (if r_cmd (regs s) = IDE_CMD_WRITE
     then s\<lparr>dr := (dr s)\<lparr>disk := disk_put (drive (regs s)) (lba (regs s)) (port s) (disk (dr s)),
                          hist := hist (dr s) @ [disk_put (drive (regs s)) (lba (regs s)) (port s) (disk (dr s))]\<rparr>\<rparr>
     else s\<lparr>port := disk (dr s) (drive (regs s)) (lba (regs s))\<rparr>)"

section \<open>Registers\<close>

definition programmed :: "nat \<Rightarrow> idest \<Rightarrow> bool" where
  "programmed i s \<longleftrightarrow> (let b = bufs (dr s) i in lba (regs s) = b_blockno b \<and> drive (regs s) = b_dev b \<and>
     (if b_dirty b then r_cmd (regs s) = IDE_CMD_WRITE \<and> port s = b_data b else r_cmd (regs s) = IDE_CMD_READ))"

text \<open>A request that the driver accepts.\<close>

definition request_ok :: "bst \<Rightarrow> nat \<Rightarrow> bool" where
  "request_ok d i \<longleftrightarrow> (let b = bufs d i in sl_locked (b_lock b) \<and> (b_valid b \<longrightarrow> b_dirty b) \<and> b_dev b < 2 \<and> (b_dev b \<noteq> 0 \<longrightarrow> havedisk1 d) \<and> b_blockno b < FSSIZE)"

lemma byte_and_ff: "(x :: u8) AND 0xff = x"
proof -
  have "take_bit 8 x = x" by (rule take_bit_word_eq_self) simp
  then show ?thesis using take_bit_eq_mask [of 8 x] by (simp add: mask_eq_exp_minus_1)
qed

lemma drive_byte:
  assumes "dv < 2"
  shows "(bit ((0xe0 :: u8) OR push_bit 4 (of_nat dv AND 1) OR 0) 4 \<longleftrightarrow> dv = 1) \<and> ((0xe0 :: u8) OR push_bit 4 (of_nat dv AND 1) OR 0) AND 0x0f = 0"
proof -
  have v: "(bit ((0xe0 :: u8) OR push_bit 4 (of_nat 0 AND 1) OR 0) 4 \<longleftrightarrow> (0 :: nat) = 1) \<and> ((0xe0 :: u8) OR push_bit 4 (of_nat 0 AND 1) OR 0) AND 0x0f = 0"
    "(bit ((0xe0 :: u8) OR push_bit 4 (of_nat 1 AND 1) OR 0) 4 \<longleftrightarrow> (1 :: nat) = 1) \<and> ((0xe0 :: u8) OR push_bit 4 (of_nat 1 AND 1) OR 0) AND 0x0f = 0" by code_simp+
  have "dv = 0 \<or> dv = 1" using assms by auto
  then show ?thesis
  proof
    assume d: "dv = 0"
    show ?thesis unfolding d by (rule v(1))
  next
    assume d: "dv = 1"
    show ?thesis unfolding d by (rule v(2))
  qed
qed

lemma idestart_ok:
  assumes "request_ok (dr s) i"
  shows "\<exists>t. idestart (Some i) s = Inr t \<and> programmed i t \<and> dr t = dr s \<and> qnext t = qnext s \<and> idequeue t = idequeue s"
proof -
  let ?b = "bufs (dr s) i"
  have b: "b_blockno ?b < 1000" "b_dev ?b < 2" using assms by (simp_all add: request_ok_def FSSIZE_def Let_def)
  then have lo: "b_blockno ?b div 2 ^ 16 = 0" "b_blockno ?b div 2 ^ 24 = 0" by simp_all
  have "unat (of_nat (b_blockno ?b) :: u8) = b_blockno ?b mod 256" "unat (of_nat (b_blockno ?b div 256) :: u8) = b_blockno ?b div 256"
    using b(1) by (simp_all add: unat_of_nat take_bit_eq_mod)
  then have "unat (of_nat (b_blockno ?b) :: u8) + 256 * unat (of_nat (b_blockno ?b div 256) :: u8) = b_blockno ?b" by simp
  then show ?thesis using b lo drive_byte [OF b(2)]
    by (auto simp: idestart_def FSSIZE_def programmed_def lba_def drive_def sector_per_block_def BSIZE_def byte_and_ff Let_def)
qed

lemma request_ok_cong: "bufs d j = bufs e j \<Longrightarrow> havedisk1 d = havedisk1 e \<Longrightarrow> request_ok d j = request_ok e j"
  by (simp add: request_ok_def)

section \<open>The list of requests\<close>

fun qlist :: "(nat \<Rightarrow> ptr) \<Rightarrow> ptr \<Rightarrow> nat list \<Rightarrow> bool" where
  "qlist nx p [] \<longleftrightarrow> p = None"
| "qlist nx p (x # xs) \<longleftrightarrow> p = Some x \<and> qlist nx (nx x) xs"

lemma qlist_unique: "qlist nx p xs \<Longrightarrow> qlist nx p ys \<Longrightarrow> xs = ys"
  by (induction xs arbitrary: p ys) (case_tac ys; auto)+

lemma qlist_cong: "\<forall>x \<in> set xs. nx x = ny x \<Longrightarrow> qlist nx p xs = qlist ny p xs"
  by (induction xs arbitrary: p) auto

lemma qlist_append: "qlist nx p (xs @ [x]) \<Longrightarrow> distinct (xs @ [x]) \<Longrightarrow> y \<notin> set (xs @ [x]) \<Longrightarrow> qlist (nx(y := None, x := Some y)) p (xs @ [x, y])"
  by (induction xs arbitrary: p) (auto simp: qlist_cong)

lemma queue_end_last: "qlist (qnext s) (Some x) (x # xs) \<Longrightarrow> queue_end s x = Some (last (x # xs))"
proof (induction xs arbitrary: x)
  case Nil
  then show ?case by (subst queue_end.simps) simp
next
  case (Cons y xs)
  then show ?case by (subst queue_end.simps) auto
qed

definition queue_ok :: "idest \<Rightarrow> nat list \<Rightarrow> bool" where
  "queue_ok s xs \<longleftrightarrow> qlist (qnext s) (idequeue s) xs \<and> distinct xs \<and> (\<forall>i \<in> set xs. request_ok (dr s) i) \<and> (xs \<noteq> [] \<longrightarrow> programmed (hd xs) s)"

lemma append_request_ok:
  assumes "qlist (qnext s) (idequeue s) xs" and "distinct xs" and "i \<notin> set xs"
  shows "\<exists>t. append_request i s = Inr t \<and> qlist (qnext t) (idequeue t) (xs @ [i]) \<and> dr t = dr s \<and> regs t = regs s \<and> port t = port s"
proof (cases xs rule: rev_cases)
  case Nil
  then show ?thesis using assms by (simp add: append_request_def)
next
  case (snoc ys y)
  have "xs \<noteq> []" using snoc by simp
  then obtain q zs where q: "xs = q # zs" by (cases xs) auto
  then have "idequeue s = Some q" using assms(1) by simp
  note q = q this
  let ?s1 = "s\<lparr>qnext := (qnext s)(i := None)\<rparr>"
  have "qlist (qnext ?s1) (Some q) (q # zs)" using assms(1,3) q by (subst qlist_cong [of _ _ "qnext s"]) auto
  then have "queue_end ?s1 q = Some y" using queue_end_last [of ?s1 q zs] q(1) snoc by (metis last_snoc)
  then show ?thesis using q(2) qlist_append [of "qnext s" "idequeue s" ys y i] assms snoc by (simp add: append_request_def)
qed

lemma iderw_begin_ok:
  assumes ok: "queue_ok s xs" and r: "request_ok (dr s) i" and i: "i \<notin> set xs" and me: "sl_pid (b_lock (bufs (dr s) i)) = me"
  shows "\<exists>t. iderw_begin me i s = Inr t \<and> dr t = dr s \<and> queue_ok t (xs @ [i])"
proof -
  have q: "qlist (qnext s) (idequeue s) xs" "distinct xs" "\<forall>i \<in> set xs. request_ok (dr s) i" "xs \<noteq> [] \<longrightarrow> programmed (hd xs) s" using ok by (auto simp: queue_ok_def)
  obtain u where u: "append_request i s = Inr u" "qlist (qnext u) (idequeue u) (xs @ [i])" "dr u = dr s" "regs u = regs s" "port u = port s"
    using append_request_ok [OF q(1,2) i] by blast
  have b: "iderw_begin me i s = (if idequeue u = Some i then idestart (Some i) u else Inr u)"
    using r me u(1) by (auto simp: iderw_begin_def request_ok_def holdingsleep_def Let_def)
  show ?thesis
  proof (cases xs)
    case Nil
    then have "idequeue u = Some i" using u(2) by simp
    moreover obtain t where "idestart (Some i) u = Inr t" "programmed i t" "dr t = dr u" "qnext t = qnext u" "idequeue t = idequeue u"
      using idestart_ok [of u i] r u(3) by auto
    ultimately show ?thesis using b Nil r u(2,3) by (auto simp: queue_ok_def)
  next
    case (Cons x ys)
    then have "idequeue u = Some x" "x \<noteq> i" using u(2) i by auto
    moreover have "programmed x u" using q(4) Cons u(3,4,5) by (simp add: programmed_def Let_def)
    ultimately show ?thesis using b Cons r q(2,3) i u(2,3) by (auto simp: queue_ok_def)
  qed
qed

section \<open>Serving a request\<close>

definition serve :: "nat \<Rightarrow> bst \<Rightarrow> kerr + bst" where
  "serve i d = iderw (sl_pid (b_lock (bufs d i))) i d"

lemma interrupt_serves:
  assumes ok: "queue_ok s (i # xs)"
  shows "\<exists>t. ideintr False (disk_acts s) = Inr (t, [i]) \<and> serve i (dr s) = Inr (dr t) \<and> queue_ok t xs"
proof -
  let ?b = "bufs (dr s) i" and ?nx = "qnext s i"
  have q: "idequeue s = Some i" "qlist (qnext s) ?nx xs" "distinct (i # xs)" and r: "request_ok (dr s) i" "\<forall>j \<in> set xs. request_ok (dr s) j" and p: "programmed i s"
    using ok by (auto simp: queue_ok_def)
  define d where "d = (if b_dirty ?b
      then upd_b i (\<lambda>x. x\<lparr>b_valid := True, b_dirty := False\<rparr>) ((dr s)\<lparr>disk := disk_put (b_dev ?b) (b_blockno ?b) (b_data ?b) (disk (dr s)),
             hist := hist (dr s) @ [disk_put (b_dev ?b) (b_blockno ?b) (b_data ?b) (disk (dr s))]\<rparr>)
      else upd_b i (\<lambda>x. x\<lparr>b_data := disk (dr s) (b_dev ?b) (b_blockno ?b), b_valid := True, b_dirty := False\<rparr>) (dr s))"
  have sv: "serve i (dr s) = Inr d" using r(1) by (auto simp: serve_def iderw_def request_ok_def holdingsleep_def d_def Let_def)
  have other: "bufs d j = bufs (dr s) j" if "j \<noteq> i" for j using that by (simp add: d_def upd_b_def)
  have hv: "havedisk1 d = havedisk1 (dr s)" by (simp add: d_def upd_b_def)
  have rest: "\<forall>j \<in> set xs. request_ok d j" using r(2) q(3) request_ok_cong [OF other hv] by fastforce
  define u where "u = (disk_acts s)\<lparr>idequeue := ?nx, dr := d\<rparr>"
  have da: "disk_acts s = (if b_dirty ?b
      then s\<lparr>dr := (dr s)\<lparr>disk := disk_put (b_dev ?b) (b_blockno ?b) (b_data ?b) (disk (dr s)),
             hist := hist (dr s) @ [disk_put (b_dev ?b) (b_blockno ?b) (b_data ?b) (disk (dr s))]\<rparr>\<rparr>
      else s\<lparr>port := disk (dr s) (b_dev ?b) (b_blockno ?b)\<rparr>)"
    using p by (auto simp: disk_acts_def programmed_def Let_def IDE_CMD_READ_def IDE_CMD_WRITE_def)
  have step: "ideintr False (disk_acts s) = (if ?nx \<noteq> None then bindE (idestart ?nx u) (\<lambda>t. Inr (t, [i])) else Inr (u, [i]))"
    using q(1) by (cases "b_dirty ?b") (simp_all add: ideintr_def da u_def d_def upd_b_def Let_def)
  have u: "dr u = d" "qnext u = qnext s" "idequeue u = ?nx" by (simp_all add: u_def da)
  show ?thesis
  proof (cases xs)
    case Nil
    then show ?thesis using step sv u q(2) by (auto simp: queue_ok_def)
  next
    case (Cons x ys)
    then have nx: "?nx = Some x" using q(2) by simp
    obtain t where t: "idestart (Some x) u = Inr t" "programmed x t" "dr t = dr u" "qnext t = qnext u" "idequeue t = idequeue u"
      using idestart_ok [of u x] rest Cons u(1) by auto
    have "queue_ok t xs" using t u q(2,3) rest Cons by (simp add: queue_ok_def)
    then show ?thesis using step nx t sv u(1) by auto
  qed
qed


section \<open>Any interleaving\<close>

text \<open>What happens to the buffers and the disk: a request is served, or the rest of the kernel changes buffers that no request is about.\<close>

datatype act = Served nat | Changed bst

fun perform :: "act \<Rightarrow> bst \<Rightarrow> kerr + bst" where
  "perform (Served i) d = serve i d"
| "perform (Changed e) d = Inr e"

definition queued :: "idest \<Rightarrow> nat \<Rightarrow> bool" where
  "queued s i \<longleftrightarrow> (\<exists>xs. qlist (qnext s) (idequeue s) xs \<and> i \<in> set xs)"

text \<open>\<open>ide_run s bs as t\<close>: the events lead from \<open>s\<close> to \<open>t\<close>; \<open>bs\<close> are the requests that came, \<open>as\<close> what happened. A process asks with a buffer that it has locked;
  the buffers of waiting requests stay locked, so nobody else asks with them or changes them.\<close>

inductive ide_run :: "idest \<Rightarrow> nat list \<Rightarrow> act list \<Rightarrow> idest \<Rightarrow> bool" for s where
  ide_start: "ide_run s [] [] s"
| ide_begin: "ide_run s bs as t \<Longrightarrow> request_ok (dr t) i \<Longrightarrow> \<not> queued t i \<Longrightarrow> iderw_begin (sl_pid (b_lock (bufs (dr t) i))) i t = Inr u \<Longrightarrow> ide_run s (bs @ [i]) as u"
| ide_intr: "ide_run s bs as t \<Longrightarrow> idequeue t \<noteq> None \<Longrightarrow> ideintr False (disk_acts t) = Inr (u, ws) \<Longrightarrow> ide_run s bs (as @ map Served ws) u"
| ide_spurious: "ide_run s bs as t \<Longrightarrow> idequeue t = None \<Longrightarrow> ideintr e t = Inr (u, ws) \<Longrightarrow> ide_run s bs as u"
| ide_other: "ide_run s bs as t \<Longrightarrow> (\<forall>i. queued t i \<longrightarrow> bufs d i = bufs (dr t) i) \<Longrightarrow> havedisk1 d = havedisk1 (dr t) \<Longrightarrow>
    ide_run s bs (as @ [Changed d]) (t\<lparr>dr := d\<rparr>)"

fun served :: "act list \<Rightarrow> nat list" where
  "served [] = []"
| "served (Served i # as) = i # served as"
| "served (Changed d # as) = served as"

lemma served_append [simp]: "served (xs @ ys) = served xs @ served ys"
  by (induction xs rule: served.induct) auto

lemma queued_eq: "queue_ok s xs \<Longrightarrow> queued s i \<longleftrightarrow> i \<in> set xs"
  unfolding queued_def queue_ok_def by (metis qlist_unique)

lemma ide_run_fifo:
  assumes "ide_run s bs as t" and "queue_ok s xs"
  shows "\<exists>ys. queue_ok t ys \<and> xs @ bs = served as @ ys \<and> foldE perform as (dr s) = Inr (dr t)"
  using assms
proof (induction rule: ide_run.induct)
  case ide_start
  then show ?case by auto
next
  case (ide_begin bs as t i u)
  then obtain ys where ys: "queue_ok t ys" "xs @ bs = served as @ ys" "foldE perform as (dr s) = Inr (dr t)" by blast
  have "i \<notin> set ys" using ide_begin.hyps(3) queued_eq [OF ys(1)] by simp
  from iderw_begin_ok [OF ys(1) ide_begin.hyps(2) this refl] ide_begin.hyps(4) have "dr u = dr t" "queue_ok u (ys @ [i])" by auto
  then show ?case using ys by (intro exI [of _ "ys @ [i]"]) simp
next
  case (ide_intr bs as t u ws)
  then obtain ys where ys: "queue_ok t ys" "xs @ bs = served as @ ys" "foldE perform as (dr s) = Inr (dr t)" by blast
  have "ys \<noteq> []" using ide_intr.hyps(2) ys(1) by (auto simp: queue_ok_def)
  then obtain i zs where z: "ys = i # zs" by (cases ys) auto
  from interrupt_serves [OF ys(1) [unfolded z]] ide_intr.hyps(3) have "ws = [i]" "serve i (dr t) = Inr (dr u)" "queue_ok u zs" by auto
  then show ?case using ys z by (intro exI [of _ zs]) (simp add: foldE_append)
next
  case (ide_spurious bs as t e u ws)
  then show ?case by (auto simp: ideintr_def)
next
  case (ide_other bs as t d)
  then obtain ys where ys: "queue_ok t ys" "xs @ bs = served as @ ys" "foldE perform as (dr s) = Inr (dr t)" by blast
  have same: "bufs d i = bufs (dr t) i" if "i \<in> set ys" for i using ide_other.hyps(2) queued_eq [OF ys(1)] that by simp
  have "queue_ok (t\<lparr>dr := d\<rparr>) ys" using ys(1) same request_ok_cong [OF same ide_other.hyps(3)] by (cases ys) (auto simp: queue_ok_def programmed_def Let_def)
  then show ?case using ys by (intro exI [of _ ys]) (simp add: foldE_append)
qed

lemma ide_run_interrupts:
  "queue_ok s xs \<Longrightarrow> k \<le> length xs \<Longrightarrow> \<exists>t. ide_run s [] (map Served (take k xs)) t \<and> queue_ok t (drop k xs)"
proof (induction k)
  case 0
  then show ?case using ide_start by auto
next
  case (Suc k)
  then obtain t where t: "ide_run s [] (map Served (take k xs)) t" "queue_ok t (drop k xs)" by auto
  have "drop k xs = xs ! k # drop (Suc k) xs" using Suc.prems(2) by (simp add: Cons_nth_drop_Suc)
  with t(2) have q: "queue_ok t (xs ! k # drop (Suc k) xs)" by simp
  from interrupt_serves [OF q] obtain u where u: "ideintr False (disk_acts t) = Inr (u, [xs ! k])" "queue_ok u (drop (Suc k) xs)" by blast
  have "idequeue t \<noteq> None" using q by (simp add: queue_ok_def)
  from ide_intr [OF t(1) this u(1)] show ?case using u(2) Suc.prems(2) by (auto simp: take_Suc_conv_app_nth)
qed

text \<open>C17. The disk driver serves requests one at a time, in order. Start with any list \<open>xs\<close> of waiting requests and let requests, interrupts that follow the work of the
  controller, stray interrupts, and changes of buffers that are not waiting come in any order. Then the requests served so far, followed by those still waiting, are
  exactly the requests that were waiting and that came, in this order; the disk and the buffers are what the one-step \<open>iderw\<close> of \<open>Bio\<close> makes of them, request by
  request; whoever asks with a locked buffer is accepted, the controller is programmed for the first waiting request, and a request at position
  \<open>k\<close> has been served after \<open>k + 1\<close> interrupts.\<close>

theorem ide_serves_in_order:
  assumes "queue_ok s xs" and "ide_run s bs as t"
  shows "\<exists>ys. xs @ bs = served as @ ys \<and> queue_ok t ys \<and> foldE perform as (dr s) = Inr (dr t) \<and>
    (\<forall>i. request_ok (dr t) i \<and> i \<notin> set ys \<longrightarrow> (\<exists>u. iderw_begin (sl_pid (b_lock (bufs (dr t) i))) i t = Inr u)) \<and>
    (\<forall>k < length ys. \<exists>u. ide_run t [] (map Served (take (Suc k) ys)) u \<and> \<not> queued u (ys ! k))"
proof -
  obtain ys where ys: "queue_ok t ys" "xs @ bs = served as @ ys" "foldE perform as (dr s) = Inr (dr t)" using ide_run_fifo [OF assms(2,1)] by blast
  have "\<exists>u. ide_run t [] (map Served (take (Suc k) ys)) u \<and> \<not> queued u (ys ! k)" if k: "k < length ys" for k
  proof -
    obtain u where u: "ide_run t [] (map Served (take (Suc k) ys)) u" "queue_ok u (drop (Suc k) ys)" using ide_run_interrupts [OF ys(1), of "Suc k"] k by auto
    have "distinct ys" using ys(1) by (simp add: queue_ok_def)
    then have "ys ! k \<notin> set (drop (Suc k) ys)" using k by (metis Cons_nth_drop_Suc distinct.simps(2) distinct_drop)
    then show ?thesis using u queued_eq by blast
  qed
  then show ?thesis using ys iderw_begin_ok [OF ys(1)] by (intro exI [of _ ys]) blast
qed


text \<open>Two requests for block 5 of drive 0: a write of buffer 0 and a read into buffer 1.\<close>

definition demo_ide :: idest where
  "demo_ide = \<lparr>dr = \<lparr>bufs = (\<lambda>i. \<lparr>b_valid = False, b_dirty = (i = 0), b_dev = 0, b_blockno = 5, b_lock = \<lparr>sl_locked = True, sl_pid = 1\<rparr>, b_refcnt = 1, b_data = [of_nat i + 7]\<rparr>),
      bnext = (\<lambda>x. x), bprev = (\<lambda>x. x), disk = (\<lambda>_ _. []), hist = [], havedisk1 = False\<rparr>,
    qnext = (\<lambda>_. None), idequeue = None, regs = \<lparr>r_count = 0, r_lba0 = 0, r_lba1 = 0, r_lba2 = 0, r_drive = 0, r_cmd = 0\<rparr>, port = []\<rparr>"

lemma demo_ide_ok: "queue_ok demo_ide []" "request_ok (dr demo_ide) i"
  by (simp_all add: queue_ok_def demo_ide_def request_ok_def FSSIZE_def)

theorem ide_serves_in_order_witness:
  "\<exists>t u. ide_run demo_ide [0, 1] [] t \<and> ide_run t [] [Served 0, Served 1] u \<and> b_data (bufs (dr u) 1) = [7] \<and> disk (dr u) 0 5 = [7]"
proof -
  obtain s1 where s1: "iderw_begin (sl_pid (b_lock (bufs (dr demo_ide) 0))) 0 demo_ide = Inr s1" "dr s1 = dr demo_ide" "queue_ok s1 ([] @ [0])"
    using iderw_begin_ok [OF demo_ide_ok, of 0] by auto
  have r1: "ide_run demo_ide ([] @ [0]) [] s1" using s1(1) demo_ide_ok queued_eq [OF demo_ide_ok(1)] by (intro ide_begin [OF ide_start]) auto
  obtain t where t: "iderw_begin (sl_pid (b_lock (bufs (dr s1) 1))) 1 s1 = Inr t" using iderw_begin_ok [OF s1(3), of 1] s1(2) demo_ide_ok by auto
  have r2: "ide_run demo_ide (([] @ [0]) @ [1]) [] t" using t s1(2) demo_ide_ok queued_eq [OF s1(3)] by (intro ide_begin [OF r1]) auto
  obtain ys where ys: "[0, 1] = ys" "queue_ok t ys" "dr demo_ide = dr t" "\<forall>k < length ys. \<exists>u. ide_run t [] (map Served (take (Suc k) ys)) u \<and> \<not> queued u (ys ! k)"
    using ide_serves_in_order [OF demo_ide_ok(1) r2] by auto
  have q: "queue_ok t [0, 1]" "dr t = dr demo_ide" using ys(1,2,3) by simp_all
  obtain u where "ide_run t [] (map Served (take (Suc 1) ys)) u" using ys(1) ys(4) [rule_format, of 1] by auto
  then have u: "ide_run t [] [Served 0, Served 1] u" unfolding ys(1) [symmetric] by simp
  have "Inr (dr u) = foldE perform [Served 0, Served 1] (dr demo_ide)" using ide_serves_in_order [OF q(1) u] q(2) by auto
  then have "b_data (bufs (dr u) 1) = [7] \<and> disk (dr u) 0 5 = [7]"
    by (simp add: demo_ide_def serve_def iderw_def holdingsleep_def FSSIZE_def upd_b_def disk_put_def Let_def)
  then show ?thesis using r2 u by auto
qed

text \<open>The handler ignores a failed read: the buffer becomes valid with the bytes that it happened to hold.\<close>

lemma failed_read_is_valid:
  assumes "idequeue s = Some i" and "qnext s i = None" and "\<not> b_dirty (bufs (dr s) i)"
  shows "succeeds (ideintr True s) (\<lambda>(t, ws). b_valid (bufs (dr t) i) \<and> b_data (bufs (dr t) i) = b_data (bufs (dr s) i))"
  using assms by (simp add: ideintr_def upd_b_def Let_def)

end
