(* ===== verification/VmSpace.thy ===== *)
theory VmSpace
  imports VmCopy
begin

text \<open>
  Whole address spaces and the pages they own: the page directory, the page tables and the pages mapped below \<open>KERNBASE\<close>. The lemmas follow the
  pages between the free list and an address space; \<open>deallocuvm\<close> and \<open>freevm\<close> give them back, each once.
\<close>

section \<open>Ownership\<close>

definition upages :: "u32 \<Rightarrow> kmem \<Rightarrow> u32 set" where
  "upages d s = {upage e |va e. va < KERNBASE \<and> mapped d va s = Some e}"

definition owns :: "u32 \<Rightarrow> kmem \<Rightarrow> u32 set" where
  "owns d s = table_pages d s \<union> upages d s"

text \<open>The tables are in order, and every page mapped below \<open>KERNBASE\<close> is a page of the allocator that is in use, is not a table and is mapped once.\<close>

definition owned_ok :: "u32 \<Rightarrow> kmem \<Rightarrow> u32 list \<Rightarrow> bool" where
  "owned_ok d s xs \<longleftrightarrow> vm_ok d s xs \<and> KERNBASE < kend s \<and>
     (\<forall>va e. va < KERNBASE \<longrightarrow> mapped d va s = Some e \<longrightarrow> good_page (upage e) s \<and> upage e \<notin> set xs \<and> upage e \<notin> table_pages d s) \<and>
     (\<forall>va vb e f. va < KERNBASE \<longrightarrow> vb < KERNBASE \<longrightarrow> mapped d va s = Some e \<longrightarrow> mapped d vb s = Some f \<longrightarrow> upage e = upage f \<longrightarrow>
        PGROUNDDOWN va = PGROUNDDOWN vb)"

lemma owned_okD:
  assumes "owned_ok d s xs"
  shows "vm_ok d s xs" and "KERNBASE < kend s"
    and "va < KERNBASE \<Longrightarrow> mapped d va s = Some e \<Longrightarrow> good_page (upage e) s \<and> upage e \<notin> set xs \<and> upage e \<notin> table_pages d s"
    and "va < KERNBASE \<Longrightarrow> vb < KERNBASE \<Longrightarrow> mapped d va s = Some e \<Longrightarrow> mapped d vb s = Some f \<Longrightarrow> upage e = upage f \<Longrightarrow> PGROUNDDOWN va = PGROUNDDOWN vb"
  using assms unfolding owned_ok_def by blast+

lemma upagesI: "va < KERNBASE \<Longrightarrow> mapped d va s = Some e \<Longrightarrow> upage e \<in> upages d s"
  by (auto simp: upages_def)

lemma owns_good: "owned_ok d s xs \<Longrightarrow> w \<in> owns d s \<Longrightarrow> good_page w s \<and> w \<notin> set xs"
  by (auto simp: owns_def upages_def owned_ok_def vm_ok_def)

lemma owns_dir: "d \<in> owns d s"
  by (simp add: owns_def table_pages_def)

lemma free_good: "owned_ok d s xs \<Longrightarrow> w \<in> set xs \<Longrightarrow> good_page w s"
  by (auto simp: owned_ok_def vm_ok_def free_list_def)

text \<open>Pages move between the free list and the address space, and none is lost. They are \<open>taken\<close> from the list when the space grows and \<open>returned\<close> to it
  when it shrinks; all other pages that are not tables of the space keep their contents.\<close>

definition moved :: "u32 \<Rightarrow> kmem \<Rightarrow> u32 list \<Rightarrow> kmem \<Rightarrow> u32 list \<Rightarrow> bool" where
  "moved d s xs t ys \<longleftrightarrow> owned_ok d t ys \<and> kend t = kend s \<and> kdata t = kdata s \<and> set ys \<union> owns d t = set xs \<union> owns d s"

definition taken :: "u32 \<Rightarrow> kmem \<Rightarrow> u32 list \<Rightarrow> kmem \<Rightarrow> u32 list \<Rightarrow> bool" where
  "taken d s xs t ys \<longleftrightarrow> moved d s xs t ys \<and> set ys \<subseteq> set xs \<and> table_pages d t \<subseteq> table_pages d s \<union> set xs \<and>
     (\<forall>w. good_page w s \<longrightarrow> w \<notin> set xs \<union> table_pages d s \<longrightarrow> page_at w t = page_at w s)"

definition returned :: "u32 \<Rightarrow> kmem \<Rightarrow> u32 list \<Rightarrow> kmem \<Rightarrow> u32 list \<Rightarrow> bool" where
  "returned d s xs t ys \<longleftrightarrow> moved d s xs t ys \<and> set xs \<subseteq> set ys \<and> table_pages d t = table_pages d s \<and>
     (\<forall>w. good_page w s \<longrightarrow> w \<notin> set ys \<union> table_pages d s \<longrightarrow> page_at w t = page_at w s)"

lemma movedD:
  assumes "moved d s xs t ys"
  shows "owned_ok d t ys" and "kend t = kend s" and "kdata t = kdata s" and "set ys \<union> owns d t = set xs \<union> owns d s" and "good_page w t = good_page w s"
  using assms good_page_cong [of t s w] by (simp_all add: moved_def)

lemma taken_refl: "owned_ok d s xs \<Longrightarrow> taken d s xs s xs" and returned_refl: "owned_ok d s xs \<Longrightarrow> returned d s xs s xs"
  by (auto simp: taken_def returned_def moved_def)

lemma moved_trans: "moved d s xs t ys \<Longrightarrow> moved d t ys u zs \<Longrightarrow> moved d s xs u zs"
  by (simp add: moved_def)

lemma taken_trans:
  assumes "taken d s xs t ys" and "taken d t ys u zs"
  shows "taken d s xs u zs"
proof -
  have m: "moved d s xs u zs" and g: "\<And>w. good_page w t = good_page w s"
    using assms moved_trans [of d s xs t ys u zs] movedD(5) [of d s xs t ys] by (auto simp: taken_def)
  have "page_at w u = page_at w s" if "good_page w s" "w \<notin> set xs \<union> table_pages d s" for w
  proof -
    have "w \<notin> set ys \<union> table_pages d t" using assms(1) that(2) by (auto simp: taken_def)
    then show ?thesis using assms that by (simp add: taken_def g)
  qed
  then show ?thesis using assms m by (auto simp: taken_def)
qed

lemma returned_trans:
  assumes "returned d s xs t ys" and "returned d t ys u zs"
  shows "returned d s xs u zs"
proof -
  have m: "moved d s xs u zs" and g: "\<And>w. good_page w t = good_page w s"
    using assms moved_trans [of d s xs t ys u zs] movedD(5) [of d s xs t ys] by (auto simp: returned_def)
  have "page_at w u = page_at w s" if "good_page w s" "w \<notin> set zs \<union> table_pages d s" for w
  proof -
    have "w \<notin> set ys \<union> table_pages d s" using assms(2) that(2) by (auto simp: returned_def)
    then show ?thesis using assms that by (simp add: returned_def g)
  qed
  then show ?thesis using assms m by (auto simp: returned_def)
qed

section \<open>Another address space in the same memory\<close>

text \<open>Page tables that are not touched translate as before.\<close>

lemma tables_kept:
  assumes v: "vm_ok p s xs" and k: "kend t = kend s" and f: "free_list t ys" "set ys \<inter> table_pages p s = {}" and len: "\<forall>w. length (page_at w t) = PGBYTES"
    and same: "\<forall>w \<in> table_pages p s. page_at w t = page_at w s"
  shows "mapped p va t = mapped p va s" and "table_pages p t = table_pages p s" and "vm_ok p t ys"
    and "has_table p j t = has_table p j s" and "table_of p j t = table_of p j s"
proof -
  have good: "good_page w t = good_page w s" for w by (rule good_page_cong [OF k])
  have pd: "entry (p, j) t = entry (p, j) s" for j using same by (simp add: entry_def table_pages_def)
  show ht: "has_table p j t = has_table p j s" "table_of p j t = table_of p j s" for j by (simp_all add: has_table_def table_of_def pd)
  have te: "entry (table_of p j s, i) t = entry (table_of p j s, i) s" if "has_table p j s" for i j
  proof -
    have "table_of p j s \<in> table_pages p s" using that by (auto simp: table_pages_def)
    then show ?thesis by (simp add: entry_def same)
  qed
  show "mapped p va t = mapped p va s" for va using te by (auto simp: mapped_def ht)
  show tp: "table_pages p t = table_pages p s" by (simp add: table_pages_def ht)
  show "vm_ok p t ys" using v f len unfolding vm_ok_def tp good ht by blast
qed

text \<open>An address space none of whose pages is touched stays as it is.\<close>

lemma space_kept:
  assumes o: "owned_ok p s xs" and k: "kend t = kend s" and f: "free_list t ys" "set ys \<subseteq> set xs" and len: "\<forall>w. length (page_at w t) = PGBYTES"
    and same: "\<And>w. good_page w s \<Longrightarrow> w \<notin> set xs \<Longrightarrow> page_at w t = page_at w s"
  shows "mapped p va t = mapped p va s" and "table_pages p t = table_pages p s" and "upages p t = upages p s" and "owned_ok p t ys"
    and "has_table p j t = has_table p j s" and "table_of p j t = table_of p j s"
proof -
  have v: "vm_ok p s xs" by (rule owned_okD(1) [OF o])
  have "set ys \<inter> table_pages p s = {}" and "\<forall>w \<in> table_pages p s. page_at w t = page_at w s"
    using v f(2) same unfolding vm_ok_def by blast+
  note r = tables_kept [OF v k f(1) this(1) len this(2)]
  show "has_table p j t = has_table p j s" "table_of p j t = table_of p j s" "mapped p va t = mapped p va s" "table_pages p t = table_pages p s"
    by (simp_all only: r)
  show "upages p t = upages p s" by (simp add: upages_def r)
  show "owned_ok p t ys" using o f(2) r(3) unfolding owned_ok_def r(1,2) good_page_cong [OF k] k by blast
qed

section \<open>Giving pages back\<close>

lemma upage_nonzero:
  assumes "owned_ok d s xs" and "va < KERNBASE" and "mapped d va s = Some e"
  shows "PTE_ADDR e \<noteq> 0"
proof
  assume "PTE_ADDR e = 0"
  then have "upage e = KERNBASE" by (simp add: upage_def P2V_def)
  then show False using owned_okD(2) [OF assms(1)] owned_okD(3) [OF assms(1,2,3)] by (auto simp: good_page_def)
qed

lemma kfree_lengths:
  assumes "kfree v s = Inr t" and "\<forall>w. length (page_at w s) = PGBYTES"
  shows "length (page_at w t) = PGBYTES"
  using assms by (auto simp: kfree_def Let_def page_at_set_page page_at_def set_page_def split: if_splits)

text \<open>A page mapped at one address is freed and its entry cleared.\<close>

lemma free_user_page:
  assumes o: "owned_ok d s xs" and a: "aligned a" "a < KERNBASE" and e: "mapped d a s = Some e"
  shows "succeeds (bindE (kfree (upage e) s) (\<lambda>s1. Inr (set_entry (table_of d (PDX a) s, PTX a) 0 s1)))
    (\<lambda>t. returned d s xs t (upage e # xs) \<and> (\<forall>va. mapped d va t = (if PGROUNDDOWN va = a then None else mapped d va s)))"
proof -
  let ?v = "upage e"
  have v: "vm_ok d s xs" and g: "good_page ?v s" "?v \<notin> set xs" "?v \<notin> table_pages d s" using owned_okD(1,3) [OF o] a(2) e by blast+
  obtain u where u: "kfree ?v s = Inr u" "free_list u (?v # xs)" "kend u = kend s" "kdata u = kdata s"
    "\<And>w. frame w \<noteq> frame ?v \<Longrightarrow> page_at w u = page_at w s"
    using kfree_push [OF vm_okD(1) [OF v] g(1,2)] by auto
  have other: "page_at w u = page_at w s" if "good_page w s" "w \<noteq> ?v" for w using u(5) frame_inj [OF that(1) g(1)] that(2) by blast
  have "set (?v # xs) \<inter> table_pages d s = {}" "\<forall>w \<in> table_pages d s. page_at w u = page_at w s"
    using v g other unfolding vm_ok_def by auto
  note k = tables_kept [OF v u(3,2) this(1) allI [OF kfree_lengths [OF u(1) allI [OF vm_okD(2) [OF v]]]] this(2)]
  have ha: "has_table d (PDX a) s" using e by (simp add: mapped_def split: if_splits)
  let ?t = "set_entry (table_of d (PDX a) s, PTX a) 0 u"
  note r = set_pte_ok [OF k(3), where i = "PDX a" and k = "PTX a" and x = 0, unfolded k(4,5), OF ha PTX_less, unfolded k(2) not_present_0 if_False page_index_eq [OF a(1)]]
  have m: "mapped d va ?t = (if PGROUNDDOWN va = a then None else mapped d va s)" for va using r(3) by (simp add: k(1))
  have ke: "kend ?t = kend s" "kdata ?t = kdata s" by (simp_all add: u)
  note good = good_page_cong [OF ke(1)]
  have sub: "mapped d va s = Some f \<and> PGROUNDDOWN va \<noteq> a" if "mapped d va ?t = Some f" for va f using that by (auto simp: m split: if_splits)
  have ne: "upage f \<noteq> ?v" if "va < KERNBASE" "mapped d va ?t = Some f" for va f
    using owned_okD(4) [OF o that(1) a(2) _ e] sub [OF that(2)] a(1) by auto
  have ow: "owned_ok d ?t (?v # xs)"
    unfolding owned_ok_def r(2) good ke
  proof (intro conjI allI impI)
    show "vm_ok d ?t (?v # xs)" by (rule r(1))
    show "KERNBASE < kend s" by (rule owned_okD(2) [OF o])
  next
    fix va f
    assume f: "va < KERNBASE" "mapped d va ?t = Some f"
    show "good_page (upage f) s" "upage f \<notin> set (?v # xs)" "upage f \<notin> table_pages d s"
      using owned_okD(3) [OF o f(1)] sub [OF f(2)] ne [OF f] by auto
  next
    fix va vb f h
    assume "va < KERNBASE" "vb < KERNBASE" "mapped d va ?t = Some f" "mapped d vb ?t = Some h" "upage f = upage h"
    then show "PGROUNDDOWN va = PGROUNDDOWN vb" using owned_okD(4) [OF o] sub by blast
  qed
  have up: "upages d s = insert ?v (upages d ?t)"
  proof (intro equalityI subsetI)
    fix w
    assume "w \<in> upages d s"
    then obtain va f where f: "w = upage f" "va < KERNBASE" "mapped d va s = Some f" by (auto simp: upages_def)
    show "w \<in> insert ?v (upages d ?t)"
    proof (cases "PGROUNDDOWN va = a")
      case True
      then have "f = e" using f(3) e mapped_page [of d va s] by simp
      then show ?thesis using f(1) by simp
    next
      case False
      then show ?thesis using f upagesI [of va d ?t f] by (simp add: m)
    qed
  next
    fix w
    assume "w \<in> insert ?v (upages d ?t)"
    then show "w \<in> upages d s" using upagesI [OF a(2) e] sub by (auto simp: upages_def)
  qed
  have pg: "page_at w ?t = page_at w s" if w: "good_page w s" "w \<notin> set (?v # xs) \<union> table_pages d s" for w
  proof -
    have "w \<noteq> table_of d (PDX a) s" using w(2) ha by (auto simp: table_pages_def)
    then have "frame w \<noteq> frame (table_of d (PDX a) s)" using frame_inj [OF w(1) vm_okD(5) [OF v ha]] by blast
    then show ?thesis using other [OF w(1)] w(2) by (simp add: set_entry_frame)
  qed
  have "returned d s xs ?t (?v # xs)"
    unfolding returned_def moved_def owns_def r(2) using ow ke up pg by auto
  then show ?thesis using u(1) m by simp
qed

lemma dealloc_step_ok:
  assumes o: "owned_ok d s xs" and a: "aligned a" "a < KERNBASE"
  shows "succeeds (dealloc_step d a s) (\<lambda>(a', t). \<exists>ys. returned d s xs t ys \<and> aligned (a' + PGSIZE) \<and> a < a' + PGSIZE \<and> a' + PGSIZE \<le> KERNBASE \<and>
    (\<forall>va. mapped d va t = (if PGROUNDDOWN va = a then None else mapped d va s)) \<and> (\<forall>va. a \<le> va \<longrightarrow> va < a' + PGSIZE \<longrightarrow> mapped d va t = None))"
proof -
  obtain q where q: "unat a = 4096 * q" using a(1) by (auto simp: aligned_unat dvd_def)
  have q': "q < 0x80000" using a(2) q by (simp add: word_less_nat_alt KERNBASE_def)
  have n: "unat (a + PGSIZE) = 4096 * Suc q" using q q' by (simp add: unat_word_ariths PGSIZE_def)
  have here: "aligned (a + PGSIZE)" "a < a + PGSIZE" "a + PGSIZE \<le> KERNBASE"
    using q q' n by (simp_all add: aligned_unat word_less_nat_alt word_le_nat_alt KERNBASE_def)
  have same: "PGROUNDDOWN va = a" if "a \<le> va" "va < a + PGSIZE" for va
  proof -
    have "unat va div 4096 = q" by (rule div_nat_eqI) (use that q n in \<open>simp_all add: word_less_nat_alt word_le_nat_alt\<close>)
    then show ?thesis using q by (simp add: word_unat_eq_iff unat_PGROUNDDOWN)
  qed
  show ?thesis
  proof (cases "has_table d (PDX a) s")
    case False
    let ?b = "PGADDR (of_nat (PDX a) + 1) 0 0"
    have b: "unat ?b = 0x400000 * Suc (PDX a)" by (rule next_table_addr [OF a(2)])
    have lt: "PDX a < 512" using a(2) by (simp add: PDX_div KERNBASE_def word_less_nat_alt less_mult_imp_div_less)
    have none: "mapped d va s = None" if "a \<le> va" "va < ?b" for va
    proof -
      have "0x400000 * PDX a \<le> unat a" by (simp add: PDX_div)
      then have "PDX va = PDX a"
        unfolding PDX_div [of va] by (intro div_nat_eqI) (use that b in \<open>simp_all add: word_less_nat_alt word_le_nat_alt\<close>)
      then show ?thesis using False by (simp add: mapped_def)
    qed
    have "aligned ?b" using b by (simp add: aligned_unat)
    moreover have "a < ?b" "?b \<le> KERNBASE" using next_table [OF a(2)] b lt by (simp_all add: word_le_nat_alt KERNBASE_def)
    moreover have "mapped d va s = None" if "PGROUNDDOWN va = a" for va
      using none [of a] \<open>a < ?b\<close> mapped_page [of d va s] that by simp
    ultimately show ?thesis using none returned_refl [OF o] walk_none(1) [OF False] by (auto simp: dealloc_step_def)
  next
    case True
    note w = walk_has [OF True, of False]
    show ?thesis
    proof (cases "mapped d a s")
      case None
      then have "\<not> present (entry (table_of d (PDX a) s, PTX a) s)" using True by (simp add: mapped_def split: if_splits)
      moreover have "mapped d va s = None" if "PGROUNDDOWN va = a" for va using mapped_page [of d va s] that None by simp
      ultimately show ?thesis using w here same returned_refl [OF o] by (auto simp: dealloc_step_def)
    next
      case (Some e)
      then have en: "entry (table_of d (PDX a) s, PTX a) s = e" "present e" by (auto simp: mapped_def split: if_splits)
      have "dealloc_step d a s = bindE (bindE (kfree (upage e) s) (\<lambda>s1. Inr (set_entry (table_of d (PDX a) s, PTX a) 0 s1))) (\<lambda>t. Inr (a, t))"
        using w en upage_nonzero [OF o a(2) Some] by (simp add: dealloc_step_def Let_def upage_def bindE_def split: sum.splits)
      then show ?thesis using free_user_page [OF o a Some] here same by (auto simp: succeeds_iff bindE_def)
    qed
  qed
qed

text \<open>Shrinking: exactly the pages of the range are unmapped and free again; the pages below keep their contents.\<close>

lemma dealloc_loop_ok:
  assumes "owned_ok d s xs" and "aligned a" and "e \<le> KERNBASE"
  shows "succeeds (dealloc_loop d a e s) (\<lambda>t. \<exists>ys. returned d s xs t ys \<and>
    (\<forall>va. mapped d va t = (if a \<le> va \<and> PGROUNDDOWN va < e then None else mapped d va s)))"
  using assms(1,2)
proof (induction "unat e - unat a" arbitrary: a s xs rule: less_induct)
  case less
  show ?case
  proof (cases "a < e")
    case False
    then have "\<not> (a \<le> va \<and> PGROUNDDOWN va < e)" for va using page_low [OF less.prems(2), of va] by auto
    then show ?thesis using False returned_refl [OF less.prems(1)] by (auto simp: dealloc_loop.simps)
  next
    case True
    then have k: "a < KERNBASE" using assms(3) by simp
    obtain a' t ys where st: "dealloc_step d a s = Inr (a', t)" and r: "returned d s xs t ys" and b: "aligned (a' + PGSIZE)" "a < a' + PGSIZE"
      and m: "\<And>va. mapped d va t = (if PGROUNDDOWN va = a then None else mapped d va s)"
      and z: "\<And>va. a \<le> va \<Longrightarrow> va < a' + PGSIZE \<Longrightarrow> mapped d va t = None"
      using dealloc_step_ok [OF less.prems k] by (auto simp: succeeds_iff)
    have ot: "owned_ok d t ys" using r by (simp add: returned_def moved_def)
    have "unat e - unat (a' + PGSIZE) < unat e - unat a" using True b(2) by (simp add: word_less_nat_alt)
    from less.hyps [OF this ot b(1)] obtain u zs where u: "dealloc_loop d (a' + PGSIZE) e t = Inr u" "returned d t ys u zs"
      and mu: "\<And>va. mapped d va u = (if a' + PGSIZE \<le> va \<and> PGROUNDDOWN va < e then None else mapped d va t)"
      by (auto simp: succeeds_iff)
    have "mapped d va u = (if a \<le> va \<and> PGROUNDDOWN va < e then None else mapped d va s)" for va
    proof (cases "a \<le> va \<and> PGROUNDDOWN va < e")
      case True
      then show ?thesis using mu [of va] z [of va] by (simp add: not_le)
    next
      case False
      have "PGROUNDDOWN va \<noteq> a" using False True page_low [OF less.prems(2), of va] by auto
      then show ?thesis using False mu [of va] m [of va] b(2) by auto
    qed
    then show ?thesis using True st b(2) u(1) returned_trans [OF r u(2)] by (auto simp: dealloc_loop.simps [of d a])
  qed
qed

lemma deallocuvm_ok:
  assumes o: "owned_ok d s xs" and sz: "newsz < oldsz" "oldsz \<le> KERNBASE"
  shows "succeeds (deallocuvm d oldsz newsz s) (\<lambda>(r, t). r = newsz \<and> (\<exists>ys. returned d s xs t ys \<and>
    (\<forall>va. mapped d va t = (if PGROUNDUP newsz \<le> va \<and> PGROUNDDOWN va < oldsz then None else mapped d va s))))"
  using dealloc_loop_ok [OF o PGROUNDUP_aligned sz(2), of newsz] sz(1) by (auto simp: deallocuvm_def succeeds_iff not_le)

section \<open>Giving up an address space\<close>

text \<open>The free list is \<open>ys\<close>, and all other pages are as before.\<close>

definition kept_outside :: "kmem \<Rightarrow> kmem \<Rightarrow> u32 list \<Rightarrow> bool" where
  "kept_outside s t ys \<longleftrightarrow> free_list t ys \<and> kend t = kend s \<and> kdata t = kdata s \<and> (\<forall>w. length (page_at w t) = PGBYTES) \<and>
     (\<forall>w. good_page w s \<longrightarrow> w \<notin> set ys \<longrightarrow> page_at w t = page_at w s)"

lemma kept_outsideD:
  assumes "kept_outside s t ys"
  shows "free_list t ys" and "kend t = kend s" and "kdata t = kdata s" and "length (page_at w t) = PGBYTES"
    and "good_page w s \<Longrightarrow> w \<notin> set ys \<Longrightarrow> page_at w t = page_at w s" and "good_page w t = good_page w s"
  using assms good_page_cong [of t s w] by (simp_all add: kept_outside_def)

lemma kept_outside_trans:
  assumes "kept_outside s t ys" and "kept_outside t u zs" and "set ys \<subseteq> set zs"
  shows "kept_outside s u zs"
  using assms kept_outsideD(5,6) [OF assms(1)] unfolding kept_outside_def by auto

lemma kfree_kept:
  assumes k: "kept_outside s t ys" and v: "good_page v s" "v \<notin> set ys"
  shows "succeeds (kfree v t) (\<lambda>u. kept_outside s u (v # ys))"
proof -
  note d = kept_outsideD [OF k]
  have gv: "good_page v t" using d(6) v(1) by simp
  obtain u where u: "kfree v t = Inr u" "free_list u (v # ys)" "kend u = kend t" "kdata u = kdata t"
    "\<And>w. frame w \<noteq> frame v \<Longrightarrow> page_at w u = page_at w t"
    using kfree_push [OF d(1) gv v(2)] by auto
  have "page_at w u = page_at w s" if "good_page w s" "w \<notin> set (v # ys)" for w
    using u(5) [of w] frame_inj [OF that(1) v(1)] d(5) [OF that(1)] that(2) by auto
  then show ?thesis using u d(2,3) kfree_lengths [OF u(1)] d(4) by (simp add: kept_outside_def)
qed

lemma freevm_tables:
  assumes v: "vm_ok d s xs"
  shows "succeeds (foldE (freevm_entry d) [0..<NPDENTRIES] s) (\<lambda>t. \<exists>ys. kept_outside s t ys \<and> set ys = set xs \<union> (table_pages d s - {d}))"
proof -
  note o = vm_okD [OF v]
  let ?T = "\<lambda>k. {table_of d i s |i. i < k \<and> has_table d i s}"
  let ?I = "\<lambda>k t. \<exists>ys. kept_outside s t ys \<and> set ys = set xs \<union> ?T k"
  have "succeeds (foldE (freevm_entry d) [0..<NPDENTRIES] s) (?I NPDENTRIES)"
  proof (rule foldE_upt [where I = ?I])
    show "?I 0 s" using v by (auto simp: kept_outside_def vm_ok_def)
  next
    fix k t
    assume k: "k < NPDENTRIES" and I: "?I k t"
    then obtain ys where ys: "kept_outside s t ys" "set ys = set xs \<union> ?T k" by blast
    have "d \<notin> set ys" unfolding ys(2) using o(4,7) by fastforce
    then have e: "entry (d, k) t = entry (d, k) s" using kept_outsideD(5) [OF ys(1) o(3)] by (simp add: entry_def)
    show "succeeds (freevm_entry d k t) (?I (Suc k))"
    proof (cases "has_table d k s")
      case True
      have "table_of d k s \<notin> set ys" using o(6) [OF True] o(8) [OF True] ys(2) by fastforce
      from kfree_kept [OF ys(1) o(5) [OF True] this] obtain u where u: "kfree (table_of d k s) t = Inr u" "kept_outside s u (table_of d k s # ys)"
        by (auto simp: succeeds_iff)
      have "freevm_entry d k t = Inr u" using True u(1) by (simp add: freevm_entry_def e has_table_def table_of_def)
      moreover have "?T (Suc k) = insert (table_of d k s) (?T k)" using True by (auto simp: less_Suc_eq)
      ultimately show ?thesis using u(2) ys(2) by (auto intro!: exI [of _ "table_of d k s # ys"])
    next
      case False
      then have "\<not> present (entry (d, k) s)" using k by (simp add: has_table_def NPDENTRIES_def)
      then have "freevm_entry d k t = Inr t" by (simp add: freevm_entry_def e)
      moreover have "?T (Suc k) = ?T k" using False by (auto simp: less_Suc_eq)
      ultimately show ?thesis using ys by auto
    qed
  qed
  moreover have "?T NPDENTRIES = table_pages d s - {d}" using o(7) by (auto simp: table_pages_def has_table_def NPDENTRIES_def)
  ultimately show ?thesis by simp
qed

text \<open>\<open>freevm\<close> does not fail, and every page of the address space is on the free list afterwards.\<close>

lemma freevm_ok:
  assumes o: "owned_ok d s xs"
  shows "succeeds (freevm d s) (\<lambda>t. \<exists>ys. kept_outside s t ys \<and> set ys = set xs \<union> owns d s)"
proof -
  have z: "0 < KERNBASE" by (simp add: KERNBASE_def)
  have r0: "PGROUNDUP 0 = 0" by (simp add: PGROUNDUP_def PGSIZE_def)
  obtain t ys where t: "deallocuvm d KERNBASE 0 s = Inr (0, t)" and r: "returned d s xs t ys"
    and m: "\<And>va. mapped d va t = (if PGROUNDDOWN va < KERNBASE then None else mapped d va s)"
    using deallocuvm_ok [OF o z order_refl] by (auto simp: succeeds_iff r0)
  note rd = r [unfolded returned_def]
  have ot: "owned_ok d t ys" and k: "kend t = kend s" "kdata t = kdata s" using rd by (simp_all add: moved_def)
  note v = owned_okD(1) [OF ot]
  have "PGROUNDDOWN va < KERNBASE" if "va < KERNBASE" for va using that by (simp add: word_less_nat_alt unat_PGROUNDDOWN)
  then have "upages d t = {}" by (auto simp: upages_def m)
  then have all: "set ys \<union> table_pages d s = set xs \<union> owns d s" using rd unfolding moved_def owns_def by (elim conjE) simp
  obtain u zs where u: "foldE (freevm_entry d) [0..<NPDENTRIES] t = Inr u" "kept_outside t u zs" "set zs = set ys \<union> (table_pages d s - {d})"
    using freevm_tables [OF v] rd by (auto simp: succeeds_iff)
  have "good_page d t" "d \<notin> set zs" using vm_okD(3,4) [OF v] u(3) by auto
  from kfree_kept [OF u(2) this] obtain w where w: "kfree d u = Inr w" "kept_outside t w (d # zs)" by (auto simp: succeeds_iff)
  have zs: "set (d # zs) = set ys \<union> table_pages d s" using u(3) by (auto simp: table_pages_def)
  have "kept_outside s w (d # zs)"
    unfolding kept_outside_def
  proof (intro conjI allI impI)
    fix x
    assume x: "good_page x s" "x \<notin> set (d # zs)"
    then have "page_at x w = page_at x t" using kept_outsideD(5) [OF w(2), of x] movedD(5) [of d s xs t ys x] rd by simp
    also have "\<dots> = page_at x s" using rd x unfolding zs by blast
    finally show "page_at x w = page_at x s" .
  qed (use kept_outsideD(1-4) [OF w(2)] k in simp_all)
  moreover have "d \<noteq> 0" using vm_okD(3) [OF v] by (simp add: good_page_def)
  ultimately show ?thesis using t u(1) w(1) all zs by (auto simp: freevm_def)
qed

end
