(* ===== verification/VmFork.thy ===== *)
theory VmFork
  imports VmSpace
begin

text \<open>
  \<open>setupkvm\<close> and \<open>copyuvm\<close>: what a new page directory maps, and that \<open>fork\<close> gives the child a copy of the memory of its parent
  in pages of its own, or gives every page back when the memory runs out.
\<close>

section \<open>Mapping a range\<close>

lemma mappages_loop_Suc:
  "mappages_loop (Suc n) d a pa perm s = bindE (mappages_loop 0 d a pa perm s) (\<lambda>(r, s1).
     if r < 0 then Inr (r, s1) else mappages_loop n d (a + PGSIZE) (pa + PGSIZE) perm s1)"
  by (auto simp: mappages_loop.simps [of "Suc n" d a] mappages_loop.simps [of 0 d a] Let_def split: option.splits prod.splits)

lemma mappages_range:
  assumes a: "aligned va" and z: "aligned z" "z \<noteq> 0" and fit: "unat va + unat z \<le> 2 ^ 32"
  shows "mappages d va z pa perm s = mappages_loop (unat z div 4096 - 1) d va pa perm s"
proof -
  obtain p q where p: "unat va = 4096 * p" and q: "unat z = 4096 * q" using a z(1) by (auto simp: aligned_unat dvd_def)
  have q0: "0 < q" using z(2) q by (cases "q = 0") (auto simp: unat_eq_zero)
  have "unat (z - 1) = 4096 * q - 1" using z(2) q by (simp add: unat_minus_one)
  then have "unat (va + (z - 1)) = 4096 * p + (4096 * q - 1)" using fit q0 by (simp add: unat_plus_if' p q)
  moreover have "(4096 * p + (4096 * q - 1)) div 4096 = p + (q - 1)" using q0 by (intro div_nat_eqI) auto
  ultimately have "unat (PGROUNDDOWN (va + z - 1)) = 4096 * (p + (q - 1))" by (simp add: unat_PGROUNDDOWN add_diff_eq)
  then have "unat (PGROUNDDOWN (va + z - 1) - va) = 4096 * (q - 1)" by (simp add: unat_sub_if' p)
  then have "unat (drop_bit 12 (PGROUNDDOWN (va + z - 1) - va)) = q - 1"
    by (simp add: unsigned_drop_bit_eq drop_bit_eq_div take_bit_nat_eq_self unat_div_distrib)
  then show ?thesis using a q by (simp add: mappages_def)
qed

text \<open>The indices in the page directory that have a page table.\<close>

definition table_set :: "u32 \<Rightarrow> kmem \<Rightarrow> nat set" where
  "table_set d s = {i. has_table d i s}"

lemma table_set_set_pte:
  assumes v: "vm_ok d s xs" and i: "has_table d i s" and k: "k < 1024"
  shows "table_set d (set_entry (table_of d i s, k) x s) = table_set d s"
proof -
  have "frame d \<noteq> frame (table_of d i s)" using frame_inj [OF vm_okD(3) [OF v] vm_okD(5) [OF v i]] vm_okD(7) [OF v i] by auto
  then have "entry (d, j) (set_entry (table_of d i s, k) x s) = entry (d, j) s" for j
    using entry_set_entry [OF vm_okD(2) [OF v] k, of d j] by simp
  then show ?thesis by (simp add: table_set_def has_table_def)
qed

lemma map_one_tables:
  assumes v: "vm_ok d s xs" and m: "mappages_loop 0 d a pa perm s = Inr (0, t)"
  shows "table_set d t = insert (PDX a) (table_set d s)"
proof (cases "has_table d (PDX a) s")
  case True
  then have "t = set_entry (table_of d (PDX a) s, PTX a) (pa OR perm OR PTE_P) s"
    using m by (auto simp: mappages_loop.simps walk_has split: if_splits)
  then show ?thesis using True table_set_set_pte [OF v True PTX_less] by (auto simp: table_set_def)
next
  case False
  show ?thesis
  proof (cases xs)
    case Nil
    then show ?thesis using m walk_none(2) [OF False] vm_okD(1) [OF v] by (simp add: mappages_loop.simps)
  next
    case (Cons w ys)
    let ?u = "new_table d (PDX a) w s"
    note u = new_table_ok [OF v [unfolded Cons] False PDX_less]
    have "t = set_entry (w, PTX a) (pa OR perm OR PTE_P) ?u"
      using m walk_none(3) [OF False vm_okD(1) [OF v [unfolded Cons]]] by (auto simp: mappages_loop.simps split: if_splits)
    then have "table_set d t = table_set d ?u" using table_set_set_pte [OF u(1,2) PTX_less, of a] u(3) by simp
    then show ?thesis using u(8) by (auto simp: table_set_def)
  qed
qed

lemma kalloc_kdata: "kdata (Product_Type.snd (kalloc s)) = kdata s"
  by (simp add: kalloc_def Let_def)

lemma map_one_kdata:
  assumes "mappages_loop 0 d a pa perm s = Inr (r, t)"
  shows "kdata t = kdata s"
  using assms kalloc_kdata [of s]
  by (auto simp: mappages_loop.simps walkpgdir_def zero_page_def Let_def split: if_splits prod.splits option.splits)

lemma kernel_page: "KERNBASE \<le> a \<Longrightarrow> va < KERNBASE \<Longrightarrow> PGROUNDDOWN va \<noteq> a"
  by (auto simp: word_less_nat_alt word_le_nat_alt unat_PGROUNDDOWN)

text \<open>A page above \<open>KERNBASE\<close> costs at most one page, for a page table.\<close>

lemma taken_kernel_page:
  assumes o: "owned_ok d s xs" and p: "map_post d a x s xs t ys" and k: "kdata t = kdata s" and a: "KERNBASE \<le> a"
  shows "taken d s xs t ys"
proof -
  note q = p [unfolded map_post_def]
  have tp: "table_pages d t \<subseteq> table_pages d s \<union> set xs" "set ys \<subseteq> set xs" "set ys \<union> table_pages d t = set xs \<union> table_pages d s"
    using q by auto
  note kernel_page [OF a]
  then have m: "mapped d va t = mapped d va s" if "va < KERNBASE" for va using q that by auto
  then have up: "upages d t = upages d s" unfolding upages_def by metis
  have ke: "kend t = kend s" using q by simp
  have "owned_ok d t ys"
    unfolding owned_ok_def good_page_cong [OF ke] ke
  proof (intro conjI allI impI)
    show "vm_ok d t ys" "KERNBASE < kend s" using q owned_okD(2) [OF o] by simp_all
  next
    fix va e
    assume "va < KERNBASE" "mapped d va t = Some e"
    then have "good_page (upage e) s \<and> upage e \<notin> set xs \<and> upage e \<notin> table_pages d s" using owned_okD(3) [OF o] m by simp
    then show "good_page (upage e) s" "upage e \<notin> set ys" "upage e \<notin> table_pages d t" using tp by auto
  next
    fix va vb e f
    assume "va < KERNBASE" "vb < KERNBASE" "mapped d va t = Some e" "mapped d vb t = Some f" "upage e = upage f"
    then show "PGROUNDDOWN va = PGROUNDDOWN vb" using owned_okD(4) [OF o] m by metis
  qed
  then show ?thesis unfolding taken_def moved_def owns_def up using tp q ke k by auto
qed

lemma map_kernel_page:
  assumes o: "owned_ok d s xs" and a: "aligned a" "KERNBASE \<le> a" and n: "mapped d a s = None"
  shows "(\<exists>t ys. mappages_loop 0 d a pa perm s = Inr (0, t) \<and> taken d s xs t ys \<and> table_set d t = insert (PDX a) (table_set d s) \<and> (\<forall>va < KERNBASE. mapped d va t = mapped d va s) \<and>
      (\<forall>va. mapped d va t = (if PGROUNDDOWN va = a then Some (pa OR perm OR PTE_P) else mapped d va s))) \<or>
    xs = [] \<and> mappages_loop 0 d a pa perm s = Inr (-1, s)"
proof -
  note v = owned_okD(1) [OF o]
  from map_one_ok [OF v a(1) n, of pa perm] show ?thesis
    unfolding mappages_one [OF a(1)]
  proof (elim disjE exE conjE)
    fix t ys
    assume m: "mappages_loop 0 d a pa perm s = Inr (0, t)" and p: "map_post d a (pa OR perm OR PTE_P) s xs t ys"
    have "taken d s xs t ys" by (rule taken_kernel_page [OF o p map_one_kdata [OF m] a(2)])
    then show ?thesis using m p map_one_tables [OF v m] kernel_page [OF a(2)] unfolding map_post_def by auto
  qed blast
qed

text \<open>The pages of a range with an address of the kernel. When the memory runs out, the free list is empty.\<close>

definition in_range :: "u32 \<Rightarrow> nat \<Rightarrow> u32 \<Rightarrow> bool" where
  "in_range a n va \<longleftrightarrow> unat a \<le> unat va \<and> unat va < unat a + 4096 * n"

lemma in_range_one:
  assumes "aligned a"
  shows "in_range a 1 va \<longleftrightarrow> PGROUNDDOWN va = a"
proof -
  obtain q where q: "unat a = 4096 * q" using assms by (auto simp: aligned_unat dvd_def)
  have "in_range a 1 va \<longleftrightarrow> unat va div 4096 = q"
    unfolding in_range_def q using addr_split [of va] by (auto simp: page_offset_def intro!: div_nat_eqI)
  then show ?thesis by (simp add: word_unat_eq_iff unat_PGROUNDDOWN q)
qed

lemma in_range_Suc:
  assumes "aligned a" and "unat a + 4096 * Suc (Suc n) \<le> 2 ^ 32"
  shows "in_range a (Suc (Suc n)) va \<longleftrightarrow> PGROUNDDOWN va = a \<or> in_range (a + PGSIZE) (Suc n) va" and "unat (a + PGSIZE) = unat a + 4096"
    and "aligned (a + PGSIZE)" and "in_range (a + PGSIZE) (Suc n) va \<Longrightarrow> PGROUNDDOWN va \<noteq> a"
proof -
  show u: "unat (a + PGSIZE) = unat a + 4096" using assms(2) by (simp add: PGSIZE_def unat_plus_if')
  then show "aligned (a + PGSIZE)" using assms(1) by (simp add: aligned_unat)
  show "in_range a (Suc (Suc n)) va \<longleftrightarrow> PGROUNDDOWN va = a \<or> in_range (a + PGSIZE) (Suc n) va"
    unfolding in_range_one [OF assms(1), symmetric] by (auto simp: in_range_def u)
  show "in_range (a + PGSIZE) (Suc n) va \<Longrightarrow> PGROUNDDOWN va \<noteq> a"
    unfolding in_range_one [OF assms(1), symmetric] by (auto simp: in_range_def u)
qed

lemma map_kernel_range:
  assumes "owned_ok d s xs" and "aligned a" and "KERNBASE \<le> a" and "unat a + 4096 * Suc n \<le> 2 ^ 32" and "\<forall>va. in_range a (Suc n) va \<longrightarrow> mapped d va s = None"
  shows "succeeds (mappages_loop n d a pa perm s) (\<lambda>(r, t). \<exists>ys. taken d s xs t ys \<and> table_set d t \<subseteq> table_set d s \<union> PDX ` {va. in_range a (Suc n) va} \<and>
    (\<forall>va < KERNBASE. mapped d va t = mapped d va s) \<and>
    (r = 0 \<and> (\<forall>va. mapped d va t = (if in_range a (Suc n) va then Some (pa + (PGROUNDDOWN va - a) OR perm OR PTE_P) else mapped d va s)) \<or>
     r = -1 \<and> ys = []))"
  using assms
proof (induction n arbitrary: a pa s xs)
  case 0
  note one = in_range_one [OF 0(2), unfolded One_nat_def]
  have n: "mapped d a s = None" using 0(2,5) by (simp add: one)
  have "a \<in> {va. in_range a (Suc 0) va}" using 0(2) by (simp add: one)
  then have "PDX a \<in> PDX ` {va. in_range a (Suc 0) va}" by (rule imageI)
  then show ?case using map_kernel_page [OF 0(1-3) n, of pa perm] taken_refl [OF 0(1)] by (auto simp: one)
next
  case (Suc n)
  let ?b = "a + PGSIZE"
  note r = in_range_Suc [OF Suc.prems(2,4)]
  have n: "mapped d a s = None" using Suc.prems(2,5) by (simp add: r(1))
  have ia: "PDX a \<in> PDX ` {va. in_range a (Suc (Suc n)) va}" using Suc.prems(2) by (intro imageI) (simp add: r(1))
  from map_kernel_page [OF Suc.prems(1-3) n, of pa perm] show ?case
  proof (elim disjE exE conjE)
    fix t ys
    assume m: "mappages_loop 0 d a pa perm s = Inr (0, t)" and tk: "taken d s xs t ys" and ts: "table_set d t = insert (PDX a) (table_set d s)"
      and lo: "\<forall>va < KERNBASE. mapped d va t = mapped d va s"
      and mp: "\<forall>va. mapped d va t = (if PGROUNDDOWN va = a then Some (pa OR perm OR PTE_P) else mapped d va s)"
    have o: "owned_ok d t ys" using tk by (simp add: taken_def moved_def)
    have b: "KERNBASE \<le> ?b" "unat ?b + 4096 * Suc n \<le> 2 ^ 32" using Suc.prems(3,4) by (simp_all add: r(2) word_le_nat_alt)
    have nb: "\<forall>va. in_range ?b (Suc n) va \<longrightarrow> mapped d va t = None" using Suc.prems(5) mp r(1,4) by auto
    obtain q u zs where u: "mappages_loop n d ?b (pa + PGSIZE) perm t = Inr (q, u)" "taken d t ys u zs"
      "table_set d u \<subseteq> table_set d t \<union> PDX ` {va. in_range ?b (Suc n) va}" "\<forall>va < KERNBASE. mapped d va u = mapped d va t"
      and c: "q = 0 \<and> (\<forall>va. mapped d va u = (if in_range ?b (Suc n) va then Some (pa + PGSIZE + (PGROUNDDOWN va - ?b) OR perm OR PTE_P) else mapped d va t)) \<or>
        q = -1 \<and> zs = []"
      using Suc.IH [OF o r(3) b nb, of "pa + PGSIZE"] by (auto simp: succeeds_iff)
    have "table_set d u \<subseteq> table_set d s \<union> PDX ` {va. in_range a (Suc (Suc n)) va}"
      using u(3) ts ia r(1) by (auto intro!: imageI)
    moreover have "mapped d va u = (if in_range a (Suc (Suc n)) va then Some (pa + (PGROUNDDOWN va - a) OR perm OR PTE_P) else mapped d va s)" if "q = 0" for va
      using c that mp r(1,4) [of va] by (auto simp: add.assoc)
    ultimately show ?thesis using m u(1) taken_trans [OF tk u(2)] c lo u(4) by (auto simp: mappages_loop_Suc)
  next
    assume "xs = []" "mappages_loop 0 d a pa perm s = Inr (-1, s)"
    then show ?thesis using taken_refl [OF Suc.prems(1)] by (auto simp: mappages_loop_Suc)
  qed
qed

section \<open>The kernel part of an address space\<close>

text \<open>The entries that a table like \<open>kmap\<close> asks for. Its ranges ascend from \<open>b\<close> and consist of whole pages.\<close>

fun kmap_pte :: "(u32 \<times> u32 \<times> u32 \<times> u32) list \<Rightarrow> u32 \<Rightarrow> u32 option" where
  "kmap_pte [] va = None"
| "kmap_pte ((virt, ps, pe, perm) # ks) va =
    (if in_range virt (unat (pe - ps) div 4096) va then Some (ps + (PGROUNDDOWN va - virt) OR perm OR PTE_P) else kmap_pte ks va)"

fun kmap_ok :: "nat \<Rightarrow> (u32 \<times> u32 \<times> u32 \<times> u32) list \<Rightarrow> bool" where
  "kmap_ok b [] \<longleftrightarrow> True"
| "kmap_ok b ((virt, ps, pe, perm) # ks) \<longleftrightarrow> b \<le> unat virt \<and> aligned virt \<and> aligned (pe - ps) \<and> pe - ps \<noteq> 0 \<and>
     unat virt + unat (pe - ps) \<le> 2 ^ 32 \<and> kmap_ok (unat virt + unat (pe - ps)) ks"

lemma kmap_pte_low: "kmap_ok b ks \<Longrightarrow> unat va < b \<Longrightarrow> kmap_pte ks va = None"
  by (induction b ks rule: kmap_ok.induct) (auto simp: in_range_def)

definition kmap_tables :: "(u32 \<times> u32 \<times> u32 \<times> u32) list \<Rightarrow> nat set" where
  "kmap_tables ks = PDX ` {va. kmap_pte ks va \<noteq> None}"

lemma kmap_tables_Cons:
  "kmap_ok b ((virt, ps, pe, perm) # ks) \<Longrightarrow>
    kmap_tables ((virt, ps, pe, perm) # ks) = PDX ` {va. in_range virt (unat (pe - ps) div 4096) va} \<union> kmap_tables ks"
  by (auto simp: kmap_tables_def)

definition kmap_done :: "u32 \<Rightarrow> (u32 \<times> u32 \<times> u32 \<times> u32) list \<Rightarrow> kmem \<Rightarrow> u32 list \<Rightarrow> kmem \<Rightarrow> bool" where
  "kmap_done d ks s xs t \<longleftrightarrow> (\<exists>ys. taken d s xs t ys \<and> table_set d t \<subseteq> table_set d s \<union> kmap_tables ks \<and>
     (\<forall>va. mapped d va t = (case kmap_pte ks va of Some e \<Rightarrow> Some e | None \<Rightarrow> mapped d va s)))"

text \<open>The memory ran out: at some point no page was free, and all pages of the new space are free at the end.\<close>

definition kmap_failed :: "u32 \<Rightarrow> (u32 \<times> u32 \<times> u32 \<times> u32) list \<Rightarrow> kmem \<Rightarrow> u32 list \<Rightarrow> kmem \<Rightarrow> bool" where
  "kmap_failed d ks s xs t \<longleftrightarrow> (\<exists>ys. kept_outside s t ys \<and> set ys = set xs \<union> owns d s) \<and>
     (\<exists>u. taken d s xs u [] \<and> table_set d u \<subseteq> table_set d s \<union> kmap_tables ks \<and> (\<forall>va < KERNBASE. mapped d va u = mapped d va s))"

lemma kept_taken:
  assumes tk: "taken d s xs t ys" and k: "kept_outside t u zs" and z: "set zs = set ys \<union> owns d t"
  shows "kept_outside s u zs \<and> set zs = set xs \<union> owns d s"
proof -
  have m: "moved d s xs t ys" using tk by (simp add: taken_def)
  have zs: "set zs = set xs \<union> owns d s" using movedD(4) [OF m] z by simp
  have "page_at w u = page_at w s" if w: "good_page w s" "w \<notin> set zs" for w
  proof -
    have "w \<notin> set xs \<union> table_pages d s" using w(2) unfolding zs owns_def by blast
    then have "page_at w t = page_at w s" using tk w(1) by (simp add: taken_def)
    then show ?thesis using kept_outsideD(5) [OF k] movedD(5) [OF m] w by simp
  qed
  then show ?thesis using k zs movedD(2,3) [OF m] by (simp add: kept_outside_def)
qed

lemma kmap_step:
  assumes "taken d s xs t ys" and "table_set d t \<subseteq> table_set d s \<union> PDX ` {va. in_range virt (unat (pe - ps) div 4096) va}"
    and "\<forall>va < KERNBASE. mapped d va t = mapped d va s" and "kmap_ok b ((virt, ps, pe, perm) # ks)"
  shows "(\<forall>va. mapped d va t = (if in_range virt (unat (pe - ps) div 4096) va then Some (ps + (PGROUNDDOWN va - virt) OR perm OR PTE_P) else mapped d va s)) \<Longrightarrow>
      kmap_done d ks t ys u \<Longrightarrow> kmap_done d ((virt, ps, pe, perm) # ks) s xs u"
    and "kmap_failed d ks t ys u \<Longrightarrow> kmap_failed d ((virt, ps, pe, perm) # ks) s xs u"
proof -
  note tc = kmap_tables_Cons [OF assms(4)]
  assume m: "\<forall>va. mapped d va t = (if in_range virt (unat (pe - ps) div 4096) va then Some (ps + (PGROUNDDOWN va - virt) OR perm OR PTE_P) else mapped d va s)"
    and "kmap_done d ks t ys u"
  then obtain zs where zs: "taken d t ys u zs" "table_set d u \<subseteq> table_set d t \<union> kmap_tables ks"
    "\<forall>va. mapped d va u = (case kmap_pte ks va of Some e \<Rightarrow> Some e | None \<Rightarrow> mapped d va t)"
    by (auto simp: kmap_done_def)
  have "kmap_pte ks va = None" if "in_range virt (unat (pe - ps) div 4096) va" for va
  proof (rule kmap_pte_low)
    show "kmap_ok (unat virt + unat (pe - ps)) ks" using assms(4) by simp
    show "unat va < unat virt + unat (pe - ps)" using that times_div_less_eq_dividend [of 4096 "unat (pe - ps)"] unfolding in_range_def by linarith
  qed
  then have "\<forall>va. mapped d va u = (case kmap_pte ((virt, ps, pe, perm) # ks) va of Some e \<Rightarrow> Some e | None \<Rightarrow> mapped d va s)"
    using zs(3) m by (auto split: option.splits)
  then show "kmap_done d ((virt, ps, pe, perm) # ks) s xs u"
    unfolding kmap_done_def tc using taken_trans [OF assms(1) zs(1)] zs(2) assms(2) by blast
next
  note tc = kmap_tables_Cons [OF assms(4)]
  assume "kmap_failed d ks t ys u"
  then obtain zs w where z: "kept_outside t u zs" "set zs = set ys \<union> owns d t" and w: "taken d t ys w []"
    "table_set d w \<subseteq> table_set d t \<union> kmap_tables ks" "\<forall>va < KERNBASE. mapped d va w = mapped d va t"
    by (auto simp: kmap_failed_def)
  have "\<exists>zs. kept_outside s u zs \<and> set zs = set xs \<union> owns d s" using kept_taken [OF assms(1) z] by blast
  moreover have "table_set d w \<subseteq> table_set d s \<union> kmap_tables ((virt, ps, pe, perm) # ks)" unfolding tc using w(2) assms(2) by blast
  moreover have "\<forall>va < KERNBASE. mapped d va w = mapped d va s" using w(3) assms(3) by simp
  ultimately show "kmap_failed d ((virt, ps, pe, perm) # ks) s xs u" unfolding kmap_failed_def using taken_trans [OF assms(1) w(1)] by blast
qed

lemma kmap_loop_ok:
  assumes "owned_ok d s xs" and "kmap_ok b ks" and "0x80000000 \<le> b" and "\<forall>va. b \<le> unat va \<longrightarrow> mapped d va s = None"
  shows "succeeds (kmap_loop d ks s) (\<lambda>(r, t). r = d \<and> kmap_done d ks s xs t \<or> r = 0 \<and> kmap_failed d ks s xs t)"
  using assms
proof (induction b ks arbitrary: s xs rule: kmap_ok.induct)
  case (1 b)
  then show ?case using taken_refl [OF 1(1)] by (auto simp: kmap_done_def)
next
  case (2 b virt ps pe perm ks)
  let ?z = "pe - ps"
  let ?n = "unat ?z div 4096 - 1"
  have k: "b \<le> unat virt" "aligned virt" "aligned ?z" "?z \<noteq> 0" "unat virt + unat ?z \<le> 2 ^ 32" "kmap_ok (unat virt + unat ?z) ks" using 2(3) by simp_all
  obtain q where q: "unat ?z = 4096 * q" using k(3) by (auto simp: aligned_unat dvd_def)
  have "q \<noteq> 0" using q k(4) by (metis mult_0_right unat_eq_zero)
  then have n: "Suc ?n = unat ?z div 4096" "4096 * (unat ?z div 4096) = unat ?z" using q by simp_all
  have kb: "KERNBASE \<le> virt" using k(1) 2(4) by (simp add: word_le_nat_alt KERNBASE_def)
  have "\<forall>va. in_range virt (Suc ?n) va \<longrightarrow> mapped d va s = None" using 2(5) k(1) by (auto simp: in_range_def)
  moreover have "unat virt + 4096 * Suc ?n \<le> 2 ^ 32" unfolding n using k(5) by simp
  ultimately obtain r t ys where m: "mappages d virt ?z ps perm s = Inr (r, t)" and tk: "taken d s xs t ys"
    and ts: "table_set d t \<subseteq> table_set d s \<union> PDX ` {va. in_range virt (unat ?z div 4096) va}" and lo: "\<forall>va < KERNBASE. mapped d va t = mapped d va s"
    and c: "r = 0 \<and> (\<forall>va. mapped d va t = (if in_range virt (unat ?z div 4096) va then Some (ps + (PGROUNDDOWN va - virt) OR perm OR PTE_P) else mapped d va s)) \<or>
      r = -1 \<and> ys = []"
    using map_kernel_range [OF 2(2) k(2) kb, of ?n ps perm] unfolding mappages_range [OF k(2-5)] n by (auto simp: succeeds_iff)
  have o: "owned_ok d t ys" using tk by (simp add: taken_def moved_def)
  note st = kmap_step [OF tk ts lo 2(3)]
  from c show ?case
  proof (elim disjE conjE)
    assume r: "r = 0" and mt: "\<forall>va. mapped d va t = (if in_range virt (unat ?z div 4096) va then Some (ps + (PGROUNDDOWN va - virt) OR perm OR PTE_P) else mapped d va s)"
    have "\<forall>va. unat virt + unat ?z \<le> unat va \<longrightarrow> mapped d va t = None" using 2(5) k(1) mt n(2) by (auto simp: in_range_def)
    then have "succeeds (kmap_loop d ks t) (\<lambda>(r, u). r = d \<and> kmap_done d ks t ys u \<or> r = 0 \<and> kmap_failed d ks t ys u)"
      using 2(4) k(1) by (intro 2(1) [OF o k(6)]) simp_all
    then show ?thesis using m r st(1) [OF mt] st(2) by (auto simp: succeeds_iff)
  next
    assume r: "r = -1" and ys: "ys = []"
    have "succeeds (freevm d t) (\<lambda>u. \<exists>zs. kept_outside t u zs \<and> set zs = set ys \<union> owns d t)" by (rule freevm_ok [OF o])
    then have "succeeds (freevm d t) (\<lambda>u. kmap_failed d ((virt, ps, pe, perm) # ks) s xs u)"
    proof (rule succeeds_mono)
      fix u
      assume "\<exists>zs. kept_outside t u zs \<and> set zs = set ys \<union> owns d t"
      then have "\<exists>zs. kept_outside s u zs \<and> set zs = set xs \<union> owns d s" using kept_taken [OF tk] by blast
      then show "kmap_failed d ((virt, ps, pe, perm) # ks) s xs u"
        unfolding kmap_failed_def kmap_tables_Cons [OF 2(3)] using tk ys ts lo by blast
    qed
    then show ?thesis using m r by (auto simp: succeeds_iff)
  qed
qed

text \<open>What every address space maps above \<open>KERNBASE\<close>: the physical memory, with the kernel's text read-only, and the devices; nothing of it is for the user.\<close>

definition kernel_pte :: "u32 \<Rightarrow> u32 \<Rightarrow> u32 option" where
  "kernel_pte data va =
    (if va < KERNBASE then None
     else if va < KERNBASE + PHYSTOP then
       Some (V2P (PGROUNDDOWN va) OR (if KERNBASE + EXTMEM \<le> va \<and> va < data then 0 else PTE_W) OR PTE_P)
     else if va < DEVSPACE then None else Some (PGROUNDDOWN va OR PTE_W OR PTE_P))"

text \<open>The memory of the kernel: the free list, and the end of the text between the low memory and the end of the physical memory.\<close>

definition kmem_ok :: "kmem \<Rightarrow> u32 list \<Rightarrow> bool" where
  "kmem_ok s xs \<longleftrightarrow> free_list s xs \<and> (\<forall>w. length (page_at w s) = PGBYTES) \<and> KERNBASE < kend s \<and>
     aligned (kdata s) \<and> KERNBASE + EXTMEM < kdata s \<and> kdata s < KERNBASE + PHYSTOP"

lemma aligned_sub: "aligned a \<Longrightarrow> aligned b \<Longrightarrow> b \<le> a \<Longrightarrow> aligned (a - b)"
  by (simp add: aligned_unat unat_sub dvd_diff_nat)

lemma kmap_layout:
  assumes "kmem_ok s xs"
  shows "kmap_ok 0x80000000 (kmap s)" and "kmap_pte (kmap s) va = kernel_pte (kdata s) va"
proof -
  have d: "aligned (kdata s)" "KERNBASE + EXTMEM < kdata s" "kdata s < KERNBASE + PHYSTOP" using assms by (simp_all add: kmem_ok_def)
  let ?k = "kdata s"
  have u: "0x80100000 < unat ?k" "unat ?k < 0x8E000000" using d(2,3) by (simp_all add: KERNBASE_def EXTMEM_def PHYSTOP_def word_less_nat_alt)
  have al: "aligned (KERNBASE + EXTMEM)" "aligned (KERNBASE + PHYSTOP)" by (simp_all add: aligned_unat KERNBASE_def EXTMEM_def PHYSTOP_def)
  have z2: "V2P ?k - V2P (KERNBASE + EXTMEM) = ?k - (KERNBASE + EXTMEM)" and z3: "PHYSTOP - V2P ?k = KERNBASE + PHYSTOP - ?k"
    by (simp_all add: V2P_def)
  have n2: "unat (?k - (KERNBASE + EXTMEM)) = unat ?k - 0x80100000" and n3: "unat (KERNBASE + PHYSTOP - ?k) = 0x8E000000 - unat ?k"
    using unat_sub [OF less_imp_le [OF d(2)]] unat_sub [OF less_imp_le [OF d(3)]] by (simp_all add: KERNBASE_def EXTMEM_def PHYSTOP_def)
  have a2: "aligned (?k - (KERNBASE + EXTMEM))" and a3: "aligned (KERNBASE + PHYSTOP - ?k)"
    using aligned_sub [OF d(1) al(1)] aligned_sub [OF al(2) d(1)] d(2,3) by simp_all
  have nz: "?k - (KERNBASE + EXTMEM) \<noteq> 0" "KERNBASE + PHYSTOP - ?k \<noteq> 0" using d(2,3) by auto
  have c: "unat (KERNBASE) = 0x80000000" "unat (KERNBASE + EXTMEM) = 0x80100000" "unat EXTMEM = 0x100000" "unat DEVSPACE = 0xFE000000" "unat (- DEVSPACE) = 0x2000000"
    "unat (KERNBASE + PHYSTOP) = 0x8E000000"
    by (simp_all add: KERNBASE_def EXTMEM_def DEVSPACE_def PHYSTOP_def)
  show "kmap_ok 0x80000000 (kmap s)"
    unfolding kmap_def kmap_ok.simps z2 z3 using a2 a3 nz u d(1)
    by (simp add: c n2 n3 aligned_unat) (simp add: EXTMEM_def DEVSPACE_def)
  have dv: "4096 dvd unat ?k" using d(1) by (simp add: aligned_unat)
  have q: "4096 * ((unat ?k - 0x80100000) div 4096) = unat ?k - 0x80100000" "4096 * ((0x8E000000 - unat ?k) div 4096) = 0x8E000000 - unat ?k"
    using dv by (intro dvd_mult_div_cancel dvd_diff_nat; simp)+
  have r1: "in_range KERNBASE (unat EXTMEM div 4096) va \<longleftrightarrow> KERNBASE \<le> va \<and> va < KERNBASE + EXTMEM" by (simp add: in_range_def c word_le_nat_alt word_less_nat_alt)
  have r2: "in_range (KERNBASE + EXTMEM) (unat (?k - (KERNBASE + EXTMEM)) div 4096) va \<longleftrightarrow> KERNBASE + EXTMEM \<le> va \<and> va < ?k"
    unfolding in_range_def n2 q using u by (simp add: c word_le_nat_alt word_less_nat_alt)
  have r3: "in_range ?k (unat (KERNBASE + PHYSTOP - ?k) div 4096) va \<longleftrightarrow> ?k \<le> va \<and> va < KERNBASE + PHYSTOP"
    unfolding in_range_def n3 q using u by (simp add: c word_le_nat_alt word_less_nat_alt)
  have r4: "in_range DEVSPACE (unat (- DEVSPACE) div 4096) va \<longleftrightarrow> DEVSPACE \<le> va"
    using unsigned_less [of va, where 'a = nat] by (simp add: in_range_def c word_le_nat_alt)
  have o: "KERNBASE < KERNBASE + EXTMEM" "KERNBASE + EXTMEM < ?k" "?k < KERNBASE + PHYSTOP" "KERNBASE + PHYSTOP < DEVSPACE"
    using d(2,3) by (simp_all add: c word_less_nat_alt)
  have e2: "V2P (KERNBASE + EXTMEM) + (PGROUNDDOWN va - (KERNBASE + EXTMEM)) = V2P (PGROUNDDOWN va)" "V2P ?k + (PGROUNDDOWN va - ?k) = V2P (PGROUNDDOWN va)"
    by (simp_all add: V2P_def)
  have w: "(x :: u32) \<le> y \<longleftrightarrow> unat x \<le> unat y" "x < y \<longleftrightarrow> unat x < unat y" for x y by (simp_all add: word_le_nat_alt word_less_nat_alt)
  have e1: "0 + (PGROUNDDOWN va - KERNBASE) = V2P (PGROUNDDOWN va)" by (simp add: V2P_def)
  consider "unat va < 0x80000000" | "0x80000000 \<le> unat va" "unat va < 0x80100000" | "0x80100000 \<le> unat va" "unat va < unat ?k"
    | "unat ?k \<le> unat va" "unat va < 0x8E000000" | "0x8E000000 \<le> unat va" "unat va < 0xFE000000" | "0xFE000000 \<le> unat va" by linarith
  then show "kmap_pte (kmap s) va = kernel_pte ?k va"
    unfolding kmap_def kmap_pte.simps z2 z3 diff_zero diff_0 r1 r2 r3 r4 e1 e2 kernel_pte_def unfolding w c using u by cases simp_all
qed

section \<open>A new address space\<close>

text \<open>The page tables of the kernel's half.\<close>

definition kernel_tables :: "nat set" where
  "kernel_tables = {512..<568} \<union> {1016..<1024}"

lemma kmap_tables_sub:
  assumes "kmem_ok s xs"
  shows "kmap_tables (kmap s) \<subseteq> kernel_tables"
proof
  fix i
  assume "i \<in> kmap_tables (kmap s)"
  then obtain va where i: "i = PDX va" and k: "kernel_pte (kdata s) va \<noteq> None" by (auto simp: kmap_tables_def kmap_layout(2) [OF assms])
  from k have "0x80000000 \<le> unat va \<and> unat va < 0x8E000000 \<or> 0xFE000000 \<le> unat va"
    by (auto simp: kernel_pte_def KERNBASE_def PHYSTOP_def DEVSPACE_def word_less_nat_alt split: if_splits)
  then show "i \<in> kernel_tables"
  proof
    assume "0x80000000 \<le> unat va \<and> unat va < 0x8E000000"
    then have "512 \<le> PDX va" "PDX va < 568" unfolding PDX_div by (auto intro!: less_mult_imp_div_less simp: less_eq_div_iff_mult_less_eq)
    then show ?thesis by (simp add: i kernel_tables_def)
  next
    assume "0xFE000000 \<le> unat va"
    then have "1016 \<le> PDX va" unfolding PDX_div by (simp add: less_eq_div_iff_mult_less_eq)
    then show ?thesis using PDX_less [of va] by (simp add: i kernel_tables_def)
  qed
qed

lemma kernel_tables_card: "finite kernel_tables" "card kernel_tables = 64"
  by (simp_all add: kernel_tables_def card_Un_disjoint)

lemma owns_card:
  assumes "finite (upages d s)"
  shows "card (owns d s) \<le> Suc (card (table_set d s)) + card (upages d s)"
proof -
  have fin: "finite (table_set d s)" by (rule finite_subset [of _ "{..<1024}"]) (auto simp: table_set_def has_table_def)
  have "table_pages d s = insert d ((\<lambda>i. table_of d i s) ` table_set d s)" by (auto simp: table_pages_def table_set_def)
  then have "card (table_pages d s) \<le> Suc (card ((\<lambda>i. table_of d i s) ` table_set d s))" by (simp add: card_insert_le_m1 fin card_insert_if)
  then have "card (table_pages d s) \<le> Suc (card (table_set d s))" using card_image_le [OF fin, of "\<lambda>i. table_of d i s"] by linarith
  then show ?thesis using card_Un_le [of "table_pages d s" "upages d s"] by (simp add: owns_def)
qed

lemma new_dir_ok:
  assumes k: "kmem_ok s (d # xs)"
  defines "t \<equiv> zero_page d (s\<lparr>freelist := get32 (page_at d s) 0\<rparr>)"
  shows "kalloc s = (d, s\<lparr>freelist := get32 (page_at d s) 0\<rparr>)" and "d \<noteq> 0" and "owned_ok d t xs" and "owns d t = {d}" and "table_set d t = {}"
    and "mapped d va t = None" and "kend t = kend s" and "kdata t = kdata s" and "good_page w s \<Longrightarrow> w \<noteq> d \<Longrightarrow> page_at w t = page_at w s"
proof -
  let ?u = "s\<lparr>freelist := get32 (page_at d s) 0\<rparr>"
  have f: "free_list s (d # xs)" and len: "\<forall>w. length (page_at w s) = PGBYTES" and ke: "KERNBASE < kend s" using k by (simp_all add: kmem_ok_def)
  show "kalloc s = (d, ?u)" using kalloc_pop [OF f] by blast
  have g: "good_page d s" "d \<notin> set xs" using f by (auto simp: free_list_def)
  then show "d \<noteq> 0" by (simp add: good_page_def)
  show e: "kend t = kend s" "kdata t = kdata s" by (simp_all add: t_def zero_page_def)
  have pg: "page_at w t = (if frame w = frame d then replicate PGBYTES 0 else page_at w s)" for w
    by (simp add: t_def zero_page_def page_at_set_page)
  show "good_page w s \<Longrightarrow> w \<noteq> d \<Longrightarrow> page_at w t = page_at w s" using frame_inj [OF _ g(1), of w s] by (auto simp: pg)
  have "entry (d, i) t = 0" if "i < 1024" for i using that by (simp add: entry_def pg get32_zero PGBYTES_def)
  then have nt: "\<not> has_table d i t" for i by (auto simp: has_table_def)
  then have tp: "table_pages d t = {d}" by (simp add: table_pages_def)
  show ts: "table_set d t = {}" using nt by (simp add: table_set_def)
  show m: "mapped d va t = None" for va using nt by (simp add: mapped_def)
  then have "upages d t = {}" by (simp add: upages_def)
  then show "owns d t = {d}" by (simp add: owns_def tp)
  have "free_list ?u xs" using kalloc_pop [OF f] by blast
  then have "free_list t xs" unfolding t_def zero_page_def using g by (intro free_list_set_page) (simp_all add: good_page_def)
  then have "vm_ok d t xs" using nt g len by (simp add: vm_ok_def tp pg good_page_cong [OF e(1)])
  then show "owned_ok d t xs" using ke by (simp add: owned_ok_def m e)
qed

text \<open>A new address space in a memory: it is made of free pages, maps the kernel and nothing else, and the pages that were in use are unchanged.\<close>

definition new_space :: "kmem \<Rightarrow> u32 list \<Rightarrow> u32 \<Rightarrow> kmem \<Rightarrow> u32 list \<Rightarrow> bool" where
  "new_space s xs d t ys \<longleftrightarrow> owned_ok d t ys \<and> kend t = kend s \<and> kdata t = kdata s \<and> set ys \<union> owns d t = set xs \<and>
     (\<forall>w. good_page w s \<longrightarrow> w \<notin> set xs \<longrightarrow> page_at w t = page_at w s)"

lemma setupkvm_ok:
  assumes k: "kmem_ok s xs"
  shows "succeeds (setupkvm s) (\<lambda>(d, t).
    d = 0 \<and> length xs \<le> 65 \<and> (\<exists>ys. kept_outside s t ys \<and> set ys = set xs) \<or>
    d \<noteq> 0 \<and> table_set d t \<subseteq> kernel_tables \<and> (\<forall>va. mapped d va t = kernel_pte (kdata s) va) \<and> (\<exists>ys. new_space s xs d t ys))"
proof (cases xs)
  case Nil
  have "kept_outside s s []" using k Nil by (simp add: kmem_ok_def kept_outside_def)
  then show ?thesis using k Nil by (auto simp: setupkvm_def kmem_ok_def kalloc_empty)
next
  case (Cons d zs)
  note n = new_dir_ok [OF k [unfolded Cons]]
  let ?s = "zero_page d (s\<lparr>freelist := get32 (page_at d s) 0\<rparr>)"
  have km: "kmap ?s = kmap s" by (simp add: kmap_def n(8))
  note l = kmap_layout [OF k] and ksub = kmap_tables_sub [OF k]
  have e: "setupkvm s = kmap_loop d (kmap s) ?s" using n(1,2) km by (simp add: setupkvm_def Let_def P2V_def PHYSTOP_def DEVSPACE_def KERNBASE_def)
  have "succeeds (kmap_loop d (kmap s) ?s) (\<lambda>(r, t). r = d \<and> kmap_done d (kmap s) ?s zs t \<or> r = 0 \<and> kmap_failed d (kmap s) ?s zs t)"
    using n(6) by (intro kmap_loop_ok [OF n(3) l(1)]) simp_all
  then obtain r t where t: "setupkvm s = Inr (r, t)" and c: "r = d \<and> kmap_done d (kmap s) ?s zs t \<or> r = 0 \<and> kmap_failed d (kmap s) ?s zs t"
    unfolding e by (auto simp: succeeds_iff)
  have out: "page_at w ?s = page_at w s" if "good_page w s" "w \<notin> set xs" for w using n(9) that Cons by auto
  from c show ?thesis
  proof (elim disjE conjE)
    assume r: "r = d" and "kmap_done d (kmap s) ?s zs t"
    then obtain ys where y: "taken d ?s zs t ys" "table_set d t \<subseteq> kernel_tables" and m: "\<forall>va. mapped d va t = kernel_pte (kdata s) va"
      using ksub by (auto simp: kmap_done_def n(5,6) l(2) split: option.splits)
    have "table_pages d ?s = {d}" using n(4) by (auto simp: owns_def table_pages_def)
    then have "new_space s xs d t ys" using y(1) out Cons by (simp add: new_space_def taken_def moved_def n(4,7,8) good_page_cong [OF n(7)])
    then show ?thesis using t r n(2) y(2) m by auto
  next
    assume r: "r = 0" and f: "kmap_failed d (kmap s) ?s zs t"
    then obtain ys u where y: "kept_outside ?s t ys" "set ys = set zs \<union> {d}" and u: "taken d ?s zs u []" "table_set d u \<subseteq> kernel_tables" "\<forall>va < KERNBASE. mapped d va u = None"
      using ksub by (auto simp: kmap_failed_def n(4,5,6))
    have "upages d u = {}" using u(3) by (auto simp: upages_def)
    then have "card (owns d u) \<le> Suc (card (table_set d u))" using owns_card [of d u] by simp
    also have "\<dots> \<le> 65" using card_mono [OF kernel_tables_card(1) u(2)] kernel_tables_card(2) by simp
    finally have "card (set xs) \<le> 65" using u(1) Cons by (simp add: taken_def moved_def n(4))
    then have "length xs \<le> 65" using k by (simp add: kmem_ok_def free_list_def distinct_card)
    moreover have "kept_outside s t ys" using kept_outsideD [OF y(1)] out y(2) good_page_cong [OF n(7)] Cons n(7,8) by (simp add: kept_outside_def)
    ultimately show ?thesis using t r y(2) Cons by auto
  qed
qed

end
