(* ===== verification/ForkMem.thy ===== *)
theory ForkMem
  imports VmFork
begin

text \<open>
  The memory of a forked process: \<open>copyuvm\<close> maps at every address of the parent a page of its own with the same contents and permissions,
  next to the kernel, and touches nothing else; when it cannot, every page is free again.
\<close>

section \<open>Flags\<close>

lemma PTE_FLAGS_low: "take_bit 12 (PTE_FLAGS e) = PTE_FLAGS e"
  unfolding PTE_FLAGS_def mask12 by (rule bit_word_eqI) (auto simp: bit_simps)

lemma copied_entry:
  assumes "good_page m s" and "present e"
  shows "upage (V2P m OR PTE_FLAGS e OR PTE_P) = m" and "PTE_FLAGS (V2P m OR PTE_FLAGS e OR PTE_P) = PTE_FLAGS e"
proof -
  have al: "aligned (V2P m)" using aligned_V2P [OF good_page_aligned [OF assms(1)]] .
  have low: "take_bit 12 (PTE_FLAGS e OR PTE_P) = PTE_FLAGS e OR PTE_P" by (simp add: PTE_FLAGS_low PTE_P_def)
  show "upage (V2P m OR PTE_FLAGS e OR PTE_P) = m" using PTE_ADDR_OR [OF al low] by (simp add: upage_def)
  show "PTE_FLAGS (V2P m OR PTE_FLAGS e OR PTE_P) = PTE_FLAGS e"
    unfolding PTE_FLAGS_def mask12
  proof (rule bit_word_eqI)
    fix n
    assume "n < LENGTH(32)"
    then show "bit ((V2P m OR e AND mask 12 OR PTE_P) AND mask 12) n = bit (e AND mask 12) n"
      using aligned_bit [OF al, of n] assms(2) by (cases "n = 0") (auto simp: bit_simps PTE_P_def present_iff)
  qed
qed

section \<open>One page\<close>

text \<open>A free page with given contents is mapped below \<open>KERNBASE\<close>.\<close>

lemma taken_user_page:
  assumes o: "owned_ok d s (m # xs)" and a: "aligned a" "a < KERNBASE" and n: "mapped d a s = None" and len: "length pg = PGBYTES" and x: "upage x = m"
    and p: "map_post d a x (set_page m pg (s\<lparr>freelist := get32 (page_at m s) 0\<rparr>)) xs t ys" and k: "kdata t = kdata s"
  shows "taken d s (m # xs) t ys" and "mapped d va t = (if PGROUNDDOWN va = a then Some x else mapped d va s)" and "page_at m t = pg"
proof -
  let ?s = "set_page m pg (s\<lparr>freelist := get32 (page_at m s) 0\<rparr>)"
  note h = take_page_ok [OF owned_okD(1) [OF o] len]
  note q = p [unfolded map_post_def]
  have ke: "kend t = kend s" using q by simp
  note g1 = good_page_cong [OF h(8)] and gt = good_page_cong [OF ke]
  show m: "mapped d va t = (if PGROUNDDOWN va = a then Some x else mapped d va s)" for va using q h(3) by simp
  have tp: "table_pages d t \<subseteq> table_pages d s \<union> set xs" "set ys \<subseteq> set xs" "set ys \<union> table_pages d t = set xs \<union> table_pages d s"
    using q h(2) by auto
  have mt: "m \<notin> table_pages d t" "m \<notin> set ys" using h(6,7) tp by auto
  show "page_at m t = pg" using q mt(1) h(4) g1 by (simp add: page_at_set_page)
  have pg: "page_at w t = page_at w s" if "good_page w s" "w \<notin> set (m # xs) \<union> table_pages d s" for w
  proof -
    have "frame w \<noteq> frame m" using frame_inj [OF that(1) h(4)] that(2) by auto
    moreover have "w \<notin> table_pages d t" using that(2) tp(1) by auto
    ultimately show ?thesis using q that(1) g1 by (simp add: page_at_set_page)
  qed
  have other: "mapped d va s = Some e \<and> upage e \<noteq> m" if "va < KERNBASE" "mapped d va t = Some e" "PGROUNDDOWN va \<noteq> a" for va e
    using that m owned_okD(3) [OF o that(1), of e] by auto
  have here: "e = x" if "mapped d va t = Some e" "PGROUNDDOWN va = a" for va e using that m by simp
  have ow: "owned_ok d t ys"
    unfolding owned_ok_def gt ke
  proof (intro conjI allI impI)
    show "vm_ok d t ys" "KERNBASE < kend s" using q owned_okD(2) [OF o] by simp_all
  next
    fix va e
    assume e: "va < KERNBASE" "mapped d va t = Some e"
    have "good_page (upage e) s \<and> upage e \<notin> set ys \<and> upage e \<notin> table_pages d t"
    proof (cases "PGROUNDDOWN va = a")
      case True
      then show ?thesis using here [OF e(2)] h(4) mt x by simp
    next
      case False
      have "good_page (upage e) s \<and> upage e \<notin> set (m # xs) \<and> upage e \<notin> table_pages d s" using owned_okD(3) [OF o e(1)] other [OF e False] by blast
      then show ?thesis using tp(1,2) by auto
    qed
    then show "good_page (upage e) s" "upage e \<notin> set ys" "upage e \<notin> table_pages d t" by blast+
  next
    fix va vb e f
    assume e: "va < KERNBASE" "vb < KERNBASE" "mapped d va t = Some e" "mapped d vb t = Some f" "upage e = upage f"
    show "PGROUNDDOWN va = PGROUNDDOWN vb"
    proof (rule ccontr)
      assume ne: "PGROUNDDOWN va \<noteq> PGROUNDDOWN vb"
      then have "PGROUNDDOWN va \<noteq> a \<and> PGROUNDDOWN vb \<noteq> a" using here [OF e(3)] here [OF e(4)] other [OF e(1,3)] other [OF e(2,4)] e(5) x by metis
      then show False using other [OF e(1,3)] other [OF e(2,4)] owned_okD(4) [OF o e(1,2) _ _ e(5)] ne by blast
    qed
  qed
  have "upages d t = insert m (upages d s)"
  proof (intro equalityI subsetI)
    fix w
    assume "w \<in> upages d t"
    then obtain va e where e: "w = upage e" "va < KERNBASE" "mapped d va t = Some e" by (auto simp: upages_def)
    then show "w \<in> insert m (upages d s)" using here [OF e(3)] other [OF e(2,3)] upagesI [OF e(2)] x by (cases "PGROUNDDOWN va = a") auto
  next
    fix w
    assume w: "w \<in> insert m (upages d s)"
    have "mapped d a t = Some x" using m a(1) by simp
    then have "m \<in> upages d t" using upagesI [OF a(2)] x by blast
    moreover have "w \<in> upages d t" if w: "w \<in> upages d s"
    proof -
      obtain va e where e: "w = upage e" "va < KERNBASE" "mapped d va s = Some e" using w by (auto simp: upages_def)
      have "PGROUNDDOWN va \<noteq> a" using e(3) n mapped_page [of d va s] by auto
      then show ?thesis using e m upagesI [OF e(2), of d t e] by simp
    qed
    ultimately show "w \<in> upages d t" using w by blast
  qed
  then have "set ys \<union> owns d t = set (m # xs) \<union> owns d s" using tp(3) by (auto simp: owns_def)
  then show "taken d s (m # xs) t ys" unfolding taken_def moved_def using ow ke k tp pg by auto
qed

text \<open>Taking a page, filling it and mapping it, or running out of memory on the way.\<close>

lemma map_user_page:
  assumes o: "owned_ok d s (m # xs)" and a: "aligned a" "a < KERNBASE" and n: "mapped d a s = None" and len: "length pg = PGBYTES" and e: "present e"
  defines "s1 \<equiv> set_page m pg (s\<lparr>freelist := get32 (page_at m s) 0\<rparr>)" and "x \<equiv> V2P m OR PTE_FLAGS e OR PTE_P"
  shows "(\<exists>t ys. mappages d a PGSIZE (V2P m) (PTE_FLAGS e) s1 = Inr (0, t) \<and> taken d s (m # xs) t ys \<and> page_at m t = pg \<and>
      (\<forall>va. mapped d va t = (if PGROUNDDOWN va = a then Some x else mapped d va s)) \<and> table_set d t = insert (PDX a) (table_set d s)) \<or>
    xs = [] \<and> mappages d a PGSIZE (V2P m) (PTE_FLAGS e) s1 = Inr (-1, s1) \<and> succeeds (kfree m s1) (\<lambda>t. kept_outside s t [m])"
proof -
  note v = owned_okD(1) [OF o]
  note h = take_page_ok [OF v len, folded s1_def]
  have kd: "kdata s1 = kdata s" by (simp add: s1_def)
  have "table_set d s1 = table_set d s"
  proof -
    have "frame d \<noteq> frame m" using frame_inj [OF vm_okD(3) [OF v] h(4)] vm_okD(4) [OF v] by auto
    then have "entry (d, i) s1 = entry (d, i) s" for i by (simp add: s1_def entry_def page_at_set_page)
    then show ?thesis by (simp add: table_set_def has_table_def)
  qed
  note ts = this
  have n1: "mapped d a s1 = None" using n h(3) by simp
  from map_one_ok [OF h(1) a(1) n1, of "V2P m" "PTE_FLAGS e", folded x_def] show ?thesis
  proof (elim disjE exE conjE)
    fix t ys
    assume m: "mappages d a PGSIZE (V2P m) (PTE_FLAGS e) s1 = Inr (0, t)" and p: "map_post d a x s1 xs t ys"
    note m0 = m [unfolded mappages_one [OF a(1)]]
    have "kdata t = kdata s" using map_one_kdata [OF m0] kd by simp
    note u = taken_user_page [OF o a n len copied_entry(1) [OF h(4) e, folded x_def] p [unfolded s1_def] this]
    show ?thesis using m u map_one_tables [OF h(1) m0] ts by blast
  next
    assume xs: "xs = []" and m: "mappages d a PGSIZE (V2P m) (PTE_FLAGS e) s1 = Inr (-1, s1)"
    note v1 = h(1) [unfolded xs]
    have "kept_outside s1 s1 []" using vm_okD(1,2) [OF v1] by (simp add: kept_outside_def)
    from kfree_kept [OF this, of m] have k: "succeeds (kfree m s1) (\<lambda>t. kept_outside s1 t [m])" using h(4) good_page_cong [OF h(8)] by simp
    have "kept_outside s t [m]" if t: "kept_outside s1 t [m]" for t
    proof -
      have "page_at w s1 = page_at w s" if "good_page w s" "w \<noteq> m" for w
        using frame_inj [OF that(1) h(4)] that(2) by (auto simp: s1_def page_at_set_page)
      then show ?thesis using kept_outsideD [OF t] kd h(8) good_page_cong [OF h(8)] by (simp add: kept_outside_def)
    qed
    then have "succeeds (kfree m s1) (\<lambda>t. kept_outside s t [m])" by (rule succeeds_mono [OF k])
    then show ?thesis using xs m by blast
  qed
qed

section \<open>The loop\<close>

text \<open>The pages in \<open>D\<close> have been copied, and the new space \<open>d\<close> has nothing else below \<open>KERNBASE\<close>.\<close>

definition copy_inv :: "u32 \<Rightarrow> kmem \<Rightarrow> u32 list \<Rightarrow> u32 \<Rightarrow> kmem \<Rightarrow> u32 list \<Rightarrow> u32 set \<Rightarrow> bool" where
  "copy_inv p s0 xs0 d s xs D \<longleftrightarrow> new_space s0 xs0 d s xs \<and> table_set d s \<subseteq> kernel_tables \<union> PDX ` D \<and>
     (\<forall>va. KERNBASE \<le> va \<longrightarrow> mapped d va s = kernel_pte (kdata s0) va) \<and>
     (\<forall>va. va < KERNBASE \<longrightarrow> PGROUNDDOWN va \<notin> D \<longrightarrow> mapped d va s = None) \<and>
     (\<forall>va. va < KERNBASE \<longrightarrow> PGROUNDDOWN va \<in> D \<longrightarrow> (\<exists>e f. mapped p va s0 = Some e \<and> mapped d va s = Some f \<and> PTE_FLAGS f = PTE_FLAGS e \<and>
        page_at (upage f) s = page_at (upage e) s0))"

lemma new_spaceD:
  assumes "new_space s xs d t ys"
  shows "owned_ok d t ys" and "kend t = kend s" and "kdata t = kdata s" and "set ys \<union> owns d t = set xs"
    and "good_page w s \<Longrightarrow> w \<notin> set xs \<Longrightarrow> page_at w t = page_at w s"
  using assms unfolding new_space_def by blast+

lemma new_space_taken: "new_space s xs d t ys \<Longrightarrow> taken d t ys u zs \<Longrightarrow> new_space s xs d u zs"
  using good_page_cong [of t s] unfolding new_space_def taken_def moved_def owns_def by auto

lemma new_space_kept:
  assumes n: "new_space s0 xs0 d s xs" and k: "kept_outside s t ys" and y: "set ys = set xs \<union> owns d s"
  shows "kept_outside s0 t ys" and "set ys = set xs0"
  using kept_outsideD [OF k] new_spaceD [OF n] good_page_cong [OF new_spaceD(2) [OF n]] y by (auto simp: kept_outside_def)

text \<open>The parent is not disturbed.\<close>

lemma parent_kept:
  assumes p: "owned_ok p s0 xs0" and n: "new_space s0 xs0 d s xs"
  shows "mapped p va s = mapped p va s0" and "owned_ok p s xs" and "owns p s = owns p s0" and "has_table p j s = has_table p j s0"
    and "table_of p j s = table_of p j s0"
proof -
  note v = owned_okD(1) [OF new_spaceD(1) [OF n]]
  have "set xs \<subseteq> set xs0" using new_spaceD(4) [OF n] by blast
  note k = space_kept [OF p new_spaceD(2) [OF n] vm_okD(1) [OF v] this allI [OF vm_okD(2) [OF v]] new_spaceD(5) [OF n]]
  show "mapped p va s = mapped p va s0" "owned_ok p s xs" "has_table p j s = has_table p j s0" "table_of p j s = table_of p j s0" using k by auto
  show "owns p s = owns p s0" using k(2,3) by (simp add: owns_def)
qed

lemma mappedD: "mapped p va s = Some e \<Longrightarrow> has_table p (PDX va) s \<and> entry (table_of p (PDX va) s, PTX va) s = e \<and> present e"
  by (auto simp: mapped_def split: if_splits)

lemma copy_step:
  assumes p: "owned_ok p s0 xs0" and i: "copy_inv p s0 xs0 d s xs D" and a: "aligned a" "a < KERNBASE" "a \<notin> D" and e: "mapped p a s0 = Some e"
  shows "(\<exists>t ys. copyuvm_loop p d (a # as) s = copyuvm_loop p d as t \<and> copy_inv p s0 xs0 d t ys (insert a D)) \<or>
    (\<exists>t zs. copyuvm_loop p d (a # as) s = Inr (0, t) \<and> kept_outside s0 t zs \<and> set zs = set xs0 \<and> length xs \<le> 1)"
proof -
  note iv = i [unfolded copy_inv_def]
  have n: "new_space s0 xs0 d s xs" using iv by blast
  note nd = new_spaceD [OF n]
  note v = owned_okD(1) [OF nd(1)]
  note pk = parent_kept [OF p n]
  have es: "has_table p (PDX a) s" "entry (table_of p (PDX a) s, PTX a) s = e" "present e" using mappedD [of p a s e] e pk(1) by auto
  have un: "mapped d a s = None" using iv a by simp
  have src: "page_at (upage e) s = page_at (upage e) s0" using nd(5) owned_okD(3) [OF p a(2) e] by blast
  let ?pg = "page_at (upage e) s"
  have loop: "copyuvm_loop p d (a # as) s = (let (mem, s2) = kalloc s in
      if mem = 0 then bindE (freevm d s2) (\<lambda>s3. Inr (0, s3))
      else bindE (mappages d a PGSIZE (V2P mem) (PTE_FLAGS e) (set_page mem (page_at (upage e) s2) s2)) (\<lambda>(r, s3).
        if r < 0 then bindE (kfree mem s3) (\<lambda>s4. bindE (freevm d s4) (\<lambda>s5. Inr (0, s5))) else copyuvm_loop p d as s3))"
    unfolding upage_def by (simp add: walk_has [OF es(1)] es(2,3))
  show ?thesis
  proof (cases xs)
    case Nil
    obtain t zs where t: "freevm d s = Inr t" "kept_outside s t zs" "set zs = set xs \<union> owns d s" using freevm_ok [OF nd(1)] by (auto simp: succeeds_iff)
    have "copyuvm_loop p d (a # as) s = Inr (0, t)" using loop t(1) kalloc_empty vm_okD(1) [OF v] Nil by simp
    then show ?thesis using new_space_kept [OF n t(2,3)] Nil by auto
  next
    case (Cons m ys)
    note o = nd(1) [unfolded Cons]
    let ?s1 = "s\<lparr>freelist := get32 (page_at m s) 0\<rparr>"
    note h = take_page_ok [OF v [unfolded Cons] vm_okD(2) [OF v, of "upage e"]]
    from map_user_page [OF o a(1,2) un vm_okD(2) [OF v, of "upage e"] es(3)] show ?thesis
    proof (elim disjE exE conjE)
      fix t zs
      assume m: "mappages d a PGSIZE (V2P m) (PTE_FLAGS e) (set_page m ?pg ?s1) = Inr (0, t)" and tk: "taken d s (m # ys) t zs" and pm: "page_at m t = ?pg"
        and mp: "\<forall>va. mapped d va t = (if PGROUNDDOWN va = a then Some (V2P m OR PTE_FLAGS e OR PTE_P) else mapped d va s)"
        and ts: "table_set d t = insert (PDX a) (table_set d s)"
      have "copyuvm_loop p d (a # as) s = copyuvm_loop p d as t" using loop h(5,9) m by simp
      moreover have "copy_inv p s0 xs0 d t zs (insert a D)"
        unfolding copy_inv_def
      proof (intro conjI allI impI)
        show "new_space s0 xs0 d t zs" by (rule new_space_taken [OF n tk [folded Cons]])
        show "table_set d t \<subseteq> kernel_tables \<union> PDX ` insert a D" using iv ts by auto
      next
        fix va
        assume va: "KERNBASE \<le> va"
        then have "PGROUNDDOWN va \<noteq> a" using a(1,2) page_low [of KERNBASE va] by (auto simp: aligned_unat KERNBASE_def)
        then show "mapped d va t = kernel_pte (kdata s0) va" using iv mp va by simp
      next
        fix va
        assume "va < KERNBASE" "PGROUNDDOWN va \<notin> insert a D"
        then show "mapped d va t = None" using iv mp by simp
      next
        fix va
        assume va: "va < KERNBASE" "PGROUNDDOWN va \<in> insert a D"
        show "\<exists>e f. mapped p va s0 = Some e \<and> mapped d va t = Some f \<and> PTE_FLAGS f = PTE_FLAGS e \<and> page_at (upage f) t = page_at (upage e) s0"
        proof (cases "PGROUNDDOWN va = a")
          case True
          then have "mapped p va s0 = Some e" using e mapped_page [of p va s0] by simp
          then show ?thesis using True mp copied_entry [OF h(4) es(3)] pm src by auto
        next
          case False
          then obtain e' f where f: "mapped p va s0 = Some e'" "mapped d va s = Some f" "PTE_FLAGS f = PTE_FLAGS e'" "page_at (upage f) s = page_at (upage e') s0"
            using iv va by blast
          have "page_at (upage f) t = page_at (upage f) s" using tk owned_okD(3) [OF o va(1) f(2)] by (simp add: taken_def)
          then show ?thesis using False f mp by auto
        qed
      qed
      ultimately show ?thesis by blast
    next
      assume ys: "ys = []" and m: "mappages d a PGSIZE (V2P m) (PTE_FLAGS e) (set_page m ?pg ?s1) = Inr (-1, set_page m ?pg ?s1)"
        and "succeeds (kfree m (set_page m ?pg ?s1)) (\<lambda>t. kept_outside s t [m])"
      then obtain t where t: "kfree m (set_page m ?pg ?s1) = Inr t" "kept_outside s t [m]" by (auto simp: succeeds_iff)
      have xs: "xs = [m]" using Cons ys by simp
      note kd = kept_outsideD [OF t(2)]
      note sk = space_kept [OF nd(1) [unfolded xs] kd(2,1) order_refl allI [OF kd(4)] kd(5)]
      obtain u zs where u: "freevm d t = Inr u" "kept_outside t u zs" "set zs = set [m] \<union> owns d t"
        using freevm_ok [of d t "[m]"] sk(4) by (auto simp: succeeds_iff)
      have ow: "owns d t = owns d s" using sk(2,3) by (simp add: owns_def)
      have "kept_outside s u zs" by (rule kept_outside_trans [OF t(2) u(2)]) (simp add: u(3))
      moreover have "set zs = set xs \<union> owns d s" using u(3) ow xs by simp
      ultimately have "kept_outside s0 u zs" "set zs = set xs0" by (rule new_space_kept [OF n])+
      moreover have "copyuvm_loop p d (a # as) s = Inr (0, u)" using loop h(5,9) m t(1) u(1) by simp
      moreover have "length xs \<le> 1" by (simp add: xs)
      ultimately show ?thesis by blast
    qed
  qed
qed

lemma copy_inv_card:
  assumes i: "copy_inv p s0 xs0 d s xs D" and f: "finite D" and D: "\<forall>a \<in> D. aligned a \<and> a < KERNBASE" and dist: "distinct xs0"
  shows "length xs0 \<le> length xs + 65 + 2 * card D"
proof -
  note iv = i [unfolded copy_inv_def]
  have "upages d s \<subseteq> (\<lambda>a. upage (the (mapped d a s))) ` D"
  proof
    fix w
    assume "w \<in> upages d s"
    then obtain va e where e: "w = upage e" "va < KERNBASE" "mapped d va s = Some e" by (auto simp: upages_def)
    then have "PGROUNDDOWN va \<in> D" using iv by fastforce
    moreover have "w = upage (the (mapped d (PGROUNDDOWN va) s))" using e mapped_page [of d va s] by simp
    ultimately show "w \<in> (\<lambda>a. upage (the (mapped d a s))) ` D" by blast
  qed
  then have u: "finite (upages d s)" "card (upages d s) \<le> card D"
    using finite_subset [OF _ finite_imageI [OF f]] surj_card_le [OF f] by blast+
  have "card (table_set d s) \<le> card (kernel_tables \<union> PDX ` D)" using iv f kernel_tables_card(1) by (intro card_mono) simp_all
  also have "\<dots> \<le> 64 + card D" using card_Un_le [of kernel_tables "PDX ` D"] card_image_le [OF f, of PDX] kernel_tables_card(2) by linarith
  finally have "card (owns d s) \<le> 65 + 2 * card D" using owns_card [OF u(1)] u(2) by linarith
  moreover have "card (set xs \<union> owns d s) \<le> length xs + card (owns d s)" using card_Un_le [of "set xs" "owns d s"] card_length [of xs] by linarith
  moreover have "card (set xs \<union> owns d s) = length xs0" using iv dist by (simp add: new_space_def distinct_card)
  ultimately show ?thesis by linarith
qed

lemma copy_loop_ok:
  assumes p: "owned_ok p s0 xs0"
    and "copy_inv p s0 xs0 d s xs D" and "finite D" and "\<forall>a \<in> D. aligned a \<and> a < KERNBASE" and "distinct as" and "set as \<inter> D = {}"
    and "\<forall>a \<in> set as. aligned a \<and> a < KERNBASE \<and> mapped p a s0 \<noteq> None"
  shows "succeeds (copyuvm_loop p d as s) (\<lambda>(r, t). r = d \<and> (\<exists>ys. copy_inv p s0 xs0 d t ys (D \<union> set as)) \<or>
    r = 0 \<and> (\<exists>zs. kept_outside s0 t zs \<and> set zs = set xs0) \<and> length xs0 \<le> 65 + 2 * (card D + length as))"
  using assms(2-)
proof (induction as arbitrary: s xs D)
  case Nil
  then show ?case by auto
next
  case (Cons a as)
  obtain e where a: "aligned a" "a < KERNBASE" "a \<notin> D" "mapped p a s0 = Some e" using Cons.prems(5,6) by auto
  from copy_step [OF p Cons.prems(1) a, of as] show ?case
  proof (elim disjE exE conjE)
    fix t ys
    assume l: "copyuvm_loop p d (a # as) s = copyuvm_loop p d as t" and i: "copy_inv p s0 xs0 d t ys (insert a D)"
    have "succeeds (copyuvm_loop p d as t) (\<lambda>(r, t). r = d \<and> (\<exists>ys. copy_inv p s0 xs0 d t ys (insert a D \<union> set as)) \<or>
      r = 0 \<and> (\<exists>zs. kept_outside s0 t zs \<and> set zs = set xs0) \<and> length xs0 \<le> 65 + 2 * (card (insert a D) + length as))"
      using Cons.prems(2-) a by (intro Cons.IH [OF i]) auto
    moreover have "insert a D \<union> set as = D \<union> set (a # as)" by auto
    ultimately show ?thesis unfolding l using Cons.prems(2) a(3) by simp
  next
    fix t zs
    assume l: "copyuvm_loop p d (a # as) s = Inr (0, t)" and z: "kept_outside s0 t zs" "set zs = set xs0" and xs: "length xs \<le> 1"
    have "distinct xs0" using owned_okD(1) [OF p] by (simp add: vm_ok_def free_list_def)
    then have "length xs0 \<le> 65 + 2 * (card D + length (a # as))" using copy_inv_card [OF Cons.prems(1-3)] xs by simp
    then show ?thesis unfolding l using z by auto
  qed
qed

section \<open>The copy\<close>

text \<open>The space \<open>d\<close> is a copy of the first \<open>sz\<close> bytes of \<open>p\<close>: it is made of pages that were free; below \<open>sz\<close> it has at each address a page with the
  contents and the permissions of the parent's, so that the process reads the same bytes; it maps the kernel and nothing else. The parent, and every
  other page in use, is as before.\<close>

definition copy_of :: "u32 \<Rightarrow> u32 \<Rightarrow> kmem \<Rightarrow> u32 list \<Rightarrow> u32 \<Rightarrow> kmem \<Rightarrow> bool" where
  "copy_of p sz s xs d t \<longleftrightarrow>
    (\<exists>ys. kmem_ok t ys \<and> owned_ok d t ys \<and> owned_ok p t ys \<and> set ys \<union> owns d t = set xs) \<and> owns d t \<inter> owns p t = {} \<and>
    (\<forall>w. good_page w s \<longrightarrow> w \<notin> set xs \<longrightarrow> page_at w t = page_at w s) \<and> (\<forall>va. mapped p va t = mapped p va s) \<and>
    (\<forall>va. mapped d va t = None \<longleftrightarrow> (if va < KERNBASE then sz \<le> PGROUNDDOWN va else kernel_pte (kdata s) va = None)) \<and>
    (\<forall>va. KERNBASE \<le> va \<longrightarrow> mapped d va t = kernel_pte (kdata s) va) \<and>
    (\<forall>va e f. va < KERNBASE \<longrightarrow> mapped p va s = Some e \<longrightarrow> mapped d va t = Some f \<longrightarrow>
       PTE_FLAGS f = PTE_FLAGS e \<and> upage f \<noteq> upage e \<and> page_at (upage f) t = page_at (upage e) s) \<and>
    (\<forall>a. a < sz \<longrightarrow> ubyte d a t = ubyte p a s \<and> ubyte p a t = ubyte p a s)"

lemma user_pte_flags: "user_pte d va s = (case mapped d va s of Some e \<Rightarrow> if PTE_FLAGS e AND PTE_U \<noteq> 0 then Some e else None | None \<Rightarrow> None)"
proof -
  have "(0xFFF :: u32) AND PTE_U = PTE_U" by (simp add: PTE_U_def)
  then have "PTE_FLAGS e AND PTE_U = e AND PTE_U" for e by (simp add: PTE_FLAGS_def and.assoc)
  then show ?thesis by (cases "mapped d va s") (simp_all add: user_pte_def)
qed

lemma copy_of_inv:
  assumes k: "kmem_ok s xs" and p: "owned_ok p s xs" and sz: "sz \<le> KERNBASE" and m: "\<forall>va < sz. mapped p va s \<noteq> None"
    and i: "copy_inv p s xs d t ys (set (pages_upto 0 sz))"
  shows "copy_of p sz s xs d t"
proof -
  note iv = i [unfolded copy_inv_def]
  have n: "new_space s xs d t ys" using iv by blast
  note nd = new_spaceD [OF n] and pk = parent_kept [OF p n]
  have z: "aligned 0" "unat sz \<le> 0x80000000" using sz by (simp_all add: aligned_unat word_le_nat_alt KERNBASE_def)
  have inD: "PGROUNDDOWN va \<in> set (pages_upto 0 sz) \<longleftrightarrow> PGROUNDDOWN va < sz" for va
    using pages_upto_ok(3) [OF z] by (simp add: aligned_unat unat_PGROUNDDOWN)
  have copied: "\<exists>e f. mapped p va s = Some e \<and> mapped d va t = Some f \<and> PTE_FLAGS f = PTE_FLAGS e \<and> page_at (upage f) t = page_at (upage e) s"
    if "va < KERNBASE" "PGROUNDDOWN va < sz" for va using iv that inD by blast
  have none: "mapped d va t = None" if "va < KERNBASE" "sz \<le> PGROUNDDOWN va" for va using iv that inD by simp
  have own: "owns p s \<inter> set xs = {}" using owns_good [OF p] by blast
  have disj: "owns d t \<inter> owns p t = {}" using own nd(4) pk(3) by auto
  have low: "a < KERNBASE \<and> PGROUNDDOWN a < sz" if "a < sz" for a
  proof -
    have "PGROUNDDOWN a \<le> a" by (simp add: word_le_nat_alt unat_PGROUNDDOWN)
    then show ?thesis using that sz by auto
  qed
  have pg: "page_at (upage e) t = page_at (upage e) s" if "va < KERNBASE" "mapped p va s = Some e" for va e
    using nd(5) owned_okD(3) [OF p that] by blast
  have km: "kmem_ok t ys" using k nd(2,3) vm_okD(1,2) [OF owned_okD(1) [OF nd(1)]] by (simp add: kmem_ok_def)
  have sp: "\<exists>ys. kmem_ok t ys \<and> owned_ok d t ys \<and> owned_ok p t ys \<and> set ys \<union> owns d t = set xs" using km nd(1,4) pk(2) by blast
  have dom: "mapped d va t = None \<longleftrightarrow> (if va < KERNBASE then sz \<le> PGROUNDDOWN va else kernel_pte (kdata s) va = None)" for va
  proof (cases "va < KERNBASE")
    case True
    then show ?thesis using none [of va] copied [of va] by (cases "sz \<le> PGROUNDDOWN va") (auto simp: not_le)
  next
    case False
    have "mapped d va t = kernel_pte (kdata s) va" using iv False by (simp add: not_less)
    then show ?thesis unfolding if_not_P [OF False] by simp
  qed
  have same: "PTE_FLAGS f = PTE_FLAGS e \<and> upage f \<noteq> upage e \<and> page_at (upage f) t = page_at (upage e) s"
    if va: "va < KERNBASE" and e: "mapped p va s = Some e" and f: "mapped d va t = Some f" for va e f
  proof -
    have "PGROUNDDOWN va < sz" using dom [of va] va f by (auto simp: not_le)
    then have "PTE_FLAGS f = PTE_FLAGS e" "page_at (upage f) t = page_at (upage e) s" using copied [OF va] e f by auto
    moreover have "upage f \<in> owns d t" "upage e \<in> owns p t" using upagesI [OF va f] upagesI [OF va, of p t e] e pk(1) by (simp_all add: owns_def)
    ultimately show ?thesis using disj by auto
  qed
  have bytes: "ubyte d a t = ubyte p a s \<and> ubyte p a t = ubyte p a s" if a: "a < sz" for a
  proof -
    obtain e f where ef: "mapped p a s = Some e" "mapped d a t = Some f" "PTE_FLAGS f = PTE_FLAGS e" "page_at (upage f) t = page_at (upage e) s"
      using copied low [OF a] by blast
    have "mapped p a t = Some e" using ef(1) pk(1) by simp
    then show ?thesis using ef pg [OF _ ef(1)] low [OF a] by (simp add: ubyte_def user_pte_flags)
  qed
  show ?thesis unfolding copy_of_def using sp disj nd(5) pk(1) dom iv same bytes by blast
qed

lemma copyuvm_ok:
  assumes k: "kmem_ok s xs" and p: "owned_ok p s xs" and sz: "sz \<le> KERNBASE" and m: "\<forall>va < sz. mapped p va s \<noteq> None"
  shows "succeeds (copyuvm p sz s) (\<lambda>(d, t). d \<noteq> 0 \<and> copy_of p sz s xs d t \<or>
    d = 0 \<and> (\<exists>ys. kept_outside s t ys \<and> set ys = set xs) \<and> length xs \<le> 65 + 2 * length (pages_upto 0 sz))"
proof -
  have z: "aligned 0" "unat sz \<le> 0x80000000" using sz by (simp_all add: aligned_unat word_le_nat_alt KERNBASE_def)
  note pu = pages_upto_ok(2,3) [OF z]
  obtain d t where s1: "setupkvm s = Inr (d, t)" and c: "d = 0 \<and> length xs \<le> 65 \<and> (\<exists>ys. kept_outside s t ys \<and> set ys = set xs) \<or>
    d \<noteq> 0 \<and> table_set d t \<subseteq> kernel_tables \<and> (\<forall>va. mapped d va t = kernel_pte (kdata s) va) \<and> (\<exists>ys. new_space s xs d t ys)"
    using setupkvm_ok [OF k] by (auto simp: succeeds_iff)
  show ?thesis
  proof (cases "d = 0")
    case True
    then show ?thesis using c s1 by (auto simp: copyuvm_def)
  next
    case False
    then obtain ys where n: "new_space s xs d t ys" "table_set d t \<subseteq> kernel_tables" "\<forall>va. mapped d va t = kernel_pte (kdata s) va" using c by blast
    then have i: "copy_inv p s xs d t ys {}" by (simp add: copy_inv_def kernel_pte_def)
    have "\<forall>a \<in> set (pages_upto 0 sz). aligned a \<and> a < KERNBASE \<and> mapped p a s \<noteq> None" using pu(2) m sz by auto
    then have "succeeds (copyuvm_loop p d (pages_upto 0 sz) t) (\<lambda>(r, u). r = d \<and> (\<exists>ys. copy_inv p s xs d u ys ({} \<union> set (pages_upto 0 sz))) \<or>
      r = 0 \<and> (\<exists>zs. kept_outside s u zs \<and> set zs = set xs) \<and> length xs \<le> 65 + 2 * (card ({} :: u32 set) + length (pages_upto 0 sz)))"
      by (intro copy_loop_ok [OF p i]) (simp_all add: pu(1))
    then show ?thesis using s1 False copy_of_inv [OF k p sz m] by (auto simp: copyuvm_def succeeds_iff)
  qed
qed

text \<open>C14. \<open>copyuvm\<close>, which \<open>fork\<close> uses, is all or nothing. On a memory in order, for a parent whose first \<open>sz\<close> bytes are mapped, it never panics and never
  touches a page that is in use. Either it returns a new page directory that is a copy of the parent in fresh pages: the child reads the same bytes with the same
  permissions, shares no page with the parent, maps the kernel and nothing above \<open>sz\<close>; or it returns 0 and all the pages that were free are
  free again, and then there were at most 65 free pages, the directory and the tables of the kernel, and two for each page to copy.\<close>

theorem copyuvm_all_or_nothing:
  assumes k: "kmem_ok s xs" and p: "owned_ok p s xs" and sz: "sz \<le> KERNBASE" and m: "\<forall>va < sz. mapped p va s \<noteq> None"
  shows "succeeds (copyuvm p sz s) (\<lambda>(d, t). d \<noteq> 0 \<and> copy_of p sz s xs d t \<or>
    d = 0 \<and> (\<exists>ys. kept_outside s t ys \<and> set ys = set xs) \<and> length xs \<le> 65 + 2 * length (pages_upto 0 sz))"
  by (rule copyuvm_ok [OF assms])

text \<open>A memory with a process of one page and seventy free pages.\<close>

definition fork_page :: "nat \<Rightarrow> u32" where
  "fork_page k = (if k < 70 then 0x80203000 + of_nat k * 0x1000 else 0)"

definition fork_mem :: kmem where
  "fork_mem = \<lparr>freelist = fork_page 0,
     pmem = (\<lambda>f. if f = 0x200 then put32 0 0x201007 (replicate PGBYTES 0)
                 else if f = 0x201 then put32 0 0x202007 (replicate PGBYTES 0)
                 else if f = 0x202 then replicate PGBYTES 7
                 else put32 0 (fork_page (Suc f - 0x203)) (replicate PGBYTES 0)),
     kend = 0x80200000, kdata = 0x80108000\<rparr>"

lemma unat_fork_page:
  assumes "k < 70"
  shows "unat (fork_page k) = 0x80203000 + 0x1000 * k" and "frame (fork_page k) = 0x203 + k" and "good_page (fork_page k) fork_mem"
proof -
  have "fork_page k = of_nat (0x80203000 + 0x1000 * k)" using assms by (simp add: fork_page_def mult.commute)
  moreover have "0x80203000 + 0x1000 * k < 2 ^ 32" using assms by simp
  ultimately show u: "unat (fork_page k) = 0x80203000 + 0x1000 * k" by (simp only: unat_of_nat32)
  then have v: "unat (V2P (fork_page k)) = 0x203000 + 0x1000 * k" by (simp add: V2P_def KERNBASE_def unat_sub_if')
  then show "frame (fork_page k) = 0x203 + k" by (simp add: frame_def PGBYTES_def)
  have "aligned (fork_page k)" using u by (simp add: aligned_unat)
  then show "good_page (fork_page k) fork_mem"
    using u v assms by (auto simp: good_page_def aligned_mod fork_mem_def word_le_nat_alt word_less_nat_alt PHYSTOP_def)
qed

lemma fork_mem_free: "free_list fork_mem (map fork_page [0..<70])"
proof -
  have "threaded fork_mem (fork_page j) (map fork_page [j..<70])" if "j \<le> 70" for j
    using that
  proof (induction "70 - j" arbitrary: j)
    case 0
    then show ?case by (simp add: fork_page_def)
  next
    case (Suc n)
    then have j: "j < 70" by simp
    have "get32 (page_at (fork_page j) fork_mem) 0 = fork_page (Suc j)"
      unfolding page_at_def unat_fork_page(2) [OF j] by (simp add: fork_mem_def PGBYTES_def)
    moreover have "fork_page j \<noteq> 0" using unat_fork_page(1) [OF j] by auto
    ultimately show ?case using Suc j by (simp add: upt_rec [of j])
  qed
  from this [of 0] have "threaded fork_mem (freelist fork_mem) (map fork_page [0..<70])" by (simp add: fork_mem_def)
  moreover have "inj_on fork_page {..<70}"
  proof (rule inj_onI)
    fix i j
    assume ij: "i \<in> {..<70}" "j \<in> {..<70}" and "fork_page i = fork_page j"
    then have "unat (fork_page i) = unat (fork_page j)" by simp
    moreover have "i < 70" "j < 70" using ij by simp_all
    ultimately show "i = j" using unat_fork_page(1) by simp
  qed
  then have "distinct (map fork_page [0..<70])" by (simp add: distinct_map atLeast0LessThan)
  ultimately show ?thesis using unat_fork_page(3) by (simp add: free_list_def)
qed

lemma fork_mem_entries:
  assumes "i < 1024"
  shows "entry (0x80200000, i) fork_mem = (if i = 0 then 0x201007 else 0)" and "entry (0x80201000, i) fork_mem = (if i = 0 then 0x202007 else 0)"
proof -
  have "frame 0x80200000 = 0x200" "frame 0x80201000 = 0x201" by (simp_all add: frame_def V2P_def KERNBASE_def PGBYTES_def)
  then show "entry (0x80200000, i) fork_mem = (if i = 0 then 0x201007 else 0)" "entry (0x80201000, i) fork_mem = (if i = 0 then 0x202007 else 0)"
    using assms by (auto simp: entry_def page_at_def fork_mem_def PGBYTES_def get32_zero)
qed

lemma fork_mem_ok: "kmem_ok fork_mem (map fork_page [0..<70])" and fork_parent_ok: "owned_ok 0x80200000 fork_mem (map fork_page [0..<70])"
  and fork_mapped: "mapped 0x80200000 va fork_mem = (if PGROUNDDOWN va = 0 then Some 0x202007 else None)"
proof -
  have len: "\<forall>w. length (page_at w fork_mem) = PGBYTES" by (simp add: page_at_def fork_mem_def)
  have c: "kend fork_mem = 0x80200000" "kdata fork_mem = 0x80108000" by (simp_all add: fork_mem_def)
  show "kmem_ok fork_mem (map fork_page [0..<70])"
    using fork_mem_free len by (simp add: kmem_ok_def c KERNBASE_def EXTMEM_def PHYSTOP_def aligned_unat)
  have ht: "has_table 0x80200000 i fork_mem \<longleftrightarrow> i = 0" for i using fork_mem_entries(1) [of i] by (cases "i = 0") (auto simp: has_table_def present_iff bit_numeral_rec)
  have to: "table_of 0x80200000 0 fork_mem = 0x80201000" using fork_mem_entries(1) [of 0] by (simp add: table_of_def PTE_ADDR_def P2V_def KERNBASE_def)
  have tp: "table_pages 0x80200000 fork_mem = {0x80200000, 0x80201000}" using ht to by (auto simp: table_pages_def)
  have m: "mapped 0x80200000 va fork_mem = (if PGROUNDDOWN va = 0 then Some 0x202007 else None)" for va
    using page_index_eq [of 0 va] fork_mem_entries(2) [OF PTX_less, of va]
    by (auto simp: mapped_def ht to present_iff bit_numeral_rec aligned_unat PDX_def PTX_def)
  then show "mapped 0x80200000 va fork_mem = (if PGROUNDDOWN va = 0 then Some 0x202007 else None)" .
  have g: "good_page 0x80200000 fork_mem" "good_page 0x80201000 fork_mem" "good_page 0x80202000 fork_mem"
    by (simp_all add: good_page_def c V2P_def KERNBASE_def PHYSTOP_def PGSIZE_def)
  have nf: "v \<notin> set (map fork_page [0..<70])" if "unat v < 0x80203000" for v using that unat_fork_page(1) by auto
  have v: "vm_ok 0x80200000 fork_mem (map fork_page [0..<70])"
    unfolding vm_ok_def tp ht using fork_mem_free len g nf by (simp add: to)
  have "upage 0x202007 = 0x80202000" by (simp add: upage_def PTE_ADDR_def P2V_def KERNBASE_def)
  then show "owned_ok 0x80200000 fork_mem (map fork_page [0..<70])"
    unfolding owned_ok_def tp c using v g nf [of "0x80202000"] by (auto simp: m KERNBASE_def split: if_splits)
qed

theorem copyuvm_all_or_nothing_witness:
  "succeeds (copyuvm 0x80200000 4096 fork_mem) (\<lambda>(d, t). d \<noteq> 0 \<and> copy_of 0x80200000 4096 fork_mem (map fork_page [0..<70]) d t)"
proof -
  have "mapped 0x80200000 va fork_mem \<noteq> None" if "va < 4096" for va
    using that by (simp add: fork_mapped word_unat_eq_iff unat_PGROUNDDOWN word_less_nat_alt)
  moreover have "(4096 :: u32) \<le> KERNBASE" by (simp add: KERNBASE_def)
  moreover have "length (pages_upto 0 4096) = 1" by (simp add: pages_upto_def PGBYTES_def)
  ultimately show ?thesis
    using copyuvm_all_or_nothing [OF fork_mem_ok fork_parent_ok, of 4096] by (auto simp: succeeds_iff)
qed

end
