(* ===== verification/ForkVm.thy ===== *)
theory ForkVm
  imports ForkMem MlfqProps File
begin

text \<open>
  The process code on top of the memory and the open files. The handlers of the MLFQ kernel take the rest of the kernel as the record \<open>kops\<close>; here the
  record is filled with the models of the page allocator, the page tables, the file table and the inode cache, and \<open>fork\<close> is shown to
  copy the memory and to share the files of the parent.
\<close>

section \<open>What fork needs of the memory\<close>

text \<open>The calls of \<open>fork\<close> into a kernel whose memory is \<open>mem e\<close>.\<close>

locale fork_memory =
  fixes K :: "'e kops" and mem :: "'e \<Rightarrow> kmem"
  assumes kalloc_law: "op_kalloc K e = (v, e1) \<Longrightarrow> kalloc (mem e) = (v, mem e1)"
    and kfree_law: "kfree v (mem e) = Inr t \<Longrightarrow> \<exists>e1. op_kfree K v e = Inr e1 \<and> mem e1 = t"
    and copyuvm_law: "copyuvm d z (mem e) = Inr (r, t) \<Longrightarrow> \<exists>e1. op_copyuvm K d z e = Inr (r, e1) \<and> mem e1 = t"
begin

end

lemma freelist_irrelevant [simp]:
  "entry q (s\<lparr>freelist := v\<rparr>) = entry q s" "good_page w (s\<lparr>freelist := v\<rparr>) = good_page w s" "has_table d i (s\<lparr>freelist := v\<rparr>) = has_table d i s"
  "table_of d i (s\<lparr>freelist := v\<rparr>) = table_of d i s" "mapped d a (s\<lparr>freelist := v\<rparr>) = mapped d a s" "user_pte d a (s\<lparr>freelist := v\<rparr>) = user_pte d a s"
  "ubyte d a (s\<lparr>freelist := v\<rparr>) = ubyte d a s"
  by (simp_all add: entry_def good_page_def has_table_def table_of_def mapped_def user_pte_def ubyte_def cong: option.case_cong if_cong)

lemma copy_of_freelist: "copy_of p z (s\<lparr>freelist := v\<rparr>) xs d t = copy_of p z s xs d t"
  by (simp add: copy_of_def)

lemma kept_freelist: "kept_outside (s\<lparr>freelist := v\<rparr>) t ys = kept_outside s t ys"
  by (simp add: kept_outside_def)

text \<open>The kernel stack takes the first free page.\<close>

lemma stack_taken:
  assumes k: "kmem_ok s (v # xs)" and p: "owned_ok p s (v # xs)"
  defines "t \<equiv> s\<lparr>freelist := get32 (page_at v s) 0\<rparr>"
  shows "kalloc s = (v, t)" and "v \<noteq> 0" and "kmem_ok t xs" and "owned_ok p t xs" and "good_page v s" and "v \<notin> set xs"
proof -
  have f: "free_list s (v # xs)" using k by (simp add: kmem_ok_def)
  then show "kalloc s = (v, t)" "v \<noteq> 0" "good_page v s" "v \<notin> set xs" using kalloc_pop [OF f] by (auto simp: t_def free_list_def good_page_def)
  have ft: "free_list t xs" using kalloc_pop [OF f] by (simp add: t_def)
  then show "kmem_ok t xs" using k by (simp add: kmem_ok_def t_def)
  show "owned_ok p t xs"
    by (rule space_kept(4) [OF p _ ft]) (use k in \<open>auto simp: t_def kmem_ok_def\<close>)
qed

context fork_memory
begin

text \<open>The kernel stack and the address space of the child, or everything back as it was.\<close>

lemma stack_and_copy:
  assumes k: "kmem_ok (mem e) xs" and p: "owned_ok p (mem e) xs" and z: "z \<le> KERNBASE" and m: "\<forall>va < z. mapped p va (mem e) \<noteq> None"
  shows "(\<exists>ks e1 ys d e2. op_kalloc K e = (ks, e1) \<and> ks \<noteq> 0 \<and> xs = ks # ys \<and> op_copyuvm K p z e1 = Inr (d, e2) \<and> d \<noteq> 0 \<and> copy_of p z (mem e) ys d (mem e2)) \<or>
    length xs \<le> 66 + 2 * length (pages_upto 0 z) \<and>
      (\<exists>e1. op_kalloc K e = (0, e1) \<and> mem e1 = mem e \<or>
        (\<exists>ks e2 e3 ys. op_kalloc K e = (ks, e1) \<and> ks \<noteq> 0 \<and> op_copyuvm K p z e1 = Inr (0, e2) \<and> op_kfree K ks e2 = Inr e3 \<and>
           kept_outside (mem e) (mem e3) ys \<and> set ys = set xs))"
proof -
  obtain ks e1 where ka: "op_kalloc K e = (ks, e1)" by fastforce
  note kl = kalloc_law [OF ka]
  show ?thesis
  proof (cases xs)
    case Nil
    then have "kalloc (mem e) = (0, mem e)" using k by (simp add: kmem_ok_def kalloc_empty)
    then show ?thesis using ka kl Nil by auto
  next
    case (Cons v ys)
    note st = stack_taken [OF k [unfolded Cons] p [unfolded Cons]]
    have v: "ks = v" "mem e1 = (mem e)\<lparr>freelist := get32 (page_at v (mem e)) 0\<rparr>" using st(1) kl by simp_all
    have "\<forall>va < z. mapped p va (mem e1) \<noteq> None" using m v(2) by simp
    from copyuvm_ok [OF st(3,4) [folded v(2)] z this] obtain d t where c: "copyuvm p z (mem e1) = Inr (d, t)"
      and dt: "d \<noteq> 0 \<and> copy_of p z (mem e1) ys d t \<or> d = 0 \<and> (\<exists>zs. kept_outside (mem e1) t zs \<and> set zs = set ys) \<and> length ys \<le> 65 + 2 * length (pages_upto 0 z)"
      by (auto simp: succeeds_iff)
    obtain e2 where e2: "op_copyuvm K p z e1 = Inr (d, e2)" "mem e2 = t" using copyuvm_law [OF c] by blast
    from dt show ?thesis
    proof (elim disjE conjE exE)
      assume "d \<noteq> 0" "copy_of p z (mem e1) ys d t"
      then show ?thesis using ka e2 v st(2) Cons by (auto simp: copy_of_freelist)
    next
      fix zs
      assume d: "d = 0" and zs: "kept_outside (mem e1) t zs" "set zs = set ys" and len: "length ys \<le> 65 + 2 * length (pages_upto 0 z)"
      have "kept_outside (mem e) t zs" using zs(1) v(2) by (simp add: kept_freelist)
      moreover have "v \<notin> set zs" using zs(2) st(6) by simp
      ultimately obtain u where u: "kfree v t = Inr u" "kept_outside (mem e) u (v # zs)" using kfree_kept [OF _ st(5)] by (auto simp: succeeds_iff)
      obtain e3 where e3: "op_kfree K v e2 = Inr e3" "mem e3 = u" using kfree_law [of v e2] u(1) e2(2) by blast
      have "kept_outside (mem e) (mem e3) (v # zs) \<and> set (v # zs) = set xs" using u(2) e3(2) zs(2) Cons by simp
      moreover have "length xs \<le> 66 + 2 * length (pages_upto 0 z)" using len Cons by simp
      ultimately show ?thesis using ka v(1) st(2) e2(1) d e3(1) by blast
    qed
  qed
qed

end

section \<open>The kernel below the processes\<close>

definition on_km :: "(kmem \<Rightarrow> kerr + 'a \<times> kmem) \<Rightarrow> xst \<Rightarrow> kerr + 'a \<times> xst" where
  "on_km g s = bindE (g (km s)) (\<lambda>(r, k). Inr (r, s\<lparr>km := k\<rparr>))"

definition on_kmem :: "(kmem \<Rightarrow> kerr + kmem) \<Rightarrow> xst \<Rightarrow> kerr + xst" where
  "on_kmem g s = bindE (g (km s)) (\<lambda>k. Inr (s\<lparr>km := k\<rparr>))"

definition idup_x :: "ptr \<Rightarrow> xst \<Rightarrow> xst" where
  "idup_x p s = (case p of None \<Rightarrow> s | Some ip \<Rightarrow> s\<lparr>xfs := idup ip (xfs s)\<rparr>)"

text \<open>The operations on the memory, on open files and on inodes that the process code calls are those of the models; the program \<open>init\<close> of the first process, closing a file,
  dropping an inode, the look-up of the root directory, stores through user pointers and the addresses of the linker are those of \<open>F\<close>.\<close>

definition kernel_ops :: "u8 list \<Rightarrow> xst kops \<Rightarrow> xst kops" where
  "kernel_ops init F = F\<lparr>
     op_kalloc := (\<lambda>s. let (v, k) = kalloc (km s) in (v, s\<lparr>km := k\<rparr>)),
     op_kfree := (\<lambda>v. on_kmem (kfree v)),
     op_copyuvm := (\<lambda>d z. on_km (copyuvm d z)),
     op_freevm := (\<lambda>d. on_kmem (freevm d)),
     op_setupkvm := on_km setupkvm,
     op_inituvm := (\<lambda>d. on_kmem (inituvm d init)),
     op_allocuvm := (\<lambda>d a b. on_km (allocuvm d a b)),
     op_deallocuvm := (\<lambda>d a b. on_km (deallocuvm d a b)),
     op_clearpteu := (\<lambda>d a. on_kmem (clearpteu d a)),
     op_filedup := filedup,
     op_idup := idup_x\<rparr>"

interpretation fork_kernel: fork_memory "kernel_ops init F" km
proof
  show "op_kalloc (kernel_ops init F) e = (v, e1) \<Longrightarrow> kalloc (km e) = (v, km e1)" for e v e1
    by (auto simp: kernel_ops_def split: prod.splits)
  show "kfree v (km e) = Inr t \<Longrightarrow> \<exists>e1. op_kfree (kernel_ops init F) v e = Inr e1 \<and> km e1 = t" for v e t
    by (simp add: kernel_ops_def on_kmem_def)
  show "copyuvm d z (km e) = Inr (r, t) \<Longrightarrow> \<exists>e1. op_copyuvm (kernel_ops init F) d z e = Inr (r, e1) \<and> km e1 = t" for d z e r t
    by (simp add: kernel_ops_def on_km_def)
qed

section \<open>Open files\<close>

text \<open>Every descriptor of the parent adds one reference; nothing else of the file table changes.\<close>

definition refs_added :: "ptr list \<Rightarrow> xst \<Rightarrow> xst \<Rightarrow> bool" where
  "refs_added fs s t \<longleftrightarrow> (\<forall>g. ftable t g = (ftable s g)\<lparr>f_ref := f_ref (ftable s g) + int (count_list fs (Some g))\<rparr>)"

lemma dup_files_ok:
  assumes "op_filedup K = filedup" and "length ns = length fs" and "\<forall>f. Some f \<in> set fs \<longrightarrow> 1 \<le> f_ref (ftable s f)"
  shows "succeeds (dup_files K fs ns s) (\<lambda>(r, t). r = map2 (\<lambda>f n. if f = None then n else f) fs ns \<and> km t = km s \<and> refs_added fs s t)"
  using assms(2,3)
proof (induction fs arbitrary: ns s)
  case Nil
  then show ?case by (simp add: refs_added_def)
next
  case (Cons f fs)
  then obtain n ns' where ns: "ns = n # ns'" "length ns' = length fs" by (cases ns) auto
  show ?case
  proof (cases f)
    case None
    then show ?thesis using Cons.IH [OF ns(2), of s] Cons.prems(2) ns(1) by (auto simp: succeeds_iff refs_added_def)
  next
    case (Some g)
    let ?s = "upd_f g (\<lambda>x. x\<lparr>f_ref := f_ref x + 1\<rparr>) s"
    have d: "filedup g s = Inr ?s" using Cons.prems(2) Some by (auto simp: filedup_def not_less)
    have "\<forall>h. Some h \<in> set fs \<longrightarrow> 1 \<le> f_ref (ftable ?s h)" using Cons.prems(2) by (auto simp: upd_f_def)
    from Cons.IH [OF ns(2) this] obtain r t where t: "dup_files K fs ns' ?s = Inr (r, t)" "r = map2 (\<lambda>f n. if f = None then n else f) fs ns'" "km t = km ?s" "refs_added fs ?s t"
      by (auto simp: succeeds_iff)
    have "refs_added (f # fs) s t" using t(4) Some by (auto simp: refs_added_def upd_f_def)
    then show ?thesis using d t Some ns(1) assms(1) by (simp add: upd_f_def)
  qed
qed

section \<open>Fork\<close>

text \<open>What the child \<open>np\<close> of \<open>p\<close> is after \<open>fork\<close>.\<close>

definition forked :: "nat \<Rightarrow> nat \<Rightarrow> u32 list \<Rightarrow> xst mkst \<Rightarrow> xst mkst \<Rightarrow> bool" where
  "forked p np xs s t \<longleftrightarrow>
    (let pa = procs (m s) p; ch = procs (m t) np in
      state (procs (m s) np) = UNUSED \<and> state ch = RUNNABLE \<and> pid ch = nextpid (m s) \<and> parent ch = Some p \<and> sz ch = sz pa \<and>
      tf ch = (tf pa)\<lparr>tf_eax := 0\<rparr> \<and> cwd ch = cwd pa \<and> ofile ch = map2 (\<lambda>f n. if f = None then n else f) (ofile pa) (ofile (procs (m s) np)) \<and>
      refs_added (ofile pa) (env s) (env t) \<and>
      (\<exists>ys. xs = kstack ch # ys \<and> copy_of (pgdir pa) (sz pa) (km (env s)) ys (pgdir ch) (km (env t))))"

text \<open>C13. \<open>fork\<close> on the memory and the files of the kernel. From a consistent process table and a memory in order, with the parent's memory mapped below its
  size and its descriptors open, \<open>fork\<close> always returns. Either it returns the pid of a new runnable process whose memory is a copy of the parent's in pages that
  were free, whose kernel stack is another free page, and whose descriptors each hold one more reference to the parent's files;
  or it returns -1, every process is in the state it was in, no reference count has changed and exactly the pages that were free are free. It fails only if
  there is no unused slot or the free pages do not suffice.\<close>

theorem fork_copies_memory:
  assumes inv: "kinv s" and run: "runs s c = Some p"
    and k: "kmem_ok (km (env s)) xs" and o: "owned_ok (pgdir (procs (m s) p)) (km (env s)) xs" and z: "sz (procs (m s) p) \<le> KERNBASE"
    and mp: "\<forall>va < sz (procs (m s) p). mapped (pgdir (procs (m s) p)) va (km (env s)) \<noteq> None"
    and fd: "\<forall>f. Some f \<in> set (ofile (procs (m s) p)) \<longrightarrow> 1 \<le> f_ref (ftable (env s) f)" and len: "\<forall>i. length (ofile (procs (m s) i)) = NOFILE"
  shows "succeeds (fork (kernel_ops init F) c s) (\<lambda>(n, t). kinv t \<and> runs t = runs s \<and>
    (n = nextpid (m s) \<and> (\<exists>np. forked p np xs s t) \<or>
     n = -1 \<and> (\<forall>i. state (procs (m t) i) = state (procs (m s) i)) \<and> ftable (env t) = ftable (env s) \<and>
       (\<exists>ys. kept_outside (km (env s)) (km (env t)) ys \<and> set ys = set xs) \<and>
       (Product_Type.fst (alloc_slot (m s)) = None \<or> length xs \<le> 66 + 2 * length (pages_upto 0 (sz (procs (m s) p))))))"
proof -
  let ?K = "kernel_ops init F"
  let ?pa = "procs (m s) p"
  obtain A where A: "placed (m s) A" using inv by (auto simp: kinv_def)
  have same: "kept_outside (km (env s)) (km (env s)) xs" using k by (simp add: kept_outside_def kmem_ok_def)
  obtain r m1 where al: "alloc_slot (m s) = (r, m1)" by fastforce
  note sc = fork_kernel.stack_and_copy [OF k o z mp, where init = init and F = F]
  show ?thesis
  proof (cases r)
    case None
    then show ?thesis using fork_failure [OF inv run, of ?K] al same by (auto elim!: succeeds_mono)
  next
    case (Some np)
    note fr = alloc_slot_fresh [OF A al [unfolded Some]]
    from sc show ?thesis
    proof (elim disjE exE conjE)
      fix ks e1 ys d e2
      assume ka: "op_kalloc ?K (env s) = (ks, e1)" "ks \<noteq> 0" and xs: "xs = ks # ys"
        and cu: "op_copyuvm ?K (pgdir ?pa) (sz ?pa) e1 = Inr (d, e2)" "d \<noteq> 0" and cp: "copy_of (pgdir ?pa) (sz ?pa) (km (env s)) ys d (km e2)"
      have ft: "ftable e2 = ftable (env s)" using ka(1) cu(1) by (auto simp: kernel_ops_def on_km_def split: prod.splits)
      have "op_filedup ?K = filedup" by (simp add: kernel_ops_def)
      then have "succeeds (dup_files ?K (ofile ?pa) (ofile (procs (m s) np)) e2) (\<lambda>(r, t). r = map2 (\<lambda>f n. if f = None then n else f) (ofile ?pa) (ofile (procs (m s) np)) \<and>
          km t = km e2 \<and> refs_added (ofile ?pa) e2 t)"
        using fd len ft by (intro dup_files_ok) simp_all
      then obtain fs e3 where df: "dup_files ?K (ofile ?pa) (ofile (procs (m s) np)) e2 = Inr (fs, e3)"
        and e3: "fs = map2 (\<lambda>f n. if f = None then n else f) (ofile ?pa) (ofile (procs (m s) np))" "km e3 = km e2" "refs_added (ofile ?pa) e2 e3" by (auto simp: succeeds_iff)
      have idx: "km (op_idup ?K i e3) = km e2" "ftable (op_idup ?K i e3) = ftable e3" for i using e3(2) by (auto simp: kernel_ops_def idup_x_def split: option.splits)
      from fork_child [OF inv run al [unfolded Some] ka cu df] obtain t where t: "fork ?K c s = Inr (nextpid (m s), t)" "kinv t" "runs t = runs s"
        "env t = op_idup ?K (cwd ?pa) e3" and ch: "state (procs (m t) np) = RUNNABLE" "pid (procs (m t) np) = nextpid (m s)" "parent (procs (m t) np) = Some p"
        "sz (procs (m t) np) = sz ?pa" "pgdir (procs (m t) np) = d" "tf (procs (m t) np) = (tf ?pa)\<lparr>tf_eax := 0\<rparr>" "ofile (procs (m t) np) = fs"
        "cwd (procs (m t) np) = cwd ?pa" "kstack (procs (m t) np) = ks"
        unfolding Let_def by (auto simp: succeeds_iff)
      have "forked p np xs s t"
        unfolding forked_def Let_def ch t(4) using fr(2) e3 idx ft cp xs by (simp add: refs_added_def)
      then show ?thesis using t(1-3) by auto
    next
      fix e1
      assume len: "length xs \<le> 66 + 2 * length (pages_upto 0 (sz ?pa))" and ka: "op_kalloc ?K (env s) = (0, e1)" "km e1 = km (env s)"
      have "ftable e1 = ftable (env s)" using ka(1) by (auto simp: kernel_ops_def split: prod.splits)
      then show ?thesis using fork_failure [OF inv run, of ?K] al Some ka same len by (auto elim!: succeeds_mono)
    next
      fix e1 ks e2 e3 ys
      assume len: "length xs \<le> 66 + 2 * length (pages_upto 0 (sz ?pa))" and ka: "op_kalloc ?K (env s) = (ks, e1)" "ks \<noteq> 0"
        and cu: "op_copyuvm ?K (pgdir ?pa) (sz ?pa) e1 = Inr (0, e2)" and kf: "op_kfree ?K ks e2 = Inr e3" and ys: "kept_outside (km (env s)) (km e3) ys" "set ys = set xs"
      have "ftable e3 = ftable (env s)" using ka(1) cu kf by (auto simp: kernel_ops_def on_km_def on_kmem_def bindE_Inr_iff split: prod.splits)
      then show ?thesis using fork_failure [OF inv run, of ?K] al Some ka cu kf ys len by (auto elim!: succeeds_mono)
    qed
  qed
qed

text \<open>The process of \<open>fork_mem\<close> runs on processor 0.\<close>

definition fork_kst :: "xst \<Rightarrow> xst mkst" where
  "fork_kst x = upd_p 0 (\<lambda>pr. pr\<lparr>pgdir := 0x80200000, sz := 4096\<rparr>) (demo_kst (x\<lparr>km := fork_mem\<rparr>))"

theorem fork_copies_memory_witness:
  "\<forall>x F. succeeds (fork (kernel_ops [] F) 0 (fork_kst x)) (\<lambda>(n, t). n = 6 \<and> (\<exists>np. forked 0 np (map fork_page [0..<70]) (fork_kst x) t))"
proof (intro allI)
  fix x F
  let ?f = "\<lambda>pr :: proc. pr\<lparr>pgdir := 0x80200000, sz := 4096\<rparr>"
  let ?s = "fork_kst x"
  have inv: "kinv ?s" unfolding fork_kst_def by (rule private_kinv [OF demo_kst_kinv]) (simp add: inert_def)
  have run: "runs ?s 0 = Some 0" and m: "m ?s = upd_proc 0 ?f demo" and e: "env ?s = x\<lparr>km := fork_mem\<rparr>" by (simp_all add: fork_kst_def demo_kst_def upd_p_def)
  have pr: "pgdir (procs (m ?s) 0) = 0x80200000" "sz (procs (m ?s) 0) = 4096" "km (env ?s) = fork_mem" "nextpid (m ?s) = 6" by (simp_all add: m e demo_def)
  have ofl: "ofile (procs (m ?s) i) = replicate NOFILE None" for i by (simp add: m demo_proc_def zero_proc_def)
  have pl: "placed (m ?s) demo_queues" unfolding m by (rule placed_upd_inert [OF demo_placed]) simp_all
  obtain r m1 where r: "alloc_slot (m ?s) = (r, m1)" by fastforce
  then have al: "Product_Type.fst (alloc_slot (m ?s)) \<noteq> None" using alloc_slot_placed [OF pl] by (cases r) auto
  have mp: "\<forall>va < 4096. mapped 0x80200000 va fork_mem \<noteq> None" by (simp add: fork_mapped word_unat_eq_iff unat_PGROUNDDOWN word_less_nat_alt)
  have z: "(4096 :: u32) \<le> KERNBASE" by (simp add: KERNBASE_def)
  have len: "\<not> length (map fork_page [0..<70]) \<le> 66 + 2 * length (pages_upto 0 4096)" by (simp add: pages_upto_def PGBYTES_def)
  have "succeeds (fork (kernel_ops [] F) 0 ?s) (\<lambda>(n, t). kinv t \<and> runs t = runs ?s \<and>
    (n = nextpid (m ?s) \<and> (\<exists>np. forked 0 np (map fork_page [0..<70]) ?s t) \<or>
     n = -1 \<and> (\<forall>i. state (procs (m t) i) = state (procs (m ?s) i)) \<and> ftable (env t) = ftable (env ?s) \<and>
       (\<exists>ys. kept_outside (km (env ?s)) (km (env t)) ys \<and> set ys = set (map fork_page [0..<70])) \<and>
       (Product_Type.fst (alloc_slot (m ?s)) = None \<or> length (map fork_page [0..<70]) \<le> 66 + 2 * length (pages_upto 0 (sz (procs (m ?s) 0))))))"
    by (rule fork_copies_memory [OF inv run]) (simp_all add: pr z mp fork_mem_ok fork_parent_ok ofl)
  then show "succeeds (fork (kernel_ops [] F) 0 ?s) (\<lambda>(n, t). n = 6 \<and> (\<exists>np. forked 0 np (map fork_page [0..<70]) ?s t))"
    by (rule succeeds_mono) (use al len pr in auto)
qed

end
