(* ===== verification/Mkfs.thy ===== *)
theory Mkfs
  imports Fs
begin

text \<open>
  The program that builds the file system image on the host (\<^verbatim>\<open>mkfs.c\<close>). The image is the list of its blocks; the files to put on it
  are given by name and contents. A failed \<^verbatim>\<open>assert\<close> and the \<^verbatim>\<open>exit(1)\<close> after a read past the end of the image are results \<open>Panic\<close>. The host is
  little-endian, and its other input and output succeeds; the messages are left out. Sector numbers are far from the wrap of \<^verbatim>\<open>sec * BSIZE\<close>.
\<close>

definition NINODES :: nat where "NINODES = 200"
definition nbitmap :: nat where "nbitmap = FSSIZE div (BSIZE * 8) + 1"
definition ninodeblocks :: nat where "ninodeblocks = NINODES div IPB + 1"
definition nlog :: nat where "nlog = LOGSIZE"
definition nmeta :: nat where "nmeta = 2 + nlog + ninodeblocks + nbitmap"
definition nblocks :: nat where "nblocks = FSSIZE - nmeta"
definition zeroes :: block where "zeroes = replicate BSIZE 0"

record mkfs_st =
  img :: "block list"
  mk_sb :: superblock
  freeinode :: nat
  freeblock :: nat

text \<open>Conversion to the byte order of the disk.\<close>

definition xshort :: "16 word \<Rightarrow> 16 word" where
  "xshort x = get16 [ucast x, ucast (drop_bit 8 x)] 0"

definition xint :: "u32 \<Rightarrow> u32" where
  "xint x = get32 [byte_of 0 x, byte_of 1 x, byte_of 2 x, byte_of 3 x] 0"

text \<open>A write past the end of the image makes it longer.\<close>

definition wsect :: "nat \<Rightarrow> block \<Rightarrow> mkfs_st \<Rightarrow> mkfs_st" where
  "wsect sec buf s =
    s\<lparr>img := (if sec < length (img s) then (img s)[sec := buf] else img s @ replicate (sec - length (img s)) zeroes @ [buf])\<rparr>"

definition rsect :: "nat \<Rightarrow> mkfs_st \<Rightarrow> kerr + block" where
  "rsect sec s = (if sec < length (img s) then Inr (img s ! sec) else Inl (Panic ''read''))"

definition winode :: "nat \<Rightarrow> dinode \<Rightarrow> mkfs_st \<Rightarrow> kerr + mkfs_st" where
  "winode inum ip s =
    (let bn = IBLOCK inum (mk_sb s) in
     bindE (rsect bn s) (\<lambda>buf. Inr (wsect bn (put_dinode (dpos inum) ip buf) s)))"

definition rinode :: "nat \<Rightarrow> mkfs_st \<Rightarrow> kerr + dinode" where
  "rinode inum s = bindE (rsect (IBLOCK inum (mk_sb s)) s) (\<lambda>buf. Inr (get_dinode buf (dpos inum)))"

definition mkfs_ialloc :: "16 word \<Rightarrow> mkfs_st \<Rightarrow> kerr + nat \<times> mkfs_st" where
  "mkfs_ialloc ty s =
    (let inum = freeinode s;
         din = \<lparr>di_type = xshort ty, di_major = 0, di_minor = 0, di_nlink = xshort 1, di_size = xint 0, di_addrs = replicate (NDIRECT + 1) 0\<rparr>
     in bindE (winode inum din (s\<lparr>freeinode := freeinode s + 1\<rparr>)) (\<lambda>s1. Inr (inum, s1)))"

definition mkfs_balloc :: "nat \<Rightarrow> mkfs_st \<Rightarrow> kerr + mkfs_st" where
  "mkfs_balloc used s =
    (if \<not> used < BSIZE * 8 then Inl (Panic ''used < BSIZE*8'')
     else Inr (wsect (unat (sb_bmapstart (mk_sb s))) (fold set_used [0..<used] zeroes) s))"

text \<open>The address in slot \<open>i\<close> of the inode, with a fresh block if there is none yet.\<close>

definition fill_addr :: "nat \<Rightarrow> dinode \<Rightarrow> mkfs_st \<Rightarrow> dinode \<times> mkfs_st" where
  "fill_addr i din s =
    (if xint (di_addrs din ! i) = 0
     then (din\<lparr>di_addrs := (di_addrs din)[i := xint (of_nat (freeblock s))]\<rparr>, s\<lparr>freeblock := freeblock s + 1\<rparr>)
     else (din, s))"

text \<open>The block that holds block \<open>fbn\<close> of the file.\<close>

definition file_block :: "nat \<Rightarrow> dinode \<Rightarrow> mkfs_st \<Rightarrow> kerr + nat \<times> dinode \<times> mkfs_st" where
  "file_block fbn din s =
    (if fbn < NDIRECT then
       let (din1, s1) = fill_addr fbn din s in Inr (unat (xint (di_addrs din1 ! fbn)), din1, s1)
     else
       let (din1, s1) = fill_addr NDIRECT din s; ib = unat (xint (di_addrs din1 ! NDIRECT)); pos = 4 * (fbn - NDIRECT) in
       bindE (rsect ib s1) (\<lambda>indirect.
         if get32 indirect pos = 0 then
           let indirect1 = put32 pos (xint (of_nat (freeblock s1))) indirect
           in Inr (unat (xint (get32 indirect1 pos)), din1, wsect ib indirect1 (s1\<lparr>freeblock := freeblock s1 + 1\<rparr>))
         else Inr (unat (xint (get32 indirect pos)), din1, s1)))"

lemma room_in_block: "off < (off div BSIZE + 1) * BSIZE"
  using dividend_less_times_div [of BSIZE off] by (simp add: BSIZE_def mult.commute)

function iappend_loop :: "dinode \<Rightarrow> nat \<Rightarrow> u8 list \<Rightarrow> mkfs_st \<Rightarrow> kerr + dinode \<times> nat \<times> mkfs_st" where
  "iappend_loop din off p s =
    (if p = [] then Inr (din, off, s)
     else
       let fbn = off div BSIZE in
       if \<not> fbn < MAXFILE then Inl (Panic ''fbn < MAXFILE'')
       else
         bindE (file_block fbn din s) (\<lambda>(x, din1, s1).
           let n1 = min (length p) ((fbn + 1) * BSIZE - off); o1 = off - fbn * BSIZE in
           bindE (rsect x s1) (\<lambda>buf.
             iappend_loop din1 (off + n1) (drop n1 p) (wsect x (take o1 buf @ take n1 p @ drop (o1 + n1) buf) s1))))"
  by pat_completeness auto
termination
  by (relation "measure (\<lambda>(din, off, p, s). length p)") (use room_in_block in \<open>auto simp: min_def\<close>)

declare iappend_loop.simps [simp del]

definition iappend :: "nat \<Rightarrow> u8 list \<Rightarrow> mkfs_st \<Rightarrow> kerr + mkfs_st" where
  "iappend inum p s =
    bindE (rinode inum s) (\<lambda>din.
    bindE (iappend_loop din (unat (xint (di_size din))) p s) (\<lambda>(din1, off, s1).
    winode inum (din1\<lparr>di_size := xint (of_nat off)\<rparr>) s1))"

text \<open>A directory entry: \<^verbatim>\<open>bzero\<close> and \<^verbatim>\<open>strncpy\<close> pad the name with zeros, and cut it after \<open>DIRSIZ\<close> bytes.\<close>

definition mkfs_dirent :: "nat \<Rightarrow> u8 list \<Rightarrow> u8 list" where
  "mkfs_dirent inum name = dirent_bytes \<lparr>de_inum = xshort (of_nat inum), de_name = take DIRSIZ (name @ replicate DIRSIZ 0)\<rparr>"

text \<open>The loop that copies the file in pieces of \<open>BSIZE\<close> bytes.\<close>

function copy_file :: "nat \<Rightarrow> u8 list \<Rightarrow> mkfs_st \<Rightarrow> kerr + mkfs_st" where
  "copy_file inum xs s =
    (if xs = [] then Inr s else bindE (iappend inum (take BSIZE xs) s) (copy_file inum (drop BSIZE xs)))"
  by pat_completeness auto
termination
  by (relation "measure (\<lambda>(inum, xs, s). length xs)") (auto simp: BSIZE_def)

declare copy_file.simps [simp del]

text \<open>One file: a name with a slash fails the assertion; a leading \<^verbatim>\<open>_\<close> is dropped.\<close>

definition image_name :: "u8 list \<Rightarrow> u8 list" where
  "image_name n = (if n \<noteq> [] \<and> hd n = 95 then tl n else n)"

definition add_file :: "nat \<Rightarrow> u8 list \<times> u8 list \<Rightarrow> mkfs_st \<Rightarrow> kerr + mkfs_st" where
  "add_file rootino f s =
    (let (n, xs) = f in
     if 47 \<in> set n then Inl (Panic ''index(argv[i], '/') == 0'')
     else
       bindE (mkfs_ialloc T_FILE s) (\<lambda>(inum, s1).
       bindE (iappend rootino (mkfs_dirent inum (image_name n)) s1) (\<lambda>s2.
       copy_file inum xs s2)))"

definition mkfs_sb :: superblock where
  "mkfs_sb = \<lparr>sb_size = xint (of_nat FSSIZE), sb_nblocks = xint (of_nat nblocks), sb_ninodes = xint (of_nat NINODES), sb_nlog = xint (of_nat nlog),
     sb_logstart = xint 2, sb_inodestart = xint (of_nat (2 + nlog)), sb_bmapstart = xint (of_nat (2 + nlog + ninodeblocks))\<rparr>"

definition sb_block :: "superblock \<Rightarrow> block" where
  "sb_block b = put32 24 (sb_bmapstart b) (put32 20 (sb_inodestart b) (put32 16 (sb_logstart b) (put32 12 (sb_nlog b)
     (put32 8 (sb_ninodes b) (put32 4 (sb_nblocks b) (put32 0 (sb_size b) zeroes))))))"

text \<open>\<^verbatim>\<open>main\<close>: the empty image, the root directory with its two entries, the files, the rounded size of the root directory, and the bitmap.\<close>

definition empty_image :: mkfs_st where
  "empty_image = wsect 1 (sb_block mkfs_sb)
     (fold (\<lambda>i. wsect i zeroes) [0..<FSSIZE] \<lparr>img = [], mk_sb = mkfs_sb, freeinode = 1, freeblock = nmeta\<rparr>)"

definition mkfs :: "(u8 list \<times> u8 list) list \<Rightarrow> kerr + mkfs_st" where
  "mkfs files =
    bindE (mkfs_ialloc T_DIR empty_image) (\<lambda>(rootino, s1).
    if rootino \<noteq> ROOTINO then Inl (Panic ''rootino == ROOTINO'')
    else
      bindE (iappend rootino (mkfs_dirent rootino [46]) s1) (\<lambda>s2.
      bindE (iappend rootino (mkfs_dirent rootino [46, 46]) s2) (\<lambda>s3.
      bindE (foldE (add_file rootino) files s3) (\<lambda>s4.
      bindE (rinode rootino s4) (\<lambda>din.
        let off = unat (xint (di_size din)); off1 = (off div BSIZE + 1) * BSIZE in
        bindE (winode rootino (din\<lparr>di_size := xint (of_nat off1)\<rparr>) s4) (\<lambda>s5.
        mkfs_balloc (freeblock s5) s5))))))"

end
