(* ===== verification/MkfsProps.thy ===== *)
theory MkfsProps
  imports Mkfs FsInode FsAlloc
begin

text \<open>
  The image that \<open>mkfs\<close> builds, seen with the eyes of the kernel: the superblock, the inode table, the contents of the files by the block addresses of their inodes,
  and the bitmap. \<open>files_ok\<close> is the invariant of the blocks that inodes own; an inode has slots for the addresses of its direct blocks, of its
  indirect block, and of the blocks listed there.
\<close>

section \<open>Byte order and sectors\<close>

lemma xint_id [simp]: "xint x = x"
  using join32 [of x] by (simp add: xint_def get32_def)

lemma xshort_id [simp]: "xshort x = x"
proof -
  have "put16 0 x [0, 0] = [ucast x, ucast (drop_bit 8 x)]" by (simp add: put16_def)
  then show ?thesis using get16_put16 [of 0 "[0, 0]" x] by (simp add: xshort_def)
qed

definition blk :: "mkfs_st \<Rightarrow> nat \<Rightarrow> block" where
  "blk s b = img s ! b"

lemma blk_wsect: "x < length (img s) \<Longrightarrow> blk (wsect x v s) = (blk s)(x := v)"
  by (auto simp: blk_def wsect_def)

lemma wsect_sel [simp]:
  "mk_sb (wsect x v s) = mk_sb s" "freeinode (wsect x v s) = freeinode s" "freeblock (wsect x v s) = freeblock s"
  "x < length (img s) \<Longrightarrow> length (img (wsect x v s)) = length (img s)"
  by (simp_all add: wsect_def)

lemma blk_sel [simp]: "blk (s\<lparr>freeblock := n\<rparr>) = blk s" "blk (s\<lparr>freeinode := n\<rparr>) = blk s"
  by (simp_all add: blk_def fun_eq_iff)

lemma rsect_blk: "x < length (img s) \<Longrightarrow> rsect x s = Inr (blk s x)"
  by (simp add: rsect_def blk_def)

section \<open>Slots\<close>

definition addr_at :: "(nat \<Rightarrow> block) \<Rightarrow> dinode \<Rightarrow> nat \<Rightarrow> u32" where
  "addr_at V d p = (if p \<le> NDIRECT then di_addrs d ! p else get32 (V (unat (di_addrs d ! NDIRECT))) (4 * (p - NDIRECT - 1)))"

definition data_slot :: "nat \<Rightarrow> nat" where
  "data_slot bn = (if bn < NDIRECT then bn else bn + 1)"

lemma baddr_slot: "baddr V d bn = addr_at V d (data_slot bn)"
  by (simp add: baddr_def addr_at_def data_slot_def)

lemma data_slot_simps [simp]: "data_slot bn \<noteq> NDIRECT" "data_slot a = data_slot b \<longleftrightarrow> a = b" "data_slot bn \<le> MAXFILE \<longleftrightarrow> bn < MAXFILE"
  by (auto simp: data_slot_def MAXFILE_def NINDIRECT_def BSIZE_def)

text \<open>The slot can be looked at: it is in the inode, or the inode has an indirect block.\<close>

definition visible :: "nat set \<Rightarrow> nat \<Rightarrow> bool" where
  "visible P p \<longleftrightarrow> p \<le> NDIRECT \<or> NDIRECT \<in> P"

text \<open>The inodes in \<open>I\<close>, with the slots \<open>S k\<close> filled, hold the contents \<open>A k\<close>: filled slots have distinct addresses below \<open>fb\<close>, the others are 0; the blocks
  from \<open>fb\<close> on are zero, and so is what follows the contents in their last block.\<close>

definition files_ok :: "(nat \<Rightarrow> block) \<Rightarrow> (nat \<Rightarrow> dinode) \<Rightarrow> nat \<Rightarrow> nat set \<Rightarrow> (nat \<Rightarrow> nat set) \<Rightarrow> (nat \<Rightarrow> u8 list) \<Rightarrow> bool" where
  "files_ok V D fb I S A \<longleftrightarrow> nmeta \<le> fb \<and> fb \<le> FSSIZE \<and> (\<forall>b < FSSIZE. length (V b) = BSIZE) \<and> (\<forall>b. fb \<le> b \<longrightarrow> b < FSSIZE \<longrightarrow> V b = zeroes) \<and>
     (\<forall>k \<in> I. length (di_addrs (D k)) = NDIRECT + 1 \<and> S k \<subseteq> {..MAXFILE} \<and> (\<forall>p \<in> S k. visible (S k) p)) \<and>
     (\<forall>k \<in> I. \<forall>p \<in> S k. nmeta \<le> unat (addr_at V (D k) p) \<and> unat (addr_at V (D k) p) < fb) \<and>
     (\<forall>k \<in> I. \<forall>p. p \<le> MAXFILE \<longrightarrow> visible (S k) p \<longrightarrow> p \<notin> S k \<longrightarrow> addr_at V (D k) p = 0) \<and>
     (\<forall>k \<in> I. \<forall>i < length (A k). data_slot (i div BSIZE) \<in> S k) \<and>
     (\<forall>k \<in> I. \<forall>bn j. data_slot bn \<in> S k \<longrightarrow> j < BSIZE \<longrightarrow>
        V (unat (addr_at V (D k) (data_slot bn))) ! j = (if bn * BSIZE + j < length (A k) then A k ! (bn * BSIZE + j) else 0)) \<and>
     (\<forall>k \<in> I. \<forall>l \<in> I. \<forall>p \<in> S k. \<forall>q \<in> S l. addr_at V (D k) p = addr_at V (D l) q \<longrightarrow> k = l \<and> p = q)"

lemma files_okD:
  assumes "files_ok V D fb I S A"
  shows "nmeta \<le> fb" and "fb \<le> FSSIZE" and "b < FSSIZE \<Longrightarrow> length (V b) = BSIZE" and "fb \<le> b \<Longrightarrow> b < FSSIZE \<Longrightarrow> V b = zeroes"
    and "k \<in> I \<Longrightarrow> length (di_addrs (D k)) = NDIRECT + 1" and "k \<in> I \<Longrightarrow> p \<in> S k \<Longrightarrow> p \<le> MAXFILE" and "k \<in> I \<Longrightarrow> p \<in> S k \<Longrightarrow> visible (S k) p"
    and "k \<in> I \<Longrightarrow> p \<in> S k \<Longrightarrow> nmeta \<le> unat (addr_at V (D k) p)" and "k \<in> I \<Longrightarrow> p \<in> S k \<Longrightarrow> unat (addr_at V (D k) p) < fb"
    and "k \<in> I \<Longrightarrow> p \<le> MAXFILE \<Longrightarrow> visible (S k) p \<Longrightarrow> p \<notin> S k \<Longrightarrow> addr_at V (D k) p = 0"
    and "k \<in> I \<Longrightarrow> i < length (A k) \<Longrightarrow> data_slot (i div BSIZE) \<in> S k"
    and "k \<in> I \<Longrightarrow> data_slot bn \<in> S k \<Longrightarrow> j < BSIZE \<Longrightarrow>
        V (unat (addr_at V (D k) (data_slot bn))) ! j = (if bn * BSIZE + j < length (A k) then A k ! (bn * BSIZE + j) else 0)"
    and "k \<in> I \<Longrightarrow> l \<in> I \<Longrightarrow> p \<in> S k \<Longrightarrow> q \<in> S l \<Longrightarrow> addr_at V (D k) p = addr_at V (D l) q \<Longrightarrow> k = l \<and> p = q"
  using assms unfolding files_ok_def by blast+

text \<open>A block that is not an indirect block does not carry addresses.\<close>

lemma addr_at_upd:
  assumes "visible P q" and "NDIRECT \<in> P \<Longrightarrow> x \<noteq> unat (di_addrs d ! NDIRECT)"
  shows "addr_at (V(x := v)) d q = addr_at V d q"
  using assms by (auto simp: addr_at_def visible_def)

lemma addr_at_ind: "addr_at V d NDIRECT = di_addrs d ! NDIRECT"
  by (simp add: addr_at_def)

section \<open>Writing data\<close>

lemma append_bytes:
  fixes a xs :: "u8 list"
  assumes "length a = b + p"
  shows "(if p \<le> j \<and> j < p + length xs then xs ! (j - p) else if b + j < length a then a ! (b + j) else 0) =
    (if b + j < length (a @ xs) then (a @ xs) ! (b + j) else 0)"
  using assms by (auto simp: nth_append)

lemma write_ok:
  assumes f: "files_ok V D fb I S A" and k: "k \<in> I" and sl: "data_slot (length (A k) div BSIZE) \<in> S k"
    and fit: "length (A k) mod BSIZE + length xs \<le> BSIZE"
  defines "x \<equiv> unat (addr_at V (D k) (data_slot (length (A k) div BSIZE)))"
  shows "files_ok (V(x := overlay (length (A k) mod BSIZE) xs (V x))) D fb I S (A(k := A k @ xs))"
proof -
  let ?bn = "length (A k) div BSIZE" and ?o = "length (A k) mod BSIZE"
  let ?V = "V(x := overlay ?o xs (V x))" and ?A = "A(k := A k @ xs)"
  note g = files_okD [OF f]
  have B: "0 < BSIZE" by (simp add: BSIZE_def)
  have xb: "nmeta \<le> x" "x < fb" "x < FSSIZE" using g(2) g(8,9) [OF k sl] by (simp_all add: x_def)
  have len: "length (V x) = BSIZE" using g(3) xb by simp
  note ov = overlay_simps [of ?o xs "V x", unfolded len, OF fit]
  have same: "addr_at ?V (D l) q = addr_at V (D l) q" if "l \<in> I" "visible (S l) q" for l q
  proof (rule addr_at_upd [OF that(2)])
    assume n: "NDIRECT \<in> S l"
    show "x \<noteq> unat (di_addrs (D l) ! NDIRECT)"
    proof
      assume "x = unat (di_addrs (D l) ! NDIRECT)"
      then have "addr_at V (D k) (data_slot ?bn) = addr_at V (D l) NDIRECT" by (simp add: x_def addr_at_ind word_unat_eq_iff)
      then show False using g(13) [OF k that(1) sl n] by simp
    qed
  qed
  have full: "length (A k) = ?bn * BSIZE + ?o" by simp
  have data: "?V (unat (addr_at V (D l) (data_slot bn))) ! j = (if bn * BSIZE + j < length (?A l) then ?A l ! (bn * BSIZE + j) else 0)"
    if l: "l \<in> I" "data_slot bn \<in> S l" "j < BSIZE" for l bn j
  proof (cases "l = k \<and> bn = ?bn")
    case True
    then have "?V (unat (addr_at V (D l) (data_slot bn))) ! j = (if ?o \<le> j \<and> j < ?o + length xs then xs ! (j - ?o) else V x ! j)"
      using ov(2) [OF l(3)] by (simp add: x_def)
    also have "V x ! j = (if ?bn * BSIZE + j < length (A k) then A k ! (?bn * BSIZE + j) else 0)" using g(12) [OF k sl l(3)] by (simp add: x_def)
    also note append_bytes [OF full]
    finally show ?thesis using True by simp
  next
    case False
    have "unat (addr_at V (D l) (data_slot bn)) \<noteq> x"
    proof
      assume "unat (addr_at V (D l) (data_slot bn)) = x"
      then have "addr_at V (D l) (data_slot bn) = addr_at V (D k) (data_slot ?bn)" by (simp add: x_def word_unat_eq_iff)
      then show False using g(13) [OF l(1) k l(2) sl] False by simp
    qed
    then have e: "?V (unat (addr_at V (D l) (data_slot bn))) ! j = (if bn * BSIZE + j < length (A l) then A l ! (bn * BSIZE + j) else 0)"
      using g(12) [OF l] by simp
    show ?thesis
    proof (cases "l = k")
      case True
      then have "bn \<noteq> ?bn" using False by simp
      then have "bn * BSIZE + j < length (A k) \<or> length (A k) + length xs \<le> bn * BSIZE + j"
      proof (cases "bn < ?bn")
        case True
        then have "Suc bn * BSIZE \<le> ?bn * BSIZE" by (intro mult_le_mono1) simp
        then show ?thesis using l(3) full by (simp; linarith)
      next
        case False
        then have "Suc ?bn * BSIZE \<le> bn * BSIZE" using \<open>bn \<noteq> ?bn\<close> by (intro mult_le_mono1) simp
        then show ?thesis using fit full by (simp; linarith)
      qed
      then show ?thesis using e True by (auto simp: nth_append)
    qed (use e in simp)
  qed
  have cover: "data_slot (i div BSIZE) \<in> S l" if l: "l \<in> I" "i < length (?A l)" for l i
  proof (cases "l = k \<and> length (A k) \<le> i")
    case True
    then have "i < length (A k) + length xs" using l(2) by simp
    then have "i < Suc ?bn * BSIZE" using fit full by (simp; linarith)
    then have "i div BSIZE < Suc ?bn" by (rule less_mult_imp_div_less)
    moreover have "?bn \<le> i div BSIZE" using True by (simp add: div_le_mono)
    ultimately have "i div BSIZE = ?bn" by simp
    then show ?thesis using sl True by simp
  next
    case False
    then show ?thesis using l g(11) [OF l(1), of i] by (auto split: if_splits)
  qed
  show ?thesis
    unfolding files_ok_def
  proof (intro conjI ballI allI impI)
    fix b
    assume "b < FSSIZE"
    then show "length (?V b) = BSIZE" using g(3) ov(1) by simp
  next
    fix b
    assume "fb \<le> b" "b < FSSIZE"
    then show "?V b = zeroes" using g(4) xb(2) by simp
  next
    fix l bn j
    assume l: "l \<in> I" "data_slot bn \<in> S l" "j < BSIZE"
    show "?V (unat (addr_at ?V (D l) (data_slot bn))) ! j = (if bn * BSIZE + j < length (?A l) then ?A l ! (bn * BSIZE + j) else 0)"
      using data [OF l] same [OF l(1) g(7) [OF l(1,2)]] by simp
  qed (use g(1,2,5-10,13) same cover in \<open>auto\<close>)
qed

section \<open>Filling a slot\<close>

definition put_addr_blk :: "(nat \<Rightarrow> block) \<Rightarrow> dinode \<Rightarrow> nat \<Rightarrow> u32 \<Rightarrow> nat \<Rightarrow> block" where
  "put_addr_blk V d p a =
    (if p \<le> NDIRECT then V else let ib = unat (di_addrs d ! NDIRECT) in V(ib := put32 (4 * (p - NDIRECT - 1)) a (V ib)))"

definition put_addr_din :: "dinode \<Rightarrow> nat \<Rightarrow> u32 \<Rightarrow> dinode" where
  "put_addr_din d p a = (if p \<le> NDIRECT then d\<lparr>di_addrs := (di_addrs d)[p := a]\<rparr> else d)"

lemma put_addr_din_sel [simp]: "length (di_addrs (put_addr_din d p a)) = length (di_addrs d)" "di_size (put_addr_din d p a) = di_size d"
  by (simp_all add: put_addr_din_def)

lemma zeroes_get32: "i + 3 < BSIZE \<Longrightarrow> get32 zeroes i = 0"
  by (simp add: zeroes_def get32_def)

lemma slot_pos: "p \<le> MAXFILE \<Longrightarrow> 4 * (p - NDIRECT - 1) + 3 < BSIZE"
  by (simp add: MAXFILE_def NDIRECT_def NINDIRECT_def BSIZE_def)

lemma fill_slot_addr:
  assumes f: "files_ok V D fb I S A" and k: "k \<in> I" and p: "p \<le> MAXFILE" "visible (S k) p" "p \<notin> S k" and fb: "fb < FSSIZE"
    and l: "l \<in> I" and q: "q \<le> MAXFILE" "visible ((S(k := insert p (S k))) l) q"
  shows "addr_at (put_addr_blk V (D k) p (of_nat fb)) ((D(k := put_addr_din (D k) p (of_nat fb))) l) q =
    (if l = k \<and> q = p then of_nat fb else if l = k \<and> p = NDIRECT \<and> NDIRECT < q then 0 else addr_at V (D l) q)"
proof -
  note g = files_okD [OF f]
  have len: "length (di_addrs (D k)) = NDIRECT + 1" by (rule g(5) [OF k])
  show ?thesis
  proof (cases "p \<le> NDIRECT")
    case True
    have "fb < 2 ^ 32" using fb by (simp add: FSSIZE_def)
    then have "V (unat (of_nat fb :: u32)) = zeroes" using g(4) [OF order_refl fb] by (simp only: unat_of_nat32)
    then have "get32 (V (unat (of_nat fb :: u32))) (4 * (q - NDIRECT - 1)) = 0" using zeroes_get32 [OF slot_pos [OF q(1)]] by simp
    then show ?thesis using True len by (auto simp: addr_at_def put_addr_blk_def put_addr_din_def nth_list_update)
  next
    case False
    let ?ib = "unat (di_addrs (D k) ! NDIRECT)"
    have n: "NDIRECT \<in> S k" using p(2) False by (simp add: visible_def)
    have ib: "?ib < FSSIZE" using g(2) g(9) [OF k n] by (simp add: addr_at_ind)
    have lb: "length (V ?ib) = BSIZE" using g(3) ib by simp
    have e: "put_addr_blk V (D k) p (of_nat fb) = V(?ib := put32 (4 * (p - NDIRECT - 1)) (of_nat fb) (V ?ib))" "put_addr_din (D k) p (of_nat fb) = D k"
      using False by (simp_all add: put_addr_blk_def put_addr_din_def Let_def)
    show ?thesis
    proof (cases "l = k")
      case True
      have "4 * (p - NDIRECT - 1) + 3 < length (V ?ib)" using slot_pos [OF p(1)] lb by simp
      moreover have "p - NDIRECT - 1 < q - NDIRECT - 1 \<or> q - NDIRECT - 1 < p - NDIRECT - 1" if "q \<noteq> p" "NDIRECT < q" using that False by linarith
      ultimately show ?thesis using True False by (auto simp: e addr_at_def)
    next
      case False
      have "?ib \<noteq> unat (di_addrs (D l) ! NDIRECT)" if "NDIRECT \<in> S l"
        using g(13) [OF k l n that] False by (auto simp: addr_at_ind word_unat_eq_iff)
      then show ?thesis using False q(2) addr_at_upd [of "S l" q ?ib "D l" V] by (simp add: e)
    qed
  qed
qed

lemma fill_slot_ok:
  assumes f: "files_ok V D fb I S A" and k: "k \<in> I" and p: "p \<le> MAXFILE" "visible (S k) p" "p \<notin> S k" and fb: "fb < FSSIZE"
  shows "files_ok (put_addr_blk V (D k) p (of_nat fb)) (D(k := put_addr_din (D k) p (of_nat fb))) (Suc fb) I (S(k := insert p (S k))) A"
proof -
  let ?V = "put_addr_blk V (D k) p (of_nat fb)" and ?D = "D(k := put_addr_din (D k) p (of_nat fb))" and ?S = "S(k := insert p (S k))"
  note g = files_okD [OF f] and ad = fill_slot_addr [OF f k p fb]
  have u: "unat (of_nat fb :: u32) = fb" using fb by (intro unat_of_nat32) (simp add: FSSIZE_def)
  let ?ib = "unat (di_addrs (D k) ! NDIRECT)"
  have ibk: "NDIRECT \<in> S k \<and> ?ib < fb" if "\<not> p \<le> NDIRECT" using p(2) that g(9) [OF k, of NDIRECT] by (simp add: visible_def addr_at_ind)
  have V: "?V b = V b" if "p \<le> NDIRECT \<or> b \<noteq> ?ib" for b using that by (auto simp: put_addr_blk_def Let_def)
  have lenV: "length (?V b) = BSIZE" if "b < FSSIZE" for b using g(3) that by (simp add: put_addr_blk_def Let_def)
  have vis: "visible (?S l) q" if "l \<in> I" "q \<in> ?S l" for l q
    using that g(7) [OF that(1), of q] p(2) by (auto simp: visible_def split: if_splits)
  have new: "addr_at ?V (?D l) q = (if l = k \<and> q = p then of_nat fb else addr_at V (D l) q)" if l: "l \<in> I" "q \<in> ?S l" for l q
  proof -
    have "q \<le> MAXFILE" using l g(6) p(1) by (auto split: if_splits)
    moreover have "\<not> (l = k \<and> p = NDIRECT \<and> NDIRECT < q \<and> q \<noteq> p)" using l g(7) [OF k, of q] p(3) by (auto simp: visible_def)
    ultimately show ?thesis using ad [OF l(1) _ vis [OF l]] by auto
  qed
  have old: "q \<in> S l" if "q \<in> ?S l" "\<not> (l = k \<and> q = p)" for l q using that by (auto split: if_splits)
  have sl: "q \<in> ?S l" if "q \<in> S l" for l q using that by auto
  show ?thesis
    unfolding files_ok_def
  proof (intro conjI ballI allI impI)
    show "nmeta \<le> Suc fb" "Suc fb \<le> FSSIZE" using g(1) fb by simp_all
  next
    fix b
    assume b: "Suc fb \<le> b" "b < FSSIZE"
    then have "p \<le> NDIRECT \<or> b \<noteq> ?ib" using ibk by (cases "p \<le> NDIRECT") auto
    then show "?V b = zeroes" using g(4) [of b] V [of b] b by simp
  next
    fix l q
    assume "l \<in> I" "q \<in> ?S l"
    then show "nmeta \<le> unat (addr_at ?V (?D l) q)" "unat (addr_at ?V (?D l) q) < Suc fb"
      using new [of l q] old [of q l] g(8,9) [of l q] u g(1) by (auto simp: less_Suc_eq)
  next
    fix l q
    assume h: "l \<in> I" "q \<le> MAXFILE" "visible (?S l) q" "q \<notin> ?S l"
    then have "q \<notin> S l" "\<not> (l = k \<and> q = p)" by (auto split: if_splits)
    moreover have "visible (S l) q" if "\<not> (l = k \<and> p = NDIRECT \<and> NDIRECT < q)" using h(3) that by (auto simp: visible_def split: if_splits)
    ultimately show "addr_at ?V (?D l) q = 0" using ad [OF h(1-3)] g(10) [OF h(1,2)] by auto
  next
    fix l bn j
    assume l: "l \<in> I" "data_slot bn \<in> ?S l" "j < BSIZE"
    show "?V (unat (addr_at ?V (?D l) (data_slot bn))) ! j = (if bn * BSIZE + j < length (A l) then A l ! (bn * BSIZE + j) else 0)"
    proof (cases "l = k \<and> data_slot bn = p")
      case True
      have "?V fb = zeroes" using V [of fb] g(4) [OF order_refl fb] ibk by auto
      moreover have "\<not> bn * BSIZE + j < length (A k)"
      proof
        assume "bn * BSIZE + j < length (A k)"
        then have "data_slot ((bn * BSIZE + j) div BSIZE) \<in> S k" by (rule g(11) [OF k])
        moreover have "(bn * BSIZE + j) div BSIZE = bn" using l(3) by simp
        ultimately show False using True p(3) by simp
      qed
      ultimately show ?thesis using True new [OF l(1,2)] u l(3) by (simp add: zeroes_def)
    next
      case False
      then have os: "data_slot bn \<in> S l" using old [OF l(2)] by blast
      have "unat (addr_at V (D l) (data_slot bn)) \<noteq> ?ib" if "\<not> p \<le> NDIRECT"
        using g(13) [OF l(1) k os, of NDIRECT] ibk [OF that] by (auto simp: addr_at_ind word_unat_eq_iff)
      then have "?V (unat (addr_at V (D l) (data_slot bn))) = V (unat (addr_at V (D l) (data_slot bn)))" using V by blast
      then show ?thesis using False new [OF l(1,2)] g(12) [OF l(1) os l(3)] by auto
    qed
  next
    fix l l' q q'
    assume h: "l \<in> I" "l' \<in> I" "q \<in> ?S l" "q' \<in> ?S l'" "addr_at ?V (?D l) q = addr_at ?V (?D l') q'"
    have lt: "unat (addr_at V (D i) r) \<noteq> fb" if "i \<in> I" "r \<in> S i" for i r using g(9) [OF that] by simp
    show "l = l'" "q = q'"
      using h(5) unfolding new [OF h(1,3)] new [OF h(2,4)]
      using old [OF h(3)] old [OF h(4)] lt [OF h(1), of q] lt [OF h(2), of q'] u g(13) [OF h(1,2), of q q']
      by (auto split: if_splits)
  qed (use g(5,6,11) k p(1) lenV vis sl in \<open>auto\<close>)
qed

section \<open>The block for a piece of a file\<close>

definition need_slots :: "nat \<Rightarrow> nat set" where
  "need_slots fbn = insert (data_slot fbn) (if fbn < NDIRECT then {} else {NDIRECT})"

text \<open>The parts of the state that filling slots leaves alone.\<close>

definition same_meta :: "mkfs_st \<Rightarrow> mkfs_st \<Rightarrow> bool" where
  "same_meta s t \<longleftrightarrow> length (img t) = length (img s) \<and> mk_sb t = mk_sb s \<and> freeinode t = freeinode s \<and> (\<forall>b < nmeta. blk t b = blk s b)"

lemma same_meta_refl [simp]: "same_meta s s"
  by (simp add: same_meta_def)

lemma same_meta_trans: "same_meta s t \<Longrightarrow> same_meta t u \<Longrightarrow> same_meta s u"
  by (simp add: same_meta_def)

definition same_kind :: "dinode \<Rightarrow> dinode \<Rightarrow> bool" where
  "same_kind d e \<longleftrightarrow> di_type e = di_type d \<and> di_nlink e = di_nlink d"

lemma nmeta_pos: "0 < nmeta" "nmeta = 59"
  by (simp_all add: nmeta_def nlog_def ninodeblocks_def nbitmap_def LOGSIZE_def MAXOPBLOCKS_def NINODES_def IPB_def BSIZE_def DINODE_SIZE_def FSSIZE_def)

lemma filled_nonzero:
  assumes "files_ok V D fb I S A" and "k \<in> I" and "p \<in> S k"
  shows "addr_at V (D k) p \<noteq> 0"
  using files_okD(8) [OF assms] nmeta_pos(1) by auto

text \<open>There is room for a slot of \<open>T\<close> that is not filled yet.\<close>

lemma room_left:
  assumes "finite T" and "insert p P \<subseteq> T" and "p \<notin> P" and "fb + card T \<le> F + card P"
  shows "fb < F" and "Suc fb + card T \<le> F + card (insert p P)"
proof -
  have f: "finite P" using assms(1,2) finite_subset by auto
  have "card (insert p P) \<le> card T" by (rule card_mono [OF assms(1,2)])
  then show "fb < F" "Suc fb + card T \<le> F + card (insert p P)" using assms(3,4) f by simp_all
qed

lemma fill_addr_ok:
  assumes f: "files_ok (blk s) (D(k := din)) (freeblock s) I S A" and k: "k \<in> I" and i: "i \<le> NDIRECT"
    and T: "finite T" "insert i (S k) \<subseteq> T" "freeblock s + card T \<le> FSSIZE + card (S k)"
  shows "\<exists>din1 s1. fill_addr i din s = (din1, s1) \<and> files_ok (blk s1) (D(k := din1)) (freeblock s1) I (S(k := insert i (S k))) A \<and>
    freeblock s1 + card T \<le> FSSIZE + card (insert i (S k)) \<and> freeblock s1 + card (S k) = freeblock s + card (insert i (S k)) \<and>
    img s1 = img s \<and> same_meta s s1 \<and> same_kind din din1 \<and> di_size din1 = di_size din"
proof (cases "i \<in> S k")
  case True
  then have "di_addrs din ! i \<noteq> 0" using filled_nonzero [OF f k True] i by (simp add: addr_at_def)
  then have "fill_addr i din s = (din, s)" by (simp add: fill_addr_def)
  moreover have "S(k := insert i (S k)) = S" "insert i (S k) = S k" using insert_absorb [OF True] by simp_all
  ultimately show ?thesis using f T(3) by (auto simp: same_kind_def)
next
  case False
  note r = room_left [OF T(1,2) False T(3)]
  have mf: "i \<le> MAXFILE" "visible (S k) i" using i by (simp_all add: MAXFILE_def visible_def)
  have "addr_at (blk s) ((D(k := din)) k) i = 0" by (rule files_okD(10) [OF f k mf False])
  then have z: "di_addrs din ! i = 0" using i by (simp add: addr_at_def)
  have "files_ok (blk s) (D(k := put_addr_din din i (of_nat (freeblock s)))) (Suc (freeblock s)) I (S(k := insert i (S k))) A"
    using fill_slot_ok [OF f k mf False r(1)] i by (simp add: put_addr_blk_def)
  moreover have "fill_addr i din s = (put_addr_din din i (of_nat (freeblock s)), s\<lparr>freeblock := Suc (freeblock s)\<rparr>)"
    using z i by (simp add: fill_addr_def put_addr_din_def)
  moreover have "finite (S k)" using T(1,2) finite_subset by auto
  ultimately show ?thesis using r(2) False i by (auto simp: same_meta_def same_kind_def put_addr_din_def)
qed

lemma file_block_ok:
  assumes f: "files_ok (blk s) (D(k := din)) (freeblock s) I S A" and k: "k \<in> I" and fbn: "fbn < MAXFILE" and len: "length (img s) = FSSIZE"
    and T: "finite T" "S k \<union> need_slots fbn \<subseteq> T" "freeblock s + card T \<le> FSSIZE + card (S k)"
  shows "succeeds (file_block fbn din s) (\<lambda>(x, din1, s1). x = unat (addr_at (blk s1) din1 (data_slot fbn)) \<and>
    files_ok (blk s1) (D(k := din1)) (freeblock s1) I (S(k := S k \<union> need_slots fbn)) A \<and>
    freeblock s1 + card T \<le> FSSIZE + card (S k \<union> need_slots fbn) \<and> freeblock s1 + card (S k) = freeblock s + card (S k \<union> need_slots fbn) \<and>
    same_meta s s1 \<and> same_kind din din1 \<and> di_size din1 = di_size din)"
proof (cases "fbn < NDIRECT")
  case True
  then have "S k \<union> need_slots fbn = insert fbn (S k)" "data_slot fbn = fbn" by (simp_all add: need_slots_def data_slot_def)
  then show ?thesis using fill_addr_ok [OF f k _ T(1), of fbn] T(2,3) True by (auto simp: file_block_def addr_at_def)
next
  case False
  let ?p = "data_slot fbn"
  have ns: "S k \<union> need_slots fbn = insert ?p (insert NDIRECT (S k))" using False by (auto simp: need_slots_def)
  have fin: "finite (S k)" using T(1,2) finite_subset by auto
  have T1: "insert NDIRECT (S k) \<subseteq> T" using T(2) ns by auto
  obtain din1 s1 where fa: "fill_addr NDIRECT din s = (din1, s1)" and f1: "files_ok (blk s1) (D(k := din1)) (freeblock s1) I (S(k := insert NDIRECT (S k))) A"
    and r1: "freeblock s1 + card T \<le> FSSIZE + card (insert NDIRECT (S k))" "freeblock s1 + card (S k) = freeblock s + card (insert NDIRECT (S k))"
    and m1: "img s1 = img s" "same_meta s s1" "same_kind din din1" "di_size din1 = di_size din"
    using fill_addr_ok [OF f k order_refl T(1) T1 T(3)] by blast
  let ?S1 = "S(k := insert NDIRECT (S k))"
  let ?ib = "unat (di_addrs din1 ! NDIRECT)" and ?pos = "4 * (fbn - NDIRECT)"
  have n1: "NDIRECT \<in> ?S1 k" by simp
  have ib: "nmeta \<le> ?ib" "?ib < FSSIZE" using files_okD(8,9) [OF f1 k n1] files_okD(2) [OF f1] by (simp_all add: addr_at_ind)
  have rd: "rsect ?ib s1 = Inr (blk s1 ?ib)" using ib(2) len m1(1) by (intro rsect_blk) simp
  have pp: "?p = Suc fbn" "\<not> ?p \<le> NDIRECT" "?p - NDIRECT - 1 = fbn - NDIRECT" using False by (simp_all add: data_slot_def)
  have at: "addr_at (blk s1) din1 ?p = get32 (blk s1 ?ib) ?pos" using pp by (simp add: addr_at_def)
  have mf: "?p \<le> MAXFILE" "visible (?S1 k) ?p" using fbn by (simp_all add: visible_def)
  show ?thesis
  proof (cases "?p \<in> insert NDIRECT (S k)")
    case True
    have "get32 (blk s1 ?ib) ?pos \<noteq> 0" using filled_nonzero [OF f1 k, of ?p] True at by simp
    then have fb: "file_block fbn din s = Inr (unat (addr_at (blk s1) din1 ?p), din1, s1)" using False fa rd at by (simp add: file_block_def)
    have "S k \<union> need_slots fbn = insert NDIRECT (S k)" using True ns by auto
    then show ?thesis using fb f1 r1 m1 by simp
  next
    case np: False
    have z: "get32 (blk s1 ?ib) ?pos = 0" using files_okD(10) [OF f1 k mf] np at by simp
    note r = room_left [OF T(1) _ np r1(1)]
    have T2: "insert ?p (insert NDIRECT (S k)) \<subseteq> T" using T(2) ns by auto
    let ?b = "put32 ?pos (of_nat (freeblock s1)) (blk s1 ?ib)"
    let ?s2 = "wsect ?ib ?b (s1\<lparr>freeblock := Suc (freeblock s1)\<rparr>)"
    have len1: "?ib < length (img (s1\<lparr>freeblock := Suc (freeblock s1)\<rparr>))" using ib(2) len m1(1) by simp
    have b2: "blk ?s2 = put_addr_blk (blk s1) din1 ?p (of_nat (freeblock s1))" using pp blk_wsect [OF len1] by (simp add: put_addr_blk_def Let_def)
    have d2: "put_addr_din din1 ?p (of_nat (freeblock s1)) = din1" using pp by (simp add: put_addr_din_def)
    have npS: "?p \<notin> ?S1 k" using np by simp
    have se: "?S1(k := insert ?p (?S1 k)) = S(k := S k \<union> need_slots fbn)" by (auto simp: ns fun_eq_iff)
    have de: "(D(k := din1))(k := put_addr_din ((D(k := din1)) k) ?p (of_nat (freeblock s1))) = D(k := din1)" using d2 by simp
    have f2: "files_ok (blk ?s2) (D(k := din1)) (freeblock ?s2) I (S(k := S k \<union> need_slots fbn)) A"
      using fill_slot_ok [OF f1 k mf npS r(1) [OF T2]] unfolding se de b2 by simp
    have "unat (get32 ?b ?pos) = unat (addr_at (blk ?s2) din1 ?p)"
      using pp blk_wsect [OF len1, of ?b] by (simp add: addr_at_def)
    then have fb: "file_block fbn din s = Inr (unat (addr_at (blk ?s2) din1 ?p), din1, ?s2)" using False fa rd z by (simp add: file_block_def Let_def)
    have sm: "same_meta s ?s2" using m1(1,2) ib(1) len1 blk_wsect [OF len1, of ?b] by (auto simp: same_meta_def)
    have "freeblock ?s2 + card T \<le> FSSIZE + card (S k \<union> need_slots fbn)" using r(2) [OF T2] by (simp add: ns)
    moreover have "freeblock ?s2 + card (S k) = freeblock s + card (S k \<union> need_slots fbn)" using r1(2) np fin by (simp add: ns)
    ultimately show ?thesis using fb f2 sm m1(3,4) by simp
  qed
qed

section \<open>Appending\<close>

definition nblk :: "nat \<Rightarrow> nat" where
  "nblk n = (n + BSIZE - 1) div BSIZE"

text \<open>The slots of a file of \<open>n\<close> bytes.\<close>

definition slots_for :: "nat \<Rightarrow> nat set" where
  "slots_for n = data_slot ` {..<nblk n} \<union> (if NDIRECT < nblk n then {NDIRECT} else {})"

definition nslots :: "nat \<Rightarrow> nat" where
  "nslots n = nblk n + (if NDIRECT < nblk n then 1 else 0)"

lemma card_slots: "finite (slots_for n)" "card (slots_for n) = nslots n"
proof -
  have "inj_on data_slot {..<nblk n}" by (simp add: inj_on_def)
  then have "card (data_slot ` {..<nblk n}) = nblk n" by (simp add: card_image)
  moreover have "NDIRECT \<notin> data_slot ` {..<nblk n}" using data_slot_simps(1) by (metis imageE)
  ultimately show "card (slots_for n) = nslots n" by (simp add: slots_for_def nslots_def)
qed (simp add: slots_for_def)

lemma slots_mono: "n \<le> m \<Longrightarrow> slots_for n \<subseteq> slots_for m"
proof -
  assume "n \<le> m"
  then have "nblk n \<le> nblk m" by (simp add: nblk_def div_le_mono)
  then show ?thesis by (auto simp: slots_for_def)
qed

lemma nblk_exact: "0 < m \<Longrightarrow> m \<le> BSIZE \<Longrightarrow> nblk (q * BSIZE + m) = Suc q" and nblk_full: "nblk (q * BSIZE) = q"
  by (auto simp: nblk_def intro!: div_nat_eqI) (simp_all add: BSIZE_def)

lemma slots_step:
  assumes "0 < m" and "n mod BSIZE + m \<le> BSIZE"
  shows "slots_for (n + m) = slots_for n \<union> need_slots (n div BSIZE)"
proof -
  let ?q = "n div BSIZE"
  have n: "n = ?q * BSIZE + n mod BSIZE" by simp
  have nm: "nblk (n + m) = Suc ?q" using nblk_exact [of "n mod BSIZE + m" ?q] assms by (simp add: add.assoc [symmetric])
  have nn: "nblk n = (if n mod BSIZE = 0 then ?q else Suc ?q)"
  proof (cases "n mod BSIZE = 0")
    case True
    then show ?thesis using n nblk_full [of ?q] by simp
  next
    case False
    have "n mod BSIZE \<le> BSIZE" using mod_less_divisor [of BSIZE n] by (simp add: BSIZE_def)
    then show ?thesis using False n nblk_exact [of "n mod BSIZE" ?q] by simp
  qed
  show ?thesis unfolding slots_for_def need_slots_def nm nn by (auto simp: lessThan_Suc)
qed

lemma iappend_loop_ok:
  assumes "files_ok (blk s) (D(k := din)) (freeblock s) I S A" and "k \<in> I" and "length (img s) = FSSIZE" and "off = length (A k)" and "S k = slots_for off"
    and "off + length p \<le> MAXFILE * BSIZE" and "freeblock s + card (slots_for (off + length p)) \<le> FSSIZE + card (slots_for off)"
  shows "succeeds (iappend_loop din off p s) (\<lambda>(din1, off1, s1). off1 = off + length p \<and>
    files_ok (blk s1) (D(k := din1)) (freeblock s1) I (S(k := slots_for off1)) (A(k := A k @ p)) \<and>
    freeblock s1 + card (slots_for off) = freeblock s + card (slots_for off1) \<and> same_meta s s1 \<and> same_kind din din1)"
  using assms
proof (induction "length p" arbitrary: din off p s S A rule: less_induct)
  case less
  show ?case
  proof (cases "p = []")
    case True
    have "S(k := slots_for off) = S" using less.prems(5) by (simp add: fun_upd_idem_iff)
    then show ?thesis using True less.prems(1) by (simp add: iappend_loop.simps same_kind_def)
  next
    case False
    let ?q = "off div BSIZE" and ?o = "off mod BSIZE" and ?T = "slots_for (off + length p)"
    let ?n1 = "min (length p) (BSIZE - ?o)"
    have B: "0 < BSIZE" by (simp add: BSIZE_def)
    have ob: "?o < BSIZE" using B by simp
    have full: "off = ?q * BSIZE + ?o" by simp
    have n1: "0 < ?n1" "?o + ?n1 \<le> BSIZE" "?n1 \<le> length p" using False ob by auto
    have e1: "(?q + 1) * BSIZE - off = BSIZE - ?o" using full by (simp; linarith)
    have e2: "off - ?q * BSIZE = ?o" by (rule minus_div_mult_eq_mod)
    have "off < MAXFILE * BSIZE" using less.prems(6) False by (cases p) auto
    then have q: "?q < MAXFILE" by (rule less_mult_imp_div_less)
    have st: "slots_for (off + ?n1) = slots_for off \<union> need_slots ?q" by (rule slots_step [OF n1(1,2)])
    have T: "S k \<union> need_slots ?q \<subseteq> ?T" "freeblock s + card ?T \<le> FSSIZE + card (S k)"
      using st slots_mono [of "off + ?n1" "off + length p"] n1(3) less.prems(5,7) by auto
    obtain x din1 s1 where fb: "file_block ?q din s = Inr (x, din1, s1)" and x: "x = unat (addr_at (blk s1) din1 (data_slot ?q))"
      and f1: "files_ok (blk s1) (D(k := din1)) (freeblock s1) I (S(k := S k \<union> need_slots ?q)) A"
      and r1: "freeblock s1 + card ?T \<le> FSSIZE + card (S k \<union> need_slots ?q)" "freeblock s1 + card (S k) = freeblock s + card (S k \<union> need_slots ?q)"
      and m1: "same_meta s s1" "same_kind din din1"
      using file_block_ok [OF less.prems(1,2) q less.prems(3) card_slots(1) T] by (auto simp: succeeds_iff)
    let ?S1 = "S(k := S k \<union> need_slots ?q)"
    have s1k: "?S1 k = slots_for (off + ?n1)" using st less.prems(5) by simp
    have sl: "data_slot (length (A k) div BSIZE) \<in> ?S1 k" using less.prems(4) by (simp add: need_slots_def)
    have xl: "nmeta \<le> x" "x < FSSIZE" using files_okD(8,9) [OF f1 less.prems(2) sl] files_okD(2) [OF f1] x less.prems(4) by simp_all
    have len1: "length (img s1) = FSSIZE" using m1(1) less.prems(3) by (simp add: same_meta_def)
    then have rd: "rsect x s1 = Inr (blk s1 x)" using xl(2) by (simp add: rsect_blk)
    let ?b = "take ?o (blk s1 x) @ take ?n1 p @ drop (?o + ?n1) (blk s1 x)"
    let ?s2 = "wsect x ?b s1"
    have ov: "?b = overlay ?o (take ?n1 p) (blk s1 x)" using n1(3) by (simp add: overlay_def)
    have b2: "blk ?s2 = (blk s1)(x := ?b)" using xl(2) len1 by (simp add: blk_wsect)
    have fit: "length (A k) mod BSIZE + length (take ?n1 p) \<le> BSIZE" using n1(2,3) less.prems(4) by simp
    have xe: "x = unat (addr_at (blk s1) ((D(k := din1)) k) (data_slot (length (A k) div BSIZE)))" using x less.prems(4) by simp
    have fb2: "freeblock ?s2 = freeblock s1" by simp
    have f2: "files_ok (blk ?s2) (D(k := din1)) (freeblock ?s2) I ?S1 (A(k := A k @ take ?n1 p))"
      unfolding b2 fb2 unfolding ov by (rule write_ok [OF f1 less.prems(2) sl fit, folded xe less.prems(4)])
    let ?A = "A(k := A k @ take ?n1 p)"
    have off2: "off + ?n1 = length (?A k)" using less.prems(4) n1(3) by simp
    have dl: "off + ?n1 + length (drop ?n1 p) = off + length p" using n1(3) by simp
    have m2: "same_meta s1 ?s2" using xl len1 by (auto simp: same_meta_def b2)
    have "succeeds (iappend_loop din1 (off + ?n1) (drop ?n1 p) ?s2) (\<lambda>(din1', off1, s1'). off1 = off + ?n1 + length (drop ?n1 p) \<and>
      files_ok (blk s1') (D(k := din1')) (freeblock s1') I (?S1(k := slots_for off1)) (?A(k := ?A k @ drop ?n1 p)) \<and>
      freeblock s1' + card (slots_for (off + ?n1)) = freeblock ?s2 + card (slots_for off1) \<and> same_meta ?s2 s1' \<and> same_kind din1 din1')"
    proof (rule less.hyps [OF _ f2 less.prems(2) _ off2 s1k])
      show "length (drop ?n1 p) < length p" using n1(1) False by simp
      show "length (img ?s2) = FSSIZE" using len1 xl(2) by simp
      show "off + ?n1 + length (drop ?n1 p) \<le> MAXFILE * BSIZE" unfolding dl by (rule less.prems(6))
      show "freeblock ?s2 + card (slots_for (off + ?n1 + length (drop ?n1 p))) \<le> FSSIZE + card (slots_for (off + ?n1))"
        unfolding dl using r1(1) st less.prems(5) by simp
    qed
    then obtain din2 s3 where l2: "iappend_loop din1 (off + ?n1) (drop ?n1 p) ?s2 = Inr (din2, off + length p, s3)"
      and f3: "files_ok (blk s3) (D(k := din2)) (freeblock s3) I (S(k := slots_for (off + length p))) (A(k := A k @ p))"
      and r3: "freeblock s3 + card (slots_for (off + ?n1)) = freeblock s1 + card (slots_for (off + length p))" and m3: "same_meta ?s2 s3" "same_kind din1 din2"
      unfolding dl by (auto simp: succeeds_iff)
    have "iappend_loop din off p s = Inr (din2, off + length p, s3)"
      using False q fb rd l2 e1 e2 by (simp add: iappend_loop.simps [of din off p s] Let_def)
    moreover have "freeblock s3 + card (slots_for off) = freeblock s + card (slots_for (off + length p))" using r3 r1(2) st less.prems(5) by simp
    moreover have "same_meta s s3" "same_kind din din2" using same_meta_trans [OF same_meta_trans [OF m1(1) m2] m3(1)] m1(2) m3(2) by (simp_all add: same_kind_def)
    ultimately show ?thesis using f3 by simp
  qed
qed

section \<open>The image\<close>

lemma files_ok_cong:
  assumes f: "files_ok V D fb I S A" and V: "\<forall>b. nmeta \<le> b \<longrightarrow> b < FSSIZE \<longrightarrow> W b = V b" and len: "\<forall>b < FSSIZE. length (W b) = BSIZE"
    and D: "\<forall>k \<in> I. di_addrs (E k) = di_addrs (D k)"
  shows "files_ok W E fb I S A"
proof -
  note g = files_okD [OF f]
  have at: "addr_at W (E k) p = addr_at V (D k) p" if "k \<in> I" "visible (S k) p" for k p
  proof (cases "p \<le> NDIRECT")
    case False
    then have n: "NDIRECT \<in> S k" using that(2) by (simp add: visible_def)
    have "W (unat (di_addrs (D k) ! NDIRECT)) = V (unat (di_addrs (D k) ! NDIRECT))"
      using V g(2) g(8,9) [OF that(1) n] by (simp add: addr_at_ind)
    then show ?thesis using False D that(1) by (simp add: addr_at_def)
  qed (use D that(1) in \<open>simp add: addr_at_def\<close>)
  have dat: "W (unat (addr_at V (D k) p)) = V (unat (addr_at V (D k) p))" if "k \<in> I" "p \<in> S k" for k p
    using V g(2) g(8,9) [OF that] by simp
  show ?thesis
    unfolding files_ok_def
  proof (intro conjI ballI allI impI)
    fix b
    assume "fb \<le> b" "b < FSSIZE"
    then show "W b = zeroes" using V g(1) g(4) [of b] by simp
  next
    fix k bn j
    assume "k \<in> I" "data_slot bn \<in> S k" "j < BSIZE"
    then show "W (unat (addr_at W (E k) (data_slot bn))) ! j = (if bn * BSIZE + j < length (A k) then A k ! (bn * BSIZE + j) else 0)"
      using at dat g(7,12) by simp
  qed (use g(1,2,5-10,11,13) D at len in \<open>auto\<close>)
qed

text \<open>The inode table holds the inodes 1 to \<open>freeinode - 1\<close>, of types \<open>T\<close> and with contents \<open>A\<close>; exactly the blocks below \<open>freeblock\<close> are in use.\<close>

definition mkfs_inv :: "mkfs_st \<Rightarrow> (nat \<Rightarrow> u8 list) \<Rightarrow> (nat \<Rightarrow> 16 word) \<Rightarrow> bool" where
  "mkfs_inv s A T \<longleftrightarrow> length (img s) = FSSIZE \<and> mk_sb s = mkfs_sb \<and> blk s 1 = sb_block mkfs_sb \<and> (\<forall>b \<in> {2..<32}. blk s b = zeroes) \<and>
     1 \<le> freeinode s \<and> freeinode s \<le> 208 \<and>
     files_ok (blk s) (dino (blk s) mkfs_sb) (freeblock s) {1..<freeinode s} (\<lambda>k. slots_for (length (A k))) A \<and>
     (\<forall>k \<in> {1..<freeinode s}. unat (di_size (dino (blk s) mkfs_sb k)) = length (A k) \<and> di_type (dino (blk s) mkfs_sb k) = T k \<and>
        di_nlink (dino (blk s) mkfs_sb k) = 1) \<and>
     freeblock s = nmeta + (\<Sum>k \<in> {1..<freeinode s}. nslots (length (A k)))"

lemma mkfs_sb_simps:
  "unat (sb_size mkfs_sb) = 1000" "unat (sb_inodestart mkfs_sb) = 32" "unat (sb_bmapstart mkfs_sb) = 58" "unat (sb_logstart mkfs_sb) = 2" "unat (sb_nlog mkfs_sb) = 30"
  "unat (sb_ninodes mkfs_sb) = 200" "unat (sb_nblocks mkfs_sb) = 941"
  by (simp_all add: mkfs_sb_def FSSIZE_def nlog_def LOGSIZE_def MAXOPBLOCKS_def ninodeblocks_def NINODES_def IPB_def BSIZE_def DINODE_SIZE_def nblocks_def nmeta_pos(2))

lemma IBLOCK_mkfs: "k < 208 \<Longrightarrow> IBLOCK k mkfs_sb < 58" "32 \<le> IBLOCK k mkfs_sb"
proof -
  show "32 \<le> IBLOCK k mkfs_sb" by (simp add: IBLOCK_def mkfs_sb_simps)
  assume "k < 208"
  then have "k div 8 < 26" by (simp add: less_mult_imp_div_less)
  then show "IBLOCK k mkfs_sb < 58" by (simp add: IBLOCK_def mkfs_sb_simps IPB_def BSIZE_def DINODE_SIZE_def)
qed

lemma winode_ok:
  assumes len: "length (img s) = FSSIZE" "\<forall>b < FSSIZE. length (blk s b) = BSIZE" and sb: "mk_sb s = mkfs_sb" and k: "k < 208" and d: "length (di_addrs d) = NDIRECT + 1"
  shows "succeeds (winode k d s) (\<lambda>t. (\<forall>j. dino (blk t) mkfs_sb j = (if j = k then d else dino (blk s) mkfs_sb j)) \<and>
    (\<forall>b. \<not> (32 \<le> b \<and> b < 58) \<longrightarrow> blk t b = blk s b) \<and> (\<forall>b < FSSIZE. length (blk t b) = BSIZE) \<and> length (img t) = FSSIZE \<and> mk_sb t = mkfs_sb \<and>
    freeinode t = freeinode s \<and> freeblock t = freeblock s)"
proof -
  let ?b = "IBLOCK k mkfs_sb"
  have b: "?b < FSSIZE" "32 \<le> ?b" "?b < 58" using IBLOCK_mkfs [of k] k by (simp_all add: FSSIZE_def)
  let ?t = "wsect ?b (put_dinode (dpos k) d (blk s ?b)) s"
  have w: "winode k d s = Inr ?t" using b(1) len(1) sb by (simp add: winode_def rsect_blk Let_def)
  have bt: "blk ?t = (blk s)(?b := put_dinode (dpos k) d (blk s ?b))" using b(1) len(1) by (simp add: blk_wsect)
  have lb: "length (blk s ?b) = BSIZE" using len(2) b(1) by simp
  show ?thesis unfolding w using dino_put [where V = "blk s", OF lb d] b len sb by (auto simp: bt)
qed

lemma rinode_ok: "length (img s) = FSSIZE \<Longrightarrow> mk_sb s = mkfs_sb \<Longrightarrow> k < 208 \<Longrightarrow> rinode k s = Inr (dino (blk s) mkfs_sb k)"
  using IBLOCK_mkfs(1) [of k] by (simp add: rinode_def rsect_blk dino_def FSSIZE_def)

lemma sum_upd:
  fixes f :: "'a \<Rightarrow> nat"
  assumes "finite I" and "k \<in> I"
  shows "(\<Sum>j \<in> I. f ((A(k := a)) j)) + f (A k) = (\<Sum>j \<in> I. f (A j)) + f a"
proof -
  have "(\<Sum>j \<in> I - {k}. f ((A(k := a)) j)) = (\<Sum>j \<in> I - {k}. f (A j))" by (rule sum.cong) auto
  then show ?thesis using sum.remove [OF assms, of "\<lambda>j. f ((A(k := a)) j)"] sum.remove [OF assms, of "\<lambda>j. f (A j)"] by simp
qed

lemma iappend_ok:
  assumes inv: "mkfs_inv s A T" and k: "k \<in> {1..<freeinode s}" and len: "length (A k) + length p \<le> MAXFILE * BSIZE"
    and room: "freeblock s + nslots (length (A k) + length p) \<le> FSSIZE + nslots (length (A k))"
  shows "succeeds (iappend k p s) (\<lambda>t. mkfs_inv t (A(k := A k @ p)) T \<and> freeinode t = freeinode s \<and>
    freeblock t + nslots (length (A k)) = freeblock s + nslots (length (A k) + length p))"
proof -
  let ?D = "dino (blk s) mkfs_sb" and ?I = "{1..<freeinode s}" and ?S = "\<lambda>k. slots_for (length (A k))"
  note iv = inv [unfolded mkfs_inv_def]
  have li: "length (img s) = FSSIZE" and sb: "mk_sb s = mkfs_sb" and k2: "k < 208" and f: "files_ok (blk s) ?D (freeblock s) ?I ?S A" using iv k by auto
  have off: "unat (di_size (?D k)) = length (A k)" using iv k by simp
  have f0: "files_ok (blk s) (?D(k := ?D k)) (freeblock s) ?I ?S A" using f by simp
  have rm: "freeblock s + card (slots_for (length (A k) + length p)) \<le> FSSIZE + card (slots_for (length (A k)))" using room by (simp add: card_slots(2))
  obtain d1 s1 where l: "iappend_loop (?D k) (length (A k)) p s = Inr (d1, length (A k) + length p, s1)"
    and f1: "files_ok (blk s1) (?D(k := d1)) (freeblock s1) ?I (?S(k := slots_for (length (A k) + length p))) (A(k := A k @ p))"
    and fb: "freeblock s1 + nslots (length (A k)) = freeblock s + nslots (length (A k) + length p)" and m: "same_meta s s1" "same_kind (?D k) d1"
    using iappend_loop_ok [OF f0 k li refl refl len rm] by (auto simp: succeeds_iff card_slots(2))
  let ?off = "length (A k) + length p" and ?A = "A(k := A k @ p)"
  have lt: "?off < 2 ^ 32" using len by (simp add: MAXFILE_def NINDIRECT_def NDIRECT_def BSIZE_def)
  let ?d = "d1\<lparr>di_size := of_nat ?off\<rparr>"
  have la: "length (di_addrs ?d) = NDIRECT + 1" using files_okD(5) [OF f1 k] by simp
  have s1: "length (img s1) = FSSIZE" "mk_sb s1 = mkfs_sb" "freeinode s1 = freeinode s" "\<forall>b < nmeta. blk s1 b = blk s b" using m(1) li sb by (simp_all add: same_meta_def)
  have l1: "\<forall>b < FSSIZE. length (blk s1 b) = BSIZE" using files_okD(3) [OF f1] by simp
  obtain t where t: "winode k ?d s1 = Inr t" and dt: "\<And>j. dino (blk t) mkfs_sb j = (if j = k then ?d else dino (blk s1) mkfs_sb j)"
    and bt: "\<And>b. \<not> (32 \<le> b \<and> b < 58) \<Longrightarrow> blk t b = blk s1 b" "\<forall>b < FSSIZE. length (blk t b) = BSIZE"
    and mt: "length (img t) = FSSIZE" "mk_sb t = mkfs_sb" "freeinode t = freeinode s" "freeblock t = freeblock s1"
    using winode_ok [OF s1(1) l1 s1(2) k2 la] s1(3) by (auto simp: succeeds_iff)
  have d1: "dino (blk s1) mkfs_sb j = ?D j" if "j < 208" for j using s1(4) IBLOCK_mkfs [of j] that by (simp add: dino_def nmeta_pos(2))
  have SA: "(?S(k := slots_for ?off)) = (\<lambda>j. slots_for (length (?A j)))" by (auto simp: fun_eq_iff)
  have "files_ok (blk t) (dino (blk t) mkfs_sb) (freeblock s1) ?I (\<lambda>j. slots_for (length (?A j))) ?A"
    by (rule files_ok_cong [OF f1 [unfolded SA]]) (use bt dt d1 iv in \<open>auto simp: nmeta_pos(2)\<close>)
  moreover have "unat (di_size (dino (blk t) mkfs_sb j)) = length (?A j) \<and> di_type (dino (blk t) mkfs_sb j) = T j \<and> di_nlink (dino (blk t) mkfs_sb j) = 1" if "j \<in> ?I" for j
    using that iv dt d1 m(2) unat_of_nat32 [OF lt] by (auto simp: same_kind_def)
  moreover have "freeblock t = nmeta + (\<Sum>j \<in> ?I. nslots (length (?A j)))"
    using sum_upd [OF _ k, of "\<lambda>x. nslots (length x)" A "A k @ p"] fb mt(4) iv by simp
  moreover have "blk t b = blk s b" if "b < 32" for b using bt(1) [of b] s1(4) that nmeta_pos by simp
  then have "blk t 1 = sb_block mkfs_sb" "\<forall>b \<in> {2..<32}. blk t b = zeroes" using iv by auto
  ultimately have "mkfs_inv t ?A T" using mt iv by (simp add: mkfs_inv_def)
  moreover have "iappend k p s = Inr t" using rinode_ok [OF li sb k2] off l t by (simp add: iappend_def)
  ultimately show ?thesis using mt(3,4) fb by simp
qed

section \<open>Inodes and files\<close>

lemma files_ok_on: "(\<And>k. k \<in> I \<Longrightarrow> B k = A k \<and> R k = S k) \<Longrightarrow> files_ok V D fb I S A \<Longrightarrow> files_ok V D fb I R B"
  unfolding files_ok_def by simp

lemma files_ok_insert:
  assumes f: "files_ok V D fb I S A" and k: "S k = {}" "A k = []" "di_addrs (D k) = replicate (NDIRECT + 1) 0"
  shows "files_ok V D fb (insert k I) S A"
proof -
  have "addr_at V (D k) p = 0" if "p \<le> NDIRECT" for p using that k(3) nth_replicate [of p "NDIRECT + 1" 0] by (simp add: addr_at_def del: replicate.simps nth_replicate)
  then show ?thesis using f k unfolding files_ok_def by (simp add: visible_def)
qed

lemma mkfs_ialloc_ok:
  assumes inv: "mkfs_inv s A T" and lt: "freeinode s < 208"
  shows "succeeds (mkfs_ialloc ty s) (\<lambda>(k, t). k = freeinode s \<and> freeinode t = Suc (freeinode s) \<and> freeblock t = freeblock s \<and>
    mkfs_inv t (A(freeinode s := [])) (T(freeinode s := ty)))"
proof -
  let ?k = "freeinode s" and ?I = "{1..<freeinode s}"
  let ?d = "\<lparr>di_type = ty, di_major = 0, di_minor = 0, di_nlink = 1, di_size = 0, di_addrs = replicate (NDIRECT + 1) 0\<rparr>"
  let ?s = "s\<lparr>freeinode := freeinode s + 1\<rparr>" and ?A = "A(freeinode s := [])"
  note iv = inv [unfolded mkfs_inv_def]
  have f: "files_ok (blk s) (dino (blk s) mkfs_sb) (freeblock s) ?I (\<lambda>k. slots_for (length (A k))) A" using iv by blast
  have pre: "length (img ?s) = FSSIZE" "\<forall>b < FSSIZE. length (blk ?s b) = BSIZE" "mk_sb ?s = mkfs_sb" "length (di_addrs ?d) = NDIRECT + 1"
    using iv files_okD(3) [OF f] by simp_all
  obtain t where t: "winode ?k ?d ?s = Inr t" and dt: "\<And>j. dino (blk t) mkfs_sb j = (if j = ?k then ?d else dino (blk s) mkfs_sb j)"
    and bt: "\<And>b. \<not> (32 \<le> b \<and> b < 58) \<Longrightarrow> blk t b = blk s b" "\<forall>b < FSSIZE. length (blk t b) = BSIZE"
    and mt: "length (img t) = FSSIZE" "mk_sb t = mkfs_sb" "freeinode t = Suc ?k" "freeblock t = freeblock s"
    using winode_ok [OF pre(1-3) lt pre(4)] by (auto simp: succeeds_iff)
  have I: "{1..<Suc ?k} = insert ?k ?I" "finite ?I" "?k \<notin> ?I" using iv by auto
  have z: "slots_for 0 = {}" "nslots 0 = 0" by (simp_all add: slots_for_def nslots_def nblk_def BSIZE_def)
  have "files_ok (blk t) (dino (blk t) mkfs_sb) (freeblock s) ?I (\<lambda>k. slots_for (length (A k))) A"
    by (rule files_ok_cong [OF f]) (use bt dt in \<open>auto simp: nmeta_pos(2)\<close>)
  then have "files_ok (blk t) (dino (blk t) mkfs_sb) (freeblock s) ?I (\<lambda>k. slots_for (length (?A k))) ?A"
    by (rule files_ok_on [rotated]) auto
  then have "files_ok (blk t) (dino (blk t) mkfs_sb) (freeblock s) (insert ?k ?I) (\<lambda>k. slots_for (length (?A k))) ?A"
    by (rule files_ok_insert) (simp_all add: z dt)
  moreover have "(\<Sum>k \<in> ?I. nslots (length (?A k))) = (\<Sum>k \<in> ?I. nslots (length (A k)))" by (rule sum.cong) auto
  then have "(\<Sum>k \<in> insert ?k ?I. nslots (length (?A k))) = (\<Sum>k \<in> ?I. nslots (length (A k)))"
    unfolding sum.insert [OF I(2,3)] by (simp only: fun_upd_same list.size z add_0)
  ultimately have "mkfs_inv t ?A (T(?k := ty))" unfolding mkfs_inv_def mt I(1) using iv lt dt bt(1) by auto
  moreover have "mkfs_ialloc ty s = Inr (?k, t)" using t by (simp add: mkfs_ialloc_def)
  ultimately show ?thesis using mt by simp
qed

lemma nslots_mono: "n \<le> m \<Longrightarrow> nslots n \<le> nslots m"
  using card_mono [OF card_slots(1) slots_mono] by (simp add: card_slots(2))

lemma copy_file_ok:
  assumes "mkfs_inv s A T" and "k \<in> {1..<freeinode s}" and "length (A k) + length xs \<le> MAXFILE * BSIZE"
    and "freeblock s + nslots (length (A k) + length xs) \<le> FSSIZE + nslots (length (A k))"
  shows "succeeds (copy_file k xs s) (\<lambda>t. mkfs_inv t (A(k := A k @ xs)) T \<and> freeinode t = freeinode s \<and>
    freeblock t + nslots (length (A k)) = freeblock s + nslots (length (A k) + length xs))"
  using assms
proof (induction "length xs" arbitrary: xs s A rule: less_induct)
  case less
  show ?case
  proof (cases "xs = []")
    case True
    then show ?thesis using less.prems by (simp add: copy_file.simps)
  next
    case False
    let ?p = "take BSIZE xs" and ?q = "drop BSIZE xs"
    have pq: "length ?p + length ?q = length xs" by simp
    have le: "length (A k) + length ?p \<le> MAXFILE * BSIZE" using less.prems(3) pq by linarith
    have "nslots (length (A k) + length ?p) \<le> nslots (length (A k) + length xs)" using pq by (intro nslots_mono) simp
    then have rm: "freeblock s + nslots (length (A k) + length ?p) \<le> FSSIZE + nslots (length (A k))" using less.prems(4) by linarith
    obtain t where t: "iappend k ?p s = Inr t" "mkfs_inv t (A(k := A k @ ?p)) T" "freeinode t = freeinode s"
      "freeblock t + nslots (length (A k)) = freeblock s + nslots (length (A k) + length ?p)"
      using iappend_ok [OF less.prems(1,2) le rm] by (auto simp: succeeds_iff)
    let ?A = "A(k := A k @ ?p)"
    have ll: "length (?A k) + length ?q = length (A k) + length xs" using pq by simp
    have "succeeds (copy_file k ?q t) (\<lambda>u. mkfs_inv u (?A(k := ?A k @ ?q)) T \<and> freeinode u = freeinode t \<and>
      freeblock u + nslots (length (?A k)) = freeblock t + nslots (length (?A k) + length ?q))"
    proof (rule less.hyps [OF _ t(2)])
      show "length ?q < length xs" using False by (simp add: BSIZE_def)
      show "k \<in> {1..<freeinode t}" using less.prems(2) t(3) by simp
      show "length (?A k) + length ?q \<le> MAXFILE * BSIZE" unfolding ll by (rule less.prems(3))
      show "freeblock t + nslots (length (?A k) + length ?q) \<le> FSSIZE + nslots (length (?A k))" unfolding ll using less.prems(4) t(4) by simp
    qed
    then show ?thesis unfolding ll using t False by (auto simp: copy_file.simps [of k xs] succeeds_iff)
  qed
qed

lemma length_mkfs_dirent [simp]: "length (mkfs_dirent k n) = DIRENT_SIZE"
  by (simp add: mkfs_dirent_def dirent_bytes_def DIRENT_SIZE_def DIRSIZ_def)

lemma add_file_ok:
  assumes inv: "mkfs_inv s A T" and k: "1 < freeinode s" "freeinode s < 208" and n: "47 \<notin> set n"
    and len: "length (A 1) + DIRENT_SIZE \<le> MAXFILE * BSIZE" "length xs \<le> MAXFILE * BSIZE"
    and room: "freeblock s + nslots (length (A 1) + DIRENT_SIZE) + nslots (length xs) \<le> FSSIZE + nslots (length (A 1))"
  shows "succeeds (add_file 1 (n, xs) s) (\<lambda>t. mkfs_inv t (A(freeinode s := xs, 1 := A 1 @ mkfs_dirent (freeinode s) (image_name n))) (T(freeinode s := T_FILE)) \<and>
    freeinode t = Suc (freeinode s) \<and> freeblock t + nslots (length (A 1)) = freeblock s + nslots (length (A 1) + DIRENT_SIZE) + nslots (length xs))"
proof -
  let ?k = "freeinode s" and ?e = "mkfs_dirent (freeinode s) (image_name n)"
  obtain t where t: "mkfs_ialloc T_FILE s = Inr (?k, t)" "freeinode t = Suc ?k" "freeblock t = freeblock s" "mkfs_inv t (A(?k := [])) (T(?k := T_FILE))"
    using mkfs_ialloc_ok [OF inv k(2), of T_FILE] by (auto simp: succeeds_iff)
  let ?A = "A(?k := [])"
  have A1: "?A 1 = A 1" using k(1) by simp
  have p1: "1 \<in> {1..<freeinode t}" "length (?A 1) + length ?e \<le> MAXFILE * BSIZE" "freeblock t + nslots (length (?A 1) + length ?e) \<le> FSSIZE + nslots (length (?A 1))"
    using t(2,3) k(1) len(1) room by simp_all
  from iappend_ok [OF t(4) p1, unfolded A1 length_mkfs_dirent succeeds_iff]
  obtain u where u: "iappend 1 ?e t = Inr u" "mkfs_inv u (?A(1 := A 1 @ ?e)) (T(?k := T_FILE))" "freeinode u = freeinode t"
    "freeblock u + nslots (length (A 1)) = freeblock t + nslots (length (A 1) + DIRENT_SIZE)" by blast
  let ?B = "?A(1 := A 1 @ ?e)"
  have B: "?B ?k = []" using k(1) by simp
  have z: "nslots 0 = 0" by (simp add: nslots_def nblk_def BSIZE_def)
  have p2: "?k \<in> {1..<freeinode u}" "length (?B ?k) + length xs \<le> MAXFILE * BSIZE" "freeblock u + nslots (length (?B ?k) + length xs) \<le> FSSIZE + nslots (length (?B ?k))"
    using u(3,4) t(2,3) k(1) len(2) room z unfolding B by simp_all
  have e: "?B(?k := [] @ xs) = A(?k := xs, 1 := A 1 @ ?e)" using k(1) by (auto simp: fun_eq_iff)
  from copy_file_ok [OF u(2) p2, unfolded B, unfolded e list.size z add_0 add_0_right succeeds_iff]
  obtain w where w: "copy_file ?k xs u = Inr w" "mkfs_inv w (A(?k := xs, 1 := A 1 @ ?e)) (T(?k := T_FILE))" "freeinode w = freeinode u"
    "freeblock w = freeblock u + nslots (length xs)" by blast
  then show ?thesis using t u n by (simp add: add_file_def)
qed

fun dirents :: "nat \<Rightarrow> (u8 list \<times> u8 list) list \<Rightarrow> u8 list" where
  "dirents k [] = []"
| "dirents k ((n, xs) # fs) = mkfs_dirent k (image_name n) @ dirents (Suc k) fs"

lemma length_dirents [simp]: "length (dirents k fs) = DIRENT_SIZE * length fs"
  by (induction k fs rule: dirents.induct) simp_all

text \<open>The contents and types of the inodes after the files have got the numbers from \<open>k\<close> on.\<close>

definition added :: "nat \<Rightarrow> (u8 list \<times> u8 list) list \<Rightarrow> (nat \<Rightarrow> u8 list) \<Rightarrow> (nat \<Rightarrow> 16 word) \<Rightarrow> (nat \<Rightarrow> u8 list) \<Rightarrow> (nat \<Rightarrow> 16 word) \<Rightarrow> bool" where
  "added k fs A T B U \<longleftrightarrow> B 1 = A 1 @ dirents k fs \<and> (\<forall>j < length fs. B (k + j) = snd (fs ! j) \<and> U (k + j) = T_FILE) \<and>
     (\<forall>j < k. U j = T j \<and> (j \<noteq> 1 \<longrightarrow> B j = A j))"

lemma added_Cons:
  assumes "added (Suc k) fs (A(k := xs, 1 := A 1 @ mkfs_dirent k (image_name n))) (T(k := T_FILE)) B U" and "1 < k"
  shows "added k ((n, xs) # fs) A T B U"
proof -
  have "B (k + j) = snd (((n, xs) # fs) ! j) \<and> U (k + j) = T_FILE" if "j < Suc (length fs)" for j
    using assms that by (cases j) (auto simp: added_def)
  then show ?thesis using assms by (simp add: added_def)
qed

lemma add_files_ok:
  assumes "mkfs_inv s A T" and "1 < freeinode s" and "freeinode s + length fs \<le> 208" and "\<forall>(n, xs) \<in> set fs. 47 \<notin> set n \<and> length xs \<le> MAXFILE * BSIZE"
    and "length (A 1) + DIRENT_SIZE * length fs \<le> MAXFILE * BSIZE"
    and "freeblock s + nslots (length (A 1) + DIRENT_SIZE * length fs) + (\<Sum>(n, xs) \<leftarrow> fs. nslots (length xs)) \<le> FSSIZE + nslots (length (A 1))"
  shows "succeeds (foldE (add_file 1) fs s) (\<lambda>t. (\<exists>B U. mkfs_inv t B U \<and> added (freeinode s) fs A T B U) \<and> freeinode t = freeinode s + length fs \<and>
    freeblock t + nslots (length (A 1)) = freeblock s + nslots (length (A 1) + DIRENT_SIZE * length fs) + (\<Sum>(n, xs) \<leftarrow> fs. nslots (length xs)))"
  using assms
proof (induction fs arbitrary: s A T)
  case Nil
  then show ?case by (auto simp: added_def)
next
  case (Cons f fs)
  obtain n xs where f: "f = (n, xs)" by fastforce
  let ?k = "freeinode s"
  let ?A = "A(?k := xs, 1 := A 1 @ mkfs_dirent ?k (image_name n))" and ?T = "T(?k := T_FILE)"
  let ?L = "length (A 1) + DIRENT_SIZE"
  have L: "length (A 1) + DIRENT_SIZE * length (f # fs) = ?L + DIRENT_SIZE * length fs" by simp
  have A1: "length (?A 1) = ?L" by simp
  have mono: "nslots ?L \<le> nslots (?L + DIRENT_SIZE * length fs)" by (rule nslots_mono) simp
  have pre: "?k < 208" "47 \<notin> set n" "?L \<le> MAXFILE * BSIZE" "length xs \<le> MAXFILE * BSIZE"
    "freeblock s + nslots ?L + nslots (length xs) \<le> FSSIZE + nslots (length (A 1))"
    using Cons.prems(3-6) mono unfolding L by (simp_all add: f)
  from add_file_ok [OF Cons.prems(1,2) pre, unfolded succeeds_iff]
  obtain t where t: "add_file 1 (n, xs) s = Inr t" "mkfs_inv t ?A ?T" "freeinode t = Suc ?k"
    "freeblock t + nslots (length (A 1)) = freeblock s + nslots ?L + nslots (length xs)" by blast
  have "succeeds (foldE (add_file 1) fs t) (\<lambda>u. (\<exists>B U. mkfs_inv u B U \<and> added (freeinode t) fs ?A ?T B U) \<and> freeinode u = freeinode t + length fs \<and>
    freeblock u + nslots (length (?A 1)) = freeblock t + nslots (length (?A 1) + DIRENT_SIZE * length fs) + (\<Sum>(n, xs) \<leftarrow> fs. nslots (length xs)))"
    by (rule Cons.IH [OF t(2)]) (use Cons.prems(2-6) t(3,4) in \<open>simp_all only: A1 L, simp_all add: f\<close>)
  from this [unfolded A1 succeeds_iff] obtain u B U where u: "foldE (add_file 1) fs t = Inr u" "mkfs_inv u B U" "added (Suc ?k) fs ?A ?T B U" "freeinode u = Suc ?k + length fs"
    "freeblock u + nslots ?L = freeblock t + nslots (?L + DIRENT_SIZE * length fs) + (\<Sum>(n, xs) \<leftarrow> fs. nslots (length xs))" unfolding t(3) by blast
  have "added ?k (f # fs) A T B U" unfolding f by (rule added_Cons [OF u(3) Cons.prems(2)])
  then show ?case unfolding L using t u by (auto simp: f)
qed

section \<open>The finished image\<close>

text \<open>Inode \<open>k\<close> holds \<open>c\<close>: its blocks are in order for the kernel (\<open>file_ok\<close>), and past the end of \<open>c\<close> its last block is zero.\<close>

definition holds_file :: "log \<Rightarrow> (nat \<Rightarrow> block) \<Rightarrow> nat \<Rightarrow> 16 word \<Rightarrow> u8 list \<Rightarrow> nat \<Rightarrow> bool" where
  "holds_file l V k ty c sz \<longleftrightarrow> (let d = dino V mkfs_sb k in di_type d = ty \<and> di_nlink d = 1 \<and> unat (di_size d) = sz \<and>
     file_ok l (IBLOCK k mkfs_sb) V d (nblk (length c)) \<and> (\<forall>i < nblk (length c) * BSIZE. fbyte V d i = (if i < length c then c ! i else 0)))"

lemma slot_in: "bn < nblk n \<Longrightarrow> data_slot bn \<in> slots_for n" and ind_in: "NDIRECT < nblk n \<Longrightarrow> NDIRECT \<in> slots_for n"
  by (auto simp: slots_for_def)

lemma files_ok_kernel:
  assumes f: "files_ok V (dino V mkfs_sb) fb I (\<lambda>k. slots_for (length (A k))) A" and k: "k \<in> I" "k < 208" and l: "log_area l = {2..<32}"
  shows "file_ok l (IBLOCK k mkfs_sb) V (dino V mkfs_sb k) (nblk (length (A k)))"
    and "i < nblk (length (A k)) * BSIZE \<Longrightarrow> fbyte V (dino V mkfs_sb k) i = (if i < length (A k) then A k ! i else 0)"
proof -
  let ?d = "dino V mkfs_sb k" and ?m = "nblk (length (A k))"
  note g = files_okD [OF f]
  have B: "0 < BSIZE" by (simp add: BSIZE_def)
  have ib: "IBLOCK k mkfs_sb < 58" "32 \<le> IBLOCK k mkfs_sb" using IBLOCK_mkfs [of k] k(2) by simp_all
  have fa: "fblk V ?d bn = unat (addr_at V ?d (data_slot bn))" for bn by (simp add: fblk_def baddr_slot)
  have at: "nmeta \<le> fblk V ?d bn" "fblk V ?d bn < FSSIZE" if "bn < ?m" for bn
    using g(2) g(8,9) [OF k(1) slot_in [OF that]] by (simp_all add: fa)
  have nd: "nmeta \<le> unat (di_addrs ?d ! NDIRECT)" "unat (di_addrs ?d ! NDIRECT) < FSSIZE" if "NDIRECT < ?m"
    using g(2) g(8,9) [OF k(1) ind_in [OF that]] by (simp_all add: addr_at_ind)
  have ne: "fblk V ?d bn \<noteq> unat (di_addrs ?d ! NDIRECT)" if "bn < ?m" "NDIRECT < ?m" for bn
    using g(13) [OF k(1) k(1) slot_in [OF that(1)] ind_in [OF that(2)]] by (auto simp: fa addr_at_ind word_unat_eq_iff)
  have inj: "a = b" if "a < ?m" "b < ?m" "fblk V ?d a = fblk V ?d b" for a b
    using g(13) [OF k(1) k(1) slot_in [OF that(1)] slot_in [OF that(2)]] that(3) by (auto simp: fa word_unat_eq_iff)
  have m: "?m \<le> MAXFILE" using g(6) [OF k(1) slot_in [of "?m - 1"]] by (cases ?m) auto
  have nz: "baddr V ?d bn \<noteq> 0" if "bn < ?m" for bn using at(1) [OF that] nmeta_pos by (auto simp: fblk_def)
  have nd0: "di_addrs ?d ! NDIRECT \<noteq> 0" if "NDIRECT < ?m" using nd(1) [OF that] nmeta_pos by auto
  show "file_ok l (IBLOCK k mkfs_sb) V ?d ?m"
    unfolding file_ok_def l
  proof (intro conjI allI impI)
    fix bn
    assume bn: "bn < ?m"
    show "fblk V ?d bn \<notin> {2..<32}" "fblk V ?d bn \<noteq> IBLOCK k mkfs_sb" "length (V (fblk V ?d bn)) = BSIZE"
      using at [OF bn] ib g(3) nmeta_pos(2) by auto
  next
    assume "NDIRECT < ?m"
    then show "unat (di_addrs ?d ! NDIRECT) \<noteq> IBLOCK k mkfs_sb" using nd ib nmeta_pos(2) by simp
  qed (use m g(3,5) k(1) ib at nd ne inj nz nd0 in \<open>auto simp: FSSIZE_def\<close>)
  assume i: "i < ?m * BSIZE"
  then have "i div BSIZE < ?m" by (rule less_mult_imp_div_less)
  then show "fbyte V ?d i = (if i < length (A k) then A k ! i else 0)"
    using g(12) [OF k(1) slot_in, of "i div BSIZE" "i mod BSIZE"] B by (simp add: fbyte_def fa)
qed

lemma bitmap_block:
  assumes "n \<le> BPB"
  shows "length (fold set_used [0..<n] zeroes) = BSIZE" and "b < BPB \<Longrightarrow> bit_used (fold set_used [0..<n] zeroes) b \<longleftrightarrow> b < n"
  using assms
proof (induction n)
  case 0
  {
    case 1
    show ?case by (simp add: zeroes_def)
  next
    case 2
    then show ?case by (simp add: zeroes_def bit_used_def BPB_def less_mult_imp_div_less)
  }
next
  case (Suc n)
  {
    case 1
    then show ?case using Suc.IH(1) by (simp add: set_used_def)
  next
    case 2
    then have "n div 8 < length (fold set_used [0..<n] zeroes)" using Suc.IH(1) by (simp add: BPB_def less_mult_imp_div_less)
    then show ?case using 2 Suc.IH(2) by (auto simp: bit_used_set)
  }
qed

lemma zero_image:
  "fold (\<lambda>i. wsect i zeroes) [0..<n] \<lparr>img = [], mk_sb = b, freeinode = i, freeblock = k\<rparr> =
    \<lparr>img = replicate n zeroes, mk_sb = b, freeinode = i, freeblock = k\<rparr>"
  by (induction n) (simp_all add: wsect_def replicate_append_same)

lemma empty_image_ok: "mkfs_inv empty_image A T" and empty_image_sel: "freeinode empty_image = 1" "freeblock empty_image = nmeta"
proof -
  let ?s = "\<lparr>img = replicate FSSIZE zeroes, mk_sb = mkfs_sb, freeinode = 1, freeblock = nmeta\<rparr>"
  have e: "empty_image = wsect 1 (sb_block mkfs_sb) ?s" by (simp only: empty_image_def zero_image)
  have F: "1 < FSSIZE" "nmeta \<le> FSSIZE" by (simp_all add: FSSIZE_def nmeta_pos(2))
  show "freeinode empty_image = 1" "freeblock empty_image = nmeta" by (simp_all add: e)
  have b: "blk empty_image = (blk ?s)(1 := sb_block mkfs_sb)" unfolding e using F by (intro blk_wsect) simp
  have z: "blk ?s b = zeroes" if "b < FSSIZE" for b using that by (simp add: blk_def)
  have "length (sb_block mkfs_sb) = BSIZE" by (simp add: sb_block_def zeroes_def)
  then have "files_ok (blk empty_image) D nmeta {} S A" for D S using F z nmeta_pos by (auto simp: files_ok_def b zeroes_def)
  moreover have "\<forall>b \<in> {2..<32}. blk empty_image b = zeroes" using z by (simp add: b FSSIZE_def)
  moreover have "blk empty_image 1 = sb_block mkfs_sb" "length (img empty_image) = FSSIZE" "mk_sb empty_image = mkfs_sb" "freeinode empty_image = 1" "freeblock empty_image = nmeta"
    using F by (simp_all add: b) (simp_all add: e)
  ultimately show "mkfs_inv empty_image A T" by (simp add: mkfs_inv_def)
qed

definition file_area :: "(nat \<Rightarrow> block) \<Rightarrow> nat \<Rightarrow> nat \<Rightarrow> nat set" where
  "file_area V k n = (\<lambda>p. unat (addr_at V (dino V mkfs_sb k) p)) ` slots_for n"

text \<open>An image in order: the superblock, a bitmap that marks exactly the blocks below \<open>used\<close>, and the inodes 1 to \<open>n - 1\<close> with the types \<open>U\<close>, the contents \<open>B\<close> and
  the sizes \<open>Z\<close>, whose data and indirect blocks are in use and do not overlap.\<close>

definition image_ok :: "log \<Rightarrow> nat \<Rightarrow> nat \<Rightarrow> (nat \<Rightarrow> 16 word) \<Rightarrow> (nat \<Rightarrow> u8 list) \<Rightarrow> (nat \<Rightarrow> nat) \<Rightarrow> mkfs_st \<Rightarrow> bool" where
  "image_ok l n used U B Z s \<longleftrightarrow> length (img s) = FSSIZE \<and> decode_sb (blk s 1) = mkfs_sb \<and> (\<forall>b \<in> {2..<32}. blk s b = zeroes) \<and> bitmap_ok mkfs_sb l (blk s) \<and>
     (\<forall>b < FSSIZE. blk_used (blk s) mkfs_sb b \<longleftrightarrow> b < used) \<and>
     (\<forall>k \<in> {1..<n}. holds_file l (blk s) k (U k) (B k) (Z k) \<and> file_area (blk s) k (length (B k)) \<subseteq> {nmeta..<used}) \<and>
     (\<forall>k \<in> {1..<n}. \<forall>j \<in> {1..<n}. k \<noteq> j \<longrightarrow> file_area (blk s) k (length (B k)) \<inter> file_area (blk s) j (length (B j)) = {})"

lemma decode_sb_block: "decode_sb (sb_block b) = b"
proof -
  have "length zeroes = 512" by (simp add: zeroes_def BSIZE_def)
  then show ?thesis by (simp add: decode_sb_def sb_block_def)
qed

lemma files_ok_area:
  assumes f: "files_ok V (dino V mkfs_sb) fb I (\<lambda>k. slots_for (length (A k))) A" and k: "k \<in> I" "j \<in> I"
  shows "file_area V k (length (A k)) \<subseteq> {nmeta..<fb}" and "k \<noteq> j \<Longrightarrow> file_area V k (length (A k)) \<inter> file_area V j (length (A j)) = {}"
  using files_okD(8,9) [OF f k(1)] files_okD(13) [OF f k] by (auto simp: file_area_def word_unat_eq_iff)

lemma mkfs_bitmap:
  assumes b: "\<forall>c < BPB. bit_used (V 58) c \<longleftrightarrow> c < used" "length (V 58) = BSIZE" and u: "nmeta \<le> used" and l: "log_area l = {2..<32}"
  shows "b < FSSIZE \<Longrightarrow> blk_used V mkfs_sb b \<longleftrightarrow> b < used" and "bitmap_ok mkfs_sb l V"
proof -
  have F: "FSSIZE < BPB" by (simp add: FSSIZE_def BPB_def BSIZE_def)
  have bb: "BBLOCK c mkfs_sb = 58" if "c < FSSIZE" for c using that F by (simp add: BBLOCK_def mkfs_sb_simps)
  have used: "blk_used V mkfs_sb c \<longleftrightarrow> c < used" if "c < FSSIZE" for c using that F b(1) bb [OF that] by (simp add: blk_used_def)
  then show "b < FSSIZE \<Longrightarrow> blk_used V mkfs_sb b \<longleftrightarrow> b < used" .
  have s: "unat (sb_size mkfs_sb) = FSSIZE" by (simp add: mkfs_sb_simps FSSIZE_def)
  have lt: "c < FSSIZE" if "c < 59" for c using that by (simp add: FSSIZE_def)
  have "blk_used V mkfs_sb c" if "c < 59" for c using used [OF lt [OF that]] u that by (simp add: nmeta_pos(2))
  then show "bitmap_ok mkfs_sb l V" unfolding bitmap_ok_def s l using bb b(2) lt by auto
qed

definition finish :: "mkfs_st \<Rightarrow> kerr + mkfs_st" where
  "finish s = bindE (rinode ROOTINO s) (\<lambda>din.
     let off = unat (xint (di_size din)); off1 = (off div BSIZE + 1) * BSIZE in
     bindE (winode ROOTINO (din\<lparr>di_size := xint (of_nat off1)\<rparr>) s) (\<lambda>s5. mkfs_balloc (freeblock s5) s5))"

definition final_size :: "(nat \<Rightarrow> u8 list) \<Rightarrow> nat \<Rightarrow> nat" where
  "final_size B k = (if k = ROOTINO then (length (B k) div BSIZE + 1) * BSIZE else length (B k))"

lemma finish_ok:
  assumes inv: "mkfs_inv s B U" and k: "1 < freeinode s" and len: "length (B 1) \<le> MAXFILE * BSIZE" and l: "log_area l = {2..<32}"
  shows "succeeds (finish s) (image_ok l (freeinode s) (freeblock s) U B (final_size B))"
proof -
  let ?D = "dino (blk s) mkfs_sb" and ?I = "{1..<freeinode s}" and ?S = "\<lambda>k. slots_for (length (B k))"
  note iv = inv [unfolded mkfs_inv_def]
  have li: "length (img s) = FSSIZE" and sb: "mk_sb s = mkfs_sb" and f: "files_ok (blk s) ?D (freeblock s) ?I ?S B" using iv by auto
  note g = files_okD [OF f]
  let ?d = "(?D 1)\<lparr>di_size := of_nat (final_size B 1)\<rparr>"
  have "final_size B 1 \<le> length (B 1) + BSIZE" by (simp add: final_size_def ROOTINO_def)
  then have sz: "final_size B 1 < 2 ^ 32" using len by (simp add: MAXFILE_def NINDIRECT_def NDIRECT_def BSIZE_def)
  have la: "length (di_addrs ?d) = NDIRECT + 1" and lb: "\<forall>b < FSSIZE. length (blk s b) = BSIZE" using g(3) g(5) [of 1] k by simp_all
  have k1: "(1::nat) < 208" by simp
  obtain t where t: "winode 1 ?d s = Inr t" and dt: "\<And>j. dino (blk t) mkfs_sb j = (if j = 1 then ?d else ?D j)"
    and bt: "\<And>b. \<not> (32 \<le> b \<and> b < 58) \<Longrightarrow> blk t b = blk s b" "\<forall>b < FSSIZE. length (blk t b) = BSIZE"
    and mt: "length (img t) = FSSIZE" "mk_sb t = mkfs_sb" "freeblock t = freeblock s"
    using winode_ok [OF li lb sb k1 la] by (auto simp: succeeds_iff)
  let ?u = "wsect 58 (fold set_used [0..<freeblock s] zeroes) t"
  have n: "freeblock s \<le> BPB" using g(2) by (simp add: FSSIZE_def BPB_def BSIZE_def)
  have "freeblock s < BSIZE * 8" using g(2) by (simp add: FSSIZE_def BSIZE_def)
  then have ba: "mkfs_balloc (freeblock t) t = Inr ?u" by (simp add: mkfs_balloc_def mt mkfs_sb_simps)
  have "unat (di_size (?D 1)) = length (B 1)" using iv k by simp
  then have r: "finish s = Inr ?u" using rinode_ok [OF li sb k1] t ba by (simp add: finish_def ROOTINO_def final_size_def Let_def)
  have bu: "blk ?u = (blk t)(58 := fold set_used [0..<freeblock s] zeroes)" using mt(1) by (intro blk_wsect) (simp add: FSSIZE_def)
  have du: "dino (blk ?u) mkfs_sb j = (if j = 1 then ?d else ?D j)" if "j < 208" for j
    using dt [of j] IBLOCK_mkfs [of j] that by (simp add: dino_def bu)
  have i208: "j < 208" if "j \<in> ?I" for j using that iv by simp
  have fu: "files_ok (blk ?u) (dino (blk ?u) mkfs_sb) (freeblock s) ?I ?S B"
    by (rule files_ok_cong [OF f]) (use bt bu du i208 bitmap_block(1) [OF n] in \<open>auto simp: nmeta_pos(2)\<close>)
  have used: "\<forall>c < BPB. bit_used (blk ?u 58) c \<longleftrightarrow> c < freeblock s" "length (blk ?u 58) = BSIZE" using bitmap_block [OF n] by (simp_all add: bu)
  have "holds_file l (blk ?u) j (U j) (B j) (final_size B j)" if "j \<in> ?I" for j
    using files_ok_kernel [OF fu that i208 [OF that] l] du [OF i208 [OF that]] iv that sz unat_of_nat32 [OF sz]
    by (auto simp: holds_file_def final_size_def ROOTINO_def)
  moreover have "decode_sb (blk ?u 1) = mkfs_sb" unfolding bu using iv bt(1) [of 1] by (simp add: decode_sb_block)
  moreover have "\<forall>b \<in> {2..<32}. blk ?u b = zeroes" unfolding bu using iv bt(1) by auto
  ultimately show ?thesis
    unfolding r using files_ok_area [OF fu] mkfs_bitmap [where V = "blk ?u", OF used g(1) l] mt(1) by (simp add: image_ok_def FSSIZE_def)
qed

section \<open>The whole program\<close>

definition image_contents :: "(u8 list \<times> u8 list) list \<Rightarrow> nat \<Rightarrow> u8 list" where
  "image_contents files k =
    (if k = ROOTINO then mkfs_dirent ROOTINO [46] @ mkfs_dirent ROOTINO [46, 46] @ dirents 2 files else snd (files ! (k - 2)))"

definition image_type :: "nat \<Rightarrow> 16 word" where
  "image_type k = (if k = ROOTINO then T_DIR else T_FILE)"

definition blocks_needed :: "(u8 list \<times> u8 list) list \<Rightarrow> nat" where
  "blocks_needed files = nmeta + nslots (DIRENT_SIZE * (length files + 2)) + (\<Sum>(n, xs) \<leftarrow> files. nslots (length xs))"

lemma mkfs_finish:
  assumes "mkfs_ialloc T_DIR empty_image = Inr (ROOTINO, s1)" and "iappend ROOTINO (mkfs_dirent ROOTINO [46]) s1 = Inr s2"
    and "iappend ROOTINO (mkfs_dirent ROOTINO [46, 46]) s2 = Inr s3" and "foldE (add_file ROOTINO) files s3 = Inr s4"
  shows "mkfs files = finish s4"
  using assms by (simp add: mkfs_def finish_def)

lemma image_ok_cong:
  assumes "image_ok l n u U B Z s" and "\<forall>k \<in> {1..<n}. U' k = U k \<and> B' k = B k \<and> Z' k = Z k"
  shows "image_ok l n u U' B' Z' s"
  using assms unfolding image_ok_def by simp

lemma dirent_root_ok:
  assumes inv: "mkfs_inv s A T" and k: "freeinode s = 2" and len: "length (A 1) + DIRENT_SIZE \<le> BSIZE" and room: "freeblock s + nslots (length (A 1) + DIRENT_SIZE) \<le> FSSIZE + nslots (length (A 1))"
  obtains t where "iappend 1 (mkfs_dirent j n) s = Inr t" and "mkfs_inv t (A(1 := A 1 @ mkfs_dirent j n)) T" and "freeinode t = 2"
    and "freeblock t + nslots (length (A 1)) = freeblock s + nslots (length (A 1) + DIRENT_SIZE)"
proof -
  have "length (A 1) + DIRENT_SIZE \<le> MAXFILE * BSIZE" using len by (simp add: MAXFILE_def NDIRECT_def NINDIRECT_def BSIZE_def)
  then have p: "1 \<in> {1..<freeinode s}" "length (A 1) + length (mkfs_dirent j n) \<le> MAXFILE * BSIZE"
    "freeblock s + nslots (length (A 1) + length (mkfs_dirent j n)) \<le> FSSIZE + nslots (length (A 1))" using k room by simp_all
  from iappend_ok [OF inv p, unfolded length_mkfs_dirent succeeds_iff] k show thesis by (auto intro: that)
qed

text \<open>The root directory with its two entries takes one block.\<close>

lemma root_dir_ok:
  obtains s where "mkfs_inv s (\<lambda>_. mkfs_dirent ROOTINO [46] @ mkfs_dirent ROOTINO [46, 46]) (\<lambda>_. T_DIR)" and "freeinode s = 2" and "freeblock s = nmeta + 1"
    and "\<And>t files. foldE (add_file ROOTINO) files s = Inr t \<Longrightarrow> mkfs files = finish t"
proof -
  let ?d = "mkfs_dirent 1 [46]" and ?e = "mkfs_dirent 1 [46, 46]" and ?T = "\<lambda>_ :: nat. T_DIR"
  let ?A = "(\<lambda>_. ?d @ ?e) :: nat \<Rightarrow> u8 list"
  have n: "nslots 0 = 0" "nslots DIRENT_SIZE = 1" "nslots (DIRENT_SIZE + DIRENT_SIZE) = 1" by (simp_all add: nslots_def nblk_def BSIZE_def DIRENT_SIZE_def DIRSIZ_def NDIRECT_def)
  have F: "nmeta + 1 \<le> FSSIZE" by (simp add: nmeta_pos(2) FSSIZE_def)
  have lt: "freeinode empty_image < 208" by (simp add: empty_image_sel)
  obtain s1 where s1: "mkfs_ialloc T_DIR empty_image = Inr (1, s1)" "freeinode s1 = 2" "freeblock s1 = nmeta" "mkfs_inv s1 (?A(1 := [])) ?T"
    using mkfs_ialloc_ok [OF empty_image_ok [of ?A ?T] lt, of T_DIR] by (auto simp: succeeds_iff empty_image_sel fun_upd_idem)
  let ?B = "?A(1 := [])"
  obtain s2 where s2: "iappend 1 ?d s1 = Inr s2" "mkfs_inv s2 (?B(1 := ?B 1 @ ?d)) ?T" "freeinode s2 = 2" "freeblock s2 = nmeta + 1"
    by (rule dirent_root_ok [OF s1(4,2), where j = 1 and n = "[46]"]) (use n F s1(3) in \<open>simp_all add: BSIZE_def DIRENT_SIZE_def DIRSIZ_def\<close>)
  let ?C = "?B(1 := ?B 1 @ ?d)"
  obtain s3 where s3: "iappend 1 ?e s2 = Inr s3" "mkfs_inv s3 (?C(1 := ?C 1 @ ?e)) ?T" "freeinode s3 = 2" "freeblock s3 = nmeta + 1"
    by (rule dirent_root_ok [OF s2(2,3), where j = 1 and n = "[46, 46]"]) (use n F s2(4) in \<open>simp_all add: BSIZE_def DIRENT_SIZE_def DIRSIZ_def\<close>)
  have C: "?C(1 := ?C 1 @ ?e) = ?A" by (simp add: fun_upd_idem)
  note fin = mkfs_finish [unfolded ROOTINO_def, OF s1(1) s2(1) s3(1)]
  show thesis by (rule that [of s3]) (use s3 fin in \<open>simp_all only: C ROOTINO_def\<close>)
qed

lemma mkfs_image:
  assumes "length files \<le> 206" and "\<forall>(n, xs) \<in> set files. 47 \<notin> set n \<and> length xs \<le> MAXFILE * BSIZE" and "blocks_needed files \<le> FSSIZE"
    and "log_area l = {2..<32}"
  shows "succeeds (mkfs files)
    (image_ok l (length files + 2) (blocks_needed files) image_type (image_contents files) (final_size (image_contents files)))"
proof -
  let ?R = "mkfs_dirent ROOTINO [46] @ mkfs_dirent ROOTINO [46, 46]"
  obtain s where s: "mkfs_inv s (\<lambda>_. ?R) (\<lambda>_. T_DIR)" "freeinode s = 2" "freeblock s = nmeta + 1"
    and fin: "\<And>t. foldE (add_file ROOTINO) files s = Inr t \<Longrightarrow> mkfs files = finish t" using root_dir_ok by metis
  have R: "length ?R = DIRENT_SIZE * 2" "nslots (DIRENT_SIZE * 2) = 1" by (simp_all add: nslots_def nblk_def BSIZE_def DIRENT_SIZE_def DIRSIZ_def NDIRECT_def)
  have L: "DIRENT_SIZE * 2 + DIRENT_SIZE * length files = DIRENT_SIZE * (length files + 2)" by simp
  have dir: "DIRENT_SIZE * (length files + 2) \<le> MAXFILE * BSIZE"
    using assms(1) by (simp add: DIRENT_SIZE_def DIRSIZ_def MAXFILE_def NDIRECT_def NINDIRECT_def BSIZE_def)
  have p: "1 < freeinode s" "freeinode s + length files \<le> 208" using s(2) assms(1) by simp_all
  have "length ?R + DIRENT_SIZE * length files \<le> MAXFILE * BSIZE"
    "freeblock s + nslots (length ?R + DIRENT_SIZE * length files) + (\<Sum>(n, xs) \<leftarrow> files. nslots (length xs)) \<le> FSSIZE + nslots (length ?R)"
    unfolding R L using dir assms(3) s(3) by (simp_all add: blocks_needed_def)
  from add_files_ok [OF s(1) p assms(2) this, unfolded R L succeeds_iff] obtain t B U where t: "foldE (add_file 1) files s = Inr t" "mkfs_inv t B U"
    and ad: "added 2 files (\<lambda>_. ?R) (\<lambda>_. T_DIR) B U" and c: "freeinode t = length files + 2" "freeblock t = blocks_needed files"
    using s(2,3) by (auto simp: blocks_needed_def)
  have B1: "B 1 = image_contents files 1" using ad by (simp add: added_def image_contents_def ROOTINO_def)
  have len: "length (B 1) \<le> MAXFILE * BSIZE" unfolding B1 using dir by (simp add: image_contents_def ROOTINO_def)
  have "image_type k = U k \<and> image_contents files k = B k" if "k \<in> {1..<length files + 2}" for k
  proof (cases "k = 1")
    case True
    then show ?thesis using ad B1 by (simp add: added_def image_type_def ROOTINO_def)
  next
    case False
    then have "k = 2 + (k - 2)" "k - 2 < length files" using that by auto
    moreover have "U (2 + j) = T_FILE \<and> B (2 + j) = snd (files ! j)" if "j < length files" for j using ad that by (simp add: added_def)
    ultimately have "U k = T_FILE \<and> B k = snd (files ! (k - 2))" by metis
    then show ?thesis using False by (simp add: image_type_def image_contents_def ROOTINO_def)
  qed
  then have eq: "\<forall>k \<in> {1..<length files + 2}. image_type k = U k \<and> image_contents files k = B k \<and> final_size (image_contents files) k = final_size B k"
    by (simp add: final_size_def)
  have "succeeds (mkfs files) (image_ok l (length files + 2) (blocks_needed files) U B (final_size B))"
    using finish_ok [OF t(2) _ len assms(4)] fin t(1) c by (simp add: ROOTINO_def)
  then show ?thesis by (rule succeeds_mono) (rule image_ok_cong [OF _ eq])
qed

text \<open>C15. The image builder. When the names have no slash, every file is at most \<open>MAXFILE\<close> blocks long, the files have inode numbers inside the inode blocks and all their
  blocks fit on the image, \<open>mkfs\<close> succeeds, and the image is in order for the kernel: block 1 decodes to the superblock of the layout; the bitmap marks exactly the metadata, the
  blocks of the root directory and those of the files; inode 1 is a directory of entries for itself, its parent and the files in order (its size rounded up by the code); inode \<open>k + 2\<close>
  is a file with one link and the size and the bytes of file \<open>k\<close>; the blocks of a file satisfy \<open>file_ok\<close>, which the theorems on reading and writing files start
  from; and the blocks of different inodes do not overlap.\<close>

theorem mkfs_image_ok:
  assumes "length files \<le> 206" and "\<forall>(n, xs) \<in> set files. 47 \<notin> set n \<and> length xs \<le> MAXFILE * BSIZE" and "blocks_needed files \<le> FSSIZE"
    and "log_area l = {2..<32}"
  shows "succeeds (mkfs files)
    (image_ok l (length files + 2) (blocks_needed files) image_type (image_contents files) (final_size (image_contents files)))"
  by (rule mkfs_image [OF assms])

text \<open>Two files, the second with an indirect block.\<close>

definition demo_image :: "(u8 list \<times> u8 list) list" where
  "demo_image = [([82, 69, 65, 68], [72, 105, 10]), ([95, 99, 97, 116], replicate 7000 65)]"

lemma demo_image_ok: "length demo_image = 2" "\<forall>(n, xs) \<in> set demo_image. 47 \<notin> set n \<and> length xs \<le> MAXFILE * BSIZE" "blocks_needed demo_image = 76"
  by (simp_all add: demo_image_def blocks_needed_def nmeta_pos(2) nslots_def nblk_def BSIZE_def MAXFILE_def NDIRECT_def NINDIRECT_def DIRENT_SIZE_def DIRSIZ_def)

theorem mkfs_image_ok_witness:
  "succeeds (mkfs demo_image) (image_ok (lg (boot_tx (\<lambda>_ _. zeroes))) 4 76 image_type (image_contents demo_image) (final_size (image_contents demo_image)))"
  using mkfs_image_ok [of demo_image "lg (boot_tx (\<lambda>_ _. zeroes))"] demo_image_ok by (simp add: FSSIZE_def)

end
