(* ===== verification/FsDir.thy ===== *)
theory FsDir
  imports FsProps
begin

text \<open>
  Directories: \<open>dirlookup\<close> as a search for the first entry in use with the name, and \<open>namei\<close> of a name in the root directory.
\<close>

section \<open>Entries of a directory\<close>

text \<open>Entry \<open>j\<close> of the directory, and an entry that \<open>dirlookup\<close> takes.\<close>

definition dent :: "(nat \<Rightarrow> block) \<Rightarrow> dinode \<Rightarrow> nat \<Rightarrow> dirent" where
  "dent V d j = get_dirent (map (fbyte V d) [j * DIRENT_SIZE..<j * DIRENT_SIZE + DIRENT_SIZE])"

definition hit :: "u8 list \<Rightarrow> dirent \<Rightarrow> bool" where
  "hit name e \<longleftrightarrow> de_inum e \<noteq> 0 \<and> namecmp name (de_name e) = 0"

text \<open>A directory in memory whose first \<open>M\<close> blocks are allocated.\<close>

definition dir_ready :: "int \<Rightarrow> nat \<Rightarrow> nat \<Rightarrow> fst \<Rightarrow> bool" where
  "dir_ready me dp M s \<longleftrightarrow> tx_ready me (fl s) \<and> room 0 (fl s) \<and> i_dev (icache s dp) = l_dev (lg (fl s)) \<and> di_type (i_d (icache s dp)) = T_DIR \<and>
     (\<exists>ib. file_ok (lg (fl s)) ib (lview (fl s)) (i_d (icache s dp)) M)"

lemma dir_ready_step: "dir_ready me dp M s \<Longrightarrow> fstep me 0 (lview (fl s)) s t \<Longrightarrow> icache t = icache s \<Longrightarrow> dir_ready me dp M t"
proof -
  assume d: "dir_ready me dp M s" and f: "fstep me 0 (lview (fl s)) s t" and i: "icache t = icache s"
  have L: "lstep me {} 0 (lview (fl s)) (fl s) (fl t)" using f by (simp add: fstep_def)
  note L1 = lstepD [OF L]
  show ?thesis using d i L1(1-3,6) file_ok_cong [OF L1(7)] by (auto simp: dir_ready_def)
qed

text \<open>Reading one entry.\<close>

lemma read_entry:
  assumes d: "dir_ready me dp M s" and j: "j * DIRENT_SIZE + DIRENT_SIZE \<le> unat (di_size (i_d (icache s dp)))" "j * DIRENT_SIZE + DIRENT_SIZE \<le> M * BSIZE"
  obtains t where "readi D me dp (of_nat (j * DIRENT_SIZE)) (of_nat DIRENT_SIZE) s =
      Inr ((int DIRENT_SIZE, map (fbyte (lview (fl s)) (i_d (icache s dp))) [j * DIRENT_SIZE..<j * DIRENT_SIZE + DIRENT_SIZE]), t)"
    and "icache t = icache s" and "fstep me 0 (lview (fl s)) s t"
proof -
  let ?d = "i_d (icache s dp)" and ?o = "j * DIRENT_SIZE"
  obtain ib where f: "file_ok (lg (fl s)) ib (lview (fl s)) ?d M" using d by (auto simp: dir_ready_def)
  have M: "M * BSIZE \<le> 71680" using mult_le_mono1 [OF file_okD(1) [OF f], of BSIZE] by (simp add: MAXFILE_def NINDIRECT_def NDIRECT_def BSIZE_def)
  have lt: "?o + DIRENT_SIZE < 2 ^ 32" using j(2) M by simp
  have u: "unat (of_nat ?o :: u32) = ?o" "unat (of_nat DIRENT_SIZE :: u32) = DIRENT_SIZE" "unat (of_nat ?o + of_nat DIRENT_SIZE :: u32) = ?o + DIRENT_SIZE"
    unfolding of_nat_add [symmetric] by (rule unat_of_nat32; use lt in linarith)+
  have m: "min DIRENT_SIZE (unat (di_size ?d) - ?o) = DIRENT_SIZE" using j(1) by simp
  have "succeeds (readi D me dp (of_nat ?o) (of_nat DIRENT_SIZE) s) (\<lambda>((v, xs), t). v = int DIRENT_SIZE \<and>
    xs = map (fbyte (lview (fl s)) ?d) [?o..<?o + DIRENT_SIZE] \<and> icache t = icache s \<and> fstep me 0 (lview (fl s)) s t)"
    by (rule readi_part [where off = "of_nat ?o" and n = "of_nat DIRENT_SIZE" and k = 0, OF _ _ _ f, unfolded u m])
      (use d j u in \<open>auto simp: dir_ready_def T_DIR_def T_DEV_def word_le_nat_alt\<close>)
  then show thesis by (auto simp: succeeds_iff intro: that)
qed

section \<open>The search\<close>

lemma dirlookup_skip:
  assumes "dir_ready me dp M s" and "\<forall>j \<in> set js. j * DIRENT_SIZE + DIRENT_SIZE \<le> unat (di_size (i_d (icache s dp))) \<and> j * DIRENT_SIZE + DIRENT_SIZE \<le> M * BSIZE \<and>
      \<not> hit name (dent (lview (fl s)) (i_d (icache s dp)) j)"
  shows "\<exists>t. fstep me 0 (lview (fl s)) s t \<and> icache t = icache s \<and>
    dirlookup_from D me dp name (map (\<lambda>k. k * DIRENT_SIZE) js @ offs) s = dirlookup_from D me dp name offs t"
  using assms
proof (induction js arbitrary: s)
  case Nil
  then have "fstep me 0 (lview (fl s)) s s" by (simp add: dir_ready_def fstep_def lstep_def)
  then show ?case by auto
next
  case (Cons j js)
  let ?d = "i_d (icache s dp)"
  obtain t where t: "readi D me dp (of_nat (j * DIRENT_SIZE)) (of_nat DIRENT_SIZE) s =
      Inr ((int DIRENT_SIZE, map (fbyte (lview (fl s)) ?d) [j * DIRENT_SIZE..<j * DIRENT_SIZE + DIRENT_SIZE]), t)"
    "icache t = icache s" "fstep me 0 (lview (fl s)) s t" by (rule read_entry [OF Cons.prems(1)]) (use Cons.prems(2) in auto)
  have V: "lview (fl t) = lview (fl s)" using t(3) by (auto simp: fstep_def dest: lstepD(3))
  have "dirlookup_from D me dp name (map (\<lambda>k. k * DIRENT_SIZE) (j # js) @ offs) s =
    dirlookup_from D me dp name (map (\<lambda>k. k * DIRENT_SIZE) js @ offs) t"
    using Cons.prems(2) t(1) by (auto simp: hit_def dent_def Let_def)
  moreover obtain u where "fstep me 0 (lview (fl t)) t u" "icache u = icache t"
    "dirlookup_from D me dp name (map (\<lambda>k. k * DIRENT_SIZE) js @ offs) t = dirlookup_from D me dp name offs u"
    using Cons.IH [OF dir_ready_step [OF Cons.prems(1) t(3,2)]] Cons.prems(2) t(2) V by auto
  ultimately show ?case using t(2,3) fstep_trans V by fastforce
qed

text \<open>\<open>dirlookup\<close> finds the first entry of the directory that is in use and has the name, and gets its inode.\<close>

lemma dirlookup_hit:
  assumes d: "dir_ready me dp M s" and i: "i * DIRENT_SIZE + DIRENT_SIZE \<le> unat (di_size (i_d (icache s dp)))" "i * DIRENT_SIZE + DIRENT_SIZE \<le> M * BSIZE"
    and h: "hit name (dent (lview (fl s)) (i_d (icache s dp)) i)" and n: "\<forall>j < i. \<not> hit name (dent (lview (fl s)) (i_d (icache s dp)) j)"
  obtains t where "fstep me 0 (lview (fl s)) s t" and "icache t = icache s"
    and "dirlookup D me dp name s = bindE (iget (i_dev (icache s dp)) (unat (de_inum (dent (lview (fl s)) (i_d (icache s dp)) i))) t)
      (\<lambda>(ip, u). Inr (Some (ip, i * DIRENT_SIZE), u))"
proof -
  let ?d = "i_d (icache s dp)" and ?V = "lview (fl s)"
  let ?N = "(unat (di_size ?d) + DIRENT_SIZE - 1) div DIRENT_SIZE" and ?f = "\<lambda>k. k * DIRENT_SIZE"
  have "Suc i * DIRENT_SIZE \<le> unat (di_size ?d) + DIRENT_SIZE - 1" using i(1) by (simp add: DIRENT_SIZE_def)
  then have "Suc i \<le> ?N" by (simp add: less_eq_div_iff_mult_less_eq DIRENT_SIZE_def)
  then have "[0..<?N] = [0..<i] @ i # [Suc i..<?N]" using upt_add_eq_append [of 0 i "?N - i"] by (simp add: upt_conv_Cons)
  then have o: "dir_offs (di_size ?d) = map ?f [0..<i] @ ?f i # map ?f [Suc i..<?N]" by (simp add: dir_offs_def)
  have le: "j * DIRENT_SIZE + DIRENT_SIZE \<le> i * DIRENT_SIZE + DIRENT_SIZE" if "j < i" for j using that by simp
  have "\<forall>j \<in> set [0..<i]. ?f j + DIRENT_SIZE \<le> unat (di_size ?d) \<and> ?f j + DIRENT_SIZE \<le> M * BSIZE \<and> \<not> hit name (dent ?V ?d j)"
    using n i le [THEN order_trans, OF _ i(1)] le [THEN order_trans, OF _ i(2)] by simp
  from dirlookup_skip [OF d this, of D] obtain t where t: "fstep me 0 ?V s t" "icache t = icache s"
    "dirlookup_from D me dp name (dir_offs (di_size ?d)) s = dirlookup_from D me dp name (?f i # map ?f [Suc i..<?N]) t" unfolding o by blast
  have V: "lview (fl t) = ?V" using t(1) by (auto simp: fstep_def dest: lstepD(3))
  obtain u where u: "readi D me dp (of_nat (?f i)) (of_nat DIRENT_SIZE) t = Inr ((int DIRENT_SIZE, map (fbyte ?V ?d) [?f i..<?f i + DIRENT_SIZE]), u)"
    "icache u = icache t" "fstep me 0 ?V t u"
    using read_entry [OF dir_ready_step [OF d t(1,2)], of i D] i unfolding V t(2) by metis
  have "dirlookup D me dp name s = bindE (iget (i_dev (icache s dp)) (unat (de_inum (dent ?V ?d i))) u) (\<lambda>(ip, u). Inr (Some (ip, ?f i), u))"
    using t(2,3) u(1,2) h d by (simp add: dirlookup_def dir_ready_def hit_def dent_def Let_def)
  then show thesis using fstep_trans [OF t(1) u(3)] u(2) t(2) by (auto intro: that)
qed

section \<open>A name in the root directory\<close>

lemma iget_free:
  assumes "\<forall>j < NINODE. i_ref (icache s j) > 0 \<longrightarrow> i_dev (icache s j) = dv \<longrightarrow> i_inum (icache s j) \<noteq> n"
    and "i < NINODE" and "i_ref (icache s i) = 0" and "\<forall>j < i. i_ref (icache s j) \<noteq> 0"
  shows "iget dv n s = Inr (i, upd_i i (\<lambda>x. x\<lparr>i_dev := dv, i_inum := n, i_ref := 1, i_valid := False\<rparr>) s)"
proof -
  have "find (\<lambda>j. i_ref (icache s j) > 0 \<and> i_dev (icache s j) = dv \<and> i_inum (icache s j) = n) [0..<NINODE] = None"
    using assms(1) by (auto simp: find_None_iff)
  moreover have "find (\<lambda>j. i_ref (icache s j) = 0) [0..<NINODE] = Some i" using assms(2-4) by (auto simp: find_Some_iff)
  ultimately show ?thesis by (simp add: iget_def)
qed

text \<open>Unlocking and putting an entry with links left only lowers the count.\<close>

lemma iunlockput_linked:
  assumes "i_lock (icache s ip) = \<lparr>sl_locked = True, sl_pid = me\<rparr>" and "i_ref (icache s ip) \<ge> 1" and "di_nlink (i_d (icache s ip)) \<noteq> 0"
  shows "iunlockput me ip s = Inr (upd_i ip (\<lambda>x. x\<lparr>i_lock := initsleeplock, i_ref := i_ref x - 1\<rparr>) s)"
  using assms by (simp add: iunlockput_def iunlock_def iput_def holdingsleep_def acquiresleep_def releasesleep_def initsleeplock_def upd_i_def Let_def)

definition empty_cache :: "fst \<Rightarrow> bool" where
  "empty_cache s \<longleftrightarrow> (\<forall>i < NINODE. i_ref (icache s i) = 0 \<and> i_lock (icache s i) = initsleeplock)"

text \<open>With an empty inode cache, \<open>namei\<close> of a path of one element finds the inode of the first entry of the root directory with that name.\<close>

lemma namei_root:
  assumes e: "empty_cache s" and x: "tx_ready me (fl s)" "room 0 (fl s)" "l_dev (lg (fl s)) = ROOTDEV"
  defines "V \<equiv> lview (fl s)" and "d \<equiv> dino (lview (fl s)) (fsb s) ROOTINO"
  assumes f: "file_ok (lg (fl s)) (IBLOCK ROOTINO (fsb s)) V d M" and ty: "di_type d = T_DIR" "di_nlink d \<noteq> 0"
    and i: "i * DIRENT_SIZE + DIRENT_SIZE \<le> unat (di_size d)" "i * DIRENT_SIZE + DIRENT_SIZE \<le> M * BSIZE"
    and h: "hit name (dent V d i)" "\<forall>j < i. \<not> hit name (dent V d j)" "unat (de_inum (dent V d i)) \<noteq> ROOTINO"
    and p: "path \<noteq> []" "hd path = 47" "skipelem path = Some (name, [])"
  obtains ip t where "namei D me cwd path s = Inr (Some ip, t)" and "fstep me 0 V s t" and "i_ref (icache t ip) = 1" and "i_dev (icache t ip) = ROOTDEV"
    and "i_inum (icache t ip) = unat (de_inum (dent V d i))" and "\<not> i_valid (icache t ip)" and "i_lock (icache t ip) = initsleeplock"
proof -
  let ?n = "unat (de_inum (dent V d i))"
  have N: "0 < NINODE" "1 < NINODE" by (simp_all add: NINODE_def)
  have e0: "i_ref (icache s j) = 0" "i_lock (icache s j) = initsleeplock" if "j < NINODE" for j using e that by (simp_all add: empty_cache_def)
  let ?s1 = "upd_i 0 (\<lambda>x. x\<lparr>i_dev := ROOTDEV, i_inum := ROOTINO, i_ref := 1, i_valid := False\<rparr>) s"
  have g1: "iget ROOTDEV ROOTINO s = Inr (0, ?s1)" by (rule iget_free) (use e0 N in auto)
  let ?lk = "\<lparr>sl_locked = True, sl_pid = me\<rparr>"
  have fl1: "fl ?s1 = fl s" "fsb ?s1 = fsb s" by (simp_all add: upd_i_def)
  have c1: "icache ?s1 = (icache s)(0 := (icache s 0)\<lparr>i_dev := ROOTDEV, i_inum := ROOTINO, i_ref := 1, i_valid := False\<rparr>)" by (simp add: upd_i_def)
  have ib: "IBLOCK ROOTINO (fsb s) < FSSIZE" by (rule file_okD(3) [OF f])
  have "acquiresleep me (i_lock (icache ?s1 0)) = Inr ?lk" using e0(2) [OF N(1)] by (simp add: c1 acquiresleep_def initsleeplock_def)
  from ilock_ok [where s = ?s1 and me = me and k = 0, OF _ _ _ this]
  obtain s2 where s2: "ilock me (Some 0) ?s1 = Inr s2" "fstep me 0 V ?s1 s2"
    "icache s2 = (icache s)(0 := (icache s 0)\<lparr>i_dev := ROOTDEV, i_inum := ROOTINO, i_ref := 1, i_lock := ?lk, i_d := d, i_valid := True\<rparr>)"
    using x ib ty(1) unfolding fl1 c1 by (auto simp: succeeds_iff V_def d_def T_DIR_def)
  have f2: "fstep me 0 V s s2" using s2(2) by (simp add: fstep_def fl1)
  have L: "lstep me {} 0 V (fl s) (fl s2)" using f2 by (simp add: fstep_def)
  note L1 = lstepD [OF L]
  have d2: "i_d (icache s2 0) = d" "lview (fl s2) = V" by (simp_all add: s2(3) L1(3))
  have dr: "dir_ready me 0 M s2" using L1(1,2,3,6) x(3) f file_ok_cong [OF L1(7)] ty(1) by (auto simp: dir_ready_def s2(3))
  obtain t where t: "fstep me 0 V s2 t" "icache t = icache s2"
    "dirlookup D me 0 name s2 = bindE (iget (i_dev (icache s2 0)) ?n t) (\<lambda>(ip, u). Inr (Some (ip, i * DIRENT_SIZE), u))"
    using dirlookup_hit [OF dr, of i name D] i h unfolding d2 by metis
  let ?u = "upd_i 1 (\<lambda>x. x\<lparr>i_dev := ROOTDEV, i_inum := ?n, i_ref := 1, i_valid := False\<rparr>) t"
  have g2: "iget ROOTDEV ?n t = Inr (1, ?u)" by (rule iget_free) (use e0 N h(3) in \<open>auto simp: t(2) s2(3) split: if_splits\<close>)
  let ?v = "upd_i 0 (\<lambda>x. x\<lparr>i_lock := initsleeplock, i_ref := i_ref x - 1\<rparr>) ?u"
  have ul: "iunlockput me 0 ?u = Inr ?v" by (rule iunlockput_linked) (use ty(2) in \<open>simp_all add: upd_i_def t(2) s2(3)\<close>)
  have sk: "skipelem [] = None" by (simp add: skipelem_def)
  have nm: "namei D me cwd path s = Inr (Some 1, ?v)"
    using g1 s2(1,3) ty(1) t(3) g2 ul p sk by (simp add: namei_def namex_def namex_loop.simps)
  have st: "fstep me 0 V s ?v" using fstep_trans [OF f2 t(1)] by (simp add: fstep_def upd_i_def)
  show thesis by (rule that [OF nm st]) (use e0(2) [OF N(2)] in \<open>simp_all add: upd_i_def t(2) s2(3)\<close>)
qed

end
