(* ===== verification/MkfsBoot.thy ===== *)
theory MkfsBoot
  imports MkfsProps LogProps FsDir
begin

text \<open>
  The image builder and the kernel together: the kernel boots from the image that \<open>mkfs\<close> has built, looks up a file by its name and reads it.
\<close>

section \<open>Boot\<close>

text \<open>The state of the file system in a machine that starts: the memory is zero, and \<open>binit\<close> has run.\<close>

definition power_on :: "disk \<Rightarrow> fst" where
  "power_on d = \<lparr>fl = \<lparr>lb = binit \<lparr>bufs = \<lambda>_. zero_buf, bnext = \<lambda>_. BHead, bprev = \<lambda>_. BHead, disk = d, hist = [], havedisk1 = True\<rparr>,
       lg = \<lparr>l_start = 0, l_size = 0, outstanding = 0, committing = False, l_dev = 0, lh_n = 0, lh_block = replicate LOGSIZE 0\<rparr>\<rparr>,
     fsb = \<lparr>sb_size = 0, sb_nblocks = 0, sb_ninodes = 0, sb_nlog = 0, sb_logstart = 0, sb_inodestart = 0, sb_bmapstart = 0\<rparr>,
     icache = \<lambda>_. \<lparr>i_dev = 0, i_inum = 0, i_ref = 0, i_lock = \<lparr>sl_locked = False, sl_pid = 0\<rparr>, i_valid = False, i_d = zero_dinode\<rparr>\<rparr>"

text \<open>The part of \<^verbatim>\<open>forkret\<close> that the first process runs.\<close>

definition boot_fs :: "int \<Rightarrow> disk \<Rightarrow> kerr + fst" where
  "boot_fs me d = bindE (iinit me ROOTDEV (power_on d)) (on_l (initlog me ROOTDEV))"

lemma power_on_simps [simp]:
  "disk (lb (fl (power_on d))) = d" "dirtyb (lb (fl (power_on d))) = {}" "hst me (lb (fl (power_on d))) {}" "outstanding (lg (fl (power_on d))) = 0"
  "committing (lg (fl (power_on d))) = False" "length (lh_block (lg (fl (power_on d)))) = LOGSIZE" "i_ref (icache (power_on d) i) = 0"
  by (simp_all add: power_on_def binit_ok)

lemma boot_ok:
  assumes sb: "decode_sb (d ROOTDEV 1) = mkfs_sb" and z: "d ROOTDEV 2 = zeroes"
  shows "succeeds (boot_fs me d) (\<lambda>s. tx_ready me (fl s) \<and> outstanding (lg (fl s)) = 0 \<and> \<not> committing (lg (fl s)) \<and> lh_n (lg (fl s)) = 0 \<and> l_size (lg (fl s)) = 30 \<and>
    log_area (lg (fl s)) = {2..<32} \<and> l_dev (lg (fl s)) = ROOTDEV \<and> fsb s = mkfs_sb \<and> empty_cache s \<and> (\<forall>b. b \<notin> {2..<32} \<longrightarrow> lview (fl s) b = d ROOTDEV b))"
proof -
  let ?p = "power_on d" and ?l = "\<lparr>l_start = 2, l_size = 30, outstanding = 0, committing = False, l_dev = ROOTDEV, lh_n = 0, lh_block = replicate LOGSIZE 0\<rparr>"
  have R: "ROOTDEV \<noteq> 0" by (simp add: ROOTDEV_def)
  obtain i u t where 1: "bread me ROOTDEV 1 (lb (fl ?p)) = Inr (i, u)" "b_data (bufs u i) = view (lb (fl ?p)) ROOTDEV 1" "brelse me i u = Inr t"
    "hst me t {}" "disk t = d" "dirtyb t = {}"
    using read_release [OF power_on_simps(3) [of me d] R, of 1 thesis] by (auto simp: FSSIZE_def NBUF_def MAXOPBLOCKS_def)
  have v: "view (lb (fl ?p)) ROOTDEV 1 = d ROOTDEV 1" using view_clean [OF power_on_simps(3) [of me d] _ R] by simp
  have rs: "readsb me ROOTDEV (lb (fl ?p)) = Inr (mkfs_sb, t)" using 1(1-3) v sb by (simp add: readsb_def)
  let ?s1 = "?p\<lparr>icache := (\<lambda>i. if i < NINODE then (icache ?p i)\<lparr>i_lock := initsleeplock\<rparr> else icache ?p i)\<rparr>"
  let ?s = "?s1\<lparr>fsb := mkfs_sb, fl := (fl ?s1)\<lparr>lb := t\<rparr>\<rparr>"
  have ii: "iinit me ROOTDEV ?p = Inr ?s" using rs by (simp add: iinit_def Let_def)
  have area: "log_area ?l = {2..<32}" and st: "lstart ?l = 2" by (auto simp: log_area_def)
  have g: "log_geom ?l" using R by (simp add: log_geom_def LOGSIZE_def MAXOPBLOCKS_def FSSIZE_def)
  have n0: "get32 (d ROOTDEV 2) 0 = 0" "hdr_n (d ROOTDEV 2) = 0" "length (d ROOTDEV 2) = BSIZE"
    using zeroes_get32 [of 0] by (simp_all add: z hdr_n_def zeroes_def BSIZE_def)
  have h: "hdr_ok ?l (d ROOTDEV)" using n0 by (simp add: hdr_ok_def st)
  have nl: "sint (sb_nlog mkfs_sb) = 30" using sint_small [of "sb_nlog mkfs_sb"] by (simp add: mkfs_sb_simps)
  have ls: "sb_logstart mkfs_sb = 2" by (simp add: mkfs_sb_def)
  have rec: "recovered 2 (d ROOTDEV) = d ROOTDEV" using n0 by (simp add: recovered_def)
  have "succeeds (initlog me (l_dev ?l) (fl ?s)) (\<lambda>t. tx_ready me t \<and> lh_n (lg t) = 0 \<and> lstart (lg t) = lstart ?l \<and> l_size (lg t) = l_size ?l \<and> l_dev (lg t) = l_dev ?l \<and>
     (\<forall>c. c \<notin> log_area ?l \<longrightarrow> disk (lb t) (l_dev ?l) c = recovered (lstart ?l) (disk (lb (fl ?s)) (l_dev ?l)) c))"
    by (rule initlog_ok [OF _ _ _ _ _ g]) (use 1(4-6) sb nl ls h in \<open>simp_all\<close>)
  then obtain w where w: "initlog me ROOTDEV (fl ?s) = Inr w" "tx_ready me w" "lh_n (lg w) = 0" "lstart (lg w) = 2" "l_size (lg w) = 30" "l_dev (lg w) = ROOTDEV"
    "\<forall>c. c \<notin> {2..<32} \<longrightarrow> disk (lb w) ROOTDEV c = d ROOTDEV c" unfolding area st using rec 1(5) by (auto simp: succeeds_iff)
  have "dirtyb (lb w) = {}" using w(2,3) by (auto simp: txs_def homes_def)
  then have lv: "lview w c = disk (lb w) ROOTDEV c" for c using view_clean [OF txsD(3) [OF w(2)] _ R] w(6) by simp
  have aw: "log_area (lg w) = {2..<32}" using w(4,5) by (simp add: log_area_def)
  have "boot_fs me d = Inr (?s\<lparr>fl := w\<rparr>)" using ii w(1) by (simp add: boot_fs_def on_l_def)
  then show ?thesis using w lv aw initlog_counts [OF w(1)] by (simp add: empty_cache_def)
qed

section \<open>The files in the block array of the kernel\<close>

text \<open>The log is not part of any file.\<close>

lemma holds_file_cong:
  assumes h: "holds_file l V k ty c sz" and k: "k < 208" and a: "file_area V k (length c) \<subseteq> {nmeta..<used}" and W: "\<forall>b. 32 \<le> b \<longrightarrow> W b = V b"
    and l: "log_area l' = log_area l"
  shows "holds_file l' W k ty c sz"
proof -
  let ?d = "dino V mkfs_sb k" and ?m = "nblk (length c)"
  have ib: "32 \<le> IBLOCK k mkfs_sb" by (rule IBLOCK_mkfs(2))
  have d: "dino W mkfs_sb k = ?d" using W ib by (simp add: dino_def)
  have at: "32 \<le> unat (addr_at V ?d p)" if "p \<in> slots_for (length c)" for p using a that by (auto simp: file_area_def nmeta_pos(2))
  have ba: "baddr W ?d bn = baddr V ?d bn" if "bn < ?m" for bn
  proof (cases "bn < NDIRECT")
    case False
    then have "32 \<le> unat (di_addrs ?d ! NDIRECT)" using at [OF ind_in] that by (simp add: addr_at_ind)
    then show ?thesis using W by (simp add: baddr_def)
  qed (simp add: baddr_def)
  then have fb: "fblk W ?d bn = fblk V ?d bn" "W (fblk V ?d bn) = V (fblk V ?d bn)" if "bn < ?m" for bn
    using that W at [OF slot_in [OF that]] by (simp_all add: fblk_def baddr_slot)
  have "file_ok l' (IBLOCK k mkfs_sb) W ?d ?m"
    using h ba fb W ib unfolding holds_file_def file_ok_def l Let_def by simp
  moreover have "fbyte W ?d i = fbyte V ?d i" if "i < ?m * BSIZE" for i
    using fb [OF less_mult_imp_div_less [OF that]] by (simp add: fbyte_def)
  ultimately show ?thesis using h by (simp add: holds_file_def d Let_def)
qed

section \<open>The entries of the root directory\<close>

definition entry_name :: "(u8 list \<times> u8 list) list \<Rightarrow> nat \<Rightarrow> u8 list" where
  "entry_name files j = take DIRSIZ (image_name (Product_Type.fst (files ! j)))"

lemma get_mkfs_dirent:
  assumes "0 \<notin> set name" and "0 \<notin> set t" and "length t \<le> DIRSIZ"
  shows "de_inum (get_dirent (mkfs_dirent k name)) = of_nat k" and "hit t (get_dirent (mkfs_dirent k name)) \<longleftrightarrow> (of_nat k :: 16 word) \<noteq> 0 \<and> t = take DIRSIZ name"
proof -
  have z: "0 \<notin> set (take DIRSIZ name)" "length (take DIRSIZ name) \<le> DIRSIZ" using assms(1) by (auto dest: in_set_takeD)
  have "take DIRSIZ (name @ replicate DIRSIZ 0) = strncpy (cstr (take DIRSIZ name)) DIRSIZ" using strncpy_name [OF z] by (simp add: min_def)
  then have "mkfs_dirent k name = dirent_bytes \<lparr>de_inum = of_nat k, de_name = strncpy (cstr (take DIRSIZ name)) DIRSIZ\<rparr>" by (simp add: mkfs_dirent_def)
  then show "de_inum (get_dirent (mkfs_dirent k name)) = of_nat k" "hit t (get_dirent (mkfs_dirent k name)) \<longleftrightarrow> (of_nat k :: 16 word) \<noteq> 0 \<and> t = take DIRSIZ name"
    using dirent_roundtrip [OF z assms(2,3)] by (simp_all add: hit_def)
qed

definition cut :: "nat \<Rightarrow> u8 list \<Rightarrow> u8 list" where
  "cut j xs = take DIRENT_SIZE (drop (j * DIRENT_SIZE) xs)"

lemma cut_simps:
  assumes "length x = DIRENT_SIZE"
  shows "cut 0 (x @ xs) = x" and "cut (Suc j) (x @ xs) = cut j xs"
  using assms by (simp_all add: cut_def)

lemma cut_dirents: "j < length fs \<Longrightarrow> cut j (dirents k fs) = mkfs_dirent (k + j) (image_name (Product_Type.fst (fs ! j)))"
proof (induction fs arbitrary: j k)
  case (Cons f fs)
  obtain n xs where "f = (n, xs)" by fastforce
  then show ?case using Cons by (cases j) (simp_all add: cut_simps)
qed simp

lemma root_entries:
  "cut 0 (image_contents files 1) = mkfs_dirent 1 [46]" "cut 1 (image_contents files 1) = mkfs_dirent 1 [46, 46]"
  "j < length files \<Longrightarrow> cut (j + 2) (image_contents files 1) = mkfs_dirent (j + 2) (image_name (Product_Type.fst (files ! j)))"
  "length (image_contents files 1) = DIRENT_SIZE * (length files + 2)"
  using cut_dirents [of j files 2] by (simp_all add: image_contents_def ROOTINO_def cut_simps)

lemma dent_cut:
  assumes h: "holds_file l V k ty c sz" and j: "j * DIRENT_SIZE + DIRENT_SIZE \<le> length c"
  shows "dent V (dino V mkfs_sb k) j = get_dirent (cut j c)"
proof -
  have le: "length c \<le> nblk (length c) * BSIZE" by (simp add: nblk_def BSIZE_def)
  have "map (fbyte V (dino V mkfs_sb k)) [j * DIRENT_SIZE..<j * DIRENT_SIZE + DIRENT_SIZE] = cut j c"
    using h j le by (intro nth_equalityI) (auto simp: cut_def holds_file_def Let_def)
  then show ?thesis by (simp add: dent_def)
qed

lemma root_hit:
  assumes h: "holds_file l V 1 ty (image_contents files 1) sz" and z: "\<forall>(n, xs) \<in> set files. 0 \<notin> set n" and i: "i < length files" "length files \<le> 206"
    and t: "entry_name files i \<notin> {[46], [46, 46]}" "\<forall>j < i. entry_name files j \<noteq> entry_name files i"
  defines "d \<equiv> dino V mkfs_sb 1"
  shows "hit (entry_name files i) (dent V d (i + 2))" and "\<forall>j < i + 2. \<not> hit (entry_name files i) (dent V d j)" and "unat (de_inum (dent V d (i + 2))) = i + 2"
proof -
  let ?t = "entry_name files i" and ?n = "\<lambda>j. image_name (Product_Type.fst (files ! j))"
  have zi: "0 \<notin> set (?n j)" if "j < length files" for j
  proof -
    have "0 \<notin> set (Product_Type.fst (files ! j))" using z nth_mem [OF that] by (cases "files ! j") auto
    then show ?thesis by (cases "Product_Type.fst (files ! j)") (auto simp: image_name_def)
  qed
  have zt: "0 \<notin> set ?t" "length ?t \<le> DIRSIZ" using zi [OF i(1)] by (auto simp: entry_name_def dest: in_set_takeD)
  have e: "dent V d j = get_dirent (cut j (image_contents files 1))" if "j < length files + 2" for j
    unfolding d_def by (rule dent_cut [OF h, unfolded root_entries(4)]) (use that in \<open>simp add: DIRENT_SIZE_def DIRSIZ_def\<close>)
  have u: "unat (of_nat (j + 2) :: 16 word) = j + 2" if "j < length files" for j 
    unfolding unat_of_nat using that i(2) by simp
  have nz: "(of_nat (j + 2) :: 16 word) \<noteq> 0" if "j < length files" for j using u [OF that] by (metis add_is_0 unat_0 zero_neq_numeral)
  have hf: "hit ?t (dent V d (j + 2)) \<longleftrightarrow> ?t = entry_name files j" if "j < length files" for j
    using get_mkfs_dirent(2) [OF zi [OF that] zt] e [of "j + 2"] root_entries(3) [OF that] nz [OF that] that by (simp add: entry_name_def)
  have h0: "\<not> hit ?t (dent V d 0)" "\<not> hit ?t (dent V d 1)"
    using get_mkfs_dirent(2) [OF _ zt] e [of 0] e [of 1] root_entries(1,2) t(1) by (simp_all add: DIRSIZ_def)
  show "hit ?t (dent V d (i + 2))" using hf [OF i(1)] by simp
  show "unat (de_inum (dent V d (i + 2))) = i + 2"
    using get_mkfs_dirent(1) [OF zi [OF i(1)] zt] e [of "i + 2"] root_entries(3) [OF i(1)] u [OF i(1)] i(1) by simp
  show "\<forall>j < i + 2. \<not> hit ?t (dent V d j)"
  proof (intro allI impI)
    fix j
    assume "j < i + 2"
    then consider "j = 0" | "j = 1" | "j = j - 2 + 2" "j - 2 < i" by linarith
    then show "\<not> hit ?t (dent V d j)"
    proof cases
      case 3
      then show ?thesis using hf [of "j - 2"] t(2) [rule_format, OF 3(2)] i(1) by auto
    qed (use h0 in simp_all)
  qed
qed

section \<open>From the image to the bytes of a file\<close>

text \<open>A process of the kernel that has booted opens a path and reads the first \<open>n\<close> bytes.\<close>

definition read_path :: "devsw \<Rightarrow> int \<Rightarrow> nat \<Rightarrow> u8 list \<Rightarrow> u32 \<Rightarrow> fst \<Rightarrow> kerr + u8 list option" where
  "read_path D me cwd path n s =
    bindE (on_l begin_op s) (\<lambda>s1.
    bindE (namei D me cwd path s1) (\<lambda>(p, s2).
    case p of
      None \<Rightarrow> Inr None
    | Some ip \<Rightarrow>
        bindE (ilock me p s2) (\<lambda>s3.
        bindE (readi D me ip 0 n s3) (\<lambda>((v, xs), s4). Inr (Some xs)))))"

lemma skipelem_one:
  assumes "p \<noteq> []" and "47 \<notin> set p"
  shows "skipelem (47 # p) = Some (take DIRSIZ p, [])"
proof -
  have "dropWhile (\<lambda>c. c = 47) p = p" "takeWhile (\<lambda>c. c \<noteq> 47) p = p" "dropWhile (\<lambda>c. c \<noteq> 47) p = []"
    using assms by (cases p; auto simp: takeWhile_eq_all_conv)+
  then show ?thesis using assms(1) unfolding skipelem_def Let_def by (simp only: dropWhile.simps if_True simp_thms if_False refl) simp
qed

lemma read_inode:
  assumes x: "tx_ready me (fl s)" "room 0 (fl s)" and c: "i_ref (icache s ip) = 1" "i_dev (icache s ip) = l_dev (lg (fl s))" "i_inum (icache s ip) = k" "\<not> i_valid (icache s ip)"
      "i_lock (icache s ip) = initsleeplock"
    and sb: "fsb s = mkfs_sb" and k: "k < 208" and h: "holds_file (lg (fl s)) (lview (fl s)) k T_FILE xs (length xs)" and n: "length xs \<le> unat n"
  obtains s1 s2 where "ilock me (Some ip) s = Inr s1" and "readi D me ip 0 n s1 = Inr ((int (length xs), xs), s2)"
proof -
  let ?V = "lview (fl s)" and ?m = "nblk (length xs)"
  let ?d = "dino ?V mkfs_sb k"
  have hd: "di_type ?d = T_FILE" "unat (di_size ?d) = length xs" "file_ok (lg (fl s)) (IBLOCK k mkfs_sb) ?V ?d ?m"
    and hb: "\<And>i. i < ?m * BSIZE \<Longrightarrow> fbyte ?V ?d i = (if i < length xs then xs ! i else 0)" using h by (auto simp: holds_file_def Let_def)
  let ?lk = "\<lparr>sl_locked = True, sl_pid = me\<rparr>"
  have lk: "acquiresleep me (i_lock (icache s ip)) = Inr ?lk" using c(5) by (simp add: acquiresleep_def initsleeplock_def)
  obtain s1 where s1: "ilock me (Some ip) s = Inr s1" "fstep me 0 ?V s s1" "icache s1 = (icache s)(ip := (icache s ip)\<lparr>i_lock := ?lk, i_d := ?d, i_valid := True\<rparr>)"
    using ilock_ok [OF x _ lk, unfolded sb c(3)] c IBLOCK_mkfs(1) [OF k] hd(1) by (auto simp: succeeds_iff FSSIZE_def T_FILE_def)
  have L: "lstep me {} 0 ?V (fl s) (fl s1)" using s1(2) by (simp add: fstep_def)
  note L1 = lstepD [OF L]
  have m: "length xs \<le> ?m * BSIZE" by (simp add: nblk_def BSIZE_def)
  have d1: "i_d (icache s1 ip) = ?d" "i_dev (icache s1 ip) = l_dev (lg (fl s1))" using L1(6) c(2) by (simp_all add: s1(3))
  have len: "min (unat n) (unat (di_size (i_d (icache s1 ip))) - unat (0 :: u32)) = length xs" using n hd(2) by (simp add: d1)
  have f1: "file_ok (lg (fl s1)) (IBLOCK k mkfs_sb) (lview (fl s1)) (i_d (icache s1 ip)) ?m" using hd(3) file_ok_cong [OF L1(7)] by (simp only: d1 L1(3))
  have "succeeds (readi D me ip 0 n s1) (\<lambda>((v, ys), t). v = int (length xs) \<and> ys = map (fbyte ?V ?d) [unat (0 :: u32)..<unat (0 :: u32) + length xs] \<and>
    icache t = icache s1 \<and> fstep me 0 ?V s1 t)"
    using readi_part [OF L1(1,2) d1(2) f1, of 0 n D] hd(1) m unfolding len unfolding L1(3) d1 by (simp add: T_FILE_def T_DEV_def)
  moreover have "map (fbyte ?V ?d) [unat (0 :: u32)..<unat (0 :: u32) + length xs] = xs" using hb m by (intro nth_equalityI) simp_all
  ultimately show thesis using s1(1) by (auto simp: succeeds_iff intro: that)
qed

text \<open>C5. From the image to the bytes of a file. Whatever files \<open>mkfs\<close> puts on an image that holds them, a kernel that boots from that image (\<open>iinit\<close> and \<open>initlog\<close> on a zeroed
  machine) finds every file by its path, cut and stripped of its underscore as \<open>mkfs\<close> does, when no earlier file has the same name, and reading the file returns exactly its bytes, without
  panic at any step. The files have names of C strings without slashes, at most \<open>MAXFILE\<close> blocks each, inodes inside the inode blocks, and all blocks fit on the image.\<close>

theorem image_boot_read:
  assumes n: "length files \<le> 206" and f: "\<forall>(n, xs) \<in> set files. 47 \<notin> set n \<and> length xs \<le> MAXFILE * BSIZE" and b: "blocks_needed files \<le> FSSIZE"
    and z: "\<forall>(n, xs) \<in> set files. 0 \<notin> set n" and i: "i < length files" and t: "entry_name files i \<notin> {[], [46], [46, 46]}" "\<forall>j < i. entry_name files j \<noteq> entry_name files i"
    and len: "length (snd (files ! i)) \<le> unat k"
  shows "succeeds (bindE (mkfs files) (\<lambda>im. bindE (boot_fs me (\<lambda>_. blk im)) (read_path D me cwd (47 # image_name (Product_Type.fst (files ! i))) k)))
    (\<lambda>r. r = Some (snd (files ! i)))"
proof -
  let ?p = "image_name (Product_Type.fst (files ! i))" and ?C = "image_contents files" and ?c = "snd (files ! i)"
  have l: "log_area (lg (boot_tx (\<lambda>_ _. zeroes))) = {2..<32}" by simp
  obtain im where im: "mkfs files = Inr im" "image_ok (lg (boot_tx (\<lambda>_ _. zeroes))) (length files + 2) (blocks_needed files) image_type ?C (final_size ?C) im"
    using mkfs_image [OF n f b l] by (auto simp: succeeds_iff)
  note ok = im(2) [unfolded image_ok_def]
  obtain s where s: "boot_fs me (\<lambda>_. blk im) = Inr s" "tx_ready me (fl s)" "outstanding (lg (fl s)) = 0" "\<not> committing (lg (fl s))" "lh_n (lg (fl s)) = 0" "l_size (lg (fl s)) = 30"
    "log_area (lg (fl s)) = {2..<32}" "l_dev (lg (fl s)) = ROOTDEV" "fsb s = mkfs_sb" "empty_cache s" "\<forall>b. b \<notin> {2..<32} \<longrightarrow> lview (fl s) b = blk im b"
    using boot_ok [where d = "\<lambda>_. blk im" and me = me] ok by (auto simp: succeeds_iff)
  let ?s = "s\<lparr>fl := (fl s)\<lparr>lg := (lg (fl s))\<lparr>outstanding := 1\<rparr>\<rparr>\<rparr>" and ?V = "lview (fl s)"
  have bo: "on_l begin_op s = Inr ?s" using s(3-5) by (simp add: on_l_def begin_op_def MAXOPBLOCKS_def LOGSIZE_def)
  have "home (lg (fl ?s)) = home (lg (fl s))" "homes (lg (fl ?s)) = homes (lg (fl s))" "log_area (lg (fl ?s)) = log_area (lg (fl s))" by (auto simp: home_def homes_def log_area_def)
  then have x: "tx_ready me (fl ?s)" "room 0 (fl ?s)" "empty_cache ?s" "lview (fl ?s) = ?V" "l_dev (lg (fl ?s)) = ROOTDEV" "log_area (lg (fl ?s)) = {2..<32}" "fsb ?s = mkfs_sb"
    using s by (simp_all add: txs_def lwf_def room_def empty_cache_def)
  have hf: "holds_file l ?V j (image_type j) (?C j) (final_size ?C j)" if "1 \<le> j" "j < length files + 2" "log_area l = {2..<32}" for l j
    by (rule holds_file_cong [of "lg (boot_tx (\<lambda>_ _. zeroes))" "blk im"]) (use ok that n s(11) in auto)
  have h1: "holds_file (lg (fl ?s)) ?V 1 T_DIR (?C 1) (final_size ?C 1)" using hf [of 1] x(6) by (simp add: image_type_def ROOTINO_def)
  note rh = root_hit [OF h1 z i n] 
  let ?d = "dino ?V mkfs_sb 1"
  have hd: "file_ok (lg (fl ?s)) (IBLOCK 1 mkfs_sb) ?V ?d (nblk (length (?C 1)))" "di_type ?d = T_DIR" "di_nlink ?d \<noteq> 0" "unat (di_size ?d) = final_size ?C 1"
    using h1 by (auto simp: holds_file_def Let_def)
  have le: "(i + 2) * DIRENT_SIZE + DIRENT_SIZE \<le> length (?C 1)" unfolding root_entries(4) using i by (simp add: DIRENT_SIZE_def)
  have up: "length (?C 1) \<le> nblk (length (?C 1)) * BSIZE" "length (?C 1) \<le> final_size ?C 1" by (simp_all add: nblk_def final_size_def ROOTINO_def BSIZE_def)
  have "?p \<noteq> []" using t(1) by (auto simp: entry_name_def)
  moreover have "47 \<notin> set (Product_Type.fst (files ! i))" using f nth_mem [OF i] by (cases "files ! i") auto
  then have "47 \<notin> set ?p" by (cases "Product_Type.fst (files ! i)") (auto simp: image_name_def)
  ultimately have sk: "skipelem (47 # ?p) = Some (entry_name files i, [])" unfolding entry_name_def by (rule skipelem_one)
  obtain ip u where u: "namei D me cwd (47 # ?p) ?s = Inr (Some ip, u)" "fstep me 0 ?V ?s u" "i_ref (icache u ip) = 1" "i_dev (icache u ip) = ROOTDEV"
    "i_inum (icache u ip) = i + 2" "\<not> i_valid (icache u ip)" "i_lock (icache u ip) = initsleeplock"
    using namei_root [OF x(3,1,2,5), unfolded x(4,7), where i = "i + 2" and path = "47 # ?p" and name = "entry_name files i" and M = "nblk (length (?C 1))" and D = D and cwd = cwd]
      rh t hd le up sk by (auto simp: ROOTINO_def)
  have L: "lstep me {} 0 ?V (fl ?s) (fl u)" "fsb u = mkfs_sb" using u(2) x(7) by (simp_all add: fstep_def)
  note L1 = lstepD [OF L(1)]
  have "holds_file (lg (fl u)) (lview (fl u)) (i + 2) T_FILE ?c (length ?c)"
    using hf [of "i + 2" "lg (fl u)"] i L1(3,7) x(6) by (simp add: image_type_def image_contents_def final_size_def ROOTINO_def)
  moreover have "i_dev (icache u ip) = l_dev (lg (fl u))" "i + 2 < 208" using u(4) L1(6) x(5) i n by simp_all
  ultimately obtain s1 s2 where "ilock me (Some ip) u = Inr s1" "readi D me ip 0 k s1 = Inr ((int (length ?c), ?c), s2)"
    using read_inode [OF L1(1,2) u(3) _ u(5-7) L(2), of ?c k D] len by metis
  then show ?thesis using im(1) s(1) bo u(1) by (simp add: read_path_def)
qed

theorem image_boot_read_witness:
  "succeeds (bindE (mkfs demo_image) (\<lambda>im. bindE (boot_fs 1 (\<lambda>_. blk im)) (read_path no_devices 1 0 [47, 99, 97, 116] 8192))) (\<lambda>r. r = Some (replicate 7000 65))"
proof -
  have e: "entry_name demo_image 0 = [82, 69, 65, 68]" "entry_name demo_image 1 = [99, 97, 116]" by (simp_all add: entry_name_def demo_image_def image_name_def DIRSIZ_def)
  have z: "\<forall>(n, xs) \<in> set demo_image. 0 \<notin> set n" by (simp add: demo_image_def)
  have d: "demo_image ! 1 = ([95, 99, 97, 116], replicate 7000 65)" by (simp add: demo_image_def)
  have n: "length demo_image \<le> 206" "blocks_needed demo_image \<le> FSSIZE" "1 < length demo_image" by (simp_all add: demo_image_ok FSSIZE_def)
  have t: "entry_name demo_image 1 \<notin> {[], [46], [46, 46]}" "\<forall>j < 1. entry_name demo_image j \<noteq> entry_name demo_image 1" unfolding e(2) using e(1) by simp_all
  have k: "length (snd (demo_image ! 1)) \<le> unat (8192 :: u32)" unfolding d by simp
  show ?thesis using image_boot_read [OF n(1) demo_image_ok(2) n(2) z n(3) t k, of 1 no_devices 0] unfolding d by (simp add: image_name_def)
qed

end
