(* ===== verification/Bootmain.thy ===== *)
theory Bootmain
  imports Bytes
begin

text \<open>
  The boot loader (\<^verbatim>\<open>bootmain.c\<close>): it copies the kernel from the disk, sector 1 on, into physical memory. A memory is a function on 32-bit addresses, a disk a
  function from sector numbers to the bytes of a sector. The disk answers every \<^verbatim>\<open>waitdisk\<close>. The loops compare addresses that may wrap, so they are \<open>partial_function\<close>s:
  \<open>None\<close> is a loader that never ends.
\<close>

type_synonym pmem = "u32 \<Rightarrow> u8"
type_synonym sectors = "nat \<Rightarrow> u8 list"

definition SECTSIZE :: u32 where "SECTSIZE = 512"
definition ELFMAGIC :: u32 where "ELFMAGIC = 0x464C457F"
definition SCRATCH :: u32 where "SCRATCH = 0x10000"

text \<open>The sector that the four address registers name; bits 4 to 7 of the last select the drive and the mode.\<close>

definition lba :: "u8 \<Rightarrow> u8 \<Rightarrow> u8 \<Rightarrow> u8 \<Rightarrow> nat" where
  "lba r3 r4 r5 r6 = unat r3 + 2 ^ 8 * unat r4 + 2 ^ 16 * unat r5 + 2 ^ 24 * unat (r6 AND 15)"

definition insl :: "u32 \<Rightarrow> u8 list \<Rightarrow> pmem \<Rightarrow> pmem" where
  "insl dst xs m = (\<lambda>a. if unat (a - dst) < length xs then xs ! unat (a - dst) else m a)"

definition readsect :: "sectors \<Rightarrow> u32 \<Rightarrow> u32 \<Rightarrow> pmem \<Rightarrow> pmem" where
  "readsect d dst offset m =
    insl dst (d (lba (ucast offset) (ucast (drop_bit 8 offset)) (ucast (drop_bit 16 offset)) (ucast (drop_bit 24 offset OR 0xE0)))) m"

partial_function (option) readseg_loop :: "sectors \<Rightarrow> u32 \<Rightarrow> u32 \<Rightarrow> u32 \<Rightarrow> pmem \<Rightarrow> pmem option" where
  "readseg_loop d pa epa offset m =
    (if pa < epa then readseg_loop d (pa + SECTSIZE) epa (offset + 1) (readsect d pa offset m) else Some m)"

definition readseg :: "sectors \<Rightarrow> u32 \<Rightarrow> u32 \<Rightarrow> u32 \<Rightarrow> pmem \<Rightarrow> pmem option" where
  "readseg d pa cnt offset m = readseg_loop d (pa - offset mod SECTSIZE) (pa + cnt) (offset div SECTSIZE + 1) m"

text \<open>Fields of the headers in memory.\<close>

definition mem32 :: "pmem \<Rightarrow> u32 \<Rightarrow> u32" where
  "mem32 m a = get32 [m a, m (a + 1), m (a + 2), m (a + 3)] 0"

definition mem16 :: "pmem \<Rightarrow> u32 \<Rightarrow> 16 word" where
  "mem16 m a = get16 [m a, m (a + 1)] 0"

definition zero_fill :: "u32 \<Rightarrow> u32 \<Rightarrow> pmem \<Rightarrow> pmem" where
  "zero_fill dst n m = (\<lambda>a. if a - dst < n then 0 else m a)"

partial_function (option) load_loop :: "sectors \<Rightarrow> u32 \<Rightarrow> u32 \<Rightarrow> pmem \<Rightarrow> pmem option" where
  "load_loop d ph eph m =
    (if ph < eph then
       let pa = mem32 m (ph + 12) in
       Option.bind (readseg d pa (mem32 m (ph + 16)) (mem32 m (ph + 4)) m) (\<lambda>m1.
         let filesz = mem32 m1 (ph + 16); memsz = mem32 m1 (ph + 20) in
         load_loop d (ph + 32) eph (if memsz > filesz then zero_fill (pa + filesz) (memsz - filesz) m1 else m1))
     else Some m)"

text \<open>The result is the entry point that the loader jumps to, or \<open>None\<close> when it returns to \<^verbatim>\<open>bootasm.S\<close>.\<close>

definition bootmain :: "sectors \<Rightarrow> pmem \<Rightarrow> (u32 option \<times> pmem) option" where
  "bootmain d m =
    Option.bind (readseg d SCRATCH 4096 0 m) (\<lambda>m1.
      if mem32 m1 SCRATCH \<noteq> ELFMAGIC then Some (None, m1)
      else
        let ph = SCRATCH + mem32 m1 (SCRATCH + 28); eph = ph + 32 * ucast (mem16 m1 (SCRATCH + 44)) in
        Option.bind (load_loop d ph eph m1) (\<lambda>m2. Some (Some (mem32 m2 (SCRATCH + 24)), m2)))"

section \<open>Sectors\<close>

text \<open>Byte \<open>i\<close> of the kernel.\<close>

definition kbyte :: "sectors \<Rightarrow> nat \<Rightarrow> u8" where
  "kbyte d i = d (1 + i div 512) ! (i mod 512)"

lemma four_bytes: "(a :: nat) = a0 + 256 * b \<Longrightarrow> b = b0 + 256 * c \<Longrightarrow> c = c0 + 256 * e \<Longrightarrow> a0 + 256 * b0 + 65536 * c0 + 16777216 * e = a"
  by linarith

lemma round_up:
  assumes "(x :: nat) + 511 = 512 * n + y" and "y < 512"
  shows "x \<le> 512 * n" and "512 * n \<le> x + 511" and "0 < n \<longrightarrow> 512 * (n - 1) < x"
  using assms by (cases n; simp)+

lemma lba_offset:
  fixes w :: u32
  assumes "unat w < 2 ^ 28"
  shows "lba (ucast w) (ucast (drop_bit 8 w)) (ucast (drop_bit 16 w)) (ucast (drop_bit 24 w OR 0xE0)) = unat w"
proof -
  let ?n = "unat w"
  have b: "unat (ucast w :: u8) = ?n mod 256" "unat (ucast (drop_bit 8 w) :: u8) = ?n div 256 mod 256" "unat (ucast (drop_bit 16 w) :: u8) = ?n div 65536 mod 256"
    by (simp_all add: unsigned_ucast_eq unat_drop_bit_eq drop_bit_eq_div unat_div_distrib take_bit_eq_mod)
  have "ucast (drop_bit 24 w OR 0xE0) AND (15 :: u8) = take_bit 4 (ucast (drop_bit 24 w))"
  proof (rule bit_word_eqI)
    have m: "(15 :: u8) = mask 4" by (simp add: mask_eq_exp_minus_1)
    have e: "\<not> bit (0xE0 :: u32) n" if "n < 4" for n
    proof -
      have "n = 0 \<or> n = 1 \<or> n = 2 \<or> n = 3" using that by linarith
      then show ?thesis by (auto simp: bit_iff_odd)
    qed
    fix n
    show "bit (ucast (drop_bit 24 w OR 0xE0) AND (15 :: u8)) n = bit (take_bit 4 (ucast (drop_bit 24 w)) :: u8) n"
      unfolding m using e [of n] by (auto simp: bit_simps)
  qed
  then have "unat (ucast (drop_bit 24 w OR 0xE0) AND (15 :: u8)) = ?n div 16777216 mod 16"
    by (simp add: unat_mod_distrib unsigned_ucast_eq unat_drop_bit_eq drop_bit_eq_div unat_div_distrib take_bit_eq_mod mod_mod_cancel)
  moreover have "?n div 16777216 mod 16 = ?n div 16777216" using assms by (intro mod_less) (simp add: less_mult_imp_div_less)
  moreover have "?n mod 256 + 256 * (?n div 256 mod 256) + 65536 * (?n div 65536 mod 256) + 16777216 * (?n div 16777216) = ?n"
  proof (rule four_bytes)
    show "?n = ?n mod 256 + 256 * (?n div 256)" by simp
    show "?n div 256 = ?n div 256 mod 256 + 256 * (?n div 65536)" using mod_mult_div_eq [of "?n div 256" 256] by (simp only: div_mult2_eq [symmetric]) simp
    show "?n div 65536 = ?n div 65536 mod 256 + 256 * (?n div 16777216)" using mod_mult_div_eq [of "?n div 65536" 256] by (simp only: div_mult2_eq [symmetric]) simp
  qed
  ultimately show ?thesis using b by (simp add: lba_def)
qed

section \<open>Reading a segment\<close>

text \<open>The loop reads the \<open>n\<close> sectors from \<open>pa\<close> to \<open>epa\<close>, when it does not come near the end of the address space.\<close>

definition copied_in :: "sectors \<Rightarrow> nat \<Rightarrow> nat \<Rightarrow> nat \<Rightarrow> pmem \<Rightarrow> pmem" where
  "copied_in d start n o0 m = (\<lambda>a. if start \<le> unat a \<and> unat a < start + n then kbyte d (o0 + (unat a - start)) else m a)"

lemma unat_diff_iff:
  fixes a b :: u32
  assumes "unat b + n \<le> 2 ^ 32"
  shows "unat (a - b) < n \<longleftrightarrow> unat b \<le> unat a \<and> unat a < unat b + n" and "unat b \<le> unat a \<Longrightarrow> unat (a - b) = unat a - unat b"
proof -
  show s: "unat b \<le> unat a \<Longrightarrow> unat (a - b) = unat a - unat b" by (simp add: unat_sub word_le_nat_alt)
  show "unat (a - b) < n \<longleftrightarrow> unat b \<le> unat a \<and> unat a < unat b + n"
  proof (cases "unat b \<le> unat a")
    case False
    then have "unat (a - b) = unat a + 2 ^ 32 - unat b" by (simp add: unat_sub_if_size word_size)
    then show ?thesis using assms False by simp
  qed (use s in auto)
qed

lemma readsect_ok:
  assumes "length (d (1 + s)) = 512" and "unat dst + 512 \<le> 2 ^ 32" and "unat w = 1 + s" and "1 + s < 2 ^ 28"
  shows "readsect d dst w m = copied_in d (unat dst) 512 (512 * s) m"
proof -
  have "lba (ucast w) (ucast (drop_bit 8 w)) (ucast (drop_bit 16 w)) (ucast (drop_bit 24 w OR 0xE0)) = 1 + s" using lba_offset [of w] assms(3,4) by simp
  then have e: "readsect d dst w m = insl dst (d (1 + s)) m" by (simp add: readsect_def)
  have "insl dst (d (1 + s)) m a = copied_in d (unat dst) 512 (512 * s) m a" for a
  proof (cases "unat dst \<le> unat a \<and> unat a < unat dst + 512")
    case True
    then have "kbyte d (512 * s + unat (a - dst)) = d (1 + s) ! unat (a - dst)"
      using unat_diff_iff(1) [OF assms(2), of a] by (simp add: kbyte_def del: add_Suc_right)
    then show ?thesis using True unat_diff_iff [OF assms(2), of a] assms(1) by (simp add: insl_def copied_in_def)
  qed (use unat_diff_iff(1) [OF assms(2), of a] assms(1) in \<open>auto simp: insl_def copied_in_def\<close>)
  then show ?thesis unfolding e by blast
qed

lemma readseg_loop_ok:
  assumes "\<forall>s. length (d s) = 512" and "unat epa \<le> unat pa + 512 * n" and "0 < n \<longrightarrow> unat pa + 512 * (n - 1) < unat epa" and "unat pa + 512 * n \<le> 2 ^ 32 - 1"
    and "unat w = 1 + s" and "1 + s + n < 2 ^ 28"
  shows "readseg_loop d pa epa w m = Some (copied_in d (unat pa) (512 * n) (512 * s) m)"
  using assms
proof (induction n arbitrary: pa w s m)
  case 0
  then have "\<not> pa < epa" by (simp add: word_less_nat_alt)
  then show ?case by (subst readseg_loop.simps) (auto simp: copied_in_def fun_eq_iff)
next
  case (Suc n)
  have lt: "pa < epa" using Suc.prems(3) by (simp add: word_less_nat_alt)
  have p: "unat (pa + SECTSIZE) = unat pa + 512" using Suc.prems(4) unat_add_lem [of pa SECTSIZE] by (simp add: SECTSIZE_def)
  have w: "unat (w + 1) = 1 + Suc s" using Suc.prems(5,6) unat_add_lem [of w 1] by simp
  let ?m = "readsect d pa w m"
  have m: "?m = copied_in d (unat pa) 512 (512 * s) m" by (rule readsect_ok) (use Suc.prems in auto)
  have "readseg_loop d (pa + SECTSIZE) epa (w + 1) ?m = Some (copied_in d (unat (pa + SECTSIZE)) (512 * n) (512 * Suc s) ?m)"
    by (rule Suc.IH [OF Suc.prems(1) _ _ _ w]) (use Suc.prems p in auto)
  moreover have "copied_in d (unat pa + 512) (512 * n) (512 * Suc s) ?m = copied_in d (unat pa) (512 * Suc n) (512 * s) m"
    unfolding m by (auto simp: copied_in_def fun_eq_iff)
  ultimately show ?case using lt p by (subst readseg_loop.simps) simp
qed

text \<open>\<open>readseg\<close> ends, and copies whole sectors: from the last sector boundary of the file before \<open>offset\<close> to the first after \<open>offset + cnt\<close>.\<close>

definition seg_start :: "u32 \<Rightarrow> u32 \<Rightarrow> nat" where
  "seg_start pa offset = unat pa - unat offset mod 512"

definition seg_bytes :: "u32 \<Rightarrow> u32 \<Rightarrow> nat" where
  "seg_bytes cnt offset = 512 * ((unat offset mod 512 + unat cnt + 511) div 512)"

lemma readseg_ok:
  assumes d: "\<forall>s. length (d s) = 512" and lo: "unat offset mod 512 \<le> unat pa" and hi: "unat pa + unat cnt + 512 \<le> 2 ^ 32"
  shows "readseg d pa cnt offset m = Some (copied_in d (seg_start pa offset) (seg_bytes cnt offset) (512 * (unat offset div 512)) m)"
proof -
  define r q n c where "r = unat offset mod 512" and "q = unat offset div 512" and "n = (r + unat cnt + 511) div 512" and "c = unat cnt"
  have p: "unat (pa - offset mod SECTSIZE) = unat pa - r" using lo by (simp add: unat_sub word_le_nat_alt r_def SECTSIZE_def unat_mod_distrib)
  have e: "unat (pa + cnt) = unat pa + c" using hi unat_add_lem [of pa cnt] by (simp add: c_def)
  have "unat offset < 2 ^ 32" using unsigned_less [of offset, where 'a = nat] by simp
  then have q: "q < 8388608" by (simp add: q_def less_mult_imp_div_less)
  have w: "unat (offset div SECTSIZE + 1) = 1 + q"
  proof -
    have "unat (offset div SECTSIZE) = q" by (simp add: SECTSIZE_def unat_div_distrib q_def)
    then show ?thesis using q unat_add_lem [of "offset div SECTSIZE" 1] by simp
  qed
  have r: "r < 512" "r \<le> unat pa" using lo by (simp_all add: r_def)
  have y: "r + c + 511 = 512 * n + (r + c + 511) mod 512" "(r + c + 511) mod 512 < 512" by (simp_all add: n_def c_def)
  note n = round_up [OF y]
  have h: "unat pa + c + 512 \<le> 4294967296" using hi by (simp add: c_def)
  have "readseg d pa cnt offset m = Some (copied_in d (unat (pa - offset mod SECTSIZE)) (512 * n) (512 * q) m)"
    unfolding readseg_def
  proof (rule readseg_loop_ok [OF d _ _ _ w])
    show "unat (pa + cnt) \<le> unat (pa - offset mod SECTSIZE) + 512 * n" unfolding p e using n(1) r by linarith
    show "0 < n \<longrightarrow> unat (pa - offset mod SECTSIZE) + 512 * (n - 1) < unat (pa + cnt)" unfolding p e using n(3) r by linarith
    show "unat (pa - offset mod SECTSIZE) + 512 * n \<le> 2 ^ 32 - 1" unfolding p using n(2) r h by simp
    show "1 + q + n < 2 ^ 28" using q n(2) h r by simp
  qed
  then show ?thesis unfolding p by (simp add: seg_bytes_def seg_start_def r_def q_def n_def)
qed

section \<open>Loading the segments\<close>

text \<open>The fields of a program header that the loader uses.\<close>

record seg =
  sg_off :: u32
  sg_pa :: u32
  sg_fs :: u32
  sg_ms :: u32

definition seg_at :: "pmem \<Rightarrow> u32 \<Rightarrow> seg" where
  "seg_at m a = \<lparr>sg_off = mem32 m (a + 4), sg_pa = mem32 m (a + 12), sg_fs = mem32 m (a + 16), sg_ms = mem32 m (a + 20)\<rparr>"

fun segs :: "pmem \<Rightarrow> u32 \<Rightarrow> nat \<Rightarrow> seg list" where
  "segs m a 0 = []"
| "segs m a (Suc n) = seg_at m a # segs m (a + 32) n"

definition seg_end :: "seg \<Rightarrow> nat" where
  "seg_end s = unat (sg_pa s) + max (unat (sg_fs s)) (unat (sg_ms s))"

text \<open>A segment lies, with the sectors around it, above the scratch page and below the end of the address space; and one segment lies below the sectors of the next.\<close>

definition seg_ok :: "seg \<Rightarrow> bool" where
  "seg_ok s \<longleftrightarrow> 0x11000 + unat (sg_off s) mod 512 \<le> unat (sg_pa s) \<and> seg_end s + 512 \<le> 2 ^ 32"

definition seg_before :: "seg \<Rightarrow> seg \<Rightarrow> bool" where
  "seg_before s t \<longleftrightarrow> seg_end s \<le> seg_start (sg_pa t) (sg_off t)"

text \<open>The bytes of the file, then zeros.\<close>

definition loaded :: "sectors \<Rightarrow> seg \<Rightarrow> pmem \<Rightarrow> bool" where
  "loaded d s m \<longleftrightarrow> (\<forall>a. unat (sg_pa s) \<le> unat a \<and> unat a < seg_end s \<longrightarrow>
     m a = (if unat a < unat (sg_pa s) + unat (sg_fs s) then kbyte d (unat (sg_off s) + (unat a - unat (sg_pa s))) else 0))"

definition same_page :: "pmem \<Rightarrow> pmem \<Rightarrow> bool" where
  "same_page m h \<longleftrightarrow> (\<forall>a. 0x10000 \<le> unat a \<and> unat a < 0x11000 \<longrightarrow> m a = h a)"

lemma paddr_add_small:
  fixes a :: u32
  assumes "unat a \<le> 0x11000" and "unat k \<le> 4096"
  shows "unat (a + k) = unat a + unat k"
  using assms unat_add_lem [of a k] by simp

lemma mem32_page:
  assumes "same_page m h" and "0x10000 \<le> unat a" and "unat a + 4 \<le> 0x11000"
  shows "mem32 m a = mem32 h a"
proof -
  have "m (a + k) = h (a + k)" if "unat k < 4" for k
    using assms that paddr_add_small [of a k] by (simp add: same_page_def)
  from this [of 0] this [of 1] this [of 2] this [of 3] show ?thesis by (simp add: mem32_def)
qed

lemma seg_at_page:
  assumes "same_page m h" and "0x10000 \<le> unat a" and "unat a + 32 \<le> 0x11000"
  shows "seg_at m a = seg_at h a"
proof -
  have "mem32 m (a + k) = mem32 h (a + k)" if "unat k \<le> 28" for k
    using assms(2,3) that paddr_add_small [of a k] by (intro mem32_page [OF assms(1)]) simp_all
  then show ?thesis by (simp add: seg_at_def)
qed

lemma loaded_below: "loaded d s m \<Longrightarrow> (\<And>a. unat a < seg_end s \<Longrightarrow> m' a = m a) \<Longrightarrow> loaded d s m'"
  unfolding loaded_def by simp

lemma load_one:
  assumes d: "\<forall>s. length (d s) = 512" and s: "seg_ok s"
  obtains m1 where "readseg d (sg_pa s) (sg_fs s) (sg_off s) m = Some m1" and "\<And>a. unat a < seg_start (sg_pa s) (sg_off s) \<Longrightarrow> m1 a = m a"
    and "loaded d s (if sg_ms s > sg_fs s then zero_fill (sg_pa s + sg_fs s) (sg_ms s - sg_fs s) m1 else m1)"
proof -
  let ?pa = "unat (sg_pa s)" and ?fs = "unat (sg_fs s)" and ?o = "unat (sg_off s)" and ?ms = "unat (sg_ms s)"
  let ?m1 = "copied_in d (seg_start (sg_pa s) (sg_off s)) (seg_bytes (sg_fs s) (sg_off s)) (512 * (?o div 512)) m"
  have lo: "?o mod 512 \<le> ?pa" and hi: "?pa + ?fs + 512 \<le> 2 ^ 32" "?pa + ?ms + 512 \<le> 2 ^ 32" using s unfolding seg_ok_def seg_end_def by linarith+
  have rd: "readseg d (sg_pa s) (sg_fs s) (sg_off s) m = Some ?m1" by (rule readseg_ok [OF d lo hi(1)])
  have len: "?o mod 512 + ?fs \<le> seg_bytes (sg_fs s) (sg_off s)"
    using round_up(1) [of "?o mod 512 + ?fs" _ "(?o mod 512 + ?fs + 511) mod 512"] by (simp add: seg_bytes_def)
  have fl: "?m1 a = kbyte d (?o + (unat a - ?pa))" if "?pa \<le> unat a" "unat a < ?pa + ?fs" for a
  proof -
    have "512 * (?o div 512) + (unat a - seg_start (sg_pa s) (sg_off s)) = ?o + (unat a - ?pa)"
      using that(1) lo div_mult_mod_eq [of ?o 512] by (simp add: seg_start_def)
    moreover have "seg_start (sg_pa s) (sg_off s) \<le> unat a \<and> unat a < seg_start (sg_pa s) (sg_off s) + seg_bytes (sg_fs s) (sg_off s)"
      using that len lo unfolding seg_start_def by linarith
    ultimately show ?thesis by (simp add: copied_in_def)
  qed
  have sum: "unat (sg_pa s + sg_fs s) = ?pa + ?fs" using hi(1) unat_add_lem [of "sg_pa s" "sg_fs s"] by simp
  have "loaded d s (if sg_ms s > sg_fs s then zero_fill (sg_pa s + sg_fs s) (sg_ms s - sg_fs s) ?m1 else ?m1)"
  proof (cases "sg_ms s > sg_fs s")
    case True
    then have lt: "?fs < ?ms" and df: "unat (sg_ms s - sg_fs s) = ?ms - ?fs" by (simp_all add: word_less_nat_alt unat_sub word_le_nat_alt)
    have z: "a - (sg_pa s + sg_fs s) < sg_ms s - sg_fs s \<longleftrightarrow> ?pa + ?fs \<le> unat a \<and> unat a < ?pa + ?ms" for a
      using unat_diff_iff(1) [of "sg_pa s + sg_fs s" "?ms - ?fs" a] hi(2) sum df lt by (simp add: word_less_nat_alt)
    show ?thesis using True lt fl by (auto simp: loaded_def zero_fill_def z seg_end_def)
  next
    case False
    then show ?thesis using fl by (auto simp: loaded_def seg_end_def word_less_nat_alt max_def)
  qed
  then show thesis by (rule that [OF rd, rotated]) (simp add: copied_in_def)
qed

lemma zero_fill_below: "unat dst + unat n \<le> 2 ^ 32 \<Longrightarrow> unat a < unat dst \<Longrightarrow> zero_fill dst n m a = m a"
  using unat_diff_iff(1) [of dst "unat n" a] by (simp add: zero_fill_def word_less_nat_alt)

lemma load_loop_ok:
  assumes "\<forall>s. length (d s) = 512" and "0x10000 \<le> unat ph" and "unat eph = unat ph + 32 * n" and "unat eph \<le> 0x11000" and "same_page m h"
    and "\<forall>s \<in> set (segs h ph n). seg_ok s" and "sorted_wrt seg_before (segs h ph n)" and "\<forall>s \<in> S. loaded d s m \<and> (\<forall>t \<in> set (segs h ph n). seg_before s t)"
  shows "\<exists>m'. load_loop d ph eph m = Some m' \<and> same_page m' h \<and> (\<forall>s \<in> S \<union> set (segs h ph n). loaded d s m')"
  using assms
proof (induction n arbitrary: ph m S)
  case 0
  then have "\<not> ph < eph" by (simp add: word_less_nat_alt)
  then show ?case using 0 by (subst load_loop.simps) simp
next
  case (Suc n)
  let ?s = "seg_at h ph"
  have lt: "ph < eph" using Suc.prems(3) by (simp add: word_less_nat_alt)
  have ok: "seg_ok ?s" using Suc.prems(6) by simp
  have pg: "seg_at m ph = ?s" by (rule seg_at_page [OF Suc.prems(5,2)]) (use Suc.prems(3,4) in simp)
  obtain m1 where m1: "readseg d (sg_pa ?s) (sg_fs ?s) (sg_off ?s) m = Some m1" "\<And>a. unat a < seg_start (sg_pa ?s) (sg_off ?s) \<Longrightarrow> m1 a = m a"
    "loaded d ?s (if sg_ms ?s > sg_fs ?s then zero_fill (sg_pa ?s + sg_fs ?s) (sg_ms ?s - sg_fs ?s) m1 else m1)" using load_one [OF Suc.prems(1) ok] by metis
  let ?m2 = "if sg_ms ?s > sg_fs ?s then zero_fill (sg_pa ?s + sg_fs ?s) (sg_ms ?s - sg_fs ?s) m1 else m1"
  have st: "0x11000 \<le> seg_start (sg_pa ?s) (sg_off ?s)" "seg_start (sg_pa ?s) (sg_off ?s) \<le> unat (sg_pa ?s)" using ok unfolding seg_ok_def seg_start_def by linarith+
  have keep: "?m2 a = m a" if a: "unat a < seg_start (sg_pa ?s) (sg_off ?s)" for a
  proof (cases "sg_ms ?s > sg_fs ?s")
    case True
    have h: "unat (sg_pa ?s) + unat (sg_ms ?s) + 512 \<le> 2 ^ 32" "unat (sg_fs ?s) < unat (sg_ms ?s)" using ok True by (auto simp: seg_ok_def seg_end_def word_less_nat_alt)
    have sum: "unat (sg_pa ?s + sg_fs ?s) = unat (sg_pa ?s) + unat (sg_fs ?s)" using h unat_add_lem [of "sg_pa ?s" "sg_fs ?s"] by simp
    have "unat (sg_ms ?s - sg_fs ?s) = unat (sg_ms ?s) - unat (sg_fs ?s)" using True by (simp add: unat_sub)
    then show ?thesis using True m1(2) [OF a] zero_fill_below [of "sg_pa ?s + sg_fs ?s" "sg_ms ?s - sg_fs ?s" a m1] h sum a st(2) by simp
  qed (use m1(2) [OF a] in simp)
  have sp1: "same_page m1 h" "same_page ?m2 h" using Suc.prems(5) st(1) m1(2) keep by (auto simp: same_page_def)
  have f1: "seg_at m1 ph = ?s" by (rule seg_at_page [OF sp1(1) Suc.prems(2)]) (use Suc.prems(3,4) in simp)
  have step: "load_loop d ph eph m = load_loop d (ph + 32) eph ?m2"
    using lt m1(1) pg f1 by (subst load_loop.simps) (simp add: seg_at_def Let_def)
  have ph: "unat (ph + 32) = unat ph + 32" using paddr_add_small [of ph 32] Suc.prems(3,4) by simp
  let ?S = "insert ?s S"
  have "\<forall>s \<in> ?S. loaded d s ?m2 \<and> (\<forall>t \<in> set (segs h (ph + 32) n). seg_before s t)"
  proof
    fix s
    assume "s \<in> ?S"
    then consider "s = ?s" | "s \<in> S" by blast
    then show "loaded d s ?m2 \<and> (\<forall>t \<in> set (segs h (ph + 32) n). seg_before s t)"
    proof cases
      case 2
      then have b: "seg_before s ?s" and l: "loaded d s m" and t: "\<forall>t \<in> set (segs h (ph + 32) n). seg_before s t" using Suc.prems(8) by auto
      then have "loaded d s ?m2" by (intro loaded_below [OF l] keep) (simp add: seg_before_def)
      then show ?thesis using t by blast
    qed (use m1(3) Suc.prems(7) in simp)
  qed
  moreover have "\<forall>s \<in> set (segs h (ph + 32) n). seg_ok s" "sorted_wrt seg_before (segs h (ph + 32) n)" using Suc.prems(6,7) by simp_all
  ultimately obtain m' where "load_loop d (ph + 32) eph ?m2 = Some m'" "same_page m' h" "\<forall>s \<in> ?S \<union> set (segs h (ph + 32) n). loaded d s m'"
    using Suc.IH [of "ph + 32" ?m2 ?S] Suc.prems(1-4) sp1(2) ph by auto
  then show ?case using step by auto
qed

section \<open>Property\<close>

text \<open>The first page of the kernel as the loader sees it, and the segments that its headers describe.\<close>

definition boot_page :: "sectors \<Rightarrow> pmem" where
  "boot_page d = copied_in d 0x10000 4096 0 (\<lambda>_. 0)"

definition kernel_segs :: "sectors \<Rightarrow> seg list" where
  "kernel_segs d = segs (boot_page d) (SCRATCH + mem32 (boot_page d) (SCRATCH + 28)) (unat (mem16 (boot_page d) (SCRATCH + 44)))"

lemma boot_page_read:
  assumes d: "\<forall>s. length (d s) = 512"
  obtains m1 where "readseg d SCRATCH 4096 0 m = Some m1" and "same_page m1 (boot_page d)" and "mem32 m1 SCRATCH = mem32 (boot_page d) SCRATCH"
proof -
  let ?m1 = "copied_in d 0x10000 4096 0 m"
  have rs: "readseg d SCRATCH 4096 0 m = Some ?m1" using readseg_ok [OF d, of 0 SCRATCH 4096 m] by (simp add: SCRATCH_def seg_start_def seg_bytes_def)
  have sp: "same_page ?m1 (boot_page d)" by (simp add: same_page_def boot_page_def copied_in_def)
  show thesis by (rule that [OF rs sp mem32_page [OF sp]]) (simp_all add: SCRATCH_def)
qed

lemma bootmain_no_kernel:
  assumes "\<forall>s. length (d s) = 512" and "mem32 (boot_page d) SCRATCH \<noteq> ELFMAGIC"
  shows "\<exists>m'. bootmain d m = Some (None, m')"
proof -
  obtain m1 where "readseg d SCRATCH 4096 0 m = Some m1" "mem32 m1 SCRATCH = mem32 (boot_page d) SCRATCH" by (rule boot_page_read [OF assms(1)])
  then show ?thesis using assms(2) by (simp add: bootmain_def)
qed


text \<open>A kernel with one segment that does not start at a sector boundary.\<close>

definition demo_header :: "u8 list" where
  "demo_header = put32 0 ELFMAGIC (put32 24 0x10000C (put32 28 52 (put16 44 1 (put32 56 4196 (put32 64 0x100064 (put32 68 600 (put32 72 1000 (replicate 512 0))))))))"

definition demo_kernel :: sectors where
  "demo_kernel s = (if s = 1 then demo_header else replicate 512 (of_nat s))"

lemma header_byte: "i < 512 \<Longrightarrow> boot_page d (SCRATCH + of_nat i) = d 1 ! i"
proof -
  assume i: "i < 512"
  then have u: "unat (of_nat i :: u32) = i" by (intro unat_of_nat32) simp
  have "unat (SCRATCH + of_nat i) = 0x10000 + i" using paddr_add_small [of SCRATCH "of_nat i"] i by (simp add: u SCRATCH_def)
  then show ?thesis using i by (simp add: boot_page_def copied_in_def kbyte_def)
qed

lemma header_fields:
  "i + 3 < 512 \<Longrightarrow> mem32 (boot_page d) (SCRATCH + of_nat i) = get32 (d 1) i" "i + 1 < 512 \<Longrightarrow> mem16 (boot_page d) (SCRATCH + of_nat i) = get16 (d 1) i"
  using header_byte [of i d] header_byte [of "i + 1" d] header_byte [of "i + 2" d] header_byte [of "i + 3" d]
  by (simp_all add: mem32_def mem16_def get32_def get16_def ac_simps)

lemma demo_kernel_ok:
  "length (demo_kernel s) = 512" "mem32 (boot_page demo_kernel) SCRATCH = ELFMAGIC" "mem32 (boot_page demo_kernel) (SCRATCH + 24) = 0x10000C"
  "mem32 (boot_page demo_kernel) (SCRATCH + 28) = 52" "mem16 (boot_page demo_kernel) (SCRATCH + 44) = 1"
  "kernel_segs demo_kernel = [\<lparr>sg_off = 4196, sg_pa = 0x100064, sg_fs = 600, sg_ms = 1000\<rparr>]"
proof -
  have k: "demo_kernel 1 = demo_header" by (simp add: demo_kernel_def)
  note h = header_fields(1) [of _ demo_kernel, unfolded k]
  show "length (demo_kernel s) = 512" by (simp add: demo_kernel_def demo_header_def)
  show "mem32 (boot_page demo_kernel) SCRATCH = ELFMAGIC" "mem32 (boot_page demo_kernel) (SCRATCH + 24) = 0x10000C" and o: "mem32 (boot_page demo_kernel) (SCRATCH + 28) = 52"
    using h [of 0] h [of 24] h [of 28] by (simp_all add: demo_header_def)
  show n: "mem16 (boot_page demo_kernel) (SCRATCH + 44) = 1" using header_fields(2) [of 44 demo_kernel, unfolded k] by (simp add: demo_header_def)
  have "seg_at (boot_page demo_kernel) (SCRATCH + 52) = \<lparr>sg_off = 4196, sg_pa = 0x100064, sg_fs = 600, sg_ms = 1000\<rparr>"
    using h [of 56] h [of 64] h [of 68] h [of 72] by (simp add: seg_at_def demo_header_def add.assoc)
  then show "kernel_segs demo_kernel = [\<lparr>sg_off = 4196, sg_pa = 0x100064, sg_fs = 600, sg_ms = 1000\<rparr>]" by (simp add: kernel_segs_def o n)
qed


end
