(* ===== verification/Progs.thy ===== *)
theory Progs
  imports Ulib
begin

text \<open>
  Small user programs: \<^verbatim>\<open>wc\<close>, \<^verbatim>\<open>cat\<close>, \<^verbatim>\<open>echo\<close>, \<^verbatim>\<open>kill\<close>, \<^verbatim>\<open>mkdir\<close>, \<^verbatim>\<open>rm\<close> and the name formatting of \<^verbatim>\<open>ls\<close>. What the successive calls of \<^verbatim>\<open>read\<close> on a file deliver is a list of
  results, \<open>None\<close> for -1; after the end of the list it is the end of the file. A program gives the bytes that it writes.
\<close>

type_synonym reads = "u8 list option list"

definition chars :: "string \<Rightarrow> u8 list" where
  "chars s = map of_char s"

section \<open>wc\<close>

record wc_st =
  wl :: u32
  ww :: u32
  wn :: u32
  inword :: bool

definition is_blank :: "u8 \<Rightarrow> bool" where
  "is_blank b \<longleftrightarrow> b \<in> {32, 13, 9, 10, 11}"

definition wc_byte :: "u8 \<Rightarrow> wc_st \<Rightarrow> wc_st" where
  "wc_byte b s =
    (let s1 = s\<lparr>wn := wn s + 1\<rparr>; s2 = (if b = 10 then s1\<lparr>wl := wl s1 + 1\<rparr> else s1) in
     if is_blank b then s2\<lparr>inword := False\<rparr>
     else if \<not> inword s2 then s2\<lparr>ww := ww s2 + 1, inword := True\<rparr>
     else s2)"

fun wc_read :: "reads \<Rightarrow> wc_st \<Rightarrow> wc_st option" where
  "wc_read [] s = Some s"
| "wc_read (None # rs) s = None"
| "wc_read (Some xs # rs) s = (if xs = [] then Some s else wc_read rs (fold wc_byte xs s))"

text \<open>The flag says that the program exits.\<close>

definition wc :: "(u32 \<Rightarrow> u8 list) \<Rightarrow> u32 \<Rightarrow> reads \<Rightarrow> kerr + u8 list \<times> bool" where
  "wc str name rs =
    (case wc_read rs \<lparr>wl = 0, ww = 0, wn = 0, inword = False\<rparr> of
       None \<Rightarrow> bindE (printf str (chars ''wc: read error'' @ [10]) []) (\<lambda>ys. Inr (ys, True))
     | Some s \<Rightarrow> bindE (printf str (chars ''%d %d %d %s'' @ [10]) [wl s, ww s, wn s, name]) (\<lambda>ys. Inr (ys, False)))"

fun wc_files :: "(u32 \<Rightarrow> u8 list) \<Rightarrow> (u32 \<Rightarrow> reads option) \<Rightarrow> u32 list \<Rightarrow> kerr + u8 list" where
  "wc_files str opn [] = Inr []"
| "wc_files str opn (a # as) =
    (case opn a of
       None \<Rightarrow> printf str (chars ''wc: cannot open %s'' @ [10]) [a]
     | Some rs \<Rightarrow> bindE (wc str a rs) (\<lambda>(ys, ex). if ex then Inr ys else bindE (wc_files str opn as) (\<lambda>zs. Inr (ys @ zs))))"

definition wc_main :: "(u32 \<Rightarrow> u8 list) \<Rightarrow> (u32 \<Rightarrow> reads option) \<Rightarrow> u32 \<Rightarrow> reads \<Rightarrow> u32 list \<Rightarrow> kerr + u8 list" where
  "wc_main str opn nostr stdin args = (if args = [] then bindE (wc str nostr stdin) (\<lambda>(ys, _). Inr ys) else wc_files str opn args)"

section \<open>cat\<close>

text \<open>\<open>w xs\<close> is what \<^verbatim>\<open>write(1, buf, n)\<close> returns for the bytes \<open>xs\<close>; a short write has written that many. The flag says that the program exits.\<close>

fun cat :: "(u8 list \<Rightarrow> int) \<Rightarrow> reads \<Rightarrow> u8 list \<times> bool" where
  "cat w [] = ([], False)"
| "cat w (None # rs) = (chars ''cat: read error'' @ [10], True)"
| "cat w (Some xs # rs) =
    (if xs = [] then ([], False)
     else if w xs \<noteq> int (length xs) then (take (nat (w xs)) xs @ chars ''cat: write error'' @ [10], True)
     else let (ys, ex) = cat w rs in (xs @ ys, ex))"

fun cat_files :: "(u32 \<Rightarrow> u8 list) \<Rightarrow> (u8 list \<Rightarrow> int) \<Rightarrow> (u32 \<Rightarrow> reads option) \<Rightarrow> u32 list \<Rightarrow> kerr + u8 list" where
  "cat_files str w opn [] = Inr []"
| "cat_files str w opn (a # as) =
    (case opn a of
       None \<Rightarrow> printf str (chars ''cat: cannot open %s'' @ [10]) [a]
     | Some rs \<Rightarrow> let (ys, ex) = cat w rs in if ex then Inr ys else bindE (cat_files str w opn as) (\<lambda>zs. Inr (ys @ zs)))"

definition cat_main :: "(u32 \<Rightarrow> u8 list) \<Rightarrow> (u8 list \<Rightarrow> int) \<Rightarrow> (u32 \<Rightarrow> reads option) \<Rightarrow> reads \<Rightarrow> u32 list \<Rightarrow> kerr + u8 list" where
  "cat_main str w opn stdin args = (if args = [] then Inr (Product_Type.fst (cat w stdin)) else cat_files str w opn args)"

section \<open>echo, kill, mkdir, rm\<close>

text \<open>\<open>sp\<close> and \<open>nl\<close> are the addresses of the two literals.\<close>

fun echo_main :: "(u32 \<Rightarrow> u8 list) \<Rightarrow> u32 \<Rightarrow> u32 \<Rightarrow> u32 list \<Rightarrow> kerr + u8 list" where
  "echo_main str sp nl [] = Inr []"
| "echo_main str sp nl (a # as) =
    bindE (printf str (chars ''%s%s'') [a, if as \<noteq> [] then sp else nl]) (\<lambda>xs. bindE (echo_main str sp nl as) (\<lambda>ys. Inr (xs @ ys)))"

text \<open>The process identifiers that are killed, in order.\<close>

definition kill_main :: "u8 list list \<Rightarrow> u32 list" where
  "kill_main args = map atoi args"

text \<open>\<^verbatim>\<open>mkdir\<close> and \<^verbatim>\<open>rm\<close> stop at the first argument for which the call fails; the result is the list of arguments that were tried.\<close>

fun each_arg :: "('a \<Rightarrow> int) \<Rightarrow> 'a list \<Rightarrow> 'a list" where
  "each_arg call [] = []"
| "each_arg call (a # as) = (if call a < 0 then [a] else a # each_arg call as)"

section \<open>ls\<close>

text \<open>The part of the path after the last slash, filled with blanks to \<^verbatim>\<open>DIRSIZ\<close> characters.\<close>

definition fmtname :: "u8 list \<Rightarrow> u8 list" where
  "fmtname path =
    (let p = rev (takeWhile (\<lambda>c. c \<noteq> 47) (rev path)) in if 14 \<le> length p then p else p @ replicate (14 - length p) 32)"

section \<open>Words\<close>

text \<open>The text between blanks, and the words of a text: its maximal parts without blanks.\<close>

fun pieces :: "u8 list \<Rightarrow> u8 list list" where
  "pieces [] = [[]]"
| "pieces (c # cs) = (if is_blank c then [] # pieces cs else (c # hd (pieces cs)) # tl (pieces cs))"

definition words_of :: "u8 list \<Rightarrow> u8 list list" where
  "words_of xs = filter (\<lambda>w. w \<noteq> []) (pieces xs)"

definition starts_word :: "u8 list \<Rightarrow> bool" where
  "starts_word xs \<longleftrightarrow> xs \<noteq> [] \<and> \<not> is_blank (hd xs)"

lemma pieces_ne [simp]: "pieces xs \<noteq> []"
  by (cases xs) auto

lemma hd_pieces: "hd (pieces xs) \<noteq> [] \<longleftrightarrow> starts_word xs"
  by (cases xs) (auto simp: starts_word_def)

lemma words_of_Cons: "length (words_of (c # cs)) = (if is_blank c then length (words_of cs) else Suc (length (words_of cs) - (if starts_word cs then 1 else 0)))"
proof -
  obtain p ps where p: "pieces cs = p # ps" using pieces_ne [of cs] by (cases "pieces cs") auto
  have "length (words_of cs) = (if starts_word cs then 1 else 0) + length (filter (\<lambda>w. w \<noteq> []) ps)" using hd_pieces [of cs] by (simp add: words_of_def p)
  then show ?thesis by (simp add: words_of_def p)
qed

lemma words_pos: "starts_word xs \<Longrightarrow> 0 < length (words_of xs)"
  by (cases xs) (auto simp: starts_word_def words_of_Cons)

lemma wc_fold:
  "wn (fold wc_byte xs s) = wn s + of_nat (length xs) \<and> wl (fold wc_byte xs s) = wl s + of_nat (count_list xs 10) \<and>
   ww (fold wc_byte xs s) + (if inword s \<and> starts_word xs then 1 else 0) = ww s + of_nat (length (words_of xs))"
proof (induction xs arbitrary: s)
  case Nil
  then show ?case by (simp add: words_of_def starts_word_def)
next
  case (Cons b xs)
  note IH = Cons [of "wc_byte b s"]
  have "wn (wc_byte b s) = wn s + 1" "wl (wc_byte b s) = wl s + (if b = 10 then 1 else 0)" by (simp_all add: wc_byte_def Let_def)
  moreover have "ww (fold wc_byte (b # xs) s) + (if inword s \<and> starts_word (b # xs) then 1 else 0) = ww s + of_nat (length (words_of (b # xs)))"
  proof (cases "is_blank b")
    case True
    then have "ww (wc_byte b s) = ww s" "\<not> inword (wc_byte b s)" by (simp_all add: wc_byte_def Let_def)
    then show ?thesis using IH True by (simp add: words_of_Cons starts_word_def)
  next
    case False
    have i: "inword (wc_byte b s)" "ww (wc_byte b s) + (if inword s then 1 else 0) = ww s + 1" using False by (auto simp: wc_byte_def Let_def)
    have w: "ww (fold wc_byte xs (wc_byte b s)) = ww (wc_byte b s) + of_nat (length (words_of xs) - (if starts_word xs then 1 else 0))"
    proof (cases "starts_word xs")
      case True
      then obtain k where "length (words_of xs) = Suc k" using words_pos [of xs] by (metis Suc_pred)
      then show ?thesis using IH i(1) True by simp
    qed (use IH i(1) in simp)
    show ?thesis using False i(2) w by (auto simp: words_of_Cons starts_word_def algebra_simps)
  qed
  ultimately show ?case using IH by (simp add: algebra_simps)
qed

section \<open>Properties\<close>

text \<open>Successive reads that deliver the bytes of the chunks and then the end of the file.\<close>

definition delivers :: "u8 list list \<Rightarrow> reads \<Rightarrow> bool" where
  "delivers cs rs \<longleftrightarrow> (\<forall>c \<in> set cs. c \<noteq> []) \<and> (rs = map Some cs \<or> (\<exists>more. rs = map Some cs @ Some [] # more))"

lemma delivers_Cons: "delivers (c # cs) rs \<Longrightarrow> \<exists>rs'. rs = Some c # rs' \<and> c \<noteq> [] \<and> delivers cs rs'"
  by (auto simp: delivers_def)

lemma wc_read_ok: "delivers cs rs \<Longrightarrow> wc_read rs s = Some (fold wc_byte (concat cs) s)"
proof (induction cs arbitrary: rs s)
  case Nil
  then show ?case by (auto simp: delivers_def)
next
  case (Cons c cs)
  then show ?case by (auto dest!: delivers_Cons)
qed

lemma cat_ok: "delivers cs rs \<Longrightarrow> \<forall>c \<in> set cs. w c = int (length c) \<Longrightarrow> cat w rs = (concat cs, False)"
proof (induction cs arbitrary: rs)
  case Nil
  then show ?case by (auto simp: delivers_def)
next
  case (Cons c cs)
  then show ?case by (auto dest!: delivers_Cons)
qed

text \<open>\<open>wc\<close> and \<open>cat\<close> against the contents of the file. However the reads cut a file into pieces, \<open>wc\<close> prints its number of newlines, its number of words, which are the maximal parts without
  blanks, also where a word lies across two pieces, and its number of bytes, in decimal and modulo \<open>2 ^ 32\<close>, followed by its name; and \<open>cat\<close> writes the bytes of the file, when every write
  is complete.\<close>

lemma wc_counts:
  assumes "delivers cs rs" and "name \<noteq> 0" and "\<forall>c \<in> set cs. w c = int (length c)"
  shows "wc str name rs = Inr (printint_u (of_nat (count_list (concat cs) 10)) 10 True @ [32] @ printint_u (of_nat (length (words_of (concat cs)))) 10 True @ [32] @
      printint_u (of_nat (length (concat cs))) 10 True @ [32] @ str name @ [10], False) \<and> cat w rs = (concat cs, False)"
proof -
  let ?s = "fold wc_byte (concat cs) \<lparr>wl = 0, ww = 0, wn = 0, inword = False\<rparr>"
  have "wl ?s = of_nat (count_list (concat cs) 10)" "ww ?s = of_nat (length (words_of (concat cs)))" "wn ?s = of_nat (length (concat cs))"
    using wc_fold [of "concat cs" "\<lparr>wl = 0, ww = 0, wn = 0, inword = False\<rparr>"] by simp_all
  then show ?thesis using wc_read_ok [OF assms(1)] cat_ok [OF assms(1,3)] assms(2) by (simp add: wc_def printf_def chars_def)
qed

text \<open>\<open>echo\<close> separates its arguments by blanks and ends with a newline.\<close>

fun joined :: "u8 list list \<Rightarrow> u8 list" where
  "joined [] = []"
| "joined [x] = x @ [10]"
| "joined (x # y # zs) = x @ [32] @ joined (y # zs)"

lemma echo_ok:
  assumes "str sp = [32]" and "str nl = [10]" and "sp \<noteq> 0" and "nl \<noteq> 0" and "0 \<notin> set as"
  shows "echo_main str sp nl as = Inr (joined (map str as))"
  using assms(5)
proof (induction as)
  case (Cons a as)
  then show ?case using assms by (cases as) (auto simp: printf_def chars_def)
qed simp

lemma fmtname_ok:
  assumes "47 \<notin> set n"
  shows "fmtname (p @ 47 # n) = fmtname n" and "fmtname n = n @ replicate (14 - length n) 32"
proof -
  have t: "takeWhile (\<lambda>c. c \<noteq> 47) (rev n @ 47 # rev p) = rev n" "takeWhile (\<lambda>c. c \<noteq> 47) (rev n) = rev n"
    using assms by (auto simp: takeWhile_append takeWhile_eq_all_conv)
  then show "fmtname (p @ 47 # n) = fmtname n" "fmtname n = n @ replicate (14 - length n) 32" unfolding fmtname_def Let_def rev_append rev.simps append_assoc append.simps t rev_rev_ident by simp_all
qed

lemma each_arg_ok: "each_arg call as = takeWhile (\<lambda>a. 0 \<le> call a) as @ take 1 (dropWhile (\<lambda>a. 0 \<le> call a) as)"
  by (induction as) auto

end
