(* ===== verification/Memide.thy ===== *)
theory Memide
  imports Bio
begin

text \<open>
  The driver that keeps the disk in memory (\<^verbatim>\<open>memide.c\<close>, an alternative to \<^verbatim>\<open>ide.c\<close>). The disk image is a list of bytes; what the linker provides is its
  start and size. The driver implements the same step as \<open>iderw\<close> of theory \<open>Bio\<close> on requests for device 1 that lie on the image.
\<close>

record memide_st =
  memdisk :: "u8 list"
  mbufs :: "nat \<Rightarrow> buf"

definition disksize :: "memide_st \<Rightarrow> nat" where
  "disksize s = length (memdisk s) div BSIZE"

definition memide_rw :: "int \<Rightarrow> nat \<Rightarrow> memide_st \<Rightarrow> kerr + memide_st" where
  "memide_rw me i s =
    (let b = mbufs s i; p = b_blockno b * BSIZE in
     if \<not> holdingsleep me (b_lock b) then Inl (Panic ''iderw: buf not locked'')
     else if b_valid b \<and> \<not> b_dirty b then Inl (Panic ''iderw: nothing to do'')
     else if b_dev b \<noteq> 1 then Inl (Panic ''iderw: request not for disk 1'')
     else if b_blockno b \<ge> disksize s then Inl (Panic ''iderw: block out of range'')
     else if b_dirty b then
       Inr (s\<lparr>memdisk := take p (memdisk s) @ take BSIZE (b_data b) @ drop (p + BSIZE) (memdisk s), mbufs := (mbufs s)(i := b\<lparr>b_valid := True, b_dirty := False\<rparr>)\<rparr>)
     else Inr (s\<lparr>mbufs := (mbufs s)(i := b\<lparr>b_data := take BSIZE (drop p (memdisk s)), b_valid := True\<rparr>)\<rparr>))"

text \<open>The disk that the image stands for.\<close>

definition image_disk :: "u8 list \<Rightarrow> nat \<Rightarrow> block" where
  "image_disk xs b = take BSIZE (drop (b * BSIZE) xs)"

definition same_disk :: "memide_st \<Rightarrow> bst \<Rightarrow> bool" where
  "same_disk m s \<longleftrightarrow> mbufs m = bufs s \<and> (\<forall>b < disksize m. disk s 1 b = image_disk (memdisk m) b) \<and> disksize m \<le> FSSIZE \<and> havedisk1 s"

lemma image_write:
  assumes c: "c < length xs div BSIZE" and v: "length v = BSIZE"
  defines "ys \<equiv> take (c * BSIZE) xs @ v @ drop (c * BSIZE + BSIZE) xs"
  shows "length ys = length xs" and "b < length xs div BSIZE \<Longrightarrow> image_disk ys b = (if b = c then v else image_disk xs b)"
proof -
  have B: "0 < BSIZE" by (simp add: BSIZE_def)
  have inside: "a * BSIZE + BSIZE \<le> length xs" if "a < length xs div BSIZE" for a
  proof -
    have "Suc a * BSIZE \<le> length xs div BSIZE * BSIZE" using that by (intro mult_le_mono1) simp
    from order_trans [OF this div_times_less_eq_dividend] show ?thesis by simp
  qed
  note ic = inside [OF c]
  show len: "length ys = length xs" using ic v by (simp add: ys_def)
  assume b: "b < length xs div BSIZE"
  note ib = inside [OF b]
  show "image_disk ys b = (if b = c then v else image_disk xs b)"
  proof (rule nth_equalityI)
    show "length (image_disk ys b) = length (if b = c then v else image_disk xs b)" using ib len v by (simp add: image_disk_def)
    fix j
    assume "j < length (image_disk ys b)"
    then have j: "j < BSIZE" by (simp add: image_disk_def)
    have "image_disk ys b ! j = ys ! (b * BSIZE + j)" "image_disk xs b ! j = xs ! (b * BSIZE + j)" using j ib len by (simp_all add: image_disk_def)
    moreover have "ys ! (b * BSIZE + j) = (if b = c then v ! j else xs ! (b * BSIZE + j))"
    proof (cases b c rule: linorder_cases)
      case less
      then have "Suc b * BSIZE \<le> c * BSIZE" by (intro mult_le_mono1) simp
      then show ?thesis using less j ic by (simp add: ys_def nth_append)
    next
      case equal
      then show ?thesis using j v ic by (simp add: ys_def nth_append)
    next
      case greater
      then have "Suc c * BSIZE \<le> b * BSIZE" by (intro mult_le_mono1) simp
      then have k: "length (take (c * BSIZE) xs @ v) \<le> b * BSIZE + j" "length (take (c * BSIZE) xs @ v) = c * BSIZE + BSIZE" using v ic by simp_all
      have "ys ! (b * BSIZE + j) = drop (c * BSIZE + BSIZE) xs ! (b * BSIZE + j - (c * BSIZE + BSIZE))"
        unfolding ys_def append_assoc [symmetric] using k nth_append_right [OF k(1)] by simp
      also have "\<dots> = xs ! (b * BSIZE + j)" using k ic by (simp add: nth_drop)
      finally show ?thesis using greater by simp
    qed
    ultimately show "image_disk ys b ! j = (if b = c then v else image_disk xs b) ! j" by simp
  qed
qed

lemma memide_refines:
  assumes r: "same_disk m s" and i: "b_dev (mbufs m i) = 1" "b_blockno (mbufs m i) < disksize m" "length (b_data (mbufs m i)) = BSIZE"
  shows "case memide_rw me i m of Inl e \<Rightarrow> iderw me i s = Inl e | Inr m' \<Rightarrow> succeeds (iderw me i s) (\<lambda>s'. same_disk m' s')"
proof -
  let ?b = "mbufs m i"
  have b: "bufs s i = ?b" "b_blockno ?b < FSSIZE" "havedisk1 s" using r i by (auto simp: same_disk_def)
  note w = image_write [OF i(2) [unfolded disksize_def] i(3)]
  consider "\<not> holdingsleep me (b_lock ?b) \<or> b_valid ?b \<and> \<not> b_dirty ?b" | "holdingsleep me (b_lock ?b)" "b_dirty ?b" | "holdingsleep me (b_lock ?b)" "\<not> b_valid ?b" "\<not> b_dirty ?b" by blast
  then show ?thesis
  proof cases
    case 1
    then show ?thesis using b by (auto simp: memide_rw_def iderw_def Let_def)
  next
    case 2
    let ?ys = "take (b_blockno ?b * BSIZE) (memdisk m) @ b_data ?b @ drop (b_blockno ?b * BSIZE + BSIZE) (memdisk m)" and ?d = "disk_put 1 (b_blockno ?b) (b_data ?b) (disk s)"
    have m: "memide_rw me i m = Inr (m\<lparr>memdisk := ?ys, mbufs := (mbufs m)(i := ?b\<lparr>b_valid := True, b_dirty := False\<rparr>)\<rparr>)"
      using 2 i by (simp add: memide_rw_def Let_def)
    have s: "iderw me i s = Inr (s\<lparr>disk := ?d, hist := hist s @ [?d], bufs := (bufs s)(i := ?b\<lparr>b_valid := True, b_dirty := False\<rparr>)\<rparr>)"
      using 2 i(1) b by (simp add: iderw_def upd_b_def Let_def)
    have "?d 1 c = image_disk ?ys c" if "c < length (memdisk m) div BSIZE" for c
      using w(2) [OF that] r that by (simp add: disk_put_def same_disk_def disksize_def)
    then show ?thesis unfolding m s using r w(1) by (simp add: same_disk_def disksize_def)
  next
    case 3
    have e: "?b\<lparr>b_data := x, b_valid := True, b_dirty := False\<rparr> = ?b\<lparr>b_data := x, b_valid := True\<rparr>" for x using 3(3) by (cases ?b) simp
    have d: "disk s 1 (b_blockno ?b) = take BSIZE (drop (b_blockno ?b * BSIZE) (memdisk m))" using r i(2) by (simp add: same_disk_def image_disk_def)
    have m: "memide_rw me i m = Inr (m\<lparr>mbufs := (mbufs m)(i := ?b\<lparr>b_data := take BSIZE (drop (b_blockno ?b * BSIZE) (memdisk m)), b_valid := True\<rparr>)\<rparr>)"
      using 3 i by (simp add: memide_rw_def Let_def)
    have "iderw me i s = Inr (s\<lparr>bufs := (bufs s)(i := ?b\<lparr>b_data := disk s 1 (b_blockno ?b), b_valid := True, b_dirty := False\<rparr>)\<rparr>)"
      using 3 i(1) b by (simp add: iderw_def upd_b_def Let_def)
    then show ?thesis unfolding m e d using r by (simp add: same_disk_def disksize_def)
  qed
qed

end
