(* ===== verification/TrapLwp.thy ===== *)
theory TrapLwp
  imports Trap ThreadProps
begin

text \<open>
  Traps and the dispatch of system calls in the kernel with light-weight processes (\<^verbatim>\<open>src/Project2/trap.c\<close>, \<^verbatim>\<open>syscall.c\<close>, \<^verbatim>\<open>sysproc.c\<close>), on the state of theory
  \<open>Threads\<close> and with the conventions of theory \<open>Trap\<close>: \<open>Back\<close> when the interrupted code goes on, \<open>Away\<close> when the thread has left the processor. The calls of \<^verbatim>\<open>sysfile.c\<close> and \<^verbatim>\<open>exec.c\<close>
  and the interrupt handlers of the devices are the record \<open>lops\<close>.
\<close>

section \<open>Definitions\<close>

type_synonym 'e lst = "'e tenv tkst"

record 'e lops =
  lop_ideintr :: "'e tenv \<Rightarrow> kerr + chan list \<times> 'e tenv"
  lop_kbdintr :: "'e tenv \<Rightarrow> kerr + chan list \<times> 'e tenv"
  lop_uartintr :: "'e tenv \<Rightarrow> kerr + chan list \<times> 'e tenv"
  lop_file_call :: "int \<Rightarrow> nat \<Rightarrow> 'e tenv tkst \<Rightarrow> kerr + int option \<times> 'e tenv tkst"

definition sys_kill_th :: "(nat \<Rightarrow> int option) \<Rightarrow> nat \<Rightarrow> 'e lst \<Rightarrow> kerr + int option \<times> 'e lst" where
  "sys_kill_th args c s =
    (case args 0 of None \<Rightarrow> Inr (Some (- 1), s) | Some n \<Rightarrow> bindE (kill_call_th c n s) (\<lambda>(r, t). Inr (Some r, t)))"

definition sys_getpid_th :: "nat \<Rightarrow> 'e lst \<Rightarrow> kerr + int option \<times> 'e lst" where
  "sys_getpid_th c s = bindE (cur c s) (\<lambda>p. Inr (Some (t_pid (tprocs (m s) p)), s))"

definition sys_sbrk_th :: "'e tenv kops \<Rightarrow> (nat \<Rightarrow> int option) \<Rightarrow> nat \<Rightarrow> 'e lst \<Rightarrow> kerr + int option \<times> 'e lst" where
  "sys_sbrk_th K args c s =
    (case args 0 of
       None \<Rightarrow> Inr (Some (- 1), s)
     | Some n \<Rightarrow>
         bindE (cur c s) (\<lambda>p.
           let addr = sint (sh_sz (share_of (m s) p)) in
           bindE (growproc_th K c n s) (\<lambda>(r, t). Inr (Some (if r < 0 then - 1 else addr), t))))"

definition sleep_pass_th :: "nat \<Rightarrow> u32 \<Rightarrow> u32 \<Rightarrow> 'e lst \<Rightarrow> kerr + int option \<times> 'e lst" where
  "sleep_pass_th c n ticks0 s =
    (if xticks (env s) - ticks0 < n then
       bindE (cur c s) (\<lambda>p.
         if t_killed (tprocs (m s) p) then Inr (Some (- 1), s)
         else bindE (sleep_th c TicksChan (\<lambda>e. e) s) (\<lambda>(_, t). Inr (None, t)))
     else Inr (Some 0, s))"

definition sys_sleep_th :: "(nat \<Rightarrow> int option) \<Rightarrow> nat \<Rightarrow> 'e lst \<Rightarrow> kerr + int option \<times> 'e lst" where
  "sys_sleep_th args c s =
    (case args 0 of None \<Rightarrow> Inr (Some (- 1), s) | Some n \<Rightarrow> sleep_pass_th c (word_of_int n) (xticks (env s)) s)"

definition sys_uptime_th :: "'e lst \<Rightarrow> kerr + int option \<times> 'e lst" where
  "sys_uptime_th s = Inr (Some (sint (xticks (env s))), s)"

definition sys_wait_th :: "'e tenv kops \<Rightarrow> nat \<Rightarrow> 'e lst \<Rightarrow> kerr + int option \<times> 'e lst" where
  "sys_wait_th K c s =
    bindE (wait_th K c s) (\<lambda>(r, t). Inr (case r of WReaped n \<Rightarrow> Some n | WNoChild \<Rightarrow> Some (- 1) | WSleep \<Rightarrow> None, t))"

definition sys_thread_create :: "'e tenv kops \<Rightarrow> (nat \<Rightarrow> int option) \<Rightarrow> nat \<Rightarrow> 'e lst \<Rightarrow> kerr + int option \<times> 'e lst" where
  "sys_thread_create K args c s =
    (case (args 0, args 1, args 2) of
       (Some th, Some start, Some arg) \<Rightarrow>
         bindE (thread_create K c (word_of_int th) (word_of_int start) (word_of_int arg) s) (\<lambda>(r, t). Inr (Some r, t))
     | _ \<Rightarrow> Inr (Some (- 1), s))"

definition sys_thread_exit :: "'e tenv kops \<Rightarrow> (nat \<Rightarrow> int option) \<Rightarrow> nat \<Rightarrow> 'e lst \<Rightarrow> kerr + int option \<times> 'e lst" where
  "sys_thread_exit K args c s =
    (case args 0 of
       None \<Rightarrow> Inr (Some (- 1), s)
     | Some v \<Rightarrow> bindE (thread_exit K c (word_of_int v) s) (\<lambda>r. Inr (case r of None \<Rightarrow> (Some 0, s) | Some (_, t) \<Rightarrow> (None, t))))"

definition sys_thread_join :: "'e tenv kops \<Rightarrow> (nat \<Rightarrow> int option) \<Rightarrow> nat \<Rightarrow> 'e lst \<Rightarrow> kerr + int option \<times> 'e lst" where
  "sys_thread_join K args c s =
    (case (args 0, args 1) of
       (Some th, Some ret) \<Rightarrow>
         bindE (thread_join K c th (word_of_int ret) s) (\<lambda>(r, t). Inr (case r of Joined \<Rightarrow> Some 0 | JoinKilled \<Rightarrow> Some (- 1) | JoinSleep \<Rightarrow> None, t))
     | _ \<Rightarrow> Inr (Some (- 1), s))"

text \<open>The limit is compared as an \<^verbatim>\<open>int\<close> and passed on as a \<^verbatim>\<open>uint\<close>.\<close>

definition sys_setmemorylimit :: "(nat \<Rightarrow> int option) \<Rightarrow> 'e lst \<Rightarrow> kerr + int option \<times> 'e lst" where
  "sys_setmemorylimit args s =
    (case (args 0, args 1) of
       (Some n, Some limit) \<Rightarrow>
         if limit < 0 then Inr (Some (- 1), s)
         else let (r, x) = setmemorylimit n (word_of_int limit) (m s) in Inr (Some r, s\<lparr>m := x\<rparr>)
     | _ \<Rightarrow> Inr (Some (- 1), s))"

text \<open>The lines that \<^verbatim>\<open>list\<close> prints: name, pid, tid, stack size, size and limit of every slot in use.\<close>

definition list_lines :: "tst \<Rightarrow> (string \<times> int \<times> int \<times> u32 \<times> u32 \<times> u32) list" where
  "list_lines s =
    map (\<lambda>p. (t_name (tprocs s p), t_pid (tprocs s p), t_tid (tprocs s p), stacksize (share_of s p), sh_sz (share_of s p), memory_limit (share_of s p)))
      (filter (\<lambda>p. t_state (tprocs s p) \<in> {RUNNABLE, RUNNING, SLEEPING, ZOMBIE}) [0..<NPROC])"

definition syscalls_th :: "'e tenv kops \<Rightarrow> 'e lops \<Rightarrow> (nat \<Rightarrow> int option) \<Rightarrow> int \<Rightarrow> nat \<Rightarrow> 'e lst \<Rightarrow> kerr + int option \<times> 'e lst" where
  "syscalls_th K T args num c s =
    (if num = 1 then bindE (fork_th K c s) (\<lambda>(n, t). Inr (Some n, t))
     else if num = 2 then bindE (exit_th K c s) (\<lambda>(_, t). Inr (None, t))
     else if num = 3 then sys_wait_th K c s
     else if num = 6 then sys_kill_th args c s
     else if num = 11 then sys_getpid_th c s
     else if num = 12 then sys_sbrk_th K args c s
     else if num = 13 then sys_sleep_th args c s
     else if num = 14 then sys_uptime_th s
     else if num = 23 then sys_setmemorylimit args s
     else if num = 24 then Inr (Some 0, s)
     else if num = 25 then sys_thread_create K args c s
     else if num = 26 then sys_thread_exit K args c s
     else if num = 27 then sys_thread_join K args c s
     else lop_file_call T num c s)"

definition set_eax_th :: "nat \<Rightarrow> int \<Rightarrow> 'e lst \<Rightarrow> 'e lst" where
  "set_eax_th p v = upd_tp p (\<lambda>t. t\<lparr>t_tf := (t_tf t)\<lparr>tf_eax := word_of_int v\<rparr>\<rparr>)"

definition syscall_th :: "'e tenv kops \<Rightarrow> 'e lops \<Rightarrow> (nat \<Rightarrow> int option) \<Rightarrow> nat \<Rightarrow> 'e lst \<Rightarrow> kerr + trap_end \<times> 'e lst" where
  "syscall_th K T args c s =
    bindE (cur c s) (\<lambda>p.
      let num = sint (tf_eax (t_tf (tprocs (m s) p))) in
      if 0 < num \<and> num < 28 then
        bindE (syscalls_th K T args num c s) (\<lambda>(r, t).
          case r of None \<Rightarrow> Inr (Away, t) | Some v \<Rightarrow> Inr (Back, set_eax_th p v t))
      else Inr (Back, set_eax_th p (- 1) s))"

definition exit_if_killed_th :: "'e tenv kops \<Rightarrow> nat \<Rightarrow> bool \<Rightarrow> 'e lst \<Rightarrow> kerr + trap_end \<times> 'e lst" where
  "exit_if_killed_th K c usr s =
    (case cpu_proc (cpus s c) of
       None \<Rightarrow> Inr (Back, s)
     | Some p \<Rightarrow> if t_killed (tprocs (m s) p) \<and> usr then bindE (exit_th K c s) (\<lambda>(_, t). Inr (Away, t)) else Inr (Back, s))"

definition device_th :: "nat \<Rightarrow> ('e tenv \<Rightarrow> kerr + chan list \<times> 'e tenv) \<Rightarrow> 'e lst \<Rightarrow> kerr + 'e lst" where
  "device_th c h s = bindE (h (env s)) (\<lambda>(chs, e). wakeup_all_th c chs (s\<lparr>env := e\<rparr>))"

definition timer_tick_th :: "nat \<Rightarrow> 'e lst \<Rightarrow> kerr + 'e lst" where
  "timer_tick_th c s =
    (if c = 0 then wakeup_th c TicksChan (s\<lparr>env := (env s)\<lparr>xticks := xticks (env s) + 1\<rparr>\<rparr>) else Inr s)"

definition trap_switch_th :: "'e lops \<Rightarrow> nat \<Rightarrow> trapframe \<Rightarrow> 'e lst \<Rightarrow> kerr + 'e lst" where
  "trap_switch_th T c f s =
    (let n = tf_trapno f in
     if n = T_IRQ0 then timer_tick_th c s
     else if n = T_IRQ0 + 14 then device_th c (lop_ideintr T) s
     else if n = T_IRQ0 + 15 then Inr s
     else if n = T_IRQ0 + 1 then device_th c (lop_kbdintr T) s
     else if n = T_IRQ0 + 4 then device_th c (lop_uartintr T) s
     else if n = T_IRQ0 + 7 \<or> n = T_IRQ0 + 31 then Inr s
     else
       case cpu_proc (cpus s c) of
         None \<Rightarrow> Inl (Panic ''trap'')
       | Some p \<Rightarrow>
           if and (tf_cs f) 3 = 0 then Inl (Panic ''trap'')
           else Inr (upd_tp p (\<lambda>t. t\<lparr>t_killed := True\<rparr>) s))"

text \<open>What runs when the thread is dispatched again after \<^verbatim>\<open>yield\<close>.\<close>

definition trap_resume_th :: "'e tenv kops \<Rightarrow> nat \<Rightarrow> trapframe \<Rightarrow> 'e lst \<Rightarrow> kerr + trap_end \<times> 'e lst" where
  "trap_resume_th K c f s = exit_if_killed_th K c (user_mode f) s"

definition trap_th :: "'e tenv kops \<Rightarrow> 'e lops \<Rightarrow> (nat \<Rightarrow> int option) \<Rightarrow> nat \<Rightarrow> trapframe \<Rightarrow> 'e lst \<Rightarrow> kerr + trap_end \<times> 'e lst" where
  "trap_th K T args c f s =
    (if tf_trapno f = T_SYSCALL then
       bindE (cur c s) (\<lambda>p.
         if t_killed (tprocs (m s) p) then bindE (exit_th K c s) (\<lambda>(_, t). Inr (Away, t))
         else
           bindE (syscall_th K T args c (upd_tp p (\<lambda>t. t\<lparr>t_tf := f\<rparr>) s)) (\<lambda>(r, t).
             if r = Away then Inr (Away, t) else bindE (cur c t) (\<lambda>_. exit_if_killed_th K c True t)))
     else
       bindE (trap_switch_th T c f s) (\<lambda>s1.
       bindE (exit_if_killed_th K c (user_mode f) s1) (\<lambda>(r, s2).
         if r = Away then Inr (Away, s2)
         else
           case cpu_proc (cpus s2 c) of
             None \<Rightarrow> Inr (Back, s2)
           | Some p \<Rightarrow>
               if t_state (tprocs (m s2) p) = RUNNING \<and> tf_trapno f = T_IRQ0
               then bindE (yield_th c s2) (\<lambda>(_, t). Inr (Away, t))
               else trap_resume_th K c f s2)))"

section \<open>Killed threads\<close>

lemma exit_if_killed_Back: "exit_if_killed_th K c usr s = Inr (Back, t) \<Longrightarrow> t = s \<and> (\<forall>p. usr \<and> runs t c = Some p \<longrightarrow> \<not> t_killed (tprocs (m t) p))"
  by (auto simp: exit_if_killed_th_def bindE_def split: option.splits if_splits sum.splits)

text \<open>A thread that goes on in user space after a trap is not marked as killed.\<close>

lemma trap_th_Back:
  assumes "trap_th K T args c f s = Inr (Back, t)" and "tf_trapno f = T_SYSCALL \<or> user_mode f" and "runs t c = Some p"
  shows "\<not> t_killed (tprocs (m t) p)"
  using assms
  by (auto simp: trap_th_def trap_resume_th_def bindE_def split: sum.splits if_splits option.splits dest!: exit_if_killed_Back)

text \<open>The lock code leaves the current process of a processor alone.\<close>

lemma popcli_proc: "popcli c = Inr d \<Longrightarrow> cpu_proc d = cpu_proc c"
  by (auto simp: popcli_def Let_def split: if_splits)

lemma pushcli_proc [simp]: "cpu_proc (pushcli c) = cpu_proc c"
  by (simp add: pushcli_def Let_def)

lemma holding_proc: "holding i c lk = Inr (r, d) \<Longrightarrow> cpu_proc d = cpu_proc c"
  by (auto simp: holding_def bindE_def Let_def split: sum.splits dest: popcli_proc)

lemma plock_acquire_keeps: "plock_acquire c s = Inr t \<Longrightarrow> m t = m s \<and> runs t = runs s"
  by (auto simp: plock_acquire_def acquire_def bindE_def Let_def fun_eq_iff split: sum.splits if_splits dest: holding_proc)

lemma plock_release_keeps: "plock_release c s = Inr t \<Longrightarrow> m t = m s \<and> runs t = runs s"
  by (auto simp: plock_release_def release_def bindE_def Let_def fun_eq_iff split: sum.splits if_splits dest!: holding_proc popcli_proc)

lemma wakeup_th_keeps: "wakeup_th c ch s = Inr t \<Longrightarrow> m t = wakeup1_th ch (m s) \<and> runs t = runs s"
  by (auto simp: wakeup_th_def locked_section_def on_m_def bindE_def split: sum.splits dest!: plock_acquire_keeps plock_release_keeps)

definition killed_kept :: "'e tkst \<Rightarrow> 'e tkst \<Rightarrow> bool" where
  "killed_kept s t \<longleftrightarrow> runs t = runs s \<and> (\<forall>p. t_killed (tprocs (m s) p) \<longrightarrow> t_killed (tprocs (m t) p))"

lemma killed_kept_refl [simp]: "killed_kept s s"
  by (simp add: killed_kept_def)

lemma killed_kept_trans: "killed_kept s t \<Longrightarrow> killed_kept t u \<Longrightarrow> killed_kept s u"
  by (simp add: killed_kept_def)

lemma wakeup_th_killed: "wakeup_th c ch s = Inr t \<Longrightarrow> killed_kept s t"
  by (auto simp: killed_kept_def wakeup1_th_def dest!: wakeup_th_keeps)

lemma wakeup_all_th_killed: "wakeup_all_th c chs s = Inr t \<Longrightarrow> killed_kept s t"
proof (induction chs arbitrary: s)
  case (Cons ch chs)
  then show ?case by (auto simp: bindE_def split: sum.splits intro: killed_kept_trans wakeup_th_killed)
qed simp

lemma trap_switch_th_killed: "trap_switch_th T c f s = Inr t \<Longrightarrow> killed_kept s t"
proof -
  assume t: "trap_switch_th T c f s = Inr t"
  have env: "killed_kept (s\<lparr>env := e\<rparr>) t = killed_kept s t" for e by (simp add: killed_kept_def)
  have dev: "device_th c h s = Inr t \<Longrightarrow> killed_kept s t" for h
    by (auto simp: device_th_def bindE_def env split: sum.splits dest!: wakeup_all_th_killed)
  have tick: "timer_tick_th c s = Inr t \<Longrightarrow> killed_kept s t"
    by (auto simp: timer_tick_th_def env split: if_splits dest!: wakeup_th_killed)
  have upd: "killed_kept s (upd_tp p (\<lambda>t. t\<lparr>t_killed := True\<rparr>) s)" for p by (simp add: killed_kept_def upd_tp_def upd_t_def)
  show ?thesis using t dev tick upd by (auto simp: trap_switch_th_def Let_def split: if_splits option.splits)
qed

text \<open>A trap of a killed thread from user space: the trap is handled, and the thread exits.\<close>

lemma trap_th_killed:
  assumes r: "runs s c = Some p" and k: "t_killed (tprocs (m s) p)" and u: "tf_trapno f = T_SYSCALL \<or> user_mode f"
  shows "trap_th K T args c f s =
    bindE (if tf_trapno f = T_SYSCALL then Inr s else trap_switch_th T c f s) (\<lambda>s1. bindE (exit_th K c s1) (\<lambda>(_, t). Inr (Away, t)))"
proof (cases "tf_trapno f = T_SYSCALL")
  case True
  then show ?thesis using r k by (simp add: trap_th_def cur_def)
next
  case False
  show ?thesis
  proof (cases "trap_switch_th T c f s")
    case (Inr s1)
    then have "runs s1 c = Some p" "t_killed (tprocs (m s1) p)" using trap_switch_th_killed [OF Inr] r k by (auto simp: killed_kept_def fun_eq_iff)
    then show ?thesis using False u Inr by (simp add: trap_th_def exit_if_killed_th_def bindE_assoc split: prod.splits) (auto simp: bindE_def split: sum.splits)
  qed (use False in \<open>simp add: trap_th_def\<close>)
qed

section \<open>Property\<close>


text \<open>Thread 3 of the demonstration family runs on processor 1 when process 2 is killed on processor 0, and the clock ticks.\<close>

definition trap_demo :: "unit lst" where
  "trap_demo = \<lparr>m = tdemo, cpus = (\<lambda>c. \<lparr>ncli = 0, intena = False, iflag = True, cpu_proc = (if c = 0 then Some 0 else if c = 1 then Some 3 else None)\<rparr>),
     plock = initlock, saved_intena = (\<lambda>_. False), env = \<lparr>xticks = 5, others = ()\<rparr>\<rparr>"

definition demo_lops :: "unit lops" where
  "demo_lops = \<lparr>lop_ideintr = \<lambda>e. Inr ([], e), lop_kbdintr = \<lambda>e. Inr ([], e), lop_uartintr = \<lambda>e. Inr ([], e), lop_file_call = \<lambda>_ _ s. Inr (Some 0, s)\<rparr>"

definition demo_frame :: trapframe where
  "demo_frame = \<lparr>tf_eax = 0, tf_esp = 0, tf_eip = 0, tf_cs = 0x1b, tf_ds = 0, tf_es = 0, tf_ss = 0, tf_eflags = 0, tf_trapno = T_IRQ0\<rparr>"


end
