(* ===== verification/Spec2Isabelle.thy ===== *)
theory Spec2Isabelle
  imports MlfqProps ThreadProps LogProps FsAlloc FsProps VmProps PipeProps SysProps ExecLwp VmCopy Umalloc Grep ShellProps Kbd Pmanager Trap Ide ForkVm MkfsBoot Bootmain Progs Memide TrapLwp
begin

text \<open>
  A verification development for HYU-OS, two kernels that extend the xv6 teaching system for the x86: \<^verbatim>\<open>src/Project1\<close> replaces the
  scheduler by a multi-level feedback queue (MLFQ), \<^verbatim>\<open>src/Project2\<close> adds threads (light-weight processes, LWP), memory limits and a
  process manager. Both share the rest of xv6: locks, page allocator, virtual memory, buffer cache, log, file system, files, pipes and
  the user library.

  \<^bold>\<open>Conventions.\<close> An operation of the code is a function on an explicit state. Code that can panic, dereference null, leave an array or
  wait returns \<open>kerr + 'a\<close> (theory \<open>Prelude\<close>): \<open>Panic\<close> with the message of the code, \<open>NullDeref\<close>, \<open>OutOfBounds\<close>, \<open>Spinning\<close> where the
  caller would sleep or spin, \<open>Diverges\<close> where a loop would run for ever. \<open>succeeds m P\<close> says that \<open>m\<close> returns and its result satisfies
  \<open>P\<close>, so every theorem with \<open>succeeds\<close> also says that the code returns. Pointers into tables are indices (\<open>ptr\<close> is an optional index),
  \<^verbatim>\<open>uint\<close> is \<open>32 word\<close>, \<^verbatim>\<open>uchar\<close> is \<open>8 word\<close>, the \<^verbatim>\<open>short\<close> fields on disk are \<open>16 word\<close>; array indices, block numbers and
  offsets inside one block are natural numbers. Loops are structural recursion or \<open>function\<close> with a measure; loops that may run for ever are \<open>partial_function\<close>s with the value \<open>None\<close>; no fuel is used. What a
  component calls in another one that is not its subject is a record of functions (\<open>kops\<close>, \<open>devsw\<close>).

  \<^bold>\<open>Project1: the MLFQ kernel.\<close>
  \<^item> \<open>ProcQueue\<close>: the doubly linked queues of processes (\<^verbatim>\<open>proc.c\<close>: \<^verbatim>\<open>insert\<close>, \<^verbatim>\<open>delete\<close>, \<^verbatim>\<open>dequeue\<close>, \<^verbatim>\<open>merge_queue\<close>) refine lists; the
    locale \<open>proc_queue\<close> is the contract that the scheduler uses.
  \<^item> \<open>Mlfq\<close>, \<open>MlfqOps\<close>: the process table with its five queues, and the code that runs under \<^verbatim>\<open>ptable.lock\<close>: choice, yield with quantum and
    demotion, boosting, sleep and wakeup, kill, exit, priorities.
  \<^item> \<open>Spinlock\<close>, \<open>KLock\<close>: \<^verbatim>\<open>spinlock.c\<close> on several processors; kernel code under one lock.
  \<^item> \<open>MlfqKernel\<close>: the whole system calls (\<^verbatim>\<open>fork\<close>, \<^verbatim>\<open>exit\<close>, \<^verbatim>\<open>wait\<close>, \<^verbatim>\<open>sleep\<close>, \<^verbatim>\<open>yield\<close>, \<^verbatim>\<open>scheduler\<close>, \<^verbatim>\<open>schedulerLock\<close>, ...), with the calls into the rest of the
    kernel as the record \<open>kops\<close> (theory \<open>KOps\<close>).
  \<^item> \<open>MlfqInv\<close>, \<open>MlfqProps\<close>: the invariant over all interleavings of the handlers on any number of processors, absence of panics, and what
    each operation does.

  \<^bold>\<open>Project2: the LWP kernel.\<close>
  \<^item> \<open>Threads\<close>, \<open>ThreadFam\<close>, \<open>ThreadProps\<close>: processes, thread families as linked lists, shared memory records, \<^verbatim>\<open>thread_create\<close>, \<^verbatim>\<open>thread_exit\<close>, \<^verbatim>\<open>thread_join\<close>,
    \<^verbatim>\<open>kill\<close>, \<^verbatim>\<open>exit\<close>, \<^verbatim>\<open>wait\<close>, \<^verbatim>\<open>growproc\<close> with the memory limit. Several theorems are about defects of this code.
  \<^item> \<open>TrapLwp\<close>: \<^verbatim>\<open>trap\<close>, \<^verbatim>\<open>syscall\<close> and \<^verbatim>\<open>sysproc.c\<close> of this kernel, and that no thread of a killed family comes back to user space.

  \<^bold>\<open>The storage stack\<close> (the files are the same in both projects; the map names those of Project2).
  \<^item> \<open>Bytes\<close>: the layout of integers in blocks. \<open>Str\<close>: \<^verbatim>\<open>string.c\<close>.
  \<^item> \<open>Bio\<close>: sleep locks, disk requests and the buffer cache (\<^verbatim>\<open>sleeplock.c\<close>, \<^verbatim>\<open>ide.c\<close>, \<^verbatim>\<open>bio.c\<close>). \<open>binv\<close> is the invariant of the cache, \<open>hst me s H\<close> says
    which buffers the running process holds, \<open>view\<close> is the content of a block as a reader sees it. \<open>hist\<close> lists the disks after each write.
  \<^item> \<open>Log\<close>, \<open>LogProps\<close>: \<^verbatim>\<open>log.c\<close>. \<open>txs\<close> is the state of a transaction; \<open>commit_ok\<close> and \<open>recover_ok\<close> describe every disk that a crash can leave.
  \<^item> \<open>Fs\<close>: all of \<^verbatim>\<open>fs.c\<close>. \<open>FsOps\<close>: the log and the cache as an array of blocks, stated as the locale \<open>block_store\<close> and interpreted on
    \<open>rd_block\<close> and \<open>wr_block\<close>. \<open>FsAlloc\<close>: the bitmap. \<open>FsInode\<close>, \<open>FsProps\<close>: inodes, file contents, directory entries, paths. \<open>FsDir\<close>:
    \<open>dirlookup\<close> as a search for the first entry with a name, and \<open>namei\<close> in the root directory.
  \<^item> \<open>Mkfs\<close>, \<open>MkfsProps\<close>: the image builder \<^verbatim>\<open>mkfs.c\<close>; \<open>files_ok\<close> is the invariant of the blocks that inodes own, \<open>mkfs_inv\<close> that of the image under construction,
    \<open>image_ok\<close> the finished image in the terms of the kernel. \<open>MkfsBoot\<close>: a kernel that boots from the image finds and reads its files.
  \<^item> \<open>Pipe\<close>, \<open>PipeProps\<close>: \<^verbatim>\<open>pipe.c\<close> as a bounded queue, by the locale \<open>functional_refinement\<close> of \<open>Prelude\<close>. \<open>File\<close>: \<^verbatim>\<open>file.c\<close> and \<^verbatim>\<open>pipealloc\<close>.

  \<^bold>\<open>Memory.\<close>
  \<^item> \<open>Kalloc\<close>: \<^verbatim>\<open>kalloc.c\<close> with the free list threaded through the pages. \<open>Vm\<close>: \<^verbatim>\<open>vm.c\<close> on page tables in these pages. \<open>VmInv\<close>: \<open>vm_ok\<close>, the invariant of an
    address space, and \<open>mapped\<close>, the translation. \<open>VmProps\<close>: no double allocation, \<open>allocuvm\<close>, termination of \<open>deallocuvm\<close>.
  \<^item> \<open>VmSpace\<close>: the pages that an address space owns (\<open>owned_ok\<close>, \<open>owns\<close>), how they move between it and the free list (\<open>taken\<close>, \<open>returned\<close>), and that \<open>deallocuvm\<close> and
    \<open>freevm\<close> give each back once. \<open>VmFork\<close>: what \<open>setupkvm\<close> maps (\<open>kernel_pte\<close>). \<open>ForkMem\<close>: \<open>copyuvm\<close> copies all of a process or nothing. \<open>ForkVm\<close>: the record \<open>kops\<close> filled
    with the models of memory and files (\<open>kernel_ops\<close>); the locale \<open>fork_memory\<close> is what \<open>fork\<close> relies on, and its interpretation composes the process code with them.

  \<^bold>\<open>System calls and programs.\<close>
  \<^item> \<open>Sysfile\<close>: argument fetching (\<^verbatim>\<open>syscall.c\<close>) and the calls of \<^verbatim>\<open>sysfile.c\<close> on the user memory and the descriptors of a process (record \<open>ust\<close>).
    \<open>SysProps\<close>: the checks of arguments are exact, and the reference counts of open files stay exact over any sequence of calls (relation \<open>call\<close>).
  \<^item> \<open>Exec\<close>, \<open>ExecLwp\<close>: \<^verbatim>\<open>exec.c\<close> of both projects and \<^verbatim>\<open>loaduvm\<close>, on the file system, the page allocator and the page tables.
    \<open>VmCopy\<close>: what \<^verbatim>\<open>copyout\<close> writes is what a user access reads back, and the stack that a program finds when it starts.
  \<^item> \<open>Umalloc\<close>: the allocator of user programs (\<^verbatim>\<open>umalloc.c\<close>) on a circular list in memory; locale \<open>heap_source\<close> is the contract of \<^verbatim>\<open>sbrk\<close>,
    interpreted on the model of \<^verbatim>\<open>sys_sbrk\<close>.
  \<^item> \<open>Grep\<close>: the matcher of \<^verbatim>\<open>grep.c\<close> and the language of a pattern. \<open>Shell\<close>, \<open>ShellProps\<close>: the parser of \<^verbatim>\<open>sh.c\<close>, that it always ends, and that it reads back
    what the printer \<open>show_line\<close> writes.
  \<^item> \<open>Trap\<close>: \<^verbatim>\<open>trap\<close>, \<^verbatim>\<open>syscall\<close> and \<^verbatim>\<open>sysproc.c\<close> of the MLFQ kernel. Every trap is shown to be a sequence of the steps \<open>kstep\<close> of \<open>MlfqInv\<close>, so the
    invariant of those theories covers all code that a trap runs; \<^verbatim>\<open>setPriority\<close> is the exception, and \<open>MlfqProps\<close> has its defect.
  \<^item> \<open>Ulib\<close> (with \<open>Print\<close>): strings, \<^verbatim>\<open>gets\<close>, \<^verbatim>\<open>atoi\<close> and \<^verbatim>\<open>printf\<close> of the user library. \<open>Pmanager\<close>: the process manager on top of it. \<open>Progs\<close>: \<^verbatim>\<open>wc\<close>, \<^verbatim>\<open>cat\<close> and other
    small programs.

  \<^bold>\<open>Devices.\<close>
  \<^item> \<open>Bootmain\<close>: the boot loader on sectors and physical memory; the segments of the kernel are in memory when it jumps.
  \<^item> \<open>Ide\<close>: the request queue, the registers and the interrupt of the disk driver, refined to the single step \<open>iderw\<close> that \<open>Bio\<close> and everything above it use. \<open>Memide\<close>: the
    driver for a disk in memory, refined to the same step.
  \<^item> \<open>Console\<close>, \<open>ConsoleProps\<close>: formatted output, the text screen as a window on a sheet of paper, and the input ring as a line discipline. \<open>Kbd\<close>: scan codes
    and modifier keys, up to the theorem that a typed line is what a program reads.
  \<^bold>\<open>What the theorems show.\<close> Invariants: every reachable state of the MLFQ kernel has consistent queues and never panics; the page allocator never
  hands out a page twice; every trap runs steps that keep the invariant; the reference counts of open files are exact. Crash safety: a crash at any disk write of a commit leaves all or none of a transaction. Refinement: queues,
  pipes, the logged block store, the disk queue and the console behave as lists, a bounded queue, an array, a sequence of single requests and a
  line discipline. Composition: what \<^verbatim>\<open>mkfs\<close> puts on a disk the kernel reads after boot; \<open>fork\<close> on
  the models of memory and files. Round trips: file contents, inodes, directory entries, commands of the shell and of the process manager, numbers. Safety of the user allocator. Functional behaviour of scheduling, process and thread calls, block and memory allocation. Defects of the code are
  stated as theorems too, and listed with the findings of the manifest.

  \<^bold>\<open>Bounds.\<close> The constants are those of \<^verbatim>\<open>param.h\<close>, \<^verbatim>\<open>fs.h\<close>, \<^verbatim>\<open>mmu.h\<close> and \<^verbatim>\<open>memlayout.h\<close>. \<open>room k s\<close> says that a transaction may still log \<open>k\<close> blocks; theorems of
  the file system ask for as many as the operation logs. \<open>allocuvm\<close> is shown to succeed with two free pages for each page asked for, one for
  the page and one for a page table; \<open>copyuvm\<close> with 65 more for the directory and the kernel's tables.

  \<^bold>\<open>Not modelled.\<close> \<^verbatim>\<open>main.c\<close> and the assembly of the boot sector, the interrupt controllers and processor tables (\<^verbatim>\<open>lapic.c\<close>, \<^verbatim>\<open>ioapic.c\<close>, \<^verbatim>\<open>picirq.c\<close>, \<^verbatim>\<open>mp.c\<close>),
  segment and page-table registers, \<^verbatim>\<open>runcmd\<close> of the shell, the programs that only pass system calls on (\<^verbatim>\<open>ln\<close>, \<^verbatim>\<open>init\<close>, \<^verbatim>\<open>zombie\<close>, the output of \<^verbatim>\<open>ls\<close>) and the tests are not modelled.
  Test programs (\<^verbatim>\<open>usertests.c\<close>, \<^verbatim>\<open>forktest.c\<close>, \<^verbatim>\<open>stressfs.c\<close>, \<^verbatim>\<open>thread_*.c\<close>, \<^verbatim>\<open>mlfq_test.c\<close>, ...): they exercise the kernel and are not part of it.
\<close>

end
